(* ===== verification/Prelude.thy ===== *)
theory Prelude
  imports Main "HOL-Library.Word"
begin

unbundle bit_operations_syntax

text \<open>
  Shared ground of the development: the machine types of the C sources, the outcomes a C
  routine can have, sequencing of fallible steps, and lemmas on byte arrays.

  A routine that can fail returns \<open>c_error + 'a\<close>.  \<open>Exit\<close> is a call of \<open>exit\<close>,
  \<open>Panic\<close> is the kernel's \<open>panic\<close>, and \<open>Fault\<close> is undefined behaviour of C (an
  access outside an object, a null dereference, a division by zero): the model stops there
  instead of inventing a value.
\<close>

section \<open>Types\<close>

type_synonym u8 = "8 word"
type_synonym u16 = "16 word"
type_synonym u32 = "32 word"

text \<open>
  How a C function fails to return: \<open>exit\<close>, a kernel panic, an access the machine traps or C leaves
  undefined, or a sleep that the modelled step does not go past.
\<close>

datatype c_error = Exit int | Panic string | Fault | Blocked

type_synonym 'a res = "c_error + 'a"

named_theorems res_simps \<open>computing with results and sequencing\<close>
named_theorems array_simps \<open>arrays: lengths and elements after updates\<close>

section \<open>Sequencing\<close>

fun bindR :: "'e + 'a \<Rightarrow> ('a \<Rightarrow> 'e + 'b) \<Rightarrow> 'e + 'b" where
  "bindR (Inl e) f = Inl e"
| "bindR (Inr x) f = f x"

lemma bindR_cong [fundef_cong]:
  "m = m' \<Longrightarrow> (\<And>x. m' = Inr x \<Longrightarrow> f x = g x) \<Longrightarrow> bindR m f = bindR m' g"
  by (cases m') auto

lemma bindR_eq_Inr [res_simps]: "bindR m f = Inr y \<longleftrightarrow> (\<exists>x. m = Inr x \<and> f x = Inr y)"
  by (cases m) auto

lemma bindR_eq_Inl [res_simps]:
  "bindR m f = Inl e \<longleftrightarrow> m = Inl e \<or> (\<exists>x. m = Inr x \<and> f x = Inl e)"
  by (cases m) auto

lemma bindR_InrE:
  assumes "bindR m f = Inr y"
  obtains x where "m = Inr x" and "f x = Inr y"
  using assms by (auto simp: res_simps)

lemma bindR_assoc: "bindR (bindR m f) g = bindR m (\<lambda>x. bindR (f x) g)"
  by (cases m) auto

lemma bindR_return [simp]: "bindR m Inr = m"
  by (cases m) auto

lemma bindR_split: "P (bindR m f) \<longleftrightarrow>
    (\<forall>e. m = Inl e \<longrightarrow> P (Inl e)) \<and> (\<forall>x. m = Inr x \<longrightarrow> P (f x))"
  by (cases m) auto

text \<open>A guard that stops the computation with an error when a condition fails.\<close>

definition guardR :: "bool \<Rightarrow> 'e \<Rightarrow> 'e + unit" where
  "guardR b e = (if b then Inr () else Inl e)"

lemma guardR_eq_Inr [res_simps]: "guardR b e = Inr u \<longleftrightarrow> b"
  by (simp add: guardR_def)

lemma guardR_eq_Inl [res_simps]: "guardR b e = Inl e' \<longleftrightarrow> \<not> b \<and> e' = e"
  by (auto simp: guardR_def)

lemma guardR_simps [simp]: "guardR True e = Inr ()" "guardR False e = Inl e"
  by (simp_all add: guardR_def)

section \<open>Loops\<close>

text \<open>
  \<open>for_each is body s\<close> runs \<open>body\<close> for the indices \<open>is\<close> in order.  The body ends an
  iteration with \<open>Next\<close> (go on) or \<open>Stop\<close> (\<open>break\<close>, or a \<open>return\<close> of the enclosing
  function); the loop reports which of the two ended it.
\<close>

datatype 's flow = Next 's | Stop 's

fun final :: "'s flow \<Rightarrow> 's" where
  "final (Next s) = s"
| "final (Stop s) = s"

fun for_each :: "'i list \<Rightarrow> ('i \<Rightarrow> 's \<Rightarrow> 's flow res) \<Rightarrow> 's \<Rightarrow> 's flow res" where
  "for_each [] body s = Inr (Next s)"
| "for_each (i # is) body s =
     bindR (body i s) (\<lambda>r. case r of Next s' \<Rightarrow> for_each is body s' | Stop s' \<Rightarrow> Inr (Stop s'))"

lemma for_each_cong:
  assumes "\<And>i s. i \<in> set is \<Longrightarrow> body i s = body' i s"
  shows "for_each is body s = for_each is body' s"
  using assms
proof (induction "is" arbitrary: s)
  case (Cons i "is")
  then have "for_each is body = for_each is body'" by (intro ext) simp
  with Cons show ?case by simp
qed simp

text \<open>An invariant of the body is an invariant of the loop.\<close>

lemma for_each_invariant:
  assumes "for_each is body s = Inr r" and "I s"
    and "\<And>i s r. i \<in> set is \<Longrightarrow> I s \<Longrightarrow> body i s = Inr r \<Longrightarrow> I (final r)"
  shows "I (final r)"
  using assms
proof (induction "is" arbitrary: s)
  case Nil
  then show ?case by auto
next
  case (Cons i "is")
  from Cons.prems(1) obtain r' where r': "body i s = Inr r'"
    and rest: "(case r' of Next s' \<Rightarrow> for_each is body s' | Stop s' \<Rightarrow> Inr (Stop s')) = Inr r"
    by (auto simp: res_simps)
  have I: "I (final r')" using Cons.prems(2,3) r' by fastforce
  show ?case
  proof (cases r')
    case (Next s')
    with rest I Cons show ?thesis by auto
  next
    case (Stop s')
    with rest I show ?thesis by auto
  qed
qed

text \<open>The same with the position in the loop as a parameter of the invariant.\<close>

lemma for_each_upt_invariant:
  assumes "for_each (map f [a..<b]) body s = Inr r" and "a \<le> b" and "I a s"
    and "\<And>k s r. a \<le> k \<Longrightarrow> k < b \<Longrightarrow> I k s \<Longrightarrow> body (f k) s = Inr r \<Longrightarrow>
           (case r of Next s' \<Rightarrow> I (Suc k) s' | Stop s' \<Rightarrow> J s')"
  shows "case r of Next s' \<Rightarrow> I b s' | Stop s' \<Rightarrow> J s'"
  using assms
proof (induction "b - a" arbitrary: a s)
  case 0
  then show ?case by auto
next
  case (Suc d)
  then have lt: "a < b" by simp
  then have "map f [a..<b] = f a # map f [Suc a..<b]" by (simp add: upt_rec)
  with Suc.prems(1) obtain r' where r': "body (f a) s = Inr r'"
    and rest: "(case r' of Next s' \<Rightarrow> for_each (map f [Suc a..<b]) body s'
       | Stop s' \<Rightarrow> Inr (Stop s')) = Inr r"
    by (auto simp: res_simps)
  have step: "case r' of Next s' \<Rightarrow> I (Suc a) s' | Stop s' \<Rightarrow> J s'"
    using Suc.prems(3,4) lt r' by blast
  show ?case
  proof (cases r')
    case (Next s')
    with rest step Suc.hyps lt Suc.prems(4) show ?thesis
      by (intro Suc.hyps(1)) auto
  next
    case (Stop s')
    with rest step show ?thesis by auto
  qed
qed

lemma for_each_never_stops:
  assumes "for_each is body s = Inr r" and "\<And>i s r. body i s = Inr r \<Longrightarrow> \<exists>s'. r = Next s'"
  shows "\<exists>s'. r = Next s'"
  using assms
proof (induction "is" arbitrary: s)
  case (Cons i "is")
  from Cons.prems(1) obtain r' where r': "body i s = Inr r'"
    and rest: "(case r' of Next s' \<Rightarrow> for_each is body s' | Stop s' \<Rightarrow> Inr (Stop s')) = Inr r"
    by (auto simp: res_simps)
  from Cons.prems(2) [OF r'] rest Cons show ?case by auto
qed auto

text \<open>The errors of the body are the errors of the loop.\<close>

lemma for_each_upt_error:
  assumes "for_each [a..<b] body s = Inl e" and "I a s"
    and "\<And>k s s'. a \<le> k \<Longrightarrow> k < b \<Longrightarrow> I k s \<Longrightarrow> body k s = Inr (Next s') \<Longrightarrow> I (Suc k) s'"
    and "\<And>k s e. a \<le> k \<Longrightarrow> k < b \<Longrightarrow> I k s \<Longrightarrow> body k s = Inl e \<Longrightarrow> E e"
  shows "E e"
  using assms
proof (induction "b - a" arbitrary: a s)
  case 0
  then show ?case by simp
next
  case (Suc x)
  then have ab: "a < b" and eq: "[a..<b] = a # [Suc a..<b]" by (auto simp: upt_rec)
  show ?case
  proof (cases "body a s")
    case (Inl e')
    with Suc.prems(1) eq have "body a s = Inl e" by simp
    with Suc.prems(2,4) ab show ?thesis by blast
  next
    case (Inr r)
    show ?thesis
    proof (cases r)
      case (Next s')
      have "I (Suc a) s'" using Suc.prems(2,3) ab Inr Next by blast
      moreover have "for_each [Suc a..<b] body s' = Inl e" using Suc.prems(1) eq Inr Next by simp
      ultimately show ?thesis
        using Suc.hyps Suc.prems(3,4) by (metis Suc_diff_Suc Suc_leD ab diff_Suc_1 leI le_refl not_less_eq_eq)
    next
      case (Stop s')
      with Suc.prems(1) eq Inr show ?thesis by simp
    qed
  qed
qed

section \<open>Arrays\<close>

text \<open>
  \<open>slice p n xs\<close> is the \<open>n\<close> elements at \<open>p\<close>; \<open>blit p ys xs\<close> overwrites \<open>xs\<close> from
  \<open>p\<close> on with \<open>ys\<close>, as \<open>memcpy\<close> does.  The \<open>load\<close> and \<open>store\<close> operations are the
  C accesses: an index outside the array is a \<open>Fault\<close>.
\<close>

definition slice :: "nat \<Rightarrow> nat \<Rightarrow> 'a list \<Rightarrow> 'a list" where
  "slice p n xs = take n (drop p xs)"

definition blit :: "nat \<Rightarrow> 'a list \<Rightarrow> 'a list \<Rightarrow> 'a list" where
  "blit p ys xs = take p xs @ ys @ drop (p + length ys) xs"

definition in_range :: "'a list \<Rightarrow> int \<Rightarrow> nat \<Rightarrow> bool" where
  "in_range xs p n \<longleftrightarrow> 0 \<le> p \<and> p + int n \<le> int (length xs)"

definition load :: "'a list \<Rightarrow> int \<Rightarrow> 'a res" where
  "load xs p = (if in_range xs p 1 then Inr (xs ! nat p) else Inl Fault)"

definition store :: "'a list \<Rightarrow> int \<Rightarrow> 'a \<Rightarrow> 'a list res" where
  "store xs p x = (if in_range xs p 1 then Inr (xs[nat p := x]) else Inl Fault)"

definition load_block :: "'a list \<Rightarrow> int \<Rightarrow> nat \<Rightarrow> 'a list res" where
  "load_block xs p n = (if in_range xs p n then Inr (slice (nat p) n xs) else Inl Fault)"

definition store_block :: "'a list \<Rightarrow> int \<Rightarrow> 'a list \<Rightarrow> 'a list res" where
  "store_block xs p ys = (if in_range xs p (length ys) then Inr (blit (nat p) ys xs) else Inl Fault)"

lemma length_slice [simp]: "length (slice p n xs) = min n (length xs - p)"
  by (simp add: slice_def)

lemma nth_slice [array_simps]: "i < n \<Longrightarrow> p + i < length xs \<Longrightarrow> slice p n xs ! i = xs ! (p + i)"
  by (simp add: slice_def)

lemma slice_0_all [simp]: "length xs \<le> n \<Longrightarrow> slice 0 n xs = xs"
  by (simp add: slice_def)

lemma slice_0 [simp]: "slice p 0 xs = []"
  by (simp add: slice_def)

lemma length_blit [simp]: "p + length ys \<le> length xs \<Longrightarrow> length (blit p ys xs) = length xs"
  by (simp add: blit_def)

lemma nth_blit [array_simps]:
  "p + length ys \<le> length xs \<Longrightarrow> i < length xs \<Longrightarrow>
   blit p ys xs ! i = (if p \<le> i \<and> i < p + length ys then ys ! (i - p) else xs ! i)"
  by (auto simp: blit_def nth_append min_def)

lemma slice_blit_same [array_simps]:
  "p + length ys \<le> length xs \<Longrightarrow> n = length ys \<Longrightarrow> slice p n (blit p ys xs) = ys"
  by (simp add: slice_def blit_def)

lemma slice_eqI:
  assumes "length xs = length ys"
    and "\<And>i. p \<le> i \<Longrightarrow> i < p + n \<Longrightarrow> i < length xs \<Longrightarrow> xs ! i = ys ! i"
  shows "slice p n xs = slice p n ys"
  by (rule nth_equalityI) (use assms in \<open>auto simp: array_simps\<close>)

lemma slice_blit_disjoint [array_simps]:
  "p + length ys \<le> length xs \<Longrightarrow> q + n \<le> p \<or> p + length ys \<le> q \<Longrightarrow>
   slice q n (blit p ys xs) = slice q n xs"
  by (rule slice_eqI) (auto simp: array_simps)

lemma slice_slice: "i + k \<le> n \<Longrightarrow> slice i k (slice p n xs) = slice (p + i) k xs"
  by (simp add: slice_def drop_take add.commute min_def)

lemma take_slice: "take k (slice p n xs) = slice p (min k n) xs"
  by (simp add: slice_def min.commute)

lemma load_eq_Inr [res_simps]: "load xs p = Inr x \<longleftrightarrow> in_range xs p 1 \<and> x = xs ! nat p"
  by (auto simp: load_def)

lemma store_eq_Inr [res_simps]: "store xs p x = Inr ys \<longleftrightarrow> in_range xs p 1 \<and> ys = xs[nat p := x]"
  by (auto simp: store_def)

lemma load_block_eq_Inr [res_simps]:
  "load_block xs p n = Inr ys \<longleftrightarrow> in_range xs p n \<and> ys = slice (nat p) n xs"
  by (auto simp: load_block_def)

lemma store_block_eq_Inr [res_simps]:
  "store_block xs p ys = Inr zs \<longleftrightarrow> in_range xs p (length ys) \<and> zs = blit (nat p) ys xs"
  by (auto simp: store_block_def)

lemma load_never_exits [simp]: "load xs p \<noteq> Inl (Exit c)" "load xs p \<noteq> Inl (Panic m)"
  by (simp_all add: load_def)

lemma store_never_exits [simp]: "store xs p x \<noteq> Inl (Exit c)" "store xs p x \<noteq> Inl (Panic m)"
  by (simp_all add: store_def)

section \<open>C integers\<close>

text \<open>The remainder of C: it has the sign of the dividend.\<close>

definition c_mod :: "int \<Rightarrow> int \<Rightarrow> int" where
  "c_mod a b = (if a < 0 then - ((- a) mod \<bar>b\<bar>) else a mod \<bar>b\<bar>)"

definition c_div :: "int \<Rightarrow> int \<Rightarrow> int" where
  "c_div a b = sgn a * sgn b * (\<bar>a\<bar> div \<bar>b\<bar>)"

lemma c_mod_nonneg [simp]: "0 \<le> a \<Longrightarrow> 0 < b \<Longrightarrow> c_mod a b = a mod b"
  by (simp add: c_mod_def)

lemma c_div_nonneg [simp]: "0 \<le> a \<Longrightarrow> 0 < b \<Longrightarrow> c_div a b = a div b"
  by (cases "a = 0") (simp_all add: c_div_def)

definition INT_MAX :: int where
  "INT_MAX = 2147483647"

lemma sint_word_of_int_fits:
  "- 2147483648 \<le> v \<Longrightarrow> v < 2147483648 \<Longrightarrow> sint (word_of_int v :: u32) = v"
  by (simp add: sint_sbintrunc' signed_take_bit_int_eq_self)

section \<open>Little-endian words\<close>

definition bytes_of_u32 :: "u32 \<Rightarrow> u8 list" where
  "bytes_of_u32 w = [ucast w, ucast (drop_bit 8 w), ucast (drop_bit 16 w), ucast (drop_bit 24 w)]"

definition u32_of_bytes :: "u8 list \<Rightarrow> u32" where
  "u32_of_bytes bs =
     ucast (bs ! 0) OR push_bit 8 (ucast (bs ! 1)) OR push_bit 16 (ucast (bs ! 2))
       OR push_bit 24 (ucast (bs ! 3))"

lemma length_bytes_of_u32 [simp]: "length (bytes_of_u32 w) = 4"
  by (simp add: bytes_of_u32_def)

lemma u32_of_bytes_of_u32 [simp]: "u32_of_bytes (bytes_of_u32 w) = w"
proof (rule bit_word_eqI)
  fix n assume "n < LENGTH(32)"
  then consider "n < 8" | "8 \<le> n" "n < 16" | "16 \<le> n" "n < 24" | "24 \<le> n" "n < 32"
    by fastforce
  then show "bit (u32_of_bytes (bytes_of_u32 w)) n = bit w n"
    by cases (auto simp: u32_of_bytes_def bytes_of_u32_def bit_simps)
qed

section \<open>Sums\<close>

lemma sum_list_int_update:
  "c < length xs \<Longrightarrow> sum_list (xs[c := v]) = sum_list xs - xs ! c + (v :: int)"
proof (induction xs arbitrary: c)
  case (Cons a xs)
  then show ?case by (cases c) auto
qed simp

end
