(* ===== verification/Disk_Image.thy ===== *)
theory Disk_Image
  imports Prelude
begin

text \<open>
  The disk-image tool, \<open>inodes/disk_image.c\<close> with \<open>inodes/inode.h\<close>.  An image is \<open>n\<close>
  blocks of 1024 bytes; the first \<open>m\<close> hold inodes, the others file data and the blocks of
  pointers.  This theory is the program; \<open>Disk_Place\<close> and \<open>Disk_Extract\<close> prove what it does.

  The image (\<open>rawdata\<close>) and the \<open>bitmap\<close> are byte lists, and every access goes through the
  checked accesses of \<open>Prelude\<close>.  C's \<open>int\<close> offsets are \<open>int\<close>: an image fits in an \<open>int\<close>
  (\<open>main\<close> computes \<open>n*BLOCK_SZ\<close> in \<open>int\<close>), so an offset that would overflow lies outside
  the image and is a \<open>Fault\<close> either way.  What \<open>malloc\<close> and the stack leave in
  uninitialised memory is a parameter.  Lines printed for the user are left out.
\<close>

section \<open>The inode (inode.h)\<close>

definition BLOCK_SZ :: int where "BLOCK_SZ = 1024"
definition N_DBLOCKS :: nat where "N_DBLOCKS = 12"
definition N_IBLOCKS :: nat where "N_IBLOCKS = 3"

record disk_inode =
  ino_mode :: int
  ino_nlink :: int
  ino_uid :: int
  ino_gid :: int
  ino_size :: int
  ino_ctime :: int
  ino_mtime :: int
  ino_atime :: int
  ino_dblocks :: "int list"
  ino_iblocks :: "int list"
  ino_i2block :: int
  ino_i3block :: int

text \<open>The struct in memory: 25 consecutive \<open>int\<close>s, 100 bytes.\<close>

definition inode_ints :: "disk_inode \<Rightarrow> int list" where
  "inode_ints ip =
     [ino_mode ip, ino_nlink ip, ino_uid ip, ino_gid ip, ino_size ip,
      ino_ctime ip, ino_mtime ip, ino_atime ip]
     @ ino_dblocks ip @ ino_iblocks ip @ [ino_i2block ip, ino_i3block ip]"

definition inode_of_ints :: "int list \<Rightarrow> disk_inode" where
  "inode_of_ints xs =
     \<lparr>ino_mode = xs ! 0, ino_nlink = xs ! 1, ino_uid = xs ! 2, ino_gid = xs ! 3,
      ino_size = xs ! 4, ino_ctime = xs ! 5, ino_mtime = xs ! 6, ino_atime = xs ! 7,
      ino_dblocks = slice 8 12 xs, ino_iblocks = slice 20 3 xs,
      ino_i2block = xs ! 23, ino_i3block = xs ! 24\<rparr>"

definition int_bytes :: "int \<Rightarrow> u8 list" where
  "int_bytes v = bytes_of_u32 (word_of_int v)"

definition bytes_int :: "u8 list \<Rightarrow> int" where
  "bytes_int bs = sint (u32_of_bytes bs)"

definition inode_bytes :: "disk_inode \<Rightarrow> u8 list" where
  "inode_bytes ip = concat (map int_bytes (inode_ints ip))"

definition inode_of_bytes :: "u8 list \<Rightarrow> disk_inode" where
  "inode_of_bytes bs = inode_of_ints (map (\<lambda>k. bytes_int (slice (4 * k) 4 bs)) [0..<25])"

section \<open>Blocks and integers in the image\<close>

function get_free_block_loop :: "u8 list \<Rightarrow> int \<Rightarrow> int \<Rightarrow> (int \<times> u8 list) res" where
  "get_free_block_loop bitmap n i =
     (if i < n then
        bindR (load bitmap i) (\<lambda>b.
          if b = 0 then bindR (store bitmap i 1) (\<lambda>bitmap. Inr (i, bitmap))
          else get_free_block_loop bitmap n (i + 1))
      else Inr (i, bitmap))"
  by pat_completeness auto
termination
  by (relation "measure (\<lambda>(bitmap, n, i). nat (n - i))") auto

declare get_free_block_loop.simps [simp del]

definition get_free_block :: "u8 list \<Rightarrow> int \<Rightarrow> int \<Rightarrow> (int \<times> u8 list) res" where
  "get_free_block bitmap n m =
     bindR (get_free_block_loop bitmap n m) (\<lambda>(i, bitmap).
       if i = n then Inl (Exit (-1)) else Inr (i, bitmap))"

definition write_int :: "int \<Rightarrow> int \<Rightarrow> u8 list \<Rightarrow> u8 list res" where
  "write_int pos val rawdata = store_block rawdata pos (int_bytes val)"

definition read_int :: "int \<Rightarrow> u8 list \<Rightarrow> int res" where
  "read_int pos rawdata = bindR (load_block rawdata pos 4) (\<lambda>bs. Inr (bytes_int bs))"

text \<open>The offsets \<open>0, 4, \<dots>\<close> below \<open>bound\<close> of the loops \<open>for (i = 0; i < bound; i += 4)\<close>.\<close>

definition steps4 :: "nat \<Rightarrow> int list" where
  "steps4 bound = map (\<lambda>k. 4 * int k) [0..<(bound + 3) div 4]"

definition is_inode :: "int \<Rightarrow> u8 list \<Rightarrow> bool res" where
  "is_inode offset rawdata =
     bindR (for_each (steps4 25) (\<lambda>i found.
        bindR (read_int (offset + i) rawdata) (\<lambda>contents.
          Inr (if contents \<noteq> 0 then Stop True else Next found))) False)
      (\<lambda>r. Inr (final r))"

definition place_inode :: "int \<Rightarrow> int \<Rightarrow> int \<Rightarrow> u8 list \<Rightarrow> disk_inode \<Rightarrow> u8 list res" where
  "place_inode d i m rawdata ip =
     (if d \<ge> m then Inl (Exit (-1))
      else if i \<ge> 10 then Inl (Exit (-1))
      else
        let offset = d * BLOCK_SZ + i * 100 in
        bindR (is_inode offset rawdata) (\<lambda>inode_exists.
          if inode_exists then Inl (Exit (-1))
          else store_block rawdata offset (inode_bytes ip)))"

definition extract_inode_from_data :: "int \<Rightarrow> u8 list \<Rightarrow> disk_inode res" where
  "extract_inode_from_data offset rawdata =
     bindR (load_block rawdata offset 100) (\<lambda>bs. Inr (inode_of_bytes bs))"

section \<open>Extracting a file\<close>

text \<open>
  \<open>out\<close> is the file written so far, so \<open>ftell\<close> is its length.  The length of the final
  partial write is \<open>size % BLOCK_SZ\<close>, converted to an unsigned count.
\<close>

definition emit_block :: "u8 list \<Rightarrow> int \<Rightarrow> int \<Rightarrow> u8 list \<Rightarrow> u8 list res" where
  "emit_block rawdata block_no fsize out =
     (let n = (if int (length out) + BLOCK_SZ > fsize then c_mod fsize BLOCK_SZ else BLOCK_SZ)
      in if n < 0 then Inl Fault
         else bindR (load_block rawdata (block_no * 1024) (nat n)) (\<lambda>bs. Inr (out @ bs)))"

definition extract_walk_indirect_block ::
    "u8 list \<Rightarrow> int \<Rightarrow> int \<Rightarrow> disk_inode \<Rightarrow> u8 list \<Rightarrow> u8 list res" where
  "extract_walk_indirect_block rawdata block_no max_block file_inode out =
     bindR (for_each (steps4 1024) (\<lambda>i out.
        bindR (read_int (block_no * BLOCK_SZ + i) rawdata) (\<lambda>data_block_number.
          if data_block_number < 0 \<or> data_block_number > max_block then Inr (Stop out)
          else bindR (emit_block rawdata data_block_number (ino_size file_inode) out)
                 (\<lambda>out. Inr (Next out)))) out)
      (\<lambda>r. Inr (final r))"

definition extract_walk_doubly_indirect_block ::
    "u8 list \<Rightarrow> int \<Rightarrow> int \<Rightarrow> disk_inode \<Rightarrow> u8 list \<Rightarrow> u8 list res" where
  "extract_walk_doubly_indirect_block rawdata block_no max_block file_inode out =
     bindR (for_each (steps4 1024) (\<lambda>i out.
        bindR (read_int (block_no * BLOCK_SZ + i) rawdata) (\<lambda>indirect_block_number.
          if indirect_block_number < 0 \<or> indirect_block_number > max_block then Inr (Stop out)
          else bindR (extract_walk_indirect_block rawdata indirect_block_number max_block
                        file_inode out)
                 (\<lambda>out. Inr (Next out)))) out)
      (\<lambda>r. Inr (final r))"

definition extract_walk_triply_indirect_block ::
    "u8 list \<Rightarrow> int \<Rightarrow> int \<Rightarrow> disk_inode \<Rightarrow> u8 list \<Rightarrow> u8 list res" where
  "extract_walk_triply_indirect_block rawdata block_no max_block file_inode out =
     bindR (for_each (steps4 1024) (\<lambda>i out.
        bindR (read_int (block_no * BLOCK_SZ + i) rawdata) (\<lambda>doubly_indirect_block_number.
          if doubly_indirect_block_number < 0 \<or> doubly_indirect_block_number > max_block
          then Inr (Stop out)
          else bindR (extract_walk_doubly_indirect_block rawdata doubly_indirect_block_number
                        max_block file_inode out)
                 (\<lambda>out. Inr (Next out)))) out)
      (\<lambda>r. Inr (final r))"

definition extract_file :: "disk_inode \<Rightarrow> u8 list \<Rightarrow> int \<Rightarrow> u8 list \<Rightarrow> u8 list res" where
  "extract_file file_inode rawdata file_size out =
     (let max_block = c_div file_size BLOCK_SZ in
      bindR (for_each [0..<N_DBLOCKS] (\<lambda>i out.
         let block_no = ino_dblocks file_inode ! i in
         if block_no < 0 \<or> block_no > max_block then Inr (Stop out)
         else bindR (emit_block rawdata block_no (ino_size file_inode) out)
                (\<lambda>out. Inr (Next out))) out)
       (\<lambda>r. case r of Stop out \<Rightarrow> Inr out | Next out \<Rightarrow>
      bindR (for_each [0..<N_IBLOCKS] (\<lambda>i out.
         let block_no = ino_iblocks file_inode ! i in
         if block_no < 0 \<or> block_no > max_block then Inr (Stop out)
         else bindR (extract_walk_indirect_block rawdata block_no max_block file_inode out)
                (\<lambda>out. Inr (Next out))) out)
       (\<lambda>r. case r of Stop out \<Rightarrow> Inr out | Next out \<Rightarrow>
      bindR (if ino_i2block file_inode \<ge> 0 \<and> ino_i2block file_inode \<le> max_block
             then extract_walk_doubly_indirect_block rawdata (ino_i2block file_inode) max_block
                    file_inode out
             else Inr out) (\<lambda>out.
      if ino_i3block file_inode \<ge> 0 \<and> ino_i3block file_inode \<le> max_block
      then extract_walk_triply_indirect_block rawdata (ino_i3block file_inode) max_block
             file_inode out
      else Inr out))))"

section \<open>The used blocks of the files already in an image\<close>

definition walk_indirect_block :: "u8 list \<Rightarrow> int \<Rightarrow> u8 list \<Rightarrow> u8 list res" where
  "walk_indirect_block bitmap block_no rawdata =
     bindR (store bitmap block_no 1) (\<lambda>bitmap.
       let block_in_bytes = block_no * BLOCK_SZ in
       bindR (for_each (steps4 1024) (\<lambda>i bitmap.
          bindR (read_int (block_in_bytes + i) rawdata) (\<lambda>direct_block_number.
            if direct_block_number = 0 then Inr (Stop bitmap)
            else bindR (store bitmap direct_block_number 1) (\<lambda>bitmap. Inr (Next bitmap))))
          bitmap)
        (\<lambda>r. Inr (final r)))"

definition walk_doubly_indirect_block :: "u8 list \<Rightarrow> int \<Rightarrow> u8 list \<Rightarrow> u8 list res" where
  "walk_doubly_indirect_block bitmap block_no rawdata =
     bindR (store bitmap block_no 1) (\<lambda>bitmap.
       let block_in_bytes = block_no * BLOCK_SZ in
       bindR (for_each (steps4 1024) (\<lambda>i bitmap.
          bindR (read_int (block_in_bytes + i) rawdata) (\<lambda>indirect_block_number.
            if indirect_block_number = 0 then Inr (Stop bitmap)
            else bindR (walk_indirect_block bitmap indirect_block_number rawdata)
                   (\<lambda>bitmap. Inr (Next bitmap))))
          bitmap)
        (\<lambda>r. Inr (final r)))"

definition walk_triply_indirect_block :: "u8 list \<Rightarrow> int \<Rightarrow> u8 list \<Rightarrow> u8 list res" where
  "walk_triply_indirect_block bitmap block_no rawdata =
     bindR (store bitmap block_no 1) (\<lambda>bitmap.
       let block_in_bytes = block_no * BLOCK_SZ in
       bindR (for_each (steps4 1024) (\<lambda>i bitmap.
          bindR (read_int (block_in_bytes + i) rawdata) (\<lambda>doubly_indirect_block_number.
            if doubly_indirect_block_number = 0 then Inr (Stop bitmap)
            else bindR (walk_doubly_indirect_block bitmap doubly_indirect_block_number rawdata)
                   (\<lambda>bitmap. Inr (Next bitmap))))
          bitmap)
        (\<lambda>r. Inr (final r)))"

definition populate_bitmap_inode :: "disk_inode \<Rightarrow> u8 list \<Rightarrow> u8 list \<Rightarrow> u8 list res" where
  "populate_bitmap_inode file_inode bitmap rawdata =
     bindR (for_each [0..<N_DBLOCKS] (\<lambda>i bitmap.
        let block_no = ino_dblocks file_inode ! i in
        if block_no = 0 then Inr (Stop bitmap)
        else bindR (store bitmap block_no 1) (\<lambda>bitmap. Inr (Next bitmap))) bitmap)
      (\<lambda>r. case r of Stop bitmap \<Rightarrow> Inr bitmap | Next bitmap \<Rightarrow>
     bindR (for_each [0..<N_IBLOCKS] (\<lambda>i bitmap.
        let block_no = ino_iblocks file_inode ! i in
        if block_no = 0 then Inr (Stop bitmap)
        else bindR (walk_indirect_block bitmap block_no rawdata)
               (\<lambda>bitmap. Inr (Next bitmap))) bitmap)
      (\<lambda>r. case r of Stop bitmap \<Rightarrow> Inr bitmap | Next bitmap \<Rightarrow>
     bindR (if ino_i2block file_inode \<noteq> 0
            then walk_doubly_indirect_block bitmap (ino_i2block file_inode) rawdata
            else Inr bitmap) (\<lambda>bitmap.
     if ino_i3block file_inode \<noteq> 0
     then walk_triply_indirect_block bitmap (ino_i3block file_inode) rawdata
     else Inr bitmap)))"

definition walk_inodes_insert :: "u8 list \<Rightarrow> u8 list \<Rightarrow> int \<Rightarrow> u8 list res" where
  "walk_inodes_insert rawdata bitmap m =
     bindR (for_each (map int [0..<nat m]) (\<lambda>i bitmap.
        for_each (map int [0..<10]) (\<lambda>j bitmap.
          let offset = i * BLOCK_SZ + j * 100 in
          bindR (is_inode offset rawdata) (\<lambda>inode_exists.
            if inode_exists then
              bindR (extract_inode_from_data offset rawdata) (\<lambda>file_inode.
              bindR (populate_bitmap_inode file_inode bitmap rawdata) (\<lambda>bitmap.
                Inr (Next bitmap)))
            else Inr (Next bitmap))) bitmap) bitmap)
      (\<lambda>r. Inr (final r))"

definition is_inode_extract :: "int \<Rightarrow> u8 list \<Rightarrow> int \<Rightarrow> int \<Rightarrow> bool res" where
  "is_inode_extract offset rawdata uid gid =
     bindR (extract_inode_from_data offset rawdata) (\<lambda>ip.
       Inr (ino_uid ip = uid \<and> ino_gid ip = gid))"

definition is_block_empty :: "int \<Rightarrow> u8 list \<Rightarrow> u8 list \<Rightarrow> (bool \<times> u8 list) res" where
  "is_block_empty offset rawdata bitmap =
     bindR (for_each (steps4 256) (\<lambda>i bitmap.
        bindR (read_int (offset + i) rawdata) (\<lambda>v.
          if v \<noteq> 0
          then bindR (store bitmap (c_div offset BLOCK_SZ) 1) (\<lambda>bitmap. Inr (Stop bitmap))
          else Inr (Next bitmap))) bitmap)
      (\<lambda>r. case r of
         Stop bitmap \<Rightarrow> Inr (False, bitmap)
       | Next bitmap \<Rightarrow>
           bindR (store bitmap (c_div offset BLOCK_SZ) 0) (\<lambda>bitmap. Inr (True, bitmap)))"

section \<open>Placing a file\<close>

text \<open>
  The state the placing functions share: the image, the bitmap, the position of the input
  file (\<open>ftell(fpr)\<close>), the buffer \<open>buf\<close>, the count \<open>nbytes\<close>, and the inode being filled.
  The input file is the byte list \<open>file\<close>; \<open>file_size\<close> is its length.
\<close>

record placing =
  p_rawdata :: "u8 list"
  p_bitmap :: "u8 list"
  p_pos :: nat
  p_buf :: "u8 list"
  p_nbytes :: nat
  p_ip :: disk_inode

definition take_free_block :: "int \<Rightarrow> int \<Rightarrow> placing \<Rightarrow> (int \<times> placing) res" where
  "take_free_block n m st =
     bindR (get_free_block (p_bitmap st) n m) (\<lambda>(b, bitmap). Inr (b, st\<lparr>p_bitmap := bitmap\<rparr>))"

text \<open>
  \<open>fread\<close> of the next 1024 bytes into \<open>buf\<close>, the count, and \<open>memcpy\<close> of the whole buffer
  into the block: past the end of the file the buffer still holds older bytes.
\<close>

definition copy_next_block :: "u8 list \<Rightarrow> int \<Rightarrow> placing \<Rightarrow> placing res" where
  "copy_next_block file data_blockno st =
     (let chunk = slice (p_pos st) 1024 file;
          buf = blit 0 chunk (p_buf st)
      in bindR (store_block (p_rawdata st) (data_blockno * 1024) buf) (\<lambda>rawdata.
           Inr (st\<lparr>p_rawdata := rawdata, p_buf := buf, p_pos := p_pos st + length chunk,
                   p_nbytes := p_nbytes st + length chunk\<rparr>)))"

text \<open>
  The three pointer-block functions share the loop \<open>while (offset < 256 && *nbytes < file_size)\<close>
  with its \<open>return\<close> once the whole file has been read; the result says whether that
  \<open>return\<close> was taken.
\<close>

definition place_pointers ::
    "u8 list \<Rightarrow> (nat \<Rightarrow> placing \<Rightarrow> placing res) \<Rightarrow> placing \<Rightarrow> (bool \<times> placing) res" where
  "place_pointers file place_entry st =
     bindR (for_each [0..<256] (\<lambda>block_offset (returned, st).
        if p_nbytes st < length file then
          bindR (place_entry block_offset st) (\<lambda>st.
            Inr (if p_nbytes st \<ge> length file then Stop (True, st) else Next (False, st)))
        else Inr (Stop (False, st))) (False, st))
      (\<lambda>r. Inr (final r))"

definition indirect_entry ::
    "u8 list \<Rightarrow> int \<Rightarrow> int \<Rightarrow> int \<Rightarrow> nat \<Rightarrow> placing \<Rightarrow> placing res" where
  "indirect_entry file n m indirect_blockno indirect_block_offset st =
     (let indirect_offset = indirect_blockno * BLOCK_SZ + int indirect_block_offset * 4 in
      bindR (take_free_block n m st) (\<lambda>(data_blockno, st).
      bindR (write_int indirect_offset data_blockno (p_rawdata st)) (\<lambda>rawdata.
      copy_next_block file data_blockno (st\<lparr>p_rawdata := rawdata\<rparr>))))"

definition place_indirect_block ::
    "u8 list \<Rightarrow> int \<Rightarrow> int \<Rightarrow> nat \<Rightarrow> placing \<Rightarrow> (int \<times> placing) res" where
  "place_indirect_block file n m num_indirect st =
     bindR (take_free_block n m st) (\<lambda>(indirect_blockno, st).
       let st = (if num_indirect \<noteq> 21
                 then st\<lparr>p_ip := (p_ip st)\<lparr>ino_iblocks :=
                            (ino_iblocks (p_ip st))[num_indirect := indirect_blockno]\<rparr>\<rparr>
                 else st) in
       bindR (place_pointers file (indirect_entry file n m indirect_blockno) st)
         (\<lambda>(returned, st).
            Inr (if returned \<or> num_indirect = 21 then indirect_blockno else 0, st)))"

definition doubly_indirect_entry ::
    "u8 list \<Rightarrow> int \<Rightarrow> int \<Rightarrow> int \<Rightarrow> nat \<Rightarrow> placing \<Rightarrow> placing res" where
  "doubly_indirect_entry file n m doubly_indirect_blockno doubly_indirect_block_offset st =
     (let doubly_indirect_offset =
            doubly_indirect_blockno * BLOCK_SZ + int doubly_indirect_block_offset * 4 in
      bindR (place_indirect_block file n m 21 st) (\<lambda>(indirect_blockno, st).
      bindR (write_int doubly_indirect_offset indirect_blockno (p_rawdata st)) (\<lambda>rawdata.
        Inr (st\<lparr>p_rawdata := rawdata\<rparr>))))"

definition place_doubly_indirect_block ::
    "u8 list \<Rightarrow> int \<Rightarrow> int \<Rightarrow> bool \<Rightarrow> placing \<Rightarrow> (int \<times> placing) res" where
  "place_doubly_indirect_block file n m triple_flag st =
     bindR (take_free_block n m st) (\<lambda>(doubly_indirect_blockno, st).
       let st = (if \<not> triple_flag
                 then st\<lparr>p_ip := (p_ip st)\<lparr>ino_i2block := doubly_indirect_blockno\<rparr>\<rparr>
                 else st) in
       bindR (place_pointers file (doubly_indirect_entry file n m doubly_indirect_blockno) st)
         (\<lambda>(returned, st).
            Inr (if returned \<or> triple_flag then doubly_indirect_blockno else 0, st)))"

definition triply_indirect_entry ::
    "u8 list \<Rightarrow> int \<Rightarrow> int \<Rightarrow> int \<Rightarrow> nat \<Rightarrow> placing \<Rightarrow> placing res" where
  "triply_indirect_entry file n m triply_indirect_blockno triply_indirect_block_offset st =
     (let triply_indirect_offset =
            triply_indirect_blockno * BLOCK_SZ + int triply_indirect_block_offset * 4 in
      bindR (place_doubly_indirect_block file n m True st) (\<lambda>(doubly_indirect_blockno, st).
      bindR (write_int triply_indirect_offset doubly_indirect_blockno (p_rawdata st))
        (\<lambda>rawdata. Inr (st\<lparr>p_rawdata := rawdata\<rparr>))))"

definition place_triply_indirect_block ::
    "u8 list \<Rightarrow> int \<Rightarrow> int \<Rightarrow> placing \<Rightarrow> placing res" where
  "place_triply_indirect_block file n m st =
     bindR (take_free_block n m st) (\<lambda>(triply_indirect_blockno, st).
       let st = st\<lparr>p_ip := (p_ip st)\<lparr>ino_i3block := triply_indirect_blockno\<rparr>\<rparr> in
       bindR (place_pointers file (triply_indirect_entry file n m triply_indirect_blockno) st)
         (\<lambda>(returned, st). Inr st))"

text \<open>The direct blocks of \<open>place_file\<close>, and its loop over the three indirect blocks.\<close>

definition place_direct_blocks :: "u8 list \<Rightarrow> int \<Rightarrow> int \<Rightarrow> placing \<Rightarrow> placing res" where
  "place_direct_blocks file n m st =
     bindR (for_each [0..<N_DBLOCKS] (\<lambda>iterator st.
        bindR (take_free_block n m st) (\<lambda>(blockno, st).
          let st = st\<lparr>p_ip := (p_ip st)\<lparr>ino_dblocks :=
                         (ino_dblocks (p_ip st))[iterator := blockno]\<rparr>\<rparr> in
          bindR (copy_next_block file blockno st) (\<lambda>st.
            Inr (if p_nbytes st \<ge> length file then Stop st else Next st)))) st)
      (\<lambda>r. Inr (final r))"

definition place_indirect_blocks :: "u8 list \<Rightarrow> int \<Rightarrow> int \<Rightarrow> placing \<Rightarrow> placing res" where
  "place_indirect_blocks file n m st =
     bindR (for_each [0..<N_IBLOCKS] (\<lambda>num_indirect st.
        if p_nbytes st < length file then
          bindR (place_indirect_block file n m num_indirect st) (\<lambda>(_, st). Inr (Next st))
        else Inr (Stop st)) st)
      (\<lambda>r. Inr (final r))"

text \<open>
  \<open>place_file\<close>.  \<open>file\<close> is the input file if it could be opened; \<open>ip0\<close> and \<open>buf0\<close> are what
  \<open>malloc\<close> and the stack hold, \<open>stamps\<close> the three results of \<open>random()\<close>.
\<close>

definition place_file ::
    "u8 list option \<Rightarrow> int \<Rightarrow> int \<Rightarrow> int \<Rightarrow> int \<Rightarrow> int \<Rightarrow> u8 list \<Rightarrow> u8 list \<Rightarrow> int \<Rightarrow>
     disk_inode \<Rightarrow> u8 list \<Rightarrow> int \<times> int \<times> int \<Rightarrow> (u8 list \<times> u8 list) res" where
  "place_file file_opt uid gid d i m rawdata bitmap n ip0 buf0 stamps =
     (case file_opt of None \<Rightarrow> Inl (Exit (-1)) | Some file \<Rightarrow>
      let (ct, mt, at) = stamps;
          ip = ip0\<lparr>ino_mode := 0, ino_nlink := 1, ino_uid := uid, ino_gid := gid,
                   ino_ctime := ct, ino_mtime := mt, ino_atime := at\<rparr>;
          st = \<lparr>p_rawdata = rawdata, p_bitmap = bitmap, p_pos = 0, p_buf = buf0,
                p_nbytes = 0, p_ip = ip\<rparr> in
      bindR (place_direct_blocks file n m st) (\<lambda>st.
      bindR (place_indirect_blocks file n m st) (\<lambda>st.
      bindR (if p_nbytes st < length file
             then bindR (place_doubly_indirect_block file n m False st) (\<lambda>(_, st). Inr st)
             else Inr st) (\<lambda>st.
      bindR (if p_nbytes st < length file then place_triply_indirect_block file n m st
             else Inr st) (\<lambda>st.
      if p_nbytes st < length file then Inl (Exit (-1))
      else
        let ip = (p_ip st)\<lparr>ino_size := int (p_nbytes st)\<rparr> in
        bindR (place_inode d i m (p_rawdata st) ip) (\<lambda>rawdata.
          Inr (rawdata, p_bitmap st)))))))"

end
