(* ===== verification/Disk_Main.thy ===== *)
theory Disk_Main
  imports Disk_Image
begin

text \<open>
  The commands of \<open>inodes/disk_image.c\<close>: the walk over an image that extracts files, the
  list of unused blocks, and \<open>main\<close> with its three commands.

  Files are a map from names to contents.  What the tool does not decide is in the record
  \<open>environment\<close>: which names can be opened for writing, what fresh memory holds, and the
  results of \<open>random()\<close>.  \<open>main\<close> returns the files as it leaves them together with its
  outcome; a run that exits early keeps what it had already written.  After a \<open>Fault\<close> the
  files mean nothing.
\<close>

section \<open>Numbers as text (the C library's \<open>atoi\<close> and \<open>%d\<close>)\<close>

fun dec :: "nat \<Rightarrow> string" where
  "dec n = (if n < 10 then [char_of (48 + n)] else dec (n div 10) @ [char_of (48 + n mod 10)])"

declare dec.simps [simp del]

definition bytes_of_string :: "string \<Rightarrow> u8 list" where
  "bytes_of_string = map (\<lambda>c. word_of_nat (of_char c))"

definition is_digit :: "char \<Rightarrow> bool" where
  "is_digit c \<longleftrightarrow> (48::nat) \<le> of_char c \<and> of_char c \<le> (57::nat)"

fun digits_value :: "int \<Rightarrow> string \<Rightarrow> int" where
  "digits_value acc [] = acc"
| "digits_value acc (c # cs) =
     (if is_digit c then digits_value (10 * acc + (of_char c - 48)) cs else acc)"

definition is_space :: "char \<Rightarrow> bool" where
  "is_space c \<longleftrightarrow> of_char c = (32::nat) \<or> ((9::nat) \<le> of_char c \<and> of_char c \<le> (13::nat))"

text \<open>A value outside \<open>int\<close> is undefined for \<open>atoi\<close>.\<close>

definition atoi :: "string \<Rightarrow> int res" where
  "atoi s =
     (let v = (case dropWhile is_space s of
                 [] \<Rightarrow> 0
               | c # cs \<Rightarrow> if c = CHR ''-'' then - digits_value 0 cs
                           else if c = CHR ''+'' then digits_value 0 cs
                           else digits_value 0 (c # cs))
      in if - INT_MAX - 1 \<le> v \<and> v \<le> INT_MAX then Inr v else Inl Fault)"

section \<open>The environment\<close>

type_synonym files = "string \<Rightarrow> u8 list option"

record environment =
  can_write :: "string \<Rightarrow> bool"
  junk :: "nat \<Rightarrow> nat \<Rightarrow> u8"
  random_results :: "int \<times> int \<times> int"

definition fresh :: "environment \<Rightarrow> nat \<Rightarrow> int \<Rightarrow> u8 list" where
  "fresh env k len = map (junk env k) [0..<nat len]"

section \<open>Extraction of every file\<close>

text \<open>One inode found in block \<open>i\<close>: the next file name is built in \<open>char str[5]\<close>, which holds
  four digits.\<close>

definition extract_found ::
    "environment \<Rightarrow> u8 list \<Rightarrow> string \<Rightarrow> int \<Rightarrow> int \<Rightarrow> nat \<times> files \<Rightarrow> (nat \<times> files) res" where
  "extract_found env rawdata output_path file_size offset st =
     (case st of (file_count, fs) \<Rightarrow>
      let file_count = file_count + 1 in
      bindR (extract_inode_from_data offset rawdata) (\<lambda>file_inode.
      if file_count \<ge> 10000 then Inl Fault
      else
        let file_name = output_path @ ''/file'' @ dec file_count in
        if \<not> can_write env file_name then Inl Fault
        else
          bindR (extract_file file_inode rawdata file_size
                   (case fs file_name of None \<Rightarrow> [] | Some old \<Rightarrow> old)) (\<lambda>out.
            Inr (file_count, fs(file_name \<mapsto> out)))))"

definition walk_inodes_extract ::
    "environment \<Rightarrow> u8 list \<Rightarrow> string \<Rightarrow> int \<Rightarrow> int \<Rightarrow> int \<Rightarrow> u8 list \<Rightarrow> files \<Rightarrow>
     (u8 list \<times> nat \<times> files) res" where
  "walk_inodes_extract env rawdata output_path file_size uid gid bitmap fs =
     (let max_block = c_div file_size BLOCK_SZ in
      bindR (for_each (map int [0..<nat max_block]) (\<lambda>i (bitmap, st).
         bindR (is_block_empty (i * BLOCK_SZ) rawdata bitmap) (\<lambda>(block_empty, bitmap).
         if block_empty then Inr (Next (bitmap, st))
         else
           bindR (for_each (map int [0..<10]) (\<lambda>j st.
              let offset = i * BLOCK_SZ + j * 100 in
              bindR (is_inode_extract offset rawdata uid gid) (\<lambda>inode_exists.
                if inode_exists then
                  bindR (extract_found env rawdata output_path file_size offset st)
                    (\<lambda>st. Inr (Next st))
                else Inr (Next st))) st)
            (\<lambda>r. Inr (Next (bitmap, final r))))) (bitmap, 0, fs))
       (\<lambda>r. Inr (final r)))"

definition unused_listing :: "u8 list \<Rightarrow> int \<Rightarrow> u8 list res" where
  "unused_listing bitmap number_blocks =
     bindR (for_each (map int [0..<nat number_blocks]) (\<lambda>i text.
        bindR (load bitmap i) (\<lambda>b.
          Inr (Next (if b = 0 then text @ bytes_of_string (dec (nat i)) @ [10] else text)))) [])
      (\<lambda>r. Inr (final r))"

definition get_unused_blocks ::
    "environment \<Rightarrow> u8 list \<Rightarrow> int \<Rightarrow> string \<Rightarrow> files \<Rightarrow> files res" where
  "get_unused_blocks env bitmap number_blocks output_path fs =
     (let file_name = output_path @ ''/UNUSED_BLOCKS'' in
      if \<not> can_write env file_name then Inl Fault
      else bindR (unused_listing bitmap number_blocks) (\<lambda>text. Inr (fs(file_name \<mapsto> text))))"

section \<open>The commands\<close>

type_synonym run = "files \<times> unit res"

definition step_run :: "files \<Rightarrow> 'a res \<Rightarrow> ('a \<Rightarrow> run) \<Rightarrow> run" where
  "step_run fs r k = (case r of Inl e \<Rightarrow> (fs, Inl e) | Inr x \<Rightarrow> k x)"

text \<open>\<open>n*BLOCK_SZ\<close> is computed in \<open>int\<close>.\<close>

definition image_bytes :: "int \<Rightarrow> int res" where
  "image_bytes n = (if n * BLOCK_SZ > INT_MAX then Inl Fault else Inr (n * BLOCK_SZ))"

text \<open>The initial marking of the first \<open>m\<close> blocks by \<open>-create\<close>.\<close>

definition reserve_inode_blocks :: "u8 list \<Rightarrow> int \<Rightarrow> u8 list res" where
  "reserve_inode_blocks bitmap m =
     bindR (for_each (map int [0..<nat m]) (\<lambda>i bitmap.
        bindR (store bitmap i 1) (\<lambda>bitmap. Inr (Next bitmap))) bitmap)
      (\<lambda>r. Inr (final r))"

definition main_create ::
    "environment \<Rightarrow> string \<Rightarrow> int \<Rightarrow> int \<Rightarrow> string \<Rightarrow> int \<Rightarrow> int \<Rightarrow> int \<Rightarrow> int \<Rightarrow> files \<Rightarrow> run" where
  "main_create env output_filename n m input_filename uid gid d i fs =
     step_run fs (image_bytes n) (\<lambda>len.
     step_run fs (reserve_inode_blocks (fresh env 1 n) m) (\<lambda>bitmap.
     if \<not> can_write env output_filename then (fs, Inl (Exit (-1)))
     else
       let fs = fs(output_filename \<mapsto> []) in
       step_run fs (place_file (fs input_filename) uid gid d i m (fresh env 0 len) bitmap n
                      (inode_of_bytes (fresh env 2 100)) (fresh env 3 1024)
                      (random_results env))
        (\<lambda>(rawdata, bitmap). (fs(output_filename \<mapsto> rawdata), Inr ()))))"

definition main_insert ::
    "environment \<Rightarrow> string \<Rightarrow> int \<Rightarrow> int \<Rightarrow> string \<Rightarrow> int \<Rightarrow> int \<Rightarrow> int \<Rightarrow> int \<Rightarrow> files \<Rightarrow> run" where
  "main_insert env output_filename n m input_filename uid gid d i fs =
     step_run fs (image_bytes n) (\<lambda>len.
     case fs output_filename of
       None \<Rightarrow> (fs, Inl Fault)
     | Some old \<Rightarrow>
       if len < 0 then (fs, Inl Fault)
       else
       let rawdata = blit 0 (slice 0 (nat len) old) (fresh env 0 len) in
       step_run fs (walk_inodes_insert rawdata (fresh env 1 n) m) (\<lambda>bitmap.
       step_run fs (place_file (fs input_filename) uid gid d i m rawdata bitmap n
                      (inode_of_bytes (fresh env 2 100)) (fresh env 3 1024)
                      (random_results env))
        (\<lambda>(rawdata, bitmap).
          if \<not> can_write env output_filename then (fs, Inl (Exit (-1)))
          else (fs(output_filename \<mapsto> rawdata), Inr ()))))"

definition main_extract ::
    "environment \<Rightarrow> string \<Rightarrow> int \<Rightarrow> int \<Rightarrow> string \<Rightarrow> files \<Rightarrow> run" where
  "main_extract env image_name uid gid path fs =
     (case fs image_name of
        None \<Rightarrow> (fs, Inl Fault)
      | Some rawdata \<Rightarrow>
        let file_size = int (length rawdata) in
        if file_size > INT_MAX then (fs, Inl Fault)
        else
          let max_block = c_div file_size BLOCK_SZ in
          step_run fs (walk_inodes_extract env rawdata path file_size uid gid
                         (fresh env 1 max_block) fs) (\<lambda>(bitmap, _, fs).
          step_run fs (get_unused_blocks env bitmap max_block path fs) (\<lambda>fs. (fs, Inr ()))))"

definition argument :: "string list \<Rightarrow> nat \<Rightarrow> string res" where
  "argument argv k = (if k < length argv then Inr (argv ! k) else Inl Fault)"

definition int_argument :: "string list \<Rightarrow> nat \<Rightarrow> int res" where
  "int_argument argv k = bindR (argument argv k) atoi"

definition main :: "environment \<Rightarrow> string list \<Rightarrow> files \<Rightarrow> run" where
  "main env argv fs =
     (if length argv < 10 then (fs, Inl (Exit (-1)))
      else
        let output_filename = argv ! 3 in
        if argv ! 1 = ''-extract'' then
          step_run fs (int_argument argv 5) (\<lambda>uid.
          step_run fs (int_argument argv 7) (\<lambda>gid.
          main_extract env output_filename uid gid (argv ! 9) fs))
        else if argv ! 1 = ''-insert'' \<or> argv ! 1 = ''-create'' then
          step_run fs (int_argument argv 5) (\<lambda>n.
          step_run fs (int_argument argv 7) (\<lambda>m.
          step_run fs (argument argv 9) (\<lambda>input_filename.
          step_run fs (int_argument argv 11) (\<lambda>uid.
          step_run fs (int_argument argv 13) (\<lambda>gid.
          step_run fs (int_argument argv 15) (\<lambda>d.
          step_run fs (int_argument argv 17) (\<lambda>i.
          (if argv ! 1 = ''-create'' then main_create else main_insert)
             env output_filename n m input_filename uid gid d i fs)))))))
        else (fs, Inl (Exit (-1))))"

end
