(* ===== verification/Disk_Blocks.thy ===== *)
theory Disk_Blocks
  imports Disk_Image
begin

text \<open>
  Lemmas on the disk image a block at a time: the block allocator of
  \<open>inodes/disk_image.c\<close> and what a write to one block does to the others.  Proofs above this
  theory speak of blocks and of their 256 entries, not of bytes.
\<close>

section \<open>Integers in four bytes\<close>

lemma length_int_bytes [simp]: "length (int_bytes v) = 4"
  by (simp add: int_bytes_def)

lemma bytes_int_int_bytes [simp]:
  "- 2147483648 \<le> v \<Longrightarrow> v < 2147483648 \<Longrightarrow> bytes_int (int_bytes v) = v"
  by (simp add: bytes_int_def int_bytes_def signed_take_bit_int_eq_self sint_sbintrunc')

section \<open>The allocator\<close>

definition used :: "u8 list \<Rightarrow> int \<Rightarrow> bool" where
  "used bitmap b \<longleftrightarrow> 0 \<le> b \<and> b < int (length bitmap) \<and> bitmap ! nat b \<noteq> 0"

lemma get_free_block_loop_eq:
  assumes "0 \<le> i" and "n \<le> int (length bitmap)"
  shows "get_free_block_loop bitmap n i =
     (case find (\<lambda>b. bitmap ! nat b = 0) [i..n - 1] of
        Some b \<Rightarrow> Inr (b, bitmap[nat b := 1])
      | None \<Rightarrow> Inr (max i n, bitmap))"
  using assms
proof (induction bitmap n i rule: get_free_block_loop.induct)
  case (1 bitmap n i)
  show ?case
  proof (cases "i < n")
    case True
    then have "[i..n - 1] = i # [i + 1..n - 1]" by (subst upto.simps) simp
    moreover have "in_range bitmap i 1" using True 1 by (simp add: in_range_def)
    ultimately show ?thesis
      using True 1 by (subst get_free_block_loop.simps) (auto simp: load_def store_def max_absorb2 split: option.split)
  next
    case False
    then show ?thesis by (subst get_free_block_loop.simps) simp
  qed
qed

lemma find_upto_None: "find P [i..j] = None \<longleftrightarrow> (\<forall>b. i \<le> b \<and> b \<le> j \<longrightarrow> \<not> P b)"
  by (auto simp: find_None_iff)

lemma find_upto_Some:
  "find P [i..j] = Some b \<Longrightarrow> i \<le> b \<and> b \<le> j \<and> P b \<and> (\<forall>c. i \<le> c \<and> c < b \<longrightarrow> \<not> P c)"
proof (induction i j rule: upto.induct)
  case (1 i j)
  show ?case
  proof (cases "i \<le> j")
    case True
    then have upto: "[i..j] = i # [i + 1..j]" by (subst upto.simps) simp
    show ?thesis
    proof (cases "P i")
      case True
      with upto 1 show ?thesis using \<open>i \<le> j\<close> by auto
    next
      case False
      with upto 1 True have "i + 1 \<le> b \<and> b \<le> j \<and> P b \<and> (\<forall>c. i + 1 \<le> c \<and> c < b \<longrightarrow> \<not> P c)" by auto
      then show ?thesis using False by (metis add.commute add_le_less_mono le_less less_add_one
          linorder_not_le zless_imp_add1_zle)
    qed
  next
    case False
    with 1 show ?thesis by simp
  qed
qed

lemma get_free_block_eq:
  assumes "0 \<le> m" and "m \<le> n" and "n \<le> int (length bitmap)"
  shows "get_free_block bitmap n m =
     (case find (\<lambda>b. bitmap ! nat b = 0) [m..n - 1] of
        Some b \<Rightarrow> Inr (b, bitmap[nat b := 1])
      | None \<Rightarrow> Inl (Exit (-1)))"
  using assms
  by (auto simp: get_free_block_def get_free_block_loop_eq max_def split: option.split
      dest: find_upto_Some)

lemma get_free_block_InrD:
  assumes "get_free_block bitmap n m = Inr (b, bitmap')"
    and "0 \<le> m" and "m \<le> n" and "n \<le> int (length bitmap)"
  shows "m \<le> b" and "b < n" and "\<not> used bitmap b" and "bitmap' = bitmap[nat b := 1]"
    and "length bitmap' = length bitmap"
    and "used bitmap' c \<longleftrightarrow> c = b \<or> used bitmap c"
    and "m \<le> c \<Longrightarrow> c < b \<Longrightarrow> used bitmap c"
proof -
  from assms have f: "find (\<lambda>b. bitmap ! nat b = 0) [m..n - 1] = Some b"
    and bm: "bitmap' = bitmap[nat b := 1]"
    by (auto simp: get_free_block_eq split: option.splits)
  from find_upto_Some [OF f] assms bm
  show "m \<le> b" and "b < n" and "\<not> used bitmap b" and "bitmap' = bitmap[nat b := 1]"
    and "length bitmap' = length bitmap"
    and "used bitmap' c \<longleftrightarrow> c = b \<or> used bitmap c"
    and "m \<le> c \<Longrightarrow> c < b \<Longrightarrow> used bitmap c"
    by (auto simp: used_def nth_list_update nat_eq_iff split: if_splits)
qed

section \<open>Blocks\<close>

definition block_of :: "u8 list \<Rightarrow> int \<Rightarrow> u8 list" where
  "block_of rawdata b = slice (nat b * 1024) 1024 rawdata"

definition entry :: "u8 list \<Rightarrow> int \<Rightarrow> nat \<Rightarrow> int" where
  "entry rawdata b j = bytes_int (slice (4 * j) 4 (block_of rawdata b))"

text \<open>A number of a block that lies in the image.\<close>

definition in_image :: "u8 list \<Rightarrow> int \<Rightarrow> bool" where
  "in_image rawdata b \<longleftrightarrow> 0 \<le> b \<and> b * 1024 + 1024 \<le> int (length rawdata)"

lemma in_image_nat: "in_image rawdata b \<Longrightarrow> nat b * 1024 + 1024 \<le> length rawdata"
  by (auto simp: in_image_def)

lemma length_block_of: "in_image rawdata b \<Longrightarrow> length (block_of rawdata b) = 1024"
  using in_image_nat by (fastforce simp: block_of_def)

lemma nat_offset: "0 \<le> b \<Longrightarrow> nat (b * 1024 + 4 * int j) = nat b * 1024 + 4 * j"
  by (simp add: nat_add_distrib nat_mult_distrib)

lemma read_int_entry:
  assumes "in_image rawdata b" and "j < 256"
  shows "read_int (b * BLOCK_SZ + 4 * int j) rawdata = Inr (entry rawdata b j)"
proof -
  have r: "in_range rawdata (b * 1024 + 4 * int j) 4"
    using assms by (auto simp: in_range_def in_image_def)
  have "slice (4 * j) 4 (block_of rawdata b) = slice (nat b * 1024 + 4 * j) 4 rawdata"
    using assms by (simp add: block_of_def slice_slice)
  with r assms show ?thesis
    by (simp add: read_int_def load_block_def BLOCK_SZ_def entry_def nat_offset in_image_def)
qed

lemma blocks_apart:
  fixes b c :: nat
  assumes "b \<noteq> c"
  shows "b * 1024 + 1024 \<le> c * 1024 \<or> c * 1024 + 1024 \<le> b * 1024"
  using assms by linarith

lemma block_of_blit_other:
  assumes "in_image rawdata b" and "nat b * 1024 \<le> p" and "p + length ys \<le> nat b * 1024 + 1024"
    and "0 \<le> c" and "c \<noteq> b"
  shows "block_of (blit p ys rawdata) c = block_of rawdata c"
proof -
  have "nat b \<noteq> nat c" using assms(1,4,5) by (auto simp: in_image_def)
  from blocks_apart [OF this]
  have "nat c * 1024 + 1024 \<le> p \<or> p + length ys \<le> nat c * 1024" using assms by linarith
  moreover have "p + length ys \<le> length rawdata" using assms in_image_nat by fastforce
  ultimately show ?thesis by (simp add: block_of_def slice_blit_disjoint)
qed

lemma block_of_blit_inside:
  assumes "in_image rawdata b" and "q + length ys \<le> 1024"
  shows "block_of (blit (nat b * 1024 + q) ys rawdata) b = blit q ys (block_of rawdata b)"
proof -
  have len: "nat b * 1024 + 1024 \<le> length rawdata" using assms(1) by (rule in_image_nat)
  show ?thesis
    by (rule nth_equalityI)
       (use len assms(2) in \<open>auto simp: block_of_def nth_slice nth_blit\<close>)
qed

text \<open>Writing a whole block, and writing one entry of a block.\<close>

lemma store_block_whole:
  assumes "in_image rawdata b" and "length ys = 1024"
  shows "\<exists>rawdata'. store_block rawdata (b * 1024) ys = Inr rawdata'
     \<and> length rawdata' = length rawdata \<and> block_of rawdata' b = ys
     \<and> (\<forall>c. 0 \<le> c \<longrightarrow> c \<noteq> b \<longrightarrow> block_of rawdata' c = block_of rawdata c)"
proof (intro exI conjI allI impI)
  have nb: "nat (b * 1024) = nat b * 1024" using assms(1) by (auto simp: in_image_def)
  show "store_block rawdata (b * 1024) ys = Inr (blit (nat b * 1024) ys rawdata)"
    using assms by (simp add: store_block_def in_range_def in_image_def nb)
  show "length (blit (nat b * 1024) ys rawdata) = length rawdata"
    using assms in_image_nat by (simp add: in_image_nat)
  show "block_of (blit (nat b * 1024) ys rawdata) b = ys"
    using block_of_blit_inside [OF assms(1), of 0 ys] assms
    by (simp add: blit_def length_block_of)
  show "block_of (blit (nat b * 1024) ys rawdata) c = block_of rawdata c" if "0 \<le> c" "c \<noteq> b" for c
    using block_of_blit_other [OF assms(1)] assms that by simp
qed

lemma write_int_entry:
  assumes "in_image rawdata b" and "j < 256" and "- 2147483648 \<le> v" and "v < 2147483648"
  shows "\<exists>rawdata'. write_int (b * BLOCK_SZ + int j * 4) v rawdata = Inr rawdata'
     \<and> length rawdata' = length rawdata
     \<and> entry rawdata' b j = v \<and> (\<forall>i. i < 256 \<longrightarrow> i \<noteq> j \<longrightarrow> entry rawdata' b i = entry rawdata b i)
     \<and> (\<forall>c. 0 \<le> c \<longrightarrow> c \<noteq> b \<longrightarrow> block_of rawdata' c = block_of rawdata c)"
proof -
  let ?p = "nat b * 1024 + 4 * j"
  let ?r = "blit ?p (int_bytes v) rawdata"
  have len: "length (block_of rawdata b) = 1024" using assms(1) by (rule length_block_of)
  have p: "nat (b * 1024 + int j * 4) = ?p"
    using assms(1) nat_offset [of b j] by (simp add: in_image_def mult.commute)
  have w: "write_int (b * BLOCK_SZ + int j * 4) v rawdata = Inr ?r"
    using assms p by (auto simp: write_int_def store_block_def in_range_def in_image_def BLOCK_SZ_def)
  have blk: "block_of ?r b = blit (4 * j) (int_bytes v) (block_of rawdata b)"
    using assms by (simp add: block_of_blit_inside)
  have j: "slice (4 * j) 4 (block_of ?r b) = int_bytes v"
    unfolding blk using assms(2) len by (simp add: slice_blit_same)
  have i: "slice (4 * i) 4 (block_of ?r b) = slice (4 * i) 4 (block_of rawdata b)"
    if "i \<noteq> j" for i
    unfolding blk using assms(2) len that by (intro slice_blit_disjoint) auto
  have "length ?r = length rawdata" using assms in_image_nat [OF assms(1)] by simp
  moreover have "\<forall>c. 0 \<le> c \<longrightarrow> c \<noteq> b \<longrightarrow> block_of ?r c = block_of rawdata c"
    using block_of_blit_other [OF assms(1)] assms(2) by simp
  ultimately show ?thesis using w i j assms(3,4) by (auto simp: entry_def)
qed

end
