(* ===== verification/Disk_Place.thy ===== *)
theory Disk_Place
  imports Disk_Blocks
begin

text \<open>
  Placing a file in an image (\<open>place_file\<close> of \<open>inodes/disk_image.c\<close> and the functions it
  calls): every byte of the file ends up in a block the inode leads to, only blocks that
  were free are written, and no access leaves the image.

  A file is a sequence of chunks of 1024 bytes.  \<open>chunk_ok\<close> says that a block holds a chunk;
  \<open>ptr_ok\<close> says that a block holds pointers to consecutive parts of the file, each part in
  the way of the next lower level.  The locale \<open>entry_placer\<close> is the contract between one
  step of a pointer block's loop and the loop; the three levels are its interpretations.
\<close>

section \<open>States, chunks and layout\<close>

definition place_inv :: "u8 list \<Rightarrow> int \<Rightarrow> int \<Rightarrow> nat \<Rightarrow> placing \<Rightarrow> bool" where
  "place_inv file n m k st \<longleftrightarrow>
     0 \<le> m \<and> m \<le> n \<and> n < 2147483648 \<and> int (length (p_rawdata st)) = 1024 * n
     \<and> int (length (p_bitmap st)) = n \<and> length (p_buf st) = 1024
     \<and> p_pos st = p_nbytes st \<and> p_nbytes st = min (1024 * k) (length file)"

definition keeps :: "int set \<Rightarrow> int \<Rightarrow> placing \<Rightarrow> placing \<Rightarrow> bool" where
  "keeps E m st st' \<longleftrightarrow>
     length (p_rawdata st') = length (p_rawdata st)
     \<and> length (p_bitmap st') = length (p_bitmap st)
     \<and> (\<forall>c. used (p_bitmap st) c \<longrightarrow> used (p_bitmap st') c)
     \<and> (\<forall>c. 0 \<le> c \<longrightarrow> c \<notin> E \<longrightarrow> c < m \<or> used (p_bitmap st) c \<longrightarrow>
          block_of (p_rawdata st') c = block_of (p_rawdata st) c)"

abbreviation used_set :: "placing \<Rightarrow> int set" where
  "used_set st \<equiv> {c. used (p_bitmap st) c}"

definition chunk :: "u8 list \<Rightarrow> nat \<Rightarrow> u8 list" where
  "chunk file k = slice (1024 * k) 1024 file"

definition chunk_ok :: "int set \<Rightarrow> u8 list \<Rightarrow> int \<Rightarrow> u8 list \<Rightarrow> u8 list \<Rightarrow> int \<Rightarrow> nat \<Rightarrow> bool" where
  "chunk_ok A file m rawdata bitmap e k \<longleftrightarrow>
     m \<le> e \<and> used bitmap e \<and> e \<notin> A
     \<and> take (length (chunk file k)) (block_of rawdata e) = chunk file k"

type_synonym layout = "int set \<Rightarrow> u8 list \<Rightarrow> int \<Rightarrow> u8 list \<Rightarrow> u8 list \<Rightarrow> int \<Rightarrow> nat \<Rightarrow> bool"

definition ptr_ok :: "nat \<Rightarrow> layout \<Rightarrow> layout" where
  "ptr_ok w ok A file m rawdata bitmap b k \<longleftrightarrow>
     m \<le> b \<and> used bitmap b \<and> b \<notin> A
     \<and> (\<forall>j<256. 1024 * (k + w * j) < length file \<longrightarrow>
          ok A file m rawdata bitmap (entry rawdata b j) (k + w * j))"

abbreviation indirect_ok :: layout where "indirect_ok \<equiv> ptr_ok 1 chunk_ok"
abbreviation doubly_ok :: layout where "doubly_ok \<equiv> ptr_ok 256 indirect_ok"
abbreviation triply_ok :: layout where "triply_ok \<equiv> ptr_ok 65536 doubly_ok"

lemma keeps_refl [simp, intro]: "keeps E m st st"
  by (simp add: keeps_def)

lemma keeps_trans [trans]: "keeps E m st st' \<Longrightarrow> keeps E m st' st'' \<Longrightarrow> keeps E m st st''"
  by (auto simp: keeps_def)

lemma keeps_mono: "keeps E m st st' \<Longrightarrow> E \<subseteq> E' \<Longrightarrow> keeps E' m st st'"
  by (auto simp: keeps_def)

text \<open>What may change in a block that was free is of no account to a state that saw it free.\<close>

lemma keeps_weaken:
  assumes "keeps E m st0 st1" and "keeps {b} m st1 st2" and "\<not> used (p_bitmap st0) b" and "m \<le> b"
  shows "keeps E m st0 st2"
  using assms unfolding keeps_def by (metis insert_iff singleton_iff linorder_not_le)

lemma used_in_image:
  "place_inv file n m k st \<Longrightarrow> used (p_bitmap st) b \<Longrightarrow> in_image (p_rawdata st) b"
  by (auto simp: place_inv_def used_def in_image_def)

lemma used_bounds:
  "place_inv file n m k st \<Longrightarrow> used (p_bitmap st) b \<Longrightarrow> - 2147483648 \<le> b \<and> b < 2147483648"
  by (auto simp: place_inv_def used_def)

section \<open>The contract of one entry\<close>

locale entry_placer =
  fixes place_entry :: "u8 list \<Rightarrow> int \<Rightarrow> int \<Rightarrow> int \<Rightarrow> nat \<Rightarrow> placing \<Rightarrow> placing res"
    and ok :: layout
    and w :: nat
  assumes width_pos: "0 < w"
    and place_entry_ok:
      "place_inv file n m k st \<Longrightarrow> 1024 * k < length file \<Longrightarrow> m \<le> b \<Longrightarrow>
       used (p_bitmap st) b \<Longrightarrow> j < 256 \<Longrightarrow> place_entry file n m b j st = Inr st' \<Longrightarrow>
       place_inv file n m (k + w) st' \<and> keeps {b} m st st' \<and> p_ip st' = p_ip st
       \<and> ok (used_set st) file m (p_rawdata st') (p_bitmap st') (entry (p_rawdata st') b j) k
       \<and> (\<forall>i<256. i \<noteq> j \<longrightarrow> entry (p_rawdata st') b i = entry (p_rawdata st) b i)"
    and place_entry_error:
      "place_inv file n m k st \<Longrightarrow> 1024 * k < length file \<Longrightarrow> m \<le> b \<Longrightarrow>
       used (p_bitmap st) b \<Longrightarrow> j < 256 \<Longrightarrow> place_entry file n m b j st = Inl err \<Longrightarrow>
       err = Exit (-1)"
    and ok_antimono: "ok A' file m rawdata bitmap e k \<Longrightarrow> A \<subseteq> A' \<Longrightarrow> ok A file m rawdata bitmap e k"
    and ok_keeps:
      "ok A file m (p_rawdata st) (p_bitmap st) e k \<Longrightarrow> keeps E m st st' \<Longrightarrow> 0 \<le> m \<Longrightarrow> E \<subseteq> A \<Longrightarrow>
       ok A file m (p_rawdata st') (p_bitmap st') e k"
begin

text \<open>The loop invariant: the first \<open>j\<close> entries of block \<open>b\<close> are done.\<close>

definition filled :: "u8 list \<Rightarrow> int \<Rightarrow> int \<Rightarrow> nat \<Rightarrow> int \<Rightarrow> placing \<Rightarrow> nat \<Rightarrow> placing \<Rightarrow> bool" where
  "filled file n m k b st0 j st \<longleftrightarrow>
     place_inv file n m (k + w * j) st \<and> used (p_bitmap st) b \<and> keeps {b} m st0 st
     \<and> p_ip st = p_ip st0
     \<and> (\<forall>i<j. 1024 * (k + w * i) < length file \<longrightarrow>
          ok (used_set st0) file m (p_rawdata st) (p_bitmap st)
             (entry (p_rawdata st) b i) (k + w * i))"

lemma filled_step:
  assumes d: "filled file n m k b st0 j st" and more: "p_nbytes st < length file"
    and b: "m \<le> b" "used (p_bitmap st0) b" and j: "j < 256"
    and run: "place_entry file n m b j st = Inr st'"
  shows "filled file n m k b st0 (Suc j) st'"
proof -
  have inv: "place_inv file n m (k + w * j) st" and u: "used (p_bitmap st) b"
    using d by (auto simp: filled_def)
  have lt: "1024 * (k + w * j) < length file"
    using inv more by (auto simp: place_inv_def)
  have m0: "0 \<le> m" using inv by (simp add: place_inv_def)
  note new = place_entry_ok [OF inv lt b(1) u j run]
  have sub: "used_set st0 \<subseteq> used_set st" using d by (auto simp: filled_def keeps_def)
  have "ok (used_set st0) file m (p_rawdata st') (p_bitmap st')
          (entry (p_rawdata st') b i) (k + w * i)"
    if i: "i < Suc j" "1024 * (k + w * i) < length file" for i
  proof (cases "i = j")
    case True
    with new sub show ?thesis by (auto intro: ok_antimono)
  next
    case False
    with i j have "i < j" "i < 256" by auto
    with d i have "ok (used_set st0) file m (p_rawdata st) (p_bitmap st)
        (entry (p_rawdata st) b i) (k + w * i)" by (simp add: filled_def)
    then have "ok (used_set st0) file m (p_rawdata st') (p_bitmap st')
        (entry (p_rawdata st) b i) (k + w * i)"
      by (rule ok_keeps) (use new m0 b in auto)
    with new False \<open>i < 256\<close> show ?thesis by auto
  qed
  moreover have "keeps {b} m st0 st'" using d new by (auto simp: filled_def intro: keeps_trans)
  moreover have "used (p_bitmap st') b" using u new by (auto simp: keeps_def)
  ultimately show ?thesis using d new by (auto simp: filled_def ac_simps)
qed

text \<open>Once the file has been read, the entries that are left concern no byte of it.\<close>

lemma filled_all:
  assumes d: "filled file n m k b st0 j st" and "j \<le> 256" and "length file \<le> p_nbytes st"
  shows "filled file n m k b st0 256 st"
proof -
  have "length file \<le> 1024 * (k + w * j)" using assms by (auto simp: filled_def place_inv_def)
  moreover have "1024 * (k + w * j) \<le> 1024 * (k + w * i)" if "j \<le> i" for i
    using that by simp
  ultimately have le: "length file \<le> 1024 * (k + w * i)" if "j \<le> i" for i
    using that by (meson le_trans)
  have "i < j" if "1024 * (k + w * i) < length file" for i
    using le [of i] that by (meson linorder_not_le)
  moreover have "place_inv file n m (k + w * 256) st"
    using d le [of 256] le [of j] assms(2) by (simp add: filled_def place_inv_def)
  ultimately show ?thesis using d by (auto simp: filled_def)
qed

lemma place_pointers_ok:
  assumes inv: "place_inv file n m k st" and b: "m \<le> b" "used (p_bitmap st) b"
    and run: "place_pointers file (place_entry file n m b) st = Inr (returned, st')"
  shows "filled file n m k b st 256 st'"
proof -
  let ?I = "\<lambda>j (r :: bool, s). filled file n m k b st j s"
  let ?J = "\<lambda>(r :: bool, s). filled file n m k b st 256 s"
  from run obtain r where
    loop: "for_each (map (\<lambda>j. j) [0..<256]) (\<lambda>block_offset (returned, st).
        if p_nbytes st < length file then
          bindR (place_entry file n m b block_offset st) (\<lambda>st.
            Inr (if p_nbytes st \<ge> length file then Stop (True, st) else Next (False, st)))
        else Inr (Stop (False, st))) (False, st) = Inr r"
    and r: "final r = (returned, st')"
    by (auto simp: place_pointers_def res_simps)
  have "case r of Next s \<Rightarrow> ?I 256 s | Stop s \<Rightarrow> ?J s"
  proof (rule for_each_upt_invariant [OF loop])
    show "?I 0 (False, st)" using inv b by (simp add: filled_def)
    fix j rs r
    assume j: "j < 256" and I: "?I j rs"
      and step: "(\<lambda>(returned, st).
        if p_nbytes st < length file then
          bindR (place_entry file n m b j st) (\<lambda>st.
            Inr (if p_nbytes st \<ge> length file then Stop (True, st) else Next (False, st)))
        else Inr (Stop (False, st))) rs = Inr r"
    obtain ret s where rs: "rs = (ret, s)" by (cases rs)
    show "case r of Next s \<Rightarrow> ?I (Suc j) s | Stop s \<Rightarrow> ?J s"
    proof (cases "p_nbytes s < length file")
      case True
      with step rs obtain s' where s': "place_entry file n m b j s = Inr s'"
        and r: "r = (if p_nbytes s' \<ge> length file then Stop (True, s') else Next (False, s'))"
        by (auto simp: res_simps)
      have "filled file n m k b st (Suc j) s'"
        using filled_step [OF _ True b j s'] I rs by simp
      with r j show ?thesis by (auto intro: filled_all)
    next
      case False
      with step rs have "r = Stop (False, s)" by auto
      with False I rs j show ?thesis by (auto intro: filled_all)
    qed
  qed simp
  with r show ?thesis by (cases r) auto
qed

lemma place_pointers_error:
  assumes inv: "place_inv file n m k st" and b: "m \<le> b" "used (p_bitmap st) b"
    and run: "place_pointers file (place_entry file n m b) st = Inl e"
  shows "e = Exit (-1)"
proof -
  have "for_each [j..<256] (\<lambda>block_offset (returned, st).
        if p_nbytes st < length file then
          bindR (place_entry file n m b block_offset st) (\<lambda>st.
            Inr (if p_nbytes st \<ge> length file then Stop (True, st) else Next (False, st)))
        else Inr (Stop (False, st))) (ret, s) = Inl e \<Longrightarrow> j \<le> 256 \<Longrightarrow>
      filled file n m k b st j s \<Longrightarrow> e = Exit (-1)" for j ret s
  proof (induction "256 - j" arbitrary: j ret s)
    case 0
    then show ?case by simp
  next
    case (Suc d)
    then have j: "j < 256" by simp
    then have upt: "[j..<256] = j # [Suc j..<256]" by (simp add: upt_rec)
    have inv: "place_inv file n m (k + w * j) s" "used (p_bitmap s) b"
      using Suc.prems(3) by (auto simp: filled_def)
    show ?case
    proof (cases "p_nbytes s < length file")
      case True
      have lt: "1024 * (k + w * j) < length file" using inv True by (auto simp: place_inv_def)
      show ?thesis
      proof (cases "place_entry file n m b j s")
        case (Inl e')
        with Suc.prems(1) upt True have "e' = e" by simp
        with Inl place_entry_error [OF inv(1) lt b(1) inv(2) j] show ?thesis by simp
      next
        case (Inr s')
        have d: "filled file n m k b st (Suc j) s'"
          by (rule filled_step [OF Suc.prems(3) True b j Inr])
        show ?thesis
          by (rule Suc.hyps(1) [of "Suc j" False s'])
             (use Suc.hyps(2) Suc.prems(1) upt True Inr d j in \<open>auto split: if_splits\<close>)
      qed
    next
      case False
      with Suc.prems(1) upt show ?thesis by simp
    qed
  qed
  from this [of 0 False st] run inv b show ?thesis
    by (auto simp: place_pointers_def res_simps filled_def)
qed

text \<open>A finished pointer block, seen from before it was allocated.\<close>

lemma pointer_block_ok:
  assumes inv: "place_inv file n m k st0" and b: "m \<le> b" "used (p_bitmap st) b"
    and st: "p_rawdata st = p_rawdata st0" "\<And>c. used (p_bitmap st) c \<longleftrightarrow> c = b \<or> used (p_bitmap st0) c"
      "\<not> used (p_bitmap st0) b" "length (p_bitmap st) = length (p_bitmap st0)"
    and d: "filled file n m k b st 256 st'"
  shows "place_inv file n m (k + 256 * w) st'" and "keeps {} m st0 st'"
    and "ptr_ok w ok (used_set st0) file m (p_rawdata st') (p_bitmap st') b k"
    and "p_ip st' = p_ip st"
proof -
  show "place_inv file n m (k + 256 * w) st'" using d by (simp add: filled_def mult.commute)
  have "keeps {} m st0 st" using st by (auto simp: keeps_def)
  then show "keeps {} m st0 st'"
    using keeps_weaken [OF _ _ st(3) b(1)] d by (auto simp: filled_def)
  have "ok (used_set st0) file m (p_rawdata st') (p_bitmap st') (entry (p_rawdata st') b j) (k + w * j)"
    if "j < 256" "1024 * (k + w * j) < length file" for j
    by (rule ok_antimono [of "used_set st"]) (use d that st(2) in \<open>auto simp: filled_def\<close>)
  then show "ptr_ok w ok (used_set st0) file m (p_rawdata st') (p_bitmap st') b k"
    using b st(3) d by (auto simp: ptr_ok_def filled_def)
  show "p_ip st' = p_ip st" using d by (simp add: filled_def)
qed

lemma ptr_ok_antimono:
  "ptr_ok w ok A' file m rawdata bitmap e k \<Longrightarrow> A \<subseteq> A' \<Longrightarrow> ptr_ok w ok A file m rawdata bitmap e k"
  unfolding ptr_ok_def using ok_antimono by blast

lemma ptr_ok_keeps:
  assumes "ptr_ok w ok A file m (p_rawdata st) (p_bitmap st) e k"
    and "keeps E m st st'" and "0 \<le> m" and "E \<subseteq> A"
  shows "ptr_ok w ok A file m (p_rawdata st') (p_bitmap st') e k"
proof -
  have "block_of (p_rawdata st') e = block_of (p_rawdata st) e"
    using assms by (auto simp: ptr_ok_def keeps_def used_def)
  then have "entry (p_rawdata st') e j = entry (p_rawdata st) e j" for j by (simp add: entry_def)
  moreover have "used (p_bitmap st') e" using assms(1,2) by (auto simp: ptr_ok_def keeps_def)
  moreover have "ok A file m (p_rawdata st') (p_bitmap st') (entry (p_rawdata st) e j) (k + w * j)"
    if "j < 256" "1024 * (k + w * j) < length file" for j
    by (rule ok_keeps [OF _ assms(2-4)]) (use assms(1) that in \<open>simp add: ptr_ok_def\<close>)
  ultimately show ?thesis using assms(1) by (simp add: ptr_ok_def)
qed

end

section \<open>Allocation and one data block\<close>

lemma take_free_block_ok:
  assumes inv: "place_inv file n m k st" and run: "take_free_block n m st = Inr (b, st')"
  shows "m \<le> b" and "b < n" and "\<not> used (p_bitmap st) b"
    and "\<And>c. used (p_bitmap st') c \<longleftrightarrow> c = b \<or> used (p_bitmap st) c" and "used (p_bitmap st') b"
    and "place_inv file n m k st'" and "p_rawdata st' = p_rawdata st" and "p_ip st' = p_ip st"
    and "length (p_bitmap st') = length (p_bitmap st)" and "p_nbytes st' = p_nbytes st"
proof -
  from run obtain bm where bm: "get_free_block (p_bitmap st) n m = Inr (b, bm)"
    and st': "st' = st\<lparr>p_bitmap := bm\<rparr>"
    by (auto simp: take_free_block_def res_simps)
  have pre: "0 \<le> m" "m \<le> n" "n \<le> int (length (p_bitmap st))"
    using inv by (auto simp: place_inv_def)
  note f = get_free_block_InrD [OF bm pre]
  show "m \<le> b" and "b < n" and "\<not> used (p_bitmap st) b"
    and "\<And>c. used (p_bitmap st') c \<longleftrightarrow> c = b \<or> used (p_bitmap st) c" and "used (p_bitmap st') b"
    and "place_inv file n m k st'" and "p_rawdata st' = p_rawdata st" and "p_ip st' = p_ip st"
    and "length (p_bitmap st') = length (p_bitmap st)" and "p_nbytes st' = p_nbytes st"
    using f inv st' by (auto simp: place_inv_def)
qed

lemma take_free_block_error:
  assumes inv: "place_inv file n m k st" and run: "take_free_block n m st = Inl e"
  shows "e = Exit (-1)"
proof -
  have "0 \<le> m" "m \<le> n" "n \<le> int (length (p_bitmap st))"
    using inv by (auto simp: place_inv_def)
  with run show ?thesis
    by (auto simp: take_free_block_def res_simps get_free_block_eq split: option.splits)
qed

lemma copy_next_block_ok:
  assumes inv: "place_inv file n m k st" and u: "used (p_bitmap st) b"
  shows "\<exists>st'. copy_next_block file b st = Inr st' \<and> place_inv file n m (k + 1) st'
     \<and> take (length (chunk file k)) (block_of (p_rawdata st') b) = chunk file k
     \<and> length (p_rawdata st') = length (p_rawdata st)
     \<and> (\<forall>c. 0 \<le> c \<longrightarrow> c \<noteq> b \<longrightarrow> block_of (p_rawdata st') c = block_of (p_rawdata st) c)
     \<and> p_bitmap st' = p_bitmap st \<and> p_ip st' = p_ip st"
proof -
  let ?c = "slice (p_pos st) 1024 file"
  let ?buf = "blit 0 ?c (p_buf st)"
  have c: "?c = chunk file k"
    using inv by (auto simp: place_inv_def chunk_def slice_def min_def)
  have buf: "length ?buf = 1024" using inv by (simp add: place_inv_def)
  obtain rawdata' where r: "store_block (p_rawdata st) (b * 1024) ?buf = Inr rawdata'"
    "length rawdata' = length (p_rawdata st)" "block_of rawdata' b = ?buf"
    "\<forall>c. 0 \<le> c \<longrightarrow> c \<noteq> b \<longrightarrow> block_of rawdata' c = block_of (p_rawdata st) c"
    using store_block_whole [OF used_in_image [OF inv u] buf] by blast
  let ?st' = "st\<lparr>p_rawdata := rawdata', p_buf := ?buf, p_pos := p_pos st + length ?c,
                 p_nbytes := p_nbytes st + length ?c\<rparr>"
  have "copy_next_block file b st = Inr ?st'"
    using r(1) by (simp add: copy_next_block_def Let_def)
  moreover have "place_inv file n m (k + 1) ?st'"
    using inv r(2) buf by (auto simp: place_inv_def min_def)
  moreover have "take (length (chunk file k)) ?buf = chunk file k"
    using c by (simp add: blit_def)
  ultimately show ?thesis using r by (intro exI [of _ ?st']) simp
qed

lemma chunk_ok_antimono:
  "chunk_ok A' file m rawdata bitmap e k \<Longrightarrow> A \<subseteq> A' \<Longrightarrow> chunk_ok A file m rawdata bitmap e k"
  by (auto simp: chunk_ok_def)

lemma chunk_ok_keeps:
  assumes "chunk_ok A file m (p_rawdata st) (p_bitmap st) e k"
    and "keeps E m st st'" and "0 \<le> m" and "E \<subseteq> A"
  shows "chunk_ok A file m (p_rawdata st') (p_bitmap st') e k"
proof -
  have "block_of (p_rawdata st') e = block_of (p_rawdata st) e"
    using assms by (auto simp: chunk_ok_def keeps_def used_def)
  then show ?thesis using assms by (auto simp: chunk_ok_def keeps_def)
qed

section \<open>The three levels\<close>

lemma entry_write:
  assumes inv: "place_inv file n m k st" and u: "used (p_bitmap st) b" "used (p_bitmap st) v"
    and j: "j < 256"
  shows "\<exists>rawdata'. write_int (b * BLOCK_SZ + int j * 4) v (p_rawdata st) = Inr rawdata'
     \<and> place_inv file n m k (st\<lparr>p_rawdata := rawdata'\<rparr>)
     \<and> keeps {b} m st (st\<lparr>p_rawdata := rawdata'\<rparr>)
     \<and> entry rawdata' b j = v \<and> (\<forall>i<256. i \<noteq> j \<longrightarrow> entry rawdata' b i = entry (p_rawdata st) b i)"
proof -
  have bounds: "- 2147483648 \<le> v" "v < 2147483648" using used_bounds [OF inv u(2)] by auto
  from write_int_entry [OF used_in_image [OF inv u(1)] j bounds]
  obtain rawdata' where "write_int (b * BLOCK_SZ + int j * 4) v (p_rawdata st) = Inr rawdata'"
    "length rawdata' = length (p_rawdata st)" "entry rawdata' b j = v"
    "\<forall>i. i < 256 \<longrightarrow> i \<noteq> j \<longrightarrow> entry rawdata' b i = entry (p_rawdata st) b i"
    "\<forall>c. 0 \<le> c \<longrightarrow> c \<noteq> b \<longrightarrow> block_of rawdata' c = block_of (p_rawdata st) c"
    by blast
  then show ?thesis using inv by (intro exI [of _ rawdata']) (auto simp: place_inv_def keeps_def)
qed

text \<open>An entry that is written last, after the part it points to has been placed.\<close>

lemma entry_after_part:
  assumes inv: "place_inv file n m k' st1" and k: "keeps {} m st st1" and ip: "p_ip st1 = p_ip st"
    and b: "used (p_bitmap st) b" and j: "j < 256" and v: "used (p_bitmap st1) v"
    and anti: "\<And>A A' e k. ok A' file m (p_rawdata st1) (p_bitmap st1) e k \<Longrightarrow> A \<subseteq> A' \<Longrightarrow>
                 ok A file m (p_rawdata st1) (p_bitmap st1) e k"
    and keep: "\<And>E A st' e k. ok A file m (p_rawdata st1) (p_bitmap st1) e k \<Longrightarrow> keeps E m st1 st' \<Longrightarrow>
                 0 \<le> m \<Longrightarrow> E \<subseteq> A \<Longrightarrow> ok A file m (p_rawdata st') (p_bitmap st') e k"
    and part: "ok (used_set st) file m (p_rawdata st1) (p_bitmap st1) v k"
    and run: "bindR (write_int (b * BLOCK_SZ + int j * 4) v (p_rawdata st1))
                (\<lambda>rawdata. Inr (st1\<lparr>p_rawdata := rawdata\<rparr>)) = Inr st'"
  shows "place_inv file n m k' st' \<and> keeps {b} m st st' \<and> p_ip st' = p_ip st
    \<and> ok (used_set st) file m (p_rawdata st') (p_bitmap st') (entry (p_rawdata st') b j) k
    \<and> (\<forall>i<256. i \<noteq> j \<longrightarrow> entry (p_rawdata st') b i = entry (p_rawdata st) b i)"
proof -
  have b1: "used (p_bitmap st1) b" using b k by (auto simp: keeps_def)
  from entry_write [OF inv b1 v j] run obtain rawdata' where
    st': "st' = st1\<lparr>p_rawdata := rawdata'\<rparr>" "place_inv file n m k' st'" "keeps {b} m st1 st'"
      "entry rawdata' b j = v" "\<forall>i<256. i \<noteq> j \<longrightarrow> entry rawdata' b i = entry (p_rawdata st1) b i"
    by auto
  have "0 \<le> m" using inv by (simp add: place_inv_def)
  then have "ok (used_set st) file m (p_rawdata st') (p_bitmap st') v k"
    by (intro keep [OF part st'(3)]) (use b in auto)
  moreover have "block_of (p_rawdata st1) b = block_of (p_rawdata st) b"
    using k b by (auto simp: keeps_def used_def)
  then have "entry (p_rawdata st1) b i = entry (p_rawdata st) b i" for i by (simp add: entry_def)
  moreover have "keeps {b} m st st'" using k st'(3) by (auto intro: keeps_trans keeps_mono)
  ultimately show ?thesis using st' ip by simp
qed

lemma indirect_entry_ok:
  assumes inv: "place_inv file n m k st" and b: "m \<le> b" "used (p_bitmap st) b" and j: "j < 256"
    and run: "indirect_entry file n m b j st = Inr st'"
  shows "place_inv file n m (k + 1) st' \<and> keeps {b} m st st' \<and> p_ip st' = p_ip st
    \<and> chunk_ok (used_set st) file m (p_rawdata st') (p_bitmap st') (entry (p_rawdata st') b j) k
    \<and> (\<forall>i<256. i \<noteq> j \<longrightarrow> entry (p_rawdata st') b i = entry (p_rawdata st) b i)"
proof -
  from run obtain d st1 where t: "take_free_block n m st = Inr (d, st1)"
    by (auto simp: indirect_entry_def Let_def res_simps)
  note f = take_free_block_ok [OF inv t]
  have b1: "used (p_bitmap st1) b" using f(4) b by auto
  from entry_write [OF f(6) b1 f(5) j] obtain rawdata' where
    w: "write_int (b * BLOCK_SZ + int j * 4) d (p_rawdata st1) = Inr rawdata'"
      "place_inv file n m k (st1\<lparr>p_rawdata := rawdata'\<rparr>)"
      "keeps {b} m st1 (st1\<lparr>p_rawdata := rawdata'\<rparr>)"
      "entry rawdata' b j = d" "\<forall>i<256. i \<noteq> j \<longrightarrow> entry rawdata' b i = entry (p_rawdata st1) b i"
    by blast
  have "copy_next_block file d (st1\<lparr>p_rawdata := rawdata'\<rparr>) = Inr st'"
    using run t w(1) by (simp add: indirect_entry_def Let_def)
  with copy_next_block_ok [OF w(2), of d] f(5) have
    c: "place_inv file n m (k + 1) st'"
      "take (length (chunk file k)) (block_of (p_rawdata st') d) = chunk file k"
      "length (p_rawdata st') = length rawdata'"
      "\<forall>c. 0 \<le> c \<longrightarrow> c \<noteq> d \<longrightarrow> block_of (p_rawdata st') c = block_of rawdata' c"
      "p_bitmap st' = p_bitmap st1" "p_ip st' = p_ip st1"
    by auto
  have db: "d \<noteq> b" using f(3) b(2) by auto
  let ?s2 = "st1\<lparr>p_rawdata := rawdata'\<rparr>"
  have "keeps {b} m st st1" using f(4,7,9) by (auto simp: keeps_def)
  then have k1: "keeps {b} m st ?s2" using w(3) by (rule keeps_trans)
  have k2: "keeps {d} m ?s2 st'" using c(3,4,5) by (simp add: keeps_def)
  have "keeps {b} m st st'" by (rule keeps_weaken [OF k1 k2 f(3,1)])
  moreover have "block_of (p_rawdata st') b = block_of rawdata' b"
    using c(4) db b inv by (auto simp: place_inv_def)
  then have e: "entry (p_rawdata st') b i = entry rawdata' b i" for i by (simp add: entry_def)
  moreover have "chunk_ok (used_set st) file m (p_rawdata st') (p_bitmap st') d k"
    using f(1,3,5) c(2,5) by (simp add: chunk_ok_def)
  ultimately show ?thesis using c(1,6) f(7,8) w(4,5) by simp
qed

lemma indirect_entry_error:
  assumes inv: "place_inv file n m k st" and b: "m \<le> b" "used (p_bitmap st) b" and j: "j < 256"
    and run: "indirect_entry file n m b j st = Inl e"
  shows "e = Exit (-1)"
proof (cases "take_free_block n m st")
  case (Inl e')
  with run take_free_block_error [OF inv] show ?thesis by (auto simp: indirect_entry_def Let_def)
next
  case (Inr r)
  obtain d st1 where t: "take_free_block n m st = Inr (d, st1)" using Inr by (cases r) auto
  note f = take_free_block_ok [OF inv t]
  have b1: "used (p_bitmap st1) b" using f(4) b by auto
  from entry_write [OF f(6) b1 f(5) j] obtain rawdata' where
    w: "write_int (b * BLOCK_SZ + int j * 4) d (p_rawdata st1) = Inr rawdata'"
      "place_inv file n m k (st1\<lparr>p_rawdata := rawdata'\<rparr>)"
    by blast
  obtain st2 where "copy_next_block file d (st1\<lparr>p_rawdata := rawdata'\<rparr>) = Inr st2"
    using copy_next_block_ok [OF w(2), of d] f(5) by auto
  with run t w(1) show ?thesis by (simp add: indirect_entry_def Let_def)
qed

interpretation indirect: entry_placer indirect_entry chunk_ok 1
proof (unfold_locales, goal_cases)
  case 1
  show ?case by simp
next
  case 2
  then show ?case by (intro indirect_entry_ok)
next
  case 3
  then show ?case by (intro indirect_entry_error)
next
  case 4
  then show ?case by (rule chunk_ok_antimono)
next
  case 5
  then show ?case by (rule chunk_ok_keeps)
qed

lemma place_indirect_block_ok:
  assumes inv: "place_inv file n m k st" and run: "place_indirect_block file n m q st = Inr (r, st')"
  shows "\<exists>b. place_inv file n m (k + 256) st' \<and> keeps {} m st st'
    \<and> indirect_ok (used_set st) file m (p_rawdata st') (p_bitmap st') b k
    \<and> (q = 21 \<longrightarrow> r = b \<and> p_ip st' = p_ip st)
    \<and> (q \<noteq> 21 \<longrightarrow> p_ip st' = (p_ip st)\<lparr>ino_iblocks := (ino_iblocks (p_ip st))[q := b]\<rparr>)"
proof -
  from run obtain b st1 where t: "take_free_block n m st = Inr (b, st1)"
    by (auto simp: place_indirect_block_def res_simps)
  note f = take_free_block_ok [OF inv t]
  define st2 where "st2 = (if q \<noteq> 21 then st1\<lparr>p_ip := (p_ip st1)\<lparr>ino_iblocks :=
                            (ino_iblocks (p_ip st1))[q := b]\<rparr>\<rparr> else st1)"
  have st2: "p_rawdata st2 = p_rawdata st" "p_bitmap st2 = p_bitmap st1" "place_inv file n m k st2"
    using f by (auto simp: st2_def place_inv_def)
  from run t obtain returned where
    p: "place_pointers file (indirect_entry file n m b) st2 = Inr (returned, st')"
    and r: "q = 21 \<longrightarrow> r = b"
    by (auto simp: place_indirect_block_def st2_def res_simps Let_def)
  have "indirect.filled file n m k b st2 256 st'"
    using indirect.place_pointers_ok [OF st2(3) f(1) _ p] f(5) st2(2) by simp
  from indirect.pointer_block_ok [OF inv f(1) _ _ _ f(3) _ this] f st2
  show ?thesis using r by (intro exI [of _ b]) (auto simp: st2_def)
qed

lemma place_indirect_block_error:
  assumes inv: "place_inv file n m k st" and run: "place_indirect_block file n m q st = Inl e"
  shows "e = Exit (-1)"
proof (cases "take_free_block n m st")
  case (Inl e')
  with run take_free_block_error [OF inv] show ?thesis by (auto simp: place_indirect_block_def)
next
  case (Inr r)
  obtain b st1 where t: "take_free_block n m st = Inr (b, st1)" using Inr by (cases r) auto
  note f = take_free_block_ok [OF inv t]
  have "place_inv file n m k (st1\<lparr>p_ip := i\<rparr>)" for i using f(6) by (simp add: place_inv_def)
  with run t f show ?thesis
    by (auto simp: place_indirect_block_def Let_def res_simps split: if_splits
        dest!: indirect.place_pointers_error [rotated 3])
qed

lemma doubly_indirect_entry_ok:
  assumes inv: "place_inv file n m k st" and b: "m \<le> b" "used (p_bitmap st) b" and j: "j < 256"
    and run: "doubly_indirect_entry file n m b j st = Inr st'"
  shows "place_inv file n m (k + 256) st' \<and> keeps {b} m st st' \<and> p_ip st' = p_ip st
    \<and> indirect_ok (used_set st) file m (p_rawdata st') (p_bitmap st') (entry (p_rawdata st') b j) k
    \<and> (\<forall>i<256. i \<noteq> j \<longrightarrow> entry (p_rawdata st') b i = entry (p_rawdata st) b i)"
proof -
  from run obtain r st1 where p: "place_indirect_block file n m 21 st = Inr (r, st1)"
    and w: "bindR (write_int (b * BLOCK_SZ + int j * 4) r (p_rawdata st1))
                (\<lambda>rawdata. Inr (st1\<lparr>p_rawdata := rawdata\<rparr>)) = Inr st'"
    by (auto simp: doubly_indirect_entry_def Let_def res_simps)
  from place_indirect_block_ok [OF inv p] have
    c: "place_inv file n m (k + 256) st1" "keeps {} m st st1" "p_ip st1 = p_ip st"
      "indirect_ok (used_set st) file m (p_rawdata st1) (p_bitmap st1) r k" by auto
  then have u: "used (p_bitmap st1) r" by (simp add: ptr_ok_def)
  show ?thesis
    by (rule entry_after_part [where ok = indirect_ok, OF c(1-3) b(2) j u _ _ c(4) w])
       (blast intro: indirect.ptr_ok_antimono, blast intro: indirect.ptr_ok_keeps)
qed

lemma entry_after_part_error:
  assumes "place_inv file n m k' st1" and "used (p_bitmap st1) b" and "used (p_bitmap st1) v"
    and "j < 256"
  shows "bindR (write_int (b * BLOCK_SZ + int j * 4) v (p_rawdata st1))
           (\<lambda>rawdata. Inr (st1\<lparr>p_rawdata := rawdata\<rparr>)) \<noteq> Inl e"
  using entry_write [OF assms] by (auto simp: res_simps)

lemma doubly_indirect_entry_error:
  assumes inv: "place_inv file n m k st" and b: "m \<le> b" "used (p_bitmap st) b" and j: "j < 256"
    and run: "doubly_indirect_entry file n m b j st = Inl e"
  shows "e = Exit (-1)"
proof (cases "place_indirect_block file n m 21 st")
  case (Inl e')
  with run place_indirect_block_error [OF inv] show ?thesis
    by (auto simp: doubly_indirect_entry_def Let_def)
next
  case (Inr r)
  obtain v st1 where p: "place_indirect_block file n m 21 st = Inr (v, st1)"
    using Inr by (cases r) auto
  from place_indirect_block_ok [OF inv p] have
    c: "place_inv file n m (k + 256) st1" "keeps {} m st st1"
      "used (p_bitmap st1) v" by (auto simp: ptr_ok_def)
  have "used (p_bitmap st1) b" using b(2) c(2) by (auto simp: keeps_def)
  from entry_after_part_error [OF c(1) this c(3) j] run p show ?thesis
    by (simp add: doubly_indirect_entry_def Let_def)
qed

interpretation doubly: entry_placer doubly_indirect_entry indirect_ok 256
proof (unfold_locales, goal_cases)
  case 1
  show ?case by simp
next
  case 2
  then show ?case by (intro doubly_indirect_entry_ok)
next
  case 3
  then show ?case by (intro doubly_indirect_entry_error)
next
  case 4
  then show ?case by (rule indirect.ptr_ok_antimono)
next
  case 5
  then show ?case by (rule indirect.ptr_ok_keeps)
qed

lemma place_doubly_indirect_block_ok:
  assumes inv: "place_inv file n m k st"
    and run: "place_doubly_indirect_block file n m triple st = Inr (r, st')"
  shows "\<exists>b. place_inv file n m (k + 65536) st' \<and> keeps {} m st st'
    \<and> doubly_ok (used_set st) file m (p_rawdata st') (p_bitmap st') b k
    \<and> (triple \<longrightarrow> r = b \<and> p_ip st' = p_ip st)
    \<and> (\<not> triple \<longrightarrow> p_ip st' = (p_ip st)\<lparr>ino_i2block := b\<rparr>)"
proof -
  from run obtain b st1 where t: "take_free_block n m st = Inr (b, st1)"
    by (auto simp: place_doubly_indirect_block_def res_simps)
  note f = take_free_block_ok [OF inv t]
  define st2 where "st2 = (if \<not> triple then st1\<lparr>p_ip := (p_ip st1)\<lparr>ino_i2block := b\<rparr>\<rparr> else st1)"
  have st2: "p_rawdata st2 = p_rawdata st" "p_bitmap st2 = p_bitmap st1" "place_inv file n m k st2"
    using f by (auto simp: st2_def place_inv_def)
  from run t obtain returned where
    p: "place_pointers file (doubly_indirect_entry file n m b) st2 = Inr (returned, st')"
    and r: "triple \<longrightarrow> r = b"
    by (auto simp: place_doubly_indirect_block_def st2_def res_simps Let_def)
  have "doubly.filled file n m k b st2 256 st'"
    using doubly.place_pointers_ok [OF st2(3) f(1) _ p] f(5) st2(2) by simp
  from doubly.pointer_block_ok [OF inv f(1) _ _ _ f(3) _ this] f st2
  show ?thesis using r by (intro exI [of _ b]) (auto simp: st2_def)
qed

lemma place_doubly_indirect_block_error:
  assumes inv: "place_inv file n m k st"
    and run: "place_doubly_indirect_block file n m triple st = Inl e"
  shows "e = Exit (-1)"
proof (cases "take_free_block n m st")
  case (Inl e')
  with run take_free_block_error [OF inv] show ?thesis
    by (auto simp: place_doubly_indirect_block_def)
next
  case (Inr r)
  obtain b st1 where t: "take_free_block n m st = Inr (b, st1)" using Inr by (cases r) auto
  note f = take_free_block_ok [OF inv t]
  have "place_inv file n m k (st1\<lparr>p_ip := i\<rparr>)" for i using f(6) by (simp add: place_inv_def)
  with run t f show ?thesis
    by (auto simp: place_doubly_indirect_block_def Let_def res_simps split: if_splits
        dest!: doubly.place_pointers_error [rotated 3])
qed

lemma triply_indirect_entry_ok:
  assumes inv: "place_inv file n m k st" and b: "m \<le> b" "used (p_bitmap st) b" and j: "j < 256"
    and run: "triply_indirect_entry file n m b j st = Inr st'"
  shows "place_inv file n m (k + 65536) st' \<and> keeps {b} m st st' \<and> p_ip st' = p_ip st
    \<and> doubly_ok (used_set st) file m (p_rawdata st') (p_bitmap st') (entry (p_rawdata st') b j) k
    \<and> (\<forall>i<256. i \<noteq> j \<longrightarrow> entry (p_rawdata st') b i = entry (p_rawdata st) b i)"
proof -
  from run obtain r st1 where p: "place_doubly_indirect_block file n m True st = Inr (r, st1)"
    and w: "bindR (write_int (b * BLOCK_SZ + int j * 4) r (p_rawdata st1))
                (\<lambda>rawdata. Inr (st1\<lparr>p_rawdata := rawdata\<rparr>)) = Inr st'"
    by (auto simp: triply_indirect_entry_def Let_def res_simps)
  from place_doubly_indirect_block_ok [OF inv p] have
    c: "place_inv file n m (k + 65536) st1" "keeps {} m st st1" "p_ip st1 = p_ip st"
      "doubly_ok (used_set st) file m (p_rawdata st1) (p_bitmap st1) r k" by auto
  then have u: "used (p_bitmap st1) r" by (simp add: ptr_ok_def)
  show ?thesis
    by (rule entry_after_part [where ok = doubly_ok, OF c(1-3) b(2) j u _ _ c(4) w])
       (blast intro: doubly.ptr_ok_antimono, blast intro: doubly.ptr_ok_keeps)
qed

lemma triply_indirect_entry_error:
  assumes inv: "place_inv file n m k st" and b: "m \<le> b" "used (p_bitmap st) b" and j: "j < 256"
    and run: "triply_indirect_entry file n m b j st = Inl e"
  shows "e = Exit (-1)"
proof (cases "place_doubly_indirect_block file n m True st")
  case (Inl e')
  with run place_doubly_indirect_block_error [OF inv] show ?thesis
    by (auto simp: triply_indirect_entry_def Let_def)
next
  case (Inr r)
  obtain v st1 where p: "place_doubly_indirect_block file n m True st = Inr (v, st1)"
    using Inr by (cases r) auto
  from place_doubly_indirect_block_ok [OF inv p] have
    c: "place_inv file n m (k + 65536) st1" "keeps {} m st st1"
      "used (p_bitmap st1) v" by (auto simp: ptr_ok_def)
  have "used (p_bitmap st1) b" using b(2) c(2) by (auto simp: keeps_def)
  from entry_after_part_error [OF c(1) this c(3) j] run p show ?thesis
    by (simp add: triply_indirect_entry_def Let_def)
qed

interpretation triply: entry_placer triply_indirect_entry doubly_ok 65536
proof (unfold_locales, goal_cases)
  case 1
  show ?case by simp
next
  case 2
  then show ?case by (intro triply_indirect_entry_ok)
next
  case 3
  then show ?case by (intro triply_indirect_entry_error)
next
  case 4
  then show ?case by (rule doubly.ptr_ok_antimono)
next
  case 5
  then show ?case by (rule doubly.ptr_ok_keeps)
qed

lemma place_triply_indirect_block_ok:
  assumes inv: "place_inv file n m k st"
    and run: "place_triply_indirect_block file n m st = Inr st'"
  shows "\<exists>b. place_inv file n m (k + 16777216) st' \<and> keeps {} m st st'
    \<and> triply_ok (used_set st) file m (p_rawdata st') (p_bitmap st') b k
    \<and> p_ip st' = (p_ip st)\<lparr>ino_i3block := b\<rparr>"
proof -
  from run obtain b st1 where t: "take_free_block n m st = Inr (b, st1)"
    by (auto simp: place_triply_indirect_block_def res_simps)
  note f = take_free_block_ok [OF inv t]
  define st2 where "st2 = st1\<lparr>p_ip := (p_ip st1)\<lparr>ino_i3block := b\<rparr>\<rparr>"
  have st2: "p_rawdata st2 = p_rawdata st" "p_bitmap st2 = p_bitmap st1" "place_inv file n m k st2"
    using f by (auto simp: st2_def place_inv_def)
  from run t obtain returned where
    p: "place_pointers file (triply_indirect_entry file n m b) st2 = Inr (returned, st')"
    by (auto simp: place_triply_indirect_block_def st2_def res_simps Let_def)
  have "triply.filled file n m k b st2 256 st'"
    using triply.place_pointers_ok [OF st2(3) f(1) _ p] f(5) st2(2) by simp
  from triply.pointer_block_ok [OF inv f(1) _ _ _ f(3) _ this] f st2
  show ?thesis by (intro exI [of _ b]) (auto simp: st2_def)
qed

lemma place_triply_indirect_block_error:
  assumes inv: "place_inv file n m k st"
    and run: "place_triply_indirect_block file n m st = Inl e"
  shows "e = Exit (-1)"
proof (cases "take_free_block n m st")
  case (Inl e')
  with run take_free_block_error [OF inv] show ?thesis
    by (auto simp: place_triply_indirect_block_def)
next
  case (Inr r)
  obtain b st1 where t: "take_free_block n m st = Inr (b, st1)" using Inr by (cases r) auto
  note f = take_free_block_ok [OF inv t]
  have "place_inv file n m k (st1\<lparr>p_ip := i\<rparr>)" for i using f(6) by (simp add: place_inv_def)
  with run t f show ?thesis
    by (auto simp: place_triply_indirect_block_def Let_def res_simps
        dest!: triply.place_pointers_error [rotated 3])
qed

end
