(* ===== verification/Disk_File.thy ===== *)
theory Disk_File
  imports Disk_Place
begin

text \<open>
  \<open>place_file\<close> of \<open>inodes/disk_image.c\<close> as a whole: the inode it leaves behind leads to every
  byte of the file, through twelve direct blocks, three indirect blocks, a doubly and a
  triply indirect block.
\<close>

section \<open>The layout of a file\<close>

text \<open>The parts of the inode that concern the first \<open>K\<close> chunks of the file.\<close>

definition inode_upto :: "nat \<Rightarrow> int set \<Rightarrow> u8 list \<Rightarrow> int \<Rightarrow> u8 list \<Rightarrow> u8 list \<Rightarrow> disk_inode \<Rightarrow> bool" where
  "inode_upto K A file m rawdata bitmap ip \<longleftrightarrow>
     length (ino_dblocks ip) = 12 \<and> length (ino_iblocks ip) = 3
     \<and> (\<forall>i<12. i < K \<longrightarrow> 1024 * i < length file \<longrightarrow>
          chunk_ok A file m rawdata bitmap (ino_dblocks ip ! i) i)
     \<and> (\<forall>q<3. 12 + 256 * q < K \<longrightarrow> 1024 * (12 + 256 * q) < length file \<longrightarrow>
          indirect_ok A file m rawdata bitmap (ino_iblocks ip ! q) (12 + 256 * q))
     \<and> (780 < K \<longrightarrow> 1024 * 780 < length file \<longrightarrow>
          doubly_ok A file m rawdata bitmap (ino_i2block ip) 780)
     \<and> (66316 < K \<longrightarrow> 1024 * 66316 < length file \<longrightarrow>
          triply_ok A file m rawdata bitmap (ino_i3block ip) 66316)"

definition max_chunks :: nat where
  "max_chunks = 66316 + 16777216"

abbreviation inode_ok :: "int set \<Rightarrow> u8 list \<Rightarrow> int \<Rightarrow> u8 list \<Rightarrow> u8 list \<Rightarrow> disk_inode \<Rightarrow> bool" where
  "inode_ok \<equiv> inode_upto max_chunks"

lemma inode_upto_keeps:
  assumes "inode_upto K A file m (p_rawdata st) (p_bitmap st) ip" and "keeps E m st st'" and "0 \<le> m"
    and "E \<subseteq> A"
  shows "inode_upto K A file m (p_rawdata st') (p_bitmap st') ip"
  using assms unfolding inode_upto_def
  by (blast intro: chunk_ok_keeps indirect.ptr_ok_keeps doubly.ptr_ok_keeps triply.ptr_ok_keeps)

text \<open>The progress of \<open>place_file\<close> from the state \<open>st0\<close>: the first \<open>K\<close> chunks are in place.\<close>

definition placed :: "u8 list \<Rightarrow> int \<Rightarrow> int \<Rightarrow> placing \<Rightarrow> nat \<Rightarrow> placing \<Rightarrow> bool" where
  "placed file n m st0 K st \<longleftrightarrow>
     place_inv file n m K st \<and> keeps {} m st0 st
     \<and> inode_upto K (used_set st0) file m (p_rawdata st) (p_bitmap st) (p_ip st)"

text \<open>The fields of the inode that the placing functions leave alone.\<close>

definition same_header :: "disk_inode \<Rightarrow> disk_inode \<Rightarrow> bool" where
  "same_header ip ip' \<longleftrightarrow>
     ino_mode ip' = ino_mode ip \<and> ino_nlink ip' = ino_nlink ip \<and> ino_uid ip' = ino_uid ip
     \<and> ino_gid ip' = ino_gid ip \<and> ino_size ip' = ino_size ip \<and> ino_ctime ip' = ino_ctime ip
     \<and> ino_mtime ip' = ino_mtime ip \<and> ino_atime ip' = ino_atime ip"

lemma placed_used: "placed file n m st0 K st \<Longrightarrow> used_set st0 \<subseteq> used_set st"
  by (auto simp: placed_def keeps_def)

lemma placed_m: "placed file n m st0 K st \<Longrightarrow> 0 \<le> m"
  by (simp add: placed_def place_inv_def)

text \<open>When the file has been read, nothing is left to place.\<close>

lemma placed_all:
  assumes p: "placed file n m st0 K st" and "length file \<le> p_nbytes st" and "K \<le> K'"
  shows "placed file n m st0 K' st"
proof -
  have "length file \<le> 1024 * K" using p assms(2) by (auto simp: placed_def place_inv_def)
  then have "i < K" if "1024 * i < length file" for i using that by linarith
  moreover have "place_inv file n m K' st"
    using p assms by (auto simp: placed_def place_inv_def)
  ultimately show ?thesis using p by (auto simp: placed_def inode_upto_def)
qed

section \<open>The four stages\<close>

lemma place_direct_step:
  assumes p: "placed file n m st0 k st" and k: "k < 12"
    and t: "take_free_block n m st = Inr (b, st1)"
    and c: "copy_next_block file b (st1\<lparr>p_ip := (p_ip st1)\<lparr>ino_dblocks :=
              (ino_dblocks (p_ip st1))[k := b]\<rparr>\<rparr>) = Inr st'"
  shows "placed file n m st0 (Suc k) st'" and "same_header (p_ip st) (p_ip st')"
proof -
  let ?ip = "(p_ip st1)\<lparr>ino_dblocks := (ino_dblocks (p_ip st1))[k := b]\<rparr>"
  have inv: "place_inv file n m k st" using p by (simp add: placed_def)
  note f = take_free_block_ok [OF inv t]
  have inv2: "place_inv file n m k (st1\<lparr>p_ip := ?ip\<rparr>)" using f(6) by (simp add: place_inv_def)
  from copy_next_block_ok [OF inv2, of b] f(5) c have
    n: "place_inv file n m (k + 1) st'"
      "take (length (chunk file k)) (block_of (p_rawdata st') b) = chunk file k"
      "length (p_rawdata st') = length (p_rawdata st1)"
      "\<forall>c. 0 \<le> c \<longrightarrow> c \<noteq> b \<longrightarrow> block_of (p_rawdata st') c = block_of (p_rawdata st1) c"
      "p_bitmap st' = p_bitmap st1" "p_ip st' = ?ip" by auto
  have k1: "keeps {} m st st1" using f(4,7,9) by (auto simp: keeps_def)
  have k2: "keeps {b} m st1 st'" using n(3,4,5) by (simp add: keeps_def)
  have ks: "keeps {} m st st'" by (rule keeps_weaken [OF k1 k2 f(3,1)])
  have up: "inode_upto k (used_set st0) file m (p_rawdata st') (p_bitmap st') (p_ip st)"
    using p ks placed_m [OF p] by (auto simp: placed_def intro: inode_upto_keeps)
  have new: "chunk_ok (used_set st0) file m (p_rawdata st') (p_bitmap st') b k"
    using f(1,3,5) n(2,5) placed_used [OF p] by (auto simp: chunk_ok_def)
  have "inode_upto (Suc k) (used_set st0) file m (p_rawdata st') (p_bitmap st') (p_ip st')"
    using up new k n(6) f(8) by (auto simp: inode_upto_def nth_list_update less_Suc_eq)
  moreover have "keeps {} m st0 st'" using p ks by (auto simp: placed_def intro: keeps_trans)
  ultimately show "placed file n m st0 (Suc k) st'" using n(1) by (simp add: placed_def)
  show "same_header (p_ip st) (p_ip st')" using n(6) f(8) by (simp add: same_header_def)
qed

lemma same_header_refl [simp]: "same_header ip ip"
  by (simp add: same_header_def)

lemma same_header_trans [trans]:
  "same_header a b \<Longrightarrow> same_header b c \<Longrightarrow> same_header a c"
  by (simp add: same_header_def)

lemma place_direct_blocks_ok:
  assumes p: "placed file n m st0 0 st" and run: "place_direct_blocks file n m st = Inr st'"
  shows "placed file n m st0 12 st' \<and> same_header (p_ip st) (p_ip st')"
proof -
  let ?I = "\<lambda>k s. placed file n m st0 k s \<and> same_header (p_ip st) (p_ip s)"
  from run obtain r where
    loop: "for_each (map (\<lambda>j. j) [0..<12]) (\<lambda>iterator st.
        bindR (take_free_block n m st) (\<lambda>(blockno, st).
          let st = st\<lparr>p_ip := (p_ip st)\<lparr>ino_dblocks :=
                         (ino_dblocks (p_ip st))[iterator := blockno]\<rparr>\<rparr> in
          bindR (copy_next_block file blockno st) (\<lambda>st.
            Inr (if p_nbytes st \<ge> length file then Stop st else Next st)))) st = Inr r"
    and r: "final r = st'"
    by (auto simp: place_direct_blocks_def res_simps N_DBLOCKS_def)
  have "case r of Next s \<Rightarrow> ?I 12 s | Stop s \<Rightarrow> ?I 12 s"
  proof (rule for_each_upt_invariant [OF loop])
    show "?I 0 st" using p by simp
    fix k s r
    assume k: "k < 12" and I: "?I k s"
      and "bindR (take_free_block n m s) (\<lambda>(blockno, st).
          let st = st\<lparr>p_ip := (p_ip st)\<lparr>ino_dblocks := (ino_dblocks (p_ip st))[k := blockno]\<rparr>\<rparr> in
          bindR (copy_next_block file blockno st) (\<lambda>st.
            Inr (if p_nbytes st \<ge> length file then Stop st else Next st))) = Inr r"
    then obtain b s1 s2 where t: "take_free_block n m s = Inr (b, s1)"
      and c: "copy_next_block file b (s1\<lparr>p_ip := (p_ip s1)\<lparr>ino_dblocks :=
              (ino_dblocks (p_ip s1))[k := b]\<rparr>\<rparr>) = Inr s2"
      and r: "r = (if p_nbytes s2 \<ge> length file then Stop s2 else Next s2)"
      by (auto simp: res_simps Let_def)
    note st = place_direct_step [OF conjunct1 [OF I] k t c]
    have "same_header (p_ip st) (p_ip s2)" using I st(2) by (auto intro: same_header_trans)
    with st(1) r k show "case r of Next s \<Rightarrow> ?I (Suc k) s | Stop s \<Rightarrow> ?I 12 s"
      by (auto intro: placed_all)
  qed simp
  with r show ?thesis by (cases r) auto
qed

lemma place_indirect_step:
  assumes p: "placed file n m st0 (12 + 256 * q) st" and q: "q < 3"
    and run: "place_indirect_block file n m q st = Inr (r, st')"
  shows "placed file n m st0 (12 + 256 * Suc q) st'" and "same_header (p_ip st) (p_ip st')"
proof -
  have inv: "place_inv file n m (12 + 256 * q) st" using p by (simp add: placed_def)
  from place_indirect_block_ok [OF inv run] q obtain b where
    n: "place_inv file n m (12 + 256 * q + 256) st'" "keeps {} m st st'"
      "indirect_ok (used_set st) file m (p_rawdata st') (p_bitmap st') b (12 + 256 * q)"
      "p_ip st' = (p_ip st)\<lparr>ino_iblocks := (ino_iblocks (p_ip st))[q := b]\<rparr>"
    by auto
  have up: "inode_upto (12 + 256 * q) (used_set st0) file m (p_rawdata st') (p_bitmap st') (p_ip st)"
    using p n(2) placed_m [OF p] by (auto simp: placed_def intro: inode_upto_keeps)
  have new: "indirect_ok (used_set st0) file m (p_rawdata st') (p_bitmap st') b (12 + 256 * q)"
    using n(3) placed_used [OF p] by (rule indirect.ptr_ok_antimono)
  have "inode_upto (12 + 256 * Suc q) (used_set st0) file m (p_rawdata st') (p_bitmap st') (p_ip st')"
    using up new q n(4) by (auto simp: inode_upto_def nth_list_update less_Suc_eq)
  moreover have "keeps {} m st0 st'" using p n(2) by (auto simp: placed_def intro: keeps_trans)
  ultimately show "placed file n m st0 (12 + 256 * Suc q) st'" using n(1)
    by (simp add: placed_def add.commute)
  show "same_header (p_ip st) (p_ip st')" using n(4) by (simp add: same_header_def)
qed

lemma place_indirect_blocks_ok:
  assumes p: "placed file n m st0 12 st" and run: "place_indirect_blocks file n m st = Inr st'"
  shows "placed file n m st0 780 st' \<and> same_header (p_ip st) (p_ip st')"
proof -
  let ?I = "\<lambda>q s. placed file n m st0 (12 + 256 * q) s \<and> same_header (p_ip st) (p_ip s)"
  from run obtain r where
    loop: "for_each (map (\<lambda>j. j) [0..<3]) (\<lambda>num_indirect st.
        if p_nbytes st < length file then
          bindR (place_indirect_block file n m num_indirect st) (\<lambda>(_, st). Inr (Next st))
        else Inr (Stop st)) st = Inr r"
    and r: "final r = st'"
    by (auto simp: place_indirect_blocks_def res_simps N_IBLOCKS_def)
  have "case r of Next s \<Rightarrow> ?I 3 s | Stop s \<Rightarrow> ?I 3 s"
  proof (rule for_each_upt_invariant [OF loop])
    show "?I 0 st" using p by simp
    fix q s r
    assume q: "q < 3" and I: "?I q s"
      and step: "(if p_nbytes s < length file then
          bindR (place_indirect_block file n m q s) (\<lambda>(_, st). Inr (Next st))
        else Inr (Stop s)) = Inr r"
    show "case r of Next s \<Rightarrow> ?I (Suc q) s | Stop s \<Rightarrow> ?I 3 s"
    proof (cases "p_nbytes s < length file")
      case True
      with step obtain v s1 where b: "place_indirect_block file n m q s = Inr (v, s1)"
        and r: "r = Next s1" by (auto simp: res_simps)
      from place_indirect_step [OF conjunct1 [OF I] q b] I r show ?thesis
        by (auto intro: same_header_trans)
    next
      case False
      have "12 + 256 * q \<le> 12 + 256 * 3" using q by simp
      with False I have "?I 3 s" using placed_all by (meson linorder_not_less)
      with step False show ?thesis by auto
    qed
  qed simp
  with r show ?thesis by (cases r) auto
qed

lemma place_doubly_stage:
  assumes p: "placed file n m st0 780 st"
    and run: "(if p_nbytes st < length file
             then bindR (place_doubly_indirect_block file n m False st) (\<lambda>(_, st). Inr st)
             else Inr st) = Inr st'"
  shows "placed file n m st0 66316 st' \<and> same_header (p_ip st) (p_ip st')"
proof (cases "p_nbytes st < length file")
  case True
  with run obtain r where b: "place_doubly_indirect_block file n m False st = Inr (r, st')"
    by (auto simp: res_simps)
  have inv: "place_inv file n m 780 st" using p by (simp add: placed_def)
  from place_doubly_indirect_block_ok [OF inv b] obtain b where
    n: "place_inv file n m 66316 st'" "keeps {} m st st'"
      "doubly_ok (used_set st) file m (p_rawdata st') (p_bitmap st') b 780"
      "p_ip st' = (p_ip st)\<lparr>ino_i2block := b\<rparr>"
    by auto
  have up: "inode_upto 780 (used_set st0) file m (p_rawdata st') (p_bitmap st') (p_ip st)"
    using p n(2) placed_m [OF p] by (auto simp: placed_def intro: inode_upto_keeps)
  have new: "doubly_ok (used_set st0) file m (p_rawdata st') (p_bitmap st') b 780"
    using n(3) placed_used [OF p] by (rule doubly.ptr_ok_antimono)
  have "inode_upto 66316 (used_set st0) file m (p_rawdata st') (p_bitmap st') (p_ip st')"
    using up new n(4) by (auto simp: inode_upto_def)
  moreover have "keeps {} m st0 st'" using p n(2) by (auto simp: placed_def intro: keeps_trans)
  ultimately show ?thesis using n(1,4) by (simp add: placed_def same_header_def)
next
  case False
  with run p show ?thesis by (auto intro: placed_all)
qed

lemma place_triply_stage:
  assumes p: "placed file n m st0 66316 st"
    and run: "(if p_nbytes st < length file then place_triply_indirect_block file n m st
             else Inr st) = Inr st'"
  shows "placed file n m st0 max_chunks st' \<and> same_header (p_ip st) (p_ip st')"
proof (cases "p_nbytes st < length file")
  case True
  with run have b: "place_triply_indirect_block file n m st = Inr st'" by simp
  have inv: "place_inv file n m 66316 st" using p by (simp add: placed_def)
  from place_triply_indirect_block_ok [OF inv b] obtain b where
    n: "place_inv file n m (66316 + 16777216) st'" "keeps {} m st st'"
      "triply_ok (used_set st) file m (p_rawdata st') (p_bitmap st') b 66316"
      "p_ip st' = (p_ip st)\<lparr>ino_i3block := b\<rparr>"
    by auto
  have up: "inode_upto 66316 (used_set st0) file m (p_rawdata st') (p_bitmap st') (p_ip st)"
    using p n(2) placed_m [OF p] by (auto simp: placed_def intro: inode_upto_keeps)
  have new: "triply_ok (used_set st0) file m (p_rawdata st') (p_bitmap st') b 66316"
    using n(3) placed_used [OF p] by (rule triply.ptr_ok_antimono)
  have "inode_upto max_chunks (used_set st0) file m (p_rawdata st') (p_bitmap st') (p_ip st')"
    using up new n(4) by (auto simp: inode_upto_def max_chunks_def)
  moreover have "keeps {} m st0 st'" using p n(2) by (auto simp: placed_def intro: keeps_trans)
  ultimately show ?thesis using n(1,4) by (simp add: placed_def same_header_def max_chunks_def)
next
  case False
  then have "length file \<le> p_nbytes st" by simp
  moreover have "66316 \<le> max_chunks" by (simp add: max_chunks_def)
  ultimately have "placed file n m st0 max_chunks st" by (rule placed_all [OF p])
  with run False show ?thesis by simp
qed

section \<open>The inode itself\<close>

text \<open>A block below \<open>m\<close> carries no part of a file.\<close>

lemma chunk_ok_insert:
  "chunk_ok A file m rawdata bitmap e k \<Longrightarrow> d < m \<Longrightarrow> chunk_ok (insert d A) file m rawdata bitmap e k"
  by (auto simp: chunk_ok_def)

lemma ptr_ok_insert:
  assumes "ptr_ok w ok A file m rawdata bitmap b k" and "d < m"
    and "\<And>e k. ok A file m rawdata bitmap e k \<Longrightarrow> ok (insert d A) file m rawdata bitmap e k"
  shows "ptr_ok w ok (insert d A) file m rawdata bitmap b k"
  using assms by (auto simp: ptr_ok_def)

lemma inode_upto_insert:
  assumes "inode_upto K A file m rawdata bitmap ip" and "d < m"
  shows "inode_upto K (insert d A) file m rawdata bitmap ip"
  using assms unfolding inode_upto_def
  by (blast intro: chunk_ok_insert ptr_ok_insert)

lemma inode_upto_antimono:
  assumes "inode_upto K A' file m rawdata bitmap ip" and "A \<subseteq> A'"
  shows "inode_upto K A file m rawdata bitmap ip"
  using assms unfolding inode_upto_def
  by (blast intro: indirect.ok_antimono indirect.ptr_ok_antimono doubly.ptr_ok_antimono
      triply.ptr_ok_antimono)

lemma length_concat_int_bytes [simp]: "length (concat (map int_bytes xs)) = 4 * length xs"
  by (induction xs) auto

lemma length_inode_bytes:
  "length (ino_dblocks ip) = 12 \<Longrightarrow> length (ino_iblocks ip) = 3 \<Longrightarrow> length (inode_bytes ip) = 100"
  by (simp add: inode_bytes_def inode_ints_def)

lemma slice_concat_int_bytes:
  "k < length xs \<Longrightarrow> slice (4 * k) 4 (concat (map int_bytes xs)) = int_bytes (xs ! k)"
proof (induction xs arbitrary: k)
  case (Cons x xs)
  show ?case
  proof (cases k)
    case (Suc j)
    then have "slice (4 * j) 4 (concat (map int_bytes xs)) = int_bytes (xs ! j)"
      using Cons by simp
    then show ?thesis by (simp add: Suc slice_def)
  qed (simp add: slice_def)
qed simp

definition fits_int :: "int \<Rightarrow> bool" where
  "fits_int v \<longleftrightarrow> - 2147483648 \<le> v \<and> v < 2147483648"

lemma inode_of_ints_of_inode:
  assumes "length (ino_dblocks ip) = 12" and "length (ino_iblocks ip) = 3"
  shows "inode_of_ints (inode_ints ip) = ip"
  using assms by (simp add: inode_of_ints_def inode_ints_def nth_append slice_def numeral_eq_Suc)

text \<open>An inode of 32-bit numbers survives being written to the image and read back.\<close>

lemma inode_of_bytes_inode_bytes:
  assumes "length (ino_dblocks ip) = 12" and "length (ino_iblocks ip) = 3"
    and "\<forall>v\<in>set (inode_ints ip). fits_int v"
  shows "inode_of_bytes (inode_bytes ip) = ip"
proof -
  have len: "length (inode_ints ip) = 25" using assms by (simp add: inode_ints_def)
  have "map (\<lambda>k. bytes_int (slice (4 * k) 4 (inode_bytes ip))) [0..<25] = inode_ints ip"
  proof (rule nth_equalityI)
    fix k assume "k < length (map (\<lambda>k. bytes_int (slice (4 * k) 4 (inode_bytes ip))) [0..<25])"
    then have k: "k < length (inode_ints ip)" using len by simp
    then have "fits_int (inode_ints ip ! k)" using assms(3) by simp
    then show "map (\<lambda>k. bytes_int (slice (4 * k) 4 (inode_bytes ip))) [0..<25] ! k
        = inode_ints ip ! k"
      using k len by (simp add: inode_bytes_def slice_concat_int_bytes fits_int_def)
  qed (simp add: len)
  then show ?thesis using assms by (simp add: inode_of_bytes_def inode_of_ints_of_inode)
qed

section \<open>The whole of \<open>place_file\<close>\<close>

text \<open>An image of \<open>n\<close> blocks, \<open>m\<close> of them for inodes, with a bitmap of its blocks.\<close>

definition image_ok :: "int \<Rightarrow> int \<Rightarrow> u8 list \<Rightarrow> u8 list \<Rightarrow> bool" where
  "image_ok m n rawdata bitmap \<longleftrightarrow>
     0 \<le> m \<and> m \<le> n \<and> n < 2147483648 \<and> int (length rawdata) = 1024 * n
     \<and> int (length bitmap) = n"

definition slot :: "int \<Rightarrow> int \<Rightarrow> nat" where
  "slot d i = nat (d * 1024 + i * 100)"

text \<open>An uninitialised inode and buffer have the sizes of their types.\<close>

definition memory_ok :: "disk_inode \<Rightarrow> u8 list \<Rightarrow> bool" where
  "memory_ok ip0 buf0 \<longleftrightarrow>
     length (ino_dblocks ip0) = 12 \<and> length (ino_iblocks ip0) = 3 \<and> length buf0 = 1024"

lemma place_inode_ok:
  assumes "place_inode d i m rawdata ip = Inr rawdata'" and "0 \<le> d" and "0 \<le> i"
    and "int (length rawdata) = 1024 * n" and "m \<le> n" and "length (inode_bytes ip) = 100"
  shows "d < m" and "i < 10" and "length rawdata' = length rawdata"
    and "slice (slot d i) 100 rawdata' = inode_bytes ip"
    and "p < length rawdata \<Longrightarrow> p < slot d i \<or> slot d i + 100 \<le> p \<Longrightarrow> rawdata' ! p = rawdata ! p"
proof -
  show d: "d < m" and i: "i < 10" using assms(1) by (auto simp: place_inode_def split: if_splits)
  have r: "slot d i + 100 \<le> length rawdata" and nn: "slot d i = nat (d * BLOCK_SZ + i * 100)"
    using d i assms(2-5) by (auto simp: slot_def BLOCK_SZ_def)
  have e: "rawdata' = blit (slot d i) (inode_bytes ip) rawdata"
    using assms(1) d i nn by (auto simp: place_inode_def Let_def res_simps split: if_splits)
  show "length rawdata' = length rawdata" "slice (slot d i) 100 rawdata' = inode_bytes ip"
    using r assms(6) e by (auto simp: array_simps)
  show "rawdata' ! p = rawdata ! p"
    if "p < length rawdata" "p < slot d i \<or> slot d i + 100 \<le> p"
    using that r assms(6) e by (auto simp: array_simps)
qed

lemma slice_block_of:
  assumes "0 \<le> d" and "0 \<le> i" and "i < 10"
  shows "slice (slot d i) 100 rawdata = slice (nat i * 100) 100 (block_of rawdata d)"
proof -
  have "slot d i = nat d * 1024 + nat i * 100"
    using assms by (simp add: slot_def nat_add_distrib nat_mult_distrib)
  with assms show ?thesis by (simp add: block_of_def slice_slice)
qed

lemma place_inode_free_slot:
  assumes "place_inode d i m rawdata ip = Inr rawdata'"
  shows "is_inode (d * BLOCK_SZ + i * 100) rawdata = Inr False"
  using assms by (auto simp: place_inode_def Let_def bindR_eq_Inr split: if_splits)

lemma is_inode_cong:
  assumes "in_range rawdata off 100" and "length rawdata' = length rawdata"
    and "slice (nat off) 100 rawdata = slice (nat off) 100 rawdata'"
  shows "is_inode off rawdata = is_inode off rawdata'"
proof -
  have rd: "read_int (off + int i) rawdata = read_int (off + int i) rawdata'" if "i \<le> 96" for i
  proof -
    have "slice (nat off + i) 4 r = slice i 4 (slice (nat off) 100 r)" for r :: "u8 list"
      using that by (simp add: slice_slice)
    then show ?thesis using assms that
      by (simp add: read_int_def load_block_def in_range_def nat_add_distrib)
  qed
  have "read_int (off + i) rawdata = read_int (off + i) rawdata'" if "i \<in> set (steps4 25)" for i
  proof -
    have "0 \<le> i" "nat i \<le> 96" using that by (auto simp: steps4_def)
    with rd [of "nat i"] show ?thesis by simp
  qed
  then have "for_each (steps4 25) (\<lambda>i found. bindR (read_int (off + i) rawdata) (\<lambda>contents.
        Inr (if contents \<noteq> 0 then Stop True else Next found))) False
      = for_each (steps4 25) (\<lambda>i found. bindR (read_int (off + i) rawdata') (\<lambda>contents.
        Inr (if contents \<noteq> 0 then Stop True else Next found))) False"
    by (intro for_each_cong) simp
  then show ?thesis unfolding is_inode_def by simp
qed

lemma place_inode_error:
  assumes "place_inode d i m rawdata ip = Inl e" and "0 \<le> d" and "0 \<le> i"
    and "int (length rawdata) = 1024 * n" and "m \<le> n" and "length (inode_bytes ip) = 100"
  shows "e = Exit (-1)"
proof (cases "d < m \<and> i < 10")
  case True
  let ?off = "d * BLOCK_SZ + i * 100"
  have r: "0 \<le> ?off" "?off + 100 \<le> int (length rawdata)"
    using True assms(2-5) by (auto simp: BLOCK_SZ_def)
  have "read_int (?off + j) rawdata \<noteq> Inl e'" if "j \<in> set (steps4 25)" for j e'
    using r that by (auto simp: read_int_def res_simps load_block_def in_range_def steps4_def)
  then have "for_each js (\<lambda>j found. bindR (read_int (?off + j) rawdata)
      (\<lambda>contents. Inr (if contents \<noteq> 0 then Stop True else Next found))) f \<noteq> Inl e'"
    if "set js \<subseteq> set (steps4 25)" for js f e'
    using that
  proof (induction js arbitrary: f)
    case (Cons j js)
    then show ?case by (auto simp: res_simps split: flow.splits if_splits)
  qed simp
  then have "is_inode ?off rawdata \<noteq> Inl e'" for e'
    by (auto simp: is_inode_def res_simps)
  moreover have "store_block rawdata ?off (inode_bytes ip) \<noteq> Inl e'" for e'
    using r assms(6) by (simp add: store_block_def in_range_def)
  ultimately show ?thesis using assms(1) True
    by (auto simp: place_inode_def Let_def res_simps split: if_splits)
next
  case False
  with assms(1) show ?thesis by (auto simp: place_inode_def split: if_splits)
qed

text \<open>The state in which \<open>place_file\<close> starts to place blocks.\<close>

definition place_start :: "u8 list \<Rightarrow> u8 list \<Rightarrow> disk_inode \<Rightarrow> u8 list \<Rightarrow> placing" where
  "place_start rawdata bitmap ip buf =
     \<lparr>p_rawdata = rawdata, p_bitmap = bitmap, p_pos = 0, p_buf = buf, p_nbytes = 0, p_ip = ip\<rparr>"

definition header :: "disk_inode \<Rightarrow> int \<Rightarrow> int \<Rightarrow> int \<times> int \<times> int \<Rightarrow> disk_inode" where
  "header ip0 uid gid stamps =
     (let (ct, mt, at) = stamps in
      ip0\<lparr>ino_mode := 0, ino_nlink := 1, ino_uid := uid, ino_gid := gid,
          ino_ctime := ct, ino_mtime := mt, ino_atime := at\<rparr>)"

lemma place_file_run:
  "place_file (Some file) uid gid d i m rawdata bitmap n ip0 buf0 stamps =
     bindR (place_direct_blocks file n m
              (place_start rawdata bitmap (header ip0 uid gid stamps) buf0)) (\<lambda>st.
     bindR (place_indirect_blocks file n m st) (\<lambda>st.
     bindR (if p_nbytes st < length file
            then bindR (place_doubly_indirect_block file n m False st) (\<lambda>(_, st). Inr st)
            else Inr st) (\<lambda>st.
     bindR (if p_nbytes st < length file then place_triply_indirect_block file n m st
            else Inr st) (\<lambda>st.
     if p_nbytes st < length file then Inl (Exit (-1))
     else bindR (place_inode d i m (p_rawdata st) ((p_ip st)\<lparr>ino_size := int (p_nbytes st)\<rparr>))
            (\<lambda>rawdata. Inr (rawdata, p_bitmap st))))))"
  by (cases stamps) (simp add: place_file_def place_start_def header_def Let_def cong: if_cong)

lemma placed_start:
  assumes "image_ok m n rawdata bitmap" and "memory_ok ip0 buf0"
  shows "placed file n m (place_start rawdata bitmap (header ip0 uid gid stamps) buf0) 0
           (place_start rawdata bitmap (header ip0 uid gid stamps) buf0)"
  using assms
  by (auto simp: placed_def place_inv_def inode_upto_def place_start_def header_def image_ok_def
      memory_ok_def split: prod.splits)

text \<open>What the inode says besides the blocks.\<close>

definition header_ok :: "int \<Rightarrow> int \<Rightarrow> int \<times> int \<times> int \<Rightarrow> nat \<Rightarrow> disk_inode \<Rightarrow> bool" where
  "header_ok uid gid stamps fsize ip \<longleftrightarrow>
     ino_mode ip = 0 \<and> ino_nlink ip = 1 \<and> ino_uid ip = uid \<and> ino_gid ip = gid
     \<and> ino_size ip = int fsize \<and> (ino_ctime ip, ino_mtime ip, ino_atime ip) = stamps"

definition file_at ::
    "int set \<Rightarrow> u8 list \<Rightarrow> int \<Rightarrow> u8 list \<Rightarrow> u8 list \<Rightarrow> int \<Rightarrow> int \<Rightarrow> disk_inode \<Rightarrow> bool" where
  "file_at A file m rawdata bitmap d i ip \<longleftrightarrow>
     inode_ok A file m rawdata bitmap ip \<and> slice (slot d i) 100 rawdata = inode_bytes ip"

lemma place_file_ok:
  assumes run: "place_file (Some file) uid gid d i m rawdata bitmap n ip0 buf0 stamps
                  = Inr (rawdata', bitmap')"
    and img: "image_ok m n rawdata bitmap" and mem: "memory_ok ip0 buf0" and di: "0 \<le> d" "0 \<le> i"
  shows "\<exists>ip. header_ok uid gid stamps (length file) ip
      \<and> file_at {c. used bitmap c} file m rawdata' bitmap' d i ip"
    and "d < m" and "i < 10" and "image_ok m n rawdata' bitmap'"
    and "length file \<le> 1024 * max_chunks"
    and "used bitmap c \<Longrightarrow> used bitmap' c"
    and "0 \<le> c \<Longrightarrow> c \<noteq> d \<Longrightarrow> c < m \<or> used bitmap c \<Longrightarrow> block_of rawdata' c = block_of rawdata c"
    and "is_inode (d * BLOCK_SZ + i * 100) rawdata = Inr False"
    and "p div 1024 = nat d \<Longrightarrow> p < slot d i \<or> slot d i + 100 \<le> p \<Longrightarrow> rawdata' ! p = rawdata ! p"
proof -
  let ?st0 = "place_start rawdata bitmap (header ip0 uid gid stamps) buf0"
  from run obtain s1 s2 s3 s4 where
    r1: "place_direct_blocks file n m ?st0 = Inr s1" and
    r2: "place_indirect_blocks file n m s1 = Inr s2" and
    r3: "(if p_nbytes s2 < length file
            then bindR (place_doubly_indirect_block file n m False s2) (\<lambda>(_, st). Inr st)
            else Inr s2) = Inr s3" and
    r4: "(if p_nbytes s3 < length file then place_triply_indirect_block file n m s3
            else Inr s3) = Inr s4" and
    full: "\<not> p_nbytes s4 < length file" and
    ri: "place_inode d i m (p_rawdata s4) ((p_ip s4)\<lparr>ino_size := int (p_nbytes s4)\<rparr>) = Inr rawdata'"
    and bm: "bitmap' = p_bitmap s4"
    unfolding place_file_run by (auto simp: res_simps split: if_splits)
  have p1: "placed file n m ?st0 12 s1 \<and> same_header (p_ip ?st0) (p_ip s1)"
    by (rule place_direct_blocks_ok [OF placed_start [OF img mem] r1])
  have p2: "placed file n m ?st0 780 s2 \<and> same_header (p_ip s1) (p_ip s2)"
    by (rule place_indirect_blocks_ok [OF conjunct1 [OF p1] r2])
  have p3: "placed file n m ?st0 66316 s3 \<and> same_header (p_ip s2) (p_ip s3)"
    by (rule place_doubly_stage [OF conjunct1 [OF p2] r3])
  have p4: "placed file n m ?st0 max_chunks s4 \<and> same_header (p_ip s3) (p_ip s4)"
    by (rule place_triply_stage [OF conjunct1 [OF p3] r4])
  have h: "same_header (header ip0 uid gid stamps) (p_ip s4)"
    using p1 p2 p3 p4 same_header_trans by (simp add: place_start_def) blast
  let ?ip = "(p_ip s4)\<lparr>ino_size := int (p_nbytes s4)\<rparr>"
  have inv: "place_inv file n m max_chunks s4" and k: "keeps {} m ?st0 s4"
    and up: "inode_ok {c. used bitmap c} file m (p_rawdata s4) (p_bitmap s4) (p_ip s4)"
    using p4 by (simp_all add: placed_def place_start_def)
  have nb: "p_nbytes s4 = length file" using inv full by (auto simp: place_inv_def)
  have up': "inode_ok {c. used bitmap c} file m (p_rawdata s4) (p_bitmap s4) ?ip"
    using up by (simp add: inode_upto_def)
  have len: "length (inode_bytes ?ip) = 100"
    by (rule length_inode_bytes) (use up in \<open>simp_all add: inode_upto_def\<close>)
  have raw: "int (length (p_rawdata s4)) = 1024 * n" "m \<le> n" using inv by (auto simp: place_inv_def)
  note pi = place_inode_ok [OF ri di raw len]
  show d: "d < m" and i: "i < 10" by (fact pi)+
  have sl: "slot d i = nat d * 1024 + nat i * 100"
    using di by (simp add: slot_def nat_add_distrib nat_mult_distrib)
  have other: "block_of rawdata' c = block_of (p_rawdata s4) c" if "0 \<le> c" "c \<noteq> d" for c
    unfolding block_of_def
  proof (rule slice_eqI)
    fix p assume p: "nat c * 1024 \<le> p" "p < nat c * 1024 + 1024" "p < length rawdata'"
    have "nat i < 10" "nat c \<noteq> nat d" using i that di by auto
    with p sl have "p < slot d i \<or> slot d i + 100 \<le> p" by linarith
    with p(3) pi(3,5) show "rawdata' ! p = p_rawdata s4 ! p" by simp
  qed (fact pi(3))
  have "keeps {d} m s4 (s4\<lparr>p_rawdata := rawdata'\<rparr>)" using pi(3) other by (simp add: keeps_def)
  from inode_upto_keeps [OF inode_upto_insert [OF up' d] this]
  have "inode_ok (insert d {c. used bitmap c}) file m rawdata' (p_bitmap s4) ?ip"
    using inv by (auto simp: place_inv_def)
  then have "inode_ok {c. used bitmap c} file m rawdata' bitmap' ?ip"
    unfolding bm by (rule inode_upto_antimono) auto
  moreover have "header_ok uid gid stamps (length file) ?ip"
    using h nb by (auto simp: header_ok_def same_header_def header_def split: prod.splits)
  ultimately show "\<exists>ip. header_ok uid gid stamps (length file) ip
      \<and> file_at {c. used bitmap c} file m rawdata' bitmap' d i ip"
    using pi(4) by (auto simp: file_at_def)
  show "image_ok m n rawdata' bitmap'" using inv pi(3) bm by (auto simp: place_inv_def image_ok_def)
  show "length file \<le> 1024 * max_chunks" using inv nb by (auto simp: place_inv_def)
  show "used bitmap' c" if "used bitmap c"
    using k that bm by (simp add: keeps_def place_start_def)
  show "block_of rawdata' c = block_of rawdata c" if "0 \<le> c" "c \<noteq> d" "c < m \<or> used bitmap c"
    using k other that by (auto simp: keeps_def place_start_def)
  show "is_inode (d * BLOCK_SZ + i * 100) rawdata = Inr False"
  proof -
    have eq: "block_of (p_rawdata s4) d = block_of rawdata d"
      using k di d by (simp add: keeps_def place_start_def)
    have "is_inode (d * BLOCK_SZ + i * 100) rawdata = is_inode (d * BLOCK_SZ + i * 100) (p_rawdata s4)"
    proof (rule is_inode_cong)
      show "length (p_rawdata s4) = length rawdata" using k by (simp add: keeps_def place_start_def)
      then show "in_range rawdata (d * BLOCK_SZ + i * 100) 100"
        using d i di raw by (auto simp: in_range_def BLOCK_SZ_def)
      show "slice (nat (d * BLOCK_SZ + i * 100)) 100 rawdata
          = slice (nat (d * BLOCK_SZ + i * 100)) 100 (p_rawdata s4)"
        using slice_block_of [OF di i] eq by (simp add: slot_def BLOCK_SZ_def)
    qed
    with place_inode_free_slot [OF ri] show ?thesis by simp
  qed
  show "rawdata' ! p = rawdata ! p"
    if p: "p div 1024 = nat d" "p < slot d i \<or> slot d i + 100 \<le> p"
  proof -
    have b: "nat d * 1024 \<le> p" "p < nat d * 1024 + 1024" using p(1) by auto
    have lp: "p < length (p_rawdata s4)" using b d di raw by linarith
    have eq: "block_of (p_rawdata s4) d = block_of rawdata d"
      using k di d by (simp add: keeps_def place_start_def)
    have l0: "length rawdata = length (p_rawdata s4)" using k by (simp add: keeps_def place_start_def)
    have "p_rawdata s4 ! p = block_of (p_rawdata s4) d ! (p - nat d * 1024)"
      using b lp by (simp add: block_of_def array_simps)
    also have "\<dots> = rawdata ! p" unfolding eq using b lp l0 by (simp add: block_of_def array_simps)
    finally show ?thesis using pi(5) [OF lp p(2)] by simp
  qed
qed

section \<open>The errors of \<open>place_file\<close>\<close>

lemma copy_next_block_no_error:
  assumes "place_inv file n m k st" and "used (p_bitmap st) b"
  shows "copy_next_block file b st \<noteq> Inl e"
  using copy_next_block_ok [OF assms] by auto

lemma place_direct_blocks_error:
  assumes p: "placed file n m st0 0 st" and run: "place_direct_blocks file n m st = Inl e"
  shows "e = Exit (-1)"
proof -
  let ?body = "\<lambda>iterator st.
        bindR (take_free_block n m st) (\<lambda>(blockno, st).
          let st = st\<lparr>p_ip := (p_ip st)\<lparr>ino_dblocks :=
                         (ino_dblocks (p_ip st))[iterator := blockno]\<rparr>\<rparr> in
          bindR (copy_next_block file blockno st) (\<lambda>st.
            Inr (if p_nbytes st \<ge> length file then Stop st else Next st)))"
  from run have "for_each [0..<12] ?body st = Inl e"
    by (auto simp: place_direct_blocks_def res_simps N_DBLOCKS_def)
  then show ?thesis
  proof (rule for_each_upt_error [where I = "\<lambda>k s. placed file n m st0 k s"])
    show "placed file n m st0 0 st" by (fact p)
  next
    fix k s s' assume k: "k < 12" and I: "placed file n m st0 k s" and b: "?body k s = Inr (Next s')"
    from b obtain x s1 where t: "take_free_block n m s = Inr (x, s1)"
      and c: "copy_next_block file x (s1\<lparr>p_ip := (p_ip s1)\<lparr>ino_dblocks :=
              (ino_dblocks (p_ip s1))[k := x]\<rparr>\<rparr>) = Inr s'"
      by (auto simp: res_simps Let_def split: if_splits)
    show "placed file n m st0 (Suc k) s'" by (rule place_direct_step [OF I k t c])
  next
    fix k s e assume I: "placed file n m st0 k s" and b: "?body k s = Inl e"
    have inv: "place_inv file n m k s" using I by (simp add: placed_def)
    show "e = Exit (-1)"
    proof (cases "take_free_block n m s")
      case (Inl e')
      with b take_free_block_error [OF inv] show ?thesis by auto
    next
      case (Inr r)
      obtain x s1 where t: "take_free_block n m s = Inr (x, s1)" using Inr by (cases r) auto
      note f = take_free_block_ok [OF inv t]
      let ?s = "s1\<lparr>p_ip := (p_ip s1)\<lparr>ino_dblocks := (ino_dblocks (p_ip s1))[k := x]\<rparr>\<rparr>"
      have "place_inv file n m k ?s" using f(6) by (simp add: place_inv_def)
      then have "copy_next_block file x ?s \<noteq> Inl e"
        by (rule copy_next_block_no_error) (use f(5) in simp)
      with b t show ?thesis by (auto simp: res_simps Let_def)
    qed
  qed
qed

lemma place_indirect_blocks_error:
  assumes p: "placed file n m st0 12 st" and run: "place_indirect_blocks file n m st = Inl e"
  shows "e = Exit (-1)"
proof -
  let ?body = "\<lambda>num_indirect st.
        if p_nbytes st < length file then
          bindR (place_indirect_block file n m num_indirect st) (\<lambda>(_, st). Inr (Next st))
        else Inr (Stop st)"
  from run have "for_each [0..<3] ?body st = Inl e"
    by (auto simp: place_indirect_blocks_def res_simps N_IBLOCKS_def)
  then show ?thesis
  proof (rule for_each_upt_error [where I = "\<lambda>q s. placed file n m st0 (12 + 256 * q) s"])
    show "placed file n m st0 (12 + 256 * 0) st" using p by simp
  next
    fix q s s' assume q: "q < 3" and I: "placed file n m st0 (12 + 256 * q) s"
      and b: "?body q s = Inr (Next s')"
    then obtain v where "place_indirect_block file n m q s = Inr (v, s')"
      by (auto simp: res_simps split: if_splits)
    then show "placed file n m st0 (12 + 256 * Suc q) s'" by (rule place_indirect_step [OF I q])
  next
    fix q s e assume I: "placed file n m st0 (12 + 256 * q) s" and b: "?body q s = Inl e"
    have inv: "place_inv file n m (12 + 256 * q) s" using I by (simp add: placed_def)
    from b have "place_indirect_block file n m q s = Inl e"
      by (auto simp: res_simps split: if_splits)
    then show "e = Exit (-1)" by (rule place_indirect_block_error [OF inv])
  qed
qed

lemma place_file_error:
  assumes run: "place_file (Some file) uid gid d i m rawdata bitmap n ip0 buf0 stamps = Inl e"
    and img: "image_ok m n rawdata bitmap" and mem: "memory_ok ip0 buf0" and di: "0 \<le> d" "0 \<le> i"
  shows "e = Exit (-1)"
proof (rule ccontr)
  assume ne: "e \<noteq> Exit (-1)"
  let ?st0 = "place_start rawdata bitmap (header ip0 uid gid stamps) buf0"
  have p0: "placed file n m ?st0 0 ?st0" by (rule placed_start [OF img mem])
  from run ne obtain s1 where r1: "place_direct_blocks file n m ?st0 = Inr s1"
    unfolding place_file_run using place_direct_blocks_error [OF p0] by (auto simp: res_simps)
  note p1 = conjunct1 [OF place_direct_blocks_ok [OF p0 r1]]
  from run ne r1 obtain s2 where r2: "place_indirect_blocks file n m s1 = Inr s2"
    unfolding place_file_run using place_indirect_blocks_error [OF p1] by (auto simp: res_simps)
  note p2 = conjunct1 [OF place_indirect_blocks_ok [OF p1 r2]]
  have i2: "place_inv file n m 780 s2" using p2 by (simp add: placed_def)
  let ?r3 = "if p_nbytes s2 < length file
            then bindR (place_doubly_indirect_block file n m False s2) (\<lambda>(_, st). Inr st)
            else Inr s2"
  have "?r3 \<noteq> Inl e"
    using place_doubly_indirect_block_error [OF i2] ne by (auto simp: res_simps)
  with run ne r1 r2 obtain s3 where r3: "?r3 = Inr s3"
    unfolding place_file_run by (cases ?r3) auto
  note p3 = conjunct1 [OF place_doubly_stage [OF p2 r3]]
  have i3: "place_inv file n m 66316 s3" using p3 by (simp add: placed_def)
  let ?r4 = "if p_nbytes s3 < length file then place_triply_indirect_block file n m s3 else Inr s3"
  have "?r4 \<noteq> Inl e" using place_triply_indirect_block_error [OF i3] ne by auto
  with run ne r1 r2 r3 obtain s4 where r4: "?r4 = Inr s4"
    unfolding place_file_run by (cases ?r4) auto
  note p4 = conjunct1 [OF place_triply_stage [OF p3 r4]]
  have inv: "place_inv file n m max_chunks s4"
    and up: "inode_ok (used_set ?st0) file m (p_rawdata s4) (p_bitmap s4) (p_ip s4)"
    using p4 by (simp_all add: placed_def)
  let ?ip = "(p_ip s4)\<lparr>ino_size := int (p_nbytes s4)\<rparr>"
  have len: "length (inode_bytes ?ip) = 100"
    by (rule length_inode_bytes) (use up in \<open>simp_all add: inode_upto_def\<close>)
  have raw: "int (length (p_rawdata s4)) = 1024 * n" "m \<le> n" using inv by (auto simp: place_inv_def)
  have "place_inode d i m (p_rawdata s4) ?ip \<noteq> Inl e"
    using place_inode_error [OF _ di raw len] ne by blast
  with run ne r1 r2 r3 r4 show False
    unfolding place_file_run by (auto simp: res_simps split: if_splits)
qed

end
