(* ===== verification/Disk_Extract.thy ===== *)
theory Disk_Extract
  imports Disk_File Disk_Main
begin

text \<open>
  Reading a file back (\<open>extract_file\<close> of \<open>inodes/disk_image.c\<close>): what \<open>place_file\<close> wrote is
  what \<open>extract_file\<close> finds.  The locale \<open>entry_walker\<close> is the contract of one pointer's walk;
  a data block and the two lower levels of pointer blocks are its interpretations.
\<close>

section \<open>The output so far\<close>

text \<open>
  After the walk over the first \<open>k\<close> chunks: exactly those, and once the whole file is out,
  the file with possibly more behind it (nothing more if its size is a multiple of 1024).
\<close>

definition out_ok :: "u8 list \<Rightarrow> nat \<Rightarrow> u8 list \<Rightarrow> bool" where
  "out_ok file k out \<longleftrightarrow>
     (if 1024 * k < length file then out = take (1024 * k) file
      else take (length file) out = file \<and> (1024 dvd length file \<longrightarrow> out = file))"

definition stored :: "u8 list \<Rightarrow> int \<Rightarrow> int \<Rightarrow> u8 list \<Rightarrow> u8 list \<Rightarrow> disk_inode \<Rightarrow> bool" where
  "stored file m n rawdata bitmap ip \<longleftrightarrow>
     image_ok m n rawdata bitmap \<and> ino_size ip = int (length file)"

lemma out_ok_0: "out_ok file 0 []"
  by (auto simp: out_ok_def)

lemma out_ok_later: "out_ok file k out \<Longrightarrow> \<not> 1024 * k < length file \<Longrightarrow> k \<le> k' \<Longrightarrow> out_ok file k' out"
  by (auto simp: out_ok_def)

lemma out_ok_end: "out_ok file k out \<Longrightarrow> length file \<le> 1024 * k \<Longrightarrow> take (length file) out = file"
  by (auto simp: out_ok_def)

section \<open>One data block\<close>

lemma emit_block_ok:
  assumes c: "stored file m n rawdata bitmap ip" and o: "out_ok file k out"
    and e: "1024 * k < length file \<Longrightarrow> chunk_ok A file m rawdata bitmap e k"
    and run: "emit_block rawdata e (ino_size ip) out = Inr out'"
  shows "out_ok file (k + 1) out'"
proof -
  define w where "w = (if int (length out) + BLOCK_SZ > ino_size ip then c_mod (ino_size ip) BLOCK_SZ
                       else BLOCK_SZ)"
  have size: "ino_size ip = int (length file)" using c by (simp add: stored_def)
  have w: "w = (if length out + 1024 > length file then int (length file mod 1024) else 1024)"
    by (auto simp: w_def size BLOCK_SZ_def zmod_int)
  have out': "out' = out @ slice (nat (e * 1024)) (nat w) rawdata"
    and rng: "in_range rawdata (e * 1024) (nat w)"
    using run by (auto simp: emit_block_def Let_def w_def res_simps split: if_splits)
  show ?thesis
  proof (cases "1024 * k < length file")
    case True
    with o have out: "out = take (1024 * k) file" "length out = 1024 * k" by (auto simp: out_ok_def)
    have ch: "chunk_ok A file m rawdata bitmap e k" by (rule e [OF True])
    then have "0 \<le> e" by (simp add: chunk_ok_def used_def)
    have "nat w = length (chunk file k)"
    proof (cases "1024 * k + 1024 \<le> length file")
      case False
      with True have "length file mod 1024 = length file - 1024 * k"
        using mod_mult_self2 [of "length file - 1024 * k" 1024 k] by simp
      with False out w show ?thesis by (auto simp: chunk_def)
    qed (use out w in \<open>simp add: chunk_def\<close>)
    then have "slice (nat (e * 1024)) (nat w) rawdata = chunk file k"
      using ch \<open>0 \<le> e\<close>
      by (simp add: chunk_ok_def block_of_def take_slice nat_mult_distrib chunk_def)
    then have "out' = take (1024 * k) file @ take 1024 (drop (1024 * k) file)"
      using out' out by (simp add: chunk_def slice_def)
    then have "out' = take (1024 * (k + 1)) file"
      by (simp add: take_add [symmetric] add.commute)
    then show ?thesis by (auto simp: out_ok_def)
  next
    case False
    with o have out: "take (length file) out = file" "1024 dvd length file \<Longrightarrow> out = file"
      by (auto simp: out_ok_def)
    from out(1) have "length file \<le> length out" by (metis length_take min.cobounded1)
    moreover from this w have "1024 dvd length file \<Longrightarrow> w = 0" by (auto simp: dvd_eq_mod_eq_0)
    ultimately show ?thesis using out out' False by (auto simp: out_ok_def)
  qed
qed

section \<open>Blocks of pointers\<close>

locale entry_walker =
  fixes walk :: "u8 list \<Rightarrow> int \<Rightarrow> int \<Rightarrow> disk_inode \<Rightarrow> u8 list \<Rightarrow> u8 list res"
    and ok :: layout
    and w :: nat
  assumes walk_ok:
      "stored file m n rawdata bitmap ip \<Longrightarrow> out_ok file k out \<Longrightarrow>
       (1024 * k < length file \<Longrightarrow> ok A file m rawdata bitmap e k) \<Longrightarrow>
       walk rawdata e n ip out = Inr out' \<Longrightarrow> out_ok file (k + w) out'"
    and ok_used: "ok A file m rawdata bitmap e k \<Longrightarrow> used bitmap e"
begin

lemma walk_pointers_ok:
  assumes c: "stored file m n rawdata bitmap ip" and o: "out_ok file k out"
    and e: "1024 * k < length file \<Longrightarrow> ptr_ok w ok A file m rawdata bitmap b k"
    and run: "for_each (steps4 1024) (\<lambda>i out.
        bindR (read_int (b * BLOCK_SZ + i) rawdata) (\<lambda>e.
          if e < 0 \<or> e > n then Inr (Stop out)
          else bindR (walk rawdata e n ip out) (\<lambda>out. Inr (Next out)))) out = Inr r"
  shows "out_ok file (k + w * 256) (final r)"
proof -
  let ?I = "\<lambda>j out. out_ok file (k + w * j) out"
  from run have loop: "for_each (map (\<lambda>j. 4 * int j) [0..<256]) (\<lambda>i out.
        bindR (read_int (b * BLOCK_SZ + i) rawdata) (\<lambda>e.
          if e < 0 \<or> e > n then Inr (Stop out)
          else bindR (walk rawdata e n ip out) (\<lambda>out. Inr (Next out)))) out = Inr r"
    by (simp add: steps4_def)
  have "case r of Next s \<Rightarrow> ?I 256 s | Stop s \<Rightarrow> ?I 256 s"
  proof (rule for_each_upt_invariant [OF loop])
    show "?I 0 out" using o by simp
    fix j s r
    assume j: "j < 256" and I: "?I j s"
      and "bindR (read_int (b * BLOCK_SZ + 4 * int j) rawdata) (\<lambda>e.
          if e < 0 \<or> e > n then Inr (Stop s)
          else bindR (walk rawdata e n ip s) (\<lambda>out. Inr (Next out))) = Inr r"
    then obtain e where e: "read_int (b * BLOCK_SZ + 4 * int j) rawdata = Inr e"
      and step: "(if e < 0 \<or> e > n then Inr (Stop s)
          else bindR (walk rawdata e n ip s) (\<lambda>out. Inr (Next out))) = Inr r"
      by (auto simp: res_simps)
    have active: "ok A file m rawdata bitmap e (k + w * j)" if lt: "1024 * (k + w * j) < length file"
    proof -
      from lt have "1024 * k < length file" by simp
      then have p: "ptr_ok w ok A file m rawdata bitmap b k" by (rule assms(3))
      then have "used bitmap b" by (simp add: ptr_ok_def)
      then have "in_image rawdata b"
        using c by (auto simp: stored_def image_ok_def used_def in_image_def)
      then have "e = entry rawdata b j" using read_int_entry [OF _ j] e by simp
      with p j lt show ?thesis by (simp add: ptr_ok_def)
    qed
    show "case r of Next s \<Rightarrow> ?I (Suc j) s | Stop s \<Rightarrow> ?I 256 s"
    proof (cases "e < 0 \<or> e > n")
      case True
      have "\<not> 1024 * (k + w * j) < length file"
      proof
        assume "1024 * (k + w * j) < length file"
        from ok_used [OF active [OF this]] c True show False
          by (auto simp: used_def stored_def image_ok_def)
      qed
      then have "?I 256 s" using I j by (intro out_ok_later [OF I]) auto
      with step True show ?thesis by auto
    next
      case False
      with step obtain s' where s': "walk rawdata e n ip s = Inr s'" and r: "r = Next s'"
        by (auto simp: res_simps)
      from walk_ok [OF c I active s'] r show ?thesis by (simp add: ac_simps)
    qed
  qed simp
  then show ?thesis by (cases r) auto
qed

end

interpretation emit_walker: entry_walker
  "\<lambda>rawdata e max_block ip out. emit_block rawdata e (ino_size ip) out" chunk_ok 1
proof (unfold_locales, goal_cases)
  case (1 data m n rawdata bitmap ip k out A e out')
  then show ?case by (rule emit_block_ok)
next
  case (2 A data m rawdata bitmap e k)
  then show ?case by (simp add: chunk_ok_def)
qed

interpretation indirect_walker: entry_walker extract_walk_indirect_block indirect_ok 256
proof (unfold_locales, goal_cases)
  case (1 data m n rawdata bitmap ip k out A e out')
  from 1(4) obtain r where r: "for_each (steps4 1024) (\<lambda>i out.
        bindR (read_int (e * BLOCK_SZ + i) rawdata) (\<lambda>e.
          if e < 0 \<or> e > n then Inr (Stop out)
          else bindR (emit_block rawdata e (ino_size ip) out) (\<lambda>out. Inr (Next out)))) out = Inr r"
    and "out' = final r"
    unfolding extract_walk_indirect_block_def by (auto simp: res_simps)
  with emit_walker.walk_pointers_ok [OF 1(1,2,3) r] show ?case by simp
next
  case (2 A data m rawdata bitmap e k)
  then show ?case by (simp add: ptr_ok_def)
qed

interpretation doubly_walker: entry_walker extract_walk_doubly_indirect_block doubly_ok 65536
proof (unfold_locales, goal_cases)
  case (1 data m n rawdata bitmap ip k out A e out')
  from 1(4) obtain r where r: "for_each (steps4 1024) (\<lambda>i out.
        bindR (read_int (e * BLOCK_SZ + i) rawdata) (\<lambda>e.
          if e < 0 \<or> e > n then Inr (Stop out)
          else bindR (extract_walk_indirect_block rawdata e n ip out) (\<lambda>out. Inr (Next out)))) out
        = Inr r"
    and "out' = final r"
    unfolding extract_walk_doubly_indirect_block_def by (auto simp: res_simps)
  with indirect_walker.walk_pointers_ok [OF 1(1,2,3) r] show ?case by simp
next
  case (2 A data m rawdata bitmap e k)
  then show ?case by (simp add: ptr_ok_def)
qed

interpretation triply_walker: entry_walker extract_walk_triply_indirect_block triply_ok 16777216
proof (unfold_locales, goal_cases)
  case (1 data m n rawdata bitmap ip k out A e out')
  from 1(4) obtain r where r: "for_each (steps4 1024) (\<lambda>i out.
        bindR (read_int (e * BLOCK_SZ + i) rawdata) (\<lambda>e.
          if e < 0 \<or> e > n then Inr (Stop out)
          else bindR (extract_walk_doubly_indirect_block rawdata e n ip out)
                 (\<lambda>out. Inr (Next out)))) out = Inr r"
    and "out' = final r"
    unfolding extract_walk_triply_indirect_block_def by (auto simp: res_simps)
  with doubly_walker.walk_pointers_ok [OF 1(1,2,3) r] show ?case by simp
next
  case (2 A data m rawdata bitmap e k)
  then show ?case by (simp add: ptr_ok_def)
qed

section \<open>The whole file\<close>

lemma extract_direct_blocks:
  assumes c: "stored file m n rawdata bitmap ip" and ok: "inode_ok A file m rawdata bitmap ip"
    and run: "for_each [0..<N_DBLOCKS] (\<lambda>i out.
         let block_no = ino_dblocks ip ! i in
         if block_no < 0 \<or> block_no > n then Inr (Stop out)
         else bindR (emit_block rawdata block_no (ino_size ip) out) (\<lambda>out. Inr (Next out))) [] = Inr r"
  shows "case r of Next out \<Rightarrow> out_ok file 12 out | Stop out \<Rightarrow> out_ok file max_chunks out"
proof (rule for_each_upt_invariant [where f = "\<lambda>i. i"])
  let ?body = "\<lambda>i out.
         let block_no = ino_dblocks ip ! i in
         if block_no < 0 \<or> block_no > n then Inr (Stop out)
         else bindR (emit_block rawdata block_no (ino_size ip) out) (\<lambda>out. Inr (Next out))"
  show "for_each (map (\<lambda>i. i) [0..<12]) ?body [] = Inr r" using run by (simp add: N_DBLOCKS_def)
  show "out_ok file 0 []" by (rule out_ok_0)
  fix k s r
  assume k: "k < 12" and I: "out_ok file k s" and step: "?body k s = Inr r"
  let ?e = "ino_dblocks ip ! k"
  have active: "chunk_ok A file m rawdata bitmap ?e k" if "1024 * k < length file"
    using ok k that by (simp add: inode_upto_def max_chunks_def)
  show "case r of Next out \<Rightarrow> out_ok file (Suc k) out | Stop out \<Rightarrow> out_ok file max_chunks out"
  proof (cases "?e < 0 \<or> ?e > n")
    case True
    have "\<not> 1024 * k < length file"
    proof
      assume "1024 * k < length file"
      from emit_walker.ok_used [OF active [OF this]] c True show False
        by (auto simp: used_def stored_def image_ok_def)
    qed
    then have "out_ok file max_chunks s" by (rule out_ok_later [OF I]) (use k in \<open>simp add: max_chunks_def\<close>)
    with step True show ?thesis by (auto simp: Let_def)
  next
    case False
    with step obtain s' where s': "emit_block rawdata ?e (ino_size ip) s = Inr s'" and r: "r = Next s'"
      by (auto simp: Let_def res_simps)
    from emit_block_ok [OF c I active s'] r show ?thesis by simp
  qed
qed simp

lemma extract_indirect_blocks:
  assumes c: "stored file m n rawdata bitmap ip" and ok: "inode_ok A file m rawdata bitmap ip"
    and o: "out_ok file 12 out"
    and run: "for_each [0..<N_IBLOCKS] (\<lambda>i out.
         let block_no = ino_iblocks ip ! i in
         if block_no < 0 \<or> block_no > n then Inr (Stop out)
         else bindR (extract_walk_indirect_block rawdata block_no n ip out)
                (\<lambda>out. Inr (Next out))) out = Inr r"
  shows "case r of Next out \<Rightarrow> out_ok file 780 out | Stop out \<Rightarrow> out_ok file max_chunks out"
proof -
  let ?body = "\<lambda>i out.
         let block_no = ino_iblocks ip ! i in
         if block_no < 0 \<or> block_no > n then Inr (Stop out)
         else bindR (extract_walk_indirect_block rawdata block_no n ip out) (\<lambda>out. Inr (Next out))"
  let ?I = "\<lambda>q out. out_ok file (12 + 256 * q) out"
  have loop: "for_each (map (\<lambda>i. i) [0..<3]) ?body out = Inr r" using run by (simp add: N_IBLOCKS_def)
  have "case r of Next out \<Rightarrow> ?I 3 out | Stop out \<Rightarrow> out_ok file max_chunks out"
  proof (rule for_each_upt_invariant [OF loop])
    show "?I 0 out" using o by simp
    fix q s r
    assume q: "q < 3" and I: "?I q s" and step: "?body q s = Inr r"
    let ?e = "ino_iblocks ip ! q"
    have active: "indirect_ok A file m rawdata bitmap ?e (12 + 256 * q)"
      if "1024 * (12 + 256 * q) < length file"
      using ok q that by (simp add: inode_upto_def max_chunks_def)
    show "case r of Next out \<Rightarrow> ?I (Suc q) out | Stop out \<Rightarrow> out_ok file max_chunks out"
    proof (cases "?e < 0 \<or> ?e > n")
      case True
      have "\<not> 1024 * (12 + 256 * q) < length file"
      proof
        assume "1024 * (12 + 256 * q) < length file"
        from indirect_walker.ok_used [OF active [OF this]] c True show False
          by (auto simp: used_def stored_def image_ok_def)
      qed
      then have "out_ok file max_chunks s"
        by (rule out_ok_later [OF I]) (use q in \<open>simp add: max_chunks_def\<close>)
      with step True show ?thesis by (auto simp: Let_def)
    next
      case False
      with step obtain s' where s': "extract_walk_indirect_block rawdata ?e n ip s = Inr s'"
        and r: "r = Next s'"
        by (auto simp: Let_def res_simps)
      from indirect_walker.walk_ok [OF c I active s'] r show ?thesis by (simp add: ac_simps)
    qed
  qed simp
  moreover have "(12::nat) + 256 * 3 = 780" by simp
  ultimately show ?thesis by (simp only:)
qed

lemma extract_optional:
  assumes c: "stored file m n rawdata bitmap ip" and o: "out_ok file k out"
    and walk: "\<And>out'. f out = Inr out' \<Longrightarrow> out_ok file k' out'"
    and active: "1024 * k < length file \<Longrightarrow> used bitmap e" and "k \<le> k'"
    and run: "(if e \<ge> 0 \<and> e \<le> n then f out else Inr out) = Inr out'"
  shows "out_ok file k' out'"
proof (cases "e \<ge> 0 \<and> e \<le> n")
  case True
  with run walk show ?thesis by simp
next
  case False
  have "\<not> 1024 * k < length file"
  proof
    assume "1024 * k < length file"
    from active [OF this] c False show False
      by (auto simp: used_def stored_def image_ok_def)
  qed
  from out_ok_later [OF o this \<open>k \<le> k'\<close>] run False show ?thesis by simp
qed

lemma extract_file_ok:
  assumes c: "stored file m n rawdata bitmap ip" and ok: "inode_ok A file m rawdata bitmap ip"
    and run: "extract_file ip rawdata (int (length rawdata)) [] = Inr out"
  shows "out_ok file max_chunks out"
proof -
  have n: "c_div (int (length rawdata)) BLOCK_SZ = n"
    using c by (auto simp: stored_def image_ok_def BLOCK_SZ_def)
  from run obtain r1 where r1: "for_each [0..<N_DBLOCKS] (\<lambda>i out.
         let block_no = ino_dblocks ip ! i in
         if block_no < 0 \<or> block_no > n then Inr (Stop out)
         else bindR (emit_block rawdata block_no (ino_size ip) out) (\<lambda>out. Inr (Next out))) [] = Inr r1"
    by (auto simp: extract_file_def n res_simps Let_def)
  note d = extract_direct_blocks [OF c ok r1]
  show ?thesis
  proof (cases r1)
    case (Stop out1)
    with run r1 d show ?thesis by (simp add: extract_file_def n Let_def)
  next
    case (Next out1)
    with d have o1: "out_ok file 12 out1" by simp
    from run r1 Next obtain r2 where r2: "for_each [0..<N_IBLOCKS] (\<lambda>i out.
         let block_no = ino_iblocks ip ! i in
         if block_no < 0 \<or> block_no > n then Inr (Stop out)
         else bindR (extract_walk_indirect_block rawdata block_no n ip out)
                (\<lambda>out. Inr (Next out))) out1 = Inr r2"
      by (auto simp: extract_file_def n res_simps Let_def)
    note i = extract_indirect_blocks [OF c ok o1 r2]
    show ?thesis
    proof (cases r2)
      case (Stop out2)
      with run r1 r2 \<open>r1 = Next out1\<close> i show ?thesis by (simp add: extract_file_def n Let_def)
    next
      case (Next out2)
      with i have o2: "out_ok file 780 out2" by simp
      from run r1 r2 \<open>r1 = Next out1\<close> Next obtain out3 where
        r3: "(if ino_i2block ip \<ge> 0 \<and> ino_i2block ip \<le> n
              then extract_walk_doubly_indirect_block rawdata (ino_i2block ip) n ip out2
              else Inr out2) = Inr out3"
        and r4: "(if ino_i3block ip \<ge> 0 \<and> ino_i3block ip \<le> n
              then extract_walk_triply_indirect_block rawdata (ino_i3block ip) n ip out3
              else Inr out3) = Inr out"
        by (auto simp: extract_file_def n res_simps Let_def)
      have d: "doubly_ok A file m rawdata bitmap (ino_i2block ip) 780" if "1024 * 780 < length file"
        using ok that by (simp add: inode_upto_def max_chunks_def)
      have "out_ok file (780 + 65536) out3"
      proof (rule extract_optional [where f = "extract_walk_doubly_indirect_block rawdata (ino_i2block ip) n ip",
            OF c o2 _ _ _ r3])
        show "out_ok file (780 + 65536) out'"
          if "extract_walk_doubly_indirect_block rawdata (ino_i2block ip) n ip out2 = Inr out'" for out'
          by (rule doubly_walker.walk_ok [OF c o2 d that])
        show "used bitmap (ino_i2block ip)" if "1024 * 780 < length file"
          by (rule doubly_walker.ok_used [OF d [OF that]])
      qed simp
      then have o3: "out_ok file 66316 out3" by simp
      have t: "triply_ok A file m rawdata bitmap (ino_i3block ip) 66316"
        if "1024 * 66316 < length file"
        using ok that by (simp add: inode_upto_def max_chunks_def)
      have "out_ok file (66316 + 16777216) out"
      proof (rule extract_optional [where f = "extract_walk_triply_indirect_block rawdata (ino_i3block ip) n ip",
            OF c o3 _ _ _ r4])
        show "out_ok file (66316 + 16777216) out'"
          if "extract_walk_triply_indirect_block rawdata (ino_i3block ip) n ip out3 = Inr out'" for out'
          by (rule triply_walker.walk_ok [OF c o3 t that])
        show "used bitmap (ino_i3block ip)" if "1024 * 66316 < length file"
          by (rule triply_walker.ok_used [OF t [OF that]])
      qed simp
      then show ?thesis by (simp add: max_chunks_def)
    qed
  qed
qed

section \<open>The inode read back\<close>

text \<open>
  Writing an inode truncates its numbers to 32 bits.  The numbers that matter, the size and
  the pointers to blocks of the file, fit.
\<close>

definition as_int :: "int \<Rightarrow> int" where
  "as_int v = bytes_int (int_bytes v)"

lemma as_int_fits [simp]: "fits_int v \<Longrightarrow> as_int v = v"
  by (simp add: as_int_def fits_int_def)

lemma inode_of_bytes_inode_bytes_as_int:
  assumes "length (ino_dblocks ip) = 12" and "length (ino_iblocks ip) = 3"
  shows "inode_of_bytes (inode_bytes ip) = inode_of_ints (map as_int (inode_ints ip))"
proof -
  have len: "length (inode_ints ip) = 25" using assms by (simp add: inode_ints_def)
  have "map (\<lambda>k. bytes_int (slice (4 * k) 4 (inode_bytes ip))) [0..<25] = map as_int (inode_ints ip)"
    by (rule nth_equalityI)
       (simp_all add: len inode_bytes_def slice_concat_int_bytes as_int_def)
  then show ?thesis by (simp add: inode_of_bytes_def)
qed

lemma inode_of_as_ints:
  assumes "length (ino_dblocks ip) = 12" and "length (ino_iblocks ip) = 3"
  shows "inode_of_ints (map as_int (inode_ints ip)) =
    \<lparr>ino_mode = as_int (ino_mode ip), ino_nlink = as_int (ino_nlink ip),
     ino_uid = as_int (ino_uid ip), ino_gid = as_int (ino_gid ip), ino_size = as_int (ino_size ip),
     ino_ctime = as_int (ino_ctime ip), ino_mtime = as_int (ino_mtime ip),
     ino_atime = as_int (ino_atime ip), ino_dblocks = map as_int (ino_dblocks ip),
     ino_iblocks = map as_int (ino_iblocks ip), ino_i2block = as_int (ino_i2block ip),
     ino_i3block = as_int (ino_i3block ip)\<rparr>"
  using assms by (simp add: inode_of_ints_def inode_ints_def nth_append slice_def numeral_eq_Suc)

lemma used_as_int:
  "image_ok m n rawdata bitmap \<Longrightarrow> used bitmap e \<Longrightarrow> as_int e = e"
  by (rule as_int_fits) (auto simp: used_def image_ok_def fits_int_def)

lemma inode_ok_read_back:
  assumes "inode_ok A file m rawdata bitmap ip" and "image_ok m n rawdata bitmap"
  shows "inode_ok A file m rawdata bitmap (inode_of_bytes (inode_bytes ip))"
proof -
  have len: "length (ino_dblocks ip) = 12" "length (ino_iblocks ip) = 3"
    using assms(1) by (simp_all add: inode_upto_def)
  note u = used_as_int [OF assms(2)]
  have c: "chunk_ok A file m rawdata bitmap (as_int e) k" if "chunk_ok A file m rawdata bitmap e k"
    for e k using that u by (simp add: chunk_ok_def)
  have p: "ptr_ok w ok A file m rawdata bitmap (as_int e) k" if "ptr_ok w ok A file m rawdata bitmap e k"
    for w ok e k using that u by (simp add: ptr_ok_def)
  show ?thesis
    unfolding inode_of_bytes_inode_bytes_as_int [OF len] inode_of_as_ints [OF len]
    using assms(1) by (simp add: inode_upto_def c p)
qed

text \<open>The image holds a file: the inode read from slot \<open>i\<close> of block \<open>d\<close> leads to it.\<close>

definition file_stored ::
    "int set \<Rightarrow> u8 list \<Rightarrow> int \<Rightarrow> u8 list \<Rightarrow> u8 list \<Rightarrow> int \<Rightarrow> int \<Rightarrow> disk_inode \<Rightarrow> bool" where
  "file_stored A file m rawdata bitmap d i ip \<longleftrightarrow>
     0 \<le> d \<and> d < m \<and> 0 \<le> i \<and> i < 10
     \<and> extract_inode_from_data (d * BLOCK_SZ + i * 100) rawdata = Inr ip
     \<and> ino_size ip = int (length file) \<and> ino_nlink ip = 1 \<and> length file \<le> 1024 * max_chunks
     \<and> inode_ok A file m rawdata bitmap ip"

lemma place_file_stored:
  assumes "place_file (Some file) uid gid d i m rawdata bitmap n ip0 buf0 stamps
             = Inr (rawdata', bitmap')"
    and "image_ok m n rawdata bitmap" and "memory_ok ip0 buf0" and "0 \<le> d" and "0 \<le> i"
    and "int (length file) < 2147483648"
  shows "\<exists>ip. file_stored {c. used bitmap c} file m rawdata' bitmap' d i ip
     \<and> (fits_int uid \<longrightarrow> ino_uid ip = uid) \<and> (fits_int gid \<longrightarrow> ino_gid ip = gid)"
proof -
  note ok = place_file_ok [OF assms(1-5)]
  from ok(1) obtain ip where h: "header_ok uid gid stamps (length file) ip"
    and f: "file_at {c. used bitmap c} file m rawdata' bitmap' d i ip" by blast
  have len: "length (ino_dblocks ip) = 12" "length (ino_iblocks ip) = 3"
    using f by (simp_all add: file_at_def inode_upto_def)
  have "0 \<le> d * BLOCK_SZ + i * 100" "d * BLOCK_SZ + i * 100 + 100 \<le> int (length rawdata')"
    using ok(2-4) assms(4,5) by (auto simp: image_ok_def BLOCK_SZ_def)
  then have r: "extract_inode_from_data (d * BLOCK_SZ + i * 100) rawdata' = Inr (inode_of_bytes (inode_bytes ip))"
    using f by (simp add: extract_inode_from_data_def load_block_def in_range_def file_at_def
        slot_def BLOCK_SZ_def)
  have "inode_ok {c. used bitmap c} file m rawdata' bitmap' (inode_of_bytes (inode_bytes ip))"
    using f ok(4) by (auto simp: file_at_def intro: inode_ok_read_back)
  moreover have "ino_size (inode_of_bytes (inode_bytes ip)) = int (length file)"
    "ino_nlink (inode_of_bytes (inode_bytes ip)) = 1"
    "ino_uid (inode_of_bytes (inode_bytes ip)) = as_int uid"
    "ino_gid (inode_of_bytes (inode_bytes ip)) = as_int gid"
    unfolding inode_of_bytes_inode_bytes_as_int [OF len] inode_of_as_ints [OF len]
    using h assms(6) by (simp_all add: header_ok_def fits_int_def)
  ultimately show ?thesis
    using assms(4,5) ok(2,3,5) r by (intro exI [of _ "inode_of_bytes (inode_bytes ip)"]) (simp add: file_stored_def)
qed


end
