(* ===== verification/Disk_Insert.thy ===== *)
theory Disk_Insert
  imports Disk_Extract
begin

text \<open>
  Inserting into an image that holds files (\<open>-insert\<close> of \<open>inodes/disk_image.c\<close>).  The bitmap
  is not stored in the image: \<open>walk_inodes_insert\<close> recomputes it by walking every inode.  This
  theory shows that the walk marks every block of every file, hence that the file placed
  next leaves the earlier ones alone.
\<close>

section \<open>Marks only grow\<close>

definition grows :: "u8 list \<Rightarrow> u8 list \<Rightarrow> bool" where
  "grows bitmap bitmap' \<longleftrightarrow>
     length bitmap' = length bitmap \<and> (\<forall>c. used bitmap c \<longrightarrow> used bitmap' c)"

lemma grows_refl [simp]: "grows b b"
  by (simp add: grows_def)

lemma grows_trans [trans]: "grows a b \<Longrightarrow> grows b c \<Longrightarrow> grows a c"
  by (simp add: grows_def)

lemma mark_one:
  assumes "store bitmap b 1 = Inr bitmap'"
  shows "grows bitmap bitmap' \<and> used bitmap' b"
  using assms by (auto simp: store_def in_range_def grows_def used_def nth_list_update split: if_splits)

lemma for_each_grows:
  assumes "for_each is body bitmap = Inr r"
    and "\<And>i b r. body i b = Inr r \<Longrightarrow> grows b (final r)"
  shows "grows bitmap (final r)"
  by (rule for_each_invariant [OF assms(1), where I = "grows bitmap"])
     (auto intro: grows_trans assms(2))

text \<open>The walk over a block of pointers, over what it does with one pointer.\<close>

definition mark_pointers ::
    "(u8 list \<Rightarrow> int \<Rightarrow> u8 list \<Rightarrow> u8 list res) \<Rightarrow> u8 list \<Rightarrow> int \<Rightarrow> u8 list \<Rightarrow> u8 list res" where
  "mark_pointers mark bitmap b rawdata =
     bindR (store bitmap b 1) (\<lambda>bitmap.
       let block_in_bytes = b * BLOCK_SZ in
       bindR (for_each (steps4 1024) (\<lambda>i bitmap.
          bindR (read_int (block_in_bytes + i) rawdata) (\<lambda>e.
            if e = 0 then Inr (Stop bitmap)
            else bindR (mark bitmap e rawdata) (\<lambda>bitmap. Inr (Next bitmap))))
          bitmap)
        (\<lambda>r. Inr (final r)))"

definition mark_data :: "u8 list \<Rightarrow> int \<Rightarrow> u8 list \<Rightarrow> u8 list res" where
  "mark_data bitmap b rawdata = store bitmap b 1"

lemma walk_block_is_mark_pointers:
  "walk_indirect_block = mark_pointers mark_data"
  "walk_doubly_indirect_block = mark_pointers walk_indirect_block"
  "walk_triply_indirect_block = mark_pointers walk_doubly_indirect_block"
  unfolding fun_eq_iff walk_indirect_block_def walk_doubly_indirect_block_def
    walk_triply_indirect_block_def mark_pointers_def mark_data_def by simp_all

section \<open>The contract of one pointer\<close>

locale entry_marker =
  fixes mark :: "u8 list \<Rightarrow> int \<Rightarrow> u8 list \<Rightarrow> u8 list res" and ok :: layout and w :: nat
  assumes mark_ok:
      "image_ok m n rawdata bitmap0 \<Longrightarrow> 1 \<le> m \<Longrightarrow> ok A file m rawdata bitmap0 e k \<Longrightarrow>
       mark bitmap e rawdata = Inr bitmap' \<Longrightarrow> ok {} file m rawdata bitmap' e k"
    and mark_grows: "mark bitmap e rawdata = Inr bitmap' \<Longrightarrow> grows bitmap bitmap'"
    and ok_grows: "ok A file m rawdata bitmap e k \<Longrightarrow> grows bitmap bitmap' \<Longrightarrow>
       ok A file m rawdata bitmap' e k"
    and ok_above: "ok A file m rawdata bitmap e k \<Longrightarrow> m \<le> e"
begin

lemma mark_pointers_grows:
  assumes "mark_pointers mark bitmap b rawdata = Inr bitmap'"
  shows "grows bitmap bitmap' \<and> used bitmap' b"
proof -
  from assms obtain b1 r where s: "store bitmap b 1 = Inr b1"
    and loop: "for_each (steps4 1024) (\<lambda>i bitmap.
          bindR (read_int (b * BLOCK_SZ + i) rawdata) (\<lambda>e.
            if e = 0 then Inr (Stop bitmap)
            else bindR (mark bitmap e rawdata) (\<lambda>bitmap. Inr (Next bitmap)))) b1 = Inr r"
    and r: "bitmap' = final r"
    by (auto simp: mark_pointers_def Let_def res_simps)
  have "grows b1 (final r)"
    by (rule for_each_grows [OF loop]) (auto simp: res_simps split: if_splits dest: mark_grows)
  with mark_one [OF s] r show ?thesis by (auto intro: grows_trans simp: grows_def)
qed

lemma ptr_ok_grows:
  "ptr_ok w ok A file m rawdata bitmap b k \<Longrightarrow> grows bitmap bitmap' \<Longrightarrow>
   ptr_ok w ok A file m rawdata bitmap' b k"
  unfolding ptr_ok_def using ok_grows by (auto simp: grows_def)

lemma mark_pointers_ok:
  assumes img: "image_ok m n rawdata bitmap0" "1 \<le> m"
    and p: "ptr_ok w ok A file m rawdata bitmap0 b k"
    and run: "mark_pointers mark bitmap b rawdata = Inr bitmap'"
  shows "ptr_ok w ok {} file m rawdata bitmap' b k"
proof -
  let ?act = "\<lambda>j. 1024 * (k + w * j) < length file"
  let ?body = "\<lambda>i bitmap. bindR (read_int (b * BLOCK_SZ + i) rawdata) (\<lambda>e.
            if e = 0 then Inr (Stop bitmap)
            else bindR (mark bitmap e rawdata) (\<lambda>bitmap. Inr (Next bitmap)))"
  let ?I = "\<lambda>j bm. \<forall>i<j. ?act i \<longrightarrow> ok {} file m rawdata bm (entry rawdata b i) (k + w * i)"
  have inim: "in_image rawdata b"
    using p img by (auto simp: ptr_ok_def used_def image_ok_def in_image_def)
  from run obtain b1 r where s: "store bitmap b 1 = Inr b1"
    and loop: "for_each (map (\<lambda>j. 4 * int j) [0..<256]) ?body b1 = Inr r"
    and r: "bitmap' = final r"
    by (auto simp: mark_pointers_def Let_def res_simps steps4_def)
  have "case r of Next bm \<Rightarrow> ?I 256 bm | Stop bm \<Rightarrow> ?I 256 bm"
  proof (rule for_each_upt_invariant [OF loop])
    fix j bm r
    assume j: "j < 256" and I: "?I j bm" and step: "?body (4 * int j) bm = Inr r"
    let ?e = "entry rawdata b j"
    have rd: "read_int (b * BLOCK_SZ + 4 * int j) rawdata = Inr ?e"
      by (rule read_int_entry [OF inim j])
    have active: "ok A file m rawdata bitmap0 ?e (k + w * j)" if "?act j"
      using p j that by (simp add: ptr_ok_def)
    show "case r of Next bm \<Rightarrow> ?I (Suc j) bm | Stop bm \<Rightarrow> ?I 256 bm"
    proof (cases "?e = 0")
      case True
      then have "\<not> ?act j" using ok_above [OF active] img(2) by auto
      have "i < j" if "?act i" for i
      proof (rule ccontr)
        assume "\<not> i < j"
        then have "k + w * j \<le> k + w * i" by simp
        with that \<open>\<not> ?act j\<close> show False by (meson le_less_trans mult_le_mono2)
      qed
      with I step rd True show ?thesis by auto
    next
      case False
      with step rd obtain bm' where bm': "mark bm ?e rawdata = Inr bm'" and r: "r = Next bm'"
        by (auto simp: res_simps)
      have "ok {} file m rawdata bm' (entry rawdata b i) (k + w * i)" if "i < Suc j" "?act i" for i
      proof (cases "i = j")
        case True
        with mark_ok [OF img active bm'] that show ?thesis by simp
      next
        case False
        with that I ok_grows [OF _ mark_grows [OF bm']] show ?thesis by auto
      qed
      with r show ?thesis by simp
    qed
  qed simp_all
  then have "?I 256 bitmap'" using r by (cases r) auto
  moreover have "m \<le> b" using p by (simp add: ptr_ok_def)
  ultimately show ?thesis using mark_pointers_grows [OF run] by (simp add: ptr_ok_def)
qed

end

interpretation data_marker: entry_marker mark_data chunk_ok 1
  by unfold_locales (auto simp: chunk_ok_def mark_data_def grows_def dest: mark_one)

interpretation indirect_marker: entry_marker walk_indirect_block indirect_ok 256
  unfolding walk_block_is_mark_pointers(1)
proof (unfold_locales, goal_cases)
  case 1
  then show ?case by (rule data_marker.mark_pointers_ok)
next
  case 2
  then show ?case by (simp add: data_marker.mark_pointers_grows)
next
  case 3
  then show ?case by (rule data_marker.ptr_ok_grows)
next
  case 4
  then show ?case by (simp add: ptr_ok_def)
qed

interpretation doubly_marker: entry_marker walk_doubly_indirect_block doubly_ok 65536
  unfolding walk_block_is_mark_pointers(2)
proof (unfold_locales, goal_cases)
  case 1
  then show ?case by (rule indirect_marker.mark_pointers_ok)
next
  case 2
  then show ?case by (simp add: indirect_marker.mark_pointers_grows)
next
  case 3
  then show ?case by (rule indirect_marker.ptr_ok_grows)
next
  case 4
  then show ?case by (simp add: ptr_ok_def)
qed

interpretation triply_marker: entry_marker walk_triply_indirect_block triply_ok 16777216
  unfolding walk_block_is_mark_pointers(3)
proof (unfold_locales, goal_cases)
  case 1
  then show ?case by (rule doubly_marker.mark_pointers_ok)
next
  case 2
  then show ?case by (simp add: doubly_marker.mark_pointers_grows)
next
  case 3
  then show ?case by (rule doubly_marker.ptr_ok_grows)
next
  case 4
  then show ?case by (simp add: ptr_ok_def)
qed

section \<open>One inode\<close>

lemma inode_upto_grows:
  assumes "inode_upto K A file m rawdata bitmap ip" and "grows bitmap bitmap'"
  shows "inode_upto K A file m rawdata bitmap' ip"
  using assms unfolding inode_upto_def
  by (blast intro: data_marker.ok_grows data_marker.ptr_ok_grows indirect_marker.ptr_ok_grows
      doubly_marker.ptr_ok_grows)

lemma inode_upto_later:
  "inode_upto K A file m rawdata bitmap ip \<Longrightarrow> length file \<le> 1024 * K \<Longrightarrow>
   inode_upto K' A file m rawdata bitmap ip"
  by (auto simp: inode_upto_def)

text \<open>The pointer of a chunk that exists is not zero, so the walk does not stop there.\<close>

lemma populate_direct:
  assumes img: "image_ok m n rawdata bitmap0" "1 \<le> m"
    and ok: "inode_ok A file m rawdata bitmap0 ip"
    and run: "for_each [0..<N_DBLOCKS] (\<lambda>i bitmap.
        let block_no = ino_dblocks ip ! i in
        if block_no = 0 then Inr (Stop bitmap)
        else bindR (store bitmap block_no 1) (\<lambda>bitmap. Inr (Next bitmap))) bitmap = Inr r"
  shows "grows bitmap (final r)"
    and "case r of Next bm \<Rightarrow> inode_upto 12 {} file m rawdata bm ip
         | Stop bm \<Rightarrow> inode_ok {} file m rawdata bm ip"
proof -
  let ?body = "\<lambda>i bitmap.
        let block_no = ino_dblocks ip ! i in
        if block_no = 0 then Inr (Stop bitmap)
        else bindR (store bitmap block_no 1) (\<lambda>bitmap. Inr (Next bitmap))"
  show "grows bitmap (final r)"
    by (rule for_each_grows [OF run])
       (auto simp: Let_def bindR_eq_Inr split: if_splits dest: data_marker.mark_grows [unfolded mark_data_def])
  have loop: "for_each (map (\<lambda>i. i) [0..<12]) ?body bitmap = Inr r" using run by (simp add: N_DBLOCKS_def)
  show "case r of Next bm \<Rightarrow> inode_upto 12 {} file m rawdata bm ip
         | Stop bm \<Rightarrow> inode_ok {} file m rawdata bm ip"
  proof (rule for_each_upt_invariant [OF loop])
    show "inode_upto 0 {} file m rawdata bitmap ip" using ok by (auto simp: inode_upto_def)
    fix k bm r
    assume k: "k < 12" and I: "inode_upto k {} file m rawdata bm ip" and step: "?body k bm = Inr r"
    let ?e = "ino_dblocks ip ! k"
    have active: "chunk_ok A file m rawdata bitmap0 ?e k" if "1024 * k < length file"
      using ok k that by (simp add: inode_upto_def max_chunks_def)
    show "case r of Next bm \<Rightarrow> inode_upto (Suc k) {} file m rawdata bm ip
         | Stop bm \<Rightarrow> inode_ok {} file m rawdata bm ip"
    proof (cases "?e = 0")
      case True
      then have "length file \<le> 1024 * k" using data_marker.ok_above [OF active] img(2) by force
      with I step True show ?thesis by (auto intro: inode_upto_later)
    next
      case False
      with step obtain bm' where bm': "mark_data bm ?e rawdata = Inr bm'" and r: "r = Next bm'"
        by (auto simp: res_simps mark_data_def Let_def)
      have "inode_upto k {} file m rawdata bm' ip"
        by (rule inode_upto_grows [OF I data_marker.mark_grows [OF bm']])
      with data_marker.mark_ok [OF img active bm'] r k show ?thesis
        by (auto simp: inode_upto_def less_Suc_eq)
    qed
  qed simp
qed

lemma populate_indirect:
  assumes img: "image_ok m n rawdata bitmap0" "1 \<le> m"
    and ok: "inode_ok A file m rawdata bitmap0 ip"
    and I0: "inode_upto 12 {} file m rawdata bitmap ip"
    and run: "for_each [0..<N_IBLOCKS] (\<lambda>i bitmap.
        let block_no = ino_iblocks ip ! i in
        if block_no = 0 then Inr (Stop bitmap)
        else bindR (walk_indirect_block bitmap block_no rawdata)
               (\<lambda>bitmap. Inr (Next bitmap))) bitmap = Inr r"
  shows "grows bitmap (final r)"
    and "case r of Next bm \<Rightarrow> inode_upto 780 {} file m rawdata bm ip
         | Stop bm \<Rightarrow> inode_ok {} file m rawdata bm ip"
proof -
  let ?body = "\<lambda>i bitmap.
        let block_no = ino_iblocks ip ! i in
        if block_no = 0 then Inr (Stop bitmap)
        else bindR (walk_indirect_block bitmap block_no rawdata) (\<lambda>bitmap. Inr (Next bitmap))"
  show "grows bitmap (final r)"
    by (rule for_each_grows [OF run])
       (auto simp: Let_def res_simps split: if_splits dest: indirect_marker.mark_grows)
  have loop: "for_each (map (\<lambda>i. i) [0..<3]) ?body bitmap = Inr r" using run by (simp add: N_IBLOCKS_def)
  have "case r of Next bm \<Rightarrow> inode_upto (12 + 256 * 3) {} file m rawdata bm ip
         | Stop bm \<Rightarrow> inode_ok {} file m rawdata bm ip"
  proof (rule for_each_upt_invariant [OF loop])
    show "inode_upto (12 + 256 * 0) {} file m rawdata bitmap ip" using I0 by simp
    fix q bm r
    assume q: "q < 3" and I: "inode_upto (12 + 256 * q) {} file m rawdata bm ip"
      and step: "?body q bm = Inr r"
    let ?e = "ino_iblocks ip ! q"
    have active: "indirect_ok A file m rawdata bitmap0 ?e (12 + 256 * q)"
      if "1024 * (12 + 256 * q) < length file"
      using ok q that by (simp add: inode_upto_def max_chunks_def)
    show "case r of Next bm \<Rightarrow> inode_upto (12 + 256 * Suc q) {} file m rawdata bm ip
         | Stop bm \<Rightarrow> inode_ok {} file m rawdata bm ip"
    proof (cases "?e = 0")
      case True
      then have "length file \<le> 1024 * (12 + 256 * q)"
        using indirect_marker.ok_above [OF active] img(2) by force
      from inode_upto_later [OF I this] step True show ?thesis by auto
    next
      case False
      with step obtain bm' where bm': "walk_indirect_block bm ?e rawdata = Inr bm'" and r: "r = Next bm'"
        by (auto simp: res_simps Let_def)
      have "inode_upto (12 + 256 * q) {} file m rawdata bm' ip"
        by (rule inode_upto_grows [OF I indirect_marker.mark_grows [OF bm']])
      moreover have "a < q \<or> a = q" if "256 * a < 256 + 256 * q" for a :: nat using that by arith
      ultimately show ?thesis using indirect_marker.mark_ok [OF img active bm'] r q
        by (auto simp: inode_upto_def)
    qed
  qed simp
  moreover have "(12::nat) + 256 * 3 = 780" by simp
  ultimately show "case r of Next bm \<Rightarrow> inode_upto 780 {} file m rawdata bm ip
         | Stop bm \<Rightarrow> inode_ok {} file m rawdata bm ip" by (simp only:)
qed

lemma populate_bitmap_inode_grows:
  assumes "populate_bitmap_inode ip bitmap rawdata = Inr bitmap'"
  shows "grows bitmap bitmap'"
proof -
  let ?b1 = "\<lambda>i bitmap.
        let block_no = ino_dblocks ip ! i in
        if block_no = 0 then Inr (Stop bitmap)
        else bindR (store bitmap block_no 1) (\<lambda>bitmap. Inr (Next bitmap))"
  let ?b2 = "\<lambda>i bitmap.
        let block_no = ino_iblocks ip ! i in
        if block_no = 0 then Inr (Stop bitmap)
        else bindR (walk_indirect_block bitmap block_no rawdata) (\<lambda>bitmap. Inr (Next bitmap))"
  have g1: "grows b (final r)" if "for_each xs ?b1 b = Inr r" for xs b r
    by (rule for_each_grows [OF that])
       (auto simp: Let_def bindR_eq_Inr split: if_splits dest: data_marker.mark_grows [unfolded mark_data_def])
  have g2: "grows b (final r)" if "for_each xs ?b2 b = Inr r" for xs b r
    by (rule for_each_grows [OF that])
       (auto simp: Let_def res_simps split: if_splits dest: indirect_marker.mark_grows)
  have g3: "grows b b'" if "(if ino_i2block ip \<noteq> 0
            then walk_doubly_indirect_block b (ino_i2block ip) rawdata else Inr b) = Inr b'" for b b'
    using that by (auto split: if_splits dest: doubly_marker.mark_grows)
  have g4: "grows b b'" if "(if ino_i3block ip \<noteq> 0
            then walk_triply_indirect_block b (ino_i3block ip) rawdata else Inr b) = Inr b'" for b b'
    using that by (auto split: if_splits dest: triply_marker.mark_grows)
  from assms obtain r1 where r1: "for_each [0..<N_DBLOCKS] ?b1 bitmap = Inr r1"
    and rest: "(case r1 of Stop bitmap \<Rightarrow> Inr bitmap | Next bitmap \<Rightarrow>
     bindR (for_each [0..<N_IBLOCKS] ?b2 bitmap)
      (\<lambda>r. case r of Stop bitmap \<Rightarrow> Inr bitmap | Next bitmap \<Rightarrow>
     bindR (if ino_i2block ip \<noteq> 0 then walk_doubly_indirect_block bitmap (ino_i2block ip) rawdata
            else Inr bitmap) (\<lambda>bitmap.
     if ino_i3block ip \<noteq> 0 then walk_triply_indirect_block bitmap (ino_i3block ip) rawdata
     else Inr bitmap))) = Inr bitmap'"
    unfolding populate_bitmap_inode_def by (rule bindR_InrE)
  show ?thesis
  proof (cases r1)
    case (Stop b1)
    with rest g1 [OF r1] show ?thesis by simp
  next
    case (Next b1)
    from rest [unfolded Next flow.case] obtain r2 where r2: "for_each [0..<N_IBLOCKS] ?b2 b1 = Inr r2"
      and rest: "(case r2 of Stop bitmap \<Rightarrow> Inr bitmap | Next bitmap \<Rightarrow>
     bindR (if ino_i2block ip \<noteq> 0 then walk_doubly_indirect_block bitmap (ino_i2block ip) rawdata
            else Inr bitmap) (\<lambda>bitmap.
     if ino_i3block ip \<noteq> 0 then walk_triply_indirect_block bitmap (ino_i3block ip) rawdata
     else Inr bitmap)) = Inr bitmap'"
      by (rule bindR_InrE)
    have gb: "grows bitmap (final r2)" using g1 [OF r1] g2 [OF r2] Next by (auto intro: grows_trans)
    show ?thesis
    proof (cases r2)
      case (Stop b2)
      with rest gb show ?thesis by simp
    next
      case (Next b2)
      from rest [unfolded Next flow.case] obtain b3 where "grows b2 b3" and "grows b3 bitmap'"
        using g3 g4 unfolding bindR_eq_Inr by blast
      with gb Next show ?thesis by (auto intro: grows_trans)
    qed
  qed
qed

lemma populate_bitmap_inode_ok:
  assumes img: "image_ok m n rawdata bitmap0" "1 \<le> m"
    and ok: "inode_ok A file m rawdata bitmap0 ip"
    and run: "populate_bitmap_inode ip bitmap rawdata = Inr bitmap'"
  shows "inode_ok {} file m rawdata bitmap' ip"
proof -
  from run obtain r1 where r1: "for_each [0..<N_DBLOCKS] (\<lambda>i bitmap.
        let block_no = ino_dblocks ip ! i in
        if block_no = 0 then Inr (Stop bitmap)
        else bindR (store bitmap block_no 1) (\<lambda>bitmap. Inr (Next bitmap))) bitmap = Inr r1"
    by (auto simp: populate_bitmap_inode_def bindR_eq_Inr)
  note d = populate_direct [OF img ok r1]
  show ?thesis
  proof (cases r1)
    case (Stop b1)
    with run r1 d(2) show ?thesis by (simp add: populate_bitmap_inode_def)
  next
    case (Next b1)
    with d(2) have I1: "inode_upto 12 {} file m rawdata b1 ip" by simp
    from run r1 Next obtain r2 where r2: "for_each [0..<N_IBLOCKS] (\<lambda>i bitmap.
        let block_no = ino_iblocks ip ! i in
        if block_no = 0 then Inr (Stop bitmap)
        else bindR (walk_indirect_block bitmap block_no rawdata)
               (\<lambda>bitmap. Inr (Next bitmap))) b1 = Inr r2"
      by (auto simp: populate_bitmap_inode_def bindR_eq_Inr)
    note i = populate_indirect [OF img ok I1 r2]
    show ?thesis
    proof (cases r2)
      case (Stop b2)
      with run r1 r2 \<open>r1 = Next b1\<close> i(2) show ?thesis by (simp add: populate_bitmap_inode_def)
    next
      case (Next b2)
      with i(2) have I2: "inode_upto 780 {} file m rawdata b2 ip" by simp
      from run r1 r2 \<open>r1 = Next b1\<close> Next obtain b3 where
        r3: "(if ino_i2block ip \<noteq> 0 then walk_doubly_indirect_block b2 (ino_i2block ip) rawdata
              else Inr b2) = Inr b3"
        and r4: "(if ino_i3block ip \<noteq> 0 then walk_triply_indirect_block b3 (ino_i3block ip) rawdata
              else Inr b3) = Inr bitmap'"
        by (auto simp: populate_bitmap_inode_def bindR_eq_Inr)
      have g3: "grows b2 b3" using r3 by (auto split: if_splits dest: doubly_marker.mark_grows)
      have g4: "grows b3 bitmap'" using r4 by (auto split: if_splits dest: triply_marker.mark_grows)
      have "inode_upto 780 {} file m rawdata bitmap' ip"
        by (rule inode_upto_grows [OF I2 grows_trans [OF g3 g4]])
      moreover have "doubly_ok {} file m rawdata bitmap' (ino_i2block ip) 780"
        if "1024 * 780 < length file"
      proof -
        have a: "doubly_ok A file m rawdata bitmap0 (ino_i2block ip) 780"
          using ok that by (simp add: inode_upto_def max_chunks_def)
        with r3 doubly_marker.ok_above [OF a] img(2)
        have "walk_doubly_indirect_block b2 (ino_i2block ip) rawdata = Inr b3" by auto
        from doubly_marker.ok_grows [OF doubly_marker.mark_ok [OF img a this] g4] show ?thesis .
      qed
      moreover have "triply_ok {} file m rawdata bitmap' (ino_i3block ip) 66316"
        if "1024 * 66316 < length file"
      proof -
        have a: "triply_ok A file m rawdata bitmap0 (ino_i3block ip) 66316"
          using ok that by (simp add: inode_upto_def max_chunks_def)
        with r4 triply_marker.ok_above [OF a] img(2)
        have "walk_triply_indirect_block b3 (ino_i3block ip) rawdata = Inr bitmap'" by auto
        from triply_marker.mark_ok [OF img a this] show ?thesis .
      qed
      ultimately show ?thesis by (auto simp: inode_upto_def)
    qed
  qed
qed

section \<open>The walk over all inodes\<close>

text \<open>An inode whose link count is 1 is seen by \<open>is_inode\<close>.\<close>

lemma is_inode_nlink:
  assumes "extract_inode_from_data off rawdata = Inr ip" and "ino_nlink ip = 1"
    and "is_inode off rawdata = Inr found"
  shows "found"
proof -
  have r: "in_range rawdata off 100" and ip: "ip = inode_of_bytes (slice (nat off) 100 rawdata)"
    using assms(1) by (auto simp: extract_inode_from_data_def res_simps)
  have s0: "read_int off rawdata = Inr (bytes_int (slice (nat off) 4 rawdata))"
    using r by (simp add: read_int_def load_block_def in_range_def)
  have s1: "read_int (off + 4) rawdata = Inr (bytes_int (slice (nat off + 4) 4 rawdata))"
    using r by (simp add: read_int_def load_block_def in_range_def nat_add_distrib)
  have n: "bytes_int (slice (nat off + 4) 4 rawdata) = 1"
    using assms(2) ip by (simp add: inode_of_bytes_def inode_of_ints_def slice_slice)
  have steps: "steps4 25 = [0, 4, 8, 12, 16, 20, 24]" by (simp add: steps4_def upt_rec)
  from assms(3) show ?thesis by (auto simp: is_inode_def steps s0 s1 n split: if_splits)
qed

definition walk_inode_slot :: "u8 list \<Rightarrow> int \<Rightarrow> int \<Rightarrow> u8 list \<Rightarrow> u8 list flow res" where
  "walk_inode_slot rawdata i j bitmap =
     (let offset = i * BLOCK_SZ + j * 100 in
      bindR (is_inode offset rawdata) (\<lambda>inode_exists.
        if inode_exists then
          bindR (extract_inode_from_data offset rawdata) (\<lambda>file_inode.
          bindR (populate_bitmap_inode file_inode bitmap rawdata) (\<lambda>bitmap.
            Inr (Next bitmap)))
        else Inr (Next bitmap)))"

lemma walk_inodes_insert_slots:
  "walk_inodes_insert rawdata bitmap m =
     bindR (for_each (map int [0..<nat m])
       (\<lambda>i. for_each (map int [0..<10]) (walk_inode_slot rawdata i)) bitmap) (\<lambda>r. Inr (final r))"
  unfolding walk_inodes_insert_def walk_inode_slot_def ..

lemma walk_inode_slot_ok:
  assumes "walk_inode_slot rawdata i j bitmap = Inr r"
  shows "\<exists>bm. r = Next bm \<and> grows bitmap bm"
proof -
  from assms obtain ex where "(if ex then
          bindR (extract_inode_from_data (i * BLOCK_SZ + j * 100) rawdata) (\<lambda>file_inode.
          bindR (populate_bitmap_inode file_inode bitmap rawdata) (\<lambda>bitmap. Inr (Next bitmap)))
        else Inr (Next bitmap)) = Inr r"
    by (auto simp: walk_inode_slot_def Let_def bindR_eq_Inr)
  then show ?thesis
    by (auto simp: bindR_eq_Inr split: if_splits dest: populate_bitmap_inode_grows)
qed

lemma walk_inode_slot_marks:
  assumes f: "file_stored A file m rawdata bitmap0 d i ip" and img: "image_ok m n rawdata bitmap0" "1 \<le> m"
    and run: "walk_inode_slot rawdata d i bitmap = Inr (Next bm)"
  shows "inode_ok {} file m rawdata bm ip"
proof -
  from f have x: "extract_inode_from_data (d * BLOCK_SZ + i * 100) rawdata = Inr ip" and "ino_nlink ip = 1"
    and ok: "inode_ok A file m rawdata bitmap0 ip"
    by (auto simp: file_stored_def)
  with run have "populate_bitmap_inode ip bitmap rawdata = Inr bm"
    by (auto simp: walk_inode_slot_def Let_def bindR_eq_Inr split: if_splits dest: is_inode_nlink [OF x])
  then show ?thesis by (rule populate_bitmap_inode_ok [OF img ok])
qed

lemma walk_slots_grows:
  assumes "for_each (map int js) (walk_inode_slot rawdata i) bitmap = Inr r"
  shows "\<exists>bm. r = Next bm \<and> grows bitmap bm"
proof -
  have "\<exists>bm. r = Next bm"
    by (rule for_each_never_stops [OF assms]) (blast dest: walk_inode_slot_ok)
  moreover have "grows bitmap (final r)"
    by (rule for_each_grows [OF assms]) (auto dest: walk_inode_slot_ok)
  ultimately show ?thesis by auto
qed

lemma walk_slots_marks:
  assumes f: "file_stored A file m rawdata bitmap0 d i ip" and img: "image_ok m n rawdata bitmap0" "1 \<le> m"
    and run: "for_each (map int [0..<10]) (walk_inode_slot rawdata d) bitmap = Inr r"
  shows "inode_ok {} file m rawdata (final r) ip"
proof -
  let ?I = "\<lambda>j bm. i < int j \<longrightarrow> inode_ok {} file m rawdata bm ip"
  have "case r of Next bm \<Rightarrow> ?I 10 bm | Stop bm \<Rightarrow> ?I 10 bm"
  proof (rule for_each_upt_invariant [OF run])
    show "?I 0 bitmap" using f by (simp add: file_stored_def)
    fix j s r
    assume I: "?I j s" and step: "walk_inode_slot rawdata d (int j) s = Inr r"
    from walk_inode_slot_ok [OF step] obtain bm where r: "r = Next bm" and g: "grows s bm" by auto
    have "?I (Suc j) bm"
    proof (cases "i = int j")
      case True
      with walk_inode_slot_marks [OF f img] step r show ?thesis by simp
    next
      case False
      with I g show ?thesis by (auto intro: inode_upto_grows)
    qed
    with r show "case r of Next bm \<Rightarrow> ?I (Suc j) bm | Stop bm \<Rightarrow> ?I 10 bm" by simp
  qed simp
  then show ?thesis using f by (cases r) (auto simp: file_stored_def)
qed

lemma walk_inodes_insert_grows:
  assumes "walk_inodes_insert rawdata bitmap m = Inr bitmap'"
  shows "grows bitmap bitmap'"
proof -
  from assms obtain r where run: "for_each (map int [0..<nat m])
       (\<lambda>i. for_each (map int [0..<10]) (walk_inode_slot rawdata i)) bitmap = Inr r" and r: "bitmap' = final r"
    by (auto simp: walk_inodes_insert_slots bindR_eq_Inr)
  show ?thesis unfolding r by (rule for_each_grows [OF run]) (auto dest!: walk_slots_grows)
qed

lemma walk_inodes_insert_marks:
  assumes f: "file_stored A file m rawdata bitmap0 d i ip" and img: "image_ok m n rawdata bitmap0" "1 \<le> m"
    and run: "walk_inodes_insert rawdata bitmap m = Inr bitmap'"
  shows "inode_ok {} file m rawdata bitmap' ip"
proof -
  from run obtain r where loop: "for_each (map int [0..<nat m])
       (\<lambda>i. for_each (map int [0..<10]) (walk_inode_slot rawdata i)) bitmap = Inr r" and r: "bitmap' = final r"
    by (auto simp: walk_inodes_insert_slots bindR_eq_Inr)
  let ?I = "\<lambda>k bm. d < int k \<longrightarrow> inode_ok {} file m rawdata bm ip"
  have "case r of Next bm \<Rightarrow> ?I (nat m) bm | Stop bm \<Rightarrow> ?I (nat m) bm"
  proof (rule for_each_upt_invariant [OF loop])
    show "?I 0 bitmap" using f by (simp add: file_stored_def)
    fix k s r
    assume I: "?I k s" and step: "for_each (map int [0..<10]) (walk_inode_slot rawdata (int k)) s = Inr r"
    from walk_slots_grows [OF step] obtain bm where r: "r = Next bm" and g: "grows s bm" by auto
    have "?I (Suc k) bm"
    proof (cases "d = int k")
      case True
      with walk_slots_marks [OF f img] step r show ?thesis by fastforce
    next
      case False
      with I g show ?thesis by (auto intro: inode_upto_grows)
    qed
    with r show "case r of Next bm \<Rightarrow> ?I (Suc k) bm | Stop bm \<Rightarrow> ?I (nat m) bm" by simp
  qed simp
  then show ?thesis using f r by (cases r) (auto simp: file_stored_def)
qed

section \<open>Inserting keeps the files that are there\<close>

lemma extract_inode_slot:
  "0 \<le> d \<Longrightarrow> 0 \<le> i \<Longrightarrow> d * BLOCK_SZ + i * 100 + 100 \<le> int (length rawdata) \<Longrightarrow>
   extract_inode_from_data (d * BLOCK_SZ + i * 100) rawdata
     = Inr (inode_of_bytes (slice (slot d i) 100 rawdata))"
  by (simp add: extract_inode_from_data_def load_block_def in_range_def slot_def BLOCK_SZ_def)

lemma slots_apart:
  assumes "(d, i) \<noteq> (d', i')" and "0 \<le> d" "0 \<le> i" "i < 10" and "0 \<le> d'" "0 \<le> i'" "i' < 10"
  shows "slot d i + 100 \<le> slot d' i' \<or> slot d' i' + 100 \<le> slot d i"
proof -
  have "slot d i = nat d * 1024 + nat i * 100" "slot d' i' = nat d' * 1024 + nat i' * 100"
    using assms by (simp_all add: slot_def nat_add_distrib nat_mult_distrib)
  moreover have "nat d < nat d' \<or> nat d' < nat d \<or> nat d = nat d' \<and> nat i \<noteq> nat i'"
    "nat i < 10" "nat i' < 10" using assms by auto
  ultimately show ?thesis by (elim disjE conjE) linarith+
qed

text \<open>The placing of a file changes nothing a stored file depends on.\<close>

lemma place_file_keeps_stored:
  assumes run: "place_file (Some file2) uid gid d2 i2 m rawdata bitmap n ip0 buf0 stamps
             = Inr (rawdata', bitmap')"
    and img: "image_ok m n rawdata bitmap" and mem: "memory_ok ip0 buf0" and di2: "0 \<le> d2" "0 \<le> i2"
    and f: "file_stored {} file m rawdata bitmap d i ip"
  shows "file_stored {} file m rawdata' bitmap' d i ip"
proof -
  note ok = place_file_ok [OF run img mem di2]
  have x: "extract_inode_from_data (d * BLOCK_SZ + i * 100) rawdata = Inr ip" and di: "0 \<le> d" "d < m" "0 \<le> i" "i < 10"
    and nl: "ino_nlink ip = 1" and io: "inode_ok {} file m rawdata bitmap ip"
    using f by (auto simp: file_stored_def)
  have ne: "(d, i) \<noteq> (d2, i2)"
  proof
    assume "(d, i) = (d2, i2)"
    with ok(8) is_inode_nlink [OF x nl] show False by auto
  qed
  define st where "st = place_start rawdata bitmap ip0 buf0"
  define st' where "st' = place_start rawdata' bitmap' ip0 buf0"
  have "keeps {d2} m st st'"
    using ok(4,6,7) img by (auto simp: keeps_def st_def st'_def place_start_def image_ok_def)
  moreover have "inode_ok {d2} file m (p_rawdata st) (p_bitmap st) ip"
    using inode_upto_insert [OF io ok(2)] by (simp add: st_def place_start_def)
  moreover have "0 \<le> m" using img by (simp add: image_ok_def)
  ultimately have "inode_ok {d2} file m (p_rawdata st') (p_bitmap st') ip"
    by (blast intro: inode_upto_keeps)
  moreover have "p_rawdata st' = rawdata'" "p_bitmap st' = bitmap'"
    by (simp_all add: st'_def place_start_def)
  ultimately have "inode_ok {d2} file m rawdata' bitmap' ip" by (simp only:)
  then have "inode_ok {} file m rawdata' bitmap' ip" by (rule inode_upto_antimono) simp
  moreover have "extract_inode_from_data (d * BLOCK_SZ + i * 100) rawdata' = Inr ip"
  proof -
    have len: "length rawdata' = length rawdata" using ok(4) img by (simp add: image_ok_def)
    have fit: "d * BLOCK_SZ + i * 100 + 100 \<le> int (length rawdata)"
      using di img by (auto simp: image_ok_def BLOCK_SZ_def)
    have "slice (slot d i) 100 rawdata' = slice (slot d i) 100 rawdata"
    proof (cases "d = d2")
      case False
      with ok(7) [of d] di show ?thesis by (simp add: slice_block_of)
    next
      case True
      show ?thesis
      proof (rule slice_eqI [OF len])
        fix p assume p: "slot d i \<le> p" "p < slot d i + 100" "p < length rawdata'"
        have "slot d i = nat d * 1024 + nat i * 100"
          using di by (simp add: slot_def nat_add_distrib nat_mult_distrib)
        moreover have "nat i < 10" using di by simp
        ultimately have "p div 1024 = nat d2" using p True by (intro div_nat_eqI) auto
        moreover have "p < slot d2 i2 \<or> slot d2 i2 + 100 \<le> p"
          using slots_apart [OF ne di(1,3,4) di2 ok(3)] p by auto
        ultimately show "rawdata' ! p = rawdata ! p" by (rule ok(9))
      qed
    qed
    then show ?thesis using x fit di len by (simp add: extract_inode_slot)
  qed
  ultimately show ?thesis using f by (simp add: file_stored_def)
qed

text \<open>C20: \<open>-insert\<close> keeps the files that are in the image.  With the bitmap that
  \<open>walk_inodes_insert\<close> computes from arbitrary memory, placing another file leaves every stored
  file stored: its inode is still read from its slot and still leads to its bytes.\<close>

theorem insert_keeps_files:
  assumes "file_stored A file m rawdata bitmap0 d i ip" and "image_ok m n rawdata bitmap0"
    and "1 \<le> m" and "int (length junk_bitmap) = n"
    and "walk_inodes_insert rawdata junk_bitmap m = Inr bitmap"
    and "place_file (Some file2) uid gid d2 i2 m rawdata bitmap n ip0 buf0 stamps
           = Inr (rawdata', bitmap')"
    and "memory_ok ip0 buf0" and "0 \<le> d2" and "0 \<le> i2"
  shows "file_stored {} file m rawdata' bitmap' d i ip"
proof (rule place_file_keeps_stored [OF assms(6) _ assms(7-9)])
  show "image_ok m n rawdata bitmap"
    using assms(2,4) walk_inodes_insert_grows [OF assms(5)] by (simp add: image_ok_def grows_def)
  show "file_stored {} file m rawdata bitmap d i ip"
    using assms(1) walk_inodes_insert_marks [OF assms(1-3,5)] by (simp add: file_stored_def)
qed

end
