(* ===== verification/Disk_Props.thy ===== *)
theory Disk_Props
  imports Disk_Insert
begin

text \<open>
  Further properties of \<open>inodes/disk_image.c\<close>: the errors and the frame of \<open>place_file\<close>, the
  allocator, what happens behind the last pointer of a file, and images on which the
  properties of this and the earlier theories are seen at work.
\<close>

section \<open>The allocator and the frame\<close>

text \<open>\<open>get_free_block\<close> takes the first free block at or after \<open>m\<close>, marks it and nothing
  else, and exits exactly when there is none.\<close>

theorem get_free_block_first_free:
  assumes "0 \<le> m" and "m \<le> n" and "n \<le> int (length bitmap)"
  shows "(\<forall>b bitmap'. get_free_block bitmap n m = Inr (b, bitmap') \<longleftrightarrow>
            m \<le> b \<and> b < n \<and> bitmap ! nat b = 0 \<and> (\<forall>c. m \<le> c \<and> c < b \<longrightarrow> bitmap ! nat c \<noteq> 0)
            \<and> bitmap' = bitmap[nat b := 1])
       \<and> (\<forall>e. get_free_block bitmap n m = Inl e \<longleftrightarrow>
            (\<forall>c. m \<le> c \<and> c < n \<longrightarrow> bitmap ! nat c \<noteq> 0) \<and> e = Exit (-1))"
proof (cases "find (\<lambda>b. bitmap ! nat b = 0) [m..n - 1]")
  case None
  then have "get_free_block bitmap n m = Inl (Exit (-1))" by (simp add: get_free_block_eq [OF assms])
  moreover have "\<forall>c. m \<le> c \<and> c < n \<longrightarrow> bitmap ! nat c \<noteq> 0" using None by (simp add: find_upto_None)
  ultimately show ?thesis by auto
next
  case (Some b)
  have g: "get_free_block bitmap n m = Inr (b, bitmap[nat b := 1])"
    by (simp add: get_free_block_eq [OF assms] Some)
  have "b' = b" if "m \<le> b'" "bitmap ! nat b' = 0" "\<forall>c. m \<le> c \<and> c < b' \<longrightarrow> bitmap ! nat c \<noteq> 0" for b'
    using find_upto_Some [OF Some] that by (meson linorder_neqE_linordered_idom)
  with find_upto_Some [OF Some] show ?thesis unfolding g by auto
qed

theorem get_free_block_first_free_witness:
  "get_free_block [1, 1, 0, 0] 4 1 = Inr (2, [1, 1, 1, 0])"
proof -
  have "m \<le> c \<and> c < 2 \<longrightarrow> [1, 1, 0, 0::u8] ! nat c \<noteq> 0" if "m = 1" for m c :: int
    using that by (cases "c = 1") auto
  then show ?thesis
    using get_free_block_first_free [of 1 4 "[1, 1, 0, 0]"] by (auto simp: eval_nat_numeral)
qed


text \<open>\<open>place_file\<close> changes only blocks it found free and the 100 bytes of the slot: every other
  byte of an inode block or of a block in use keeps its value, and no mark is lost.\<close>

theorem place_file_frame:
  assumes "place_file (Some file) uid gid d i m rawdata bitmap n ip0 buf0 stamps
             = Inr (rawdata', bitmap')"
    and "image_ok m n rawdata bitmap" and "memory_ok ip0 buf0" and "0 \<le> d" and "0 \<le> i"
  shows "length rawdata' = length rawdata
    \<and> (\<forall>p < length rawdata.
         (int (p div 1024) < m \<or> used bitmap (int (p div 1024)))
         \<and> (p < slot d i \<or> slot d i + 100 \<le> p) \<longrightarrow> rawdata' ! p = rawdata ! p)
    \<and> (\<forall>c. used bitmap c \<longrightarrow> used bitmap' c)"
proof (intro conjI allI impI)
  note ok = place_file_ok [OF assms]
  show len: "length rawdata' = length rawdata" using ok(4) assms(2) by (simp add: image_ok_def)
  show "used bitmap' c" if "used bitmap c" for c using that by (rule ok(6))
  fix p assume p: "p < length rawdata"
    and a: "(int (p div 1024) < m \<or> used bitmap (int (p div 1024)))
         \<and> (p < slot d i \<or> slot d i + 100 \<le> p)"
  show "rawdata' ! p = rawdata ! p"
  proof (cases "p div 1024 = nat d")
    case True
    with a ok(9) show ?thesis by blast
  next
    case False
    let ?c = "int (p div 1024)"
    have "?c \<noteq> d" using False by auto
    with ok(7) [of ?c] a have "block_of rawdata' ?c = block_of rawdata ?c" by auto
    then have "block_of rawdata' ?c ! (p mod 1024) = block_of rawdata ?c ! (p mod 1024)" by simp
    then show ?thesis using p len by (simp add: block_of_def array_simps)
  qed
qed

section \<open>Behind the last pointer\<close>

lemma emit_block_appends:
  "emit_block rawdata b fsize out = Inr out' \<Longrightarrow> length out \<le> length out'"
  by (auto simp: emit_block_def Let_def res_simps split: if_splits)

lemma for_each_appends:
  assumes "for_each is body out = Inr r"
    and "\<And>i s r. body i s = Inr r \<Longrightarrow> length s \<le> length (final r)"
  shows "length out \<le> length (final r)"
  by (rule for_each_invariant [OF assms(1), where I = "\<lambda>s. length out \<le> length s"])
     (use assms(2) in \<open>auto intro: le_trans\<close>)

lemma extract_walk_indirect_appends:
  assumes "extract_walk_indirect_block rawdata b mb ip out = Inr out'"
  shows "length out \<le> length out'"
proof -
  from assms obtain r where r: "for_each (steps4 1024) (\<lambda>i out.
        bindR (read_int (b * BLOCK_SZ + i) rawdata) (\<lambda>e.
          if e < 0 \<or> e > mb then Inr (Stop out)
          else bindR (emit_block rawdata e (ino_size ip) out) (\<lambda>out. Inr (Next out)))) out = Inr r"
    and o: "out' = final r"
    by (auto simp: extract_walk_indirect_block_def bindR_eq_Inr)
  show ?thesis unfolding o
    by (rule for_each_appends [OF r]) (auto simp: bindR_eq_Inr split: if_splits dest: emit_block_appends)
qed

lemma extract_walk_doubly_appends:
  assumes "extract_walk_doubly_indirect_block rawdata b mb ip out = Inr out'"
  shows "length out \<le> length out'"
proof -
  from assms obtain r where r: "for_each (steps4 1024) (\<lambda>i out.
        bindR (read_int (b * BLOCK_SZ + i) rawdata) (\<lambda>e.
          if e < 0 \<or> e > mb then Inr (Stop out)
          else bindR (extract_walk_indirect_block rawdata e mb ip out) (\<lambda>out. Inr (Next out)))) out
        = Inr r"
    and o: "out' = final r"
    by (auto simp: extract_walk_doubly_indirect_block_def bindR_eq_Inr)
  show ?thesis unfolding o
    by (rule for_each_appends [OF r])
       (auto simp: bindR_eq_Inr split: if_splits dest: extract_walk_indirect_appends)
qed

lemma extract_walk_triply_appends:
  assumes "extract_walk_triply_indirect_block rawdata b mb ip out = Inr out'"
  shows "length out \<le> length out'"
proof -
  from assms obtain r where r: "for_each (steps4 1024) (\<lambda>i out.
        bindR (read_int (b * BLOCK_SZ + i) rawdata) (\<lambda>e.
          if e < 0 \<or> e > mb then Inr (Stop out)
          else bindR (extract_walk_doubly_indirect_block rawdata e mb ip out)
                 (\<lambda>out. Inr (Next out)))) out = Inr r"
    and o: "out' = final r"
    by (auto simp: extract_walk_triply_indirect_block_def bindR_eq_Inr)
  show ?thesis unfolding o
    by (rule for_each_appends [OF r])
       (auto simp: bindR_eq_Inr split: if_splits dest: extract_walk_doubly_appends)
qed

lemma for_each_append:
  "for_each (xs @ ys) f s = bindR (for_each xs f s)
     (\<lambda>r. case r of Next s' \<Rightarrow> for_each ys f s' | Stop s' \<Rightarrow> Inr (Stop s'))"
  by (induction xs arbitrary: s) (auto simp: bindR_assoc intro!: bindR_cong split: flow.splits)

lemma for_each_single [simp]: "for_each [x] f s = f x s"
  by (cases "f x s") (auto split: flow.splits)

text \<open>The direct loop of \<open>extract_file\<close>, and the rest of the walk.\<close>

definition direct_step :: "disk_inode \<Rightarrow> u8 list \<Rightarrow> int \<Rightarrow> nat \<Rightarrow> u8 list \<Rightarrow> u8 list flow res" where
  "direct_step ip rawdata mb i out =
     (let block_no = ino_dblocks ip ! i in
      if block_no < 0 \<or> block_no > mb then Inr (Stop out)
      else bindR (emit_block rawdata block_no (ino_size ip) out) (\<lambda>out. Inr (Next out)))"

lemma direct_step_appends:
  "direct_step ip rawdata mb i out = Inr r \<Longrightarrow> length out \<le> length (final r)"
  by (auto simp: direct_step_def Let_def bindR_eq_Inr split: if_splits dest: emit_block_appends)

lemma extract_file_appends_from:
  assumes run: "extract_file ip rawdata fsize out0 = Inr out" and mb: "mb = c_div fsize BLOCK_SZ"
    and k: "k \<le> 12" and part: "for_each [0..<k] (direct_step ip rawdata mb) out0 = Inr (Next out1)"
  shows "length out1 \<le> length out"
proof -
  have "[0..<12] = [0..<k] @ [k..<12]" using upt_add_eq_append [of 0 k "12 - k"] k by simp
  with part have d: "for_each [0..<N_DBLOCKS] (direct_step ip rawdata mb) out0
      = for_each [k..<12] (direct_step ip rawdata mb) out1"
    by (simp add: for_each_append N_DBLOCKS_def)
  let ?ib = "\<lambda>i out.
         let block_no = ino_iblocks ip ! i in
         if block_no < 0 \<or> block_no > mb then Inr (Stop out)
         else bindR (extract_walk_indirect_block rawdata block_no mb ip out)
                (\<lambda>out. Inr (Next out))"
  have run': "bindR (for_each [k..<12] (direct_step ip rawdata mb) out1)
       (\<lambda>r. case r of Stop out \<Rightarrow> Inr out | Next out \<Rightarrow>
      bindR (for_each [0..<N_IBLOCKS] ?ib out)
       (\<lambda>r. case r of Stop out \<Rightarrow> Inr out | Next out \<Rightarrow>
      bindR (if ino_i2block ip \<ge> 0 \<and> ino_i2block ip \<le> mb
             then extract_walk_doubly_indirect_block rawdata (ino_i2block ip) mb ip out
             else Inr out) (\<lambda>out.
      if ino_i3block ip \<ge> 0 \<and> ino_i3block ip \<le> mb
      then extract_walk_triply_indirect_block rawdata (ino_i3block ip) mb ip out
      else Inr out))) = Inr out"
    using run unfolding d [symmetric] unfolding extract_file_def mb Let_def direct_step_def .
  from run' obtain r1 where r1: "for_each [k..<12] (direct_step ip rawdata mb) out1 = Inr r1"
    and run2: "(case r1 of Stop out \<Rightarrow> Inr out | Next out \<Rightarrow>
      bindR (for_each [0..<N_IBLOCKS] ?ib out)
       (\<lambda>r. case r of Stop out \<Rightarrow> Inr out | Next out \<Rightarrow>
      bindR (if ino_i2block ip \<ge> 0 \<and> ino_i2block ip \<le> mb
             then extract_walk_doubly_indirect_block rawdata (ino_i2block ip) mb ip out
             else Inr out) (\<lambda>out.
      if ino_i3block ip \<ge> 0 \<and> ino_i3block ip \<le> mb
      then extract_walk_triply_indirect_block rawdata (ino_i3block ip) mb ip out
      else Inr out))) = Inr out"
    by (rule bindR_InrE)
  have l1: "length out1 \<le> length (final r1)"
    by (rule for_each_appends [OF r1]) (rule direct_step_appends)
  show ?thesis
  proof (cases r1)
    case (Stop o1)
    with l1 run2 show ?thesis by simp
  next
    case (Next o1)
    from run2 [unfolded Next flow.case] obtain r2 where
      r2: "for_each [0..<N_IBLOCKS] ?ib o1 = Inr r2"
      and run3: "(case r2 of Stop out \<Rightarrow> Inr out | Next out \<Rightarrow>
      bindR (if ino_i2block ip \<ge> 0 \<and> ino_i2block ip \<le> mb
             then extract_walk_doubly_indirect_block rawdata (ino_i2block ip) mb ip out
             else Inr out) (\<lambda>out.
      if ino_i3block ip \<ge> 0 \<and> ino_i3block ip \<le> mb
      then extract_walk_triply_indirect_block rawdata (ino_i3block ip) mb ip out
      else Inr out)) = Inr out"
      by (rule bindR_InrE)
    have l2: "length o1 \<le> length (final r2)"
      by (rule for_each_appends [OF r2])
         (auto simp: Let_def bindR_eq_Inr split: if_splits dest: extract_walk_indirect_appends)
    show ?thesis
    proof (cases r2)
      case (Stop o2)
      with l1 l2 Next run3 show ?thesis by simp
    next
      case (Next o2)
      have "length o2 \<le> length out"
        using run3 [unfolded Next flow.case] unfolding bindR_eq_Inr
        by (fastforce split: if_splits dest: extract_walk_doubly_appends extract_walk_triply_appends)
      with l1 l2 Next \<open>r1 = Next o1\<close> show ?thesis by simp
    qed
  qed
qed

lemma emit_block_direct:
  assumes f: "file_stored A file m rawdata bitmap d i ip" and img: "image_ok m n rawdata bitmap"
    and j: "j < 12" and lt: "1024 * j < length file"
  shows "direct_step ip rawdata n j (take (1024 * j) file) = Inr (Next (take (1024 * (j + 1)) file))"
proof -
  let ?e = "ino_dblocks ip ! j" and ?o = "take (1024 * j) file"
  have c: "chunk_ok A file m rawdata bitmap ?e j"
    using f j lt by (simp add: file_stored_def inode_upto_def max_chunks_def)
  then have e: "0 \<le> ?e" "?e < n" "?e * 1024 + 1024 \<le> int (length rawdata)"
    using img by (auto simp: chunk_ok_def used_def image_ok_def)
  have s: "ino_size ip = int (length file)" using f by (simp add: file_stored_def)
  have st: "stored file m n rawdata bitmap ip" using img s by (simp add: stored_def)
  have "length file mod 1024 \<le> 1024" by simp
  then have "\<exists>out'. emit_block rawdata ?e (ino_size ip) ?o = Inr out'"
    using e by (auto simp: emit_block_def Let_def s load_block_def in_range_def BLOCK_SZ_def)
  then obtain out' where r: "emit_block rawdata ?e (ino_size ip) ?o = Inr out'" ..
  have "out_ok file j ?o" using lt by (simp add: out_ok_def)
  from emit_block_ok [OF st this c r] have o: "out_ok file (j + 1) out'" by simp
  have out': "out' = take (1024 * (j + 1)) file"
  proof (cases "1024 * (j + 1) < length file")
    case True
    with o show ?thesis by (simp add: out_ok_def)
  next
    case False
    have "length out' \<le> length file"
    proof -
      define w where "w = (if int (length ?o) + BLOCK_SZ > ino_size ip then c_mod (ino_size ip) BLOCK_SZ
                       else BLOCK_SZ)"
      have l: "length out' = length ?o + min (nat w) (length rawdata - nat (?e * 1024))"
        using r by (auto simp: emit_block_def Let_def w_def res_simps split: if_splits)
      have "nat w = (if 1024 * j + 1024 > length file then length file mod 1024 else 1024)"
        using lt by (auto simp: w_def s BLOCK_SZ_def nat_mod_distrib)
      moreover have "length file mod 1024 \<le> length file - 1024 * j"
        using lt mod_mult_self2 [of "length file - 1024 * j" 1024 j] mod_less_eq_dividend
        by (metis add.commute le_add_diff_inverse less_imp_le_nat)
      moreover have "length out' \<le> 1024 * j + nat w" using l lt by simp
      ultimately show ?thesis using lt False by (auto split: if_splits)
    qed
    with o False show ?thesis by (auto simp: out_ok_def)
  qed
  with r e show ?thesis by (simp add: direct_step_def Let_def)
qed

lemma emit_direct_blocks:
  assumes "file_stored A file m rawdata bitmap d i ip" and "image_ok m n rawdata bitmap"
    and "k \<le> 12" and "1024 * k < length file + 1024"
  shows "for_each [0..<k] (direct_step ip rawdata n) [] = Inr (Next (take (1024 * k) file))"
  using assms(3,4)
proof (induction k)
  case (Suc j)
  then have "for_each [0..<j] (direct_step ip rawdata n) [] = Inr (Next (take (1024 * j) file))" by simp
  with emit_block_direct [OF assms(1,2), of j] Suc show ?case
    by (simp add: for_each_append add.commute)
qed simp

text \<open>The pointer behind a file's last direct block decides what comes after the file.  If it is
  no block of the image, \<open>extract_file\<close> returns, with exactly the file.  If it is a block of the
  image (the zero of cleared memory is), and the size is no multiple of 1024, the result is
  longer than the file.\<close>

theorem extract_file_stale_pointer:
  assumes "file_stored A file m rawdata bitmap d i ip" and "image_ok m n rawdata bitmap"
    and "k < 12" and "length file \<le> 1024 * k" and "1024 * k < length file + 1024"
  shows "(ino_dblocks ip ! k < 0 \<or> n < ino_dblocks ip ! k \<longrightarrow>
            extract_file ip rawdata (int (length rawdata)) [] = Inr file)
       \<and> (\<forall>out. 0 \<le> ino_dblocks ip ! k \<longrightarrow> ino_dblocks ip ! k < n \<longrightarrow> \<not> 1024 dvd length file \<longrightarrow>
            extract_file ip rawdata (int (length rawdata)) [] = Inr out \<longrightarrow>
            length file < length out)"
proof (intro conjI impI allI)
  let ?e = "ino_dblocks ip ! k"
  have n: "c_div (int (length rawdata)) BLOCK_SZ = n"
    using assms(2) by (auto simp: image_ok_def BLOCK_SZ_def)
  have run: "for_each [0..<k] (direct_step ip rawdata n) [] = Inr (Next file)"
    using emit_direct_blocks [OF assms(1,2)] assms(3-5) by simp
  show "extract_file ip rawdata (int (length rawdata)) [] = Inr file" if "?e < 0 \<or> n < ?e"
  proof -
    have split: "[0..<12] = ([0..<k] @ [k]) @ [Suc k..<12]"
      using upt_add_eq_append [of 0 "Suc k" "12 - Suc k"] assms(3) by simp
    have "direct_step ip rawdata n k file = Inr (Stop file)"
      using that by (simp add: direct_step_def)
    with run have all: "for_each [0..<N_DBLOCKS] (direct_step ip rawdata n) [] = Inr (Stop file)"
      unfolding N_DBLOCKS_def split by (simp add: for_each_append del: upt_Suc)
    show ?thesis
      unfolding extract_file_def n Let_def all [unfolded direct_step_def Let_def] by simp
  qed
  show "length file < length out"
    if e: "0 \<le> ?e" "?e < n" and nd: "\<not> 1024 dvd length file"
      and x: "extract_file ip rawdata (int (length rawdata)) [] = Inr out" for out
  proof -
    have s: "ino_size ip = int (length file)" using assms(1) by (simp add: file_stored_def)
    have pos: "0 < length file mod 1024" using nd by (simp add: dvd_eq_mod_eq_0)
    have "?e * 1024 + 1024 \<le> int (length rawdata)" using e assms(2) by (auto simp: image_ok_def)
    moreover have "length file mod 1024 < 1024" by simp
    ultimately have r: "in_range rawdata (?e * 1024) (length file mod 1024)" using e
      by (auto simp: in_range_def)
    have "c_mod (int (length file)) 1024 = int (length file mod 1024)" by (simp add: zmod_int)
    then have st: "direct_step ip rawdata n k file =
        Inr (Next (file @ slice (nat (?e * 1024)) (length file mod 1024) rawdata))"
      using e r by (simp add: direct_step_def Let_def emit_block_def s BLOCK_SZ_def load_block_def)
    have "for_each [0..<Suc k] (direct_step ip rawdata n) [] =
        Inr (Next (file @ slice (nat (?e * 1024)) (length file mod 1024) rawdata))"
      using run st by (simp add: for_each_append)
    from extract_file_appends_from [OF x n [symmetric] _ this] assms(3)
    have "length (file @ slice (nat (?e * 1024)) (length file mod 1024) rawdata) \<le> length out" by simp
    moreover have "0 < length (slice (nat (?e * 1024)) (length file mod 1024) rawdata)"
      using r pos e by (auto simp: in_range_def)
    ultimately show ?thesis unfolding length_append by linarith
  qed
qed

section \<open>A file of one block\<close>

text \<open>A file of at most 1024 bytes can be placed when a block and the slot are free.\<close>

lemma place_small_file:
  assumes img: "image_ok m n rawdata bitmap" and mem: "memory_ok ip0 buf0"
    and di: "0 \<le> d" "0 \<le> i" "d < m" "i < 10" and small: "length file \<le> 1024"
    and b: "m \<le> b" "b < n" "bitmap ! nat b = 0" "\<forall>c. m \<le> c \<and> c < b \<longrightarrow> bitmap ! nat c \<noteq> 0"
    and free: "is_inode (d * BLOCK_SZ + i * 100) rawdata = Inr False"
  shows "\<exists>rawdata'. place_file (Some file) uid gid d i m rawdata bitmap n ip0 buf0 stamps
            = Inr (rawdata', bitmap[nat b := 1])"
proof -
  let ?st0 = "place_start rawdata bitmap (header ip0 uid gid stamps) buf0"
  let ?st1 = "?st0\<lparr>p_bitmap := bitmap[nat b := 1]\<rparr>"
  let ?st2 = "?st1\<lparr>p_ip := (p_ip ?st1)\<lparr>ino_dblocks := (ino_dblocks (p_ip ?st1))[0 := b]\<rparr>\<rparr>"
  have "find (\<lambda>b. bitmap ! nat b = 0) [m..n - 1] = Some b"
  proof (cases "find (\<lambda>b. bitmap ! nat b = 0) [m..n - 1]")
    case None
    with b show ?thesis by (auto simp: find_upto_None)
  next
    case (Some b')
    from find_upto_Some [OF this] b have "b' = b" by (meson linorder_neqE_linordered_idom)
    with Some show ?thesis by simp
  qed
  then have t: "take_free_block n m ?st0 = Inr (b, ?st1)"
    using img by (simp add: take_free_block_def place_start_def get_free_block_eq image_ok_def)
  have inv: "place_inv file n m 0 ?st2" and u: "used (p_bitmap ?st2) b"
    using img mem b by (auto simp: place_inv_def place_start_def image_ok_def memory_ok_def used_def)
  from copy_next_block_ok [OF inv u] obtain s where c: "copy_next_block file b ?st2 = Inr s"
    and s: "place_inv file n m 1 s" "length (p_rawdata s) = length (p_rawdata ?st2)"
      "\<forall>c. 0 \<le> c \<longrightarrow> c \<noteq> b \<longrightarrow> block_of (p_rawdata s) c = block_of (p_rawdata ?st2) c"
      "p_bitmap s = p_bitmap ?st2" "p_ip s = p_ip ?st2"
    by auto
  have full: "length file \<le> p_nbytes s" using s(1) small by (auto simp: place_inv_def)
  have "[0..<12] = 0 # [1..<12::nat]" by (simp add: upt_rec)
  then have r1: "place_direct_blocks file n m ?st0 = Inr s"
    using t c full by (simp add: place_direct_blocks_def N_DBLOCKS_def Let_def)
  have "[0..<3] = 0 # [1..<3::nat]" by (simp add: upt_rec)
  then have r2: "place_indirect_blocks file n m s = Inr s"
    using full by (simp add: place_indirect_blocks_def N_IBLOCKS_def)
  let ?ip = "(p_ip s)\<lparr>ino_size := int (p_nbytes s)\<rparr>"
  have len: "length (inode_bytes ?ip) = 100"
    by (rule length_inode_bytes)
       (use mem s(5) in \<open>auto simp: place_start_def memory_ok_def header_def split: prod.splits\<close>)
  have lr: "length (p_rawdata s) = length rawdata" using s(2) by (simp add: place_start_def)
  have off: "0 \<le> d * BLOCK_SZ + i * 100" "d * BLOCK_SZ + i * 100 + 100 \<le> int (length rawdata)"
    using di img by (auto simp: image_ok_def BLOCK_SZ_def)
  have "is_inode (d * BLOCK_SZ + i * 100) rawdata = is_inode (d * BLOCK_SZ + i * 100) (p_rawdata s)"
  proof (rule is_inode_cong)
    show "in_range rawdata (d * BLOCK_SZ + i * 100) 100" using off by (simp add: in_range_def)
    have "block_of (p_rawdata s) d = block_of rawdata d"
      using s(3) di b(1) by (simp add: place_start_def)
    with slice_block_of [OF di(1,2,4)] show "slice (nat (d * BLOCK_SZ + i * 100)) 100 rawdata
        = slice (nat (d * BLOCK_SZ + i * 100)) 100 (p_rawdata s)"
      by (simp add: slot_def BLOCK_SZ_def)
  qed (fact lr)
  with free have "\<exists>rawdata'. place_inode d i m (p_rawdata s) ?ip = Inr rawdata'"
    using di off lr len by (simp add: place_inode_def Let_def store_block_def in_range_def)
  then obtain rawdata' where "place_inode d i m (p_rawdata s) ?ip = Inr rawdata'" ..
  then show ?thesis
    unfolding place_file_run using r1 r2 full s(4) by (simp add: place_start_def)
qed

section \<open>Images to try the properties on\<close>

text \<open>
  Three blocks, one for inodes.  \<open>demo_image x\<close> holds a file of one byte in block 1, as
  \<open>place_file\<close> leaves it; \<open>x\<close> is the pointer behind the file's only block.
\<close>

definition demo_ip :: "int \<Rightarrow> disk_inode" where
  "demo_ip x = \<lparr>ino_mode = 0, ino_nlink = 1, ino_uid = 7, ino_gid = 8, ino_size = 1,
     ino_ctime = 0, ino_mtime = 0, ino_atime = 0, ino_dblocks = 1 # x # replicate 10 0,
     ino_iblocks = [0, 0, 0], ino_i2block = 0, ino_i3block = 0\<rparr>"

definition demo_image :: "int \<Rightarrow> u8 list" where
  "demo_image x = inode_bytes (demo_ip x) @ replicate 924 0 @ [42] @ replicate 2047 0"

definition empty_image :: "u8 list" where
  "empty_image = replicate 3072 0"

lemma length_demo_inode [simp]: "length (inode_bytes (demo_ip x)) = 100"
  by (rule length_inode_bytes) (simp_all add: demo_ip_def)

lemma length_demo_image [simp]: "length (demo_image x) = 3072"
  by (simp add: demo_image_def)

lemma read_zero:
  assumes "in_range rawdata off 4" and "\<forall>p. off \<le> int p \<longrightarrow> int p < off + 4 \<longrightarrow> rawdata ! p = 0"
  shows "read_int off rawdata = Inr 0"
proof -
  have "slice (nat off) 4 rawdata = replicate 4 0"
    by (rule nth_equalityI) (use assms in \<open>auto simp: in_range_def array_simps\<close>)
  then show ?thesis using assms(1)
    by (simp add: read_int_def load_block_def bytes_int_def u32_of_bytes_def)
qed

lemma is_inode_zero:
  assumes "0 \<le> off" and "off + 100 \<le> int (length rawdata)"
    and "\<forall>p. off \<le> int p \<longrightarrow> int p < off + 100 \<longrightarrow> rawdata ! p = 0"
  shows "is_inode off rawdata = Inr False"
proof -
  have r: "read_int (off + i) rawdata = Inr 0" if "0 \<le> i" "i \<le> 96" for i
    by (rule read_zero) (use assms that in \<open>auto simp: in_range_def\<close>)
  have "steps4 25 = [0, 4, 8, 12, 16, 20, 24]" by (simp add: steps4_def upt_rec)
  then show ?thesis using r [of 0] r [of 4] r [of 8] r [of 12] r [of 16] r [of 20] r [of 24]
    by (simp add: is_inode_def)
qed

lemma demo_zero: "100 \<le> p \<Longrightarrow> p < 3072 \<Longrightarrow> p \<noteq> 1024 \<Longrightarrow> demo_image x ! p = 0"
  by (auto simp: demo_image_def nth_append nth_Cons')

lemma demo_inode:
  assumes "fits_int x"
  shows "extract_inode_from_data 0 (demo_image x) = Inr (demo_ip x)"
proof -
  have "slice 0 100 (demo_image x) = inode_bytes (demo_ip x)"
    by (simp add: demo_image_def slice_def)
  moreover have "inode_of_bytes (inode_bytes (demo_ip x)) = demo_ip x"
    by (rule inode_of_bytes_inode_bytes)
       (use assms in \<open>auto simp: demo_ip_def inode_ints_def fits_int_def\<close>)
  ultimately show ?thesis by (simp add: extract_inode_from_data_def load_block_def in_range_def)
qed

lemma demo_image_ok: "image_ok 1 3 (demo_image x) [1, 1, 0]"
  by (simp add: image_ok_def)

lemma demo_stored:
  assumes "fits_int x"
  shows "file_stored {} [42] 1 (demo_image x) [1, 1, 0] 0 0 (demo_ip x)"
proof -
  have "chunk_ok {} [42] 1 (demo_image x) [1, 1, 0] 1 0"
    by (simp add: chunk_ok_def used_def block_of_def slice_def chunk_def demo_image_def)
  then have "inode_ok {} [42] 1 (demo_image x) [1, 1, 0] (demo_ip x)"
    by (simp add: inode_upto_def demo_ip_def)
  then show ?thesis using demo_inode [OF assms]
    by (simp add: file_stored_def demo_ip_def max_chunks_def)
qed

lemma empty_image_ok: "image_ok 1 3 empty_image [1, 0, 0]"
  by (simp add: image_ok_def empty_image_def)

lemma demo_memory_ok: "memory_ok (demo_ip x) (replicate 1024 0)"
  by (simp add: memory_ok_def demo_ip_def)

lemma place_demo:
  "\<exists>rawdata'. place_file (Some [42]) 7 8 0 0 1 empty_image [1, 0, 0] 3 (demo_ip 0)
     (replicate 1024 0) (0, 0, 0) = Inr (rawdata', [1, 1, 0])"
proof -
  have "is_inode (0 * BLOCK_SZ + 0 * 100) empty_image = Inr False"
    by (rule is_inode_zero) (simp_all add: empty_image_def)
  from place_small_file [OF empty_image_ok demo_memory_ok _ _ _ _ _ _ _ _ _ this, of _ 1]
  show ?thesis by simp
qed



theorem place_file_frame_witness:
  "\<exists>rawdata'. place_file (Some [42]) 7 8 0 0 1 empty_image [1, 0, 0] 3 (demo_ip 0)
       (replicate 1024 0) (0, 0, 0) = Inr (rawdata', [1, 1, 0]) \<and> rawdata' ! 500 = 0"
proof -
  from place_demo obtain rawdata' where r: "place_file (Some [42]) 7 8 0 0 1 empty_image [1, 0, 0] 3
      (demo_ip 0) (replicate 1024 0) (0, 0, 0) = Inr (rawdata', [1, 1, 0])" ..
  have "500 < length empty_image \<and> empty_image ! 500 = 0" by (simp add: empty_image_def)
  with place_file_frame [OF r empty_image_ok demo_memory_ok] r show ?thesis
    by (auto simp: slot_def)
qed

theorem extract_file_stale_pointer_witness:
  "extract_file (demo_ip (- 1)) (demo_image (- 1)) 3072 [] = Inr [42]"
  using extract_file_stale_pointer [OF demo_stored demo_image_ok, of "- 1" 1]
  by (simp add: fits_int_def demo_ip_def)

text \<open>The bitmap of the demonstration image, computed from a bitmap with junk in it.\<close>

lemma read_int_total: "in_range rawdata off 4 \<Longrightarrow> \<exists>v. read_int off rawdata = Inr v"
  by (simp add: read_int_def load_block_def)

lemma is_inode_total:
  assumes "in_range rawdata off 100"
  shows "\<exists>b. is_inode off rawdata = Inr b"
proof -
  have r: "\<exists>v. read_int (off + i) rawdata = Inr v" if "0 \<le> i" "i \<le> 96" for i
    by (rule read_int_total) (use assms that in \<open>auto simp: in_range_def\<close>)
  have "steps4 25 = [0, 4, 8, 12, 16, 20, 24]" by (simp add: steps4_def upt_rec)
  then show ?thesis using r [of 0] r [of 4] r [of 8] r [of 12] r [of 16] r [of 20] r [of 24]
    by (auto simp: is_inode_def)
qed

lemma demo_walk: "walk_inodes_insert (demo_image 0) [1, 0, 0] 1 = Inr [1, 1, 0]"
proof -
  have x: "extract_inode_from_data 0 (demo_image 0) = Inr (demo_ip 0)"
    by (rule demo_inode) (simp add: fits_int_def)
  have "in_range (demo_image 0) 0 100" by (simp add: in_range_def)
  from is_inode_total [OF this] is_inode_nlink [OF x]
  have i0: "is_inode 0 (demo_image 0) = Inr True" by (auto simp: demo_ip_def)
  have pop: "populate_bitmap_inode (demo_ip 0) [1, 0, 0] (demo_image 0) = Inr [1, 1, 0]"
    by (simp add: populate_bitmap_inode_def N_DBLOCKS_def demo_ip_def upt_rec store_def in_range_def)
  have s0: "walk_inode_slot (demo_image 0) 0 0 [1, 0, 0] = Inr (Next [1, 1, 0])"
    using i0 x pop by (simp add: walk_inode_slot_def)
  have s: "walk_inode_slot (demo_image 0) 0 j [1, 1, 0] = Inr (Next [1, 1, 0])"
    if "1 \<le> j" "j < 10" for j
  proof -
    have "is_inode (j * 100) (demo_image 0) = Inr False"
      by (rule is_inode_zero) (use that in \<open>auto intro!: demo_zero\<close>)
    then show ?thesis by (simp add: walk_inode_slot_def)
  qed
  have "map int [0..<10] = [0, 1, 2, 3, 4, 5, 6, 7, 8, 9]" "map int [0..<nat 1] = [0]"
    by (simp_all add: upt_rec)
  then show ?thesis using s0 s by (simp add: walk_inodes_insert_slots)
qed

theorem insert_keeps_files_witness:
  "\<exists>rawdata' bitmap'. place_file (Some [43]) 7 8 0 1 1 (demo_image 0) [1, 1, 0] 3 (demo_ip 0)
       (replicate 1024 0) (0, 0, 0) = Inr (rawdata', bitmap')
     \<and> file_stored {} [42] 1 rawdata' bitmap' 0 0 (demo_ip 0)"
proof -
  have f: "is_inode (0 * BLOCK_SZ + 1 * 100) (demo_image 0) = Inr False"
    by (rule is_inode_zero) (auto intro!: demo_zero)
  have "\<exists>rawdata'. place_file (Some [43]) 7 8 0 1 1 (demo_image 0) [1, 1, 0] 3 (demo_ip 0)
       (replicate 1024 0) (0, 0, 0) = Inr (rawdata', [1, 1, 0][nat 2 := 1])"
  proof (rule place_small_file [OF demo_image_ok demo_memory_ok _ _ _ _ _ _ _ _ _ f])
    have "c = 1" if "1 \<le> c" "c < 2" for c :: int using that by simp
    then show "\<forall>c. 1 \<le> c \<and> c < 2 \<longrightarrow> [1, 1, 0::u8] ! nat c \<noteq> 0" by auto
  qed simp_all
  then obtain rawdata' where r: "place_file (Some [43]) 7 8 0 1 1 (demo_image 0) [1, 1, 0] 3 (demo_ip 0)
       (replicate 1024 0) (0, 0, 0) = Inr (rawdata', [1, 1, 1])" by auto
  from insert_keeps_files [OF demo_stored demo_image_ok _ _ demo_walk r demo_memory_ok] r
  show ?thesis by (auto simp: fits_int_def)
qed

end
