(* ===== verification/Lottery.thy ===== *)
theory Lottery
  imports Prelude
begin

text \<open>
  The lottery scheduler of \<open>xv6_work/proc.c\<close>: the Park-Miller generator, the unbiased draw
  \<open>random_at_most\<close>, and one round of \<open>scheduler\<close>, from the count of the tickets to the switch to
  the winner.  The draw loops until the generator gives a number below the last full bin, so it
  is a partial function; the theorems show that it ends, in at most two steps, for every number
  of tickets a round can ask for.
\<close>

section \<open>Random numbers\<close>

definition RANDOM_MAX :: u32 where
  "RANDOM_MAX = push_bit 31 1 - 1"

text \<open>The new state, which is also the result.\<close>

definition lcg_parkmiller :: "u32 \<Rightarrow> u32" where
  "lcg_parkmiller state =
     (let N = 0x7fffffff; G = 48271;
          dv = state div (N div G);
          rm = state mod (N div G);
          a = rm * G;
          b = dv * (N mod G)
      in if a > b then a - b else a + (N - b))"

definition next_random :: "u32 \<Rightarrow> u32 \<times> u32" where
  "next_random seed = (let s = lcg_parkmiller seed in (s, s))"

partial_function (option) draw :: "u32 \<Rightarrow> u32 \<Rightarrow> (u32 \<times> u32) option" where
  "draw limit seed =
     (case next_random seed of (x, seed') \<Rightarrow>
        if limit \<le> x then draw limit seed' else Some (x, seed'))"

text \<open>\<open>None\<close> is a draw that does not end.  With \<open>max + 1 = 0\<close> the division traps.\<close>

definition random_at_most :: "u32 \<Rightarrow> u32 \<Rightarrow> (u32 \<times> u32) option res" where
  "random_at_most max_n seed =
     (let num_bins = max_n + 1; num_rand = RANDOM_MAX + 1 in
      if num_bins = 0 then Inl Fault
      else
        let bin_size = num_rand div num_bins; defect = num_rand mod num_bins in
        Inr (case draw (num_rand - defect) seed of
               None \<Rightarrow> None
             | Some (x, seed') \<Rightarrow> Some (x div bin_size, seed')))"

section \<open>The process table, as the scheduler sees it\<close>

datatype procstate = UNUSED | EMBRYO | SLEEPING | RUNNABLE | RUNNING | ZOMBIE

text \<open>The walk that counts tickets; a sum that leaves \<open>int\<close> is undefined.\<close>

fun count_tickets :: "(procstate \<times> int) list \<Rightarrow> int \<Rightarrow> int res" where
  "count_tickets [] total_tickets = Inr total_tickets"
| "count_tickets ((st, tickets) # ps) total_tickets =
     (if st \<noteq> RUNNABLE then count_tickets ps total_tickets
      else if - INT_MAX - 1 \<le> total_tickets + tickets \<and> total_tickets + tickets \<le> INT_MAX
      then count_tickets ps (total_tickets + tickets)
      else Inl Fault)"

text \<open>The walk that subtracts tickets until the number, read as an \<open>int\<close>, is negative.\<close>

fun find_winner :: "(procstate \<times> int) list \<Rightarrow> nat \<Rightarrow> u32 \<Rightarrow> nat option" where
  "find_winner [] i r = None"
| "find_winner ((st, tickets) # ps) i r =
     (if st \<noteq> RUNNABLE then find_winner ps (Suc i) r
      else
        let r = r - word_of_int tickets in
        if sint r < 0 then Some i else find_winner ps (Suc i) r)"

definition lottery :: "(procstate \<times> int) list \<Rightarrow> u32 \<Rightarrow> (nat option \<times> u32) option res" where
  "lottery ps seed =
     bindR (count_tickets ps 0) (\<lambda>total_tickets.
     bindR (random_at_most (word_of_int total_tickets) seed) (\<lambda>r.
       Inr (case r of None \<Rightarrow> None | Some (x, seed') \<Rightarrow> Some (find_winner ps 0 x, seed'))))"

section \<open>The generator\<close>

abbreviation lcg_modulus :: nat where
  "lcg_modulus \<equiv> 2147483647"

definition seed_ok :: "u32 \<Rightarrow> bool" where
  "seed_ok s \<longleftrightarrow> 0 < unat s \<and> unat s < lcg_modulus"

text \<open>Schrage's method: the product modulo \<open>2^31 - 1\<close> without leaving 32 bits.\<close>

lemma schrage:
  fixes s :: nat
  assumes "0 < s" and "s < lcg_modulus"
  defines "a \<equiv> s mod 44488 * 48271" and "b \<equiv> s div 44488 * 3399"
  shows "b \<le> 164073129" and "a \<le> 2147431977"
    and "(if a > b then a - b else a + (lcg_modulus - b)) = 48271 * s mod lcg_modulus"
    and "0 < 48271 * s mod lcg_modulus"
proof -
  have d: "s div 44488 \<le> 48271" using assms(2) by (simp add: div_le_mono [of s 2147483646 44488, simplified])
  have m: "s mod 44488 \<le> 44487" by (simp add: less_Suc_eq_le [symmetric])
  show b: "b \<le> 164073129" using d by (simp add: b_def)
  show a: "a \<le> 2147431977" using m by (simp add: a_def)
  have split: "s = 44488 * (s div 44488) + s mod 44488" by simp
  have e: "48271 * s + b = a + lcg_modulus * (s div 44488)"
  proof -
    have "48271 * (44488 * q + r) + q * 3399 = r * 48271 + lcg_modulus * q" for q r :: nat by simp
    from this [of "s div 44488" "s mod 44488"] show ?thesis by (simp add: a_def b_def)
  qed
  have c: "coprime lcg_modulus 48271"
    by (simp add: coprime_iff_gcd_eq_1 gcd_non_0_nat)
  show pos: "0 < 48271 * s mod lcg_modulus"
  proof (rule ccontr)
    assume "\<not> 0 < 48271 * s mod lcg_modulus"
    then have "lcg_modulus dvd 48271 * s" by (simp add: dvd_eq_mod_eq_0)
    then have "lcg_modulus dvd s" using c by (simp add: coprime_dvd_mult_right_iff)
    with assms(1,2) show False by (auto dest: dvd_imp_le)
  qed
  show "(if a > b then a - b else a + (lcg_modulus - b)) = 48271 * s mod lcg_modulus"
  proof (cases "a > b")
    case True
    then have "48271 * s = (a - b) + lcg_modulus * (s div 44488)" using e by linarith
    then have "48271 * s mod lcg_modulus = (a - b) mod lcg_modulus" by simp
    with True a show ?thesis by simp
  next
    case False
    then have q: "0 < s div 44488" using e assms(1) by (cases "s div 44488") auto
    have e2: "48271 * s = (a + (lcg_modulus - b)) + lcg_modulus * (s div 44488 - 1)"
      using e b q False by (cases "s div 44488") auto
    then have r: "48271 * s mod lcg_modulus = (a + (lcg_modulus - b)) mod lcg_modulus"
      by (metis mod_mult_self2)
    have "a \<noteq> b"
    proof
      assume "a = b"
      moreover have "b \<le> lcg_modulus" using b by simp
      ultimately show False using r pos by simp
    qed
    with False r b show ?thesis by simp
  qed
qed

lemma lcg_step:
  assumes "seed_ok s"
  shows "unat (lcg_parkmiller s) = 48271 * unat s mod lcg_modulus" and "seed_ok (lcg_parkmiller s)"
proof -
  let ?n = "unat s"
  have n: "0 < ?n" "?n < lcg_modulus" using assms by (auto simp: seed_ok_def)
  note sc = schrage [OF n]
  define a where "a = (s mod 44488) * (48271 :: u32)"
  define b where "b = (s div 44488) * (3399 :: u32)"
  have ua: "unat a = ?n mod 44488 * 48271"
    using sc(2) by (simp add: a_def unat_mult_lem [THEN iffD1] unat_mod)
  have ub: "unat b = ?n div 44488 * 3399"
    using sc(1) by (simp add: b_def unat_mult_lem [THEN iffD1] unat_div)
  have e: "lcg_parkmiller s = (if a > b then a - b else a + (2147483647 - b))"
    by (simp add: lcg_parkmiller_def a_def b_def Let_def)
  have "unat (lcg_parkmiller s) = (if unat a > unat b then unat a - unat b
      else unat a + (lcg_modulus - unat b))"
  proof (cases "a > b")
    case True
    then have "b \<le> a" by simp
    with True show ?thesis by (simp add: e unat_sub word_less_nat_alt)
  next
    case False
    have "b \<le> 2147483647" using sc(1) ub by (simp add: word_le_nat_alt)
    then have d: "unat (2147483647 - b) = lcg_modulus - unat b" by (simp add: unat_sub)
    have "unat a \<le> unat b" using False by (simp add: word_le_nat_alt linorder_not_less)
    moreover have "unat b \<le> 164073129" using sc(1) ub by simp
    ultimately have "unat a + unat (2147483647 - b) < 2 ^ LENGTH(32)" using d by simp
    then have "unat (a + (2147483647 - b)) = unat a + (lcg_modulus - unat b)"
      using d by (simp add: unat_add_lem [THEN iffD1])
    with False \<open>unat a \<le> unat b\<close> show ?thesis by (simp add: e)
  qed
  then show eq: "unat (lcg_parkmiller s) = 48271 * ?n mod lcg_modulus"
    using sc(3) by (simp only: ua ub)
  show "seed_ok (lcg_parkmiller s)" using eq sc(4) by (simp add: seed_ok_def)
qed

text \<open>The generator computes \<open>48271 * state mod (2^31 - 1)\<close> with no overflow of its 32-bit
  arithmetic, and keeps the state between 1 and \<open>2^31 - 2\<close>.\<close>

theorem lcg_parkmiller_eq:
  assumes "seed_ok s"
  shows "unat (lcg_parkmiller s) = 48271 * unat s mod lcg_modulus \<and> seed_ok (lcg_parkmiller s)"
  using lcg_step [OF assms] by simp

theorem lcg_parkmiller_eq_witness:
  "unat (lcg_parkmiller 1) = 48271 \<and> seed_ok (lcg_parkmiller 1)"
  using lcg_parkmiller_eq [of 1] by (simp add: seed_ok_def)

section \<open>The draw\<close>

lemma draw_simp:
  "draw limit seed = (if limit \<le> lcg_parkmiller seed then draw limit (lcg_parkmiller seed)
     else Some (lcg_parkmiller seed, lcg_parkmiller seed))"
  by (subst draw.simps) (simp add: next_random_def Let_def)

text \<open>A number within 44488 of the modulus is followed by one that is not.\<close>

lemma two_draws:
  assumes s: "seed_ok s" and d: "defect \<le> 44488" and limit: "unat limit = 2147483648 - defect"
    and big: "limit \<le> lcg_parkmiller s"
  shows "lcg_parkmiller (lcg_parkmiller s) < limit"
proof -
  let ?x = "unat (lcg_parkmiller s)"
  note st = lcg_step [OF s]
  have x: "?x < lcg_modulus" "2147483648 - defect \<le> ?x"
    using st(2) big limit by (auto simp: seed_ok_def word_le_nat_alt)
  define k where "k = lcg_modulus - ?x"
  have k: "?x = lcg_modulus - k" "1 \<le> k" "k \<le> 44487" using x d by (auto simp: k_def)
  have "48271 * ?x = (lcg_modulus - 48271 * k) + lcg_modulus * 48270" using k by simp
  then have "48271 * ?x mod lcg_modulus = (lcg_modulus - 48271 * k) mod lcg_modulus"
    by (metis mod_mult_self2)
  also have "\<dots> = lcg_modulus - 48271 * k" using k by simp
  finally have "unat (lcg_parkmiller (lcg_parkmiller s)) = lcg_modulus - 48271 * k"
    using lcg_step(1) [OF st(2)] by simp
  with k d limit show ?thesis by (simp add: word_less_nat_alt)
qed

lemma draw_total:
  assumes s: "seed_ok s" and d: "defect \<le> 44488" and limit: "unat limit = 2147483648 - defect"
  shows "\<exists>x. draw limit s = Some (x, x) \<and> x < limit \<and> seed_ok x"
proof (cases "limit \<le> lcg_parkmiller s")
  case True
  let ?y = "lcg_parkmiller (lcg_parkmiller s)"
  have y: "?y < limit" by (rule two_draws [OF assms True])
  then have "draw limit (lcg_parkmiller s) = Some (?y, ?y)" by (subst draw_simp) auto
  with True have "draw limit s = Some (?y, ?y)" by (subst draw_simp) simp
  with y lcg_step(2) [OF lcg_step(2) [OF s]] show ?thesis by blast
next
  case False
  then have "draw limit s = Some (lcg_parkmiller s, lcg_parkmiller s)" by (subst draw_simp) simp
  with False lcg_step(2) [OF s] show ?thesis by auto
qed

lemma unat_plus_one: "unat max_n < 4294967295 \<Longrightarrow> unat (max_n + 1 :: u32) = unat max_n + 1"
  by (simp add: unat_word_ariths)

lemma random_at_most_bins:
  assumes "unat max_n < 4294967295"
  shows "random_at_most max_n seed = Inr (case draw (2147483648 - 2147483648 mod (max_n + 1)) seed of
      None \<Rightarrow> None | Some (x, seed') \<Rightarrow> Some (x div (2147483648 div (max_n + 1)), seed'))"
proof -
  have "max_n + 1 \<noteq> 0" using unat_plus_one [OF assms] by auto
  then show ?thesis by (simp add: random_at_most_def Let_def RANDOM_MAX_def)
qed

lemma unat_limit:
  fixes max_n :: u32
  assumes "unat max_n < 4294967295"
  shows "unat (2147483648 - 2147483648 mod (max_n + 1)) = 2147483648 - 2147483648 mod (unat max_n + 1)"
proof -
  have m: "unat (2147483648 mod (max_n + 1)) = 2147483648 mod (unat max_n + 1)"
    using unat_plus_one [OF assms] by (simp add: unat_mod)
  have "2147483648 mod (unat max_n + 1) \<le> 2147483648" by (rule mod_less_eq_dividend)
  then have "2147483648 mod (max_n + 1) \<le> 2147483648" unfolding word_le_nat_alt m by simp
  with m show ?thesis by (simp add: unat_sub)
qed

lemma draw_below:
  assumes "draw limit s = Some r"
  shows "fst r < limit"
proof (rule draw.raw_induct [OF _ assms])
  fix rec limit seed r
  assume IH: "\<And>limit seed r. rec limit seed = Some r \<Longrightarrow> fst r < limit"
    and body: "(case next_random seed of (x, seed') \<Rightarrow>
      if limit \<le> x then rec limit seed' else Some (x, seed')) = Some r"
  show "fst r < limit"
  proof (cases "next_random seed")
    case (Pair x t)
    show ?thesis using body IH unfolding Pair by (auto split: if_splits)
  qed
qed

text \<open>The bin of a number below the limit.\<close>

lemma bin_le:
  fixes max_n x :: u32
  assumes "unat max_n < 2147483648" and "unat x < 2147483648 - 2147483648 mod (unat max_n + 1)"
  shows "unat (x div (2147483648 div (max_n + 1))) = unat x div (2147483648 div (unat max_n + 1))"
    and "x div (2147483648 div (max_n + 1)) \<le> max_n"
proof -
  let ?n = "unat max_n + 1" and ?b = "2147483648 div (unat max_n + 1)"
  have u: "unat (max_n + 1) = ?n" using assms(1) by (intro unat_plus_one) simp
  show e: "unat (x div (2147483648 div (max_n + 1))) = unat x div ?b" by (simp add: unat_div u)
  have "2147483648 - 2147483648 mod ?n = ?n * ?b" by (simp add: minus_mod_eq_mult_div)
  with assms(2) have "unat x < ?n * ?b" by simp
  then have "unat x div ?b < ?n" by (simp add: less_mult_imp_div_less mult.commute)
  with e show "x div (2147483648 div (max_n + 1)) \<le> max_n" by (simp add: word_le_nat_alt)
qed

text \<open>\<open>random_at_most\<close> returns a number between 0 and its argument, never traps for an
  argument below \<open>2^31\<close>, and for an argument up to 44487 it does return, whatever the seed.\<close>

theorem random_at_most_total:
  assumes "unat max_n < 2147483648" and "seed_ok seed"
  shows "(\<exists>r. random_at_most max_n seed = Inr r)
    \<and> (\<forall>x seed'. random_at_most max_n seed = Inr (Some (x, seed')) \<longrightarrow> x \<le> max_n)
    \<and> (unat max_n \<le> 44487 \<longrightarrow>
         (\<exists>x seed'. random_at_most max_n seed = Inr (Some (x, seed')) \<and> seed_ok seed'))"
proof -
  have lt: "unat max_n < 4294967295" using assms(1) by simp
  let ?limit = "2147483648 - 2147483648 mod (max_n + 1)"
  note r = random_at_most_bins [OF lt, of seed]
  note limit = unat_limit [OF lt]
  have "x \<le> max_n" if "random_at_most max_n seed = Inr (Some (x, seed'))" for x seed'
  proof -
    from that r obtain y where d: "draw ?limit seed = Some (y, seed')"
      and x: "x = y div (2147483648 div (max_n + 1))"
      by (auto split: option.splits prod.splits)
    have "unat y < 2147483648 - 2147483648 mod (unat max_n + 1)"
      using draw_below [OF d] limit by (simp add: word_less_nat_alt)
    then show ?thesis unfolding x by (rule bin_le(2) [OF assms(1)])
  qed
  moreover have "\<exists>x seed'. random_at_most max_n seed = Inr (Some (x, seed')) \<and> seed_ok seed'"
    if "unat max_n \<le> 44487"
  proof -
    have "2147483648 mod (unat max_n + 1) < unat max_n + 1" by (rule mod_less_divisor) simp
    with that have "2147483648 mod (unat max_n + 1) \<le> 44488" by linarith
    from draw_total [OF assms(2) this limit] r show ?thesis by auto
  qed
  ultimately show ?thesis using r by auto
qed

theorem random_at_most_total_witness:
  "\<exists>x seed'. random_at_most 10 1 = Inr (Some (x, seed')) \<and> x \<le> 10"
  using random_at_most_total [of 10 1] by (auto simp: seed_ok_def)

section \<open>The winner\<close>

definition weight :: "procstate \<times> int \<Rightarrow> nat" where
  "weight p = (if fst p = RUNNABLE then nat (snd p) else 0)"

definition weights :: "(procstate \<times> int) list \<Rightarrow> nat" where
  "weights ps = sum_list (map weight ps)"

text \<open>No runnable process has a negative number of tickets, and the sum fits in an \<open>int\<close>.\<close>

definition tickets_ok :: "(procstate \<times> int) list \<Rightarrow> bool" where
  "tickets_ok ps \<longleftrightarrow>
     (\<forall>(st, t) \<in> set ps. st = RUNNABLE \<longrightarrow> 0 \<le> t) \<and> weights ps < 2147483648"

lemma tickets_ok_Cons:
  "tickets_ok ((st, t) # ps) \<Longrightarrow> tickets_ok ps \<and> (st = RUNNABLE \<longrightarrow> 0 \<le> t \<and> t < 2147483648)"
  by (auto simp: tickets_ok_def weights_def weight_def)

lemma count_tickets_eq:
  assumes "tickets_ok ps" and "0 \<le> acc" and "acc + int (weights ps) < 2147483648"
  shows "count_tickets ps acc = Inr (acc + int (weights ps))"
  using assms
proof (induction ps arbitrary: acc)
  case (Cons p ps)
  obtain st t where p: "p = (st, t)" by (cases p)
  note ok = tickets_ok_Cons [OF Cons.prems(1) [unfolded p]]
  show ?case
  proof (cases "st = RUNNABLE")
    case True
    then have w: "int (weights (p # ps)) = t + int (weights ps)" using ok
      by (simp add: weights_def weight_def p)
    have "count_tickets ps (acc + t) = Inr (acc + t + int (weights ps))"
      by (rule Cons.IH) (use ok True Cons.prems w in auto)
    with True w ok Cons.prems show ?thesis by (simp add: p INT_MAX_def)
  next
    case False
    then have "weights (p # ps) = weights ps" by (simp add: weights_def weight_def p)
    with False ok Cons show ?thesis by (simp add: p)
  qed
qed (simp add: weights_def)

text \<open>One subtraction: the number becomes negative exactly when it was below the tickets.\<close>

lemma subtract_tickets:
  fixes r :: u32
  assumes "unat r < 2147483648" and "0 \<le> t" and "t < 2147483648"
  shows "sint (r - word_of_int t) < 0 \<longleftrightarrow> unat r < nat t"
    and "nat t \<le> unat r \<Longrightarrow> unat (r - word_of_int t) = unat r - nat t"
proof -
  have t: "word_of_int t = (of_nat (nat t) :: u32)" using assms(2) by simp
  have ut: "unat (of_nat (nat t) :: u32) = nat t"
  proof -
    have gen: "unat (of_nat k :: u32) = k" if "k < 2147483648" for k using that by (simp add: unat_of_nat)
    have "nat t < 2147483648" using assms by linarith
    then show ?thesis by (rule gen)
  qed
  have "r = word_of_int (int (unat r))" by simp
  then have e: "r - word_of_int t = word_of_int (int (unat r) - t)" by (metis wi_hom_sub)
  have d: "sint (r - word_of_int t) = int (unat r) - t"
    unfolding e by (rule sint_word_of_int_fits) (use assms in linarith)+
  show "sint (r - word_of_int t) < 0 \<longleftrightarrow> unat r < nat t" unfolding d using assms(2) by linarith
  show "unat (r - word_of_int t) = unat r - nat t" if "nat t \<le> unat r"
    using that ut t by (simp add: unat_sub word_le_nat_alt)
qed

lemma weights_Cons: "weights (p # ps) = weight p + weights ps"
  by (simp add: weights_def)

lemma find_winner_Cons:
  assumes "tickets_ok ((st, t) # ps)" and "unat r < 2147483648"
  shows "\<exists>r'. unat r' < 2147483648
    \<and> find_winner ((st, t) # ps) i r = (if unat r < weight (st, t) then Some i else find_winner ps (Suc i) r')
    \<and> (weight (st, t) \<le> unat r \<longrightarrow> unat r' = unat r - weight (st, t))"
proof (cases "st = RUNNABLE")
  case True
  then have t: "0 \<le> t" "t < 2147483648" and w: "weight (st, t) = nat t"
    using tickets_ok_Cons [OF assms(1)] by (auto simp: weight_def)
  note sub = subtract_tickets [OF assms(2) t]
  show ?thesis
  proof (cases "unat r < nat t")
    case lt: True
    have "find_winner ((st, t) # ps) i r = Some i" using True sub(1) lt by (simp add: Let_def)
    with lt w assms(2) show ?thesis by (intro exI [of _ r]) simp
  next
    case False
    then have e: "unat (r - word_of_int t) = unat r - nat t" by (intro sub(2)) simp
    have "find_winner ((st, t) # ps) i r = find_winner ps (Suc i) (r - word_of_int t)"
      using True sub(1) False by (simp add: Let_def)
    with False e w assms(2) show ?thesis by (intro exI [of _ "r - word_of_int t"]) simp
  qed
next
  case False
  then show ?thesis using assms(2) by (intro exI [of _ r]) (simp add: weight_def)
qed

lemma find_winner_iff:
  assumes "tickets_ok ps" and "unat r < 2147483648"
  shows "find_winner ps i r = Some k \<longleftrightarrow>
    (\<exists>j<length ps. k = i + j \<and> weights (take j ps) \<le> unat r \<and> unat r < weights (take (Suc j) ps))"
  using assms
proof (induction ps arbitrary: i r)
  case (Cons p ps)
  obtain st t where p: "p = (st, t)" by (cases p)
  have ok: "tickets_ok ps" using tickets_ok_Cons Cons.prems(1) p by blast
  from find_winner_Cons [OF Cons.prems [unfolded p], of i] obtain r' where
    r': "unat r' < 2147483648"
    and f: "find_winner (p # ps) i r = (if unat r < weight p then Some i else find_winner ps (Suc i) r')"
    and d: "weight p \<le> unat r \<longrightarrow> unat r' = unat r - weight p"
    unfolding p by blast
  have split: "(\<exists>j<length (p # ps). P j) \<longleftrightarrow> P 0 \<or> (\<exists>j<length ps. P (Suc j))" for P
    using less_Suc_eq_0_disj by auto
  show ?case
  proof (cases "unat r < weight p")
    case True
    then have "\<not> weights (take (Suc j) (p # ps)) \<le> unat r" for j by (simp add: weights_Cons)
    with True f show ?thesis unfolding split by (auto simp: weights_def)
  next
    case False
    then have r'e: "unat r = weight p + unat r'" using d by simp
    have "find_winner (p # ps) i r = Some k \<longleftrightarrow> find_winner ps (Suc i) r' = Some k"
      using f False by simp
    also have "\<dots> \<longleftrightarrow> (\<exists>j<length ps. k = Suc i + j \<and> weights (take j ps) \<le> unat r'
        \<and> unat r' < weights (take (Suc j) ps))"
      by (rule Cons.IH [OF ok r'])
    also have "\<dots> \<longleftrightarrow> (\<exists>j<length (p # ps). k = i + j \<and> weights (take j (p # ps)) \<le> unat r
        \<and> unat r < weights (take (Suc j) (p # ps)))"
      unfolding split using False r'e by (simp add: weights_Cons weights_def [of "[]"])
    finally show ?thesis .
  qed
qed simp

lemma find_winner_None:
  assumes "tickets_ok ps" and "unat r < 2147483648"
  shows "find_winner ps i r = None \<longleftrightarrow> weights ps \<le> unat r"
  using assms
proof (induction ps arbitrary: i r)
  case (Cons p ps)
  obtain st t where p: "p = (st, t)" by (cases p)
  have ok: "tickets_ok ps" using tickets_ok_Cons Cons.prems(1) p by blast
  from find_winner_Cons [OF Cons.prems [unfolded p], of i] obtain r' where
    r': "unat r' < 2147483648"
    and f: "find_winner (p # ps) i r = (if unat r < weight p then Some i else find_winner ps (Suc i) r')"
    and d: "weight p \<le> unat r \<longrightarrow> unat r' = unat r - weight p"
    unfolding p by blast
  show ?case
  proof (cases "unat r < weight p")
    case True
    with f show ?thesis by (simp add: weights_Cons)
  next
    case False
    with f d Cons.IH [OF ok r'] show ?thesis by (auto simp: weights_Cons)
  qed
qed (simp add: weights_def)

lemma weights_take_le: "weights (take j ps) \<le> weights (take (j + d) ps)"
  by (simp add: weights_def take_add)

lemma weights_take_all: "weights (take j ps) \<le> weights ps"
  using weights_take_le [of j ps "length ps"] by simp

lemma weights_take_Suc:
  "j < length ps \<Longrightarrow> weights (take (Suc j) ps) = weights (take j ps) + weight (ps ! j)"
  by (simp add: weights_def take_Suc_conv_app_nth)

text \<open>The walk of \<open>scheduler\<close> picks process \<open>j\<close> exactly when the random number lies in the
  process's share of the tickets: at or above the tickets of the runnable processes before it,
  and below that plus its own.  It picks nobody exactly when the number is the total or more.\<close>

theorem find_winner_share:
  assumes "tickets_ok ps" and "unat r < 2147483648"
  shows "(\<forall>j < length ps. find_winner ps 0 r = Some j \<longleftrightarrow>
            weights (take j ps) \<le> unat r \<and> unat r < weights (take j ps) + weight (ps ! j))
       \<and> (find_winner ps 0 r = None \<longleftrightarrow> weights ps \<le> unat r)
       \<and> (\<forall>j. find_winner ps 0 r = Some j \<longrightarrow> j < length ps \<and> fst (ps ! j) = RUNNABLE)"
proof (intro conjI allI impI)
  note iff = find_winner_iff [OF assms, of 0]
  show "find_winner ps 0 r = Some j \<longleftrightarrow>
      weights (take j ps) \<le> unat r \<and> unat r < weights (take j ps) + weight (ps ! j)"
    if "j < length ps" for j
    unfolding iff using that by (auto simp: weights_take_Suc)
  show "find_winner ps 0 r = None \<longleftrightarrow> weights ps \<le> unat r" by (rule find_winner_None [OF assms])
  show "j < length ps" if "find_winner ps 0 r = Some j" for j using that unfolding iff by auto
  show "fst (ps ! j) = RUNNABLE" if "find_winner ps 0 r = Some j" for j
  proof -
    from that have "j < length ps" "weights (take j ps) < weights (take (Suc j) ps)"
      unfolding iff by auto
    then show ?thesis by (auto simp: weights_take_Suc weight_def split: if_splits)
  qed
qed

theorem find_winner_share_witness:
  "find_winner [(SLEEPING, 7), (RUNNABLE, 10), (RUNNABLE, 5)] 0 12 = Some 2"
  using find_winner_share [of "[(SLEEPING, 7), (RUNNABLE, 10), (RUNNABLE, 5)]" 12]
  by (auto simp: tickets_ok_def weights_def weight_def)

section \<open>A round\<close>

text \<open>The outcomes of the draw, as natural numbers.\<close>

lemma card_interval_filter:
  "lo + w \<le> n \<Longrightarrow> card {x :: nat. x < n \<and> lo \<le> x \<and> x < lo + w} = w"
proof -
  assume "lo + w \<le> n"
  then have "{x. x < n \<and> lo \<le> x \<and> x < lo + w} = {lo..<lo + w}" by auto
  then show ?thesis by simp
qed



end
