(* ===== verification/Strings.thy ===== *)
theory Strings
  imports Prelude
begin

text \<open>
  The string and memory routines of the kernel (\<open>string.c\<close>) and of user programs (\<open>ulib.c\<close>).
  Memory is one byte array; a pointer is an index into it, and an access outside it is a
  \<open>Fault\<close>.  Every routine is the loop of the source.
\<close>

section \<open>Kernel routines (string.c)\<close>

text \<open>\<open>stosl\<close> and \<open>stosb\<close> both leave \<open>n\<close> copies of the low byte of \<open>c\<close>.\<close>

definition memset :: "int \<Rightarrow> u32 \<Rightarrow> nat \<Rightarrow> u8 list \<Rightarrow> u8 list res" where
  "memset dst c n mem =
     (if word_of_int dst AND 3 = (0 :: u32) \<and> n mod 4 = 0 then
        let c = c AND 0xFF;
            w = push_bit 24 c OR push_bit 16 c OR push_bit 8 c OR c
        in store_block mem dst (concat (replicate (n div 4) (bytes_of_u32 w)))
      else store_block mem dst (replicate n (ucast c)))"

fun memcmp :: "int \<Rightarrow> int \<Rightarrow> nat \<Rightarrow> u8 list \<Rightarrow> int res" where
  "memcmp s1 s2 0 mem = Inr 0"
| "memcmp s1 s2 (Suc n) mem =
     bindR (load mem s1) (\<lambda>a. bindR (load mem s2) (\<lambda>b.
       if a \<noteq> b then Inr (uint a - uint b) else memcmp (s1 + 1) (s2 + 1) n mem))"

fun copy_up :: "int \<Rightarrow> int \<Rightarrow> nat \<Rightarrow> u8 list \<Rightarrow> u8 list res" where
  "copy_up d s 0 mem = Inr mem"
| "copy_up d s (Suc n) mem =
     bindR (load mem s) (\<lambda>c. bindR (store mem d c) (\<lambda>mem. copy_up (d + 1) (s + 1) n mem))"

fun copy_down :: "int \<Rightarrow> int \<Rightarrow> nat \<Rightarrow> u8 list \<Rightarrow> u8 list res" where
  "copy_down d s 0 mem = Inr mem"
| "copy_down d s (Suc n) mem =
     bindR (load mem (s - 1)) (\<lambda>c. bindR (store mem (d - 1) c) (\<lambda>mem.
       copy_down (d - 1) (s - 1) n mem))"

definition memmove :: "int \<Rightarrow> int \<Rightarrow> nat \<Rightarrow> u8 list \<Rightarrow> u8 list res" where
  "memmove dst src n mem =
     (if src < dst \<and> src + int n > dst then copy_down (dst + int n) (src + int n) n mem
      else copy_up dst src n mem)"

definition memcpy :: "int \<Rightarrow> int \<Rightarrow> nat \<Rightarrow> u8 list \<Rightarrow> u8 list res" where
  "memcpy dst src n mem = memmove dst src n mem"

fun strncmp :: "int \<Rightarrow> int \<Rightarrow> nat \<Rightarrow> u8 list \<Rightarrow> int res" where
  "strncmp p q 0 mem = Inr 0"
| "strncmp p q (Suc n) mem =
     bindR (load mem p) (\<lambda>a. bindR (load mem q) (\<lambda>b.
       if a \<noteq> 0 \<and> a = b then strncmp (p + 1) (q + 1) n mem else Inr (uint a - uint b)))"

fun zero_fill :: "int \<Rightarrow> nat \<Rightarrow> u8 list \<Rightarrow> u8 list res" where
  "zero_fill s 0 mem = Inr mem"
| "zero_fill s (Suc n) mem = bindR (store mem s 0) (\<lambda>mem. zero_fill (s + 1) n mem)"

text \<open>The copying loop of \<open>strncpy\<close> stops after the nul; the rest is filled with zeros.\<close>

fun strncpy_loop :: "int \<Rightarrow> int \<Rightarrow> nat \<Rightarrow> u8 list \<Rightarrow> u8 list res" where
  "strncpy_loop s t 0 mem = Inr mem"
| "strncpy_loop s t (Suc n) mem =
     bindR (load mem t) (\<lambda>c. bindR (store mem s c) (\<lambda>mem.
       if c \<noteq> 0 then strncpy_loop (s + 1) (t + 1) n mem else zero_fill (s + 1) n mem))"

definition strncpy :: "int \<Rightarrow> int \<Rightarrow> int \<Rightarrow> u8 list \<Rightarrow> u8 list res" where
  "strncpy s t n mem = strncpy_loop s t (nat n) mem"

fun safestrcpy_loop :: "int \<Rightarrow> int \<Rightarrow> nat \<Rightarrow> u8 list \<Rightarrow> u8 list res" where
  "safestrcpy_loop s t 0 mem = Inr mem"
| "safestrcpy_loop s t (Suc n) mem =
     (if n = 0 then store mem s 0
      else bindR (load mem t) (\<lambda>c. bindR (store mem s c) (\<lambda>mem.
        if c \<noteq> 0 then safestrcpy_loop (s + 1) (t + 1) n mem else store mem (s + 1) 0)))"

definition safestrcpy :: "int \<Rightarrow> int \<Rightarrow> int \<Rightarrow> u8 list \<Rightarrow> u8 list res" where
  "safestrcpy s t n mem = (if n \<le> 0 then Inr mem else safestrcpy_loop s t (nat n) mem)"

function strlen_loop :: "int \<Rightarrow> int \<Rightarrow> u8 list \<Rightarrow> int res" where
  "strlen_loop s n mem =
     (if in_range mem (s + n) 1 then
        (if mem ! nat (s + n) \<noteq> 0 then strlen_loop s (n + 1) mem else Inr n)
      else Inl Fault)"
  by pat_completeness auto
termination
  by (relation "measure (\<lambda>(s, n, mem). nat (int (length mem) - (s + n)))") (auto simp: in_range_def)

declare strlen_loop.simps [simp del]

definition strlen :: "int \<Rightarrow> u8 list \<Rightarrow> int res" where
  "strlen s mem = strlen_loop s 0 mem"

section \<open>User routines (ulib.c)\<close>

function ulib_strcpy :: "int \<Rightarrow> int \<Rightarrow> u8 list \<Rightarrow> u8 list res" where
  "ulib_strcpy s t mem =
     (if in_range mem t 1 \<and> in_range mem s 1 then
        let c = mem ! nat t; mem = mem[nat s := c] in
        if c \<noteq> 0 then ulib_strcpy (s + 1) (t + 1) mem else Inr mem
      else Inl Fault)"
  by pat_completeness auto
termination
  by (relation "measure (\<lambda>(s, t, mem). nat (int (length mem) - t))") (auto simp: in_range_def)

declare ulib_strcpy.simps [simp del]

function ulib_strcmp :: "int \<Rightarrow> int \<Rightarrow> u8 list \<Rightarrow> int res" where
  "ulib_strcmp p q mem =
     (if in_range mem p 1 \<and> in_range mem q 1 then
        let a = mem ! nat p; b = mem ! nat q in
        if a \<noteq> 0 \<and> a = b then ulib_strcmp (p + 1) (q + 1) mem else Inr (uint a - uint b)
      else Inl Fault)"
  by pat_completeness auto
termination
  by (relation "measure (\<lambda>(p, q, mem). nat (int (length mem) - p))") (auto simp: in_range_def Let_def)

declare ulib_strcmp.simps [simp del]

text \<open>The pointer found; 0 is the null pointer of the source.\<close>

function ulib_strchr :: "int \<Rightarrow> u8 \<Rightarrow> u8 list \<Rightarrow> int option res" where
  "ulib_strchr s c mem =
     (if in_range mem s 1 then
        if mem ! nat s = 0 then Inr None
        else if mem ! nat s = c then Inr (Some s)
        else ulib_strchr (s + 1) c mem
      else Inl Fault)"
  by pat_completeness auto
termination
  by (relation "measure (\<lambda>(s, c, mem). nat (int (length mem) - s))") (auto simp: in_range_def)

declare ulib_strchr.simps [simp del]

text \<open>\<open>atoi\<close>: no sign, no spaces; a value that leaves \<open>int\<close> is undefined.\<close>

function ulib_atoi_loop :: "int \<Rightarrow> int \<Rightarrow> u8 list \<Rightarrow> int res" where
  "ulib_atoi_loop s n mem =
     (if in_range mem s 1 then
        let c = uint (mem ! nat s) in
        if 48 \<le> c \<and> c \<le> 57 then
          (if n * 10 + c \<le> INT_MAX then ulib_atoi_loop (s + 1) (n * 10 + c - 48) mem else Inl Fault)
        else Inr n
      else Inl Fault)"
  by pat_completeness auto
termination
  by (relation "measure (\<lambda>(s, n, mem). nat (int (length mem) - s))") (auto simp: in_range_def Let_def)

declare ulib_atoi_loop.simps [simp del]

definition ulib_atoi :: "int \<Rightarrow> u8 list \<Rightarrow> int res" where
  "ulib_atoi s mem = ulib_atoi_loop s 0 mem"

definition ulib_memmove :: "int \<Rightarrow> int \<Rightarrow> int \<Rightarrow> u8 list \<Rightarrow> u8 list res" where
  "ulib_memmove vdst vsrc n mem = copy_up vdst vsrc (nat n) mem"

text \<open>\<open>gets\<close> reads bytes one by one; \<open>input\<close> is what \<open>read(0, \<dots>)\<close> will deliver.\<close>

fun gets_loop :: "nat \<Rightarrow> int \<Rightarrow> int \<Rightarrow> u8 list \<Rightarrow> u8 list \<Rightarrow> (u8 list \<times> u8 list) res" where
  "gets_loop 0 buf i input mem = bindR (store mem (buf + i) 0) (\<lambda>mem. Inr (input, mem))"
| "gets_loop (Suc room) buf i input mem =
     (case input of
        [] \<Rightarrow> bindR (store mem (buf + i) 0) (\<lambda>mem. Inr ([], mem))
      | c # input \<Rightarrow>
          bindR (store mem (buf + i) c) (\<lambda>mem.
            if c = 10 \<or> c = 13
            then bindR (store mem (buf + (i + 1)) 0) (\<lambda>mem. Inr (input, mem))
            else gets_loop room buf (i + 1) input mem))"

definition ulib_gets :: "int \<Rightarrow> int \<Rightarrow> u8 list \<Rightarrow> u8 list \<Rightarrow> (u8 list \<times> u8 list) res" where
  "ulib_gets buf max_n input mem = gets_loop (nat (max_n - 1)) buf 0 input mem"

definition ulib_strlen :: "int \<Rightarrow> u8 list \<Rightarrow> int res" where
  "ulib_strlen s mem = strlen_loop s 0 mem"

definition ulib_memset :: "int \<Rightarrow> u32 \<Rightarrow> nat \<Rightarrow> u8 list \<Rightarrow> u8 list res" where
  "ulib_memset dst c n mem = store_block mem dst (replicate n (ucast c))"

text \<open>\<open>stat\<close> over the system calls \<open>open\<close> (reading only), \<open>fstat\<close> and \<open>close\<close>.\<close>

definition ulib_stat ::
    "('n \<Rightarrow> 's \<Rightarrow> int \<times> 's) \<Rightarrow> (int \<Rightarrow> 's \<Rightarrow> int \<times> 'st option \<times> 's) \<Rightarrow> (int \<Rightarrow> 's \<Rightarrow> int \<times> 's) \<Rightarrow> 'n \<Rightarrow> 's
     \<Rightarrow> int \<times> 'st option \<times> 's" where
  "ulib_stat open_rd fstat close n s =
     (case open_rd n s of (fd, s) \<Rightarrow>
        if fd < 0 then (-1, None, s)
        else case fstat fd s of (r, st, s) \<Rightarrow> case close fd s of (_, s) \<Rightarrow> (r, st, s))"

section \<open>Filling memory\<close>

text \<open>The kernel fills words where it can; the result is that of filling bytes.\<close>

lemma bit_copies:
  fixes c :: u32
  assumes "n < LENGTH(8)"
  shows "bit (push_bit 24 (c AND mask 8) OR push_bit 16 (c AND mask 8) OR push_bit 8 (c AND mask 8) OR (c AND mask 8)) n \<longleftrightarrow> bit c n"
   "bit (push_bit 24 (c AND mask 8) OR push_bit 16 (c AND mask 8) OR push_bit 8 (c AND mask 8) OR (c AND mask 8)) (n + 8) \<longleftrightarrow> bit c n"
   "bit (push_bit 24 (c AND mask 8) OR push_bit 16 (c AND mask 8) OR push_bit 8 (c AND mask 8) OR (c AND mask 8)) (n + 16) \<longleftrightarrow> bit c n"
   "bit (push_bit 24 (c AND mask 8) OR push_bit 16 (c AND mask 8) OR push_bit 8 (c AND mask 8) OR (c AND mask 8)) (n + 24) \<longleftrightarrow> bit c n"
  using assms by (simp_all add: bit_or_iff bit_push_bit_iff bit_and_iff bit_mask_iff)
lemma bytes_of_copies:
  "bytes_of_u32 (push_bit 24 (c AND 0xFF) OR push_bit 16 (c AND 0xFF) OR push_bit 8 (c AND 0xFF) OR (c AND 0xFF)) = replicate 4 (ucast c)"
proof -
  have m: "(0xFF :: u32) = mask 8" by (simp add: mask_eq_exp_minus_1)
  have r: "replicate 4 x = [x, x, x, x]" for x :: u8 by (simp add: numeral_eq_Suc)
  show ?thesis
    unfolding m bytes_of_u32_def r list.inject
    by (intro conjI refl bit_word_eqI) (simp_all only: bit_ucast_iff bit_drop_bit_eq comp_def bit_copies add.commute)
qed

lemma memset_bytes: "memset dst c n mem = ulib_memset dst c n mem"
proof (cases "word_of_int dst AND 3 = (0 :: u32) \<and> n mod 4 = 0")
  case True
  then have n: "4 * (n div 4) = n" by auto
  have copies: "concat (replicate k (replicate 4 x)) = replicate (4 * k) x" for k and x :: u8
    by (induction k) (simp_all only: replicate.simps concat.simps mult_0_right mult_Suc_right replicate_add)
  have "concat (replicate (n div 4) (replicate 4 (ucast c :: u8))) = replicate n (ucast c)"
    by (simp only: copies n)
  then show ?thesis using True by (simp only: memset_def ulib_memset_def Let_def bytes_of_copies if_True if_cancel)
qed (simp only: memset_def ulib_memset_def if_False)

section \<open>Moving memory\<close>

lemma copy_up_ok:
  assumes "s + n \<le> length mem" and "d + n \<le> length mem" and "d \<le> s \<or> s + n \<le> d"
  shows "copy_up (int d) (int s) n mem = Inr (blit d (slice s n mem) mem)"
  using assms
proof (induction n arbitrary: d s mem)
  case 0
  then show ?case by (simp add: blit_def)
next
  case (Suc n)
  let ?mem = "mem[d := mem ! s]"
  have "copy_up (int (Suc d)) (int (Suc s)) n ?mem = Inr (blit (Suc d) (slice (Suc s) n ?mem) ?mem)"
    by (rule Suc.IH) (use Suc.prems in auto)
  moreover have "blit (Suc d) (slice (Suc s) n ?mem) ?mem = blit d (slice s (Suc n) mem) mem"
    by (rule nth_equalityI)
       (use Suc.prems in \<open>auto simp: array_simps nth_list_update Suc_diff_Suc\<close>)
  ultimately show ?case using Suc.prems
    by (simp add: load_def store_def in_range_def add.commute)
qed

lemma copy_down_ok:
  assumes "s + n \<le> length mem" and "d + n \<le> length mem" and "s < d"
  shows "copy_down (int (d + n)) (int (s + n)) n mem = Inr (blit d (slice s n mem) mem)"
  using assms
proof (induction n arbitrary: mem)
  case 0
  then show ?case by (simp add: blit_def)
next
  case (Suc n)
  let ?mem = "mem[d + n := mem ! (s + n)]"
  have "copy_down (int (d + n)) (int (s + n)) n ?mem = Inr (blit d (slice s n ?mem) ?mem)"
    by (rule Suc.IH) (use Suc.prems in auto)
  moreover have "blit d (slice s n ?mem) ?mem = blit d (slice s (Suc n) mem) mem"
  proof (rule nth_equalityI)
    fix i assume "i < length (blit d (slice s n ?mem) ?mem)"
    then have i: "i < length mem" using Suc.prems by simp
    have "slice s (Suc n) mem ! (i - d) = mem ! (s + (i - d))" if "d \<le> i" "i < d + Suc n"
      by (rule nth_slice) (use that Suc.prems in linarith)+
    moreover have "slice s n ?mem ! (i - d) = ?mem ! (s + (i - d))" if "d \<le> i" "i < d + n"
      by (rule nth_slice) (use that Suc.prems in \<open>simp_all, linarith?\<close>)
    ultimately show "blit d (slice s n ?mem) ?mem ! i = blit d (slice s (Suc n) mem) mem ! i"
      using i Suc.prems by (auto simp: nth_blit nth_list_update less_Suc_eq)
  qed (use Suc.prems in simp)
  ultimately show ?case using Suc.prems
    by (simp add: load_def store_def in_range_def nat_add_distrib)
qed

text \<open>The kernel's \<open>memmove\<close> leaves at the destination the bytes that were at the source, and
  changes nothing else, however the two areas overlap.\<close>

theorem memmove_ok:
  assumes "src + n \<le> length mem" and "dst + n \<le> length mem"
  shows "memmove (int dst) (int src) n mem = Inr (blit dst (slice src n mem) mem)"
proof (cases "src < dst \<and> dst < src + n")
  case True
  then show ?thesis using copy_down_ok [of src n mem dst] assms by (simp add: memmove_def)
next
  case False
  then have "dst \<le> src \<or> src + n \<le> dst" by auto
  moreover have "\<not> (int src < int dst \<and> int src + int n > int dst)" using False by linarith
  ultimately show ?thesis using copy_up_ok [of src n mem dst] assms by (simp only: memmove_def if_False)
qed

theorem memmove_ok_witness: "memmove 1 0 3 [1, 2, 3, 4] = Inr [1, 1, 2, 3]"
  using memmove_ok [of 0 3 "[1, 2, 3, 4]" 1] by (simp add: blit_def slice_def)

text \<open>The \<open>memmove\<close> of user programs always copies upwards.  It moves the bytes when the
  destination is not inside the source, and when it is one byte up it smears the first byte.\<close>

theorem ulib_memmove_ok:
  assumes "src + n \<le> length mem" and "dst + n \<le> length mem"
  shows "(dst \<le> src \<or> src + n \<le> dst \<longrightarrow>
            ulib_memmove (int dst) (int src) (int n) mem = Inr (blit dst (slice src n mem) mem))
       \<and> (dst = src + 1 \<longrightarrow>
            ulib_memmove (int dst) (int src) (int n) mem = Inr (blit dst (replicate n (mem ! src)) mem))"
proof (intro conjI impI)
  show "ulib_memmove (int dst) (int src) (int n) mem = Inr (blit dst (slice src n mem) mem)"
    if "dst \<le> src \<or> src + n \<le> dst"
    using copy_up_ok [OF assms that] by (simp add: ulib_memmove_def)
  have "copy_up (int (s + 1)) (int s) k m = Inr (blit (s + 1) (replicate k (m ! s)) m)"
    if "s + 1 + k \<le> length m" for s k and m :: "u8 list"
    using that
  proof (induction k arbitrary: s m)
    case 0
    then show ?case by (simp add: blit_def)
  next
    case (Suc k)
    let ?m = "m[Suc s := m ! s]"
    have "copy_up (int (Suc s + 1)) (int (Suc s)) k ?m = Inr (blit (Suc s + 1) (replicate k (?m ! Suc s)) ?m)"
      by (rule Suc.IH) (use Suc.prems in simp)
    moreover have "blit (Suc s + 1) (replicate k (?m ! Suc s)) ?m = blit (s + 1) (replicate (Suc k) (m ! s)) m"
      by (rule nth_equalityI) (use Suc.prems in \<open>auto simp: array_simps nth_list_update nth_Cons'\<close>)
    moreover have "load m (int s) = Inr (m ! s)" "store m (int (s + 1)) (m ! s) = Inr ?m"
      using Suc.prems by (simp_all add: load_def store_def in_range_def nat_add_distrib)
    ultimately show ?case by (simp add: add.commute add.left_commute)
  qed
  then show "ulib_memmove (int dst) (int src) (int n) mem = Inr (blit dst (replicate n (mem ! src)) mem)"
    if "dst = src + 1"
    using that assms by (simp add: ulib_memmove_def)
qed

theorem ulib_memmove_ok_witness: "ulib_memmove 1 0 3 [1, 2, 3, 4] = Inr [1, 1, 1, 1]"
  using ulib_memmove_ok [of 0 3 "[1, 2, 3, 4]" 1] by (simp add: blit_def eval_nat_numeral)

section \<open>Strings\<close>

text \<open>The array holds the nul-terminated string \<open>str\<close> at \<open>p\<close>.\<close>

definition cstring :: "u8 list \<Rightarrow> nat \<Rightarrow> u8 list \<Rightarrow> bool" where
  "cstring mem p str \<longleftrightarrow>
     p + length str < length mem \<and> slice p (length str) mem = str \<and> mem ! (p + length str) = 0
     \<and> 0 \<notin> set str"

lemma cstring_Nil: "cstring mem p [] \<longleftrightarrow> p < length mem \<and> mem ! p = 0"
  by (auto simp: cstring_def)

lemma cstring_Cons:
  "cstring mem p (c # str) \<longleftrightarrow> p < length mem \<and> mem ! p = c \<and> c \<noteq> 0 \<and> cstring mem (Suc p) str"
proof -
  have "slice p (Suc k) mem = mem ! p # slice (Suc p) k mem" if "p < length mem" for k
    using that by (simp add: slice_def Cons_nth_drop_Suc [symmetric])
  then show ?thesis by (auto simp: cstring_def)
qed

lemma cstring_cong:
  assumes "cstring mem p str" and "length mem' = length mem"
    and "\<And>i. p \<le> i \<Longrightarrow> i \<le> p + length str \<Longrightarrow> mem' ! i = mem ! i"
  shows "cstring mem' p str"
proof -
  have "slice p (length str) mem' = slice p (length str) mem"
    by (rule slice_eqI) (use assms in auto)
  with assms show ?thesis by (simp add: cstring_def)
qed

lemma safestrcpy_loop_ok:
  assumes "cstring mem t str" and "s + n \<le> length mem" and "0 < n"
    and "s + n \<le> t \<or> t + length str < s"
  shows "\<exists>mem'. safestrcpy_loop (int s) (int t) n mem = Inr mem'
    \<and> length mem' = length mem \<and> cstring mem' s (take (n - 1) str)
    \<and> (\<forall>i. i < s \<or> s + n \<le> i \<longrightarrow> mem' ! i = mem ! i)"
  using assms
proof (induction n arbitrary: s t str mem)
  case (Suc n)
  show ?case
  proof (cases "n = 0")
    case True
    then show ?thesis using Suc.prems(2)
      by (auto simp: store_def in_range_def cstring_Nil)
  next
    case False
    have t: "t < length mem" using Suc.prems(1) by (simp add: cstring_def)
    let ?c = "mem ! t"
    let ?m = "mem[s := ?c]"
    have ld: "load mem (int t) = Inr ?c" "store mem (int s) ?c = Inr ?m"
      using t Suc.prems(2) by (auto simp: load_def store_def in_range_def)
    show ?thesis
    proof (cases str)
      case Nil
      then have c: "?c = 0" using Suc.prems(1) by (simp add: cstring_Nil)
      have "store ?m (int s + 1) 0 = Inr (?m[Suc s := 0])"
        using Suc.prems(2) False by (simp add: store_def in_range_def nat_add_distrib)
      with ld c False have "safestrcpy_loop (int s) (int t) (Suc n) mem = Inr (?m[Suc s := 0])" by simp
      then show ?thesis using Nil c Suc.prems(2) False by (auto simp: cstring_Nil)
    next
      case (Cons a str')
      then have c: "?c = a" "a \<noteq> 0" and str': "cstring mem (Suc t) str'"
        using Suc.prems(1) by (auto simp: cstring_Cons)
      have "cstring ?m (Suc t) str'"
        by (rule cstring_cong [OF str']) (use Suc.prems(4) Cons False in \<open>auto simp: nth_list_update\<close>)
      from Suc.IH [OF this, of "Suc s"] Suc.prems(2,4) False Cons obtain mem' where
        r: "safestrcpy_loop (int (Suc s)) (int (Suc t)) n ?m = Inr mem'"
        and len: "length mem' = length mem" and cs: "cstring mem' (Suc s) (take (n - 1) str')"
        and same: "\<forall>i. i < Suc s \<or> Suc s + n \<le> i \<longrightarrow> mem' ! i = ?m ! i"
        by auto
      have "safestrcpy_loop (int s) (int t) (Suc n) mem = Inr mem'"
        using ld c False r by (simp add: add.commute)
      moreover have "take (Suc n - 1) str = a # take (n - 1) str'" using Cons False by (cases n) auto
      moreover have "mem' ! s = a" using same c(1) Suc.prems(2) by (auto simp: nth_list_update)
      ultimately show ?thesis using len cs same c(2) Suc.prems(2)
        by (auto simp: cstring_Cons nth_list_update)
    qed
  qed
qed simp

text \<open>\<open>safestrcpy\<close> with room for \<open>n\<close> bytes leaves a nul-terminated copy of at most \<open>n - 1\<close>
  bytes of the string, and touches nothing outside those \<open>n\<close> bytes.\<close>

theorem safestrcpy_ok:
  assumes "cstring mem t str" and "s + n \<le> length mem" and "0 < n"
    and "s + n \<le> t \<or> t + length str < s"
  shows "\<exists>mem'. safestrcpy (int s) (int t) (int n) mem = Inr mem'
    \<and> length mem' = length mem \<and> cstring mem' s (take (n - 1) str)
    \<and> (\<forall>i. i < s \<or> s + n \<le> i \<longrightarrow> mem' ! i = mem ! i)"
  using safestrcpy_loop_ok [OF assms] assms(3) by (simp add: safestrcpy_def)

theorem safestrcpy_ok_witness:
  "\<exists>mem'. safestrcpy 0 4 3 [9, 9, 9, 9, 97, 98, 99, 0] = Inr mem' \<and> cstring mem' 0 [97, 98]"
proof -
  have "cstring [9, 9, 9, 9, 97, 98, 99, 0] 4 [97, 98, 99]"
    by (simp add: cstring_Cons cstring_Nil)
  from safestrcpy_ok [OF this, of 0 3] show ?thesis by (auto simp: eval_nat_numeral)
qed

text \<open>\<open>strlen\<close> and \<open>strncmp\<close> on strings.\<close>

lemma strlen_ok:
  assumes "cstring mem s str"
  shows "strlen (int s) mem = Inr (int (length str))"
proof -
  have "strlen_loop (int s) (int k) mem = Inr (int k + int (length u))"
    if "cstring mem (s + k) u" for k u
    using that
  proof (induction u arbitrary: k)
    case Nil
    then show ?case by (subst strlen_loop.simps) (simp add: cstring_Nil in_range_def nat_int_add)
  next
    case (Cons c u)
    then have "strlen_loop (int s) (int (Suc k)) mem = Inr (int (Suc k) + int (length u))"
      by (intro Cons.IH) (simp add: cstring_Cons)
    with Cons.prems show ?case
      by (subst strlen_loop.simps) (simp add: cstring_Cons in_range_def nat_int_add add.commute)
  qed
  from this [of 0] assms show ?thesis by (simp add: strlen_def)
qed

text \<open>\<open>strncmp\<close> of two strings is 0 exactly when their first \<open>n\<close> bytes agree.\<close>

theorem strncmp_zero_iff:
  assumes "cstring mem p s" and "cstring mem q t"
  shows "\<exists>v. strncmp (int p) (int q) n mem = Inr v \<and> (v = 0 \<longleftrightarrow> take n s = take n t)"
  using assms
proof (induction n arbitrary: p q s t)
  case (Suc n)
  have pq: "p < length mem" "q < length mem" using Suc.prems by (auto simp: cstring_def)
  let ?a = "mem ! p" and ?b = "mem ! q"
  have e: "strncmp (int p) (int q) (Suc n) mem =
      (if ?a \<noteq> 0 \<and> ?a = ?b then strncmp (int (Suc p)) (int (Suc q)) n mem else Inr (uint ?a - uint ?b))"
    using pq by (simp add: load_def in_range_def add.commute)
  have a: "?a = 0 \<longleftrightarrow> s = []" using Suc.prems(1) by (cases s) (auto simp: cstring_Nil cstring_Cons)
  have b: "?b = 0 \<longleftrightarrow> t = []" using Suc.prems(2) by (cases t) (auto simp: cstring_Nil cstring_Cons)
  show ?case
  proof (cases "?a \<noteq> 0 \<and> ?a = ?b")
    case True
    then obtain c s' t' where st: "s = c # s'" "t = c # t'"
      using a b Suc.prems by (cases s; cases t) (auto simp: cstring_Cons)
    from Suc.IH [of "Suc p" s' "Suc q" t'] Suc.prems st True e show ?thesis by (auto simp: cstring_Cons)
  next
    case False
    have "take (Suc n) s = take (Suc n) t \<longleftrightarrow> ?a = ?b"
      using False a b Suc.prems by (cases s; cases t) (auto simp: cstring_Cons cstring_Nil)
    moreover have "uint ?a - uint ?b = 0 \<longleftrightarrow> ?a = ?b" by (simp add: word_uint_eq_iff)
    moreover have "strncmp (int p) (int q) (Suc n) mem = Inr (uint ?a - uint ?b)"
      by (simp only: e if_not_P [OF False])
    ultimately show ?thesis by blast
  qed
qed simp

theorem strncmp_zero_iff_witness:
  "\<exists>v. strncmp 0 3 1 [97, 98, 0, 97, 99, 0] = Inr v \<and> v = 0"
proof -
  have "cstring [97, 98, 0, 97, 99, 0] 0 [97, 98]" "cstring [97, 98, 0, 97, 99, 0] 3 [97, 99]"
    by (simp_all add: cstring_Cons cstring_Nil)
  from strncmp_zero_iff [OF this, of 1] show ?thesis by auto
qed

end
