(* ===== verification/Grep.thy ===== *)
theory Grep
  imports Prelude
begin

text \<open>
  The \<open>grep\<close> program (\<open>grep.c\<close>): the matcher of Kernighan and Pike, the loop that cuts the input
  into lines in a buffer of 1024 bytes, and \<open>main\<close>.  A string is the list of its bytes before
  the nul, so a pointer into it is a suffix.  Input comes in pieces: one \<open>read\<close> returns bytes of
  one piece, as a pipe or the console would deliver them; a file is a single piece.
\<close>

section \<open>The matcher\<close>

abbreviation (input) STAR :: u8 where "STAR \<equiv> 42"
abbreviation (input) DOT :: u8 where "DOT \<equiv> 46"
abbreviation (input) DOLLAR :: u8 where "DOLLAR \<equiv> 36"
abbreviation (input) CARET :: u8 where "CARET \<equiv> 94"
abbreviation (input) NEWLINE :: u8 where "NEWLINE \<equiv> 10"

function matchhere :: "u8 list \<Rightarrow> u8 list \<Rightarrow> bool"
  and matchstar :: "u8 \<Rightarrow> u8 list \<Rightarrow> u8 list \<Rightarrow> bool" where
  "matchhere re text =
     (case re of
        [] \<Rightarrow> True
      | c # re' \<Rightarrow>
          if re' \<noteq> [] \<and> hd re' = STAR then matchstar c (tl re') text
          else if c = DOLLAR \<and> re' = [] then text = []
          else if text \<noteq> [] \<and> (c = DOT \<or> c = hd text) then matchhere re' (tl text)
          else False)"
| "matchstar c re text =
     (if matchhere re text then True
      else if text \<noteq> [] \<and> (hd text = c \<or> c = DOT) then matchstar c re (tl text)
      else False)"
  by pat_completeness auto
termination
  by (relation "measures [\<lambda>x. case x of Inl (re, text) \<Rightarrow> 2 * length re | Inr (c, re, text) \<Rightarrow> 2 * length re + 1,
                          \<lambda>x. case x of Inl (re, text) \<Rightarrow> length text | Inr (c, re, text) \<Rightarrow> length text]")
     (auto simp: neq_Nil_conv)

declare matchhere.simps [simp del] matchstar.simps [simp del]

function match_from :: "u8 list \<Rightarrow> u8 list \<Rightarrow> bool" where
  "match_from re text =
     (if matchhere re text then True else if text \<noteq> [] then match_from re (tl text) else False)"
  by pat_completeness auto
termination
  by (relation "measure (\<lambda>(re, text). length text)") auto

declare match_from.simps [simp del]

definition grep_match :: "u8 list \<Rightarrow> u8 list \<Rightarrow> bool" where
  "grep_match re text =
     (if re \<noteq> [] \<and> hd re = CARET then matchhere (tl re) text else match_from re text)"

section \<open>The lines\<close>

text \<open>One \<open>read\<close> of at most \<open>n\<close> bytes.\<close>

fun read_fd :: "nat \<Rightarrow> u8 list list \<Rightarrow> u8 list \<times> u8 list list" where
  "read_fd n [] = ([], [])"
| "read_fd n (p # ps) = (if length p \<le> n then (p, ps) else (take n p, drop n p # ps))"

lemma read_fd_shrinks:
  "read_fd n input = (bytes, input') \<Longrightarrow> bytes \<noteq> [] \<Longrightarrow>
   sum_list (map length input') < sum_list (map length input)"
  by (cases input) (auto split: if_splits)

text \<open>
  The inner loop: \<open>strchr\<close> finds the next newline in front of the next nul (there is one behind
  the data), the line in front of it is matched and written.  The result is the text behind
  the last newline, the output, and whether a newline was found.
\<close>

function grep_lines :: "u8 list \<Rightarrow> u8 list \<Rightarrow> u8 list \<Rightarrow> bool \<Rightarrow> u8 list \<times> u8 list \<times> bool" where
  "grep_lines pattern p out found =
     (if NEWLINE \<in> set (takeWhile (\<lambda>c. c \<noteq> 0) p) then
        let line = takeWhile (\<lambda>c. c \<noteq> NEWLINE) p;
            out = (if grep_match pattern line then out @ line @ [NEWLINE] else out)
        in grep_lines pattern (drop (length line + 1) p) out True
      else (p, out, found))"
  by pat_completeness auto
termination
proof (relation "measure (\<lambda>(pattern, p, out, found). length p)", goal_cases)
  case (2 pattern p out found line out')
  then have "p \<noteq> []" by auto
  then show ?case by simp
qed simp

declare grep_lines.simps [simp del]

text \<open>
  The outer loop: \<open>buf\<close> is the part of the buffer kept from the last round (\<open>m\<close> is its length),
  and a \<open>read\<close> fills the buffer up to 1023 bytes.  Pieces are not empty: a read of nothing is the
  end of the input.  When no newline is in the buffer, \<open>m = 0\<close> drops what was read.
\<close>

function grep_loop :: "u8 list \<Rightarrow> u8 list \<Rightarrow> u8 list list \<Rightarrow> u8 list \<Rightarrow> u8 list" where
  "grep_loop pattern buf input out =
     (case read_fd (1023 - length buf) input of (bytes, input') \<Rightarrow>
        if bytes = [] then out
        else
          (case grep_lines pattern (buf @ bytes) out False of (rest, out, found) \<Rightarrow>
             grep_loop pattern (if found then rest else []) input' out))"
  by pat_completeness auto
termination
  by (relation "measure (\<lambda>(pattern, buf, input, out). sum_list (map length input))")
     (auto dest: read_fd_shrinks [OF sym])

declare grep_loop.simps [simp del]

definition grep :: "u8 list \<Rightarrow> u8 list list \<Rightarrow> u8 list" where
  "grep pattern input = grep_loop pattern [] input []"

text \<open>\<open>main\<close>: the bytes written to file 1 and to file 2.  Files are single pieces.\<close>

definition bytes_of :: "string \<Rightarrow> u8 list" where
  "bytes_of = map (\<lambda>c. word_of_nat (of_char c))"

fun grep_files :: "u8 list \<Rightarrow> u8 list list \<Rightarrow> (u8 list \<Rightarrow> u8 list option) \<Rightarrow> u8 list" where
  "grep_files pattern [] files = []"
| "grep_files pattern (name # names) files =
     (case files name of
        None \<Rightarrow> bytes_of ''grep: cannot open '' @ name @ [NEWLINE]
      | Some content \<Rightarrow>
          grep pattern (if content = [] then [] else [content]) @ grep_files pattern names files)"

definition grep_main ::
    "u8 list list \<Rightarrow> u8 list list \<Rightarrow> (u8 list \<Rightarrow> u8 list option) \<Rightarrow> u8 list \<times> u8 list" where
  "grep_main argv stdin_pieces files =
     (if length argv \<le> 1 then ([], bytes_of ''usage: grep pattern [file ...]'' @ [NEWLINE])
      else
        let pattern = argv ! 1 in
        if length argv \<le> 2 then (grep pattern stdin_pieces, [])
        else (grep_files pattern (drop 2 argv) files, []))"

section \<open>What a pattern means\<close>

datatype item = One u8 | Many u8

fun items :: "u8 list \<Rightarrow> item list \<times> bool" where
  "items [] = ([], False)"
| "items [c] = (if c = DOLLAR then ([], True) else ([One c], False))"
| "items (c # d # re) =
     (if d = STAR then (case items re of (its, dollar) \<Rightarrow> (Many c # its, dollar))
      else (case items (d # re) of (its, dollar) \<Rightarrow> (One c # its, dollar)))"

definition fits :: "u8 \<Rightarrow> u8 \<Rightarrow> bool" where
  "fits c x \<longleftrightarrow> c = DOT \<or> c = x"

fun item_language :: "item \<Rightarrow> u8 list set" where
  "item_language (One c) = {[x] | x. fits c x}"
| "item_language (Many c) = {u. \<forall>x \<in> set u. fits c x}"

fun language :: "item list \<Rightarrow> u8 list set" where
  "language [] = {[]}"
| "language (i # its) = {u @ v | u v. u \<in> item_language i \<and> v \<in> language its}"

text \<open>A prefix of the text is in the language; all of it, when the pattern ends with \<open>$\<close>.\<close>

definition starts_with :: "item list \<Rightarrow> bool \<Rightarrow> u8 list \<Rightarrow> bool" where
  "starts_with its dollar text \<longleftrightarrow>
     (\<exists>v w. text = v @ w \<and> v \<in> language its \<and> (dollar \<longrightarrow> w = []))"

lemma starts_with_Nil: "starts_with [] dollar text \<longleftrightarrow> (dollar \<longrightarrow> text = [])"
  by (auto simp: starts_with_def)

lemma starts_with_Cons:
  "starts_with (i # its) dollar t \<longleftrightarrow>
     (\<exists>u t'. t = u @ t' \<and> u \<in> item_language i \<and> starts_with its dollar t')"
proof
  assume "starts_with (i # its) dollar t"
  then obtain v w where "t = v @ w" "v \<in> language (i # its)" "dollar \<longrightarrow> w = []"
    by (auto simp only: starts_with_def)
  moreover from this(2) obtain u v' where "v = u @ v'" "u \<in> item_language i" "v' \<in> language its"
    by auto
  ultimately have "t = u @ (v' @ w) \<and> u \<in> item_language i \<and> starts_with its dollar (v' @ w)"
    unfolding starts_with_def by (metis append_assoc)
  then show "\<exists>u t'. t = u @ t' \<and> u \<in> item_language i \<and> starts_with its dollar t'" by blast
next
  assume "\<exists>u t'. t = u @ t' \<and> u \<in> item_language i \<and> starts_with its dollar t'"
  then obtain u v w where "t = (u @ v) @ w" "u \<in> item_language i" "v \<in> language its" "dollar \<longrightarrow> w = []"
    by (auto simp only: starts_with_def append_assoc)
  then show "starts_with (i # its) dollar t" unfolding starts_with_def language.simps by blast
qed

lemma starts_with_One:
  "starts_with (One c # its) dollar t \<longleftrightarrow>
     t \<noteq> [] \<and> fits c (hd t) \<and> starts_with its dollar (tl t)"
proof (cases t)
  case (Cons x t')
  have "(\<exists>u v. x # t' = u @ v \<and> (\<exists>y. u = [y] \<and> fits c y) \<and> starts_with its dollar v) \<longleftrightarrow>
      fits c x \<and> starts_with its dollar t'"
  proof
    assume "fits c x \<and> starts_with its dollar t'"
    then show "\<exists>u v. x # t' = u @ v \<and> (\<exists>y. u = [y] \<and> fits c y) \<and> starts_with its dollar v"
      by (intro exI [of _ "[x]"] exI [of _ t']) simp
  qed auto
  with Cons show ?thesis unfolding starts_with_Cons by simp
qed (simp add: starts_with_Cons)

lemma starts_with_Many:
  "starts_with (Many c # its) dollar t \<longleftrightarrow>
     starts_with its dollar t
     \<or> (t \<noteq> [] \<and> fits c (hd t) \<and> starts_with (Many c # its) dollar (tl t))"
proof (cases t)
  case Nil
  then show ?thesis unfolding starts_with_Cons by simp
next
  case (Cons x t')
  have "(\<exists>u v. x # t' = u @ v \<and> (\<forall>y \<in> set u. fits c y) \<and> starts_with its dollar v) \<longleftrightarrow>
      starts_with its dollar (x # t')
      \<or> fits c x \<and> (\<exists>u v. t' = u @ v \<and> (\<forall>y \<in> set u. fits c y) \<and> starts_with its dollar v)"
    (is "?L \<longleftrightarrow> ?R")
  proof
    assume ?L
    then obtain u v where e: "x # t' = u @ v" and u: "\<forall>y \<in> set u. fits c y"
      and v: "starts_with its dollar v" by blast
    show ?R
    proof (cases u)
      case Nil
      with e v show ?thesis by simp
    next
      case (Cons y u')
      with e u v show ?thesis by auto
    qed
  next
    assume ?R
    then show ?L
    proof
      assume "starts_with its dollar (x # t')"
      then show ?L by (intro exI [of _ "[]"] exI [of _ "x # t'"]) simp
    next
      assume r: "fits c x \<and> (\<exists>u v. t' = u @ v \<and> (\<forall>y \<in> set u. fits c y) \<and> starts_with its dollar v)"
      then obtain u v where "t' = u @ v" "\<forall>y \<in> set u. fits c y" "starts_with its dollar v" by blast
      with r show ?L by (intro exI [of _ "x # u"] exI [of _ v]) simp
    qed
  qed
  with Cons show ?thesis unfolding starts_with_Cons by simp
qed

lemma matcher_correct:
  "matchhere re text \<longleftrightarrow> starts_with (fst (items re)) (snd (items re)) text"
  "matchstar c re text \<longleftrightarrow> starts_with (Many c # fst (items re)) (snd (items re)) text"
proof (induction re "text" and c re "text" rule: matchhere_matchstar.induct)
  case (1 re t)
  show ?case
  proof (cases re)
    case Nil
    then show ?thesis by (simp add: matchhere.simps starts_with_Nil)
  next
    case (Cons c re')
    show ?thesis
    proof (cases re')
      case Nil
      then show ?thesis using 1 Cons
        by (subst matchhere.simps)
           (auto simp: starts_with_Nil starts_with_One fits_def matchhere.simps [of "[]"])
    next
      case (Cons d re'')
      then show ?thesis using 1 \<open>re = c # re'\<close>
        by (subst matchhere.simps) (auto simp: starts_with_One fits_def split: prod.splits)
    qed
  qed
next
  case (2 c re t)
  show ?case
    by (subst matchstar.simps, subst starts_with_Many) (use 2 in \<open>auto simp: fits_def\<close>)
qed

text \<open>The text a pattern with its anchors matches.\<close>

definition matches :: "u8 list \<Rightarrow> u8 list \<Rightarrow> bool" where
  "matches pattern text \<longleftrightarrow>
     (let anchored = (pattern \<noteq> [] \<and> hd pattern = CARET);
          (its, dollar) = items (if anchored then tl pattern else pattern)
      in \<exists>u v w. text = u @ v @ w \<and> v \<in> language its \<and> (anchored \<longrightarrow> u = []) \<and> (dollar \<longrightarrow> w = []))"

lemma match_from_iff: "match_from re text \<longleftrightarrow> (\<exists>u t. text = u @ t \<and> matchhere re t)"
proof (induction re "text" rule: match_from.induct)
  case (1 re t)
  show ?case
  proof (cases "matchhere re t")
    case True
    then have "match_from re t" by (subst match_from.simps) simp
    moreover have "t = [] @ t" by simp
    ultimately show ?thesis using True by blast
  next
    case False
    have "(\<exists>u v. t = u @ v \<and> matchhere re v) \<longleftrightarrow>
        (t \<noteq> [] \<and> (\<exists>u v. tl t = u @ v \<and> matchhere re v))"
    proof (cases t)
      case Nil
      with False show ?thesis by simp
    next
      case (Cons x t')
      have "(\<exists>u v. x # t' = u @ v \<and> matchhere re v) \<longleftrightarrow>
          matchhere re (x # t') \<or> (\<exists>u v. t' = u @ v \<and> matchhere re v)"
        unfolding Cons_eq_append_conv by blast
      with False Cons show ?thesis by simp
    qed
    with False 1 show ?thesis by (subst match_from.simps) auto
  qed
qed

lemma grep_match_correct: "grep_match pattern text \<longleftrightarrow> matches pattern text"
  by (auto simp: grep_match_def matches_def match_from_iff matcher_correct starts_with_def Let_def
      split: prod.splits)

text \<open>C21: The matcher accepts a line exactly when some part of it is in the language of the
  pattern, starting at the front of the line if the pattern starts with \<open>^\<close> and ending at its end
  if the pattern ends with \<open>$\<close>; it always ends.\<close>

theorem grep_matcher_language: "grep_match pattern text \<longleftrightarrow> matches pattern text"
  by (rule grep_match_correct)

section \<open>The lines of a file\<close>

text \<open>The complete lines of a text, and what follows the last newline.\<close>

fun cut :: "u8 list \<Rightarrow> u8 list \<Rightarrow> u8 list list \<times> u8 list" where
  "cut acc [] = ([], acc)"
| "cut acc (c # cs) =
     (if c = NEWLINE then (case cut [] cs of (ls, r) \<Rightarrow> (acc # ls, r)) else cut (acc @ [c]) cs)"

definition lines :: "u8 list \<Rightarrow> u8 list list" where
  "lines t = fst (cut [] t)"

definition unfinished :: "u8 list \<Rightarrow> u8 list" where
  "unfinished t = snd (cut [] t)"

definition select_lines :: "u8 list \<Rightarrow> u8 list list \<Rightarrow> u8 list" where
  "select_lines pattern ls = concat (map (\<lambda>l. l @ [NEWLINE]) (filter (matches pattern) ls))"

lemma cut_append:
  "cut acc (p @ q) = (fst (cut acc p) @ fst (cut (snd (cut acc p)) q), snd (cut (snd (cut acc p)) q))"
  by (induction acc p rule: cut.induct) (auto split: prod.splits)

lemma cut_no_newline: "NEWLINE \<notin> set p \<Longrightarrow> cut acc p = ([], acc @ p)"
  by (induction p arbitrary: acc) auto

lemma cut_acc: "NEWLINE \<notin> set acc \<Longrightarrow> cut acc p = cut [] (acc @ p)"
  by (simp add: cut_append cut_no_newline)

lemma unfinished_no_newline: "NEWLINE \<notin> set acc \<Longrightarrow> NEWLINE \<notin> set (snd (cut acc p))"
  by (induction acc p rule: cut.induct) (auto split: prod.splits)

lemma unfinished_subset: "set (snd (cut acc p)) \<subseteq> set acc \<union> set p"
  by (induction acc p rule: cut.induct) (auto split: prod.splits)

lemma lines_append: "lines (p @ q) = lines p @ lines (unfinished p @ q)"
  and unfinished_append: "unfinished (p @ q) = unfinished (unfinished p @ q)"
  using cut_acc [OF unfinished_no_newline [of "[]" p], of q]
  by (simp_all add: lines_def unfinished_def cut_append [of "[]" p q])

lemma cut_first_line:
  assumes "NEWLINE \<in> set p"
  shows "cut [] p = (takeWhile (\<lambda>c. c \<noteq> NEWLINE) p # lines (drop (length (takeWhile (\<lambda>c. c \<noteq> NEWLINE) p) + 1) p),
    unfinished (drop (length (takeWhile (\<lambda>c. c \<noteq> NEWLINE) p) + 1) p))"
proof -
  let ?l = "takeWhile (\<lambda>c. c \<noteq> NEWLINE) p"
  from assms obtain u v where p: "p = u @ NEWLINE # v" and u: "NEWLINE \<notin> set u"
    by (meson split_list_first)
  have "takeWhile (\<lambda>c. c \<noteq> NEWLINE) (u @ NEWLINE # v) = u @ takeWhile (\<lambda>c. c \<noteq> NEWLINE) (NEWLINE # v)"
    by (rule takeWhile_append2) (use u in auto)
  then have l: "?l = u" using p by simp
  then have d: "drop (length ?l + 1) p = v" using p by simp
  show ?thesis unfolding d l unfolding p
    by (simp add: cut_append cut_no_newline [OF u] lines_def unfinished_def split: prod.splits)
qed

lemma unfinished_shorter:
  assumes "NEWLINE \<in> set b"
  shows "length (unfinished b) < length b"
proof -
  have le: "length (snd (cut acc p)) \<le> length acc + length p" for acc p
    by (induction acc p rule: cut.induct) (auto split: prod.splits)
  let ?t = "drop (length (takeWhile (\<lambda>c. c \<noteq> NEWLINE) b) + 1) b"
  have "unfinished b = unfinished ?t" unfolding unfinished_def cut_first_line [OF assms]
    by (simp add: unfinished_def)
  then have "length (unfinished b) \<le> length ?t" using le [of "[]" ?t] by (simp add: unfinished_def)
  moreover have "length ?t < length b" using assms by (cases b) auto
  ultimately show ?thesis by (rule le_less_trans)
qed

lemma lines_first: "NEWLINE \<in> set p \<Longrightarrow> lines p \<noteq> [] \<and> hd (lines p) = takeWhile (\<lambda>c. c \<noteq> NEWLINE) p"
  by (simp add: lines_def cut_first_line)

lemma grep_lines_eq:
  assumes "0 \<notin> set p"
  shows "grep_lines pattern p out found =
    (unfinished p, out @ select_lines pattern (lines p), found \<or> NEWLINE \<in> set p)"
  using assms
proof (induction pattern p out found rule: grep_lines.induct)
  case (1 pattern p out found)
  have t: "takeWhile (\<lambda>c. c \<noteq> 0) p = p" using 1(2) by (auto simp: takeWhile_eq_all_conv)
  show ?case
  proof (cases "NEWLINE \<in> set p")
    case True
    let ?l = "takeWhile (\<lambda>c. c \<noteq> NEWLINE) p"
    let ?p = "drop (length ?l + 1) p"
    have "0 \<notin> set ?p" using 1(2) by (meson in_set_dropD)
    moreover have nl: "NEWLINE \<in> set (takeWhile (\<lambda>c. c \<noteq> 0) p)" by (subst t) (rule True)
    ultimately have "grep_lines pattern ?p (if grep_match pattern ?l then out @ ?l @ [NEWLINE] else out) True
        = (unfinished ?p, (if grep_match pattern ?l then out @ ?l @ [NEWLINE] else out)
            @ select_lines pattern (lines ?p), True)"
      using 1(1) by simp
    moreover have "lines p = ?l # lines ?p" "unfinished p = unfinished ?p"
      unfolding lines_def unfinished_def cut_first_line [OF True] by (simp_all add: lines_def unfinished_def)
    moreover have "grep_lines pattern p out found = grep_lines pattern ?p
        (if grep_match pattern ?l then out @ ?l @ [NEWLINE] else out) True"
      by (subst grep_lines.simps) (simp only: nl if_True Let_def)
    ultimately show ?thesis using True by (simp add: select_lines_def grep_match_correct)
  next
    case False
    then have nl: "NEWLINE \<notin> set (takeWhile (\<lambda>c. c \<noteq> 0) p)" by (subst t)
    have "grep_lines pattern p out found = (p, out, found)"
      by (subst grep_lines.simps) (simp only: nl if_False)
    with False show ?thesis
      by (simp add: lines_def unfinished_def cut_no_newline select_lines_def)
  qed
qed

definition short_lines :: "u8 list \<Rightarrow> bool" where
  "short_lines t \<longleftrightarrow> (\<forall>l \<in> set (lines t). length l < 1023) \<and> length (unfinished t) < 1023"

lemma grep_loop_file:
  assumes "0 \<notin> set buf" and "0 \<notin> set c" and "NEWLINE \<notin> set buf" and "length buf < 1023"
    and "short_lines (buf @ c)"
  shows "grep_loop pattern buf (if c = [] then [] else [c]) out
    = out @ select_lines pattern (lines (buf @ c))"
  using assms
proof (induction "length c" arbitrary: buf c out rule: less_induct)
  case less
  show ?case
  proof (cases "c = []")
    case True
    then show ?thesis using less.prems(3)
      by (subst grep_loop.simps) (simp add: lines_def cut_no_newline select_lines_def)
  next
    case ne: False
    let ?n = "1023 - length buf"
    show ?thesis
    proof (cases "length c \<le> ?n")
      case True
      have z: "0 \<notin> set (buf @ c)" using less.prems by simp
      have e: "grep_loop pattern x [] out' = out'" for x out' by (subst grep_loop.simps) simp
      show ?thesis using ne True
        by (subst grep_loop.simps) (simp add: grep_lines_eq [OF z] e)
    next
      case False
      let ?b = "buf @ take ?n c" and ?c = "drop ?n c"
      have z: "0 \<notin> set ?b" using less.prems by (auto dest: in_set_takeD)
      have nl: "NEWLINE \<in> set ?b"
      proof (rule ccontr)
        assume n: "NEWLINE \<notin> set ?b"
        have bc: "buf @ c = ?b @ ?c" by simp
        have len: "length ?b = 1023" using False less.prems(4) by simp
        show False
        proof (cases "NEWLINE \<in> set (buf @ c)")
          case True
          have "takeWhile (\<lambda>x. x \<noteq> NEWLINE) (?b @ ?c) = ?b @ takeWhile (\<lambda>x. x \<noteq> NEWLINE) ?c"
            by (rule takeWhile_append2) (use n in auto)
          then have "hd (lines (buf @ c)) = ?b @ takeWhile (\<lambda>x. x \<noteq> NEWLINE) ?c"
            using conjunct2 [OF lines_first [OF True]] unfolding bc by (rule trans [rotated])
          then have "1023 \<le> length (hd (lines (buf @ c)))" using len by simp
          moreover have "hd (lines (buf @ c)) \<in> set (lines (buf @ c))"
            using conjunct1 [OF lines_first [OF True]] by (rule hd_in_set)
          ultimately show False using less.prems(5) by (auto simp: short_lines_def)
        next
          case no: False
          have "length (unfinished (buf @ c)) = length (buf @ c)"
            using cut_no_newline [OF no, of "[]"] by (simp add: unfinished_def)
          then have "length buf + length c < 1023" using less.prems(5) by (simp add: short_lines_def)
          then have "length c \<le> 1023 - length buf" by arith
          with False show False by blast
        qed
      qed
      let ?r = "unfinished ?b"
      have cut: "lines (buf @ c) = lines ?b @ lines (?r @ ?c)" "unfinished (buf @ c) = unfinished (?r @ ?c)"
        using lines_append [of ?b ?c] unfinished_append [of ?b ?c] by simp_all
      have "length ?c < length c" using ne less.prems(4) by (cases c) auto
      moreover have "0 \<notin> set ?r" using unfinished_subset [of "[]" ?b] z by (auto simp: unfinished_def)
      moreover have "0 \<notin> set ?c" using less.prems(2) by (meson in_set_dropD)
      moreover have "NEWLINE \<notin> set ?r" using unfinished_no_newline [of "[]" ?b] by (simp add: unfinished_def)
      moreover have "length ?r < 1023"
        using unfinished_shorter [OF nl] False less.prems(4) by simp
      moreover have "short_lines (?r @ ?c)"
        using less.prems(5) cut by (simp add: short_lines_def)
      ultimately have IH: "grep_loop pattern ?r (if ?c = [] then [] else [?c]) (out @ select_lines pattern (lines ?b))
          = (out @ select_lines pattern (lines ?b)) @ select_lines pattern (lines (?r @ ?c))"
        by (rule less.hyps)
      have "read_fd ?n [c] = (take ?n c, [?c])" using False by simp
      moreover have "take ?n c \<noteq> []" using ne less.prems(4) by simp
      moreover have "?c \<noteq> []" using False by simp
      ultimately have "grep_loop pattern buf [c] out
          = grep_loop pattern ?r [?c] (out @ select_lines pattern (lines ?b))"
        using nl by (subst grep_loop.simps) (simp add: grep_lines_eq [OF z])
      with IH \<open>?c \<noteq> []\<close> ne cut(1) show ?thesis by (simp add: select_lines_def)
    qed
  qed
qed

text \<open>On a file without nul bytes whose lines are shorter than 1023 bytes, \<open>grep\<close> ends and
  writes exactly the complete lines that the pattern matches, in order, whatever the size of the
  file; a last line without a newline is not written.\<close>

theorem grep_file_lines:
  assumes "0 \<notin> set content" and "short_lines content" and "content \<noteq> []"
  shows "grep pattern [content]
    = concat (map (\<lambda>l. l @ [NEWLINE]) (filter (matches pattern) (lines content)))"
  using grep_loop_file [of "[]" content pattern "[]"] assms
  by (simp add: grep_def select_lines_def)

theorem grep_file_lines_witness: "grep [97, 42, 98, 36] [[97, 97, 98, 10, 99, 10]] = [97, 97, 98, 10]"
proof -
  have m: "matches [97, 42, 98, 36] [97, 97, 98]" "\<not> matches [97, 42, 98, 36] [99]"
    unfolding grep_match_correct [symmetric]
    by (simp_all add: grep_match_def match_from.simps matchhere.simps matchstar.simps)
  have l: "lines [97, 97, 98, 10, 99, 10] = [[97, 97, 98], [99]]"
    "short_lines [97, 97, 98, 10, 99, 10]"
    by (simp_all add: lines_def short_lines_def unfinished_def)
  from grep_file_lines [OF _ l(2), of "[97, 42, 98, 36]"] show ?thesis by (simp add: l m)
qed

text \<open>A line that reaches \<open>grep\<close> in two pieces is lost when the first piece holds no newline:
  the buffer is emptied before the rest arrives.\<close>

theorem grep_loses_split_line:
  "grep [97] [[97, 98], [99, 10]] = [] \<and> grep [97] [[97, 98, 99, 10]] = [97, 98, 99, 10]"
proof
  have m: "matches [97] [97, 98, 99]" "\<not> matches [97] [99]"
    unfolding grep_match_correct [symmetric]
    by (simp_all add: grep_match_def match_from.simps matchhere.simps)
  have e: "grep_loop pattern x [] out = out" for pattern x out by (subst grep_loop.simps) simp
  have "grep_loop [97] [] [[99, 10]] [] = []"
    by (subst grep_loop.simps) (simp add: grep_lines_eq e lines_def select_lines_def m)
  then show "grep [97] [[97, 98], [99, 10]] = []"
    unfolding grep_def
    by (subst grep_loop.simps) (simp add: grep_lines_eq lines_def unfinished_def select_lines_def)
  show "grep [97] [[97, 98, 99, 10]] = [97, 98, 99, 10]"
    unfolding grep_def
    by (subst grep_loop.simps) (simp add: grep_lines_eq e lines_def unfinished_def select_lines_def m)
qed

end
