(* ===== verification/Ring.thy ===== *)
theory Ring
  imports Prelude
begin

text \<open>
  Ring buffers with counters that only grow and wrap at \<open>2^32\<close>, as the pipe and the console
  input use them, and the locale \<open>byte_queue\<close>: what such a buffer promises, and the transfer of
  many bytes through it, proved once for its clients.
\<close>

section \<open>Counters that wrap\<close>

definition ring_pos :: "nat \<Rightarrow> u32 \<Rightarrow> nat" where
  "ring_pos n i = unat i mod n"

definition ring_contents :: "nat \<Rightarrow> 'a list \<Rightarrow> u32 \<Rightarrow> u32 \<Rightarrow> 'a list" where
  "ring_contents n buf r w = map (\<lambda>k. buf ! ring_pos n (r + of_nat k)) [0..<unat (w - r)]"

lemma length_ring_contents [simp]: "length (ring_contents n buf r w) = unat (w - r)"
  by (simp add: ring_contents_def)

lemma ring_pos_add:
  assumes "n dvd 4294967296"
  shows "ring_pos n (r + of_nat k) = (unat r + k) mod n"
proof -
  have "unat (r + of_nat k) = (unat r + k) mod 4294967296"
    by (simp add: unat_word_ariths unat_of_nat mod_simps)
  with assms show ?thesis by (simp add: ring_pos_def mod_mod_cancel)
qed

lemma mod_apart:
  fixes a k d n :: nat
  assumes "k < d" and "d < n + k"
  shows "(a + k) mod n \<noteq> (a + d) mod n"
proof
  assume "(a + k) mod n = (a + d) mod n"
  then have "n dvd (a + d) - (a + k)" by (metis mod_eq_dvd_iff_nat add_left_mono assms(1) less_imp_le)
  then have "n dvd d - k" by simp
  with assms show False by (auto dest: dvd_imp_le)
qed

lemma unat_gap: "unat (w - r) < 4294967295 \<Longrightarrow> unat (w + 1 - r) = unat (w - r :: u32) + 1"
proof -
  assume a: "unat (w - r) < 4294967295"
  define g where "g = w - r"
  have "unat (g + 1) = unat g + 1" using a by (simp add: g_def unat_word_ariths(1))
  moreover have "w + 1 - r = g + 1" by (simp add: g_def)
  ultimately show ?thesis by (simp only: g_def)
qed

lemma ring_put:
  assumes n: "n dvd 4294967296" "length buf = n" and room: "unat (w - r) < n" "n \<le> 2147483648"
  shows "ring_contents n (buf[ring_pos n w := x]) r (w + 1) = ring_contents n buf r w @ [x]"
proof -
  let ?d = "unat (w - r)"
  have w: "w = r + of_nat ?d" by simp
  have pw: "ring_pos n w = (unat r + ?d) mod n" by (subst w) (rule ring_pos_add [OF n(1)])
  have len: "unat (w + 1 - r) = ?d + 1" using room by (intro unat_gap) simp
  have "0 < n" using room by simp
  show ?thesis
  proof (rule nth_equalityI)
    fix k assume "k < length (ring_contents n (buf[ring_pos n w := x]) r (w + 1))"
    then have k: "k \<le> ?d" using len by simp
    show "ring_contents n (buf[ring_pos n w := x]) r (w + 1) ! k = (ring_contents n buf r w @ [x]) ! k"
    proof (cases "k = ?d")
      case True
      then show ?thesis using len n(2) \<open>0 < n\<close>
        by (simp add: ring_contents_def nth_append ring_pos_add [OF n(1)] pw del: upt_Suc)
    next
      case False
      with k have "k < ?d" by simp
      then have "ring_pos n (r + of_nat k) \<noteq> ring_pos n w"
        unfolding pw ring_pos_add [OF n(1)] by (rule mod_apart) (use room in simp)
      with \<open>k < ?d\<close> show ?thesis using len by (simp add: ring_contents_def nth_append del: upt_Suc)
    qed
  qed (simp add: len)
qed

lemma ring_get:
  assumes "r \<noteq> w"
  shows "ring_contents n buf r w = buf ! ring_pos n r # ring_contents n buf (r + 1) w"
proof -
  have pos: "0 < unat (w - r)" using assms by (simp add: unat_gt_0)
  have "w - r \<noteq> 0" using assms by simp
  then have "unat (w - r - 1) = unat (w - r) - 1" by (rule unat_minus_one)
  moreover have "w - (r + 1) = w - r - 1" by simp
  ultimately have "unat (w - (r + 1)) = unat (w - r) - 1" by (simp only:)
  with pos have len: "unat (w - r) = Suc (unat (w - (r + 1)))" by simp
  show ?thesis
    unfolding ring_contents_def len
    by (simp add: upt_conv_Cons map_Suc_upt [symmetric] comp_def add.assoc del: upt_Suc)
qed

lemma ring_empty: "ring_contents n buf r w = [] \<longleftrightarrow> r = w"
proof -
  have "unat (w - r) = 0 \<longleftrightarrow> w - r = 0" by (rule unsigned_eq_0_iff)
  then show ?thesis by (auto simp: ring_contents_def)
qed

section \<open>The contract of a queue\<close>

locale byte_queue =
  fixes inv :: "'s \<Rightarrow> bool" and contents :: "'s \<Rightarrow> 'a list" and cap :: nat
    and put :: "'a \<Rightarrow> 's \<Rightarrow> 's" and get :: "'s \<Rightarrow> 'a \<times> 's"
    and is_full :: "'s \<Rightarrow> bool" and is_empty :: "'s \<Rightarrow> bool"
  assumes put: "inv s \<Longrightarrow> \<not> is_full s \<Longrightarrow> inv (put x s) \<and> contents (put x s) = contents s @ [x]"
    and get: "inv s \<Longrightarrow> \<not> is_empty s \<Longrightarrow>
      inv (snd (get s)) \<and> contents s = fst (get s) # contents (snd (get s))"
    and full: "inv s \<Longrightarrow> is_full s \<longleftrightarrow> length (contents s) = cap"
    and empty: "inv s \<Longrightarrow> is_empty s \<longleftrightarrow> contents s = []"
    and bounded: "inv s \<Longrightarrow> length (contents s) \<le> cap"
begin

text \<open>Put bytes in until the queue is full; take bytes out until it is empty.\<close>

fun put_many :: "'a list \<Rightarrow> 's \<Rightarrow> 'a list \<times> 's" where
  "put_many [] s = ([], s)"
| "put_many (x # xs) s = (if is_full s then (x # xs, s) else put_many xs (put x s))"

fun get_many :: "nat \<Rightarrow> 's \<Rightarrow> 'a list \<times> 's" where
  "get_many 0 s = ([], s)"
| "get_many (Suc n) s =
     (if is_empty s then ([], s)
      else case get s of (x, s) \<Rightarrow> case get_many n s of (xs, s) \<Rightarrow> (x # xs, s))"

lemma put_many_contents:
  assumes "inv s" and "put_many xs s = (rest, s')"
  shows "inv s' \<and> contents s @ xs = contents s' @ rest \<and> (rest \<noteq> [] \<longrightarrow> is_full s')"
  using assms
proof (induction xs arbitrary: s)
  case (Cons x xs)
  show ?case
  proof (cases "is_full s")
    case True
    with Cons.prems show ?thesis by auto
  next
    case False
    with Cons.IH [of "put x s"] Cons.prems put [OF Cons.prems(1) False, of x] show ?thesis by auto
  qed
qed simp

lemma get_many_contents:
  assumes "inv s" and "get_many n s = (xs, s')"
  shows "inv s' \<and> contents s = xs @ contents s' \<and> length xs = min n (length (contents s))"
  using assms
proof (induction n arbitrary: s xs s')
  case (Suc n)
  show ?case
  proof (cases "is_empty s")
    case True
    with Suc.prems empty show ?thesis by auto
  next
    case False
    obtain x s1 where g: "get s = (x, s1)" by (cases "get s")
    obtain ys s2 where m: "get_many n s1 = (ys, s2)" by (cases "get_many n s1")
    have 1: "inv s1" "contents s = x # contents s1" using get [OF Suc.prems(1) False] g by auto
    have 2: "xs = x # ys" "s' = s2" using Suc.prems(2) False g m by auto
    note IH = Suc.IH [OF 1(1) m]
    have "length (x # ys) = min (Suc n) (length (x # contents s1))"
      using conjunct2 [OF conjunct2 [OF IH]] by (simp only: list.size(4) min_Suc_Suc add_Suc_right add_0_right)
    with IH show ?thesis unfolding 1(2) 2 by (simp only: append_Cons)
  qed
qed simp

text \<open>What fits goes through unchanged.\<close>

lemma put_many_room:
  assumes "inv s" and "length (contents s) + length xs \<le> cap"
  shows "\<exists>s'. put_many xs s = ([], s') \<and> inv s' \<and> contents s' = contents s @ xs"
proof -
  obtain rest s' where p: "put_many xs s = (rest, s')" by (cases "put_many xs s")
  note c = put_many_contents [OF assms(1) p]
  have "rest = []"
  proof (rule ccontr)
    assume "rest \<noteq> []"
    with c full have "length (contents s') = cap" by auto
    moreover have "length (contents s) + length xs = length (contents s') + length rest"
      using c by (metis length_append)
    ultimately show False using assms(2) \<open>rest \<noteq> []\<close> by simp
  qed
  with p c show ?thesis by simp
qed

end

end
