(* ===== verification/Pipe.thy ===== *)
theory Pipe
  imports Ring
begin

text \<open>
  Pipes (\<open>pipe.c\<close>).  The lock is held throughout each stretch of code modelled here, so a call
  of \<open>pipewrite\<close> or \<open>piperead\<close> is a sequence of atomic runs: each goes on until the call returns
  or has to sleep, and the next starts where the sleep returned.  A step relation interleaves
  the runs of writers and readers in any order.
\<close>

section \<open>The pipe\<close>

definition PIPESIZE :: nat where "PIPESIZE = 512"

record pipe =
  pp_data :: "u8 list"
  pp_nread :: u32
  pp_nwrite :: u32
  pp_readopen :: bool
  pp_writeopen :: bool

text \<open>The fields \<open>pipealloc\<close> sets; the data is what the page held.\<close>

definition pipe_new :: "u8 list \<Rightarrow> pipe" where
  "pipe_new page = \<lparr>pp_data = page, pp_nread = 0, pp_nwrite = 0, pp_readopen = True, pp_writeopen = True\<rparr>"

text \<open>\<open>pipeclose\<close>; the flag says whether the page is freed.\<close>

definition pipeclose :: "bool \<Rightarrow> pipe \<Rightarrow> pipe \<times> bool" where
  "pipeclose writable p =
     (let p = (if writable then p\<lparr>pp_writeopen := False\<rparr> else p\<lparr>pp_readopen := False\<rparr>)
      in (p, \<not> pp_readopen p \<and> \<not> pp_writeopen p))"

definition pipe_put :: "u8 \<Rightarrow> pipe \<Rightarrow> pipe" where
  "pipe_put c p = p\<lparr>pp_data := (pp_data p)[unat (pp_nwrite p) mod PIPESIZE := c],
                    pp_nwrite := pp_nwrite p + 1\<rparr>"

definition pipe_get :: "pipe \<Rightarrow> u8 \<times> pipe" where
  "pipe_get p = (pp_data p ! (unat (pp_nread p) mod PIPESIZE), p\<lparr>pp_nread := pp_nread p + 1\<rparr>)"

definition pipe_full :: "pipe \<Rightarrow> bool" where
  "pipe_full p \<longleftrightarrow> pp_nwrite p = pp_nread p + of_nat PIPESIZE"

definition pipe_empty :: "pipe \<Rightarrow> bool" where
  "pipe_empty p \<longleftrightarrow> pp_nread p = pp_nwrite p"

text \<open>
  A run of \<open>pipewrite\<close> over the bytes still to be written: all written, refused (\<open>-1\<close>), or asleep
  with some bytes left.
\<close>

datatype write_result = Written | Write_error | Write_sleep "u8 list"

fun pipewrite :: "bool \<Rightarrow> u8 list \<Rightarrow> pipe \<Rightarrow> write_result \<times> pipe" where
  "pipewrite killed [] p = (Written, p)"
| "pipewrite killed (c # cs) p =
     (if pipe_full p then
        if \<not> pp_readopen p \<or> killed then (Write_error, p) else (Write_sleep (c # cs), p)
      else pipewrite killed cs (pipe_put c p))"

fun piperead_copy :: "nat \<Rightarrow> pipe \<Rightarrow> u8 list \<times> pipe" where
  "piperead_copy 0 p = ([], p)"
| "piperead_copy (Suc n) p =
     (if pipe_empty p then ([], p)
      else case pipe_get p of (c, p) \<Rightarrow> case piperead_copy n p of (cs, p) \<Rightarrow> (c # cs, p))"

datatype read_result = Got "u8 list" | Read_error | Read_sleep

definition piperead :: "bool \<Rightarrow> int \<Rightarrow> pipe \<Rightarrow> read_result \<times> pipe" where
  "piperead killed n p =
     (if pipe_empty p \<and> pp_writeopen p then (if killed then (Read_error, p) else (Read_sleep, p))
      else case piperead_copy (nat n) p of (cs, p) \<Rightarrow> (Got cs, p))"

section \<open>The queue\<close>

definition pipe_inv :: "pipe \<Rightarrow> bool" where
  "pipe_inv p \<longleftrightarrow> length (pp_data p) = PIPESIZE \<and> unat (pp_nwrite p - pp_nread p) \<le> PIPESIZE"

definition pipe_contents :: "pipe \<Rightarrow> u8 list" where
  "pipe_contents p = ring_contents PIPESIZE (pp_data p) (pp_nread p) (pp_nwrite p)"

lemma pipe_full_iff: "pipe_full p \<longleftrightarrow> unat (pp_nwrite p - pp_nread p) = PIPESIZE"
proof -
  have "pp_nwrite p = pp_nread p + 512 \<longleftrightarrow> pp_nwrite p - pp_nread p = 512"
    using diff_eq_eq [of "pp_nwrite p" "pp_nread p" 512] by (simp only: add.commute)
  also have "\<dots> \<longleftrightarrow> unat (pp_nwrite p - pp_nread p) = unat (512 :: u32)" by (rule word_unat_eq_iff)
  finally show ?thesis by (simp add: pipe_full_def PIPESIZE_def)
qed

interpretation pipe: byte_queue pipe_inv pipe_contents PIPESIZE pipe_put pipe_get pipe_full pipe_empty
proof (unfold_locales, goal_cases)
  case (1 p c)
  then have room: "unat (pp_nwrite p - pp_nread p) < PIPESIZE"
    by (simp add: pipe_inv_def pipe_full_iff)
  have "unat (pp_nwrite p + 1 - pp_nread p) = unat (pp_nwrite p - pp_nread p) + 1"
    by (rule unat_gap) (use room in \<open>simp add: PIPESIZE_def\<close>)
  then show ?case using 1 room ring_put [of PIPESIZE "pp_data p" "pp_nwrite p" "pp_nread p" c]
    by (simp add: pipe_inv_def pipe_contents_def pipe_put_def ring_pos_def PIPESIZE_def)
next
  case (2 p)
  then have ne: "pp_nread p \<noteq> pp_nwrite p" by (simp add: pipe_empty_def)
  have c: "pipe_contents p = fst (pipe_get p) # pipe_contents (snd (pipe_get p))"
    using ring_get [OF ne, of PIPESIZE "pp_data p"]
    by (simp add: pipe_contents_def pipe_get_def ring_pos_def)
  have "unat (pp_nwrite p - pp_nread p) = Suc (unat (pp_nwrite p - (pp_nread p + 1)))"
    using arg_cong [OF ring_get [OF ne, of PIPESIZE "pp_data p"], of length]
    by (simp only: length_ring_contents list.size(4) add_Suc_right add_0_right)
  then have "pipe_inv (snd (pipe_get p))" using 2(1) by (simp add: pipe_inv_def pipe_get_def)
  with c show ?case by blast
qed (simp_all add: pipe_full_iff pipe_contents_def pipe_empty_def ring_empty pipe_inv_def)

lemma pipewrite_put_many:
  "pipewrite killed cs p =
     (case pipe.put_many cs p of (rest, p') \<Rightarrow>
        (if rest = [] then Written else if \<not> pp_readopen p' \<or> killed then Write_error else Write_sleep rest, p'))"
  by (induction cs arbitrary: p) (auto split: prod.splits)

lemma piperead_copy_get_many: "piperead_copy n p = pipe.get_many n p"
  by (induction n arbitrary: p) (auto split: prod.splits)

lemma put_many_same: "pipe.put_many cs p = (rest, p') \<Longrightarrow>
    pp_readopen p' = pp_readopen p \<and> pp_writeopen p' = pp_writeopen p"
  by (induction cs arbitrary: p) (auto simp: pipe_put_def split: if_splits)

text \<open>One run of \<open>pipewrite\<close> appends a prefix of its bytes to the pipe and keeps the rest; it
  sleeps or fails only with a full pipe, and fails only without a reader or when killed.\<close>

theorem pipewrite_appends:
  assumes "pipe_inv p" and "pipewrite killed cs p = (r, p')"
  shows "pipe_inv p' \<and> (\<exists>rest. pipe_contents p @ cs = pipe_contents p' @ rest
     \<and> (r = Written \<longleftrightarrow> rest = [])
     \<and> (r \<noteq> Written \<longrightarrow> length (pipe_contents p') = PIPESIZE)
     \<and> (r = Write_error \<longleftrightarrow> rest \<noteq> [] \<and> (\<not> pp_readopen p \<or> killed))
     \<and> (\<forall>cs'. r = Write_sleep cs' \<longrightarrow> cs' = rest))"
proof -
  obtain rest p1 where m: "pipe.put_many cs p = (rest, p1)" by (cases "pipe.put_many cs p")
  have p1: "p1 = p'" and r: "r = (if rest = [] then Written
      else if \<not> pp_readopen p' \<or> killed then Write_error else Write_sleep rest)"
    using assms(2) m by (auto simp: pipewrite_put_many)
  note c = pipe.put_many_contents [OF assms(1) m]
  have "rest \<noteq> [] \<longrightarrow> length (pipe_contents p') = PIPESIZE" using c p1 pipe.full by auto
  with c p1 r put_many_same [OF m] show ?thesis by (intro conjI exI [of _ rest]) auto
qed

theorem pipewrite_appends_witness:
  "\<exists>r p'. pipewrite False [1, 2] (pipe_new (replicate 512 0)) = (r, p') \<and> pipe_inv p'"
proof -
  have i: "pipe_inv (pipe_new (replicate 512 0))" by (simp add: pipe_inv_def pipe_new_def PIPESIZE_def)
  obtain r p' where "pipewrite False [1, 2] (pipe_new (replicate 512 0)) = (r, p')" by fastforce
  with pipewrite_appends [OF i this] show ?thesis by blast
qed

section \<open>Writers and readers together\<close>

text \<open>
  The history records what was handed to the pipe and what came out.  A step is a run of a
  writer, a run of a reader, or a close of one end.
\<close>

record history =
  h_pipe :: pipe
  h_sent :: "u8 list"
  h_received :: "u8 list"

inductive pipe_step :: "history \<Rightarrow> history \<Rightarrow> bool" where
  pipe_write: "pipewrite killed cs (h_pipe h) = (r, p') \<Longrightarrow>
    rest = (case r of Write_sleep cs' \<Rightarrow> cs' | _ \<Rightarrow> []) \<Longrightarrow> r \<noteq> Write_error \<Longrightarrow>
    pipe_step h (h\<lparr>h_pipe := p', h_sent := h_sent h @ take (length cs - length rest) cs\<rparr>)"
| pipe_read: "piperead killed n (h_pipe h) = (Got cs, p') \<Longrightarrow>
    pipe_step h (h\<lparr>h_pipe := p', h_received := h_received h @ cs\<rparr>)"
| pipe_close: "pipe_step h (h\<lparr>h_pipe := fst (pipeclose writable (h_pipe h))\<rparr>)"

inductive pipe_reachable :: "history \<Rightarrow> bool" where
  start: "length page = PIPESIZE \<Longrightarrow>
    pipe_reachable \<lparr>h_pipe = pipe_new page, h_sent = [], h_received = []\<rparr>"
| step: "pipe_reachable h \<Longrightarrow> pipe_step h h' \<Longrightarrow> pipe_reachable h'"


text \<open>A pipe whose counters are about to wrap.\<close>

lemma pipe_hello_reachable:
  "\<exists>p. pipe_reachable \<lparr>h_pipe = p, h_sent = [104, 105], h_received = []\<rparr>"
proof -
  let ?h = "\<lparr>h_pipe = pipe_new (replicate 512 0), h_sent = [], h_received = []\<rparr>"
  have r: "pipe_reachable ?h" by (rule pipe_reachable.start) (simp add: PIPESIZE_def)
  obtain p' where w: "pipewrite False [104, 105] (h_pipe ?h) = (Written, p')"
    by (simp add: pipe_new_def pipe_full_def pipe_put_def PIPESIZE_def)
  from pipe_step.pipe_write [OF w refl] have "pipe_step ?h (?h\<lparr>h_pipe := p', h_sent := [104, 105]\<rparr>)" by simp
  with r have "pipe_reachable (?h\<lparr>h_pipe := p', h_sent := [104, 105]\<rparr>)" by (rule pipe_reachable.step)
  then show ?thesis by auto
qed


text \<open>A read from a pipe without writers returns at once, with the bytes that are left, up to
  the number asked for: the end of the data is a read of none.\<close>

theorem piperead_after_close:
  assumes "pipe_inv p" and "\<not> pp_writeopen p" and "0 \<le> n"
  shows "\<exists>p'. piperead killed n p = (Got (take (nat n) (pipe_contents p)), p')
     \<and> pipe_contents p' = drop (nat n) (pipe_contents p)"
proof -
  obtain xs p' where m: "pipe.get_many (nat n) p = (xs, p')" by (cases "pipe.get_many (nat n) p")
  note g = pipe.get_many_contents [OF assms(1) m]
  have "length xs = nat n \<or> length xs \<le> nat n \<and> pipe_contents p' = []"
  proof (cases "nat n \<le> length (pipe_contents p)")
    case False
    then have l: "length xs = length (pipe_contents p)" "length xs \<le> nat n" using g by linarith+
    have "length (pipe_contents p) = length xs + length (pipe_contents p')"
      using arg_cong [OF conjunct1 [OF conjunct2 [OF g]], of length] by (simp only: length_append)
    with l have "length (pipe_contents p') = 0" by linarith
    with l(2) show ?thesis by simp
  qed (use conjunct2 [OF conjunct2 [OF g]] in linarith)
  then have "take (nat n) (pipe_contents p) = xs \<and> drop (nat n) (pipe_contents p) = pipe_contents p'"
    using conjunct1 [OF conjunct2 [OF g]] by auto
  with m assms(2) show ?thesis by (simp add: piperead_def piperead_copy_get_many)
qed

theorem piperead_after_close_witness:
  "\<exists>p'. piperead False 10 ((pipe_new (replicate 512 7))\<lparr>pp_writeopen := False\<rparr>) = (Got [], p')"
proof -
  let ?p = "(pipe_new (replicate 512 7))\<lparr>pp_writeopen := False\<rparr>"
  have "pipe_inv ?p" "pipe_contents ?p = []"
    by (simp_all add: pipe_inv_def pipe_new_def PIPESIZE_def pipe_contents_def ring_empty)
  with piperead_after_close [of ?p 10 False] show ?thesis by auto
qed

end
