(* ===== verification/Print.thy ===== *)
theory Print
  imports Strings
begin

text \<open>
  Formatted output: \<open>printint\<close> and \<open>cprintf\<close> of the kernel (\<open>console.c\<close>) and \<open>printf\<close> of user
  programs (\<open>printf.c\<close>).  The output is the string of characters handed to \<open>consputc\<close> or \<open>putc\<close>.
\<close>

section \<open>Numbers\<close>

definition kernel_digits :: string where "kernel_digits = ''0123456789abcdef''"
definition user_digits :: string where "user_digits = ''0123456789ABCDEF''"

text \<open>
  The digit loop, least significant digit first.  \<open>room\<close> is what is left of \<open>char buf[16]\<close>: a
  write past its end is a \<open>Fault\<close>.
\<close>

fun print_digits :: "string \<Rightarrow> u32 \<Rightarrow> nat \<Rightarrow> u32 \<Rightarrow> string res" where
  "print_digits digits base 0 x = Inl Fault"
| "print_digits digits base (Suc room) x =
     (if base = 0 then Inl Fault
      else
        let c = digits ! unat (x mod base); x = x div base in
        if x \<noteq> 0 then bindR (print_digits digits base room x) (\<lambda>buf. Inr (c # buf)) else Inr [c])"

definition printint_with :: "string \<Rightarrow> u32 \<Rightarrow> u32 \<Rightarrow> bool \<Rightarrow> string res" where
  "printint_with digits xx base sign =
     (let neg = (sign \<and> sint xx < 0); x = (if neg then - xx else xx) in
      bindR (print_digits digits base 16 x) (\<lambda>buf.
        if neg then (if length buf < 16 then Inr (rev (buf @ ''-'')) else Inl Fault)
        else Inr (rev buf)))"

definition printint :: "u32 \<Rightarrow> u32 \<Rightarrow> bool \<Rightarrow> string res" where
  "printint xx base sign = printint_with kernel_digits xx base sign"

definition user_printint :: "u32 \<Rightarrow> u32 \<Rightarrow> bool \<Rightarrow> string res" where
  "user_printint xx base sign = printint_with user_digits xx base sign"

section \<open>Formats\<close>

text \<open>
  The variable arguments: words, and pointers to strings (\<open>None\<close> for the null pointer).  Reading
  an argument that is not there, or one of the other kind, is a \<open>Fault\<close>.
\<close>

datatype parg = Word u32 | Str "string option"

definition emit :: "string \<Rightarrow> string res \<Rightarrow> string res" where
  "emit s r = bindR r (\<lambda>rest. Inr (s @ rest))"

fun next_word :: "parg list \<Rightarrow> (u32 \<times> parg list) res" where
  "next_word (Word w # args) = Inr (w, args)"
| "next_word _ = Inl Fault"

fun next_str :: "parg list \<Rightarrow> (string \<times> parg list) res" where
  "next_str (Str s # args) = Inr (case s of None \<Rightarrow> ''(null)'' | Some s \<Rightarrow> s, args)"
| "next_str _ = Inl Fault"

fun cprintf :: "string \<Rightarrow> parg list \<Rightarrow> string res" where
  "cprintf [] args = Inr []"
| "cprintf [c] args = (if c \<noteq> CHR ''%'' then Inr [c] else Inr [])"
| "cprintf (c # d # fmt) args =
     (if c \<noteq> CHR ''%'' then emit [c] (cprintf (d # fmt) args)
      else if d = CHR ''d'' then
        bindR (next_word args) (\<lambda>(w, args). bindR (printint w 10 True) (\<lambda>s. emit s (cprintf fmt args)))
      else if d = CHR ''x'' \<or> d = CHR ''p'' then
        bindR (next_word args) (\<lambda>(w, args). bindR (printint w 16 False) (\<lambda>s. emit s (cprintf fmt args)))
      else if d = CHR ''s'' then
        bindR (next_str args) (\<lambda>(s, args). emit s (cprintf fmt args))
      else if d = CHR ''%'' then emit ''%'' (cprintf fmt args)
      else emit (CHR ''%'' # [d]) (cprintf fmt args))"

text \<open>The user's \<open>printf\<close> goes through the format character by character with a state.\<close>

fun uprintf :: "bool \<Rightarrow> string \<Rightarrow> parg list \<Rightarrow> string res" where
  "uprintf pct [] args = Inr []"
| "uprintf False (c # fmt) args =
     (if c = CHR ''%'' then uprintf True fmt args else emit [c] (uprintf False fmt args))"
| "uprintf True (c # fmt) args =
     (if c = CHR ''d'' then
        bindR (next_word args) (\<lambda>(w, args). bindR (user_printint w 10 True) (\<lambda>s. emit s (uprintf False fmt args)))
      else if c = CHR ''x'' \<or> c = CHR ''p'' then
        bindR (next_word args) (\<lambda>(w, args). bindR (user_printint w 16 False) (\<lambda>s. emit s (uprintf False fmt args)))
      else if c = CHR ''s'' then
        bindR (next_str args) (\<lambda>(s, args). emit s (uprintf False fmt args))
      else if c = CHR ''c'' then
        bindR (next_word args) (\<lambda>(w, args). emit [char_of (unat w mod 256)] (uprintf False fmt args))
      else if c = CHR ''%'' then emit [c] (uprintf False fmt args)
      else emit (CHR ''%'' # [c]) (uprintf False fmt args))"

definition printf :: "string \<Rightarrow> parg list \<Rightarrow> string res" where
  "printf fmt args = uprintf False fmt args"

section \<open>What the digits denote\<close>

definition digit_value :: "char \<Rightarrow> nat" where
  "digit_value c =
     (let n = of_char c in if n \<le> 57 then n - 48 else if n \<le> 70 then n - 55 else n - 87)"

definition number :: "nat \<Rightarrow> string \<Rightarrow> nat" where
  "number base s = foldl (\<lambda>n c. n * base + digit_value c) 0 s"

definition signed_number :: "string \<Rightarrow> int" where
  "signed_number s = (case s of CHR ''-'' # t \<Rightarrow> - int (number 10 t) | _ \<Rightarrow> int (number 10 s))"

definition digits_ok :: "string \<Rightarrow> bool" where
  "digits_ok ds \<longleftrightarrow> (\<forall>n < 16. digit_value (ds ! n) = n) \<and> (\<forall>n < 16. ds ! n \<noteq> CHR ''-'')
     \<and> (\<forall>n < 10. of_char (ds ! n) = n + (48::nat))"

lemma all_less_list: "(\<forall>n < k. P n) \<longleftrightarrow> list_all P [0..<k]"
  by (auto simp: list_all_iff)

lemma digits_ok: "digits_ok kernel_digits" "digits_ok user_digits"
  unfolding digits_ok_def all_less_list
  by (simp_all add: upt_rec kernel_digits_def user_digits_def digit_value_def Let_def)

lemma number_snoc: "number b (s @ [c]) = number b s * b + digit_value c"
  by (simp add: number_def)

text \<open>The loop writes the digits of \<open>x\<close>, and no more than the buffer holds.\<close>

lemma print_digits_ok:
  fixes x :: u32
  assumes "digits_ok ds" and b: "2 \<le> unat b" "unat b \<le> 16" and "unat x < unat b ^ room" and "0 < room"
  shows "\<exists>buf. print_digits ds b room x = Inr buf \<and> number (unat b) (rev buf) = unat x
    \<and> buf \<noteq> [] \<and> length buf \<le> room \<and> (\<forall>c \<in> set buf. \<exists>n < unat b. c = ds ! n)"
  using assms(4,5)
proof (induction room arbitrary: x)
  case (Suc room)
  have b0: "b \<noteq> 0" using b by auto
  have m: "unat (x mod b) = unat x mod unat b" "unat (x div b) = unat x div unat b"
    by (simp_all add: unat_mod unat_div)
  have lt: "unat x mod unat b < unat b" using b by simp
  moreover have "unat x mod unat b < 16" using lt b by linarith
  ultimately have dv: "digit_value (ds ! (unat x mod unat b)) = unat x mod unat b" "unat x mod unat b < unat b"
    using assms(1) by (simp_all add: digits_ok_def)
  show ?case
  proof (cases "x div b = 0")
    case True
    then have "unat x div unat b = 0" using m(2) by simp
    then have "unat x < unat b" using b by (simp add: div_eq_0_iff)
    with True b0 dv show ?thesis by (auto simp: m number_def Let_def)
  next
    case False
    then have "unat x div unat b \<noteq> 0" using m(2) by (metis unsigned_eq_0_iff)
    then have "unat b \<le> unat x" using b by (simp add: div_eq_0_iff)
    with Suc.prems b have r: "0 < room" by (cases room) auto
    have "unat (x div b) < unat b ^ room"
      using Suc.prems b by (simp add: m less_mult_imp_div_less mult.commute)
    from Suc.IH [OF this r] obtain buf where buf: "print_digits ds b room (x div b) = Inr buf"
      "number (unat b) (rev buf) = unat (x div b)" "buf \<noteq> []" "length buf \<le> room"
      "\<forall>c \<in> set buf. \<exists>n < unat b. c = ds ! n" by blast
    have "number (unat b) (rev (ds ! (unat x mod unat b) # buf)) = unat x"
      using buf(2) dv(1) by (simp add: number_snoc m)
    with False b0 buf dv show ?thesis by (auto simp: m Let_def)
  qed
qed simp

lemma sint_cases: "sint (x :: u32) = (if uint x < 2147483648 then uint x else uint x - 4294967296)"
proof -
  have b: "0 \<le> uint x" "uint x < 4294967296" using uint_lt2p [of x] by simp_all
  have s: "sint x = (uint x + 2147483648) mod 4294967296 - 2147483648"
    using sint_uint [of x] by (simp add: signed_take_bit_eq_take_bit_shift take_bit_eq_mod)
  show ?thesis
  proof (cases "uint x < 2147483648")
    case True
    with b s show ?thesis by (simp add: mod_pos_pos_trivial)
  next
    case False
    have "(uint x + 2147483648) mod 4294967296 = (uint x + 2147483648 - 4294967296) mod 4294967296"
      by (rule minus_mod_self2 [symmetric])
    also have "\<dots> = (uint x - 2147483648) mod 4294967296" by simp
    also have "\<dots> = uint x - 2147483648" using b False by (simp add: mod_pos_pos_trivial)
    finally show ?thesis using s False by simp
  qed
qed

lemma uint_sint_nonneg: "0 \<le> sint (x :: u32) \<Longrightarrow> uint x = sint x"
  using uint_lt2p [of x] by (auto simp: sint_cases split: if_splits)

lemma uint_minus_sint_neg:
  fixes x :: u32
  assumes "sint x < 0"
  shows "uint (- x) = - sint x"
proof -
  have x: "2147483648 \<le> uint x" "uint x < 4294967296" "sint x = uint x - 4294967296"
    using assms uint_lt2p [of x] by (auto simp: sint_cases split: if_splits)
  have "uint (- x) = (- uint x) mod 4294967296" by (simp add: uint_word_ariths)
  also have "\<dots> = (4294967296 - uint x) mod 4294967296"
    using minus_mod_self2 [of "4294967296 - uint x" 4294967296] by simp
  also have "\<dots> = 4294967296 - uint x" by (rule mod_pos_pos_trivial) (use x in simp_all)
  finally show ?thesis using x by simp
qed

lemma printint_ok:
  assumes ds: "digits_ok ds" and b: "b = 10 \<or> b = 16"
  shows "\<exists>s. printint_with ds x b sign = Inr s \<and> s \<noteq> [] \<and> length s \<le> 11
    \<and> (if sign \<and> sint x < 0
        then \<exists>t. s = CHR ''-'' # t \<and> int (number (unat b) t) = - sint x
        else number (unat b) s = unat x \<and> (\<forall>c \<in> set s. \<exists>n < unat b. c = ds ! n))"
proof -
  define neg where "neg = (sign \<and> sint x < 0)"
  define y where "y = (if neg then - x else x)"
  have b': "2 \<le> unat b" "unat b \<le> 16" using b by auto
  have ten: "unat y < unat b ^ 10"
  proof -
    have "unat y < 4294967296" using unsigned_less [of y] by simp
    with b show ?thesis by auto
  qed
  obtain buf where buf: "print_digits ds b 10 y = Inr buf" "number (unat b) (rev buf) = unat y"
    "buf \<noteq> []" "length buf \<le> 10" "\<forall>c \<in> set buf. \<exists>n < unat b. c = ds ! n"
    using print_digits_ok [OF ds b' ten] by auto
  have more: "print_digits ds b room y = Inr buf \<Longrightarrow> print_digits ds b (room + k) y = Inr buf" for room k buf y
    by (induction ds b room y arbitrary: buf rule: print_digits.induct)
      (auto simp: Let_def res_simps split: if_splits)
  have "print_digits ds b 16 y = Inr buf" using more [OF buf(1), of 6] by simp
  then have p: "printint_with ds x b sign = Inr (if neg then CHR ''-'' # rev buf else rev buf)"
    using buf(4) by (simp add: printint_with_def neg_def [symmetric] y_def [symmetric])
  have "int (unat y) = - sint x" if neg
    using that uint_minus_sint_neg [of x] by (simp add: neg_def y_def)
  with buf p show ?thesis by (auto simp: neg_def [symmetric] y_def)
qed


lemma unat_10: "unat (10 :: u32) = 10"
  by simp

text \<open>\<open>printint\<close> in decimal prints every 32-bit integer, the least one included, as its signed
  value; in hexadecimal it prints the unsigned value.  It never overruns \<open>char buf[16]\<close>: at most
  eleven characters are written.\<close>

theorem printint_denotes:
  "\<exists>s h. printint x 10 True = Inr s \<and> signed_number s = sint x \<and> s \<noteq> [] \<and> length s \<le> 11
     \<and> printint x 16 False = Inr h \<and> number 16 h = unat x \<and> h \<noteq> [] \<and> length h \<le> 11"
proof -
  from printint_ok [OF digits_ok(1), of 10 x True] obtain s where
    s: "printint x 10 True = Inr s" "s \<noteq> []" "length s \<le> 11" and
    v: "if sint x < 0 then \<exists>t. s = CHR ''-'' # t \<and> int (number 10 t) = - sint x
        else number 10 s = unat x \<and> (\<forall>c \<in> set s. \<exists>n < 10. c = kernel_digits ! n)"
    unfolding printint_def by (auto simp only: unat_10 simp_thms)
  from printint_ok [OF digits_ok(1), of 16 x False] obtain h where
    h: "printint x 16 False = Inr h" "h \<noteq> []" "length h \<le> 11" "number 16 h = unat x"
    by (auto simp: printint_def)
  have "signed_number s = sint x"
  proof (cases "sint x < 0")
    case True
    with v show ?thesis by (auto simp: signed_number_def)
  next
    case False
    with v s(2) have "hd s \<noteq> CHR ''-''" using digits_ok(1) by (cases s) (auto simp: digits_ok_def)
    then have "signed_number s = int (number 10 s)"
      using s(2) by (cases s) (auto simp: signed_number_def split: char.split bool.split)
    also have "\<dots> = int (unat x)" using v False by simp
    also have "\<dots> = sint x" using False by (simp add: uint_sint_nonneg)
    finally show ?thesis .
  qed
  with s h show ?thesis by blast
qed

section \<open>Reading back\<close>

definition bytes_of_string :: "string \<Rightarrow> u8 list" where
  "bytes_of_string s = map (\<lambda>c. of_nat (of_char c)) s"

lemma foldl_number_mono:
  "v \<le> foldl (\<lambda>n c. n * 10 + digit_value c) v s"
proof (induction s arbitrary: v)
  case (Cons c s)
  have "v \<le> v * 10 + digit_value c" by simp
  also have "\<dots> \<le> foldl (\<lambda>n c. n * 10 + digit_value c) (v * 10 + digit_value c) s" by (rule Cons.IH)
  finally show ?case by simp
qed simp

lemma atoi_digits:
  assumes "digits_ok ds" and "\<forall>c \<in> set s. \<exists>n < 10. c = ds ! n"
    and "int (foldl (\<lambda>n c. n * 10 + digit_value c) v s) + 48 \<le> INT_MAX"
  shows "ulib_atoi_loop (int (length pre)) (int v) (pre @ bytes_of_string s @ [0])
    = Inr (int (foldl (\<lambda>n c. n * 10 + digit_value c) v s))"
  using assms(2,3)
proof (induction s arbitrary: v pre)
  case Nil
  have "in_range (pre @ [0]) (int (length pre)) 1" by (simp add: in_range_def)
  then show ?case by (subst ulib_atoi_loop.simps) (simp add: bytes_of_string_def nth_append)
next
  case (Cons c s)
  then obtain n where n: "n < 10" "c = ds ! n" by auto
  with assms(1) have c: "of_char c = n + (48 :: nat)" "digit_value c = n" by (simp_all add: digits_ok_def)
  let ?mem = "pre @ bytes_of_string (c # s) @ [0]"
  have len: "in_range ?mem (int (length pre)) 1" by (simp add: in_range_def bytes_of_string_def)
  have u: "uint (?mem ! nat (int (length pre))) = int n + 48"
  proof -
    have "?mem ! nat (int (length pre)) = of_nat (n + 48)"
      unfolding nat_int by (simp add: bytes_of_string_def c(1) nth_append del: of_nat_add)
    moreover have "unat (of_nat (n + 48) :: u8) = n + 48" using n(1) by (simp add: unat_of_nat del: of_nat_add)
    ultimately show ?thesis by (simp only: uint_nat of_nat_add of_nat_numeral)
  qed
  have "v * 10 + n \<le> foldl (\<lambda>n c. n * 10 + digit_value c) v (c # s)"
    using foldl_number_mono [of "v * 10 + n" s] by (simp add: c(2))
  then have m: "int v * 10 + (int n + 48) \<le> INT_MAX" using Cons.prems(2) by linarith
  have "ulib_atoi_loop (int (length pre)) (int v) ?mem = ulib_atoi_loop (int (length pre) + 1) (int v * 10 + int n) ?mem"
    using len u m n by (subst ulib_atoi_loop.simps) (simp add: Let_def)
  also have "\<dots> = ulib_atoi_loop (int (length (pre @ [of_nat (of_char c)]))) (int (v * 10 + n))
      ((pre @ [of_nat (of_char c)]) @ bytes_of_string s @ [0])"
    by (simp add: bytes_of_string_def add.commute)
  also have "\<dots> = Inr (int (foldl (\<lambda>n c. n * 10 + digit_value c) (v * 10 + n) s))"
    using Cons by (intro Cons.IH) (simp_all add: c(2))
  finally show ?case by (simp add: c(2))
qed

text \<open>C34: What \<open>printf\<close> prints with \<open>%d\<close> for a number from 0 to \<open>INT_MAX - 48\<close>, \<open>atoi\<close> reads back.
  (Above that bound \<open>n*10 + *s++ - '0'\<close> overflows before the subtraction.)\<close>

theorem print_atoi_roundtrip:
  assumes "0 \<le> sint x" and "sint x + 48 \<le> INT_MAX"
  shows "\<exists>s. printf ''%d'' [Word x] = Inr s \<and> ulib_atoi 0 (bytes_of_string s @ [0]) = Inr (sint x)"
proof -
  from printint_ok [OF digits_ok(2), of 10 x True] assms(1) obtain s where
    s: "user_printint x 10 True = Inr s" "number 10 s = unat x"
      "\<forall>c \<in> set s. \<exists>n < 10. c = user_digits ! n"
    by (auto simp: user_printint_def)
  have x: "int (unat x) = sint x" using assms(1) by (simp add: uint_sint_nonneg)
  have v: "foldl (\<lambda>n c. n * 10 + digit_value c) 0 s = unat x" using s(2) by (simp add: number_def)
  have "ulib_atoi 0 (bytes_of_string s @ [0]) = Inr (sint x)"
    using atoi_digits [OF digits_ok(2) s(3), of 0 "[]"] assms(2)
    unfolding v x by (simp add: ulib_atoi_def)
  with s(1) show ?thesis by (simp add: printf_def emit_def)
qed

theorem print_atoi_roundtrip_witness:
  "\<exists>s. printf ''%d'' [Word 2023] = Inr s \<and> ulib_atoi 0 (bytes_of_string s @ [0]) = Inr 2023"
proof -
  have s: "sint (2023 :: u32) = 2023" by simp
  have a: "0 \<le> sint (2023 :: u32)" "sint (2023 :: u32) + 48 \<le> INT_MAX" unfolding s by (simp_all add: INT_MAX_def)
  from print_atoi_roundtrip [OF a] show ?thesis unfolding s .
qed

section \<open>The two printers\<close>

text \<open>The arguments a format asks for.\<close>

fun args_fit :: "string \<Rightarrow> parg list \<Rightarrow> bool" where
  "args_fit [] args = True"
| "args_fit [c] args = True"
| "args_fit (c # d # fmt) args =
     (if c \<noteq> CHR ''%'' then args_fit (d # fmt) args
      else if d \<in> {CHR ''d'', CHR ''x'', CHR ''p''} then (case args of Word w # args \<Rightarrow> args_fit fmt args | _ \<Rightarrow> False)
      else if d = CHR ''s'' then (case args of Str s # args \<Rightarrow> args_fit fmt args | _ \<Rightarrow> False)
      else args_fit fmt args)"

fun directives :: "string \<Rightarrow> string" where
  "directives [] = []"
| "directives [c] = []"
| "directives (c # d # fmt) = (if c \<noteq> CHR ''%'' then directives (d # fmt) else d # directives fmt)"

lemma printint_total: "b = 10 \<or> b = 16 \<Longrightarrow> \<exists>s. printint x b sign = Inr s"
  using printint_ok [OF digits_ok(1)] by (metis printint_def)

lemma emit_total: "\<exists>r. m = Inr r \<Longrightarrow> \<exists>r. emit s m = Inr r"
  by (auto simp: emit_def)

lemma cprintf_total: "args_fit fmt args \<Longrightarrow> \<exists>s. cprintf fmt args = Inr s"
proof (induction fmt args rule: args_fit.induct)
  case (3 c d fmt args)
  have ds: "\<exists>s. printint w 10 True = Inr s" "\<exists>s. printint w 16 False = Inr s" for w
    by (simp_all add: printint_total)
  consider "c \<noteq> CHR ''%''" | "c = CHR ''%''" "d = CHR ''d''" | "c = CHR ''%''" "d = CHR ''x'' \<or> d = CHR ''p''"
    | "c = CHR ''%''" "d = CHR ''s''" | "c = CHR ''%''" "d \<notin> {CHR ''d'', CHR ''x'', CHR ''p'', CHR ''s''}" by auto
  then show ?case
  proof cases
    case 1
    with 3 show ?thesis by (simp add: emit_total)
  next
    case 2
    with "3.prems" obtain w rest where a: "args = Word w # rest" "args_fit fmt rest"
      by (auto split: list.splits parg.splits)
    with 2 "3.IH"(2) [of "Word w" rest w] ds(1) [of w] show ?thesis by (auto simp: emit_def)
  next
    case 3
    with "3.prems" obtain w rest where a: "args = Word w # rest" "args_fit fmt rest"
      by (auto split: list.splits parg.splits)
    with 3 "3.IH"(2) [of "Word w" rest w] ds(2) [of w] show ?thesis by (auto simp: emit_def)
  next
    case 4
    with "3.prems" obtain t rest where a: "args = Str t # rest" "args_fit fmt rest"
      by (auto split: list.splits parg.splits)
    with 4 "3.IH"(3) [of "Str t" rest t] show ?thesis by (auto simp: emit_def)
  next
    case 5
    with "3.prems" "3.IH"(4) show ?thesis by (auto simp: emit_def)
  qed
qed auto

lemma print_digits_cong:
  fixes x :: u32
  assumes "\<forall>n < unat b. ds ! n = ds' ! n"
  shows "print_digits ds b room x = print_digits ds' b room x"
proof (induction room arbitrary: x)
  case (Suc room)
  have "ds ! unat (x mod b) = ds' ! unat (x mod b)" if "b \<noteq> 0"
    using assms that by (simp add: unat_mod unat_gt_0)
  with Suc show ?case by (simp add: Let_def)
qed simp

lemma user_printint_decimal: "user_printint w 10 True = printint w 10 True"
proof -
  have "\<forall>n < 10. user_digits ! n = kernel_digits ! n"
    unfolding all_less_list by (simp add: upt_rec user_digits_def kernel_digits_def)
  then show ?thesis
    using print_digits_cong [of 10 user_digits kernel_digits]
    by (simp add: user_printint_def printint_def printint_with_def)
qed

lemma uprintf_cprintf:
  "set (directives fmt) \<inter> {CHR ''x'', CHR ''p'', CHR ''c''} = {} \<Longrightarrow> uprintf False fmt args = cprintf fmt args"
proof (induction fmt arbitrary: args rule: directives.induct)
  case (3 c d fmt)
  show ?case
  proof (cases "c = CHR ''%''")
    case True
    with 3 have IH: "uprintf False fmt args = cprintf fmt args" for args by simp
    have "d \<notin> {CHR ''x'', CHR ''p'', CHR ''c''}" using "3.prems" True by auto
    with True show ?thesis by (simp add: IH user_printint_decimal)
  next
    case False
    with 3 show ?thesis by simp
  qed
qed (auto simp: emit_def)

text \<open>\<open>cprintf\<close> returns on every format whose directives find an argument of their kind, and on such
  and all other formats without \<open>%x\<close>, \<open>%p\<close> and \<open>%c\<close> the user's \<open>printf\<close>, a state machine, prints exactly
  what the kernel's \<open>cprintf\<close> prints.\<close>

theorem printers_agree:
  "(args_fit fmt args \<longrightarrow> (\<exists>s. cprintf fmt args = Inr s))
   \<and> (set (directives fmt) \<inter> {CHR ''x'', CHR ''p'', CHR ''c''} = {} \<longrightarrow> printf fmt args = cprintf fmt args)"
  by (simp add: cprintf_total uprintf_cprintf printf_def)

theorem printers_agree_witness:
  "\<exists>s. printf ''pid %d: %s%'' [Word 7, Str (Some ''sh'')] = Inr s"
proof -
  have "args_fit ''pid %d: %s%'' [Word 7, Str (Some ''sh'')]" by simp
  moreover have "set (directives ''pid %d: %s%'') \<inter> {CHR ''x'', CHR ''p'', CHR ''c''} = {}" by simp
  ultimately show ?thesis
    using printers_agree [of "''pid %d: %s%''" "[Word 7, Str (Some ''sh'')]"] by simp
qed

end
