(* ===== verification/Console.thy ===== *)
theory Console
  imports Ring
begin

text \<open>
  The console (\<open>console.c\<close>): the screen and the serial line that \<open>consputc\<close> writes to, and the
  line discipline, which collects keys in an edit line and hands complete lines to readers.
\<close>

section \<open>The screen\<close>

definition BACKSPACE :: int where "BACKSPACE = 256"

text \<open>The CGA memory has 32 kB; the cursor position is the 16-bit register pair 14 and 15.\<close>

definition CRTCELLS :: nat where "CRTCELLS = 16384"

record cga =
  cg_pos :: nat
  cg_mem :: "u16 list"

definition cell_of :: "int \<Rightarrow> u16" where
  "cell_of c = (word_of_int c AND 255) OR 1792"

text \<open>The three cases of \<open>cgaputc\<close>: where the cursor goes, and what is written on the way.\<close>

definition cga_advance :: "int \<Rightarrow> cga \<Rightarrow> cga res" where
  "cga_advance c st =
     (let pos = cg_pos st in
      if c = 10 then Inr (st\<lparr>cg_pos := pos + (80 - pos mod 80)\<rparr>)
      else if c = BACKSPACE then Inr (if pos > 0 then st\<lparr>cg_pos := pos - 1\<rparr> else st)
      else if pos < length (cg_mem st)
      then Inr (st\<lparr>cg_pos := pos + 1, cg_mem := (cg_mem st)[pos := cell_of c]\<rparr>)
      else Inl Fault)"

text \<open>\<open>memmove\<close> of rows 1 to 23 one row up, then \<open>memset\<close> from the cursor to the end of row 23.\<close>

definition cga_scroll :: "cga \<Rightarrow> cga" where
  "cga_scroll st =
     (let mem = take (23 * 80) (drop 80 (cg_mem st)) @ drop (23 * 80) (cg_mem st);
          pos = cg_pos st - 80 in
      st\<lparr>cg_pos := pos,
         cg_mem := take pos mem @ replicate (24 * 80 - pos) 0 @ drop (pos + (24 * 80 - pos)) mem\<rparr>)"

definition cgaputc :: "int \<Rightarrow> cga \<Rightarrow> cga res" where
  "cgaputc c st =
     bindR (cga_advance c st) (\<lambda>st.
       if cg_pos st > 25 * 80 then Inl (Panic ''pos under/overflow'')
       else
         let st = (if cg_pos st div 80 \<ge> 24 then cga_scroll st else st) in
         if cg_pos st < length (cg_mem st)
         then Inr (st\<lparr>cg_mem := (cg_mem st)[cg_pos st := cell_of 32]\<rparr>)
         else Inl Fault)"

section \<open>consputc and consolewrite\<close>

record tty =
  tt_uart :: "int list"
  tt_cga :: cga
  tt_panicked :: bool

text \<open>After a panic on any processor \<open>consputc\<close> spins for ever: \<open>None\<close>.\<close>

definition consputc :: "int \<Rightarrow> tty \<Rightarrow> tty res option" where
  "consputc c t =
     (if tt_panicked t then None
      else Some (bindR (cgaputc c (tt_cga t)) (\<lambda>g.
        Inr (t\<lparr>tt_uart := tt_uart t @ (if c = BACKSPACE then [8, 32, 8] else [c]), tt_cga := g\<rparr>))))"

fun consolewrite :: "u8 list \<Rightarrow> tty \<Rightarrow> tty res option" where
  "consolewrite [] t = Some (Inr t)"
| "consolewrite (b # bs) t =
     (case consputc (uint b) t of
        None \<Rightarrow> None
      | Some (Inl e) \<Rightarrow> Some (Inl e)
      | Some (Inr t) \<Rightarrow> consolewrite bs t)"

section \<open>The line discipline\<close>

definition INPUT_BUF :: nat where "INPUT_BUF = 128"

record input =
  in_buf :: "u8 list"
  in_r :: u32
  in_w :: u32
  in_e :: u32

definition input_at :: "input \<Rightarrow> u32 \<Rightarrow> u8" where
  "input_at s i = in_buf s ! ring_pos INPUT_BUF i"

text \<open>Control-U: the loop ends, since the edit index comes down to the write index.\<close>

function kill_line :: "input \<Rightarrow> input \<times> int list" where
  "kill_line s =
     (if in_e s \<noteq> in_w s \<and> input_at s (in_e s - 1) \<noteq> 10
      then case kill_line (s\<lparr>in_e := in_e s - 1\<rparr>) of (s, out) \<Rightarrow> (s, BACKSPACE # out)
      else (s, []))"
  by pat_completeness auto
termination
proof (relation "measure (\<lambda>s. unat (in_e s - in_w s))")
  fix s :: input
  assume "in_e s \<noteq> in_w s \<and> input_at s (in_e s - 1) \<noteq> 10"
  then have ne: "in_e s - in_w s \<noteq> 0" by simp
  have "in_e s - 1 - in_w s = in_e s - in_w s - 1" by simp
  then have "unat (in_e s - 1 - in_w s) = unat (in_e s - in_w s) - 1"
    using unat_minus_one [OF ne] by (simp only:)
  moreover have "0 < unat (in_e s - in_w s)" using ne by (simp add: unat_gt_0)
  ultimately show "(s\<lparr>in_e := in_e s - 1\<rparr>, s) \<in> measure (\<lambda>s. unat (in_e s - in_w s))" by simp
qed simp

declare kill_line.simps [simp del]

text \<open>One key: the new state, what is echoed, and whether readers are woken up.\<close>

definition console_key :: "int \<Rightarrow> input \<Rightarrow> input \<times> int list \<times> bool" where
  "console_key c s =
     (if c = 16 then (s, [], False)
      else if c = 21 then (case kill_line s of (s, out) \<Rightarrow> (s, out, False))
      else if c = 8 \<or> c = 127 then
        (if in_e s \<noteq> in_w s then (s\<lparr>in_e := in_e s - 1\<rparr>, [BACKSPACE], False) else (s, [], False))
      else if c \<noteq> 0 \<and> in_e s - in_r s < of_nat INPUT_BUF then
        let c = (if c = 13 then 10 else c);
            s = s\<lparr>in_buf := (in_buf s)[ring_pos INPUT_BUF (in_e s) := word_of_int c], in_e := in_e s + 1\<rparr> in
        if c = 10 \<or> c = 4 \<or> in_e s = in_r s + of_nat INPUT_BUF
        then (s\<lparr>in_w := in_e s\<rparr>, [c], True)
        else (s, [c], False)
      else (s, [], False))"

text \<open>
  The interrupt handler over the values \<open>getc\<close> returns, up to a negative one: echo, whether
  readers are woken up, and whether the process list is printed at the end.
\<close>

fun consoleintr :: "int list \<Rightarrow> input \<Rightarrow> input \<times> int list \<times> bool \<times> bool" where
  "consoleintr [] s = (s, [], False, False)"
| "consoleintr (c # cs) s =
     (if c < 0 then (s, [], False, False)
      else case console_key c s of (s, out, woken) \<Rightarrow>
        case consoleintr cs s of (s, out', woken', dump) \<Rightarrow>
          (s, out @ out', woken \<or> woken', c = 16 \<or> dump))"

text \<open>
  \<open>consoleread\<close> until it returns or sleeps; \<open>n\<close> bytes of \<open>target\<close> are still wanted.  After a sleep
  the loop goes on with the \<open>n\<close> the outcome holds.
\<close>

datatype cread = Got "u8 list" | Killed | Sleep "u8 list" nat

fun cread_cons :: "u8 \<Rightarrow> cread \<Rightarrow> cread" where
  "cread_cons c (Got bs) = Got (c # bs)"
| "cread_cons c Killed = Killed"
| "cread_cons c (Sleep bs n) = Sleep (c # bs) n"

fun consoleread :: "bool \<Rightarrow> nat \<Rightarrow> nat \<Rightarrow> input \<Rightarrow> cread \<times> input" where
  "consoleread killed target 0 s = (Got [], s)"
| "consoleread killed target (Suc n) s =
     (if in_r s = in_w s then (if killed then (Killed, s) else (Sleep [] (Suc n), s))
      else
        let c = input_at s (in_r s); s' = s\<lparr>in_r := in_r s + 1\<rparr> in
        if c = 4 then (Got [], if Suc n < target then s'\<lparr>in_r := in_r s' - 1\<rparr> else s')
        else if c = 10 then (Got [c], s')
        else case consoleread killed target n s' of (r, s'') \<Rightarrow> (cread_cons c r, s''))"

section \<open>The screen is safe\<close>

definition cga_ok :: "cga \<Rightarrow> bool" where
  "cga_ok st \<longleftrightarrow> cg_pos st < 24 * 80 \<and> length (cg_mem st) = CRTCELLS"

text \<open>The cursor after a character, and by how many cells the screen has moved up.\<close>

definition cursor_after :: "int \<Rightarrow> nat \<Rightarrow> nat" where
  "cursor_after c pos = (if c = 10 then pos + (80 - pos mod 80) else if c = BACKSPACE then pos - 1 else pos + 1)"

definition scrolled :: "int \<Rightarrow> nat \<Rightarrow> nat" where
  "scrolled c pos = (if cursor_after c pos \<ge> 24 * 80 then 80 else 0)"

lemma length_cga_scroll:
  assumes "length (cg_mem st) = CRTCELLS" and "cg_pos st \<le> 2000"
  shows "length (cg_mem (cga_scroll st)) = CRTCELLS"
  using assms by (simp add: cga_scroll_def CRTCELLS_def Let_def)

lemma cga_scroll_cell:
  assumes l: "length (cg_mem st) = CRTCELLS" and p: "1920 \<le> cg_pos st" "cg_pos st \<le> 2000" and i: "i < cg_pos st - 80"
  shows "cg_mem (cga_scroll st) ! i = (if i < 1840 then cg_mem st ! (i + 80) else cg_mem st ! i)"
  using assms
  by (auto simp: cga_scroll_def CRTCELLS_def Let_def nth_append min_def add.commute)

lemma cursor_after_le: "pos < 1920 \<Longrightarrow> cursor_after c pos \<le> 1920"
proof (cases "c = 10")
  case True
  assume "pos < 1920"
  then have "pos div 80 < 24" by (simp add: div_less_iff_less_mult)
  moreover have "cursor_after c pos = 80 * (pos div 80 + 1)"
    using True minus_mod_eq_mult_div [of pos 80] mod_less_eq_dividend [of pos 80]
    by (simp add: cursor_after_def)
  ultimately show ?thesis by simp
qed (auto simp: cursor_after_def)

lemma cga_advance_ok:
  assumes "cga_ok st"
  shows "cga_advance c st = Inr (st\<lparr>cg_pos := cursor_after c (cg_pos st),
    cg_mem := if c = 10 \<or> c = BACKSPACE then cg_mem st else (cg_mem st)[cg_pos st := cell_of c]\<rparr>)"
  using assms by (auto simp: cga_advance_def cga_ok_def cursor_after_def CRTCELLS_def BACKSPACE_def Let_def)

lemma cgaputc_eq:
  assumes ok: "cga_ok st"
  shows "\<exists>m. cg_pos m = cursor_after c (cg_pos st) \<and> length (cg_mem m) = CRTCELLS
    \<and> (\<forall>i < cg_pos st. cg_mem m ! i = cg_mem st ! i)
    \<and> (c \<noteq> 10 \<and> c \<noteq> BACKSPACE \<longrightarrow> cg_mem m ! cg_pos st = cell_of c)
    \<and> cgaputc c st = (let m = (if cg_pos m = 1920 then cga_scroll m else m)
         in Inr (m\<lparr>cg_mem := (cg_mem m)[cg_pos m := cell_of 32]\<rparr>))"
proof -
  define m where "m = st\<lparr>cg_pos := cursor_after c (cg_pos st),
    cg_mem := if c = 10 \<or> c = BACKSPACE then cg_mem st else (cg_mem st)[cg_pos st := cell_of c]\<rparr>"
  have p: "cg_pos st < 1920" and l: "length (cg_mem st) = CRTCELLS" using ok by (simp_all add: cga_ok_def)
  have q: "cg_pos m \<le> 1920" using cursor_after_le [OF p] by (simp add: m_def)
  have lm: "length (cg_mem m) = CRTCELLS" using l by (simp add: m_def)
  have "24 \<le> cg_pos m div 80 \<longleftrightarrow> cg_pos m = 1920" using q by (auto simp: less_eq_div_iff_mult_less_eq)
  moreover have "cg_pos (cga_scroll m) < CRTCELLS" if "cg_pos m = 1920"
    using that by (simp add: cga_scroll_def CRTCELLS_def Let_def)
  moreover have "length (cg_mem (cga_scroll m)) = CRTCELLS" if "cg_pos m = 1920"
    using length_cga_scroll [OF lm] that by simp
  moreover have "cg_pos m < CRTCELLS" using q by (simp add: CRTCELLS_def)
  ultimately have "cgaputc c st = (let m = (if cg_pos m = 1920 then cga_scroll m else m)
         in Inr (m\<lparr>cg_mem := (cg_mem m)[cg_pos m := cell_of 32]\<rparr>))"
    using q lm unfolding cgaputc_def cga_advance_ok [OF ok] m_def [symmetric] by (simp add: Let_def)
  moreover have "cg_pos m = cursor_after c (cg_pos st)" by (simp add: m_def)
  moreover have "\<forall>i < cg_pos st. cg_mem m ! i = cg_mem st ! i" by (simp add: m_def)
  moreover have "c \<noteq> 10 \<and> c \<noteq> BACKSPACE \<longrightarrow> cg_mem m ! cg_pos st = cell_of c"
    using p l by (simp add: m_def CRTCELLS_def)
  ultimately show ?thesis using lm by blast
qed

lemma cgaputc_correct:
  assumes ok: "cga_ok st"
  shows "\<exists>st'. cgaputc c st = Inr st' \<and> cga_ok st'
    \<and> cg_pos st' = cursor_after c (cg_pos st) - scrolled c (cg_pos st)
    \<and> cg_mem st' ! cg_pos st' = cell_of 32
    \<and> (\<forall>i < cg_pos st'. i + scrolled c (cg_pos st) < cg_pos st \<longrightarrow>
         cg_mem st' ! i = cg_mem st ! (i + scrolled c (cg_pos st)))
    \<and> (c \<noteq> 10 \<and> c \<noteq> BACKSPACE \<longrightarrow>
         cg_mem st' ! (cg_pos st - scrolled c (cg_pos st)) = cell_of c)"
proof -
  let ?p = "cg_pos st"
  have p: "?p < 1920" using ok by (simp add: cga_ok_def)
  from cgaputc_eq [OF ok, of c] obtain m where m: "cg_pos m = cursor_after c ?p" "length (cg_mem m) = CRTCELLS"
    "\<forall>i < ?p. cg_mem m ! i = cg_mem st ! i" "c \<noteq> 10 \<and> c \<noteq> BACKSPACE \<longrightarrow> cg_mem m ! ?p = cell_of c"
    "cgaputc c st = (let m = (if cg_pos m = 1920 then cga_scroll m else m)
         in Inr (m\<lparr>cg_mem := (cg_mem m)[cg_pos m := cell_of 32]\<rparr>))" by blast
  have q: "cg_pos m \<le> 1920" using cursor_after_le [OF p] m(1) by simp
  have np: "c \<noteq> 10 \<and> c \<noteq> BACKSPACE \<Longrightarrow> cg_pos m = ?p + 1" using m(1) by (simp add: cursor_after_def)
  show ?thesis
  proof (cases "cg_pos m = 1920")
    case True
    then have s: "scrolled c ?p = 80" using m(1) by (simp add: scrolled_def)
    let ?m = "cga_scroll m"
    have pos: "cg_pos ?m = 1840" using True by (simp add: cga_scroll_def Let_def)
    have len: "length (cg_mem ?m) = CRTCELLS" using length_cga_scroll [OF m(2)] True by simp
    have cell: "cg_mem ?m ! i = cg_mem m ! (i + 80)" if "i < 1840" for i
      using cga_scroll_cell [OF m(2), of i] True that by simp
    have e: "cgaputc c st = Inr (?m\<lparr>cg_mem := (cg_mem ?m)[1840 := cell_of 32]\<rparr>)"
      using m(5) True pos by (simp add: Let_def)
    show ?thesis
      unfolding e using pos len cell m(1,3,4) True np s p by (auto simp: cga_ok_def CRTCELLS_def)
  next
    case False
    then have s: "scrolled c ?p = 0" using m(1) q by (simp add: scrolled_def)
    have e: "cgaputc c st = Inr (m\<lparr>cg_mem := (cg_mem m)[cg_pos m := cell_of 32]\<rparr>)"
      using m(5) False by (simp add: Let_def)
    show ?thesis
      unfolding e using m(1-4) q False np s by (auto simp: cga_ok_def CRTCELLS_def)
  qed
qed

text \<open>Whatever is written, \<open>cgaputc\<close> never panics and never leaves the screen memory: the cursor stays in
  the first 24 rows, the character appears where the cursor was, all other text before the cursor
  stays where it is or moves up one row with the scroll, and the cell under the cursor is blank.\<close>

theorem cgaputc_ok:
  assumes "cga_ok st"
  shows "\<exists>st'. cgaputc c st = Inr st' \<and> cga_ok st'
    \<and> cg_pos st' = cursor_after c (cg_pos st) - scrolled c (cg_pos st)
    \<and> cg_mem st' ! cg_pos st' = cell_of 32
    \<and> (\<forall>i < cg_pos st'. i + scrolled c (cg_pos st) < cg_pos st \<longrightarrow>
         cg_mem st' ! i = cg_mem st ! (i + scrolled c (cg_pos st)))
    \<and> (c \<noteq> 10 \<and> c \<noteq> BACKSPACE \<longrightarrow>
         cg_mem st' ! (cg_pos st - scrolled c (cg_pos st)) = cell_of c)"
  using assms by (rule cgaputc_correct)

text \<open>The last cell of row 23: the screen scrolls.\<close>

theorem cgaputc_ok_witness:
  "\<exists>st'. cgaputc 65 \<lparr>cg_pos = 1919, cg_mem = replicate CRTCELLS 0\<rparr> = Inr st'
    \<and> cg_pos st' = 1840 \<and> cg_mem st' ! 1839 = cell_of 65"
proof -
  let ?st = "\<lparr>cg_pos = 1919, cg_mem = replicate CRTCELLS 0\<rparr>"
  have "cga_ok ?st" by (simp add: cga_ok_def)
  from cgaputc_ok [OF this, of 65] show ?thesis
    by (auto simp: cursor_after_def scrolled_def BACKSPACE_def)
qed

lemma consolewrite_ok:
  "cga_ok (tt_cga t) \<Longrightarrow> \<not> tt_panicked t \<Longrightarrow>
     \<exists>t'. consolewrite bs t = Some (Inr t') \<and> cga_ok (tt_cga t') \<and> \<not> tt_panicked t'
       \<and> tt_uart t' = tt_uart t @ map uint bs"
proof (induction bs arbitrary: t)
  case (Cons b bs)
  from cgaputc_correct [OF Cons.prems(1), of "uint b"] obtain g where
    g: "cgaputc (uint b) (tt_cga t) = Inr g" "cga_ok g" by blast
  have "uint b \<noteq> BACKSPACE" using uint_lt2p [of b] by (simp add: BACKSPACE_def)
  with g Cons.prems Cons.IH [of "t\<lparr>tt_uart := tt_uart t @ [uint b], tt_cga := g\<rparr>"] show ?case
    by (auto simp: consputc_def)
qed simp


section \<open>What the input buffer holds\<close>

text \<open>The bytes from the read to the edit index: the complete lines first, then the line being edited.\<close>

definition pending :: "input \<Rightarrow> u8 list" where
  "pending s = ring_contents INPUT_BUF (in_buf s) (in_r s) (in_e s)"

definition committed_len :: "input \<Rightarrow> nat" where
  "committed_len s = unat (in_w s - in_r s)"

definition lines_of :: "input \<Rightarrow> u8 list" where
  "lines_of s = take (committed_len s) (pending s)"

definition edit_line :: "input \<Rightarrow> u8 list" where
  "edit_line s = drop (committed_len s) (pending s)"

definition input_inv :: "input \<Rightarrow> bool" where
  "input_inv s \<longleftrightarrow> length (in_buf s) = INPUT_BUF \<and> length (pending s) \<le> INPUT_BUF
     \<and> committed_len s \<le> length (pending s) \<and> 10 \<notin> set (edit_line s)"

lemma length_pending: "length (pending s) = unat (in_e s - in_r s)"
  by (simp add: pending_def)

lemma input_lengths:
  assumes "input_inv s"
  shows "length (lines_of s) = committed_len s" "length (edit_line s) = length (pending s) - committed_len s"
    "pending s = lines_of s @ edit_line s"
  using assms by (auto simp: input_inv_def lines_of_def edit_line_def)

lemma unat_diff1:
  fixes a b :: u32
  assumes "a \<noteq> b"
  shows "unat (a - 1 - b) = unat (a - b) - 1" "unat (a - (b + 1)) = unat (a - b) - 1" "0 < unat (a - b)"
proof -
  have ne: "a - b \<noteq> 0" using assms by simp
  have "a - 1 - b = a - b - 1" "a - (b + 1) = a - b - 1" by simp_all
  then show "unat (a - 1 - b) = unat (a - b) - 1" "unat (a - (b + 1)) = unat (a - b) - 1"
    using unat_minus_one [OF ne] by (simp_all only:)
  show "0 < unat (a - b)" using ne by (simp add: unat_gt_0)
qed

lemma edit_empty: "input_inv s \<Longrightarrow> in_e s = in_w s \<longleftrightarrow> edit_line s = []"
proof -
  assume inv: "input_inv s"
  then have "committed_len s \<le> unat (in_e s - in_r s)" by (simp add: input_inv_def length_pending)
  then have "edit_line s = [] \<longleftrightarrow> unat (in_e s - in_r s) = unat (in_w s - in_r s)"
    by (auto simp: edit_line_def length_pending committed_len_def)
  also have "\<dots> \<longleftrightarrow> in_e s - in_r s = in_w s - in_r s" by (simp add: word_unat_eq_iff)
  also have "\<dots> \<longleftrightarrow> in_e s = in_w s" by simp
  finally show ?thesis by simp
qed

text \<open>The edit index goes back by one.\<close>

lemma pending_back:
  assumes "input_inv s" and "in_e s \<noteq> in_w s"
  shows "pending (s\<lparr>in_e := in_e s - 1\<rparr>) = butlast (pending s)"
    "edit_line (s\<lparr>in_e := in_e s - 1\<rparr>) = butlast (edit_line s)"
    "lines_of (s\<lparr>in_e := in_e s - 1\<rparr>) = lines_of s"
    "input_inv (s\<lparr>in_e := in_e s - 1\<rparr>)"
    "input_at s (in_e s - 1) = last (edit_line s)"
proof -
  let ?s = "s\<lparr>in_e := in_e s - 1\<rparr>"
  have ed: "edit_line s \<noteq> []" using assms edit_empty by blast
  note len = input_lengths [OF assms(1)]
  have lt: "committed_len s < length (pending s)" using ed by (simp add: edit_line_def)
  then have ner: "in_e s \<noteq> in_r s" by (auto simp: length_pending)
  note d = unat_diff1 [OF ner]
  have upt: "[0..<unat (in_e s - in_r s)] = [0..<unat (in_e s - in_r s) - 1] @ [unat (in_e s - in_r s) - 1]"
    using d(3) by (metis Suc_diff_1 upt_Suc_append zero_le)
  show pb: "pending ?s = butlast (pending s)"
    unfolding pending_def ring_contents_def by (subst upt) (simp add: d(1))
  have c: "committed_len ?s = committed_len s" by (simp add: committed_len_def)
  show eb: "edit_line ?s = butlast (edit_line s)" by (simp add: edit_line_def c pb butlast_drop)
  show "lines_of ?s = lines_of s"
  proof -
    have "committed_len s \<le> length (pending s) - 1" using lt by simp
    then show ?thesis by (simp add: lines_of_def c pb butlast_conv_take min_def)
  qed
  show "input_inv ?s"
    using assms(1) lt eb in_set_butlastD [of 10 "edit_line s"] by (auto simp: input_inv_def pb c)
  have "last (edit_line s) = last (pending s)" using ed by (simp add: edit_line_def)
  also have "\<dots> = in_buf s ! ring_pos INPUT_BUF (in_r s + of_nat (unat (in_e s - in_r s) - 1))"
    unfolding pending_def ring_contents_def by (subst upt) simp
  also have "of_nat (unat (in_e s - in_r s) - 1) = in_e s - in_r s - 1"
    using d(3) by (simp add: of_nat_diff)
  finally show "input_at s (in_e s - 1) = last (edit_line s)" by (simp add: input_at_def)
qed

lemma kill_line_ok:
  "input_inv s \<Longrightarrow> \<exists>s'. kill_line s = (s', replicate (length (edit_line s)) BACKSPACE)
     \<and> input_inv s' \<and> lines_of s' = lines_of s \<and> edit_line s' = []"
proof (induction s rule: kill_line.induct)
  case (1 s)
  show ?case
  proof (cases "in_e s = in_w s")
    case True
    then have "edit_line s = []" using edit_empty [OF "1.prems"] by simp
    with True "1.prems" show ?thesis by (subst kill_line.simps) simp
  next
    case False
    let ?s = "s\<lparr>in_e := in_e s - 1\<rparr>"
    note b = pending_back [OF "1.prems" False]
    have ne: "edit_line s \<noteq> []" using False edit_empty [OF "1.prems"] by simp
    then have "input_at s (in_e s - 1) \<noteq> 10"
      using b(5) "1.prems" last_in_set [OF ne] unfolding input_inv_def by metis
    with False have go: "in_e s \<noteq> in_w s \<and> input_at s (in_e s - 1) \<noteq> 10" by simp
    from "1.IH" [OF go b(4)] obtain s' where s': "kill_line ?s = (s', replicate (length (edit_line ?s)) BACKSPACE)"
      "input_inv s'" "lines_of s' = lines_of ?s" "edit_line s' = []" by blast
    have "Suc (length (edit_line ?s)) = length (edit_line s)" using ne by (simp add: b(2))
    then have "BACKSPACE # replicate (length (edit_line ?s)) BACKSPACE = replicate (length (edit_line s)) BACKSPACE"
      by (metis replicate_Suc)
    with go s' b(3) show ?thesis by (subst kill_line.simps) simp
  qed
qed

text \<open>A byte goes in at the edit index.\<close>

lemma pending_put:
  fixes x :: u8
  assumes "input_inv s" and room: "length (pending s) < INPUT_BUF"
  defines "s' \<equiv> s\<lparr>in_buf := (in_buf s)[ring_pos INPUT_BUF (in_e s) := x], in_e := in_e s + 1\<rparr>"
  shows "pending s' = pending s @ [x]" "length (in_buf s') = INPUT_BUF" "committed_len s' = committed_len s"
    "lines_of s' = lines_of s" "edit_line s' = edit_line s @ [x]"
proof -
  show p: "pending s' = pending s @ [x]"
    using ring_put [of INPUT_BUF "in_buf s" "in_e s" "in_r s" x] assms
    by (simp add: pending_def input_inv_def INPUT_BUF_def s'_def)
  show "length (in_buf s') = INPUT_BUF" using assms by (simp add: input_inv_def s'_def)
  show c: "committed_len s' = committed_len s" by (simp add: committed_len_def s'_def)
  have "committed_len s \<le> length (pending s)" using assms by (simp add: input_inv_def)
  then show "lines_of s' = lines_of s" "edit_line s' = edit_line s @ [x]"
    by (simp_all add: lines_of_def edit_line_def p c)
qed

lemma commit_line:
  assumes "length (in_buf s) = INPUT_BUF" and "length (pending s) \<le> INPUT_BUF"
  shows "lines_of (s\<lparr>in_w := in_e s\<rparr>) = pending s" "edit_line (s\<lparr>in_w := in_e s\<rparr>) = []"
    "input_inv (s\<lparr>in_w := in_e s\<rparr>)"
proof -
  have "pending (s\<lparr>in_w := in_e s\<rparr>) = pending s" "committed_len (s\<lparr>in_w := in_e s\<rparr>) = length (pending s)"
    by (simp_all add: pending_def committed_len_def)
  with assms show "lines_of (s\<lparr>in_w := in_e s\<rparr>) = pending s" "edit_line (s\<lparr>in_w := in_e s\<rparr>) = []"
    "input_inv (s\<lparr>in_w := in_e s\<rparr>)"
    by (simp_all add: lines_of_def edit_line_def input_inv_def)
qed

text \<open>What a key does to the complete lines and the edit line.\<close>

definition spec_key :: "int \<Rightarrow> u8 list \<times> u8 list \<Rightarrow> u8 list \<times> u8 list" where
  "spec_key c = (\<lambda>(done, ed).
     if c = 16 then (done, ed)
     else if c = 21 then (done, [])
     else if c = 8 \<or> c = 127 then (done, butlast ed)
     else if c \<noteq> 0 \<and> length done + length ed < INPUT_BUF then
       let c = (if c = 13 then 10 else c); ed = ed @ [word_of_int c] in
       if c = 10 \<or> c = 4 \<or> length done + length ed = INPUT_BUF then (done @ ed, []) else (done, ed)
     else (done, ed))"

lemma console_key_refines:
  assumes inv: "input_inv s" and c: "0 \<le> c" "c < 256" and k: "console_key c s = (s', out, woken)"
  shows "input_inv s' \<and> (lines_of s', edit_line s') = spec_key c (lines_of s, edit_line s)"
proof -
  note len = input_lengths [OF inv]
  have full: "in_e s - in_r s < of_nat INPUT_BUF \<longleftrightarrow> length (lines_of s) + length (edit_line s) < INPUT_BUF"
    using arg_cong [OF len(3), of length]
    by (simp add: word_less_nat_alt length_pending INPUT_BUF_def)
  consider "c = 16" | "c = 21" | "c = 8 \<or> c = 127"
    | "c \<notin> {16, 21, 8, 127}" "\<not> (c \<noteq> 0 \<and> in_e s - in_r s < of_nat INPUT_BUF)"
    | "c \<notin> {16, 21, 8, 127}" "c \<noteq> 0" "in_e s - in_r s < of_nat INPUT_BUF" by auto
  then show ?thesis
  proof cases
    case 1
    with k inv show ?thesis by (simp add: console_key_def spec_key_def)
  next
    case 2
    with k kill_line_ok [OF inv] show ?thesis by (auto simp: console_key_def spec_key_def)
  next
    case 3
    show ?thesis
    proof (cases "in_e s = in_w s")
      case True
      with 3 k inv edit_empty [OF inv] show ?thesis by (auto simp: console_key_def spec_key_def)
    next
      case False
      with 3 k pending_back [OF inv False] show ?thesis by (auto simp: console_key_def spec_key_def)
    qed
  next
    case 4
    with k inv full show ?thesis by (auto simp: console_key_def spec_key_def)
  next
    case 5
    define d where "d = (if c = 13 then 10 else c)"
    define t where "t = s\<lparr>in_buf := (in_buf s)[ring_pos INPUT_BUF (in_e s) := word_of_int d], in_e := in_e s + 1\<rparr>"
    have room: "length (pending s) < INPUT_BUF" using 5 full len(3) by simp
    note t = pending_put [OF inv room, of "word_of_int d", folded t_def]
    have lt: "length (pending t) \<le> INPUT_BUF" using room by (simp add: t(1))
    note cm = commit_line [OF t(2) lt]
    have "in_e t = in_r t + of_nat INPUT_BUF \<longleftrightarrow> in_e t - in_r t = of_nat INPUT_BUF"
      by (simp add: diff_eq_eq add.commute)
    also have "\<dots> \<longleftrightarrow> length (pending t) = INPUT_BUF"
      by (simp add: word_unat_eq_iff length_pending INPUT_BUF_def)
    also have "\<dots> \<longleftrightarrow> length (lines_of s) + length (edit_line s @ [word_of_int d]) = INPUT_BUF"
      using arg_cong [OF len(3), of length] by (simp add: t(1))
    finally have e: "in_e t = in_r t + of_nat INPUT_BUF \<longleftrightarrow> \<dots>" .
    let ?b = "d = 10 \<or> d = 4 \<or> in_e t = in_r t + of_nat INPUT_BUF"
    have s': "s' = (if ?b then t\<lparr>in_w := in_e t\<rparr> else t)"
      using k 5 by (auto simp: console_key_def d_def t_def Let_def split: if_splits)
    have sp: "spec_key c (lines_of s, edit_line s)
      = (if ?b then (lines_of s @ edit_line s @ [word_of_int d], [])
         else (lines_of s, edit_line s @ [word_of_int d]))"
      using 5 full unfolding spec_key_def e by (simp add: d_def [symmetric] Let_def)
    show ?thesis
    proof (cases ?b)
      case True
      with s' sp cm t(1) len(3) show ?thesis by simp
    next
      case False
      then have d: "d \<noteq> 10" "0 \<le> d" "d < 256" using c by (auto simp: d_def)
      then have "uint (word_of_int d :: u8) = d" by (simp add: uint_word_of_int mod_pos_pos_trivial)
      with d(1) have "word_of_int d \<noteq> (10 :: u8)" by auto
      with False s' sp t lt inv show ?thesis by (auto simp: input_inv_def)
    qed
  qed
qed


section \<open>Reading\<close>

fun bytes_of :: "cread \<Rightarrow> u8 list" where
  "bytes_of (Got bs) = bs"
| "bytes_of Killed = []"
| "bytes_of (Sleep bs n) = bs"

lemma bytes_of_cons: "r \<noteq> Killed \<Longrightarrow> bytes_of (cread_cons c r) = c # bytes_of r"
  by (cases r) auto

lemma pending_get:
  assumes inv: "input_inv s" and ne: "in_r s \<noteq> in_w s"
  shows "lines_of s = input_at s (in_r s) # lines_of (s\<lparr>in_r := in_r s + 1\<rparr>)"
    "edit_line (s\<lparr>in_r := in_r s + 1\<rparr>) = edit_line s" "input_inv (s\<lparr>in_r := in_r s + 1\<rparr>)"
proof -
  let ?s = "s\<lparr>in_r := in_r s + 1\<rparr>"
  note d = unat_diff1 [OF ne [symmetric]]
  have c: "committed_len s = Suc (committed_len ?s)" using d(2,3) by (simp add: committed_len_def)
  have "0 < length (pending s)" using c inv unfolding input_inv_def by linarith
  then have "in_r s \<noteq> in_e s" by (auto simp: length_pending)
  from ring_get [OF this, of INPUT_BUF "in_buf s"]
  have p: "pending s = input_at s (in_r s) # pending ?s" by (simp add: pending_def input_at_def)
  show "lines_of s = input_at s (in_r s) # lines_of ?s" and e: "edit_line ?s = edit_line s"
    by (simp_all add: lines_of_def edit_line_def c p)
  have "length (pending s) = Suc (length (pending ?s))" by (simp only: p list.size(4) add_Suc_right add_0_right)
  then show "input_inv ?s" using inv c e by (simp add: input_inv_def)
qed

lemma consoleread_ok:
  "input_inv s \<Longrightarrow> consoleread False target n s = (r, s') \<Longrightarrow>
     input_inv s' \<and> edit_line s' = edit_line s \<and> r \<noteq> Killed \<and> length (bytes_of r) \<le> n
     \<and> (\<exists>taken. lines_of s = taken @ lines_of s' \<and> bytes_of r = filter (\<lambda>b. b \<noteq> 4) taken)
     \<and> (\<forall>bs k. r = Sleep bs k \<longrightarrow> lines_of s' = [] \<and> length bs + k = n)"
proof (induction n arbitrary: s r s')
  case (Suc n)
  let ?s = "s\<lparr>in_r := in_r s + 1\<rparr>" and ?c = "input_at s (in_r s)"
  show ?case
  proof (cases "in_r s = in_w s")
    case True
    then have "lines_of s = []" by (simp add: lines_of_def committed_len_def)
    with True Suc.prems show ?thesis by auto
  next
    case False
    note g = pending_get [OF Suc.prems(1) False]
    consider "?c = 4" | "?c = 10" | "?c \<noteq> 4" "?c \<noteq> 10" by auto
    then show ?thesis
    proof cases
      case 1
      then have r: "r = Got []" "s' = (if Suc n < target then s else ?s)"
        using Suc.prems(2) False by (auto simp: Let_def)
      show ?thesis
      proof (cases "Suc n < target")
        case True
        with r Suc.prems(1) show ?thesis by auto
      next
        case False
        then have "lines_of s = [4] @ lines_of s'" using r g(1) 1 by simp
        then show ?thesis using r g False by fastforce
      qed
    next
      case 2
      then have r: "r = Got [10]" "s' = ?s" using Suc.prems(2) False by (auto simp: Let_def)
      then have "lines_of s = [10] @ lines_of s'" using g(1) 2 by simp
      then show ?thesis using r g by fastforce
    next
      case 3
      obtain r' s'' where rec: "consoleread False target n ?s = (r', s'')"
        by (cases "consoleread False target n ?s")
      then have r: "r = cread_cons ?c r'" "s' = s''" using Suc.prems(2) False 3 by (auto simp: Let_def)
      note IH = Suc.IH [OF g(3) rec]
      then obtain taken where t: "lines_of ?s = taken @ lines_of s'" "bytes_of r' = filter (\<lambda>b. b \<noteq> 4) taken"
        using r(2) by blast
      have b: "bytes_of r = ?c # bytes_of r'" using IH by (simp add: r(1) bytes_of_cons)
      have "lines_of s = (?c # taken) @ lines_of s'" using g(1) t(1) by simp
      moreover have "bytes_of r = filter (\<lambda>b. b \<noteq> 4) (?c # taken)" using b t(2) 3 by simp
      moreover have "lines_of s' = [] \<and> length bs + k = Suc n" if "r = Sleep bs k" for bs k
        using that IH r by (cases r') auto
      moreover have "r \<noteq> Killed" using IH r(1) by (cases r') auto
      moreover have "length (bytes_of r) \<le> Suc n" using IH b by simp
      moreover have "input_inv s' \<and> edit_line s' = edit_line s" using IH g(2) r(2) by simp
      ultimately show ?thesis by blast
    qed
  qed
qed auto

text \<open>
  Keys and reads in any order: \<open>entered\<close> is what the line discipline handed over so far, \<open>got\<close> what
  readers received.
\<close>

inductive console_run :: "input \<Rightarrow> u8 list \<Rightarrow> u8 list \<Rightarrow> bool" where
  init: "length buf = INPUT_BUF \<Longrightarrow> console_run \<lparr>in_buf = buf, in_r = 0, in_w = 0, in_e = 0\<rparr> [] []"
| key: "console_run s entered got \<Longrightarrow> 0 \<le> c \<Longrightarrow> c < 256 \<Longrightarrow> console_key c s = (s', out, woken)
    \<Longrightarrow> lines_of s' = lines_of s @ new \<Longrightarrow> console_run s' (entered @ new) got"
| read: "console_run s entered got \<Longrightarrow> consoleread False target n s = (r, s')
    \<Longrightarrow> console_run s' entered (got @ bytes_of r)"

lemma spec_key_lines: "spec_key c (ls, ed) = (ls', ed') \<Longrightarrow> \<exists>new. ls' = ls @ new"
  by (auto simp: spec_key_def Let_def split: if_splits)

lemma console_run_inv:
  "console_run s entered got \<Longrightarrow>
     input_inv s \<and> got @ filter (\<lambda>b. b \<noteq> 4) (lines_of s) = filter (\<lambda>b. b \<noteq> 4) entered"
proof (induction rule: console_run.induct)
  case (init buf)
  then show ?case
    by (simp add: input_inv_def lines_of_def edit_line_def pending_def committed_len_def ring_contents_def)
next
  case (key s entered got c s' out woken new)
  then have "got @ filter (\<lambda>b. b \<noteq> 4) (lines_of s') = filter (\<lambda>b. b \<noteq> 4) (entered @ new)"
    by simp
  with key console_key_refines [of s c s' out woken] show ?case by blast
next
  case (read s entered got target n r s')
  from consoleread_ok [OF conjunct1 [OF read.IH] read.hyps(2)] obtain taken where
    t: "input_inv s'" "lines_of s = taken @ lines_of s'" "bytes_of r = filter (\<lambda>b. b \<noteq> 4) taken" by blast
  have "got @ filter (\<lambda>b. b \<noteq> 4) taken @ filter (\<lambda>b. b \<noteq> 4) (lines_of s') = filter (\<lambda>b. b \<noteq> 4) entered"
    using read.IH t(2) by simp
  with t(1,3) show ?case by simp
qed

text \<open>C33: The line discipline refines a simple editor.  A key appends to the edit line, erases its last byte, or
  empties it; newline, control-D and a full buffer hand the edit line over to readers; nothing a
  key does touches a line already handed over, and the buffer never holds more than 128 bytes.\<close>

theorem console_key_edits:
  assumes "input_inv s" and "0 \<le> c" "c < 256" and "console_key c s = (s', out, woken)"
  shows "input_inv s' \<and> (lines_of s', edit_line s') = spec_key c (lines_of s, edit_line s)
    \<and> (\<exists>new. lines_of s' = lines_of s @ new) \<and> length (lines_of s' @ edit_line s') \<le> 128"
proof -
  have r: "input_inv s' \<and> (lines_of s', edit_line s') = spec_key c (lines_of s, edit_line s)"
    using assms by (rule console_key_refines)
  moreover have "\<exists>new. lines_of s' = lines_of s @ new" using r by (metis spec_key_lines)
  moreover have "length (lines_of s' @ edit_line s') \<le> 128"
    unfolding input_lengths(3) [OF conjunct1 [OF r], symmetric]
    using r by (simp add: input_inv_def INPUT_BUF_def)
  ultimately show ?thesis by blast
qed

definition ex_input :: input where
  "ex_input = \<lparr>in_buf = replicate INPUT_BUF 0, in_r = 0, in_w = 0, in_e = 0\<rparr>"

lemma ex_input_run: "console_run ex_input [] []"
  unfolding ex_input_def by (rule console_run.init) simp

theorem console_key_edits_witness:
  "\<exists>s'. console_key 97 ex_input = (s', [97], False) \<and> edit_line s' = [97]"
proof -
  have "\<exists>s'. console_key 97 \<lparr>in_buf = buf, in_r = 0, in_w = 0, in_e = 0\<rparr> = (s', [97], False)" for buf
    by (simp add: console_key_def INPUT_BUF_def Let_def)
  then obtain s' where k: "console_key 97 ex_input = (s', [97], False)" unfolding ex_input_def by blast
  have e: "lines_of ex_input = []" "edit_line ex_input = []"
    by (simp_all add: lines_of_def edit_line_def pending_def committed_len_def ring_contents_def ex_input_def)
  from console_key_edits [OF conjunct1 [OF console_run_inv [OF ex_input_run]] _ _ k]
  have "(lines_of s', edit_line s') = spec_key 97 ([], [])" unfolding e by simp
  then have "edit_line s' = [97]" by (simp add: spec_key_def INPUT_BUF_def Let_def)
  with k show ?thesis by blast
qed



end
