(* ===== verification/Log.thy ===== *)
theory Log
  imports Prelude
begin

text \<open>
  The file system's redo log (\<open>log.c\<close>).  A disk maps block numbers to blocks of 512 bytes.  The
  buffer cache matters to the log only through the blocks it holds pinned: a clean buffer equals
  its block on disk, so the cache of the model keeps the modified blocks (\<open>B_DIRTY\<close>) alone.
  Every write to the disk is recorded in order, so that a crash is a prefix of the writes.
\<close>

section \<open>Disk, cache and log\<close>

definition BSIZE :: nat where "BSIZE = 512"
definition FSSIZE :: nat where "FSSIZE = 2000"
definition MAXOPBLOCKS :: nat where "MAXOPBLOCKS = 10"
definition LOGSIZE :: nat where "LOGSIZE = 30"

type_synonym block = "u8 list"
type_synonym disk = "nat \<Rightarrow> block"

record log =
  lg_disk :: disk
  lg_cache :: "nat \<Rightarrow> block option"
  lg_writes :: "(nat \<times> block) list"
  lg_start :: nat
  lg_size :: nat
  lg_outstanding :: int
  lg_committing :: bool
  lg_lh :: "nat list"

definition bread :: "log \<Rightarrow> nat \<Rightarrow> block" where
  "bread st b = (case lg_cache st b of Some d \<Rightarrow> d | None \<Rightarrow> lg_disk st b)"

definition bwrite :: "nat \<Rightarrow> block \<Rightarrow> log \<Rightarrow> log" where
  "bwrite b d st = st\<lparr>lg_disk := (lg_disk st)(b := d), lg_cache := (lg_cache st)(b := None),
                      lg_writes := lg_writes st @ [(b, d)]\<rparr>"

text \<open>The header block: the count and the block numbers as 32-bit integers at its front.\<close>

definition header_block :: "nat list \<Rightarrow> block \<Rightarrow> block" where
  "header_block lh old = blit 0 (concat (map (\<lambda>x. bytes_of_u32 (of_nat x)) (length lh # lh))) old"

definition word_at :: "nat \<Rightarrow> block \<Rightarrow> u32" where
  "word_at i d = u32_of_bytes (slice (4 * i) 4 d)"

text \<open>A count above \<open>LOGSIZE\<close> would overrun the header in memory; a negative one reads nothing.\<close>

definition parse_header :: "block \<Rightarrow> nat list res" where
  "parse_header d =
     (let n = sint (word_at 0 d) in
      if n > int LOGSIZE then Inl Fault
      else Inr (map (\<lambda>i. unat (word_at (i + 1) d)) [0..<nat n]))"

section \<open>The functions of log.c\<close>

definition install_trans :: "log \<Rightarrow> log" where
  "install_trans st =
     fold (\<lambda>tail st. bwrite (lg_lh st ! tail) (bread st (lg_start st + tail + 1)) st)
       [0..<length (lg_lh st)] st"

definition read_head :: "log \<Rightarrow> log res" where
  "read_head st = bindR (parse_header (bread st (lg_start st))) (\<lambda>lh. Inr (st\<lparr>lg_lh := lh\<rparr>))"

definition write_head :: "log \<Rightarrow> log" where
  "write_head st = bwrite (lg_start st) (header_block (lg_lh st) (bread st (lg_start st))) st"

definition recover_from_log :: "log \<Rightarrow> log res" where
  "recover_from_log st =
     bindR (read_head st) (\<lambda>st.
       Inr (write_head ((install_trans st)\<lparr>lg_lh := []\<rparr>)))"

text \<open>\<open>initlog\<close> after a boot: nothing is cached; the superblock gives the place of the log.\<close>

definition initlog :: "nat \<Rightarrow> nat \<Rightarrow> disk \<Rightarrow> log res" where
  "initlog logstart nlog d =
     recover_from_log \<lparr>lg_disk = d, lg_cache = (\<lambda>_. None), lg_writes = [], lg_start = logstart,
       lg_size = nlog, lg_outstanding = 0, lg_committing = False, lg_lh = []\<rparr>"

text \<open>\<open>begin_op\<close> goes on or sleeps.\<close>

definition begin_op :: "log \<Rightarrow> log option" where
  "begin_op st =
     (if lg_committing st then None
      else if int (length (lg_lh st)) + (lg_outstanding st + 1) * int MAXOPBLOCKS > int LOGSIZE then None
      else Some (st\<lparr>lg_outstanding := lg_outstanding st + 1\<rparr>))"

definition write_log :: "log \<Rightarrow> log" where
  "write_log st =
     fold (\<lambda>tail st. bwrite (lg_start st + tail + 1) (bread st (lg_lh st ! tail)) st)
       [0..<length (lg_lh st)] st"

definition commit :: "log \<Rightarrow> log" where
  "commit st =
     (if length (lg_lh st) > 0 then
        write_head ((install_trans (write_head (write_log st)))\<lparr>lg_lh := []\<rparr>)
      else st)"

definition end_op :: "log \<Rightarrow> log res" where
  "end_op st =
     (let st = st\<lparr>lg_outstanding := lg_outstanding st - 1\<rparr> in
      if lg_committing st then Inl (Panic ''log.committing'')
      else if lg_outstanding st = 0
      then Inr ((commit (st\<lparr>lg_committing := True\<rparr>))\<lparr>lg_committing := False\<rparr>)
      else Inr st)"

text \<open>\<open>log_write\<close> of block \<open>b\<close> with its modified contents \<open>d\<close>.\<close>

definition log_write :: "nat \<Rightarrow> block \<Rightarrow> log \<Rightarrow> log res" where
  "log_write b d st =
     (if length (lg_lh st) \<ge> LOGSIZE \<or> int (length (lg_lh st)) \<ge> int (lg_size st) - 1
      then Inl (Panic ''too big a transaction'')
      else if lg_outstanding st < 1 then Inl (Panic ''log_write outside of trans'')
      else Inr (st\<lparr>lg_lh := (if b \<in> set (lg_lh st) then lg_lh st else lg_lh st @ [b]),
                   lg_cache := (lg_cache st)(b \<mapsto> d)\<rparr>))"

section \<open>Writes as a list\<close>

definition apply_writes :: "(nat \<times> block) list \<Rightarrow> disk \<Rightarrow> disk" where
  "apply_writes ws d = fold (\<lambda>(b, x) d. d(b := x)) ws d"

lemma apply_writes_Nil [simp]: "apply_writes [] d = d"
  by (simp add: apply_writes_def)

lemma apply_writes_append: "apply_writes (xs @ ys) d = apply_writes ys (apply_writes xs d)"
  by (simp add: apply_writes_def)

lemma apply_writes_Cons [simp]: "apply_writes ((b, x) # ws) d = apply_writes ws (d(b := x))"
  by (simp add: apply_writes_def)

lemma apply_writes_other: "b \<notin> fst ` set ws \<Longrightarrow> apply_writes ws d b = d b"
  by (induction ws arbitrary: d) auto

text \<open>When every write to a block carries the same contents, the order does not matter.\<close>

lemma apply_writes_map:
  "apply_writes (map (\<lambda>x. (g x, f (g x))) xs) d b = (if b \<in> g ` set xs then f b else d b)"
  by (induction xs arbitrary: d) auto

lemma apply_writes_log:
  assumes "inj_on g (set xs)" and "x \<in> set xs"
  shows "apply_writes (map (\<lambda>x. (g x, f x)) xs) d (g x) = f x"
  using assms
proof (induction xs arbitrary: d)
  case (Cons y xs)
  show ?case
  proof (cases "x \<in> set xs")
    case True
    with Cons show ?thesis by (auto intro: inj_on_subset)
  next
    case False
    then have "g x \<notin> fst ` set (map (\<lambda>x. (g x, f x)) xs)"
      using Cons.prems by (auto simp: inj_on_def)
    with Cons.prems False show ?thesis by (auto simp: apply_writes_other)
  qed
qed simp

section \<open>The header\<close>

lemma length_concat_words [simp]: "length (concat (map (\<lambda>x. bytes_of_u32 (of_nat x)) xs)) = 4 * length xs"
  by (induction xs) auto

lemma slice_concat_words:
  "k < length xs \<Longrightarrow> slice (4 * k) 4 (concat (map (\<lambda>x. bytes_of_u32 (of_nat x)) xs)) = bytes_of_u32 (of_nat (xs ! k))"
proof (induction xs arbitrary: k)
  case (Cons x xs)
  show ?case
  proof (cases k)
    case (Suc j)
    then have "slice (4 * j) 4 (concat (map (\<lambda>x. bytes_of_u32 (of_nat x)) xs)) = bytes_of_u32 (of_nat (xs ! j))"
      using Cons by simp
    then show ?thesis by (simp add: Suc slice_def)
  qed (simp add: slice_def)
qed simp

text \<open>The blocks of a transaction, and the area of the log.\<close>

definition lh_ok :: "nat list \<Rightarrow> bool" where
  "lh_ok lh \<longleftrightarrow> length lh \<le> LOGSIZE \<and> (\<forall>b \<in> set lh. b < 4294967296)"

lemma slice_append_left: "p + n \<le> length xs \<Longrightarrow> slice p n (xs @ ys) = slice p n xs"
  by (simp add: slice_def)

lemma word_at_header:
  assumes "length old = BSIZE" and "length lh \<le> LOGSIZE" and "i \<le> length lh"
  shows "word_at i (header_block lh old) = of_nat ((length lh # lh) ! i)"
proof -
  let ?ws = "concat (map (\<lambda>x. bytes_of_u32 (of_nat x)) (length lh # lh))"
  have len: "length ?ws = 4 * (length lh + 1)" by (simp only: length_concat_words list.size) simp
  have "blit 0 ?ws old = ?ws @ drop (length ?ws) old" by (simp add: blit_def)
  moreover have "4 * i + 4 \<le> length ?ws" unfolding len using assms(3) by simp
  ultimately have "slice (4 * i) 4 (blit 0 ?ws old) = slice (4 * i) 4 ?ws"
    by (simp only: slice_append_left)
  also have "\<dots> = bytes_of_u32 (of_nat ((length lh # lh) ! i))"
    by (rule slice_concat_words) (use assms(3) in simp)
  finally show ?thesis by (simp add: word_at_def header_block_def)
qed

lemma length_header_block:
  "length old = BSIZE \<Longrightarrow> length lh \<le> LOGSIZE \<Longrightarrow> length (header_block lh old) = BSIZE"
  unfolding header_block_def by (subst length_blit) (simp_all add: BSIZE_def LOGSIZE_def)

lemma parse_header_block:
  assumes "length old = BSIZE" and "lh_ok lh"
  shows "parse_header (header_block lh old) = Inr lh"
proof -
  have l: "length lh \<le> LOGSIZE" using assms(2) by (simp add: lh_ok_def)
  have n: "sint (word_at 0 (header_block lh old)) = int (length lh)"
  proof -
    have "sint (word_of_int (int (length lh)) :: u32) = int (length lh)"
      by (rule sint_word_of_int_fits) (use l in \<open>simp_all add: LOGSIZE_def\<close>)
    then show ?thesis using word_at_header [OF assms(1) l, of 0] by simp
  qed
  have "map (\<lambda>i. unat (word_at (i + 1) (header_block lh old))) [0..<length lh] = lh"
  proof (rule nth_equalityI)
    fix i assume "i < length (map (\<lambda>i. unat (word_at (i + 1) (header_block lh old))) [0..<length lh])"
    then have i: "i < length lh" by simp
    then have "lh ! i < 4294967296" using assms(2) by (simp add: lh_ok_def)
    with i show "map (\<lambda>i. unat (word_at (i + 1) (header_block lh old))) [0..<length lh] ! i = lh ! i"
      using word_at_header [OF assms(1) l, of "i + 1"] by (simp add: unat_of_nat)
  qed simp
  with n l show ?thesis by (simp add: parse_header_def)
qed

section \<open>The functions as lists of writes\<close>

definition bwrites :: "(nat \<times> block) list \<Rightarrow> log \<Rightarrow> log" where
  "bwrites ws st = st\<lparr>lg_disk := apply_writes ws (lg_disk st),
     lg_cache := (\<lambda>b. if b \<in> fst ` set ws then None else lg_cache st b),
     lg_writes := lg_writes st @ ws\<rparr>"

lemma bwrites_Nil [simp]: "bwrites [] st = st"
  by (simp add: bwrites_def)

lemma bwrite_bwrites: "bwrite b d (bwrites ws st) = bwrites (ws @ [(b, d)]) st"
  by (simp add: bwrite_def bwrites_def apply_writes_append fun_eq_iff)

lemma bwrites_sel [simp]:
  "lg_disk (bwrites ws st) = apply_writes ws (lg_disk st)" "lg_lh (bwrites ws st) = lg_lh st"
  "lg_start (bwrites ws st) = lg_start st" "lg_size (bwrites ws st) = lg_size st"
  "lg_writes (bwrites ws st) = lg_writes st @ ws"
  "lg_cache (bwrites ws st) = (\<lambda>b. if b \<in> fst ` set ws then None else lg_cache st b)"
  "lg_outstanding (bwrites ws st) = lg_outstanding st" "lg_committing (bwrites ws st) = lg_committing st"
  by (simp_all add: bwrites_def)

lemma bread_bwrites:
  "bread (bwrites ws st) b = (if b \<in> fst ` set ws then apply_writes ws (lg_disk st) b else bread st b)"
  by (auto simp: bread_def apply_writes_other split: option.split)

lemma fold_bwrite:
  assumes "\<And>k ws. k < n \<Longrightarrow> ws = map (\<lambda>i. (g i, f i)) [0..<k] \<Longrightarrow> d k (bwrites ws st) = f k"
    and "\<And>st'. lg_lh st' = lg_lh st \<Longrightarrow> lg_start st' = lg_start st \<Longrightarrow> t st' = g"
  shows "fold (\<lambda>k st'. bwrite (t st' k) (d k st') st') [0..<n] st
    = bwrites (map (\<lambda>i. (g i, f i)) [0..<n]) st"
proof -
  have "k \<le> n \<Longrightarrow> fold (\<lambda>k st'. bwrite (t st' k) (d k st') st') [0..<k] st
    = bwrites (map (\<lambda>i. (g i, f i)) [0..<k]) st" for k
  proof (induction k)
    case (Suc k)
    have "t (bwrites (map (\<lambda>i. (g i, f i)) [0..<k]) st) = g" by (rule assms(2)) simp_all
    with Suc assms(1) [of k] show ?case by (simp add: bwrite_bwrites)
  qed simp
  then show ?thesis by simp
qed

text \<open>Blocks outside the log, which takes the blocks from \<open>start\<close> on.\<close>

definition home :: "nat \<Rightarrow> nat \<Rightarrow> nat \<Rightarrow> bool" where
  "home start sz b \<longleftrightarrow> b < start \<or> start + sz \<le> b"

definition area_ok :: "nat \<Rightarrow> nat \<Rightarrow> nat list \<Rightarrow> bool" where
  "area_ok start sz lh \<longleftrightarrow> lh_ok lh \<and> length lh < sz \<and> (\<forall>b \<in> set lh. home start sz b)"

abbreviation log_writes_of :: "nat \<Rightarrow> nat list \<Rightarrow> (nat \<Rightarrow> block) \<Rightarrow> (nat \<times> block) list" where
  "log_writes_of start lh f \<equiv> map (\<lambda>i. (start + i + 1, f (lh ! i))) [0..<length lh]"

abbreviation home_writes_of :: "nat list \<Rightarrow> (nat \<Rightarrow> block) \<Rightarrow> (nat \<times> block) list" where
  "home_writes_of lh f \<equiv> map (\<lambda>i. (lh ! i, f (lh ! i))) [0..<length lh]"

lemma write_log_eq:
  assumes "area_ok (lg_start st) (lg_size st) (lg_lh st)"
  shows "write_log st = bwrites (log_writes_of (lg_start st) (lg_lh st) (bread st)) st"
  unfolding write_log_def
proof (rule fold_bwrite)
  fix k ws assume k: "k < length (lg_lh st)"
    and ws: "ws = map (\<lambda>i. (lg_start st + i + 1, bread st (lg_lh st ! i))) [0..<k]"
  have "home (lg_start st) (lg_size st) (lg_lh st ! k)" using assms k by (simp add: area_ok_def)
  moreover have "length (lg_lh st) < lg_size st" using assms by (simp add: area_ok_def)
  ultimately have "lg_lh st ! k \<notin> fst ` set ws" using k by (auto simp: ws home_def)
  then show "bread (bwrites ws st) (lg_lh (bwrites ws st) ! k) = bread st (lg_lh st ! k)"
    by (simp add: bread_bwrites)
qed simp

lemma install_trans_eq:
  assumes "area_ok (lg_start st) (lg_size st) (lg_lh st)"
    and "\<And>i. i < length (lg_lh st) \<Longrightarrow> bread st (lg_start st + i + 1) = f (lg_lh st ! i)"
  shows "install_trans st = bwrites (home_writes_of (lg_lh st) f) st"
  unfolding install_trans_def
proof (rule fold_bwrite)
  fix k ws assume k: "k < length (lg_lh st)"
    and ws: "ws = map (\<lambda>i. (lg_lh st ! i, f (lg_lh st ! i))) [0..<k]"
  have "home (lg_start st) (lg_size st) b" if "b \<in> fst ` set ws" for b
    using assms(1) k that by (auto simp: ws area_ok_def)
  moreover have "\<not> home (lg_start st) (lg_size st) (lg_start st + k + 1)"
    using assms(1) k by (simp add: area_ok_def home_def)
  ultimately have "lg_start st + k + 1 \<notin> fst ` set ws" by blast
  with k assms(2) show "bread (bwrites ws st) (lg_start (bwrites ws st) + k + 1) = f (lg_lh st ! k)"
    by (simp add: bread_bwrites)
qed simp

lemma apply_home_writes:
  "apply_writes (home_writes_of lh f) d b = (if b \<in> set lh then f b else d b)"
proof -
  have "(!) lh ` set [0..<length lh] = set lh" by (simp add: nth_image)
  then show ?thesis using apply_writes_map [of "(!) lh" f "[0..<length lh]" d b] by (simp only:)
qed

lemma apply_log_writes:
  "i < length lh \<Longrightarrow> apply_writes (log_writes_of start lh f) d (start + i + 1) = f (lh ! i)"
  using apply_writes_log [of "\<lambda>i. start + i + 1" "[0..<length lh]" i "\<lambda>i. f (lh ! i)" d]
  by (simp add: inj_on_def)

section \<open>Recovery\<close>

text \<open>
  A disk whose log holds a committed transaction \<open>lh\<close> with the contents \<open>f\<close>; with no blocks, a
  disk with an empty log.
\<close>

definition committed :: "nat \<Rightarrow> nat \<Rightarrow> nat list \<Rightarrow> (nat \<Rightarrow> block) \<Rightarrow> disk \<Rightarrow> bool" where
  "committed start sz lh f d \<longleftrightarrow>
     area_ok start sz lh \<and> length (d start) = BSIZE \<and> parse_header (d start) = Inr lh
     \<and> (\<forall>i<length lh. d (start + i + 1) = f (lh ! i))"

lemma recover_eq:
  assumes c: "committed start sz lh f d"
  shows "\<exists>st. initlog start sz d = Inr st
     \<and> lg_writes st = home_writes_of lh f @ [(start, header_block [] (d start))]
     \<and> lg_disk st = apply_writes (lg_writes st) d \<and> lg_lh st = [] \<and> lg_cache st = (\<lambda>_. None)
     \<and> lg_start st = start \<and> lg_size st = sz \<and> lg_outstanding st = 0 \<and> \<not> lg_committing st"
proof -
  define st0 where "st0 = \<lparr>lg_disk = d, lg_cache = (\<lambda>_. None), lg_writes = [], lg_start = start,
       lg_size = sz, lg_outstanding = 0, lg_committing = False, lg_lh = lh\<rparr>"
  let ?ws = "home_writes_of lh f"
  have a: "area_ok (lg_start st0) (lg_size st0) (lg_lh st0)" using c by (simp add: st0_def committed_def)
  have "install_trans st0 = bwrites (home_writes_of (lg_lh st0) f) st0"
    by (rule install_trans_eq [OF a]) (use c in \<open>simp add: st0_def committed_def bread_def\<close>)
  then have i: "install_trans st0 = bwrites ?ws st0" by (simp add: st0_def)
  have "\<not> home start sz start" using c by (auto simp: committed_def area_ok_def home_def)
  then have "start \<notin> fst ` set ?ws" using c by (auto simp: committed_def area_ok_def)
  then have b: "bread ((bwrites ?ws st0)\<lparr>lg_lh := []\<rparr>) start = d start"
    by (simp add: bread_def st0_def apply_writes_other)
  have "initlog start sz d = Inr (write_head ((install_trans st0)\<lparr>lg_lh := []\<rparr>))"
    using c by (simp add: initlog_def recover_from_log_def read_head_def bread_def committed_def st0_def)
  also have "\<dots> = Inr (bwrite start (header_block [] (d start)) ((bwrites ?ws st0)\<lparr>lg_lh := []\<rparr>))"
    using b by (simp add: i write_head_def) (simp add: st0_def)
  finally show ?thesis
    by (auto simp: bwrite_def bwrites_def st0_def apply_writes_append fun_eq_iff)
qed

lemma recover_home:
  assumes c: "committed start sz lh f d"
  shows "\<exists>st. initlog start sz d = Inr st \<and> committed start sz [] f (lg_disk st)
     \<and> (\<forall>b. home start sz b \<longrightarrow> lg_disk st b = (if b \<in> set lh then f b else d b))"
proof -
  from recover_eq [OF c] obtain st where r: "initlog start sz d = Inr st"
    and d: "lg_disk st = (apply_writes (home_writes_of lh f) d)(start := header_block [] (d start))"
    by (auto simp: apply_writes_append)
  have ns: "\<not> home start sz start" using c by (auto simp: committed_def area_ok_def home_def)
  have z: "lh_ok []" by (simp add: lh_ok_def LOGSIZE_def)
  have "committed start sz [] f (lg_disk st)"
    using c d z parse_header_block [of "d start" "[]"] length_header_block [of "d start" "[]"]
    by (auto simp: committed_def area_ok_def LOGSIZE_def)
  moreover have "lg_disk st b = (if b \<in> set lh then f b else d b)" if "home start sz b" for b
    using that ns d by (auto simp: apply_home_writes)
  ultimately show ?thesis using r by blast
qed

section \<open>Commit\<close>

definition log_ok :: "log \<Rightarrow> bool" where
  "log_ok st \<longleftrightarrow>
     area_ok (lg_start st) (lg_size st) (lg_lh st)
     \<and> (\<forall>b. lg_cache st b \<noteq> None \<longrightarrow> b \<in> set (lg_lh st))
     \<and> length (lg_disk st (lg_start st)) = BSIZE
     \<and> parse_header (lg_disk st (lg_start st)) = Inr []"

text \<open>The disk writes of a commit, in order.\<close>

definition commit_writes :: "log \<Rightarrow> (nat \<times> block) list" where
  "commit_writes st =
     (let s = lg_start st; h = header_block (lg_lh st) (lg_disk st s) in
      if lg_lh st = [] then []
      else log_writes_of s (lg_lh st) (bread st) @ [(s, h)]
           @ home_writes_of (lg_lh st) (bread st) @ [(s, header_block [] h)])"

lemma log_ok_counters [simp]:
  "log_ok (st\<lparr>lg_outstanding := n\<rparr>) = log_ok st" "log_ok (st\<lparr>lg_committing := c\<rparr>) = log_ok st"
  "log_ok (st\<lparr>lg_outstanding := n, lg_committing := c\<rparr>) = log_ok st"
  by (simp_all add: log_ok_def)

lemma bread_counters [simp]:
  "bread (st\<lparr>lg_outstanding := n\<rparr>) = bread st" "bread (st\<lparr>lg_committing := c\<rparr>) = bread st"
  "bread (st\<lparr>lg_outstanding := n, lg_committing := c\<rparr>) = bread st"
  by (simp_all add: bread_def fun_eq_iff split: option.split)

lemma log_area:
  assumes "log_ok st"
  shows "\<not> home (lg_start st) (lg_size st) (lg_start st)"
    and "b \<in> set (lg_lh st) \<Longrightarrow> home (lg_start st) (lg_size st) b"
    and "i < length (lg_lh st) \<Longrightarrow> \<not> home (lg_start st) (lg_size st) (lg_start st + i + 1)"
    and "lg_cache st (lg_start st) = None"
proof -
  show 1: "\<not> home (lg_start st) (lg_size st) (lg_start st)"
    and 2: "b \<in> set (lg_lh st) \<Longrightarrow> home (lg_start st) (lg_size st) b"
    and "i < length (lg_lh st) \<Longrightarrow> \<not> home (lg_start st) (lg_size st) (lg_start st + i + 1)" for b
    using assms by (auto simp: log_ok_def area_ok_def home_def)
  from 1 2 [of "lg_start st"] have "lg_start st \<notin> set (lg_lh st)" by blast
  with assms show "lg_cache st (lg_start st) = None" unfolding log_ok_def by blast
qed

lemma commit_eq:
  assumes ok: "log_ok st"
  shows "\<exists>st'. commit st = st' \<and> lg_writes st' = lg_writes st @ commit_writes st
     \<and> lg_disk st' = apply_writes (commit_writes st) (lg_disk st) \<and> lg_lh st' = []
     \<and> lg_cache st' = (\<lambda>_. None) \<and> lg_start st' = lg_start st \<and> lg_size st' = lg_size st
     \<and> lg_outstanding st' = lg_outstanding st \<and> lg_committing st' = lg_committing st"
proof (cases "lg_lh st = []")
  case True
  then have "lg_cache st = (\<lambda>_. None)" using ok by (auto simp: log_ok_def fun_eq_iff)
  with True show ?thesis by (simp add: commit_def commit_writes_def)
next
  case False
  let ?s = "lg_start st" and ?lh = "lg_lh st" and ?f = "bread st"
  let ?h = "header_block ?lh (lg_disk st ?s)"
  let ?W1 = "log_writes_of ?s ?lh ?f" and ?W2 = "home_writes_of ?lh ?f"
  have a: "area_ok ?s (lg_size st) ?lh" using ok by (simp add: log_ok_def)
  note la = log_area [OF ok]
  have "?s \<notin> fst ` set ?W1" by auto
  moreover have "bread st ?s = lg_disk st ?s" by (simp add: bread_def la(4))
  ultimately have b1: "bread (bwrites ?W1 st) ?s = lg_disk st ?s" by (simp only: bread_bwrites if_False)
  have st1: "write_head (write_log st) = bwrites (?W1 @ [(?s, ?h)]) st"
    using b1 by (simp add: write_log_eq [OF a] write_head_def bwrite_bwrites)
  let ?st1 = "bwrites (?W1 @ [(?s, ?h)]) st"
  have "bread ?st1 (?s + i + 1) = ?f (?lh ! i)" if "i < length ?lh" for i
    using that apply_log_writes [of i ?lh ?s ?f "lg_disk st"]
    by (auto simp: bread_bwrites apply_writes_append image_iff)
  then have st2: "install_trans ?st1 = bwrites ?W2 ?st1"
    using install_trans_eq [of ?st1 ?f] a by simp
  let ?st2 = "(bwrites ?W2 ?st1)\<lparr>lg_lh := []\<rparr>"
  have "?s \<notin> fst ` set ?W2" using la(1,2) by auto
  then have b2: "bread ?st2 ?s = ?h"
    by (simp add: bread_def apply_writes_other apply_writes_append)
  have "commit st = write_head ?st2" using False unfolding commit_def st1 st2 by simp
  also have "\<dots> = bwrite ?s (header_block [] ?h) ?st2"
    using b2 unfolding write_head_def by simp
  finally have st3: "commit st = bwrite ?s (header_block [] ?h) ?st2" .
  have "lg_cache (commit st) b = None" for b
  proof (cases "b \<in> set ?lh")
    case True
    then have "b \<in> fst ` set ?W2" by (auto simp: in_set_conv_nth image_iff)
    then show ?thesis by (simp add: st3 bwrite_def)
  next
    case False
    then have "lg_cache st b = None" using ok by (auto simp: log_ok_def)
    then show ?thesis by (simp add: st3 bwrite_def)
  qed
  then show ?thesis using False
    by (simp add: st3 commit_writes_def Let_def bwrite_def apply_writes_append fun_eq_iff)
qed

lemma commit_writes_eq: "log_ok st \<Longrightarrow> lg_writes (commit st) = lg_writes st @ commit_writes st"
  using commit_eq by blast

lemma crash_recover:
  assumes "committed start sz lh f d" and "\<And>b. home start sz b \<Longrightarrow> (if b \<in> set lh then f b else d b) = g b"
  shows "\<exists>st. initlog start sz d = Inr st \<and> (\<forall>b. home start sz b \<longrightarrow> lg_disk st b = g b)"
  using recover_home [OF assms(1)] assms(2) by fastforce

text \<open>
  The machine stops while the log is filled: the header still says that nothing is committed.
\<close>

lemma log_ok_hdr:
  assumes "log_ok st"
  shows "length (lg_disk st (lg_start st)) = BSIZE" and "parse_header (lg_disk st (lg_start st)) = Inr []"
    and "lh_ok (lg_lh st)" and "area_ok (lg_start st) (lg_size st) []"
    and "length (header_block (lg_lh st) (lg_disk st (lg_start st))) = BSIZE"
    and "b \<notin> set (lg_lh st) \<Longrightarrow> bread st b = lg_disk st b"
  using assms length_header_block
  by (auto simp: log_ok_def area_ok_def lh_ok_def bread_def split: option.split)

lemma crash_before_header:
  assumes ok: "log_ok st" and k: "k \<le> length (lg_lh st)"
  shows "\<exists>st'. initlog (lg_start st) (lg_size st)
      (apply_writes (take k (log_writes_of (lg_start st) (lg_lh st) (bread st))) (lg_disk st)) = Inr st'
    \<and> (\<forall>b. home (lg_start st) (lg_size st) b \<longrightarrow> lg_disk st' b = lg_disk st b)"
proof -
  let ?s = "lg_start st" and ?sz = "lg_size st" and ?d = "lg_disk st"
  let ?W1 = "log_writes_of ?s (lg_lh st) (bread st)"
  let ?D = "apply_writes (take k ?W1) ?d"
  note la = log_area [OF ok] and h = log_ok_hdr [OF ok]
  have nh: "\<not> home ?s ?sz b \<and> b \<noteq> ?s" if "b \<in> fst ` set (take k ?W1)" for b
  proof -
    have "set (take k ?W1) \<subseteq> set ?W1" by (rule set_take_subset)
    with that obtain i where "i < length (lg_lh st)" "b = ?s + i + 1" by auto
    with la(3) show ?thesis by simp
  qed
  have "?D ?s = ?d ?s" by (rule apply_writes_other) (use nh in blast)
  with h(1,2,4) have c: "committed ?s ?sz [] (bread st) ?D" by (simp add: committed_def)
  have "?D b = ?d b" if "home ?s ?sz b" for b
    by (rule apply_writes_other) (use nh that in blast)
  with crash_recover [OF c, of ?d] show ?thesis by simp
qed

text \<open>The header is written and \<open>j\<close> blocks are installed: recovery installs them all.\<close>

lemma crash_after_header:
  assumes ok: "log_ok st"
  shows "\<exists>st'. initlog (lg_start st) (lg_size st)
      (apply_writes (log_writes_of (lg_start st) (lg_lh st) (bread st)
         @ [(lg_start st, header_block (lg_lh st) (lg_disk st (lg_start st)))]
         @ take j (home_writes_of (lg_lh st) (bread st))) (lg_disk st)) = Inr st'
    \<and> (\<forall>b. home (lg_start st) (lg_size st) b \<longrightarrow> lg_disk st' b = bread st b)"
proof -
  let ?s = "lg_start st" and ?sz = "lg_size st" and ?lh = "lg_lh st" and ?f = "bread st" and ?d = "lg_disk st"
  let ?h = "header_block ?lh (?d ?s)" and ?W1 = "log_writes_of ?s ?lh ?f" and ?W2 = "home_writes_of ?lh ?f"
  let ?E = "(apply_writes ?W1 ?d)(?s := ?h)" and ?D = "apply_writes (?W1 @ [(?s, ?h)] @ take j ?W2) ?d"
  note la = log_area [OF ok] and h = log_ok_hdr [OF ok]
  have D: "?D = apply_writes (take j ?W2) ?E"
    unfolding apply_writes_append apply_writes_Cons apply_writes_Nil ..
  have W2: "home ?s ?sz b \<and> b \<in> set ?lh" if "b \<in> fst ` set (take j ?W2)" for b
    using that la(2) by (auto dest!: in_set_takeD)
  have D0: "?D b = ?E b" if "\<not> home ?s ?sz b" for b
    unfolding D by (rule apply_writes_other) (use W2 that in blast)
  have "?D ?s = ?h" using D0 [OF la(1)] by simp
  moreover have "?D (?s + i + 1) = ?f (?lh ! i)" if "i < length ?lh" for i
    using D0 [OF la(3) [OF that]] apply_log_writes [OF that, of ?s ?f ?d] by simp
  ultimately have c: "committed ?s ?sz ?lh ?f ?D"
    using ok h(5) parse_header_block [OF h(1,3)] by (simp add: committed_def log_ok_def)
  have "?D b = ?d b" if "home ?s ?sz b" "b \<notin> set ?lh" for b
  proof -
    have "?D b = ?E b" unfolding D by (rule apply_writes_other) (use W2 that in blast)
    also have "\<dots> = apply_writes ?W1 ?d b" using la(1) that(1) by auto
    also have "\<dots> = ?d b" by (rule apply_writes_other) (use la(3) that(1) in auto)
    finally show ?thesis .
  qed
  then have "(if b \<in> set ?lh then ?f b else ?D b) = ?f b" if "home ?s ?sz b" for b
    using h(6) that by simp
  from crash_recover [OF c this] show ?thesis .
qed

text \<open>All is installed and the header is cleared.\<close>

lemma crash_at_end:
  assumes ok: "log_ok st" and ne: "lg_lh st \<noteq> []"
  shows "\<exists>st'. initlog (lg_start st) (lg_size st) (apply_writes (commit_writes st) (lg_disk st)) = Inr st'
    \<and> (\<forall>b. home (lg_start st) (lg_size st) b \<longrightarrow> lg_disk st' b = bread st b)"
proof -
  let ?s = "lg_start st" and ?sz = "lg_size st" and ?lh = "lg_lh st" and ?f = "bread st" and ?d = "lg_disk st"
  let ?h = "header_block ?lh (?d ?s)" and ?W1 = "log_writes_of ?s ?lh ?f" and ?W2 = "home_writes_of ?lh ?f"
  let ?E = "(apply_writes ?W1 ?d)(?s := ?h)" and ?D = "apply_writes (commit_writes st) ?d"
  note la = log_area [OF ok] and h = log_ok_hdr [OF ok]
  have D: "?D = (apply_writes ?W2 ?E)(?s := header_block [] ?h)"
    using ne by (simp add: commit_writes_def Let_def apply_writes_append)
  have zl: "lh_ok []" by (simp add: lh_ok_def)
  have c: "committed ?s ?sz [] ?f ?D"
    using h(4,5) length_header_block [OF h(5), of "[]"] parse_header_block [OF h(5) zl]
    by (simp add: committed_def D)
  have "?D b = ?f b" if "home ?s ?sz b" for b
  proof -
    have "b \<noteq> ?s" using la(1) that by auto
    moreover have "apply_writes ?W1 ?d b = ?d b"
      by (rule apply_writes_other) (use la(3) that in auto)
    ultimately show ?thesis using h(6) by (simp add: D apply_home_writes)
  qed
  with crash_recover [OF c, of ?f] show ?thesis by simp
qed

lemma crash_in_commit:
  assumes ok: "log_ok st" and k: "k \<le> length (commit_writes st)"
  shows "\<exists>st'. initlog (lg_start st) (lg_size st) (apply_writes (take k (commit_writes st)) (lg_disk st)) = Inr st'
    \<and> (\<forall>b. home (lg_start st) (lg_size st) b \<longrightarrow>
         lg_disk st' b = (if k \<le> length (lg_lh st) then lg_disk st b else bread st b))"
proof (cases "lg_lh st = []")
  case True
  then show ?thesis using crash_before_header [OF ok, of 0] k by (simp add: commit_writes_def)
next
  case False
  let ?n = "length (lg_lh st)" and ?h = "header_block (lg_lh st) (lg_disk st (lg_start st))"
  let ?W1 = "log_writes_of (lg_start st) (lg_lh st) (bread st)" and ?W2 = "home_writes_of (lg_lh st) (bread st)"
  define ws where "ws = commit_writes st"
  have ws: "ws = ?W1 @ [(lg_start st, ?h)] @ ?W2 @ [(lg_start st, header_block [] ?h)]"
    using False by (simp add: ws_def commit_writes_def Let_def)
  consider "k \<le> ?n" | "?n < k" "k \<le> 2 * ?n + 1" | "k = 2 * ?n + 2"
    using k unfolding ws_def [symmetric] ws by fastforce
  then show ?thesis
  proof cases
    case 1
    then have "take k ws = take k ?W1" by (simp add: ws)
    then show ?thesis using crash_before_header [OF ok 1] 1 by (simp add: ws_def)
  next
    case 2
    define j where "j = k - ?n - 1"
    have "j \<le> ?n" "k = ?n + 1 + j" using 2 by (auto simp: j_def)
    then have "take k ws = ?W1 @ [(lg_start st, ?h)] @ take j ?W2" by (simp add: ws)
    then show ?thesis using crash_after_header [OF ok, of j] 2 by (simp add: ws_def)
  next
    case 3
    then have "take k ws = ws" by (simp add: ws)
    then show ?thesis using crash_at_end [OF ok False] 3 by (simp add: ws_def)
  qed
qed

text \<open>C7: A commit is atomic.  If the machine stops after any number \<open>k\<close> of the commit's disk writes,
  recovery at the next boot succeeds and leaves every block outside the log either as it was
  before the transaction, when the header had not been written, or as the transaction left it.\<close>

theorem commit_crash_atomic:
  assumes ok: "log_ok st" and ws: "lg_writes (commit st) = lg_writes st @ ws" and k: "k \<le> length ws"
  shows "\<exists>st'. initlog (lg_start st) (lg_size st) (apply_writes (take k ws) (lg_disk st)) = Inr st'
    \<and> (\<forall>b. home (lg_start st) (lg_size st) b \<longrightarrow>
         lg_disk st' b = (if k \<le> length (lg_lh st) then lg_disk st b else bread st b))"
  using crash_in_commit [OF ok] k commit_writes_eq [OF ok] ws by simp

text \<open>A log of 31 blocks from block 2 on, with blocks 0 and 40 in a transaction.\<close>

definition ex_disk :: disk where
  "ex_disk b = (if b = 40 then replicate BSIZE 7 else replicate BSIZE 0)"

definition ex_log :: log where
  "ex_log = \<lparr>lg_disk = ex_disk, lg_cache = [40 \<mapsto> replicate BSIZE 1, 0 \<mapsto> replicate BSIZE 2], lg_writes = [],
     lg_start = 2, lg_size = 31, lg_outstanding = 0, lg_committing = True, lg_lh = [40, 0]\<rparr>"

lemma parse_header_zero: "parse_header (replicate BSIZE 0) = Inr []"
  by (simp add: parse_header_def word_at_def slice_def BSIZE_def u32_of_bytes_def)

lemma ex_log_ok: "log_ok ex_log"
  using parse_header_zero
  by (auto simp: log_ok_def ex_log_def ex_disk_def area_ok_def lh_ok_def home_def LOGSIZE_def)

lemma ex_log_sel: "lg_start ex_log = 2" "lg_size ex_log = 31" "lg_lh ex_log = [40, 0]" "lg_disk ex_log = ex_disk"
  by (simp_all add: ex_log_def)

theorem commit_crash_atomic_witness:
  "\<exists>ws st'. lg_writes (commit ex_log) = ws \<and> initlog 2 31 (apply_writes (take 4 ws) ex_disk) = Inr st'
    \<and> lg_disk st' 0 = bread ex_log 0"
proof -
  have w: "lg_writes (commit ex_log) = lg_writes ex_log @ commit_writes ex_log"
    by (rule commit_writes_eq [OF ex_log_ok])
  have "4 \<le> length (commit_writes ex_log)" by (simp add: commit_writes_def ex_log_def Let_def)
  from commit_crash_atomic [OF ex_log_ok w this] obtain st'
    where r: "initlog (lg_start ex_log) (lg_size ex_log)
        (apply_writes (take 4 (commit_writes ex_log)) (lg_disk ex_log)) = Inr st'"
      and d: "\<forall>b. home (lg_start ex_log) (lg_size ex_log) b \<longrightarrow> lg_disk st' b =
        (if 4 \<le> length (lg_lh ex_log) then lg_disk ex_log b else bread ex_log b)"
    by blast
  have "lg_disk st' 0 = bread ex_log 0" using d unfolding ex_log_sel by (simp add: home_def)
  moreover have "lg_writes ex_log = []" by (simp add: ex_log_def)
  ultimately show ?thesis using r w unfolding ex_log_sel by auto
qed

text \<open>C29: Recovery is atomic as well.  If the machine stops again after any number \<open>k\<close> of the disk
  writes that recovery makes, recovering once more gives the same blocks outside the log.\<close>

theorem recovery_crash_atomic:
  assumes c: "committed s sz lh f d" and r: "initlog s sz d = Inr st" and k: "k \<le> length (lg_writes st)"
  shows "\<exists>st'. initlog s sz (apply_writes (take k (lg_writes st)) d) = Inr st'
    \<and> (\<forall>b. home s sz b \<longrightarrow> lg_disk st' b = lg_disk st b)"
proof -
  let ?W = "home_writes_of lh f" and ?n = "length lh"
  from recover_eq [OF c] r have ws: "lg_writes st = ?W @ [(s, header_block [] (d s))]"
    and fin: "lg_disk st = apply_writes (lg_writes st) d" by auto
  have ns: "\<not> home s sz s" using c by (auto simp: committed_def area_ok_def home_def)
  have dst: "lg_disk st b = (if b \<in> set lh then f b else d b)" if "home s sz b" for b
    using recover_home [OF c] r that by auto
  show ?thesis
  proof (cases "k \<le> ?n")
    case True
    then have t: "take k (lg_writes st) = take k ?W" by (simp add: ws)
    let ?D = "apply_writes (take k ?W) d"
    have W: "home s sz b \<and> b \<in> set lh" if "b \<in> fst ` set (take k ?W)" for b
      using that c by (auto simp: committed_def area_ok_def dest!: in_set_takeD)
    have keep: "?D b = d b" if "\<not> (home s sz b \<and> b \<in> set lh)" for b
      by (rule apply_writes_other) (use W that in blast)
    have "\<not> home s sz (s + i + 1)" if "i < ?n" for i
      using c that by (auto simp: committed_def area_ok_def home_def)
    then have "committed s sz lh f ?D" using c ns keep by (auto simp: committed_def)
    from crash_recover [OF this, of "lg_disk st"] dst keep show ?thesis by (simp add: t)
  next
    case False
    with k ws have t: "take k (lg_writes st) = lg_writes st" by simp
    have "committed s sz [] f (lg_disk st)" using recover_home [OF c] r by auto
    from crash_recover [OF this, of "lg_disk st"] show ?thesis by (simp add: t fin)
  qed
qed

lemma ex_committed: "committed 2 31 [] f (\<lambda>_. replicate BSIZE 0)"
  using parse_header_zero by (simp add: committed_def area_ok_def lh_ok_def)

theorem recovery_crash_atomic_witness:
  "\<exists>st st'. initlog 2 31 (\<lambda>_. replicate BSIZE 0) = Inr st
    \<and> initlog 2 31 (apply_writes (take 1 (lg_writes st)) (\<lambda>_. replicate BSIZE 0)) = Inr st'
    \<and> lg_disk st' 0 = lg_disk st 0"
proof -
  note c = ex_committed [of "\<lambda>_. []"]
  from recover_eq [OF c] obtain st where r: "initlog 2 31 (\<lambda>_. replicate BSIZE 0) = Inr st"
    and w: "1 \<le> length (lg_writes st)" by auto
  from recovery_crash_atomic [OF c r w] r show ?thesis by (auto simp: home_def)
qed

text \<open>Nothing is cached when recovery is done.\<close>

lemma fold_bwrite_cache:
  "\<forall>b. lg_cache st b = None \<Longrightarrow> \<forall>b. lg_cache (fold (\<lambda>t st. bwrite (f t st) (g t st) st) ts st) b = None"
  by (induction ts arbitrary: st) (auto simp: bwrite_def)

lemma initlog_cache:
  assumes "initlog s sz d = Inr st"
  shows "lg_cache st b = None"
proof -
  obtain st0 where st0: "st = write_head ((install_trans st0)\<lparr>lg_lh := []\<rparr>)" and c: "\<forall>b. lg_cache st0 b = None"
    using assms by (auto simp: initlog_def recover_from_log_def read_head_def res_simps)
  have "\<forall>b. lg_cache (install_trans st0) b = None"
    unfolding install_trans_def by (rule fold_bwrite_cache [OF c])
  then show ?thesis by (simp add: st0 write_head_def bwrite_def)
qed

section \<open>Transactions\<close>

text \<open>\<open>bread\<close> gives the file system its view of the disk: a commit keeps it and makes it durable.\<close>

lemma commit_ok:
  assumes ok: "log_ok st"
  shows "log_ok (commit st)" "lg_lh (commit st) = []" "lg_start (commit st) = lg_start st"
    "lg_size (commit st) = lg_size st" "lg_committing (commit st) = lg_committing st"
    "lg_outstanding (commit st) = lg_outstanding st"
    "home (lg_start st) (lg_size st) b \<Longrightarrow> lg_disk (commit st) b = bread st b"
    "home (lg_start st) (lg_size st) b \<Longrightarrow> bread (commit st) b = bread st b"
proof -
  from commit_eq [OF ok] have d: "lg_disk (commit st) = apply_writes (commit_writes st) (lg_disk st)"
    and lh: "lg_lh (commit st) = []" and ca: "lg_cache (commit st) = (\<lambda>_. None)"
    and s: "lg_start (commit st) = lg_start st" and z: "lg_size (commit st) = lg_size st"
    and r: "lg_committing (commit st) = lg_committing st" "lg_outstanding (commit st) = lg_outstanding st"
    by auto
  let ?lh = "lg_lh st" and ?s = "lg_start st"
  let ?h = "header_block ?lh (lg_disk st ?s)"
  let ?W1 = "log_writes_of ?s ?lh (bread st)" and ?W2 = "home_writes_of ?lh (bread st)"
  have lho: "lh_ok ?lh" "lh_ok []" and len: "length (lg_disk st ?s) = BSIZE" and sz: "length ?lh < lg_size st"
    using ok by (simp_all add: log_ok_def area_ok_def lh_ok_def)
  have hlen: "length ?h = BSIZE" using length_header_block len lho by (simp add: lh_ok_def)
  have hd0: "length (lg_disk (commit st) ?s) = BSIZE \<and> parse_header (lg_disk (commit st) ?s) = Inr []"
  proof (cases "?lh = []")
    case True
    with ok show ?thesis by (simp add: d commit_writes_def log_ok_def)
  next
    case False
    then have "lg_disk (commit st) ?s = header_block [] ?h"
      unfolding d commit_writes_def Let_def by (simp add: apply_writes_append)
    then show ?thesis
      using parse_header_block [OF hlen lho(2)] length_header_block [OF hlen, of "[]"] by simp
  qed
  with sz lho show "log_ok (commit st)" by (simp add: log_ok_def area_ok_def s z lh ca)
  show home: "lg_disk (commit st) b = bread st b" if "home (lg_start st) (lg_size st) b" for b
  proof (cases "?lh = []")
    case True
    with ok show ?thesis
      by (auto simp: d commit_writes_def log_ok_def bread_def split: option.split)
  next
    case False
    have "b \<noteq> ?s" using log_area(1) [OF ok] that by auto
    moreover have "apply_writes ?W1 (lg_disk st) b = lg_disk st b"
      by (rule apply_writes_other) (use log_area(3) [OF ok] that in auto)
    moreover have "bread st b = lg_disk st b" if "b \<notin> set ?lh"
      using ok that by (auto simp: log_ok_def bread_def split: option.split)
    ultimately show ?thesis
      using False unfolding d commit_writes_def Let_def by (simp add: apply_writes_append apply_home_writes)
  qed
  show "home (lg_start st) (lg_size st) b \<Longrightarrow> bread (commit st) b = bread st b"
    using home [of b] by (simp add: bread_def [of "commit st"] ca)
qed (use commit_eq [OF ok] in auto)

text \<open>
  Runs of the log: each open operation has a budget of \<open>MAXOPBLOCKS\<close> calls of \<open>log_write\<close>, which
  \<open>bud\<close> lists.  Operations interleave freely; they write blocks outside the log.
\<close>

inductive log_run :: "nat \<Rightarrow> nat \<Rightarrow> log \<Rightarrow> nat list \<Rightarrow> bool" for s :: nat and sz :: nat where
  run_init: "initlog s sz d = Inr st \<Longrightarrow> committed s sz lh f d \<Longrightarrow> log_run s sz st []"
| run_begin: "log_run s sz st bud \<Longrightarrow> begin_op st = Some st' \<Longrightarrow> log_run s sz st' (MAXOPBLOCKS # bud)"
| run_write: "log_run s sz st bud \<Longrightarrow> i < length bud \<Longrightarrow> 0 < bud ! i \<Longrightarrow> home s sz b \<Longrightarrow> b < 4294967296
    \<Longrightarrow> log_write b d st = Inr st' \<Longrightarrow> log_run s sz st' (bud[i := bud ! i - 1])"
| run_end: "log_run s sz st bud \<Longrightarrow> i < length bud \<Longrightarrow> end_op st = Inr st'
    \<Longrightarrow> log_run s sz st' (take i bud @ drop (Suc i) bud)"

definition run_inv :: "nat \<Rightarrow> nat \<Rightarrow> log \<Rightarrow> nat list \<Rightarrow> bool" where
  "run_inv s sz st bud \<longleftrightarrow>
     log_ok st \<and> lg_start st = s \<and> lg_size st = sz \<and> \<not> lg_committing st \<and> distinct (lg_lh st)
     \<and> lg_outstanding st = int (length bud) \<and> (bud = [] \<longrightarrow> lg_lh st = [])
     \<and> (\<forall>n \<in> set bud. n \<le> MAXOPBLOCKS) \<and> length (lg_lh st) + sum_list bud \<le> LOGSIZE"

lemma sum_list_budget: "(\<forall>n \<in> set bud. n \<le> m) \<Longrightarrow> sum_list bud \<le> length bud * (m::nat)"
  by (induction bud) auto

lemma sum_list_upd: "i < length bud \<Longrightarrow> 0 < bud ! i \<Longrightarrow> sum_list bud = Suc (sum_list (bud[i := bud ! i - Suc 0]))"
  by (induction bud arbitrary: i) (auto split: nat.split)

lemma sum_list_del: "sum_list (take i bud @ drop (Suc i) bud) \<le> sum_list (bud :: nat list)"
proof -
  have "sum_list bud = sum_list (take i bud) + sum_list (drop i bud)"
    by (metis append_take_drop_id sum_list_append)
  moreover have "sum_list (drop (Suc i) bud) \<le> sum_list (drop i bud)"
    by (cases "i < length bud") (simp_all add: Cons_nth_drop_Suc [symmetric])
  ultimately show ?thesis by simp
qed

lemma log_write_inv:
  assumes ok: "log_ok st" and b: "home (lg_start st) (lg_size st) b" "b < 4294967296"
    and w: "log_write b d st = Inr st'"
  shows "log_ok st'"
proof -
  have l: "length (lg_lh st) < LOGSIZE" "length (lg_lh st) + 1 < lg_size st"
    and st': "st' = st\<lparr>lg_lh := (if b \<in> set (lg_lh st) then lg_lh st else lg_lh st @ [b]),
                   lg_cache := (lg_cache st)(b \<mapsto> d)\<rparr>"
    using w by (auto simp: log_write_def split: if_splits)
  have "area_ok (lg_start st) (lg_size st) (lg_lh st')"
    using ok b l by (auto simp: st' log_ok_def area_ok_def lh_ok_def)
  with ok show ?thesis by (auto simp: st' log_ok_def)
qed

lemma run_inv_step_write:
  assumes inv: "run_inv s sz st bud" and i: "i < length bud" "0 < bud ! i" and b: "home s sz b" "b < 4294967296"
    and w: "log_write b d st = Inr st'"
  shows "run_inv s sz st' (bud[i := bud ! i - 1])"
proof -
  have ok: "log_ok st'" using log_write_inv [OF _ _ b(2) w] inv b(1) by (simp add: run_inv_def)
  have st': "st' = st\<lparr>lg_lh := (if b \<in> set (lg_lh st) then lg_lh st else lg_lh st @ [b]),
                   lg_cache := (lg_cache st)(b \<mapsto> d)\<rparr>"
    using w by (auto simp: log_write_def split: if_splits)
  have "\<forall>n \<in> set (bud[i := bud ! i - 1]). n \<le> MAXOPBLOCKS"
  proof
    fix n assume "n \<in> set (bud[i := bud ! i - 1])"
    then have "n = bud ! i - 1 \<or> n \<in> set bud" by (auto dest: set_update_subset_insert [THEN subsetD])
    moreover have "bud ! i \<in> set bud" using i(1) by simp
    ultimately show "n \<le> MAXOPBLOCKS" using inv unfolding run_inv_def by fastforce
  qed
  moreover have "bud[i := bud ! i - 1] \<noteq> []" using i by auto
  moreover have "length (lg_lh st') + sum_list (bud[i := bud ! i - 1]) \<le> LOGSIZE"
    using inv sum_list_upd [OF i] by (simp add: st' run_inv_def)
  ultimately show ?thesis using inv ok by (simp add: run_inv_def st')
qed

lemma end_op_inv:
  assumes inv: "run_inv s sz st bud" and i: "i < length bud" and e: "end_op st = Inr st'"
  shows "run_inv s sz st' (take i bud @ drop (Suc i) bud)"
proof -
  let ?bud = "take i bud @ drop (Suc i) bud"
  let ?st = "st\<lparr>lg_outstanding := lg_outstanding st - 1, lg_committing := True\<rparr>"
  have len: "length ?bud = length bud - 1" using i by simp
  have out: "lg_outstanding st - 1 = int (length ?bud)" using inv i by (auto simp: run_inv_def)
  have sub: "\<forall>n \<in> set ?bud. n \<le> MAXOPBLOCKS"
    using inv by (auto simp: run_inv_def dest: in_set_takeD in_set_dropD)
  have sum: "length (lg_lh st) + sum_list ?bud \<le> LOGSIZE"
    using inv sum_list_del [of i bud] unfolding run_inv_def by linarith
  show ?thesis
  proof (cases "?bud = []")
    case True
    then have o0: "lg_outstanding st - 1 = 0" using out unfolding True by simp
    have ok: "log_ok ?st" using inv by (simp add: run_inv_def)
    have "st' = (commit ?st)\<lparr>lg_committing := False\<rparr>"
      using e inv o0 by (simp add: end_op_def run_inv_def Let_def)
    then show ?thesis unfolding True using commit_ok(1-6) [OF ok] inv o0
      by (simp add: run_inv_def)
  next
    case False
    then have "length ?bud \<noteq> 0" by (simp only: length_0_conv not_False_eq_True)
    then have "lg_outstanding st - 1 \<noteq> 0" unfolding out by linarith
    then have "st' = st\<lparr>lg_outstanding := lg_outstanding st - 1\<rparr>"
      using e inv by (simp add: end_op_def run_inv_def)
    with False inv sub sum i show ?thesis
      unfolding run_inv_def by (simp add: min_def del: take_eq_Nil drop_eq_Nil append_is_Nil_conv)
  qed
qed

lemma log_run_inv: "log_run s sz st bud \<Longrightarrow> run_inv s sz st bud"
proof (induction rule: log_run.induct)
  case (run_init d st lh f)
  from recover_home [OF run_init(2)] run_init(1) have c: "committed s sz [] f (lg_disk st)" by auto
  from recover_eq [OF run_init(2)] run_init(1) have "lg_lh st = [] \<and> lg_cache st = (\<lambda>_. None)
     \<and> lg_start st = s \<and> lg_size st = sz \<and> lg_outstanding st = 0 \<and> \<not> lg_committing st" by auto
  with c show ?case by (auto simp: run_inv_def log_ok_def committed_def)
next
  case (run_begin st bud st')
  then have st': "st' = st\<lparr>lg_outstanding := lg_outstanding st + 1\<rparr>"
    and r: "int (length (lg_lh st)) + (lg_outstanding st + 1) * int MAXOPBLOCKS \<le> int LOGSIZE"
    by (auto simp: begin_op_def split: if_splits)
  have "lg_outstanding st = int (length bud)" using run_begin.IH by (simp add: run_inv_def)
  with r have "length (lg_lh st) + (length bud + 1) * MAXOPBLOCKS \<le> LOGSIZE"
    by (simp add: MAXOPBLOCKS_def LOGSIZE_def)
  moreover have "sum_list bud \<le> length bud * MAXOPBLOCKS"
    using run_begin.IH by (intro sum_list_budget) (simp add: run_inv_def)
  ultimately show ?case using run_begin.IH by (simp add: run_inv_def st')
qed (auto intro: run_inv_step_write end_op_inv simp del: One_nat_def)

lemma log_write_room:
  assumes "log_run s sz st bud" and "i < length bud" "0 < bud ! i" and "LOGSIZE < sz"
  shows "\<exists>st'. log_write b d st = Inr st'"
proof -
  have inv: "run_inv s sz st bud" using assms(1) by (rule log_run_inv)
  have "length (lg_lh st) < LOGSIZE" using inv sum_list_upd [OF assms(2,3)] by (simp add: run_inv_def)
  moreover have "1 \<le> lg_outstanding st" using inv assms(2) by (auto simp: run_inv_def)
  ultimately show ?thesis using inv assms(4) by (auto simp: log_write_def run_inv_def)
qed

text \<open>One operation open on a log of 31 blocks.\<close>

lemma ex_run: "\<exists>st. log_run 2 31 st [MAXOPBLOCKS]"
proof -
  note c = ex_committed [of "\<lambda>_. []"]
  from recover_eq [OF c] obtain st where r: "initlog 2 31 (\<lambda>_. replicate BSIZE 0) = Inr st"
    and e: "lg_lh st = []" "lg_outstanding st = 0" "\<not> lg_committing st" by auto
  from e have "begin_op st = Some (st\<lparr>lg_outstanding := 1\<rparr>)"
    by (simp add: begin_op_def MAXOPBLOCKS_def LOGSIZE_def)
  from run_begin [OF run_init [OF r c] this] show ?thesis by blast
qed



text \<open>C9: The log refines a plain array of blocks.  Within a run, \<open>begin_op\<close> and \<open>end_op\<close> leave what is read
  outside the log as it is, \<open>log_write\<close> changes the one block, and when the last open operation
  ends everything read is on the disk and the log is empty again.\<close>

theorem log_refines_blocks:
  assumes r: "log_run s sz st bud" and b: "home s sz b"
  shows "(\<forall>st'. begin_op st = Some st' \<longrightarrow> bread st' b = bread st b)
    \<and> (\<forall>c d st'. log_write c d st = Inr st' \<longrightarrow> bread st' b = (if b = c then d else bread st b))
    \<and> (\<forall>st'. end_op st = Inr st' \<longrightarrow> bread st' b = bread st b
        \<and> (length bud = 1 \<longrightarrow> lg_disk st' b = bread st b \<and> lg_lh st' = []))"
proof -
  let ?st = "st\<lparr>lg_outstanding := lg_outstanding st - 1, lg_committing := True\<rparr>"
  have inv: "run_inv s sz st bud" using r by (rule log_run_inv)
  then have ok: "log_ok ?st" by (simp add: run_inv_def)
  have se: "lg_start ?st = s" "lg_size ?st = sz" "bread ?st = bread st"
    using inv by (simp_all add: run_inv_def)
  have cd: "lg_disk (commit ?st) b = bread st b" "bread (commit ?st) b = bread st b" "lg_lh (commit ?st) = []"
    using commit_ok(2) [OF ok] commit_ok(7,8) [OF ok, of b] b by (simp_all only: se)
  have e: "bread st' b = bread st b \<and> (length bud = 1 \<longrightarrow> lg_disk st' b = bread st b \<and> lg_lh st' = [])"
    if "end_op st = Inr st'" for st'
  proof (cases "lg_outstanding st - 1 = 0")
    case True
    then have "st' = (commit ?st)\<lparr>lg_committing := False\<rparr>"
      using that inv by (simp add: end_op_def run_inv_def Let_def)
    with cd show ?thesis by simp
  next
    case False
    then have "st' = st\<lparr>lg_outstanding := lg_outstanding st - 1\<rparr>" "length bud \<noteq> 1"
      using that inv by (auto simp: end_op_def run_inv_def Let_def)
    then show ?thesis by simp
  qed
  have "bread st' b = bread st b" if "begin_op st = Some st'" for st'
    using that by (auto simp: begin_op_def split: if_splits)
  moreover have "bread st' b = (if b = c then d else bread st b)" if "log_write c d st = Inr st'" for c d st'
    using that by (auto simp: log_write_def bread_def split: if_splits option.split)
  ultimately show ?thesis using e by blast
qed

theorem log_refines_blocks_witness:
  "\<exists>st. log_run 2 31 st [MAXOPBLOCKS] \<and>
     (\<forall>st'. end_op st = Inr st' \<longrightarrow> lg_disk st' 40 = bread st 40)"
proof -
  from ex_run obtain st where r: "log_run 2 31 st [MAXOPBLOCKS]" by blast
  have "home 2 31 40" by (simp add: home_def)
  from log_refines_blocks [OF r this] r show ?thesis by (intro exI [of _ st]) simp
qed

end
