(* ===== verification/Kalloc.thy ===== *)
theory Kalloc
  imports Prelude
begin

text \<open>
  The physical page allocator (\<open>kalloc.c\<close>) over a byte memory.  Pages are named by their kernel
  virtual address; the free list lies in the first words of the free pages themselves.  The
  locale \<open>page_allocator\<close> says what the allocator promises the virtual memory code.
\<close>

section \<open>Memory\<close>

definition PGSIZE :: nat where "PGSIZE = 4096"
definition KERNBASE :: nat where "KERNBASE = 0x80000000"
definition PHYSTOP :: nat where "PHYSTOP = 0xE000000"

type_synonym memory = "nat \<Rightarrow> u8"

definition load32 :: "memory \<Rightarrow> nat \<Rightarrow> u32" where
  "load32 m a = u32_of_bytes (map m [a..<a + 4])"

definition store32 :: "nat \<Rightarrow> u32 \<Rightarrow> memory \<Rightarrow> memory" where
  "store32 a v m = (\<lambda>x. if a \<le> x \<and> x < a + 4 then bytes_of_u32 v ! (x - a) else m x)"

definition fill :: "nat \<Rightarrow> u8 \<Rightarrow> nat \<Rightarrow> memory \<Rightarrow> memory" where
  "fill a v n m = (\<lambda>x. if a \<le> x \<and> x < a + n then v else m x)"

lemma load32_cong: "(\<And>x. a \<le> x \<Longrightarrow> x < a + 4 \<Longrightarrow> m x = m' x) \<Longrightarrow> load32 m a = load32 m' a"
  unfolding load32_def by (metis (no_types, lifting) atLeastLessThan_iff atLeastLessThan_upt map_cong)

lemma load32_store32 [simp]: "load32 (store32 a v m) a = v"
proof -
  have "map (store32 a v m) [a..<a + 4] = bytes_of_u32 v"
    by (rule nth_equalityI) (simp_all add: store32_def)
  then show ?thesis by (simp add: load32_def)
qed

lemma load32_store32_apart: "a + 4 \<le> b \<or> b + 4 \<le> a \<Longrightarrow> load32 (store32 a v m) b = load32 m b"
  by (rule load32_cong) (auto simp: store32_def)

lemma load32_fill_apart: "a + n \<le> b \<or> b + 4 \<le> a \<Longrightarrow> load32 (fill a v n m) b = load32 m b"
  by (rule load32_cong) (auto simp: fill_def)

section \<open>The allocator\<close>

record kmem =
  km_freelist :: nat
  km_mem :: memory

text \<open>The conversions between kernel virtual and physical addresses check their argument.\<close>

definition V2P :: "nat \<Rightarrow> nat res" where
  "V2P a = (if a < KERNBASE then Inl (Panic ''V2P on address < KERNBASE'') else Inr (a - KERNBASE))"

definition P2V :: "nat \<Rightarrow> nat res" where
  "P2V a = (if a > KERNBASE then Inl (Panic ''P2V on address > KERNBASE'') else Inr (a + KERNBASE))"

text \<open>\<open>kend\<close> is the first address after the kernel, which the linker defines.\<close>

definition kfree :: "nat \<Rightarrow> nat \<Rightarrow> kmem \<Rightarrow> kmem res" where
  "kfree kend v st =
     (if v mod PGSIZE \<noteq> 0 \<or> v < kend then Inl (Panic ''kfree'')
      else bindR (V2P v) (\<lambda>pa.
        if PHYSTOP \<le> pa then Inl (Panic ''kfree'')
        else
          let m = fill v 1 PGSIZE (km_mem st);
              m = store32 v (of_nat (km_freelist st)) m in
          Inr \<lparr>km_freelist = v, km_mem = m\<rparr>))"

definition kalloc :: "kmem \<Rightarrow> nat \<times> kmem" where
  "kalloc st =
     (let r = km_freelist st in
      if r \<noteq> 0 then (r, st\<lparr>km_freelist := unat (load32 (km_mem st) r)\<rparr>) else (r, st))"

definition PGROUNDUP_nat :: "nat \<Rightarrow> nat" where
  "PGROUNDUP_nat a = (a + PGSIZE - 1) div PGSIZE * PGSIZE"

function freerange_loop :: "nat \<Rightarrow> nat \<Rightarrow> nat \<Rightarrow> kmem \<Rightarrow> kmem res" where
  "freerange_loop kend p vend st =
     (if p + PGSIZE \<le> vend
      then bindR (kfree kend p st) (\<lambda>st. freerange_loop kend (p + PGSIZE) vend st)
      else Inr st)"
  by pat_completeness auto
termination by (relation "measure (\<lambda>(kend, p, vend, st). vend - p)") (auto simp: PGSIZE_def)

declare freerange_loop.simps [simp del]

definition freerange :: "nat \<Rightarrow> nat \<Rightarrow> nat \<Rightarrow> kmem \<Rightarrow> kmem res" where
  "freerange kend vstart vend st =
     (if vend < vstart then Inl (Panic ''freerange'')
      else freerange_loop kend (PGROUNDUP_nat vstart) vend st)"

text \<open>
  \<open>in_free_table\<close> walks the list; on a list with a cycle it does not return.
\<close>

partial_function (option) in_free_table_loop :: "memory \<Rightarrow> nat \<Rightarrow> nat \<Rightarrow> bool option" where
  "in_free_table_loop m r temp =
     (if temp = 0 then Some False
      else if temp = r then Some True
      else in_free_table_loop m r (unat (load32 m temp)))"

definition in_free_table :: "nat \<Rightarrow> kmem \<Rightarrow> bool option" where
  "in_free_table v st = in_free_table_loop (km_mem st) v (km_freelist st)"

section \<open>The free list\<close>

definition page_ok :: "nat \<Rightarrow> nat \<Rightarrow> bool" where
  "page_ok kend p \<longleftrightarrow> p mod PGSIZE = 0 \<and> kend \<le> p \<and> KERNBASE \<le> p \<and> p < KERNBASE + PHYSTOP"

fun list_at :: "memory \<Rightarrow> nat \<Rightarrow> nat list \<Rightarrow> bool" where
  "list_at m p [] \<longleftrightarrow> p = 0"
| "list_at m p (q # qs) \<longleftrightarrow> p = q \<and> p \<noteq> 0 \<and> list_at m (unat (load32 m p)) qs"

definition kmem_inv :: "nat \<Rightarrow> nat list \<Rightarrow> kmem \<Rightarrow> bool" where
  "kmem_inv kend free st \<longleftrightarrow>
     list_at (km_mem st) (km_freelist st) free \<and> distinct free \<and> (\<forall>p \<in> set free. page_ok kend p)"

definition page_bytes :: "nat \<Rightarrow> nat set" where
  "page_bytes p = {p..<p + PGSIZE}"

lemma pages_apart:
  assumes "page_ok kend p" "page_ok kend q" "p \<noteq> q"
  shows "p + PGSIZE \<le> q \<or> q + PGSIZE \<le> p"
proof -
  obtain i j where "p = PGSIZE * i" "q = PGSIZE * j"
    using assms(1,2) by (auto simp: page_ok_def mod_eq_0_iff_dvd elim!: dvdE)
  moreover from this assms(3) have "i < j \<or> j < i" by (auto intro: linorder_neqE_nat)
  moreover have "i < j \<Longrightarrow> PGSIZE * Suc i \<le> PGSIZE * j" "j < i \<Longrightarrow> PGSIZE * Suc j \<le> PGSIZE * i"
    by (simp_all only: mult_le_mono2 Suc_leI)
  ultimately show ?thesis by auto
qed

lemma pages_disjoint: "page_ok kend p \<Longrightarrow> page_ok kend q \<Longrightarrow> p \<noteq> q \<Longrightarrow> x \<in> page_bytes p \<Longrightarrow> x \<notin> page_bytes q"
  using pages_apart [of kend p q] by (auto simp: page_bytes_def)

lemma word_in_page: "q \<le> x \<Longrightarrow> x < q + 4 \<Longrightarrow> x \<in> page_bytes q"
  by (simp add: page_bytes_def PGSIZE_def)

lemma list_at_cong:
  "(\<And>q x. q \<in> set free \<Longrightarrow> q \<le> x \<Longrightarrow> x < q + 4 \<Longrightarrow> m x = m' x) \<Longrightarrow> list_at m p free = list_at m' p free"
proof (induction free arbitrary: p)
  case (Cons q qs)
  have "load32 m q = load32 m' q" by (rule load32_cong, rule Cons.prems [of q]) simp_all
  moreover have "list_at m r qs = list_at m' r qs" for r
    by (rule Cons.IH, rule Cons.prems) simp_all
  ultimately show ?case by (cases "p = q") (simp_all only: list_at.simps simp_thms)
qed simp

lemma list_at_pages:
  "(\<And>q x. q \<in> set free \<Longrightarrow> x \<in> page_bytes q \<Longrightarrow> m x = m' x) \<Longrightarrow> list_at m p free = list_at m' p free"
  by (rule list_at_cong) (simp add: word_in_page)

text \<open>The free list only depends on the first words of free pages.\<close>

lemma kmem_inv_mem:
  assumes "kmem_inv kend free st" and "\<And>x. (\<exists>q \<in> set free. x \<in> page_bytes q) \<Longrightarrow> m x = km_mem st x"
  shows "kmem_inv kend free (st\<lparr>km_mem := m\<rparr>)"
proof -
  have "list_at m (km_freelist st) free = list_at (km_mem st) (km_freelist st) free"
    by (rule list_at_pages, rule assms(2)) blast
  with assms(1) show ?thesis by (simp add: kmem_inv_def)
qed

lemma kfree_ok:
  assumes inv: "kmem_inv kend free st" and p: "page_ok kend p" "p \<notin> set free"
  shows "\<exists>st'. kfree kend p st = Inr st' \<and> kmem_inv kend (p # free) st'
    \<and> (\<forall>x. x \<notin> page_bytes p \<longrightarrow> km_mem st' x = km_mem st x)"
proof -
  define m where "m = store32 p (of_nat (km_freelist st)) (fill p 1 PGSIZE (km_mem st))"
  have keep: "m x = km_mem st x" if "x \<notin> page_bytes p" for x
    using that by (auto simp: m_def store32_def fill_def page_bytes_def PGSIZE_def)
  have other: "m x = km_mem st x" if "q \<in> set free" "x \<in> page_bytes q" for q x
    using keep pages_disjoint [of kend q p x] inv p that by (auto simp: kmem_inv_def)
  have fl: "km_freelist st < 4294967296"
    using inv by (cases free) (auto simp: kmem_inv_def page_ok_def KERNBASE_def PHYSTOP_def)
  have "list_at m (km_freelist st) free = list_at (km_mem st) (km_freelist st) free"
    by (rule list_at_pages, rule other)
  moreover have "unat (load32 m p) = km_freelist st" using fl by (simp add: m_def unat_of_nat)
  ultimately have "list_at m p (p # free)" using inv p(1) by (simp add: kmem_inv_def page_ok_def KERNBASE_def)
  then have "kmem_inv kend (p # free) \<lparr>km_freelist = p, km_mem = m\<rparr>"
    using inv p by (simp add: kmem_inv_def)
  moreover have "kfree kend p st = Inr \<lparr>km_freelist = p, km_mem = m\<rparr>"
  proof -
    have "\<not> PHYSTOP \<le> p - KERNBASE" using p(1) by (auto simp: page_ok_def PHYSTOP_def)
    with p(1) show ?thesis by (simp add: kfree_def V2P_def page_ok_def m_def [symmetric] Let_def)
  qed
  ultimately show ?thesis using keep by auto
qed

lemma kalloc_ok:
  assumes "kmem_inv kend free st" and "kalloc st = (p, st')"
  shows "km_mem st' = km_mem st \<and>
    (case free of [] \<Rightarrow> p = 0 \<and> st' = st | q # qs \<Rightarrow> p = q \<and> p \<noteq> 0 \<and> kmem_inv kend qs st')"
  using assms by (cases free) (auto simp: kalloc_def kmem_inv_def Let_def)


lemma freerange_loop_ok:
  "kmem_inv kend free st \<Longrightarrow> p mod PGSIZE = 0 \<Longrightarrow> kend \<le> p \<Longrightarrow> KERNBASE \<le> p \<Longrightarrow> vend \<le> KERNBASE + PHYSTOP
   \<Longrightarrow> (\<And>q. q \<in> set free \<Longrightarrow> q < p)
   \<Longrightarrow> \<exists>st' new. freerange_loop kend p vend st = Inr st' \<and> kmem_inv kend (new @ free) st'
     \<and> (\<forall>q. q \<in> set new \<longleftrightarrow> q mod PGSIZE = 0 \<and> p \<le> q \<and> q + PGSIZE \<le> vend)"
proof (induction kend p vend st arbitrary: free rule: freerange_loop.induct)
  case (1 kend p vend st)
  show ?case
  proof (cases "p + PGSIZE \<le> vend")
    case False
    then have "\<not> (p \<le> q \<and> q + PGSIZE \<le> vend)" for q by linarith
    with False 1(2) show ?thesis by (subst freerange_loop.simps) (auto intro!: exI [of _ "[]"])
  next
    case True
    have "0 < PGSIZE" by (simp add: PGSIZE_def)
    then have pok: "page_ok kend p" "p \<notin> set free" using 1(3-7) True by (auto simp: page_ok_def)
    from kfree_ok [OF 1(2) pok] obtain st1 where st1: "kfree kend p st = Inr st1" "kmem_inv kend (p # free) st1" by blast
    have "q < p + PGSIZE" if "q \<in> set (p # free)" for q
      using that 1(7) [of q] \<open>0 < PGSIZE\<close> by auto
    from 1(1) [OF True st1(1) st1(2) _ _ _ 1(6) this] 1(3-5) obtain st' new where
      st': "freerange_loop kend (p + PGSIZE) vend st1 = Inr st'" "kmem_inv kend (new @ p # free) st'"
      "\<forall>q. q \<in> set new \<longleftrightarrow> q mod PGSIZE = 0 \<and> p + PGSIZE \<le> q \<and> q + PGSIZE \<le> vend" by auto
    have mem: "q \<in> set (new @ [p]) \<longleftrightarrow> q mod PGSIZE = 0 \<and> p \<le> q \<and> q + PGSIZE \<le> vend" for q
    proof -
      have "q = p \<or> p + PGSIZE \<le> q" if qm: "q mod PGSIZE = 0" "p \<le> q"
      proof -
        obtain i where i: "p = PGSIZE * i" using 1(3) by (auto simp: mod_eq_0_iff_dvd)
        obtain j where j: "q = PGSIZE * j" using qm(1) by (auto simp: mod_eq_0_iff_dvd)
        note ij = i j
        with qm(2) \<open>0 < PGSIZE\<close> have "i \<le> j" by simp
        then have "i = j \<or> PGSIZE * Suc i \<le> PGSIZE * j"
          by (metis Suc_leI le_neq_implies_less mult_le_mono2)
        with ij show ?thesis by auto
      qed
      note step = this
      have n: "q \<in> set new \<longleftrightarrow> q mod PGSIZE = 0 \<and> p + PGSIZE \<le> q \<and> q + PGSIZE \<le> vend" by (rule spec [OF st'(3)])
      show ?thesis
      proof (cases "q = p")
        case True
        then show ?thesis using 1(3) \<open>p + PGSIZE \<le> vend\<close> by simp
      next
        case False
        then have "q \<in> set (new @ [p]) \<longleftrightarrow> q \<in> set new" by simp
        also have "\<dots> \<longleftrightarrow> q mod PGSIZE = 0 \<and> p \<le> q \<and> q + PGSIZE \<le> vend"
          unfolding n using step False by (auto elim: le_trans [OF le_add1])
        finally show ?thesis .
      qed
    qed
    have "freerange_loop kend p vend st = Inr st'"
      using True st1(1) st'(1) by (subst freerange_loop.simps) simp
    moreover have "kmem_inv kend ((new @ [p]) @ free) st'" using st'(2) by simp
    ultimately show ?thesis using mem by blast
  qed
qed


lemma in_free_table_loop_ok:
  "list_at m temp free \<Longrightarrow> in_free_table_loop m r temp = Some (r \<in> set free)"
proof (induction free arbitrary: temp)
  case Nil
  then show ?case by (subst in_free_table_loop.simps) simp
next
  case (Cons q qs)
  then show ?case by (subst in_free_table_loop.simps) auto
qed

section \<open>The contract of a page allocator\<close>

text \<open>Clients ask for pages and give back pages they hold.\<close>

datatype page_op = Get | Put nat

fun page_run :: "('s \<Rightarrow> nat \<times> 's) \<Rightarrow> (nat \<Rightarrow> 's \<Rightarrow> 's res) \<Rightarrow> page_op list \<Rightarrow> nat list \<Rightarrow> 's \<Rightarrow> (nat list \<times> 's) res" where
  "page_run alloc dealloc [] held s = Inr (held, s)"
| "page_run alloc dealloc (Get # ops) held s =
     (case alloc s of (p, s) \<Rightarrow> page_run alloc dealloc ops (if p = 0 then held else p # held) s)"
| "page_run alloc dealloc (Put p # ops) held s =
     (if p \<in> set held
      then bindR (dealloc p s) (\<lambda>s. page_run alloc dealloc ops (remove1 p held) s)
      else page_run alloc dealloc ops held s)"

text \<open>\<open>inv free s\<close>: the pages \<open>free\<close> are the free ones, next first.\<close>

locale page_allocator =
  fixes inv :: "nat list \<Rightarrow> 's \<Rightarrow> bool" and alloc :: "'s \<Rightarrow> nat \<times> 's"
    and dealloc :: "nat \<Rightarrow> 's \<Rightarrow> 's res" and valid :: "nat \<Rightarrow> bool"
  assumes alloc: "inv free s \<Longrightarrow> alloc s = (p, s') \<Longrightarrow>
      (case free of [] \<Rightarrow> p = 0 \<and> inv [] s' | q # qs \<Rightarrow> p = q \<and> inv qs s')"
    and dealloc: "inv free s \<Longrightarrow> valid p \<Longrightarrow> p \<notin> set free \<Longrightarrow> \<exists>s'. dealloc p s = Inr s' \<and> inv (p # free) s'"
    and free_pages: "inv free s \<Longrightarrow> distinct free \<and> (\<forall>p \<in> set free. valid p)"
    and valid_nonzero: "valid p \<Longrightarrow> p \<noteq> 0"
begin

text \<open>No page is ever held twice or both held and free, none is lost, and no step fails.\<close>

lemma run_partition:
  assumes "inv free s" and "distinct (held @ free)" and "\<forall>p \<in> set held. valid p"
  shows "\<exists>held' free' s'. page_run alloc dealloc ops held s = Inr (held', s') \<and> inv free' s'
    \<and> distinct (held' @ free') \<and> set (held' @ free') = set (held @ free) \<and> (\<forall>p \<in> set held'. valid p)"
  using assms
proof (induction ops arbitrary: held free s)
  case (Cons op ops)
  show ?case
  proof (cases op)
    case Get
    obtain p s1 where a: "alloc s = (p, s1)" by (cases "alloc s")
    show ?thesis
    proof (cases free)
      case Nil
      with alloc [OF Cons.prems(1) a] have "p = 0" "inv [] s1" by auto
      with Cons.IH [of "[]" s1 held] Cons.prems Get a Nil show ?thesis by auto
    next
      case (Cons q qs)
      with alloc [OF Cons.prems(1) a] have p: "p = q" "inv qs s1" by auto
      have "valid q" using free_pages [OF Cons.prems(1)] Cons by simp
      with valid_nonzero have "q \<noteq> 0" by blast
      with Cons.IH [OF p(2), of "q # held"] Cons.prems \<open>valid q\<close> Get a p(1) Cons show ?thesis by auto
    qed
  next
    case (Put p)
    show ?thesis
    proof (cases "p \<in> set held")
      case True
      then have v: "valid p" "p \<notin> set free" using Cons.prems by auto
      from dealloc [OF Cons.prems(1) v] obtain s1 where d: "dealloc p s = Inr s1" "inv (p # free) s1" by blast
      have r: "distinct (remove1 p held @ p # free)" "set (remove1 p held @ p # free) = set (held @ free)"
        using Cons.prems(2) True by (auto simp: set_remove1_eq distinct_remove1)
      have "\<forall>q \<in> set (remove1 p held). valid q" using Cons.prems(3) by (meson notin_set_remove1)
      from Cons.IH [OF d(2) r(1) this] True Put d(1) show ?thesis unfolding r(2) by simp
    next
      case False
      with Cons.IH [OF Cons.prems] Put show ?thesis by simp
    qed
  qed
qed auto

end

interpretation kernel_pages: page_allocator "kmem_inv kend" kalloc "kfree kend" "page_ok kend" for kend
proof
  show "kmem_inv kend free s \<Longrightarrow> kalloc s = (p, s') \<Longrightarrow>
      (case free of [] \<Rightarrow> p = 0 \<and> kmem_inv kend [] s' | q # qs \<Rightarrow> p = q \<and> kmem_inv kend qs s')" for free s p s'
    using kalloc_ok [of kend free s p s'] by (cases free) auto
  show "kmem_inv kend free s \<Longrightarrow> page_ok kend p \<Longrightarrow> p \<notin> set free \<Longrightarrow>
      \<exists>s'. kfree kend p s = Inr s' \<and> kmem_inv kend (p # free) s'" for free s p
    using kfree_ok by blast
qed (auto simp: kmem_inv_def page_ok_def KERNBASE_def)

text \<open>The allocator as the boot code leaves it.\<close>

lemma freerange_ok:
  assumes "vstart \<le> vend" and "kend \<le> vstart" "KERNBASE \<le> vstart" and "vend \<le> KERNBASE + PHYSTOP"
  shows "\<exists>st' free. freerange kend vstart vend \<lparr>km_freelist = 0, km_mem = m\<rparr> = Inr st' \<and> kmem_inv kend free st'
    \<and> set free = {p. p mod PGSIZE = 0 \<and> vstart \<le> p \<and> p + PGSIZE \<le> vend}"
proof -
  let ?p = "PGROUNDUP_nat vstart" and ?st = "\<lparr>km_freelist = 0, km_mem = m\<rparr>"
  have pg: "0 < PGSIZE" by (simp add: PGSIZE_def)
  have p0: "?p mod PGSIZE = 0" by (simp add: PGROUNDUP_nat_def)
  have up: "vstart \<le> ?p"
    using div_mult_mod_eq [of "vstart + PGSIZE - 1" PGSIZE] mod_less_divisor [OF pg, of "vstart + PGSIZE - 1"]
    unfolding PGROUNDUP_nat_def by linarith
  have least: "?p \<le> q" if q: "q mod PGSIZE = 0" "vstart \<le> q" for q
  proof -
    obtain j where j: "q = PGSIZE * j" using q(1) by (auto simp: mod_eq_0_iff_dvd)
    have "vstart + PGSIZE - 1 < PGSIZE * (j + 1)" using q(2) pg by (simp add: j)
    then have "(vstart + PGSIZE - 1) div PGSIZE < j + 1"
      by (simp add: div_less_iff_less_mult [OF pg] mult.commute)
    then show ?thesis unfolding PGROUNDUP_nat_def j by (simp add: mult.commute)
  qed
  have "kmem_inv kend [] ?st" by (simp add: kmem_inv_def)
  from freerange_loop_ok [OF this p0 _ _ assms(4)] up assms obtain st' new where
    "freerange_loop kend ?p vend ?st = Inr st'" "kmem_inv kend (new @ []) st'"
    "\<forall>q. q \<in> set new \<longleftrightarrow> q mod PGSIZE = 0 \<and> ?p \<le> q \<and> q + PGSIZE \<le> vend" by auto
  moreover from this(3) have "set new = {p. p mod PGSIZE = 0 \<and> vstart \<le> p \<and> p + PGSIZE \<le> vend}"
    using least up by auto
  ultimately show ?thesis using assms(1) by (simp add: freerange_def) blast
qed

text \<open>C14: From boot on, after any sequence of calls of \<open>kalloc\<close> and \<open>kfree\<close> that gives back only pages it holds,
  no call has failed, the pages held are distinct, and together with the free list they are all the
  pages from \<open>vstart\<close> to \<open>vend\<close>: no page is handed out twice and none is lost.\<close>

theorem kalloc_partition:
  assumes "vstart \<le> vend" and "kend \<le> vstart" "KERNBASE \<le> vstart" and "vend \<le> KERNBASE + PHYSTOP"
    and "freerange kend vstart vend \<lparr>km_freelist = 0, km_mem = m\<rparr> = Inr st"
  shows "\<exists>held free st'. page_run kalloc (kfree kend) ops [] st = Inr (held, st')
    \<and> distinct (held @ free) \<and> (\<forall>v. in_free_table v st' = Some (v \<in> set free))
    \<and> set (held @ free) = {p. p mod PGSIZE = 0 \<and> vstart \<le> p \<and> p + PGSIZE \<le> vend}"
proof -
  from freerange_ok [OF assms(1-4), of m] assms(5) obtain free0 where
    f: "kmem_inv kend free0 st" "set free0 = {p. p mod PGSIZE = 0 \<and> vstart \<le> p \<and> p + PGSIZE \<le> vend}" by auto
  then have "distinct ([] @ free0)" by (simp add: kmem_inv_def)
  from kernel_pages.run_partition [OF f(1) this, of ops] obtain held free st' where
    r: "page_run kalloc (kfree kend) ops [] st = Inr (held, st')" "kmem_inv kend free st'"
    "distinct (held @ free)" "set (held @ free) = set ([] @ free0)" by auto
  have "in_free_table v st' = Some (v \<in> set free)" for v
    using r(2) by (simp add: in_free_table_def kmem_inv_def in_free_table_loop_ok)
  with r f(2) show ?thesis by auto
qed

theorem kalloc_partition_witness:
  "\<exists>st held free st'. freerange 0x80100000 0x80100001 0x80103000 \<lparr>km_freelist = 0, km_mem = (\<lambda>_. 0)\<rparr> = Inr st
    \<and> page_run kalloc (kfree 0x80100000) [Get, Get, Get, Put 0x80101000] [] st = Inr (held, st')
    \<and> set (held @ free) = {p. p mod PGSIZE = 0 \<and> 0x80100001 \<le> p \<and> p + PGSIZE \<le> 0x80103000}"
proof -
  have r: "(0x80100001::nat) \<le> 0x80103000" "(0x80100000::nat) \<le> 0x80100001" "KERNBASE \<le> 0x80100001"
    "0x80103000 \<le> KERNBASE + PHYSTOP" by (simp_all add: KERNBASE_def PHYSTOP_def)
  from freerange_ok [OF r, of "\<lambda>_. 0"] obtain st where
    s: "freerange 0x80100000 0x80100001 0x80103000 \<lparr>km_freelist = 0, km_mem = (\<lambda>_. 0)\<rparr> = Inr st" by blast
  from kalloc_partition [OF r s, of "[Get, Get, Get, Put 0x80101000]"] s show ?thesis by blast
qed

text \<open>Allocation and freeing leave every page a client holds as it is: \<open>kalloc\<close> writes nothing, and the
  fill with junk and the new link of \<open>kfree\<close> stay inside the page freed.  A client that writes to
  a page that is not free leaves the free list intact.\<close>

theorem kalloc_frame:
  assumes "kmem_inv kend free st" and "page_ok kend p" "p \<notin> set free"
  shows "km_mem (snd (kalloc st)) = km_mem st
    \<and> (\<exists>st'. kfree kend p st = Inr st' \<and> (\<forall>x. x \<notin> page_bytes p \<longrightarrow> km_mem st' x = km_mem st x))
    \<and> (x \<in> page_bytes p \<longrightarrow> kmem_inv kend free (st\<lparr>km_mem := (km_mem st)(x := v)\<rparr>))"
proof -
  have "kmem_inv kend free (st\<lparr>km_mem := (km_mem st)(x := v)\<rparr>)" if "x \<in> page_bytes p"
  proof (rule kmem_inv_mem [OF assms(1)])
    fix y assume "\<exists>q \<in> set free. y \<in> page_bytes q"
    then obtain q where "q \<in> set free" "y \<in> page_bytes q" by blast
    with assms have "y \<notin> page_bytes p" using pages_disjoint [of kend q p y] by (auto simp: kmem_inv_def)
    with that show "((km_mem st)(x := v)) y = km_mem st y" by auto
  qed
  moreover have "km_mem (snd (kalloc st)) = km_mem st" by (simp add: kalloc_def Let_def)
  ultimately show ?thesis using kfree_ok [OF assms] by blast
qed

theorem kalloc_frame_witness:
  "\<exists>st'. kfree 0x80100000 0x80101000 \<lparr>km_freelist = 0, km_mem = (\<lambda>_. 0)\<rparr> = Inr st' \<and> km_mem st' 0x80102000 = 0"
proof -
  have "kmem_inv 0x80100000 [] \<lparr>km_freelist = 0, km_mem = (\<lambda>_. 0)\<rparr>" by (simp add: kmem_inv_def)
  moreover have "page_ok 0x80100000 0x80101000" by (simp add: page_ok_def PGSIZE_def KERNBASE_def PHYSTOP_def)
  moreover have "0x80101000 \<notin> set ([] :: nat list)" by simp
  moreover have "0x80102000 \<notin> page_bytes 0x80101000" by (simp add: page_bytes_def PGSIZE_def)
  ultimately show ?thesis
    using kalloc_frame [where kend = "0x80100000" and free = "[]" and st = "\<lparr>km_freelist = 0, km_mem = (\<lambda>_. 0)\<rparr>"
        and p = "0x80101000"] by fastforce
qed

end
