(* ===== verification/Fs.thy ===== *)
theory Fs
  imports Log Strings
begin

text \<open>
  The file system layer (\<open>fs.c\<close>, \<open>fs.h\<close>, \<open>file.h\<close>): the block bitmap, inodes and their cache,
  the contents of files, directories and paths.  Blocks are read and written through the log of
  \<open>Log\<close>, as \<open>bread\<close> and \<open>log_write\<close> do.  Pointers into the inode cache are indices.  Each
  operation runs with the sleep locks of the code held, so the locks are not part of the state.
\<close>

section \<open>On-disk format (fs.h)\<close>

definition ROOTINO :: nat where "ROOTINO = 1"
definition ROOTDEV :: nat where "ROOTDEV = 1"
definition NDIRECT :: nat where "NDIRECT = 12"
definition NINDIRECT :: nat where "NINDIRECT = BSIZE div 4"
definition MAXFILE :: nat where "MAXFILE = NDIRECT + NINDIRECT"
definition IPB :: nat where "IPB = BSIZE div 64"
definition BPB :: nat where "BPB = BSIZE * 8"
definition DIRSIZ :: nat where "DIRSIZ = 14"
definition NINODE :: nat where "NINODE = 50"
definition NDEV :: nat where "NDEV = 10"
definition T_DIR :: u16 where "T_DIR = 1"
definition T_FILE :: u16 where "T_FILE = 2"
definition T_DEV :: u16 where "T_DEV = 3"

record superblock =
  sb_size :: nat
  sb_nblocks :: nat
  sb_ninodes :: nat
  sb_nlog :: nat
  sb_logstart :: nat
  sb_inodestart :: nat
  sb_bmapstart :: nat

record dinode =
  di_type :: u16
  di_major :: u16
  di_minor :: u16
  di_nlink :: u16
  di_size :: u32
  di_addrs :: "u32 list"

definition bytes_of_u16 :: "u16 \<Rightarrow> u8 list" where
  "bytes_of_u16 w = [ucast w, ucast (drop_bit 8 w)]"

definition u16_of_bytes :: "u8 list \<Rightarrow> u16" where
  "u16_of_bytes bs = ucast (bs ! 0) OR push_bit 8 (ucast (bs ! 1))"

text \<open>A \<open>struct dinode\<close> takes 64 bytes.\<close>

definition dinode_of :: "u8 list \<Rightarrow> dinode" where
  "dinode_of bs =
     \<lparr>di_type = u16_of_bytes (slice 0 2 bs), di_major = u16_of_bytes (slice 2 2 bs),
      di_minor = u16_of_bytes (slice 4 2 bs), di_nlink = u16_of_bytes (slice 6 2 bs),
      di_size = u32_of_bytes (slice 8 4 bs),
      di_addrs = map (\<lambda>i. u32_of_bytes (slice (12 + 4 * i) 4 bs)) [0..<NDIRECT + 1]\<rparr>"

definition dinode_bytes :: "dinode \<Rightarrow> u8 list" where
  "dinode_bytes d =
     bytes_of_u16 (di_type d) @ bytes_of_u16 (di_major d) @ bytes_of_u16 (di_minor d)
     @ bytes_of_u16 (di_nlink d) @ bytes_of_u32 (di_size d) @ concat (map bytes_of_u32 (di_addrs d))"

definition IBLOCK :: "nat \<Rightarrow> superblock \<Rightarrow> nat" where "IBLOCK i sb = i div IPB + sb_inodestart sb"
definition BBLOCK :: "nat \<Rightarrow> superblock \<Rightarrow> nat" where "BBLOCK b sb = b div BPB + sb_bmapstart sb"

section \<open>State\<close>

record inode =
  ip_dev :: nat
  ip_inum :: nat
  ip_ref :: int
  ip_valid :: bool
  ip_type :: u16
  ip_major :: u16
  ip_minor :: u16
  ip_nlink :: u16
  ip_size :: u32
  ip_addrs :: "u32 list"

record fs =
  fs_log :: log
  fs_sb :: superblock
  fs_icache :: "inode list"

abbreviation read_block :: "nat \<Rightarrow> fs \<Rightarrow> block" where
  "read_block b st \<equiv> bread (fs_log st) b"

definition log_block :: "nat \<Rightarrow> block \<Rightarrow> fs \<Rightarrow> fs res" where
  "log_block b d st = bindR (log_write b d (fs_log st)) (\<lambda>l. Inr (st\<lparr>fs_log := l\<rparr>))"

abbreviation inode_at :: "nat \<Rightarrow> fs \<Rightarrow> inode" where
  "inode_at i st \<equiv> fs_icache st ! i"

definition upd_inode :: "nat \<Rightarrow> (inode \<Rightarrow> inode) \<Rightarrow> fs \<Rightarrow> fs" where
  "upd_inode i f st = st\<lparr>fs_icache := (fs_icache st)[i := f (fs_icache st ! i)]\<rparr>"

definition readsb :: "fs \<Rightarrow> superblock" where
  "readsb st =
     (let d = read_block 1 st; f = (\<lambda>i. unat (u32_of_bytes (slice (4 * i) 4 d))) in
      \<lparr>sb_size = f 0, sb_nblocks = f 1, sb_ninodes = f 2, sb_nlog = f 3, sb_logstart = f 4,
       sb_inodestart = f 5, sb_bmapstart = f 6\<rparr>)"

definition iinit :: "fs \<Rightarrow> fs" where
  "iinit st = st\<lparr>fs_sb := readsb st\<rparr>"

section \<open>Blocks\<close>

definition bzero :: "nat \<Rightarrow> fs \<Rightarrow> fs res" where
  "bzero bno st = log_block bno (replicate BSIZE 0) st"

definition bit_set :: "block \<Rightarrow> nat \<Rightarrow> bool" where
  "bit_set d bi \<longleftrightarrow> d ! (bi div 8) AND push_bit (bi mod 8) 1 \<noteq> 0"

definition set_bit_at :: "nat \<Rightarrow> block \<Rightarrow> block" where
  "set_bit_at bi d = d[bi div 8 := d ! (bi div 8) OR push_bit (bi mod 8) 1]"

definition clear_bit_at :: "nat \<Rightarrow> block \<Rightarrow> block" where
  "clear_bit_at bi d = d[bi div 8 := d ! (bi div 8) AND NOT (push_bit (bi mod 8) 1)]"

text \<open>\<open>balloc\<close> from bitmap position \<open>b\<close> on, one bitmap block at a time.\<close>

function balloc_from :: "nat \<Rightarrow> fs \<Rightarrow> (nat \<times> fs) res" where
  "balloc_from b st =
     (if b < sb_size (fs_sb st) then
        let bno = BBLOCK b (fs_sb st); d = read_block bno st in
        (case find (\<lambda>bi. \<not> bit_set d bi) [0..<min BPB (sb_size (fs_sb st) - b)] of
           Some bi \<Rightarrow>
             bindR (log_block bno (set_bit_at bi d) st) (\<lambda>st.
             bindR (bzero (b + bi) st) (\<lambda>st. Inr (b + bi, st)))
         | None \<Rightarrow> balloc_from (b + BPB) st)
      else Inl (Panic ''balloc: out of blocks''))"
  by pat_completeness auto
termination
  by (relation "measure (\<lambda>(b, st). sb_size (fs_sb st) - b)") (auto simp: BPB_def BSIZE_def)

declare balloc_from.simps [simp del]

definition balloc :: "fs \<Rightarrow> (nat \<times> fs) res" where
  "balloc st = balloc_from 0 st"

definition bfree :: "nat \<Rightarrow> fs \<Rightarrow> fs res" where
  "bfree b st =
     (let bno = BBLOCK b (fs_sb st); d = read_block bno st; bi = b mod BPB in
      if \<not> bit_set d bi then Inl (Panic ''freeing free block'')
      else log_block bno (clear_bit_at bi d) st)"

section \<open>Inodes\<close>

text \<open>The in-memory fields that live on disk.\<close>

definition dinode_of_inode :: "inode \<Rightarrow> dinode" where
  "dinode_of_inode ip =
     \<lparr>di_type = ip_type ip, di_major = ip_major ip, di_minor = ip_minor ip, di_nlink = ip_nlink ip,
      di_size = ip_size ip, di_addrs = ip_addrs ip\<rparr>"

definition read_dinode :: "nat \<Rightarrow> fs \<Rightarrow> dinode" where
  "read_dinode inum st = dinode_of (slice (64 * (inum mod IPB)) 64 (read_block (IBLOCK inum (fs_sb st)) st))"

definition write_dinode :: "nat \<Rightarrow> dinode \<Rightarrow> fs \<Rightarrow> fs res" where
  "write_dinode inum di st =
     (let b = IBLOCK inum (fs_sb st) in
      log_block b (blit (64 * (inum mod IPB)) (dinode_bytes di) (read_block b st)) st)"

definition iupdate :: "nat \<Rightarrow> fs \<Rightarrow> fs res" where
  "iupdate i st = write_dinode (ip_inum (inode_at i st)) (dinode_of_inode (inode_at i st)) st"

text \<open>\<open>iget\<close>: the entry of the inode, or the first free entry.\<close>

fun iget_scan :: "nat \<Rightarrow> nat \<Rightarrow> inode list \<Rightarrow> nat \<Rightarrow> nat option \<Rightarrow> bool \<times> nat option" where
  "iget_scan dev inum [] i slot = (False, slot)"
| "iget_scan dev inum (ip # ips) i slot =
     (if ip_ref ip > 0 \<and> ip_dev ip = dev \<and> ip_inum ip = inum then (True, Some i)
      else iget_scan dev inum ips (Suc i)
             (if slot = None \<and> ip_ref ip = 0 then Some i else slot))"

definition iget :: "nat \<Rightarrow> nat \<Rightarrow> fs \<Rightarrow> (nat \<times> fs) res" where
  "iget dev inum st =
     (case iget_scan dev inum (fs_icache st) 0 None of
        (True, Some i) \<Rightarrow> Inr (i, upd_inode i (\<lambda>ip. ip\<lparr>ip_ref := ip_ref ip + 1\<rparr>) st)
      | (_, None) \<Rightarrow> Inl (Panic ''iget: no inodes'')
      | (False, Some i) \<Rightarrow>
          Inr (i, upd_inode i (\<lambda>ip. ip\<lparr>ip_dev := dev, ip_inum := inum, ip_ref := 1, ip_valid := False\<rparr>) st))"

definition idup :: "nat \<Rightarrow> fs \<Rightarrow> nat \<times> fs" where
  "idup i st = (i, upd_inode i (\<lambda>ip. ip\<lparr>ip_ref := ip_ref ip + 1\<rparr>) st)"

text \<open>\<open>ialloc\<close> scans the inodes on disk from number \<open>inum\<close> on.\<close>

function ialloc_from :: "nat \<Rightarrow> nat \<Rightarrow> u16 \<Rightarrow> fs \<Rightarrow> (nat \<times> fs) res" where
  "ialloc_from inum dev ty st =
     (if inum < sb_ninodes (fs_sb st) then
        if di_type (read_dinode inum st) = 0 then
          bindR (write_dinode inum \<lparr>di_type = ty, di_major = 0, di_minor = 0, di_nlink = 0, di_size = 0,
                   di_addrs = replicate (NDIRECT + 1) 0\<rparr> st) (\<lambda>st. iget dev inum st)
        else ialloc_from (inum + 1) dev ty st
      else Inl (Panic ''ialloc: no inodes''))"
  by pat_completeness auto
termination
  by (relation "measure (\<lambda>(inum, dev, ty, st). sb_ninodes (fs_sb st) - inum)") auto

declare ialloc_from.simps [simp del]

definition ialloc :: "nat \<Rightarrow> u16 \<Rightarrow> fs \<Rightarrow> (nat \<times> fs) res" where
  "ialloc dev ty st = ialloc_from 1 dev ty st"

definition ilock :: "nat \<Rightarrow> fs \<Rightarrow> fs res" where
  "ilock i st =
     (if ip_ref (inode_at i st) < 1 then Inl (Panic ''ilock'')
      else if \<not> ip_valid (inode_at i st) then
        let di = read_dinode (ip_inum (inode_at i st)) st;
            st = upd_inode i (\<lambda>ip. ip\<lparr>ip_type := di_type di, ip_major := di_major di, ip_minor := di_minor di,
                   ip_nlink := di_nlink di, ip_size := di_size di, ip_addrs := di_addrs di, ip_valid := True\<rparr>) st in
        if ip_type (inode_at i st) = 0 then Inl (Panic ''ilock: no type'') else Inr st
      else Inr st)"

definition iunlock :: "nat \<Rightarrow> fs \<Rightarrow> fs res" where
  "iunlock i st = (if ip_ref (inode_at i st) < 1 then Inl (Panic ''iunlock'') else Inr st)"

text \<open>\<open>itrunc\<close>: the direct blocks, the blocks of the indirect block, the indirect block.\<close>

fun itrunc_direct :: "nat \<Rightarrow> nat list \<Rightarrow> fs \<Rightarrow> fs res" where
  "itrunc_direct i [] st = Inr st"
| "itrunc_direct i (k # ks) st =
     (let a = ip_addrs (inode_at i st) ! k in
      if a \<noteq> 0 then
        bindR (bfree (unat a) st) (\<lambda>st.
          itrunc_direct i ks (upd_inode i (\<lambda>ip. ip\<lparr>ip_addrs := (ip_addrs ip)[k := 0]\<rparr>) st))
      else itrunc_direct i ks st)"

definition word_in :: "block \<Rightarrow> nat \<Rightarrow> u32" where
  "word_in d j = u32_of_bytes (slice (4 * j) 4 d)"

fun itrunc_indirect :: "nat \<Rightarrow> nat list \<Rightarrow> fs \<Rightarrow> fs res" where
  "itrunc_indirect b [] st = Inr st"
| "itrunc_indirect b (j # js) st =
     (let a = word_in (read_block b st) j in
      if a \<noteq> 0 then bindR (bfree (unat a) st) (itrunc_indirect b js) else itrunc_indirect b js st)"

definition itrunc :: "nat \<Rightarrow> fs \<Rightarrow> fs res" where
  "itrunc i st =
     bindR (itrunc_direct i [0..<NDIRECT] st) (\<lambda>st.
     bindR (let a = ip_addrs (inode_at i st) ! NDIRECT in
            if a \<noteq> 0 then
              bindR (itrunc_indirect (unat a) [0..<NINDIRECT] st) (\<lambda>st.
              bindR (bfree (unat a) st) (\<lambda>st.
                Inr (upd_inode i (\<lambda>ip. ip\<lparr>ip_addrs := (ip_addrs ip)[NDIRECT := 0]\<rparr>) st)))
            else Inr st) (\<lambda>st.
     iupdate i (upd_inode i (\<lambda>ip. ip\<lparr>ip_size := 0\<rparr>) st)))"

definition iput :: "nat \<Rightarrow> fs \<Rightarrow> fs res" where
  "iput i st =
     bindR (if ip_valid (inode_at i st) \<and> ip_nlink (inode_at i st) = 0 \<and> ip_ref (inode_at i st) = 1 then
              bindR (itrunc i st) (\<lambda>st.
              bindR (iupdate i (upd_inode i (\<lambda>ip. ip\<lparr>ip_type := 0\<rparr>) st)) (\<lambda>st.
                Inr (upd_inode i (\<lambda>ip. ip\<lparr>ip_valid := False\<rparr>) st)))
            else Inr st) (\<lambda>st.
     Inr (upd_inode i (\<lambda>ip. ip\<lparr>ip_ref := ip_ref ip - 1\<rparr>) st))"

definition iunlockput :: "nat \<Rightarrow> fs \<Rightarrow> fs res" where
  "iunlockput i st = bindR (iunlock i st) (iput i)"


section \<open>Contents of inodes\<close>

text \<open>
  \<open>bmap\<close>: the number of the \<open>bn\<close>-th block, allocated when it is missing.  The indirect block is
  read again after an allocation, since the buffer is shared.
\<close>

definition set_word :: "nat \<Rightarrow> u32 \<Rightarrow> block \<Rightarrow> block" where
  "set_word j w d = blit (4 * j) (bytes_of_u32 w) d"

definition bmap_slot :: "nat \<Rightarrow> nat \<Rightarrow> fs \<Rightarrow> (nat \<times> fs) res" where
  "bmap_slot i k st =
     (let a = ip_addrs (inode_at i st) ! k in
      if a = 0 then
        bindR (balloc st) (\<lambda>(b, st).
          Inr (b, upd_inode i (\<lambda>ip. ip\<lparr>ip_addrs := (ip_addrs ip)[k := of_nat b]\<rparr>) st))
      else Inr (unat a, st))"

definition bmap :: "nat \<Rightarrow> nat \<Rightarrow> fs \<Rightarrow> (nat \<times> fs) res" where
  "bmap i bn st =
     (if bn < NDIRECT then bmap_slot i bn st
      else
        let bn = bn - NDIRECT in
        if bn < NINDIRECT then
          bindR (bmap_slot i NDIRECT st) (\<lambda>(ib, st).
            let a = word_in (read_block ib st) bn in
            if a = 0 then
              bindR (balloc st) (\<lambda>(b, st).
              bindR (log_block ib (set_word bn (of_nat b) (read_block ib st)) st) (\<lambda>st. Inr (b, st)))
            else Inr (unat a, st))
        else Inl (Panic ''bmap: out of range''))"

record stat =
  st_dev :: nat
  st_ino :: nat
  st_type :: u16
  st_nlink :: u16
  st_size :: u32

definition stati :: "nat \<Rightarrow> fs \<Rightarrow> stat" where
  "stati i st =
     (let ip = inode_at i st in
      \<lparr>st_dev = ip_dev ip, st_ino = ip_inum ip, st_type = ip_type ip, st_nlink = ip_nlink ip, st_size = ip_size ip\<rparr>)"

text \<open>
  The device switch: what reading \<open>n\<close> bytes from a device delivers (result and bytes), and what
  writing bytes to it returns.
\<close>

record devsw =
  dev_read :: "nat \<Rightarrow> (int \<Rightarrow> int \<times> u8 list) option"
  dev_write :: "nat \<Rightarrow> (u8 list \<Rightarrow> int) option"

definition dev_index :: "u16 \<Rightarrow> nat option" where
  "dev_index major = (if sint major < 0 \<or> sint major \<ge> int NDEV then None else Some (unat major))"

text \<open>The copy loop of \<open>readi\<close>, for \<open>n\<close> bytes from offset \<open>off\<close> on.\<close>

function readi_loop :: "nat \<Rightarrow> nat \<Rightarrow> nat \<Rightarrow> fs \<Rightarrow> (u8 list \<times> fs) res" where
  "readi_loop i off n st =
     (if n > 0 then
        bindR (bmap i (off div BSIZE) st) (\<lambda>(b, st).
          let m = min n (BSIZE - off mod BSIZE) in
          bindR (readi_loop i (off + m) (n - m) st) (\<lambda>(bs, st').
            Inr (slice (off mod BSIZE) m (read_block b st) @ bs, st')))
      else Inr ([], st))"
  by pat_completeness auto
termination
  by (relation "measure (\<lambda>(i, off, n, st). n)") (auto simp: BSIZE_def min_def)

declare readi_loop.simps [simp del]

definition readi :: "devsw \<Rightarrow> nat \<Rightarrow> u32 \<Rightarrow> u32 \<Rightarrow> fs \<Rightarrow> (int \<times> u8 list \<times> fs) res" where
  "readi dv i off n st =
     (let ip = inode_at i st in
      if ip_type ip = T_DEV then
        (case Option.bind (dev_index (ip_major ip)) (dev_read dv) of
           None \<Rightarrow> Inr (-1, [], st)
         | Some rd \<Rightarrow> (case rd (sint n) of (r, bs) \<Rightarrow> Inr (r, bs, st)))
      else if off > ip_size ip \<or> off + n < off then Inr (-1, [], st)
      else
        let n = (if off + n > ip_size ip then ip_size ip - off else n) in
        bindR (readi_loop i (unat off) (unat n) st) (\<lambda>(bs, st). Inr (sint n, bs, st)))"

function writei_loop :: "nat \<Rightarrow> nat \<Rightarrow> u8 list \<Rightarrow> fs \<Rightarrow> fs res" where
  "writei_loop i off src st =
     (if src \<noteq> [] then
        bindR (bmap i (off div BSIZE) st) (\<lambda>(b, st).
          let m = min (length src) (BSIZE - off mod BSIZE) in
          bindR (log_block b (blit (off mod BSIZE) (take m src) (read_block b st)) st) (\<lambda>st.
            writei_loop i (off + m) (drop m src) st))
      else Inr st)"
  by pat_completeness auto
termination
  by (relation "measure (\<lambda>(i, off, src, st). length src)") (auto simp: BSIZE_def min_def)

declare writei_loop.simps [simp del]

definition writei :: "devsw \<Rightarrow> nat \<Rightarrow> u8 list \<Rightarrow> u32 \<Rightarrow> fs \<Rightarrow> (int \<times> fs) res" where
  "writei dv i src off st =
     (let ip = inode_at i st; n = of_nat (length src) :: u32 in
      if ip_type ip = T_DEV then
        (case Option.bind (dev_index (ip_major ip)) (dev_write dv) of
           None \<Rightarrow> Inr (-1, st)
         | Some wr \<Rightarrow> Inr (wr src, st))
      else if off > ip_size ip \<or> off + n < off then Inr (-1, st)
      else if unat (off + n) > MAXFILE * BSIZE then Inr (-1, st)
      else
        bindR (writei_loop i (unat off) src st) (\<lambda>st.
          let off = off + n in
          if n > 0 \<and> off > ip_size (inode_at i st) then
            bindR (iupdate i (upd_inode i (\<lambda>ip. ip\<lparr>ip_size := off\<rparr>) st)) (\<lambda>st. Inr (sint n, st))
          else Inr (sint n, st)))"

section \<open>Directories\<close>

text \<open>Names are buffers of \<open>DIRSIZ\<close> bytes, padded with zeroes.\<close>

definition name_buf :: "u8 list \<Rightarrow> u8 list" where
  "name_buf s = take DIRSIZ (s @ replicate DIRSIZ 0)"

definition namecmp :: "u8 list \<Rightarrow> u8 list \<Rightarrow> int res" where
  "namecmp s t = strncmp 0 (int (length s)) DIRSIZ (s @ t)"

text \<open>A directory entry takes 16 bytes: the inode number and the name.\<close>

definition de_inum :: "u8 list \<Rightarrow> nat" where "de_inum de = unat (u16_of_bytes (slice 0 2 de))"
definition de_name :: "u8 list \<Rightarrow> u8 list" where "de_name de = slice 2 DIRSIZ de"

text \<open>The inode found, with its offset in the directory, or \<open>None\<close>.\<close>

function dirlookup_from :: "devsw \<Rightarrow> nat \<Rightarrow> u8 list \<Rightarrow> nat \<Rightarrow> nat \<Rightarrow> fs \<Rightarrow> ((nat \<times> nat) option \<times> fs) res" where
  "dirlookup_from dv dp name sz off st =
     (if off < sz then
        bindR (readi dv dp (of_nat off) 16 st) (\<lambda>(r, de, st).
          if r \<noteq> 16 then Inl (Panic ''dirlookup read'')
          else if de_inum de = 0 then dirlookup_from dv dp name sz (off + 16) st
          else bindR (namecmp name (de_name de)) (\<lambda>c.
            if c = 0 then
              bindR (iget (ip_dev (inode_at dp st)) (de_inum de) st) (\<lambda>(ip, st). Inr (Some (ip, off), st))
            else dirlookup_from dv dp name sz (off + 16) st))
      else Inr (None, st))"
  by pat_completeness auto
termination
  by (relation "measure (\<lambda>(dv, dp, name, sz, off, st). sz - off)") auto

declare dirlookup_from.simps [simp del]

definition dirlookup :: "devsw \<Rightarrow> nat \<Rightarrow> u8 list \<Rightarrow> fs \<Rightarrow> ((nat \<times> nat) option \<times> fs) res" where
  "dirlookup dv dp name st =
     (if ip_type (inode_at dp st) \<noteq> T_DIR then Inl (Panic ''dirlookup not DIR'')
      else dirlookup_from dv dp name (unat (ip_size (inode_at dp st))) 0 st)"

text \<open>The offset of the first empty entry, or the end of the directory.\<close>

function empty_dirent :: "devsw \<Rightarrow> nat \<Rightarrow> nat \<Rightarrow> nat \<Rightarrow> fs \<Rightarrow> (nat \<times> fs) res" where
  "empty_dirent dv dp sz off st =
     (if off < sz then
        bindR (readi dv dp (of_nat off) 16 st) (\<lambda>(r, de, st).
          if r \<noteq> 16 then Inl (Panic ''dirlink read'')
          else if de_inum de = 0 then Inr (off, st)
          else empty_dirent dv dp sz (off + 16) st)
      else Inr (off, st))"
  by pat_completeness auto
termination
  by (relation "measure (\<lambda>(dv, dp, sz, off, st). sz - off)") auto

declare empty_dirent.simps [simp del]

definition dirent_bytes :: "nat \<Rightarrow> u8 list \<Rightarrow> u8 list" where
  "dirent_bytes inum name = bytes_of_u16 (of_nat inum) @ name_buf (takeWhile (\<lambda>c. c \<noteq> 0) name)"

definition dirlink :: "devsw \<Rightarrow> nat \<Rightarrow> u8 list \<Rightarrow> nat \<Rightarrow> fs \<Rightarrow> (int \<times> fs) res" where
  "dirlink dv dp name inum st =
     bindR (dirlookup dv dp name st) (\<lambda>(found, st).
       case found of
         Some (ip, _) \<Rightarrow> bindR (iput ip st) (\<lambda>st. Inr (-1, st))
       | None \<Rightarrow>
           bindR (empty_dirent dv dp (unat (ip_size (inode_at dp st))) 0 st) (\<lambda>(off, st).
           bindR (writei dv dp (dirent_bytes inum name) (of_nat off) st) (\<lambda>(r, st).
             if r \<noteq> 16 then Inl (Panic ''dirlink'') else Inr (0, st))))"

section \<open>Paths\<close>

definition SLASH :: u8 where "SLASH = 47"

text \<open>\<open>skipelem\<close> on the bytes of a path: the rest of the path and the element, or \<open>None\<close>.\<close>

definition skipelem :: "u8 list \<Rightarrow> (u8 list \<times> u8 list) option" where
  "skipelem path =
     (let s = dropWhile (\<lambda>c. c = SLASH) path in
      if s = [] then None
      else
        let elem = takeWhile (\<lambda>c. c \<noteq> SLASH) s; rest = dropWhile (\<lambda>c. c \<noteq> SLASH) s in
        Some (dropWhile (\<lambda>c. c = SLASH) rest,
              if length elem \<ge> DIRSIZ then take DIRSIZ elem else name_buf elem))"

lemma skipelem_shrinks: "skipelem path = Some (rest, name) \<Longrightarrow> length rest < length path"
proof -
  assume a: "skipelem path = Some (rest, name)"
  define s where "s = dropWhile (\<lambda>c. c = SLASH) path"
  have ne: "s \<noteq> []" and r: "rest = dropWhile (\<lambda>c. c = SLASH) (dropWhile (\<lambda>c. c \<noteq> SLASH) s)"
    using a by (auto simp: skipelem_def s_def Let_def split: if_splits)
  then obtain c t where s: "s = c # t" by (cases s) auto
  have "c \<noteq> SLASH" using hd_dropWhile [of "\<lambda>c. c = SLASH" path] ne s by (simp add: s_def)
  then have "length rest \<le> length t"
    unfolding r s using length_dropWhile_le le_trans by (simp, blast)
  moreover have "length s \<le> length path" by (simp add: s_def length_dropWhile_le)
  ultimately show ?thesis by (simp add: s)
qed

text \<open>\<open>namex\<close> from inode \<open>ip\<close> on; with \<open>parent\<close> it stops one element early and also gives the last name.\<close>

function namex_from :: "devsw \<Rightarrow> bool \<Rightarrow> nat \<Rightarrow> u8 list \<Rightarrow> u8 list \<Rightarrow> fs \<Rightarrow> ((nat \<times> u8 list) option \<times> fs) res" where
  "namex_from dv parent ip path name st =
     (case skipelem path of
        None \<Rightarrow>
          if parent then bindR (iput ip st) (\<lambda>st. Inr (None, st)) else Inr (Some (ip, name), st)
      | Some (path', name) \<Rightarrow>
          bindR (ilock ip st) (\<lambda>st.
            if ip_type (inode_at ip st) \<noteq> T_DIR then bindR (iunlockput ip st) (\<lambda>st. Inr (None, st))
            else if parent \<and> path' = [] then bindR (iunlock ip st) (\<lambda>st. Inr (Some (ip, name), st))
            else bindR (dirlookup dv ip name st) (\<lambda>(found, st).
              case found of
                None \<Rightarrow> bindR (iunlockput ip st) (\<lambda>st. Inr (None, st))
              | Some (ip', _) \<Rightarrow> bindR (iunlockput ip st) (\<lambda>st. namex_from dv parent ip' path' name st))))"
  by pat_completeness auto
termination
  by (relation "measure (\<lambda>(dv, parent, ip, path, name, st). length path)") (auto dest: skipelem_shrinks)

declare namex_from.simps [simp del]

text \<open>\<open>cwd\<close> is the current directory of the calling process.\<close>

definition namex :: "devsw \<Rightarrow> nat \<Rightarrow> u8 list \<Rightarrow> bool \<Rightarrow> fs \<Rightarrow> ((nat \<times> u8 list) option \<times> fs) res" where
  "namex dv cwd path parent st =
     bindR (if path \<noteq> [] \<and> hd path = SLASH then iget ROOTDEV ROOTINO st else Inr (idup cwd st)) (\<lambda>(ip, st).
       namex_from dv parent ip path [] st)"

definition namei :: "devsw \<Rightarrow> nat \<Rightarrow> u8 list \<Rightarrow> fs \<Rightarrow> (nat option \<times> fs) res" where
  "namei dv cwd path st =
     bindR (namex dv cwd path False st) (\<lambda>(r, st). Inr (map_option fst r, st))"

definition nameiparent :: "devsw \<Rightarrow> nat \<Rightarrow> u8 list \<Rightarrow> fs \<Rightarrow> ((nat \<times> u8 list) option \<times> fs) res" where
  "nameiparent dv cwd path st = namex dv cwd path True st"

end
