(* ===== verification/File.thy ===== *)
theory File
  imports Fs Pipe Kalloc
begin

text \<open>
  Open files (\<open>file.c\<close>, \<open>file.h\<close>, \<open>pipealloc\<close> of \<open>pipe.c\<close>): the table of open file objects with
  their reference counts, over the file system of \<open>Fs\<close>, the pipes of \<open>Pipe\<close> and the page
  allocator.  Pointers to file objects are indices into the table; a pipe is named by the address
  of its page.  A transaction that has to wait for the log is \<open>Blocked\<close>.
\<close>

section \<open>State\<close>

definition NFILE :: nat where "NFILE = 100"

datatype ftype = FD_NONE | FD_PIPE | FD_INODE

record fileobj =
  f_type :: ftype
  f_ref :: int
  f_readable :: bool
  f_writable :: bool
  f_pipe :: nat
  f_ip :: nat
  f_off :: u32

record sys =
  sy_fs :: fs
  sy_ftable :: "fileobj list"
  sy_pipes :: "nat \<Rightarrow> pipe"
  sy_kmem :: kmem

abbreviation file_at :: "nat \<Rightarrow> sys \<Rightarrow> fileobj" where
  "file_at f st \<equiv> sy_ftable st ! f"

definition upd_file :: "nat \<Rightarrow> (fileobj \<Rightarrow> fileobj) \<Rightarrow> sys \<Rightarrow> sys" where
  "upd_file f g st = st\<lparr>sy_ftable := (sy_ftable st)[f := g (sy_ftable st ! f)]\<rparr>"

text \<open>The operations of the file system on the whole state.\<close>

definition on_fs :: "(fs \<Rightarrow> fs res) \<Rightarrow> sys \<Rightarrow> sys res" where
  "on_fs g st = bindR (g (sy_fs st)) (\<lambda>s. Inr (st\<lparr>sy_fs := s\<rparr>))"

definition on_fs_val :: "(fs \<Rightarrow> ('a \<times> fs) res) \<Rightarrow> sys \<Rightarrow> ('a \<times> sys) res" where
  "on_fs_val g st = bindR (g (sy_fs st)) (\<lambda>(x, s). Inr (x, st\<lparr>sy_fs := s\<rparr>))"

definition on_kmem :: "(kmem \<Rightarrow> kmem res) \<Rightarrow> sys \<Rightarrow> sys res" where
  "on_kmem g st = bindR (g (sy_kmem st)) (\<lambda>m. Inr (st\<lparr>sy_kmem := m\<rparr>))"

definition on_kmem_val :: "(kmem \<Rightarrow> ('a \<times> kmem) res) \<Rightarrow> sys \<Rightarrow> ('a \<times> sys) res" where
  "on_kmem_val g st = bindR (g (sy_kmem st)) (\<lambda>(x, m). Inr (x, st\<lparr>sy_kmem := m\<rparr>))"

definition begin_tx :: "sys \<Rightarrow> sys res" where
  "begin_tx = on_fs (\<lambda>s. case begin_op (fs_log s) of None \<Rightarrow> Inl Blocked | Some l \<Rightarrow> Inr (s\<lparr>fs_log := l\<rparr>))"

definition end_tx :: "sys \<Rightarrow> sys res" where
  "end_tx = on_fs (\<lambda>s. bindR (end_op (fs_log s)) (\<lambda>l. Inr (s\<lparr>fs_log := l\<rparr>)))"

section \<open>References\<close>

definition filealloc :: "sys \<Rightarrow> nat option \<times> sys" where
  "filealloc st =
     (case find (\<lambda>f. f_ref (file_at f st) = 0) [0..<length (sy_ftable st)] of
        Some f \<Rightarrow> (Some f, upd_file f (\<lambda>x. x\<lparr>f_ref := 1\<rparr>) st)
      | None \<Rightarrow> (None, st))"

definition filedup :: "nat \<Rightarrow> sys \<Rightarrow> sys res" where
  "filedup f st =
     (if f_ref (file_at f st) < 1 then Inl (Panic ''filedup'')
      else Inr (upd_file f (\<lambda>x. x\<lparr>f_ref := f_ref x + 1\<rparr>) st))"

text \<open>\<open>pipeclose\<close> in the whole state: the last end that closes frees the page.\<close>

definition close_pipe :: "nat \<Rightarrow> nat \<Rightarrow> bool \<Rightarrow> sys \<Rightarrow> sys res" where
  "close_pipe kend p writable st =
     (case pipeclose writable (sy_pipes st p) of (pp, unused) \<Rightarrow>
        let st = st\<lparr>sy_pipes := (sy_pipes st)(p := pp)\<rparr> in
        if unused then on_kmem (kfree kend p) st else Inr st)"

definition fileclose :: "nat \<Rightarrow> nat \<Rightarrow> sys \<Rightarrow> sys res" where
  "fileclose kend f st =
     (let ff = file_at f st in
      if f_ref ff < 1 then Inl (Panic ''fileclose'')
      else if f_ref ff - 1 > 0 then Inr (upd_file f (\<lambda>x. x\<lparr>f_ref := f_ref x - 1\<rparr>) st)
      else
        let st = upd_file f (\<lambda>x. x\<lparr>f_ref := 0, f_type := FD_NONE\<rparr>) st in
        case f_type ff of
          FD_PIPE \<Rightarrow> close_pipe kend (f_pipe ff) (f_writable ff) st
        | FD_INODE \<Rightarrow> bindR (begin_tx st) (\<lambda>st. bindR (on_fs (iput (f_ip ff)) st) end_tx)
        | FD_NONE \<Rightarrow> Inr st)"

section \<open>Pipes\<close>

text \<open>\<open>pipealloc\<close> with its error exit: what was allocated is given back.\<close>

definition pipe_bad :: "nat \<Rightarrow> nat option \<Rightarrow> nat option \<Rightarrow> sys \<Rightarrow> ((nat \<times> nat) option \<times> sys) res" where
  "pipe_bad kend f0 f1 st =
     bindR (case f0 of None \<Rightarrow> Inr st | Some f \<Rightarrow> fileclose kend f st) (\<lambda>st.
     bindR (case f1 of None \<Rightarrow> Inr st | Some f \<Rightarrow> fileclose kend f st) (\<lambda>st. Inr (None, st)))"

definition pipealloc :: "nat \<Rightarrow> sys \<Rightarrow> ((nat \<times> nat) option \<times> sys) res" where
  "pipealloc kend st =
     (case filealloc st of
        (None, st) \<Rightarrow> pipe_bad kend None None st
      | (Some f0, st) \<Rightarrow>
        case filealloc st of
          (None, st) \<Rightarrow> pipe_bad kend (Some f0) None st
        | (Some f1, st) \<Rightarrow>
          case kalloc (sy_kmem st) of (p, m) \<Rightarrow>
            let st = st\<lparr>sy_kmem := m\<rparr> in
            if p = 0 then pipe_bad kend (Some f0) (Some f1) st
            else
              let st = st\<lparr>sy_pipes := (sy_pipes st)(p := pipe_new (map (km_mem m) [p..<p + PIPESIZE]))\<rparr>;
                  st = upd_file f0 (\<lambda>x. x\<lparr>f_type := FD_PIPE, f_readable := True, f_writable := False, f_pipe := p\<rparr>) st;
                  st = upd_file f1 (\<lambda>x. x\<lparr>f_type := FD_PIPE, f_readable := False, f_writable := True, f_pipe := p\<rparr>) st
              in Inr (Some (f0, f1), st))"

section \<open>Reading and writing\<close>

definition filestat :: "nat \<Rightarrow> sys \<Rightarrow> (stat option \<times> sys) res" where
  "filestat f st =
     (if f_type (file_at f st) = FD_INODE then
        let ip = f_ip (file_at f st) in
        bindR (on_fs (ilock ip) st) (\<lambda>st.
        let s = stati ip (sy_fs st) in
        bindR (on_fs (iunlock ip) st) (\<lambda>st. Inr (Some s, st)))
      else Inr (None, st))"

text \<open>A read returns a result and the bytes for the caller's buffer, or sleeps on an empty pipe.\<close>

datatype read_end = Read_done int "u8 list" | Read_waits

definition fileread :: "devsw \<Rightarrow> bool \<Rightarrow> nat \<Rightarrow> int \<Rightarrow> sys \<Rightarrow> (read_end \<times> sys) res" where
  "fileread dv killed f n st =
     (let x = file_at f st in
      if \<not> f_readable x then Inr (Read_done (-1) [], st)
      else case f_type x of
        FD_PIPE \<Rightarrow>
          (case piperead killed n (sy_pipes st (f_pipe x)) of (r, p) \<Rightarrow>
             let st = st\<lparr>sy_pipes := (sy_pipes st)(f_pipe x := p)\<rparr> in
             (case r of
                Got bs \<Rightarrow> Inr (Read_done (int (length bs)) bs, st)
              | Read_error \<Rightarrow> Inr (Read_done (-1) [], st)
              | Read_sleep \<Rightarrow> Inr (Read_waits, st)))
      | FD_INODE \<Rightarrow>
          bindR (on_fs (ilock (f_ip x)) st) (\<lambda>st.
          bindR (readi dv (f_ip x) (f_off x) (word_of_int n) (sy_fs st)) (\<lambda>(r, bs, s).
          let st = st\<lparr>sy_fs := s\<rparr>;
              st = (if r > 0 then upd_file f (\<lambda>x. x\<lparr>f_off := f_off x + word_of_int r\<rparr>) st else st) in
          bindR (on_fs (iunlock (f_ip x)) st) (\<lambda>st. Inr (Read_done r bs, st))))
      | FD_NONE \<Rightarrow> Inl (Panic ''fileread''))"

text \<open>
  The loop of \<open>filewrite\<close> for an inode, a transaction for each few blocks; the result says whether
  all bytes were written.
\<close>

definition MAXWRITE :: nat where "MAXWRITE = ((MAXOPBLOCKS - 1 - 1 - 2) div 2) * 512"

function filewrite_loop :: "devsw \<Rightarrow> nat \<Rightarrow> u8 list \<Rightarrow> sys \<Rightarrow> (bool \<times> sys) res" where
  "filewrite_loop dv f src st =
     (if src \<noteq> [] then
        let n1 = min (length src) MAXWRITE in
        bindR (begin_tx st) (\<lambda>st.
        let ip = f_ip (file_at f st) in
        bindR (on_fs (ilock ip) st) (\<lambda>st.
        bindR (on_fs_val (writei dv ip (take n1 src) (f_off (file_at f st))) st) (\<lambda>(r, st).
        let st = (if r > 0 then upd_file f (\<lambda>x. x\<lparr>f_off := f_off x + word_of_int r\<rparr>) st else st) in
        bindR (on_fs (iunlock ip) st) (\<lambda>st.
        bindR (end_tx st) (\<lambda>st.
          if r < 0 then Inr (False, st)
          else if r \<noteq> int n1 then Inl (Panic ''short filewrite'')
          else filewrite_loop dv f (drop n1 src) st)))))
      else Inr (True, st))"
  by pat_completeness auto
termination
  by (relation "measure (\<lambda>(dv, f, src, st). length src)")
    (auto simp: MAXWRITE_def MAXOPBLOCKS_def)

declare filewrite_loop.simps [simp del]

text \<open>A write returns a result, or sleeps on a full pipe with some bytes left.\<close>

datatype write_end = Write_done int | Write_waits "u8 list"

definition filewrite :: "devsw \<Rightarrow> bool \<Rightarrow> nat \<Rightarrow> u8 list \<Rightarrow> sys \<Rightarrow> (write_end \<times> sys) res" where
  "filewrite dv killed f src st =
     (let x = file_at f st in
      if \<not> f_writable x then Inr (Write_done (-1), st)
      else case f_type x of
        FD_PIPE \<Rightarrow>
          (case pipewrite killed src (sy_pipes st (f_pipe x)) of (r, p) \<Rightarrow>
             let st = st\<lparr>sy_pipes := (sy_pipes st)(f_pipe x := p)\<rparr> in
             (case r of
                Written \<Rightarrow> Inr (Write_done (int (length src)), st)
              | Write_error \<Rightarrow> Inr (Write_done (-1), st)
              | Write_sleep rest \<Rightarrow> Inr (Write_waits rest, st)))
      | FD_INODE \<Rightarrow>
          bindR (filewrite_loop dv f src st) (\<lambda>(ok, st).
            Inr (Write_done (if ok then int (length src) else -1), st))
      | FD_NONE \<Rightarrow> Inl (Panic ''filewrite''))"

end
