(* ===== verification/Vm.thy ===== *)
theory Vm
  imports Kalloc
begin

text \<open>
  Page tables and user address spaces (\<open>vm.c\<close>, \<open>mmu.h\<close>), and the page fault handler of
  \<open>trap.c\<close>, which allocates the heap on demand.  Page tables are words in the byte memory, at
  the kernel addresses \<open>walkpgdir\<close> computes; pages come from the allocator of \<open>Kalloc\<close>.  User
  virtual addresses are 32-bit words, kernel addresses are numbers.
\<close>

section \<open>Page table entries (mmu.h)\<close>

definition PTE_P :: u32 where "PTE_P = 1"
definition PTE_W :: u32 where "PTE_W = 2"
definition PTE_U :: u32 where "PTE_U = 4"
definition EXTMEM :: nat where "EXTMEM = 0x100000"
definition DEVSPACE :: nat where "DEVSPACE = 0xFE000000"
definition NPDENTRIES :: nat where "NPDENTRIES = 1024"

definition PDX :: "u32 \<Rightarrow> nat" where "PDX va = unat (drop_bit 22 va AND 0x3FF)"
definition PTX :: "u32 \<Rightarrow> nat" where "PTX va = unat (drop_bit 12 va AND 0x3FF)"
definition PTE_ADDR :: "u32 \<Rightarrow> nat" where "PTE_ADDR pte = unat (pte AND NOT 0xFFF)"
definition PTE_FLAGS :: "u32 \<Rightarrow> u32" where "PTE_FLAGS pte = pte AND 0xFFF"
definition PGROUNDDOWN :: "u32 \<Rightarrow> u32" where "PGROUNDDOWN a = a AND NOT 0xFFF"
definition PGROUNDUP :: "u32 \<Rightarrow> u32" where "PGROUNDUP a = (a + 0xFFF) AND NOT 0xFFF"

lemma page_offset: "va - PGROUNDDOWN va = va AND 0xFFF"
proof -
  have "va - PGROUNDDOWN va = va AND NOT (PGROUNDDOWN va)"
    unfolding PGROUNDDOWN_def by (rule disjunctive_diff) (simp add: bit_simps)
  also have "\<dots> = va AND 0xFFF" by (rule bit_eqI) (auto simp: PGROUNDDOWN_def bit_simps)
  finally show ?thesis .
qed

lemma page_offset_less: "unat (va - PGROUNDDOWN va) < PGSIZE"
proof -
  have "va AND 0xFFF = take_bit 12 va" by (simp add: take_bit_eq_mask mask_eq_exp_minus_1)
  then have "unat (va AND 0xFFF) = take_bit 12 (unat va)" by (simp add: unsigned_take_bit_eq)
  also have "\<dots> < 2 ^ 12" by (rule take_bit_nat_less_exp)
  finally show ?thesis unfolding page_offset by (simp add: PGSIZE_def)
qed

abbreviation present :: "u32 \<Rightarrow> bool" where "present pte \<equiv> pte AND PTE_P \<noteq> 0"

abbreviation load_pte :: "nat \<Rightarrow> kmem \<Rightarrow> u32" where "load_pte a st \<equiv> load32 (km_mem st) a"

definition store_pte :: "nat \<Rightarrow> u32 \<Rightarrow> kmem \<Rightarrow> kmem" where
  "store_pte a v st = st\<lparr>km_mem := store32 a v (km_mem st)\<rparr>"

definition zero_page :: "nat \<Rightarrow> kmem \<Rightarrow> kmem" where
  "zero_page a st = st\<lparr>km_mem := fill a 0 PGSIZE (km_mem st)\<rparr>"

definition copy_bytes :: "nat \<Rightarrow> nat \<Rightarrow> nat \<Rightarrow> memory \<Rightarrow> memory" where
  "copy_bytes dst src n m = (\<lambda>x. if dst \<le> x \<and> x < dst + n then m (src + (x - dst)) else m x)"

definition put_bytes :: "nat \<Rightarrow> u8 list \<Rightarrow> memory \<Rightarrow> memory" where
  "put_bytes dst bs m = (\<lambda>x. if dst \<le> x \<and> x < dst + length bs then bs ! (x - dst) else m x)"

section \<open>Walking and mapping\<close>

text \<open>The address of the entry for \<open>va\<close>, or the null pointer.\<close>

definition walkpgdir :: "nat \<Rightarrow> u32 \<Rightarrow> bool \<Rightarrow> kmem \<Rightarrow> (nat \<times> kmem) res" where
  "walkpgdir pgdir va al st =
     (let pde = pgdir + 4 * PDX va in
      if present (load_pte pde st)
      then bindR (P2V (PTE_ADDR (load_pte pde st))) (\<lambda>pgtab. Inr (pgtab + 4 * PTX va, st))
      else if \<not> al then Inr (0, st)
      else case kalloc st of (pgtab, st) \<Rightarrow>
        if pgtab = 0 then Inr (0, st)
        else
          let st = zero_page pgtab st in
          bindR (V2P pgtab) (\<lambda>pa.
            Inr (pgtab + 4 * PTX va,
                 store_pte pde (of_nat pa OR PTE_P OR PTE_W OR PTE_U) st)))"

text \<open>
  The loop of \<open>mappages\<close> runs from page \<open>a\<close> to page \<open>last\<close>; \<open>n\<close> counts the pages from \<open>a\<close> to
  \<open>last\<close>.  The result is \<open>0\<close>, or \<open>-1\<close> when there is no memory for a page table.
\<close>

fun mappages_loop :: "nat \<Rightarrow> u32 \<Rightarrow> u32 \<Rightarrow> u32 \<Rightarrow> nat \<Rightarrow> kmem \<Rightarrow> (int \<times> kmem) res" where
  "mappages_loop pgdir a pa perm n st =
     bindR (walkpgdir pgdir a True st) (\<lambda>(pte, st).
       if pte = 0 then Inr (-1, st)
       else if present (load_pte pte st) then Inl (Panic ''remap'')
       else
         let st = store_pte pte (pa OR perm OR PTE_P) st in
         (case n of 0 \<Rightarrow> Inr (0, st)
          | Suc n \<Rightarrow> mappages_loop pgdir (a + 4096) (pa + 4096) perm n st))"

declare mappages_loop.simps [simp del]

definition mappages :: "nat \<Rightarrow> u32 \<Rightarrow> u32 \<Rightarrow> u32 \<Rightarrow> u32 \<Rightarrow> kmem \<Rightarrow> (int \<times> kmem) res" where
  "mappages pgdir va sz pa perm st =
     (let a = PGROUNDDOWN va; last = PGROUNDDOWN (va + sz - 1) in
      mappages_loop pgdir a pa perm (unat (last - a) div PGSIZE) st)"

section \<open>Freeing\<close>

definition next_table :: "nat \<Rightarrow> nat" where
  "next_table a = (a div 0x400000 + 1) * 0x400000"

lemma next_table_greater: "a < next_table a"
  using dividend_less_div_times [of "0x400000" a] by (simp add: next_table_def)

text \<open>
  \<open>deallocuvm\<close> from page \<open>a\<close> on; sizes are at most \<open>KERNBASE\<close>, so that \<open>a\<close> does not wrap.  A missing
  page table skips to the next multiple of 4 MB.
\<close>

function deallocuvm_loop :: "nat \<Rightarrow> nat \<Rightarrow> nat \<Rightarrow> nat \<Rightarrow> kmem \<Rightarrow> kmem res" where
  "deallocuvm_loop kend pgdir a oldsz st =
     (if a < oldsz then
        bindR (walkpgdir pgdir (of_nat a) False st) (\<lambda>(pte, st).
          if pte = 0 then deallocuvm_loop kend pgdir (next_table a) oldsz st
          else if present (load_pte pte st) then
            let pa = PTE_ADDR (load_pte pte st) in
            if pa = 0 then Inl (Panic ''kfree'')
            else bindR (P2V pa) (\<lambda>v. bindR (kfree kend v st) (\<lambda>st.
              deallocuvm_loop kend pgdir (a + PGSIZE) oldsz (store_pte pte 0 st)))
          else deallocuvm_loop kend pgdir (a + PGSIZE) oldsz st)
      else Inr st)"
  by pat_completeness auto
termination
proof (relation "measure (\<lambda>(kend, pgdir, a, oldsz, st). oldsz - a)", goal_cases)
  case (2 kend pgdir a oldsz st x pte st')
  then show ?case using next_table_greater [of a] by simp
qed (auto simp: PGSIZE_def)

declare deallocuvm_loop.simps [simp del]

definition deallocuvm :: "nat \<Rightarrow> nat \<Rightarrow> u32 \<Rightarrow> u32 \<Rightarrow> kmem \<Rightarrow> (u32 \<times> kmem) res" where
  "deallocuvm kend pgdir oldsz newsz st =
     (if newsz \<ge> oldsz then Inr (oldsz, st)
      else bindR (deallocuvm_loop kend pgdir (unat (PGROUNDUP newsz)) (unat oldsz) st) (\<lambda>st.
        Inr (newsz, st)))"

text \<open>The page tables, then the directory.\<close>

fun free_tables :: "nat \<Rightarrow> nat \<Rightarrow> nat list \<Rightarrow> kmem \<Rightarrow> kmem res" where
  "free_tables kend pgdir [] st = Inr st"
| "free_tables kend pgdir (i # is) st =
     (let pde = load_pte (pgdir + 4 * i) st in
      if present pde
      then bindR (P2V (PTE_ADDR pde)) (\<lambda>v. bindR (kfree kend v st) (free_tables kend pgdir is))
      else free_tables kend pgdir is st)"

definition freevm :: "nat \<Rightarrow> nat \<Rightarrow> kmem \<Rightarrow> kmem res" where
  "freevm kend pgdir st =
     (if pgdir = 0 then Inl (Panic ''freevm: no pgdir'')
      else bindR (deallocuvm kend pgdir (of_nat KERNBASE) 0 st) (\<lambda>(_, st).
        bindR (free_tables kend pgdir [0..<NPDENTRIES] st) (kfree kend pgdir)))"

section \<open>Building address spaces\<close>

text \<open>The kernel's mappings; \<open>kdata\<close> is the address of its data, which the linker defines.\<close>

definition kmap :: "nat \<Rightarrow> (u32 \<times> u32 \<times> u32 \<times> u32) list" where
  "kmap kdata =
     [(of_nat KERNBASE, 0, of_nat EXTMEM, PTE_W),
      (of_nat (KERNBASE + EXTMEM), of_nat EXTMEM, of_nat (kdata - KERNBASE), 0),
      (of_nat kdata, of_nat (kdata - KERNBASE), of_nat PHYSTOP, PTE_W),
      (of_nat DEVSPACE, of_nat DEVSPACE, 0, PTE_W)]"

fun setupkvm_loop :: "nat \<Rightarrow> nat \<Rightarrow> (u32 \<times> u32 \<times> u32 \<times> u32) list \<Rightarrow> kmem \<Rightarrow> (nat \<times> kmem) res" where
  "setupkvm_loop kend pgdir [] st = Inr (pgdir, st)"
| "setupkvm_loop kend pgdir ((virt, phys_start, phys_end, perm) # ks) st =
     bindR (mappages pgdir virt (phys_end - phys_start) phys_start perm st) (\<lambda>(r, st).
       if r < 0 then bindR (freevm kend pgdir st) (\<lambda>st. Inr (0, st))
       else setupkvm_loop kend pgdir ks st)"

definition setupkvm :: "nat \<Rightarrow> nat \<Rightarrow> kmem \<Rightarrow> (nat \<times> kmem) res" where
  "setupkvm kend kdata st =
     (case kalloc st of (pgdir, st) \<Rightarrow>
        if pgdir = 0 then Inr (0, st)
        else
          let st = zero_page pgdir st in
          bindR (P2V PHYSTOP) (\<lambda>top.
            if top > DEVSPACE then Inl (Panic ''PHYSTOP too high'')
            else setupkvm_loop kend pgdir (kmap kdata) st))"

text \<open>The first process; \<open>kalloc\<close> is not checked.\<close>

definition inituvm :: "nat \<Rightarrow> u8 list \<Rightarrow> kmem \<Rightarrow> kmem res" where
  "inituvm pgdir code st =
     (if length code \<ge> PGSIZE then Inl (Panic ''inituvm: more than a page'')
      else case kalloc st of (mem, st) \<Rightarrow>
        if mem = 0 then Inl Fault
        else
          let st = zero_page mem st in
          bindR (V2P mem) (\<lambda>pa.
          bindR (mappages pgdir 0 4096 (of_nat pa) (PTE_W OR PTE_U) st) (\<lambda>(_, st).
            Inr (st\<lparr>km_mem := put_bytes mem code (km_mem st)\<rparr>))))"

text \<open>
  \<open>loaduvm\<close>; \<open>rd\<close> is \<open>readi\<close> on the file, with the state \<open>s\<close> of the file system: it delivers its result
  and the bytes read.  \<open>i\<close> counts the bytes loaded.
\<close>

type_synonym 's reader = "u32 \<Rightarrow> u32 \<Rightarrow> 's \<Rightarrow> (int \<times> u8 list \<times> 's) res"

function loaduvm_loop ::
  "nat \<Rightarrow> u32 \<Rightarrow> 's reader \<Rightarrow> u32 \<Rightarrow> nat \<Rightarrow> nat \<Rightarrow> kmem \<Rightarrow> 's \<Rightarrow> (int \<times> kmem \<times> 's) res" where
  "loaduvm_loop pgdir addr rd offset sz i st s =
     (if i < sz then
        bindR (walkpgdir pgdir (addr + of_nat i) False st) (\<lambda>(pte, st).
          if pte = 0 then Inl (Panic ''loaduvm: address should exist'')
          else
            let pa = PTE_ADDR (load_pte pte st); n = (if sz - i < PGSIZE then sz - i else PGSIZE) in
            bindR (P2V pa) (\<lambda>v.
            bindR (rd (offset + of_nat i) (of_nat n) s) (\<lambda>(r, bs, s).
              let st = st\<lparr>km_mem := put_bytes v bs (km_mem st)\<rparr> in
              if r \<noteq> int n then Inr (-1, st, s)
              else loaduvm_loop pgdir addr rd offset sz (i + PGSIZE) st s)))
      else Inr (0, st, s))"
  by pat_completeness auto
termination
  by (relation "measure (\<lambda>(pgdir, addr, rd, offset, sz, i, st, s). sz - i)") (auto simp: PGSIZE_def)

declare loaduvm_loop.simps [simp del]

definition loaduvm ::
  "nat \<Rightarrow> u32 \<Rightarrow> 's reader \<Rightarrow> u32 \<Rightarrow> nat \<Rightarrow> kmem \<Rightarrow> 's \<Rightarrow> (int \<times> kmem \<times> 's) res" where
  "loaduvm pgdir addr rd offset sz st s =
     (if unat addr mod PGSIZE \<noteq> 0 then Inl (Panic ''loaduvm: addr must be page aligned'')
      else loaduvm_loop pgdir addr rd offset sz 0 st s)"

text \<open>\<open>allocuvm\<close> maps zeroed pages from \<open>a\<close> to \<open>newsz\<close>; on failure it undoes what it did and returns 0.\<close>

function allocuvm_loop :: "nat \<Rightarrow> nat \<Rightarrow> u32 \<Rightarrow> u32 \<Rightarrow> nat \<Rightarrow> kmem \<Rightarrow> (u32 \<times> kmem) res" where
  "allocuvm_loop kend pgdir oldsz newsz a st =
     (if a < unat newsz then
        case kalloc st of (mem, st) \<Rightarrow>
          if mem = 0 then bindR (deallocuvm kend pgdir newsz oldsz st) (\<lambda>(_, st). Inr (0, st))
          else
            let st = zero_page mem st in
            bindR (V2P mem) (\<lambda>pa.
            bindR (mappages pgdir (of_nat a) 4096 (of_nat pa) (PTE_W OR PTE_U) st) (\<lambda>(r, st).
              if r < 0 then
                bindR (deallocuvm kend pgdir newsz oldsz st) (\<lambda>(_, st).
                bindR (kfree kend mem st) (\<lambda>st. Inr (0, st)))
              else allocuvm_loop kend pgdir oldsz newsz (a + PGSIZE) st))
      else Inr (newsz, st))"
  by pat_completeness auto
termination
  by (relation "measure (\<lambda>(kend, pgdir, oldsz, newsz, a, st). unat newsz - a)") (auto simp: PGSIZE_def)

declare allocuvm_loop.simps [simp del]

definition allocuvm :: "nat \<Rightarrow> nat \<Rightarrow> u32 \<Rightarrow> u32 \<Rightarrow> kmem \<Rightarrow> (u32 \<times> kmem) res" where
  "allocuvm kend pgdir oldsz newsz st =
     (if newsz \<ge> of_nat KERNBASE then Inr (0, st)
      else if newsz < oldsz then Inr (oldsz, st)
      else allocuvm_loop kend pgdir oldsz newsz (unat (PGROUNDUP oldsz)) st)"

definition clearpteu :: "nat \<Rightarrow> u32 \<Rightarrow> kmem \<Rightarrow> kmem res" where
  "clearpteu pgdir uva st =
     bindR (walkpgdir pgdir uva False st) (\<lambda>(pte, st).
       if pte = 0 then Inl (Panic ''clearpteu'')
       else Inr (store_pte pte (load_pte pte st AND NOT PTE_U) st))"

text \<open>
  \<open>copyuvm\<close> from byte \<open>i\<close> on.  With demand allocation (\<open>lazy\<close>, as in \<open>xv6_new_7\<close>) a zero entry is
  skipped; without it (\<open>xv6_work\<close>) every page must be present.
\<close>

function copyuvm_loop :: "bool \<Rightarrow> nat \<Rightarrow> nat \<Rightarrow> nat \<Rightarrow> nat \<Rightarrow> nat \<Rightarrow> kmem \<Rightarrow> (nat \<times> kmem) res" where
  "copyuvm_loop lazy kend pgdir d sz i st =
     (if i < sz then
        bindR (walkpgdir pgdir (of_nat i) False st) (\<lambda>(pte, st).
          if pte = 0 then Inl (Panic ''copyuvm: pte should exist'')
          else if lazy \<and> load_pte pte st = 0 then copyuvm_loop lazy kend pgdir d sz (i + PGSIZE) st
          else if \<not> present (load_pte pte st) then Inl (Panic ''copyuvm: page not present'')
          else
            let pa = PTE_ADDR (load_pte pte st); flags = PTE_FLAGS (load_pte pte st) in
            case kalloc st of (mem, st) \<Rightarrow>
              if mem = 0 then bindR (freevm kend d st) (\<lambda>st. Inr (0, st))
              else
                bindR (P2V pa) (\<lambda>v.
                let st = st\<lparr>km_mem := copy_bytes mem v PGSIZE (km_mem st)\<rparr> in
                bindR (V2P mem) (\<lambda>ma.
                bindR (mappages d (of_nat i) 4096 (of_nat ma) flags st) (\<lambda>(r, st).
                  if r < 0 then
                    bindR (kfree kend mem st) (\<lambda>st. bindR (freevm kend d st) (\<lambda>st. Inr (0, st)))
                  else copyuvm_loop lazy kend pgdir d sz (i + PGSIZE) st))))
      else Inr (d, st))"
  by pat_completeness auto
termination
  by (relation "measure (\<lambda>(lazy, kend, pgdir, d, sz, i, st). sz - i)") (auto simp: PGSIZE_def)

declare copyuvm_loop.simps [simp del]

definition copyuvm_with :: "bool \<Rightarrow> nat \<Rightarrow> nat \<Rightarrow> nat \<Rightarrow> nat \<Rightarrow> kmem \<Rightarrow> (nat \<times> kmem) res" where
  "copyuvm_with lazy kend kdata pgdir sz st =
     bindR (setupkvm kend kdata st) (\<lambda>(d, st).
       if d = 0 then Inr (0, st) else copyuvm_loop lazy kend pgdir d sz 0 st)"

definition copyuvm :: "nat \<Rightarrow> nat \<Rightarrow> nat \<Rightarrow> nat \<Rightarrow> kmem \<Rightarrow> (nat \<times> kmem) res" where
  "copyuvm kend kdata pgdir sz st = copyuvm_with True kend kdata pgdir sz st"

definition copyuvm_work :: "nat \<Rightarrow> nat \<Rightarrow> nat \<Rightarrow> nat \<Rightarrow> kmem \<Rightarrow> (nat \<times> kmem) res" where
  "copyuvm_work kend kdata pgdir sz st = copyuvm_with False kend kdata pgdir sz st"

section \<open>User memory from the kernel\<close>

text \<open>\<open>uva2ka\<close> reads through the pointer of \<open>walkpgdir\<close> without a check.\<close>

definition uva2ka :: "nat \<Rightarrow> u32 \<Rightarrow> kmem \<Rightarrow> nat res" where
  "uva2ka pgdir uva st =
     bindR (walkpgdir pgdir uva False st) (\<lambda>(pte, st).
       if pte = 0 then Inl Fault
       else if \<not> present (load_pte pte st) then Inr 0
       else if load_pte pte st AND PTE_U = 0 then Inr 0
       else P2V (PTE_ADDR (load_pte pte st)))"

function copyout :: "nat \<Rightarrow> u32 \<Rightarrow> u8 list \<Rightarrow> kmem \<Rightarrow> (int \<times> kmem) res" where
  "copyout pgdir va buf st =
     (if buf \<noteq> [] then
        let va0 = PGROUNDDOWN va in
        bindR (uva2ka pgdir va0 st) (\<lambda>pa0.
          if pa0 = 0 then Inr (-1, st)
          else
            let n = PGSIZE - unat (va - va0); n = (if n > length buf then length buf else n) in
            copyout pgdir (va0 + 4096) (drop n buf)
              (st\<lparr>km_mem := put_bytes (pa0 + unat (va - va0)) (take n buf) (km_mem st)\<rparr>))
      else Inr (0, st))"
  by pat_completeness auto
termination
proof (relation "measure (\<lambda>(pgdir, va, buf, st). length buf)", goal_cases)
  case (2 pgdir va buf st va0 pa0 n n')
  have "unat (va - va0) < PGSIZE" using page_offset_less by (simp add: 2)
  with 2 show ?case by (cases buf) auto
qed simp

declare copyout.simps [simp del]

section \<open>Page faults (trap.c)\<close>

text \<open>
  The page fault branch of \<open>trap\<close> at \<open>address\<close> for a process of size \<open>sz\<close>: whether the process is
  marked as killed.  Neither the pointer of \<open>walkpgdir\<close> nor that of \<open>kalloc\<close> is checked.
\<close>

definition page_fault :: "nat \<Rightarrow> nat \<Rightarrow> u32 \<Rightarrow> u32 \<Rightarrow> kmem \<Rightarrow> (bool \<times> kmem) res" where
  "page_fault kend pgdir sz address st =
     (let address = PGROUNDDOWN address in
      bindR (walkpgdir pgdir address True st) (\<lambda>(pte, st).
        if address < sz then
          if pte = 0 then Inl Fault
          else if load_pte pte st = 0 then
            (case kalloc st of (mem, st) \<Rightarrow>
               if mem = 0 then Inl Fault
               else
                 let st = zero_page mem st in
                 bindR (V2P mem) (\<lambda>pa.
                 bindR (mappages pgdir address 4096 (of_nat pa) (PTE_W OR PTE_U) st) (\<lambda>(r, st).
                   if r < 0 then bindR (kfree kend mem st) (\<lambda>st. Inr (False, st))
                   else Inr (False, st))))
          else Inr (True, st)
        else Inr (True, st)))"

end
