(* ===== verification/Proc.thy ===== *)
theory Proc
  imports File Vm Lottery
begin

text \<open>
  Processes (\<open>proc.c\<close>, \<open>proc.h\<close> of \<open>xv6_work\<close>, and the page table queries of \<open>xv6_new_7\<close>): the
  process table over the files, the page allocator and the page tables.  Pointers to processes are
  indices into the table.  There is one processor; each operation runs with the lock of the
  process table held where the code holds it, so the locks are not part of the state.  An
  operation that gives up the processor ends in \<open>sched\<close>, which leaves no current process; the
  scheduler then chooses the next one.
\<close>

section \<open>State\<close>

definition NPROC :: nat where "NPROC = 64"
definition NOFILE :: nat where "NOFILE = 16"
definition KSTACKSIZE :: nat where "KSTACKSIZE = 4096"

datatype chan = No_chan | Proc_chan nat | Ticks_chan | Addr_chan nat

record proc =
  p_sz :: u32
  p_pgdir :: nat
  p_kstack :: nat
  p_state :: procstate
  p_pid :: int
  p_parent :: "nat option"
  p_tf :: nat
  p_context :: nat
  p_chan :: chan
  p_killed :: bool
  p_ofile :: "nat option list"
  p_cwd :: "nat option"
  p_name :: "u8 list"
  p_times_scheduled :: int
  p_tickets :: int

record kernel =
  k_sys :: sys
  k_procs :: "proc list"
  k_cpu :: "nat option"
  k_nextpid :: int
  k_initproc :: "nat option"
  k_seed :: u32
  k_ticks :: u32
  k_writecount :: int

text \<open>
  What the kernel is linked with: the end of the kernel and the start of its data, the addresses
  of \<open>trapret\<close> and \<open>forkret\<close>, the program of the first process, and the device drivers.
\<close>

record env =
  ev_kend :: nat
  ev_kdata :: nat
  ev_trapret :: u32
  ev_forkret :: u32
  ev_initcode :: "u8 list"
  ev_devsw :: devsw

abbreviation proc_at :: "nat \<Rightarrow> kernel \<Rightarrow> proc" where
  "proc_at i k \<equiv> k_procs k ! i"

definition upd_proc :: "nat \<Rightarrow> (proc \<Rightarrow> proc) \<Rightarrow> kernel \<Rightarrow> kernel" where
  "upd_proc i g k = k\<lparr>k_procs := (k_procs k)[i := g (k_procs k ! i)]\<rparr>"

definition on_sys :: "(sys \<Rightarrow> sys res) \<Rightarrow> kernel \<Rightarrow> kernel res" where
  "on_sys g k = bindR (g (k_sys k)) (\<lambda>s. Inr (k\<lparr>k_sys := s\<rparr>))"

definition on_sys_val :: "(sys \<Rightarrow> ('a \<times> sys) res) \<Rightarrow> kernel \<Rightarrow> ('a \<times> kernel) res" where
  "on_sys_val g k = bindR (g (k_sys k)) (\<lambda>(x, s). Inr (x, k\<lparr>k_sys := s\<rparr>))"

abbreviation k_mem :: "kernel \<Rightarrow> memory" where
  "k_mem k \<equiv> km_mem (sy_kmem (k_sys k))"

definition upd_mem :: "(memory \<Rightarrow> memory) \<Rightarrow> kernel \<Rightarrow> kernel" where
  "upd_mem g k = k\<lparr>k_sys := (k_sys k)\<lparr>sy_kmem := (sy_kmem (k_sys k))\<lparr>km_mem := g (k_mem k)\<rparr>\<rparr>\<rparr>"

text \<open>\<open>myproc\<close>; without a current process it is null and the caller traps.\<close>

definition myproc :: "kernel \<Rightarrow> nat res" where
  "myproc k = (case k_cpu k of None \<Rightarrow> Inl Fault | Some c \<Rightarrow> Inr c)"

section \<open>The trap frame (x86.h)\<close>

definition TF_SIZE :: nat where "TF_SIZE = 76"
definition CONTEXT_SIZE :: nat where "CONTEXT_SIZE = 20"
definition TF_EAX :: nat where "TF_EAX = 28"
definition TF_ES :: nat where "TF_ES = 40"
definition TF_DS :: nat where "TF_DS = 44"
definition TF_EIP :: nat where "TF_EIP = 56"
definition TF_CS :: nat where "TF_CS = 60"
definition TF_EFLAGS :: nat where "TF_EFLAGS = 64"
definition TF_ESP :: nat where "TF_ESP = 68"
definition TF_SS :: nat where "TF_SS = 72"

section \<open>Creation\<close>

text \<open>The frame, the return address and the context that \<open>allocproc\<close> lays out on a kernel stack.\<close>

definition stack_tf :: "nat \<Rightarrow> nat" where "stack_tf kstack = kstack + KSTACKSIZE - TF_SIZE"
definition stack_context :: "nat \<Rightarrow> nat" where
  "stack_context kstack = stack_tf kstack - 4 - CONTEXT_SIZE"

definition setup_stack :: "env \<Rightarrow> nat \<Rightarrow> memory \<Rightarrow> memory" where
  "setup_stack ev kstack m =
     (let m = store32 (stack_tf kstack - 4) (ev_trapret ev) m;
          m = fill (stack_context kstack) 0 CONTEXT_SIZE m
      in store32 (stack_context kstack + 16) (ev_forkret ev) m)"

definition allocproc :: "env \<Rightarrow> kernel \<Rightarrow> (nat option \<times> kernel) res" where
  "allocproc ev k =
     (case find (\<lambda>i. p_state (proc_at i k) = UNUSED) [0..<length (k_procs k)] of
        None \<Rightarrow> Inr (None, k)
      | Some i \<Rightarrow>
          if k_nextpid k \<ge> INT_MAX then Inl Fault
          else
            let k = (upd_proc i (\<lambda>p. p\<lparr>p_state := EMBRYO, p_pid := k_nextpid k\<rparr>) k)
                      \<lparr>k_nextpid := k_nextpid k + 1\<rparr> in
            case kalloc (sy_kmem (k_sys k)) of (kstack, m) \<Rightarrow>
              let k = k\<lparr>k_sys := (k_sys k)\<lparr>sy_kmem := m\<rparr>\<rparr>;
                  k = upd_proc i (\<lambda>p. p\<lparr>p_kstack := kstack\<rparr>) k in
              if kstack = 0 then Inr (None, upd_proc i (\<lambda>p. p\<lparr>p_state := UNUSED\<rparr>) k)
              else
                let k = upd_proc i (\<lambda>p. p\<lparr>p_tf := stack_tf kstack, p_context := stack_context kstack\<rparr>) k
                in Inr (Some i, upd_mem (setup_stack ev kstack) k))"

text \<open>Names: \<open>safestrcpy\<close> of a zero-terminated string into the 16 bytes of \<open>name\<close>.\<close>

definition set_name :: "u8 list \<Rightarrow> nat \<Rightarrow> kernel \<Rightarrow> kernel res" where
  "set_name s i k =
     bindR (safestrcpy 0 16 16 (p_name (proc_at i k) @ s)) (\<lambda>m.
       Inr (upd_proc i (\<lambda>p. p\<lparr>p_name := take 16 m\<rparr>) k))"

definition bytes_of_chars :: "string \<Rightarrow> u8 list" where
  "bytes_of_chars s = map of_char s"

text \<open>Paths of the current process start at its directory unless they start with a slash.\<close>

definition proc_namei :: "env \<Rightarrow> nat \<Rightarrow> u8 list \<Rightarrow> kernel \<Rightarrow> (nat option \<times> kernel) res" where
  "proc_namei ev i path k =
     (case (path \<noteq> [] \<and> hd path = SLASH, p_cwd (proc_at i k)) of
        (True, _) \<Rightarrow> on_sys_val (on_fs_val (namei (ev_devsw ev) 0 path)) k
      | (False, Some cwd) \<Rightarrow> on_sys_val (on_fs_val (namei (ev_devsw ev) cwd path)) k
      | (False, None) \<Rightarrow> Inl Fault)"

definition store16 :: "nat \<Rightarrow> u16 \<Rightarrow> memory \<Rightarrow> memory" where
  "store16 a v m = (\<lambda>x. if a \<le> x \<and> x < a + 2 then bytes_of_u16 v ! (x - a) else m x)"

text \<open>The trap frame of the first process: user segments, interrupts on, one page of memory.\<close>

definition first_frame :: "nat \<Rightarrow> memory \<Rightarrow> memory" where
  "first_frame tf m =
     (let m = fill tf 0 TF_SIZE m;
          m = store16 (tf + TF_CS) 27 m; m = store16 (tf + TF_DS) 35 m;
          m = store16 (tf + TF_ES) 35 m; m = store16 (tf + TF_SS) 35 m;
          m = store32 (tf + TF_EFLAGS) 0x200 m; m = store32 (tf + TF_ESP) (of_nat PGSIZE) m
      in store32 (tf + TF_EIP) 0 m)"

definition userinit :: "env \<Rightarrow> kernel \<Rightarrow> kernel res" where
  "userinit ev k =
     bindR (allocproc ev k) (\<lambda>(np, k).
     let k = k\<lparr>k_initproc := np\<rparr> in
     case np of
       None \<Rightarrow> Inl Fault
     | Some i \<Rightarrow>
         bindR (on_sys_val (on_kmem_val (setupkvm (ev_kend ev) (ev_kdata ev))) k) (\<lambda>(pgdir, k).
         let k = upd_proc i (\<lambda>p. p\<lparr>p_pgdir := pgdir\<rparr>) k in
         if pgdir = 0 then Inl (Panic ''userinit: out of memory?'')
         else
           bindR (on_sys (on_kmem (inituvm pgdir (ev_initcode ev))) k) (\<lambda>k.
           let k = upd_proc i (\<lambda>p. p\<lparr>p_sz := of_nat PGSIZE\<rparr>) k;
               k = upd_mem (first_frame (p_tf (proc_at i k))) k in
           bindR (set_name (bytes_of_chars ''initcode'' @ [0]) i k) (\<lambda>k.
           bindR (proc_namei ev i [SLASH] k) (\<lambda>(cwd, k).
             Inr (upd_proc i (\<lambda>p. p\<lparr>p_cwd := cwd, p_tickets := 10, p_state := RUNNABLE\<rparr>) k)))))
       )"

section \<open>Memory of a process\<close>

text \<open>The checks of \<open>switchuvm\<close>, which then loads the page table into the processor.\<close>

definition switchuvm :: "nat \<Rightarrow> kernel \<Rightarrow> kernel res" where
  "switchuvm i k =
     (if p_kstack (proc_at i k) = 0 then Inl (Panic ''switchuvm: no kstack'')
      else if p_pgdir (proc_at i k) = 0 then Inl (Panic ''switchuvm: no pgdir'')
      else Inr k)"

definition growproc :: "env \<Rightarrow> int \<Rightarrow> kernel \<Rightarrow> (int \<times> kernel) res" where
  "growproc ev n k =
     bindR (myproc k) (\<lambda>c.
     let sz = p_sz (proc_at c k); pgdir = p_pgdir (proc_at c k);
         commit = (\<lambda>sz k. bindR (switchuvm c (upd_proc c (\<lambda>p. p\<lparr>p_sz := sz\<rparr>) k)) (\<lambda>k. Inr (0, k))) in
     if n > 0 then
       bindR (on_sys_val (on_kmem_val (allocuvm (ev_kend ev) pgdir sz (sz + word_of_int n))) k) (\<lambda>(sz, k).
         if sz = 0 then Inr (-1, k) else commit sz k)
     else if n < 0 then
       bindR (on_sys_val (on_kmem_val (deallocuvm (ev_kend ev) pgdir sz (sz + word_of_int n))) k) (\<lambda>(sz, k).
         if sz = 0 then Inr (-1, k) else commit sz k)
     else commit sz k)"

text \<open>With demand allocation (\<open>xv6_new_7\<close>) only the size changes.\<close>

definition growproc_lazy :: "int \<Rightarrow> kernel \<Rightarrow> (int \<times> kernel) res" where
  "growproc_lazy n k =
     bindR (myproc k) (\<lambda>c. Inr (0, upd_proc c (\<lambda>p. p\<lparr>p_sz := p_sz p + word_of_int n\<rparr>) k))"

text \<open>
  What the processor finds at a user address through a page table: the kernel address of the byte,
  or a page fault.
\<close>

definition translate :: "nat \<Rightarrow> u32 \<Rightarrow> memory \<Rightarrow> nat option" where
  "translate pgdir va m =
     (let pde = load32 m (pgdir + 4 * PDX va) in
      if \<not> present pde then None
      else
        let pte = load32 m (PTE_ADDR pde + KERNBASE + 4 * PTX va) in
        if \<not> present pte then None
        else Some (PTE_ADDR pte + KERNBASE + unat (va AND 0xFFF)))"

text \<open>A page fault in the kernel is a panic in \<open>xv6_work\<close>.\<close>

definition user_load :: "nat \<Rightarrow> u32 \<Rightarrow> memory \<Rightarrow> u8 res" where
  "user_load pgdir va m = (case translate pgdir va m of None \<Rightarrow> Inl (Panic ''trap'') | Some a \<Rightarrow> Inr (m a))"

fun user_loads :: "nat \<Rightarrow> u32 \<Rightarrow> nat \<Rightarrow> memory \<Rightarrow> u8 list res" where
  "user_loads pgdir va 0 m = Inr []"
| "user_loads pgdir va (Suc n) m =
     bindR (user_load pgdir va m) (\<lambda>b. bindR (user_loads pgdir (va + 1) n m) (\<lambda>bs. Inr (b # bs)))"

definition user_load32 :: "nat \<Rightarrow> u32 \<Rightarrow> memory \<Rightarrow> u32 res" where
  "user_load32 pgdir va m = bindR (user_loads pgdir va 4 m) (\<lambda>bs. Inr (u32_of_bytes bs))"

fun user_stores :: "nat \<Rightarrow> u32 \<Rightarrow> u8 list \<Rightarrow> memory \<Rightarrow> memory res" where
  "user_stores pgdir va [] m = Inr m"
| "user_stores pgdir va (b # bs) m =
     (case translate pgdir va m of
        None \<Rightarrow> Inl (Panic ''trap'')
      | Some a \<Rightarrow> user_stores pgdir (va + 1) bs (m(a := b)))"

section \<open>Sleeping and waking\<close>

definition wakeup1 :: "chan \<Rightarrow> kernel \<Rightarrow> kernel" where
  "wakeup1 ch k =
     k\<lparr>k_procs := map (\<lambda>p. if p_state p = SLEEPING \<and> p_chan p = ch then p\<lparr>p_state := RUNNABLE\<rparr> else p)
                    (k_procs k)\<rparr>"

definition wakeup :: "chan \<Rightarrow> kernel \<Rightarrow> kernel" where
  "wakeup ch k = wakeup1 ch k"

definition sched :: "kernel \<Rightarrow> kernel res" where
  "sched k =
     bindR (myproc k) (\<lambda>c.
       if p_state (proc_at c k) = RUNNING then Inl (Panic ''sched running'')
       else Inr (k\<lparr>k_cpu := None\<rparr>))"

definition yield :: "kernel \<Rightarrow> kernel res" where
  "yield k = bindR (myproc k) (\<lambda>c. sched (upd_proc c (\<lambda>p. p\<lparr>p_state := RUNNABLE\<rparr>) k))"

text \<open>\<open>sleep\<close> up to the switch, and what it does when the process runs again.\<close>

definition sleep :: "chan \<Rightarrow> kernel \<Rightarrow> kernel res" where
  "sleep ch k =
     (case k_cpu k of
        None \<Rightarrow> Inl (Panic ''sleep'')
      | Some c \<Rightarrow> sched (upd_proc c (\<lambda>p. p\<lparr>p_chan := ch, p_state := SLEEPING\<rparr>) k))"

definition sleep_return :: "kernel \<Rightarrow> kernel res" where
  "sleep_return k = bindR (myproc k) (\<lambda>c. Inr (upd_proc c (\<lambda>p. p\<lparr>p_chan := No_chan\<rparr>) k))"

definition kill :: "int \<Rightarrow> kernel \<Rightarrow> int \<times> kernel" where
  "kill pid k =
     (case find (\<lambda>i. p_pid (proc_at i k) = pid) [0..<length (k_procs k)] of
        Some i \<Rightarrow>
          (0, upd_proc i (\<lambda>p. p\<lparr>p_killed := True,
                                p_state := (if p_state p = SLEEPING then RUNNABLE else p_state p)\<rparr>) k)
      | None \<Rightarrow> (-1, k))"

section \<open>Fork, exit and wait\<close>

text \<open>The descriptors of the parent, duplicated one by one.\<close>

fun dup_files :: "nat \<Rightarrow> nat \<Rightarrow> nat list \<Rightarrow> kernel \<Rightarrow> kernel res" where
  "dup_files c np [] k = Inr k"
| "dup_files c np (fd # fds) k =
     (case p_ofile (proc_at c k) ! fd of
        None \<Rightarrow> dup_files c np fds k
      | Some f \<Rightarrow>
          bindR (on_sys (filedup f) k) (\<lambda>k.
            dup_files c np fds (upd_proc np (\<lambda>p. p\<lparr>p_ofile := (p_ofile p)[fd := Some f]\<rparr>) k)))"

definition dup_cwd :: "nat \<Rightarrow> nat \<Rightarrow> kernel \<Rightarrow> kernel res" where
  "dup_cwd c np k =
     (case p_cwd (proc_at c k) of
        None \<Rightarrow> Inl Fault
      | Some ip \<Rightarrow>
          bindR (on_sys (on_fs (\<lambda>s. Inr (snd (idup ip s)))) k) (\<lambda>k.
            Inr (upd_proc np (\<lambda>p. p\<lparr>p_cwd := Some ip\<rparr>) k)))"

definition fork :: "env \<Rightarrow> kernel \<Rightarrow> (int \<times> kernel) res" where
  "fork ev k =
     bindR (myproc k) (\<lambda>c.
     bindR (allocproc ev k) (\<lambda>(np, k).
     case np of
       None \<Rightarrow> Inr (-1, k)
     | Some np \<Rightarrow>
         bindR (on_sys_val (on_kmem_val
                  (copyuvm_work (ev_kend ev) (ev_kdata ev) (p_pgdir (proc_at c k)) (unat (p_sz (proc_at c k))))) k)
           (\<lambda>(pgdir, k).
         let k = upd_proc np (\<lambda>p. p\<lparr>p_pgdir := pgdir\<rparr>) k in
         if pgdir = 0 then
           bindR (on_sys (on_kmem (kfree (ev_kend ev) (p_kstack (proc_at np k)))) k) (\<lambda>k.
             Inr (-1, upd_proc np (\<lambda>p. p\<lparr>p_kstack := 0, p_state := UNUSED\<rparr>) k))
         else
           let cp = proc_at c k;
               k = upd_proc np (\<lambda>p. p\<lparr>p_sz := p_sz cp, p_parent := Some c, p_tickets := p_tickets cp,
                                      p_times_scheduled := 0\<rparr>) k;
               tf = p_tf (proc_at np k);
               k = upd_mem (\<lambda>m. store32 (tf + TF_EAX) 0 (copy_bytes tf (p_tf cp) TF_SIZE m)) k in
           bindR (dup_files c np [0..<NOFILE] k) (\<lambda>k.
           bindR (dup_cwd c np k) (\<lambda>k.
           bindR (set_name (p_name (proc_at c k)) np k) (\<lambda>k.
             Inr (p_pid (proc_at np k), upd_proc np (\<lambda>p. p\<lparr>p_state := RUNNABLE\<rparr>) k)))))))"

fun close_files :: "env \<Rightarrow> nat \<Rightarrow> nat list \<Rightarrow> kernel \<Rightarrow> kernel res" where
  "close_files ev c [] k = Inr k"
| "close_files ev c (fd # fds) k =
     (case p_ofile (proc_at c k) ! fd of
        None \<Rightarrow> close_files ev c fds k
      | Some f \<Rightarrow>
          bindR (on_sys (fileclose (ev_kend ev) f) k) (\<lambda>k.
            close_files ev c fds (upd_proc c (\<lambda>p. p\<lparr>p_ofile := (p_ofile p)[fd := None]\<rparr>) k)))"

definition proc_chan :: "nat option \<Rightarrow> chan" where
  "proc_chan p = (case p of None \<Rightarrow> No_chan | Some i \<Rightarrow> Proc_chan i)"

text \<open>Abandoned children go to \<open>initproc\<close>, which is woken for those that are zombies.\<close>

definition abandon :: "nat \<Rightarrow> nat \<Rightarrow> kernel \<Rightarrow> kernel" where
  "abandon c i k =
     (if p_parent (proc_at i k) = Some c then
        let k = upd_proc i (\<lambda>p. p\<lparr>p_parent := k_initproc k\<rparr>) k in
        if p_state (proc_at i k) = ZOMBIE then wakeup1 (proc_chan (k_initproc k)) k else k
      else k)"

definition exit :: "env \<Rightarrow> kernel \<Rightarrow> kernel res" where
  "exit ev k =
     bindR (myproc k) (\<lambda>c.
     if k_initproc k = Some c then Inl (Panic ''init exiting'')
     else
       bindR (close_files ev c [0..<NOFILE] k) (\<lambda>k.
       bindR (on_sys begin_tx k) (\<lambda>k.
       bindR (case p_cwd (proc_at c k) of None \<Rightarrow> Inl Fault | Some ip \<Rightarrow> on_sys (on_fs (iput ip)) k) (\<lambda>k.
       bindR (on_sys end_tx k) (\<lambda>k.
       let k = upd_proc c (\<lambda>p. p\<lparr>p_cwd := None\<rparr>) k;
           k = wakeup1 (proc_chan (p_parent (proc_at c k))) k;
           k = fold (abandon c) [0..<length (k_procs k)] k;
           k = upd_proc c (\<lambda>p. p\<lparr>p_state := ZOMBIE\<rparr>) k in
       sched k)))))"

datatype wait_end = Wait_pid int | Wait_error | Wait_sleeps

text \<open>One pass of \<open>wait\<close>: a zombie child is reaped; otherwise no children, or sleep.\<close>

definition reap :: "env \<Rightarrow> nat \<Rightarrow> kernel \<Rightarrow> kernel res" where
  "reap ev i k =
     bindR (on_sys (on_kmem (kfree (ev_kend ev) (p_kstack (proc_at i k)))) k) (\<lambda>k.
     let k = upd_proc i (\<lambda>p. p\<lparr>p_kstack := 0\<rparr>) k in
     bindR (on_sys (on_kmem (freevm (ev_kend ev) (p_pgdir (proc_at i k)))) k) (\<lambda>k.
       Inr (upd_proc i (\<lambda>p. p\<lparr>p_pid := 0, p_parent := None, p_name := (p_name p)[0 := 0],
                              p_killed := False, p_state := UNUSED\<rparr>) k)))"

definition wait :: "env \<Rightarrow> kernel \<Rightarrow> (wait_end \<times> kernel) res" where
  "wait ev k =
     bindR (myproc k) (\<lambda>c.
     let slots = [0..<length (k_procs k)] in
     case find (\<lambda>i. p_parent (proc_at i k) = Some c \<and> p_state (proc_at i k) = ZOMBIE) slots of
       Some i \<Rightarrow> bindR (reap ev i k) (\<lambda>k'. Inr (Wait_pid (p_pid (proc_at i k)), k'))
     | None \<Rightarrow>
         if \<not> (\<exists>i \<in> set slots. p_parent (proc_at i k) = Some c) \<or> p_killed (proc_at c k)
         then Inr (Wait_error, k)
         else bindR (sleep (Proc_chan c) k) (\<lambda>k. Inr (Wait_sleeps, k)))"

section \<open>Scheduling\<close>

text \<open>
  One round of \<open>scheduler\<close>: the process that wins the lottery runs.  The outer \<open>None\<close> is a draw
  that does not end.
\<close>

definition scheduler :: "kernel \<Rightarrow> kernel option res" where
  "scheduler k =
     bindR (lottery (map (\<lambda>p. (p_state p, p_tickets p)) (k_procs k)) (k_seed k)) (\<lambda>r.
     case r of
       None \<Rightarrow> Inr None
     | Some (None, seed) \<Rightarrow> Inr (Some (k\<lparr>k_seed := seed\<rparr>))
     | Some (Some i, seed) \<Rightarrow>
         bindR (switchuvm i (k\<lparr>k_seed := seed, k_cpu := Some i\<rparr>)) (\<lambda>k.
           if p_times_scheduled (proc_at i k) \<ge> INT_MAX then Inl Fault
           else Inr (Some (upd_proc i (\<lambda>p. p\<lparr>p_state := RUNNING,
                                             p_times_scheduled := p_times_scheduled p + 1\<rparr>) k))))"

text \<open>\<open>xv6_new_7\<close> runs the runnable processes in turn, from position \<open>i\<close> of the table on.\<close>

definition scheduler_round_robin :: "nat \<Rightarrow> kernel \<Rightarrow> (nat option \<times> kernel) res" where
  "scheduler_round_robin i k =
     (case find (\<lambda>i. p_state (proc_at i k) = RUNNABLE) [i..<length (k_procs k)] of
        None \<Rightarrow> Inr (None, k)
      | Some j \<Rightarrow>
          bindR (switchuvm j (k\<lparr>k_cpu := Some j\<rparr>)) (\<lambda>k.
            Inr (Some (Suc j), upd_proc j (\<lambda>p. p\<lparr>p_state := RUNNING\<rparr>) k)))"

section \<open>Queries\<close>

record process_info =
  pi_pid :: int
  pi_times_scheduled :: int
  pi_tickets :: int

definition processes_info :: "kernel \<Rightarrow> process_info list" where
  "processes_info k =
     map (\<lambda>p. \<lparr>pi_pid = p_pid p, pi_times_scheduled = p_times_scheduled p, pi_tickets = p_tickets p\<rparr>)
       (filter (\<lambda>p. p_state p \<noteq> UNUSED) (k_procs k))"

text \<open>
  The queries of \<open>xv6_new_7\<close> read through the pointer \<open>walkpgdir\<close> returns; the null pointer reads
  the word at address 0 of the running process.
\<close>

definition entry_through :: "nat \<Rightarrow> u32 \<Rightarrow> kernel \<Rightarrow> u32 res" where
  "entry_through pgdir va k =
     bindR (walkpgdir pgdir va False (sy_kmem (k_sys k))) (\<lambda>(pte, st).
       if pte = 0 then bindR (myproc k) (\<lambda>c. user_load32 (p_pgdir (proc_at c k)) 0 (km_mem st))
       else Inr (load_pte pte st))"

definition getpagetableentry :: "int \<Rightarrow> u32 \<Rightarrow> kernel \<Rightarrow> u32 res" where
  "getpagetableentry pid va k =
     (case find (\<lambda>i. p_pid (proc_at i k) = pid) [0..<length (k_procs k)] of
        None \<Rightarrow> Inr 0
      | Some i \<Rightarrow> entry_through (p_pgdir (proc_at i k)) va k)"

text \<open>A line of the dump: page number, user and writable flags, frame number; or an absent page.\<close>

type_synonym dump_line = "(u32 \<times> bool \<times> bool \<times> u32) option"

definition dump_entry :: "nat \<Rightarrow> u32 \<Rightarrow> kernel \<Rightarrow> dump_line res" where
  "dump_entry pgdir address k =
     bindR (entry_through pgdir address k) (\<lambda>pte.
       Inr (if present pte
            then Some (drop_bit 12 address, pte AND PTE_U \<noteq> 0, pte AND PTE_W \<noteq> 0, of_nat (PTE_ADDR pte div PGSIZE))
            else None))"

fun dump_pages :: "nat \<Rightarrow> u32 list \<Rightarrow> kernel \<Rightarrow> dump_line list res" where
  "dump_pages pgdir [] k = Inr []"
| "dump_pages pgdir (a # as) k =
     bindR (dump_entry pgdir a k) (\<lambda>l. bindR (dump_pages pgdir as k) (\<lambda>ls. Inr (l # ls)))"

text \<open>The dump of every process with the number; \<open>None\<close> is the loop whose address wraps around.\<close>

fun dumppagetable :: "int \<Rightarrow> proc list \<Rightarrow> kernel \<Rightarrow> dump_line list list option res" where
  "dumppagetable pid [] k = Inr (Some [])"
| "dumppagetable pid (p # ps) k =
     (if p_pid p \<noteq> pid then dumppagetable pid ps k
      else if unat (p_sz p) > 0xFFFFF000 then Inr None
      else
        bindR (dump_pages (p_pgdir p) (map (\<lambda>i. of_nat (PGSIZE * i)) [0..<(unat (p_sz p) + PGSIZE - 1) div PGSIZE]) k)
          (\<lambda>ls. bindR (dumppagetable pid ps k) (\<lambda>r. Inr (map_option (\<lambda>ds. ls # ds) r))))"

end
