(* ===== verification/Proc_Table.thy ===== *)
theory Proc_Table
  imports Proc
begin

text \<open>
  The life cycle of processes as a transition system on an abstract process table, and the proof
  that the operations of \<open>Proc\<close> are steps of it.  The abstract table keeps of each slot its state,
  its number, its parent and its channel.  The invariant says that there is one running process,
  that numbers are unique, that every process but the first has a live parent, and that a process
  asleep in \<open>wait\<close> has no child left to reap.
\<close>

section \<open>The abstract table\<close>

record slot =
  s_state :: procstate
  s_pid :: int
  s_parent :: "nat option"
  s_chan :: chan

record ptab =
  t_slots :: "slot list"
  t_cpu :: "nat option"
  t_next :: int
  t_init :: "nat option"

definition slot_of :: "proc \<Rightarrow> slot" where
  "slot_of p = \<lparr>s_state = p_state p, s_pid = p_pid p, s_parent = p_parent p, s_chan = p_chan p\<rparr>"

definition ptab_of :: "kernel \<Rightarrow> ptab" where
  "ptab_of k = \<lparr>t_slots = map slot_of (k_procs k), t_cpu = k_cpu k, t_next = k_nextpid k, t_init = k_initproc k\<rparr>"

text \<open>Beyond the table every slot reads as unused.\<close>

definition slot_at :: "nat \<Rightarrow> ptab \<Rightarrow> slot" where
  "slot_at i t =
     (if i < length (t_slots t) then t_slots t ! i
      else \<lparr>s_state = UNUSED, s_pid = 0, s_parent = None, s_chan = No_chan\<rparr>)"

definition upd_slot :: "nat \<Rightarrow> (slot \<Rightarrow> slot) \<Rightarrow> ptab \<Rightarrow> ptab" where
  "upd_slot i g t = t\<lparr>t_slots := (t_slots t)[i := g (t_slots t ! i)]\<rparr>"

definition t_wake :: "chan \<Rightarrow> ptab \<Rightarrow> ptab" where
  "t_wake ch t =
     t\<lparr>t_slots := map (\<lambda>s. if s_state s = SLEEPING \<and> s_chan s = ch then s\<lparr>s_state := RUNNABLE\<rparr> else s) (t_slots t)\<rparr>"

definition t_abandon :: "nat \<Rightarrow> nat \<Rightarrow> ptab \<Rightarrow> ptab" where
  "t_abandon c i t =
     (if s_parent (slot_at i t) = Some c then
        let t = upd_slot i (\<lambda>s. s\<lparr>s_parent := t_init t\<rparr>) t in
        if s_state (slot_at i t) = ZOMBIE then t_wake (proc_chan (t_init t)) t else t
      else t)"

definition t_exit :: "nat \<Rightarrow> ptab \<Rightarrow> ptab" where
  "t_exit c t =
     (let t = t_wake (proc_chan (s_parent (slot_at c t))) t;
          t = fold (t_abandon c) [0..<length (t_slots t)] t
      in (upd_slot c (\<lambda>s. s\<lparr>s_state := ZOMBIE\<rparr>) t)\<lparr>t_cpu := None\<rparr>)"

text \<open>The life of processes, one operation of the current process or of the scheduler at a time.\<close>

inductive pstep :: "ptab \<Rightarrow> ptab \<Rightarrow> bool" where
  p_idle: "pstep t t"
| p_fork: "t_cpu t = Some c \<Longrightarrow> i < length (t_slots t) \<Longrightarrow> s_state (slot_at i t) = UNUSED \<Longrightarrow>
    pstep t ((upd_slot i (\<lambda>s. s\<lparr>s_pid := t_next t, s_parent := Some c, s_state := RUNNABLE\<rparr>) t)
               \<lparr>t_next := t_next t + 1\<rparr>)"
| p_fork_fail: "i < length (t_slots t) \<Longrightarrow> s_state (slot_at i t) = UNUSED \<Longrightarrow>
    pstep t ((upd_slot i (\<lambda>s. s\<lparr>s_pid := t_next t\<rparr>) t)\<lparr>t_next := t_next t + 1\<rparr>)"
| p_exit: "t_cpu t = Some c \<Longrightarrow> t_init t \<noteq> Some c \<Longrightarrow> pstep t (t_exit c t)"
| p_reap: "t_cpu t = Some c \<Longrightarrow> s_parent (slot_at i t) = Some c \<Longrightarrow>
    s_state (slot_at i t) = ZOMBIE \<Longrightarrow>
    pstep t (upd_slot i (\<lambda>s. s\<lparr>s_state := UNUSED, s_pid := 0, s_parent := None\<rparr>) t)"
| p_wait: "t_cpu t = Some c \<Longrightarrow>
    \<forall>i. s_parent (slot_at i t) = Some c \<longrightarrow> s_state (slot_at i t) \<noteq> ZOMBIE \<Longrightarrow>
    pstep t ((upd_slot c (\<lambda>s. s\<lparr>s_chan := Proc_chan c, s_state := SLEEPING\<rparr>) t)\<lparr>t_cpu := None\<rparr>)"
| p_sleep: "t_cpu t = Some c \<Longrightarrow> \<forall>i. ch \<noteq> Proc_chan i \<Longrightarrow>
    pstep t ((upd_slot c (\<lambda>s. s\<lparr>s_chan := ch, s_state := SLEEPING\<rparr>) t)\<lparr>t_cpu := None\<rparr>)"
| p_resume: "t_cpu t = Some c \<Longrightarrow> pstep t (upd_slot c (\<lambda>s. s\<lparr>s_chan := No_chan\<rparr>) t)"
| p_yield: "t_cpu t = Some c \<Longrightarrow>
    pstep t ((upd_slot c (\<lambda>s. s\<lparr>s_state := RUNNABLE\<rparr>) t)\<lparr>t_cpu := None\<rparr>)"
| p_wakeup: "pstep t (t_wake ch t)"
| p_kill: "s_state (slot_at i t) = SLEEPING \<Longrightarrow>
    pstep t (upd_slot i (\<lambda>s. s\<lparr>s_state := RUNNABLE\<rparr>) t)"
| p_dispatch: "t_cpu t = None \<Longrightarrow> s_state (slot_at i t) = RUNNABLE \<Longrightarrow>
    pstep t ((upd_slot i (\<lambda>s. s\<lparr>s_state := RUNNING\<rparr>) t)\<lparr>t_cpu := Some i\<rparr>)"

section \<open>The invariant\<close>

definition active :: "procstate \<Rightarrow> bool" where
  "active st \<longleftrightarrow> st = SLEEPING \<or> st = RUNNABLE \<or> st = RUNNING"

text \<open>One process runs, the one the processor has.\<close>

definition cpu_ok :: "ptab \<Rightarrow> bool" where
  "cpu_ok t \<longleftrightarrow> (\<forall>i. s_state (slot_at i t) = RUNNING \<longleftrightarrow> t_cpu t = Some i)"

text \<open>Numbers in use are positive, below the next number, and distinct.\<close>

definition pid_ok :: "ptab \<Rightarrow> bool" where
  "pid_ok t \<longleftrightarrow> 1 \<le> t_next t \<and>
     (\<forall>i. s_pid (slot_at i t) < t_next t \<and> (s_state (slot_at i t) \<noteq> UNUSED \<longrightarrow> 0 < s_pid (slot_at i t))) \<and>
     (\<forall>i j. i \<noteq> j \<longrightarrow> s_state (slot_at i t) \<noteq> UNUSED \<longrightarrow> s_state (slot_at j t) \<noteq> UNUSED \<longrightarrow>
        s_pid (slot_at i t) \<noteq> s_pid (slot_at j t))"

text \<open>The first process is live, and every other process has a parent that is live.\<close>

definition tree_ok :: "ptab \<Rightarrow> bool" where
  "tree_ok t \<longleftrightarrow>
     t_init t \<noteq> None \<and>
     (\<forall>j. t_init t = Some j \<longrightarrow> active (s_state (slot_at j t)) \<and> s_parent (slot_at j t) = None) \<and>
     (\<forall>i j. s_parent (slot_at i t) = Some j \<longrightarrow> j \<noteq> i \<and> active (s_state (slot_at j t))) \<and>
     (\<forall>i. s_state (slot_at i t) \<noteq> EMBRYO \<and>
        (s_state (slot_at i t) = UNUSED \<longrightarrow> s_parent (slot_at i t) = None) \<and>
        (s_state (slot_at i t) \<noteq> UNUSED \<longrightarrow> t_init t \<noteq> Some i \<longrightarrow> s_parent (slot_at i t) \<noteq> None))"

text \<open>A process asleep in \<open>wait\<close> has no zombie child.\<close>

definition wait_ok :: "ptab \<Rightarrow> bool" where
  "wait_ok t \<longleftrightarrow>
     (\<forall>i j. s_state (slot_at i t) = SLEEPING \<longrightarrow> s_chan (slot_at i t) = Proc_chan i \<longrightarrow>
        s_parent (slot_at j t) = Some i \<longrightarrow> s_state (slot_at j t) \<noteq> ZOMBIE)"

definition ptab_inv :: "ptab \<Rightarrow> bool" where
  "ptab_inv t \<longleftrightarrow> cpu_ok t \<and> pid_ok t \<and> tree_ok t \<and> wait_ok t"

lemma upd_slot_sel [simp]:
  "length (t_slots (upd_slot i g t)) = length (t_slots t)"
  "t_cpu (upd_slot i g t) = t_cpu t" "t_next (upd_slot i g t) = t_next t" "t_init (upd_slot i g t) = t_init t"
  by (simp_all add: upd_slot_def)

lemma t_wake_sel [simp]:
  "length (t_slots (t_wake ch t)) = length (t_slots t)"
  "t_cpu (t_wake ch t) = t_cpu t" "t_next (t_wake ch t) = t_next t" "t_init (t_wake ch t) = t_init t"
  by (simp_all add: t_wake_def)

lemma slot_at_update [simp]:
  "slot_at i (t\<lparr>t_cpu := c\<rparr>) = slot_at i t" "slot_at i (t\<lparr>t_next := n\<rparr>) = slot_at i t"
  by (simp_all add: slot_at_def)

lemma slot_in_table: "s_state (slot_at i t) \<noteq> UNUSED \<Longrightarrow> i < length (t_slots t)"
  "s_parent (slot_at i t) \<noteq> None \<Longrightarrow> i < length (t_slots t)"
  by (auto simp: slot_at_def split: if_splits)

lemma slot_upd: "slot_at j (upd_slot i g t) =
    (if j = i \<and> i < length (t_slots t) then g (slot_at i t) else slot_at j t)"
  by (simp add: upd_slot_def nth_list_update slot_at_def)

lemma active_simps [simp]:
  "active SLEEPING" "active RUNNABLE" "active RUNNING" "\<not> active UNUSED" "\<not> active EMBRYO" "\<not> active ZOMBIE"
  by (simp_all add: active_def)

lemma slot_wake:
  "s_pid (slot_at j (t_wake ch t)) = s_pid (slot_at j t)"
  "s_parent (slot_at j (t_wake ch t)) = s_parent (slot_at j t)"
  "s_chan (slot_at j (t_wake ch t)) = s_chan (slot_at j t)"
  "s_state (slot_at j (t_wake ch t)) = SLEEPING \<longleftrightarrow> s_state (slot_at j t) = SLEEPING \<and> s_chan (slot_at j t) \<noteq> ch"
  "s_state (slot_at j (t_wake ch t)) = RUNNING \<longleftrightarrow> s_state (slot_at j t) = RUNNING"
  "s_state (slot_at j (t_wake ch t)) = ZOMBIE \<longleftrightarrow> s_state (slot_at j t) = ZOMBIE"
  "s_state (slot_at j (t_wake ch t)) = UNUSED \<longleftrightarrow> s_state (slot_at j t) = UNUSED"
  "s_state (slot_at j (t_wake ch t)) = EMBRYO \<longleftrightarrow> s_state (slot_at j t) = EMBRYO"
  "active (s_state (slot_at j (t_wake ch t))) \<longleftrightarrow> active (s_state (slot_at j t))"
  by (auto simp: t_wake_def slot_at_def active_def)

lemma wake_state:
  "s_state (slot_at j t) \<noteq> SLEEPING \<Longrightarrow> s_state (slot_at j (t_wake ch t)) = s_state (slot_at j t)"
  "s_state (slot_at j t) = SLEEPING \<Longrightarrow> s_chan (slot_at j t) = ch \<Longrightarrow>
     s_state (slot_at j (t_wake ch t)) = RUNNABLE"
  by (cases "j < length (t_slots t)"; simp add: t_wake_def slot_at_def)+

lemmas inv_defs = cpu_ok_def pid_ok_def tree_ok_def wait_ok_def
lemmas table_simps = slot_upd slot_wake

lemma wake_inv: "ptab_inv t \<Longrightarrow> ptab_inv (t_wake ch t)"
  unfolding ptab_inv_def inv_defs by (auto simp add: table_simps)

text \<open>Giving a child of \<open>c\<close> to the first process.\<close>

lemma abandon_inv:
  assumes "ptab_inv t"
  shows "ptab_inv (t_abandon c i t)"
proof (cases "s_parent (slot_at i t) = Some c")
  case True
  define u where "u = upd_slot i (\<lambda>s. s\<lparr>s_parent := t_init t\<rparr>) t"
  have i: "i < length (t_slots t)" using True by (intro slot_in_table(2)) simp
  have inv: "cpu_ok t" "pid_ok t" "tree_ok t" "wait_ok t" using assms by (auto simp: ptab_inv_def)
  have u: "cpu_ok u" "pid_ok u" using inv(1,2) by (auto simp: u_def cpu_ok_def pid_ok_def slot_upd)
  obtain j where j: "t_init t = Some j" "active (s_state (slot_at j t))" "s_parent (slot_at j t) = None" using inv(3) by (auto simp: tree_ok_def)
  have "s_state (slot_at i t) \<noteq> UNUSED" using inv(3) True by (auto simp: tree_ok_def)
  then have tree: "tree_ok u" using inv(3) j True by (auto simp: u_def tree_ok_def slot_upd)
  show ?thesis
  proof (cases "s_state (slot_at i t) = ZOMBIE")
    case Z: True
    have "wait_ok (t_wake (proc_chan (t_init t)) u)"
      using inv(4) Z i by (auto simp: wait_ok_def table_simps u_def proc_chan_def j split: if_splits)
    moreover have "cpu_ok (t_wake ch u)" "pid_ok (t_wake ch u)" "tree_ok (t_wake ch u)" for ch
      using u tree by (simp_all add: cpu_ok_def pid_ok_def tree_ok_def table_simps)
    ultimately have "ptab_inv (t_wake (proc_chan (t_init t)) u)" by (simp add: ptab_inv_def)
    with True Z i show ?thesis by (simp add: t_abandon_def u_def slot_upd Let_def)
  next
    case False
    then have "wait_ok u" using inv(4) by (auto simp: wait_ok_def u_def slot_upd)
    with u tree have "ptab_inv u" by (simp add: ptab_inv_def)
    with True False i show ?thesis by (simp add: t_abandon_def u_def slot_upd Let_def)
  qed
qed (use assms in \<open>simp add: t_abandon_def\<close>)


lemma abandon_sel [simp]:
  "t_cpu (t_abandon c i t) = t_cpu t" "t_init (t_abandon c i t) = t_init t" "t_next (t_abandon c i t) = t_next t"
  "length (t_slots (t_abandon c i t)) = length (t_slots t)"
  by (simp_all add: t_abandon_def Let_def)

text \<open>What the loop over the children establishes: slot by slot, nobody is left with parent \<open>c\<close>.\<close>

lemma abandon_slot:
  assumes "t_init t \<noteq> Some c"
  shows "s_parent (slot_at i (t_abandon c i t)) \<noteq> Some c"
    and "s_parent (slot_at j t) \<noteq> Some c \<Longrightarrow> s_parent (slot_at j (t_abandon c i t)) = s_parent (slot_at j t)"
    and "s_state (slot_at j (t_abandon c i t)) = SLEEPING \<Longrightarrow> s_state (slot_at j t) = SLEEPING"
    and "s_chan (slot_at j (t_abandon c i t)) = s_chan (slot_at j t)"
  using assms by (auto simp: t_abandon_def Let_def table_simps slot_at_def [of i t] split: if_splits)

lemma abandon_state:
  "s_state (slot_at j t) \<noteq> SLEEPING \<Longrightarrow> s_state (slot_at j (t_abandon c i t)) = s_state (slot_at j t)"
  by (simp add: t_abandon_def Let_def wake_state slot_upd)

lemma abandon_loop_state:
  "s_state (slot_at j t) \<noteq> SLEEPING \<Longrightarrow>
   s_state (slot_at j (fold (t_abandon c) is t)) = s_state (slot_at j t)"
  by (induction "is" arbitrary: t) (simp_all add: abandon_state)

lemma abandon_all:
  fixes n :: nat
  assumes "ptab_inv t" "t_init t \<noteq> Some c"
  defines "u \<equiv> fold (t_abandon c) [0..<n] t"
  shows "ptab_inv u" and "t_cpu u = t_cpu t" and "t_init u = t_init t"
    and "length (t_slots u) = length (t_slots t)"
    and "i < n \<Longrightarrow> s_parent (slot_at i u) \<noteq> Some c"
    and "s_parent (slot_at j t) \<noteq> Some c \<Longrightarrow> s_parent (slot_at j u) = s_parent (slot_at j t)"
    and "s_state (slot_at j u) = SLEEPING \<Longrightarrow> s_state (slot_at j t) = SLEEPING"
    and "s_chan (slot_at j u) = s_chan (slot_at j t)"
proof -
  have "ptab_inv u \<and> t_cpu u = t_cpu t \<and> t_init u = t_init t \<and> length (t_slots u) = length (t_slots t) \<and>
    (\<forall>i < n. s_parent (slot_at i u) \<noteq> Some c) \<and>
    (\<forall>j. (s_parent (slot_at j t) \<noteq> Some c \<longrightarrow> s_parent (slot_at j u) = s_parent (slot_at j t)) \<and>
         (s_state (slot_at j u) = SLEEPING \<longrightarrow> s_state (slot_at j t) = SLEEPING) \<and>
         s_chan (slot_at j u) = s_chan (slot_at j t))"
    unfolding u_def
  proof (induction n)
    case (Suc n)
    let ?v = "fold (t_abandon c) [0..<n] t"
    have i: "t_init ?v \<noteq> Some c" using Suc assms(2) by simp
    note slot = abandon_slot [OF i]
    have "s_parent (slot_at i (t_abandon c n ?v)) \<noteq> Some c" if "i < Suc n" for i
      using that Suc slot(1) slot(2) [of i n] by (cases "i = n") auto
    with Suc slot show ?case by (simp add: abandon_inv)
  qed (simp add: assms(1))
  then show "ptab_inv u" "t_cpu u = t_cpu t" "t_init u = t_init t"
    "length (t_slots u) = length (t_slots t)" "i < n \<Longrightarrow> s_parent (slot_at i u) \<noteq> Some c"
    "s_parent (slot_at j t) \<noteq> Some c \<Longrightarrow> s_parent (slot_at j u) = s_parent (slot_at j t)"
    "s_state (slot_at j u) = SLEEPING \<Longrightarrow> s_state (slot_at j t) = SLEEPING"
    "s_chan (slot_at j u) = s_chan (slot_at j t)" by simp_all
qed

lemma exit_inv:
  assumes inv: "ptab_inv t" and c: "t_cpu t = Some c" and i: "t_init t \<noteq> Some c"
  shows "ptab_inv (t_exit c t)"
proof -
  define w where "w = t_wake (proc_chan (s_parent (slot_at c t))) t"
  define u where "u = fold (t_abandon c) [0..<length (t_slots w)] w"
  have w: "ptab_inv w" "t_init w \<noteq> Some c" "t_cpu w = Some c"
    unfolding w_def using wake_inv [OF inv] c i by simp_all
  note all = abandon_all [OF w(1,2), where n = "length (t_slots w)", folded u_def]
  have run: "s_state (slot_at c u) = RUNNING" using all(1,2) w(3) by (auto simp: ptab_inv_def cpu_ok_def)
  then have len: "c < length (t_slots u)" by (intro slot_in_table(1)) simp
  have no_child: "s_parent (slot_at j u) \<noteq> Some c" for j
    using all(4,5) slot_in_table(2) [of j u] by (cases "j < length (t_slots u)") auto
  have inv_u: "cpu_ok u" "pid_ok u" "tree_ok u" "wait_ok u" using all(1) by (simp_all add: ptab_inv_def)
  have "s_parent (slot_at c t) \<noteq> Some c" using inv by (auto simp: ptab_inv_def tree_ok_def)
  then have parent: "s_parent (slot_at c u) = s_parent (slot_at c t)"
    using all(6) by (simp add: w_def slot_wake)
  have awake: "s_chan (slot_at p u) \<noteq> Proc_chan p"
    if "s_state (slot_at p u) = SLEEPING" "s_parent (slot_at c u) = Some p" for p
    using all(7,8) [of p] that parent by (auto simp: w_def slot_wake proc_chan_def)
  let ?e = "(upd_slot c (\<lambda>s. s\<lparr>s_state := ZOMBIE\<rparr>) u)\<lparr>t_cpu := None\<rparr>"
  have "cpu_ok ?e" using inv_u(1) all(2) w(3) len by (auto simp: cpu_ok_def slot_upd)
  moreover have "pid_ok ?e" using inv_u(2) run len by (auto simp: pid_ok_def slot_upd)
  moreover have "tree_ok ?e" using inv_u(3) run len no_child all(3) w(2) by (auto simp: tree_ok_def slot_upd)
  moreover have "wait_ok ?e" using inv_u(4) awake len by (auto simp: wait_ok_def slot_upd split: if_splits)
  ultimately have "ptab_inv ?e" by (simp add: ptab_inv_def)
  then show ?thesis by (simp add: t_exit_def Let_def w_def u_def)
qed


lemma abandon_loop_sel:
  "length (t_slots (fold (t_abandon c) is t)) = length (t_slots t)"
  by (induction "is" arbitrary: t) simp_all

lemma t_exit_sel [simp]:
  "length (t_slots (t_exit c t)) = length (t_slots t)" "t_cpu (t_exit c t) = None"
  by (simp_all add: t_exit_def Let_def abandon_loop_sel)

text \<open>A parent asleep in \<open>wait\<close> is woken by the exit of its child.\<close>

lemma exit_wakes:
  assumes inv: "ptab_inv t" and c: "t_cpu t = Some c" and i: "t_init t \<noteq> Some c"
    and p: "s_parent (slot_at c t) = Some p" "s_state (slot_at p t) = SLEEPING" "s_chan (slot_at p t) = Proc_chan p"
  shows "s_state (slot_at p (t_exit c t)) = RUNNABLE" and "s_state (slot_at c (t_exit c t)) = ZOMBIE"
    and "s_parent (slot_at c (t_exit c t)) = Some p"
proof -
  define w where "w = t_wake (Proc_chan p) t"
  define u where "u = fold (t_abandon c) [0..<length (t_slots w)] w"
  have w: "ptab_inv w" "t_init w \<noteq> Some c" unfolding w_def using wake_inv [OF inv] i by simp_all
  note all = abandon_all [OF w, where n = "length (t_slots w)", folded u_def]
  have "s_state (slot_at c t) = RUNNING" "s_parent (slot_at c t) \<noteq> Some c"
    using inv c by (auto simp: ptab_inv_def cpu_ok_def tree_ok_def)
  then have ne: "p \<noteq> c" and len: "c < length (t_slots u)"
    using p slot_in_table(1) [of c t] all(4) by (auto simp: w_def)
  have e: "t_exit c t = (upd_slot c (\<lambda>s. s\<lparr>s_state := ZOMBIE\<rparr>) u)\<lparr>t_cpu := None\<rparr>"
    using p by (simp add: t_exit_def w_def u_def proc_chan_def Let_def)
  have "s_state (slot_at p w) = RUNNABLE" using p by (simp add: w_def wake_state)
  then show "s_state (slot_at p (t_exit c t)) = RUNNABLE" using ne abandon_loop_state [of p w]
    by (simp add: e slot_upd u_def)
  show "s_state (slot_at c (t_exit c t)) = ZOMBIE" using len by (simp add: e slot_upd)
  show "s_parent (slot_at c (t_exit c t)) = Some p" using len all(6) [of c] p ne by (simp add: e slot_upd w_def slot_wake)
qed

text \<open>A slot that starts or stops to run, or changes its channel, keeps the numbers and the tree.\<close>

lemma set_state_inv:
  assumes "ptab_inv t" and "s_state (slot_at i t) \<notin> {UNUSED, ZOMBIE}" and "active st"
    and "st = RUNNING \<longleftrightarrow> cpu = Some i" and "\<And>j. j \<noteq> i \<Longrightarrow> cpu = Some j \<longleftrightarrow> t_cpu t = Some j"
    and "st = SLEEPING \<Longrightarrow> ch = Proc_chan i \<Longrightarrow>
      \<forall>j. s_parent (slot_at j t) = Some i \<longrightarrow> s_state (slot_at j t) \<noteq> ZOMBIE"
  shows "ptab_inv ((upd_slot i (\<lambda>s. s\<lparr>s_chan := ch, s_state := st\<rparr>) t)\<lparr>t_cpu := cpu\<rparr>)"
proof -
  let ?u = "(upd_slot i (\<lambda>s. s\<lparr>s_chan := ch, s_state := st\<rparr>) t)\<lparr>t_cpu := cpu\<rparr>"
  have i: "i < length (t_slots t)" using assms(2) by (intro slot_in_table(1)) auto
  have inv: "cpu_ok t" "pid_ok t" "tree_ok t" "wait_ok t" using assms(1) by (auto simp: ptab_inv_def)
  have "cpu_ok ?u" using inv(1) assms(4,5) i by (auto simp: cpu_ok_def slot_upd)
  moreover have "pid_ok ?u" using inv(2) assms(2,3) i by (auto simp: pid_ok_def slot_upd)
  moreover have "tree_ok ?u" using inv(3) assms(2,3) i by (auto simp: tree_ok_def slot_upd)
  moreover have "wait_ok ?u" using inv(4) assms(2,3,6) i by (auto simp: wait_ok_def slot_upd)
  ultimately show ?thesis by (simp add: ptab_inv_def)
qed

lemma upd_slot_cong:
  "i < length (t_slots t) \<Longrightarrow> g (slot_at i t) = h (slot_at i t) \<Longrightarrow> upd_slot i g t = upd_slot i h t"
  by (simp add: upd_slot_def slot_at_def)

lemma keep_chan:
  "s_state (slot_at i t) \<noteq> UNUSED \<Longrightarrow> upd_slot i (\<lambda>s. s\<lparr>s_state := st\<rparr>) t =
    upd_slot i (\<lambda>s. s\<lparr>s_chan := s_chan (slot_at i t), s_state := st\<rparr>) t"
  by (rule upd_slot_cong [OF slot_in_table(1)]) simp_all

lemma keep_state:
  "s_state (slot_at i t) \<noteq> UNUSED \<Longrightarrow> upd_slot i (\<lambda>s. s\<lparr>s_chan := ch\<rparr>) t =
    upd_slot i (\<lambda>s. s\<lparr>s_chan := ch, s_state := s_state (slot_at i t)\<rparr>) t"
  by (rule upd_slot_cong [OF slot_in_table(1)]) simp_all

lemma same_cpu: "t_cpu u = c \<Longrightarrow> u\<lparr>t_cpu := c\<rparr> = u" for u :: ptab
  by auto

lemma pstep_inv:
  assumes "pstep t u" and inv: "ptab_inv t"
  shows "ptab_inv u"
proof -
  have ok: "cpu_ok t" "pid_ok t" "tree_ok t" "wait_ok t" using inv by (auto simp: ptab_inv_def)
  have run: "s_state (slot_at c t) = RUNNING" if "t_cpu t = Some c" for c
    using ok(1) that by (simp add: cpu_ok_def)
  have below: "s_pid (slot_at i t) \<le> t_next t" for i using ok(2) by (auto simp: pid_ok_def less_imp_le)
  have live: "s_parent (slot_at j t) \<noteq> Some i" if "\<not> active (s_state (slot_at i t))" for i j
    using ok(3) that by (auto simp: tree_ok_def)
  show ?thesis using assms(1)
  proof cases
    case (p_fork c i)
    have ne: "c \<noteq> i" using run [of c] p_fork by auto
    have "tree_ok u" using ok(3) run [of c] p_fork by (auto simp: tree_ok_def slot_upd)
    moreover have "cpu_ok u" using p_fork ok(1) ne by (auto simp: cpu_ok_def slot_upd)
    moreover have "pid_ok u" using p_fork ok(2) below by (fastforce simp: pid_ok_def slot_upd)
    moreover have "wait_ok u" using p_fork ok(3,4) by (auto simp: wait_ok_def tree_ok_def slot_upd)
    ultimately show ?thesis by (simp add: ptab_inv_def)
  next
    case (p_fork_fail i)
    have "pid_ok u" using p_fork_fail ok(2) below by (fastforce simp: pid_ok_def slot_upd)
    moreover have "cpu_ok u" using p_fork_fail ok(1) run [of i] by (auto simp: cpu_ok_def slot_upd)
    moreover have "tree_ok u" using p_fork_fail ok(3) live [of i] by (auto simp: tree_ok_def slot_upd)
    moreover have "wait_ok u" using p_fork_fail ok(4) by (auto simp: wait_ok_def slot_upd)
    ultimately show ?thesis by (simp add: ptab_inv_def)
  next
    case (p_reap c i)
    have "pid_ok u" using p_reap ok(2) by (auto simp: pid_ok_def slot_upd)
    moreover have "cpu_ok u" using p_reap ok(1) run [of i] by (auto simp: cpu_ok_def slot_upd)
    moreover have "tree_ok u" using p_reap ok(3) live [of i] by (auto simp: tree_ok_def slot_upd)
    moreover have "wait_ok u" using p_reap ok(4) by (auto simp: wait_ok_def slot_upd)
    ultimately show ?thesis by (simp add: ptab_inv_def)
  next
    case (p_wait c)
    then show ?thesis using set_state_inv [OF inv, of c SLEEPING None "Proc_chan c"] run by simp
  next
    case (p_sleep c ch)
    then show ?thesis using set_state_inv [OF inv, of c SLEEPING None ch] run by simp
  next
    case (p_yield c)
    then show ?thesis using set_state_inv [OF inv, of c RUNNABLE None "s_chan (slot_at c t)"] run
      by (simp add: keep_chan [of c])
  next
    case (p_resume c)
    then show ?thesis using set_state_inv [OF inv, of c RUNNING "t_cpu t" No_chan] run
      by (simp add: keep_state [of c] same_cpu)
  next
    case (p_kill i)
    then have "t_cpu t \<noteq> Some i" using run [of i] by auto
    with p_kill show ?thesis using set_state_inv [OF inv, of i RUNNABLE "t_cpu t" "s_chan (slot_at i t)"]
      by (simp add: keep_chan [of i] same_cpu)
  next
    case (p_dispatch i)
    then show ?thesis using set_state_inv [OF inv, of i RUNNING "Some i" "s_chan (slot_at i t)"]
      by (simp add: keep_chan [of i])
  qed (use inv run ok in \<open>auto intro: wake_inv exit_inv\<close>)
qed

end
