(* ===== verification/Proc_Steps.thy ===== *)
theory Proc_Steps
  imports Proc_Table
begin

text \<open>
  The operations of \<open>Proc\<close> are steps of the abstract table of \<open>Proc_Table\<close>, so the invariant of
  the table holds in every state the kernel reaches.
\<close>

section \<open>The table of a kernel state\<close>

lemma ptab_of_sel [simp]:
  "length (t_slots (ptab_of k)) = length (k_procs k)" "t_cpu (ptab_of k) = k_cpu k"
  "t_next (ptab_of k) = k_nextpid k" "t_init (ptab_of k) = k_initproc k"
  by (simp_all add: ptab_of_def)

lemma slot_at_ptab: "i < length (k_procs k) \<Longrightarrow> slot_at i (ptab_of k) = slot_of (proc_at i k)"
  by (simp add: slot_at_def ptab_of_def)

lemma slot_of_sel [simp]:
  "s_state (slot_of p) = p_state p" "s_pid (slot_of p) = p_pid p" "s_parent (slot_of p) = p_parent p"
  "s_chan (slot_of p) = p_chan p"
  by (simp_all add: slot_of_def)

lemma upd_proc_sel [simp]:
  "length (k_procs (upd_proc i g k)) = length (k_procs k)" "k_cpu (upd_proc i g k) = k_cpu k"
  "k_nextpid (upd_proc i g k) = k_nextpid k" "k_initproc (upd_proc i g k) = k_initproc k"
  "k_sys (upd_proc i g k) = k_sys k"
  by (simp_all add: upd_proc_def)

lemma ptab_upd:
  assumes "slot_of (g (proc_at i k)) = h (slot_of (proc_at i k))"
  shows "ptab_of (upd_proc i g k) = upd_slot i h (ptab_of k)"
  using assms by (cases "i < length (k_procs k)") (simp_all add: ptab_of_def upd_proc_def upd_slot_def map_update list_update_beyond)

lemma ptab_upd_same: "(\<And>p. slot_of (g p) = slot_of p) \<Longrightarrow> ptab_of (upd_proc i g k) = ptab_of k"
  by (simp add: ptab_of_def upd_proc_def map_update list_update_same_conv)
    (metis length_map list_update_id list_update_beyond map_update not_le nth_map)

lemma ptab_fields [simp]:
  "ptab_of (upd_proc i (\<lambda>p. p\<lparr>p_state := s\<rparr>) k) = upd_slot i (\<lambda>x. x\<lparr>s_state := s\<rparr>) (ptab_of k)"
  "ptab_of (upd_proc i (\<lambda>p. p\<lparr>p_parent := q\<rparr>) k) = upd_slot i (\<lambda>x. x\<lparr>s_parent := q\<rparr>) (ptab_of k)"
  "ptab_of (upd_proc i (\<lambda>p. p\<lparr>p_chan := c\<rparr>) k) = upd_slot i (\<lambda>x. x\<lparr>s_chan := c\<rparr>) (ptab_of k)"
  "ptab_of (upd_proc i (\<lambda>p. p\<lparr>p_state := s, p_pid := n\<rparr>) k) =
     upd_slot i (\<lambda>x. x\<lparr>s_state := s, s_pid := n\<rparr>) (ptab_of k)"
  "ptab_of (upd_proc i (\<lambda>p. p\<lparr>p_chan := c, p_state := s\<rparr>) k) =
     upd_slot i (\<lambda>x. x\<lparr>s_chan := c, s_state := s\<rparr>) (ptab_of k)"
  "ptab_of (upd_proc i (\<lambda>p. p\<lparr>p_state := s, p_times_scheduled := f p\<rparr>) k) =
     upd_slot i (\<lambda>x. x\<lparr>s_state := s\<rparr>) (ptab_of k)"
  "ptab_of (upd_proc i (\<lambda>p. p\<lparr>p_sz := z, p_parent := q, p_tickets := tk, p_times_scheduled := ts\<rparr>) k) =
     upd_slot i (\<lambda>x. x\<lparr>s_parent := q\<rparr>) (ptab_of k)"
  "ptab_of (upd_proc i (\<lambda>p. p\<lparr>p_pid := n, p_parent := q, p_name := g p, p_killed := b, p_state := s\<rparr>) k) =
     upd_slot i (\<lambda>x. x\<lparr>s_state := s, s_pid := n, s_parent := q\<rparr>) (ptab_of k)"
  "ptab_of (upd_proc i (\<lambda>p. p\<lparr>p_kstack := ks, p_state := s\<rparr>) k) = upd_slot i (\<lambda>x. x\<lparr>s_state := s\<rparr>) (ptab_of k)"
  by (rule ptab_upd, simp add: slot_of_def)+

lemma ptab_other_fields [simp]:
  "ptab_of (upd_proc i (\<lambda>p. p\<lparr>p_sz := z p\<rparr>) k) = ptab_of k"
  "ptab_of (upd_proc i (\<lambda>p. p\<lparr>p_pgdir := pg\<rparr>) k) = ptab_of k"
  "ptab_of (upd_proc i (\<lambda>p. p\<lparr>p_kstack := st\<rparr>) k) = ptab_of k"
  "ptab_of (upd_proc i (\<lambda>p. p\<lparr>p_tf := tf, p_context := cx\<rparr>) k) = ptab_of k"
  "ptab_of (upd_proc i (\<lambda>p. p\<lparr>p_ofile := fs p\<rparr>) k) = ptab_of k"
  "ptab_of (upd_proc i (\<lambda>p. p\<lparr>p_cwd := d\<rparr>) k) = ptab_of k"
  "ptab_of (upd_proc i (\<lambda>p. p\<lparr>p_name := nm\<rparr>) k) = ptab_of k"
  "ptab_of (upd_proc i (\<lambda>p. p\<lparr>p_tickets := tk\<rparr>) k) = ptab_of k"
  by (rule ptab_upd_same, simp add: slot_of_def)+

lemma ptab_record [simp]:
  "ptab_of (k\<lparr>k_sys := s\<rparr>) = ptab_of k" "ptab_of (k\<lparr>k_seed := sd\<rparr>) = ptab_of k"
  "ptab_of (k\<lparr>k_cpu := c\<rparr>) = (ptab_of k)\<lparr>t_cpu := c\<rparr>"
  "ptab_of (k\<lparr>k_nextpid := n\<rparr>) = (ptab_of k)\<lparr>t_next := n\<rparr>"
  "ptab_of (k\<lparr>k_ticks := tk\<rparr>) = ptab_of k"
  by (simp_all add: ptab_of_def)

lemma ptab_upd_mem [simp]: "ptab_of (upd_mem g k) = ptab_of k"
  by (simp add: upd_mem_def)

lemma ptab_on_sys: "on_sys g k = Inr k' \<Longrightarrow> ptab_of k' = ptab_of k"
  by (auto simp: on_sys_def res_simps)

lemma ptab_on_sys_val: "on_sys_val g k = Inr (x, k') \<Longrightarrow> ptab_of k' = ptab_of k"
  by (auto simp: on_sys_val_def res_simps)

lemma ptab_wakeup1 [simp]: "ptab_of (wakeup1 ch k) = t_wake ch (ptab_of k)"
  by (simp add: ptab_of_def wakeup1_def t_wake_def slot_of_def comp_def cong: map_cong if_cong)

lemma wakeup1_length [simp]: "length (k_procs (wakeup1 ch k)) = length (k_procs k)"
  by (simp add: wakeup1_def)

lemma upd_slot_twice [simp]: "upd_slot i g (upd_slot i h t) = upd_slot i (g \<circ> h) t"
  by (cases "i < length (t_slots t)") (simp_all add: upd_slot_def list_update_beyond)

lemma upd_slot_next [simp]: "upd_slot i g (t\<lparr>t_next := n\<rparr>) = (upd_slot i g t)\<lparr>t_next := n\<rparr>"
  by (simp add: upd_slot_def)

lemma upd_slot_cpu [simp]: "upd_slot i g (t\<lparr>t_cpu := c\<rparr>) = (upd_slot i g t)\<lparr>t_cpu := c\<rparr>"
  by (simp add: upd_slot_def)

lemma find_slot:
  "find P [0..<n] = Some i \<Longrightarrow> i < n \<and> P i"
  by (auto simp: find_Some_iff)

section \<open>The operations as steps\<close>

lemma allocproc_table:
  assumes "allocproc ev k = Inr (r, k')"
  obtains (full) "r = None" "ptab_of k' = ptab_of k"
    | (no_stack) i where "r = None" "i < length (k_procs k)" "p_state (proc_at i k) = UNUSED"
        "ptab_of k' = (upd_slot i (\<lambda>s. s\<lparr>s_pid := k_nextpid k\<rparr>) (ptab_of k))\<lparr>t_next := k_nextpid k + 1\<rparr>"
    | (new) i where "r = Some i" "i < length (k_procs k)" "p_state (proc_at i k) = UNUSED"
        "ptab_of k' = (upd_slot i (\<lambda>s. s\<lparr>s_state := EMBRYO, s_pid := k_nextpid k\<rparr>) (ptab_of k))
           \<lparr>t_next := k_nextpid k + 1\<rparr>"
proof (cases "find (\<lambda>i. p_state (proc_at i k) = UNUSED) [0..<length (k_procs k)]")
  case None
  with assms full show ?thesis by (auto simp: allocproc_def)
next
  case (Some i)
  have i: "i < length (k_procs k)" "p_state (proc_at i k) = UNUSED" using find_slot [OF Some] by auto
  obtain kstack m where m: "kalloc (sy_kmem (k_sys k)) = (kstack, m)" by force
  let ?k = "(upd_proc i (\<lambda>p. p\<lparr>p_state := EMBRYO, p_pid := k_nextpid k\<rparr>) k)\<lparr>k_nextpid := k_nextpid k + 1\<rparr>"
  have t: "ptab_of ?k = (upd_slot i (\<lambda>s. s\<lparr>s_state := EMBRYO, s_pid := k_nextpid k\<rparr>) (ptab_of k))
      \<lparr>t_next := k_nextpid k + 1\<rparr>"
    by simp
  show ?thesis
  proof (cases "kstack = 0")
    case True
    then have "ptab_of k' = upd_slot i (\<lambda>s. s\<lparr>s_state := UNUSED\<rparr>) (ptab_of ?k)" and r: "r = None"
      using assms Some m by (auto simp: allocproc_def Let_def split: if_splits)
    then have "ptab_of k' = (upd_slot i (\<lambda>s. s\<lparr>s_pid := k_nextpid k, s_state := UNUSED\<rparr>) (ptab_of k))
      \<lparr>t_next := k_nextpid k + 1\<rparr>"
      unfolding t by (simp add: comp_def)
    moreover have "upd_slot i (\<lambda>s. s\<lparr>s_pid := k_nextpid k, s_state := UNUSED\<rparr>) (ptab_of k)
        = upd_slot i (\<lambda>s. s\<lparr>s_pid := k_nextpid k\<rparr>) (ptab_of k)"
      by (rule upd_slot_cong) (use i in \<open>simp_all add: slot_at_ptab slot_of_def\<close>)
    ultimately show ?thesis using no_stack [OF r i] by simp
  next
    case False
    then have "ptab_of k' = ptab_of ?k" and r: "r = Some i"
      using assms Some m by (auto simp: allocproc_def Let_def split: if_splits)
    with t new [OF r i] show ?thesis by simp
  qed
qed


lemma dup_files_table: "dup_files c np fds k = Inr k' \<Longrightarrow> ptab_of k' = ptab_of k"
proof (induction fds arbitrary: k)
  case (Cons fd fds)
  show ?case
  proof (cases "p_ofile (proc_at c k) ! fd")
    case (Some f)
    with Cons.prems obtain k1 where "on_sys (filedup f) k = Inr k1"
      and "dup_files c np fds (upd_proc np (\<lambda>p. p\<lparr>p_ofile := (p_ofile p)[fd := Some f]\<rparr>) k1) = Inr k'"
      by (auto simp: res_simps)
    from Cons.IH [OF this(2)] ptab_on_sys [OF this(1)] show ?thesis by simp
  qed (use Cons in simp)
qed simp

lemma close_files_table: "close_files ev c fds k = Inr k' \<Longrightarrow> ptab_of k' = ptab_of k"
proof (induction fds arbitrary: k)
  case (Cons fd fds)
  show ?case
  proof (cases "p_ofile (proc_at c k) ! fd")
    case (Some f)
    with Cons.prems obtain k1 where "on_sys (fileclose (ev_kend ev) f) k = Inr k1"
      and "close_files ev c fds (upd_proc c (\<lambda>p. p\<lparr>p_ofile := (p_ofile p)[fd := None]\<rparr>) k1) = Inr k'"
      by (auto simp: res_simps)
    from Cons.IH [OF this(2)] ptab_on_sys [OF this(1)] show ?thesis by simp
  qed (use Cons in simp)
qed simp

lemma dup_cwd_table: "dup_cwd c np k = Inr k' \<Longrightarrow> ptab_of k' = ptab_of k"
  by (auto simp: dup_cwd_def res_simps split: option.splits dest!: ptab_on_sys)

lemma set_name_table: "set_name s i k = Inr k' \<Longrightarrow> ptab_of k' = ptab_of k"
  by (auto simp: set_name_def res_simps)

lemma switchuvm_same: "switchuvm i k = Inr k' \<Longrightarrow> k' = k"
  by (auto simp: switchuvm_def split: if_splits)

lemma growproc_table: "growproc ev n k = Inr (r, k') \<Longrightarrow> ptab_of k' = ptab_of k"
  by (auto simp: growproc_def res_simps Let_def split: if_splits dest!: ptab_on_sys_val switchuvm_same)

lemma sched_table: "sched k = Inr k' \<Longrightarrow> ptab_of k' = (ptab_of k)\<lparr>t_cpu := None\<rparr>"
  by (auto simp: sched_def res_simps split: if_splits)

lemma abandon_table: "i < length (k_procs k) \<Longrightarrow> ptab_of (abandon c i k) = t_abandon c i (ptab_of k)"
  by (simp add: abandon_def t_abandon_def Let_def slot_at_ptab slot_upd)
    (simp add: upd_proc_def)

lemma abandon_length [simp]: "length (k_procs (abandon c i k)) = length (k_procs k)"
  by (simp add: abandon_def wakeup1_def Let_def)

lemma abandon_loop_table:
  "n \<le> length (k_procs k) \<Longrightarrow>
   ptab_of (fold (abandon c) [0..<n] k) = fold (t_abandon c) [0..<n] (ptab_of k) \<and>
   length (k_procs (fold (abandon c) [0..<n] k)) = length (k_procs k)"
  by (induction n) (simp_all add: abandon_table)

lemma fork_table:
  assumes "fork ev k = Inr (r, k')"
  shows "pstep (ptab_of k) (ptab_of k')"
proof -
  obtain c np k1 where c: "k_cpu k = Some c" and alloc: "allocproc ev k = Inr (np, k1)"
    using assms by (auto simp: fork_def res_simps myproc_def split: option.splits)
  from alloc show ?thesis
  proof (cases rule: allocproc_table)
    case full
    then show ?thesis using assms c alloc by (auto simp: fork_def res_simps myproc_def intro: p_idle)
  next
    case (no_stack i)
    then show ?thesis using assms c alloc p_fork_fail [of i "ptab_of k"]
      by (auto simp: fork_def res_simps myproc_def slot_at_ptab)
  next
    case (new i)
    obtain pgdir k2 where k2: "on_sys_val (on_kmem_val (copyuvm_work (ev_kend ev) (ev_kdata ev)
          (p_pgdir (proc_at c k1)) (unat (p_sz (proc_at c k1))))) k1 = Inr (pgdir, k2)"
      using assms c alloc new(1) by (auto simp: fork_def res_simps myproc_def)
    note t2 = ptab_on_sys_val [OF k2]
    have final: "ptab_of k' = (if pgdir = 0 then upd_slot i (\<lambda>x. x\<lparr>s_state := UNUSED\<rparr>) (ptab_of k2)
        else upd_slot i (\<lambda>x. x\<lparr>s_state := RUNNABLE\<rparr>) (upd_slot i (\<lambda>x. x\<lparr>s_parent := Some c\<rparr>) (ptab_of k2)))"
      using assms c alloc new(1) k2
      by (auto simp: fork_def res_simps myproc_def Let_def comp_def split: if_splits
          dest!: ptab_on_sys dup_files_table dup_cwd_table set_name_table)
    have i: "i < length (t_slots (ptab_of k))" "s_state (slot_at i (ptab_of k)) = UNUSED"
      using new by (simp_all add: slot_at_ptab)
    show ?thesis
    proof (cases "pgdir = 0")
      case True
      have "upd_slot i (\<lambda>x. x\<lparr>s_pid := k_nextpid k, s_state := UNUSED\<rparr>) (ptab_of k)
          = upd_slot i (\<lambda>s. s\<lparr>s_pid := k_nextpid k\<rparr>) (ptab_of k)"
        by (rule upd_slot_cong) (use i in simp_all)
      then show ?thesis using final t2 new(4) True p_fork_fail [OF i] by (simp add: comp_def)
    next
      case False
      then show ?thesis using final t2 new(4) p_fork [OF _ i, of c] c by (simp add: comp_def)
    qed
  qed
qed

lemma exit_table:
  assumes "exit ev k = Inr k'" and c: "k_cpu k = Some c" and "c < length (k_procs k)"
  shows "k_initproc k \<noteq> Some c" and "ptab_of k' = t_exit c (ptab_of k)"
proof -
  obtain k1 where i: "k_initproc k \<noteq> Some c" and k1: "ptab_of k1 = ptab_of k"
    and ex: "sched (upd_proc c (\<lambda>p. p\<lparr>p_state := ZOMBIE\<rparr>)
      (fold (abandon c) [0..<length (k_procs k1)] (wakeup1 (proc_chan (p_parent (proc_at c k1))) k1))) = Inr k'"
  proof -
    obtain k2 k3 k4 k5 where s: "close_files ev c [0..<NOFILE] k = Inr k2" "on_sys begin_tx k2 = Inr k3"
      "(case p_cwd (proc_at c k3) of None \<Rightarrow> Inl Fault | Some ip \<Rightarrow> on_sys (on_fs (iput ip)) k3) = Inr k4"
      "on_sys end_tx k4 = Inr k5"
      and i: "k_initproc k \<noteq> Some c"
      using assms(1) c by (auto simp: exit_def res_simps myproc_def split: if_splits)
    have t4: "ptab_of k4 = ptab_of k3" using s(3) by (auto split: option.splits dest: ptab_on_sys)
    let ?k = "upd_proc c (\<lambda>p. p\<lparr>p_cwd := None\<rparr>) k5"
    have "ptab_of ?k = ptab_of k"
      using close_files_table [OF s(1)] ptab_on_sys [OF s(2)] t4 ptab_on_sys [OF s(4)] by simp
    moreover have "sched (upd_proc c (\<lambda>p. p\<lparr>p_state := ZOMBIE\<rparr>)
      (fold (abandon c) [0..<length (k_procs ?k)] (wakeup1 (proc_chan (p_parent (proc_at c ?k))) ?k))) = Inr k'"
      using assms(1) c s i by (simp add: exit_def myproc_def Let_def)
    ultimately show thesis by (rule that [OF i])
  qed
  have len: "length (k_procs k1) = length (k_procs k)" using k1 by (metis ptab_of_sel(1))
  have "c < length (k_procs k1)" using assms(3) len by simp
  then have "p_parent (proc_at c k1) = s_parent (slot_at c (ptab_of k))" by (simp add: k1 [symmetric] slot_at_ptab)
  then show "ptab_of k' = t_exit c (ptab_of k)"
    using sched_table [OF ex] abandon_loop_table [of "length (k_procs k1)" "wakeup1 (proc_chan (p_parent (proc_at c k1))) k1" c]
    by (simp add: t_exit_def k1 len Let_def)
  show "k_initproc k \<noteq> Some c" by (rule i)
qed

lemma wait_table:
  assumes "wait ev k = Inr (r, k')"
  shows "pstep (ptab_of k) (ptab_of k')"
proof -
  let ?P = "\<lambda>c i. p_parent (proc_at i k) = Some c \<and> p_state (proc_at i k) = ZOMBIE"
  obtain c where c: "k_cpu k = Some c" using assms by (auto simp: wait_def res_simps myproc_def split: option.splits)
  show ?thesis
  proof (cases "find (?P c) [0..<length (k_procs k)]")
    case (Some i)
    then have "reap ev i k = Inr k'" using assms c by (auto simp: wait_def res_simps myproc_def)
    then have t: "ptab_of k' = upd_slot i (\<lambda>s. s\<lparr>s_state := UNUSED, s_pid := 0, s_parent := None\<rparr>) (ptab_of k)"
      by (auto simp: reap_def res_simps Let_def dest!: ptab_on_sys)
    have "i < length (k_procs k)" "?P c i" using find_slot [OF Some] by auto
    then show ?thesis unfolding t using c by (intro p_reap) (simp_all add: slot_at_ptab)
  next
    case None
    have "s_state (slot_at i (ptab_of k)) \<noteq> ZOMBIE" if "s_parent (slot_at i (ptab_of k)) = Some c" for i
    proof -
      have "i < length (k_procs k)" using slot_in_table(2) [of i "ptab_of k"] that by simp
      with that None show ?thesis by (auto simp: find_None_iff slot_at_ptab)
    qed
    then have "pstep (ptab_of k) ((upd_slot c (\<lambda>s. s\<lparr>s_chan := Proc_chan c, s_state := SLEEPING\<rparr>) (ptab_of k))\<lparr>t_cpu := None\<rparr>)"
      using c by (intro p_wait) auto
    with assms c None show ?thesis
      by (auto simp: wait_def res_simps myproc_def Let_def sleep_def intro: p_idle split: if_splits dest!: sched_table)
  qed
qed

lemma kill_table:
  assumes "kill pid k = (r, k')"
  shows "pstep (ptab_of k) (ptab_of k')"
proof (cases "find (\<lambda>i. p_pid (proc_at i k) = pid) [0..<length (k_procs k)]")
  case None
  with assms show ?thesis by (simp add: kill_def p_idle)
next
  case (Some i)
  let ?g = "\<lambda>p. p\<lparr>p_killed := True, p_state := (if p_state p = SLEEPING then RUNNABLE else p_state p)\<rparr>"
  have i: "i < length (k_procs k)" using find_slot [OF Some] by simp
  have k': "k' = upd_proc i ?g k" using assms Some by (simp add: kill_def)
  show ?thesis
  proof (cases "p_state (proc_at i k) = SLEEPING")
    case True
    then have "ptab_of k' = upd_slot i (\<lambda>s. s\<lparr>s_state := RUNNABLE\<rparr>) (ptab_of k)"
      unfolding k' by (intro ptab_upd) (simp add: slot_of_def)
    with True i show ?thesis by (simp add: p_kill slot_at_ptab)
  next
    case False
    then have "ptab_of k' = upd_slot i (\<lambda>s. s) (ptab_of k)"
      unfolding k' by (intro ptab_upd) (simp add: slot_of_def)
    then show ?thesis by (simp add: upd_slot_def p_idle)
  qed
qed

lemma find_winner_runnable:
  "find_winner ps i r = Some j \<Longrightarrow> i \<le> j \<and> j < i + length ps \<and> fst (ps ! (j - i)) = RUNNABLE"
  by (induction ps i r rule: find_winner.induct) (auto simp: Let_def nth_Cons' split: if_splits)

lemma scheduler_table:
  assumes "scheduler k = Inr (Some k')" and cpu: "k_cpu k = None"
  shows "pstep (ptab_of k) (ptab_of k')"
proof -
  let ?ps = "map (\<lambda>p. (p_state p, p_tickets p)) (k_procs k)"
  obtain w seed where w: "lottery ?ps (k_seed k) = Inr (Some (w, seed))"
    using assms(1) by (cases "lottery ?ps (k_seed k)") (auto simp: scheduler_def split: option.splits)
  show ?thesis
  proof (cases w)
    case None
    with assms w show ?thesis by (auto simp: scheduler_def res_simps p_idle)
  next
    case (Some i)
    obtain x where "find_winner ?ps 0 x = Some i"
      using w Some by (auto simp: lottery_def res_simps split: option.splits)
    from find_winner_runnable [OF this] have i: "i < length (k_procs k)" "p_state (proc_at i k) = RUNNABLE"
      by auto
    have "ptab_of k' = (upd_slot i (\<lambda>s. s\<lparr>s_state := RUNNING\<rparr>) (ptab_of k))\<lparr>t_cpu := Some i\<rparr>"
      using assms w Some by (auto simp: scheduler_def res_simps split: if_splits dest!: switchuvm_same)
    with i cpu show ?thesis by (simp add: p_dispatch slot_at_ptab)
  qed
qed


section \<open>Steps of the kernel\<close>

text \<open>
  What can happen next: an operation of the current process, with the file system and the
  descriptors in any state, a wakeup or a tick from an interrupt, or a round of the scheduler when
  no process runs.
\<close>

inductive kstep :: "env \<Rightarrow> kernel \<Rightarrow> kernel \<Rightarrow> bool" for ev where
  ks_fork: "fork ev k = Inr (r, k') \<Longrightarrow> kstep ev k k'"
| ks_exit: "exit ev k = Inr k' \<Longrightarrow> kstep ev k k'"
| ks_wait: "wait ev k = Inr (w, k') \<Longrightarrow> kstep ev k k'"
| ks_sleep: "\<forall>i. ch \<noteq> Proc_chan i \<Longrightarrow> sleep ch k = Inr k' \<Longrightarrow> kstep ev k k'"
| ks_sleep_return: "sleep_return k = Inr k' \<Longrightarrow> kstep ev k k'"
| ks_yield: "yield k = Inr k' \<Longrightarrow> kstep ev k k'"
| ks_wakeup: "kstep ev k (wakeup ch k)"
| ks_tick: "kstep ev k (wakeup Ticks_chan (k\<lparr>k_ticks := k_ticks k + 1\<rparr>))"
| ks_kill: "kill pid k = (r, k') \<Longrightarrow> kstep ev k k'"
| ks_growproc: "growproc ev n k = Inr (r, k') \<Longrightarrow> kstep ev k k'"
| ks_scheduler: "k_cpu k = None \<Longrightarrow> scheduler k = Inr (Some k') \<Longrightarrow> kstep ev k k'"
| ks_sys: "on_sys g k = Inr k' \<Longrightarrow> kstep ev k k'"
| ks_files: "kstep ev k (upd_proc c (\<lambda>p. p\<lparr>p_ofile := fs p\<rparr>) k)"
| ks_cwd: "kstep ev k (upd_proc c (\<lambda>p. p\<lparr>p_cwd := d\<rparr>) k)"
| ks_tickets: "kstep ev k (upd_proc c (\<lambda>p. p\<lparr>p_tickets := n\<rparr>) k)"

definition ptable_ok :: "kernel \<Rightarrow> bool" where
  "ptable_ok k \<longleftrightarrow> ptab_inv (ptab_of k)"

lemma ptable_ok_cpu: "ptable_ok k \<Longrightarrow> k_cpu k = Some c \<Longrightarrow>
    c < length (k_procs k) \<and> p_state (proc_at c k) = RUNNING"
proof -
  assume a: "ptable_ok k" "k_cpu k = Some c"
  then have r: "s_state (slot_at c (ptab_of k)) = RUNNING" by (simp add: ptable_ok_def ptab_inv_def cpu_ok_def)
  moreover from this have "c < length (k_procs k)" using slot_in_table(1) [of c "ptab_of k"] by simp
  ultimately show ?thesis by (simp add: slot_at_ptab)
qed

lemma kstep_pstep:
  assumes "kstep ev k k'" and "ptable_ok k"
  shows "pstep (ptab_of k) (ptab_of k')"
  using assms(1)
proof cases
  case (ks_exit)
  then obtain c where c: "k_cpu k = Some c" by (auto simp: exit_def res_simps myproc_def split: option.splits)
  with exit_table [OF ks_exit c] ptable_ok_cpu [OF assms(2) c] p_exit [of "ptab_of k" c] show ?thesis by simp
next
  case (ks_sleep ch)
  then obtain c where c: "k_cpu k = Some c"
    and s: "sched (upd_proc c (\<lambda>p. p\<lparr>p_chan := ch, p_state := SLEEPING\<rparr>) k) = Inr k'"
    by (auto simp: sleep_def split: option.splits)
  show ?thesis using p_sleep [of "ptab_of k" c ch] c ks_sleep(1) sched_table [OF s] by simp
next
  case (ks_sleep_return)
  then show ?thesis using p_resume [of "ptab_of k"]
    by (auto simp: sleep_return_def res_simps myproc_def split: option.splits)
next
  case (ks_yield)
  then obtain c where c: "k_cpu k = Some c" and s: "sched (upd_proc c (\<lambda>p. p\<lparr>p_state := RUNNABLE\<rparr>) k) = Inr k'"
    by (auto simp: yield_def res_simps myproc_def split: option.splits)
  show ?thesis using p_yield [of "ptab_of k" c] c sched_table [OF s] by simp
qed (auto simp: wakeup_def p_idle intro: p_wakeup fork_table wait_table kill_table scheduler_table
  dest: growproc_table ptab_on_sys)

lemma kstep_ok: "kstep ev k k' \<Longrightarrow> ptable_ok k \<Longrightarrow> ptable_ok k'"
  using pstep_inv [OF kstep_pstep] by (auto simp: ptable_ok_def)

lemma ksteps_ok: "(kstep ev)\<^sup>*\<^sup>* k k' \<Longrightarrow> ptable_ok k \<Longrightarrow> ptable_ok k'"
  by (induction rule: rtranclp_induct) (auto intro: kstep_ok)

end
