(* ===== verification/Vm_Tables.thy ===== *)
theory Vm_Tables
  imports Vm
begin

text \<open>
  Page tables as maps from virtual page numbers to entries: what \<open>walkpgdir\<close> and a store through
  the pointer it returns do to the map, to the allocator and to the rest of memory.
\<close>

section \<open>Page numbers\<close>

definition vpn :: "u32 \<Rightarrow> nat" where
  "vpn va = unat va div 4096"

lemma unat_and_mask: "unat (x AND mask n :: u32) = unat x mod 2 ^ n"
  by (metis take_bit_eq_mask take_bit_eq_mod unsigned_take_bit_eq)

lemma mask_10: "(0x3FF :: u32) = mask 10"
  by (simp add: mask_eq_exp_minus_1)

lemma mask_12: "(0xFFF :: u32) = mask 12"
  by (simp add: mask_eq_exp_minus_1)

lemma vpn_less: "vpn va < 1048576"
  using unsigned_less [of va] by (simp add: vpn_def div_less_iff_less_mult)

lemma PDX_eq: "PDX va = vpn va div 1024"
proof -
  have "unat va < 4294967296" using unsigned_less [of va] by simp
  then have "unat va div 4194304 < 1024" by (simp add: div_less_iff_less_mult)
  moreover have "PDX va = unat va div 4194304 mod 1024"
    unfolding PDX_def mask_10 unat_and_mask by (simp add: drop_bit_eq_div unat_div)
  ultimately show ?thesis by (simp add: vpn_def div_mult2_eq [symmetric])
qed

lemma PTX_eq: "PTX va = vpn va mod 1024"
  unfolding PTX_def mask_10 unat_and_mask by (simp add: drop_bit_eq_div unat_div vpn_def)

lemma vpn_of_nat: "a < 4294967296 \<Longrightarrow> vpn (of_nat a) = a div 4096"
  by (simp add: vpn_def unat_of_nat)

lemma vpn_PGROUNDDOWN: "vpn (PGROUNDDOWN va) = vpn va"
proof -
  have "drop_bit 12 (PGROUNDDOWN va) = drop_bit 12 va"
    by (rule bit_eqI) (auto simp: PGROUNDDOWN_def mask_12 bit_simps dest: bit_imp_le_length)
  then have "unat (drop_bit 12 (PGROUNDDOWN va)) = unat (drop_bit 12 va)" by simp
  then show ?thesis by (simp add: drop_bit_eq_div unat_div vpn_def)
qed

section \<open>Entries\<close>

lemma page_addr_bits:
  assumes "pa mod 4096 = 0" and "n < 12"
  shows "\<not> bit (of_nat pa :: u32) n"
proof -
  have "(2 :: nat) ^ Suc n dvd 2 ^ 12" using assms(2) by (intro le_imp_power_dvd) simp
  moreover have "(2 :: nat) ^ 12 dvd pa" using assms(1) by (simp add: mod_eq_0_iff_dvd)
  ultimately have "2 ^ Suc n dvd pa" by (rule dvd_trans)
  then obtain k where "pa = 2 ^ n * (2 * k)" by (auto simp: mult.assoc mult.left_commute elim: dvdE)
  then have "\<not> bit pa n" by (simp add: bit_iff_odd)
  then show ?thesis by (simp add: bit_of_nat_iff)
qed

lemma present_or: "present (x OR PTE_P)"
proof
  assume e: "(x OR PTE_P) AND PTE_P = 0"
  have "bit ((x OR PTE_P) AND PTE_P) 0" by (simp add: PTE_P_def bit_simps)
  then show False unfolding e by simp
qed

lemma pte_fields:
  assumes pa: "pa mod 4096 = 0" "pa < 4294967296" and f: "f AND NOT 0xFFF = (0 :: u32)"
  shows "PTE_ADDR (of_nat pa OR f) = pa" "PTE_FLAGS (of_nat pa OR f) = f" "present (of_nat pa OR f OR PTE_P)"
proof -
  have fb: "\<not> bit f n" if "12 \<le> n" for n
  proof
    assume b: "bit f n"
    then have "n < 32" using bit_imp_le_length [OF b] by simp
    then have "bit (f AND NOT 0xFFF) n" using b that by (simp add: mask_12 bit_simps)
    with f show False by simp
  qed
  have "(of_nat pa OR f) AND NOT 0xFFF = (of_nat pa :: u32)"
    by (rule bit_eqI) (use fb page_addr_bits [OF pa(1)] in \<open>auto simp: mask_12 bit_simps not_le\<close>)
  then show "PTE_ADDR (of_nat pa OR f) = pa" using pa(2) by (simp add: PTE_ADDR_def unat_of_nat)
  show "PTE_FLAGS (of_nat pa OR f) = f"
    unfolding PTE_FLAGS_def
    by (rule bit_eqI) (use fb page_addr_bits [OF pa(1)] not_le_imp_less in \<open>auto simp: mask_12 bit_simps\<close>)
  show "present (of_nat pa OR f OR PTE_P)" using present_or [of "of_nat pa OR f"] by (simp add: or.assoc)
qed


section \<open>The map of a page directory\<close>

definition has_table :: "memory \<Rightarrow> nat \<Rightarrow> nat \<Rightarrow> bool" where
  "has_table m pgdir d \<longleftrightarrow> present (load32 m (pgdir + 4 * d))"

definition table_of :: "memory \<Rightarrow> nat \<Rightarrow> nat \<Rightarrow> nat" where
  "table_of m pgdir d = KERNBASE + PTE_ADDR (load32 m (pgdir + 4 * d))"

definition entry_addr :: "memory \<Rightarrow> nat \<Rightarrow> nat \<Rightarrow> nat" where
  "entry_addr m pgdir v = table_of m pgdir (v div 1024) + 4 * (v mod 1024)"

definition entry :: "memory \<Rightarrow> nat \<Rightarrow> nat \<Rightarrow> u32" where
  "entry m pgdir v = (if has_table m pgdir (v div 1024) then load32 m (entry_addr m pgdir v) else 0)"

definition tables :: "memory \<Rightarrow> nat \<Rightarrow> nat set" where
  "tables m pgdir = table_of m pgdir ` {d. d < 1024 \<and> has_table m pgdir d}"

text \<open>The directory and its tables are pages of their own, and none of them is free.\<close>

definition pt_ok :: "nat \<Rightarrow> nat list \<Rightarrow> nat \<Rightarrow> memory \<Rightarrow> bool" where
  "pt_ok kend free pgdir m \<longleftrightarrow>
     page_ok kend pgdir \<and> pgdir \<notin> set free \<and> pgdir \<notin> tables m pgdir
     \<and> (\<forall>t \<in> tables m pgdir. page_ok kend t \<and> t \<notin> set free)
     \<and> inj_on (table_of m pgdir) {d. d < 1024 \<and> has_table m pgdir d}"

lemma page_okD: "page_ok kend p \<Longrightarrow> p mod 4096 = 0 \<and> KERNBASE \<le> p \<and> p - KERNBASE < PHYSTOP \<and> p < 4294967296"
  by (auto simp: page_ok_def PGSIZE_def KERNBASE_def PHYSTOP_def)

lemma page_ok_phys: "page_ok kend p \<Longrightarrow> (p - KERNBASE) mod 4096 = 0 \<and> p - KERNBASE < 4294967296"
proof -
  assume "page_ok kend p"
  then have "4096 dvd p" "KERNBASE \<le> p" "p - KERNBASE < PHYSTOP"
    using page_okD by (auto simp: mod_eq_0_iff_dvd)
  moreover have "4096 dvd KERNBASE" by (simp add: KERNBASE_def)
  ultimately have "4096 dvd p - KERNBASE" by (simp add: dvd_diff_nat)
  with \<open>p - KERNBASE < PHYSTOP\<close> show ?thesis by (simp add: mod_eq_0_iff_dvd PHYSTOP_def)
qed

lemma tables_at: "v < 1048576 \<Longrightarrow> has_table m pgdir (v div 1024) \<Longrightarrow> table_of m pgdir (v div 1024) \<in> tables m pgdir"
  unfolding tables_def by (rule imageI) (simp add: div_less_iff_less_mult)

lemma entry_in_page: "v < 1048576 \<Longrightarrow> has_table m pgdir (v div 1024) \<Longrightarrow> a \<in> {entry_addr m pgdir v ..< entry_addr m pgdir v + 4}
   \<Longrightarrow> a \<in> page_bytes (table_of m pgdir (v div 1024))"
proof -
  assume "a \<in> {entry_addr m pgdir v ..< entry_addr m pgdir v + 4}"
  moreover have "4 * (v mod 1024) + 4 \<le> 4096" using mod_less_divisor [of 1024 v] by linarith
  ultimately show ?thesis by (auto simp: entry_addr_def page_bytes_def PGSIZE_def)
qed

text \<open>A store into one page leaves the words of the others.\<close>

lemma load32_other_page:
  assumes "page_ok kend p" "page_ok kend q" "p \<noteq> q"
    and "\<And>x. x \<notin> page_bytes p \<Longrightarrow> m' x = m x" and "i < 1024"
  shows "load32 m' (q + 4 * i) = load32 m (q + 4 * i)"
proof (rule load32_cong)
  fix x assume "q + 4 * i \<le> x" "x < q + 4 * i + 4"
  then have "x \<in> page_bytes q" using assms(5) by (simp add: page_bytes_def PGSIZE_def)
  then show "m' x = m x" using pages_disjoint [OF assms(2,1)] assms(3,4) by metis
qed

text \<open>Memory changed only in pages that are neither the directory nor a table: the same map.\<close>

lemma entry_unchanged:
  assumes ok: "pt_ok kend free pgdir m"
    and same: "\<And>x q. q = pgdir \<or> q \<in> tables m pgdir \<Longrightarrow> x \<in> page_bytes q \<Longrightarrow> m' x = m x"
  shows "d < 1024 \<Longrightarrow> load32 m' (pgdir + 4 * d) = load32 m (pgdir + 4 * d)"
    and "d < 1024 \<Longrightarrow> has_table m' pgdir d = has_table m pgdir d"
    and "d < 1024 \<Longrightarrow> table_of m' pgdir d = table_of m pgdir d"
    and "tables m' pgdir = tables m pgdir"
    and "pt_ok kend free pgdir m'"
    and "v < 1048576 \<Longrightarrow> entry m' pgdir v = entry m pgdir v"
proof -
  show pde: "load32 m' (pgdir + 4 * d) = load32 m (pgdir + 4 * d)" if "d < 1024" for d
  proof (rule load32_cong)
    fix x assume "pgdir + 4 * d \<le> x" "x < pgdir + 4 * d + 4"
    then have "x \<in> page_bytes pgdir" using that by (simp add: page_bytes_def PGSIZE_def)
    then show "m' x = m x" using same by blast
  qed
  show ht: "has_table m' pgdir d = has_table m pgdir d" if "d < 1024" for d
    using pde [OF that] by (simp add: has_table_def)
  show tb: "table_of m' pgdir d = table_of m pgdir d" if "d < 1024" for d
    using pde [OF that] by (simp add: table_of_def)
  have set: "{d. d < 1024 \<and> has_table m' pgdir d} = {d. d < 1024 \<and> has_table m pgdir d}" using ht by auto
  show ts: "tables m' pgdir = tables m pgdir"
    unfolding tables_def set using tb by (auto simp: image_iff)
  have "inj_on (table_of m' pgdir) {d. d < 1024 \<and> has_table m pgdir d}
    = inj_on (table_of m pgdir) {d. d < 1024 \<and> has_table m pgdir d}"
    by (rule inj_on_cong) (simp add: tb)
  with ok show "pt_ok kend free pgdir m'" by (simp add: pt_ok_def ts set)
  show "entry m' pgdir v = entry m pgdir v" if v: "v < 1048576"
  proof -
    have d: "v div 1024 < 1024" using v by (simp add: div_less_iff_less_mult)
    have "load32 m' (entry_addr m pgdir v) = load32 m (entry_addr m pgdir v)" if h: "has_table m pgdir (v div 1024)"
    proof (rule load32_cong)
      fix x assume "entry_addr m pgdir v \<le> x" "x < entry_addr m pgdir v + 4"
      then have "x \<in> page_bytes (table_of m pgdir (v div 1024))"
        using entry_in_page [OF v h, of x] by simp
      then show "m' x = m x" using same tables_at [OF v h] by blast
    qed
    then show ?thesis by (simp add: entry_def ht [OF d] tb [OF d] entry_addr_def)
  qed
qed

lemma load_entry_same_table:
  assumes "v < 1048576" "w < 1048576" "has_table m pgdir (w div 1024)" "has_table m pgdir (v div 1024)"
    "pt_ok kend free pgdir m" "v \<noteq> w"
  shows "entry_addr m pgdir w + 4 \<le> entry_addr m pgdir v \<or> entry_addr m pgdir v + 4 \<le> entry_addr m pgdir w"
proof (cases "v div 1024 = w div 1024")
  case True
  then have "v mod 1024 \<noteq> w mod 1024" using assms(6) by (metis div_mult_mod_eq)
  then show ?thesis using True by (auto simp: entry_addr_def)
next
  case False
  let ?tv = "table_of m pgdir (v div 1024)" and ?tw = "table_of m pgdir (w div 1024)"
  have ok: "page_ok kend ?tv" "page_ok kend ?tw"
    using assms(1-5) tables_at by (auto simp: pt_ok_def)
  have "?tv \<noteq> ?tw"
  proof
    assume eq: "?tv = ?tw"
    have inj: "inj_on (table_of m pgdir) {d. d < 1024 \<and> has_table m pgdir d}" using assms(5) by (simp add: pt_ok_def)
    have "v div 1024 \<in> {d. d < 1024 \<and> has_table m pgdir d}" "w div 1024 \<in> {d. d < 1024 \<and> has_table m pgdir d}"
      using assms(1-4) by (simp_all add: div_less_iff_less_mult)
    from inj_onD [OF inj eq this] have "v div 1024 = w div 1024" .
    with False show False by simp
  qed
  from pages_apart [OF ok this] have "?tv + 4096 \<le> ?tw \<or> ?tw + 4096 \<le> ?tv" by (simp add: PGSIZE_def)
  moreover have "4 * (v mod 1024) + 4 \<le> 4096" "4 * (w mod 1024) + 4 \<le> 4096"
    using mod_less_divisor [of 1024 v] mod_less_divisor [of 1024 w] by linarith+
  ultimately show ?thesis unfolding entry_addr_def by linarith
qed

text \<open>A store through the pointer to an entry changes that entry alone.\<close>

lemma store_entry:
  fixes x :: u32
  assumes ok: "pt_ok kend free pgdir m" and v: "v < 1048576" and h: "has_table m pgdir (v div 1024)"
  defines "m' \<equiv> store32 (entry_addr m pgdir v) x m"
  shows "pt_ok kend free pgdir m'" "tables m' pgdir = tables m pgdir"
    "w < 1048576 \<Longrightarrow> entry m' pgdir w = (if w = v then x else entry m pgdir w)"
    "d < 1024 \<Longrightarrow> has_table m' pgdir d = has_table m pgdir d"
    "d < 1024 \<Longrightarrow> table_of m' pgdir d = table_of m pgdir d"
    "y \<notin> page_bytes (table_of m pgdir (v div 1024)) \<Longrightarrow> m' y = m y"
proof -
  let ?t = "table_of m pgdir (v div 1024)"
  have t: "?t \<in> tables m pgdir" by (rule tables_at [OF v h])
  then have tok: "page_ok kend ?t" "?t \<noteq> pgdir" "page_ok kend pgdir" using ok by (auto simp: pt_ok_def)
  show out: "m' y = m y" if "y \<notin> page_bytes ?t" for y
    using that entry_in_page [OF v h, of y] by (auto simp: m'_def store32_def)
  have pde: "load32 m' (pgdir + 4 * d) = load32 m (pgdir + 4 * d)" if "d < 1024" for d
    using load32_other_page [OF tok(1,3,2) out that] .
  show ht: "has_table m' pgdir d = has_table m pgdir d" if "d < 1024" for d
    using pde [OF that] by (simp add: has_table_def)
  show tb: "table_of m' pgdir d = table_of m pgdir d" if "d < 1024" for d
    using pde [OF that] by (simp add: table_of_def)
  have set: "{d. d < 1024 \<and> has_table m' pgdir d} = {d. d < 1024 \<and> has_table m pgdir d}" using ht by auto
  show ts: "tables m' pgdir = tables m pgdir"
    unfolding tables_def set using tb by (auto simp: image_iff)
  have "inj_on (table_of m' pgdir) {d. d < 1024 \<and> has_table m pgdir d}
    = inj_on (table_of m pgdir) {d. d < 1024 \<and> has_table m pgdir d}"
    by (rule inj_on_cong) (simp add: tb)
  with ok show "pt_ok kend free pgdir m'" by (simp add: pt_ok_def ts set)
  show "entry m' pgdir w = (if w = v then x else entry m pgdir w)" if w: "w < 1048576"
  proof -
    have d: "w div 1024 < 1024" using w by (simp add: div_less_iff_less_mult)
    have a: "entry_addr m' pgdir w = entry_addr m pgdir w" by (simp add: entry_addr_def tb [OF d])
    show ?thesis
    proof (cases "has_table m pgdir (w div 1024)")
      case True
      have "load32 m' (entry_addr m pgdir w) = load32 m (entry_addr m pgdir w)" if "w \<noteq> v"
        unfolding m'_def using load_entry_same_table [OF w v h True ok that]
        by (intro load32_store32_apart) auto
      then show ?thesis using True by (auto simp: entry_def ht [OF d] a) (simp add: m'_def)
    next
      case False
      with h have "w \<noteq> v" by auto
      with False show ?thesis by (simp add: entry_def ht [OF d])
    qed
  qed
qed


section \<open>walkpgdir\<close>

lemma P2V_table: "page_ok kend (KERNBASE + pa) \<Longrightarrow> P2V pa = Inr (KERNBASE + pa)"
  by (auto simp: P2V_def page_ok_def KERNBASE_def PHYSTOP_def)

lemma V2P_page: "page_ok kend p \<Longrightarrow> V2P p = Inr (p - KERNBASE)"
  by (simp add: V2P_def page_ok_def)

lemma walk_present:
  assumes "pt_ok kend free pgdir (km_mem st)" and "has_table (km_mem st) pgdir (vpn va div 1024)"
  shows "walkpgdir pgdir va al st = Inr (entry_addr (km_mem st) pgdir (vpn va), st)"
    "entry_addr (km_mem st) pgdir (vpn va) \<noteq> 0"
    "load_pte (entry_addr (km_mem st) pgdir (vpn va)) st = entry (km_mem st) pgdir (vpn va)"
proof -
  let ?t = "table_of (km_mem st) pgdir (vpn va div 1024)"
  have "?t \<in> tables (km_mem st) pgdir" using tables_at [OF vpn_less assms(2)] .
  then have t: "page_ok kend ?t" using assms(1) by (simp add: pt_ok_def)
  from P2V_table [OF t [unfolded table_of_def]] assms(2)
  show "walkpgdir pgdir va al st = Inr (entry_addr (km_mem st) pgdir (vpn va), st)"
    by (simp add: walkpgdir_def PDX_eq PTX_eq has_table_def entry_addr_def table_of_def Let_def)
  show "entry_addr (km_mem st) pgdir (vpn va) \<noteq> 0" by (simp add: entry_addr_def table_of_def KERNBASE_def)
  show "load_pte (entry_addr (km_mem st) pgdir (vpn va)) st = entry (km_mem st) pgdir (vpn va)"
    using assms(2) by (simp add: entry_def)
qed

lemma walk_absent:
  assumes "\<not> has_table (km_mem st) pgdir (vpn va div 1024)"
  shows "walkpgdir pgdir va False st = Inr (0, st)"
  using assms by (simp add: walkpgdir_def PDX_eq has_table_def Let_def)

text \<open>The pages an address space and the allocator own, where alone the code writes.\<close>

definition owned :: "nat list \<Rightarrow> nat \<Rightarrow> memory \<Rightarrow> nat set" where
  "owned free pgdir m = insert pgdir (tables m pgdir) \<union> set free"

lemma load32_fill_inside:
  assumes "i < 1024"
  shows "load32 (fill p 0 PGSIZE m) (p + 4 * i) = 0"
proof -
  have "bytes_of_u32 0 = replicate 4 0" by (simp add: bytes_of_u32_def numeral_eq_Suc)
  moreover have "map (fill p 0 PGSIZE m) [p + 4 * i..<p + 4 * i + 4] = replicate 4 0"
    by (rule nth_equalityI) (use assms in \<open>simp_all add: fill_def PGSIZE_def\<close>)
  ultimately show ?thesis unfolding load32_def by (metis u32_of_bytes_of_u32)
qed

text \<open>A new, zeroed page table for directory entry \<open>d\<close>.\<close>

lemma add_table:
  assumes ok: "pt_ok kend (p # free) pgdir m" and p: "page_ok kend p" and d: "d < 1024" "\<not> has_table m pgdir d"
    and dist: "p \<notin> set free"
  defines "m' \<equiv> store32 (pgdir + 4 * d) (of_nat (p - KERNBASE) OR PTE_P OR PTE_W OR PTE_U) (fill p 0 PGSIZE m)"
  shows "pt_ok kend free pgdir m'" "has_table m' pgdir d" "table_of m' pgdir d = p"
    "\<And>v. v < 1048576 \<Longrightarrow> entry m' pgdir v = entry m pgdir v"
    "tables m' pgdir = insert p (tables m pgdir)"
    "\<And>x. x \<notin> page_bytes p \<Longrightarrow> x \<notin> page_bytes pgdir \<Longrightarrow> m' x = m x"
proof -
  let ?pte = "of_nat (p - KERNBASE) OR PTE_P OR PTE_W OR PTE_U :: u32"
  have pd: "page_ok kend pgdir" "p \<noteq> pgdir" "p \<notin> tables m pgdir" using ok by (auto simp: pt_ok_def)
  show out: "m' x = m x" if "x \<notin> page_bytes p" "x \<notin> page_bytes pgdir" for x
    using that d(1) by (auto simp: m'_def store32_def fill_def page_bytes_def PGSIZE_def)
  have pt: "m' x = fill p 0 PGSIZE m x" if "x \<in> page_bytes p" for x
  proof -
    have "x \<notin> page_bytes pgdir" using pages_disjoint [OF p pd(1,2) that] .
    then show ?thesis using d(1) by (auto simp: m'_def store32_def page_bytes_def PGSIZE_def)
  qed
  have pde: "load32 m' (pgdir + 4 * e) = (if e = d then ?pte else load32 m (pgdir + 4 * e))" if e: "e < 1024" for e
  proof (cases "e = d")
    case False
    then have "load32 m' (pgdir + 4 * e) = load32 (fill p 0 PGSIZE m) (pgdir + 4 * e)"
      unfolding m'_def by (intro load32_store32_apart) auto
    also have "\<dots> = load32 m (pgdir + 4 * e)"
      by (rule load32_other_page [OF p pd(1,2) _ e]) (auto simp: fill_def page_bytes_def)
    finally show ?thesis using False by simp
  qed (simp add: m'_def)
  have fl: "(PTE_P OR PTE_W OR PTE_U) AND NOT 0xFFF = (0 :: u32)" by (simp add: PTE_P_def PTE_W_def PTE_U_def)
  have addr: "PTE_ADDR ?pte = p - KERNBASE"
    using pte_fields(1) [OF conjunct1 conjunct2 fl, OF page_ok_phys [OF p] page_ok_phys [OF p]] by (simp add: or.assoc)
  have pres: "present ?pte"
    using present_or [of "of_nat (p - KERNBASE) OR PTE_W OR PTE_U"] by (simp add: or.assoc or.left_commute or.commute)
  have ht: "has_table m' pgdir e \<longleftrightarrow> e = d \<or> has_table m pgdir e" if "e < 1024" for e
    using pde [OF that] pres by (auto simp: has_table_def)
  have tb: "table_of m' pgdir e = (if e = d then p else table_of m pgdir e)" if "e < 1024" for e
    using pde [OF that] addr p by (simp add: table_of_def page_ok_def)
  show "has_table m' pgdir d" "table_of m' pgdir d = p" using ht [OF d(1)] tb [OF d(1)] by auto
  have set: "{e. e < 1024 \<and> has_table m' pgdir e} = insert d {e. e < 1024 \<and> has_table m pgdir e}"
    using ht d(1) by auto
  have same: "table_of m' pgdir e = table_of m pgdir e" if "e \<in> {e. e < 1024 \<and> has_table m pgdir e}" for e
    using that tb d(2) by auto
  have im: "table_of m' pgdir ` {e. e < 1024 \<and> has_table m pgdir e} = tables m pgdir"
    unfolding tables_def by (rule image_cong [OF refl same])
  show ts: "tables m' pgdir = insert p (tables m pgdir)"
    unfolding tables_def set image_insert using im tb [OF d(1)] by (simp add: tables_def)
  have "inj_on (table_of m' pgdir) {e. e < 1024 \<and> has_table m pgdir e}
    = inj_on (table_of m pgdir) {e. e < 1024 \<and> has_table m pgdir e}"
    by (rule inj_on_cong [OF same])
  then have "inj_on (table_of m' pgdir) (insert d {e. e < 1024 \<and> has_table m pgdir e})"
    using ok d im tb [OF d(1)] pd(3) by (auto simp: pt_ok_def)
  then show "pt_ok kend free pgdir m'" using ok p pd dist ts by (auto simp: pt_ok_def set)
  show "entry m' pgdir v = entry m pgdir v" if v: "v < 1048576" for v
  proof -
    have e: "v div 1024 < 1024" using v by (simp add: div_less_iff_less_mult)
    consider "v div 1024 = d" | "v div 1024 \<noteq> d" "has_table m pgdir (v div 1024)"
      | "v div 1024 \<noteq> d" "\<not> has_table m pgdir (v div 1024)" by blast
    then show ?thesis
    proof cases
      case 1
      have "load32 m' (p + 4 * (v mod 1024)) = load32 (fill p 0 PGSIZE m) (p + 4 * (v mod 1024))"
        by (rule load32_cong, rule pt) (use mod_less_divisor [of 1024 v] in \<open>simp add: page_bytes_def PGSIZE_def\<close>)
      also have "\<dots> = 0" by (rule load32_fill_inside) simp
      finally show ?thesis using 1 d(2) ht [OF e] tb [OF e] by (simp add: entry_def entry_addr_def)
    next
      case 2
      let ?t = "table_of m pgdir (v div 1024)"
      have t: "?t \<in> tables m pgdir" by (rule tables_at [OF v 2(2)])
      then have tok: "page_ok kend ?t" "?t \<noteq> p" "?t \<noteq> pgdir" using ok by (auto simp: pt_ok_def)
      have "load32 m' (entry_addr m pgdir v) = load32 m (entry_addr m pgdir v)"
      proof (rule load32_cong)
        fix x assume "entry_addr m pgdir v \<le> x" "x < entry_addr m pgdir v + 4"
        then have "x \<in> page_bytes ?t" using entry_in_page [OF v 2(2), of x] by simp
        then have "x \<notin> page_bytes p" "x \<notin> page_bytes pgdir"
          using pages_disjoint [OF tok(1) p tok(2)] pages_disjoint [OF tok(1) pd(1) tok(3)] by auto
        then show "m' x = m x" by (rule out)
      qed
      with 2 show ?thesis by (simp add: entry_def entry_addr_def ht [OF e] tb [OF e])
    next
      case 3
      with ht [OF e] show ?thesis by (simp add: entry_def)
    qed
  qed
qed


section \<open>Address spaces in memory\<close>

definition vm_ok :: "nat \<Rightarrow> nat list \<Rightarrow> nat \<Rightarrow> kmem \<Rightarrow> bool" where
  "vm_ok kend free pgdir st \<longleftrightarrow> kmem_inv kend free st \<and> pt_ok kend free pgdir (km_mem st)"

definition frame :: "nat set \<Rightarrow> memory \<Rightarrow> memory \<Rightarrow> bool" where
  "frame ps m m' \<longleftrightarrow> (\<forall>x. (\<forall>q \<in> ps. x \<notin> page_bytes q) \<longrightarrow> m' x = m x)"

lemma frame_refl [simp]: "frame ps m m"
  by (simp add: frame_def)

lemma frame_trans: "frame ps m m1 \<Longrightarrow> frame ps m1 m2 \<Longrightarrow> frame ps m m2"
  by (simp add: frame_def)

text \<open>One step of the code on an address space: it may use up free pages for page tables.\<close>

definition vm_step :: "nat \<Rightarrow> nat \<Rightarrow> nat list \<Rightarrow> kmem \<Rightarrow> nat list \<Rightarrow> kmem \<Rightarrow> bool" where
  "vm_step kend pgdir free st free' st' \<longleftrightarrow>
     vm_ok kend free' pgdir st' \<and> (\<exists>k. free' = drop k free)
     \<and> owned free' pgdir (km_mem st') = owned free pgdir (km_mem st)
     \<and> frame (owned free pgdir (km_mem st)) (km_mem st) (km_mem st')"

lemma vm_step_refl: "vm_ok kend free pgdir st \<Longrightarrow> vm_step kend pgdir free st free st"
  by (auto simp: vm_step_def intro: exI [of _ 0])

lemma vm_step_trans:
  assumes "vm_step kend pgdir free st free1 st1" and "vm_step kend pgdir free1 st1 free2 st2"
  shows "vm_step kend pgdir free st free2 st2"
proof -
  from assms obtain j k where jk: "free1 = drop j free" "free2 = drop k free1" by (auto simp: vm_step_def)
  then have "free2 = drop (j + k) free" by (simp add: add.commute)
  with assms show ?thesis by (auto simp: vm_step_def intro: frame_trans)
qed

lemma walk_alloc:
  assumes ok: "vm_ok kend free pgdir st"
  shows "\<exists>pte st' free'. walkpgdir pgdir va True st = Inr (pte, st') \<and> vm_step kend pgdir free st free' st'
    \<and> (\<forall>v < 1048576. entry (km_mem st') pgdir v = entry (km_mem st) pgdir v)
    \<and> (if pte = 0 then free' = [] else has_table (km_mem st') pgdir (vpn va div 1024)
         \<and> pte = entry_addr (km_mem st') pgdir (vpn va))
    \<and> length free \<le> Suc (length free')
    \<and> (has_table (km_mem st) pgdir (vpn va div 1024) \<longrightarrow> free' = free \<and> pte \<noteq> 0)"
proof (cases "has_table (km_mem st) pgdir (vpn va div 1024)")
  case True
  have pt: "pt_ok kend free pgdir (km_mem st)" using ok by (simp add: vm_ok_def)
  from walk_present [OF pt True] True show ?thesis
    by (intro exI [of _ "entry_addr (km_mem st) pgdir (vpn va)"] exI [of _ st] exI [of _ free])
      (simp add: vm_step_refl [OF ok])
next
  case False
  have inv: "kmem_inv kend free st" and pt: "pt_ok kend free pgdir (km_mem st)" using ok by (simp_all add: vm_ok_def)
  obtain p st1 where k: "kalloc st = (p, st1)" by (cases "kalloc st")
  note ka = kalloc_ok [OF inv k]
  have nt: "\<not> present (load_pte (pgdir + 4 * PDX va) st)" using False by (simp add: has_table_def PDX_eq)
  show ?thesis
  proof (cases free)
    case Nil
    with ka have "p = 0" "st1 = st" by auto
    with nt k Nil vm_step_refl [OF ok] False show ?thesis
      by (auto simp: walkpgdir_def Let_def intro!: exI [of _ free])
  next
    case (Cons q qs)
    with ka have p: "p = q" "p \<noteq> 0" "kmem_inv kend qs st1" "km_mem st1 = km_mem st" by auto
    have pok: "page_ok kend p" "p \<notin> set qs" using inv Cons p by (auto simp: kmem_inv_def)
    have d: "vpn va div 1024 < 1024" using vpn_less [of va] by (simp add: div_less_iff_less_mult)
    define pte :: u32 where "pte = of_nat (p - KERNBASE) OR PTE_P OR PTE_W OR PTE_U"
    define st2 where "st2 = store_pte (pgdir + 4 * (vpn va div 1024)) pte (zero_page p st1)"
    have w: "walkpgdir pgdir va True st = Inr (p + 4 * PTX va, st2)"
      using nt k p(2) V2P_page [OF pok(1)] by (simp add: walkpgdir_def Let_def st2_def pte_def PDX_eq)
    have pt': "pt_ok kend (p # qs) pgdir (km_mem st)" using pt Cons p(1) by simp
    have m2: "km_mem st2 = store32 (pgdir + 4 * (vpn va div 1024)) pte (fill p 0 PGSIZE (km_mem st))"
      by (simp add: st2_def store_pte_def zero_page_def p(4))
    note at = add_table [OF pt' pok(1) d False pok(2), folded pte_def, folded m2]
    have pg: "pgdir \<notin> set qs" "page_ok kend pgdir" using pt Cons by (auto simp: pt_ok_def)
    have "kmem_inv kend qs (st1\<lparr>km_mem := km_mem st2\<rparr>)"
    proof (rule kmem_inv_mem [OF p(3)])
      fix x assume "\<exists>r \<in> set qs. x \<in> page_bytes r"
      then obtain r where r: "r \<in> set qs" "x \<in> page_bytes r" by blast
      then have rok: "page_ok kend r" using inv Cons by (auto simp: kmem_inv_def)
      have "x \<notin> page_bytes p" using pages_disjoint [OF rok pok(1) _ r(2)] r(1) pok(2) by auto
      moreover have "x \<notin> page_bytes pgdir" using pages_disjoint [OF rok pg(2) _ r(2)] r(1) pg(1) by auto
      ultimately show "km_mem st2 x = km_mem st1 x" using at(6) p(4) by simp
    qed
    moreover have "st1\<lparr>km_mem := km_mem st2\<rparr> = st2" by (simp add: st2_def store_pte_def zero_page_def)
    ultimately have ok2: "vm_ok kend qs pgdir st2" using at(1) by (simp add: vm_ok_def)
    have own: "owned qs pgdir (km_mem st2) = owned free pgdir (km_mem st)"
      using Cons p(1) at(5) by (auto simp: owned_def)
    have fr: "frame (owned free pgdir (km_mem st)) (km_mem st) (km_mem st2)"
      unfolding frame_def
    proof (intro allI impI)
      fix x assume "\<forall>q \<in> owned free pgdir (km_mem st). x \<notin> page_bytes q"
      then have "x \<notin> page_bytes p" "x \<notin> page_bytes pgdir" using Cons p(1) by (auto simp: owned_def)
      then show "km_mem st2 x = km_mem st x" by (rule at(6))
    qed
    have "vm_step kend pgdir free st qs st2"
      using ok2 own fr Cons by (auto simp: vm_step_def intro: exI [of _ 1])
    moreover have "p + 4 * PTX va = entry_addr (km_mem st2) pgdir (vpn va)"
      using at(3) by (simp add: entry_addr_def PTX_eq)
    ultimately show ?thesis
      using w at(2,4) p(2) Cons False by (intro exI [of _ "p + 4 * PTX va"] exI [of _ st2] exI [of _ qs]) simp
  qed
qed

lemma store_step:
  fixes x :: u32
  assumes ok: "vm_ok kend free pgdir st" and v: "v < 1048576" and h: "has_table (km_mem st) pgdir (v div 1024)"
  defines "st' \<equiv> store_pte (entry_addr (km_mem st) pgdir v) x st"
  shows "vm_step kend pgdir free st free st'"
    "w < 1048576 \<Longrightarrow> entry (km_mem st') pgdir w = (if w = v then x else entry (km_mem st) pgdir w)"
proof -
  have inv: "kmem_inv kend free st" and pt: "pt_ok kend free pgdir (km_mem st)" using ok by (simp_all add: vm_ok_def)
  let ?t = "table_of (km_mem st) pgdir (v div 1024)"
  have m: "km_mem st' = store32 (entry_addr (km_mem st) pgdir v) x (km_mem st)" by (simp add: st'_def store_pte_def)
  note se = store_entry [OF pt v h, where x = x, folded m]
  show "w < 1048576 \<Longrightarrow> entry (km_mem st') pgdir w = (if w = v then x else entry (km_mem st) pgdir w)" by (rule se(3))
  have t: "?t \<in> tables (km_mem st) pgdir" by (rule tables_at [OF v h])
  then have tok: "page_ok kend ?t" "?t \<notin> set free" using pt by (auto simp: pt_ok_def)
  have "kmem_inv kend free (st\<lparr>km_mem := km_mem st'\<rparr>)"
  proof (rule kmem_inv_mem [OF inv])
    fix y assume "\<exists>r \<in> set free. y \<in> page_bytes r"
    then obtain r where r: "r \<in> set free" "y \<in> page_bytes r" by blast
    then have rok: "page_ok kend r" using inv by (simp add: kmem_inv_def)
    have "y \<notin> page_bytes ?t" using pages_disjoint [OF rok tok(1) _ r(2)] r(1) tok(2) by auto
    then show "km_mem st' y = km_mem st y" by (rule se(6))
  qed
  moreover have "st\<lparr>km_mem := km_mem st'\<rparr> = st'" by (simp add: st'_def store_pte_def)
  moreover have "frame (owned free pgdir (km_mem st)) (km_mem st) (km_mem st')"
    using se(6) t by (auto simp: frame_def owned_def)
  ultimately show "vm_step kend pgdir free st free st'"
    using se(1,2) by (auto simp: vm_step_def vm_ok_def owned_def intro: exI [of _ 0])
qed

section \<open>mappages\<close>

lemma vpn_next: "vpn a + 1 < 1048576 \<Longrightarrow> vpn (a + 4096) = vpn a + 1"
proof -
  assume "vpn a + 1 < 1048576"
  then have "unat a + 4096 < 4294967296" unfolding vpn_def by linarith
  then have "unat (a + 4096) = unat a + 4096" by (simp add: unat_word_ariths(1))
  then show ?thesis by (simp add: vpn_def)
qed

text \<open>The entry \<open>mappages\<close> writes for the \<open>i\<close>-th page.\<close>

definition map_entry :: "u32 \<Rightarrow> u32 \<Rightarrow> nat \<Rightarrow> u32" where
  "map_entry pa perm i = (pa + of_nat i * 4096) OR perm OR PTE_P"

lemma map_entry_Suc: "map_entry (pa + 4096) perm i = map_entry pa perm (Suc i)"
  by (simp add: map_entry_def algebra_simps)

lemma mappages_loop_ok:
  assumes "vm_ok kend free pgdir st" and "vpn a + n < 1048576"
    and "\<forall>i \<le> n. \<not> present (entry (km_mem st) pgdir (vpn a + i))"
  shows "\<exists>r st' free' k. mappages_loop pgdir a pa perm n st = Inr (r, st') \<and> vm_step kend pgdir free st free' st'
    \<and> (r = 0 \<and> k = Suc n \<or> r = -1 \<and> k \<le> n \<and> free' = [])
    \<and> (n = 0 \<and> has_table (km_mem st) pgdir (vpn a div 1024) \<longrightarrow> r = 0)
    \<and> (\<forall>v < 1048576. entry (km_mem st') pgdir v =
         (if vpn a \<le> v \<and> v < vpn a + k then map_entry pa perm (v - vpn a) else entry (km_mem st) pgdir v))"
  using assms
proof (induction n arbitrary: a pa st free)
  case (0 a pa st free)
  from walk_alloc [OF "0.prems"(1), of a] obtain pte st1 free1 where
    w: "walkpgdir pgdir a True st = Inr (pte, st1)" "vm_step kend pgdir free st free1 st1"
      "\<forall>v < 1048576. entry (km_mem st1) pgdir v = entry (km_mem st) pgdir v"
      "if pte = 0 then free1 = [] else has_table (km_mem st1) pgdir (vpn a div 1024) \<and> pte = entry_addr (km_mem st1) pgdir (vpn a)"
      "has_table (km_mem st) pgdir (vpn a div 1024) \<longrightarrow> pte \<noteq> 0"
    by blast
  show ?case
  proof (cases "pte = 0")
    case True
    with w show ?thesis by (subst mappages_loop.simps) (auto intro!: exI [of _ free1] exI [of _ "0::nat"])
  next
    case False
    with w(4) have h: "has_table (km_mem st1) pgdir (vpn a div 1024)" "pte = entry_addr (km_mem st1) pgdir (vpn a)" by auto
    have ok1: "vm_ok kend free1 pgdir st1" using w(2) by (simp add: vm_step_def)
    have ld: "load_pte pte st1 = entry (km_mem st1) pgdir (vpn a)" using h by (simp add: entry_def)
    have np: "\<not> present (load_pte pte st1)" using "0.prems"(3) w(3) vpn_less [of a] by (simp add: ld)
    note s = store_step [OF ok1 vpn_less h(1), where x = "pa OR perm OR PTE_P", folded h(2)]
    have "mappages_loop pgdir a pa perm 0 st = Inr (0, store_pte pte (pa OR perm OR PTE_P) st1)"
      using w(1) False np by (subst mappages_loop.simps) (simp add: Let_def)
    moreover have "entry (km_mem (store_pte pte (pa OR perm OR PTE_P) st1)) pgdir v =
        (if vpn a \<le> v \<and> v < vpn a + 1 then map_entry pa perm (v - vpn a) else entry (km_mem st) pgdir v)"
      if "v < 1048576" for v using s(2) [OF that] w(3) that by (auto simp: map_entry_def)
    ultimately show ?thesis using vm_step_trans [OF w(2) s(1)] by fastforce
  qed
next
  case (Suc n a pa st free)
  from walk_alloc [OF "Suc.prems"(1), of a] obtain pte st1 free1 where
    w: "walkpgdir pgdir a True st = Inr (pte, st1)" "vm_step kend pgdir free st free1 st1"
      "\<forall>v < 1048576. entry (km_mem st1) pgdir v = entry (km_mem st) pgdir v"
      "if pte = 0 then free1 = [] else has_table (km_mem st1) pgdir (vpn a div 1024) \<and> pte = entry_addr (km_mem st1) pgdir (vpn a)"
    by blast
  show ?case
  proof (cases "pte = 0")
    case True
    with w show ?thesis by (subst mappages_loop.simps) (auto intro!: exI [of _ free1] exI [of _ "0::nat"])
  next
    case False
    with w(4) have h: "has_table (km_mem st1) pgdir (vpn a div 1024)" "pte = entry_addr (km_mem st1) pgdir (vpn a)" by auto
    have ok1: "vm_ok kend free1 pgdir st1" using w(2) by (simp add: vm_step_def)
    have ld: "load_pte pte st1 = entry (km_mem st1) pgdir (vpn a)" using h by (simp add: entry_def)
    have np: "\<not> present (load_pte pte st1)"
      using Suc.prems(3) [rule_format, of 0] w(3) vpn_less [of a] by (simp add: ld)
    define st2 where "st2 = store_pte pte (pa OR perm OR PTE_P) st1"
    note s = store_step [OF ok1 vpn_less h(1), where x = "pa OR perm OR PTE_P", folded h(2), folded st2_def]
    have e2: "entry (km_mem st2) pgdir v = (if v = vpn a then map_entry pa perm 0 else entry (km_mem st) pgdir v)"
      if "v < 1048576" for v using s(2) [OF that] w(3) that by (simp add: map_entry_def)
    have nx: "vpn (a + 4096) = vpn a + 1" using Suc.prems(2) by (intro vpn_next) simp
    have ok2: "vm_ok kend free1 pgdir st2" using s(1) by (simp add: vm_step_def)
    have lt: "vpn (a + 4096) + n < 1048576" using Suc.prems(2) nx by simp
    have np2: "\<forall>i \<le> n. \<not> present (entry (km_mem st2) pgdir (vpn (a + 4096) + i))"
    proof (intro allI impI)
      fix i assume "i \<le> n"
      then have "vpn a + 1 + i < 1048576" "Suc i \<le> Suc n" using Suc.prems(2) by simp_all
      then show "\<not> present (entry (km_mem st2) pgdir (vpn (a + 4096) + i))"
        using e2 [of "vpn a + 1 + i"] Suc.prems(3) [rule_format, of "Suc i"] by (simp add: nx)
    qed
    from Suc.IH [OF ok2 lt np2, of "pa + 4096"] obtain r st' free' k where
      IH: "mappages_loop pgdir (a + 4096) (pa + 4096) perm n st2 = Inr (r, st')" "vm_step kend pgdir free1 st2 free' st'"
        "r = 0 \<and> k = Suc n \<or> r = -1 \<and> k \<le> n \<and> free' = []"
        "\<forall>v < 1048576. entry (km_mem st') pgdir v =
          (if vpn (a + 4096) \<le> v \<and> v < vpn (a + 4096) + k then map_entry (pa + 4096) perm (v - vpn (a + 4096)) else entry (km_mem st2) pgdir v)"
      by metis
    have "mappages_loop pgdir a pa perm (Suc n) st = Inr (r, st')"
      using w(1) False np IH(1) by (subst mappages_loop.simps) (simp add: Let_def st2_def)
    moreover have "entry (km_mem st') pgdir v =
        (if vpn a \<le> v \<and> v < vpn a + Suc k then map_entry pa perm (v - vpn a) else entry (km_mem st) pgdir v)"
      if v: "v < 1048576" for v
    proof (cases "v \<le> vpn a")
      case True
      then show ?thesis using IH(4) v e2 [OF v] by (auto simp: nx)
    next
      case False
      then have "v - vpn a = Suc (v - (vpn a + 1))" by simp
      then show ?thesis using IH(4) v e2 [OF v] False by (auto simp: nx map_entry_Suc)
    qed
    ultimately show ?thesis
      using vm_step_trans [OF w(2) vm_step_trans [OF s(1) IH(2)]] IH(3)
      by (intro exI [of _ r] exI [of _ st'] exI [of _ free'] exI [of _ "Suc k"]) auto
  qed
qed


text \<open>Whenever \<open>mappages\<close> returns, it has only worked on the address space and the free pages.\<close>

lemma mappages_loop_step:
  "vm_ok kend free pgdir st \<Longrightarrow> mappages_loop pgdir a pa perm n st = Inr (r, st')
   \<Longrightarrow> \<exists>free'. vm_step kend pgdir free st free' st'"
proof (induction n arbitrary: a pa st free)
  case (0 a pa st free)
  from walk_alloc [OF "0.prems"(1), of a] obtain pte st1 free1 where
    w: "walkpgdir pgdir a True st = Inr (pte, st1)" "vm_step kend pgdir free st free1 st1"
      "if pte = 0 then free1 = [] else has_table (km_mem st1) pgdir (vpn a div 1024) \<and> pte = entry_addr (km_mem st1) pgdir (vpn a)"
    by blast
  show ?case
  proof (cases "pte = 0")
    case True
    with "0.prems"(2) w show ?thesis by (subst (asm) mappages_loop.simps) auto
  next
    case False
    with w(3) have h: "has_table (km_mem st1) pgdir (vpn a div 1024)" "pte = entry_addr (km_mem st1) pgdir (vpn a)" by auto
    have "vm_ok kend free1 pgdir st1" using w(2) by (simp add: vm_step_def)
    note s = store_step [OF this vpn_less h(1), where x = "pa OR perm OR PTE_P", folded h(2)]
    have "st' = store_pte pte (pa OR perm OR PTE_P) st1"
      using "0.prems"(2) w(1) False by (subst (asm) mappages_loop.simps) (simp add: Let_def split: if_splits)
    with vm_step_trans [OF w(2) s(1)] show ?thesis by blast
  qed
next
  case (Suc n a pa st free)
  from walk_alloc [OF "Suc.prems"(1), of a] obtain pte st1 free1 where
    w: "walkpgdir pgdir a True st = Inr (pte, st1)" "vm_step kend pgdir free st free1 st1"
      "if pte = 0 then free1 = [] else has_table (km_mem st1) pgdir (vpn a div 1024) \<and> pte = entry_addr (km_mem st1) pgdir (vpn a)"
    by blast
  show ?case
  proof (cases "pte = 0")
    case True
    with Suc.prems(2) w show ?thesis by (subst (asm) mappages_loop.simps) auto
  next
    case False
    with w(3) have h: "has_table (km_mem st1) pgdir (vpn a div 1024)" "pte = entry_addr (km_mem st1) pgdir (vpn a)" by auto
    have "vm_ok kend free1 pgdir st1" using w(2) by (simp add: vm_step_def)
    note s = store_step [OF this vpn_less h(1), where x = "pa OR perm OR PTE_P", folded h(2)]
    have "mappages_loop pgdir (a + 4096) (pa + 4096) perm n (store_pte pte (pa OR perm OR PTE_P) st1) = Inr (r, st')"
      using Suc.prems(2) w(1) False by (subst (asm) mappages_loop.simps) (simp add: Let_def split: if_splits)
    moreover have "vm_ok kend free1 pgdir (store_pte pte (pa OR perm OR PTE_P) st1)"
      using s(1) by (simp add: vm_step_def)
    ultimately obtain free' where "vm_step kend pgdir free1 (store_pte pte (pa OR perm OR PTE_P) st1) free' st'"
      using Suc.IH by blast
    with vm_step_trans [OF w(2) vm_step_trans [OF s(1)]] show ?thesis by blast
  qed
qed

text \<open>Taking a page from the allocator and writing to it leaves the address space as it is.\<close>

lemma take_page:
  assumes ok: "vm_ok kend (p # free) pgdir st" and fr: "frame {p} (km_mem st) m"
    and k: "kalloc st = (q, st1)"
  shows "q = p" "p \<noteq> 0" "page_ok kend p" "km_mem st1 = km_mem st" "p \<notin> owned free pgdir m"
    "vm_ok kend free pgdir (st1\<lparr>km_mem := m\<rparr>)" "owned free pgdir m = owned free pgdir (km_mem st)"
    "v < 1048576 \<Longrightarrow> entry m pgdir v = entry (km_mem st) pgdir v"
    "d < 1024 \<Longrightarrow> has_table m pgdir d = has_table (km_mem st) pgdir d"
proof -
  have inv: "kmem_inv kend (p # free) st" and pt: "pt_ok kend (p # free) pgdir (km_mem st)"
    using ok by (simp_all add: vm_ok_def)
  have m: "m x = km_mem st x" if "x \<notin> page_bytes p" for x using fr that by (simp add: frame_def)
  from kalloc_ok [OF inv k] have inv1: "kmem_inv kend free st1" by auto
  from kalloc_ok [OF inv k] show q: "q = p" "p \<noteq> 0" "km_mem st1 = km_mem st" by auto
  show pok: "page_ok kend p" using inv by (simp add: kmem_inv_def)
  have pt1: "pt_ok kend free pgdir (km_mem st)" and pn: "p \<noteq> pgdir" "p \<notin> tables (km_mem st) pgdir"
    using pt by (auto simp: pt_ok_def)
  have same: "m x = km_mem st x" if "r = pgdir \<or> r \<in> tables (km_mem st) pgdir" "x \<in> page_bytes r" for x r
  proof (rule m)
    have "page_ok kend r" using that(1) pt by (auto simp: pt_ok_def)
    moreover have "r \<noteq> p" using that(1) pn by auto
    ultimately show "x \<notin> page_bytes p" using pages_disjoint [OF _ pok _ that(2)] by blast
  qed
  note eu = entry_unchanged [OF pt1 same]
  show own: "owned free pgdir m = owned free pgdir (km_mem st)" using eu(4) by (simp add: owned_def)
  show "p \<notin> owned free pgdir m" using pn inv eu(4) by (auto simp: owned_def kmem_inv_def)
  show "v < 1048576 \<Longrightarrow> entry m pgdir v = entry (km_mem st) pgdir v" by (rule eu(6))
  show "d < 1024 \<Longrightarrow> has_table m pgdir d = has_table (km_mem st) pgdir d" by (rule eu(2))
  have "kmem_inv kend free (st1\<lparr>km_mem := m\<rparr>)"
  proof (rule kmem_inv_mem [OF inv1])
    fix x assume "\<exists>r \<in> set free. x \<in> page_bytes r"
    then obtain r where r: "r \<in> set free" "x \<in> page_bytes r" by blast
    have "page_ok kend r" "r \<noteq> p" using inv r(1) by (auto simp: kmem_inv_def)
    then have "x \<notin> page_bytes p" using pages_disjoint [OF _ pok _ r(2)] by blast
    then show "m x = km_mem st1 x" using m q(3) by simp
  qed
  then show "vm_ok kend free pgdir (st1\<lparr>km_mem := m\<rparr>)" using eu(5) by (simp add: vm_ok_def)
qed

end
