(* ===== verification/Vm_Props.thy ===== *)
theory Vm_Props
  imports Vm_Tables
begin

text \<open>
  What the virtual memory code promises: \<open>mappages\<close> maps its range and nothing else, a page fault
  in the heap is answered with one zeroed page, and \<open>fork\<close> fails on a heap with a 4 MB hole.
\<close>

section \<open>mappages\<close>

lemma unat_PGROUNDDOWN: "unat (PGROUNDDOWN va) = vpn va * 4096"
proof -
  have "PGROUNDDOWN va AND mask 12 = 0"
    by (rule bit_eqI) (auto simp: PGROUNDDOWN_def mask_12 bit_simps)
  then have "unat (PGROUNDDOWN va) mod 4096 = 0" using unat_and_mask [of "PGROUNDDOWN va" 12] by simp
  moreover have "unat (PGROUNDDOWN va) div 4096 = vpn va" using vpn_PGROUNDDOWN [of va] by (simp add: vpn_def)
  ultimately show ?thesis using div_mult_mod_eq [of "unat (PGROUNDDOWN va)" 4096] by simp
qed

lemma mappages_pages:
  assumes "0 < unat sz" and "unat va + unat sz \<le> 4294967296"
  shows "unat (PGROUNDDOWN (va + sz - 1) - PGROUNDDOWN va) div PGSIZE = vpn (va + sz - 1) - vpn va"
    "vpn va \<le> vpn (va + sz - 1)"
proof -
  have s1: "unat (sz - 1) = unat sz - 1" using assms(1) by (intro unat_minus_one) (auto simp: unat_gt_0)
  have "unat (va + (sz - 1)) = unat va + unat (sz - 1)"
    using assms s1 unat_word_ariths(1) [of va "sz - 1"] by simp
  moreover have "va + sz - 1 = va + (sz - 1)" by simp
  ultimately have "unat (va + sz - 1) = unat va + (unat sz - 1)" using s1 by (simp only:)
  then show le: "vpn va \<le> vpn (va + sz - 1)" by (simp add: vpn_def div_le_mono)
  then have "PGROUNDDOWN va \<le> PGROUNDDOWN (va + sz - 1)" by (simp add: word_le_nat_alt unat_PGROUNDDOWN)
  then have "unat (PGROUNDDOWN (va + sz - 1) - PGROUNDDOWN va) = vpn (va + sz - 1) * 4096 - vpn va * 4096"
    by (simp add: unat_sub unat_PGROUNDDOWN)
  then show "unat (PGROUNDDOWN (va + sz - 1) - PGROUNDDOWN va) div PGSIZE = vpn (va + sz - 1) - vpn va"
    by (simp add: diff_mult_distrib [symmetric] PGSIZE_def)
qed

text \<open>C28: When no page of the range is mapped yet, \<open>mappages\<close> either maps every page of the range to the
  successive physical pages, or returns \<open>-1\<close> with the allocator exhausted and a prefix mapped.
  Every other entry of the address space is as before, and so is all memory that belongs neither
  to the address space nor to the free list.\<close>

theorem mappages_maps:
  assumes "vm_ok kend free pgdir st" and "0 < unat sz" "unat va + unat sz \<le> 4294967296"
    and "\<forall>v. vpn va \<le> v \<and> v \<le> vpn (va + sz - 1) \<longrightarrow> \<not> present (entry (km_mem st) pgdir v)"
  shows "\<exists>r st' free' k. mappages pgdir va sz pa perm st = Inr (r, st') \<and> vm_ok kend free' pgdir st'
    \<and> (r = 0 \<and> vpn va + k = vpn (va + sz - 1) + 1 \<or> r = -1 \<and> vpn va + k \<le> vpn (va + sz - 1) \<and> free' = [])
    \<and> (\<forall>v < 1048576. entry (km_mem st') pgdir v =
         (if vpn va \<le> v \<and> v < vpn va + k then (pa + of_nat (v - vpn va) * 4096) OR perm OR PTE_P
          else entry (km_mem st) pgdir v))
    \<and> frame (owned free pgdir (km_mem st)) (km_mem st) (km_mem st')"
proof -
  let ?n = "vpn (va + sz - 1) - vpn va" and ?a = "PGROUNDDOWN va"
  note p = mappages_pages [OF assms(2,3)]
  have lt: "vpn ?a + ?n < 1048576" using p(2) vpn_less [of "va + sz - 1"] by (simp add: vpn_PGROUNDDOWN)
  have np: "\<forall>i \<le> ?n. \<not> present (entry (km_mem st) pgdir (vpn ?a + i))"
    using assms(4) p(2) by (simp add: vpn_PGROUNDDOWN)
  have m: "mappages pgdir va sz pa perm st = mappages_loop pgdir ?a pa perm ?n st"
    by (simp add: mappages_def Let_def p(1))
  from mappages_loop_ok [OF assms(1) lt np, of pa perm] obtain r st' free' k where
    l: "mappages_loop pgdir ?a pa perm ?n st = Inr (r, st')" "vm_step kend pgdir free st free' st'"
      "r = 0 \<and> k = Suc ?n \<or> r = -1 \<and> k \<le> ?n \<and> free' = []"
      "\<forall>v < 1048576. entry (km_mem st') pgdir v =
         (if vpn ?a \<le> v \<and> v < vpn ?a + k then map_entry pa perm (v - vpn ?a) else entry (km_mem st) pgdir v)"
    by blast
  show ?thesis
    using l m p(2) by (intro exI [of _ r] exI [of _ st'] exI [of _ free'] exI [of _ k])
      (auto simp: vm_step_def map_entry_def vpn_PGROUNDDOWN)
qed

section \<open>Page faults\<close>

text \<open>One page at an address whose page table is there.\<close>

lemma map_one_page:
  assumes ok: "vm_ok kend free pgdir st" and h: "has_table (km_mem st) pgdir (vpn va div 1024)"
    and e: "entry (km_mem st) pgdir (vpn va) = 0"
  shows "\<exists>st' free'. mappages pgdir (PGROUNDDOWN va) 4096 pa perm st = Inr (0, st') \<and> vm_step kend pgdir free st free' st'
    \<and> (\<forall>v < 1048576. entry (km_mem st') pgdir v =
         (if v = vpn va then pa OR perm OR PTE_P else entry (km_mem st) pgdir v))"
proof -
  let ?a = "PGROUNDDOWN va"
  have lt: "vpn va < 1048576" by (rule vpn_less)
  have le: "unat ?a + 4096 \<le> 4294967296" using lt unfolding unat_PGROUNDDOWN by linarith
  have "unat (?a + 4095) = vpn va * 4096 + 4095" using le by (simp add: unat_word_ariths(1) unat_PGROUNDDOWN)
  moreover have "?a + 4096 - 1 = ?a + 4095" by simp
  ultimately have "unat (?a + 4096 - 1) = vpn va * 4096 + 4095" by (simp only:)
  then have v: "vpn (?a + 4096 - 1) = vpn va" by (simp only: vpn_def [of "?a + 4096 - 1"])
  have idem: "PGROUNDDOWN ?a = ?a" by (simp add: PGROUNDDOWN_def)
  have "PGROUNDDOWN (?a + 4096 - 1) = ?a"
    by (rule word_unat_eq_iff [THEN iffD2]) (simp only: unat_PGROUNDDOWN v vpn_PGROUNDDOWN)
  then have m: "mappages pgdir ?a 4096 pa perm st = mappages_loop pgdir ?a pa perm 0 st"
    by (simp add: mappages_def Let_def idem PGSIZE_def)
  have "vpn ?a + 0 < 1048576" "\<forall>i \<le> 0. \<not> present (entry (km_mem st) pgdir (vpn ?a + i))"
    using lt e by (simp_all add: vpn_PGROUNDDOWN)
  from mappages_loop_ok [OF ok this, of pa perm] obtain r st' free' k where
    l: "mappages_loop pgdir ?a pa perm 0 st = Inr (r, st')" "vm_step kend pgdir free st free' st'"
      "r = 0 \<and> k = Suc 0 \<or> r = -1 \<and> k \<le> 0 \<and> free' = []" "r = 0"
      "\<forall>v < 1048576. entry (km_mem st') pgdir v =
         (if vpn ?a \<le> v \<and> v < vpn ?a + k then map_entry pa perm (v - vpn ?a) else entry (km_mem st) pgdir v)"
    using h by (auto simp: vpn_PGROUNDDOWN)
  then have "entry (km_mem st') pgdir w = (if w = vpn va then pa OR perm OR PTE_P else entry (km_mem st) pgdir w)"
    if "w < 1048576" for w
    using that by (auto simp: map_entry_def vpn_PGROUNDDOWN)
  with l(1,2,4) m show ?thesis by auto
qed

lemma fill_inside: "x \<in> page_bytes p \<Longrightarrow> fill p v PGSIZE m x = v"
  by (simp add: fill_def page_bytes_def)

text \<open>The part of the handler after the test: take a page, fill it with zeroes, map it.\<close>

lemma fresh_page_mapped:
  assumes ok: "vm_ok kend (p # rest) pgdir st" and h: "has_table (km_mem st) pgdir (vpn a div 1024)"
    and e: "entry (km_mem st) pgdir (vpn a) = 0" and k: "kalloc st = (q, st2)"
  shows "q = p \<and> p \<noteq> 0 \<and> page_ok kend p \<and> (\<exists>st' free'.
      mappages pgdir (PGROUNDDOWN a) 4096 (of_nat (p - KERNBASE)) (PTE_W OR PTE_U) (zero_page q st2) = Inr (0, st')
    \<and> vm_ok kend free' pgdir st' \<and> p \<notin> owned free' pgdir (km_mem st')
    \<and> frame (owned (p # rest) pgdir (km_mem st)) (km_mem st) (km_mem st')
    \<and> (\<forall>u < 1048576. entry (km_mem st') pgdir u =
         (if u = vpn a then of_nat (p - KERNBASE) OR (PTE_W OR PTE_U) OR PTE_P else entry (km_mem st) pgdir u))
    \<and> (\<forall>x \<in> page_bytes p. km_mem st' x = 0))"
proof -
  define z where "z = fill p 0 PGSIZE (km_mem st)"
  have out: "frame {p} (km_mem st) z" by (auto simp: frame_def z_def fill_def page_bytes_def)
  note tp = take_page [OF ok out k]
  define st3 where "st3 = st2\<lparr>km_mem := z\<rparr>"
  have zp: "zero_page q st2 = st3" by (simp add: zero_page_def st3_def z_def tp(1,4))
  have e3: "entry (km_mem st3) pgdir u = entry (km_mem st) pgdir u" if "u < 1048576" for u
    using tp(8) [OF that] by (simp add: st3_def)
  have "has_table (km_mem st3) pgdir (vpn a div 1024)"
    using tp(9) [of "vpn a div 1024"] h vpn_less [of a] by (simp add: st3_def div_less_iff_less_mult)
  moreover have "entry (km_mem st3) pgdir (vpn a) = 0" using e3 [OF vpn_less] e by simp
  moreover have ok3: "vm_ok kend rest pgdir st3" using tp(6) by (simp add: st3_def)
  ultimately obtain st' free' where
    mp: "mappages pgdir (PGROUNDDOWN a) 4096 (of_nat (p - KERNBASE)) (PTE_W OR PTE_U) st3 = Inr (0, st')"
      "vm_step kend pgdir rest st3 free' st'"
      "\<forall>u < 1048576. entry (km_mem st') pgdir u =
        (if u = vpn a then of_nat (p - KERNBASE) OR (PTE_W OR PTE_U) OR PTE_P else entry (km_mem st3) pgdir u)"
    using map_one_page [of kend rest pgdir st3 a "of_nat (p - KERNBASE)" "PTE_W OR PTE_U"] by blast
  have F: "km_mem st' x = km_mem st3 x" if "\<forall>q \<in> owned rest pgdir (km_mem st3). x \<notin> page_bytes q" for x
    using mp(2) that by (auto simp: vm_step_def frame_def)
  have "frame (owned (p # rest) pgdir (km_mem st)) (km_mem st) (km_mem st')"
    unfolding frame_def
  proof (intro allI impI)
    fix x assume x: "\<forall>q \<in> owned (p # rest) pgdir (km_mem st). x \<notin> page_bytes q"
    then have "km_mem st' x = km_mem st3 x" using tp(7) by (intro F) (auto simp: st3_def owned_def)
    also have "\<dots> = km_mem st x" using x out by (auto simp: st3_def frame_def owned_def)
    finally show "km_mem st' x = km_mem st x" .
  qed
  moreover have "km_mem st' x = 0" if x: "x \<in> page_bytes p" for x
  proof -
    have "x \<notin> page_bytes q" if "q \<in> owned rest pgdir (km_mem st3)" for q
    proof -
      have "page_ok kend q" using that ok3 by (auto simp: owned_def vm_ok_def pt_ok_def kmem_inv_def)
      moreover have "q \<noteq> p" using that tp(5) by (auto simp: st3_def)
      ultimately show ?thesis using pages_disjoint [OF tp(3) _ _ x] by blast
    qed
    then show ?thesis using F fill_inside [OF x] by (simp add: st3_def z_def)
  qed
  moreover have "p \<notin> owned free' pgdir (km_mem st')" "vm_ok kend free' pgdir st'"
    using mp(2) tp(5) by (simp_all add: vm_step_def st3_def)
  ultimately show ?thesis using mp(1,3) e3 tp(1-3) zp by (intro conjI exI [of _ st'] exI [of _ free']) simp_all
qed



text \<open>An empty directory and two free pages.\<close>

lemma zero_page_table: "\<forall>x \<in> page_bytes pgdir. m x = 0 \<Longrightarrow> d < 1024 \<Longrightarrow> \<not> has_table m pgdir d"
proof -
  assume z: "\<forall>x \<in> page_bytes pgdir. m x = 0" and d: "d < 1024"
  have "load32 m (pgdir + 4 * d) = load32 (fill pgdir 0 PGSIZE m) (pgdir + 4 * d)"
    by (rule load32_cong) (use z d in \<open>auto simp: fill_def page_bytes_def PGSIZE_def\<close>)
  then show ?thesis using load32_fill_inside [OF d] by (simp add: has_table_def)
qed

lemma empty_pt_ok:
  assumes "page_ok kend pgdir" "pgdir \<notin> set free" "\<forall>x \<in> page_bytes pgdir. m x = 0"
  shows "pt_ok kend free pgdir m"
proof -
  have none: "{d. d < 1024 \<and> has_table m pgdir d} = {}" using zero_page_table [OF assms(3)] by auto
  have "tables m pgdir = {}" unfolding tables_def none by simp
  then show ?thesis using assms(1,2) by (simp only: pt_ok_def none) simp
qed

lemma two_free_pages:
  "\<exists>st. kmem_inv 0x80100000 [0x80102000, 0x80101000] st \<and> (\<forall>x \<in> page_bytes 0x80100000. km_mem st x = 0)"
proof -
  have i0: "kmem_inv 0x80100000 [] \<lparr>km_freelist = 0, km_mem = (\<lambda>_. 0)\<rparr>" by (simp add: kmem_inv_def)
  have p1: "page_ok 0x80100000 0x80101000" "0x80101000 \<notin> set ([] :: nat list)"
    by (simp_all add: page_ok_def PGSIZE_def KERNBASE_def PHYSTOP_def)
  from kfree_ok [OF i0 p1] obtain st1 where s1: "kmem_inv 0x80100000 [0x80101000] st1"
    "\<forall>x. x \<notin> page_bytes 0x80101000 \<longrightarrow> km_mem st1 x = 0" by auto
  have p2: "page_ok 0x80100000 0x80102000" "0x80102000 \<notin> set [0x80101000 :: nat]"
    by (simp_all add: page_ok_def PGSIZE_def KERNBASE_def PHYSTOP_def)
  from kfree_ok [OF s1(1) p2] obtain st2 where s2: "kmem_inv 0x80100000 [0x80102000, 0x80101000] st2"
    "\<forall>x. x \<notin> page_bytes 0x80102000 \<longrightarrow> km_mem st2 x = km_mem st1 x" by auto
  have "km_mem st2 x = 0" if "x \<in> page_bytes 0x80100000" for x
  proof -
    have "x \<notin> page_bytes 0x80101000" "x \<notin> page_bytes 0x80102000"
      using that by (simp_all add: page_bytes_def PGSIZE_def)
    with s1(2) s2(2) show ?thesis by auto
  qed
  with s2(1) show ?thesis by blast
qed

lemma ex_space:
  "\<exists>st. vm_ok 0x80100000 [0x80102000, 0x80101000] 0x80100000 st
    \<and> (\<forall>v < 1048576. entry (km_mem st) 0x80100000 v = 0)"
proof -
  from two_free_pages obtain st where st: "kmem_inv 0x80100000 [0x80102000, 0x80101000] st"
    "\<forall>x \<in> page_bytes 0x80100000. km_mem st x = 0" by blast
  have "page_ok 0x80100000 0x80100000" by (simp add: page_ok_def PGSIZE_def KERNBASE_def PHYSTOP_def)
  then have "pt_ok 0x80100000 [0x80102000, 0x80101000] 0x80100000 (km_mem st)"
    by (rule empty_pt_ok) (use st(2) in simp_all)
  moreover have "entry (km_mem st) 0x80100000 v = 0" if "v < 1048576" for v
    using zero_page_table [OF st(2), of "v div 1024"] that by (simp add: entry_def div_less_iff_less_mult)
  ultimately show ?thesis using st(1) by (auto simp: vm_ok_def)
qed


theorem mappages_maps_witness:
  "\<exists>st r st' free'. mappages 0x80100000 0x1000 0x2000 0x5000 6 st = Inr (r, st') \<and> vm_ok 0x80100000 free' 0x80100000 st'"
proof -
  from ex_space obtain st where st: "vm_ok 0x80100000 [0x80102000, 0x80101000] 0x80100000 st"
    "\<And>v. v < 1048576 \<Longrightarrow> entry (km_mem st) 0x80100000 v = 0" by blast
  have "0 < unat (0x2000 :: u32)" "unat (0x1000 :: u32) + unat (0x2000 :: u32) \<le> 4294967296" by simp_all
  moreover have "\<forall>v. vpn 0x1000 \<le> v \<and> v \<le> vpn (0x1000 + 0x2000 - 1) \<longrightarrow> \<not> present (entry (km_mem st) 0x80100000 v)"
    using st(2) by (auto simp: vpn_def)
  ultimately show ?thesis using mappages_maps [OF st(1), where sz = "0x2000" and va = "0x1000" and pa = "0x5000" and perm = 6] by blast
qed

section \<open>Copying an address space\<close>

lemma walk_False_state: "walkpgdir pgdir va False st = Inr (pte, st') \<Longrightarrow> st' = st"
  by (auto simp: walkpgdir_def Let_def res_simps split: if_splits)

lemma mappages_step:
  "vm_ok kend free pgdir st \<Longrightarrow> mappages pgdir va sz pa perm st = Inr (r, st')
   \<Longrightarrow> \<exists>free'. vm_step kend pgdir free st free' st'"
  unfolding mappages_def Let_def by (rule mappages_loop_step)

text \<open>A directory outside everything the child owns keeps its tables while the child is built.\<close>

definition parent_ok :: "nat \<Rightarrow> nat list \<Rightarrow> nat \<Rightarrow> nat \<Rightarrow> kmem \<Rightarrow> bool" where
  "parent_ok kend free d pgdir st \<longleftrightarrow> vm_ok kend free d st \<and> page_ok kend pgdir \<and> pgdir \<notin> owned free d (km_mem st)"

lemma owned_page_ok: "vm_ok kend free d st \<Longrightarrow> q \<in> owned free d (km_mem st) \<Longrightarrow> page_ok kend q"
  by (auto simp: owned_def vm_ok_def pt_ok_def kmem_inv_def)

lemma parent_page_frame:
  assumes "parent_ok kend free d pgdir st" and "frame (owned free d (km_mem st)) (km_mem st) m" and "e < 1024"
  shows "has_table m pgdir e = has_table (km_mem st) pgdir e"
proof -
  have "load32 m (pgdir + 4 * e) = load32 (km_mem st) (pgdir + 4 * e)"
  proof (rule load32_cong)
    fix x assume "pgdir + 4 * e \<le> x" "x < pgdir + 4 * e + 4"
    then have x: "x \<in> page_bytes pgdir" using assms(3) by (simp add: page_bytes_def PGSIZE_def)
    have "x \<notin> page_bytes q" if "q \<in> owned free d (km_mem st)" for q
      using assms(1) that owned_page_ok pages_disjoint [OF _ _ _ x] by (metis parent_ok_def)
    then show "m x = km_mem st x" using assms(2) by (simp add: frame_def)
  qed
  then show ?thesis by (simp add: has_table_def)
qed

lemma parent_step:
  assumes "parent_ok kend free d pgdir st" and "vm_step kend d free st free' st'"
  shows "parent_ok kend free' d pgdir st'" "e < 1024 \<Longrightarrow> has_table (km_mem st') pgdir e = has_table (km_mem st) pgdir e"
proof -
  show "parent_ok kend free' d pgdir st'" using assms by (simp add: parent_ok_def vm_step_def)
  show "e < 1024 \<Longrightarrow> has_table (km_mem st') pgdir e = has_table (km_mem st) pgdir e"
    by (rule parent_page_frame [OF assms(1)]) (use assms(2) in \<open>simp_all add: vm_step_def\<close>)
qed

text \<open>With the page table for page \<open>v\<close> missing, the copy loop never gets past \<open>v\<close>.\<close>

lemma copyuvm_loop_no_child:
  assumes "parent_ok kend free d pgdir st" and "\<not> has_table (km_mem st) pgdir (v div 1024)" and "v < 1048576"
    and "v * 4096 < sz" and "4096 dvd i" and "i \<le> v * 4096"
    and "copyuvm_loop True kend pgdir d sz i st = Inr (r, st')"
  shows "r = 0"
  using assms
proof (induction "sz - i" arbitrary: i st free rule: less_induct)
  case (less i st free)
  note par = less.prems(1) and ht = less.prems(2) and v = less.prems(3) and vsz = less.prems(4)
    and dvd = less.prems(5) and run = less.prems(7)
  have i: "i < sz" using vsz less.prems(6) by simp
  have d1024: "v div 1024 < 1024" using v by (simp add: div_less_iff_less_mult)
  have IH: "r = 0" if "parent_ok kend free1 d pgdir st1" "\<not> has_table (km_mem st1) pgdir (v div 1024)"
    "i + PGSIZE \<le> v * 4096" "copyuvm_loop True kend pgdir d sz (i + PGSIZE) st1 = Inr (r, st')" for free1 st1
    using less.hyps [of "i + PGSIZE" free1 st1] that v vsz dvd i by (simp add: PGSIZE_def)
  note unfold = run [unfolded copyuvm_loop.simps [of True kend pgdir d sz i st] if_P [OF i]]
  from unfold obtain pte st1 where w: "walkpgdir pgdir (of_nat i) False st = Inr (pte, st1)"
    by (cases "walkpgdir pgdir (of_nat i) False st") auto
  then have s1: "st1 = st" by (rule walk_False_state)
  note w = w [unfolded s1]
  have p0: "pte \<noteq> 0"
  proof
    assume "pte = 0"
    with unfold w show False by simp
  qed
  have "i \<noteq> v * 4096"
  proof
    assume iv: "i = v * 4096"
    have "vpn (of_nat i) = v" using vpn_of_nat [of i] iv v by (simp del: of_nat_mult)
    then have "\<not> has_table (km_mem st) pgdir (vpn (of_nat i) div 1024)" using ht by simp
    from walk_absent [OF this] w p0 show False by simp
  qed
  with dvd less.prems(6) have le: "i + PGSIZE \<le> v * 4096"
    by (auto simp: PGSIZE_def elim!: dvdE)
  show ?case
  proof (cases "load_pte pte st = 0")
    case True
    then have "copyuvm_loop True kend pgdir d sz (i + PGSIZE) st = Inr (r, st')" using unfold w p0 by simp
    with IH [OF par ht le] show ?thesis by simp
  next
    case False
    obtain mem st1 where k: "kalloc st = (mem, st1)" by (cases "kalloc st")
    show ?thesis
    proof (cases "mem = 0")
      case True
      with unfold w p0 False k show ?thesis by (auto simp: res_simps Let_def split: if_splits)
    next
      case m0: False
      obtain va where
        va: "P2V (PTE_ADDR (load_pte pte st)) = Inr va"
        using unfold w p0 False k m0 by (auto simp: res_simps Let_def split: if_splits)
      define m where "m = copy_bytes mem va PGSIZE (km_mem st1)"
      have inv: "kmem_inv kend free st" and vm: "vm_ok kend free d st" using par by (simp_all add: parent_ok_def vm_ok_def)
      obtain rest where fr: "free = mem # rest" using kalloc_ok [OF inv k] m0 by (cases free) auto
      have st1m: "km_mem st1 = km_mem st" using kalloc_ok [OF inv k] by simp
      have out: "frame {mem} (km_mem st) m"
        by (auto simp: frame_def m_def copy_bytes_def page_bytes_def st1m)
      note tp = take_page [OF vm [unfolded fr] out k]
      define st2 where "st2 = st1\<lparr>km_mem := m\<rparr>"
      have frm: "frame (owned free d (km_mem st)) (km_mem st) m"
        using out fr by (auto simp: frame_def owned_def)
      have par2: "parent_ok kend rest d pgdir st2"
        using par tp(6,7) by (auto simp: parent_ok_def st2_def owned_def fr)
      have ht2: "\<not> has_table (km_mem st2) pgdir (v div 1024)"
        using parent_page_frame [OF par frm d1024] ht by (simp add: st2_def)
      obtain ma r2 st3 where ma: "V2P mem = Inr ma"
        and mp: "mappages d (of_nat i) 4096 (of_nat ma) (PTE_FLAGS (load_pte pte st)) st2 = Inr (r2, st3)"
        and go: "(if r2 < 0 then bindR (kfree kend mem st3) (\<lambda>st. bindR (freevm kend d st) (\<lambda>st. Inr (0, st)))
                  else copyuvm_loop True kend pgdir d sz (i + PGSIZE) st3) = Inr (r, st')"
        using unfold w p0 False k m0 va
        by (auto simp: res_simps Let_def m_def [symmetric] st2_def [symmetric] split: if_splits)
      from mappages_step [OF _ mp] par2 obtain free3 where s3: "vm_step kend d rest st2 free3 st3"
        by (auto simp: parent_ok_def)
      show ?thesis
      proof (cases "r2 < 0")
        case True
        with go show ?thesis by (auto simp: res_simps)
      next
        case False
        with go IH [OF parent_step(1) [OF par2 s3] _ le] parent_step(2) [OF par2 s3 d1024] ht2 show ?thesis by simp
      qed
    qed
  qed
qed

lemma setupkvm_loop_step:
  "vm_ok kend free pgdir st \<Longrightarrow> setupkvm_loop kend pgdir ks st = Inr (d, st') \<Longrightarrow> d \<noteq> 0
   \<Longrightarrow> d = pgdir \<and> (\<exists>free'. vm_step kend pgdir free st free' st')"
proof (induction ks arbitrary: st free)
  case Nil
  then show ?case by (auto intro: vm_step_refl)
next
  case (Cons k ks)
  obtain virt ps pe perm where k: "k = (virt, ps, pe, perm)" by (cases k)
  with Cons.prems(2) obtain r st1 where mp: "mappages pgdir virt (pe - ps) ps perm st = Inr (r, st1)"
    and go: "(if r < 0 then bindR (freevm kend pgdir st1) (\<lambda>st. Inr (0, st)) else setupkvm_loop kend pgdir ks st1) = Inr (d, st')"
    by (auto simp: res_simps)
  have "\<not> r < 0" using go Cons.prems(3) by (auto simp: res_simps split: if_splits)
  with go have go': "setupkvm_loop kend pgdir ks st1 = Inr (d, st')" by simp
  from mappages_step [OF Cons.prems(1) mp] obtain free1 where s: "vm_step kend pgdir free st free1 st1" by blast
  then have "vm_ok kend free1 pgdir st1" by (simp add: vm_step_def)
  from Cons.IH [OF this go' Cons.prems(3)] s vm_step_trans show ?case by blast
qed

text \<open>\<open>fork\<close> cannot copy a heap with a hole.  Demand allocation leaves a 4 MB region without a page table
  until it is touched; \<open>copyuvm\<close> panics at it instead of skipping it, so that for such a process no
  child is ever returned, however much memory is free.\<close>

theorem copyuvm_no_table:
  assumes inv: "kmem_inv kend free st" and pg: "page_ok kend pgdir" "pgdir \<notin> set free"
    and v: "v * 4096 < sz" "v < 1048576" "\<not> has_table (km_mem st) pgdir (v div 1024)"
    and c: "copyuvm kend kdata pgdir sz st = Inr (d, st')"
  shows "d = 0"
proof (rule ccontr)
  assume d0: "d \<noteq> 0"
  obtain p st1 where k: "kalloc st = (p, st1)" by (cases "kalloc st")
  have p0: "p \<noteq> 0"
  proof
    assume "p = 0"
    with c d0 k show False by (simp add: copyuvm_def copyuvm_with_def setupkvm_def)
  qed
  then obtain rest where fr: "free = p # rest" and inv1: "kmem_inv kend rest st1" "km_mem st1 = km_mem st"
    using kalloc_ok [OF inv k] by (cases free) auto
  have pok: "page_ok kend p" "p \<notin> set rest" "p \<noteq> pgdir" using inv pg(2) by (auto simp: fr kmem_inv_def)
  define st2 where "st2 = zero_page p st1"
  have out: "km_mem st2 x = km_mem st x" if "x \<notin> page_bytes p" for x
    using that by (auto simp: st2_def zero_page_def fill_def page_bytes_def inv1(2))
  have "kmem_inv kend rest (st1\<lparr>km_mem := km_mem st2\<rparr>)"
  proof (rule kmem_inv_mem [OF inv1(1)])
    fix x assume "\<exists>q \<in> set rest. x \<in> page_bytes q"
    then obtain q where q: "q \<in> set rest" "x \<in> page_bytes q" by blast
    then have "page_ok kend q" "q \<noteq> p" using inv1(1) pok(2) by (auto simp: kmem_inv_def)
    then have "x \<notin> page_bytes p" using pages_disjoint [OF _ pok(1) _ q(2)] by blast
    then show "km_mem st2 x = km_mem st1 x" using out inv1(2) by simp
  qed
  moreover have "st1\<lparr>km_mem := km_mem st2\<rparr> = st2" by (simp add: st2_def zero_page_def)
  moreover have z: "\<forall>x \<in> page_bytes p. km_mem st2 x = 0"
    using fill_inside by (simp add: st2_def zero_page_def)
  ultimately have vm2: "vm_ok kend rest p st2" using empty_pt_ok [OF pok(1,2) z] by (simp add: vm_ok_def)
  have "tables (km_mem st2) p = {}" using zero_page_table [OF z] by (auto simp: tables_def)
  then have par2: "parent_ok kend rest p pgdir st2"
    using vm2 pg pok(3) fr by (auto simp: parent_ok_def owned_def)
  have d1024: "v div 1024 < 1024" using v(2) by (simp add: div_less_iff_less_mult)
  have "has_table (km_mem st2) pgdir (v div 1024) = has_table (km_mem st) pgdir (v div 1024)"
  proof -
    have "load32 (km_mem st2) (pgdir + 4 * (v div 1024)) = load32 (km_mem st) (pgdir + 4 * (v div 1024))"
      by (rule load32_other_page [OF pok(1) pg(1) pok(3) _ d1024]) (rule out)
    then show ?thesis by (simp add: has_table_def)
  qed
  with v(3) have ht2: "\<not> has_table (km_mem st2) pgdir (v div 1024)" by simp
  obtain d1 st3 where su: "setupkvm_loop kend p (kmap kdata) st2 = Inr (d1, st3)" and d1: "d1 \<noteq> 0"
    and cp: "copyuvm_loop True kend pgdir d1 sz 0 st3 = Inr (d, st')"
    using c d0 k p0 by (auto simp: copyuvm_def copyuvm_with_def setupkvm_def res_simps st2_def [symmetric] split: if_splits)
  from setupkvm_loop_step [OF vm2 su d1] obtain free3 where d1p: "d1 = p" and s3: "vm_step kend p rest st2 free3 st3" by blast
  have "d = 0"
    by (rule copyuvm_loop_no_child [OF parent_step(1) [OF par2 s3] _ v(2,1) _ _ cp [unfolded d1p]])
      (use ht2 parent_step(2) [OF par2 s3 d1024] in simp_all)
  with d0 show False by simp
qed

theorem copyuvm_no_table_witness:
  "\<exists>st. kmem_inv 0x80100000 [0x80102000, 0x80101000] st
    \<and> (\<forall>d st'. copyuvm 0x80100000 0x80108000 0x80100000 0x500000 st = Inr (d, st') \<longrightarrow> d = 0)"
proof -
  from two_free_pages obtain st where st: "kmem_inv 0x80100000 [0x80102000, 0x80101000] st"
    "\<forall>x \<in> page_bytes 0x80100000. km_mem st x = 0" by blast
  have pg: "page_ok 0x80100000 0x80100000" "0x80100000 \<notin> set [0x80102000 :: nat, 0x80101000]"
    by (simp_all add: page_ok_def PGSIZE_def KERNBASE_def PHYSTOP_def)
  have v: "1024 * 4096 < (0x500000 :: nat)" "(1024 :: nat) < 1048576" by simp_all
  have nt: "\<not> has_table (km_mem st) 0x80100000 (1024 div 1024)" by (rule zero_page_table [OF st(2)]) simp_all
  from copyuvm_no_table [OF st(1) pg v nt] st(1) show ?thesis by blast
qed

end
