(* ===== verification/Proc_Props.thy ===== *)
theory Proc_Props
  imports Proc_Steps Vm_Props
begin

text \<open>
  What the process operations promise: the invariant of the process table in every reachable
  state, what \<open>exit\<close> does for a waiting parent, what \<open>wait\<close> returns, and a way to kill a process
  that does not exist yet.
\<close>

section \<open>Single operations\<close>

lemma proc_at_upd: "j < length (k_procs k) \<Longrightarrow>
    proc_at j (upd_proc i g k) = (if j = i then g (proc_at i k) else proc_at j k)"
  by (simp add: upd_proc_def nth_list_update)

lemma on_sys_sel: "on_sys g k = Inr k' \<Longrightarrow>
    k_procs k' = k_procs k \<and> k_cpu k' = k_cpu k \<and> k_initproc k' = k_initproc k \<and> k_nextpid k' = k_nextpid k"
  by (auto simp: on_sys_def res_simps)

lemma reap_ok:
  assumes "reap ev i k = Inr k'" and "i < length (k_procs k)"
  shows "k_cpu k' = k_cpu k" and "length (k_procs k') = length (k_procs k)"
    and "\<forall>j < length (k_procs k). j \<noteq> i \<longrightarrow> proc_at j k' = proc_at j k"
    and "p_state (proc_at i k') = UNUSED" "p_pid (proc_at i k') = 0" "p_parent (proc_at i k') = None"
    "\<not> p_killed (proc_at i k')" "p_kstack (proc_at i k') = 0"
  using assms by (auto simp: reap_def res_simps Let_def proc_at_upd dest!: on_sys_sel)

text \<open>What a result of \<open>wait\<close> by process \<open>c\<close> means.\<close>

fun wait_outcome :: "nat \<Rightarrow> kernel \<Rightarrow> kernel \<Rightarrow> wait_end \<Rightarrow> bool" where
  "wait_outcome c k k' (Wait_pid pid) \<longleftrightarrow>
     (\<exists>i < length (k_procs k). p_parent (proc_at i k) = Some c \<and> p_state (proc_at i k) = ZOMBIE \<and>
        p_pid (proc_at i k) = pid \<and> 0 < pid \<and> p_state (proc_at i k') = UNUSED \<and> p_pid (proc_at i k') = 0 \<and>
        (\<forall>j < length (k_procs k). j \<noteq> i \<longrightarrow> proc_at j k' = proc_at j k) \<and> k_cpu k' = Some c)"
| "wait_outcome c k k' Wait_error \<longleftrightarrow>
     k' = k \<and> (\<forall>i < length (k_procs k). p_parent (proc_at i k) = Some c \<longrightarrow> p_state (proc_at i k) \<noteq> ZOMBIE) \<and>
     (p_killed (proc_at c k) \<or> (\<forall>i < length (k_procs k). p_parent (proc_at i k) \<noteq> Some c))"
| "wait_outcome c k k' Wait_sleeps \<longleftrightarrow>
     (\<forall>i < length (k_procs k). p_parent (proc_at i k) = Some c \<longrightarrow> p_state (proc_at i k) \<noteq> ZOMBIE) \<and>
     (\<exists>i < length (k_procs k). p_parent (proc_at i k) = Some c) \<and>
     k' = (upd_proc c (\<lambda>p. p\<lparr>p_chan := Proc_chan c, p_state := SLEEPING\<rparr>) k)\<lparr>k_cpu := None\<rparr>"

text \<open>C27: \<open>wait\<close> returns the number of a zombie child whose slot it has freed, with no other slot
  changed; it returns -1 only when the caller has no children or is killed; and it sleeps only when
  there are children and none of them is a zombie.\<close>

theorem wait_reaps:
  assumes "ptable_ok k" and "k_cpu k = Some c" and "wait ev k = Inr (w, k')"
  shows "wait_outcome c k k' w"
proof -
  let ?P = "\<lambda>i. p_parent (proc_at i k) = Some c \<and> p_state (proc_at i k) = ZOMBIE"
  show ?thesis
  proof (cases "find ?P [0..<length (k_procs k)]")
    case (Some i)
    have i: "i < length (k_procs k)" "?P i" using find_slot [OF Some] by auto
    then have "0 < p_pid (proc_at i k)"
      using assms(1) by (auto simp: ptable_ok_def ptab_inv_def pid_ok_def slot_at_ptab dest: spec [of _ i])
    moreover have "reap ev i k = Inr k'" "w = Wait_pid (p_pid (proc_at i k))"
      using assms(2,3) Some by (auto simp: wait_def res_simps myproc_def)
    ultimately show ?thesis using i reap_ok [of ev i k k'] assms(2) by auto
  next
    case None
    have c: "c < length (k_procs k)" using ptable_ok_cpu [OF assms(1,2)] by simp
    have "\<forall>i < length (k_procs k). \<not> ?P i" using None by (auto simp: find_None_iff)
    then show ?thesis using assms(2,3) None c
      by (auto simp: wait_def res_simps myproc_def Let_def sleep_def sched_def proc_at_upd split: if_splits)
  qed
qed

text \<open>C25: When a process exits whose parent is asleep in \<open>wait\<close>, the parent is runnable afterwards and
  the process is a zombie child for its next pass, so the wakeup is not lost; the processor is free.\<close>

theorem exit_wakes_parent:
  assumes ok: "ptable_ok k" and c: "k_cpu k = Some c" and p: "p_parent (proc_at c k) = Some p"
    and asleep: "p_state (proc_at p k) = SLEEPING" "p_chan (proc_at p k) = Proc_chan p"
    and ex: "exit ev k = Inr k'"
  shows "p_state (proc_at p k') = RUNNABLE \<and> p_state (proc_at c k') = ZOMBIE \<and>
    p_parent (proc_at c k') = Some p \<and> k_cpu k' = None"
proof -
  have inv: "ptab_inv (ptab_of k)" using ok by (simp add: ptable_ok_def)
  have len: "c < length (k_procs k)" using ptable_ok_cpu [OF ok c] by simp
  note e = exit_table [OF ex c len]
  have "s_parent (slot_at c (ptab_of k)) = Some p" using p len by (simp add: slot_at_ptab)
  moreover from this have pl: "p < length (k_procs k)"
    using inv slot_in_table(1) [of p "ptab_of k"] by (fastforce simp: ptab_inv_def tree_ok_def active_def)
  ultimately have w: "s_state (slot_at p (t_exit c (ptab_of k))) = RUNNABLE"
    "s_state (slot_at c (t_exit c (ptab_of k))) = ZOMBIE" "s_parent (slot_at c (t_exit c (ptab_of k))) = Some p"
    using exit_wakes [OF inv, of c p] asleep c e(1) by (simp_all add: slot_at_ptab)
  have "length (k_procs k') = length (k_procs k)"
    using e(2) t_exit_sel(1) [of c "ptab_of k"] by (metis ptab_of_sel(1))
  moreover have "k_cpu k' = None" using e(2) t_exit_sel(2) [of c "ptab_of k"] by (metis ptab_of_sel(2))
  ultimately show ?thesis using w len pl by (simp add: slot_at_ptab flip: e(2))
qed



text \<open>C36: \<open>kill\<close> of process 0 finds a slot that no process uses, as its number is 0, and returns success;
  the next process created in that slot starts its life killed, since \<open>allocproc\<close> does not clear the
  mark.\<close>

theorem kill_zero_dooms_next:
  assumes "ptable_ok k" and "find (\<lambda>i. p_state (proc_at i k) = UNUSED) [0..<length (k_procs k)] = Some i"
    and "p_pid (proc_at i k) = 0" and "\<forall>j < i. p_pid (proc_at j k) \<noteq> 0"
    and "allocproc ev (snd (kill 0 k)) = Inr (Some np, k')"
  shows "fst (kill 0 k) = 0 \<and> np = i \<and> p_killed (proc_at i k') \<and> 0 < p_pid (proc_at i k')"
proof -
  let ?free = "\<lambda>k i. p_state (proc_at i k) = UNUSED"
  have i: "i < length (k_procs k)" "?free k i" and first: "\<forall>j < i. \<not> ?free k j"
    using assms(2) by (auto simp: find_Some_iff)
  have z: "find (\<lambda>j. p_pid (proc_at j k) = 0) [0..<length (k_procs k)] = Some i"
    using i assms(3,4) by (auto simp: find_Some_iff intro!: exI [of _ i])
  define k1 where "k1 = snd (kill 0 k)"
  have k1: "k1 = upd_proc i (\<lambda>p. p\<lparr>p_killed := True, p_state := (if p_state p = SLEEPING then RUNNABLE else p_state p)\<rparr>) k"
    using z by (simp add: k1_def kill_def)
  have same: "\<forall>j < length (k_procs k). p_state (proc_at j k1) = p_state (proc_at j k)"
    using i by (simp add: k1 proc_at_upd)
  then have f: "find (?free k1) [0..<length (k_procs k1)] = Some i"
    using i first by (auto simp: find_Some_iff k1 proc_at_upd intro!: exI [of _ i])
  have "1 \<le> k_nextpid k" using assms(1) by (simp add: ptable_ok_def ptab_inv_def pid_ok_def)
  moreover have "p_killed (proc_at i k1)" "k_nextpid k1 = k_nextpid k" "i < length (k_procs k1)"
    using i by (simp_all add: k1 proc_at_upd)
  ultimately have "np = i \<and> p_killed (proc_at i k') \<and> 0 < p_pid (proc_at i k')"
    using assms(5) f
    by (auto simp: allocproc_def k1_def [symmetric] proc_at_upd upd_mem_def Let_def split: prod.splits if_splits)
  then show ?thesis using z by (simp add: kill_def)
qed

section \<open>Concrete states\<close>

definition ex_env :: env where
  "ex_env = \<lparr>ev_kend = 0x80100000, ev_kdata = 0x80100000, ev_trapret = 1, ev_forkret = 2, ev_initcode = [],
     ev_devsw = \<lparr>dev_read = (\<lambda>_. None), dev_write = (\<lambda>_. None)\<rparr>\<rparr>"

definition free_proc :: proc where
  "free_proc = \<lparr>p_sz = 0, p_pgdir = 0, p_kstack = 0, p_state = UNUSED, p_pid = 0, p_parent = None, p_tf = 0,
     p_context = 0, p_chan = No_chan, p_killed = False, p_ofile = replicate NOFILE None, p_cwd = None,
     p_name = replicate 16 0, p_times_scheduled = 0, p_tickets = 0\<rparr>"

definition first_proc :: proc where
  "first_proc = free_proc\<lparr>p_state := RUNNING, p_pid := 1, p_cwd := Some 0, p_tickets := 10\<rparr>"

definition child_proc :: proc where
  "child_proc = free_proc\<lparr>p_state := RUNNING, p_pid := 2, p_parent := Some 0, p_cwd := Some 0,
     p_kstack := 0x80101000, p_pgdir := 0x80102000\<rparr>"

text \<open>A file system with one inode in use, no transaction, and zeroed memory.\<close>

definition ex_sys :: sys where
  "ex_sys =
    \<lparr>sy_fs = \<lparr>fs_log = \<lparr>lg_disk = (\<lambda>_. replicate BSIZE 0), lg_cache = (\<lambda>_. None), lg_writes = [], lg_start = 2,
                lg_size = 31, lg_outstanding = 0, lg_committing = False, lg_lh = []\<rparr>,
              fs_sb = \<lparr>sb_size = 2000, sb_nblocks = 1941, sb_ninodes = 200, sb_nlog = 30, sb_logstart = 2,
                sb_inodestart = 32, sb_bmapstart = 58\<rparr>,
              fs_icache = [\<lparr>ip_dev = 1, ip_inum = 1, ip_ref = 2, ip_valid = False, ip_type = 0, ip_major = 0,
                ip_minor = 0, ip_nlink = 0, ip_size = 0, ip_addrs = []\<rparr>]\<rparr>,
     sy_ftable = [], sy_pipes = (\<lambda>_. pipe_new []), sy_kmem = \<lparr>km_freelist = 0x80103000, km_mem = (\<lambda>_. 0)\<rparr>\<rparr>"

definition ex_kernel :: "proc list \<Rightarrow> nat option \<Rightarrow> kernel" where
  "ex_kernel ps cpu = \<lparr>k_sys = ex_sys, k_procs = ps, k_cpu = cpu, k_nextpid = 3, k_initproc = Some 0, k_seed = 1,
     k_ticks = 0, k_writecount = 0\<rparr>"

lemma two_slots: "slot_at i \<lparr>t_slots = [a, b], t_cpu = c, t_next = n, t_init = q\<rparr> =
    (if i = 0 then a else if i = 1 then b else \<lparr>s_state = UNUSED, s_pid = 0, s_parent = None, s_chan = No_chan\<rparr>)"
  by (auto simp: slot_at_def nth_Cons' less_Suc_eq)

definition sleeping_init :: proc where
  "sleeping_init = first_proc\<lparr>p_state := SLEEPING, p_chan := Proc_chan 0\<rparr>"

lemmas ex_defs = ex_kernel_def sleeping_init_def child_proc_def first_proc_def free_proc_def

lemma close_files_none:
  "\<forall>fd \<in> set fds. p_ofile (proc_at c k) ! fd = None \<Longrightarrow> close_files ev c fds k = Inr k"
  by (induction fds) simp_all

lemma abandon_loop_keeps [simp]:
  "k_cpu (fold (abandon c) is k) = k_cpu k" "length (k_procs (fold (abandon c) is k)) = length (k_procs k)"
  by (induction "is" arbitrary: k) (simp_all add: abandon_def wakeup1_def Let_def)

lemma ex_exit_ok: "ptable_ok (ex_kernel [sleeping_init, child_proc] (Some 1))"
  by (simp add: ptable_ok_def ptab_inv_def inv_defs ptab_of_def slot_of_def two_slots ex_defs)

theorem exit_wakes_parent_witness:
  "\<exists>k'. exit ex_env (ex_kernel [sleeping_init, child_proc] (Some 1)) = Inr k' \<and>
     p_state (proc_at 0 k') = RUNNABLE \<and> p_state (proc_at 1 k') = ZOMBIE"
proof -
  let ?k = "ex_kernel [sleeping_init, child_proc] (Some 1)"
  obtain s1 s2 s3 where tx: "begin_tx ex_sys = Inr s1" "on_fs (iput 0) s1 = Inr s2" "end_tx s2 = Inr s3"
    by (simp add: begin_tx_def on_fs_def begin_op_def ex_sys_def LOGSIZE_def MAXOPBLOCKS_def iput_def upd_inode_def
        end_tx_def end_op_def commit_def)
  have "close_files ex_env 1 [0..<NOFILE] ?k = Inr ?k"
    by (rule close_files_none) (simp add: ex_defs NOFILE_def)
  moreover have "k_sys ?k = ex_sys" "k_initproc ?k = Some 0" "k_cpu ?k = Some 1" "p_cwd (proc_at 1 ?k) = Some 0"
    "length (k_procs ?k) = 2" by (simp_all add: ex_defs)
  ultimately obtain k' where ex: "exit ex_env ?k = Inr k'"
    using tx by (simp add: exit_def myproc_def on_sys_def Let_def sched_def proc_at_upd wakeup1_def)
  have "p_state (proc_at 0 k') = RUNNABLE \<and> p_state (proc_at 1 k') = ZOMBIE \<and>
    p_parent (proc_at 1 k') = Some 0 \<and> k_cpu k' = None"
    by (rule exit_wakes_parent [OF ex_exit_ok _ _ _ _ ex]) (simp_all add: ex_defs)
  with ex show ?thesis by blast
qed


lemma ex_running_ok: "ptable_ok (ex_kernel [first_proc, free_proc] (Some 0))"
  by (simp add: ptable_ok_def ptab_inv_def inv_defs ptab_of_def slot_of_def two_slots ex_defs)

theorem kill_zero_dooms_next_witness:
  "\<exists>k'. fst (kill 0 (ex_kernel [first_proc, free_proc] (Some 0))) = 0 \<and>
     allocproc ex_env (snd (kill 0 (ex_kernel [first_proc, free_proc] (Some 0)))) = Inr (Some 1, k') \<and>
     p_killed (proc_at 1 k')"
proof -
  let ?k = "ex_kernel [first_proc, free_proc] (Some 0)"
  have free: "find (\<lambda>i. p_state (proc_at i ?k) = UNUSED) [0..<length (k_procs ?k)] = Some 1"
    by (simp add: ex_defs upt_rec)
  have k1: "snd (kill 0 ?k) = upd_proc 1 (\<lambda>p. p\<lparr>p_killed := True\<rparr>) ?k"
    by (simp add: kill_def ex_defs upd_proc_def upt_rec)
  obtain k' where al: "allocproc ex_env (snd (kill 0 ?k)) = Inr (Some 1, k')"
    unfolding k1 by (simp add: allocproc_def ex_defs upd_proc_def upt_rec Let_def ex_sys_def kalloc_def INT_MAX_def)
  have "fst (kill 0 ?k) = 0 \<and> (1::nat) = 1 \<and> p_killed (proc_at 1 k') \<and> 0 < p_pid (proc_at 1 k')"
    by (rule kill_zero_dooms_next [OF ex_running_ok free _ _ al]) (simp_all add: ex_defs)
  with al show ?thesis by blast
qed


text \<open>An address space with no page tables is freed by freeing its directory.\<close>

lemma free_empty_tables:
  "\<forall>i \<in> set is. \<not> present (load_pte (pgdir + 4 * i) st) \<Longrightarrow> free_tables kend pgdir is st = Inr st"
  by (induction "is") simp_all

lemma dealloc_empty:
  assumes "\<forall>d < 1024. \<not> has_table (km_mem st) pgdir d"
  shows "deallocuvm_loop kend pgdir a oldsz st = Inr st"
  using assms
proof (induction kend pgdir a oldsz st rule: deallocuvm_loop.induct)
  case (1 kend pgdir a oldsz st)
  have w: "walkpgdir pgdir (of_nat a) False st = Inr (0, st)"
    by (rule walk_absent) (use 1(4) vpn_less in \<open>simp add: div_less_iff_less_mult\<close>)
  show ?case
  proof (cases "a < oldsz")
    case True
    then show ?thesis using 1(1) [OF True w refl] 1(4) w by (simp add: deallocuvm_loop.simps)
  qed (simp add: deallocuvm_loop.simps)
qed


lemma freevm_empty:
  assumes "pgdir \<noteq> 0" and "\<forall>x \<in> page_bytes pgdir. km_mem st x = 0"
  shows "freevm kend pgdir st = kfree kend pgdir st"
proof -
  have none: "\<forall>d < 1024. \<not> has_table (km_mem st) pgdir d" using zero_page_table [OF assms(2)] by blast
  then have "free_tables kend pgdir [0..<NPDENTRIES] st = Inr st"
    by (intro free_empty_tables) (simp add: has_table_def NPDENTRIES_def)
  with dealloc_empty [OF none] assms(1) show ?thesis
    by (simp add: freevm_def deallocuvm_def)
qed

definition zombie_child :: proc where
  "zombie_child = child_proc\<lparr>p_state := ZOMBIE\<rparr>"

theorem wait_reaps_witness:
  "\<exists>k'. wait ex_env (ex_kernel [first_proc, zombie_child] (Some 0)) = Inr (Wait_pid 2, k') \<and>
     p_state (proc_at 1 k') = UNUSED"
proof -
  let ?k = "ex_kernel [first_proc, zombie_child] (Some 0)"
  have ok: "ptable_ok ?k"
    by (simp add: ptable_ok_def ptab_inv_def inv_defs ptab_of_def slot_of_def two_slots ex_defs zombie_child_def)
  have f: "find (\<lambda>i. p_parent (proc_at i ?k) = Some 0 \<and> p_state (proc_at i ?k) = ZOMBIE) [0..<length (k_procs ?k)] = Some 1"
    by (simp add: ex_defs zombie_child_def upt_rec)
  obtain m1 where m1: "kfree 0x80100000 0x80101000 (sy_kmem ex_sys) = Inr m1"
    and z: "\<forall>x \<in> page_bytes 0x80102000. km_mem m1 x = 0"
    by (simp add: kfree_def ex_sys_def PGSIZE_def V2P_def KERNBASE_def PHYSTOP_def Let_def page_bytes_def
        store32_def fill_def)
  obtain m2 where m2: "freevm 0x80100000 0x80102000 m1 = Inr m2"
    unfolding freevm_empty [OF _ z, simplified]
    by (simp add: kfree_def PGSIZE_def V2P_def KERNBASE_def PHYSTOP_def Let_def)
  have p: "p_kstack (proc_at 1 ?k) = 0x80101000" "p_pgdir (proc_at 1 ?k) = 0x80102000" "p_pid (proc_at 1 ?k) = 2"
    "k_sys ?k = ex_sys" "length (k_procs ?k) = 2" "k_cpu ?k = Some 0"
    by (simp_all add: ex_defs zombie_child_def)
  obtain k' where "reap ex_env 1 ?k = Inr k'"
    using m1 m2 p by (simp add: reap_def on_sys_def on_kmem_def Let_def proc_at_upd ex_env_def)
  then have w: "wait ex_env ?k = Inr (Wait_pid 2, k')"
    using f p by (simp add: wait_def myproc_def Let_def)
  have "wait_outcome 0 ?k k' (Wait_pid 2)" by (rule wait_reaps [OF ok p(6) w])
  then have "p_state (proc_at 1 k') = UNUSED"
    using p(5) by (auto simp: ex_defs zombie_child_def less_Suc_eq numeral_2_eq_2)
  with w show ?thesis by blast
qed

section \<open>The first process\<close>

text \<open>After \<open>userinit\<close> on an empty table the invariant holds.\<close>

lemma userinit_ok:
  assumes "userinit ev k = Inr k'" and "\<forall>p \<in> set (k_procs k). p_state p = UNUSED \<and> p_pid p = 0 \<and> p_parent p = None"
    and "k_cpu k = None" and "k_nextpid k = 1"
  shows "ptable_ok k'"
proof -
  obtain np k1 where al: "allocproc ev k = Inr (np, k1)" using assms(1) by (auto simp: userinit_def res_simps)
  then obtain i where i: "np = Some i" "i < length (k_procs k)"
    and t1: "ptab_of k1 = (upd_slot i (\<lambda>s. s\<lparr>s_state := EMBRYO, s_pid := k_nextpid k\<rparr>) (ptab_of k))\<lparr>t_next := k_nextpid k + 1\<rparr>"
    using assms(1) by (cases rule: allocproc_table [OF al]) (auto simp: userinit_def res_simps Let_def)
  have init: "ptab_of (k1\<lparr>k_initproc := np\<rparr>) = (ptab_of k1)\<lparr>t_init := np\<rparr>" by (simp add: ptab_of_def)
  have namei: "ptab_of y = ptab_of x" if "proc_namei ev i path x = Inr (r, y)" for path r x y
    using that by (auto simp: proc_namei_def split: prod.splits option.splits bool.splits dest!: ptab_on_sys_val)
  have last: "ptab_of (upd_proc i (\<lambda>p. p\<lparr>p_cwd := d, p_tickets := 10, p_state := RUNNABLE\<rparr>) x) =
      upd_slot i (\<lambda>s. s\<lparr>s_state := RUNNABLE\<rparr>) (ptab_of x)" for d x
    by (rule ptab_upd) (simp add: slot_of_def)
  have "ptab_of k' = upd_slot i (\<lambda>s. s\<lparr>s_state := RUNNABLE\<rparr>) (ptab_of (k1\<lparr>k_initproc := np\<rparr>))"
    using assms(1) al i
    by (auto simp: userinit_def res_simps Let_def last split: if_splits
        dest!: ptab_on_sys_val ptab_on_sys set_name_table namei)
  then have k': "ptab_of k' = \<lparr>t_slots = (t_slots (ptab_of k))[i := (slot_of (proc_at i k))\<lparr>s_pid := 1, s_state := RUNNABLE\<rparr>],
      t_cpu = None, t_next = 2, t_init = Some i\<rparr>"
    using init t1 i assms(3,4) by (simp add: upd_slot_def ptab_of_def)
  have "slot_at j (ptab_of k') = (if j = i then (slot_of (proc_at i k))\<lparr>s_pid := 1, s_state := RUNNABLE\<rparr> else slot_at j (ptab_of k))" for j
    using i by (simp add: k' slot_at_def)
  moreover have "s_state (slot_at j (ptab_of k)) = UNUSED \<and> s_pid (slot_at j (ptab_of k)) = 0 \<and>
      s_parent (slot_at j (ptab_of k)) = None" for j
    using assms(2) by (simp add: slot_at_def ptab_of_def)
  moreover have "p_parent (proc_at i k) = None" using assms(2) i by simp
  ultimately show ?thesis by (auto simp: ptable_ok_def ptab_inv_def inv_defs k')
qed

end
