(* ===== verification/Syscall.thy ===== *)
theory Syscall
  imports Proc
begin

text \<open>
  System call arguments (\<open>syscall.c\<close>) and the system calls on processes (\<open>sysproc.c\<close>, and the last
  part of \<open>sysfile.c\<close>).  Arguments lie on the user stack; every address from user space is checked
  against the size of the process and then read through its page table.
\<close>

section \<open>Arguments (syscall.c)\<close>

definition fetchint :: "u32 \<Rightarrow> kernel \<Rightarrow> u32 option res" where
  "fetchint addr k =
     bindR (myproc k) (\<lambda>c.
     let sz = p_sz (proc_at c k) in
     if addr \<ge> sz \<or> addr + 4 > sz then Inr None
     else bindR (user_load32 (p_pgdir (proc_at c k)) addr (k_mem k)) (\<lambda>w. Inr (Some w)))"

text \<open>The bytes before the first zero between \<open>s\<close> and \<open>ep\<close>.\<close>

function fetchstr_loop :: "nat \<Rightarrow> u32 \<Rightarrow> u32 \<Rightarrow> memory \<Rightarrow> u8 list option res" where
  "fetchstr_loop pgdir s ep m =
     (if s < ep then
        bindR (user_load pgdir s m) (\<lambda>b.
          if b = 0 then Inr (Some [])
          else bindR (fetchstr_loop pgdir (s + 1) ep m) (\<lambda>r. Inr (map_option (\<lambda>bs. b # bs) r)))
      else Inr None)"
  by pat_completeness auto
termination
proof (relation "measure (\<lambda>(pgdir, s, ep, m). unat ep - unat s)", goal_cases)
  case (2 pgdir s ep m b)
  then have "unat s < unat ep" by (simp add: word_less_nat_alt)
  moreover have "unat ep < 4294967296" using unsigned_less [of ep] by simp
  ultimately have "unat (s + 1) = unat s + 1" "unat s < unat ep" by (simp_all add: unat_word_ariths)
  then show ?case by simp
qed simp

declare fetchstr_loop.simps [simp del]

definition fetchstr :: "u32 \<Rightarrow> kernel \<Rightarrow> u8 list option res" where
  "fetchstr addr k =
     bindR (myproc k) (\<lambda>c.
     let sz = p_sz (proc_at c k) in
     if addr \<ge> sz then Inr None
     else fetchstr_loop (p_pgdir (proc_at c k)) addr sz (k_mem k))"

definition argint :: "nat \<Rightarrow> kernel \<Rightarrow> u32 option res" where
  "argint n k =
     bindR (myproc k) (\<lambda>c.
       fetchint (load32 (k_mem k) (p_tf (proc_at c k) + TF_ESP) + 4 + 4 * of_nat n) k)"

text \<open>The address of a block of \<open>len\<close> bytes.\<close>

definition argptr :: "nat \<Rightarrow> int \<Rightarrow> kernel \<Rightarrow> u32 option res" where
  "argptr n len k =
     bindR (myproc k) (\<lambda>c.
     bindR (argint n k) (\<lambda>r.
       case r of
         None \<Rightarrow> Inr None
       | Some i \<Rightarrow>
           let sz = p_sz (proc_at c k) in
           if len < 0 \<or> i \<ge> sz \<or> i + word_of_int len > sz then Inr None else Inr (Some i)))"

definition argstr :: "nat \<Rightarrow> kernel \<Rightarrow> u8 list option res" where
  "argstr n k =
     bindR (argint n k) (\<lambda>r. case r of None \<Rightarrow> Inr None | Some addr \<Rightarrow> fetchstr addr k)"

section \<open>Outcomes\<close>

text \<open>A system call returns a value for \<open>%eax\<close>, or the process has given up the processor in it.\<close>

datatype sys_end = Ret int | Waits

type_synonym syscall_fun = "env \<Rightarrow> kernel \<Rightarrow> (sys_end \<times> kernel) res"

text \<open>The early exit of a system call whose argument cannot be fetched.\<close>

definition with_arg :: "'a option res \<Rightarrow> kernel \<Rightarrow> ('a \<Rightarrow> (sys_end \<times> kernel) res) \<Rightarrow> (sys_end \<times> kernel) res" where
  "with_arg r k f = bindR r (\<lambda>a. case a of None \<Rightarrow> Inr (Ret (-1), k) | Some x \<Rightarrow> f x)"

text \<open>Writing to user memory from the kernel.\<close>

definition user_put :: "u32 \<Rightarrow> u8 list \<Rightarrow> kernel \<Rightarrow> kernel res" where
  "user_put va bs k =
     bindR (myproc k) (\<lambda>c.
     bindR (user_stores (p_pgdir (proc_at c k)) va bs (k_mem k)) (\<lambda>m. Inr (upd_mem (\<lambda>_. m) k)))"

section \<open>System calls on processes (sysproc.c)\<close>

definition sys_fork :: syscall_fun where
  "sys_fork ev k = bindR (fork ev k) (\<lambda>(pid, k). Inr (Ret pid, k))"

definition sys_exit :: syscall_fun where
  "sys_exit ev k = bindR (exit ev k) (\<lambda>k. Inr (Waits, k))"

definition sys_wait :: syscall_fun where
  "sys_wait ev k =
     bindR (wait ev k) (\<lambda>(w, k).
       Inr (case w of Wait_pid pid \<Rightarrow> Ret pid | Wait_error \<Rightarrow> Ret (-1) | Wait_sleeps \<Rightarrow> Waits, k))"

definition sys_kill :: syscall_fun where
  "sys_kill ev k = with_arg (argint 0 k) k (\<lambda>pid. case kill (sint pid) k of (r, k) \<Rightarrow> Inr (Ret r, k))"

definition sys_getpid :: syscall_fun where
  "sys_getpid ev k = bindR (myproc k) (\<lambda>c. Inr (Ret (p_pid (proc_at c k)), k))"

definition sys_sbrk :: syscall_fun where
  "sys_sbrk ev k =
     with_arg (argint 0 k) k (\<lambda>n.
     bindR (myproc k) (\<lambda>c.
     let addr = sint (p_sz (proc_at c k)) in
     bindR (growproc ev (sint n) k) (\<lambda>(r, k). Inr (Ret (if r < 0 then -1 else addr), k))))"

text \<open>
  One pass of the loop of \<open>sys_sleep\<close> with the time \<open>ticks0\<close> at which it began.  The comparison
  \<open>ticks - ticks0 < n\<close> is unsigned.
\<close>

definition sleep_pass :: "u32 \<Rightarrow> u32 \<Rightarrow> kernel \<Rightarrow> (sys_end \<times> kernel) res" where
  "sleep_pass n ticks0 k =
     (if k_ticks k - ticks0 < n then
        bindR (myproc k) (\<lambda>c.
          if p_killed (proc_at c k) then Inr (Ret (-1), k)
          else bindR (sleep Ticks_chan k) (\<lambda>k. Inr (Waits, k)))
      else Inr (Ret 0, k))"

definition sys_sleep :: syscall_fun where
  "sys_sleep ev k = with_arg (argint 0 k) k (\<lambda>n. sleep_pass n (k_ticks k) k)"

definition sys_uptime :: syscall_fun where
  "sys_uptime ev k = Inr (Ret (sint (k_ticks k)), k)"

definition sys_yield :: syscall_fun where
  "sys_yield ev k = bindR (yield k) (\<lambda>k. Inr (Waits, k))"

text \<open>\<open>shutdown\<close> switches the machine off.\<close>

definition sys_shutdown :: syscall_fun where
  "sys_shutdown ev k = Inl (Exit 0)"

section \<open>Counters, tickets and the process list\<close>

definition sys_writecount :: syscall_fun where
  "sys_writecount ev k = Inr (Ret (k_writecount k), k)"

text \<open>The result of \<open>argint\<close> is not checked: without an argument the old value stays.\<close>

definition sys_setwritecount :: syscall_fun where
  "sys_setwritecount ev k =
     bindR (argint 0 k) (\<lambda>r.
       Inr (Ret 0, case r of None \<Rightarrow> k | Some n \<Rightarrow> k\<lparr>k_writecount := sint n\<rparr>))"

definition sys_settickets :: syscall_fun where
  "sys_settickets ev k =
     bindR (myproc k) (\<lambda>c.
     bindR (argint 0 k) (\<lambda>r.
     let tickets = (case r of None \<Rightarrow> 10 | Some n \<Rightarrow> sint n) in
       Inr (Ret 0, upd_proc c (\<lambda>p. p\<lparr>p_tickets := tickets\<rparr>) k)))"

text \<open>\<open>struct processes_info\<close>: the number of processes, then three arrays of \<open>NPROC\<close> integers.\<close>

definition INFO_SIZE :: nat where "INFO_SIZE = 4 + 3 * (4 * NPROC)"

fun put_info :: "u32 \<Rightarrow> nat \<Rightarrow> process_info list \<Rightarrow> kernel \<Rightarrow> kernel res" where
  "put_info p n [] k = user_put p (bytes_of_u32 (of_nat n)) k"
| "put_info p n (i # is) k =
     bindR (user_put (p + 4 + of_nat (4 * n)) (bytes_of_u32 (word_of_int (pi_pid i))) k) (\<lambda>k.
     bindR (user_put (p + 4 + of_nat (4 * NPROC + 4 * n)) (bytes_of_u32 (word_of_int (pi_times_scheduled i))) k) (\<lambda>k.
     bindR (user_put (p + 4 + of_nat (8 * NPROC + 4 * n)) (bytes_of_u32 (word_of_int (pi_tickets i))) k) (\<lambda>k.
       put_info p (Suc n) is k)))"

definition getprocesseshelper :: "kernel \<Rightarrow> (int \<times> kernel) res" where
  "getprocesseshelper k =
     bindR (argptr 0 (int INFO_SIZE) k) (\<lambda>r.
       case r of
         None \<Rightarrow> Inr (-1, k)
       | Some p \<Rightarrow> bindR (put_info p 0 (processes_info k) k) (\<lambda>k. Inr (0, k)))"

text \<open>The result of the helper is dropped.\<close>

definition sys_getprocessesinfo :: syscall_fun where
  "sys_getprocessesinfo ev k = bindR (getprocesseshelper k) (\<lambda>(_, k). Inr (Ret 0, k))"

section \<open>Page table queries (xv6_new_7)\<close>

definition sys_getpagetableentry :: syscall_fun where
  "sys_getpagetableentry ev k =
     with_arg (argint 0 k) k (\<lambda>pid. with_arg (argint 1 k) k (\<lambda>address.
       bindR (getpagetableentry (sint pid) address k) (\<lambda>pte. Inr (Ret (sint pte), k))))"

text \<open>The free list has no cycle, so the walk returns; otherwise the call would not.\<close>

definition sys_isphysicalpagefree :: syscall_fun where
  "sys_isphysicalpagefree ev k =
     with_arg (argint 0 k) k (\<lambda>ppn.
     bindR (P2V (unat (push_bit 12 ppn))) (\<lambda>v.
       case in_free_table v (sy_kmem (k_sys k)) of
         None \<Rightarrow> Inl Blocked
       | Some b \<Rightarrow> Inr (Ret (if b then 1 else 0), k)))"

definition sys_dumppagetable :: syscall_fun where
  "sys_dumppagetable ev k =
     with_arg (argint 0 k) k (\<lambda>pid.
     bindR (dumppagetable (sint pid) (k_procs k) k) (\<lambda>r.
       case r of None \<Rightarrow> Inl Blocked | Some _ \<Rightarrow> Inr (Ret 0, k)))"

end
