(* ===== verification/Sysfile.thy ===== *)
theory Sysfile
  imports Syscall
begin

text \<open>
  File system calls (\<open>sysfile.c\<close>): argument checks and calls into \<open>File\<close> and \<open>Fs\<close>, with the
  transactions, the inode locks and the error exits of the code.
\<close>

section \<open>Descriptors\<close>

text \<open>The descriptor and its file, when argument \<open>n\<close> is an open descriptor.\<close>

definition argfd :: "nat \<Rightarrow> kernel \<Rightarrow> (nat \<times> nat) option res" where
  "argfd n k =
     bindR (myproc k) (\<lambda>c.
     bindR (argint n k) (\<lambda>r.
       case r of
         None \<Rightarrow> Inr None
       | Some fd \<Rightarrow>
           if sint fd < 0 \<or> sint fd \<ge> int NOFILE then Inr None
           else Inr (map_option (\<lambda>f. (unat fd, f)) (p_ofile (proc_at c k) ! unat fd))))"

definition fdalloc :: "nat \<Rightarrow> kernel \<Rightarrow> (nat option \<times> kernel) res" where
  "fdalloc f k =
     bindR (myproc k) (\<lambda>c.
       case find (\<lambda>fd. p_ofile (proc_at c k) ! fd = None) [0..<NOFILE] of
         Some fd \<Rightarrow> Inr (Some fd, upd_proc c (\<lambda>p. p\<lparr>p_ofile := (p_ofile p)[fd := Some f]\<rparr>) k)
       | None \<Rightarrow> Inr (None, k))"

definition sys_dup :: syscall_fun where
  "sys_dup ev k =
     with_arg (argfd 0 k) k (\<lambda>(_, f).
     bindR (fdalloc f k) (\<lambda>(fd, k).
       case fd of
         None \<Rightarrow> Inr (Ret (-1), k)
       | Some fd \<Rightarrow> bindR (on_sys (filedup f) k) (\<lambda>k. Inr (Ret (int fd), k))))"

text \<open>The channels of a pipe: the addresses of \<open>nread\<close> and \<open>nwrite\<close> in its page.\<close>

definition pipe_nread_chan :: "nat \<Rightarrow> chan" where "pipe_nread_chan p = Addr_chan (p + 52 + PIPESIZE)"
definition pipe_nwrite_chan :: "nat \<Rightarrow> chan" where "pipe_nwrite_chan p = Addr_chan (p + 56 + PIPESIZE)"

definition sys_read :: syscall_fun where
  "sys_read ev k =
     with_arg (argfd 0 k) k (\<lambda>(_, f). with_arg (argint 2 k) k (\<lambda>n. with_arg (argptr 1 (sint n) k) k (\<lambda>p.
     bindR (myproc k) (\<lambda>c.
     let x = file_at f (k_sys k) in
     bindR (on_sys_val (fileread (ev_devsw ev) (p_killed (proc_at c k)) f (sint n)) k) (\<lambda>(r, k).
       case r of
         Read_done r bs \<Rightarrow>
           bindR (user_put p bs k) (\<lambda>k.
             Inr (Ret r, if f_type x = FD_PIPE \<and> r \<ge> 0 then wakeup (pipe_nwrite_chan (f_pipe x)) k else k))
       | Read_waits \<Rightarrow> bindR (sleep (pipe_nread_chan (f_pipe x)) k) (\<lambda>k. Inr (Waits, k)))))))"

text \<open>The write counter is an \<open>int\<close>; its overflow is undefined.\<close>

definition sys_write :: syscall_fun where
  "sys_write ev k =
     (if k_writecount k \<ge> INT_MAX then Inl Fault
      else
        let k = k\<lparr>k_writecount := k_writecount k + 1\<rparr> in
        with_arg (argfd 0 k) k (\<lambda>(_, f). with_arg (argint 2 k) k (\<lambda>n. with_arg (argptr 1 (sint n) k) k (\<lambda>p.
        bindR (myproc k) (\<lambda>c.
        let x = file_at f (k_sys k) in
        bindR (user_loads (p_pgdir (proc_at c k)) p (nat (sint n)) (k_mem k)) (\<lambda>src.
        bindR (on_sys_val (filewrite (ev_devsw ev) (p_killed (proc_at c k)) f src) k) (\<lambda>(r, k).
          case r of
            Write_done r \<Rightarrow>
              Inr (Ret r, if f_type x = FD_PIPE \<and> r \<ge> 0 then wakeup (pipe_nread_chan (f_pipe x)) k else k)
          | Write_waits _ \<Rightarrow>
              bindR (sleep (pipe_nwrite_chan (f_pipe x)) (wakeup (pipe_nread_chan (f_pipe x)) k)) (\<lambda>k.
                Inr (Waits, k)))))))))"

definition sys_close :: syscall_fun where
  "sys_close ev k =
     with_arg (argfd 0 k) k (\<lambda>(fd, f).
     bindR (myproc k) (\<lambda>c.
     let k = upd_proc c (\<lambda>p. p\<lparr>p_ofile := (p_ofile p)[fd := None]\<rparr>) k in
     bindR (on_sys (fileclose (ev_kend ev) f) k) (\<lambda>k. Inr (Ret 0, k))))"

text \<open>\<open>struct stat\<close> has 20 bytes, of which \<open>stati\<close> sets the five fields.\<close>

definition put_stat :: "u32 \<Rightarrow> stat \<Rightarrow> kernel \<Rightarrow> kernel res" where
  "put_stat p s k =
     bindR (user_put (p + 4) (bytes_of_u32 (of_nat (st_dev s))) k) (\<lambda>k.
     bindR (user_put (p + 8) (bytes_of_u32 (of_nat (st_ino s))) k) (\<lambda>k.
     bindR (user_put p (bytes_of_u16 (st_type s)) k) (\<lambda>k.
     bindR (user_put (p + 12) (bytes_of_u16 (st_nlink s)) k) (\<lambda>k.
       user_put (p + 16) (bytes_of_u32 (st_size s)) k))))"

definition sys_fstat :: syscall_fun where
  "sys_fstat ev k =
     with_arg (argfd 0 k) k (\<lambda>(_, f). with_arg (argptr 1 20 k) k (\<lambda>p.
     bindR (on_sys_val (filestat f) k) (\<lambda>(r, k).
       case r of
         None \<Rightarrow> Inr (Ret (-1), k)
       | Some s \<Rightarrow> bindR (put_stat p s k) (\<lambda>k. Inr (Ret 0, k)))))"

section \<open>Links\<close>

abbreviation fs_do :: "(fs \<Rightarrow> fs res) \<Rightarrow> kernel \<Rightarrow> kernel res" where
  "fs_do g \<equiv> on_sys (on_fs g)"

abbreviation fs_get :: "(fs \<Rightarrow> ('a \<times> fs) res) \<Rightarrow> kernel \<Rightarrow> ('a \<times> kernel) res" where
  "fs_get g \<equiv> on_sys_val (on_fs_val g)"

abbreviation the_inode :: "nat \<Rightarrow> kernel \<Rightarrow> inode" where
  "the_inode i k \<equiv> inode_at i (sy_fs (k_sys k))"

definition set_inode :: "nat \<Rightarrow> (inode \<Rightarrow> inode) \<Rightarrow> kernel \<Rightarrow> kernel res" where
  "set_inode i g = fs_do (\<lambda>s. iupdate i (upd_inode i g s))"

text \<open>A transaction that ends with a return value.\<close>

definition finish :: "int \<Rightarrow> kernel \<Rightarrow> (sys_end \<times> kernel) res" where
  "finish r k = bindR (on_sys end_tx k) (\<lambda>k. Inr (Ret r, k))"

definition proc_nameiparent :: "env \<Rightarrow> nat \<Rightarrow> u8 list \<Rightarrow> kernel \<Rightarrow> ((nat \<times> u8 list) option \<times> kernel) res" where
  "proc_nameiparent ev c path k =
     (case (path \<noteq> [] \<and> hd path = SLASH, p_cwd (proc_at c k)) of
        (True, _) \<Rightarrow> fs_get (nameiparent (ev_devsw ev) 0 path) k
      | (False, Some cwd) \<Rightarrow> fs_get (nameiparent (ev_devsw ev) cwd path) k
      | (False, None) \<Rightarrow> Inl Fault)"

definition link_bad :: "nat \<Rightarrow> kernel \<Rightarrow> (sys_end \<times> kernel) res" where
  "link_bad ip k =
     bindR (fs_do (ilock ip) k) (\<lambda>k.
     bindR (set_inode ip (\<lambda>i. i\<lparr>ip_nlink := ip_nlink i - 1\<rparr>) k) (\<lambda>k.
     bindR (fs_do (iunlockput ip) k) (finish (-1))))"

definition sys_link :: syscall_fun where
  "sys_link ev k =
     with_arg (argstr 0 k) k (\<lambda>old. with_arg (argstr 1 k) k (\<lambda>new.
     bindR (myproc k) (\<lambda>c.
     bindR (on_sys begin_tx k) (\<lambda>k.
     bindR (proc_namei ev c old k) (\<lambda>(ip, k).
     case ip of
       None \<Rightarrow> finish (-1) k
     | Some ip \<Rightarrow>
       bindR (fs_do (ilock ip) k) (\<lambda>k.
       if ip_type (the_inode ip k) = T_DIR then bindR (fs_do (iunlockput ip) k) (finish (-1))
       else
         bindR (set_inode ip (\<lambda>i. i\<lparr>ip_nlink := ip_nlink i + 1\<rparr>) k) (\<lambda>k.
         bindR (fs_do (iunlock ip) k) (\<lambda>k.
         bindR (proc_nameiparent ev c new k) (\<lambda>(dp, k).
         case dp of
           None \<Rightarrow> link_bad ip k
         | Some (dp, name) \<Rightarrow>
             bindR (fs_do (ilock dp) k) (\<lambda>k.
             bindR (if ip_dev (the_inode dp k) \<noteq> ip_dev (the_inode ip k) then Inr (-1, k)
                    else fs_get (dirlink (ev_devsw ev) dp name (ip_inum (the_inode ip k))) k) (\<lambda>(r, k).
             bindR (fs_do (iunlockput dp) k) (\<lambda>k.
               if r < 0 then link_bad ip k
               else bindR (fs_do (iput ip) k) (finish 0)))))))))))))"

text \<open>A directory is empty when its entries from the third on are.\<close>

function isdirempty_from :: "devsw \<Rightarrow> nat \<Rightarrow> nat \<Rightarrow> nat \<Rightarrow> fs \<Rightarrow> (bool \<times> fs) res" where
  "isdirempty_from dv dp sz off st =
     (if off < sz then
        bindR (readi dv dp (of_nat off) 16 st) (\<lambda>(r, de, st).
          if r \<noteq> 16 then Inl (Panic ''isdirempty: readi'')
          else if de_inum de \<noteq> 0 then Inr (False, st)
          else isdirempty_from dv dp sz (off + 16) st)
      else Inr (True, st))"
  by pat_completeness auto
termination
  by (relation "measure (\<lambda>(dv, dp, sz, off, st). sz - off)") auto

declare isdirempty_from.simps [simp del]

definition isdirempty :: "devsw \<Rightarrow> nat \<Rightarrow> fs \<Rightarrow> (bool \<times> fs) res" where
  "isdirempty dv dp st = isdirempty_from dv dp (unat (ip_size (inode_at dp st))) 32 st"

definition dot :: "u8 list" where "dot = [46, 0]"
definition dotdot :: "u8 list" where "dotdot = [46, 46, 0]"

definition unlink_bad :: "nat \<Rightarrow> kernel \<Rightarrow> (sys_end \<times> kernel) res" where
  "unlink_bad dp k = bindR (fs_do (iunlockput dp) k) (finish (-1))"

definition sys_unlink :: syscall_fun where
  "sys_unlink ev k =
     with_arg (argstr 0 k) k (\<lambda>path.
     bindR (myproc k) (\<lambda>c.
     bindR (on_sys begin_tx k) (\<lambda>k.
     bindR (proc_nameiparent ev c path k) (\<lambda>(dp, k).
     case dp of
       None \<Rightarrow> finish (-1) k
     | Some (dp, name) \<Rightarrow>
       bindR (fs_do (ilock dp) k) (\<lambda>k.
       bindR (namecmp name dot) (\<lambda>d1. bindR (namecmp name dotdot) (\<lambda>d2.
       if d1 = 0 \<or> d2 = 0 then unlink_bad dp k
       else
         bindR (fs_get (dirlookup (ev_devsw ev) dp name) k) (\<lambda>(found, k).
         case found of
           None \<Rightarrow> unlink_bad dp k
         | Some (ip, off) \<Rightarrow>
           bindR (fs_do (ilock ip) k) (\<lambda>k.
           if sint (ip_nlink (the_inode ip k)) < 1 then Inl (Panic ''unlink: nlink < 1'')
           else
             bindR (if ip_type (the_inode ip k) = T_DIR then fs_get (isdirempty (ev_devsw ev) ip) k
                    else Inr (True, k)) (\<lambda>(unused, k).
             if \<not> unused then bindR (fs_do (iunlockput ip) k) (unlink_bad dp)
             else
               bindR (fs_get (writei (ev_devsw ev) dp (replicate 16 0) (of_nat off)) k) (\<lambda>(r, k).
               if r \<noteq> 16 then Inl (Panic ''unlink: writei'')
               else
                 bindR (if ip_type (the_inode ip k) = T_DIR
                        then set_inode dp (\<lambda>i. i\<lparr>ip_nlink := ip_nlink i - 1\<rparr>) k else Inr k) (\<lambda>k.
                 bindR (fs_do (iunlockput dp) k) (\<lambda>k.
                 bindR (set_inode ip (\<lambda>i. i\<lparr>ip_nlink := ip_nlink i - 1\<rparr>) k) (\<lambda>k.
                 bindR (fs_do (iunlockput ip) k) (finish 0)))))))))))))))"

section \<open>Creating and opening\<close>

text \<open>The new entries of a directory.\<close>

definition create_dots :: "env \<Rightarrow> nat \<Rightarrow> nat \<Rightarrow> kernel \<Rightarrow> kernel res" where
  "create_dots ev ip dp k =
     bindR (set_inode dp (\<lambda>i. i\<lparr>ip_nlink := ip_nlink i + 1\<rparr>) k) (\<lambda>k.
     bindR (fs_get (dirlink (ev_devsw ev) ip dot (ip_inum (the_inode ip k))) k) (\<lambda>(r1, k).
     if r1 < 0 then Inl (Panic ''create dots'')
     else
       bindR (fs_get (dirlink (ev_devsw ev) ip dotdot (ip_inum (the_inode dp k))) k) (\<lambda>(r2, k).
       if r2 < 0 then Inl (Panic ''create dots'') else Inr k)))"

definition create :: "env \<Rightarrow> u8 list \<Rightarrow> u16 \<Rightarrow> u16 \<Rightarrow> u16 \<Rightarrow> kernel \<Rightarrow> (nat option \<times> kernel) res" where
  "create ev path ty major minor k =
     bindR (myproc k) (\<lambda>c.
     bindR (proc_nameiparent ev c path k) (\<lambda>(dp, k).
     case dp of
       None \<Rightarrow> Inr (None, k)
     | Some (dp, name) \<Rightarrow>
       bindR (fs_do (ilock dp) k) (\<lambda>k.
       bindR (fs_get (dirlookup (ev_devsw ev) dp name) k) (\<lambda>(found, k).
       case found of
         Some (ip, _) \<Rightarrow>
           bindR (fs_do (iunlockput dp) k) (\<lambda>k.
           bindR (fs_do (ilock ip) k) (\<lambda>k.
             if ty = T_FILE \<and> ip_type (the_inode ip k) = T_FILE then Inr (Some ip, k)
             else bindR (fs_do (iunlockput ip) k) (\<lambda>k. Inr (None, k))))
       | None \<Rightarrow>
           bindR (fs_get (ialloc (ip_dev (the_inode dp k)) ty) k) (\<lambda>(ip, k).
           bindR (fs_do (ilock ip) k) (\<lambda>k.
           bindR (set_inode ip (\<lambda>i. i\<lparr>ip_major := major, ip_minor := minor, ip_nlink := 1\<rparr>) k) (\<lambda>k.
           bindR (if ty = T_DIR then create_dots ev ip dp k else Inr k) (\<lambda>k.
           bindR (fs_get (dirlink (ev_devsw ev) dp name (ip_inum (the_inode ip k))) k) (\<lambda>(r, k).
             if r < 0 then Inl (Panic ''create: dirlink'')
             else bindR (fs_do (iunlockput dp) k) (\<lambda>k. Inr (Some ip, k)))))))))))"

definition O_WRONLY :: u32 where "O_WRONLY = 1"
definition O_RDWR :: u32 where "O_RDWR = 2"
definition O_CREATE :: u32 where "O_CREATE = 0x200"

text \<open>The inode to open, locked, or \<open>None\<close> when the call fails.\<close>

definition open_inode :: "env \<Rightarrow> u8 list \<Rightarrow> u32 \<Rightarrow> kernel \<Rightarrow> (nat option \<times> kernel) res" where
  "open_inode ev path omode k =
     (if omode AND O_CREATE \<noteq> 0 then create ev path T_FILE 0 0 k
      else
        bindR (myproc k) (\<lambda>c.
        bindR (proc_namei ev c path k) (\<lambda>(ip, k).
        case ip of
          None \<Rightarrow> Inr (None, k)
        | Some ip \<Rightarrow>
            bindR (fs_do (ilock ip) k) (\<lambda>k.
              if ip_type (the_inode ip k) = T_DIR \<and> omode \<noteq> 0
              then bindR (fs_do (iunlockput ip) k) (\<lambda>k. Inr (None, k))
              else Inr (Some ip, k)))))"

text \<open>A file and a descriptor; both \<open>None\<close> when there is no room for one of them.\<close>

definition open_file :: "env \<Rightarrow> kernel \<Rightarrow> ((nat \<times> nat) option \<times> kernel) res" where
  "open_file ev k =
     (case filealloc (k_sys k) of (f, s) \<Rightarrow>
        let k = k\<lparr>k_sys := s\<rparr> in
        case f of
          None \<Rightarrow> Inr (None, k)
        | Some f \<Rightarrow>
            bindR (fdalloc f k) (\<lambda>(fd, k).
              case fd of
                None \<Rightarrow> bindR (on_sys (fileclose (ev_kend ev) f) k) (\<lambda>k. Inr (None, k))
              | Some fd \<Rightarrow> Inr (Some (f, fd), k)))"

definition sys_open :: syscall_fun where
  "sys_open ev k =
     with_arg (argstr 0 k) k (\<lambda>path. with_arg (argint 1 k) k (\<lambda>omode.
     bindR (on_sys begin_tx k) (\<lambda>k.
     bindR (open_inode ev path omode k) (\<lambda>(ip, k).
     case ip of
       None \<Rightarrow> finish (-1) k
     | Some ip \<Rightarrow>
       bindR (open_file ev k) (\<lambda>(r, k).
       case r of
         None \<Rightarrow> bindR (fs_do (iunlockput ip) k) (finish (-1))
       | Some (f, fd) \<Rightarrow>
           bindR (fs_do (iunlock ip) k) (\<lambda>k.
           bindR (on_sys end_tx k) (\<lambda>k.
             Inr (Ret (int fd),
                  k\<lparr>k_sys := upd_file f (\<lambda>x. x\<lparr>f_type := FD_INODE, f_ip := ip, f_off := 0,
                      f_readable := (omode AND O_WRONLY = 0),
                      f_writable := (omode AND O_WRONLY \<noteq> 0 \<or> omode AND O_RDWR \<noteq> 0)\<rparr>) (k_sys k)\<rparr>))))))))"

text \<open>The result of a call of \<open>create\<close> inside a transaction.\<close>

definition created :: "nat option \<times> kernel \<Rightarrow> (sys_end \<times> kernel) res" where
  "created r =
     (case r of
        (None, k) \<Rightarrow> finish (-1) k
      | (Some ip, k) \<Rightarrow> bindR (fs_do (iunlockput ip) k) (finish 0))"

text \<open>The early exit of a call that has begun a transaction.\<close>

definition with_arg_tx :: "'a option res \<Rightarrow> kernel \<Rightarrow> ('a \<Rightarrow> (sys_end \<times> kernel) res) \<Rightarrow> (sys_end \<times> kernel) res" where
  "with_arg_tx r k f = bindR r (\<lambda>a. case a of None \<Rightarrow> finish (-1) k | Some x \<Rightarrow> f x)"

definition sys_mkdir :: syscall_fun where
  "sys_mkdir ev k =
     bindR (on_sys begin_tx k) (\<lambda>k.
     with_arg_tx (argstr 0 k) k (\<lambda>path. bindR (create ev path T_DIR 0 0 k) created))"

definition sys_mknod :: syscall_fun where
  "sys_mknod ev k =
     bindR (on_sys begin_tx k) (\<lambda>k.
     with_arg_tx (argstr 0 k) k (\<lambda>path. with_arg_tx (argint 1 k) k (\<lambda>major. with_arg_tx (argint 2 k) k (\<lambda>minor.
       bindR (create ev path T_DEV (ucast major) (ucast minor) k) created))))"

definition sys_chdir :: syscall_fun where
  "sys_chdir ev k =
     bindR (myproc k) (\<lambda>c.
     bindR (on_sys begin_tx k) (\<lambda>k.
     with_arg_tx (argstr 0 k) k (\<lambda>path.
     bindR (proc_namei ev c path k) (\<lambda>(ip, k).
     case ip of
       None \<Rightarrow> finish (-1) k
     | Some ip \<Rightarrow>
       bindR (fs_do (ilock ip) k) (\<lambda>k.
       if ip_type (the_inode ip k) \<noteq> T_DIR then bindR (fs_do (iunlockput ip) k) (finish (-1))
       else
         bindR (fs_do (iunlock ip) k) (\<lambda>k.
         bindR (case p_cwd (proc_at c k) of None \<Rightarrow> Inl Fault | Some d \<Rightarrow> fs_do (iput d) k) (\<lambda>k.
         bindR (on_sys end_tx k) (\<lambda>k.
           Inr (Ret 0, upd_proc c (\<lambda>p. p\<lparr>p_cwd := Some ip\<rparr>) k)))))))))"

text \<open>Two descriptors, or none: what was allocated is given back.\<close>

definition pipe_fail :: "env \<Rightarrow> nat \<Rightarrow> nat option \<Rightarrow> nat \<Rightarrow> nat \<Rightarrow> kernel \<Rightarrow> (sys_end \<times> kernel) res" where
  "pipe_fail ev c fd0 rf wr k =
     (let k = (case fd0 of None \<Rightarrow> k | Some fd \<Rightarrow> upd_proc c (\<lambda>p. p\<lparr>p_ofile := (p_ofile p)[fd := None]\<rparr>) k) in
      bindR (on_sys (fileclose (ev_kend ev) rf) k) (\<lambda>k.
      bindR (on_sys (fileclose (ev_kend ev) wr) k) (\<lambda>k. Inr (Ret (-1), k))))"

definition sys_pipe :: syscall_fun where
  "sys_pipe ev k =
     with_arg (argptr 0 8 k) k (\<lambda>p.
     bindR (myproc k) (\<lambda>c.
     bindR (on_sys_val (pipealloc (ev_kend ev)) k) (\<lambda>(r, k).
     case r of
       None \<Rightarrow> Inr (Ret (-1), k)
     | Some (rf, wr) \<Rightarrow>
       bindR (fdalloc rf k) (\<lambda>(fd0, k).
       case fd0 of
         None \<Rightarrow> pipe_fail ev c None rf wr k
       | Some fd0 \<Rightarrow>
         bindR (fdalloc wr k) (\<lambda>(fd1, k).
         case fd1 of
           None \<Rightarrow> pipe_fail ev c (Some fd0) rf wr k
         | Some fd1 \<Rightarrow>
             bindR (user_put p (bytes_of_u32 (of_nat fd0)) k) (\<lambda>k.
             bindR (user_put (p + 4) (bytes_of_u32 (of_nat fd1)) k) (\<lambda>k. Inr (Ret 0, k))))))))"

end
