(* ===== verification/Exec.thy ===== *)
theory Exec
  imports Sysfile
begin

text \<open>
  \<open>exec.c\<close>, the system call dispatcher of \<open>syscall.c\<close>, and the branches of \<open>trap\<close> in \<open>trap.c\<close> that
  act on processes.
\<close>

section \<open>Loading a program (exec.c, elf.h)\<close>

definition ELF_MAGIC :: u32 where "ELF_MAGIC = 0x464C457F"
definition MAXARG :: nat where "MAXARG = 32"

record elfhdr =
  eh_magic :: u32
  eh_entry :: u32
  eh_phoff :: u32
  eh_phnum :: u16

record proghdr =
  ph_type :: u32
  ph_off :: u32
  ph_vaddr :: u32
  ph_filesz :: u32
  ph_memsz :: u32

definition elfhdr_of :: "u8 list \<Rightarrow> elfhdr" where
  "elfhdr_of bs =
     \<lparr>eh_magic = u32_of_bytes (slice 0 4 bs), eh_entry = u32_of_bytes (slice 24 4 bs),
      eh_phoff = u32_of_bytes (slice 28 4 bs), eh_phnum = u16_of_bytes (slice 44 2 bs)\<rparr>"

definition proghdr_of :: "u8 list \<Rightarrow> proghdr" where
  "proghdr_of bs =
     \<lparr>ph_type = u32_of_bytes (slice 0 4 bs), ph_off = u32_of_bytes (slice 4 4 bs),
      ph_vaddr = u32_of_bytes (slice 8 4 bs), ph_filesz = u32_of_bytes (slice 16 4 bs),
      ph_memsz = u32_of_bytes (slice 20 4 bs)\<rparr>"

definition read_file :: "env \<Rightarrow> nat \<Rightarrow> u32 \<Rightarrow> u32 \<Rightarrow> kernel \<Rightarrow> (int \<times> u8 list \<times> kernel) res" where
  "read_file ev ip off n k =
     bindR (readi (ev_devsw ev) ip off n (sy_fs (k_sys k))) (\<lambda>(r, bs, s).
       Inr (r, bs, k\<lparr>k_sys := (k_sys k)\<lparr>sy_fs := s\<rparr>\<rparr>))"

definition load_segment :: "env \<Rightarrow> nat \<Rightarrow> nat \<Rightarrow> proghdr \<Rightarrow> kernel \<Rightarrow> (int \<times> kernel) res" where
  "load_segment ev ip pgdir ph k =
     (let s = k_sys k in
      bindR (loaduvm pgdir (ph_vaddr ph) (readi (ev_devsw ev) ip) (ph_off ph) (unat (ph_filesz ph))
               (sy_kmem s) (sy_fs s)) (\<lambda>(r, m, f).
        Inr (r, k\<lparr>k_sys := s\<lparr>sy_kmem := m, sy_fs := f\<rparr>\<rparr>)))"

text \<open>The loop over the program headers: the new size, or \<open>None\<close> for a bad program.\<close>

fun exec_load :: "env \<Rightarrow> nat \<Rightarrow> nat \<Rightarrow> nat \<Rightarrow> u32 \<Rightarrow> u32 \<Rightarrow> kernel \<Rightarrow> (u32 option \<times> kernel) res" where
  "exec_load ev ip pgdir 0 off sz k = Inr (Some sz, k)"
| "exec_load ev ip pgdir (Suc n) off sz k =
     bindR (read_file ev ip off 32 k) (\<lambda>(r, bs, k).
     let ph = proghdr_of bs in
     if r \<noteq> 32 then Inr (None, k)
     else if ph_type ph \<noteq> 1 then exec_load ev ip pgdir n (off + 32) sz k
     else if ph_memsz ph < ph_filesz ph \<or> ph_vaddr ph + ph_memsz ph < ph_vaddr ph then Inr (None, k)
     else
       bindR (on_sys_val (on_kmem_val (allocuvm (ev_kend ev) pgdir sz (ph_vaddr ph + ph_memsz ph))) k) (\<lambda>(sz, k).
       if sz = 0 \<or> unat (ph_vaddr ph) mod PGSIZE \<noteq> 0 then Inr (None, k)
       else
         bindR (load_segment ev ip pgdir ph k) (\<lambda>(r, k).
           if r < 0 then Inr (None, k) else exec_load ev ip pgdir n (off + 32) sz k)))"

text \<open>The error exit: the new address space and the locked inode, when there are such.\<close>

definition exec_bad :: "env \<Rightarrow> nat \<Rightarrow> nat option \<Rightarrow> kernel \<Rightarrow> (int \<times> kernel) res" where
  "exec_bad ev pgdir ip k =
     bindR (if pgdir \<noteq> 0 then on_sys (on_kmem (freevm (ev_kend ev) pgdir)) k else Inr k) (\<lambda>k.
     bindR (case ip of None \<Rightarrow> Inr k | Some i \<Rightarrow> bindR (fs_do (iunlockput i) k) (on_sys end_tx)) (\<lambda>k.
       Inr (-1, k)))"

text \<open>The argument strings, pushed from \<open>sp\<close> down: the stack pointer and the addresses.\<close>

fun push_args :: "nat \<Rightarrow> u8 list list \<Rightarrow> nat \<Rightarrow> u32 \<Rightarrow> u32 list \<Rightarrow> kmem \<Rightarrow> ((u32 \<times> u32 list) option \<times> kmem) res" where
  "push_args pgdir [] argc sp us m = Inr (Some (sp, us), m)"
| "push_args pgdir (a # as) argc sp us m =
     (if argc \<ge> MAXARG then Inr (None, m)
      else
        let sp = (sp - of_nat (length a + 1)) AND NOT 3 in
        bindR (copyout pgdir sp (a @ [0]) m) (\<lambda>(r, m).
          if r < 0 then Inr (None, m) else push_args pgdir as (argc + 1) sp (us @ [sp]) m))"

text \<open>The part of the path after its last slash.\<close>

definition last_elem :: "u8 list \<Rightarrow> u8 list" where
  "last_elem path = rev (takeWhile (\<lambda>c. c \<noteq> SLASH) (rev path))"

text \<open>The new image becomes that of the process, and the old one is freed.\<close>

definition exec_commit :: "env \<Rightarrow> nat \<Rightarrow> u8 list \<Rightarrow> nat \<Rightarrow> u32 \<Rightarrow> u32 \<Rightarrow> u32 \<Rightarrow> kernel \<Rightarrow> (int \<times> kernel) res" where
  "exec_commit ev c path pgdir sz entry sp k =
     bindR (set_name (last_elem path @ [0]) c k) (\<lambda>k.
     let oldpgdir = p_pgdir (proc_at c k); tf = p_tf (proc_at c k);
         k = upd_proc c (\<lambda>p. p\<lparr>p_pgdir := pgdir, p_sz := sz\<rparr>) k;
         k = upd_mem (\<lambda>m. store32 (tf + TF_ESP) sp (store32 (tf + TF_EIP) entry m)) k in
     bindR (switchuvm c k) (\<lambda>k.
     bindR (on_sys (on_kmem (freevm (ev_kend ev) oldpgdir)) k) (\<lambda>k. Inr (0, k))))"

text \<open>The stack of the new program: a guard page, a page of stack, the strings and the \<open>argv\<close> array.\<close>

definition exec_stack :: "env \<Rightarrow> nat \<Rightarrow> u8 list \<Rightarrow> u8 list list \<Rightarrow> nat \<Rightarrow> u32 \<Rightarrow> u32 \<Rightarrow> kernel \<Rightarrow> (int \<times> kernel) res" where
  "exec_stack ev c path argv pgdir sz entry k =
     (let sz = PGROUNDUP sz in
      bindR (on_sys_val (on_kmem_val (allocuvm (ev_kend ev) pgdir sz (sz + 8192))) k) (\<lambda>(sz, k).
      if sz = 0 then exec_bad ev pgdir None k
      else
        bindR (on_sys (on_kmem (clearpteu pgdir (sz - 8192))) k) (\<lambda>k.
        bindR (on_sys_val (on_kmem_val (push_args pgdir argv 0 sz [])) k) (\<lambda>(r, k).
        case r of
          None \<Rightarrow> exec_bad ev pgdir None k
        | Some (sp, us) \<Rightarrow>
            let argc = of_nat (length argv);
                ustack = [0xffffffff, argc, sp - (argc + 1) * 4] @ us @ [0];
                sp = sp - (3 + argc + 1) * 4 in
            bindR (on_sys_val (on_kmem_val (copyout pgdir sp (concat (map bytes_of_u32 ustack)))) k) (\<lambda>(r, k).
              if r < 0 then exec_bad ev pgdir None k
              else exec_commit ev c path pgdir sz entry sp k)))))"

definition exec :: "env \<Rightarrow> u8 list \<Rightarrow> u8 list list \<Rightarrow> kernel \<Rightarrow> (int \<times> kernel) res" where
  "exec ev path argv k =
     bindR (myproc k) (\<lambda>c.
     bindR (on_sys begin_tx k) (\<lambda>k.
     bindR (proc_namei ev c path k) (\<lambda>(ip, k).
     case ip of
       None \<Rightarrow> bindR (on_sys end_tx k) (\<lambda>k. Inr (-1, k))
     | Some ip \<Rightarrow>
       bindR (fs_do (ilock ip) k) (\<lambda>k.
       bindR (read_file ev ip 0 52 k) (\<lambda>(r, bs, k).
       let elf = elfhdr_of bs in
       if r \<noteq> 52 \<or> eh_magic elf \<noteq> ELF_MAGIC then exec_bad ev 0 (Some ip) k
       else
         bindR (on_sys_val (on_kmem_val (setupkvm (ev_kend ev) (ev_kdata ev))) k) (\<lambda>(pgdir, k).
         if pgdir = 0 then exec_bad ev 0 (Some ip) k
         else
           bindR (exec_load ev ip pgdir (unat (eh_phnum elf)) (eh_phoff elf) 0 k) (\<lambda>(sz, k).
           case sz of
             None \<Rightarrow> exec_bad ev pgdir (Some ip) k
           | Some sz \<Rightarrow>
               bindR (fs_do (iunlockput ip) k) (\<lambda>k.
               bindR (on_sys end_tx k) (\<lambda>k.
                 exec_stack ev c path argv pgdir sz (eh_entry elf) k)))))))))"

text \<open>The arguments of the call, from number \<open>i\<close> on; \<open>n\<close> is the room left in \<open>argv\<close>.\<close>

fun fetch_argv :: "nat \<Rightarrow> u32 \<Rightarrow> nat \<Rightarrow> kernel \<Rightarrow> u8 list list option res" where
  "fetch_argv 0 uargv i k = Inr None"
| "fetch_argv (Suc n) uargv i k =
     bindR (fetchint (uargv + 4 * of_nat i) k) (\<lambda>r.
       case r of
         None \<Rightarrow> Inr None
       | Some uarg \<Rightarrow>
           if uarg = 0 then Inr (Some [])
           else
             bindR (fetchstr uarg k) (\<lambda>s.
               case s of
                 None \<Rightarrow> Inr None
               | Some a \<Rightarrow> bindR (fetch_argv n uargv (i + 1) k) (\<lambda>as. Inr (map_option (\<lambda>l. a # l) as))))"

definition sys_exec :: syscall_fun where
  "sys_exec ev k =
     with_arg (argstr 0 k) k (\<lambda>path. with_arg (argint 1 k) k (\<lambda>uargv.
     with_arg (fetch_argv MAXARG uargv 0 k) k (\<lambda>argv.
       bindR (exec ev path argv k) (\<lambda>(r, k). Inr (Ret r, k)))))"

section \<open>The dispatcher\<close>

text \<open>The table \<open>syscalls\<close>, which starts at number 1.\<close>

definition syscalls :: "syscall_fun list" where
  "syscalls =
     [sys_fork, sys_exit, sys_wait, sys_pipe, sys_read, sys_kill, sys_exec, sys_fstat, sys_chdir, sys_dup,
      sys_getpid, sys_sbrk, sys_sleep, sys_uptime, sys_open, sys_write, sys_mknod, sys_unlink, sys_link,
      sys_mkdir, sys_close, sys_yield, sys_shutdown, sys_writecount, sys_setwritecount, sys_settickets,
      sys_getprocessesinfo]"

definition set_eax :: "nat \<Rightarrow> int \<Rightarrow> kernel \<Rightarrow> kernel" where
  "set_eax c r k = upd_mem (store32 (p_tf (proc_at c k) + TF_EAX) (word_of_int r)) k"

text \<open>The message for an unknown number is not part of the state.\<close>

definition syscall :: "env \<Rightarrow> kernel \<Rightarrow> (sys_end \<times> kernel) res" where
  "syscall ev k =
     bindR (myproc k) (\<lambda>c.
     let num = sint (load32 (k_mem k) (p_tf (proc_at c k) + TF_EAX)) in
     if num > 0 \<and> num < int (length syscalls) + 1 then
       bindR ((syscalls ! (nat num - 1)) ev k) (\<lambda>(r, k).
         Inr (r, case r of Ret v \<Rightarrow> set_eax c v k | Waits \<Rightarrow> k))
     else Inr (Ret (-1), set_eax c (-1) k))"

section \<open>Traps (trap.c)\<close>

text \<open>A system call of a process that has been killed is its end.\<close>

definition exit_if_killed :: "env \<Rightarrow> kernel \<Rightarrow> kernel res" where
  "exit_if_killed ev k =
     (case k_cpu k of
        None \<Rightarrow> Inr k
      | Some c \<Rightarrow> if p_killed (proc_at c k) then exit ev k else Inr k)"

definition trap_syscall :: "env \<Rightarrow> nat \<Rightarrow> kernel \<Rightarrow> kernel res" where
  "trap_syscall ev tf k =
     bindR (myproc k) (\<lambda>c.
     if p_killed (proc_at c k) then exit ev k
     else
       bindR (syscall ev (upd_proc c (\<lambda>p. p\<lparr>p_tf := tf\<rparr>) k)) (\<lambda>(r, k).
         case r of Ret _ \<Rightarrow> exit_if_killed ev k | Waits \<Rightarrow> Inr k))"

text \<open>The clock: a tick, the end of a killed process, and a new round of the scheduler.\<close>

definition trap_timer :: "env \<Rightarrow> bool \<Rightarrow> kernel \<Rightarrow> kernel res" where
  "trap_timer ev user k =
     bindR (if user then exit_if_killed ev (wakeup Ticks_chan (k\<lparr>k_ticks := k_ticks k + 1\<rparr>))
            else Inr (wakeup Ticks_chan (k\<lparr>k_ticks := k_ticks k + 1\<rparr>))) (\<lambda>k.
       case k_cpu k of
         None \<Rightarrow> Inr k
       | Some c \<Rightarrow> if p_state (proc_at c k) = RUNNING then yield k else Inr k)"

text \<open>Any other trap: a panic in the kernel, the end of the process in user space.\<close>

definition trap_fault :: "env \<Rightarrow> bool \<Rightarrow> kernel \<Rightarrow> kernel res" where
  "trap_fault ev user k =
     (case k_cpu k of
        None \<Rightarrow> Inl (Panic ''trap'')
      | Some c \<Rightarrow>
          if \<not> user then Inl (Panic ''trap'')
          else exit_if_killed ev (upd_proc c (\<lambda>p. p\<lparr>p_killed := True\<rparr>) k))"

end
