(* ===== verification/File_Refs.thy ===== *)
theory File_Refs
  imports Proc_Props Exec
begin

text \<open>
  Reference counts of open files: the count of a file object is the number of descriptors, over all
  processes, that refer to it.  Every system call keeps this, on its error exits too.
\<close>

section \<open>Counting descriptors\<close>

definition fd_count :: "kernel \<Rightarrow> nat \<Rightarrow> nat" where
  "fd_count k f = sum_list (map (\<lambda>p. count_list (p_ofile p) (Some f)) (k_procs k))"

definition file_ref :: "kernel \<Rightarrow> nat \<Rightarrow> int" where
  "file_ref k f = (if f < length (sy_ftable (k_sys k)) then f_ref (file_at f (k_sys k)) else 0)"

definition balance :: "kernel \<Rightarrow> nat \<Rightarrow> int" where
  "balance k f = file_ref k f - int (fd_count k f)"

definition dead :: "proc \<Rightarrow> bool" where
  "dead p \<longleftrightarrow> p_state p = UNUSED \<or> p_state p = ZOMBIE"

text \<open>Every process has its \<open>NOFILE\<close> descriptors, and slots without a live process have none open.\<close>

definition fds_ok :: "kernel \<Rightarrow> bool" where
  "fds_ok k \<longleftrightarrow> (\<forall>p \<in> set (k_procs k). length (p_ofile p) = NOFILE \<and>
     (dead p \<longrightarrow> p_ofile p = replicate NOFILE None))"

definition files_ok :: "kernel \<Rightarrow> bool" where
  "files_ok k \<longleftrightarrow> fds_ok k \<and> (\<forall>f. balance k f = 0)"

text \<open>What the counts depend on.\<close>

definition fkey :: "kernel \<Rightarrow> int list \<times> (nat option list \<times> bool) list" where
  "fkey k = (map f_ref (sy_ftable (k_sys k)), map (\<lambda>p. (p_ofile p, dead p)) (k_procs k))"

lemma file_ref_key: "file_ref k f = (if f < length (fst (fkey k)) then fst (fkey k) ! f else 0)"
  by (simp add: file_ref_def fkey_def)

lemma fd_count_key: "fd_count k f = sum_list (map (\<lambda>(x, _). count_list x (Some f)) (snd (fkey k)))"
  by (simp add: fd_count_def fkey_def comp_def)

lemma fds_ok_key: "fds_ok k \<longleftrightarrow>
    list_all (\<lambda>(x, d). length x = NOFILE \<and> (d \<longrightarrow> x = replicate NOFILE None)) (snd (fkey k))"
  by (simp add: fds_ok_def fkey_def list_all_iff)

lemma fkey_parts:
  assumes "fkey k' = fkey k"
  shows "file_ref k' = file_ref k" "fd_count k' = fd_count k" "fds_ok k' = fds_ok k"
  by (simp_all add: fun_eq_iff file_ref_key fd_count_key fds_ok_key assms)

lemma files_ok_key:
  assumes "fkey k' = fkey k" and "files_ok k"
  shows "files_ok k'"
  using assms(2) by (simp add: files_ok_def balance_def fkey_parts [OF assms(1)])

section \<open>Operations that leave the counts alone\<close>

named_theorems key_simps \<open>updates that do not change the key\<close>
named_theorems key_rules \<open>operations that do not change the key\<close>

lemma key_updates [key_simps]:
  "fkey (upd_mem g k) = fkey k"
  "fkey (k\<lparr>k_cpu := c\<rparr>) = fkey k" "fkey (k\<lparr>k_ticks := t\<rparr>) = fkey k" "fkey (k\<lparr>k_writecount := n\<rparr>) = fkey k"
  "fkey (k\<lparr>k_sys := (k_sys k)\<lparr>sy_fs := s\<rparr>\<rparr>) = fkey k" "fkey (k\<lparr>k_sys := (k_sys k)\<lparr>sy_kmem := m\<rparr>\<rparr>) = fkey k"
  "fkey (k\<lparr>k_sys := (k_sys k)\<lparr>sy_kmem := m, sy_fs := s\<rparr>\<rparr>) = fkey k"
  "fkey (k\<lparr>k_nextpid := i\<rparr>) = fkey k" "fkey (k\<lparr>k_seed := sd\<rparr>) = fkey k"
  by (simp_all add: fkey_def upd_mem_def)

lemma key_upd_proc:
  assumes "\<And>p. p_ofile (g p) = p_ofile p" "\<And>p. dead (g p) = dead p"
  shows "fkey (upd_proc i g k) = fkey k"
proof (cases "i < length (k_procs k)")
  case True
  let ?h = "\<lambda>p. (p_ofile p, dead p)"
  have "map ?h ((k_procs k)[i := g (proc_at i k)]) = (map ?h (k_procs k))[i := map ?h (k_procs k) ! i]"
    using True assms by (simp add: map_update)
  then show ?thesis by (simp add: fkey_def upd_proc_def)
qed (simp add: upd_proc_def list_update_beyond)

lemma key_proc_fields [key_simps]:
  "fkey (upd_proc i (\<lambda>p. p\<lparr>p_sz := z\<rparr>) k) = fkey k"
  "fkey (upd_proc i (\<lambda>p. p\<lparr>p_pgdir := pg\<rparr>) k) = fkey k"
  "fkey (upd_proc i (\<lambda>p. p\<lparr>p_pgdir := pg, p_sz := z\<rparr>) k) = fkey k"
  "fkey (upd_proc i (\<lambda>p. p\<lparr>p_kstack := st\<rparr>) k) = fkey k"
  "fkey (upd_proc i (\<lambda>p. p\<lparr>p_tf := tf, p_context := cx\<rparr>) k) = fkey k"
  "fkey (upd_proc i (\<lambda>p. p\<lparr>p_tf := tf\<rparr>) k) = fkey k"
  "fkey (upd_proc i (\<lambda>p. p\<lparr>p_cwd := d\<rparr>) k) = fkey k"
  "fkey (upd_proc i (\<lambda>p. p\<lparr>p_name := nm\<rparr>) k) = fkey k"
  "fkey (upd_proc i (\<lambda>p. p\<lparr>p_tickets := tk\<rparr>) k) = fkey k"
  "fkey (upd_proc i (\<lambda>p. p\<lparr>p_chan := c\<rparr>) k) = fkey k"
  "fkey (upd_proc i (\<lambda>p. p\<lparr>p_parent := q\<rparr>) k) = fkey k"
  "fkey (upd_proc i (\<lambda>p. p\<lparr>p_sz := z, p_parent := q, p_tickets := tk, p_times_scheduled := ts\<rparr>) k) = fkey k"
  "fkey (upd_proc i (\<lambda>p. p\<lparr>p_killed := True, p_state := (if p_state p = SLEEPING then RUNNABLE else p_state p)\<rparr>) k) = fkey k"
  by (rule key_upd_proc; simp add: dead_def)+

lemma key_wakeup [key_simps]: "fkey (wakeup1 ch k) = fkey k" "fkey (wakeup ch k) = fkey k"
  by (simp_all add: fkey_def wakeup_def wakeup1_def dead_def comp_def cong: map_cong)

lemma key_fs [key_rules]: "on_sys (on_fs g) k = Inr k' \<Longrightarrow> fkey k' = fkey k \<and> k_cpu k' = k_cpu k"
  by (auto simp: on_sys_def on_fs_def res_simps key_simps)

lemma key_fs_val [key_rules]: "on_sys_val (on_fs_val g) k = Inr (x, k') \<Longrightarrow> fkey k' = fkey k \<and> k_cpu k' = k_cpu k"
  by (auto simp: on_sys_val_def on_fs_val_def res_simps key_simps)

lemma key_kmem [key_rules]: "on_sys (on_kmem g) k = Inr k' \<Longrightarrow> fkey k' = fkey k \<and> k_cpu k' = k_cpu k"
  by (auto simp: on_sys_def on_kmem_def res_simps key_simps)

lemma key_kmem_val [key_rules]: "on_sys_val (on_kmem_val g) k = Inr (x, k') \<Longrightarrow> fkey k' = fkey k \<and> k_cpu k' = k_cpu k"
  by (auto simp: on_sys_val_def on_kmem_val_def res_simps key_simps)

lemma key_tx [key_rules]:
  "on_sys begin_tx k = Inr k' \<Longrightarrow> fkey k' = fkey k \<and> k_cpu k' = k_cpu k"
  "on_sys end_tx k = Inr k' \<Longrightarrow> fkey k' = fkey k \<and> k_cpu k' = k_cpu k"
  unfolding begin_tx_def end_tx_def by (rule key_fs, assumption)+

lemma key_user_put [key_rules]: "user_put va bs k = Inr k' \<Longrightarrow> fkey k' = fkey k \<and> k_cpu k' = k_cpu k"
  by (auto simp: user_put_def res_simps key_simps) (simp add: upd_mem_def)

lemma key_set_inode [key_rules]: "set_inode i g k = Inr k' \<Longrightarrow> fkey k' = fkey k \<and> k_cpu k' = k_cpu k"
  unfolding set_inode_def by (rule key_fs)

lemma key_namei [key_rules]:
  "proc_namei ev c path k = Inr (r, k') \<Longrightarrow> fkey k' = fkey k \<and> k_cpu k' = k_cpu k"
  "proc_nameiparent ev c path k = Inr (r', k') \<Longrightarrow> fkey k' = fkey k \<and> k_cpu k' = k_cpu k"
  by (auto simp: proc_namei_def proc_nameiparent_def split: prod.splits bool.splits option.splits
      dest!: key_fs_val)

lemma key_set_name [key_rules]: "set_name s i k = Inr k' \<Longrightarrow> fkey k' = fkey k \<and> k_cpu k' = k_cpu k"
  by (auto simp: set_name_def res_simps key_simps)

lemma key_finish [key_rules]: "finish r k = Inr (x, k') \<Longrightarrow> fkey k' = fkey k \<and> k_cpu k' = k_cpu k"
  by (auto simp: finish_def res_simps dest!: key_tx)


section \<open>References\<close>

lemma balance_key:
  assumes "fkey k' = fkey k"
  shows "balance k' = balance k"
  by (rule ext) (simp add: balance_def fkey_parts [OF assms])

text \<open>Operations on the file table: the count of one file changes by \<open>d\<close>.\<close>

definition ref_change :: "nat \<Rightarrow> int \<Rightarrow> kernel \<Rightarrow> kernel \<Rightarrow> bool" where
  "ref_change f d k k' \<longleftrightarrow> k_procs k' = k_procs k \<and> k_cpu k' = k_cpu k \<and>
     length (sy_ftable (k_sys k')) = length (sy_ftable (k_sys k)) \<and>
     (\<forall>g. file_ref k' g = file_ref k g + (if g = f then d else 0))"

lemma ref_change_balance:
  assumes "ref_change f d k k'"
  shows "balance k' g = balance k g + (if g = f then d else 0)" and "fds_ok k' = fds_ok k"
    and "k_procs k' = k_procs k" and "k_cpu k' = k_cpu k"
    and "length (sy_ftable (k_sys k')) = length (sy_ftable (k_sys k))"
  using assms by (simp_all add: ref_change_def balance_def fd_count_def fds_ok_def)

lemma file_ref_upd:
  "f < length (sy_ftable s) \<Longrightarrow> k_sys k = s \<Longrightarrow>
   file_ref (k\<lparr>k_sys := upd_file f h s\<rparr>) g = (if g = f then f_ref (h (file_at f s)) else file_ref k g)"
  by (simp add: file_ref_def upd_file_def nth_list_update)

lemma filedup_ref:
  assumes "on_sys (filedup f) k = Inr k'" and "f < length (sy_ftable (k_sys k))"
  shows "ref_change f 1 k k'"
  using assms by (auto simp: on_sys_def filedup_def ref_change_def file_ref_upd file_ref_def res_simps upd_file_def nth_list_update
      split: if_splits)

lemma fileclose_ref:
  assumes "on_sys (fileclose kend f) k = Inr k'" and "f < length (sy_ftable (k_sys k))"
  shows "ref_change f (-1) k k'"
proof -
  let ?s = "k_sys k"
  obtain s' where s': "fileclose kend f ?s = Inr s'" and k': "k' = k\<lparr>k_sys := s'\<rparr>"
    using assms(1) by (auto simp: on_sys_def res_simps)
  have pos: "1 \<le> f_ref (file_at f ?s)" using s' by (auto simp: fileclose_def Let_def split: if_splits)
  have "map f_ref (sy_ftable s') = (map f_ref (sy_ftable ?s))[f := f_ref (file_at f ?s) - 1]"
  proof (cases "f_ref (file_at f ?s) - 1 > 0")
    case True
    then show ?thesis using s' pos by (auto simp add: fileclose_def upd_file_def map_update Let_def)
  next
    case False
    with pos have one: "f_ref (file_at f ?s) = 1" by simp
    define s0 where "s0 = upd_file f (\<lambda>x. x\<lparr>f_ref := 0, f_type := FD_NONE\<rparr>) ?s"
    have "sy_ftable s' = sy_ftable s0"
      using s' one
      by (auto simp: fileclose_def Let_def s0_def [symmetric] close_pipe_def begin_tx_def end_tx_def on_fs_def
          on_kmem_def res_simps split: ftype.splits prod.splits if_splits)
    then show ?thesis by (simp add: s0_def upd_file_def map_update one)
  qed
  then have r: "map f_ref (sy_ftable (k_sys k')) = (map f_ref (sy_ftable ?s))[f := f_ref (file_at f ?s) - 1]"
    by (simp add: k')
  then have len: "length (sy_ftable (k_sys k')) = length (sy_ftable ?s)" by (metis length_list_update length_map)
  have "f_ref (file_at g (k_sys k')) = (if g = f then f_ref (file_at f ?s) - 1 else f_ref (file_at g ?s))"
    if "g < length (sy_ftable ?s)" for g
    using r len that assms(2) by (metis length_map nth_list_update nth_map)
  then show ?thesis using len assms(2) by (auto simp: ref_change_def file_ref_def k')
qed

lemma filealloc_ref:
  assumes "filealloc (k_sys k) = (Some f, s')"
  shows "ref_change f 1 k (k\<lparr>k_sys := s'\<rparr>)" and "f < length (sy_ftable (k_sys k))"
proof -
  have f: "f < length (sy_ftable (k_sys k))" "f_ref (file_at f (k_sys k)) = 0"
    and s': "s' = upd_file f (\<lambda>x. x\<lparr>f_ref := 1\<rparr>) (k_sys k)"
    using assms by (auto simp: filealloc_def find_Some_iff split: option.splits)
  show "f < length (sy_ftable (k_sys k))" by (rule f)
  show "ref_change f 1 k (k\<lparr>k_sys := s'\<rparr>)"
    using f by (simp add: ref_change_def s' file_ref_upd) (simp add: file_ref_def upd_file_def)
qed

section \<open>Descriptors\<close>

abbreviation set_fd :: "nat \<Rightarrow> nat \<Rightarrow> nat option \<Rightarrow> kernel \<Rightarrow> kernel" where
  "set_fd c fd y k \<equiv> upd_proc c (\<lambda>p. p\<lparr>p_ofile := (p_ofile p)[fd := y]\<rparr>) k"

lemma count_list_update:
  "i < length xs \<Longrightarrow> int (count_list (xs[i := y]) x) =
     int (count_list xs x) + (if y = x then 1 else 0) - (if xs ! i = x then 1 else 0)"
proof (induction xs arbitrary: i)
  case (Cons a xs)
  show ?case
  proof (cases i)
    case (Suc j)
    with Cons.prems Cons.IH [of j] show ?thesis by (auto split: if_splits)
  qed (use Cons in auto)
qed simp

lemma fd_count_set:
  assumes "c < length (k_procs k)" and "fd < length (p_ofile (proc_at c k))"
  shows "int (fd_count (set_fd c fd y k) g) = int (fd_count k g) + (if y = Some g then 1 else 0)
    - (if p_ofile (proc_at c k) ! fd = Some g then 1 else 0)"
proof -
  let ?n = "\<lambda>p. int (count_list (p_ofile p) (Some g))"
  have e: "int (fd_count k g) = sum_list (map ?n (k_procs k))" for k
    by (simp add: fd_count_def comp_def flip: sum_list_of_nat)
  show ?thesis using assms count_list_update [OF assms(2), of y "Some g"]
    by (simp add: e upd_proc_def map_update sum_list_int_update)
qed

lemma balance_set:
  assumes "c < length (k_procs k)" and "fd < length (p_ofile (proc_at c k))"
  shows "balance (set_fd c fd y k) g = balance k g - (if y = Some g then 1 else 0)
    + (if p_ofile (proc_at c k) ! fd = Some g then 1 else 0)"
proof -
  have "file_ref (set_fd c fd y k) g = file_ref k g" by (simp add: file_ref_def)
  then show ?thesis using fd_count_set [OF assms, of y g] by (simp add: balance_def)
qed

lemma none_update: "(replicate n None)[i := None] = replicate n None"
  by (cases "i < n") (simp_all add: list_update_same_conv list_update_beyond)

lemma fds_ok_set:
  assumes "fds_ok k" and "c < length (k_procs k)" and "dead (proc_at c k) \<Longrightarrow> y = None"
  shows "fds_ok (set_fd c fd y k)"
proof -
  have "length (p_ofile p) = NOFILE \<and> (dead p \<longrightarrow> p_ofile p = replicate NOFILE None)"
    if "p \<in> set ((k_procs k)[c := (proc_at c k)\<lparr>p_ofile := (p_ofile (proc_at c k))[fd := y]\<rparr>])" for p
  proof -
    have "proc_at c k \<in> set (k_procs k)" using assms(2) by simp
    with assms(1) have "length (p_ofile (proc_at c k)) = NOFILE"
      "dead (proc_at c k) \<longrightarrow> p_ofile (proc_at c k) = replicate NOFILE None"
      by (auto simp: fds_ok_def)
    with assms that show ?thesis by (auto simp: fds_ok_def dead_def none_update dest!: set_update_subset_insert [THEN subsetD])
  qed
  then show ?thesis by (simp add: fds_ok_def upd_proc_def)
qed


lemma open_file_in_table:
  assumes "files_ok k" and "c < length (k_procs k)" and "fd < NOFILE" and "p_ofile (proc_at c k) ! fd = Some f"
  shows "f < length (sy_ftable (k_sys k))"
proof (rule ccontr)
  assume "\<not> ?thesis"
  then have "file_ref k f = 0" by (simp add: file_ref_def)
  moreover have "balance k f = 0" using assms(1) by (simp add: files_ok_def)
  ultimately have z: "fd_count k f = 0" by (simp add: balance_def)
  have p: "proc_at c k \<in> set (k_procs k)" using assms(2) by simp
  with assms(1) have "length (p_ofile (proc_at c k)) = NOFILE" by (auto simp: files_ok_def fds_ok_def)
  with assms(3,4) have "Some f \<in> set (p_ofile (proc_at c k))" by (metis nth_mem)
  then have "count_list (p_ofile (proc_at c k)) (Some f) \<noteq> 0" by (simp add: count_list_0_iff)
  with p z show False by (auto simp: fd_count_def sum_list_eq_0_iff)
qed

text \<open>The running process.\<close>

definition runs :: "nat \<Rightarrow> kernel \<Rightarrow> bool" where
  "runs c k \<longleftrightarrow> k_cpu k = Some c \<and> c < length (k_procs k) \<and> \<not> dead (proc_at c k)"

lemma runs_myproc: "runs c k \<Longrightarrow> myproc k = Inr c"
  by (simp add: runs_def myproc_def)

lemma runs_key:
  assumes "fkey k' = fkey k" and "k_cpu k' = k_cpu k" and "runs c k"
  shows "runs c k'"
proof -
  have e: "map (\<lambda>p. (p_ofile p, dead p)) (k_procs k') = map (\<lambda>p. (p_ofile p, dead p)) (k_procs k)"
    using assms(1) by (simp add: fkey_def)
  then have len: "length (k_procs k') = length (k_procs k)" by (metis length_map)
  with assms(3) e have "dead (proc_at c k') = dead (proc_at c k)"
    unfolding runs_def by (metis (no_types, lifting) nth_map snd_conv)
  with assms len show ?thesis by (simp add: runs_def)
qed

lemma key_ofile:
  assumes "fkey k' = fkey k" and "c < length (k_procs k)"
  shows "p_ofile (proc_at c k') = p_ofile (proc_at c k)"
proof -
  let ?h = "\<lambda>p. (p_ofile p, dead p)"
  have e: "map ?h (k_procs k') = map ?h (k_procs k)" using assms(1) by (simp add: fkey_def)
  then have "length (k_procs k') = length (k_procs k)" by (rule map_eq_imp_length_eq)
  with assms(2) have "?h (proc_at c k') = ?h (proc_at c k)" using arg_cong [OF e, of "\<lambda>l. l ! c"] by simp
  then show ?thesis by simp
qed

lemma runs_ref: "ref_change f d k k' \<Longrightarrow> runs c k \<Longrightarrow> runs c k'"
  by (simp add: runs_def ref_change_def)

lemma fd_in_range:
  assumes "fds_ok k" and "c < length (k_procs k)"
  shows "length (p_ofile (proc_at c k)) = NOFILE"
  using assms by (simp add: fds_ok_def)

text \<open>Taking a free descriptor for a file: the number of descriptors grows by one.\<close>

lemma fdalloc_set:
  assumes "fdalloc f k = Inr (r, k')" and c: "runs c k" and "fds_ok k"
  shows "r = None \<Longrightarrow> k' = k"
    and "r = Some fd \<Longrightarrow> fd < NOFILE \<and> fds_ok k' \<and> k' = set_fd c fd (Some f) k \<and> p_ofile (proc_at c k) ! fd = None \<and>
      (\<forall>g. balance k' g = balance k g - (if g = f then 1 else 0)) \<and> runs c k' \<and> p_ofile (proc_at c k') ! fd = Some f"
proof -
  show "r = None \<Longrightarrow> k' = k" using assms(1) runs_myproc [OF c] by (auto simp: fdalloc_def res_simps split: option.splits)
  have cl: "c < length (k_procs k)" using c by (simp add: runs_def)
  assume "r = Some fd"
  then have fd: "fd < NOFILE" "p_ofile (proc_at c k) ! fd = None" "k' = set_fd c fd (Some f) k"
    using assms(1) runs_myproc [OF c] by (auto simp: fdalloc_def res_simps dest: find_slot split: option.splits)
  moreover have "fds_ok k'" unfolding fd(3) by (rule fds_ok_set [OF assms(3) cl]) (use c in \<open>simp add: runs_def\<close>)
  moreover have "\<forall>g. balance k' g = balance k g - (if g = f then 1 else 0)"
    using fd balance_set [OF cl, of fd] fd_in_range [OF assms(3) cl] by simp
  moreover have "runs c k'" using c cl by (simp add: fd(3) runs_def proc_at_upd dead_def)
  moreover have "p_ofile (proc_at c k') ! fd = Some f" using fd fd_in_range [OF assms(3) cl] cl by (simp add: proc_at_upd)
  ultimately show "fd < NOFILE \<and> fds_ok k' \<and> k' = set_fd c fd (Some f) k \<and> p_ofile (proc_at c k) ! fd = None \<and>
      (\<forall>g. balance k' g = balance k g - (if g = f then 1 else 0)) \<and> runs c k' \<and> p_ofile (proc_at c k') ! fd = Some f"
    by blast
qed

lemma clear_fd:
  assumes "fds_ok k" "c < length (k_procs k)" "fd < NOFILE" "p_ofile (proc_at c k) ! fd = Some f"
  shows "fds_ok (set_fd c fd None k)" and "balance (set_fd c fd None k) g = balance k g + (if g = f then 1 else 0)"
  using fds_ok_set [OF assms(1,2)] balance_set [OF assms(2), of fd None g] fd_in_range [OF assms(1,2)] assms(3,4) by auto

section \<open>System calls on descriptors\<close>

lemma unat_small: "0 \<le> sint w \<Longrightarrow> sint w < 16 \<Longrightarrow> unat (w :: u32) < 16"
  by (simp add: unat_eq_nat_uint uint_sint take_bit_int_eq_self)

lemma argfd_ok:
  assumes "argfd n k = Inr (Some (fd, f))" and "runs c k"
  shows "fd < NOFILE" "p_ofile (proc_at c k) ! fd = Some f"
  using assms runs_myproc [OF assms(2)] unat_small
  by (auto simp: argfd_def res_simps NOFILE_def split: option.splits if_splits)

lemma with_arg_cases:
  assumes "with_arg a k g = Inr (r, k')"
  obtains "r = Ret (-1)" "k' = k" | x where "a = Inr (Some x)" "g x = Inr (r, k')"
  using assms by (auto simp: with_arg_def res_simps split: option.splits)

lemma sys_dup_ok:
  assumes "sys_dup ev k = Inr (r, k')" and ok: "files_ok k" and c: "runs c k"
  shows "files_ok k'"
  using assms(1) unfolding sys_dup_def
proof (cases rule: with_arg_cases)
  case (2 x)
  obtain fd0 f where x: "x = (fd0, f)" by (cases x)
  have cl: "c < length (k_procs k)" and fds: "fds_ok k" using c ok by (simp_all add: runs_def files_ok_def)
  have f: "f < length (sy_ftable (k_sys k))"
    by (rule open_file_in_table [OF ok cl argfd_ok [OF 2(1) [unfolded x] c]])
  obtain fd k1 where k1: "fdalloc f k = Inr (fd, k1)"
    and rest: "(case fd of None \<Rightarrow> Inr (Ret (-1), k1)
       | Some fd \<Rightarrow> bindR (on_sys (filedup f) k1) (\<lambda>k. Inr (Ret (int fd), k))) = Inr (r, k')"
    using 2(2) x by (auto simp: res_simps)
  note al = fdalloc_set [OF k1 c fds]
  show ?thesis
  proof (cases fd)
    case None
    with rest al(1) ok show ?thesis by simp
  next
    case (Some d)
    note al = al(2) [OF Some]
    from rest Some have "on_sys (filedup f) k1 = Inr k'" by (auto simp: res_simps)
    from filedup_ref [OF this] f al have rc: "ref_change f 1 k1 k'" by simp
    show ?thesis using ref_change_balance(1,2) [OF rc] al ok by (auto simp: files_ok_def)
  qed
qed (use ok in simp)

lemma sys_close_ok:
  assumes "sys_close ev k = Inr (r, k')" and ok: "files_ok k" and c: "runs c k"
  shows "files_ok k'"
  using assms(1) unfolding sys_close_def
proof (cases rule: with_arg_cases)
  case (2 x)
  obtain fd f where x: "x = (fd, f)" by (cases x)
  have cl: "c < length (k_procs k)" and fds: "fds_ok k" using c ok by (simp_all add: runs_def files_ok_def)
  note fd = argfd_ok [OF 2(1) [unfolded x] c]
  have f: "f < length (sy_ftable (k_sys k))" by (rule open_file_in_table [OF ok cl fd])
  have "on_sys (fileclose (ev_kend ev) f) (set_fd c fd None k) = Inr k'"
    using 2(2) x runs_myproc [OF c] by (auto simp: res_simps Let_def)
  from fileclose_ref [OF this] f have rc: "ref_change f (-1) (set_fd c fd None k) k'" by simp
  show ?thesis using ref_change_balance(1,2) [OF rc] clear_fd [OF fds cl fd] ok by (simp add: files_ok_def)
qed (use ok in simp)

text \<open>Calls that only use the file system and the memory.\<close>

lemma create_key: "create ev path ty ma mi k = Inr (r, k') \<Longrightarrow> fkey k' = fkey k \<and> k_cpu k' = k_cpu k"
  by (auto simp: create_def create_dots_def res_simps split: option.splits prod.splits if_splits dest!: key_rules)


lemma open_inode_key: "open_inode ev path om k = Inr (r, k') \<Longrightarrow> fkey k' = fkey k \<and> k_cpu k' = k_cpu k"
  by (auto simp: open_inode_def res_simps split: option.splits if_splits dest!: key_rules create_key)

lemma created_key: "created r = Inr (x, k') \<Longrightarrow> fkey k' = fkey (snd r) \<and> k_cpu k' = k_cpu (snd r)"
  by (auto simp: created_def res_simps split: option.splits prod.splits dest!: key_rules)

lemma open_file_ok:
  assumes "open_file ev k = Inr (r, k')" and ok: "files_ok k" and c: "runs c k"
  shows "files_ok k'"
proof -
  have fds: "fds_ok k" using ok by (simp add: files_ok_def)
  obtain f s where al: "filealloc (k_sys k) = (f, s)" by force
  show ?thesis
  proof (cases f)
    case None
    then have "s = k_sys k" using al by (auto simp: filealloc_def split: option.splits)
    with assms(1) al None ok show ?thesis by (simp add: open_file_def Let_def)
  next
    case (Some f0)
    let ?k = "k\<lparr>k_sys := s\<rparr>"
    have rc: "ref_change f0 1 k ?k" and len: "f0 < length (sy_ftable (k_sys k))"
      using filealloc_ref al Some by auto
    note b = ref_change_balance [OF rc]
    obtain fd k1 where k1: "fdalloc f0 ?k = Inr (fd, k1)"
      and rest: "(case fd of None \<Rightarrow> bindR (on_sys (fileclose (ev_kend ev) f0) k1) (\<lambda>k. Inr (None, k))
          | Some fd \<Rightarrow> Inr (Some (f0, fd), k1)) = Inr (r, k')"
      using assms(1) al Some by (auto simp: open_file_def Let_def res_simps)
    have fds1: "fds_ok ?k" using fds b(2) by simp
    note fa = fdalloc_set [OF k1 runs_ref [OF rc c] fds1]
    show ?thesis
    proof (cases fd)
      case None
      with fa(1) rest have "on_sys (fileclose (ev_kend ev) f0) ?k = Inr k'" by (auto simp: res_simps)
      from fileclose_ref [OF this] len b(5) have rc2: "ref_change f0 (-1) ?k k'" by simp
      show ?thesis using ref_change_balance(1,2) [OF rc2] b(1,2) ok by (auto simp: files_ok_def)
    next
      case (Some d)
      then have "k' = k1" using rest by simp
      with fa(2) [OF Some] b(1) ok show ?thesis by (auto simp: files_ok_def)
    qed
  qed
qed

lemma upd_file_refs:
  assumes "\<And>x. f_ref (h x) = f_ref x"
  shows "map f_ref (sy_ftable (upd_file f h s)) = map f_ref (sy_ftable s)"
proof (cases "f < length (sy_ftable s)")
  case True
  have "map f_ref ((sy_ftable s)[f := h (file_at f s)]) = (map f_ref (sy_ftable s))[f := map f_ref (sy_ftable s) ! f]"
    using True assms by (simp add: map_update)
  then show ?thesis by (simp add: upd_file_def)
qed (simp add: upd_file_def list_update_beyond)

lemma upd_file_key:
  "(\<And>x. f_ref (h x) = f_ref x) \<Longrightarrow> fkey (k\<lparr>k_sys := upd_file f h (k_sys k)\<rparr>) = fkey k"
  by (simp add: fkey_def upd_file_refs)

lemma sys_open_ok:
  assumes "sys_open ev k = Inr (r, k')" and ok: "files_ok k" and c: "runs c k"
  shows "files_ok k'"
  using assms(1) unfolding sys_open_def
proof (cases rule: with_arg_cases)
  case (2 path)
  from 2(2) show ?thesis
  proof (cases rule: with_arg_cases)
    case (2 om)
    obtain k1 ip k2 where k1: "on_sys begin_tx k = Inr k1" and k2: "open_inode ev path om k1 = Inr (ip, k2)"
      and rest: "(case ip of None \<Rightarrow> finish (-1) k2
       | Some ip \<Rightarrow> bindR (open_file ev k2) (\<lambda>(r, k).
           case r of None \<Rightarrow> bindR (fs_do (iunlockput ip) k) (finish (-1))
           | Some (f, fd) \<Rightarrow> bindR (fs_do (iunlock ip) k) (\<lambda>k. bindR (on_sys end_tx k) (\<lambda>k.
             Inr (Ret (int fd), k\<lparr>k_sys := upd_file f (\<lambda>x. x\<lparr>f_type := FD_INODE, f_ip := ip, f_off := 0,
                      f_readable := (om AND O_WRONLY = 0),
                      f_writable := (om AND O_WRONLY \<noteq> 0 \<or> om AND O_RDWR \<noteq> 0)\<rparr>) (k_sys k)\<rparr>))))) = Inr (r, k')"
      using 2(2) by (auto simp: res_simps)
    have key2: "fkey k2 = fkey k" "k_cpu k2 = k_cpu k" using key_tx(1) [OF k1] open_inode_key [OF k2] by simp_all
    have ok2: "files_ok k2" and c2: "runs c k2" using files_ok_key [OF key2(1) ok] runs_key [OF key2 c] .
    show ?thesis
    proof (cases ip)
      case None
      then show ?thesis using rest ok2 files_ok_key [OF key_finish [THEN conjunct1]] by auto
    next
      case (Some i)
      obtain q k3 where k3: "open_file ev k2 = Inr (q, k3)" using rest Some by (auto simp: res_simps)
      have ok3: "files_ok k3" by (rule open_file_ok [OF k3 ok2 c2])
      have "fkey k' = fkey k3"
        using rest Some k3 by (auto simp: res_simps upd_file_key split: option.splits dest!: key_rules)
      then show ?thesis using files_ok_key ok3 by blast
    qed
  qed (use ok in simp)
qed (use ok in simp)


text \<open>Several changes of counts in a row.\<close>

definition ref_sum :: "(nat \<Rightarrow> int) \<Rightarrow> kernel \<Rightarrow> kernel \<Rightarrow> bool" where
  "ref_sum d k k' \<longleftrightarrow> k_procs k' = k_procs k \<and> k_cpu k' = k_cpu k \<and>
     length (sy_ftable (k_sys k')) = length (sy_ftable (k_sys k)) \<and> (\<forall>g. file_ref k' g = file_ref k g + d g)"

lemma ref_sum_0:
  assumes "sy_ftable (k_sys k') = sy_ftable (k_sys k)" "k_procs k' = k_procs k" "k_cpu k' = k_cpu k"
  shows "ref_sum (\<lambda>_. 0) k k'"
  using assms by (simp add: ref_sum_def file_ref_def)

lemma ref_sum_step: "ref_sum d k k1 \<Longrightarrow> ref_change f e k1 k2 \<Longrightarrow> ref_sum (\<lambda>g. d g + (if g = f then e else 0)) k k2"
  by (simp add: ref_sum_def ref_change_def)

lemma ref_sum_table:
  assumes "map f_ref (sy_ftable s') = map f_ref (sy_ftable s)" and "ref_sum d k (k\<lparr>k_sys := s\<rparr>)"
  shows "ref_sum d k (k\<lparr>k_sys := s'\<rparr>)"
proof -
  have "file_ref (k\<lparr>k_sys := s'\<rparr>) = file_ref (k\<lparr>k_sys := s\<rparr>)"
    using assms(1) by (simp add: fun_eq_iff file_ref_key fkey_def)
  moreover have "length (sy_ftable s') = length (sy_ftable s)" using assms(1) by (metis length_map)
  ultimately show ?thesis using assms(2) by (simp add: ref_sum_def)
qed

lemma ref_sum_balance: "ref_sum d k k' \<Longrightarrow> balance k' g = balance k g + d g" "ref_sum d k k' \<Longrightarrow> fds_ok k' = fds_ok k"
  by (simp_all add: ref_sum_def balance_def fd_count_def fds_ok_def)

lemma ref_sum_files_ok: "ref_sum d k k' \<Longrightarrow> \<forall>g. d g = 0 \<Longrightarrow> files_ok k \<Longrightarrow> files_ok k'"
  by (simp add: files_ok_def ref_sum_balance)

lemma close_some:
  assumes "(case q of None \<Rightarrow> Inr s | Some f \<Rightarrow> fileclose kend f s) = Inr s'" and "ref_sum d k (k\<lparr>k_sys := s\<rparr>)"
    and "\<forall>f. q = Some f \<longrightarrow> f < length (sy_ftable (k_sys k))"
  shows "ref_sum (\<lambda>g. d g - (if q = Some g then 1 else 0)) k (k\<lparr>k_sys := s'\<rparr>)"
proof (cases q)
  case None
  with assms show ?thesis by simp
next
  case (Some f)
  have "on_sys (fileclose kend f) (k\<lparr>k_sys := s\<rparr>) = Inr (k\<lparr>k_sys := s'\<rparr>)"
    using assms(1) Some by (simp add: on_sys_def)
  moreover have "f < length (sy_ftable s)" using assms(2,3) Some by (simp add: ref_sum_def)
  ultimately have "ref_change f (-1) (k\<lparr>k_sys := s\<rparr>) (k\<lparr>k_sys := s'\<rparr>)" by (intro fileclose_ref) simp_all
  from ref_sum_step [OF assms(2) this]
  have "ref_sum (\<lambda>g. d g + (if g = f then -1 else 0)) k (k\<lparr>k_sys := s'\<rparr>)" .
  moreover have "(\<lambda>g. d g + (if g = f then -1 else 0)) = (\<lambda>g. d g - (if q = Some g then 1 else 0))"
    using Some by auto
  ultimately show ?thesis by simp
qed

lemma pipe_bad_ref:
  assumes "pipe_bad kend f0 f1 s = Inr (r, s')" and "ref_sum d k (k\<lparr>k_sys := s\<rparr>)"
    and "\<forall>f. f0 = Some f \<or> f1 = Some f \<longrightarrow> f < length (sy_ftable (k_sys k))"
  shows "r = None" and "ref_sum (\<lambda>g. d g - (if f0 = Some g then 1 else 0) - (if f1 = Some g then 1 else 0)) k (k\<lparr>k_sys := s'\<rparr>)"
proof -
  obtain s1 where s1: "(case f0 of None \<Rightarrow> Inr s | Some f \<Rightarrow> fileclose kend f s) = Inr s1"
    and s2: "(case f1 of None \<Rightarrow> Inr s1 | Some f \<Rightarrow> fileclose kend f s1) = Inr s'" and "r = None"
    using assms(1) by (auto simp: pipe_bad_def res_simps)
  have "ref_sum (\<lambda>g. d g - (if f0 = Some g then 1 else 0)) k (k\<lparr>k_sys := s1\<rparr>)"
    by (rule close_some [OF s1 assms(2)]) (use assms(3) in simp)
  from close_some [OF s2 this] assms(3)
  show "ref_sum (\<lambda>g. d g - (if f0 = Some g then 1 else 0) - (if f1 = Some g then 1 else 0)) k (k\<lparr>k_sys := s'\<rparr>)"
    by simp
  show "r = None" by fact
qed

lemma filealloc_sum:
  assumes "filealloc s = (Some f, s')" and "ref_sum d k (k\<lparr>k_sys := s\<rparr>)"
  shows "ref_sum (\<lambda>g. d g + (if g = f then 1 else 0)) k (k\<lparr>k_sys := s'\<rparr>)" and "f < length (sy_ftable (k_sys k))"
proof -
  have a: "filealloc (k_sys (k\<lparr>k_sys := s\<rparr>)) = (Some f, s')" using assms(1) by simp
  from ref_sum_step [OF assms(2) filealloc_ref(1) [OF a]]
  show "ref_sum (\<lambda>g. d g + (if g = f then 1 else 0)) k (k\<lparr>k_sys := s'\<rparr>)" by simp
  show "f < length (sy_ftable (k_sys k))" using filealloc_ref(2) [OF a] assms(2) by (simp add: ref_sum_def)
qed

lemma pipealloc_ref:
  assumes "on_sys_val (pipealloc kend) k = Inr (r, k')"
  shows "case r of None \<Rightarrow> ref_sum (\<lambda>_. 0) k k'
    | Some (rf, wr) \<Rightarrow> ref_sum (\<lambda>g. (if g = rf then 1 else 0) + (if g = wr then 1 else 0)) k k' \<and>
        rf < length (sy_ftable (k_sys k)) \<and> wr < length (sy_ftable (k_sys k))"
proof -
  obtain s' where p: "pipealloc kend (k_sys k) = Inr (r, s')" and k': "k' = k\<lparr>k_sys := s'\<rparr>"
    using assms by (auto simp: on_sys_val_def res_simps)
  have z: "ref_sum (\<lambda>_. 0) k (k\<lparr>k_sys := k_sys k\<rparr>)" by (rule ref_sum_0) simp_all
  obtain f0 s1 where a0: "filealloc (k_sys k) = (f0, s1)" by force
  show ?thesis
  proof (cases f0)
    case None
    then have "s1 = k_sys k" using a0 by (auto simp: filealloc_def split: option.splits)
    then show ?thesis using p a0 None z pipe_bad_ref [of kend None None s1 r s' "\<lambda>_. 0" k]
      by (simp add: pipealloc_def k')
  next
    case 0: (Some x0)
    note r1 = filealloc_sum [OF a0 [unfolded 0] z]
    obtain f1 s2 where a1: "filealloc s1 = (f1, s2)" by force
    show ?thesis
    proof (cases f1)
      case None
      then have "s2 = s1" using a1 by (auto simp: filealloc_def split: option.splits)
      then have b: "pipe_bad kend (Some x0) None s1 = Inr (r, s')" using p a0 0 a1 None by (simp add: pipealloc_def)
      note pb = pipe_bad_ref [OF b r1(1)]
      have "(\<lambda>g. 0 + (if g = x0 then 1 else 0) - (if Some x0 = Some g then 1 else 0) - (if None = Some g then 1 else 0))
          = (\<lambda>_. 0 :: int)" by auto
      then show ?thesis using pb r1(2) by (simp add: k')
    next
      case 1: (Some x1)
      note r2 = filealloc_sum [OF a1 [unfolded 1] r1(1)]
      obtain pg m where m: "kalloc (sy_kmem s2) = (pg, m)" by force
      have r3: "ref_sum (\<lambda>g. 0 + (if g = x0 then 1 else 0) + (if g = x1 then 1 else 0)) k (k\<lparr>k_sys := s2\<lparr>sy_kmem := m\<rparr>\<rparr>)"
        by (rule ref_sum_table [OF _ r2(1)]) simp
      show ?thesis
      proof (cases "pg = 0")
        case True
        then have b: "pipe_bad kend (Some x0) (Some x1) (s2\<lparr>sy_kmem := m\<rparr>) = Inr (r, s')"
          using p a0 0 a1 1 m by (simp add: pipealloc_def Let_def)
        note pb = pipe_bad_ref [OF b r3]
        have "(\<lambda>g. 0 + (if g = x0 then 1 else 0) + (if g = x1 then 1 else 0)
            - (if Some x0 = Some g then 1 else 0) - (if Some x1 = Some g then 1 else 0)) = (\<lambda>_. 0 :: int)" by auto
        then show ?thesis using pb r1(2) r2(2) by (simp add: k')
      next
        case False
        then have "r = Some (x0, x1)" and "map f_ref (sy_ftable s') = map f_ref (sy_ftable s2)"
          using p a0 0 a1 1 m by (auto simp: pipealloc_def Let_def upd_file_refs)
        then show ?thesis using ref_sum_table [OF _ r2(1)] r1(2) r2(2) by (simp add: k')
      qed
    qed
  qed
qed


lemma ref_sum_runs: "ref_sum d k k' \<Longrightarrow> runs c k \<Longrightarrow> runs c k'"
  by (simp add: ref_sum_def runs_def)

text \<open>Closing both ends after the descriptors have been taken back.\<close>

lemma close_two:
  assumes "on_sys (fileclose kend f) k = Inr k1" "on_sys (fileclose kend g) k1 = Inr k2"
    and "f < length (sy_ftable (k_sys k))" "g < length (sy_ftable (k_sys k))"
  shows "balance k2 x = balance k x - (if x = f then 1 else 0) - (if x = g then 1 else 0)" and "fds_ok k2 = fds_ok k"
proof -
  have r1: "ref_change f (-1) k k1" by (rule fileclose_ref [OF assms(1,3)])
  then have r2: "ref_change g (-1) k1 k2" using fileclose_ref [OF assms(2)] assms(4) by (simp add: ref_change_def)
  show "balance k2 x = balance k x - (if x = f then 1 else 0) - (if x = g then 1 else 0)" "fds_ok k2 = fds_ok k"
    using ref_change_balance(1,2) [OF r1] ref_change_balance(1,2) [OF r2] by simp_all
qed

lemma sys_pipe_ok:
  assumes "sys_pipe ev k = Inr (r, k')" and ok: "files_ok k" and c: "runs c k"
  shows "files_ok k'"
  using assms(1) unfolding sys_pipe_def
proof (cases rule: with_arg_cases)
  case (2 p)
  obtain q k1 where k1: "on_sys_val (pipealloc (ev_kend ev)) k = Inr (q, k1)"
    using 2(2) runs_myproc [OF c] by (auto simp: res_simps)
  note al = pipealloc_ref [OF k1]
  show ?thesis
  proof (cases q)
    case None
    then show ?thesis using 2(2) k1 runs_myproc [OF c] al ref_sum_files_ok [OF _ _ ok] by (auto simp: res_simps)
  next
    case (Some fw)
    obtain rf w where fw: "fw = (rf, w)" by (cases fw)
    have rs: "ref_sum (\<lambda>g. (if g = rf then 1 else 0) + (if g = w then 1 else 0)) k k1"
      and len: "rf < length (sy_ftable (k_sys k1))" "w < length (sy_ftable (k_sys k1))"
      using al Some fw by (auto simp: ref_sum_def)
    have b1: "balance k1 g = (if g = rf then 1 else 0) + (if g = w then 1 else 0)" "fds_ok k1" for g
      using ref_sum_balance [OF rs] ok by (auto simp: files_ok_def)
    have c1: "runs c k1" by (rule ref_sum_runs [OF rs c])
    obtain fd0 k2 where k2: "fdalloc rf k1 = Inr (fd0, k2)"
      using 2(2) k1 Some fw runs_myproc [OF c] by (auto simp: res_simps)
    note fa0 = fdalloc_set [OF k2 c1 b1(2)]
    show ?thesis
    proof (cases fd0)
      case None
      then obtain k3 where "on_sys (fileclose (ev_kend ev) rf) k1 = Inr k3" "on_sys (fileclose (ev_kend ev) w) k3 = Inr k'"
        using 2(2) k1 k2 Some fw runs_myproc [OF c] fa0(1) by (auto simp: res_simps pipe_fail_def)
      from close_two [OF this len] show ?thesis using b1 by (auto simp: files_ok_def)
    next
      case S0: (Some d0)
      note fa0 = fa0(2) [OF S0]
      obtain fd1 k3 where k3: "fdalloc w k2 = Inr (fd1, k3)"
        using 2(2) k1 k2 Some fw S0 runs_myproc [OF c] by (auto simp: res_simps)
      have c2: "runs c k2" "fds_ok k2" using fa0 by auto
      note fa1 = fdalloc_set [OF k3 c2]
      show ?thesis
      proof (cases fd1)
        case None
        let ?k = "set_fd c d0 None k2"
        from None obtain k4 where cl: "on_sys (fileclose (ev_kend ev) rf) ?k = Inr k4"
            "on_sys (fileclose (ev_kend ev) w) k4 = Inr k'"
          using 2(2) k1 k2 k3 Some fw S0 runs_myproc [OF c] fa1(1) by (auto simp: res_simps pipe_fail_def)
        have cl2: "c < length (k_procs k2)" using c2 by (simp add: runs_def)
        have d0: "d0 < NOFILE" "p_ofile (proc_at c k2) ! d0 = Some rf" using fa0 by auto
        note cf = clear_fd [OF c2(2) cl2 d0]
        have len2: "sy_ftable (k_sys ?k) = sy_ftable (k_sys k1)" using fa0 by auto
        from close_two [OF cl] len len2 cf fa0 b1 show ?thesis by (auto simp: files_ok_def)
      next
        case (Some d1)
        note fa1 = fa1(2) [OF Some]
        have "fkey k' = fkey k3"
          using 2(2) k1 k2 k3 \<open>q = Some fw\<close> fw S0 Some runs_myproc [OF c] by (auto simp: res_simps dest!: key_rules)
        moreover have "files_ok k3" using fa1 fa0 b1 by (auto simp: files_ok_def)
        ultimately show ?thesis by (rule files_ok_key)
      qed
    qed
  qed
qed (use ok in simp)

section \<open>Fork and exit\<close>

lemma filedup_in_table: "files_ok k \<Longrightarrow> fd < NOFILE \<Longrightarrow> c < length (k_procs k) \<Longrightarrow>
    p_ofile (proc_at c k) ! fd = Some f \<Longrightarrow> on_sys (filedup f) k = Inr k' \<Longrightarrow> ref_change f 1 k k'"
  using filedup_ref open_file_in_table by blast

lemma dup_files_ok:
  assumes "dup_files c np fds k = Inr k'" and "files_ok k" and "distinct fds" and "\<forall>fd \<in> set fds. fd < NOFILE"
    and "c < length (k_procs k)" "np < length (k_procs k)" "c \<noteq> np" "\<not> dead (proc_at np k)"
    and "\<forall>fd \<in> set fds. p_ofile (proc_at np k) ! fd = None"
  shows "files_ok k'"
  using assms
proof (induction fds arbitrary: k)
  case (Cons fd fds)
  show ?case
  proof (cases "p_ofile (proc_at c k) ! fd")
    case None
    with Cons.prems show ?thesis by (intro Cons.IH [of k]) auto
  next
    case (Some f)
    then obtain k1 where k1: "on_sys (filedup f) k = Inr k1" and rest: "dup_files c np fds (set_fd np fd (Some f) k1) = Inr k'"
      using Cons.prems(1) by (auto simp: res_simps)
    have rc: "ref_change f 1 k k1" by (rule filedup_in_table [OF Cons.prems(2) _ _ Some k1]) (use Cons.prems in auto)
    note b = ref_change_balance [OF rc]
    let ?k = "set_fd np fd (Some f) k1"
    have np: "np < length (k_procs k1)" and fds1: "fds_ok k1" using Cons.prems b by (auto simp: files_ok_def)
    have len: "length (p_ofile (proc_at np k1)) = NOFILE" by (rule fd_in_range [OF fds1 np])
    have "balance ?k g = 0" for g
      using balance_set [OF np, of fd "Some f" g] b Cons.prems len by (auto simp: files_ok_def)
    moreover have "fds_ok ?k" by (rule fds_ok_set [OF fds1 np]) (use Cons.prems b in auto)
    ultimately have "files_ok ?k" by (simp add: files_ok_def)
    then show ?thesis
      by (rule Cons.IH [OF rest])
        (use Cons.prems b len np in \<open>auto simp: proc_at_upd dead_def nth_list_update\<close>)
  qed
qed simp

lemma close_files_ok:
  assumes "close_files ev c fds k = Inr k'" and "files_ok k" and "\<forall>fd \<in> set fds. fd < NOFILE" and "runs c k"
  shows "files_ok k' \<and> runs c k' \<and>
    (\<forall>fd < NOFILE. p_ofile (proc_at c k') ! fd = (if fd \<in> set fds then None else p_ofile (proc_at c k) ! fd))"
  using assms
proof (induction fds arbitrary: k)
  case (Cons fd fds)
  show ?case
  proof (cases "p_ofile (proc_at c k) ! fd")
    case None
    with Cons.prems have "files_ok k' \<and> runs c k' \<and>
      (\<forall>fd < NOFILE. p_ofile (proc_at c k') ! fd = (if fd \<in> set fds then None else p_ofile (proc_at c k) ! fd))"
      by (intro Cons.IH) auto
    with None show ?thesis by auto
  next
    case (Some f)
    then obtain k1 where k1: "on_sys (fileclose (ev_kend ev) f) k = Inr k1"
      and rest: "close_files ev c fds (set_fd c fd None k1) = Inr k'"
      using Cons.prems(1) by (auto simp: res_simps)
    have cl: "c < length (k_procs k)" using Cons.prems(4) by (simp add: runs_def)
    have f: "f < length (sy_ftable (k_sys k))"
      by (rule open_file_in_table [OF Cons.prems(2) cl _ Some]) (use Cons.prems(3) in simp)
    have rc: "ref_change f (-1) k k1" by (rule fileclose_ref [OF k1 f])
    note b = ref_change_balance [OF rc]
    let ?k = "set_fd c fd None k1"
    have cl1: "c < length (k_procs k1)" and fds1: "fds_ok k1" using cl b Cons.prems(2) by (auto simp: files_ok_def)
    have fd: "fd < NOFILE" "p_ofile (proc_at c k1) ! fd = Some f" using Cons.prems(3) Some b by auto
    note cf = clear_fd [OF fds1 cl1 fd]
    have "files_ok ?k" using cf b Cons.prems(2) by (auto simp: files_ok_def)
    moreover have "runs c ?k" using runs_ref [OF rc Cons.prems(4)] by (auto simp: runs_def proc_at_upd dead_def)
    ultimately have "files_ok k' \<and> runs c k' \<and>
      (\<forall>fd < NOFILE. p_ofile (proc_at c k') ! fd = (if fd \<in> set fds then None else p_ofile (proc_at c ?k) ! fd))"
      using Cons.prems(3) by (intro Cons.IH [OF rest]) auto
    then show ?thesis using cl1 b fd_in_range [OF fds1 cl1] by (auto simp: proc_at_upd nth_list_update)
  qed
qed simp


text \<open>A change of a slot's state keeps the counts; a slot that dies must have no descriptors.\<close>

lemma state_change:
  assumes "\<And>p. p_ofile (g p) = p_ofile p" and "files_ok k"
    and "i < length (k_procs k) \<Longrightarrow> dead (g (proc_at i k)) \<Longrightarrow> p_ofile (proc_at i k) = replicate NOFILE None"
  shows "files_ok (upd_proc i g k)"
proof (cases "i < length (k_procs k)")
  case True
  have o: "map p_ofile (k_procs (upd_proc i g k)) = map p_ofile (k_procs k)"
    using True assms(1) by (simp add: upd_proc_def map_update list_update_same_conv)
  have c: "fd_count k f = sum_list (map (\<lambda>x. count_list x (Some f)) (map p_ofile (k_procs k)))" for k f
    by (simp add: fd_count_def comp_def)
  have "balance (upd_proc i g k) f = balance k f" for f
    by (simp add: balance_def c o file_ref_def del: map_map)
  moreover have "fds_ok (upd_proc i g k)"
    using assms True by (auto simp: fds_ok_def files_ok_def upd_proc_def dest!: set_update_subset_insert [THEN subsetD])
  ultimately show ?thesis using assms(2) by (simp add: files_ok_def)
qed (use assms(2) in \<open>simp add: upd_proc_def list_update_beyond\<close>)

lemma sched_key: "sched k = Inr k' \<Longrightarrow> fkey k' = fkey k"
  by (auto simp: sched_def res_simps key_simps split: if_splits)

lemma sleep_ok:
  assumes "sleep ch k = Inr k'" and "files_ok k" and "runs c k"
  shows "files_ok k'"
proof -
  have "sched (upd_proc c (\<lambda>p. p\<lparr>p_chan := ch, p_state := SLEEPING\<rparr>) k) = Inr k'"
    using assms(1,3) by (simp add: sleep_def runs_def)
  from sched_key [OF this] show ?thesis
    by (rule files_ok_key) (rule state_change, use assms(2) in \<open>simp_all add: dead_def\<close>)
qed

lemma yield_ok:
  assumes "yield k = Inr k'" and "files_ok k" and "runs c k"
  shows "files_ok k'"
proof -
  have "sched (upd_proc c (\<lambda>p. p\<lparr>p_state := RUNNABLE\<rparr>) k) = Inr k'"
    using assms(1) runs_myproc [OF assms(3)] by (simp add: yield_def)
  from sched_key [OF this] show ?thesis
    by (rule files_ok_key) (rule state_change, use assms(2) in \<open>simp_all add: dead_def\<close>)
qed

lemma exit_ok:
  assumes "exit ev k = Inr k'" and ok: "files_ok k" and c: "runs c k"
  shows "files_ok k'"
proof -
  obtain k1 k2 k3 k4 where k1: "close_files ev c [0..<NOFILE] k = Inr k1" and k2: "on_sys begin_tx k1 = Inr k2"
    and k3: "(case p_cwd (proc_at c k2) of None \<Rightarrow> Inl Fault | Some ip \<Rightarrow> on_sys (on_fs (iput ip)) k2) = Inr k3"
    and k4: "on_sys end_tx k3 = Inr k4"
    and rest: "sched (upd_proc c (\<lambda>p. p\<lparr>p_state := ZOMBIE\<rparr>) (fold (abandon c) [0..<length (k_procs k4)]
        (wakeup1 (proc_chan (p_parent (proc_at c (upd_proc c (\<lambda>p. p\<lparr>p_cwd := None\<rparr>) k4))))
          (upd_proc c (\<lambda>p. p\<lparr>p_cwd := None\<rparr>) k4)))) = Inr k'"
    using assms(1) runs_myproc [OF c] by (auto simp: exit_def res_simps Let_def split: if_splits)
  let ?a = "fold (abandon c) [0..<length (k_procs k4)]
        (wakeup1 (proc_chan (p_parent (proc_at c (upd_proc c (\<lambda>p. p\<lparr>p_cwd := None\<rparr>) k4))))
          (upd_proc c (\<lambda>p. p\<lparr>p_cwd := None\<rparr>) k4))"
  have cf: "files_ok k1" "runs c k1" "\<forall>fd < NOFILE. p_ofile (proc_at c k1) ! fd = None"
    using close_files_ok [OF k1 ok _ c] by auto
  have ab: "fkey (abandon c i k) = fkey k" for i k by (simp add: abandon_def Let_def key_simps)
  have "fkey (fold (abandon c) is k) = fkey k" for "is" k by (induction "is" arbitrary: k) (simp_all add: ab)
  moreover have "fkey k3 = fkey k2 \<and> k_cpu k3 = k_cpu k2" using k3 by (auto split: option.splits dest!: key_rules)
  ultimately have key: "fkey ?a = fkey k1" using key_tx(1) [OF k2] key_tx(2) [OF k4] by (simp add: key_simps)
  have cl: "c < length (k_procs k1)" "length (p_ofile (proc_at c k1)) = NOFILE"
    using cf fd_in_range by (auto simp: files_ok_def runs_def)
  then have "p_ofile (proc_at c k1) = replicate NOFILE None" using cf(3) by (intro nth_equalityI) simp_all
  moreover have "p_ofile (proc_at c ?a) = p_ofile (proc_at c k1)" by (rule key_ofile [OF key cl(1)])
  ultimately have "files_ok (upd_proc c (\<lambda>p. p\<lparr>p_state := ZOMBIE\<rparr>) ?a)"
    using files_ok_key [OF key cf(1)] by (intro state_change) simp_all
  then show ?thesis by (rule files_ok_key [OF sched_key [OF rest]])
qed


lemma allocproc_ok:
  assumes "allocproc ev k = Inr (r, k')" and ok: "files_ok k" and c: "runs c k"
  shows "files_ok k' \<and> runs c k'"
    and "r = Some np \<Longrightarrow> np < length (k_procs k') \<and> np \<noteq> c \<and> \<not> dead (proc_at np k') \<and>
      p_ofile (proc_at np k') = replicate NOFILE None"
proof -
  let ?P = "\<lambda>i. p_state (proc_at i k) = UNUSED"
  have goal: "files_ok k' \<and> runs c k' \<and> (\<forall>np. r = Some np \<longrightarrow> np < length (k_procs k') \<and> np \<noteq> c \<and>
      \<not> dead (proc_at np k') \<and> p_ofile (proc_at np k') = replicate NOFILE None)"
  proof (cases "find ?P [0..<length (k_procs k)]")
    case None
    then show ?thesis using assms by (auto simp: allocproc_def)
  next
    case (Some i)
    have i: "i < length (k_procs k)" "?P i" using find_slot [OF Some] by auto
    have none: "p_ofile (proc_at i k) = replicate NOFILE None"
      using ok i by (auto simp: files_ok_def fds_ok_def dead_def)
    have ci: "i \<noteq> c" using c i by (auto simp: runs_def dead_def)
    obtain kstack m where m: "kalloc (sy_kmem (k_sys k)) = (kstack, m)" by force
    let ?g = "\<lambda>p. p\<lparr>p_state := EMBRYO, p_pid := k_nextpid k\<rparr>"
    let ?k = "upd_proc i (\<lambda>p. p\<lparr>p_kstack := kstack\<rparr>)
      ((upd_proc i ?g k)\<lparr>k_nextpid := k_nextpid k + 1, k_sys := (k_sys k)\<lparr>sy_kmem := m\<rparr>\<rparr>)"
    have key: "fkey ?k = fkey (upd_proc i ?g k)" by (simp add: key_simps) (simp add: fkey_def)
    have "files_ok (upd_proc i ?g k)" by (rule state_change) (use ok in \<open>simp_all add: dead_def\<close>)
    then have ok1: "files_ok ?k" by (rule files_ok_key [OF key])
    have c1: "runs c ?k" using c ci by (simp add: runs_def upd_proc_def)
    have np: "i < length (k_procs ?k)" "\<not> dead (proc_at i ?k)" "p_ofile (proc_at i ?k) = replicate NOFILE None"
      using i none by (simp_all add: upd_proc_def dead_def)
    show ?thesis
    proof (cases "kstack = 0")
      case True
      then have "k' = upd_proc i (\<lambda>p. p\<lparr>p_state := UNUSED\<rparr>) ?k" "r = None"
        using assms(1) Some m by (auto simp: allocproc_def Let_def split: if_splits)
      moreover have "files_ok (upd_proc i (\<lambda>p. p\<lparr>p_state := UNUSED\<rparr>) ?k)"
        by (rule state_change) (use ok1 np in simp_all)
      moreover have "runs c (upd_proc i (\<lambda>p. p\<lparr>p_state := UNUSED\<rparr>) ?k)" using c1 ci by (simp add: runs_def upd_proc_def)
      ultimately show ?thesis by simp
    next
      case False
      let ?k2 = "upd_proc i (\<lambda>p. p\<lparr>p_tf := stack_tf kstack, p_context := stack_context kstack\<rparr>) ?k"
      have k': "k' = upd_mem (setup_stack ev kstack) ?k2" "r = Some i"
        using assms(1) Some m False by (auto simp: allocproc_def Let_def split: if_splits)
      have "fkey k' = fkey ?k" by (simp add: k' key_simps)
      moreover have "runs c k'" "\<not> dead (proc_at i k')" "i < length (k_procs k')"
          "p_ofile (proc_at i k') = replicate NOFILE None"
        using c1 ci np by (simp_all add: k' runs_def upd_proc_def dead_def upd_mem_def)
      ultimately show ?thesis using files_ok_key ok1 k'(2) ci by blast
    qed
  qed
  then show "files_ok k' \<and> runs c k'"
    "r = Some np \<Longrightarrow> np < length (k_procs k') \<and> np \<noteq> c \<and> \<not> dead (proc_at np k') \<and>
      p_ofile (proc_at np k') = replicate NOFILE None" by blast+
qed

lemma key_dead:
  assumes "fkey k' = fkey k" and "c < length (k_procs k)"
  shows "dead (proc_at c k') = dead (proc_at c k)" and "length (k_procs k') = length (k_procs k)"
proof -
  let ?h = "\<lambda>p. (p_ofile p, dead p)"
  have e: "map ?h (k_procs k') = map ?h (k_procs k)" using assms(1) by (simp add: fkey_def)
  then show len: "length (k_procs k') = length (k_procs k)" by (rule map_eq_imp_length_eq)
  with assms(2) have "?h (proc_at c k') = ?h (proc_at c k)" using arg_cong [OF e, of "\<lambda>l. l ! c"] by simp
  then show "dead (proc_at c k') = dead (proc_at c k)" by simp
qed

lemma key_dup_cwd: "dup_cwd c np k = Inr k' \<Longrightarrow> fkey k' = fkey k"
  by (auto simp: dup_cwd_def res_simps key_simps split: option.splits dest!: key_rules)

lemma fork_ok:
  assumes "fork ev k = Inr (r, k')" and ok: "files_ok k" and c: "runs c k"
  shows "files_ok k'"
proof -
  obtain np k1 where k1: "allocproc ev k = Inr (np, k1)"
    using assms(1) runs_myproc [OF c] by (auto simp: fork_def res_simps)
  note al = allocproc_ok [OF k1 ok c]
  show ?thesis
  proof (cases np)
    case None
    then show ?thesis using assms(1) k1 al runs_myproc [OF c] by (auto simp: fork_def res_simps)
  next
    case (Some i)
    note n1 = al(2) [OF Some]
    obtain pgdir k2 where k2: "on_sys_val (on_kmem_val (copyuvm_work (ev_kend ev) (ev_kdata ev)
          (p_pgdir (proc_at c k1)) (unat (p_sz (proc_at c k1))))) k1 = Inr (pgdir, k2)"
      using assms(1) k1 Some runs_myproc [OF c] by (auto simp: fork_def res_simps)
    let ?k = "upd_proc i (\<lambda>p. p\<lparr>p_pgdir := pgdir\<rparr>) k2"
    have key: "fkey ?k = fkey k1" "k_cpu ?k = k_cpu k1" using key_kmem_val [OF k2] by (simp_all add: key_simps)
    have ok2: "files_ok ?k" using files_ok_key [OF key(1)] al by blast
    show ?thesis
    proof (cases "pgdir = 0")
      case True
      then obtain k3 where k3: "on_sys (on_kmem (kfree (ev_kend ev) (p_kstack (proc_at i ?k)))) ?k = Inr k3"
        and k': "k' = upd_proc i (\<lambda>p. p\<lparr>p_kstack := 0, p_state := UNUSED\<rparr>) k3"
        using assms(1) k1 k2 Some runs_myproc [OF c] by (auto simp: fork_def res_simps Let_def)
      have key3: "fkey k3 = fkey k1" using key_kmem [OF k3] key by simp
      have "p_ofile (proc_at i k3) = replicate NOFILE None" using key_ofile [OF key3, of i] n1 by simp
      then show ?thesis unfolding k' by (intro state_change) (use files_ok_key [OF key3] al in simp_all)
    next
      case False
      define cp where "cp = proc_at c ?k"
      define k3 where "k3 = upd_proc i (\<lambda>p. p\<lparr>p_sz := p_sz cp, p_parent := Some c, p_tickets := p_tickets cp,
                                      p_times_scheduled := 0\<rparr>) ?k"
      define k4 where "k4 = upd_mem (\<lambda>m. store32 (p_tf (proc_at i k3) + TF_EAX) 0
          (copy_bytes (p_tf (proc_at i k3)) (p_tf cp) TF_SIZE m)) k3"
      obtain k5 k6 k7 where k5: "dup_files c i [0..<NOFILE] k4 = Inr k5" and k6: "dup_cwd c i k5 = Inr k6"
        and k7: "set_name (p_name (proc_at c k6)) i k6 = Inr k7"
        and k': "k' = upd_proc i (\<lambda>p. p\<lparr>p_state := RUNNABLE\<rparr>) k7"
        using assms(1) k1 k2 Some False runs_myproc [OF c]
        by (auto simp: fork_def res_simps Let_def cp_def [symmetric] k3_def [symmetric] k4_def [symmetric])
      have key4: "fkey k4 = fkey k1" using key by (simp add: k4_def k3_def key_simps)
      have cl: "c < length (k_procs k1)" "c < length (k_procs k4)" "i < length (k_procs k4)"
        using al(1) n1 key_dead(2) [OF key4] by (auto simp: runs_def)
      have "files_ok k5"
        by (rule dup_files_ok [OF k5]) (use cl n1 al files_ok_key [OF key4] key_dead(1) [OF key4, of i] key_ofile [OF key4, of i] in auto)
      then have "files_ok k7" using files_ok_key key_dup_cwd [OF k6] key_set_name [OF k7] by metis
      then show ?thesis unfolding k' by (intro state_change) (simp_all add: dead_def)
    qed
  qed
qed

lemma wait_ok':
  assumes "wait ev k = Inr (r, k')" and ok: "files_ok k" and c: "runs c k"
  shows "files_ok k'"
proof (cases "find (\<lambda>i. p_parent (proc_at i k) = Some c \<and> p_state (proc_at i k) = ZOMBIE) [0..<length (k_procs k)]")
  case None
  then show ?thesis using assms runs_myproc [OF c]
    by (auto simp: wait_def res_simps Let_def split: if_splits dest: sleep_ok)
next
  case (Some i)
  have i: "i < length (k_procs k)" "p_state (proc_at i k) = ZOMBIE" using find_slot [OF Some] by auto
  have none: "p_ofile (proc_at i k) = replicate NOFILE None"
    using ok i by (auto simp: files_ok_def fds_ok_def dead_def)
  have "reap ev i k = Inr k'" using assms Some runs_myproc [OF c] by (auto simp: wait_def res_simps)
  then obtain k1 k2 where k1: "on_sys (on_kmem (kfree (ev_kend ev) (p_kstack (proc_at i k)))) k = Inr k1"
    and k2: "on_sys (on_kmem (freevm (ev_kend ev) (p_pgdir (proc_at i (upd_proc i (\<lambda>p. p\<lparr>p_kstack := 0\<rparr>) k1)))))
        (upd_proc i (\<lambda>p. p\<lparr>p_kstack := 0\<rparr>) k1) = Inr k2"
    and k': "k' = upd_proc i (\<lambda>p. p\<lparr>p_pid := 0, p_parent := None, p_name := (p_name p)[0 := 0],
                              p_killed := False, p_state := UNUSED\<rparr>) k2"
    by (auto simp: reap_def res_simps Let_def)
  have key: "fkey k2 = fkey k" using key_kmem [OF k1] key_kmem [OF k2] by (simp add: key_simps)
  show ?thesis unfolding k'
    by (rule state_change) (use files_ok_key [OF key ok] key_ofile [OF key i(1)] none in simp_all)
qed


section \<open>The other system calls\<close>

lemma key_file_sys:
  assumes "map f_ref (sy_ftable s) = map f_ref (sy_ftable (k_sys k))"
  shows "fkey (k\<lparr>k_sys := s\<rparr>) = fkey k"
  using assms by (simp add: fkey_def)

lemma on_fs_table: "on_fs g s = Inr s' \<Longrightarrow> sy_ftable s' = sy_ftable s"
  "on_fs_val g' s = Inr (x, s') \<Longrightarrow> sy_ftable s' = sy_ftable s"
  by (auto simp: on_fs_def on_fs_val_def res_simps)

lemma tx_table: "begin_tx s = Inr s' \<Longrightarrow> sy_ftable s' = sy_ftable s" "end_tx s = Inr s' \<Longrightarrow> sy_ftable s' = sy_ftable s"
  unfolding begin_tx_def end_tx_def by (rule on_fs_table, assumption)+

lemma fileread_refs: "fileread dv kl f n s = Inr (r, s') \<Longrightarrow> map f_ref (sy_ftable s') = map f_ref (sy_ftable s)"
  by (auto simp: fileread_def Let_def res_simps upd_file_refs split: if_splits ftype.splits prod.splits
      read_result.splits dest!: on_fs_table)

lemma filewrite_loop_refs:
  "filewrite_loop dv f src s = Inr (r, s') \<Longrightarrow> map f_ref (sy_ftable s') = map f_ref (sy_ftable s)"
proof (induction dv f src s rule: filewrite_loop.induct)
  case (1 dv f src s)
  show ?case
  proof (cases "src = []")
    case True
    with "1.prems" show ?thesis by (simp add: filewrite_loop.simps)
  next
    case False
    let ?n = "min (length src) MAXWRITE"
    obtain s1 s2 w s3 s4 s5 where s1: "begin_tx s = Inr s1" and s2: "on_fs (ilock (f_ip (file_at f s1))) s1 = Inr s2"
      and s3: "on_fs_val (writei dv (f_ip (file_at f s1)) (take ?n src) (f_off (file_at f s2))) s2 = Inr (w, s3)"
      and s4: "on_fs (iunlock (f_ip (file_at f s1)))
          (if w > 0 then upd_file f (\<lambda>x. x\<lparr>f_off := f_off x + word_of_int w\<rparr>) s3 else s3) = Inr s4"
      and s5: "end_tx s4 = Inr s5"
      and rest: "(if w < 0 then Inr (False, s5) else if w \<noteq> int ?n then Inl (Panic ''short filewrite'')
          else filewrite_loop dv f (drop ?n src) s5) = Inr (r, s')"
      using "1.prems" False by (subst (asm) filewrite_loop.simps) (auto simp: res_simps Let_def)
    have t: "map f_ref (sy_ftable s5) = map f_ref (sy_ftable s)"
      using tx_table(2) [OF s5] on_fs_table(1) [OF s4] on_fs_table(2) [OF s3] on_fs_table(1) [OF s2] tx_table(1) [OF s1]
      by (auto simp: upd_file_refs split: if_splits)
    have "filewrite_loop dv f (drop ?n src) s5 = Inr (r, s') \<Longrightarrow> map f_ref (sy_ftable s') = map f_ref (sy_ftable s5)"
      if "\<not> w < 0" "w = int ?n"
      using "1.IH" [OF False refl s1 refl s2 s3 _ refl s4 s5] that by simp
    with rest t show ?thesis by (auto split: if_splits)
  qed
qed


lemma filewrite_refs: "filewrite dv kl f src s = Inr (r, s') \<Longrightarrow> map f_ref (sy_ftable s') = map f_ref (sy_ftable s)"
  by (auto simp: filewrite_def Let_def res_simps split: if_splits ftype.splits prod.splits write_result.splits
      dest: filewrite_loop_refs)

lemma key_file_io [key_rules]:
  "on_sys_val (fileread dv kl f n) k = Inr (r, k') \<Longrightarrow> fkey k' = fkey k \<and> k_cpu k' = k_cpu k"
  "on_sys_val (filewrite dv kl f src) k = Inr (w, k') \<Longrightarrow> fkey k' = fkey k \<and> k_cpu k' = k_cpu k"
  "on_sys_val (filestat f) k = Inr (st, k') \<Longrightarrow> fkey k' = fkey k \<and> k_cpu k' = k_cpu k"
  by (auto simp: on_sys_val_def res_simps filestat_def Let_def key_file_sys split: if_splits
      dest!: fileread_refs filewrite_refs on_fs_table)

lemma sleep_after:
  "sleep ch k1 = Inr k' \<Longrightarrow> fkey k1 = fkey k \<and> k_cpu k1 = k_cpu k \<Longrightarrow> files_ok k \<Longrightarrow> runs c k \<Longrightarrow> files_ok k'"
  using sleep_ok files_ok_key runs_key by metis

lemma cpu_wakeup [simp]: "k_cpu (wakeup ch k) = k_cpu k"
  by (simp add: wakeup_def wakeup1_def)

lemma sys_read_ok:
  assumes "sys_read ev k = Inr (r, k')" and ok: "files_ok k" and c: "runs c k"
  shows "files_ok k'"
proof (rule ccontr)
  assume no: "\<not> files_ok k'"
  then have "k' \<noteq> k" using ok by blast
  then obtain f kl n p w k1 where k1: "on_sys_val (fileread (ev_devsw ev) kl f n) k = Inr (w, k1)"
    and rest: "(case w of
        Read_done v bs \<Rightarrow>
          bindR (user_put p bs k1) (\<lambda>k1.
            Inr (Ret v, if f_type (file_at f (k_sys k)) = FD_PIPE \<and> v \<ge> 0
              then wakeup (pipe_nwrite_chan (f_pipe (file_at f (k_sys k)))) k1 else k1))
      | Read_waits \<Rightarrow> bindR (sleep (pipe_nread_chan (f_pipe (file_at f (k_sys k)))) k1) (\<lambda>k. Inr (Waits, k))) = Inr (r, k')"
    using assms(1) unfolding sys_read_def Let_def
    by (auto simp: with_arg_def res_simps split: option.splits prod.splits if_splits)
  note key = key_file_io(1) [OF k1]
  have "files_ok k'"
  proof (cases w)
    case (Read_done v bs)
    have "fkey k' = fkey k" using rest key Read_done by (auto simp: key_simps res_simps dest!: key_user_put)
    then show ?thesis by (rule files_ok_key [OF _ ok])
  next
    case Read_waits
    then have "sleep (pipe_nread_chan (f_pipe (file_at f (k_sys k)))) k1 = Inr k'" using rest by (auto simp: res_simps)
    from sleep_after [OF this key ok c] show ?thesis .
  qed
  with no show False ..
qed

lemma sys_write_ok:
  assumes "sys_write ev k = Inr (r, k')" and ok: "files_ok k" and c: "runs c k"
  shows "files_ok k'"
proof -
  let ?k = "k\<lparr>k_writecount := k_writecount k + 1\<rparr>"
  have ok1: "files_ok ?k" by (rule files_ok_key [OF _ ok]) (simp add: key_simps)
  have c1: "runs c ?k" using c by (simp add: runs_def)
  show ?thesis
  proof (rule ccontr)
    assume no: "\<not> files_ok k'"
    then have "k' \<noteq> ?k" using ok1 by blast
    then obtain f kl src w k1 where k1: "on_sys_val (filewrite (ev_devsw ev) kl f src) ?k = Inr (w, k1)"
      and rest: "(case w of
            Write_done v \<Rightarrow>
              Inr (Ret v, if f_type (file_at f (k_sys ?k)) = FD_PIPE \<and> v \<ge> 0
                then wakeup (pipe_nread_chan (f_pipe (file_at f (k_sys ?k)))) k1 else k1)
          | Write_waits _ \<Rightarrow>
              bindR (sleep (pipe_nwrite_chan (f_pipe (file_at f (k_sys ?k))))
                (wakeup (pipe_nread_chan (f_pipe (file_at f (k_sys ?k)))) k1)) (\<lambda>k. Inr (Waits, k))) = Inr (r, k')"
      using assms(1) unfolding sys_write_def Let_def
      by (auto simp: with_arg_def res_simps split: option.splits prod.splits if_splits)
    note key = key_file_io(2) [OF k1]
    have "files_ok k'"
    proof (cases w)
      case (Write_done v)
      have "fkey k' = fkey ?k" using rest key Write_done by (auto simp: key_simps)
      then show ?thesis by (rule files_ok_key [OF _ ok1])
    next
      case (Write_waits x)
      then have "sleep (pipe_nwrite_chan (f_pipe (file_at f (k_sys ?k))))
          (wakeup (pipe_nread_chan (f_pipe (file_at f (k_sys ?k)))) k1) = Inr k'"
        using rest by (auto simp: res_simps)
      from sleep_after [OF this _ ok1 c1] key show ?thesis by (simp add: key_wakeup)
    qed
    with no show False ..
  qed
qed

lemma put_stat_key [key_rules]: "put_stat p s k = Inr k' \<Longrightarrow> fkey k' = fkey k \<and> k_cpu k' = k_cpu k"
  by (auto simp: put_stat_def res_simps dest!: key_user_put)

lemma link_bad_key [key_rules]: "link_bad ip k = Inr (r, k') \<Longrightarrow> fkey k' = fkey k \<and> k_cpu k' = k_cpu k"
  "unlink_bad ip k = Inr (r, k') \<Longrightarrow> fkey k' = fkey k \<and> k_cpu k' = k_cpu k"
  by (auto simp: link_bad_def unlink_bad_def res_simps dest!: key_rules)

lemma sys_fstat_key: "sys_fstat ev k = Inr (r, k') \<Longrightarrow> fkey k' = fkey k"
  by (auto simp: sys_fstat_def with_arg_def res_simps split: option.splits prod.splits dest!: key_rules)

lemma sys_link_key: "sys_link ev k = Inr (r, k') \<Longrightarrow> fkey k' = fkey k"
  by (auto simp: sys_link_def with_arg_def res_simps split: option.splits prod.splits if_splits dest!: key_rules)

lemma sys_unlink_key: "sys_unlink ev k = Inr (r, k') \<Longrightarrow> fkey k' = fkey k"
  by (auto simp: sys_unlink_def with_arg_def res_simps split: option.splits prod.splits if_splits dest!: key_rules)

lemma sys_mkdir_key: "sys_mkdir ev k = Inr (r, k') \<Longrightarrow> fkey k' = fkey k"
  by (auto simp: sys_mkdir_def with_arg_tx_def res_simps split: option.splits dest!: key_rules create_key created_key)

lemma sys_mknod_key: "sys_mknod ev k = Inr (r, k') \<Longrightarrow> fkey k' = fkey k"
  by (auto simp: sys_mknod_def with_arg_tx_def res_simps split: option.splits dest!: key_rules create_key created_key)

lemma sys_chdir_key: "sys_chdir ev k = Inr (r, k') \<Longrightarrow> fkey k' = fkey k"
  by (auto simp: sys_chdir_def with_arg_tx_def res_simps key_simps split: option.splits if_splits dest!: key_rules)


lemma load_key [key_rules]:
  "read_file ev ip off n k = Inr (r, bs, k') \<Longrightarrow> fkey k' = fkey k \<and> k_cpu k' = k_cpu k"
  "load_segment ev ip pgdir ph k = Inr (r', k') \<Longrightarrow> fkey k' = fkey k \<and> k_cpu k' = k_cpu k"
  by (auto simp: read_file_def load_segment_def Let_def res_simps key_simps)

lemma exec_load_key [key_rules]:
  "exec_load ev ip pgdir n off sz k = Inr (r, k') \<Longrightarrow> fkey k' = fkey k \<and> k_cpu k' = k_cpu k"
proof (induction n arbitrary: off sz k)
  case (Suc n)
  then show ?case
    by (auto simp: res_simps Let_def split: if_splits dest!: Suc.IH key_rules)
qed simp

lemma exec_bad_key [key_rules]: "exec_bad ev pgdir ip k = Inr (r, k') \<Longrightarrow> fkey k' = fkey k \<and> k_cpu k' = k_cpu k"
  by (auto simp: exec_bad_def res_simps split: if_splits option.splits dest!: key_rules)

lemma exec_commit_key [key_rules]: "exec_commit ev c path pgdir sz en sp k = Inr (r, k') \<Longrightarrow> fkey k' = fkey k"
  by (auto simp: exec_commit_def res_simps Let_def key_simps dest!: switchuvm_same key_set_name key_kmem)

lemma exec_stack_key [key_rules]: "exec_stack ev c path argv pgdir sz en k = Inr (r, k') \<Longrightarrow> fkey k' = fkey k"
  by (auto simp: exec_stack_def res_simps Let_def split: if_splits option.splits dest!: key_rules)

lemma exec_key: "exec ev path argv k = Inr (r, k') \<Longrightarrow> fkey k' = fkey k"
  by (auto simp: exec_def res_simps Let_def split: if_splits option.splits dest!: key_rules)

lemma sys_exec_key: "sys_exec ev k = Inr (r, k') \<Longrightarrow> fkey k' = fkey k"
  by (auto simp: sys_exec_def with_arg_def res_simps split: option.splits dest!: exec_key)

lemma growproc_key [key_rules]: "growproc ev n k = Inr (r, k') \<Longrightarrow> fkey k' = fkey k"
  by (auto simp: growproc_def res_simps Let_def key_simps split: if_splits dest!: key_kmem_val switchuvm_same)

lemma kill_key [key_rules]: "kill pid k = (r, k') \<Longrightarrow> fkey k' = fkey k"
  by (auto simp: kill_def key_simps split: option.splits)

lemma kill_key_snd: "fkey (snd (kill pid k)) = fkey k"
  by (rule kill_key [OF surjective_pairing])

lemma put_info_key [key_rules]: "put_info p n is k = Inr k' \<Longrightarrow> fkey k' = fkey k"
proof (induction "is" arbitrary: n k)
  case (Cons i "is")
  then show ?case by (auto simp: res_simps dest!: Cons.IH key_user_put)
qed (auto dest!: key_user_put)

lemma small_calls_key:
  "sys_kill ev k = Inr (r, k') \<Longrightarrow> fkey k' = fkey k"
  "sys_getpid ev k = Inr (r, k') \<Longrightarrow> fkey k' = fkey k"
  "sys_sbrk ev k = Inr (r, k') \<Longrightarrow> fkey k' = fkey k"
  "sys_uptime ev k = Inr (r, k') \<Longrightarrow> fkey k' = fkey k"
  "sys_writecount ev k = Inr (r, k') \<Longrightarrow> fkey k' = fkey k"
  "sys_setwritecount ev k = Inr (r, k') \<Longrightarrow> fkey k' = fkey k"
  "sys_settickets ev k = Inr (r, k') \<Longrightarrow> fkey k' = fkey k"
  "sys_getprocessesinfo ev k = Inr (r, k') \<Longrightarrow> fkey k' = fkey k"
  by (auto simp: sys_kill_def sys_getpid_def sys_sbrk_def sys_uptime_def sys_writecount_def sys_setwritecount_def
      sys_settickets_def sys_getprocessesinfo_def getprocesseshelper_def with_arg_def res_simps Let_def key_simps
      case_prod_unfold kill_key_snd split: option.splits dest!: key_rules)

lemma sys_sleep_ok:
  assumes "sys_sleep ev k = Inr (r, k')" and ok: "files_ok k" and c: "runs c k"
  shows "files_ok k'"
  using assms(1) ok by (auto simp: sys_sleep_def sleep_pass_def with_arg_def res_simps
      split: option.splits if_splits intro: sleep_ok [OF _ ok c])

lemma set_eax_key: "fkey (set_eax c r k) = fkey k"
  by (simp add: set_eax_def key_simps)

lemma all_calls_ok:
  assumes "F \<in> set syscalls" and F: "F ev k = Inr (r, k')" and ok: "files_ok k" and c: "runs c k"
  shows "files_ok k'"
proof -
  have keys: "fkey k' = fkey k \<Longrightarrow> files_ok k'" by (rule files_ok_key [OF _ ok])
  from assms(1) consider
      "F \<in> {sys_exec, sys_fstat, sys_chdir, sys_mknod, sys_unlink, sys_link, sys_mkdir}"
    | "F \<in> {sys_kill, sys_getpid, sys_sbrk, sys_uptime, sys_writecount, sys_setwritecount, sys_settickets, sys_getprocessesinfo}"
    | "F \<in> {sys_fork, sys_exit, sys_wait, sys_sleep, sys_yield, sys_shutdown}"
    | "F \<in> {sys_pipe, sys_read, sys_write, sys_dup, sys_open, sys_close}"
    unfolding syscalls_def by auto
  then show ?thesis
  proof cases
    case 1
    with F have "fkey k' = fkey k" by (auto dest: sys_exec_key sys_fstat_key sys_chdir_key sys_mknod_key
          sys_unlink_key sys_link_key sys_mkdir_key)
    then show ?thesis by (rule keys)
  next
    case 2
    with F have "fkey k' = fkey k" by (auto dest: small_calls_key)
    then show ?thesis by (rule keys)
  next
    case 3
    then show ?thesis using F
      by (auto simp: sys_fork_def sys_exit_def sys_wait_def sys_yield_def sys_shutdown_def res_simps
          intro: fork_ok [OF _ ok c] exit_ok [OF _ ok c] wait_ok' [OF _ ok c] yield_ok [OF _ ok c] sys_sleep_ok [OF _ ok c])
  next
    case 4
    then show ?thesis using F
      by (auto intro: sys_pipe_ok [OF _ ok c] sys_read_ok [OF _ ok c] sys_write_ok [OF _ ok c] sys_dup_ok [OF _ ok c]
          sys_open_ok [OF _ ok c] sys_close_ok [OF _ ok c])
  qed
qed

text \<open>C6: Every system call, whichever number the process passes and however the call ends, keeps the
  reference count of every open file equal to the number of descriptors that refer to it, so a file
  object is free exactly when no descriptor of any process names it.\<close>

theorem syscall_keeps_file_refs:
  assumes "ptable_ok k" and "files_ok k" and "syscall ev k = Inr (r, k')"
  shows "files_ok k'"
proof -
  obtain c where c: "k_cpu k = Some c" using assms(3) by (auto simp: syscall_def res_simps myproc_def split: option.splits)
  then have runs: "runs c k" using ptable_ok_cpu [OF assms(1)] by (simp add: runs_def dead_def)
  let ?num = "sint (load32 (k_mem k) (p_tf (proc_at c k) + TF_EAX))"
  show ?thesis
  proof (cases "?num > 0 \<and> ?num < int (length syscalls) + 1")
    case True
    then have "syscalls ! (nat ?num - 1) \<in> set syscalls" by (intro nth_mem) linarith
    moreover obtain k1 where "(syscalls ! (nat ?num - 1)) ev k = Inr (r, k1)"
      and "k' = (case r of Ret v \<Rightarrow> set_eax c v k1 | Waits \<Rightarrow> k1)"
      using assms(3) runs_myproc [OF runs] True by (auto simp: syscall_def res_simps Let_def)
    ultimately have "files_ok k1" "fkey k' = fkey k1"
      using all_calls_ok assms(2) runs by (blast, simp add: set_eax_key split: sys_end.splits)
    then show ?thesis using files_ok_key by blast
  next
    case False
    then have "k' = set_eax c (-1) k" using assms(3) runs_myproc [OF runs] by (auto simp: syscall_def res_simps Let_def)
    then show ?thesis using files_ok_key [OF set_eax_key assms(2)] by simp
  qed
qed


section \<open>A process that exits with open files\<close>

definition open_child :: proc where
  "open_child = child_proc\<lparr>p_tf := 0x80101F00, p_ofile := Some 0 # Some 0 # replicate 14 None\<rparr>"

definition shared_file :: fileobj where
  "shared_file = \<lparr>f_type = FD_NONE, f_ref = 2, f_readable = True, f_writable = True, f_pipe = 0, f_ip = 0, f_off = 0\<rparr>"

definition refs_kernel :: kernel where
  "refs_kernel = (ex_kernel [sleeping_init, open_child] (Some 1))
     \<lparr>k_sys := ex_sys\<lparr>sy_ftable := [shared_file],
        sy_kmem := \<lparr>km_freelist = 0, km_mem = store32 (0x80101F00 + TF_EAX) 2 (\<lambda>_. 0)\<rparr>\<rparr>\<rparr>"

lemmas refs_defs = refs_kernel_def open_child_def shared_file_def ex_defs

lemma refs_kernel_ok: "ptable_ok refs_kernel" "files_ok refs_kernel"
proof -
  show "ptable_ok refs_kernel"
    by (simp add: ptable_ok_def ptab_inv_def inv_defs ptab_of_def slot_of_def two_slots refs_defs)
  have "count_list (replicate n None) (Some g) = 0" for n and g :: nat by (simp add: count_list_0_iff)
  then have "balance refs_kernel f = 0" for f
    by (simp add: balance_def file_ref_def fd_count_def refs_defs)
  moreover have "fds_ok refs_kernel" by (simp add: fds_ok_def refs_defs dead_def NOFILE_def)
  ultimately show "files_ok refs_kernel" by (simp add: files_ok_def)
qed

theorem syscall_keeps_file_refs_witness:
  "\<exists>k'. syscall ex_env refs_kernel = Inr (Waits, k') \<and> files_ok k'"
proof -
  let ?k = refs_kernel
  define s1 where "s1 = upd_file 0 (\<lambda>x. x\<lparr>f_ref := 1\<rparr>) (k_sys ?k)"
  define s2 where "s2 = upd_file 0 (\<lambda>x. x\<lparr>f_ref := 0, f_type := FD_NONE\<rparr>) s1"
  have c1: "fileclose (ev_kend ex_env) 0 (k_sys ?k) = Inr s1"
    by (simp add: fileclose_def s1_def refs_defs upd_file_def Let_def)
  have c2: "fileclose (ev_kend ex_env) 0 s1 = Inr s2"
    by (simp add: fileclose_def s1_def s2_def refs_defs upd_file_def Let_def)
  define k2 where "k2 = set_fd 1 1 None ((set_fd 1 0 None (?k\<lparr>k_sys := s1\<rparr>))\<lparr>k_sys := s2\<rparr>)"
  have fds: "[0..<NOFILE] = 0 # 1 # [2..<NOFILE]" by (simp add: NOFILE_def upt_rec)
  have o: "p_ofile (proc_at 1 ?k) ! 0 = Some 0" "p_ofile (proc_at 1 ?k) ! 1 = Some 0" by (simp_all add: refs_defs)
  have none: "close_files ex_env 1 [2..<NOFILE] k2 = Inr k2"
    by (rule close_files_none) (auto simp: k2_def refs_defs NOFILE_def upd_proc_def nth_Cons')
  have cf: "close_files ex_env 1 [0..<NOFILE] ?k = Inr k2"
    unfolding fds using o c1 c2 none by (simp add: on_sys_def k2_def proc_at_upd refs_defs) 
  obtain t1 t2 t3 where tx: "begin_tx s2 = Inr t1" "on_fs (iput 0) t1 = Inr t2" "end_tx t2 = Inr t3"
    by (simp add: begin_tx_def on_fs_def begin_op_def s2_def s1_def refs_defs upd_file_def ex_sys_def LOGSIZE_def
        MAXOPBLOCKS_def iput_def upd_inode_def end_tx_def end_op_def commit_def)
  have k: "k_sys k2 = s2" "k_initproc ?k = Some 0" "k_cpu ?k = Some 1" "k_cpu k2 = Some 1" "p_cwd (proc_at 1 k2) = Some 0"
    "length (k_procs k2) = 2" by (simp_all add: k2_def refs_defs upd_proc_def)
  obtain k' where ex: "exit ex_env ?k = Inr k'"
    using tx cf k by (simp add: exit_def myproc_def on_sys_def Let_def sched_def proc_at_upd wakeup1_def)
  have "load32 (k_mem ?k) (p_tf (proc_at 1 ?k) + TF_EAX) = 2" by (simp add: refs_defs)
  then have "syscall ex_env ?k = Inr (Waits, k')"
    using ex k(3) by (simp add: syscall_def myproc_def syscalls_def sys_exit_def)
  then show ?thesis using syscall_keeps_file_refs [OF refs_kernel_ok] by blast
qed

end
