(* ===== verification/Syscall_Props.thy ===== *)
theory Syscall_Props
  imports Proc_Props Syscall
begin

text \<open>
  Pointers from user space: with the memory growth of \<open>xv6_work\<close> a pointer argument that passes the
  check lies, with its whole block, in the memory of the process and below the kernel; with the
  growth on demand of \<open>xv6_new_7\<close> the same check lets kernel addresses pass.
\<close>

section \<open>The size of a process\<close>

definition sizes_ok :: "kernel \<Rightarrow> bool" where
  "sizes_ok k \<longleftrightarrow> (\<forall>p \<in> set (k_procs k). unat (p_sz p) < KERNBASE)"

lemma allocuvm_loop_result:
  "allocuvm_loop kend pgdir oldsz newsz a st = Inr (v, st') \<Longrightarrow> v = 0 \<or> v = newsz"
proof (induction kend pgdir oldsz newsz a st rule: allocuvm_loop.induct)
  case (1 kend pgdir oldsz newsz a st)
  show ?case
  proof (cases "a < unat newsz")
    case True
    obtain mem st1 where m: "kalloc st = (mem, st1)" by force
    show ?thesis
    proof (cases "mem = 0")
      case True
      with "1.prems" \<open>a < unat newsz\<close> m show ?thesis
        by (subst (asm) allocuvm_loop.simps) (auto simp: res_simps)
    next
      case False
      then obtain pa r st2 where pa: "V2P mem = Inr pa"
        and mp: "mappages pgdir (of_nat a) 4096 (of_nat pa) (PTE_W OR PTE_U) (zero_page mem st1) = Inr (r, st2)"
        using "1.prems" \<open>a < unat newsz\<close> m by (subst (asm) allocuvm_loop.simps) (auto simp: res_simps Let_def)
      show ?thesis
      proof (cases "r < 0")
        case True
        with "1.prems" \<open>a < unat newsz\<close> m False pa mp show ?thesis
          by (subst (asm) allocuvm_loop.simps) (auto simp: res_simps Let_def)
      next
        case r: False
        from "1.prems" \<open>a < unat newsz\<close> m False pa mp r
        have "allocuvm_loop kend pgdir oldsz newsz (a + PGSIZE) st2 = Inr (v, st')"
          by (subst (asm) allocuvm_loop.simps) (auto simp: res_simps Let_def)
        with "1.IH" [OF \<open>a < unat newsz\<close> m [symmetric] False refl pa mp refl r] show ?thesis by simp
      qed
    qed
  next
    case False
    with "1.prems" show ?thesis by (subst (asm) allocuvm_loop.simps) simp
  qed
qed

lemma unat_KERNBASE: "unat (of_nat KERNBASE :: u32) = KERNBASE"
  by (simp add: KERNBASE_def unat_of_nat)

lemma allocuvm_bound:
  assumes "allocuvm kend pgdir oldsz newsz st = Inr (v, st')" and "unat oldsz < KERNBASE"
  shows "unat v < KERNBASE"
proof -
  have "newsz < of_nat KERNBASE \<Longrightarrow> unat newsz < KERNBASE" by (simp add: word_less_nat_alt unat_KERNBASE)
  then show ?thesis using assms
    by (auto simp: allocuvm_def KERNBASE_def not_le split: if_splits dest!: allocuvm_loop_result)
qed

lemma deallocuvm_bound:
  assumes "deallocuvm kend pgdir oldsz newsz st = Inr (v, st')" and "unat oldsz < KERNBASE"
  shows "unat v < KERNBASE"
  using assms by (auto simp: deallocuvm_def res_simps word_less_nat_alt word_le_nat_alt split: if_splits)

lemma sizes_ok_upd:
  assumes "sizes_ok k" and "unat (p_sz (g (proc_at i k))) < KERNBASE"
  shows "sizes_ok (upd_proc i g k)"
  using assms by (auto simp: sizes_ok_def upd_proc_def dest!: set_update_subset_insert [THEN subsetD])

lemma growproc_sizes:
  assumes "growproc ev n k = Inr (r, k')" and "sizes_ok k" and "ptable_ok k"
  shows "sizes_ok k'"
proof -
  obtain c where c: "k_cpu k = Some c" using assms(1) by (auto simp: growproc_def res_simps myproc_def split: option.splits)
  have old: "unat (p_sz (proc_at c k)) < KERNBASE"
    using assms(2) ptable_ok_cpu [OF assms(3) c] by (auto simp: sizes_ok_def)
  have keep: "k_procs k1 = k_procs k" if "on_sys_val g k = Inr (x, k1)" for g :: "sys \<Rightarrow> (u32 \<times> sys) res" and x k1
    using that by (auto simp: on_sys_val_def res_simps)
  have bound: "unat v < KERNBASE"
    if "on_sys_val (on_kmem_val g) k = Inr (v, k1)" "\<And>m m'. g m = Inr (v, m') \<Longrightarrow> unat v < KERNBASE" for g v k1
    using that by (auto simp: on_sys_val_def on_kmem_val_def res_simps)
  have same: "sizes_ok k1" if "k_procs k1 = k_procs k" for k1 using that assms(2) by (simp add: sizes_ok_def)
  have commit: "sizes_ok (upd_proc c (\<lambda>p. p\<lparr>p_sz := v\<rparr>) k1)" if "k_procs k1 = k_procs k" "unat v < KERNBASE" for v k1
    by (rule sizes_ok_upd [OF same [OF that(1)]]) (use that(2) in simp)
  let ?p = "p_pgdir (proc_at c k)" and ?sz = "p_sz (proc_at c k)"
  have fin: "sizes_ok k'"
    if "bindR (switchuvm c (upd_proc c (\<lambda>p. p\<lparr>p_sz := v\<rparr>) k1)) (\<lambda>k. Inr (0 :: int, k)) = Inr (r, k')"
      "k_procs k1 = k_procs k" "unat v < KERNBASE" for v k1
    using that commit [of k1 v] by (auto simp: res_simps dest!: switchuvm_same)
  consider "n > 0" | "n < 0" | "n = 0" by linarith
  then show ?thesis
  proof cases
    case 1
    then obtain v k1 where k1: "on_sys_val (on_kmem_val (allocuvm (ev_kend ev) ?p ?sz (?sz + word_of_int n))) k = Inr (v, k1)"
      and rest: "(if v = 0 then Inr (-1, k1) else bindR (switchuvm c (upd_proc c (\<lambda>p. p\<lparr>p_sz := v\<rparr>) k1)) (\<lambda>k. Inr (0, k))) = Inr (r, k')"
      using assms(1) c by (auto simp: growproc_def res_simps myproc_def Let_def)
    have "unat v < KERNBASE" by (rule bound [OF k1]) (rule allocuvm_bound [OF _ old])
    with rest fin keep [OF k1] same show ?thesis by (auto split: if_splits)
  next
    case 2
    then obtain v k1 where k1: "on_sys_val (on_kmem_val (deallocuvm (ev_kend ev) ?p ?sz (?sz + word_of_int n))) k = Inr (v, k1)"
      and rest: "(if v = 0 then Inr (-1, k1) else bindR (switchuvm c (upd_proc c (\<lambda>p. p\<lparr>p_sz := v\<rparr>) k1)) (\<lambda>k. Inr (0, k))) = Inr (r, k')"
      using assms(1) c by (auto simp: growproc_def res_simps myproc_def Let_def)
    have "unat v < KERNBASE" by (rule bound [OF k1]) (rule deallocuvm_bound [OF _ old])
    with rest fin keep [OF k1] same show ?thesis by (auto split: if_splits)
  next
    case 3
    then have "bindR (switchuvm c (upd_proc c (\<lambda>p. p\<lparr>p_sz := ?sz\<rparr>) k)) (\<lambda>k. Inr (0, k)) = Inr (r, k')"
      using assms(1) c by (simp add: growproc_def myproc_def Let_def)
    then show ?thesis by (rule fin) (simp_all add: old)
  qed
qed

section \<open>Pointer arguments\<close>

lemma argptr_bounds:
  assumes "argptr n len k = Inr (Some p)" and c: "k_cpu k = Some c" and sz: "unat (p_sz (proc_at c k)) < KERNBASE"
    and len: "len \<le> INT_MAX"
  shows "0 \<le> len \<and> unat p + nat len \<le> unat (p_sz (proc_at c k))"
proof -
  have a: "0 \<le> len" "p < p_sz (proc_at c k)" "p + word_of_int len \<le> p_sz (proc_at c k)"
  proof -
    let ?bad = "\<lambda>i. len < 0 \<or> i \<ge> p_sz (proc_at c k) \<or> i + word_of_int len > p_sz (proc_at c k)"
    obtain i where "argint n k = Inr (Some i)" and i: "(if ?bad i then Inr None else Inr (Some i)) = (Inr (Some p) :: u32 option res)"
      using assms(1) c by (cases "argint n k") (auto simp: argptr_def myproc_def Let_def split: option.splits)
    have "\<not> ?bad i"
    proof
      assume "?bad i"
      then have "(if ?bad i then Inr None else Inr (Some i)) = (Inr None :: u32 option res)" by (rule if_P)
      with i show False by simp
    qed
    moreover from this have "i = p" using i by (simp only: if_False simp_thms sum.inject option.inject)
    ultimately show "0 \<le> len" "p < p_sz (proc_at c k)" "p + word_of_int len \<le> p_sz (proc_at c k)"
      by (simp_all only: de_Morgan_disj not_le not_less)
  qed
  have "unat (word_of_int len :: u32) = nat len"
    using a(1) len by (simp add: INT_MAX_def unat_eq_nat_uint uint_word_of_int take_bit_int_eq_self)
  moreover have "unat p < KERNBASE" using a(2) sz by (simp add: word_less_nat_alt)
  ultimately have "unat (p + word_of_int len) = unat p + nat len"
    using a(1) len by (simp add: unat_word_ariths KERNBASE_def INT_MAX_def)
  with a(1,3) show ?thesis by (simp add: word_le_nat_alt)
qed

text \<open>C26: After any growth or shrinking of a process by \<open>growproc\<close> every process ends below the kernel,
  and a pointer argument that \<open>argptr\<close> accepts has its whole block inside the process: there is no
  overflow in the check, for any pointer and length the process passes.\<close>

theorem user_pointers_in_process:
  assumes "ptable_ok k" and "sizes_ok k" and "growproc ev n k = Inr (r, k')" and "k_cpu k' = Some c"
    and "argptr m len k' = Inr (Some p)" and "len \<le> INT_MAX"
  shows "sizes_ok k' \<and> 0 \<le> len \<and> unat p + nat len \<le> unat (p_sz (proc_at c k')) \<and> unat p + nat len < KERNBASE"
proof -
  have s: "sizes_ok k'" by (rule growproc_sizes [OF assms(3,2,1)])
  have "ptable_ok k'" using growproc_table [OF assms(3)] assms(1) by (simp add: ptable_ok_def)
  then have "c < length (k_procs k')" using ptable_ok_cpu assms(4) by blast
  then have b: "unat (p_sz (proc_at c k')) < KERNBASE" using s by (simp add: sizes_ok_def)
  from argptr_bounds [OF assms(5,4) b assms(6)] b s show ?thesis by (blast intro: le_less_trans)
qed

text \<open>C37: With growth on demand no size is refused, so a process can make its size reach over the kernel;
  then \<open>argptr\<close> accepts kernel addresses, and the kernel reads and writes them for the process.\<close>

theorem lazy_growth_accepts_kernel_pointers:
  assumes "k_cpu k = Some c" and "c < length (k_procs k)"
    and "p_sz (proc_at c k) + word_of_int n = 0xFFFFF000" and "growproc_lazy n k = Inr (r, k')"
    and "argint m k' = Inr (Some p)" and "KERNBASE \<le> unat p" and "0 \<le> len" and "unat p + nat len < 0xFFFFF000"
  shows "r = 0 \<and> argptr m len k' = Inr (Some p)"
proof -
  have k': "r = 0" "k' = upd_proc c (\<lambda>p. p\<lparr>p_sz := p_sz p + word_of_int n\<rparr>) k"
    using assms(1,4) by (auto simp: growproc_lazy_def myproc_def)
  have sz: "p_sz (proc_at c k') = 0xFFFFF000" "k_cpu k' = Some c"
    using assms(1-3) by (simp_all add: k' proc_at_upd)
  have small: "len < 4294967296" using assms(7,8) by linarith
  have "unat (word_of_int len :: u32) = nat len"
    by (simp add: unat_eq_nat_uint uint_word_of_int take_bit_int_eq_self assms(7) small)
  then have "unat (p + word_of_int len) = unat p + nat len" using assms(8) by (simp add: unat_word_ariths)
  then have "p < 0xFFFFF000" "p + word_of_int len < 0xFFFFF000" using assms(8) by (simp_all add: word_less_nat_alt)
  then have "\<not> 0xFFFFF000 \<le> p" "\<not> 0xFFFFF000 < p + word_of_int len" by (simp_all only: not_le not_less less_imp_le)
  then show ?thesis using assms(5,7) sz k'(1)
    by (simp add: argptr_def myproc_def Let_def)
qed


section \<open>A process with an argument on its stack\<close>

text \<open>One page of user memory at address 0; the first argument of the call is \<open>arg\<close>.\<close>

definition arg_mem :: "u32 \<Rightarrow> memory" where
  "arg_mem arg = store32 0x80101F44 0x100 (store32 0x80105104 arg
     (store32 0x80104000 0x105007 (store32 0x80102000 0x104007 (\<lambda>_. 0))))"

definition arg_kernel :: "u32 \<Rightarrow> u32 \<Rightarrow> kernel" where
  "arg_kernel sz arg = (ex_kernel [first_proc\<lparr>p_sz := sz, p_pgdir := 0x80102000, p_kstack := 0x80101000,
       p_tf := 0x80101F00\<rparr>, free_proc] (Some 0))
     \<lparr>k_sys := ex_sys\<lparr>sy_kmem := \<lparr>km_freelist = 0, km_mem = arg_mem arg\<rparr>\<rparr>\<rparr>"

lemma arg_mem_words:
  "load32 (arg_mem arg) 0x80101F44 = 0x100" "load32 (arg_mem arg) 0x80102000 = 0x104007"
  "load32 (arg_mem arg) 0x80104000 = 0x105007" "load32 (arg_mem arg) 0x80105104 = arg"
  by (simp_all add: arg_mem_def load32_store32_apart)

lemma translate_arg:
  "translate 0x80102000 0x104 (arg_mem arg) = Some 0x80105104" "translate 0x80102000 0x105 (arg_mem arg) = Some 0x80105105"
  "translate 0x80102000 0x106 (arg_mem arg) = Some 0x80105106" "translate 0x80102000 0x107 (arg_mem arg) = Some 0x80105107"
  by (simp_all add: translate_def PDX_def PTX_def PTE_P_def PTE_ADDR_def KERNBASE_def Let_def
      arg_mem_words)

lemma load32_bytes: "load32 m a = u32_of_bytes [m a, m (a + 1), m (a + 2), m (a + 3)]"
  by (simp add: load32_def upt_rec numeral_3_eq_3)

lemma user_loads_4:
  "user_loads g va 4 m = bindR (user_load g va m) (\<lambda>a. bindR (user_load g (va + 1) m) (\<lambda>b.
     bindR (user_load g (va + 2) m) (\<lambda>c. bindR (user_load g (va + 3) m) (\<lambda>d. Inr [a, b, c, d]))))"
  by (simp add: eval_nat_numeral bindR_assoc add.assoc)

lemma user_load_arg: "user_load32 0x80102000 0x104 (arg_mem arg) = Inr arg"
proof -
  have "user_loads 0x80102000 0x104 4 (arg_mem arg) =
      Inr [arg_mem arg 0x80105104, arg_mem arg 0x80105105, arg_mem arg 0x80105106, arg_mem arg 0x80105107]"
    by (simp add: user_loads_4 user_load_def translate_arg)
  moreover have "u32_of_bytes [arg_mem arg 0x80105104, arg_mem arg 0x80105105, arg_mem arg 0x80105106, arg_mem arg 0x80105107] = arg"
    using load32_bytes [of "arg_mem arg" "0x80105104"] arg_mem_words(4) by simp
  ultimately show ?thesis by (simp add: user_load32_def)
qed

lemma argint_arg:
  assumes "0x108 \<le> p_sz (proc_at 0 k)" and "k_cpu k = Some 0" and "p_pgdir (proc_at 0 k) = 0x80102000"
    and "p_tf (proc_at 0 k) = 0x80101F00" and "k_mem k = arg_mem arg"
  shows "argint 0 k = Inr (Some arg)"
proof -
  have "\<not> p_sz (proc_at 0 k) \<le> 0x104" "\<not> p_sz (proc_at 0 k) < 0x108"
    using assms(1) by (simp_all add: word_less_nat_alt word_le_nat_alt)
  with assms(2-) show ?thesis
    by (simp add: argint_def fetchint_def myproc_def Let_def TF_ESP_def arg_mem_words user_load_arg)
qed

lemma arg_kernel_ok: "ptable_ok (arg_kernel sz arg)"
  by (simp add: ptable_ok_def ptab_inv_def inv_defs ptab_of_def slot_of_def two_slots arg_kernel_def ex_defs)

text \<open>A growth by no bytes (as \<open>sbrk(0)\<close> makes it), and a pointer to the word at address 16.\<close>

theorem user_pointers_in_process_witness:
  "\<exists>k'. growproc ex_env 0 (arg_kernel 0x2000 16) = Inr (0, k') \<and> argptr 0 4 k' = Inr (Some 16) \<and>
     16 + 4 \<le> unat (p_sz (proc_at 0 k'))"
proof -
  let ?k = "arg_kernel 0x2000 16"
  have g: "growproc ex_env 0 ?k = Inr (0, ?k)"
    by (simp add: growproc_def arg_kernel_def ex_defs myproc_def Let_def switchuvm_def upd_proc_def)
  have a: "argint 0 ?k = Inr (Some 16)"
    by (rule argint_arg) (simp_all add: arg_kernel_def ex_defs)
  then have p: "argptr 0 4 ?k = Inr (Some 16)"
    by (simp add: argptr_def myproc_def Let_def) (simp add: arg_kernel_def ex_defs)
  have s: "sizes_ok ?k" by (simp add: sizes_ok_def arg_kernel_def ex_defs KERNBASE_def)
  have c: "k_cpu ?k = Some 0" by (simp add: arg_kernel_def ex_defs)
  have "16 + 4 \<le> unat (p_sz (proc_at 0 ?k))"
    using user_pointers_in_process [OF arg_kernel_ok s g c p] by (simp add: INT_MAX_def)
  with g p show ?thesis by blast
qed

theorem lazy_growth_accepts_kernel_pointers_witness:
  "\<exists>k'. growproc_lazy (- 0x3000) (arg_kernel 0x2000 0x80000000) = Inr (0, k') \<and>
     argptr 0 4096 k' = Inr (Some 0x80000000)"
proof -
  let ?k = "arg_kernel 0x2000 0x80000000"
  obtain k' where g: "growproc_lazy (- 0x3000) ?k = Inr (0, k')"
    and k': "k' = upd_proc 0 (\<lambda>p. p\<lparr>p_sz := p_sz p + word_of_int (- 0x3000)\<rparr>) ?k"
    by (simp add: growproc_lazy_def myproc_def arg_kernel_def ex_defs)
  have "argint 0 k' = Inr (Some 0x80000000)"
    by (rule argint_arg) (simp_all add: k' upd_proc_def arg_kernel_def ex_defs)
  moreover have "k_cpu ?k = Some 0" "0 < length (k_procs ?k)" "p_sz (proc_at 0 ?k) + word_of_int (- 0x3000) = 0xFFFFF000"
    by (simp_all add: arg_kernel_def ex_defs)
  ultimately have "argptr 0 4096 k' = Inr (Some 0x80000000)"
    using lazy_growth_accepts_kernel_pointers [OF _ _ _ g, of 0 0 "0x80000000" 4096] by (simp add: KERNBASE_def)
  with g show ?thesis by blast
qed

end
