(* ===== verification/Locks.thy ===== *)
theory Locks
  imports Prelude
begin

text \<open>
  Spin locks and sleep locks (\<open>spinlock.c\<close>, \<open>sleeplock.c\<close>).  Several processors run; each has its
  nesting count of disabled interrupts and its interrupt flag.  \<open>acquire\<close> and \<open>release\<close> are cut at
  their writes to shared memory, and the step relation interleaves the pieces of all processors.
\<close>

section \<open>Processors and locks\<close>

record cpu =
  c_ncli :: int
  c_intena :: bool
  c_if :: bool

record spinlock =
  lk_locked :: bool
  lk_cpu :: "nat option"

record smp =
  m_cpus :: "cpu list"
  m_locks :: "spinlock list"

abbreviation cpu_at :: "nat \<Rightarrow> smp \<Rightarrow> cpu" where "cpu_at c s \<equiv> m_cpus s ! c"
abbreviation lock_at :: "nat \<Rightarrow> smp \<Rightarrow> spinlock" where "lock_at l s \<equiv> m_locks s ! l"

definition upd_cpu :: "nat \<Rightarrow> (cpu \<Rightarrow> cpu) \<Rightarrow> smp \<Rightarrow> smp" where
  "upd_cpu c f s = s\<lparr>m_cpus := (m_cpus s)[c := f (m_cpus s ! c)]\<rparr>"

definition upd_lock :: "nat \<Rightarrow> (spinlock \<Rightarrow> spinlock) \<Rightarrow> smp \<Rightarrow> smp" where
  "upd_lock l f s = s\<lparr>m_locks := (m_locks s)[l := f (m_locks s ! l)]\<rparr>"

definition initlock :: "nat \<Rightarrow> smp \<Rightarrow> smp" where
  "initlock l s = upd_lock l (\<lambda>lk. lk\<lparr>lk_locked := False, lk_cpu := None\<rparr>) s"

section \<open>Interrupts\<close>

definition pushcli :: "nat \<Rightarrow> smp \<Rightarrow> smp" where
  "pushcli c s =
     (let eflags = c_if (cpu_at c s);
          s = upd_cpu c (\<lambda>x. x\<lparr>c_if := False\<rparr>) s;
          s = (if c_ncli (cpu_at c s) = 0 then upd_cpu c (\<lambda>x. x\<lparr>c_intena := eflags\<rparr>) s else s) in
      upd_cpu c (\<lambda>x. x\<lparr>c_ncli := c_ncli x + 1\<rparr>) s)"

definition popcli :: "nat \<Rightarrow> smp \<Rightarrow> smp res" where
  "popcli c s =
     (if c_if (cpu_at c s) then Inl (Panic ''popcli - interruptible'')
      else
        let s = upd_cpu c (\<lambda>x. x\<lparr>c_ncli := c_ncli x - 1\<rparr>) s in
        if c_ncli (cpu_at c s) < 0 then Inl (Panic ''popcli'')
        else if c_ncli (cpu_at c s) = 0 \<and> c_intena (cpu_at c s) then Inr (upd_cpu c (\<lambda>x. x\<lparr>c_if := True\<rparr>) s)
        else Inr s)"

section \<open>Spin locks\<close>

definition holding :: "nat \<Rightarrow> nat \<Rightarrow> smp \<Rightarrow> (bool \<times> smp) res" where
  "holding c l s =
     (let s = pushcli c s; r = lk_locked (lock_at l s) \<and> lk_cpu (lock_at l s) = Some c in
      bindR (popcli c s) (\<lambda>s. Inr (r, s)))"

text \<open>\<open>acquire\<close>: up to the loop, one turn of the loop (did the exchange win the lock?), the end.\<close>

definition acquire_begin :: "nat \<Rightarrow> nat \<Rightarrow> smp \<Rightarrow> smp res" where
  "acquire_begin c l s =
     bindR (holding c l (pushcli c s)) (\<lambda>(r, s). if r then Inl (Panic ''acquire'') else Inr s)"

definition acquire_xchg :: "nat \<Rightarrow> smp \<Rightarrow> bool \<times> smp" where
  "acquire_xchg l s = (\<not> lk_locked (lock_at l s), upd_lock l (\<lambda>lk. lk\<lparr>lk_locked := True\<rparr>) s)"

definition acquire_end :: "nat \<Rightarrow> nat \<Rightarrow> smp \<Rightarrow> smp" where
  "acquire_end c l s = upd_lock l (\<lambda>lk. lk\<lparr>lk_cpu := Some c\<rparr>) s"

definition acquire :: "nat \<Rightarrow> nat \<Rightarrow> smp \<Rightarrow> smp res" where
  "acquire c l s =
     bindR (acquire_begin c l s) (\<lambda>s.
       case acquire_xchg l s of (won, s) \<Rightarrow> if won then Inr (acquire_end c l s) else Inl Blocked)"

text \<open>\<open>release\<close>: up to the atomic store, the store, the end.\<close>

definition release_begin :: "nat \<Rightarrow> nat \<Rightarrow> smp \<Rightarrow> smp res" where
  "release_begin c l s =
     bindR (holding c l s) (\<lambda>(r, s).
       if \<not> r then Inl (Panic ''release'') else Inr (upd_lock l (\<lambda>lk. lk\<lparr>lk_cpu := None\<rparr>) s))"

definition release_store :: "nat \<Rightarrow> smp \<Rightarrow> smp" where
  "release_store l s = upd_lock l (\<lambda>lk. lk\<lparr>lk_locked := False\<rparr>) s"

definition release :: "nat \<Rightarrow> nat \<Rightarrow> smp \<Rightarrow> smp res" where
  "release c l s = bindR (release_begin c l s) (\<lambda>s. popcli c (release_store l s))"

text \<open>\<open>getcallerpcs\<close>: the return addresses along the chain of frames, up to ten.\<close>

fun caller_pcs :: "nat \<Rightarrow> (u32 \<Rightarrow> u32) \<Rightarrow> u32 \<Rightarrow> u32 list" where
  "caller_pcs 0 m ebp = []"
| "caller_pcs (Suc n) m ebp =
     (if ebp = 0 \<or> ebp < 0x80000000 \<or> ebp = 0xffffffff then replicate (Suc n) 0
      else m (ebp + 4) # caller_pcs n m (m ebp))"

definition getcallerpcs :: "(u32 \<Rightarrow> u32) \<Rightarrow> u32 \<Rightarrow> u32 list" where
  "getcallerpcs m v = caller_pcs 10 m (v - 8)"

section \<open>Sleep locks\<close>

text \<open>
  The operations run inside the spin lock of the sleep lock.  \<open>acquiresleep\<close> that finds the lock
  taken sleeps; it is tried again when it is woken.
\<close>

record sleeplock =
  sl_locked :: bool
  sl_pid :: int

definition initsleeplock :: sleeplock where
  "initsleeplock = \<lparr>sl_locked = False, sl_pid = 0\<rparr>"

definition acquiresleep :: "int \<Rightarrow> sleeplock \<Rightarrow> sleeplock res" where
  "acquiresleep pid lk = (if sl_locked lk then Inl Blocked else Inr (lk\<lparr>sl_locked := True, sl_pid := pid\<rparr>))"

definition releasesleep :: "sleeplock \<Rightarrow> sleeplock" where
  "releasesleep lk = lk\<lparr>sl_locked := False, sl_pid := 0\<rparr>"

definition holdingsleep :: "int \<Rightarrow> sleeplock \<Rightarrow> bool" where
  "holdingsleep pid lk \<longleftrightarrow> sl_locked lk \<and> sl_pid lk = pid"

section \<open>All processors together\<close>

text \<open>Where a processor is: outside of \<open>acquire\<close> and \<open>release\<close>, or between two pieces of them.\<close>

datatype place = Outside | Spins nat | Won nat | Clears nat | Pops

type_synonym machine = "place list \<times> smp"

inductive spin_step :: "machine \<Rightarrow> machine \<Rightarrow> bool" where
  begin_acquire: "c < length (m_cpus s) \<Longrightarrow> l < length (m_locks s) \<Longrightarrow> at ! c = Outside \<Longrightarrow>
    acquire_begin c l s = Inr s' \<Longrightarrow> spin_step (at, s) (at[c := Spins l], s')"
| exchange: "c < length (m_cpus s) \<Longrightarrow> at ! c = Spins l \<Longrightarrow> acquire_xchg l s = (won, s') \<Longrightarrow>
    spin_step (at, s) (at[c := if won then Won l else Spins l], s')"
| end_acquire: "c < length (m_cpus s) \<Longrightarrow> at ! c = Won l \<Longrightarrow> spin_step (at, s) (at[c := Outside], acquire_end c l s)"
| begin_release: "c < length (m_cpus s) \<Longrightarrow> l < length (m_locks s) \<Longrightarrow> at ! c = Outside \<Longrightarrow>
    release_begin c l s = Inr s' \<Longrightarrow> spin_step (at, s) (at[c := Clears l], s')"
| store_release: "c < length (m_cpus s) \<Longrightarrow> at ! c = Clears l \<Longrightarrow> spin_step (at, s) (at[c := Pops], release_store l s)"
| end_release: "c < length (m_cpus s) \<Longrightarrow> at ! c = Pops \<Longrightarrow> popcli c s = Inr s' \<Longrightarrow> spin_step (at, s) (at[c := Outside], s')"
| interrupts: "c < length (m_cpus s) \<Longrightarrow> at ! c = Outside \<Longrightarrow> c_ncli (cpu_at c s) = 0 \<Longrightarrow>
    spin_step (at, s) (at, upd_cpu c (\<lambda>x. x\<lparr>c_if := b\<rparr>) s)"

definition machine_start :: "nat \<Rightarrow> nat \<Rightarrow> machine" where
  "machine_start n k =
     (replicate n Outside,
      \<lparr>m_cpus = replicate n \<lparr>c_ncli = 0, c_intena = False, c_if = False\<rparr>,
       m_locks = replicate k \<lparr>lk_locked = False, lk_cpu = None\<rparr>\<rparr>)"

text \<open>
  A processor between the exchange that won a lock and the record of its name in it, or between the
  erasing of its name and the store that frees the lock.
\<close>

definition mid :: "place list \<Rightarrow> nat \<Rightarrow> nat \<Rightarrow> bool" where
  "mid at l c \<longleftrightarrow> c < length at \<and> (at ! c = Won l \<or> at ! c = Clears l)"

definition has_lock :: "machine \<Rightarrow> nat \<Rightarrow> nat \<Rightarrow> bool" where
  "has_lock ms c l \<longleftrightarrow> mid (fst ms) l c \<or> lk_cpu (lock_at l (snd ms)) = Some c"

definition held_count :: "nat \<Rightarrow> smp \<Rightarrow> int" where
  "held_count c s = sum_list (map (\<lambda>lk. if lk_cpu lk = Some c then 1 else 0) (m_locks s))"

definition lock_ok :: "place list \<Rightarrow> spinlock \<Rightarrow> nat \<Rightarrow> bool" where
  "lock_ok at lk l \<longleftrightarrow>
     (case lk_cpu lk of
        Some c \<Rightarrow> lk_locked lk \<and> c < length at \<and> (\<forall>d. \<not> mid at l d)
      | None \<Rightarrow> (lk_locked lk \<longleftrightarrow> (\<exists>d. mid at l d)) \<and> (\<forall>d d'. mid at l d \<longrightarrow> mid at l d' \<longrightarrow> d = d'))"

definition cpu_ok :: "place \<Rightarrow> cpu \<Rightarrow> int \<Rightarrow> nat \<Rightarrow> bool" where
  "cpu_ok pl x h n \<longleftrightarrow>
     (\<forall>l. pl = Spins l \<or> pl = Won l \<or> pl = Clears l \<longrightarrow> l < n) \<and>
     c_ncli x = h + (if pl = Outside then 0 else 1) \<and> (0 < c_ncli x \<longrightarrow> \<not> c_if x)"

definition spin_inv :: "machine \<Rightarrow> bool" where
  "spin_inv ms \<longleftrightarrow> length (fst ms) = length (m_cpus (snd ms)) \<and>
     (\<forall>l < length (m_locks (snd ms)). lock_ok (fst ms) (lock_at l (snd ms)) l) \<and>
     (\<forall>c < length (m_cpus (snd ms)).
        cpu_ok (fst ms ! c) (cpu_at c (snd ms)) (held_count c (snd ms)) (length (m_locks (snd ms))))"

section \<open>The operations under the invariant\<close>

definition calm :: "nat \<Rightarrow> smp \<Rightarrow> bool" where
  "calm c s \<longleftrightarrow> c < length (m_cpus s) \<and> 0 \<le> c_ncli (cpu_at c s) \<and> (0 < c_ncli (cpu_at c s) \<longrightarrow> \<not> c_if (cpu_at c s))"

lemma upd_sel [simp]:
  "m_locks (upd_cpu c f s) = m_locks s" "m_cpus (upd_lock l g s) = m_cpus s"
  "m_cpus (upd_cpu c f s) = (m_cpus s)[c := f (cpu_at c s)]" "m_locks (upd_lock l g s) = (m_locks s)[l := g (lock_at l s)]"
  by (simp_all add: upd_cpu_def upd_lock_def)

lemma upd_cpu_twice: "c < length (m_cpus s) \<Longrightarrow> upd_cpu c g (upd_cpu c f s) = upd_cpu c (g \<circ> f) s"
  by (simp add: upd_cpu_def)

lemma pushcli_eq:
  assumes "c < length (m_cpus s)"
  shows "pushcli c s = upd_cpu c (\<lambda>x. x\<lparr>c_if := False, c_intena := (if c_ncli x = 0 then c_if x else c_intena x),
    c_ncli := c_ncli x + 1\<rparr>) s"
  using assms by (cases s) (auto simp: pushcli_def upd_cpu_def Let_def)

lemma upd_cpu_same: "f (cpu_at c s) = cpu_at c s \<Longrightarrow> upd_cpu c f s = s"
  by (cases s) (simp add: upd_cpu_def)

text \<open>\<open>holding\<close> answers whether the processor recorded itself in the lock, and changes at most the saved flag.\<close>

lemma holding_eq:
  assumes "calm c s"
  shows "holding c l s = Inr (lk_locked (lock_at l s) \<and> lk_cpu (lock_at l s) = Some c,
           upd_cpu c (\<lambda>x. x\<lparr>c_intena := (if c_ncli x = 0 then c_if x else c_intena x)\<rparr>) s)"
  using assms
  by (cases "cpu_at c s"; cases s) (auto simp: holding_def calm_def pushcli_eq popcli_def upd_cpu_def Let_def)

lemma acquire_begin_eq:
  assumes "calm c s"
  shows "acquire_begin c l s =
    (if lk_locked (lock_at l s) \<and> lk_cpu (lock_at l s) = Some c then Inl (Panic ''acquire'') else Inr (pushcli c s))"
proof -
  have c: "c < length (m_cpus s)" "0 \<le> c_ncli (cpu_at c s)" using assms by (auto simp: calm_def)
  then have "calm c (pushcli c s)" by (simp add: calm_def pushcli_eq)
  moreover have "upd_cpu c (\<lambda>x. x\<lparr>c_intena := (if c_ncli x = 0 then c_if x else c_intena x)\<rparr>) (pushcli c s) = pushcli c s"
    by (rule upd_cpu_same) (use c in \<open>simp add: pushcli_eq\<close>)
  moreover have "m_locks (pushcli c s) = m_locks s" using c by (simp add: pushcli_eq)
  ultimately show ?thesis by (simp add: acquire_begin_def holding_eq)
qed

lemma release_begin_eq:
  assumes "calm c s" and "0 < c_ncli (cpu_at c s)"
  shows "release_begin c l s =
    (if lk_locked (lock_at l s) \<and> lk_cpu (lock_at l s) = Some c then Inr (upd_lock l (\<lambda>lk. lk\<lparr>lk_cpu := None\<rparr>) s)
     else Inl (Panic ''release''))"
proof -
  have "upd_cpu c (\<lambda>x. x\<lparr>c_intena := (if c_ncli x = 0 then c_if x else c_intena x)\<rparr>) s = s"
    by (rule upd_cpu_same) (use assms in simp)
  with assms(1) show ?thesis by (simp add: release_begin_def holding_eq)
qed

lemma popcli_eq:
  assumes "calm c s" and "0 < c_ncli (cpu_at c s)"
  shows "popcli c s = Inr (upd_cpu c (\<lambda>x. x\<lparr>c_ncli := c_ncli x - 1, c_if := (c_ncli x = 1 \<and> c_intena x)\<rparr>) s)"
  using assms by (cases "cpu_at c s"; cases s) (auto simp: calm_def popcli_def upd_cpu_def Let_def)

lemma held_count_pos: "0 \<le> held_count c s"
  unfolding held_count_def by (rule sum_list_nonneg) auto

lemma held_count_lock:
  assumes "l < length (m_locks s)"
  shows "held_count c (upd_lock l g s) = held_count c s - (if lk_cpu (lock_at l s) = Some c then 1 else 0)
    + (if lk_cpu (g (lock_at l s)) = Some c then 1 else 0)"
  using assms by (simp add: held_count_def map_update sum_list_int_update)

lemma held_count_cpu: "held_count c (upd_cpu d f s) = held_count c s"
  by (simp add: held_count_def)

lemma held_count_member:
  assumes "l < length (m_locks s)" and "lk_cpu (lock_at l s) = Some c"
  shows "0 < held_count c s"
  using held_count_lock [OF assms(1), of c "\<lambda>lk. lk\<lparr>lk_cpu := None\<rparr>"] held_count_pos [of c "upd_lock l (\<lambda>lk. lk\<lparr>lk_cpu := None\<rparr>) s"] assms(2)
  by simp

lemma mid_upd:
  "c < length at \<Longrightarrow> mid (at[c := x]) l d = (if d = c then x = Won l \<or> x = Clears l else mid at l d)"
  by (auto simp: mid_def nth_list_update)

lemma inv_parts:
  assumes "spin_inv (at, s)"
  shows "length at = length (m_cpus s)" "l < length (m_locks s) \<Longrightarrow> lock_ok at (lock_at l s) l"
    and "c < length (m_cpus s) \<Longrightarrow> cpu_ok (at ! c) (cpu_at c s) (held_count c s) (length (m_locks s))"
  using assms by (auto simp: spin_inv_def)

lemma inv_calm:
  assumes "spin_inv (at, s)" and "c < length (m_cpus s)"
  shows "calm c s" and "at ! c \<noteq> Outside \<Longrightarrow> 0 < c_ncli (cpu_at c s)"
    and "0 < held_count c s \<Longrightarrow> 0 < c_ncli (cpu_at c s)"
  using inv_parts(3) [OF assms] held_count_pos [of c s] assms(2) by (auto simp: calm_def cpu_ok_def)

text \<open>One processor moves: what is left to show about its lock and about itself.\<close>

lemma inv_move:
  assumes inv: "spin_inv (at, s)" and c: "c < length (m_cpus s)"
    and cpus: "m_cpus s' = (m_cpus s)[c := x]" and locks: "m_locks s' = (m_locks s)[l := lk]"
    and l: "l < length (m_locks s) \<or> lk = lock_at l s" and others: "\<And>k. k \<noteq> l \<Longrightarrow> \<not> mid at k c \<and> p \<noteq> Won k \<and> p \<noteq> Clears k"
    and lock: "l < length (m_locks s) \<Longrightarrow> lock_ok (at[c := p]) lk l"
    and names: "\<And>d. d \<noteq> c \<Longrightarrow> lk_cpu lk = Some d \<longleftrightarrow> lk_cpu (lock_at l s) = Some d"
    and self: "cpu_ok p x (held_count c s - (if lk_cpu (lock_at l s) = Some c then 1 else 0)
      + (if lk_cpu lk = Some c then 1 else 0)) (length (m_locks s))"
  shows "spin_inv (at[c := p], s')"
proof -
  note parts = inv_parts [OF inv]
  have cl: "c < length at" using c parts(1) by simp
  have cnt: "held_count d s' = held_count d s - (if lk_cpu (lock_at l s) = Some d then 1 else 0)
      + (if lk_cpu lk = Some d then 1 else 0)" for d
    using l by (cases "l < length (m_locks s)") (simp_all add: held_count_def locks map_update sum_list_int_update)
  have "lock_ok (at[c := p]) (lock_at k s') k" if "k < length (m_locks s)" for k
  proof (cases "k = l")
    case False
    then have "mid (at[c := p]) k d = mid at k d" for d using others [OF False] cl by (auto simp: mid_upd)
    with False parts(2) [OF that] show ?thesis by (auto simp: lock_ok_def locks split: option.splits)
  qed (use lock that locks in simp)
  moreover have "cpu_ok (at[c := p] ! d) (cpu_at d s') (held_count d s') (length (m_locks s))" if "d < length (m_cpus s)" for d
    using parts(3) [OF that] self names cl that by (cases "d = c") (simp_all add: cnt cpus)
  ultimately show ?thesis using parts(1) by (simp add: spin_inv_def cpus locks)
qed

text \<open>What each step makes of the state.\<close>

lemma mid_at: "c < length at \<Longrightarrow> mid at l c \<longleftrightarrow> at ! c = Won l \<or> at ! c = Clears l"
  by (simp add: mid_def)

lemma lock_ok_same:
  assumes "c < length at" and "\<not> mid at l c" and "x \<noteq> Won l" and "x \<noteq> Clears l"
  shows "lock_ok (at[c := x]) lk l = lock_ok at lk l"
proof -
  have "mid (at[c := x]) l d = mid at l d" for d using assms by (auto simp: mid_upd)
  then show ?thesis by (auto simp: lock_ok_def split: option.splits)
qed

lemma lock_ok_mid: "mid at l c \<Longrightarrow> lock_ok at lk l \<longleftrightarrow> lk_cpu lk = None \<and> lk_locked lk \<and> (\<forall>d. mid at l d \<longrightarrow> d = c)"
  by (auto simp: lock_ok_def split: option.splits)

text \<open>A processor takes a lock nobody has, or one it has already; or gives it up.\<close>

lemma lock_ok_take:
  assumes "c < length at" and "lock_ok at lk l" and "\<not> lk_locked lk \<or> lk_cpu lk = Some c" and "x = Won l \<or> x = Clears l"
  shows "lock_ok (at[c := x]) \<lparr>lk_locked = True, lk_cpu = None\<rparr> l"
  using assms by (auto simp: lock_ok_def mid_upd split: option.splits)

lemma lock_ok_leave:
  assumes "c < length at" and "lock_ok at lk l" and "mid at l c" and "x \<noteq> Won l" "x \<noteq> Clears l"
  shows "lock_ok (at[c := x]) \<lparr>lk_locked = b, lk_cpu = if b then Some c else None\<rparr> l"
proof -
  have "d = c" if "mid at l d" for d using lock_ok_mid [OF assms(3)] assms(2) that by blast
  then have "\<not> mid (at[c := x]) l d" for d using assms(1,4,5) by (auto simp: mid_upd)
  with assms(1) show ?thesis by (simp add: lock_ok_def)
qed

lemma spin_step_inv:
  assumes "spin_step (at, s) ms" and inv: "spin_inv (at, s)"
  shows "spin_inv ms"
  using assms(1)
proof cases
  case (begin_acquire c l s')
  note parts = inv_parts [OF inv]
  have s': "s' = pushcli c s" using begin_acquire inv_calm(1) [OF inv] by (simp add: acquire_begin_eq split: if_splits)
  have "cpu_ok (Spins l) (cpu_at c s') (held_count c s) (length (m_locks s))"
    using parts(3) [of c] begin_acquire by (auto simp: s' pushcli_eq cpu_ok_def)
  then show ?thesis unfolding begin_acquire(1)
    using begin_acquire parts(1) parts(2) [of l]
    by (intro inv_move [OF inv, where l = l and lk = "lock_at l s" and x = "cpu_at c s'"]) (auto simp: s' pushcli_eq mid_at lock_ok_same)
next
  case (exchange c l won s')
  note parts = inv_parts [OF inv]
  have cl: "c < length at" "\<not> mid at k c" for k using parts(1) exchange by (simp_all add: mid_at)
  have self: "cpu_ok (if won then Won l else Spins l) (cpu_at c s) (held_count c s) (length (m_locks s))" and l: "l < length (m_locks s)"
    using parts(3) [of c] exchange by (auto simp: cpu_ok_def)
  have won: "won \<longleftrightarrow> \<not> lk_locked (lock_at l s)" and s': "s' = upd_lock l (\<lambda>lk. lk\<lparr>lk_locked := True\<rparr>) s"
    using exchange by (simp_all add: acquire_xchg_def)
  have none: "lk_cpu (lock_at l s) = None" if won using parts(2) [OF l] that won by (auto simp: lock_ok_def split: option.splits)
  have "lock_ok (at[c := if won then Won l else Spins l]) ((lock_at l s)\<lparr>lk_locked := True\<rparr>) l"
  proof (cases won)
    case True
    then have "(lock_at l s)\<lparr>lk_locked := True\<rparr> = \<lparr>lk_locked = True, lk_cpu = None\<rparr>" using none by (cases "lock_at l s") simp
    with lock_ok_take [OF cl(1) parts(2) [OF l]] True won show ?thesis by simp
  next
    case False
    then have "(lock_at l s)\<lparr>lk_locked := True\<rparr> = lock_at l s" using won by (cases "lock_at l s") simp
    with lock_ok_same [OF cl] parts(2) [OF l] False show ?thesis by simp
  qed
  with self show ?thesis unfolding exchange(1)
    using cl l none by (intro inv_move [OF inv, where l = l and lk = "(lock_at l s)\<lparr>lk_locked := True\<rparr>" and x = "cpu_at c s"])
      (auto simp: s' exchange(2))
next
  case (end_acquire c l)
  note parts = inv_parts [OF inv]
  have cl: "c < length at" "mid at l c" using parts(1) end_acquire by (simp_all add: mid_at)
  have l: "l < length (m_locks s)" using parts(3) [of c] end_acquire by (simp add: cpu_ok_def)
  have none: "lk_cpu (lock_at l s) = None" "lk_locked (lock_at l s)" using parts(2) [OF l] lock_ok_mid [OF cl(2)] by auto
  then have lk: "(lock_at l s)\<lparr>lk_cpu := Some c\<rparr> = \<lparr>lk_locked = True, lk_cpu = if True then Some c else None\<rparr>" by (cases "lock_at l s") simp
  have "lock_ok (at[c := Outside]) ((lock_at l s)\<lparr>lk_cpu := Some c\<rparr>) l"
    unfolding lk by (rule lock_ok_leave [OF cl(1) parts(2) [OF l] cl(2)]) simp_all
  then show ?thesis unfolding end_acquire(1)
    using parts(3) [of c] end_acquire(2,3) l none cl(1)
    by (intro inv_move [OF inv, where l = l and lk = "(lock_at l s)\<lparr>lk_cpu := Some c\<rparr>" and x = "cpu_at c s"])
      (auto simp: acquire_end_def mid_at cpu_ok_def)
next
  case (begin_release c l s')
  note parts = inv_parts [OF inv]
  have cl: "c < length at" using parts(1) begin_release by simp
  have hold: "lk_locked (lock_at l s)" "lk_cpu (lock_at l s) = Some c" and s': "s' = upd_lock l (\<lambda>lk. lk\<lparr>lk_cpu := None\<rparr>) s"
  proof -
    have "lk_locked (lock_at l s) \<and> lk_cpu (lock_at l s) = Some c"
    proof (rule ccontr)
      assume "\<not> ?thesis"
      then have "release_begin c l s = Inl (Panic ''release'')"
        using inv_calm(1) [OF inv begin_release(2)] unfolding release_begin_def by (simp only: holding_eq) (simp split: if_splits)
      with begin_release(5) show False by simp
    qed
    then show "lk_locked (lock_at l s)" "lk_cpu (lock_at l s) = Some c" by simp_all
    with begin_release inv_calm(1,3) [OF inv begin_release(2)] held_count_member [of l s c]
    show "s' = upd_lock l (\<lambda>lk. lk\<lparr>lk_cpu := None\<rparr>) s" by (simp add: release_begin_eq)
  qed
  then have lk: "(lock_at l s)\<lparr>lk_cpu := None\<rparr> = \<lparr>lk_locked = True, lk_cpu = None\<rparr>" by (cases "lock_at l s") simp
  have "lock_ok (at[c := Clears l]) ((lock_at l s)\<lparr>lk_cpu := None\<rparr>) l"
    unfolding lk using lock_ok_take [OF cl parts(2) [OF begin_release(3)]] hold by simp
  then show ?thesis unfolding begin_release(1)
    using parts(3) [of c] begin_release(2,3,4) hold cl
    by (intro inv_move [OF inv, where l = l and lk = "(lock_at l s)\<lparr>lk_cpu := None\<rparr>" and x = "cpu_at c s"])
      (auto simp: s' mid_at cpu_ok_def)
next
  case (store_release c l)
  note parts = inv_parts [OF inv]
  have cl: "c < length at" "mid at l c" using parts(1) store_release by (simp_all add: mid_at)
  have l: "l < length (m_locks s)" using parts(3) [of c] store_release by (simp add: cpu_ok_def)
  have none: "lk_cpu (lock_at l s) = None" using parts(2) [OF l] lock_ok_mid [OF cl(2)] by auto
  then have lk: "(lock_at l s)\<lparr>lk_locked := False\<rparr> = \<lparr>lk_locked = False, lk_cpu = if False then Some c else None\<rparr>" by (cases "lock_at l s") simp
  have "lock_ok (at[c := Pops]) ((lock_at l s)\<lparr>lk_locked := False\<rparr>) l"
    unfolding lk by (rule lock_ok_leave [OF cl(1) parts(2) [OF l] cl(2)]) simp_all
  then show ?thesis unfolding store_release(1)
    using parts(3) [of c] store_release(2,3) l none cl(1)
    by (intro inv_move [OF inv, where l = l and lk = "(lock_at l s)\<lparr>lk_locked := False\<rparr>" and x = "cpu_at c s"])
      (auto simp: release_store_def mid_at cpu_ok_def)
next
  case (end_release c s')
  note parts = inv_parts [OF inv]
  have cl: "c < length at" using parts(1) end_release by simp
  have s': "s' = upd_cpu c (\<lambda>x. x\<lparr>c_ncli := c_ncli x - 1, c_if := (c_ncli x = 1 \<and> c_intena x)\<rparr>) s"
    using end_release inv_calm(1,2) [OF inv end_release(2)] by (simp add: popcli_eq)
  show ?thesis unfolding end_release(1)
    using parts(3) [of c] parts(2) end_release(2,3) cl
    by (intro inv_move [OF inv, where l = 0 and lk = "lock_at 0 s" and x = "cpu_at c s'"])
      (auto simp: s' mid_at cpu_ok_def lock_ok_same)
next
  case (interrupts c b)
  note parts = inv_parts [OF inv]
  have cl: "c < length at" using parts(1) interrupts by simp
  have "spin_inv (at[c := Outside], upd_cpu c (\<lambda>x. x\<lparr>c_if := b\<rparr>) s)"
    using parts(3) [of c] parts(2) interrupts(2-) cl
    by (intro inv_move [OF inv, where l = 0 and lk = "lock_at 0 s" and x = "(cpu_at c s)\<lparr>c_if := b\<rparr>"])
      (auto simp: mid_at cpu_ok_def lock_ok_same)
  moreover have "at[c := Outside] = at" using interrupts(3) by (metis list_update_id)
  ultimately show ?thesis using interrupts by simp
qed

lemma machine_start_inv: "spin_inv (machine_start n k)"
proof -
  have "held_count c (snd (machine_start n k)) = 0" for c
    by (simp add: held_count_def machine_start_def sum_list_replicate map_replicate_const [symmetric])
  then show ?thesis by (auto simp: spin_inv_def machine_start_def lock_ok_def cpu_ok_def mid_def)
qed

lemma spin_reachable_inv: "spin_step\<^sup>*\<^sup>* (machine_start n k) ms \<Longrightarrow> spin_inv ms"
proof (induction rule: rtranclp_induct)
  case (step ms ms')
  then show ?case using spin_step_inv [of "fst ms" "snd ms"] by simp
qed (rule machine_start_inv)

text \<open>C11: Whatever the interleaving of the processors, at most one of them has a lock at any time, from
  the exchange that wins it to the store that gives it up; a processor counts each of its locks, so its
  interrupts stay off while it has one; and \<open>acquire\<close> and \<open>release\<close> panic exactly when the processor
  already has the lock, or does not have it.\<close>

theorem spin_locks_exclude:
  assumes "spin_step\<^sup>*\<^sup>* (machine_start n k) (at, s)" and "l < length (m_locks s)"
  shows "(has_lock (at, s) c l \<longrightarrow> has_lock (at, s) d l \<longrightarrow> c = d)
    \<and> (c < length (m_cpus s) \<longrightarrow> c_ncli (cpu_at c s) = held_count c s + (if at ! c = Outside then 0 else 1))
    \<and> (c < length (m_cpus s) \<longrightarrow> has_lock (at, s) c l \<longrightarrow> \<not> c_if (cpu_at c s))
    \<and> (c < length (m_cpus s) \<longrightarrow> at ! c = Outside \<longrightarrow>
         acquire_begin c l s = (if has_lock (at, s) c l then Inl (Panic ''acquire'') else Inr (pushcli c s))
         \<and> ((\<exists>s'. release_begin c l s = Inr s') \<longleftrightarrow> has_lock (at, s) c l))"
proof -
  have inv: "spin_inv (at, s)" by (rule spin_reachable_inv [OF assms(1)])
  note parts = inv_parts [OF inv]
  have lk: "lock_ok at (lock_at l s) l" by (rule parts(2) [OF assms(2)])
  have mid: "\<not> mid at l c" if "c < length (m_cpus s)" "at ! c = Outside" using that parts(1) by (simp add: mid_at)
  have one: "has_lock (at, s) c l \<longrightarrow> has_lock (at, s) d l \<longrightarrow> c = d"
    using lk by (auto simp: has_lock_def lock_ok_def split: option.splits)
  have off: "\<not> c_if (cpu_at c s)" and count: "0 < c_ncli (cpu_at c s)" if "c < length (m_cpus s)" "has_lock (at, s) c l"
  proof -
    show "0 < c_ncli (cpu_at c s)"
      using that(2) inv_calm(2,3) [OF inv that(1)] held_count_member [OF assms(2)] mid_at [of c at l] parts(1) that(1)
      by (auto simp: has_lock_def)
    then show "\<not> c_if (cpu_at c s)" using inv_calm(1) [OF inv that(1)] by (simp add: calm_def)
  qed
  have panics: "acquire_begin c l s = (if has_lock (at, s) c l then Inl (Panic ''acquire'') else Inr (pushcli c s))"
      "(\<exists>s'. release_begin c l s = Inr s') \<longleftrightarrow> has_lock (at, s) c l" if "c < length (m_cpus s)" "at ! c = Outside"
  proof -
    have h: "has_lock (at, s) c l \<longleftrightarrow> lk_locked (lock_at l s) \<and> lk_cpu (lock_at l s) = Some c"
      using lk mid [OF that] by (auto simp: has_lock_def lock_ok_def)
    then show "acquire_begin c l s = (if has_lock (at, s) c l then Inl (Panic ''acquire'') else Inr (pushcli c s))"
      using inv_calm(1) [OF inv that(1)] by (simp add: acquire_begin_eq)
    show "(\<exists>s'. release_begin c l s = Inr s') \<longleftrightarrow> has_lock (at, s) c l"
      unfolding h using inv_calm(1) [OF inv that(1)] by (simp add: release_begin_def holding_eq)
  qed
  show ?thesis using one off panics parts(3) [of c] by (simp add: cpu_ok_def)
qed

text \<open>Two processors race for one lock: the first wins it, the second spins.\<close>

theorem spin_locks_exclude_witness:
  "\<exists>s. spin_step\<^sup>*\<^sup>* (machine_start 2 1) ([Won 0, Spins 0], s) \<and> (\<forall>d. has_lock ([Won 0, Spins 0], s) d 0 \<longrightarrow> d = 0)"
proof -
  define s0 where "s0 = snd (machine_start 2 1)"
  have c0: "calm 0 s0" "calm 1 (pushcli 0 s0)" by (simp_all add: s0_def machine_start_def calm_def pushcli_eq numeral_2_eq_2)
  have st: "machine_start 2 1 = ([Outside, Outside], s0)" by (simp add: s0_def machine_start_def numeral_2_eq_2)
  define s2 where "s2 = pushcli 1 (pushcli 0 s0)"
  define s3 where "s3 = upd_lock 0 (\<lambda>lk. lk\<lparr>lk_locked := True\<rparr>) s2"
  have len: "length (m_cpus s0) = 2" "length (m_cpus (pushcli 0 s0)) = 2" "length (m_locks s0) = 1"
      "m_locks (pushcli 0 s0) = m_locks s0" "m_locks s2 = m_locks s0" "length (m_cpus s2) = 2"
      "lk_locked (lock_at 0 s0) = False"
    by (simp_all add: s0_def machine_start_def pushcli_eq s2_def)
  have a: "spin_step ([Outside, Outside], s0) ([Spins 0, Outside], pushcli 0 s0)"
    using begin_acquire [of 0 s0 0 "[Outside, Outside]"] c0 len by (simp add: acquire_begin_eq)
  have b: "spin_step ([Spins 0, Outside], pushcli 0 s0) ([Spins 0, Spins 0], s2)"
    using begin_acquire [of 1 "pushcli 0 s0" 0 "[Spins 0, Outside]"] c0 len by (simp add: acquire_begin_eq s2_def)
  have "spin_step ([Spins 0, Spins 0], s2) ([Won 0, Spins 0], s3)"
    using exchange [of 0 s2 "[Spins 0, Spins 0]" 0 True s3] len by (simp add: acquire_xchg_def s3_def)
  with a b have r: "spin_step\<^sup>*\<^sup>* (machine_start 2 1) ([Won 0, Spins 0], s3)" unfolding st by (meson converse_rtranclp_into_rtranclp rtranclp.rtrancl_refl)
  moreover have "has_lock ([Won 0, Spins 0], s3) 0 0" by (simp add: has_lock_def mid_def)
  ultimately show ?thesis using spin_locks_exclude [OF r, of 0 0] len by (auto simp: s3_def)
qed

end
