(* ===== verification/Bio.thy ===== *)
theory Bio
  imports Log Locks
begin

text \<open>
  The buffer cache (\<open>bio.c\<close>, \<open>buf.h\<close>) over the disk in memory (\<open>memide.c\<close>).  Buffers are entries of
  an array, their \<open>prev\<close> and \<open>next\<close> pointers are indices, and the entry after the last buffer is
  \<open>bcache.head\<close>.  A step relation interleaves the calls of any number of processes.
\<close>

section \<open>State\<close>

definition NBUF :: nat where "NBUF = MAXOPBLOCKS * 3"
definition B_VALID :: u32 where "B_VALID = 2"
definition B_DIRTY :: u32 where "B_DIRTY = 4"

record buf =
  b_flags :: u32
  b_dev :: nat
  b_blockno :: nat
  b_lock :: sleeplock
  b_refcnt :: u32
  b_prev :: nat
  b_next :: nat
  b_data :: block

record bcache =
  bc_bufs :: "buf list"
  bc_memdisk :: "nat \<Rightarrow> block"
  bc_disksize :: nat

abbreviation HEAD :: nat where "HEAD \<equiv> NBUF"
abbreviation buf_at :: "nat \<Rightarrow> bcache \<Rightarrow> buf" where "buf_at b s \<equiv> bc_bufs s ! b"

definition upd_buf :: "nat \<Rightarrow> (buf \<Rightarrow> buf) \<Rightarrow> bcache \<Rightarrow> bcache" where
  "upd_buf b f s = s\<lparr>bc_bufs := (bc_bufs s)[b := f (bc_bufs s ! b)]\<rparr>"

section \<open>The ring of buffers\<close>

text \<open>Put a buffer behind the head; take it out of the ring.\<close>

definition link_front :: "nat \<Rightarrow> bcache \<Rightarrow> bcache" where
  "link_front b s =
     (let s = upd_buf b (\<lambda>x. x\<lparr>b_next := b_next (buf_at HEAD s)\<rparr>) s;
          s = upd_buf b (\<lambda>x. x\<lparr>b_prev := HEAD\<rparr>) s;
          s = upd_buf (b_next (buf_at HEAD s)) (\<lambda>x. x\<lparr>b_prev := b\<rparr>) s in
      upd_buf HEAD (\<lambda>x. x\<lparr>b_next := b\<rparr>) s)"

definition unlink :: "nat \<Rightarrow> bcache \<Rightarrow> bcache" where
  "unlink b s =
     (let s = upd_buf (b_next (buf_at b s)) (\<lambda>x. x\<lparr>b_prev := b_prev (buf_at b s)\<rparr>) s in
      upd_buf (b_prev (buf_at b s)) (\<lambda>x. x\<lparr>b_next := b_next (buf_at b s)\<rparr>) s)"

definition binit :: "bcache \<Rightarrow> bcache" where
  "binit s =
     fold (\<lambda>b s. link_front b (upd_buf b (\<lambda>x. x\<lparr>b_lock := initsleeplock\<rparr>) s)) [0..<NBUF]
       (upd_buf HEAD (\<lambda>x. x\<lparr>b_prev := HEAD, b_next := HEAD\<rparr>) s)"

section \<open>Finding a buffer\<close>

partial_function (option) scan :: "(buf \<Rightarrow> nat) \<Rightarrow> (buf \<Rightarrow> bool) \<Rightarrow> nat \<Rightarrow> bcache \<Rightarrow> nat option option" where
  "scan dir P b s =
     (if b = HEAD then Some None
      else if P (buf_at b s) then Some (Some b)
      else scan dir P (dir (buf_at b s)) s)"

text \<open>
  \<open>bget\<close> up to the call of \<open>acquiresleep\<close>: the buffer that will be locked.  The result is \<open>None\<close> when
  a scan does not come back to the head.
\<close>

definition bget :: "nat \<Rightarrow> nat \<Rightarrow> bcache \<Rightarrow> (nat \<times> bcache) res option" where
  "bget dev blockno s =
     Option.bind (scan b_next (\<lambda>x. b_dev x = dev \<and> b_blockno x = blockno) (b_next (buf_at HEAD s)) s) (\<lambda>r.
       case r of
         Some b \<Rightarrow> Some (Inr (b, upd_buf b (\<lambda>x. x\<lparr>b_refcnt := b_refcnt x + 1\<rparr>) s))
       | None \<Rightarrow>
           Option.bind (scan b_prev (\<lambda>x. b_refcnt x = 0 \<and> b_flags x AND B_DIRTY = 0) (b_prev (buf_at HEAD s)) s) (\<lambda>r.
             case r of
               Some b \<Rightarrow> Some (Inr (b, upd_buf b (\<lambda>x. x\<lparr>b_dev := dev, b_blockno := blockno, b_flags := 0, b_refcnt := 1\<rparr>) s))
             | None \<Rightarrow> Some (Inl (Panic ''bget: no buffers''))))"

section \<open>Disk and buffers\<close>

definition iderw :: "int \<Rightarrow> nat \<Rightarrow> bcache \<Rightarrow> bcache res" where
  "iderw pid b s =
     (let x = buf_at b s in
      if \<not> holdingsleep pid (b_lock x) then Inl (Panic ''iderw: buf not locked'')
      else if b_flags x AND (B_VALID OR B_DIRTY) = B_VALID then Inl (Panic ''iderw: nothing to do'')
      else if b_dev x \<noteq> 1 then Inl (Panic ''iderw: request not for disk 1'')
      else if b_blockno x \<ge> bc_disksize s then Inl (Panic ''iderw: block out of range'')
      else
        let s = (if b_flags x AND B_DIRTY \<noteq> 0
                 then (upd_buf b (\<lambda>x. x\<lparr>b_flags := b_flags x AND NOT B_DIRTY\<rparr>) s)
                        \<lparr>bc_memdisk := (bc_memdisk s)(b_blockno x := b_data x)\<rparr>
                 else upd_buf b (\<lambda>y. y\<lparr>b_data := bc_memdisk s (b_blockno x)\<rparr>) s) in
        Inr (upd_buf b (\<lambda>x. x\<lparr>b_flags := b_flags x OR B_VALID\<rparr>) s))"

text \<open>\<open>bread\<close> once \<open>bget\<close> has found the buffer: wait for its lock, read the block if need be.\<close>

definition bread_found :: "int \<Rightarrow> nat \<Rightarrow> bcache \<Rightarrow> bcache res" where
  "bread_found pid b s =
     bindR (acquiresleep pid (b_lock (buf_at b s))) (\<lambda>lk.
       let s = upd_buf b (\<lambda>x. x\<lparr>b_lock := lk\<rparr>) s in
       if b_flags (buf_at b s) AND B_VALID = 0 then iderw pid b s else Inr s)"

definition bread_buf :: "int \<Rightarrow> nat \<Rightarrow> nat \<Rightarrow> bcache \<Rightarrow> (nat \<times> bcache) res option" where
  "bread_buf pid dev blockno s =
     map_option (\<lambda>r. bindR r (\<lambda>(b, s). bindR (bread_found pid b s) (\<lambda>s. Inr (b, s)))) (bget dev blockno s)"

definition bwrite_buf :: "int \<Rightarrow> nat \<Rightarrow> bcache \<Rightarrow> bcache res" where
  "bwrite_buf pid b s =
     (if \<not> holdingsleep pid (b_lock (buf_at b s)) then Inl (Panic ''bwrite'')
      else iderw pid b (upd_buf b (\<lambda>x. x\<lparr>b_flags := b_flags x OR B_DIRTY\<rparr>) s))"

definition brelse :: "int \<Rightarrow> nat \<Rightarrow> bcache \<Rightarrow> bcache res" where
  "brelse pid b s =
     (if \<not> holdingsleep pid (b_lock (buf_at b s)) then Inl (Panic ''brelse'')
      else
        let s = upd_buf b (\<lambda>x. x\<lparr>b_lock := releasesleep (b_lock x), b_refcnt := b_refcnt x - 1\<rparr>) s in
        Inr (if b_refcnt (buf_at b s) = 0 then link_front b (unlink b s) else s))"

section \<open>Rings\<close>

text \<open>The nodes of the list are linked in both directions.\<close>

fun linked :: "(nat \<Rightarrow> nat) \<Rightarrow> (nat \<Rightarrow> nat) \<Rightarrow> nat list \<Rightarrow> bool" where
  "linked nx pv (x # y # zs) \<longleftrightarrow> nx x = y \<and> pv y = x \<and> linked nx pv (y # zs)"
| "linked nx pv _ \<longleftrightarrow> True"

lemma linked_append: "linked nx pv (xs @ x # ys) \<longleftrightarrow> linked nx pv (xs @ [x]) \<and> linked nx pv (x # ys)"
  by (induction nx pv xs rule: linked.induct) (auto simp: neq_Nil_conv; (case_tac ys; simp))+

lemma linked_nx_upd: "n \<notin> set (butlast xs) \<Longrightarrow> linked (nx(n := v)) pv xs \<longleftrightarrow> linked nx pv xs"
  by (induction nx pv xs rule: linked.induct) auto

lemma linked_pv_upd: "n \<notin> set (tl xs) \<Longrightarrow> linked nx (pv(n := v)) xs \<longleftrightarrow> linked nx pv xs"
  by (induction nx pv xs rule: linked.induct) auto

lemma linked_front:
  assumes "linked nx pv (h # os @ [h])" and "b \<notin> set os" and "b \<noteq> h" and "h \<notin> set os" and "distinct os"
  shows "linked (nx(b := nx h, h := b)) (pv(b := h, nx h := b)) (h # b # os @ [h])"
proof -
  obtain y ys where o: "os @ [h] = y # ys" by (cases os) auto
  have y: "nx h = y" using assms(1) by (simp add: o)
  have "distinct (y # ys)" "b \<notin> set (y # ys)" unfolding o [symmetric] using assms(2-5) by simp_all
  moreover have "y \<in> set (os @ [h])" unfolding o by simp
  moreover have "set (butlast (y # ys)) = set os" unfolding o [symmetric] by simp
  ultimately have d: "y \<in> insert h (set os)" "set (butlast (y # ys)) = set os" "y \<notin> set ys" "b \<notin> set ys" by simp_all
  have "linked nx pv (y # ys)" using assms(1) by (simp add: o)
  then have "linked (nx(b := nx h, h := b)) (pv(b := h, nx h := b)) (y # ys)"
    using d assms(2,4) by (simp add: linked_nx_upd linked_pv_upd y)
  then show ?thesis using y d assms(2,3) by (auto simp: o)
qed

lemma linked_out:
  assumes "linked nx pv (h # l1 @ b # l2 @ [h])" and "distinct (l1 @ b # l2)" and "h \<notin> set (l1 @ b # l2)"
  shows "linked (nx(pv b := nx b)) (pv(nx b := pv b)) (h # l1 @ l2 @ [h])"
    and "nx b \<in> set (l2 @ [h])" and "pv b \<in> set (h # l1)"
proof -
  obtain k x where x: "h # l1 = k @ [x]" by (metis append_butlast_last_id list.distinct(1))
  obtain y r where y: "l2 @ [h] = y # r" by (cases l2) auto
  have all: "h # l1 @ b # l2 @ [h] = k @ x # b # y # r" using x y by (metis append_Cons append_assoc append_Nil)
  have l: "linked nx pv (k @ [x])" "nx x = b" "pv b = x" "nx b = y" "pv y = b" "linked nx pv (y # r)"
    using assms(1) linked_append [of nx pv k x "b # y # r"] unfolding all by simp_all
  have "distinct (k @ [x])" unfolding x [symmetric] using assms(2,3) by simp
  moreover have "x \<in> set (h # l1)" unfolding x by simp
  ultimately have x': "x \<notin> set k" "x \<notin> set l2" using assms(2,3) by auto
  have tl: "set (tl (k @ [x])) = set l1" unfolding x [symmetric] by simp
  have "distinct (y # r)" unfolding y [symmetric] using assms(2,3) by simp
  moreover have "y \<in> set (l2 @ [h])" unfolding y by simp
  ultimately have y': "y \<notin> set l1" "y \<notin> set r" using assms(2,3) by auto
  have y'': "set (butlast (y # r)) = set l2" unfolding y [symmetric] by simp
  have "linked (nx(x := y)) (pv(y := x)) (k @ x # y # r)"
    using l x' y' y'' tl linked_append [of "nx(x := y)" "pv(y := x)" k x "y # r"] by (simp add: linked_nx_upd linked_pv_upd)
  moreover have "k @ x # y # r = h # l1 @ l2 @ [h]" using x y by (metis append_Cons append_assoc append_Nil)
  ultimately show "linked (nx(pv b := nx b)) (pv(nx b := pv b)) (h # l1 @ l2 @ [h])" using l by simp
  show "nx b \<in> set (l2 @ [h])" "pv b \<in> set (h # l1)" using l(3,4) x y by simp_all
qed

section \<open>The ring of the cache\<close>

abbreviation bnext :: "bcache \<Rightarrow> nat \<Rightarrow> nat" where "bnext s \<equiv> \<lambda>b. b_next (buf_at b s)"
abbreviation bprev :: "bcache \<Rightarrow> nat \<Rightarrow> nat" where "bprev s \<equiv> \<lambda>b. b_prev (buf_at b s)"

text \<open>The buffers \<open>os\<close> are in the ring, in this order from the head on.\<close>

definition ring :: "nat list \<Rightarrow> bcache \<Rightarrow> bool" where
  "ring os s \<longleftrightarrow> length (bc_bufs s) = Suc NBUF \<and> distinct os \<and> set os \<subseteq> {..<NBUF} \<and> linked (bnext s) (bprev s) (HEAD # os @ [HEAD])"

lemma upd_buf_sel [simp]:
  "bc_memdisk (upd_buf b f s) = bc_memdisk s" "bc_disksize (upd_buf b f s) = bc_disksize s"
  "length (bc_bufs (upd_buf b f s)) = length (bc_bufs s)"
  by (simp_all add: upd_buf_def)

lemma buf_at_upd: "b < length (bc_bufs s) \<Longrightarrow> buf_at c (upd_buf b f s) = (if c = b then f (buf_at b s) else buf_at c s)"
  by (simp add: upd_buf_def nth_list_update)

lemma upd_buf_keeps:
  assumes "\<And>x. g (f x) = g x"
  shows "g (buf_at c (upd_buf b f s)) = g (buf_at c s)"
proof (cases "c = b \<and> b < length (bc_bufs s)")
  case False
  then have "(bc_bufs s)[b := f (buf_at b s)] ! c = buf_at c s" by (cases "c = b") (simp_all add: list_update_beyond)
  then show ?thesis by (simp add: upd_buf_def)
qed (simp add: buf_at_upd assms)

lemma ring_upd:
  assumes "\<And>x. b_next (f x) = b_next x" and "\<And>x. b_prev (f x) = b_prev x"
  shows "ring os (upd_buf b f s) = ring os s"
proof -
  have "bnext (upd_buf b f s) = bnext s" "bprev (upd_buf b f s) = bprev s"
    using upd_buf_keeps [of b_next f, OF assms(1)] upd_buf_keeps [of b_prev f, OF assms(2)] by blast+
  then show ?thesis by (simp add: ring_def)
qed

lemma link_front_ring:
  assumes "ring os s" and "b < NBUF" and "b \<notin> set os"
  shows "ring (b # os) (link_front b s)"
proof -
  have len: "length (bc_bufs s) = Suc NBUF" and y: "bnext s HEAD < Suc NBUF"
    using assms by (auto simp: ring_def neq_Nil_conv) (cases os; auto)+
  have "bnext (link_front b s) = (bnext s)(b := bnext s HEAD, HEAD := b)" "bprev (link_front b s) = (bprev s)(b := HEAD, bnext s HEAD := b)"
    using len y assms(2) by (auto simp: link_front_def Let_def buf_at_upd fun_eq_iff)
  moreover have "linked ((bnext s)(b := bnext s HEAD, HEAD := b)) ((bprev s)(b := HEAD, bnext s HEAD := b)) (HEAD # b # os @ [HEAD])"
    by (rule linked_front) (use assms in \<open>auto simp: ring_def\<close>)
  moreover have "length (bc_bufs (link_front b s)) = Suc NBUF" using len by (simp add: link_front_def Let_def)
  ultimately show ?thesis using assms unfolding ring_def by (simp only: append_Cons distinct.simps list.set insert_subset lessThan_iff simp_thms)
qed

lemma unlink_ring:
  assumes "ring (l1 @ b # l2) s"
  shows "ring (l1 @ l2) (unlink b s)"
proof -
  have len: "length (bc_bufs s) = Suc NBUF" and l: "linked (bnext s) (bprev s) (HEAD # l1 @ b # l2 @ [HEAD])"
    and d: "distinct (l1 @ b # l2)" "set (l1 @ b # l2) \<subseteq> {..<NBUF}"
    using assms by (auto simp: ring_def)
  have "bnext s b \<in> set (l2 @ [HEAD])" "bprev s b \<in> set (HEAD # l1)"
    using linked_out(2,3) [OF l d(1)] d(2) by auto
  then have r: "bnext s b < Suc NBUF" "bprev s b < Suc NBUF" "bnext s b \<noteq> b" "b < Suc NBUF" using d by auto
  have "bnext (unlink b s) = (bnext s)(bprev s b := bnext s b)" "bprev (unlink b s) = (bprev s)(bnext s b := bprev s b)"
    using len r by (auto simp: unlink_def Let_def buf_at_upd fun_eq_iff)
  moreover have "linked ((bnext s)(bprev s b := bnext s b)) ((bprev s)(bnext s b := bprev s b)) (HEAD # (l1 @ l2) @ [HEAD])"
    using linked_out(1) [OF l d(1)] d(2) by auto
  moreover have "length (bc_bufs (unlink b s)) = Suc NBUF" using len by (simp add: unlink_def Let_def)
  moreover have "distinct (l1 @ l2)" "set (l1 @ l2) \<subseteq> {..<NBUF}" using d by auto
  ultimately show ?thesis unfolding ring_def by (simp only: simp_thms)
qed

lemma linked_rev: "linked nx pv xs \<Longrightarrow> linked pv nx (rev xs)"
proof (induction nx pv xs rule: linked.induct)
  case (1 nx pv x y zs)
  then show ?case using linked_append [of pv nx "rev zs" y "[x]"] by simp
qed simp_all

lemma scan_find:
  assumes "linked (\<lambda>b. dir (buf_at b s)) q (os @ [HEAD])" and "HEAD \<notin> set os"
  shows "scan dir P (hd (os @ [HEAD])) s = Some (find (\<lambda>b. P (buf_at b s)) os)"
  using assms
proof (induction os)
  case (Cons b os)
  obtain y ys where y: "os @ [HEAD] = y # ys" by (cases os) auto
  with Cons.prems have "dir (buf_at b s) = hd (os @ [HEAD])" "linked (\<lambda>b. dir (buf_at b s)) q (os @ [HEAD])" by simp_all
  with Cons show ?case by (subst scan.simps) simp
qed (subst scan.simps, simp)

text \<open>\<open>bget\<close> on a ring: the buffer of the block, or the last buffer of the ring that is free and clean.\<close>

lemma bget_ring:
  assumes "ring os s"
  shows "bget dev blockno s = Some
    (case find (\<lambda>b. b_dev (buf_at b s) = dev \<and> b_blockno (buf_at b s) = blockno) os of
       Some b \<Rightarrow> Inr (b, upd_buf b (\<lambda>x. x\<lparr>b_refcnt := b_refcnt x + 1\<rparr>) s)
     | None \<Rightarrow>
        (case find (\<lambda>b. b_refcnt (buf_at b s) = 0 \<and> b_flags (buf_at b s) AND B_DIRTY = 0) (rev os) of
           Some b \<Rightarrow> Inr (b, upd_buf b (\<lambda>x. x\<lparr>b_dev := dev, b_blockno := blockno, b_flags := 0, b_refcnt := 1\<rparr>) s)
         | None \<Rightarrow> Inl (Panic ''bget: no buffers'')))"
proof -
  have l: "linked (bnext s) (bprev s) (HEAD # os @ [HEAD])" and h: "HEAD \<notin> set os" using assms by (auto simp: ring_def)
  obtain y ys where y: "os @ [HEAD] = y # ys" by (cases os) auto
  then have f: "bnext s HEAD = hd (os @ [HEAD])" "linked (bnext s) (bprev s) (os @ [HEAD])" using l by simp_all
  have "linked (bprev s) (bnext s) (HEAD # rev os @ [HEAD])" using linked_rev [OF l] by simp
  moreover obtain z zs where z: "rev os @ [HEAD] = z # zs" by (cases "rev os") auto
  ultimately have b: "bprev s HEAD = hd (rev os @ [HEAD])" "linked (bprev s) (bnext s) (rev os @ [HEAD])" by simp_all
  show ?thesis
    using scan_find [of b_next s, OF f(2) h] scan_find [of b_prev s, OF b(2)] h
    by (simp add: bget_def f(1) b(1) split: option.splits)
qed

lemma binit_ring:
  assumes "length (bc_bufs s) = Suc NBUF"
  shows "ring (rev [0..<NBUF]) (binit s)"
proof -
  let ?s = "upd_buf HEAD (\<lambda>x. x\<lparr>b_prev := HEAD, b_next := HEAD\<rparr>) s"
  have "ring (rev [0..<n]) (fold (\<lambda>b s. link_front b (upd_buf b (\<lambda>x. x\<lparr>b_lock := initsleeplock\<rparr>) s)) [0..<n] ?s)"
    if "n \<le> NBUF" for n
    using that
  proof (induction n)
    case 0
    then show ?case using assms by (simp add: ring_def buf_at_upd)
  next
    case (Suc n)
    then show ?case using link_front_ring [of "rev [0..<n]" _ n] by (simp add: ring_upd)
  qed
  then show ?thesis by (simp add: binit_def)
qed

text \<open>What the ring operations leave of the buffers: everything but the links.\<close>

definition contents :: "buf \<Rightarrow> u32 \<times> nat \<times> nat \<times> sleeplock \<times> u32 \<times> block" where
  "contents x = (b_flags x, b_dev x, b_blockno x, b_lock x, b_refcnt x, b_data x)"

lemma contents_upd [simp]:
  "contents (x\<lparr>b_next := i\<rparr>) = contents x" "contents (x\<lparr>b_prev := i\<rparr>) = contents x"
  by (simp_all add: contents_def)

lemma contents_links:
  "contents (buf_at c (link_front b s)) = contents (buf_at c s)" "contents (buf_at c (unlink b s)) = contents (buf_at c s)"
  unfolding link_front_def unlink_def Let_def by (simp_all add: upd_buf_keeps [where g = contents])

lemma links_disk [simp]:
  "bc_memdisk (link_front b s) = bc_memdisk s" "bc_disksize (link_front b s) = bc_disksize s"
  "bc_memdisk (unlink b s) = bc_memdisk s" "bc_disksize (unlink b s) = bc_disksize s"
  by (simp_all add: link_front_def unlink_def Let_def)

section \<open>The cache in use\<close>

text \<open>
  The cache with two ghost fields: the number of processes that wait in \<open>bget\<close> for the lock of each
  buffer, and the data of each buffer when it was last read, pinned or written.  A label tells what
  a step means for the blocks: a process reads one, pins new data in the cache (the end of
  \<open>log_write\<close>) or writes new data to the disk.  A process may change the data of a buffer whose
  lock it has, but releases it only when it has pinned or written the change.
\<close>

record config =
  cf_cache :: bcache
  cf_wait :: "nat \<Rightarrow> nat"
  cf_sync :: "nat \<Rightarrow> block"

datatype blabel = Silent | Read nat block | Pin nat block | Write nat block

inductive bstep :: "config \<Rightarrow> blabel \<Rightarrow> config \<Rightarrow> bool" where
  step_get: "bget 1 blk s = Some (Inr (b, s')) \<Longrightarrow> blk < bc_disksize s \<Longrightarrow> w b + 2 < 2 ^ 32 \<Longrightarrow>
    bstep \<lparr>cf_cache = s, cf_wait = w, cf_sync = y\<rparr> Silent \<lparr>cf_cache = s', cf_wait = w(b := w b + 1), cf_sync = y\<rparr>"
| step_read: "b < NBUF \<Longrightarrow> 0 < w b \<Longrightarrow> bread_found pid b s = Inr s' \<Longrightarrow>
    bstep \<lparr>cf_cache = s, cf_wait = w, cf_sync = y\<rparr> (Read (b_blockno (buf_at b s')) (b_data (buf_at b s')))
      \<lparr>cf_cache = s', cf_wait = w(b := w b - 1), cf_sync = y(b := b_data (buf_at b s'))\<rparr>"
| step_change: "b < NBUF \<Longrightarrow> holdingsleep pid (b_lock (buf_at b s)) \<Longrightarrow>
    bstep \<lparr>cf_cache = s, cf_wait = w, cf_sync = y\<rparr> Silent
      \<lparr>cf_cache = upd_buf b (\<lambda>x. x\<lparr>b_data := d\<rparr>) s, cf_wait = w, cf_sync = y\<rparr>"
| step_pin: "b < NBUF \<Longrightarrow> holdingsleep pid (b_lock (buf_at b s)) \<Longrightarrow>
    bstep \<lparr>cf_cache = s, cf_wait = w, cf_sync = y\<rparr> (Pin (b_blockno (buf_at b s)) (b_data (buf_at b s)))
      \<lparr>cf_cache = upd_buf b (\<lambda>x. x\<lparr>b_flags := b_flags x OR B_DIRTY\<rparr>) s, cf_wait = w, cf_sync = y(b := b_data (buf_at b s))\<rparr>"
| step_write: "b < NBUF \<Longrightarrow> bwrite_buf pid b s = Inr s' \<Longrightarrow>
    bstep \<lparr>cf_cache = s, cf_wait = w, cf_sync = y\<rparr> (Write (b_blockno (buf_at b s)) (b_data (buf_at b s)))
      \<lparr>cf_cache = s', cf_wait = w, cf_sync = y(b := b_data (buf_at b s))\<rparr>"
| step_release: "b < NBUF \<Longrightarrow> b_data (buf_at b s) = y b \<Longrightarrow> brelse pid b s = Inr s' \<Longrightarrow>
    bstep \<lparr>cf_cache = s, cf_wait = w, cf_sync = y\<rparr> Silent \<lparr>cf_cache = s', cf_wait = w, cf_sync = y\<rparr>"

inductive bruns :: "config \<Rightarrow> blabel list \<Rightarrow> config \<Rightarrow> bool" where
  bruns_none: "bruns c [] c"
| bruns_more: "bruns c ls c' \<Longrightarrow> bstep c' l c'' \<Longrightarrow> bruns c (ls @ [l]) c''"

text \<open>The state after \<open>binit\<close> on zeroed memory.\<close>

definition zero_buf :: buf where
  "zero_buf = \<lparr>b_flags = 0, b_dev = 0, b_blockno = 0, b_lock = initsleeplock, b_refcnt = 0, b_prev = 0, b_next = 0,
     b_data = replicate BSIZE 0\<rparr>"

definition cache_start :: "(nat \<Rightarrow> block) \<Rightarrow> nat \<Rightarrow> config" where
  "cache_start dsk n =
     \<lparr>cf_cache = binit \<lparr>bc_bufs = replicate (Suc NBUF) zero_buf, bc_memdisk = dsk, bc_disksize = n\<rparr>,
      cf_wait = \<lambda>_. 0, cf_sync = \<lambda>_. []\<rparr>"

section \<open>Invariant\<close>

definition buf_ok :: "(nat \<Rightarrow> block) \<Rightarrow> nat \<Rightarrow> nat \<Rightarrow> block \<Rightarrow> buf \<Rightarrow> bool" where
  "buf_ok dsk n w y x \<longleftrightarrow>
     b_flags x \<in> {0, B_VALID, B_VALID OR B_DIRTY} \<and>
     (b_dev x = 0 \<and> b_flags x = 0 \<and> b_refcnt x = 0 \<or> b_dev x = 1 \<and> b_blockno x < n) \<and>
     unat (b_refcnt x) = w + (if sl_locked (b_lock x) then 1 else 0) \<and>
     (b_flags x \<noteq> 0 \<longrightarrow> \<not> sl_locked (b_lock x) \<longrightarrow> b_data x = y) \<and>
     (b_flags x = B_VALID \<longrightarrow> y = dsk (b_blockno x)) \<and>
     (sl_locked (b_lock x) \<longrightarrow> b_flags x \<noteq> 0)"

definition cache_inv :: "config \<Rightarrow> bool" where
  "cache_inv cf \<longleftrightarrow>
     (\<exists>os. ring os (cf_cache cf) \<and> set os = {..<NBUF}) \<and>
     (\<forall>b c. b < NBUF \<longrightarrow> c < NBUF \<longrightarrow> b_dev (buf_at b (cf_cache cf)) = 1 \<longrightarrow> b_dev (buf_at c (cf_cache cf)) = 1 \<longrightarrow>
        b_blockno (buf_at b (cf_cache cf)) = b_blockno (buf_at c (cf_cache cf)) \<longrightarrow> b = c) \<and>
     (\<forall>b < NBUF. buf_ok (bc_memdisk (cf_cache cf)) (bc_disksize (cf_cache cf)) (cf_wait cf b) (cf_sync cf b) (buf_at b (cf_cache cf)))"

definition unique_keys :: "bcache \<Rightarrow> bool" where
  "unique_keys s \<longleftrightarrow> (\<forall>b c. b < NBUF \<longrightarrow> c < NBUF \<longrightarrow> b_dev (buf_at b s) = 1 \<longrightarrow> b_dev (buf_at c s) = 1 \<longrightarrow>
     b_blockno (buf_at b s) = b_blockno (buf_at c s) \<longrightarrow> b = c)"

lemma unique_keysD:
  "unique_keys s \<Longrightarrow> b < NBUF \<Longrightarrow> c < NBUF \<Longrightarrow> b_dev (buf_at b s) = 1 \<Longrightarrow> b_dev (buf_at c s) = 1 \<Longrightarrow>
    b_blockno (buf_at b s) = b_blockno (buf_at c s) \<Longrightarrow> b = c"
  unfolding unique_keys_def by blast

lemma cache_inv_iff:
  "cache_inv \<lparr>cf_cache = s, cf_wait = w, cf_sync = y\<rparr> \<longleftrightarrow>
     (\<exists>os. ring os s \<and> set os = {..<NBUF}) \<and> unique_keys s \<and>
     (\<forall>b < NBUF. buf_ok (bc_memdisk s) (bc_disksize s) (w b) (y b) (buf_at b s))"
  by (simp add: cache_inv_def unique_keys_def)

lemma contentsD:
  assumes "contents x = contents x'"
  shows "b_flags x = b_flags x'" "b_dev x = b_dev x'" "b_blockno x = b_blockno x'" "b_lock x = b_lock x'"
    "b_refcnt x = b_refcnt x'" "b_data x = b_data x'"
  using assms by (simp_all add: contents_def)

lemma buf_ok_contents: "contents x = contents x' \<Longrightarrow> buf_ok d n w y x = buf_ok d n w y x'"
  by (frule contentsD(1), frule contentsD(2), frule contentsD(3), frule contentsD(4), frule contentsD(5), drule contentsD(6))
    (simp only: buf_ok_def)

lemma flag_bits [simp]:
  "0 AND B_DIRTY = 0" "B_VALID AND B_DIRTY = 0" "(B_VALID OR B_DIRTY) AND B_DIRTY \<noteq> 0" "B_VALID AND B_VALID \<noteq> 0"
  "(B_VALID OR B_DIRTY) AND B_VALID \<noteq> 0" "B_VALID \<noteq> 0" "B_VALID OR B_DIRTY \<noteq> 0" "B_VALID OR B_DIRTY \<noteq> B_VALID"
  "B_VALID AND (B_VALID OR B_DIRTY) = B_VALID" "(B_VALID OR B_DIRTY) AND NOT B_DIRTY = B_VALID" "(B_VALID OR B_DIRTY) OR B_VALID = B_VALID OR B_DIRTY"
  "(B_VALID OR B_DIRTY) OR B_DIRTY = B_VALID OR B_DIRTY" "0 AND B_VALID = 0" "B_DIRTY \<noteq> 0"
  by (simp_all add: B_VALID_def B_DIRTY_def)

text \<open>One buffer changes.\<close>

lemma inv_change:
  assumes inv: "cache_inv \<lparr>cf_cache = s, cf_wait = w, cf_sync = y\<rparr>" and b: "b < NBUF"
    and ring: "\<exists>os. ring os s' \<and> set os = {..<NBUF}" and size: "bc_disksize s' = bc_disksize s"
    and others: "\<And>c. c \<noteq> b \<Longrightarrow> contents (buf_at c s') = contents (buf_at c s)"
    and dsk: "bc_memdisk s' = (bc_memdisk s)(b_blockno (buf_at b s) := d)"
    and old: "d = bc_memdisk s (b_blockno (buf_at b s)) \<or> b_dev (buf_at b s) = 1"
    and new: "buf_ok (bc_memdisk s') (bc_disksize s) w' y' (buf_at b s')"
    and key: "\<And>c. c < NBUF \<Longrightarrow> c \<noteq> b \<Longrightarrow> b_dev (buf_at c s) = 1 \<Longrightarrow> b_dev (buf_at b s') = 1 \<Longrightarrow>
      b_blockno (buf_at c s) \<noteq> b_blockno (buf_at b s')"
  shows "cache_inv \<lparr>cf_cache = s', cf_wait = w(b := w'), cf_sync = y(b := y')\<rparr>"
proof -
  note parts = inv [unfolded cache_inv_iff]
  have u: "unique_keys s'"
    unfolding unique_keys_def
  proof (intro allI impI)
    fix c e assume a: "c < NBUF" "e < NBUF" "b_dev (buf_at c s') = 1" "b_dev (buf_at e s') = 1"
      "b_blockno (buf_at c s') = b_blockno (buf_at e s')"
    have k: "b_dev (buf_at i s') = b_dev (buf_at i s)" "b_blockno (buf_at i s') = b_blockno (buf_at i s)" if "i \<noteq> b" for i
      using contentsD [OF others [OF that]] by simp_all
    have uk: "c = e" if "c \<noteq> b" "e \<noteq> b" using parts a that unfolding unique_keys_def k [OF that(1)] k [OF that(2)] by blast
    have "False" if "c = b" "e \<noteq> b" using key [of e] a that k [OF that(2)] by simp
    moreover have "False" if "e = b" "c \<noteq> b" using key [of c] a that k [OF that(2)] by simp
    ultimately show "c = e" using uk by blast
  qed
  have "buf_ok (bc_memdisk s') (bc_disksize s') ((w(b := w')) c) ((y(b := y')) c) (buf_at c s')" if c: "c < NBUF" for c
  proof (cases "c = b")
    case False
    have ok: "buf_ok (bc_memdisk s) (bc_disksize s) (w c) (y c) (buf_at c s)" using parts c by blast
    have dev: "b_dev (buf_at c s) = 1" if "b_flags (buf_at c s) \<noteq> 0" using ok that unfolding buf_ok_def by blast
    have "bc_memdisk s' (b_blockno (buf_at c s)) = bc_memdisk s (b_blockno (buf_at c s))" if "b_flags (buf_at c s) \<noteq> 0"
    proof (cases "b_blockno (buf_at c s) = b_blockno (buf_at b s)")
      case True
      with parts dev [OF that] c b False have "b_dev (buf_at b s) \<noteq> 1" unfolding unique_keys_def by blast
      with old True show ?thesis by (simp add: dsk)
    qed (simp add: dsk)
    with ok have "buf_ok (bc_memdisk s') (bc_disksize s) (w c) (y c) (buf_at c s)" by (auto simp: buf_ok_def)
    with False show ?thesis using buf_ok_contents [OF others [OF False]] by (simp add: size)
  qed (use new size in simp)
  with u ring show ?thesis by (simp add: cache_inv_iff)
qed

lemma find_SomeD: "find P xs = Some x \<Longrightarrow> x \<in> set xs \<and> P x"
  by (induction xs) (auto split: if_splits)

lemma find_first: "find P xs = Some b \<Longrightarrow> c \<in> set (takeWhile (\<lambda>c. c \<noteq> b) xs) \<Longrightarrow> \<not> P c"
  by (induction xs) (auto split: if_splits)

lemma find_NoneD: "find P xs = None \<Longrightarrow> x \<in> set xs \<Longrightarrow> \<not> P x"
  by (auto simp: find_None_iff)

lemma refcnt_more: "unat (r :: u32) = k \<Longrightarrow> k + 1 < 4294967296 \<Longrightarrow> unat (r + 1) = k + 1"
  by (simp add: unat_word_ariths)

lemma ring_length: "ring os s \<Longrightarrow> length (bc_bufs s) = Suc NBUF"
  by (simp add: ring_def)

lemma get_cases:
  assumes inv: "cache_inv \<lparr>cf_cache = s, cf_wait = w, cf_sync = y\<rparr>" and get: "bget 1 blk s = Some (Inr (b, s'))"
  obtains (hit) "b < NBUF" "b_dev (buf_at b s) = 1" "b_blockno (buf_at b s) = blk"
      "s' = upd_buf b (\<lambda>x. x\<lparr>b_refcnt := b_refcnt x + 1\<rparr>) s"
    | (miss) "b < NBUF" "b_refcnt (buf_at b s) = 0" "b_flags (buf_at b s) AND B_DIRTY = 0"
      "s' = upd_buf b (\<lambda>x. x\<lparr>b_dev := 1, b_blockno := blk, b_flags := 0, b_refcnt := 1\<rparr>) s"
      "\<And>c. c < NBUF \<Longrightarrow> b_dev (buf_at c s) = 1 \<Longrightarrow> b_blockno (buf_at c s) \<noteq> blk"
proof -
  obtain os where os: "ring os s" "set os = {..<NBUF}" using inv by (auto simp: cache_inv_iff)
  show ?thesis
  proof (cases "find (\<lambda>b. b_dev (buf_at b s) = 1 \<and> b_blockno (buf_at b s) = blk) os")
    case (Some c)
    then have "c < NBUF" "b_dev (buf_at c s) = 1" "b_blockno (buf_at c s) = blk" using find_SomeD [OF Some] os(2) by auto
    moreover have "b = c" "s' = upd_buf b (\<lambda>x. x\<lparr>b_refcnt := b_refcnt x + 1\<rparr>) s"
      using get unfolding bget_ring [OF os(1)] Some by auto
    ultimately show ?thesis by (intro hit) simp_all
  next
    case None
    note none = find_NoneD [OF None]
    show ?thesis
    proof (cases "find (\<lambda>b. b_refcnt (buf_at b s) = 0 \<and> b_flags (buf_at b s) AND B_DIRTY = 0) (rev os)")
      case (Some c)
      then have "c < NBUF" "b_refcnt (buf_at c s) = 0" "b_flags (buf_at c s) AND B_DIRTY = 0" using find_SomeD [OF Some] os(2) by auto
      moreover have "b = c" "s' = upd_buf b (\<lambda>x. x\<lparr>b_dev := 1, b_blockno := blk, b_flags := 0, b_refcnt := 1\<rparr>) s"
        using get unfolding bget_ring [OF os(1)] None Some by auto
      ultimately show ?thesis using none os(2) by (intro miss) auto
    next
      case fail: None
      with get show ?thesis unfolding bget_ring [OF os(1)] None fail by simp
    qed
  qed
qed

lemma inv_len: "cache_inv \<lparr>cf_cache = s, cf_wait = w, cf_sync = y\<rparr> \<Longrightarrow> length (bc_bufs s) = Suc NBUF"
  by (auto simp: cache_inv_iff ring_length)

lemma inv_buf: "cache_inv \<lparr>cf_cache = s, cf_wait = w, cf_sync = y\<rparr> \<Longrightarrow> b < NBUF \<Longrightarrow>
    buf_ok (bc_memdisk s) (bc_disksize s) (w b) (y b) (buf_at b s)"
  by (simp add: cache_inv_iff)

text \<open>A change of one buffer that keeps its block.\<close>

lemma inv_same_key:
  assumes inv: "cache_inv \<lparr>cf_cache = s, cf_wait = w, cf_sync = y\<rparr>" and b: "b < NBUF"
    and s': "s' = (upd_buf b f s)\<lparr>bc_memdisk := (bc_memdisk s)(b_blockno (buf_at b s) := d)\<rparr>"
    and links: "\<And>x. b_next (f x) = b_next x" "\<And>x. b_prev (f x) = b_prev x"
    and key: "\<And>x. b_dev (f x) = b_dev x" "\<And>x. b_blockno (f x) = b_blockno x"
    and old: "d = bc_memdisk s (b_blockno (buf_at b s)) \<or> b_dev (buf_at b s) = 1"
    and new: "buf_ok (bc_memdisk s') (bc_disksize s) w' y' (f (buf_at b s))"
  shows "cache_inv \<lparr>cf_cache = s', cf_wait = w(b := w'), cf_sync = y(b := y')\<rparr>"
proof (rule inv_change [OF inv b, where d = d])
  have len: "b < length (bc_bufs s)" using inv_len [OF inv] b by simp
  have r: "ring os s' = ring os s" for os
    using ring_upd [of f os b s, OF links] by (simp add: s' ring_def)
  show "\<exists>os. ring os s' \<and> set os = {..<NBUF}" using inv unfolding r cache_inv_iff by simp
  show "bc_disksize s' = bc_disksize s" "bc_memdisk s' = (bc_memdisk s)(b_blockno (buf_at b s) := d)" by (simp_all add: s')
  have at: "buf_at c s' = (if c = b then f (buf_at b s) else buf_at c s)" for c
    using buf_at_upd [OF len] by (simp add: s')
  show "contents (buf_at c s') = contents (buf_at c s)" if "c \<noteq> b" for c using that by (simp add: at)
  show "buf_ok (bc_memdisk s') (bc_disksize s) w' y' (buf_at b s')" using new by (simp add: at)
  show "b_blockno (buf_at c s) \<noteq> b_blockno (buf_at b s')"
    if "c < NBUF" "c \<noteq> b" "b_dev (buf_at c s) = 1" "b_dev (buf_at b s') = 1" for c
    using that inv b by (auto simp: at key cache_inv_iff unique_keys_def)
qed (rule old)

lemma get_inv:
  assumes inv: "cache_inv \<lparr>cf_cache = s, cf_wait = w, cf_sync = y\<rparr>" and get: "bget 1 blk s = Some (Inr (b, s'))"
    and blk: "blk < bc_disksize s" and w: "w b + 2 < 2 ^ 32"
  shows "cache_inv \<lparr>cf_cache = s', cf_wait = w(b := w b + 1), cf_sync = y\<rparr>"
  using inv get
proof (cases rule: get_cases)
  case hit
  have "unat (b_refcnt (buf_at b s) + 1) = w b + (if sl_locked (b_lock (buf_at b s)) then 1 else 0) + 1"
    by (rule refcnt_more) (use inv_buf [OF inv hit(1)] w in \<open>auto simp: buf_ok_def\<close>)
  then have "buf_ok (bc_memdisk s) (bc_disksize s) (w b + 1) (y b) ((buf_at b s)\<lparr>b_refcnt := b_refcnt (buf_at b s) + 1\<rparr>)"
    using inv_buf [OF inv hit(1)] hit(2) by (simp add: buf_ok_def)
  then show ?thesis
    using inv_same_key [OF inv hit(1), where s' = s' and f = "\<lambda>x. x\<lparr>b_refcnt := b_refcnt x + 1\<rparr>"
        and d = "bc_memdisk s (b_blockno (buf_at b s))" and w' = "w b + 1" and y' = "y b"]
    by (simp add: hit(4))
next
  case miss
  have len: "b < length (bc_bufs s)" using inv_len [OF inv] miss(1) by simp
  have at: "buf_at c s' = (if c = b then (buf_at b s)\<lparr>b_dev := 1, b_blockno := blk, b_flags := 0, b_refcnt := 1\<rparr> else buf_at c s)" for c
    using buf_at_upd [OF len] by (simp add: miss(4))
  have idle: "w b = 0" "\<not> sl_locked (b_lock (buf_at b s))" using inv_buf [OF inv miss(1)] miss(2) by (auto simp: buf_ok_def split: if_splits)
  have "cache_inv \<lparr>cf_cache = s', cf_wait = w(b := w b + 1), cf_sync = y(b := y b)\<rparr>"
  proof (rule inv_change [OF inv miss(1), where d = "bc_memdisk s (b_blockno (buf_at b s))"])
    show "\<exists>os. ring os s' \<and> set os = {..<NBUF}" using inv by (simp add: miss(4) ring_upd cache_inv_iff)
    show "buf_ok (bc_memdisk s') (bc_disksize s) (w b + 1) (y b) (buf_at b s')" using idle blk by (simp add: at buf_ok_def)
  qed (use miss(5) at in \<open>auto simp: miss(4)\<close>)
  then show ?thesis by simp
qed

lemma upd_buf_upd: "b < length (bc_bufs s) \<Longrightarrow> upd_buf b g (upd_buf b f s) = upd_buf b (\<lambda>x. g (f x)) s"
  by (simp add: upd_buf_def)

lemma upd_buf_cong: "f (buf_at b s) = g (buf_at b s) \<Longrightarrow> upd_buf b f s = upd_buf b g s"
  by (simp add: upd_buf_def)

lemma upd_buf_disk: "upd_buf b f (s\<lparr>bc_memdisk := d\<rparr>) = (upd_buf b f s)\<lparr>bc_memdisk := d\<rparr>"
  by (simp add: upd_buf_def)

text \<open>What \<open>bread\<close> does once it has found the buffer, and \<open>bwrite\<close>.\<close>

lemma bread_found_eq:
  assumes inv: "cache_inv \<lparr>cf_cache = s, cf_wait = w, cf_sync = y\<rparr>" and b: "b < NBUF" and w: "0 < w b"
  shows "b_dev (buf_at b s) = 1"
    and "bread_found pid b s =
      (if sl_locked (b_lock (buf_at b s)) then Inl Blocked
       else Inr (upd_buf b (\<lambda>x. x\<lparr>b_lock := (b_lock x)\<lparr>sl_locked := True, sl_pid := pid\<rparr>,
              b_flags := if b_flags x = 0 then B_VALID else b_flags x,
              b_data := if b_flags x = 0 then bc_memdisk s (b_blockno x) else b_data x\<rparr>) s))"
proof -
  have len: "b < length (bc_bufs s)" using inv_len [OF inv] b by simp
  note ok = inv_buf [OF inv b]
  have "b_refcnt (buf_at b s) \<noteq> 0" using ok w by (auto simp: buf_ok_def)
  then show dev: "b_dev (buf_at b s) = 1" using ok by (auto simp: buf_ok_def)
  then have blk: "b_blockno (buf_at b s) < bc_disksize s" using ok by (auto simp: buf_ok_def)
  have fl: "b_flags (buf_at b s) \<noteq> 0 \<Longrightarrow> b_flags (buf_at b s) AND B_VALID \<noteq> 0" using ok by (auto simp: buf_ok_def)
  show "bread_found pid b s =
      (if sl_locked (b_lock (buf_at b s)) then Inl Blocked
       else Inr (upd_buf b (\<lambda>x. x\<lparr>b_lock := (b_lock x)\<lparr>sl_locked := True, sl_pid := pid\<rparr>,
              b_flags := if b_flags x = 0 then B_VALID else b_flags x,
              b_data := if b_flags x = 0 then bc_memdisk s (b_blockno x) else b_data x\<rparr>) s))"
  proof (cases "b_flags (buf_at b s) = 0")
    case True
    then show ?thesis using len dev blk
      by (auto simp: bread_found_def acquiresleep_def iderw_def holdingsleep_def buf_at_upd upd_buf_upd Let_def intro!: upd_buf_cong)
  next
    case False
    then show ?thesis using len fl by (auto simp: bread_found_def acquiresleep_def buf_at_upd intro!: upd_buf_cong)
  qed
qed

lemma held_buf:
  assumes "cache_inv \<lparr>cf_cache = s, cf_wait = w, cf_sync = y\<rparr>" and "b < NBUF" and "holdingsleep pid (b_lock (buf_at b s))"
  shows "b_dev (buf_at b s) = 1" "b_flags (buf_at b s) \<in> {B_VALID, B_VALID OR B_DIRTY}" "sl_locked (b_lock (buf_at b s))"
  using inv_buf [OF assms(1,2)] assms(3) by (auto simp: buf_ok_def holdingsleep_def)

lemma bwrite_buf_eq:
  assumes inv: "cache_inv \<lparr>cf_cache = s, cf_wait = w, cf_sync = y\<rparr>" and b: "b < NBUF"
  shows "bwrite_buf pid b s =
    (if holdingsleep pid (b_lock (buf_at b s))
     then Inr ((upd_buf b (\<lambda>x. x\<lparr>b_flags := B_VALID\<rparr>) s)
            \<lparr>bc_memdisk := (bc_memdisk s)(b_blockno (buf_at b s) := b_data (buf_at b s))\<rparr>)
     else Inl (Panic ''bwrite''))"
proof (cases "holdingsleep pid (b_lock (buf_at b s))")
  case True
  have len: "b < length (bc_bufs s)" using inv_len [OF inv] b by simp
  note h = held_buf [OF inv b True]
  have "b_blockno (buf_at b s) < bc_disksize s" using inv_buf [OF inv b] h by (auto simp: buf_ok_def)
  moreover have "b_flags (buf_at b s) OR B_DIRTY = B_VALID OR B_DIRTY" using h(2) by auto
  moreover have "(B_VALID OR B_DIRTY) AND (B_VALID OR B_DIRTY) \<noteq> B_VALID" "B_DIRTY \<noteq> 0"
    "((B_VALID OR B_DIRTY) AND NOT B_DIRTY) OR B_VALID = B_VALID" by (simp_all add: B_VALID_def B_DIRTY_def)
  moreover from calculation have "upd_buf b (\<lambda>x. x\<lparr>b_flags := (b_flags x OR B_DIRTY) AND NOT B_DIRTY OR B_VALID\<rparr>) s
      = upd_buf b (\<lambda>x. x\<lparr>b_flags := B_VALID\<rparr>) s"
    by (intro upd_buf_cong) simp
  ultimately show ?thesis using True len h(1)
    by (simp add: bwrite_buf_def iderw_def buf_at_upd upd_buf_upd upd_buf_disk Let_def)
qed (simp add: bwrite_buf_def)

text \<open>The links do not matter for the invariant, as long as they are a ring.\<close>

lemma inv_links:
  assumes inv: "cache_inv \<lparr>cf_cache = s, cf_wait = w, cf_sync = y\<rparr>"
    and ring: "ring os s'" "set os = {..<NBUF}" and disk: "bc_memdisk s' = bc_memdisk s" "bc_disksize s' = bc_disksize s"
    and same: "\<And>c. contents (buf_at c s') = contents (buf_at c s)"
  shows "cache_inv \<lparr>cf_cache = s', cf_wait = w, cf_sync = y\<rparr>"
proof -
  have "unique_keys s'" using inv unfolding cache_inv_iff unique_keys_def contentsD(2,3) [OF same] by blast
  moreover have "buf_ok (bc_memdisk s') (bc_disksize s') (w b) (y b) (buf_at b s')" if "b < NBUF" for b
    using inv_buf [OF inv that] unfolding disk buf_ok_contents [OF same] .
  ultimately show ?thesis using ring by (auto simp: cache_inv_iff)
qed

lemma brelse_inv:
  assumes inv: "cache_inv \<lparr>cf_cache = s, cf_wait = w, cf_sync = y\<rparr>" and b: "b < NBUF"
    and data: "b_data (buf_at b s) = y b" and h: "holdingsleep pid (b_lock (buf_at b s))" and ring: "ring os s" "set os = {..<NBUF}"
  shows "\<exists>s'. brelse pid b s = Inr s' \<and> cache_inv \<lparr>cf_cache = s', cf_wait = w, cf_sync = y\<rparr>
    \<and> ring (if b_refcnt (buf_at b s) = 1 then b # remove1 b os else os) s'
    \<and> (\<forall>c. b_flags (buf_at c s') = b_flags (buf_at c s) \<and> b_dev (buf_at c s') = b_dev (buf_at c s)
          \<and> b_blockno (buf_at c s') = b_blockno (buf_at c s)) \<and> bc_memdisk s' = bc_memdisk s"
proof -
  have len: "b < length (bc_bufs s)" using inv_len [OF inv] b by simp
  define s1 where "s1 = upd_buf b (\<lambda>x. x\<lparr>b_lock := releasesleep (b_lock x), b_refcnt := b_refcnt x - 1\<rparr>) s"
  note held = held_buf [OF inv b h]
  have ref: "unat (b_refcnt (buf_at b s)) = w b + 1" using inv_buf [OF inv b] held(3) by (auto simp: buf_ok_def)
  then have "b_refcnt (buf_at b s) \<noteq> 0" by auto
  then have ref': "unat (b_refcnt (buf_at b s) - 1) = w b" using ref by (simp add: unat_minus_one)
  have "cache_inv \<lparr>cf_cache = s1, cf_wait = w(b := w b), cf_sync = y(b := y b)\<rparr>"
  proof (rule inv_same_key [OF inv b, where f = "\<lambda>x. x\<lparr>b_lock := releasesleep (b_lock x), b_refcnt := b_refcnt x - 1\<rparr>"
      and d = "bc_memdisk s (b_blockno (buf_at b s))"])
    show "buf_ok (bc_memdisk s1) (bc_disksize s) (w b) (y b)
      ((buf_at b s)\<lparr>b_lock := releasesleep (b_lock (buf_at b s)), b_refcnt := b_refcnt (buf_at b s) - 1\<rparr>)"
      using inv_buf [OF inv b] held data ref' by (auto simp: buf_ok_def releasesleep_def s1_def)
  qed (simp_all add: s1_def)
  then have inv1: "cache_inv \<lparr>cf_cache = s1, cf_wait = w, cf_sync = y\<rparr>" by simp
  have r1: "ring os s1" using ring(1) by (simp add: s1_def ring_upd)
  have at1: "b_flags (buf_at c s1) = b_flags (buf_at c s)" "b_dev (buf_at c s1) = b_dev (buf_at c s)" "b_blockno (buf_at c s1) = b_blockno (buf_at c s)" for c
    using buf_at_upd [OF len] by (simp_all add: s1_def)
  have zero: "b_refcnt (buf_at b s1) = 0 \<longleftrightarrow> b_refcnt (buf_at b s) = 1" using buf_at_upd [OF len] by (simp add: s1_def)
  have run: "brelse pid b s = Inr (if b_refcnt (buf_at b s) = 1 then link_front b (unlink b s1) else s1)"
    using h unfolding zero [symmetric] by (simp add: brelse_def s1_def Let_def)
  show ?thesis
  proof (cases "b_refcnt (buf_at b s) = 1")
    case True
    have mem: "b \<in> set os" using ring(2) b by simp
    then obtain l1 l2 where os: "os = l1 @ b # l2" "b \<notin> set l1" by (meson split_list_first)
    have "distinct os" using ring(1) by (simp add: ring_def)
    then have rem: "remove1 b os = l1 @ l2" "b \<notin> set (l1 @ l2)" using os by (auto simp: remove1_append)
    have r2: "ring (b # remove1 b os) (link_front b (unlink b s1))"
      using link_front_ring [OF unlink_ring [OF r1 [unfolded os(1)]] b rem(2)] by (simp add: rem(1))
    have same: "contents (buf_at c (link_front b (unlink b s1))) = contents (buf_at c s1)" for c by (simp add: contents_links)
    have "cache_inv \<lparr>cf_cache = link_front b (unlink b s1), cf_wait = w, cf_sync = y\<rparr>"
      by (rule inv_links [OF inv1 r2]) (use same mem ring(2) \<open>distinct os\<close> in \<open>auto simp: set_remove1_eq\<close>)
    then show ?thesis using run True r2 contentsD(1,2,3) [OF same] at1 by (auto simp: s1_def)
  next
    case False
    then show ?thesis using run inv1 r1 at1 by (auto simp: s1_def)
  qed
qed

section \<open>The blocks of the log\<close>

text \<open>The blocks pinned in the cache, by their numbers.\<close>

definition pins :: "nat \<Rightarrow> buf \<Rightarrow> bool" where
  "pins blk x \<longleftrightarrow> b_dev x = 1 \<and> b_blockno x = blk \<and> b_flags x AND B_DIRTY \<noteq> 0"

definition pinned :: "config \<Rightarrow> nat \<Rightarrow> block option" where
  "pinned cf blk = map_option (cf_sync cf) (find (\<lambda>b. pins blk (buf_at b (cf_cache cf))) [0..<NBUF])"

lemma pinned_iff:
  assumes "unique_keys s"
  shows "pinned \<lparr>cf_cache = s, cf_wait = w, cf_sync = y\<rparr> blk = Some d \<longleftrightarrow> (\<exists>b < NBUF. pins blk (buf_at b s) \<and> y b = d)"
proof (cases "find (\<lambda>b. pins blk (buf_at b s)) [0..<NBUF]")
  case None
  then have "\<not> pins blk (buf_at b s)" if "b < NBUF" for b using find_NoneD [OF None, of b] that by simp
  with None show ?thesis by (auto simp: pinned_def)
next
  case (Some c)
  then have c: "c < NBUF" "pins blk (buf_at c s)" using find_SomeD [OF Some] by auto
  then have eq: "b = c" if "b < NBUF" "pins blk (buf_at b s)" for b
    by (intro unique_keysD [OF assms that(1) c(1)]) (use that(2) c(2) in \<open>simp_all add: pins_def\<close>)
  show ?thesis
  proof
    assume "pinned \<lparr>cf_cache = s, cf_wait = w, cf_sync = y\<rparr> blk = Some d"
    with Some c show "\<exists>b < NBUF. pins blk (buf_at b s) \<and> y b = d" by (intro exI [of _ c]) (simp add: pinned_def)
  next
    assume "\<exists>b < NBUF. pins blk (buf_at b s) \<and> y b = d"
    then obtain b where "b < NBUF" "pins blk (buf_at b s)" "y b = d" by blast
    with eq [of b] Some show "pinned \<lparr>cf_cache = s, cf_wait = w, cf_sync = y\<rparr> blk = Some d" by (simp add: pinned_def)
  qed
qed

lemma pinned_at:
  assumes "cache_inv \<lparr>cf_cache = s, cf_wait = w, cf_sync = y\<rparr>" and "b < NBUF" and "b_dev (buf_at b s) = 1"
  shows "pinned \<lparr>cf_cache = s, cf_wait = w, cf_sync = y\<rparr> (b_blockno (buf_at b s)) =
    (if b_flags (buf_at b s) AND B_DIRTY \<noteq> 0 then Some (y b) else None)"
proof -
  have u: "unique_keys s" using assms(1) by (simp add: cache_inv_iff)
  have "c = b" if "c < NBUF" "pins (b_blockno (buf_at b s)) (buf_at c s)" for c
    by (rule unique_keysD [OF u that(1) assms(2)]) (use that(2) assms(3) in \<open>simp_all add: pins_def\<close>)
  then have "pinned \<lparr>cf_cache = s, cf_wait = w, cf_sync = y\<rparr> (b_blockno (buf_at b s)) = Some d \<longleftrightarrow>
      b_flags (buf_at b s) AND B_DIRTY \<noteq> 0 \<and> y b = d" for d
    using assms(2,3) by (auto simp: pinned_iff [OF u] pins_def)
  then show ?thesis by (cases "pinned \<lparr>cf_cache = s, cf_wait = w, cf_sync = y\<rparr> (b_blockno (buf_at b s))") auto
qed

lemma pinned_change:
  assumes inv: "cache_inv \<lparr>cf_cache = s, cf_wait = w, cf_sync = y\<rparr>" and inv': "cache_inv \<lparr>cf_cache = s', cf_wait = w', cf_sync = y'\<rparr>"
    and b: "b < NBUF" and dev: "b_dev (buf_at b s') = 1"
    and key: "b_blockno (buf_at b s) = b_blockno (buf_at b s') \<or> b_flags (buf_at b s) AND B_DIRTY = 0"
    and others: "\<And>c. c \<noteq> b \<Longrightarrow> contents (buf_at c s') = contents (buf_at c s)" "\<And>c. c \<noteq> b \<Longrightarrow> y' c = y c"
  shows "pinned \<lparr>cf_cache = s', cf_wait = w', cf_sync = y'\<rparr> =
    (pinned \<lparr>cf_cache = s, cf_wait = w, cf_sync = y\<rparr>)
      (b_blockno (buf_at b s') := if b_flags (buf_at b s') AND B_DIRTY \<noteq> 0 then Some (y' b) else None)"
proof
  fix blk
  show "pinned \<lparr>cf_cache = s', cf_wait = w', cf_sync = y'\<rparr> blk =
    ((pinned \<lparr>cf_cache = s, cf_wait = w, cf_sync = y\<rparr>)
      (b_blockno (buf_at b s') := if b_flags (buf_at b s') AND B_DIRTY \<noteq> 0 then Some (y' b) else None)) blk"
  proof (cases "blk = b_blockno (buf_at b s')")
    case True
    with pinned_at [OF inv' b dev] show ?thesis by simp
  next
    case False
    have u: "unique_keys s" "unique_keys s'" using inv inv' by (simp_all add: cache_inv_iff)
    have "\<not> pins blk (buf_at b s')" "\<not> pins blk (buf_at b s)" using False key by (auto simp: pins_def)
    moreover have "pins blk (buf_at c s') = pins blk (buf_at c s)" if "c \<noteq> b" for c
      by (simp only: pins_def contentsD [OF others(1) [OF that]])
    ultimately have "(\<exists>c < NBUF. pins blk (buf_at c s') \<and> y' c = d) \<longleftrightarrow> (\<exists>c < NBUF. pins blk (buf_at c s) \<and> y c = d)" for d
      using others(2) by metis
    then have "pinned \<lparr>cf_cache = s', cf_wait = w', cf_sync = y'\<rparr> blk = Some d \<longleftrightarrow>
        pinned \<lparr>cf_cache = s, cf_wait = w, cf_sync = y\<rparr> blk = Some d" for d
      by (simp only: pinned_iff [OF u(1)] pinned_iff [OF u(2)])
    then show ?thesis using False by (metis fun_upd_other option.exhaust)
  qed
qed

text \<open>The log's model of the disk and of the cache, and what a step does to it.\<close>

definition same_blocks :: "log \<Rightarrow> config \<Rightarrow> bool" where
  "same_blocks l cf \<longleftrightarrow> lg_disk l = bc_memdisk (cf_cache cf) \<and> lg_cache l = pinned cf"

fun log_do :: "blabel \<Rightarrow> log \<Rightarrow> log" where
  "log_do Silent l = l"
| "log_do (Read blk d) l = l"
| "log_do (Pin blk d) l = l\<lparr>lg_cache := (lg_cache l)(blk \<mapsto> d)\<rparr>"
| "log_do (Write blk d) l = bwrite blk d l"

fun log_reads :: "blabel list \<Rightarrow> log \<Rightarrow> bool" where
  "log_reads [] l \<longleftrightarrow> True"
| "log_reads (Read blk d # ls) l \<longleftrightarrow> d = bread l blk \<and> log_reads ls l"
| "log_reads (e # ls) l \<longleftrightarrow> log_reads ls (log_do e l)"

lemma bstep_ok:
  assumes "bstep cf e cf'" and inv: "cache_inv cf" and l: "same_blocks l cf"
  shows "cache_inv cf' \<and> log_reads [e] l \<and> same_blocks (log_do e l) cf'"
  using assms(1)
proof cases
  case (step_get blk s b s' w y)
  note inv = inv [unfolded step_get(1)]
  have inv': "cache_inv \<lparr>cf_cache = s', cf_wait = w(b := w b + 1), cf_sync = y\<rparr>"
    by (rule get_inv [OF inv step_get(4,5,6)])
  have same: "pinned \<lparr>cf_cache = s', cf_wait = w(b := w b + 1), cf_sync = y\<rparr> = pinned \<lparr>cf_cache = s, cf_wait = w, cf_sync = y\<rparr>
      \<and> bc_memdisk s' = bc_memdisk s"
    using inv step_get(4)
  proof (cases rule: get_cases)
    case hit
    have len: "b < length (bc_bufs s)" using inv_len [OF inv] hit(1) by simp
    have at: "buf_at c s' = (if c = b then (buf_at b s)\<lparr>b_refcnt := b_refcnt (buf_at b s) + 1\<rparr> else buf_at c s)" for c
      using buf_at_upd [OF len] by (simp add: hit(4))
    show ?thesis using pinned_change [OF inv inv' hit(1)] pinned_at [OF inv hit(1,2)] hit(2,3) by (simp add: at) (simp add: hit(4) fun_upd_idem)
  next
    case miss
    have len: "b < length (bc_bufs s)" using inv_len [OF inv] miss(1) by simp
    have at: "buf_at c s' = (if c = b then (buf_at b s)\<lparr>b_dev := 1, b_blockno := blk, b_flags := 0, b_refcnt := 1\<rparr> else buf_at c s)" for c
      using buf_at_upd [OF len] by (simp add: miss(4))
    have u: "unique_keys s" using inv by (simp add: cache_inv_iff)
    have "pinned \<lparr>cf_cache = s, cf_wait = w, cf_sync = y\<rparr> blk \<noteq> Some d" for d
      using miss(5) by (auto simp: pinned_iff [OF u] pins_def)
    then have "pinned \<lparr>cf_cache = s, cf_wait = w, cf_sync = y\<rparr> blk = None" by (cases "pinned \<lparr>cf_cache = s, cf_wait = w, cf_sync = y\<rparr> blk") auto
    then show ?thesis using pinned_change [OF inv inv' miss(1)] miss(3) by (simp add: at) (simp add: miss(4) fun_upd_idem)
  qed
  then show ?thesis using inv' l by (simp add: step_get(1-3) same_blocks_def)
next
  case (step_read b w pid s s' y)
  note inv = inv [unfolded step_read(1)]
  let ?f = "\<lambda>x. x\<lparr>b_lock := (b_lock x)\<lparr>sl_locked := True, sl_pid := pid\<rparr>, b_flags := if b_flags x = 0 then B_VALID else b_flags x,
              b_data := if b_flags x = 0 then bc_memdisk s (b_blockno x) else b_data x\<rparr>"
  have dev: "b_dev (buf_at b s) = 1" and free: "\<not> sl_locked (b_lock (buf_at b s))" and s': "s' = upd_buf b ?f s"
    using bread_found_eq(1) [OF inv step_read(4,5)] bread_found_eq(2) [OF inv step_read(4,5), of pid] step_read(6)
    by (auto split: if_splits)
  have len: "b < length (bc_bufs s)" using inv_len [OF inv] step_read(4) by simp
  have at: "buf_at c s' = (if c = b then ?f (buf_at b s) else buf_at c s)" for c using buf_at_upd [OF len] by (simp add: s')
  note ok = inv_buf [OF inv step_read(4)]
  note pin = pinned_at [OF inv step_read(4) dev]
  have data: "b_data (buf_at b s') = (if b_flags (buf_at b s) = 0 then bc_memdisk s (b_blockno (buf_at b s)) else y b)"
    using ok free by (simp add: at buf_ok_def)
  have fl: "b_flags (buf_at b s') = (if b_flags (buf_at b s) = 0 then B_VALID else b_flags (buf_at b s))" by (simp add: at)
  have inv': "cache_inv \<lparr>cf_cache = s', cf_wait = w(b := w b - 1), cf_sync = y(b := b_data (buf_at b s'))\<rparr>"
  proof (rule inv_same_key [OF inv step_read(4), where f = ?f and d = "bc_memdisk s (b_blockno (buf_at b s))"])
    show "buf_ok (bc_memdisk s') (bc_disksize s) (w b - 1) (b_data (buf_at b s')) (?f (buf_at b s))"
      using ok free dev step_read(5) data by (auto simp: buf_ok_def s')
  qed (simp_all add: s')
  have read: "b_data (buf_at b s') = (case pinned \<lparr>cf_cache = s, cf_wait = w, cf_sync = y\<rparr> (b_blockno (buf_at b s')) of
      Some d \<Rightarrow> d | None \<Rightarrow> bc_memdisk s (b_blockno (buf_at b s')))"
    using pin data ok by (auto simp: at buf_ok_def)
  have "pinned \<lparr>cf_cache = s', cf_wait = w(b := w b - 1), cf_sync = y(b := b_data (buf_at b s'))\<rparr> =
      (pinned \<lparr>cf_cache = s, cf_wait = w, cf_sync = y\<rparr>)
        (b_blockno (buf_at b s') := if b_flags (buf_at b s') AND B_DIRTY \<noteq> 0 then Some (b_data (buf_at b s')) else None)"
    using pinned_change [OF inv inv' step_read(4)] dev by (simp add: at)
  also have "\<dots> = pinned \<lparr>cf_cache = s, cf_wait = w, cf_sync = y\<rparr>"
    using pin data fl by (intro fun_upd_idem) (auto simp: at)
  finally have same: "pinned \<lparr>cf_cache = s', cf_wait = w(b := w b - 1), cf_sync = y(b := b_data (buf_at b s'))\<rparr> =
      pinned \<lparr>cf_cache = s, cf_wait = w, cf_sync = y\<rparr>" .
  have lg: "lg_disk l = bc_memdisk s" "lg_cache l = pinned \<lparr>cf_cache = s, cf_wait = w, cf_sync = y\<rparr>"
    using l by (simp_all add: step_read(1) same_blocks_def)
  have "b_data (buf_at b s') = bread l (b_blockno (buf_at b s'))" unfolding bread_def lg by (rule read)
  moreover have "bc_memdisk s' = bc_memdisk s" by (simp add: s')
  ultimately show ?thesis using inv' same lg by (simp add: step_read(1-3) same_blocks_def)
next
  case (step_change b pid s w y d)
  note inv = inv [unfolded step_change(1)]
  have len: "b < length (bc_bufs s)" using inv_len [OF inv] step_change(4) by simp
  let ?s = "upd_buf b (\<lambda>x. x\<lparr>b_data := d\<rparr>) s"
  note held = held_buf [OF inv step_change(4,5)]
  have "buf_ok (bc_memdisk s) (bc_disksize s) (w b) (y b) ((buf_at b s)\<lparr>b_data := d\<rparr>)"
    using inv_buf [OF inv step_change(4)] held(3) by (auto simp: buf_ok_def)
  then have inv': "cache_inv \<lparr>cf_cache = ?s, cf_wait = w, cf_sync = y\<rparr>"
    using inv_same_key [OF inv step_change(4), where s' = ?s and f = "\<lambda>x. x\<lparr>b_data := d\<rparr>"
        and d = "bc_memdisk s (b_blockno (buf_at b s))" and w' = "w b" and y' = "y b"] by simp
  have "pinned \<lparr>cf_cache = ?s, cf_wait = w, cf_sync = y\<rparr> = pinned \<lparr>cf_cache = s, cf_wait = w, cf_sync = y\<rparr>"
    using pinned_change [OF inv inv' step_change(4)] pinned_at [OF inv step_change(4) held(1)] held(1) len
    by (simp add: buf_at_upd fun_upd_idem)
  with inv' l show ?thesis by (simp add: step_change(1-3) same_blocks_def)
next
  case (step_pin b pid s w y)
  note inv = inv [unfolded step_pin(1)]
  have len: "b < length (bc_bufs s)" using inv_len [OF inv] step_pin(4) by simp
  let ?s = "upd_buf b (\<lambda>x. x\<lparr>b_flags := b_flags x OR B_DIRTY\<rparr>) s" and ?d = "b_data (buf_at b s)"
  note held = held_buf [OF inv step_pin(4,5)]
  have fl: "b_flags (buf_at b s) OR B_DIRTY = B_VALID OR B_DIRTY" using held(2) by auto
  have "buf_ok (bc_memdisk s) (bc_disksize s) (w b) ?d ((buf_at b s)\<lparr>b_flags := b_flags (buf_at b s) OR B_DIRTY\<rparr>)"
    using inv_buf [OF inv step_pin(4)] held(1,3) unfolding fl by (auto simp: buf_ok_def)
  then have inv': "cache_inv \<lparr>cf_cache = ?s, cf_wait = w, cf_sync = y(b := ?d)\<rparr>"
    using inv_same_key [OF inv step_pin(4), where s' = ?s and f = "\<lambda>x. x\<lparr>b_flags := b_flags x OR B_DIRTY\<rparr>"
        and d = "bc_memdisk s (b_blockno (buf_at b s))" and w' = "w b" and y' = ?d] by simp
  have "pinned \<lparr>cf_cache = ?s, cf_wait = w, cf_sync = y(b := ?d)\<rparr> =
      (pinned \<lparr>cf_cache = s, cf_wait = w, cf_sync = y\<rparr>)(b_blockno (buf_at b s) \<mapsto> ?d)"
    using pinned_change [OF inv inv' step_pin(4)] held(1) len fl by (simp add: buf_at_upd)
  with inv' l show ?thesis by (simp add: step_pin(1-3) same_blocks_def)
next
  case (step_write b pid s s' w y)
  note inv = inv [unfolded step_write(1)]
  have len: "b < length (bc_bufs s)" using inv_len [OF inv] step_write(4) by simp
  let ?d = "b_data (buf_at b s)" and ?k = "b_blockno (buf_at b s)"
  have h: "holdingsleep pid (b_lock (buf_at b s))"
    and s': "s' = (upd_buf b (\<lambda>x. x\<lparr>b_flags := B_VALID\<rparr>) s)\<lparr>bc_memdisk := (bc_memdisk s)(?k := ?d)\<rparr>"
    using step_write(5) bwrite_buf_eq [OF inv step_write(4), of pid] by (auto split: if_splits)
  note held = held_buf [OF inv step_write(4) h]
  have "buf_ok ((bc_memdisk s)(?k := ?d)) (bc_disksize s) (w b) ?d ((buf_at b s)\<lparr>b_flags := B_VALID\<rparr>)"
    using inv_buf [OF inv step_write(4)] held(1,3) by (auto simp: buf_ok_def)
  then have inv': "cache_inv \<lparr>cf_cache = s', cf_wait = w, cf_sync = y(b := ?d)\<rparr>"
    using inv_same_key [OF inv step_write(4) s', where w' = "w b" and y' = ?d] held(1) by (simp add: s')
  have at: "buf_at c s' = (if c = b then (buf_at b s)\<lparr>b_flags := B_VALID\<rparr> else buf_at c s)" for c
    using buf_at_upd [OF len] by (simp add: s')
  have "pinned \<lparr>cf_cache = s', cf_wait = w, cf_sync = y(b := ?d)\<rparr> = (pinned \<lparr>cf_cache = s, cf_wait = w, cf_sync = y\<rparr>)(?k := None)"
    using pinned_change [OF inv inv' step_write(4)] held(1) by (simp add: at)
  with inv' l show ?thesis by (simp add: step_write(1-3) same_blocks_def bwrite_def) (simp add: s')
next
  case (step_release b s y pid s' w)
  note inv = inv [unfolded step_release(1)]
  obtain os where os: "ring os s" "set os = {..<NBUF}" using inv by (auto simp: cache_inv_iff)
  have h: "holdingsleep pid (b_lock (buf_at b s))" using step_release(6) by (auto simp: brelse_def split: if_splits)
  obtain r where r: "brelse pid b s = Inr r" "cache_inv \<lparr>cf_cache = r, cf_wait = w, cf_sync = y\<rparr>" "bc_memdisk r = bc_memdisk s"
    and same: "\<And>c. b_flags (buf_at c r) = b_flags (buf_at c s) \<and> b_dev (buf_at c r) = b_dev (buf_at c s)
          \<and> b_blockno (buf_at c r) = b_blockno (buf_at c s)"
    using brelse_inv [OF inv step_release(4,5) h os] by blast
  have "pins blk (buf_at c r) = pins blk (buf_at c s)" for blk c using same [of c] by (simp add: pins_def)
  then have "pinned \<lparr>cf_cache = r, cf_wait = w, cf_sync = y\<rparr> = pinned \<lparr>cf_cache = s, cf_wait = w, cf_sync = y\<rparr>"
    by (simp add: pinned_def fun_eq_iff)
  with r l step_release(6) show ?thesis by (simp add: step_release(1-3) same_blocks_def)
qed

lemma start_contents:
  assumes "c < NBUF"
  shows "contents (buf_at c (cf_cache (cache_start dsk n))) = contents zero_buf"
proof -
  have all: "contents (buf_at c (fold (\<lambda>b s. link_front b (upd_buf b (\<lambda>x. x\<lparr>b_lock := initsleeplock\<rparr>) s)) bs s)) = contents zero_buf"
    if "contents (buf_at c s) = contents zero_buf" for bs s
    using that
  proof (induction bs arbitrary: s)
    case (Cons b bs)
    have "contents (buf_at c (upd_buf b (\<lambda>x. x\<lparr>b_lock := initsleeplock\<rparr>) s)) = contents zero_buf"
    proof (cases "c = b \<and> b < length (bc_bufs s)")
      case True
      with Cons.prems show ?thesis by (simp add: buf_at_upd contents_def zero_buf_def)
    next
      case False
      then have "buf_at c (upd_buf b (\<lambda>x. x\<lparr>b_lock := initsleeplock\<rparr>) s) = buf_at c s"
        by (cases "c = b") (simp_all add: upd_buf_def list_update_beyond)
      with Cons.prems show ?thesis by simp
    qed
    then show ?case using Cons.IH by (simp add: contents_links)
  qed simp
  have "contents (buf_at c (upd_buf HEAD (\<lambda>x. x\<lparr>b_prev := HEAD, b_next := HEAD\<rparr>)
      \<lparr>bc_bufs = replicate (Suc NBUF) zero_buf, bc_memdisk = dsk, bc_disksize = n\<rparr>)) = contents zero_buf"
    using assms by (simp add: buf_at_upd del: replicate_Suc)
  then show ?thesis unfolding cache_start_def binit_def config.select_convs by (rule all)
qed

lemma start_disk:
  "bc_memdisk (cf_cache (cache_start dsk n)) = dsk" "bc_disksize (cf_cache (cache_start dsk n)) = n"
proof -
  have "bc_memdisk (fold (\<lambda>b s. link_front b (upd_buf b f s)) bs s) = bc_memdisk s"
    "bc_disksize (fold (\<lambda>b s. link_front b (upd_buf b f s)) bs s) = bc_disksize s" for f bs s
    by (induction bs arbitrary: s) simp_all
  then show "bc_memdisk (cf_cache (cache_start dsk n)) = dsk" "bc_disksize (cf_cache (cache_start dsk n)) = n"
    by (simp_all add: cache_start_def binit_def)
qed

lemma start_inv: "cache_inv (cache_start dsk n)" "pinned (cache_start dsk n) = (\<lambda>_. None)"
proof -
  note c = contentsD [OF start_contents]
  have "ring (rev [0..<NBUF]) (cf_cache (cache_start dsk n))" unfolding cache_start_def by (simp add: binit_ring)
  moreover have "set (rev [0..<NBUF]) = {..<NBUF}" by auto
  ultimately show "cache_inv (cache_start dsk n)"
    unfolding cache_inv_def by (intro conjI exI [of _ "rev [0..<NBUF]"]) (simp_all add: c zero_buf_def buf_ok_def initsleeplock_def, simp add: cache_start_def)
  have "\<not> pins blk (buf_at b (cf_cache (cache_start dsk n)))" if "b < NBUF" for b blk
    using c(2) [OF that] by (simp add: pins_def zero_buf_def)
  then show "pinned (cache_start dsk n) = (\<lambda>_. None)" by (auto simp: pinned_def fun_eq_iff find_None_iff)
qed

lemma log_reads_append: "log_reads (ls @ ks) l \<longleftrightarrow> log_reads ls l \<and> log_reads ks (fold log_do ls l)"
  by (induction ls l rule: log_reads.induct) auto

lemma bruns_ok:
  assumes "bruns cf ls cf'" and "cache_inv cf" and "same_blocks l cf"
  shows "cache_inv cf' \<and> log_reads ls l \<and> same_blocks (fold log_do ls l) cf'"
  using assms
proof (induction rule: bruns.induct)
  case (bruns_more c ls c' e c'')
  then have "cache_inv c'" "log_reads ls l" "same_blocks (fold log_do ls l) c'" by auto
  with bstep_ok [OF bruns_more.hyps(2)] show ?case by (simp add: log_reads_append)
qed simp

text \<open>C8: However the calls of processes on the buffer cache interleave, the cache behaves as the blocks of the
  log: each \<open>bread\<close> returns the pinned data of its block, or its data on disk when nothing is pinned,
  a write changes one block of the disk and unpins it, and recycling a buffer loses nothing.\<close>

theorem bcache_refines_blocks:
  assumes "bruns (cache_start dsk n) ls cf" and "lg_disk l = dsk" and "lg_cache l = (\<lambda>_. None)"
  shows "log_reads ls l \<and> lg_disk (fold log_do ls l) = bc_memdisk (cf_cache cf) \<and> lg_cache (fold log_do ls l) = pinned cf"
  using bruns_ok [OF assms(1) start_inv(1)] assms(2,3) by (simp add: same_blocks_def start_disk start_inv(2))

definition unused :: "buf \<Rightarrow> bool" where
  "unused x \<longleftrightarrow> b_refcnt x = 0 \<and> b_flags x AND B_DIRTY = 0"

text \<open>In every reachable state the scans of \<open>bget\<close> end.  It finds the one buffer of a cached block; for
  another block it recycles the unused clean buffer nearest to the end of the ring, and panics only when
  there is none.  \<open>brelse\<close> moves the buffer to the front when nobody else waits for it, so the recycled
  buffer is the one released longest ago.\<close>

theorem bget_recycles_oldest:
  assumes "bruns (cache_start dsk n) ls \<lparr>cf_cache = s, cf_wait = w, cf_sync = y\<rparr>"
  shows "\<exists>os. ring os s \<and> set os = {..<NBUF} \<and>
    (\<forall>blk. case bget 1 blk s of
        None \<Rightarrow> False
      | Some (Inl e) \<Rightarrow> e = Panic ''bget: no buffers'' \<and> (\<forall>c < NBUF. \<not> unused (buf_at c s))
      | Some (Inr (b, s')) \<Rightarrow> b < NBUF \<and>
          (if \<exists>c < NBUF. b_dev (buf_at c s) = 1 \<and> b_blockno (buf_at c s) = blk
           then b_dev (buf_at b s) = 1 \<and> b_blockno (buf_at b s) = blk
           else unused (buf_at b s) \<and> (\<forall>c \<in> set (takeWhile (\<lambda>c. c \<noteq> b) (rev os)). \<not> unused (buf_at c s)))) \<and>
    (\<forall>b pid. b < NBUF \<and> holdingsleep pid (b_lock (buf_at b s)) \<and> b_data (buf_at b s) = y b \<longrightarrow>
        (\<exists>s'. brelse pid b s = Inr s' \<and> ring (if b_refcnt (buf_at b s) = 1 then b # remove1 b os else os) s'))"
proof -
  let ?cf = "\<lparr>cf_cache = s, cf_wait = w, cf_sync = y\<rparr>"
  have inv: "cache_inv ?cf"
    using bruns_ok [OF assms start_inv(1), of "undefined\<lparr>lg_disk := dsk, lg_cache := (\<lambda>_. None)\<rparr>"]
    by (simp add: same_blocks_def start_disk start_inv(2))
  then obtain os where os: "ring os s" "set os = {..<NBUF}" by (auto simp: cache_inv_iff)
  let ?hit = "\<lambda>blk c. b_dev (buf_at c s) = 1 \<and> b_blockno (buf_at c s) = blk" and ?free = "\<lambda>c. unused (buf_at c s)"
  have get: "case bget 1 blk s of
        None \<Rightarrow> False
      | Some (Inl e) \<Rightarrow> e = Panic ''bget: no buffers'' \<and> (\<forall>c < NBUF. \<not> ?free c)
      | Some (Inr (b, s')) \<Rightarrow> b < NBUF \<and>
          (if \<exists>c < NBUF. ?hit blk c then ?hit blk b else ?free b \<and> (\<forall>c \<in> set (takeWhile (\<lambda>c. c \<noteq> b) (rev os)). \<not> ?free c))" for blk
  proof (cases "find (?hit blk) os")
    case (Some b)
    then have "b < NBUF" "?hit blk b" using find_SomeD [OF Some] os(2) by auto
    then show ?thesis unfolding bget_ring [OF os(1)] Some by auto
  next
    case None
    have no: "\<not> (\<exists>c < NBUF. ?hit blk c)" using find_NoneD [OF None] os(2) by auto
    note un = unused_def [symmetric]
    show ?thesis
    proof (cases "find ?free (rev os)")
      case (Some b)
      then have "b < NBUF" "?free b" using find_SomeD [OF Some] os(2) by auto
      then show ?thesis using no find_first [OF Some] unfolding bget_ring [OF os(1)] None un Some by auto
    next
      case fail: None
      have "\<forall>c < NBUF. \<not> ?free c" using find_NoneD [OF fail] os(2) by auto
      then show ?thesis unfolding bget_ring [OF os(1)] None un fail by simp
    qed
  qed
  have "\<exists>s'. brelse pid b s = Inr s' \<and> ring (if b_refcnt (buf_at b s) = 1 then b # remove1 b os else os) s'"
    if "b < NBUF" "holdingsleep pid (b_lock (buf_at b s))" "b_data (buf_at b s) = y b" for b pid
    using brelse_inv [OF inv that(1,3,2) os] by blast
  with get os show ?thesis by blast
qed

section \<open>A first read\<close>

lemma first_read:
  assumes "blk < n"
  shows "\<exists>s w y. bruns (cache_start dsk n) [Silent, Read blk (dsk blk)] \<lparr>cf_cache = s, cf_wait = w, cf_sync = y\<rparr>"
proof -
  define s where "s = cf_cache (cache_start dsk n)"
  have cf: "cache_start dsk n = \<lparr>cf_cache = s, cf_wait = \<lambda>_. 0, cf_sync = \<lambda>_. []\<rparr>" by (simp add: s_def cache_start_def)
  note inv = start_inv(1) [of dsk n, unfolded cf]
  have ring: "ring (rev [0..<NBUF]) s" unfolding s_def cache_start_def by (simp add: binit_ring)
  have dsk: "bc_memdisk s = dsk" "bc_disksize s = n" by (simp_all add: s_def start_disk)
  have at: "b_flags (buf_at c s) = 0" "b_dev (buf_at c s) = 0" "b_refcnt (buf_at c s) = 0" "b_lock (buf_at c s) = initsleeplock"
    if "c < NBUF" for c
    using contentsD [OF start_contents [OF that, of dsk n]] by (simp_all add: s_def zero_buf_def)
  define s1 where "s1 = upd_buf 0 (\<lambda>x. x\<lparr>b_dev := 1, b_blockno := blk, b_flags := 0, b_refcnt := 1\<rparr>) s"
  have N: "0 < NBUF" by (simp add: NBUF_def MAXOPBLOCKS_def)
  then have l: "[0..<NBUF] = 0 # [1..<NBUF]" by (simp add: upt_conv_Cons)
  have none: "find (\<lambda>b. b_dev (buf_at b s) = 1 \<and> b_blockno (buf_at b s) = blk) (rev [0..<NBUF]) = None"
    by (auto simp: find_None_iff at)
  have "find (\<lambda>b. b_refcnt (buf_at b s) = 0 \<and> b_flags (buf_at b s) AND B_DIRTY = 0) (rev (rev [0..<NBUF])) = Some 0"
    unfolding rev_rev_ident l by (simp add: at N)
  then have get: "bget 1 blk s = Some (Inr (0, s1))" unfolding bget_ring [OF ring] none by (simp add: s1_def)
  have a: "bstep (cache_start dsk n) Silent \<lparr>cf_cache = s1, cf_wait = (\<lambda>_. 0)(0 := 0 + 1), cf_sync = \<lambda>_. []\<rparr>"
    unfolding cf by (rule step_get [OF get]) (simp_all add: dsk assms)
  have inv1: "cache_inv \<lparr>cf_cache = s1, cf_wait = (\<lambda>_. 0)(0 := 0 + 1), cf_sync = \<lambda>_. []\<rparr>"
    by (rule get_inv [OF inv get]) (simp_all add: dsk assms)
  have len: "0 < length (bc_bufs s)" using ring by (simp add: ring_def)
  have at1: "b_flags (buf_at 0 s1) = 0" "b_blockno (buf_at 0 s1) = blk" "b_lock (buf_at 0 s1) = initsleeplock" "bc_memdisk s1 = dsk"
    using at(4) [OF N] by (simp_all add: s1_def buf_at_upd [OF len] dsk)
  obtain s2 where s2: "bread_found 1 0 s1 = Inr s2" "b_blockno (buf_at 0 s2) = blk" "b_data (buf_at 0 s2) = dsk blk"
    using bread_found_eq(2) [OF inv1 N, of 1] at1 inv_len [OF inv1] by (simp add: initsleeplock_def buf_at_upd)
  have "bstep \<lparr>cf_cache = s1, cf_wait = (\<lambda>_. 0)(0 := 0 + 1), cf_sync = \<lambda>_. []\<rparr> (Read blk (dsk blk))
      \<lparr>cf_cache = s2, cf_wait = ((\<lambda>_. 0)(0 := 0 + 1))(0 := ((\<lambda>_. 0)(0 := 0 + 1)) 0 - 1), cf_sync = (\<lambda>_. [])(0 := dsk blk)\<rparr>"
    using step_read [OF N _ s2(1), of "(\<lambda>_. 0)(0 := 0 + 1)" "\<lambda>_. []"] s2(2,3) by simp
  from bruns_more [OF bruns_more [OF bruns_none a] this] show ?thesis by auto
qed

text \<open>Block 3 of a disk of ten blocks is read.\<close>

theorem bcache_refines_blocks_witness:
  "\<exists>cf. bruns (cache_start (\<lambda>b. [of_nat b]) 10) [Silent, Read 3 [3]] cf \<and> bc_memdisk (cf_cache cf) = (\<lambda>b. [of_nat b]) \<and> pinned cf 3 = None"
proof -
  obtain s w y where r: "bruns (cache_start (\<lambda>b. [of_nat b]) 10) [Silent, Read 3 [3]] \<lparr>cf_cache = s, cf_wait = w, cf_sync = y\<rparr>"
    using first_read [of 3 10 "\<lambda>b. [of_nat b]"] by auto
  let ?l = "\<lparr>lg_disk = \<lambda>b. [of_nat b], lg_cache = \<lambda>_. None, lg_writes = [], lg_start = 2, lg_size = 30, lg_outstanding = 0,
    lg_committing = False, lg_lh = []\<rparr>"
  from bcache_refines_blocks [OF r, of ?l] have "bc_memdisk s = (\<lambda>b. [of_nat b])"
    "pinned \<lparr>cf_cache = s, cf_wait = w, cf_sync = y\<rparr> = (\<lambda>_. None)" by simp_all
  with r show ?thesis by (intro exI [of _ "\<lparr>cf_cache = s, cf_wait = w, cf_sync = y\<rparr>"]) simp
qed

theorem bget_recycles_oldest_witness:
  "\<exists>s w y os. bruns (cache_start (\<lambda>b. [of_nat b]) 10) [Silent, Read 3 [3]] \<lparr>cf_cache = s, cf_wait = w, cf_sync = y\<rparr>
     \<and> ring os s \<and> set os = {..<NBUF} \<and> (\<exists>r. bget 1 4 s = Some r)"
proof -
  obtain s w y where r: "bruns (cache_start (\<lambda>b. [of_nat b]) 10) [Silent, Read 3 [3]] \<lparr>cf_cache = s, cf_wait = w, cf_sync = y\<rparr>"
    using first_read [of 3 10 "\<lambda>b. [of_nat b]"] by auto
  obtain os where "ring os s" "set os = {..<NBUF}" and
    "\<forall>blk. case bget 1 blk s of None \<Rightarrow> False | Some _ \<Rightarrow> True"
    using bget_recycles_oldest [OF r] by (auto split: option.splits)
  moreover from this(3) have "\<exists>r. bget 1 4 s = Some r" by (cases "bget 1 4 s") (metis option.case(1), simp)
  ultimately show ?thesis using r by blast
qed

end
