(* ===== verification/Fs_Blocks.thy ===== *)
theory Fs_Blocks
  imports Fs
begin

text \<open>
  The blocks of the file system (\<open>balloc\<close>, \<open>bfree\<close> and the addresses of inodes in \<open>fs.c\<close>).
  An inode has \<open>NSLOT\<close> slots: its direct addresses, the address of its indirect block and the
  addresses this block holds.  The layout invariant says that every address in a slot is a data
  block marked in the bitmap and that no two slots, of one inode or of two, hold the same block.
\<close>

section \<open>Blocks as a function\<close>

abbreviation blocks :: "fs \<Rightarrow> nat \<Rightarrow> block" where
  "blocks st \<equiv> bread (fs_log st)"

lemma log_blockD:
  assumes "log_block b d st = Inr st'"
  shows "blocks st' = (blocks st)(b := d)" and "fs_sb st' = fs_sb st" and "fs_icache st' = fs_icache st"
  using assms by (auto simp: log_block_def log_write_def bread_def res_simps fun_eq_iff split: if_splits option.splits)

text \<open>The panics of a transaction that does not fit the log, or is missing.\<close>

definition log_panic :: "c_error \<Rightarrow> bool" where
  "log_panic e \<longleftrightarrow> e = Panic ''too big a transaction'' \<or> e = Panic ''log_write outside of trans''"

lemma log_block_error: "log_block b d st = Inl e \<Longrightarrow> log_panic e"
  by (auto simp: log_block_def log_write_def log_panic_def res_simps split: if_splits)

lemma upd_inode_sel [simp]:
  "fs_log (upd_inode i f st) = fs_log st" "fs_sb (upd_inode i f st) = fs_sb st"
  "length (fs_icache (upd_inode i f st)) = length (fs_icache st)"
  by (simp_all add: upd_inode_def)

lemma inode_at_upd: "i < length (fs_icache st) \<Longrightarrow>
    inode_at j (upd_inode i f st) = (if j = i then f (inode_at i st) else inode_at j st)"
  by (simp add: upd_inode_def nth_list_update)

section \<open>The bitmap\<close>

lemma bit_set_iff: "bit_set d j \<longleftrightarrow> bit (d ! (j div 8)) (j mod 8)"
  by (simp add: bit_set_def bit_iff_and_push_bit_not_eq_0)

lemma div_mod_8: "i = j \<longleftrightarrow> i div 8 = j div 8 \<and> i mod 8 = (j::nat) mod 8"
  by (metis div_mult_mod_eq)

lemma bit_push_bit_1: "bit (2 ^ (i mod 8) :: u8) (j mod 8) \<longleftrightarrow> j mod 8 = i mod 8"
  by (auto simp: bit_exp_iff possible_bit_word)

lemma bit_set_set:
  "i < 8 * length d \<Longrightarrow> bit_set (set_bit_at i d) j \<longleftrightarrow> j = i \<or> bit_set d j"
proof -
  assume "i < 8 * length d"
  then have i: "i div 8 < length d" by (simp add: less_mult_imp_div_less mult.commute)
  show ?thesis
  proof (cases "i div 8 = j div 8")
    case True
    then have "bit_set (set_bit_at i d) j \<longleftrightarrow> bit (d ! (j div 8)) (j mod 8) \<or> j mod 8 = i mod 8"
      using i by (simp add: bit_set_iff set_bit_at_def bit_or_iff bit_push_bit_1)
    then show ?thesis using True by (auto simp: bit_set_iff div_mod_8 [of j i])
  next
    case False
    then show ?thesis by (auto simp: bit_set_iff set_bit_at_def)
  qed
qed

lemma bit_set_clear:
  "i < 8 * length d \<Longrightarrow> bit_set (clear_bit_at i d) j \<longleftrightarrow> j \<noteq> i \<and> bit_set d j"
proof -
  assume "i < 8 * length d"
  then have i: "i div 8 < length d" by (simp add: less_mult_imp_div_less mult.commute)
  show ?thesis
  proof (cases "i div 8 = j div 8")
    case True
    then have "bit_set (clear_bit_at i d) j \<longleftrightarrow> bit (d ! (j div 8)) (j mod 8) \<and> j mod 8 \<noteq> i mod 8"
      using i by (auto simp: bit_set_iff clear_bit_at_def bit_and_iff bit_not_iff bit_push_bit_1)
    then show ?thesis using True by (auto simp: bit_set_iff div_mod_8 [of j i])
  next
    case False
    then show ?thesis by (auto simp: bit_set_iff clear_bit_at_def)
  qed
qed

lemma length_bit_at [simp]: "length (set_bit_at i d) = length d" "length (clear_bit_at i d) = length d"
  by (simp_all add: set_bit_at_def clear_bit_at_def)

text \<open>The bit of block \<open>b\<close>.\<close>

definition bit_of :: "superblock \<Rightarrow> (nat \<Rightarrow> block) \<Rightarrow> nat \<Rightarrow> bool" where
  "bit_of sb R b \<longleftrightarrow> bit_set (R (BBLOCK b sb)) (b mod BPB)"

lemma BPB_pos [simp]: "0 < BPB" by (simp add: BPB_def BSIZE_def)

lemma BBLOCK_mod: "a = b \<longleftrightarrow> BBLOCK a sb = BBLOCK b sb \<and> a mod BPB = b mod BPB"
  unfolding BBLOCK_def by (metis add_right_cancel div_mult_mod_eq)

lemma bit_of_set:
  assumes "length (R (BBLOCK b sb)) = BSIZE"
  shows "bit_of sb (R(BBLOCK b sb := set_bit_at (b mod BPB) (R (BBLOCK b sb)))) x \<longleftrightarrow> x = b \<or> bit_of sb R x"
proof -
  have "b mod BPB < 8 * length (R (BBLOCK b sb))" using assms by (simp add: BPB_def BSIZE_def)
  then show ?thesis using BBLOCK_mod [of x b sb] by (auto simp: bit_of_def bit_set_set)
qed

lemma bit_of_clear:
  assumes "length (R (BBLOCK b sb)) = BSIZE"
  shows "bit_of sb (R(BBLOCK b sb := clear_bit_at (b mod BPB) (R (BBLOCK b sb)))) x \<longleftrightarrow> x \<noteq> b \<and> bit_of sb R x"
proof -
  have "b mod BPB < 8 * length (R (BBLOCK b sb))" using assms by (simp add: BPB_def BSIZE_def)
  then show ?thesis using BBLOCK_mod [of x b sb] by (auto simp: bit_of_def bit_set_clear)
qed

text \<open>\<open>balloc\<close> takes the first block whose bit is clear, sets the bit and fills the block with zeroes.\<close>

lemma balloc_from_ok:
  assumes "balloc_from b0 st = Inr (b, st')" and "b0 mod BPB = 0"
  shows "b < sb_size (fs_sb st) \<and> \<not> bit_of (fs_sb st) (blocks st) b
    \<and> (\<forall>x. b0 \<le> x \<and> x < b \<longrightarrow> bit_of (fs_sb st) (blocks st) x)
    \<and> fs_sb st' = fs_sb st \<and> fs_icache st' = fs_icache st
    \<and> blocks st' = (blocks st)(BBLOCK b (fs_sb st) := set_bit_at (b mod BPB) (blocks st (BBLOCK b (fs_sb st))),
                              b := replicate BSIZE 0)"
  using assms
proof (induction b0 st rule: balloc_from.induct)
  case (1 b0 st)
  let ?sb = "fs_sb st" and ?d = "blocks st (BBLOCK b0 (fs_sb st))"
  let ?n = "min BPB (sb_size ?sb - b0)"
  have lt: "b0 < sb_size ?sb" using "1.prems"(1) by (subst (asm) balloc_from.simps) (auto split: if_splits)
  have at: "BBLOCK (b0 + k) ?sb = BBLOCK b0 ?sb \<and> (b0 + k) mod BPB = k" if "k < BPB" for k
    using that "1.prems"(2) by (auto simp: BBLOCK_def mod_eq_0_iff_dvd elim!: dvdE)
  show ?case
  proof (cases "find (\<lambda>bi. \<not> bit_set ?d bi) [0..<?n]")
    case (Some bi)
    have bi: "bi < ?n" "\<not> bit_set ?d bi" "\<forall>k<bi. bit_set ?d k"
      using Some by (auto simp: find_Some_iff)
    from "1.prems"(1) lt Some obtain st1 where
      s1: "log_block (BBLOCK b0 ?sb) (set_bit_at bi ?d) st = Inr st1" and
      s2: "log_block (b0 + bi) (replicate BSIZE 0) st1 = Inr st'" and b: "b = b0 + bi"
      by (subst (asm) balloc_from.simps) (auto simp: res_simps Let_def bzero_def)
    have k: "bit_of ?sb (blocks st) x" if "b0 \<le> x" "x < b" for x
      using at [of "x - b0"] bi that by (auto simp: bit_of_def b)
    show ?thesis
      using lt bi at [of bi] k log_blockD [OF s1] log_blockD [OF s2]
      by (auto simp: b bit_of_def)
  next
    case None
    have set: "bit_set ?d k" if "k < ?n" for k using None that by (auto simp: find_None_iff)
    have rest: "balloc_from (b0 + BPB) st = Inr (b, st')"
      using "1.prems"(1) lt None by (subst (asm) balloc_from.simps) (simp add: Let_def)
    have sz: "b < sb_size ?sb" and fr: "\<not> bit_of ?sb (blocks st) b"
      and k: "\<forall>x. b0 + BPB \<le> x \<and> x < b \<longrightarrow> bit_of ?sb (blocks st) x"
      using "1.IH" [OF lt refl refl None rest] "1.prems"(2) by auto
    have "bit_of ?sb (blocks st) x" if "b0 \<le> x" "x < b" for x
    proof (cases "x < b0 + BPB")
      case True
      with that sz have "x - b0 < BPB" and "bit_set ?d (x - b0)" by (auto intro!: set)
      then show ?thesis using at [of "x - b0"] that by (simp add: bit_of_def)
    qed (use k that in auto)
    then show ?thesis using "1.IH" [OF lt refl refl None rest] "1.prems"(2) by auto
  qed
qed

definition alloc_panic :: "c_error \<Rightarrow> bool" where
  "alloc_panic e \<longleftrightarrow> log_panic e \<or> e = Panic ''balloc: out of blocks''"

lemma balloc_from_error: "balloc_from b0 st = Inl e \<Longrightarrow> alloc_panic e"
proof (induction b0 st rule: balloc_from.induct)
  case (1 b0 st)
  let ?d = "blocks st (BBLOCK b0 (fs_sb st))"
  show ?case
  proof (cases "b0 < sb_size (fs_sb st)")
    case True
    show ?thesis
    proof (cases "find (\<lambda>bi. \<not> bit_set ?d bi) [0..<min BPB (sb_size (fs_sb st) - b0)]")
      case None
      then show ?thesis using "1.IH" [OF True refl refl None] "1.prems" True
        by (subst (asm) (2) balloc_from.simps) (simp add: Let_def)
    next
      case (Some bi)
      then show ?thesis using "1.prems" True
        by (subst (asm) balloc_from.simps)
          (auto simp: Let_def res_simps bzero_def alloc_panic_def dest: log_block_error)
    qed
  next
    case False
    then show ?thesis using "1.prems" by (subst (asm) balloc_from.simps) (simp add: alloc_panic_def)
  qed
qed

section \<open>The slots of an inode\<close>

definition NSLOT :: nat where "NSLOT = NDIRECT + 1 + NINDIRECT"

text \<open>The block in slot \<open>p\<close> of an inode with the addresses \<open>as\<close>, 0 if there is none.\<close>

definition slot :: "(nat \<Rightarrow> block) \<Rightarrow> u32 list \<Rightarrow> nat \<Rightarrow> nat" where
  "slot R as p =
     (if p \<le> NDIRECT then unat (as ! p)
      else if as ! NDIRECT = 0 then 0
      else unat (word_in (R (unat (as ! NDIRECT))) (p - NDIRECT - 1)))"

text \<open>The slot of the \<open>bn\<close>-th block of the contents.\<close>

definition slot_no :: "nat \<Rightarrow> nat" where
  "slot_no bn = (if bn < NDIRECT then bn else bn + 1)"

lemma slot_no_less [simp]: "bn < MAXFILE \<Longrightarrow> slot_no bn < NSLOT"
  by (auto simp: slot_no_def NSLOT_def MAXFILE_def)

lemma slot_no_indirect [simp]: "slot_no bn \<noteq> NDIRECT" "NDIRECT \<noteq> slot_no bn"
  by (auto simp: slot_no_def)

lemma slot_no_inj [simp]: "slot_no a = slot_no b \<longleftrightarrow> a = b"
  by (auto simp: slot_no_def)

lemma NDIRECT_less [simp]: "NDIRECT < NSLOT" by (simp add: NSLOT_def)

lemma slot_cong:
  "(as ! NDIRECT \<noteq> 0 \<Longrightarrow> R' (unat (as ! NDIRECT)) = R (unat (as ! NDIRECT))) \<Longrightarrow> slot R' as p = slot R as p"
  by (simp add: slot_def)

lemma slot_indirect: "slot R as NDIRECT = unat (as ! NDIRECT)"
  by (simp add: slot_def)

section \<open>The layout invariant\<close>

text \<open>The inode blocks come before the bitmap and the data blocks after it, as \<open>mkfs.c\<close> places them.\<close>

definition data_start :: "superblock \<Rightarrow> nat" where
  "data_start sb = sb_bmapstart sb + sb_size sb div BPB + 1"

definition geometry :: "superblock \<Rightarrow> bool" where
  "geometry sb \<longleftrightarrow> sb_size sb < 4294967296 \<and> sb_ninodes sb div IPB + sb_inodestart sb < sb_bmapstart sb"

lemma BBLOCK_less: "b < sb_size sb \<Longrightarrow> BBLOCK b sb < data_start sb"
  using div_le_mono [of b "sb_size sb" BPB] by (simp add: BBLOCK_def data_start_def)

lemma IBLOCK_less: "geometry sb \<Longrightarrow> n < sb_ninodes sb \<Longrightarrow> IBLOCK n sb < sb_bmapstart sb"
  using div_le_mono [of n "sb_ninodes sb" IPB] by (simp add: IBLOCK_def geometry_def)

lemma IBLOCK_data: "geometry sb \<Longrightarrow> n < sb_ninodes sb \<Longrightarrow> IBLOCK n sb < data_start sb"
  using IBLOCK_less [of sb n] by (simp add: data_start_def)

lemma IBLOCK_BBLOCK: "geometry sb \<Longrightarrow> n < sb_ninodes sb \<Longrightarrow> IBLOCK n sb \<noteq> BBLOCK b sb"
  using IBLOCK_less [of sb n] by (auto simp: BBLOCK_def)

text \<open>\<open>S n p\<close> is the block in slot \<open>p\<close> of inode \<open>n\<close>.\<close>

type_synonym slots = "nat \<Rightarrow> nat \<Rightarrow> nat"

definition blocks_ok :: "superblock \<Rightarrow> (nat \<Rightarrow> block) \<Rightarrow> bool" where
  "blocks_ok sb R \<longleftrightarrow> geometry sb \<and> (\<forall>b. length (R b) = BSIZE)
     \<and> (\<forall>b < data_start sb. b < sb_size sb \<longrightarrow> bit_of sb R b)"

definition slots_ok :: "superblock \<Rightarrow> (nat \<Rightarrow> block) \<Rightarrow> slots \<Rightarrow> bool" where
  "slots_ok sb R S \<longleftrightarrow>
     (\<forall>n < sb_ninodes sb. \<forall>p < NSLOT. S n p \<noteq> 0 \<longrightarrow>
        data_start sb \<le> S n p \<and> S n p < sb_size sb \<and> bit_of sb R (S n p))
     \<and> (\<forall>n < sb_ninodes sb. \<forall>m < sb_ninodes sb. \<forall>p < NSLOT. \<forall>q < NSLOT.
          S n p \<noteq> 0 \<longrightarrow> S n p = S m q \<longrightarrow> n = m \<and> p = q)"

lemma blocks_okD:
  assumes "blocks_ok sb R"
  shows "geometry sb" and "length (R b) = BSIZE" and "b < data_start sb \<Longrightarrow> b < sb_size sb \<Longrightarrow> bit_of sb R b"
  using assms by (auto simp: blocks_ok_def)

lemma slots_okD:
  assumes "slots_ok sb R S" and "n < sb_ninodes sb" and "p < NSLOT" and "S n p \<noteq> 0"
  shows "data_start sb \<le> S n p" and "S n p < sb_size sb" and "bit_of sb R (S n p)"
    and "m < sb_ninodes sb \<Longrightarrow> q < NSLOT \<Longrightarrow> S n p = S m q \<Longrightarrow> n = m \<and> p = q"
  using assms unfolding slots_ok_def by blast+

lemma slots_okI:
  assumes "\<And>n p. n < sb_ninodes sb \<Longrightarrow> p < NSLOT \<Longrightarrow> S n p \<noteq> 0 \<Longrightarrow>
      data_start sb \<le> S n p \<and> S n p < sb_size sb \<and> bit_of sb R (S n p)"
    and "\<And>n m p q. n < sb_ninodes sb \<Longrightarrow> m < sb_ninodes sb \<Longrightarrow> p < NSLOT \<Longrightarrow> q < NSLOT \<Longrightarrow>
      S n p \<noteq> 0 \<Longrightarrow> S n p = S m q \<Longrightarrow> n = m \<and> p = q"
  shows "slots_ok sb R S"
  using assms unfolding slots_ok_def by blast

text \<open>A block that no slot holds.\<close>

definition unowned :: "superblock \<Rightarrow> slots \<Rightarrow> nat \<Rightarrow> bool" where
  "unowned sb S b \<longleftrightarrow> (\<forall>n < sb_ninodes sb. \<forall>p < NSLOT. S n p \<noteq> b)"

definition set_slot :: "nat \<Rightarrow> nat \<Rightarrow> nat \<Rightarrow> slots \<Rightarrow> slots" where
  "set_slot n p b S = (\<lambda>m q. if m = n \<and> q = p then b else S m q)"

lemma slots_ok_set:
  assumes ok: "slots_ok sb R S" and u: "unowned sb S b" and n: "n < sb_ninodes sb"
    and b: "data_start sb \<le> b" "b < sb_size sb" "bit_of sb R b"
  shows "slots_ok sb R (set_slot n p b S)"
proof (rule slots_okI, goal_cases)
  case (1 m q)
  then show ?case using slots_okD(1-3) [OF ok] b by (auto simp: set_slot_def split: if_splits)
next
  case (2 m m' q q')
  then show ?case using slots_okD(4) [OF ok] u by (auto simp: set_slot_def unowned_def split: if_splits)
qed

text \<open>Setting and clearing bits.\<close>

lemma slots_ok_bits:
  assumes "slots_ok sb R S" and "\<And>n p. n < sb_ninodes sb \<Longrightarrow> p < NSLOT \<Longrightarrow> S n p \<noteq> 0 \<Longrightarrow>
      bit_of sb R (S n p) \<Longrightarrow> bit_of sb R' (S n p)"
  shows "slots_ok sb R' S"
  using assms unfolding slots_ok_def by blast

lemma blocks_ok_upd:
  assumes "blocks_ok sb R" and "length d = BSIZE" and "\<And>x. x < sb_size sb \<Longrightarrow> b \<noteq> BBLOCK x sb"
  shows "blocks_ok sb (R(b := d))"
  using assms by (auto simp: blocks_ok_def bit_of_def)

lemma bit_of_upd: "(\<And>x. x < sb_size sb \<Longrightarrow> b \<noteq> BBLOCK x sb) \<Longrightarrow> x < sb_size sb \<Longrightarrow> bit_of sb (R(b := d)) x = bit_of sb R x"
  by (auto simp: bit_of_def)

lemma data_not_bitmap: "data_start sb \<le> b \<Longrightarrow> x < sb_size sb \<Longrightarrow> b \<noteq> BBLOCK x sb"
  using BBLOCK_less [of x sb] by auto

lemma BBLOCK_not_data: "data_start sb \<le> b \<Longrightarrow> x < sb_size sb \<Longrightarrow> BBLOCK x sb \<noteq> b"
  using BBLOCK_less [of x sb] by auto

text \<open>What \<open>balloc\<close> does to the file system.\<close>

lemma balloc_slots:
  assumes "balloc st = Inr (b, st')" and ok: "blocks_ok (fs_sb st) (blocks st)"
    and S: "slots_ok (fs_sb st) (blocks st) S"
  shows "data_start (fs_sb st) \<le> b" and "b < sb_size (fs_sb st)" and "unowned (fs_sb st) S b"
    and "bit_of (fs_sb st) (blocks st') b"
    and "fs_sb st' = fs_sb st" and "fs_icache st' = fs_icache st"
    and "blocks_ok (fs_sb st) (blocks st')" and "slots_ok (fs_sb st) (blocks st') S"
    and "blocks st' b = replicate BSIZE 0"
    and "\<And>x. x \<noteq> b \<Longrightarrow> x \<noteq> BBLOCK b (fs_sb st) \<Longrightarrow> blocks st' x = blocks st x"
proof -
  let ?sb = "fs_sb st" and ?R = "blocks st" and ?B = "BBLOCK b (fs_sb st)"
  let ?R1 = "?R(?B := set_bit_at (b mod BPB) (?R ?B))"
  note r = balloc_from_ok [OF assms(1) [unfolded balloc_def]]
  from r have lt: "b < sb_size ?sb" and fr: "\<not> bit_of ?sb ?R b"
    and R': "blocks st' = ?R1(b := replicate BSIZE 0)" and same: "fs_sb st' = ?sb" "fs_icache st' = fs_icache st"
    by auto
  have b: "data_start ?sb \<le> b" using blocks_okD(3) [OF ok] lt fr by (meson not_less)
  have bits: "bit_of ?sb (blocks st') x \<longleftrightarrow> x = b \<or> bit_of ?sb ?R x" if "x < sb_size ?sb" for x
    unfolding R' using bit_of_upd [OF data_not_bitmap [OF b] that] bit_of_set [OF blocks_okD(2) [OF ok]] by simp
  show "data_start ?sb \<le> b" "b < sb_size ?sb" "fs_sb st' = ?sb" "fs_icache st' = fs_icache st"
    by (fact b lt same)+
  show "unowned ?sb S b"
    unfolding unowned_def using slots_okD(3) [OF S] fr b by (metis data_start_def Suc_eq_plus1 not_less_eq_eq zero_le)
  show "bit_of ?sb (blocks st') b" using bits [OF lt] by simp
  show "blocks_ok ?sb (blocks st')"
    using ok bits by (auto simp: blocks_ok_def R')
  show "slots_ok ?sb (blocks st') S"
    by (rule slots_ok_bits [OF S]) (use bits slots_okD(2) [OF S] in auto)
  show "blocks st' b = replicate BSIZE 0" by (simp add: R')
  show "blocks st' x = ?R x" if "x \<noteq> b" "x \<noteq> ?B" for x using that by (simp add: R')
qed

lemma bfree_slots:
  assumes "bfree b st = Inr st'" and ok: "blocks_ok (fs_sb st) (blocks st)"
    and S: "slots_ok (fs_sb st) (blocks st) S" and u: "unowned (fs_sb st) S b"
    and b: "data_start (fs_sb st) \<le> b" "b < sb_size (fs_sb st)"
  shows "fs_sb st' = fs_sb st" and "fs_icache st' = fs_icache st"
    and "blocks_ok (fs_sb st) (blocks st')" and "slots_ok (fs_sb st) (blocks st') S"
    and "\<And>x. bit_of (fs_sb st) (blocks st') x \<longleftrightarrow> x \<noteq> b \<and> bit_of (fs_sb st) (blocks st) x"
    and "\<And>x. x \<noteq> BBLOCK b (fs_sb st) \<Longrightarrow> blocks st' x = blocks st x"
proof -
  let ?sb = "fs_sb st" and ?R = "blocks st" and ?B = "BBLOCK b (fs_sb st)"
  have l: "log_block ?B (clear_bit_at (b mod BPB) (?R ?B)) st = Inr st'"
    using assms(1) by (simp add: bfree_def Let_def split: if_splits)
  note l = log_blockD [OF l]
  have bits: "bit_of ?sb (blocks st') x \<longleftrightarrow> x \<noteq> b \<and> bit_of ?sb ?R x" for x
    unfolding l by (rule bit_of_clear [OF blocks_okD(2) [OF ok]])
  show "fs_sb st' = ?sb" "fs_icache st' = fs_icache st" by (fact l)+
  show "blocks_ok ?sb (blocks st')" using ok bits b by (auto simp: blocks_ok_def l)
  show "slots_ok ?sb (blocks st') S"
    by (rule slots_ok_bits [OF S]) (use bits u in \<open>auto simp: unowned_def\<close>)
  show "\<And>x. bit_of ?sb (blocks st') x \<longleftrightarrow> x \<noteq> b \<and> bit_of ?sb ?R x" by (fact bits)
  show "\<And>x. x \<noteq> ?B \<Longrightarrow> blocks st' x = ?R x" by (simp add: l)
qed

end
