(* ===== verification/Fs_Files.thy ===== *)
theory Fs_Files
  imports Fs_Blocks
begin

text \<open>
  The contents of files (\<open>bmap\<close>, \<open>readi\<close>, \<open>writei\<close>, \<open>iupdate\<close> in \<open>fs.c\<close>).  An inode denotes
  the list of its bytes; the block map only ever grows while a file is written, fresh blocks
  read as zeroes, and writing a block of one file leaves the bytes of all others alone.
\<close>

section \<open>Slots and bytes of the inodes\<close>

abbreviation inum_of :: "nat \<Rightarrow> fs \<Rightarrow> nat" where
  "inum_of i st \<equiv> ip_inum (inode_at i st)"

text \<open>The inodes as the holder of the locked inode \<open>i\<close> sees them: its own from the cache.\<close>

definition view :: "nat \<Rightarrow> fs \<Rightarrow> nat \<Rightarrow> dinode" where
  "view i st = (\<lambda>n. read_dinode n st)(inum_of i st := dinode_of_inode (inode_at i st))"

definition slots_of :: "(nat \<Rightarrow> dinode) \<Rightarrow> (nat \<Rightarrow> block) \<Rightarrow> slots" where
  "slots_of V R = (\<lambda>n p. slot R (di_addrs (V n)) p)"

definition file_byte :: "slots \<Rightarrow> (nat \<Rightarrow> block) \<Rightarrow> nat \<Rightarrow> nat \<Rightarrow> u8" where
  "file_byte S R n off =
     (let a = S n (slot_no (off div BSIZE)) in if a = 0 then 0 else R a ! (off mod BSIZE))"

definition data_ok :: "(nat \<Rightarrow> dinode) \<Rightarrow> fs \<Rightarrow> bool" where
  "data_ok V st \<longleftrightarrow> blocks_ok (fs_sb st) (blocks st) \<and> slots_ok (fs_sb st) (blocks st) (slots_of V (blocks st))
     \<and> (\<forall>n < sb_ninodes (fs_sb st). length (di_addrs (V n)) = NDIRECT + 1)"

lemma data_okD:
  assumes "data_ok V st"
  shows "blocks_ok (fs_sb st) (blocks st)" and "slots_ok (fs_sb st) (blocks st) (slots_of V (blocks st))"
    and "n < sb_ninodes (fs_sb st) \<Longrightarrow> length (di_addrs (V n)) = NDIRECT + 1"
  using assms by (auto simp: data_ok_def)

abbreviation slots_in :: "nat \<Rightarrow> fs \<Rightarrow> slots" where
  "slots_in i st \<equiv> slots_of (view i st) (blocks st)"

abbreviation byte_in :: "nat \<Rightarrow> fs \<Rightarrow> nat \<Rightarrow> nat \<Rightarrow> u8" where
  "byte_in i st \<equiv> file_byte (slots_in i st) (blocks st)"

text \<open>The state while the inode \<open>i\<close> is locked.\<close>

definition file_ok :: "nat \<Rightarrow> fs \<Rightarrow> bool" where
  "file_ok i st \<longleftrightarrow> i < length (fs_icache st) \<and> inum_of i st < sb_ninodes (fs_sb st) \<and> data_ok (view i st) st"

lemma file_okD:
  assumes "file_ok i st"
  shows "i < length (fs_icache st)" and "inum_of i st < sb_ninodes (fs_sb st)" and "data_ok (view i st) st"
  using assms by (auto simp: file_ok_def)

lemma slots_ok_cong:
  assumes "slots_ok sb R S"
    and "\<And>n p. n < sb_ninodes sb \<Longrightarrow> p < NSLOT \<Longrightarrow> S' n p = S n p"
  shows "slots_ok sb R S'"
  using assms by (auto simp: slots_ok_def)

lemma slots_in_own: "slots_in i st (inum_of i st) p = slot (blocks st) (ip_addrs (inode_at i st)) p"
  by (simp add: slots_of_def view_def dinode_of_inode_def)

lemma view_other: "m \<noteq> inum_of i st \<Longrightarrow> view i st m = read_dinode m st"
  by (simp add: view_def)

lemma read_dinode_cong:
  "fs_sb st' = fs_sb st \<Longrightarrow> blocks st' (IBLOCK n (fs_sb st)) = blocks st (IBLOCK n (fs_sb st)) \<Longrightarrow>
   read_dinode n st' = read_dinode n st"
  by (simp add: read_dinode_def)

lemma unat_of_nat_u32: "b < 4294967296 \<Longrightarrow> unat (of_nat b :: u32) = b"
  by (simp add: unat_of_nat take_bit_nat_eq_self_iff)

lemma word_in_set_word:
  assumes "length d = BSIZE" and "j < NINDIRECT" and "k < NINDIRECT"
  shows "word_in (set_word j w d) k = (if k = j then w else word_in d k)"
proof (cases "k = j")
  case True
  then show ?thesis using assms
    by (simp add: word_in_def set_word_def NINDIRECT_def BSIZE_def slice_blit_same)
next
  case False
  then have "4 * k + 4 \<le> 4 * j \<or> 4 * j + 4 \<le> 4 * k" by linarith
  then show ?thesis using assms False
    by (simp add: word_in_def set_word_def NINDIRECT_def BSIZE_def slice_blit_disjoint)
qed

lemma length_set_word [simp]: "length d = BSIZE \<Longrightarrow> j < NINDIRECT \<Longrightarrow> length (set_word j w d) = BSIZE"
  by (simp add: set_word_def NINDIRECT_def BSIZE_def)

lemma word_in_zero: "k < NINDIRECT \<Longrightarrow> word_in (replicate BSIZE 0) k = 0"
proof -
  assume "k < NINDIRECT"
  then have "slice (4 * k) 4 (replicate BSIZE (0::u8)) = replicate 4 0"
    by (simp add: slice_def NINDIRECT_def BSIZE_def)
  then show ?thesis by (simp add: word_in_def u32_of_bytes_def nth_replicate)
qed

section \<open>Growing a file\<close>

text \<open>
  What \<open>bmap\<close> may do on behalf of inode \<open>i\<close>: give it more blocks.  All bytes and all slots in
  use stay what they are; so do the blocks of inodes on disk and the other cached inodes.
\<close>

definition extends :: "nat \<Rightarrow> fs \<Rightarrow> fs \<Rightarrow> bool" where
  "extends i st st' \<longleftrightarrow> fs_sb st' = fs_sb st
     \<and> (\<exists>as. fs_icache st' = (fs_icache st)[i := (inode_at i st)\<lparr>ip_addrs := as\<rparr>])
     \<and> file_ok i st'
     \<and> (\<forall>x < sb_bmapstart (fs_sb st). blocks st' x = blocks st x)
     \<and> (\<forall>n < sb_ninodes (fs_sb st). \<forall>p < NSLOT. slots_in i st n p \<noteq> 0 \<longrightarrow> slots_in i st' n p = slots_in i st n p)
     \<and> (\<forall>n < sb_ninodes (fs_sb st). \<forall>off < MAXFILE * BSIZE. byte_in i st' n off = byte_in i st n off)"

lemma extendsD:
  assumes "extends i st st'"
  shows "fs_sb st' = fs_sb st" and "file_ok i st'"
    and "x < sb_bmapstart (fs_sb st) \<Longrightarrow> blocks st' x = blocks st x"
    and "n < sb_ninodes (fs_sb st) \<Longrightarrow> p < NSLOT \<Longrightarrow> slots_in i st n p \<noteq> 0 \<Longrightarrow> slots_in i st' n p = slots_in i st n p"
    and "n < sb_ninodes (fs_sb st) \<Longrightarrow> off < MAXFILE * BSIZE \<Longrightarrow> byte_in i st' n off = byte_in i st n off"
  using assms by (auto simp: extends_def)

lemma extends_cache:
  assumes "extends i st st'"
  obtains as where "fs_icache st' = (fs_icache st)[i := (inode_at i st)\<lparr>ip_addrs := as\<rparr>]"
  using assms by (auto simp: extends_def)

lemma extends_refl: "file_ok i st \<Longrightarrow> extends i st st"
  by (auto simp: extends_def intro!: exI [of _ "ip_addrs (inode_at i st)"])

lemma extends_trans:
  assumes a: "extends i st st1" and b: "extends i st1 st2"
  shows "extends i st st2"
proof -
  note A = extendsD [OF a] and B = extendsD [OF b]
  from a obtain as where "fs_icache st1 = (fs_icache st)[i := (inode_at i st)\<lparr>ip_addrs := as\<rparr>]"
    by (rule extends_cache)
  moreover from b obtain bs where "fs_icache st2 = (fs_icache st1)[i := (inode_at i st1)\<lparr>ip_addrs := bs\<rparr>]"
    by (rule extends_cache)
  ultimately have "fs_icache st2 = (fs_icache st)[i := (inode_at i st)\<lparr>ip_addrs := bs\<rparr>]"
    by (cases "i < length (fs_icache st)") (auto simp: list_update_beyond)
  then show ?thesis using A B unfolding extends_def by auto
qed

text \<open>One more block in a slot that was free.\<close>

lemma extends_slot:
  assumes ok: "file_ok i st" and sb: "fs_sb st' = fs_sb st"
    and cache: "fs_icache st' = (fs_icache st)[i := (inode_at i st)\<lparr>ip_addrs := as\<rparr>]"
    and len: "length as = NDIRECT + 1"
    and R: "blocks_ok (fs_sb st) (blocks st')"
    and low: "\<And>x. x < sb_bmapstart (fs_sb st) \<Longrightarrow> blocks st' x = blocks st x"
    and S: "slots_ok (fs_sb st) (blocks st') (slots_in i st)"
    and b: "data_start (fs_sb st) \<le> b" "b < sb_size (fs_sb st)" "unowned (fs_sb st) (slots_in i st) b"
      "bit_of (fs_sb st) (blocks st') b"
    and k: "slots_in i st (inum_of i st) k = 0" "k \<noteq> NDIRECT \<Longrightarrow> blocks st' b = replicate BSIZE 0"
    and new: "\<And>p. p < NSLOT \<Longrightarrow> slot (blocks st') as p = (if p = k then b else slots_in i st (inum_of i st) p)"
    and ind: "\<And>n. n < sb_ninodes (fs_sb st) \<Longrightarrow> n \<noteq> inum_of i st \<Longrightarrow> slots_in i st n NDIRECT \<noteq> 0 \<Longrightarrow>
      blocks st' (slots_in i st n NDIRECT) = blocks st (slots_in i st n NDIRECT)"
    and data: "\<And>n p. n < sb_ninodes (fs_sb st) \<Longrightarrow> p < NSLOT \<Longrightarrow> p \<noteq> NDIRECT \<Longrightarrow> slots_in i st n p \<noteq> 0 \<Longrightarrow>
      blocks st' (slots_in i st n p) = blocks st (slots_in i st n p)"
  shows "extends i st st'"
proof -
  let ?n = "inum_of i st" and ?sb = "fs_sb st" and ?S = "slots_in i st"
  note fo = file_okD [OF ok] and dk = data_okD [OF file_okD(3) [OF ok]]
  have at: "inode_at i st' = (inode_at i st)\<lparr>ip_addrs := as\<rparr>" using fo(1) by (simp add: cache)
  have rd: "read_dinode m st' = read_dinode m st" if "m < sb_ninodes ?sb" for m
    by (rule read_dinode_cong [OF sb low]) (rule IBLOCK_less [OF blocks_okD(1) [OF R] that])
  have own: "slots_in i st' ?n p = set_slot ?n k b ?S ?n p" if "p < NSLOT" for p
    using slots_in_own [of i st' p] new [OF that] by (simp add: at set_slot_def)
  have other: "slots_in i st' m p = ?S m p" if "m < sb_ninodes ?sb" "m \<noteq> ?n" for m p
  proof -
    have v: "view i st' m = view i st m" using that rd by (simp add: view_def at)
    show ?thesis unfolding slots_of_def v
      by (rule slot_cong) (use ind [OF that] in \<open>auto simp: slots_of_def slot_indirect unat_eq_0\<close>)
  qed
  have slots: "slots_in i st' m p = set_slot ?n k b ?S m p" if "m < sb_ninodes ?sb" "p < NSLOT" for m p
    using own other that by (cases "m = ?n") (auto simp: set_slot_def)
  have so: "slots_ok ?sb (blocks st') (slots_in i st')"
    by (rule slots_ok_cong [OF slots_ok_set [OF S b(3) fo(2) b(1,2,4), of k]]) (rule slots)
  have "file_ok i st'"
    using fo R so dk(3) len rd by (auto simp: file_ok_def data_ok_def at sb view_def dinode_of_inode_def cache)
  moreover have "byte_in i st' m off = byte_in i st m off" if m: "m < sb_ninodes ?sb" and off: "off < MAXFILE * BSIZE" for m off
  proof -
    let ?p = "slot_no (off div BSIZE)"
    have p: "?p < NSLOT" using off by (simp add: less_mult_imp_div_less)
    have z: "blocks st' b ! (off mod BSIZE) = 0" if "?p = k"
      using k(2) that by (auto simp: BSIZE_def)
    have "b \<noteq> 0" using b(1) by (simp add: data_start_def)
    then show ?thesis
      using slots [OF m p] data [OF m p] z k(1) by (auto simp: file_byte_def set_slot_def Let_def)
  qed
  moreover have "slots_in i st' m p = ?S m p" if "m < sb_ninodes ?sb" "p < NSLOT" "?S m p \<noteq> 0" for m p
    using slots [OF that(1,2)] that(3) k(1) by (auto simp: set_slot_def)
  ultimately show ?thesis unfolding extends_def using sb cache low by blast
qed

text \<open>\<open>bmap_slot\<close>: the block in a direct slot, or the indirect block.\<close>

lemma length_ip_addrs:
  "file_ok i st \<Longrightarrow> length (ip_addrs (inode_at i st)) = NDIRECT + 1"
  using data_okD(3) [OF file_okD(3), of i st "inum_of i st"] file_okD(2) [of i st]
  by (simp add: view_def dinode_of_inode_def)

text \<open>The block \<open>b\<close> has been marked in the bitmap and zeroed; before it was in no slot.\<close>

definition takes :: "nat \<Rightarrow> slots \<Rightarrow> fs \<Rightarrow> fs \<Rightarrow> bool" where
  "takes b S st st' \<longleftrightarrow> fs_sb st' = fs_sb st \<and> data_start (fs_sb st) \<le> b \<and> b < sb_size (fs_sb st)
     \<and> unowned (fs_sb st) S b \<and> bit_of (fs_sb st) (blocks st') b
     \<and> blocks_ok (fs_sb st) (blocks st') \<and> slots_ok (fs_sb st) (blocks st') S
     \<and> blocks st' b = replicate BSIZE 0
     \<and> (\<forall>x. x \<noteq> b \<longrightarrow> x \<noteq> BBLOCK b (fs_sb st) \<longrightarrow> blocks st' x = blocks st x)"

lemma takesD:
  assumes "takes b S st st'"
  shows "fs_sb st' = fs_sb st" and "data_start (fs_sb st) \<le> b" and "b < sb_size (fs_sb st)"
    and "unowned (fs_sb st) S b" and "bit_of (fs_sb st) (blocks st') b"
    and "blocks_ok (fs_sb st) (blocks st')" and "slots_ok (fs_sb st) (blocks st') S"
    and "blocks st' b = replicate BSIZE 0"
    and "x \<noteq> b \<Longrightarrow> x \<noteq> BBLOCK b (fs_sb st) \<Longrightarrow> blocks st' x = blocks st x"
  using assms by (auto simp: takes_def)

lemma balloc_takes:
  assumes "balloc st = Inr (b, st')" and "blocks_ok (fs_sb st) (blocks st)" and "slots_ok (fs_sb st) (blocks st) S"
  shows "takes b S st st'"
  using balloc_slots [OF assms] by (simp add: takes_def)

lemma takes_nonzero: "takes b S st st' \<Longrightarrow> b \<noteq> 0"
  using takesD(2) [of b S st st'] by (simp add: data_start_def)

lemma takes_unat: "takes b S st st' \<Longrightarrow> unat (of_nat b :: u32) = b"
  using takesD(3,6) [of b S st st'] blocks_okD(1) by (intro unat_of_nat_u32) (force simp: geometry_def)

lemma takes_keep:
  assumes t: "takes b S st st'" and ok: "slots_ok (fs_sb st) (blocks st) S"
    and "m < sb_ninodes (fs_sb st)" "p < NSLOT" "S m p \<noteq> 0"
  shows "blocks st' (S m p) = blocks st (S m p)"
  using takesD(4) [OF t] assms(3,4) slots_okD(1) [OF ok assms(3-5)] BBLOCK_less [OF takesD(3) [OF t]]
  by (intro takesD(9) [OF t]) (auto simp: unowned_def)

lemma takes_low: "takes b S st st' \<Longrightarrow> x < sb_bmapstart (fs_sb st) \<Longrightarrow> blocks st' x = blocks st x"
  using takesD(2) [of b S st st'] by (intro takesD(9)) (auto simp: data_start_def BBLOCK_def)

text \<open>The block goes into a direct slot, or becomes the indirect block.\<close>

lemma extends_direct:
  assumes ok: "file_ok i st" and k: "k \<le> NDIRECT" and z: "ip_addrs (inode_at i st) ! k = 0"
    and t: "takes b (slots_in i st) st st1"
    and st': "fs_sb st' = fs_sb st1" "blocks st' = blocks st1"
      "fs_icache st' = (fs_icache st)[i := (inode_at i st)\<lparr>ip_addrs := (ip_addrs (inode_at i st))[k := of_nat b]\<rparr>]"
  shows "extends i st st'" and "slots_in i st' (inum_of i st) k = b"
proof -
  let ?as = "ip_addrs (inode_at i st)" and ?n = "inum_of i st" and ?sb = "fs_sb st" and ?S = "slots_in i st"
  let ?bs = "?as[k := of_nat b]"
  note fo = file_okD [OF ok] and dk = data_okD [OF file_okD(3) [OF ok]] and T = takesD [OF t]
  note ub = takes_unat [OF t] and b0 = takes_nonzero [OF t]
  have own: "?S ?n p = slot (blocks st) ?as p" for p by (rule slots_in_own)
  have len: "length ?as = NDIRECT + 1" by (rule length_ip_addrs [OF ok])
  have keep: "blocks st' (?S m p) = blocks st (?S m p)" if "m < sb_ninodes ?sb" "p < NSLOT" "?S m p \<noteq> 0" for m p
    unfolding st' by (rule takes_keep [OF t dk(2) that])
  have "slot (blocks st') ?bs p = (if p = k then b else ?S ?n p)" if p: "p < NSLOT" for p
  proof (cases "p \<le> NDIRECT")
    case True
    then show ?thesis using k len ub by (auto simp: own slot_def nth_list_update)
  next
    case False
    show ?thesis
    proof (cases "k = NDIRECT")
      case True
      then show ?thesis using False len ub z b0 p
        by (auto simp: own slot_def st' T(8) NSLOT_def unat_eq_0 intro!: word_in_zero)
    next
      case k': False
      then have "slot (blocks st') ?bs p = slot (blocks st') ?as p" using False by (simp add: slot_def)
      also have "\<dots> = slot (blocks st) ?as p"
        by (rule slot_cong) (use keep [OF fo(2) NDIRECT_less] in \<open>auto simp: own slot_indirect unat_eq_0\<close>)
      finally show ?thesis using False k by (simp add: own)
    qed
  qed
  moreover have "?S ?n k = 0" using z k by (simp add: own slot_def)
  moreover have "blocks st' x = blocks st x" if "x < sb_bmapstart ?sb" for x
    unfolding st' by (rule takes_low [OF t that])
  ultimately show "extends i st st'"
    using T keep len by (intro extends_slot [OF ok _ st'(3), of b k]) (auto simp: st')
  show "slots_in i st' ?n k = b"
    using slots_in_own [of i st' k] k fo(1) len ub by (simp add: st'(3) slot_def)
qed

text \<open>The block goes into a word of the indirect block \<open>ib\<close>.\<close>

lemma indirect_slot:
  "slots_in i st (inum_of i st) NDIRECT \<noteq> 0 \<Longrightarrow>
   slots_in i st (inum_of i st) (NDIRECT + 1 + j) = unat (word_in (blocks st (slots_in i st (inum_of i st) NDIRECT)) j)"
  unfolding slots_in_own by (auto simp: slot_def unat_eq_0)

lemma extends_indirect:
  assumes ok: "file_ok i st" and j: "j < NINDIRECT" and ib: "ib = slots_in i st (inum_of i st) NDIRECT" "ib \<noteq> 0"
    and z: "word_in (blocks st ib) j = 0" and t: "takes b (slots_in i st) st st1"
    and st': "fs_sb st' = fs_sb st1" "blocks st' = (blocks st1)(ib := set_word j (of_nat b) (blocks st ib))"
      "fs_icache st' = fs_icache st"
  shows "extends i st st'" and "slots_in i st' (inum_of i st) (NDIRECT + 1 + j) = b"
proof -
  let ?n = "inum_of i st" and ?sb = "fs_sb st" and ?S = "slots_in i st" and ?as = "ip_addrs (inode_at i st)"
  note fo = file_okD [OF ok] and dk = data_okD [OF file_okD(3) [OF ok]] and T = takesD [OF t]
  note ub = takes_unat [OF t]
  have S: "?S ?n (NDIRECT + 1 + k) = unat (word_in (blocks st ib) k)" for k
    using indirect_slot [of i st k] ib by simp
  have ibr: "data_start ?sb \<le> ib" using slots_okD(1) [OF dk(2) fo(2) NDIRECT_less] ib by simp
  have nbm: "ib \<noteq> BBLOCK x ?sb" if "x < sb_size ?sb" for x by (rule data_not_bitmap [OF ibr that])
  have keep: "blocks st' (?S m q) = blocks st (?S m q)"
    if "m < sb_ninodes ?sb" "q < NSLOT" "?S m q \<noteq> 0" "m \<noteq> ?n \<or> q \<noteq> NDIRECT" for m q
  proof -
    have "?S m q \<noteq> ib" using slots_okD(4) [OF dk(2) that(1-3) fo(2) NDIRECT_less] that(4) ib(1) by auto
    then show ?thesis using takes_keep [OF t dk(2) that(1-3)] by (simp add: st')
  qed
  have len: "length (blocks st ib) = BSIZE" by (rule blocks_okD(2) [OF dk(1)])
  have own: "?S ?n q = slot (blocks st) ?as q" for q by (rule slots_in_own)
  have ia: "ib = unat (?as ! NDIRECT)" using ib(1) by (simp add: own slot_indirect)
  have new: "slot (blocks st') ?as q = (if q = NDIRECT + 1 + j then b else ?S ?n q)" if "q < NSLOT" for q
  proof (cases "q \<le> NDIRECT")
    case True
    then show ?thesis by (simp add: own slot_def)
  next
    case False
    then obtain k where q: "q = NDIRECT + 1 + k" by (metis Suc_eq_plus1 add.commute less_imp_Suc_add not_le add_Suc_right)
    then have "k < NINDIRECT" using that by (simp add: NSLOT_def)
    then show ?thesis
      using ib(2) S [of k] q ub by (auto simp: slot_def ia [symmetric] unat_eq_0 [symmetric] st' word_in_set_word [OF len j])
  qed
  have p: "NDIRECT + 1 + j < NSLOT" using j by (simp add: NSLOT_def)
  have low: "blocks st' x = blocks st x" if "x < sb_bmapstart ?sb" for x
    using that ibr takes_low [OF t that] by (auto simp: st' data_start_def)
  have "ib \<noteq> b" using T(4) fo(2) NDIRECT_less ib(1) unfolding unowned_def by metis
  then show "extends i st st'"
  proof (intro extends_slot [OF ok, of st' ?as b "NDIRECT + 1 + j"])
    show "blocks_ok ?sb (blocks st')"
      unfolding st' by (rule blocks_ok_upd [OF T(6)]) (simp_all add: len j nbm)
    show "slots_ok ?sb (blocks st') ?S"
      by (rule slots_ok_bits [OF T(7)])
        (use bit_of_upd [OF nbm] slots_okD(2) [OF T(7)] in \<open>auto simp: st'\<close>)
    show "bit_of ?sb (blocks st') b" using bit_of_upd [OF nbm T(3)] T(5) by (simp add: st')
    show "?S ?n (NDIRECT + 1 + j) = 0" using z S [of j] by simp
  qed (use T low new keep st' length_ip_addrs [OF ok] in auto)
  show "slots_in i st' ?n (NDIRECT + 1 + j) = b"
    using slots_in_own [of i st' "NDIRECT + 1 + j"] new [OF p] by (simp add: st'(3))
qed

lemma extends_inum: "file_ok i st \<Longrightarrow> extends i st st' \<Longrightarrow> inum_of i st' = inum_of i st"
  by (auto simp: extends_def file_ok_def)

lemma bmap_slot_ok:
  assumes ok: "file_ok i st" and k: "k \<le> NDIRECT" and m: "bmap_slot i k st = Inr (b, st')"
  shows "extends i st st'" and "b = slots_in i st' (inum_of i st) k" and "b \<noteq> 0"
    and "slots_in i st (inum_of i st) k \<noteq> 0 \<Longrightarrow> st' = st"
proof -
  let ?as = "ip_addrs (inode_at i st)" and ?n = "inum_of i st"
  note dk = data_okD [OF file_okD(3) [OF ok]]
  have Sk: "slots_in i st ?n k = unat (?as ! k)" using k by (simp add: slots_in_own slot_def)
  have "extends i st st' \<and> b = slots_in i st' ?n k \<and> b \<noteq> 0 \<and> (slots_in i st ?n k \<noteq> 0 \<longrightarrow> st' = st)"
  proof (cases "?as ! k = 0")
    case False
    then have "b = unat (?as ! k)" "st' = st" using m by (auto simp: bmap_slot_def)
    then show ?thesis using extends_refl [OF ok] Sk False by (auto simp: unat_eq_0)
  next
    case True
    then obtain st1 where ba: "balloc st = Inr (b, st1)" and
      st': "st' = upd_inode i (\<lambda>ip. ip\<lparr>ip_addrs := (ip_addrs ip)[k := of_nat b]\<rparr>) st1"
      using m by (auto simp: bmap_slot_def res_simps)
    note t = balloc_takes [OF ba dk(1,2)] and c = balloc_slots(6) [OF ba dk(1,2)]
    have "extends i st st' \<and> slots_in i st' ?n k = b"
      using extends_direct [OF ok k True t, of st'] c by (simp add: st') (simp add: upd_inode_def)
    then show ?thesis using Sk True takes_nonzero [OF t] by simp
  qed
  then show "extends i st st'" "b = slots_in i st' ?n k" "b \<noteq> 0" "slots_in i st ?n k \<noteq> 0 \<Longrightarrow> st' = st" by blast+
qed

lemma bmap_ok:
  assumes ok: "file_ok i st" and bn: "bn < MAXFILE" and m: "bmap i bn st = Inr (b, st')"
  shows "extends i st st'" and "b = slots_in i st' (inum_of i st) (slot_no bn)" and "b \<noteq> 0"
    and "slots_in i st (inum_of i st) (slot_no bn) \<noteq> 0 \<Longrightarrow> st' = st"
proof -
  let ?n = "inum_of i st" and ?sb = "fs_sb st" and ?S = "slots_in i st" and ?j = "bn - NDIRECT"
  have "extends i st st' \<and> b = slots_in i st' ?n (slot_no bn) \<and> b \<noteq> 0 \<and> (?S ?n (slot_no bn) \<noteq> 0 \<longrightarrow> st' = st)"
  proof (cases "bn < NDIRECT")
    case True
    then show ?thesis using bmap_slot_ok [OF ok, of bn b st'] m by (simp add: bmap_def slot_no_def)
  next
    case False
    then have j: "?j < NINDIRECT" and p: "slot_no bn = NDIRECT + 1 + ?j"
      using bn by (auto simp: MAXFILE_def slot_no_def)
    obtain ib st1 where s1: "bmap_slot i NDIRECT st = Inr (ib, st1)" and
      s2: "(let a = word_in (blocks st1 ib) ?j in
            if a = 0 then bindR (balloc st1) (\<lambda>(b, st).
              bindR (log_block ib (set_word ?j (of_nat b) (blocks st ib)) st) (\<lambda>st. Inr (b, st)))
            else Inr (unat a, st1)) = Inr (b, st')"
      using m False j by (auto simp: bmap_def Let_def res_simps)
    note E = bmap_slot_ok [OF ok le_refl s1]
    note e = extendsD [OF E(1)] and n1 = extends_inum [OF ok E(1)]
    note dk = data_okD [OF file_okD(3) [OF e(2)], unfolded e(1)]
    have ib: "ib = slots_in i st1 (inum_of i st1) NDIRECT" using E(2) by (simp add: n1)
    have S1: "slots_in i st1 ?n (slot_no bn) = unat (word_in (blocks st1 ib) ?j)"
      using indirect_slot [of i st1 ?j] ib E(3) by (simp add: p n1)
    show ?thesis
    proof (cases "word_in (blocks st1 ib) ?j = 0")
      case False
      then have b: "b = unat (word_in (blocks st1 ib) ?j)" "st' = st1" using s2 by auto
      moreover have "?S ?n (slot_no bn) \<noteq> 0 \<Longrightarrow> st1 = st"
      proof (rule E(4))
        assume "?S ?n (slot_no bn) \<noteq> 0"
        then show "?S ?n NDIRECT \<noteq> 0"
          using p slots_in_own [of i st] by (auto simp: slot_def unat_gt_0 split: if_splits)
      qed
      ultimately show ?thesis using E(1) False S1 by (auto simp: unat_eq_0)
    next
      case True
      then obtain st2 where ba: "balloc st1 = Inr (b, st2)" and
        lb: "log_block ib (set_word ?j (of_nat b) (blocks st2 ib)) st2 = Inr st'"
        using s2 by (auto simp: res_simps)
      note t = balloc_takes [OF ba, unfolded e(1), OF dk(1,2)] and c = balloc_slots(6) [OF ba, unfolded e(1), OF dk(1,2)]
      note L = log_blockD [OF lb]
      have nz: "slots_in i st1 ?n NDIRECT \<noteq> 0" and n: "?n < sb_ninodes (fs_sb st1)"
        using E(2,3) file_okD(2) [OF e(2)] by (simp_all add: n1)
      have ib2: "blocks st2 ib = blocks st1 ib"
        using takes_keep [OF t _ n NDIRECT_less nz] dk(2) E(2) by (simp add: e(1))
      have "extends i st1 st' \<and> slots_in i st' ?n (slot_no bn) = b"
        using extends_indirect [OF e(2) j ib E(3) True t, of st'] L c by (simp add: ib2 p n1)
      moreover have "?S ?n (slot_no bn) = 0"
      proof (rule ccontr)
        assume "?S ?n (slot_no bn) \<noteq> 0"
        then have "slots_in i st1 ?n (slot_no bn) \<noteq> 0"
          using e(4) [of ?n "slot_no bn"] file_okD(2) [OF ok] bn by simp
        then show False using True S1 by simp
      qed
      ultimately show ?thesis using extends_trans [OF E(1)] takes_nonzero [OF t] by auto
    qed
  qed
  then show "extends i st st'" "b = slots_in i st' ?n (slot_no bn)" "b \<noteq> 0" "?S ?n (slot_no bn) \<noteq> 0 \<Longrightarrow> st' = st"
    by blast+
qed

lemma bmap_error: "bn < MAXFILE \<Longrightarrow> bmap i bn st = Inl e \<Longrightarrow> alloc_panic e"
  by (auto simp: bmap_def bmap_slot_def balloc_def Let_def res_simps MAXFILE_def alloc_panic_def
      split: if_splits dest!: balloc_from_error log_block_error)

lemma bmap_hit:
  assumes "file_ok i st" and "bn < MAXFILE" and "slots_in i st (inum_of i st) (slot_no bn) \<noteq> 0"
  shows "bmap i bn st = Inr (slots_in i st (inum_of i st) (slot_no bn), st)"
  using assms(2,3) unfolding slots_in_own
  by (auto simp: bmap_def bmap_slot_def slot_def slot_no_def Let_def MAXFILE_def unat_gt_0 split: if_splits)

section \<open>Reading\<close>

text \<open>An inode without holes: every block below the size is there.\<close>

definition no_holes :: "slots \<Rightarrow> nat \<Rightarrow> nat \<Rightarrow> bool" where
  "no_holes S n sz \<longleftrightarrow> sz \<le> MAXFILE * BSIZE \<and> (\<forall>bn. bn * BSIZE < sz \<longrightarrow> S n (slot_no bn) \<noteq> 0)"

lemma no_holesD:
  assumes "no_holes S n sz" and "off < sz"
  shows "off div BSIZE < MAXFILE" and "S n (slot_no (off div BSIZE)) \<noteq> 0"
proof -
  have "off div BSIZE * BSIZE < sz" using div_times_less_eq_dividend assms(2) by (rule le_less_trans)
  then show "S n (slot_no (off div BSIZE)) \<noteq> 0" using assms(1) unfolding no_holes_def by blast
  show "off div BSIZE < MAXFILE" using assms by (simp add: no_holes_def less_mult_imp_div_less)
qed

lemma BSIZE_pos [simp]: "0 < BSIZE" by (simp add: BSIZE_def)

text \<open>The bytes of one block.\<close>

lemma bytes_in_block:
  assumes "S n (slot_no (off div BSIZE)) \<noteq> 0" and "length (R (S n (slot_no (off div BSIZE)))) = BSIZE"
    and "m \<le> BSIZE - off mod BSIZE"
  shows "slice (off mod BSIZE) m (R (S n (slot_no (off div BSIZE)))) = map (file_byte S R n) [off..<off + m]"
proof (rule nth_equalityI)
  show "length (slice (off mod BSIZE) m (R (S n (slot_no (off div BSIZE))))) = length (map (file_byte S R n) [off..<off + m])"
    using assms(2,3) by simp
next
  fix k assume "k < length (slice (off mod BSIZE) m (R (S n (slot_no (off div BSIZE)))))"
  then have k: "k < m" by simp
  then have "off mod BSIZE + k < BSIZE" using assms(3) by linarith
  moreover have "off + k = off div BSIZE * BSIZE + (off mod BSIZE + k)" by simp
  ultimately have "(off + k) div BSIZE = off div BSIZE \<and> (off + k) mod BSIZE = off mod BSIZE + k"
    by (metis BSIZE_pos add.commute add.left_neutral div_mult_self3 mod_less mod_mult_self3 div_less less_not_refl)
  then show "slice (off mod BSIZE) m (R (S n (slot_no (off div BSIZE)))) ! k = map (file_byte S R n) [off..<off + m] ! k"
    using assms(1,2) k \<open>off mod BSIZE + k < BSIZE\<close> by (simp add: nth_slice file_byte_def)
qed

lemma readi_loop_ok:
  assumes "file_ok i st" and "no_holes (slots_in i st) (inum_of i st) sz" and "off + n \<le> sz"
  shows "readi_loop i off n st = Inr (map (byte_in i st (inum_of i st)) [off..<off + n], st)"
  using assms
proof (induction i off n st rule: readi_loop.induct)
  case (1 i off n st)
  show ?case
  proof (cases "n > 0")
    case True
    let ?n = "inum_of i st" and ?m = "min n (BSIZE - off mod BSIZE)"
    have off: "off < sz" using "1.prems"(3) True by simp
    note h = no_holesD [OF "1.prems"(2) off]
    note hit = bmap_hit [OF "1.prems"(1) h]
    have rec: "readi_loop i (off + ?m) (n - ?m) st
        = Inr (map (byte_in i st ?n) [off + ?m..<off + ?m + (n - ?m)], st)"
      by (rule "1.IH" [OF True hit refl refl "1.prems"(1,2)]) (use "1.prems"(3) in auto)
    have blk: "slice (off mod BSIZE) ?m (blocks st (slots_in i st ?n (slot_no (off div BSIZE))))
        = map (byte_in i st ?n) [off..<off + ?m]"
      by (rule bytes_in_block [where R = "blocks st" and S = "slots_in i st" and n = ?n and off = off, OF h(2) blocks_okD(2) [OF data_okD(1) [OF file_okD(3) [OF "1.prems"(1)]]]]) simp
    have "[off..<off + n] = [off..<off + ?m] @ [off + ?m..<off + ?m + (n - ?m)]"
      using upt_add_eq_append [of off "off + ?m" "n - ?m"] by simp
    then show ?thesis
      by (subst readi_loop.simps) (use True in \<open>simp add: hit Let_def rec blk\<close>)
  next
    case False
    then show ?thesis by (simp add: readi_loop.simps)
  qed
qed

text \<open>The bytes of inode \<open>n\<close> up to its size.\<close>

definition contents :: "nat \<Rightarrow> fs \<Rightarrow> nat \<Rightarrow> u8 list" where
  "contents i st n = map (byte_in i st n) [0..<unat (di_size (view i st n))]"

lemma length_contents [simp]: "length (contents i st n) = unat (di_size (view i st n))"
  by (simp add: contents_def)

lemma slice_contents:
  "off + k \<le> unat (di_size (view i st n)) \<Longrightarrow> slice off k (contents i st n) = map (byte_in i st n) [off..<off + k]"
  by (simp add: contents_def slice_def drop_map take_map)

abbreviation own_size :: "nat \<Rightarrow> fs \<Rightarrow> nat" where
  "own_size i st \<equiv> unat (ip_size (inode_at i st))"

lemma view_own: "view i st (inum_of i st) = dinode_of_inode (inode_at i st)"
  by (simp add: view_def)

lemma size_view_own [simp]: "di_size (view i st (inum_of i st)) = ip_size (inode_at i st)"
  by (simp add: view_own dinode_of_inode_def)

text \<open>Reading a file gives the bytes from the offset on, as many as there are, and changes nothing.\<close>

lemma readi_file:
  assumes "file_ok i st" and h: "no_holes (slots_in i st) (inum_of i st) (own_size i st)"
    and ty: "ip_type (inode_at i st) \<noteq> T_DEV" and off: "off \<le> ip_size (inode_at i st)" and "\<not> off + n < off"
  shows "readi dv i off n st =
    Inr (sint (min n (ip_size (inode_at i st) - off)),
         slice (unat off) (unat n) (contents i st (inum_of i st)), st)"
proof -
  let ?sz = "ip_size (inode_at i st)" and ?C = "contents i st (inum_of i st)"
  define k where "k = (if off + n > ?sz then ?sz - off else n)"
  have o: "unat off \<le> unat ?sz" using off by (simp add: word_le_nat_alt)
  have on: "unat (off + n) = unat off + unat n"
    using assms(5) unfolding not_less unat_plus_simple .
  have d: "unat (?sz - off) = unat ?sz - unat off" by (rule unat_sub [OF off])
  have k: "k = min n (?sz - off)" and uk: "unat k = min (unat n) (unat ?sz - unat off)"
    using on d o by (auto simp: k_def min_def word_less_nat_alt word_le_nat_alt)
  have le: "unat off + unat k \<le> unat ?sz" using uk o by simp
  have "readi dv i off n st = bindR (readi_loop i (unat off) (unat k) st) (\<lambda>(bs, st). Inr (sint k, bs, st))"
    using ty off assms(5) by (simp add: readi_def Let_def k_def not_less [symmetric])
  also have "\<dots> = Inr (sint k, map (byte_in i st (inum_of i st)) [unat off..<unat off + unat k], st)"
    using readi_loop_ok [OF assms(1) h le] by simp
  also have "map (byte_in i st (inum_of i st)) [unat off..<unat off + unat k] = slice (unat off) (unat k) ?C"
    using le by (simp add: slice_contents)
  also have "\<dots> = slice (unat off) (unat n) ?C"
    by (auto simp: slice_def uk min_def)
  finally show ?thesis by (simp add: k)
qed

section \<open>Writing\<close>

text \<open>
  Inode \<open>i\<close> after \<open>src\<close> has been written at \<open>off\<close>: as for \<open>extends\<close>, but these bytes are new.
  When all the blocks were there, the cached inode stays as it is.
\<close>

definition present :: "nat \<Rightarrow> nat \<Rightarrow> nat \<Rightarrow> fs \<Rightarrow> bool" where
  "present i off n st \<longleftrightarrow>
     (\<forall>o'. off \<le> o' \<and> o' < off + n \<longrightarrow> slots_in i st (inum_of i st) (slot_no (o' div BSIZE)) \<noteq> 0)"

definition wrote :: "nat \<Rightarrow> nat \<Rightarrow> u8 list \<Rightarrow> fs \<Rightarrow> fs \<Rightarrow> bool" where
  "wrote i off src st st' \<longleftrightarrow> fs_sb st' = fs_sb st
     \<and> (\<exists>as. fs_icache st' = (fs_icache st)[i := (inode_at i st)\<lparr>ip_addrs := as\<rparr>])
     \<and> file_ok i st'
     \<and> (\<forall>x < sb_bmapstart (fs_sb st). blocks st' x = blocks st x)
     \<and> (\<forall>n < sb_ninodes (fs_sb st). \<forall>p < NSLOT. slots_in i st n p \<noteq> 0 \<longrightarrow> slots_in i st' n p = slots_in i st n p)
     \<and> (\<forall>n < sb_ninodes (fs_sb st). \<forall>o' < MAXFILE * BSIZE. byte_in i st' n o' =
          (if n = inum_of i st \<and> off \<le> o' \<and> o' < off + length src then src ! (o' - off) else byte_in i st n o'))
     \<and> (\<forall>o'. off \<le> o' \<and> o' < off + length src \<longrightarrow> slots_in i st' (inum_of i st) (slot_no (o' div BSIZE)) \<noteq> 0)
     \<and> (present i off (length src) st \<longrightarrow> fs_icache st' = fs_icache st)"

lemma wroteD:
  assumes "wrote i off src st st'"
  shows "fs_sb st' = fs_sb st" and "file_ok i st'"
    and "x < sb_bmapstart (fs_sb st) \<Longrightarrow> blocks st' x = blocks st x"
    and "n < sb_ninodes (fs_sb st) \<Longrightarrow> p < NSLOT \<Longrightarrow> slots_in i st n p \<noteq> 0 \<Longrightarrow> slots_in i st' n p = slots_in i st n p"
    and "n < sb_ninodes (fs_sb st) \<Longrightarrow> o' < MAXFILE * BSIZE \<Longrightarrow> byte_in i st' n o' =
      (if n = inum_of i st \<and> off \<le> o' \<and> o' < off + length src then src ! (o' - off) else byte_in i st n o')"
    and "off \<le> o' \<Longrightarrow> o' < off + length src \<Longrightarrow> slots_in i st' (inum_of i st) (slot_no (o' div BSIZE)) \<noteq> 0"
    and "present i off (length src) st \<Longrightarrow> fs_icache st' = fs_icache st"
  using assms unfolding wrote_def by blast+

lemma wrote_cache:
  assumes "wrote i off src st st'"
  obtains as where "fs_icache st' = (fs_icache st)[i := (inode_at i st)\<lparr>ip_addrs := as\<rparr>]"
  using assms by (auto simp: wrote_def)

lemma wrote_inum: "file_ok i st \<Longrightarrow> wrote i off src st st' \<Longrightarrow> inum_of i st' = inum_of i st"
  by (auto simp: wrote_def file_ok_def)

lemma wrote_refl: "file_ok i st \<Longrightarrow> wrote i off [] st st"
  by (auto simp: wrote_def intro!: exI [of _ "ip_addrs (inode_at i st)"])

lemma wrote_trans:
  assumes ok: "file_ok i st" and a: "wrote i off src st st1" and b: "wrote i (off + length src) src' st1 st2"
    and le: "off + length src + length src' \<le> MAXFILE * BSIZE"
  shows "wrote i off (src @ src') st st2"
proof -
  let ?n = "inum_of i st" and ?m = "length src"
  note A = wroteD [OF a] and B = wroteD [OF b, unfolded A(1) wrote_inum [OF ok a]]
  obtain as where as: "fs_icache st1 = (fs_icache st)[i := (inode_at i st)\<lparr>ip_addrs := as\<rparr>]"
    by (rule wrote_cache [OF a])
  obtain bs where "fs_icache st2 = (fs_icache st1)[i := (inode_at i st1)\<lparr>ip_addrs := bs\<rparr>]"
    by (rule wrote_cache [OF b])
  with as file_okD(1) [OF ok] have c: "fs_icache st2 = (fs_icache st)[i := (inode_at i st)\<lparr>ip_addrs := bs\<rparr>]"
    by simp
  have n: "?n < sb_ninodes (fs_sb st)" by (rule file_okD(2) [OF ok])
  have bytes: "byte_in i st2 n o' = (if n = ?n \<and> off \<le> o' \<and> o' < off + length (src @ src')
      then (src @ src') ! (o' - off) else byte_in i st n o')" if "n < sb_ninodes (fs_sb st)" "o' < MAXFILE * BSIZE" for n o'
    using A(5) [OF that] B(5) [OF that] by (auto simp: nth_append)
  have "slots_in i st2 ?n (slot_no (o' div BSIZE)) \<noteq> 0" if "off \<le> o'" "o' < off + length (src @ src')" for o'
  proof (cases "o' < off + ?m")
    case True
    have "slot_no (o' div BSIZE) < NSLOT"
      using that le by (intro slot_no_less) (simp add: less_mult_imp_div_less)
    then show ?thesis using A(6) [OF that(1) True] B(4) [OF n] by metis
  qed (use B(6) that in auto)
  moreover have "fs_icache st2 = fs_icache st" if "present i off (length (src @ src')) st"
  proof -
    have "present i off ?m st" using that by (simp add: present_def)
    moreover have "present i (off + ?m) (length src') st1"
      unfolding present_def wrote_inum [OF ok a]
    proof (intro allI impI)
      fix o' assume o': "off + ?m \<le> o' \<and> o' < off + ?m + length src'"
      then have "slot_no (o' div BSIZE) < NSLOT"
        using le by (intro slot_no_less) (simp add: less_mult_imp_div_less)
      moreover have "slots_in i st ?n (slot_no (o' div BSIZE)) \<noteq> 0" using that o' by (simp add: present_def)
      ultimately show "slots_in i st1 ?n (slot_no (o' div BSIZE)) \<noteq> 0" using A(4) [OF n] by metis
    qed
    ultimately show ?thesis using A(7) B(7) by simp
  qed
  ultimately show ?thesis unfolding wrote_def using A B c bytes by auto
qed

text \<open>Writing one block of the contents.\<close>

lemma write_data:
  assumes ok: "file_ok i st" and bn: "bn < MAXFILE" and a: "a = slots_in i st (inum_of i st) (slot_no bn)" "a \<noteq> 0"
    and L: "blocks st' = (blocks st)(a := d)" "fs_sb st' = fs_sb st" "fs_icache st' = fs_icache st" and len: "length d = BSIZE"
  shows "file_ok i st'"
    and "x < sb_bmapstart (fs_sb st) \<Longrightarrow> blocks st' x = blocks st x"
    and "n < sb_ninodes (fs_sb st) \<Longrightarrow> p < NSLOT \<Longrightarrow> slots_in i st' n p = slots_in i st n p"
    and "n < sb_ninodes (fs_sb st) \<Longrightarrow> off < MAXFILE * BSIZE \<Longrightarrow>
      byte_in i st' n off = (if n = inum_of i st \<and> off div BSIZE = bn then d ! (off mod BSIZE) else byte_in i st n off)"
proof -
  let ?sb = "fs_sb st" and ?n = "inum_of i st" and ?S = "slots_in i st"
  note fo = file_okD [OF ok] and dk = data_okD [OF file_okD(3) [OF ok]]
  note own = slots_okD [OF dk(2) fo(2) slot_no_less [OF bn], folded a(1), OF a(2)]
  have nbm: "a \<noteq> BBLOCK x ?sb" if "x < sb_size ?sb" for x by (rule data_not_bitmap [OF own(1) that])
  have low: "blocks st' x = blocks st x" if "x < sb_bmapstart ?sb" for x
    using that own(1) by (simp add: L data_start_def)
  have rd: "read_dinode m st' = read_dinode m st" if "m < sb_ninodes ?sb" for m
    by (rule read_dinode_cong [OF L(2) low]) (rule IBLOCK_less [OF blocks_okD(1) [OF dk(1)] that])
  have v: "view i st' m = view i st m" if "m < sb_ninodes ?sb" for m
    using rd [OF that] by (simp add: view_def L)
  have slots: "slots_in i st' m q = ?S m q" if m: "m < sb_ninodes ?sb" for m q
    unfolding slots_of_def v [OF m]
  proof (rule slot_cong)
    assume "di_addrs (view i st m) ! NDIRECT \<noteq> 0"
    have "?S m NDIRECT \<noteq> a"
      using own(4) [OF m NDIRECT_less] by auto
    then show "blocks st' (unat (di_addrs (view i st m) ! NDIRECT)) = blocks st (unat (di_addrs (view i st m) ! NDIRECT))"
      by (simp add: L slots_of_def slot_indirect)
  qed
  have "blocks_ok ?sb (blocks st')" unfolding L by (rule blocks_ok_upd [OF dk(1) len nbm])
  moreover have "slots_ok ?sb (blocks st') (slots_in i st')"
    by (rule slots_ok_cong [OF slots_ok_bits [OF dk(2)] slots])
      (use bit_of_upd [OF nbm] slots_okD(2) [OF dk(2)] in \<open>auto simp: L\<close>)
  ultimately show "file_ok i st'"
    using fo dk(3) v by (simp add: file_ok_def data_ok_def L)
  show "x < sb_bmapstart ?sb \<Longrightarrow> blocks st' x = blocks st x" by (rule low)
  show "slots_in i st' n p = ?S n p" if "n < sb_ninodes ?sb" by (rule slots [OF that])
  show "byte_in i st' n off = (if n = ?n \<and> off div BSIZE = bn then d ! (off mod BSIZE) else byte_in i st n off)"
    if n: "n < sb_ninodes ?sb" and off: "off < MAXFILE * BSIZE"
  proof -
    have p: "slot_no (off div BSIZE) < NSLOT" using off by (simp add: less_mult_imp_div_less)
    have "a = ?S n (slot_no (off div BSIZE)) \<longleftrightarrow> n = ?n \<and> off div BSIZE = bn"
      using own(4) [OF n p] a(1) by auto
    then show ?thesis using a(2) slots [OF n, of "slot_no (off div BSIZE)"]
      by (auto simp: file_byte_def L Let_def)
  qed
qed

lemma same_block:
  fixes a b d :: nat
  assumes "a div d = b div d"
  shows "a \<le> b \<longleftrightarrow> a mod d \<le> b mod d" and "b - a = b mod d - a mod d" and "b < a + m \<longleftrightarrow> b mod d < a mod d + m"
proof -
  have "b = a div d * d + b mod d" "a = a div d * d + a mod d"
    using div_mult_mod_eq [of a d] div_mult_mod_eq [of b d] assms by simp_all
  then show "a \<le> b \<longleftrightarrow> a mod d \<le> b mod d" and "b - a = b mod d - a mod d" and "b < a + m \<longleftrightarrow> b mod d < a mod d + m"
    by linarith+
qed

lemma nth_blit_block:
  assumes "off mod BSIZE + length t \<le> BSIZE" and "length d = BSIZE" and "o' div BSIZE = off div BSIZE"
  shows "blit (off mod BSIZE) t d ! (o' mod BSIZE)
    = (if off \<le> o' \<and> o' < off + length t then t ! (o' - off) else d ! (o' mod BSIZE))"
  using same_block [OF assms(3) [symmetric]] assms(1,2) by (simp add: nth_blit)

text \<open>One block of a write: the block is mapped, then its bytes from \<open>off\<close> on are replaced.\<close>

lemma wrote_block:
  assumes ok: "file_ok i st" and bn: "off div BSIZE < MAXFILE" and ext: "extends i st st1"
    and b: "b = slots_in i st1 (inum_of i st) (slot_no (off div BSIZE))" "b \<noteq> 0"
    and hit: "slots_in i st (inum_of i st) (slot_no (off div BSIZE)) \<noteq> 0 \<Longrightarrow> fs_icache st1 = fs_icache st"
    and t: "t \<noteq> []" "off mod BSIZE + length t \<le> BSIZE"
    and st2: "blocks st2 = (blocks st1)(b := blit (off mod BSIZE) t (blocks st1 b))"
      "fs_sb st2 = fs_sb st1" "fs_icache st2 = fs_icache st1"
  shows "wrote i off t st st2"
proof -
  let ?n = "inum_of i st" and ?bn = "off div BSIZE" and ?m = "length t"
  let ?d = "blit (off mod BSIZE) t (blocks st1 b)"
  note e = extendsD [OF ext] and n1 = extends_inum [OF ok ext]
  have len1: "length (blocks st1 b) = BSIZE"
    using blocks_okD(2) [OF data_okD(1) [OF file_okD(3) [OF e(2)]]] .
  have len: "length ?d = BSIZE" using t(2) len1 by (subst length_blit) auto
  note W = write_data [OF e(2) bn, unfolded n1, OF b st2 len]
  have n2: "inum_of i st2 = ?n" using n1 by (simp add: st2)
  have blk: "?d ! (o' mod BSIZE) = (if off \<le> o' \<and> o' < off + ?m then t ! (o' - off) else byte_in i st1 ?n o')"
    if "o' div BSIZE = ?bn" for o'
    using nth_blit_block [OF t(2) len1 that] b that by (simp add: file_byte_def)
  have same: "o' div BSIZE = ?bn" if "off \<le> o'" "o' < off + ?m" for o'
  proof -
    have "off mod BSIZE + (o' - off) < BSIZE" using that t(2) by linarith
    then have "(off mod BSIZE + (o' - off) + ?bn * BSIZE) div BSIZE = ?bn"
      by (subst div_mult_self1) simp_all
    moreover have "off mod BSIZE + (o' - off) + ?bn * BSIZE = o'"
      using that(1) div_mult_mod_eq [of off BSIZE] by linarith
    ultimately show ?thesis by simp
  qed
  obtain as where as: "fs_icache st1 = (fs_icache st)[i := (inode_at i st)\<lparr>ip_addrs := as\<rparr>]"
    by (rule extends_cache [OF ext])
  have "byte_in i st2 n o' = (if n = ?n \<and> off \<le> o' \<and> o' < off + ?m then t ! (o' - off) else byte_in i st n o')"
    if "n < sb_ninodes (fs_sb st)" "o' < MAXFILE * BSIZE" for n o'
    using W(4) [OF that [folded e(1)]] e(5) [OF that] blk [of o'] same [of o'] by (auto simp: n1)
  moreover have "slots_in i st2 ?n (slot_no (o' div BSIZE)) \<noteq> 0" if "off \<le> o'" "o' < off + ?m" for o'
    using same [of o'] that W(3) [of ?n "slot_no ?bn"] b file_okD(2) [OF ok] bn by (simp add: e(1))
  moreover have "slots_in i st2 n p = slots_in i st n p"
    if "n < sb_ninodes (fs_sb st)" "p < NSLOT" "slots_in i st n p \<noteq> 0" for n p
    using e(4) [OF that] W(3) [of n p] that by (simp add: e(1))
  moreover have "fs_icache st2 = fs_icache st" if "present i off ?m st"
    using that hit t(1) by (auto simp: present_def st2)
  ultimately show ?thesis unfolding wrote_def using W(1,2) st2 e(1,3) as by auto
qed

lemma writei_loop_ok:
  assumes "writei_loop i off src st = Inr st'" and "file_ok i st" and "off + length src \<le> MAXFILE * BSIZE"
  shows "wrote i off src st st'"
  using assms
proof (induction i off src st arbitrary: st' rule: writei_loop.induct)
  case (1 i off src st)
  note ok = "1.prems"(2)
  show ?case
  proof (cases "src = []")
    case True
    then have "st' = st" using "1.prems"(1) by (simp add: writei_loop.simps)
    then show ?thesis using wrote_refl [OF ok] True by simp
  next
    case False
    let ?bn = "off div BSIZE" and ?m = "min (length src) (BSIZE - off mod BSIZE)"
    obtain b st1 st2 where s1: "bmap i ?bn st = Inr (b, st1)"
      and s2: "log_block b (blit (off mod BSIZE) (take ?m src) (blocks st1 b)) st1 = Inr st2"
      and s3: "writei_loop i (off + ?m) (drop ?m src) st2 = Inr st'"
      using "1.prems"(1) False by (subst (asm) writei_loop.simps) (auto simp: Let_def res_simps)
    have "off mod BSIZE < BSIZE" by simp
    then have m: "?m > 0" "?m \<le> length src" "off mod BSIZE + ?m \<le> BSIZE"
      using False by (simp, simp, linarith)
    have bn: "?bn < MAXFILE" using "1.prems"(3) False
      by (intro less_mult_imp_div_less) (auto simp: neq_Nil_conv)
    note E = bmap_ok [OF ok bn s1]
    have w: "wrote i off (take ?m src) st st2"
    proof (rule wrote_block [OF ok bn E(1) E(2,3)])
      show "take ?m src \<noteq> []" using m(1) False by simp
      show "off mod BSIZE + length (take ?m src) \<le> BSIZE" using m(3) by simp
    qed (use E(4) log_blockD [OF s2] in auto)
    have "wrote i (off + length (take ?m src)) (drop ?m src) st2 st'"
      using "1.IH" [OF False s1 refl refl s2 s3 wroteD(2) [OF w]] "1.prems"(3) m(2) by simp
    then show ?thesis
      using wrote_trans [OF ok w, of "drop ?m src" st'] "1.prems"(3) m(2) by simp
  qed
qed

lemma writei_loop_error:
  assumes "writei_loop i off src st = Inl e" and "off + length src \<le> MAXFILE * BSIZE"
  shows "alloc_panic e"
  using assms
proof (induction i off src st rule: writei_loop.induct)
  case (1 i off src st)
  show ?case
  proof (cases "src = []")
    case False
    let ?m = "min (length src) (BSIZE - off mod BSIZE)"
    have bn: "off div BSIZE < MAXFILE" using "1.prems"(2) False
      by (intro less_mult_imp_div_less) (auto simp: neq_Nil_conv)
    show ?thesis
    proof (cases "bmap i (off div BSIZE) st")
      case (Inl e')
      then show ?thesis using "1.prems"(1) False bmap_error [OF bn]
        by (subst (asm) writei_loop.simps) simp
    next
      case (Inr r)
      obtain b st1 where r: "r = (b, st1)" by (cases r)
      show ?thesis
      proof (cases "log_block b (blit (off mod BSIZE) (take ?m src) (blocks st1 b)) st1")
        case (Inl e')
        then have "e = e'" using "1.prems"(1) False Inr r by (subst (asm) writei_loop.simps) (simp add: Let_def)
        with Inl show ?thesis using log_block_error by (auto simp: alloc_panic_def)
      next
        case (Inr st2)
        have "writei_loop i (off + ?m) (drop ?m src) st2 = Inl e"
          using "1.prems"(1) False \<open>bmap _ _ _ = Inr r\<close> r Inr by (subst (asm) writei_loop.simps) (simp add: Let_def)
        then show ?thesis
          using "1.IH" [OF False \<open>bmap _ _ _ = Inr r\<close> [unfolded r] refl refl Inr] "1.prems"(2) by auto
      qed
    qed
  qed (use "1.prems" in \<open>simp add: writei_loop.simps\<close>)
qed

end
