(* ===== verification/Fs_Inodes.thy ===== *)
theory Fs_Inodes
  imports Fs_Files
begin

text \<open>
  Inodes on disk and in the cache (\<open>iupdate\<close>, \<open>ilock\<close>, \<open>iget\<close>, \<open>idup\<close>, \<open>iput\<close>, \<open>itrunc\<close>,
  \<open>ialloc\<close> in \<open>fs.c\<close>) and \<open>writei\<close>, with the invariant of the file system between operations.
\<close>

section \<open>Inodes on disk\<close>

lemma u16_of_bytes_of_u16 [simp]: "u16_of_bytes (bytes_of_u16 w) = w"
proof (rule bit_word_eqI)
  fix n assume "n < LENGTH(16)"
  then consider "n < 8" | "8 \<le> n" "n < 16" by fastforce
  then show "bit (u16_of_bytes (bytes_of_u16 w)) n = bit w n"
    by cases (auto simp: u16_of_bytes_def bytes_of_u16_def bit_simps)
qed

lemma length_bytes_of_u16 [simp]: "length (bytes_of_u16 w) = 2"
  by (simp add: bytes_of_u16_def)

lemma slice_append_right: "length xs \<le> p \<Longrightarrow> slice p n (xs @ ys) = slice (p - length xs) n ys"
  by (simp add: slice_def)

lemma length_concat_u32 [simp]: "length (concat (map bytes_of_u32 ws)) = 4 * length ws"
  by (induction ws) auto

lemma slice_concat_u32:
  "k < length ws \<Longrightarrow> slice (4 * k) 4 (concat (map bytes_of_u32 ws)) = bytes_of_u32 (ws ! k)"
proof (induction ws arbitrary: k)
  case (Cons w ws)
  show ?case
  proof (cases k)
    case (Suc j)
    then show ?thesis using Cons by (simp add: slice_append_right)
  qed (simp add: slice_def)
qed simp

lemma length_dinode_bytes [simp]:
  "length (di_addrs d) = NDIRECT + 1 \<Longrightarrow> length (dinode_bytes d) = 64"
  by (simp add: dinode_bytes_def NDIRECT_def)

lemma dinode_of_bytes: "length (di_addrs d) = NDIRECT + 1 \<Longrightarrow> dinode_of (dinode_bytes d) = d"
proof -
  assume len: "length (di_addrs d) = NDIRECT + 1"
  have "u32_of_bytes (slice (12 + 4 * i) 4 (dinode_bytes d)) = di_addrs d ! i" if "i < NDIRECT + 1" for i
    using that len by (simp add: dinode_bytes_def slice_append_right slice_concat_u32)
  then have "map (\<lambda>i. u32_of_bytes (slice (12 + 4 * i) 4 (dinode_bytes d))) [0..<NDIRECT + 1] = di_addrs d"
    by (intro nth_equalityI) (auto simp: len nth_append less_Suc_eq)
  moreover have "slice 0 2 (dinode_bytes d) = bytes_of_u16 (di_type d)"
    "slice 2 2 (dinode_bytes d) = bytes_of_u16 (di_major d)" "slice 4 2 (dinode_bytes d) = bytes_of_u16 (di_minor d)"
    "slice 6 2 (dinode_bytes d) = bytes_of_u16 (di_nlink d)" "slice 8 4 (dinode_bytes d) = bytes_of_u32 (di_size d)"
    by (simp_all add: dinode_bytes_def slice_append_right slice_append_left)
  ultimately show ?thesis by (simp add: dinode_of_def)
qed

lemma IPB_val: "IPB = 8" by (simp add: IPB_def BSIZE_def)

lemma IBLOCK_eq: "IBLOCK m sb = IBLOCK n sb \<longleftrightarrow> m div IPB = n div IPB"
  by (simp add: IBLOCK_def)

text \<open>Writing one inode leaves its neighbours in the block alone.\<close>

definition stores_dinode :: "nat \<Rightarrow> dinode \<Rightarrow> fs \<Rightarrow> fs \<Rightarrow> bool" where
  "stores_dinode n d st st' \<longleftrightarrow> fs_sb st' = fs_sb st \<and> fs_icache st' = fs_icache st
     \<and> blocks st' = (blocks st)(IBLOCK n (fs_sb st) :=
         blit (64 * (n mod IPB)) (dinode_bytes d) (blocks st (IBLOCK n (fs_sb st))))"

lemma write_dinodeD: "write_dinode n d st = Inr st' \<Longrightarrow> stores_dinode n d st st'"
  by (auto simp: write_dinode_def Let_def stores_dinode_def dest: log_blockD)

lemma stores_dinodeD:
  assumes "stores_dinode n d st st'"
  shows "blocks st' = (blocks st)(IBLOCK n (fs_sb st) :=
         blit (64 * (n mod IPB)) (dinode_bytes d) (blocks st (IBLOCK n (fs_sb st))))"
    and "fs_sb st' = fs_sb st" and "fs_icache st' = fs_icache st"
  using assms by (simp_all add: stores_dinode_def)

lemma write_dinode_ok:
  assumes "stores_dinode n d st st'" and "length (di_addrs d) = NDIRECT + 1"
    and len: "length (blocks st (IBLOCK n (fs_sb st))) = BSIZE"
  shows "fs_sb st' = fs_sb st" and "fs_icache st' = fs_icache st"
    and "read_dinode m st' = (if m = n then d else read_dinode m st)"
    and "x \<noteq> IBLOCK n (fs_sb st) \<Longrightarrow> blocks st' x = blocks st x"
    and "length (blocks st' (IBLOCK n (fs_sb st))) = BSIZE"
proof -
  let ?b = "IBLOCK n (fs_sb st)"
  note L = stores_dinodeD [OF assms(1)]
  have fits: "64 * (n mod IPB) + length (dinode_bytes d) \<le> length (blocks st ?b)"
    using assms(2) len mod_less_divisor [of IPB n] by (simp add: IPB_val BSIZE_def)
  have dist: "slice (64 * (m mod IPB)) 64 (blit (64 * (n mod IPB)) (dinode_bytes d) (blocks st ?b))
      = slice (64 * (m mod IPB)) 64 (blocks st ?b)" if "m mod IPB \<noteq> n mod IPB"
  proof (rule slice_blit_disjoint [OF fits])
    have "m mod IPB + 1 \<le> n mod IPB \<or> n mod IPB + 1 \<le> m mod IPB" using that by linarith
    then show "64 * (m mod IPB) + 64 \<le> 64 * (n mod IPB) \<or> 64 * (n mod IPB) + length (dinode_bytes d) \<le> 64 * (m mod IPB)"
      using assms(2) by (simp del: mod_mult_self1) linarith
  qed
  show "read_dinode m st' = (if m = n then d else read_dinode m st)"
  proof (cases "m div IPB = n div IPB")
    case True
    then have "m = n \<longleftrightarrow> m mod IPB = n mod IPB" by (metis div_mult_mod_eq)
    then show ?thesis
      using True dist fits assms(2) slice_blit_same [OF fits, of 64] IBLOCK_eq [of m "fs_sb st" n]
      by (auto simp: read_dinode_def L dinode_of_bytes)
  next
    case False
    then show ?thesis by (auto simp: read_dinode_def L IBLOCK_eq)
  qed
  show "fs_sb st' = fs_sb st" "fs_icache st' = fs_icache st" by (fact L)+
  show "x \<noteq> ?b \<Longrightarrow> blocks st' x = blocks st x" by (simp add: L)
  show "length (blocks st' ?b) = BSIZE" using fits by (simp add: L len)
qed

text \<open>A write to an inode block keeps the slots of every view whose addresses stay.\<close>

lemma write_dinode_data:
  assumes w: "stores_dinode n d st st'" and d: "length (di_addrs d) = NDIRECT + 1"
    and ok: "data_ok V st" and n: "n < sb_ninodes (fs_sb st)"
    and V': "\<And>m. m < sb_ninodes (fs_sb st) \<Longrightarrow> di_addrs (V' m) = di_addrs (V m)"
  shows "data_ok V' st'"
    and "m < sb_ninodes (fs_sb st) \<Longrightarrow> p < NSLOT \<Longrightarrow> slots_of V' (blocks st') m p = slots_of V (blocks st) m p"
    and "m < sb_ninodes (fs_sb st) \<Longrightarrow> off < MAXFILE * BSIZE \<Longrightarrow>
      file_byte (slots_of V' (blocks st')) (blocks st') m off = file_byte (slots_of V (blocks st)) (blocks st) m off"
proof -
  let ?sb = "fs_sb st" and ?S = "slots_of V (blocks st)"
  note dk = data_okD [OF ok]
  note W = write_dinode_ok [OF w d blocks_okD(2) [OF dk(1)]]
  have I: "IBLOCK n ?sb < data_start ?sb" by (rule IBLOCK_data [OF blocks_okD(1) [OF dk(1)] n])
  have data: "blocks st' (?S m p) = blocks st (?S m p)" if "m < sb_ninodes ?sb" "p < NSLOT" "?S m p \<noteq> 0" for m p
    using slots_okD(1) [OF dk(2) that] I by (intro W(4)) auto
  have slots: "slots_of V' (blocks st') m p = ?S m p" if "m < sb_ninodes ?sb" for m p
    unfolding slots_of_def V' [OF that]
    by (rule slot_cong) (use data [OF that NDIRECT_less] in \<open>auto simp: slots_of_def slot_indirect unat_eq_0\<close>)
  have bit: "bit_of ?sb (blocks st') x = bit_of ?sb (blocks st) x" for x
    using W(4) [of "BBLOCK x ?sb"] IBLOCK_BBLOCK [OF blocks_okD(1) [OF dk(1)] n, of x] by (auto simp: bit_of_def)
  have "length (blocks st' b) = BSIZE" for b
    using W(4,5) blocks_okD(2) [OF dk(1)] by (cases "b = IBLOCK n ?sb") auto
  then have "blocks_ok ?sb (blocks st')" using dk(1) bit by (simp add: blocks_ok_def)
  moreover have "slots_ok ?sb (blocks st') (slots_of V' (blocks st'))"
    by (rule slots_ok_cong [OF slots_ok_bits [OF dk(2)] slots]) (auto simp: bit)
  ultimately show "data_ok V' st'" using dk(3) V' by (simp add: data_ok_def W(1))
  show "slots_of V' (blocks st') m p = ?S m p" if "m < sb_ninodes ?sb" "p < NSLOT" by (rule slots [OF that(1)])
  show "file_byte (slots_of V' (blocks st')) (blocks st') m off = file_byte ?S (blocks st) m off"
    if "m < sb_ninodes ?sb" "off < MAXFILE * BSIZE"
  proof -
    have "slot_no (off div BSIZE) < NSLOT" using that by (simp add: less_mult_imp_div_less)
    then show ?thesis using slots data that(1) by (simp add: file_byte_def Let_def)
  qed
qed

section \<open>The file system between operations\<close>

abbreviation on_disk :: "fs \<Rightarrow> nat \<Rightarrow> dinode" where
  "on_disk st \<equiv> (\<lambda>n. read_dinode n st)"

abbreviation disk_slots :: "fs \<Rightarrow> slots" where
  "disk_slots st \<equiv> slots_of (on_disk st) (blocks st)"

text \<open>The bytes of file \<open>n\<close>.\<close>

definition file_bytes :: "fs \<Rightarrow> nat \<Rightarrow> u8 list" where
  "file_bytes st n = map (file_byte (disk_slots st) (blocks st) n) [0..<unat (di_size (read_dinode n st))]"

text \<open>
  The inode cache: references are counted from 0, an entry in use names an inode of the disk, no
  two name the same one, and the fields of a valid entry are those on disk.
\<close>

definition icache_ok :: "fs \<Rightarrow> bool" where
  "icache_ok st \<longleftrightarrow>
     (\<forall>i < length (fs_icache st). 0 \<le> ip_ref (inode_at i st)
        \<and> (ip_ref (inode_at i st) > 0 \<longrightarrow> ip_dev (inode_at i st) = ROOTDEV \<and> inum_of i st < sb_ninodes (fs_sb st)
             \<and> (ip_valid (inode_at i st) \<longrightarrow> dinode_of_inode (inode_at i st) = read_dinode (inum_of i st) st)))
     \<and> (\<forall>i < length (fs_icache st). \<forall>j < length (fs_icache st).
          ip_ref (inode_at i st) > 0 \<longrightarrow> ip_ref (inode_at j st) > 0 \<longrightarrow> inum_of i st = inum_of j st \<longrightarrow> i = j)"

definition fs_ok :: "fs \<Rightarrow> bool" where
  "fs_ok st \<longleftrightarrow> data_ok (on_disk st) st \<and> icache_ok st
     \<and> (\<forall>n < sb_ninodes (fs_sb st). no_holes (disk_slots st) n (unat (di_size (read_dinode n st))))"

text \<open>The inode in entry \<open>i\<close> is in use and its fields are loaded.\<close>

definition loaded :: "nat \<Rightarrow> fs \<Rightarrow> bool" where
  "loaded i st \<longleftrightarrow> i < length (fs_icache st) \<and> ip_ref (inode_at i st) > 0 \<and> ip_valid (inode_at i st)"

lemma fs_okD:
  assumes "fs_ok st"
  shows "data_ok (on_disk st) st" and "icache_ok st"
    and "n < sb_ninodes (fs_sb st) \<Longrightarrow> no_holes (disk_slots st) n (unat (di_size (read_dinode n st)))"
  using assms by (auto simp: fs_ok_def)

lemma icache_okD:
  assumes "icache_ok st" and "i < length (fs_icache st)"
  shows "0 \<le> ip_ref (inode_at i st)"
    and "ip_ref (inode_at i st) > 0 \<Longrightarrow> ip_dev (inode_at i st) = ROOTDEV"
    and "ip_ref (inode_at i st) > 0 \<Longrightarrow> inum_of i st < sb_ninodes (fs_sb st)"
    and "ip_ref (inode_at i st) > 0 \<Longrightarrow> ip_valid (inode_at i st) \<Longrightarrow>
      dinode_of_inode (inode_at i st) = read_dinode (inum_of i st) st"
    and "ip_ref (inode_at i st) > 0 \<Longrightarrow> j < length (fs_icache st) \<Longrightarrow> ip_ref (inode_at j st) > 0 \<Longrightarrow>
      inum_of i st = inum_of j st \<Longrightarrow> i = j"
  using assms unfolding icache_ok_def by blast+

lemma loadedD: "loaded i st \<Longrightarrow> i < length (fs_icache st) \<and> ip_ref (inode_at i st) > 0 \<and> ip_valid (inode_at i st)"
  by (simp add: loaded_def)

lemma loaded_view:
  assumes "fs_ok st" and "loaded i st"
  shows "view i st = on_disk st" and "file_ok i st" and "inum_of i st < sb_ninodes (fs_sb st)"
    and "ip_size (inode_at i st) = di_size (read_dinode (inum_of i st) st)"
    and "no_holes (disk_slots st) (inum_of i st) (own_size i st)"
proof -
  note l = loadedD [OF assms(2)]
  note c = icache_okD [OF fs_okD(2) [OF assms(1)]]
  have i: "i < length (fs_icache st)" "ip_ref (inode_at i st) > 0" "ip_valid (inode_at i st)" using l by auto
  have d: "dinode_of_inode (inode_at i st) = read_dinode (inum_of i st) st" by (rule c(4) [OF i])
  show v: "view i st = on_disk st" unfolding view_def d by (rule ext) simp
  show n: "inum_of i st < sb_ninodes (fs_sb st)" by (rule c(3) [OF i(1,2)])
  show "file_ok i st" using i n fs_okD(1) [OF assms(1)] by (simp add: file_ok_def v)
  show sz: "ip_size (inode_at i st) = di_size (read_dinode (inum_of i st) st)"
    by (simp flip: d add: dinode_of_inode_def)
  show "no_holes (disk_slots st) (inum_of i st) (own_size i st)"
    using fs_okD(3) [OF assms(1) n] by (simp add: sz)
qed

lemma contents_file_bytes: "fs_ok st \<Longrightarrow> loaded i st \<Longrightarrow> contents i st n = file_bytes st n"
  by (simp add: contents_def file_bytes_def loaded_view(1))

lemma length_file_bytes [simp]: "length (file_bytes st n) = unat (di_size (read_dinode n st))"
  by (simp add: file_bytes_def)

lemma map_upt_blit:
  assumes "p \<le> k" and "k' = max k (p + length ys)"
    and "\<And>x. x < k' \<Longrightarrow> g x = (if p \<le> x \<and> x < p + length ys then ys ! (x - p) else f x)"
  shows "map g [0..<k'] = blit p ys (map f [0..<k])"
proof (rule nth_equalityI)
  show "length (map g [0..<k']) = length (blit p ys (map f [0..<k]))"
    using assms(1,2) by (simp add: blit_def)
  fix x assume "x < length (map g [0..<k'])"
  then show "map g [0..<k'] ! x = blit p ys (map f [0..<k]) ! x"
    using assms by (auto simp: blit_def nth_append min_def)
qed

text \<open>The invariant of the cache after a step that changed entry \<open>i\<close> and inode \<open>n\<close> alone.\<close>

lemma icache_ok_upd:
  assumes c: "icache_ok st" and i: "i < length (fs_icache st)" "ip_ref (inode_at i st) > 0"
    and eq: "fs_icache st' = (fs_icache st)[i := ip]" "fs_sb st' = fs_sb st"
    and ip: "ip_ref ip = ip_ref (inode_at i st)" "ip_dev ip = ip_dev (inode_at i st)" "ip_inum ip = inum_of i st"
      "ip_valid ip \<Longrightarrow> dinode_of_inode ip = read_dinode (ip_inum ip) st'"
    and rd: "\<And>m. m < sb_ninodes (fs_sb st) \<Longrightarrow> m \<noteq> inum_of i st \<Longrightarrow> read_dinode m st' = read_dinode m st"
  shows "icache_ok st'"
proof -
  have len: "length (fs_icache st') = length (fs_icache st)" by (simp add: eq)
  have at: "inode_at j st' = (if j = i then ip else inode_at j st)" if "j < length (fs_icache st)" for j
    using that by (simp add: eq nth_list_update)
  have same: "ip_ref (inode_at j st') = ip_ref (inode_at j st) \<and> inum_of j st' = inum_of j st
      \<and> ip_dev (inode_at j st') = ip_dev (inode_at j st)" if "j < length (fs_icache st)" for j
    using at [OF that] ip by simp
  have "ip_valid (inode_at j st') \<longrightarrow> dinode_of_inode (inode_at j st') = read_dinode (inum_of j st') st'"
    if j: "j < length (fs_icache st)" and r: "ip_ref (inode_at j st) > 0" for j
  proof (cases "j = i")
    case False
    then have "inum_of j st \<noteq> inum_of i st" using icache_okD(5) [OF c j r i] by auto
    then show ?thesis using at [OF j] False rd [OF icache_okD(3) [OF c j r]] icache_okD(4) [OF c j r] by simp
  qed (use at [OF j] ip in simp)
  then show ?thesis
    using c same unfolding icache_ok_def len eq(2) by simp
qed

text \<open>The cached inode \<open>i\<close> has been written to its place on disk.\<close>

definition stored :: "nat \<Rightarrow> fs \<Rightarrow> fs \<Rightarrow> bool" where
  "stored i st st' \<longleftrightarrow> stores_dinode (inum_of i st) (dinode_of_inode (inode_at i st)) st st'"

lemma iupdateD: "iupdate i st = Inr st' \<Longrightarrow> stored i st st'"
  by (simp add: iupdate_def stored_def write_dinodeD)

lemma iupdate_ok:
  assumes ok: "file_ok i st" and w: "stored i st st'"
  shows "fs_sb st' = fs_sb st" and "fs_icache st' = fs_icache st" and "data_ok (on_disk st') st'"
    and "read_dinode m st' = view i st m"
    and "m < sb_ninodes (fs_sb st) \<Longrightarrow> p < NSLOT \<Longrightarrow> disk_slots st' m p = slots_in i st m p"
    and "m < sb_ninodes (fs_sb st) \<Longrightarrow> off < MAXFILE * BSIZE \<Longrightarrow>
      file_byte (disk_slots st') (blocks st') m off = byte_in i st m off"
    and "x \<noteq> IBLOCK (inum_of i st) (fs_sb st) \<Longrightarrow> blocks st' x = blocks st x"
proof -
  note fo = file_okD [OF ok]
  have w: "stores_dinode (inum_of i st) (dinode_of_inode (inode_at i st)) st st'"
    using w by (simp add: stored_def)
  have len: "length (di_addrs (dinode_of_inode (inode_at i st))) = NDIRECT + 1"
    using length_ip_addrs [OF ok] by (simp add: dinode_of_inode_def)
  note W = write_dinode_ok [OF w len blocks_okD(2) [OF data_okD(1) [OF fo(3)]]]
  have rd: "read_dinode m st' = view i st m" for m
    using W(3) [of m] by (simp add: view_def)
  have V': "di_addrs (on_disk st' m) = di_addrs (view i st m)" for m by (simp add: rd)
  note D = write_dinode_data [OF w len fo(3,2) V']
  show "fs_sb st' = fs_sb st" "fs_icache st' = fs_icache st" by (fact W)+
  show "data_ok (on_disk st') st'" by (rule D(1))
  show "read_dinode m st' = view i st m" by (rule rd)
  show "m < sb_ninodes (fs_sb st) \<Longrightarrow> p < NSLOT \<Longrightarrow> disk_slots st' m p = slots_in i st m p" by (rule D(2))
  show "m < sb_ninodes (fs_sb st) \<Longrightarrow> off < MAXFILE * BSIZE \<Longrightarrow>
      file_byte (disk_slots st') (blocks st') m off = byte_in i st m off" by (rule D(3))
  show "x \<noteq> IBLOCK (inum_of i st) (fs_sb st) \<Longrightarrow> blocks st' x = blocks st x" by (rule W(4))
qed

lemma iupdate_error: "iupdate i st = Inl e \<Longrightarrow> log_panic e"
  by (auto simp: iupdate_def write_dinode_def Let_def dest: log_block_error)

lemma no_holes_cong:
  assumes "no_holes S n sz" and "\<And>p. p < NSLOT \<Longrightarrow> S n p \<noteq> 0 \<Longrightarrow> S' n p \<noteq> 0"
  shows "no_holes S' n sz"
  unfolding no_holes_def
proof (intro conjI allI impI)
  show sz: "sz \<le> MAXFILE * BSIZE" using assms(1) by (simp add: no_holes_def)
  fix bn assume b: "bn * BSIZE < sz"
  then have "S n (slot_no bn) \<noteq> 0" using assms(1) unfolding no_holes_def by blast
  moreover have "bn < MAXFILE" using b sz by (meson BSIZE_pos less_le_trans mult_less_cancel2)
  ultimately show "S' n (slot_no bn) \<noteq> 0" by (intro assms(2)) simp_all
qed

text \<open>Once an inode that was changed in the cache is written back, the invariant holds again.\<close>

lemma iupdate_fs_ok:
  assumes fo: "file_ok i st1" and up: "stored i st1 st'"
    and c: "icache_ok st" "i < length (fs_icache st)" "ip_ref (inode_at i st) > 0"
    and eq: "fs_icache st1 = (fs_icache st)[i := ip]" "fs_sb st1 = fs_sb st"
    and ip: "ip_ref ip = ip_ref (inode_at i st)" "ip_dev ip = ip_dev (inode_at i st)" "ip_inum ip = inum_of i st"
    and rd: "\<And>m. m < sb_ninodes (fs_sb st) \<Longrightarrow> m \<noteq> inum_of i st \<Longrightarrow> read_dinode m st1 = read_dinode m st"
    and holes: "\<And>m. m < sb_ninodes (fs_sb st) \<Longrightarrow> no_holes (slots_in i st1) m (unat (di_size (view i st1 m)))"
  shows "fs_ok st'"
proof -
  note U = iupdate_ok [OF fo up]
  have at: "inode_at i st1 = ip" using c(2) by (simp add: eq(1))
  have "icache_ok st'"
  proof (rule icache_ok_upd [OF c, of st' ip])
    show "read_dinode m st' = read_dinode m st" if "m < sb_ninodes (fs_sb st)" "m \<noteq> inum_of i st" for m
      using U(4) [of m] rd [OF that] that(2) by (simp add: view_def at ip)
    show "dinode_of_inode ip = read_dinode (ip_inum ip) st'"
      using U(4) [of "inum_of i st"] by (simp add: view_def at ip)
  qed (simp_all add: U(1,2) eq ip)
  moreover have "no_holes (disk_slots st') m (unat (di_size (read_dinode m st')))"
    if m: "m < sb_ninodes (fs_sb st')" for m
  proof -
    have "no_holes (disk_slots st') m (unat (di_size (view i st1 m)))"
      by (rule no_holes_cong [OF holes]) (use U(5) [of m] m in \<open>auto simp: U(1) eq\<close>)
    then show ?thesis by (simp add: U(4))
  qed
  ultimately show ?thesis using U(3) by (simp add: fs_ok_def)
qed

section \<open>Writing a file\<close>

text \<open>After the loop of \<open>writei\<close> and its \<open>iupdate\<close>, the size is the larger one.\<close>

lemma wrote_grown:
  assumes ok: "fs_ok st" and l: "loaded i st" and w: "wrote i off src st st1"
    and off: "off \<le> own_size i st" and le: "off + length src \<le> MAXFILE * BSIZE"
    and sz: "unat sz = max (own_size i st) (off + length src)"
    and up: "stored i (upd_inode i (\<lambda>ip. ip\<lparr>ip_size := sz\<rparr>) st1) st'"
  shows "fs_ok st'" and "loaded i st'" and "fs_sb st' = fs_sb st" and "inum_of i st' = inum_of i st"
    and "file_bytes st' (inum_of i st) = blit off src (file_bytes st (inum_of i st))"
    and "m < sb_ninodes (fs_sb st) \<Longrightarrow> m \<noteq> inum_of i st \<Longrightarrow> file_bytes st' m = file_bytes st m"
    and "j \<noteq> i \<Longrightarrow> inode_at j st' = inode_at j st" and "length (fs_icache st') = length (fs_icache st)"
    and "m < sb_ninodes (fs_sb st) \<Longrightarrow> m \<noteq> inum_of i st \<Longrightarrow> read_dinode m st' = read_dinode m st"
    and "ip_type (inode_at i st') = ip_type (inode_at i st)"
proof -
  let ?n = "inum_of i st" and ?sb = "fs_sb st"
  let ?st2 = "upd_inode i (\<lambda>ip. ip\<lparr>ip_size := sz\<rparr>) st1"
  note LV = loaded_view [OF ok l] and W = wroteD [OF w]
  have n1: "inum_of i st1 = ?n" by (rule wrote_inum [OF LV(2) w])
  obtain as where as: "fs_icache st1 = (fs_icache st)[i := (inode_at i st)\<lparr>ip_addrs := as\<rparr>]"
    by (rule wrote_cache [OF w])
  have i: "i < length (fs_icache st)" using loadedD [OF l] by simp
  have at2: "inode_at i ?st2 = (inode_at i st)\<lparr>ip_addrs := as, ip_size := sz\<rparr>"
    using i by (simp add: inode_at_upd as)
  have v2: "di_addrs (view i ?st2 m) = di_addrs (view i st1 m)" for m
    using i by (simp add: view_def at2 as dinode_of_inode_def read_dinode_def)
  have sl2: "slots_of (view i ?st2) R = slots_of (view i st1) R" for R
    by (simp add: slots_of_def v2 fun_eq_iff)
  have ok2: "file_ok i ?st2"
    using file_okD [OF W(2)] n1 v2 by (simp add: file_ok_def data_ok_def sl2 at2)
  note U = iupdate_ok [OF ok2 up]
  have n2: "inum_of i ?st2 = ?n" by (simp add: at2)
  have rdn: "read_dinode ?n st' = dinode_of_inode ((inode_at i st)\<lparr>ip_addrs := as, ip_size := sz\<rparr>)"
    using U(4) [of ?n] by (simp add: view_def at2)
  have rdm: "read_dinode m st' = read_dinode m st" if "m < sb_ninodes ?sb" "m \<noteq> ?n" for m
  proof -
    have "read_dinode m st1 = read_dinode m st"
      by (rule read_dinode_cong [OF W(1) W(3)])
        (rule IBLOCK_less [OF blocks_okD(1) [OF data_okD(1) [OF fs_okD(1) [OF ok]]] that(1)])
    then show ?thesis using U(4) [of m] that(2) by (simp add: view_def n2 read_dinode_def)
  qed
  show sb: "fs_sb st' = ?sb" by (simp add: U(1) W(1))
  have cache: "fs_icache st' = (fs_icache st)[i := (inode_at i st)\<lparr>ip_addrs := as, ip_size := sz\<rparr>]"
    by (simp add: U(2) upd_inode_def as i)
  show l': "loaded i st'" using loadedD [OF l] by (simp add: loaded_def cache)
  show inum: "inum_of i st' = ?n" using i by (simp add: cache)
  show "j \<noteq> i \<Longrightarrow> inode_at j st' = inode_at j st" "length (fs_icache st') = length (fs_icache st)"
    by (simp_all add: cache)
  show "ip_type (inode_at i st') = ip_type (inode_at i st)" using i by (simp add: cache)
  show "m < sb_ninodes ?sb \<Longrightarrow> m \<noteq> ?n \<Longrightarrow> read_dinode m st' = read_dinode m st" by (rule rdm)
  have slots: "disk_slots st' m p = slots_in i st1 m p" if "m < sb_ninodes ?sb" "p < NSLOT" for m p
    using U(5) [of m p] that by (simp add: sl2 W(1))
  have bytes: "file_byte (disk_slots st') (blocks st') m x =
      (if m = ?n \<and> off \<le> x \<and> x < off + length src then src ! (x - off)
       else file_byte (disk_slots st) (blocks st) m x)" if "m < sb_ninodes ?sb" "x < MAXFILE * BSIZE" for m x
    using U(6) [of m x] W(5) [OF that] that by (simp add: sl2 W(1) LV(1))
  have small: "unat (di_size (read_dinode m st)) \<le> MAXFILE * BSIZE" if "m < sb_ninodes ?sb" for m
    using fs_okD(3) [OF ok that] by (simp add: no_holes_def)
  show "file_bytes st' m = file_bytes st m" if "m < sb_ninodes ?sb" "m \<noteq> ?n"
    using bytes [OF that(1)] that small [OF that(1)] by (simp add: file_bytes_def rdm)
  have size: "unat (di_size (read_dinode ?n st')) = max (unat (di_size (read_dinode ?n st))) (off + length src)"
    using sz LV(4) by (simp add: rdn dinode_of_inode_def)
  show "file_bytes st' ?n = blit off src (file_bytes st ?n)"
    unfolding file_bytes_def
  proof (rule map_upt_blit [OF _ size])
    show "off \<le> unat (di_size (read_dinode ?n st))" using off by (simp add: LV(4))
    fix x assume "x < unat (di_size (read_dinode ?n st'))"
    then have "x < MAXFILE * BSIZE" using size small [OF LV(3)] le by linarith
    then show "file_byte (disk_slots st') (blocks st') ?n x = (if off \<le> x \<and> x < off + length src then src ! (x - off)
        else file_byte (disk_slots st) (blocks st) ?n x)" using bytes [OF LV(3)] by simp
  qed
  show "fs_ok st'"
  proof (rule iupdate_fs_ok [OF ok2 up fs_okD(2) [OF ok] i])
    show "fs_icache ?st2 = (fs_icache st)[i := (inode_at i st)\<lparr>ip_addrs := as, ip_size := sz\<rparr>]"
      by (simp add: upd_inode_def as i)
    show "no_holes (slots_in i ?st2) m (unat (di_size (view i ?st2 m)))" if m: "m < sb_ninodes ?sb" for m
    proof (cases "m = ?n")
      case False
      then have "view i ?st2 m = read_dinode m st" using U(4) [of m] rdm [OF m False] by simp
      moreover have "no_holes (slots_in i st1) m (unat (di_size (read_dinode m st)))"
        by (rule no_holes_cong [OF fs_okD(3) [OF ok m]]) (use W(4) [OF m] in \<open>simp add: LV(1)\<close>)
      ultimately show ?thesis by (simp add: sl2)
    next
      case True
      have "no_holes (slots_in i st1) ?n (own_size i st)"
        by (rule no_holes_cong [OF LV(5)]) (use W(4) [OF LV(3)] in \<open>simp add: LV(1)\<close>)
      then have old: "slots_in i st1 ?n (slot_no bn) \<noteq> 0" if "bn * BSIZE < own_size i st" for bn
        using that unfolding no_holes_def by blast
      have "slots_in i st1 ?n (slot_no bn) \<noteq> 0" if b: "bn * BSIZE < unat sz" for bn
      proof (cases "bn * BSIZE < own_size i st")
        case False
        then have "off \<le> bn * BSIZE" "bn * BSIZE < off + length src" using b sz off by auto
        from W(6) [OF this] show ?thesis by simp
      qed (rule old)
      moreover have "unat sz \<le> MAXFILE * BSIZE"
        using sz le LV(5) by (simp add: no_holes_def)
      moreover have "di_size (view i ?st2 ?n) = sz" by (simp add: view_def at2 dinode_of_inode_def)
      ultimately show ?thesis using True by (simp add: no_holes_def sl2)
    qed
    show "read_dinode m ?st2 = read_dinode m st" if "m < sb_ninodes ?sb" "m \<noteq> ?n" for m
      using U(4) [of m] rdm [OF that] that(2) by (simp add: view_def n2)
  qed (use loadedD [OF l] W(1) in simp_all)
qed

text \<open>When the bytes written are below the size, the inode does not change.\<close>

lemma wrote_inside:
  assumes ok: "fs_ok st" and l: "loaded i st" and w: "wrote i off src st st'"
    and off: "off \<le> own_size i st" and le: "src = [] \<or> off + length src \<le> own_size i st"
  shows "fs_ok st'" and "loaded i st'" and "fs_sb st' = fs_sb st" and "fs_icache st' = fs_icache st"
    and "file_bytes st' (inum_of i st) = blit off src (file_bytes st (inum_of i st))"
    and "m < sb_ninodes (fs_sb st) \<Longrightarrow> m \<noteq> inum_of i st \<Longrightarrow> file_bytes st' m = file_bytes st m"
    and "m < sb_ninodes (fs_sb st) \<Longrightarrow> read_dinode m st' = read_dinode m st"
proof -
  let ?n = "inum_of i st" and ?sb = "fs_sb st"
  note LV = loaded_view [OF ok l] and W = wroteD [OF w]
  have "present i off (length src) st"
    unfolding present_def LV(1) using no_holesD(2) [OF LV(5)] le by auto
  then show cache: "fs_icache st' = fs_icache st" by (rule W(7))
  show sb: "fs_sb st' = ?sb" by (rule W(1))
  show "loaded i st'" using l by (simp add: loaded_def cache)
  have rd: "read_dinode m st' = read_dinode m st" if "m < sb_ninodes ?sb" for m
    by (rule read_dinode_cong [OF W(1) W(3)])
      (rule IBLOCK_less [OF blocks_okD(1) [OF data_okD(1) [OF fs_okD(1) [OF ok]]] that])
  then show "m < sb_ninodes ?sb \<Longrightarrow> read_dinode m st' = read_dinode m st" .
  have "dinode_of_inode (inode_at i st) = read_dinode ?n st"
    using icache_okD(4) [OF fs_okD(2) [OF ok]] loadedD [OF l] by simp
  then have v: "view i st' = on_disk st'"
    unfolding view_def by (simp add: cache fun_eq_iff rd [OF LV(3)])
  have small: "unat (di_size (read_dinode m st)) \<le> MAXFILE * BSIZE" if "m < sb_ninodes ?sb" for m
    using fs_okD(3) [OF ok that] by (simp add: no_holes_def)
  have bytes: "file_byte (disk_slots st') (blocks st') m x =
      (if m = ?n \<and> off \<le> x \<and> x < off + length src then src ! (x - off)
       else file_byte (disk_slots st) (blocks st) m x)" if "m < sb_ninodes ?sb" "x < MAXFILE * BSIZE" for m x
    using W(5) [OF that] by (simp add: v LV(1))
  show "file_bytes st' m = file_bytes st m" if "m < sb_ninodes ?sb" "m \<noteq> ?n"
    using bytes [OF that(1)] that small [OF that(1)] by (simp add: file_bytes_def rd)
  show "file_bytes st' ?n = blit off src (file_bytes st ?n)"
    unfolding file_bytes_def
  proof (rule map_upt_blit)
    show "off \<le> unat (di_size (read_dinode ?n st))" using off by (simp add: LV(4))
    show "unat (di_size (read_dinode ?n st')) = max (unat (di_size (read_dinode ?n st))) (off + length src)"
      using le off by (auto simp: rd [OF LV(3)] LV(4))
    fix x assume "x < unat (di_size (read_dinode ?n st'))"
    then have "x < MAXFILE * BSIZE" using small [OF LV(3)] by (simp add: rd [OF LV(3)])
    then show "file_byte (disk_slots st') (blocks st') ?n x = (if off \<le> x \<and> x < off + length src then src ! (x - off)
        else file_byte (disk_slots st) (blocks st) ?n x)" using bytes [OF LV(3)] by simp
  qed
  have "no_holes (disk_slots st') m (unat (di_size (read_dinode m st')))" if m: "m < sb_ninodes ?sb" for m
    unfolding rd [OF m]
    by (rule no_holes_cong [OF fs_okD(3) [OF ok m]]) (use W(4) [OF m] in \<open>simp add: v LV(1)\<close>)
  moreover have "icache_ok st'"
    using fs_okD(2) [OF ok] rd by (auto simp: icache_ok_def cache sb)
  ultimately show "fs_ok st'"
    using file_okD(3) [OF W(2)] by (simp add: fs_ok_def sb v)
qed

lemma max_file_size: "MAXFILE * BSIZE = 71680"
  by (simp add: MAXFILE_def NDIRECT_def NINDIRECT_def BSIZE_def)

text \<open>What \<open>writei\<close> checks, in numbers.\<close>

lemma writei_arith:
  fixes off :: u32
  assumes "unat off + k \<le> MAXFILE * BSIZE"
  shows "unat (of_nat k :: u32) = k" and "unat (off + of_nat k) = unat off + k"
    and "\<not> off + of_nat k < off" and "sint (of_nat k :: u32) = int k"
proof -
  have k: "unat off + k < 4294967296" "k < 2147483648" using assms by (auto simp: max_file_size)
  show uk: "unat (of_nat k :: u32) = k" using k by (intro unat_of_nat_u32) simp
  show u: "unat (off + of_nat k) = unat off + k"
    using k(1) uk by (simp add: unat_add_lem [THEN iffD1])
  show "\<not> off + of_nat k < off" by (simp add: word_less_nat_alt u)
  show "sint (of_nat k :: u32) = int k"
    using k(2) sint_word_of_int_fits [of "int k"] by simp
qed

text \<open>\<open>writei\<close> of bytes that fit: its effect, in either case.\<close>

lemma writei_steps:
  assumes ok: "fs_ok st" and l: "loaded i st" and ty: "ip_type (inode_at i st) \<noteq> T_DEV"
    and off: "off \<le> ip_size (inode_at i st)" and le: "unat off + length src \<le> MAXFILE * BSIZE"
    and w: "writei dv i src off st = Inr (r, st')"
  shows "r = int (length src)"
    and "(src = [] \<or> unat off + length src \<le> own_size i st) \<and> wrote i (unat off) src st st' \<or>
      (\<exists>st1 sz. wrote i (unat off) src st st1 \<and> unat sz = max (own_size i st) (unat off + length src)
         \<and> iupdate i (upd_inode i (\<lambda>ip. ip\<lparr>ip_size := sz\<rparr>) st1) = Inr st')"
proof -
  note A = writei_arith [OF le]
  have len: "\<not> unat (off + of_nat (length src)) > MAXFILE * BSIZE" using le by (simp add: A(2))
  obtain st1 where s1: "writei_loop i (unat off) src st = Inr st1" and
    s2: "(let off = off + of_nat (length src) in
          if (of_nat (length src) :: u32) > 0 \<and> off > ip_size (inode_at i st1) then
            bindR (iupdate i (upd_inode i (\<lambda>ip. ip\<lparr>ip_size := off\<rparr>) st1)) (\<lambda>st. Inr (sint (of_nat (length src) :: u32), st))
          else Inr (sint (of_nat (length src) :: u32), st1)) = Inr (r, st')"
    using w ty off len A(3) by (auto simp: writei_def Let_def res_simps not_less [symmetric])
  have w1: "wrote i (unat off) src st st1" by (rule writei_loop_ok [OF s1 loaded_view(2) [OF ok l] le])
  obtain as where "fs_icache st1 = (fs_icache st)[i := (inode_at i st)\<lparr>ip_addrs := as\<rparr>]"
    by (rule wrote_cache [OF w1])
  then have sz: "ip_size (inode_at i st1) = ip_size (inode_at i st)" using loadedD [OF l] by simp
  show "r = int (length src)" using s2 by (auto simp: A(4) Let_def res_simps split: if_splits)
  show "(src = [] \<or> unat off + length src \<le> own_size i st) \<and> wrote i (unat off) src st st' \<or>
      (\<exists>st1 sz. wrote i (unat off) src st st1 \<and> unat sz = max (own_size i st) (unat off + length src)
         \<and> iupdate i (upd_inode i (\<lambda>ip. ip\<lparr>ip_size := sz\<rparr>) st1) = Inr st')"
  proof (cases "(of_nat (length src) :: u32) > 0 \<and> off + of_nat (length src) > ip_size (inode_at i st1)")
    case True
    then have "iupdate i (upd_inode i (\<lambda>ip. ip\<lparr>ip_size := off + of_nat (length src)\<rparr>) st1) = Inr st'"
      using s2 by (auto simp: Let_def res_simps)
    moreover have "unat (off + of_nat (length src)) = max (own_size i st) (unat off + length src)"
      using True A(2) by (auto simp: sz word_less_nat_alt)
    ultimately show ?thesis using w1 by blast
  next
    case False
    then have "st' = st1" using s2 by (auto simp: Let_def)
    moreover have "src = [] \<or> unat off + length src \<le> own_size i st"
      using False A(1,2) by (auto simp: sz word_less_nat_alt)
    ultimately show ?thesis using w1 by blast
  qed
qed

lemma writei_error:
  assumes "writei dv i src off st = Inl e" and "unat off + length src \<le> MAXFILE * BSIZE"
  shows "alloc_panic e"
  using assms(1) writei_arith [OF assms(2)] assms(2)
  by (auto simp: writei_def Let_def res_simps alloc_panic_def split: if_splits option.splits
      dest!: iupdate_error writei_loop_error)

lemma writei_ok:
  assumes ok: "fs_ok st" and l: "loaded i st" and ty: "ip_type (inode_at i st) \<noteq> T_DEV"
    and off: "off \<le> ip_size (inode_at i st)" and le: "unat off + length src \<le> MAXFILE * BSIZE"
    and w: "writei dv i src off st = Inr (r, st')"
  shows "r = int (length src)" and "fs_ok st'" and "loaded i st'" and "fs_sb st' = fs_sb st"
    and "inum_of i st' = inum_of i st"
    and "file_bytes st' (inum_of i st) = blit (unat off) src (file_bytes st (inum_of i st))"
    and "m < sb_ninodes (fs_sb st) \<Longrightarrow> m \<noteq> inum_of i st \<Longrightarrow> file_bytes st' m = file_bytes st m"
    and "j \<noteq> i \<Longrightarrow> inode_at j st' = inode_at j st"
    and "ip_type (inode_at i st') = ip_type (inode_at i st)" and "length (fs_icache st') = length (fs_icache st)"
proof -
  note S = writei_steps [OF assms]
  have o: "unat off \<le> own_size i st" using off by (simp add: word_le_nat_alt)
  show "r = int (length src)" by (rule S(1))
  from S(2) have "fs_ok st' \<and> loaded i st' \<and> fs_sb st' = fs_sb st \<and> inum_of i st' = inum_of i st
    \<and> file_bytes st' (inum_of i st) = blit (unat off) src (file_bytes st (inum_of i st))
    \<and> (\<forall>m < sb_ninodes (fs_sb st). m \<noteq> inum_of i st \<longrightarrow> file_bytes st' m = file_bytes st m)
    \<and> (\<forall>j. j \<noteq> i \<longrightarrow> inode_at j st' = inode_at j st)
    \<and> ip_type (inode_at i st') = ip_type (inode_at i st) \<and> length (fs_icache st') = length (fs_icache st)"
  proof (elim disjE conjE exE)
    assume "src = []" "wrote i (unat off) src st st'"
    from wrote_inside [OF ok l this(2) o] this(1) show ?thesis by simp
  next
    assume "unat off + length src \<le> own_size i st" "wrote i (unat off) src st st'"
    from wrote_inside [OF ok l this(2) o] this(1) show ?thesis by simp
  next
    fix st1 sz
    assume "wrote i (unat off) src st st1" "unat sz = max (own_size i st) (unat off + length src)"
      "iupdate i (upd_inode i (\<lambda>ip. ip\<lparr>ip_size := sz\<rparr>) st1) = Inr st'"
    from wrote_grown [OF ok l this(1) o le this(2) iupdateD [OF this(3)]] show ?thesis by simp
  qed
  then show "fs_ok st'" "loaded i st'" "fs_sb st' = fs_sb st" "inum_of i st' = inum_of i st"
    "file_bytes st' (inum_of i st) = blit (unat off) src (file_bytes st (inum_of i st))"
    "m < sb_ninodes (fs_sb st) \<Longrightarrow> m \<noteq> inum_of i st \<Longrightarrow> file_bytes st' m = file_bytes st m"
    "j \<noteq> i \<Longrightarrow> inode_at j st' = inode_at j st"
    "ip_type (inode_at i st') = ip_type (inode_at i st)" "length (fs_icache st') = length (fs_icache st)" by blast+
qed

text \<open>What \<open>writei\<close> refuses.\<close>

lemma writei_refused:
  assumes ty: "ip_type (inode_at i st) \<noteq> T_DEV" and fits: "unat off + length src < 4294967296"
    and no: "\<not> (off \<le> ip_size (inode_at i st) \<and> unat off + length src \<le> MAXFILE * BSIZE)"
  shows "writei dv i src off st = Inr (-1, st)"
proof -
  have "unat (of_nat (length src) :: u32) = length src" using fits by (intro unat_of_nat_u32) simp
  then have "unat (off + of_nat (length src)) = unat off + length src"
    using fits by (simp add: unat_add_lem [THEN iffD1])
  then show ?thesis using ty no by (auto simp: writei_def Let_def)
qed

end
