(* ===== verification/Fs_Trunc.thy ===== *)
theory Fs_Trunc
  imports Fs_Inodes
begin

text \<open>
  Freeing the blocks of a file and the references to inodes (\<open>itrunc\<close>, \<open>iput\<close>, \<open>iget\<close>,
  \<open>idup\<close>, \<open>ilock\<close>, \<open>ialloc\<close> in \<open>fs.c\<close>).  \<open>itrunc\<close> is a sequence of \<open>bfree\<close>s followed by
  one \<open>iupdate\<close>; every block it frees is one of the inode, so none is free already.
\<close>

section \<open>Freeing blocks\<close>

primrec bfrees :: "nat list \<Rightarrow> fs \<Rightarrow> fs res" where
  "bfrees [] st = Inr st"
| "bfrees (b # bs) st = bindR (bfree b st) (bfrees bs)"

text \<open>The blocks \<open>F\<close> have become free; nothing but the bitmap has changed.\<close>

definition freed :: "nat set \<Rightarrow> fs \<Rightarrow> fs \<Rightarrow> bool" where
  "freed F st st' \<longleftrightarrow> fs_sb st' = fs_sb st \<and> fs_icache st' = fs_icache st
     \<and> (\<forall>x. x < sb_bmapstart (fs_sb st) \<or> data_start (fs_sb st) \<le> x \<longrightarrow> blocks st' x = blocks st x)
     \<and> (\<forall>x. bit_of (fs_sb st) (blocks st') x \<longleftrightarrow> x \<notin> F \<and> bit_of (fs_sb st) (blocks st) x)
     \<and> blocks_ok (fs_sb st) (blocks st')"

lemma freedD:
  assumes "freed F st st'"
  shows "fs_sb st' = fs_sb st" and "fs_icache st' = fs_icache st"
    and "x < sb_bmapstart (fs_sb st) \<or> data_start (fs_sb st) \<le> x \<Longrightarrow> blocks st' x = blocks st x"
    and "bit_of (fs_sb st) (blocks st') x \<longleftrightarrow> x \<notin> F \<and> bit_of (fs_sb st) (blocks st) x"
    and "blocks_ok (fs_sb st) (blocks st')"
  using assms by (auto simp: freed_def)

lemma freed_trans: "freed F st st1 \<Longrightarrow> freed G st1 st2 \<Longrightarrow> freed (F \<union> G) st st2"
  by (auto simp: freed_def)

text \<open>The blocks that may be freed: data blocks in use.\<close>

definition freeable :: "fs \<Rightarrow> nat \<Rightarrow> bool" where
  "freeable st b \<longleftrightarrow> data_start (fs_sb st) \<le> b \<and> b < sb_size (fs_sb st) \<and> bit_of (fs_sb st) (blocks st) b"

lemma bfree_ok:
  assumes ok: "blocks_ok (fs_sb st) (blocks st)" and b: "freeable st b"
  shows "bfree b st = Inl e \<Longrightarrow> log_panic e" and "bfree b st = Inr st' \<Longrightarrow> freed {b} st st'"
proof -
  have bit: "bit_set (blocks st (BBLOCK b (fs_sb st))) (b mod BPB)"
    using b by (simp add: freeable_def bit_of_def)
  then show "bfree b st = Inl e \<Longrightarrow> log_panic e"
    by (auto simp: bfree_def Let_def dest: log_block_error)
  assume f: "bfree b st = Inr st'"
  have S: "slots_ok (fs_sb st) (blocks st) (\<lambda>_ _. 0)" by (simp add: slots_ok_def)
  have u: "unowned (fs_sb st) (\<lambda>_ _. 0) b" using b by (auto simp: unowned_def freeable_def data_start_def)
  have r: "data_start (fs_sb st) \<le> b" "b < sb_size (fs_sb st)" using b by (auto simp: freeable_def)
  note B = bfree_slots [OF f ok S u r]
  have "x \<noteq> BBLOCK b (fs_sb st)" if "x < sb_bmapstart (fs_sb st) \<or> data_start (fs_sb st) \<le> x" for x
    using that BBLOCK_less [OF r(2)] by (auto simp: BBLOCK_def)
  then show "freed {b} st st'" using B by (auto simp: freed_def)
qed

lemma bfrees_ok:
  assumes "blocks_ok (fs_sb st) (blocks st)" and "distinct bs" and "\<And>b. b \<in> set bs \<Longrightarrow> freeable st b"
  shows "bfrees bs st = Inl e \<Longrightarrow> log_panic e" and "bfrees bs st = Inr st' \<Longrightarrow> freed (set bs) st st'"
proof -
  have "(\<forall>e. bfrees bs st = Inl e \<longrightarrow> log_panic e) \<and> (\<forall>st'. bfrees bs st = Inr st' \<longrightarrow> freed (set bs) st st')"
    using assms
  proof (induction bs arbitrary: st)
    case Nil
    then show ?case by (simp add: freed_def)
  next
    case (Cons b bs)
    note B = bfree_ok [OF Cons.prems(1), of b]
    have fb: "freeable st b" using Cons.prems(3) by simp
    show ?case
    proof (cases "bfree b st")
      case (Inl e)
      then show ?thesis using B(1) [OF fb] by simp
    next
      case (Inr st1)
      note F = B(2) [OF fb Inr]
      have fr: "freeable st1 x" if "x \<in> set bs" for x
        using Cons.prems(3) [of x] Cons.prems(2) that freedD(1,4) [OF F] by (auto simp: freeable_def)
      have "blocks_ok (fs_sb st1) (blocks st1)" using freedD(1,5) [OF F] by simp
      then show ?thesis
        using Cons.IH [of st1] Cons.prems(2) fr freed_trans [OF F] Inr by auto
    qed
  qed
  then show "bfrees bs st = Inl e \<Longrightarrow> log_panic e" and "bfrees bs st = Inr st' \<Longrightarrow> freed (set bs) st st'"
    by blast+
qed

lemma bfrees_append: "bfrees (xs @ ys) st = bindR (bfrees xs st) (bfrees ys)"
  by (induction xs arbitrary: st) (simp_all add: bindR_assoc cong: bindR_cong)

text \<open>Freeing does not depend on the cached inodes.\<close>

lemma upd_inode_log_block:
  "log_block b d (upd_inode i f st) = bindR (log_block b d st) (\<lambda>st'. Inr (upd_inode i f st'))"
  by (cases st) (simp add: log_block_def upd_inode_def bindR_assoc)

lemma bfree_upd_inode:
  "bfree b (upd_inode i f st) = bindR (bfree b st) (\<lambda>st'. Inr (upd_inode i f st'))"
  by (simp add: bfree_def Let_def upd_inode_log_block)

lemma bfrees_upd_inode:
  "bfrees bs (upd_inode i f st) = bindR (bfrees bs st) (\<lambda>st'. Inr (upd_inode i f st'))"
  by (induction bs arbitrary: st) (simp_all add: bfree_upd_inode bindR_assoc)

lemma bfree_icache: "bfree b st = Inr st' \<Longrightarrow> fs_icache st' = fs_icache st \<and> fs_sb st' = fs_sb st"
  by (auto simp: bfree_def Let_def dest: log_blockD split: if_splits)

lemma bfrees_icache: "bfrees bs st = Inr st' \<Longrightarrow> fs_icache st' = fs_icache st \<and> fs_sb st' = fs_sb st"
proof (induction bs arbitrary: st)
  case (Cons b bs)
  then obtain st1 where s: "bfree b st = Inr st1" "bfrees bs st1 = Inr st'" by (auto simp: res_simps)
  show ?case using Cons.IH [OF s(2)] bfree_icache [OF s(1)] by simp
qed simp

lemma upd_inode_comp: "upd_inode i f (upd_inode i g st) = upd_inode i (\<lambda>ip. f (g ip)) st"
  by (cases "i < length (fs_icache st)") (simp_all add: upd_inode_def list_update_beyond)

abbreviation nonzero :: "nat list \<Rightarrow> nat list" where
  "nonzero \<equiv> filter (\<lambda>b. b \<noteq> 0)"

section \<open>itrunc\<close>

lemma itrunc_direct_eq:
  assumes "i < length (fs_icache st)" and "distinct ks"
  shows "itrunc_direct i ks st =
    bindR (bfrees (nonzero (map (\<lambda>k. unat (ip_addrs (inode_at i st) ! k)) ks)) st) (\<lambda>st'.
      Inr (upd_inode i (\<lambda>ip. ip\<lparr>ip_addrs := fold (\<lambda>k as. if as ! k = 0 then as else as[k := 0]) ks (ip_addrs ip)\<rparr>) st'))"
  using assms
proof (induction ks arbitrary: st)
  case Nil
  have "upd_inode i (\<lambda>ip. ip) st = st" by (simp add: upd_inode_def)
  then show ?case by simp
next
  case (Cons k ks)
  let ?as = "ip_addrs (inode_at i st)"
  let ?F = "\<lambda>ks as. fold (\<lambda>k as. if as ! k = (0::u32) then as else as[k := 0]) ks as"
  show ?case
  proof (cases "?as ! k = 0")
    case True
    have "upd_inode i (\<lambda>ip. ip\<lparr>ip_addrs := ?F ks (ip_addrs ip)\<rparr>) st' =
        upd_inode i (\<lambda>ip. ip\<lparr>ip_addrs := ?F (k # ks) (ip_addrs ip)\<rparr>) st'"
      if "bfrees (nonzero (map (\<lambda>k. unat (?as ! k)) ks)) st = Inr st'" for st'
      using bfrees_icache [OF that] True by (simp add: upd_inode_def)
    then have "bindR (bfrees (nonzero (map (\<lambda>k. unat (?as ! k)) ks)) st) (\<lambda>st'. Inr (upd_inode i (\<lambda>ip. ip\<lparr>ip_addrs := ?F ks (ip_addrs ip)\<rparr>) st'))
        = bindR (bfrees (nonzero (map (\<lambda>k. unat (?as ! k)) ks)) st) (\<lambda>st'. Inr (upd_inode i (\<lambda>ip. ip\<lparr>ip_addrs := ?F (k # ks) (ip_addrs ip)\<rparr>) st'))"
      by (intro bindR_cong [OF refl]) (simp only:)
    then show ?thesis using True Cons.IH [of st] Cons.prems by (simp del: fold.simps)
  next
    case False
    have "itrunc_direct i ks (upd_inode i (\<lambda>ip. ip\<lparr>ip_addrs := (ip_addrs ip)[k := 0]\<rparr>) st1)
        = bindR (bfrees (nonzero (map (\<lambda>k. unat (?as ! k)) ks)) st1) (\<lambda>st'.
            Inr (upd_inode i (\<lambda>ip. ip\<lparr>ip_addrs := ?F (k # ks) (ip_addrs ip)\<rparr>) st'))"
      if "bfree (unat (?as ! k)) st = Inr st1" for st1
    proof -
      let ?st2 = "upd_inode i (\<lambda>ip. ip\<lparr>ip_addrs := (ip_addrs ip)[k := 0]\<rparr>) st1"
      have c: "fs_icache st1 = fs_icache st" using bfree_icache [OF that] by simp
      have same: "map (\<lambda>k. unat (ip_addrs (inode_at i ?st2) ! k)) ks = map (\<lambda>k. unat (?as ! k)) ks"
        using Cons.prems by (auto simp: inode_at_upd c) (metis nth_list_update_neq)
      have upd: "upd_inode i (\<lambda>ip. ip\<lparr>ip_addrs := ?F ks (ip_addrs ip)\<rparr>) (upd_inode i (\<lambda>ip. ip\<lparr>ip_addrs := (ip_addrs ip)[k := 0]\<rparr>) st')
          = upd_inode i (\<lambda>ip. ip\<lparr>ip_addrs := ?F (k # ks) (ip_addrs ip)\<rparr>) st'"
        if b: "bfrees (nonzero (map (\<lambda>k. unat (?as ! k)) ks)) st1 = Inr st'" for st'
      proof -
        have "fs_icache st' = fs_icache st" using bfrees_icache [OF b] c by simp
        then show ?thesis using False Cons.prems(1) by (simp add: upd_inode_comp) (simp add: upd_inode_def)
      qed
      have "itrunc_direct i ks ?st2 = bindR (bfrees (nonzero (map (\<lambda>k. unat (?as ! k)) ks)) ?st2) (\<lambda>st'.
            Inr (upd_inode i (\<lambda>ip. ip\<lparr>ip_addrs := ?F ks (ip_addrs ip)\<rparr>) st'))"
        using Cons.IH [of ?st2] Cons.prems unfolding same by (simp add: c)
      also have "\<dots> = bindR (bfrees (nonzero (map (\<lambda>k. unat (?as ! k)) ks)) st1) (\<lambda>st'.
            Inr (upd_inode i (\<lambda>ip. ip\<lparr>ip_addrs := ?F (k # ks) (ip_addrs ip)\<rparr>) st'))"
        by (simp add: bfrees_upd_inode bindR_assoc upd cong: bindR_cong)
      finally show ?thesis .
    qed
    then show ?thesis using False by (simp add: Let_def unat_eq_0 bindR_assoc cong: bindR_cong)
  qed
qed

lemma bfree_block: "bfree b st = Inr st' \<Longrightarrow> BBLOCK b (fs_sb st) \<noteq> x \<Longrightarrow> blocks st' x = blocks st x"
  by (auto simp: bfree_def Let_def dest: log_blockD split: if_splits)

lemma bfrees_block:
  "bfrees bs st = Inr st' \<Longrightarrow> (\<And>b. b \<in> set bs \<Longrightarrow> BBLOCK b (fs_sb st) \<noteq> x) \<Longrightarrow> blocks st' x = blocks st x"
proof (induction bs arbitrary: st)
  case (Cons b bs)
  then obtain st1 where s: "bfree b st = Inr st1" "bfrees bs st1 = Inr st'" by (auto simp: res_simps)
  show ?case using Cons.IH [OF s(2)] Cons.prems(2) bfree_icache [OF s(1)] bfree_block [OF s(1), of x] by simp
qed simp

lemma itrunc_indirect_eq:
  assumes "\<And>j. j \<in> set js \<Longrightarrow> word_in (blocks st ib) j \<noteq> 0 \<Longrightarrow> BBLOCK (unat (word_in (blocks st ib) j)) (fs_sb st) \<noteq> ib"
  shows "itrunc_indirect ib js st = bfrees (nonzero (map (\<lambda>j. unat (word_in (blocks st ib) j)) js)) st"
  using assms
proof (induction js arbitrary: st)
  case (Cons j js)
  show ?case
  proof (cases "word_in (blocks st ib) j = 0")
    case True
    then show ?thesis using Cons by simp
  next
    case False
    have "itrunc_indirect ib js st1 = bfrees (nonzero (map (\<lambda>j. unat (word_in (blocks st ib) j)) js)) st1"
      if s: "bfree (unat (word_in (blocks st ib) j)) st = Inr st1" for st1
    proof -
      have "blocks st1 ib = blocks st ib"
        by (rule bfree_block [OF s]) (use Cons.prems [of j] False in simp)
      then show ?thesis using Cons.IH [of st1] Cons.prems bfree_icache [OF s] by simp
    qed
    then show ?thesis using False by (simp add: Let_def unat_eq_0 cong: bindR_cong)
  qed
qed simp

text \<open>The slots of an inode in the order in which \<open>itrunc\<close> frees their blocks.\<close>

definition slot_order :: "nat list" where
  "slot_order = [0..<NDIRECT] @ map (\<lambda>j. NDIRECT + 1 + j) [0..<NINDIRECT] @ [NDIRECT]"

lemma set_slot_order: "set slot_order = {..<NSLOT}"
proof -
  have "x \<in> (\<lambda>j. NDIRECT + 1 + j) ` {0..<NINDIRECT}" if "NDIRECT < x" "x < NSLOT" for x
    using that by (intro image_eqI [of _ _ "x - NDIRECT - 1"]) (auto simp: NSLOT_def)
  then have "x < NDIRECT \<or> x = NDIRECT \<or> x \<in> (\<lambda>j. NDIRECT + 1 + j) ` {0..<NINDIRECT}" if "x < NSLOT" for x
    using that by (cases rule: linorder_cases [of x NDIRECT]) auto
  then have "{..<NSLOT} \<subseteq> set slot_order" unfolding slot_order_def by fastforce
  moreover have "set slot_order \<subseteq> {..<NSLOT}" unfolding slot_order_def by (auto simp: NSLOT_def)
  ultimately show ?thesis by blast
qed

lemma distinct_slot_order: "distinct slot_order"
  by (auto simp: slot_order_def distinct_map inj_on_def)

definition file_blocks :: "nat \<Rightarrow> fs \<Rightarrow> nat list" where
  "file_blocks i st = nonzero (map (slots_in i st (inum_of i st)) slot_order)"

definition emptied :: "inode \<Rightarrow> inode" where
  "emptied ip = ip\<lparr>ip_addrs := replicate (NDIRECT + 1) 0, ip_size := 0\<rparr>"

lemma fold_zero:
  "length (fold (\<lambda>k as. if as ! k = (0::u32) then as else as[k := 0]) ks as) = length as"
  "j < length as \<Longrightarrow> fold (\<lambda>k as. if as ! k = (0::u32) then as else as[k := 0]) ks as ! j =
     (if j \<in> set ks then 0 else as ! j)"
  by (induction ks arbitrary: as) (auto simp: nth_list_update)

lemma set_file_blocks: "set (file_blocks i st) = {slots_in i st (inum_of i st) p |p. p < NSLOT} - {0}"
  by (auto simp: file_blocks_def set_slot_order)

lemma file_blocks_freeable:
  assumes "file_ok i st" and "b \<in> set (file_blocks i st)"
  shows "freeable st b"
  using assms slots_okD(1-3) [OF data_okD(2) [OF file_okD(3) [OF assms(1)]] file_okD(2) [OF assms(1)]]
  by (auto simp: set_file_blocks freeable_def)

lemma distinct_nonzero_map:
  "distinct ps \<Longrightarrow> (\<And>p q. p \<in> set ps \<Longrightarrow> q \<in> set ps \<Longrightarrow> f p \<noteq> 0 \<Longrightarrow> f p = f q \<Longrightarrow> p = q) \<Longrightarrow> distinct (nonzero (map f ps))"
  by (induction ps) (auto, metis)

lemma distinct_file_blocks:
  assumes "file_ok i st"
  shows "distinct (file_blocks i st)"
  unfolding file_blocks_def
proof (rule distinct_nonzero_map [OF distinct_slot_order])
  fix p q assume "p \<in> set slot_order" "q \<in> set slot_order"
    and ne: "slots_in i st (inum_of i st) p \<noteq> 0" "slots_in i st (inum_of i st) p = slots_in i st (inum_of i st) q"
  then have pq: "p < NSLOT" "q < NSLOT" by (auto simp: set_slot_order)
  show "p = q"
    using slots_okD(4) [OF data_okD(2) [OF file_okD(3) [OF assms]] file_okD(2) [OF assms] pq(1) ne(1) file_okD(2) [OF assms] pq(2) ne(2)]
    by simp
qed

lemma itrunc_eq:
  assumes ok: "file_ok i st"
  shows "itrunc i st = bindR (bfrees (file_blocks i st) st) (\<lambda>st'. iupdate i (upd_inode i emptied st'))"
proof -
  let ?as = "ip_addrs (inode_at i st)" and ?n = "inum_of i st"
  let ?ib = "unat (ip_addrs (inode_at i st) ! NDIRECT)"
  let ?D = "nonzero (map (\<lambda>k. unat (?as ! k)) [0..<NDIRECT])"
  let ?I = "nonzero (map (\<lambda>j. unat (word_in (blocks st ?ib) j)) [0..<NINDIRECT])"
  let ?as' = "fold (\<lambda>k as. if as ! k = (0::u32) then as else as[k := 0]) [0..<NDIRECT] ?as"
  have i: "i < length (fs_icache st)" and len: "length ?as = NDIRECT + 1"
    using file_okD(1) [OF ok] length_ip_addrs [OF ok] by auto
  have own: "slots_in i st ?n p = slot (blocks st) ?as p" for p by (rule slots_in_own)
  have D: "nonzero (map (slots_in i st ?n) [0..<NDIRECT]) = ?D"
    by (intro arg_cong [of _ _ nonzero] map_cong) (auto simp: own slot_def)
  have as': "length ?as' = NDIRECT + 1" "?as' ! NDIRECT = ?as ! NDIRECT" "\<And>j. j < NDIRECT \<Longrightarrow> ?as' ! j = 0"
    using len by (simp_all add: fold_zero)
  have z: "?as'[NDIRECT := 0] = replicate (NDIRECT + 1) 0"
    by (rule nth_equalityI) (use as' in \<open>auto simp: nth_list_update less_Suc_eq nth_replicate simp del: replicate_Suc\<close>)
  define A :: "inode \<Rightarrow> inode" where "A = (\<lambda>ip. ip\<lparr>ip_addrs := fold (\<lambda>k as. if as ! k = (0::u32) then as else as[k := 0]) [0..<NDIRECT] (ip_addrs ip)\<rparr>)"
  have dir: "itrunc_direct i [0..<NDIRECT] st = bindR (bfrees ?D st) (\<lambda>st'. Inr (upd_inode i A st'))"
    unfolding A_def by (rule itrunc_direct_eq [OF i]) simp
  have cache: "fs_icache st' = fs_icache st" if "bfrees bs st = Inr st'" for bs st' using bfrees_icache [OF that] by simp
  show ?thesis
  proof (cases "?as ! NDIRECT = 0")
    case True
    have "nonzero (map (slots_in i st ?n) (map (\<lambda>j. NDIRECT + 1 + j) [0..<NINDIRECT] @ [NDIRECT])) = []"
      using True by (auto simp: filter_empty_conv own slot_def)
    then have fb: "file_blocks i st = ?D" using D by (simp add: file_blocks_def slot_order_def)
    have fin: "upd_inode i (\<lambda>ip. ip\<lparr>ip_size := 0\<rparr>) (upd_inode i A st') = upd_inode i emptied st'"
      if "bfrees ?D st = Inr st'" for st'
    proof -
      have "?as'[NDIRECT := ?as' ! NDIRECT] = replicate (NDIRECT + 1) 0"
        unfolding as'(2) True by (rule z)
      then have "?as' = replicate (NDIRECT + 1) 0" unfolding list_update_id .
      then show ?thesis using i by (simp add: upd_inode_comp) (simp add: upd_inode_def A_def emptied_def cache [OF that])
    qed
    have "ip_addrs (inode_at i (upd_inode i A st')) ! NDIRECT = 0" if "bfrees ?D st = Inr st'" for st'
      using i as'(2) True by (simp add: inode_at_upd cache [OF that] A_def)
    then show ?thesis
      by (simp add: itrunc_def dir fb bindR_assoc fin cong: bindR_cong)
  next
    case False
    have I: "nonzero (map (slots_in i st ?n) (map (\<lambda>j. NDIRECT + 1 + j) [0..<NINDIRECT])) = ?I"
      using False by (simp add: own slot_def comp_def)
    have fb: "file_blocks i st = ?D @ ?I @ [?ib]"
      using D I False by (simp add: file_blocks_def slot_order_def own slot_indirect unat_gt_0)
    have nib: "BBLOCK b (fs_sb st) \<noteq> ?ib" if "b \<in> set (file_blocks i st)" for b
    proof -
      have "?ib \<in> set (file_blocks i st)" by (simp add: fb)
      then show ?thesis
        using file_blocks_freeable [OF ok that] file_blocks_freeable [OF ok, of ?ib] BBLOCK_less [of b "fs_sb st"]
        by (auto simp: freeable_def)
    qed
    have ind: "itrunc_indirect ?ib [0..<NINDIRECT] (upd_inode i A st1) = bindR (bfrees ?I st1) (\<lambda>st'. Inr (upd_inode i A st'))"
      if s: "bfrees ?D st = Inr st1" for st1
    proof -
      have b: "blocks st1 ?ib = blocks st ?ib"
        by (rule bfrees_block [OF s]) (use nib fb in auto)
      have "itrunc_indirect ?ib [0..<NINDIRECT] (upd_inode i A st1) = bfrees ?I (upd_inode i A st1)"
      proof (subst itrunc_indirect_eq)
        fix j assume j: "j \<in> set [0..<NINDIRECT]" "word_in (blocks (upd_inode i A st1) ?ib) j \<noteq> 0"
        then have "unat (word_in (blocks st ?ib) j) \<in> set (file_blocks i st)"
          unfolding fb by (auto simp: b unat_gt_0)
        then show "BBLOCK (unat (word_in (blocks (upd_inode i A st1) ?ib) j)) (fs_sb (upd_inode i A st1)) \<noteq> ?ib"
          using nib bfrees_icache [OF s] by (simp add: b)
      qed (simp add: b)
      then show ?thesis by (simp add: bfrees_upd_inode)
    qed
    have at: "ip_addrs (inode_at i (upd_inode i A st')) ! NDIRECT = ?as ! NDIRECT" if "bfrees bs st = Inr st'" for bs st'
      using i as'(2) by (simp add: inode_at_upd cache [OF that] A_def)
    have fin: "upd_inode i (\<lambda>ip. ip\<lparr>ip_size := 0\<rparr>) (upd_inode i (\<lambda>ip. ip\<lparr>ip_addrs := (ip_addrs ip)[NDIRECT := 0]\<rparr>) (upd_inode i A st'))
        = upd_inode i emptied st'" if "bfrees (?D @ ?I @ [?ib]) st = Inr st'" for st'
      using i by (simp only: upd_inode_comp) (simp add: upd_inode_def A_def emptied_def cache [OF that] z)
    show ?thesis
    proof -
      have "bindR (itrunc_indirect ?ib [0..<NINDIRECT] (upd_inode i A st1)) (\<lambda>st. bindR (bfree ?ib st) (\<lambda>st.
          Inr (upd_inode i (\<lambda>ip. ip\<lparr>ip_addrs := (ip_addrs ip)[NDIRECT := 0]\<rparr>) st)))
        = bindR (bfrees (?I @ [?ib]) st1) (\<lambda>st'.
          Inr (upd_inode i (\<lambda>ip. ip\<lparr>ip_addrs := (ip_addrs ip)[NDIRECT := 0]\<rparr>) (upd_inode i A st')))"
        if s: "bfrees ?D st = Inr st1" for st1
        by (simp add: ind [OF s] bfrees_append bindR_assoc bfree_upd_inode)
      then have "itrunc i st = bindR (bfrees ?D st) (\<lambda>st1. bindR (bfrees (?I @ [?ib]) st1) (\<lambda>st'.
          iupdate i (upd_inode i (\<lambda>ip. ip\<lparr>ip_size := 0\<rparr>)
            (upd_inode i (\<lambda>ip. ip\<lparr>ip_addrs := (ip_addrs ip)[NDIRECT := 0]\<rparr>) (upd_inode i A st')))))"
        unfolding itrunc_def dir by (simp add: bindR_assoc at Let_def False cong: bindR_cong)
      also have "\<dots> = bindR (bfrees (?D @ ?I @ [?ib]) st) (\<lambda>st'. iupdate i (upd_inode i (\<lambda>ip. ip\<lparr>ip_size := 0\<rparr>)
            (upd_inode i (\<lambda>ip. ip\<lparr>ip_addrs := (ip_addrs ip)[NDIRECT := 0]\<rparr>) (upd_inode i A st'))))"
        unfolding bfrees_append [of ?D] bindR_assoc ..
      also have "\<dots> = bindR (bfrees (file_blocks i st) st) (\<lambda>st'. iupdate i (upd_inode i emptied st'))"
        unfolding fb by (rule bindR_cong [OF refl]) (simp only: fin)
      finally show ?thesis .
    qed
  qed
qed

text \<open>After \<open>itrunc\<close> the file is empty and exactly its blocks have become free.\<close>

lemma itrunc_error:
  assumes ok: "file_ok i st" and e: "itrunc i st = Inl e"
  shows "log_panic e"
proof -
  note F = bfrees_ok [OF data_okD(1) [OF file_okD(3) [OF ok]] distinct_file_blocks [OF ok] file_blocks_freeable [OF ok]]
  from e show ?thesis
    unfolding itrunc_eq [OF ok] using F(1) iupdate_error by (auto simp: res_simps)
qed

lemma freed_view:
  assumes ok: "file_ok i st" and F: "freed (set (file_blocks i st)) st st1"
  shows "file_ok i (upd_inode i emptied st1)"
    and "m < sb_ninodes (fs_sb st) \<Longrightarrow> slots_in i (upd_inode i emptied st1) m p =
      (if m = inum_of i st then 0 else if p < NSLOT then slots_in i st m p else slots_in i (upd_inode i emptied st1) m p)"
    and "m < sb_ninodes (fs_sb st) \<Longrightarrow> m \<noteq> inum_of i st \<Longrightarrow> off < MAXFILE * BSIZE \<Longrightarrow>
      byte_in i (upd_inode i emptied st1) m off = byte_in i st m off"
    and "m < sb_ninodes (fs_sb st) \<Longrightarrow> m \<noteq> inum_of i st \<Longrightarrow> read_dinode m (upd_inode i emptied st1) = read_dinode m st"
    and "view i (upd_inode i emptied st1) (inum_of i st) = dinode_of_inode (emptied (inode_at i st))"
proof -
  let ?st2 = "upd_inode i emptied st1" and ?n = "inum_of i st" and ?sb = "fs_sb st"
  note fo = file_okD [OF ok] and dk = data_okD [OF file_okD(3) [OF ok]] and D = freedD [OF F]
  have i: "i < length (fs_icache st1)" using fo(1) by (simp add: D(2))
  have at: "inode_at i ?st2 = emptied (inode_at i st)" using i by (simp add: inode_at_upd D(2))
  have n2: "inum_of i ?st2 = ?n" by (simp add: at emptied_def)
  have low: "blocks st1 (IBLOCK m ?sb) = blocks st (IBLOCK m ?sb)" if "m < sb_ninodes ?sb" for m
    using IBLOCK_less [OF blocks_okD(1) [OF dk(1)] that] by (intro D(3)) simp
  have rd: "read_dinode m ?st2 = read_dinode m st" if "m < sb_ninodes ?sb" for m
    using low [OF that] by (simp add: read_dinode_def D(1))
  have data: "blocks st1 (slots_in i st m p) = blocks st (slots_in i st m p)"
    if "m < sb_ninodes ?sb" "p < NSLOT" "slots_in i st m p \<noteq> 0" for m p
    using slots_okD(1) [OF dk(2) that] by (intro D(3)) simp
  have own: "slots_in i ?st2 ?n p = 0" for p
    using slots_in_own [of i ?st2 p]
    by (auto simp: n2 at emptied_def slot_def nth_replicate simp del: replicate_Suc)
  have oth: "slots_in i ?st2 m p = slots_in i st m p" if "m < sb_ninodes ?sb" "m \<noteq> ?n" for m p
  proof -
    have "view i ?st2 m = view i st m" using that rd by (simp add: view_def n2)
    then show ?thesis unfolding slots_of_def
      by (simp, intro slot_cong) (use data [OF that(1) NDIRECT_less] in \<open>auto simp: slots_of_def slot_indirect unat_eq_0\<close>)
  qed
  show s: "slots_in i ?st2 m p = (if m = ?n then 0 else if p < NSLOT then slots_in i st m p else slots_in i ?st2 m p)"
    if "m < sb_ninodes ?sb" using own oth [OF that] by simp
  show "m < sb_ninodes ?sb \<Longrightarrow> m \<noteq> ?n \<Longrightarrow> read_dinode m ?st2 = read_dinode m st" by (rule rd)
  show v: "view i ?st2 ?n = dinode_of_inode (emptied (inode_at i st))"
    by (simp add: view_def at) (simp add: emptied_def)
  have "slots_ok ?sb (blocks st1) (slots_in i ?st2)"
  proof (rule slots_okI, goal_cases)
    case (1 m p)
    then have m: "m \<noteq> ?n" using own by auto
    then have ne: "slots_in i st m p \<noteq> 0" using 1 oth by simp
    note S = slots_okD [OF dk(2) 1(1,2) ne]
    have "slots_in i st m p \<notin> set (file_blocks i st)"
      using S(4) [OF fo(2)] m by (auto simp: set_file_blocks)
    then show ?case using S(1-3) oth [OF 1(1) m] D(4) by simp
  next
    case (2 m m' p q)
    then have "m \<noteq> ?n" "m' \<noteq> ?n" using own by auto
    then show ?case using 2 oth slots_okD(4) [OF dk(2) 2(1) 2(3) _ 2(2) 2(4)] by simp
  qed
  moreover have "length (di_addrs (view i ?st2 m)) = NDIRECT + 1" if "m < sb_ninodes ?sb" for m
  proof (cases "m = ?n")
    case True
    then show ?thesis using v by (simp add: dinode_of_inode_def emptied_def)
  next
    case False
    then show ?thesis using dk(3) [OF that] rd [OF that] by (simp add: view_def n2)
  qed
  ultimately show "file_ok i ?st2"
    using fo i D(1,5) by (simp add: file_ok_def data_ok_def n2)
  show "byte_in i ?st2 m off = byte_in i st m off" if "m < sb_ninodes ?sb" "m \<noteq> ?n" "off < MAXFILE * BSIZE"
  proof -
    have "slot_no (off div BSIZE) < NSLOT" using that by (simp add: less_mult_imp_div_less)
    then show ?thesis using oth [OF that(1,2)] data [OF that(1)] by (simp add: file_byte_def Let_def)
  qed
qed

lemma itrunc_ok:
  assumes ok: "fs_ok st" and l: "loaded i st" and t: "itrunc i st = Inr st'"
  shows "fs_ok st'" and "loaded i st'" and "fs_sb st' = fs_sb st"
    and "fs_icache st' = (fs_icache st)[i := emptied (inode_at i st)]"
    and "file_bytes st' (inum_of i st) = []"
    and "m < sb_ninodes (fs_sb st) \<Longrightarrow> m \<noteq> inum_of i st \<Longrightarrow> file_bytes st' m = file_bytes st m"
    and "x < sb_size (fs_sb st) \<Longrightarrow> bit_of (fs_sb st) (blocks st') x \<longleftrightarrow>
      x \<notin> set (file_blocks i st) \<and> bit_of (fs_sb st) (blocks st) x"
proof -
  let ?n = "inum_of i st" and ?sb = "fs_sb st"
  note LV = loaded_view [OF ok l]
  obtain st1 where s1: "bfrees (file_blocks i st) st = Inr st1" and
    up: "iupdate i (upd_inode i emptied st1) = Inr st'"
    using t unfolding itrunc_eq [OF LV(2)] by (auto simp: res_simps)
  have F: "freed (set (file_blocks i st)) st st1"
    by (rule bfrees_ok(2) [OF data_okD(1) [OF file_okD(3) [OF LV(2)]] distinct_file_blocks [OF LV(2)]
          file_blocks_freeable [OF LV(2)] s1])
  let ?st2 = "upd_inode i emptied st1"
  note V = freed_view [OF LV(2) F] and D = freedD [OF F]
  note U = iupdate_ok [OF V(1) iupdateD [OF up]]
  have i: "i < length (fs_icache st)" "ip_ref (inode_at i st) > 0" using loadedD [OF l] by auto
  have c2: "fs_icache ?st2 = (fs_icache st)[i := emptied (inode_at i st)]" by (simp add: upd_inode_def D(2))
  show cache: "fs_icache st' = (fs_icache st)[i := emptied (inode_at i st)]" by (simp only: U(2) c2)
  show sb: "fs_sb st' = ?sb" by (simp add: U(1) D(1))
  show "loaded i st'" using loadedD [OF l] by (simp add: loaded_def cache emptied_def)
  have n2: "inum_of i ?st2 = ?n" using i by (simp add: c2 emptied_def)
  have vm: "view i ?st2 m = read_dinode m st" if "m < sb_ninodes ?sb" "m \<noteq> ?n" for m
    using V(4) [OF that] that(2) by (simp add: view_def n2)
  show "fs_ok st'"
  proof (rule iupdate_fs_ok [OF V(1) iupdateD [OF up] fs_okD(2) [OF ok] i c2])
    show "no_holes (slots_in i ?st2) m (unat (di_size (view i ?st2 m)))" if m: "m < sb_ninodes ?sb" for m
    proof (cases "m = ?n")
      case True
      then show ?thesis using V(5) by (simp add: no_holes_def dinode_of_inode_def emptied_def)
    next
      case False
      show ?thesis unfolding vm [OF m False]
        by (rule no_holes_cong [OF fs_okD(3) [OF ok m]]) (use V(2) [OF m] False in \<open>simp add: LV(1)\<close>)
    qed
  qed (use V(4) in \<open>auto simp: emptied_def D(1)\<close>)
  show "file_bytes st' ?n = []"
    using U(4) [of ?n] V(5) by (simp add: file_bytes_def dinode_of_inode_def emptied_def)
  show "file_bytes st' m = file_bytes st m" if m: "m < sb_ninodes ?sb" "m \<noteq> ?n"
  proof -
    have "unat (di_size (read_dinode m st)) \<le> MAXFILE * BSIZE"
      using fs_okD(3) [OF ok m(1)] by (simp add: no_holes_def)
    then have "file_byte (disk_slots st') (blocks st') m x = file_byte (disk_slots st) (blocks st) m x"
      if "x < unat (di_size (read_dinode m st))" for x
      using that U(6) [of m x] V(3) [OF m, of x] m(1) by (simp add: LV(1) D(1))
    moreover have "read_dinode m st' = read_dinode m st" using U(4) [of m] vm [OF m] by simp
    ultimately show ?thesis by (simp add: file_bytes_def)
  qed
  show "bit_of ?sb (blocks st') x \<longleftrightarrow> x \<notin> set (file_blocks i st) \<and> bit_of ?sb (blocks st) x"
    if x: "x < sb_size ?sb"
  proof -
    have "IBLOCK ?n ?sb \<noteq> BBLOCK x ?sb"
      by (rule IBLOCK_BBLOCK [OF blocks_okD(1) [OF data_okD(1) [OF fs_okD(1) [OF ok]]] LV(3)])
    then have "blocks st' (BBLOCK x ?sb) = blocks st1 (BBLOCK x ?sb)"
      using U(7) [of "BBLOCK x ?sb"] by (simp add: n2 D(1))
    then show ?thesis using D(4) [of x] by (simp add: bit_of_def)
  qed
qed

section \<open>References\<close>

text \<open>A step that changes one entry of the cache.\<close>

lemma fs_ok_entry:
  assumes ok: "fs_ok st" and i: "i < length (fs_icache st)"
    and eq: "fs_icache st' = (fs_icache st)[i := ip]" "fs_sb st' = fs_sb st" "fs_log st' = fs_log st"
    and ip: "0 \<le> ip_ref ip" "ip_ref ip > 0 \<Longrightarrow> ip_dev ip = ROOTDEV \<and> ip_inum ip < sb_ninodes (fs_sb st)"
      "ip_ref ip > 0 \<Longrightarrow> ip_valid ip \<Longrightarrow> dinode_of_inode ip = read_dinode (ip_inum ip) st"
      "\<And>j. ip_ref ip > 0 \<Longrightarrow> j < length (fs_icache st) \<Longrightarrow> j \<noteq> i \<Longrightarrow> ip_ref (inode_at j st) > 0 \<Longrightarrow> inum_of j st \<noteq> ip_inum ip"
  shows "fs_ok st'" and "file_bytes st' = file_bytes st" and "on_disk st' = on_disk st"
proof -
  have rd: "read_dinode m st' = read_dinode m st" for m by (simp add: read_dinode_def eq)
  then show "on_disk st' = on_disk st" by simp
  show "file_bytes st' = file_bytes st" by (simp add: file_bytes_def fun_eq_iff rd eq)
  have at: "inode_at j st' = (if j = i then ip else inode_at j st)" if "j < length (fs_icache st)" for j
    using that by (simp add: eq nth_list_update)
  note c = icache_okD [OF fs_okD(2) [OF ok]]
  have "icache_ok st'"
    unfolding icache_ok_def eq(2)
  proof (intro conjI allI impI)
    fix j assume "j < length (fs_icache st')"
    then have j: "j < length (fs_icache st)" by (simp add: eq)
    show "0 \<le> ip_ref (inode_at j st')" using c(1) [OF j] ip(1) by (simp add: at [OF j])
    assume r: "0 < ip_ref (inode_at j st')"
    show "ip_dev (inode_at j st') = ROOTDEV" "inum_of j st' < sb_ninodes (fs_sb st)"
      using r c(2,3) [OF j] ip(2) by (auto simp: at [OF j] split: if_splits)
    show "dinode_of_inode (inode_at j st') = read_dinode (inum_of j st') st'" if "ip_valid (inode_at j st')"
      using r that c(4) [OF j] ip(3) by (auto simp: at [OF j] rd split: if_splits)
  next
    fix j k assume jk: "j < length (fs_icache st')" "k < length (fs_icache st')"
      and r: "0 < ip_ref (inode_at j st')" "0 < ip_ref (inode_at k st')" "inum_of j st' = inum_of k st'"
    from jk have jk': "j < length (fs_icache st)" "k < length (fs_icache st)" by (simp_all add: eq)
    show "j = k"
      using r c(5) [OF jk'(1) _ jk'(2)] ip(4) [of j] ip(4) [of k] jk' by (auto simp: at split: if_splits)
  qed
  then show "fs_ok st'" using ok by (simp add: fs_ok_def data_ok_def eq rd)
qed

lemma iget_scan_True:
  "iget_scan dev n ips i0 s = (True, r) \<Longrightarrow>
    \<exists>k < length ips. r = Some (i0 + k) \<and> ip_ref (ips ! k) > 0 \<and> ip_dev (ips ! k) = dev \<and> ip_inum (ips ! k) = n"
proof (induction ips arbitrary: i0 s)
  case (Cons ip ips)
  show ?case
  proof (cases "ip_ref ip > 0 \<and> ip_dev ip = dev \<and> ip_inum ip = n")
    case True
    then show ?thesis using Cons.prems by (intro exI [of _ 0]) auto
  next
    case False
    then have "iget_scan dev n ips (Suc i0) (if s = None \<and> ip_ref ip = 0 then Some i0 else s) = (True, r)"
      using Cons.prems by (auto split: if_splits)
    from Cons.IH [OF this] show ?thesis by force
  qed
qed simp

lemma iget_scan_False:
  "iget_scan dev n ips i0 s = (False, r) \<Longrightarrow>
    (\<forall>k < length ips. \<not> (ip_ref (ips ! k) > 0 \<and> ip_dev (ips ! k) = dev \<and> ip_inum (ips ! k) = n))
    \<and> (case s of Some x \<Rightarrow> r = Some x
       | None \<Rightarrow> (case r of Some x \<Rightarrow> i0 \<le> x \<and> x < i0 + length ips \<and> ip_ref (ips ! (x - i0)) = 0
                | None \<Rightarrow> \<forall>k < length ips. ip_ref (ips ! k) \<noteq> 0))"
proof (induction ips arbitrary: i0 s)
  case (Cons ip ips)
  then have ne: "\<not> (ip_ref ip > 0 \<and> ip_dev ip = dev \<and> ip_inum ip = n)"
    and r: "iget_scan dev n ips (Suc i0) (if s = None \<and> ip_ref ip = 0 then Some i0 else s) = (False, r)"
    by (auto split: if_splits)
  note I = Cons.IH [OF r]
  have a: "\<forall>k < length (ip # ips). \<not> (ip_ref ((ip # ips) ! k) > 0 \<and> ip_dev ((ip # ips) ! k) = dev \<and> ip_inum ((ip # ips) ! k) = n)"
    using I ne by (auto simp: less_Suc_eq_0_disj)
  show ?case
  proof (cases "s = None \<and> ip_ref ip = 0")
    case True
    then show ?thesis using a I by simp
  next
    case False
    show ?thesis
    proof (cases s)
      case None
      then show ?thesis using a I False
        by (cases r) (auto simp: less_Suc_eq_0_disj Suc_diff_le Suc_le_eq nth_Cons' split: option.splits)
    qed (use a I False in auto)
  qed
qed (auto split: option.splits)

text \<open>
  \<open>iget\<close> gives the entry of the inode, one reference more than before, or a free entry with the
  first reference; it panics exactly when the inode is not cached and no entry is free.
\<close>

lemma iget_ok:
  assumes ok: "fs_ok st" and n: "n < sb_ninodes (fs_sb st)" and g: "iget ROOTDEV n st = Inr (i, st')"
  shows "fs_ok st'" and "i < length (fs_icache st)" and "inum_of i st' = n" and "fs_log st' = fs_log st"
    and "fs_sb st' = fs_sb st" and "length (fs_icache st') = length (fs_icache st)"
    and "ip_ref (inode_at i st') = ip_ref (inode_at i st) + 1"
    and "ip_ref (inode_at i st) > 0 \<longleftrightarrow> (\<exists>k < length (fs_icache st). ip_ref (inode_at k st) > 0 \<and> inum_of k st = n)"
    and "j \<noteq> i \<Longrightarrow> inode_at j st' = inode_at j st"
    and "file_bytes st' = file_bytes st" and "on_disk st' = on_disk st"
proof -
  note c = icache_okD [OF fs_okD(2) [OF ok]]
  obtain b r where s: "iget_scan ROOTDEV n (fs_icache st) 0 None = (b, r)" by fastforce
  define ip where "ip = (if b then (inode_at i st)\<lparr>ip_ref := ip_ref (inode_at i st) + 1\<rparr>
    else (inode_at i st)\<lparr>ip_dev := ROOTDEV, ip_inum := n, ip_ref := 1, ip_valid := False\<rparr>)"
  have r: "r = Some i" and st': "st' = upd_inode i (\<lambda>_. ip) st"
    by (cases b; cases r; use g in \<open>auto simp: iget_def s ip_def upd_inode_def\<close>)+
  show "fs_log st' = fs_log st" "fs_sb st' = fs_sb st" "length (fs_icache st') = length (fs_icache st)"
    by (simp_all add: st')
  have all: "i < length (fs_icache st) \<and> ip_inum ip = n \<and> ip_ref ip = ip_ref (inode_at i st) + 1 \<and> ip_dev ip = ROOTDEV
    \<and> (ip_valid ip \<longrightarrow> dinode_of_inode ip = read_dinode n st)
    \<and> (\<forall>j < length (fs_icache st). j \<noteq> i \<longrightarrow> ip_ref (inode_at j st) > 0 \<longrightarrow> inum_of j st \<noteq> n)
    \<and> (ip_ref (inode_at i st) > 0 \<longleftrightarrow> (\<exists>k < length (fs_icache st). ip_ref (inode_at k st) > 0 \<and> inum_of k st = n))"
  proof (cases b)
    case True
    then have f: "i < length (fs_icache st)" "ip_ref (inode_at i st) > 0" "ip_dev (inode_at i st) = ROOTDEV" "inum_of i st = n"
      using iget_scan_True [of ROOTDEV n "fs_icache st" 0 None r] s r by auto
    have "\<forall>j < length (fs_icache st). j \<noteq> i \<longrightarrow> ip_ref (inode_at j st) > 0 \<longrightarrow> inum_of j st \<noteq> n"
      using c(5) [OF f(1,2)] f(4) by metis
    moreover have "ip_valid (inode_at i st) \<longrightarrow> dinode_of_inode ip = read_dinode n st"
      using c(4) [OF f(1,2)] True f(4) by (simp add: ip_def dinode_of_inode_def)
    ultimately show ?thesis using True f by (auto simp: ip_def)
  next
    case False
    then have f: "i < length (fs_icache st)" "ip_ref (inode_at i st) = 0"
      "\<forall>k < length (fs_icache st). \<not> (ip_ref (inode_at k st) > 0 \<and> ip_dev (inode_at k st) = ROOTDEV \<and> inum_of k st = n)"
      using iget_scan_False [of ROOTDEV n "fs_icache st" 0 None r] s r by auto
    then show ?thesis using False c(2) by (auto simp: ip_def)
  qed
  then have i: "i < length (fs_icache st)" by simp
  have cache: "fs_icache st' = (fs_icache st)[i := ip]" by (simp add: st' upd_inode_def)
  have E: "fs_ok st' \<and> file_bytes st' = file_bytes st \<and> on_disk st' = on_disk st"
    using fs_ok_entry [OF ok i cache] all n c(1) [OF i] by (simp add: st')
  show "i < length (fs_icache st)" by (rule i)
  show "fs_ok st'" "file_bytes st' = file_bytes st" "on_disk st' = on_disk st" using E by auto
  show "inum_of i st' = n" "ip_ref (inode_at i st') = ip_ref (inode_at i st) + 1"
    "ip_ref (inode_at i st) > 0 \<longleftrightarrow> (\<exists>k < length (fs_icache st). ip_ref (inode_at k st) > 0 \<and> inum_of k st = n)"
    using all i by (simp_all add: cache)
  show "j \<noteq> i \<Longrightarrow> inode_at j st' = inode_at j st" by (simp add: cache)
qed

lemma idup_ok:
  assumes ok: "fs_ok st" and i: "i < length (fs_icache st)" "ip_ref (inode_at i st) > 0"
  shows "fs_ok (snd (idup i st))"
proof -
  note c = icache_okD [OF fs_okD(2) [OF ok] i(1)]
  have "inum_of j st \<noteq> inum_of i st" if "j < length (fs_icache st)" "j \<noteq> i" "ip_ref (inode_at j st) > 0" for j
    using c(5) [OF i(2) that(1,3)] that(2) by auto
  then show ?thesis
    using c(1-4) i(2)
    by (intro fs_ok_entry(1) [OF ok i(1), of _ "(inode_at i st)\<lparr>ip_ref := ip_ref (inode_at i st) + 1\<rparr>"])
      (auto simp: idup_def upd_inode_def dinode_of_inode_def)
qed

text \<open>\<open>ilock\<close> loads the fields of an inode that is in use; it panics when the inode on disk is free.\<close>

lemma ilock_ok:
  assumes ok: "fs_ok st" and i: "i < length (fs_icache st)" "ip_ref (inode_at i st) > 0" and g: "ilock i st = Inr st'"
  shows "fs_ok st'" and "loaded i st'" and "fs_log st' = fs_log st" and "fs_sb st' = fs_sb st"
    and "inum_of i st' = inum_of i st" and "ip_ref (inode_at i st') = ip_ref (inode_at i st)"
    and "j \<noteq> i \<Longrightarrow> inode_at j st' = inode_at j st" and "length (fs_icache st') = length (fs_icache st)"
    and "file_bytes st' = file_bytes st" and "on_disk st' = on_disk st"
proof -
  note c = icache_okD [OF fs_okD(2) [OF ok] i(1)]
  have oth: "inum_of j st \<noteq> inum_of i st" if "j < length (fs_icache st)" "j \<noteq> i" "ip_ref (inode_at j st) > 0" for j
    using c(5) [OF i(2) that(1,3)] that(2) by auto
  have "fs_ok st' \<and> loaded i st' \<and> fs_log st' = fs_log st \<and> fs_sb st' = fs_sb st \<and> inum_of i st' = inum_of i st
    \<and> ip_ref (inode_at i st') = ip_ref (inode_at i st) \<and> (\<forall>j. j \<noteq> i \<longrightarrow> inode_at j st' = inode_at j st)
    \<and> length (fs_icache st') = length (fs_icache st)
    \<and> file_bytes st' = file_bytes st \<and> on_disk st' = on_disk st"
  proof (cases "ip_valid (inode_at i st)")
    case True
    then have "st' = st" using g i(2) by (simp add: ilock_def)
    then show ?thesis using ok i True by (simp add: loaded_def)
  next
    case False
    define di where "di = read_dinode (inum_of i st) st"
    define ip where "ip = (inode_at i st)\<lparr>ip_type := di_type di, ip_major := di_major di, ip_minor := di_minor di,
      ip_nlink := di_nlink di, ip_size := di_size di, ip_addrs := di_addrs di, ip_valid := True\<rparr>"
    have st': "st' = upd_inode i (\<lambda>_. ip) st"
      using g i(2) False by (simp add: ilock_def ip_def di_def Let_def upd_inode_def split: if_splits)
    have cache: "fs_icache st' = (fs_icache st)[i := ip]" by (simp add: st' upd_inode_def)
    have d: "dinode_of_inode ip = di" by (cases di) (simp add: ip_def dinode_of_inode_def)
    have "fs_ok st'" "file_bytes st' = file_bytes st" "on_disk st' = on_disk st"
      using fs_ok_entry [OF ok i(1) cache] c(1-3) i(2) oth d by (auto simp: st' ip_def di_def)
    moreover have "fs_log st' = fs_log st" "fs_sb st' = fs_sb st" by (simp_all add: st')
    ultimately show ?thesis using i by (auto simp: loaded_def cache ip_def)
  qed
  then show "fs_ok st'" "loaded i st'" "fs_log st' = fs_log st" "fs_sb st' = fs_sb st" "inum_of i st' = inum_of i st"
    "ip_ref (inode_at i st') = ip_ref (inode_at i st)" "j \<noteq> i \<Longrightarrow> inode_at j st' = inode_at j st"
    "length (fs_icache st') = length (fs_icache st)" "file_bytes st' = file_bytes st" "on_disk st' = on_disk st"
    by blast+
qed

text \<open>Changing the type, device numbers or link count of a loaded inode and writing it back.\<close>

lemma update_meta_ok:
  assumes ok: "fs_ok st" and l: "loaded i st" and u: "iupdate i (upd_inode i f st) = Inr st'"
    and f: "ip_addrs (f (inode_at i st)) = ip_addrs (inode_at i st)" "ip_size (f (inode_at i st)) = ip_size (inode_at i st)"
      "ip_inum (f (inode_at i st)) = inum_of i st" "ip_ref (f (inode_at i st)) = ip_ref (inode_at i st)"
      "ip_dev (f (inode_at i st)) = ip_dev (inode_at i st)" "ip_valid (f (inode_at i st))"
  shows "fs_ok st'" and "loaded i st'" and "fs_sb st' = fs_sb st"
    and "fs_icache st' = (fs_icache st)[i := f (inode_at i st)]"
    and "m < sb_ninodes (fs_sb st) \<Longrightarrow> file_bytes st' m = file_bytes st m"
    and "x \<noteq> IBLOCK (inum_of i st) (fs_sb st) \<Longrightarrow> blocks st' x = blocks st x"
    and "read_dinode (inum_of i st) st' = dinode_of_inode (f (inode_at i st))"
    and "m \<noteq> inum_of i st \<Longrightarrow> read_dinode m st' = read_dinode m st"
proof -
  let ?st1 = "upd_inode i f st" and ?n = "inum_of i st" and ?sb = "fs_sb st"
  note LV = loaded_view [OF ok l]
  have i: "i < length (fs_icache st)" "ip_ref (inode_at i st) > 0" using loadedD [OF l] by auto
  have at: "inode_at i ?st1 = f (inode_at i st)" using i by (simp add: inode_at_upd)
  have vm: "view i ?st1 m = read_dinode m st" if "m \<noteq> ?n" for m
    using that by (simp add: view_def at f(3) read_dinode_def)
  have vn: "view i ?st1 ?n = dinode_of_inode (f (inode_at i st))" by (simp add: view_def at f(3))
  have d: "dinode_of_inode (inode_at i st) = read_dinode ?n st"
    using icache_okD(4) [OF fs_okD(2) [OF ok] i] loadedD [OF l] by simp
  have va: "di_addrs (view i ?st1 m) = di_addrs (read_dinode m st) \<and> di_size (view i ?st1 m) = di_size (read_dinode m st)" for m
    using vm vn d by (cases "m = ?n") (simp_all add: dinode_of_inode_def f flip: d)
  have sl: "slots_of (view i ?st1) R = slots_of (on_disk st) R" for R
    by (simp add: slots_of_def va fun_eq_iff)
  have fo: "file_ok i ?st1"
    using LV(2,3) by (simp add: file_ok_def data_ok_def sl va at f(3) LV(1))
  note U = iupdate_ok [OF fo iupdateD [OF u]]
  show cache: "fs_icache st' = (fs_icache st)[i := f (inode_at i st)]" by (simp add: U(2) upd_inode_def)
  show sb: "fs_sb st' = ?sb" by (simp add: U(1))
  show "loaded i st'" using loadedD [OF l] f by (simp add: loaded_def cache)
  show "x \<noteq> IBLOCK ?n ?sb \<Longrightarrow> blocks st' x = blocks st x" using U(7) by (simp add: at f(3))
  show "read_dinode ?n st' = dinode_of_inode (f (inode_at i st))" by (simp add: U(4) vn)
  show "m \<noteq> ?n \<Longrightarrow> read_dinode m st' = read_dinode m st" by (simp add: U(4) vm)
  show "fs_ok st'"
  proof (rule iupdate_fs_ok [OF fo iupdateD [OF u] fs_okD(2) [OF ok] i, of "f (inode_at i st)"])
    show "no_holes (slots_in i ?st1) m (unat (di_size (view i ?st1 m)))" if "m < sb_ninodes ?sb" for m
      using fs_okD(3) [OF ok that] by (simp add: sl va)
  qed (use f in \<open>auto simp: upd_inode_def read_dinode_def\<close>)
  show "file_bytes st' m = file_bytes st m" if m: "m < sb_ninodes ?sb"
  proof -
    have "unat (di_size (read_dinode m st)) \<le> MAXFILE * BSIZE"
      using fs_okD(3) [OF ok m] by (simp add: no_holes_def)
    then have "file_byte (disk_slots st') (blocks st') m x = file_byte (disk_slots st) (blocks st) m x"
      if "x < unat (di_size (read_dinode m st))" for x
      using that U(6) [of m x] m by (simp add: sl)
    moreover have "di_size (read_dinode m st') = di_size (read_dinode m st)" using va by (simp add: U(4))
    ultimately show ?thesis by (simp add: file_bytes_def)
  qed
qed

text \<open>The last reference to an inode without links.\<close>

definition last_ref :: "nat \<Rightarrow> fs \<Rightarrow> bool" where
  "last_ref i st \<longleftrightarrow> ip_valid (inode_at i st) \<and> ip_nlink (inode_at i st) = 0 \<and> ip_ref (inode_at i st) = 1"

lemma last_ref_loaded: "i < length (fs_icache st) \<Longrightarrow> last_ref i st \<Longrightarrow> loaded i st"
  by (simp add: last_ref_def loaded_def)

lemma iput_eq:
  "iput i st = bindR
     (if last_ref i st then bindR (itrunc i st) (\<lambda>st.
        bindR (iupdate i (upd_inode i (\<lambda>ip. ip\<lparr>ip_type := 0\<rparr>) st)) (\<lambda>st. Inr (upd_inode i (\<lambda>ip. ip\<lparr>ip_valid := False\<rparr>) st)))
      else Inr st) (\<lambda>st. Inr (upd_inode i (\<lambda>ip. ip\<lparr>ip_ref := ip_ref ip - 1\<rparr>) st))"
  by (simp add: iput_def last_ref_def)

lemma iput_error:
  assumes "fs_ok st" and "i < length (fs_icache st)" and "iput i st = Inl e"
  shows "log_panic e"
  using assms(3) itrunc_error [OF loaded_view(2) [OF assms(1) last_ref_loaded [OF assms(2)]]] iupdate_error
  by (auto simp: iput_eq res_simps split: if_splits)

text \<open>Dropping a reference, once the inode is truncated if that was the last one.\<close>

lemma drop_ref_ok:
  assumes ok: "fs_ok st" and i: "i < length (fs_icache st)" "ip_ref (inode_at i st) > 0"
    and eq: "st' = upd_inode i (\<lambda>ip. ip\<lparr>ip_valid := v, ip_ref := ip_ref ip - 1\<rparr>) st"
    and v: "v \<longrightarrow> ip_valid (inode_at i st)"
  shows "fs_ok st'" and "file_bytes st' = file_bytes st" and "on_disk st' = on_disk st"
proof -
  note c = icache_okD [OF fs_okD(2) [OF ok] i(1)]
  have oth: "inum_of j st \<noteq> inum_of i st" if "j < length (fs_icache st)" "j \<noteq> i" "ip_ref (inode_at j st) > 0" for j
    using c(5) [OF i(2) that(1,3)] that(2) by auto
  have cache: "fs_icache st' = (fs_icache st)[i := (inode_at i st)\<lparr>ip_valid := v, ip_ref := ip_ref (inode_at i st) - 1\<rparr>]"
    by (simp add: eq upd_inode_def)
  show "fs_ok st'" "file_bytes st' = file_bytes st" "on_disk st' = on_disk st"
    using fs_ok_entry [OF ok i(1) cache] c(2-4) i(2) v oth by (auto simp: eq dinode_of_inode_def)
qed

lemma iput_last_ok:
  assumes ok: "fs_ok st" and i: "i < length (fs_icache st)" and d: "last_ref i st" and p: "iput i st = Inr st'"
  shows "fs_ok st'" and "fs_sb st' = fs_sb st" and "length (fs_icache st') = length (fs_icache st)"
    and "ip_ref (inode_at i st') = 0" and "j \<noteq> i \<Longrightarrow> inode_at j st' = inode_at j st"
    and "di_type (read_dinode (inum_of i st) st') = 0" and "file_bytes st' (inum_of i st) = []"
    and "x < sb_size (fs_sb st) \<Longrightarrow> bit_of (fs_sb st) (blocks st') x \<longleftrightarrow>
      x \<notin> set (file_blocks i st) \<and> bit_of (fs_sb st) (blocks st) x"
    and "m < sb_ninodes (fs_sb st) \<Longrightarrow> m \<noteq> inum_of i st \<Longrightarrow> file_bytes st' m = file_bytes st m"
proof -
  let ?n = "inum_of i st" and ?sb = "fs_sb st"
  obtain st1 st2 where s1: "itrunc i st = Inr st1" and
    s2: "iupdate i (upd_inode i (\<lambda>ip. ip\<lparr>ip_type := 0\<rparr>) st1) = Inr st2" and
    s3: "st' = upd_inode i (\<lambda>ip. ip\<lparr>ip_valid := False, ip_ref := ip_ref ip - 1\<rparr>) st2"
    using p d by (auto simp: iput_eq res_simps upd_inode_comp)
  note l = last_ref_loaded [OF i d]
  note T = itrunc_ok [OF ok l s1]
  have e1: "inode_at i st1 = emptied (inode_at i st)" using i by (simp add: T(4))
  have n1: "inum_of i st1 = ?n" by (simp add: e1 emptied_def)
  have val: "ip_valid (inode_at i st1)" using d by (simp add: e1 emptied_def last_ref_def)
  note M = update_meta_ok [OF T(1,2) s2, unfolded n1 T(3)]
  have M': "fs_ok st2" "fs_sb st2 = ?sb"
    "fs_icache st2 = (fs_icache st1)[i := (inode_at i st1)\<lparr>ip_type := 0\<rparr>]"
    using M(1,3,4) val n1 by auto
  have i2: "i < length (fs_icache st2)" "ip_ref (inode_at i st2) > 0"
    using i d by (auto simp: M'(3) T(4) emptied_def last_ref_def)
  note D = drop_ref_ok [OF M'(1) i2 s3]
  show "fs_ok st'" using D(1) by simp
  show "fs_sb st' = ?sb" by (simp add: s3 M'(2))
  show "length (fs_icache st') = length (fs_icache st)" by (simp add: s3 M'(3) T(4))
  show "ip_ref (inode_at i st') = 0"
    using i d by (simp add: s3 inode_at_upd M'(3) T(4) emptied_def last_ref_def)
  show "j \<noteq> i \<Longrightarrow> inode_at j st' = inode_at j st" using i by (simp add: s3 inode_at_upd M'(3) T(4))
  have "read_dinode ?n st2 = dinode_of_inode ((inode_at i st1)\<lparr>ip_type := 0\<rparr>)" using M(7) val n1 by simp
  then show "di_type (read_dinode ?n st') = 0" using fun_cong [OF D(3), of ?n] by (simp add: dinode_of_inode_def)
  have fb: "file_bytes st' = file_bytes st2" using D(2) by simp
  have n: "?n < sb_ninodes ?sb" by (rule loaded_view(3) [OF ok l])
  have b2: "file_bytes st2 m = file_bytes st1 m" if "m < sb_ninodes ?sb" for m
    using M(5) [of m] val n1 that by simp
  show "file_bytes st' ?n = []" using b2 [OF n] T(5) by (simp add: fb)
  show "m < sb_ninodes ?sb \<Longrightarrow> m \<noteq> ?n \<Longrightarrow> file_bytes st' m = file_bytes st m" using b2 T(6) by (simp add: fb)
  show "bit_of ?sb (blocks st') x \<longleftrightarrow> x \<notin> set (file_blocks i st) \<and> bit_of ?sb (blocks st) x" if x: "x < sb_size ?sb"
  proof -
    have "IBLOCK ?n ?sb \<noteq> BBLOCK x ?sb"
      by (rule IBLOCK_BBLOCK [OF blocks_okD(1) [OF data_okD(1) [OF fs_okD(1) [OF ok]]] n])
    then have "blocks st2 (BBLOCK x ?sb) = blocks st1 (BBLOCK x ?sb)" using M(6) val n1 by simp
    then show ?thesis using T(7) [OF x] by (simp add: bit_of_def s3)
  qed
qed

lemma iput_ok:
  assumes ok: "fs_ok st" and i: "i < length (fs_icache st)" "ip_ref (inode_at i st) > 0" and p: "iput i st = Inr st'"
  shows "fs_ok st'" and "fs_sb st' = fs_sb st" and "length (fs_icache st') = length (fs_icache st)"
    and "ip_ref (inode_at i st') = ip_ref (inode_at i st) - 1" and "j \<noteq> i \<Longrightarrow> inode_at j st' = inode_at j st"
    and "m < sb_ninodes (fs_sb st) \<Longrightarrow> m \<noteq> inum_of i st \<or> \<not> last_ref i st \<Longrightarrow> file_bytes st' m = file_bytes st m"
    and "\<not> last_ref i st \<Longrightarrow> fs_log st' = fs_log st"
proof -
  have "fs_ok st' \<and> fs_sb st' = fs_sb st \<and> length (fs_icache st') = length (fs_icache st)
    \<and> ip_ref (inode_at i st') = ip_ref (inode_at i st) - 1 \<and> (\<forall>j. j \<noteq> i \<longrightarrow> inode_at j st' = inode_at j st)
    \<and> (\<forall>m < sb_ninodes (fs_sb st). m \<noteq> inum_of i st \<or> \<not> last_ref i st \<longrightarrow> file_bytes st' m = file_bytes st m)
    \<and> (\<not> last_ref i st \<longrightarrow> fs_log st' = fs_log st)"
  proof (cases "last_ref i st")
    case True
    then have "ip_ref (inode_at i st) = 1" by (simp add: last_ref_def)
    then show ?thesis using iput_last_ok [OF ok i(1) True p] True by auto
  next
    case False
    then have st': "st' = upd_inode i (\<lambda>ip. ip\<lparr>ip_valid := ip_valid (inode_at i st), ip_ref := ip_ref ip - 1\<rparr>) st"
      using p by (simp add: iput_eq upd_inode_def)
    note D = drop_ref_ok [OF ok i st']
    have "fs_ok st'" "file_bytes st' = file_bytes st" using D(1,2) by simp_all
    then show ?thesis using i by (simp add: st' inode_at_upd)
  qed
  then show "fs_ok st'" "fs_sb st' = fs_sb st" "length (fs_icache st') = length (fs_icache st)"
    "ip_ref (inode_at i st') = ip_ref (inode_at i st) - 1" "j \<noteq> i \<Longrightarrow> inode_at j st' = inode_at j st"
    "m < sb_ninodes (fs_sb st) \<Longrightarrow> m \<noteq> inum_of i st \<or> \<not> last_ref i st \<Longrightarrow> file_bytes st' m = file_bytes st m"
    "\<not> last_ref i st \<Longrightarrow> fs_log st' = fs_log st" by blast+
qed

section \<open>Allocating an inode\<close>

lemma slot_no_addrs: "slot R (replicate (NDIRECT + 1) 0) p = 0"
  by (auto simp: slot_def nth_replicate simp del: replicate_Suc)

lemma data_ok_clear:
  assumes ok: "data_ok V st" and d: "di_addrs d = replicate (NDIRECT + 1) 0"
  shows "data_ok (V(n := d)) st"
proof -
  note dk = data_okD [OF ok]
  have s: "slots_of (V(n := d)) (blocks st) m p = (if m = n then 0 else slots_of V (blocks st) m p)" for m p
    by (simp only: slots_of_def fun_upd_apply d slot_no_addrs if_distrib [of di_addrs] split: if_split) simp
  have "slots_ok (fs_sb st) (blocks st) (slots_of (V(n := d)) (blocks st))"
    using dk(2) by (auto simp: slots_ok_def s)
  then show ?thesis using dk(1,3) d by (auto simp: data_ok_def)
qed

definition fresh_dinode :: "u16 \<Rightarrow> dinode" where
  "fresh_dinode ty = \<lparr>di_type = ty, di_major = 0, di_minor = 0, di_nlink = 0, di_size = 0,
     di_addrs = replicate (NDIRECT + 1) 0\<rparr>"

lemma ialloc_from_cases:
  "ialloc_from n dev ty st = r \<Longrightarrow>
    (\<exists>k. n \<le> k \<and> k < sb_ninodes (fs_sb st) \<and> di_type (read_dinode k st) = 0
       \<and> (\<forall>m. n \<le> m \<and> m < k \<longrightarrow> di_type (read_dinode m st) \<noteq> 0)
       \<and> r = bindR (write_dinode k (fresh_dinode ty) st) (\<lambda>st. iget dev k st))
    \<or> (\<forall>m. n \<le> m \<and> m < sb_ninodes (fs_sb st) \<longrightarrow> di_type (read_dinode m st) \<noteq> 0) \<and> r = Inl (Panic ''ialloc: no inodes'')"
proof (induction n dev ty st rule: ialloc_from.induct)
  case (1 n dev ty st)
  show ?case
  proof (cases "n < sb_ninodes (fs_sb st)")
    case True
    show ?thesis
    proof (cases "di_type (read_dinode n st) = 0")
      case t: True
      then have "r = bindR (write_dinode n (fresh_dinode ty) st) (\<lambda>st. iget dev n st)"
        using "1.prems" True by (subst (asm) ialloc_from.simps) (simp add: fresh_dinode_def)
      then show ?thesis using t True by auto
    next
      case t: False
      then have "ialloc_from (n + 1) dev ty st = r"
        using "1.prems" True by (subst (asm) ialloc_from.simps) simp
      note I = "1.IH" [OF True t this]
      have up: "n \<le> m \<longleftrightarrow> m = n \<or> n + 1 \<le> m" for m by auto
      from I show ?thesis unfolding up using t by blast
    qed
  next
    case False
    then show ?thesis using "1.prems" by (subst (asm) ialloc_from.simps) auto
  qed
qed

text \<open>Loaded inodes are not free.\<close>

definition typed :: "fs \<Rightarrow> bool" where
  "typed st \<longleftrightarrow> (\<forall>i. loaded i st \<longrightarrow> ip_type (inode_at i st) \<noteq> 0)"

lemma write_fresh:
  assumes ok: "fs_ok st" "typed st" and n: "n < sb_ninodes (fs_sb st)" "di_type (read_dinode n st) = 0"
    and w: "stores_dinode n d st st'" and d: "di_addrs d = replicate (NDIRECT + 1) 0" "di_size d = 0"
  shows "fs_ok st'" and "fs_sb st' = fs_sb st" and "fs_icache st' = fs_icache st"
    and "read_dinode m st' = (if m = n then d else read_dinode m st)"
    and "file_bytes st' n = []"
    and "m < sb_ninodes (fs_sb st) \<Longrightarrow> m \<noteq> n \<Longrightarrow> file_bytes st' m = file_bytes st m"
proof -
  let ?sb = "fs_sb st" and ?V = "(on_disk st)(n := d)"
  have fl: "length (di_addrs (d)) = NDIRECT + 1" by (simp add: d)
  note W = write_dinode_ok [OF w fl blocks_okD(2) [OF data_okD(1) [OF fs_okD(1) [OF ok(1)]]]]
  have rd: "on_disk st' = ?V" using W(3) by auto
  have dv: "data_ok ?V st" by (rule data_ok_clear [OF fs_okD(1) [OF ok(1)]]) (simp add: d)
  note D = write_dinode_data [OF w fl dv n(1) refl]
  show sb: "fs_sb st' = ?sb" and cache: "fs_icache st' = fs_icache st" by (fact W)+
  show "read_dinode m st' = (if m = n then d else read_dinode m st)" by (rule W(3))
  show "file_bytes st' n = []" by (simp add: file_bytes_def W(3) d)
  have small: "unat (di_size (read_dinode m st)) \<le> MAXFILE * BSIZE" if "m < sb_ninodes ?sb" for m
    using fs_okD(3) [OF ok(1) that] by (simp add: no_holes_def)
  have ds: "disk_slots st' = slots_of ?V (blocks st')"
    by (rule arg_cong [OF rd, of "\<lambda>V. slots_of V (blocks st')"])
  have sl: "slots_of ?V R m = slots_of (on_disk st) R m" if "m \<noteq> n" for R m
    using that by (simp add: slots_of_def fun_eq_iff)
  show "file_bytes st' m = file_bytes st m" if m: "m < sb_ninodes ?sb" "m \<noteq> n"
  proof -
    have "file_byte (disk_slots st') (blocks st') m x = file_byte (disk_slots st) (blocks st) m x"
      if "x < unat (di_size (read_dinode m st))" for x
    proof -
      have "x < MAXFILE * BSIZE" using that small [OF m(1)] by simp
      from D(3) [OF m(1) this] show ?thesis unfolding ds file_byte_def sl [OF m(2)] .
    qed
    then show ?thesis using m(2) unfolding file_bytes_def W(3) by simp
  qed
  have "inum_of i st \<noteq> n" if l: "loaded i st" for i
  proof -
    have "dinode_of_inode (inode_at i st) = read_dinode (inum_of i st) st"
      using icache_okD(4) [OF fs_okD(2) [OF ok(1)]] loadedD [OF l] by simp
    then have "di_type (read_dinode (inum_of i st) st) = ip_type (inode_at i st)"
      by (simp flip: \<open>dinode_of_inode (inode_at i st) = _\<close> add: dinode_of_inode_def)
    then show ?thesis using ok(2) l n(2) by (auto simp: typed_def)
  qed
  then have "icache_ok st'"
    using fs_okD(2) [OF ok(1)] by (auto simp: icache_ok_def cache sb W(3) loaded_def)
  moreover have "no_holes (disk_slots st') m (unat (di_size (read_dinode m st')))" if m: "m < sb_ninodes ?sb" for m
  proof (cases "m = n")
    case True
    then show ?thesis by (simp add: W(3) d no_holes_def)
  next
    case False
    have "no_holes (disk_slots st') m (unat (di_size (read_dinode m st)))"
    proof (rule no_holes_cong [OF fs_okD(3) [OF ok(1) m]])
      fix p assume p: "p < NSLOT" and ne: "disk_slots st m p \<noteq> 0"
      show "disk_slots st' m p \<noteq> 0"
        using ne D(2) [OF m p] unfolding ds sl [OF False] by (simp only: not_False_eq_True)
    qed
    then show ?thesis using False by (simp add: W(3))
  qed
  moreover have "data_ok (on_disk st') st'" unfolding rd by (rule D(1))
  ultimately show "fs_ok st'" by (simp add: fs_ok_def sb)
qed

lemma ialloc_ok:
  assumes ok: "fs_ok st" "typed st" and a: "ialloc ROOTDEV ty st = Inr (i, st')"
  shows "fs_ok st'" and "fs_sb st' = fs_sb st" and "i < length (fs_icache st)"
    and "length (fs_icache st') = length (fs_icache st)"
    and "0 < inum_of i st'" and "inum_of i st' < sb_ninodes (fs_sb st)"
    and "di_type (read_dinode (inum_of i st') st) = 0"
    and "\<forall>m. 0 < m \<and> m < inum_of i st' \<longrightarrow> di_type (read_dinode m st) \<noteq> 0"
    and "read_dinode m st' = (if m = inum_of i st' then fresh_dinode ty else read_dinode m st)"
    and "m < sb_ninodes (fs_sb st) \<Longrightarrow> file_bytes st' m = (if m = inum_of i st' then [] else file_bytes st m)"
    and "ip_ref (inode_at i st') = ip_ref (inode_at i st) + 1"
    and "j \<noteq> i \<Longrightarrow> inode_at j st' = inode_at j st" and "ip_ref (inode_at i st') > 0"
proof -
  obtain n where n: "1 \<le> n" "n < sb_ninodes (fs_sb st)" "di_type (read_dinode n st) = 0"
      "\<forall>m. 1 \<le> m \<and> m < n \<longrightarrow> di_type (read_dinode m st) \<noteq> 0"
    and b: "bindR (write_dinode n (fresh_dinode ty) st) (\<lambda>st. iget ROOTDEV n st) = Inr (i, st')"
    using ialloc_from_cases [OF a [unfolded ialloc_def]] by (elim disjE conjE exE) simp_all
  obtain st1 where w: "write_dinode n (fresh_dinode ty) st = Inr st1" and g: "iget ROOTDEV n st1 = Inr (i, st')"
    by (rule bindR_InrE [OF b])
  have fd: "di_addrs (fresh_dinode ty) = replicate (NDIRECT + 1) 0" "di_size (fresh_dinode ty) = 0"
    by (simp_all add: fresh_dinode_def)
  note F = write_fresh [OF ok n(2,3) write_dinodeD [OF w] fd]
  note G = iget_ok [OF F(1) n(2) [folded F(2)] g]
  have on: "read_dinode m st' = read_dinode m st1" for m using fun_cong [OF G(11), of m] .
  show "fs_ok st'" "fs_sb st' = fs_sb st" "i < length (fs_icache st)" "length (fs_icache st') = length (fs_icache st)"
    "ip_ref (inode_at i st') = ip_ref (inode_at i st) + 1" "j \<noteq> i \<Longrightarrow> inode_at j st' = inode_at j st"
    using G F(2,3) by simp_all
  show "0 < inum_of i st'" "inum_of i st' < sb_ninodes (fs_sb st)" "di_type (read_dinode (inum_of i st') st) = 0"
    "\<forall>m. 0 < m \<and> m < inum_of i st' \<longrightarrow> di_type (read_dinode m st) \<noteq> 0"
    using n by (simp_all add: G(3) Suc_le_eq)
  show "read_dinode m st' = (if m = inum_of i st' then fresh_dinode ty else read_dinode m st)"
    by (simp add: on F(4) G(3))
  show "m < sb_ninodes (fs_sb st) \<Longrightarrow> file_bytes st' m = (if m = inum_of i st' then [] else file_bytes st m)"
    using F(5,6) by (simp add: G(3,10))
  show "ip_ref (inode_at i st') > 0" using icache_okD(1) [OF fs_okD(2) [OF F(1)] G(2)] G(7) by simp
qed

end
