(* ===== verification/Fs_Dirs.thy ===== *)
theory Fs_Dirs
  imports Fs_Trunc
begin

text \<open>
  Directories (\<open>namecmp\<close>, \<open>dirlookup\<close>, \<open>dirlink\<close> in \<open>fs.c\<close>): a directory is a list of entries
  of 16 bytes, its lookup the first entry in use with the name, its link an update of that list.
\<close>

section \<open>Names\<close>

text \<open>What a name buffer denotes: its first \<open>DIRSIZ\<close> bytes, up to a nul byte.\<close>

definition name_in :: "u8 list \<Rightarrow> u8 list" where
  "name_in s = takeWhile (\<lambda>c. c \<noteq> 0) (take DIRSIZ s)"

definition name_ok :: "u8 list \<Rightarrow> bool" where
  "name_ok s \<longleftrightarrow> 0 \<in> set s \<or> DIRSIZ \<le> length s"

lemma strncmp_buffers:
  assumes "p + n \<le> length mem \<or> (\<exists>k < n. p + k < length mem \<and> mem ! (p + k) = 0)" and "q + n \<le> length mem"
  shows "\<exists>v. strncmp (int p) (int q) n mem = Inr v \<and>
    (v = 0 \<longleftrightarrow> takeWhile (\<lambda>c. c \<noteq> 0) (slice p n mem) = takeWhile (\<lambda>c. c \<noteq> 0) (slice q n mem))"
  using assms
proof (induction n arbitrary: p q)
  case (Suc n)
  have pq: "p < length mem" "q < length mem" using Suc.prems by auto
  let ?a = "mem ! p" and ?b = "mem ! q"
  have s: "slice x (Suc n) mem = mem ! x # slice (Suc x) n mem" if "x < length mem" for x
    using that by (simp add: slice_def Cons_nth_drop_Suc [symmetric])
  have e: "strncmp (int p) (int q) (Suc n) mem =
      (if ?a \<noteq> 0 \<and> ?a = ?b then strncmp (int (Suc p)) (int (Suc q)) n mem else Inr (uint ?a - uint ?b))"
    using pq by (simp add: load_def in_range_def add.commute)
  show ?case
  proof (cases "?a \<noteq> 0 \<and> ?a = ?b")
    case True
    have "Suc p + n \<le> length mem \<or> (\<exists>k < n. Suc p + k < length mem \<and> mem ! (Suc p + k) = 0)"
    proof (cases "p + Suc n \<le> length mem")
      case False
      then obtain k where k: "k < Suc n" "p + k < length mem" "mem ! (p + k) = 0" using Suc.prems(1) by auto
      then show ?thesis using True by (cases k) auto
    qed simp
    then show ?thesis using Suc.IH [of "Suc p" "Suc q"] Suc.prems(2) True e s pq by simp
  next
    case False
    have "uint ?a - uint ?b = 0 \<longleftrightarrow> ?a = ?b" by (simp add: word_uint_eq_iff)
    moreover have "strncmp (int p) (int q) (Suc n) mem = Inr (uint ?a - uint ?b)"
      by (simp only: e if_not_P [OF False])
    moreover have "takeWhile (\<lambda>c. c \<noteq> 0) (slice p (Suc n) mem) = takeWhile (\<lambda>c. c \<noteq> 0) (slice q (Suc n) mem) \<longleftrightarrow> ?a = ?b"
      using False by (auto simp: s pq)
    ultimately show ?thesis by blast
  qed
qed simp

lemma name_in_append: "name_ok s \<Longrightarrow> takeWhile (\<lambda>c. c \<noteq> 0) (take DIRSIZ (s @ t)) = name_in s"
proof -
  assume ok: "name_ok s"
  show ?thesis
  proof (cases "DIRSIZ \<le> length s")
    case False
    with ok obtain x where "x \<in> set s" "\<not> x \<noteq> 0" by (auto simp: name_ok_def)
    then show ?thesis using False by (simp add: name_in_def takeWhile_append1)
  qed (simp add: name_in_def)
qed

text \<open>Comparing a name with the one in an entry.\<close>

lemma namecmp_ok:
  assumes "name_ok s" and "length t = DIRSIZ"
  shows "\<exists>v. namecmp s t = Inr v \<and> (v = 0 \<longleftrightarrow> name_in s = name_in t)"
proof -
  have "0 + DIRSIZ \<le> length (s @ t) \<or> (\<exists>k < DIRSIZ. 0 + k < length (s @ t) \<and> (s @ t) ! (0 + k) = 0)"
    using assms(2) by simp
  moreover have "length s + DIRSIZ \<le> length (s @ t)" using assms(2) by simp
  ultimately obtain v where v: "strncmp (int 0) (int (length s)) DIRSIZ (s @ t) = Inr v"
    "v = 0 \<longleftrightarrow> takeWhile (\<lambda>c. c \<noteq> 0) (slice 0 DIRSIZ (s @ t)) = takeWhile (\<lambda>c. c \<noteq> 0) (slice (length s) DIRSIZ (s @ t))"
    using strncmp_buffers [of 0 DIRSIZ "s @ t" "length s"] by blast
  have "takeWhile (\<lambda>c. c \<noteq> 0) (slice 0 DIRSIZ (s @ t)) = name_in s"
    using name_in_append [OF assms(1)] by (simp add: slice_def)
  moreover have "takeWhile (\<lambda>c. c \<noteq> 0) (slice (length s) DIRSIZ (s @ t)) = name_in t"
    by (simp add: slice_def name_in_def)
  ultimately show ?thesis using v by (simp add: namecmp_def)
qed

section \<open>Entries\<close>

definition entries :: "u8 list \<Rightarrow> u8 list list" where
  "entries bs = map (\<lambda>k. slice (16 * k) 16 bs) [0..<length bs div 16]"

text \<open>The index of the first entry in use with the name.\<close>

definition named :: "u8 list \<Rightarrow> u8 list \<Rightarrow> bool" where
  "named name de \<longleftrightarrow> de_inum de \<noteq> 0 \<and> name_in (de_name de) = name_in name"

fun entry_index :: "(u8 list \<Rightarrow> bool) \<Rightarrow> nat \<Rightarrow> u8 list list \<Rightarrow> nat option" where
  "entry_index P k [] = None"
| "entry_index P k (de # des) = (if P de then Some k else entry_index P (Suc k) des)"

lemma entry_index_Some:
  "entry_index P k des = Some i \<Longrightarrow> \<exists>j < length des. i = k + j \<and> P (des ! j) \<and> (\<forall>m < j. \<not> P (des ! m))"
proof (induction des arbitrary: k)
  case (Cons de des)
  show ?case
  proof (cases "P de")
    case True
    then show ?thesis using Cons.prems by (intro exI [of _ 0]) simp
  next
    case False
    then have "entry_index P (Suc k) des = Some i" using Cons.prems by simp
    from Cons.IH [OF this] obtain j where j: "j < length des" "i = Suc k + j" "P (des ! j)" "\<forall>m < j. \<not> P (des ! m)"
      by blast
    have "\<forall>m < Suc j. \<not> P ((de # des) ! m)" using j(4) False by (simp add: nth_Cons')
    then show ?thesis using j by (intro exI [of _ "Suc j"]) simp
  qed
qed simp

lemma entry_index_None: "entry_index P k des = None \<longleftrightarrow> (\<forall>de \<in> set des. \<not> P de)"
  by (induction des arbitrary: k) auto

lemma length_entries [simp]: "length (entries bs) = length bs div 16"
  by (simp add: entries_def)

lemma drop_entries:
  "k < length bs div 16 \<Longrightarrow> drop k (entries bs) = slice (16 * k) 16 bs # drop (Suc k) (entries bs)"
  by (simp add: entries_def Cons_nth_drop_Suc [symmetric] del: drop_map)

lemma entry_length: "16 * k + 16 \<le> length bs \<Longrightarrow> length (slice (16 * k) 16 bs) = 16"
  by simp

lemma length_de_name: "length de = 16 \<Longrightarrow> length (de_name de) = DIRSIZ"
  by (simp add: de_name_def DIRSIZ_def)

text \<open>A locked directory.\<close>

definition directory :: "nat \<Rightarrow> fs \<Rightarrow> bool" where
  "directory dp st \<longleftrightarrow> fs_ok st \<and> loaded dp st \<and> ip_type (inode_at dp st) = T_DIR \<and> own_size dp st mod 16 = 0"

abbreviation dir_entries :: "nat \<Rightarrow> fs \<Rightarrow> u8 list list" where
  "dir_entries dp st \<equiv> entries (file_bytes st (inum_of dp st))"

lemma mod_16_step: "a mod 16 = 0 \<Longrightarrow> b mod 16 = 0 \<Longrightarrow> (a::nat) < b \<Longrightarrow> a + 16 \<le> b"
  by presburger

lemma readi_entry:
  assumes d: "directory dp st" and off: "off < own_size dp st" "off mod 16 = 0"
  shows "readi dv dp (of_nat off) 16 st = Inr (16, slice off 16 (file_bytes st (inum_of dp st)), st)"
proof -
  let ?sz = "ip_size (inode_at dp st)"
  have ok: "fs_ok st" and l: "loaded dp st" and ty: "ip_type (inode_at dp st) \<noteq> T_DEV"
    using d by (auto simp: directory_def T_DIR_def T_DEV_def)
  note LV = loaded_view [OF ok l]
  have max: "own_size dp st \<le> 71680" using LV(5) by (simp add: no_holes_def max_file_size)
  have le: "off + 16 \<le> own_size dp st"
    using off d by (intro mod_16_step) (simp_all add: directory_def)
  have uo: "unat (of_nat off :: u32) = off" using off max by (intro unat_of_nat_u32) simp
  have u16: "unat (of_nat off + 16 :: u32) = off + 16"
    using le max uo by (subst unat_add_lem [THEN iffD1]) auto
  have 1: "(of_nat off :: u32) \<le> ?sz" using off uo by (simp add: word_le_nat_alt)
  have 2: "\<not> (of_nat off + 16 :: u32) < of_nat off" by (simp add: word_less_nat_alt u16 uo)
  have "(16::u32) \<le> ?sz - of_nat off"
    using le by (simp add: word_le_nat_alt unat_sub [OF 1] uo)
  then have m: "min (16::u32) (?sz - of_nat off) = 16" by (simp add: min_def)
  have "no_holes (slots_in dp st) (inum_of dp st) (own_size dp st)" using LV(5) by (simp add: LV(1))
  from readi_file [OF LV(2) this ty 1 2, of dv] show ?thesis
    by (simp add: m uo contents_file_bytes [OF ok l])
qed

lemma length_dir_bytes: "directory dp st \<Longrightarrow> length (file_bytes st (inum_of dp st)) = own_size dp st"
  using loaded_view(4) by (auto simp: directory_def)

section \<open>Looking up and linking\<close>

lemma dirlookup_from_ok:
  assumes d: "directory dp st" and n: "name_ok name" and k: "k \<le> own_size dp st div 16"
  shows "dirlookup_from dv dp name (own_size dp st) (16 * k) st =
    (case entry_index (named name) k (drop k (dir_entries dp st)) of
       None \<Rightarrow> Inr (None, st)
     | Some j \<Rightarrow> bindR (iget (ip_dev (inode_at dp st)) (de_inum (dir_entries dp st ! j)) st) (\<lambda>(ip, st). Inr (Some (ip, 16 * j), st)))"
  using k
proof (induction "own_size dp st div 16 - k" arbitrary: k)
  case 0
  then have "k = own_size dp st div 16" by simp
  then have "16 * k = own_size dp st" using d by (auto simp: directory_def)
  then show ?case using 0 length_dir_bytes [OF d] by (simp add: dirlookup_from.simps)
next
  case (Suc x)
  let ?bs = "file_bytes st (inum_of dp st)" and ?de = "slice (16 * k) 16 (file_bytes st (inum_of dp st))"
  have lt: "k < own_size dp st div 16" using Suc.hyps(2) by simp
  then have off: "16 * k < own_size dp st" by auto
  have len: "length ?bs = own_size dp st" by (rule length_dir_bytes [OF d])
  have dr: "drop k (dir_entries dp st) = ?de # drop (Suc k) (dir_entries dp st)"
    by (rule drop_entries) (unfold len, rule lt)
  have nth: "dir_entries dp st ! k = ?de"
    unfolding entries_def len using lt by simp
  have rd: "readi dv dp (of_nat (16 * k)) 16 st = Inr (16, ?de, st)" by (rule readi_entry [OF d off]) simp
  have dl: "length (de_name ?de) = DIRSIZ"
    by (rule length_de_name, rule entry_length, unfold len) (use lt in simp)
  obtain v where v: "namecmp name (de_name ?de) = Inr v" "v = 0 \<longleftrightarrow> name_in name = name_in (de_name ?de)"
    using namecmp_ok [OF n dl] by blast
  have rec: "dirlookup_from dv dp name (own_size dp st) (16 * k + 16) st = (case entry_index (named name) (Suc k) (drop (Suc k) (dir_entries dp st)) of
       None \<Rightarrow> Inr (None, st)
     | Some j \<Rightarrow> bindR (iget (ip_dev (inode_at dp st)) (de_inum (dir_entries dp st ! j)) st) (\<lambda>(ip, st). Inr (Some (ip, 16 * j), st)))"
    using Suc.hyps(1) [of "Suc k"] Suc.hyps(2) lt by (simp add: add.commute)
  show ?case
    using off rd v rec by (subst dirlookup_from.simps) (auto simp: dr named_def nth)
qed

lemma dirlookup_ok:
  assumes "directory dp st" and "name_ok name"
  shows "dirlookup dv dp name st =
    (case entry_index (named name) 0 (dir_entries dp st) of
       None \<Rightarrow> Inr (None, st)
     | Some j \<Rightarrow> bindR (iget (ip_dev (inode_at dp st)) (de_inum (dir_entries dp st ! j)) st) (\<lambda>(ip, st). Inr (Some (ip, 16 * j), st)))"
  using dirlookup_from_ok [OF assms, of 0 dv] assms(1) by (simp add: dirlookup_def directory_def)

text \<open>The first unused entry, or the end.\<close>

definition unused_index :: "nat \<Rightarrow> fs \<Rightarrow> nat" where
  "unused_index dp st = (case entry_index (\<lambda>de. de_inum de = 0) 0 (dir_entries dp st) of
     Some j \<Rightarrow> j | None \<Rightarrow> own_size dp st div 16)"

lemma empty_dirent_from_ok:
  assumes d: "directory dp st" and k: "k \<le> own_size dp st div 16"
  shows "empty_dirent dv dp (own_size dp st) (16 * k) st =
    Inr (16 * (case entry_index (\<lambda>de. de_inum de = 0) k (drop k (dir_entries dp st)) of Some j \<Rightarrow> j | None \<Rightarrow> own_size dp st div 16), st)"
  using k
proof (induction "own_size dp st div 16 - k" arbitrary: k)
  case 0
  then have "k = own_size dp st div 16" by simp
  then have "16 * k = own_size dp st" using d by (auto simp: directory_def)
  then show ?case using 0 length_dir_bytes [OF d] by (simp add: empty_dirent.simps)
next
  case (Suc x)
  let ?bs = "file_bytes st (inum_of dp st)" and ?de = "slice (16 * k) 16 (file_bytes st (inum_of dp st))"
  have lt: "k < own_size dp st div 16" using Suc.hyps(2) by simp
  then have off: "16 * k < own_size dp st" by auto
  have len: "length ?bs = own_size dp st" by (rule length_dir_bytes [OF d])
  have dr: "drop k (dir_entries dp st) = ?de # drop (Suc k) (dir_entries dp st)"
    by (rule drop_entries) (unfold len, rule lt)
  have rd: "readi dv dp (of_nat (16 * k)) 16 st = Inr (16, ?de, st)" by (rule readi_entry [OF d off]) simp
  have rec: "empty_dirent dv dp (own_size dp st) (16 * k + 16) st =
      Inr (16 * (case entry_index (\<lambda>de. de_inum de = 0) (Suc k) (drop (Suc k) (dir_entries dp st)) of Some j \<Rightarrow> j | None \<Rightarrow> own_size dp st div 16), st)"
    using Suc.hyps(1) [of "Suc k"] Suc.hyps(2) lt by (simp add: add.commute)
  show ?case using off rd rec by (subst empty_dirent.simps) (auto simp: dr)
qed

lemma empty_dirent_ok:
  "directory dp st \<Longrightarrow> empty_dirent dv dp (own_size dp st) 0 st = Inr (16 * unused_index dp st, st)"
  using empty_dirent_from_ok [of dp st 0 dv] by (simp add: unused_index_def)

lemma unused_index_le: "directory dp st \<Longrightarrow> unused_index dp st \<le> own_size dp st div 16"
  using entry_index_Some [of "\<lambda>de. de_inum de = 0" 0 "dir_entries dp st"] length_dir_bytes [of dp st]
  by (fastforce simp: unused_index_def split: option.splits simp del: length_file_bytes)

text \<open>The entry that \<open>dirlink\<close> writes.\<close>

lemma takeWhile_take: "takeWhile P (take n xs) = take n (takeWhile P xs)"
  by (induction xs arbitrary: n) (auto simp: take_Cons split: nat.splits)

lemma length_dirent_bytes [simp]: "length (dirent_bytes n name) = 16"
  by (simp add: dirent_bytes_def name_buf_def DIRSIZ_def)

lemma de_inum_dirent: "n < 65536 \<Longrightarrow> de_inum (dirent_bytes n name) = n"
  by (simp add: de_inum_def dirent_bytes_def slice_append_left unat_of_nat take_bit_nat_eq_self_iff)

lemma de_name_dirent: "name_in (de_name (dirent_bytes n name)) = name_in name"
proof -
  let ?w = "takeWhile (\<lambda>c. c \<noteq> 0) name"
  have "de_name (dirent_bytes n name) = take DIRSIZ (?w @ replicate DIRSIZ 0)"
    by (simp add: de_name_def dirent_bytes_def slice_append_right name_buf_def)
  moreover have "takeWhile (\<lambda>c. c \<noteq> 0) (?w @ replicate DIRSIZ 0) = ?w"
    by (subst takeWhile_append2) (auto dest: set_takeWhileD simp: DIRSIZ_def numeral_eq_Suc)
  ultimately show ?thesis by (simp only: name_in_def take_take min.idem takeWhile_take)
qed

lemma slice_take: "p + n \<le> k \<Longrightarrow> slice p n (take k xs) = slice p n xs"
  by (simp add: slice_def drop_take min_absorb1)

lemma entries_blit:
  assumes "length bs mod 16 = 0" and "j \<le> length bs div 16" and "length de = 16"
  shows "entries (blit (16 * j) de bs) =
    (if j < length bs div 16 then (entries bs)[j := de] else entries bs @ [de])"
proof -
  have bs: "length bs = 16 * (length bs div 16)" using assms(1) by auto
  define m where "m = length bs div 16"
  have lb: "length bs = 16 * m" using bs by (simp add: m_def)
  have j: "j \<le> m" using assms(2) by (simp add: m_def)
  have len: "length (blit (16 * j) de bs) = 16 * (if j < m then m else m + 1)"
    using j assms(3) by (simp add: blit_def lb)
  have nth: "entries (blit (16 * j) de bs) ! k = (if k = j then de else entries bs ! k)"
    if k: "k < (if j < m then m else m + 1)" for k
  proof -
    have e: "entries (blit (16 * j) de bs) ! k = slice (16 * k) 16 (blit (16 * j) de bs)"
      using k unfolding entries_def len by simp
    consider "k = j" | "k < j" | "j < k" "k < m" using k j by (cases "j < m"; cases rule: linorder_cases [of k j]) auto
    then show ?thesis
    proof cases
      case 1
      then show ?thesis using assms(3) lb j unfolding e by (simp add: slice_def blit_def)
    next
      case 2
      then have "slice (16 * k) 16 (blit (16 * j) de bs) = slice (16 * k) 16 bs"
        unfolding blit_def using lb j by (subst slice_append_left) (auto simp: slice_take)
      then show ?thesis using 2 j unfolding e by (simp add: entries_def lb)
    next
      case 3
      then have "slice (16 * k) 16 (blit (16 * j) de bs) = slice (16 * k) 16 bs"
        using lb assms(3) by (intro slice_blit_disjoint) auto
      then show ?thesis using 3 unfolding e by (simp add: entries_def lb)
    qed
  qed
  show ?thesis
    by (rule nth_equalityI) (use len nth j in \<open>auto simp: m_def [symmetric] lb nth_list_update nth_append\<close>)
qed

lemma alloc_panic_not_found: "alloc_panic e \<Longrightarrow> e \<noteq> Panic ''dirlink''"
  by (auto simp: alloc_panic_def log_panic_def)

text \<open>A new name: the entry goes into the first unused one, or to the end.\<close>

lemma dirlink_ok:
  assumes d: "directory dp st" and nm: "name_ok name" and new: "\<forall>de \<in> set (dir_entries dp st). \<not> named name de"
    and room: "own_size dp st < MAXFILE * BSIZE" and l: "dirlink dv dp name inum st = Inr (r, st')"
  shows "r = 0" and "directory dp st'" and "inum_of dp st' = inum_of dp st" and "fs_sb st' = fs_sb st"
    and "dir_entries dp st' =
      (let j = unused_index dp st; de = dirent_bytes inum name in
       if j < length (dir_entries dp st) then (dir_entries dp st)[j := de] else dir_entries dp st @ [de])"
    and "m < sb_ninodes (fs_sb st) \<Longrightarrow> m \<noteq> inum_of dp st \<Longrightarrow> file_bytes st' m = file_bytes st m"
proof -
  let ?n = "inum_of dp st" and ?j = "unused_index dp st" and ?de = "dirent_bytes inum name"
  have ok: "fs_ok st" and ld: "loaded dp st" and ty: "ip_type (inode_at dp st) = T_DIR" and m16: "own_size dp st mod 16 = 0"
    using d by (auto simp: directory_def)
  have tv: "ip_type (inode_at dp st) \<noteq> T_DEV" by (simp add: ty T_DIR_def T_DEV_def)
  have j: "?j \<le> own_size dp st div 16" by (rule unused_index_le [OF d])
  have le: "16 * ?j + 16 \<le> MAXFILE * BSIZE"
    by (rule mod_16_step) (use j room in \<open>auto simp: max_file_size\<close>)
  have uj: "unat (of_nat (16 * ?j) :: u32) = 16 * ?j"
    using le by (intro unat_of_nat_u32) (simp add: max_file_size)
  obtain r' where w: "writei dv dp ?de (of_nat (16 * ?j)) st = Inr (r', st')" and r': "r' = 16" "r = 0"
    using l new dirlookup_ok [OF d nm, of dv] empty_dirent_ok [OF d, of dv]
    by (auto simp: dirlink_def res_simps entry_index_None [THEN iffD2] split: if_splits)
  have off: "(of_nat (16 * ?j) :: u32) \<le> ip_size (inode_at dp st)"
    using j m16 uj unfolding word_le_nat_alt by auto
  note W = writei_ok [OF ok ld tv off _ w, unfolded uj length_dirent_bytes, OF le]
  show "r = 0" by (rule r'(2))
  show "inum_of dp st' = ?n" "fs_sb st' = fs_sb st" by (fact W)+
  have len: "length (file_bytes st ?n) = own_size dp st" by (rule length_dir_bytes [OF d])
  have by': "file_bytes st' ?n = blit (16 * ?j) ?de (file_bytes st ?n)" by (rule W(6))
  have "length (file_bytes st' ?n) = unat (ip_size (inode_at dp st'))"
    using loaded_view(4) [OF W(2,3)] by (simp add: W(5))
  moreover have "length (blit (16 * ?j) ?de (file_bytes st ?n)) mod 16 = 0"
    unfolding blit_def using m16 j len by (simp del: length_file_bytes) presburger
  ultimately have "unat (ip_size (inode_at dp st')) mod 16 = 0" by (simp only: by')
  then show "directory dp st'" using W(2,3,9) ty by (simp add: directory_def)
  show "dir_entries dp st' = (let j = ?j; de = ?de in
       if j < length (dir_entries dp st) then (dir_entries dp st)[j := de] else dir_entries dp st @ [de])"
    using entries_blit [of "file_bytes st ?n" ?j ?de] m16 j
    unfolding W(5) by' len length_entries Let_def by simp
  show "m < sb_ninodes (fs_sb st) \<Longrightarrow> m \<noteq> ?n \<Longrightarrow> file_bytes st' m = file_bytes st m" by (rule W(7))
qed

end
