(* ===== verification/Fs_Props.thy ===== *)
theory Fs_Props
  imports Fs_Dirs
begin

text \<open>
  What the file system guarantees: a write changes one file like an array, a read gives its bytes,
  the last reference to an unlinked file frees its blocks, a linked name is found again, and the
  invariant of blocks, inodes and references holds after every operation.
\<close>

section \<open>An example\<close>

text \<open>Eight blocks: inodes in block 2, the bitmap in block 3, data from block 4; inode 1 is an empty file.\<close>

definition ex_sb :: superblock where
  "ex_sb = \<lparr>sb_size = 8, sb_nblocks = 4, sb_ninodes = 2, sb_nlog = 31, sb_logstart = 100, sb_inodestart = 2, sb_bmapstart = 3\<rparr>"

definition ex_dinode :: "u16 \<Rightarrow> dinode" where
  "ex_dinode ty = \<lparr>di_type = ty, di_major = 0, di_minor = 0, di_nlink = 1, di_size = 0, di_addrs = replicate 13 0\<rparr>"

definition ex_fs_disk :: "u16 \<Rightarrow> disk" where
  "ex_fs_disk ty = (\<lambda>_. replicate BSIZE 0)
     (2 := blit 64 (dinode_bytes (ex_dinode ty)) (replicate BSIZE 0), 3 := 15 # replicate 511 0)"

definition ex_inode :: "u16 \<Rightarrow> inode" where
  "ex_inode ty = \<lparr>ip_dev = 1, ip_inum = 1, ip_ref = 1, ip_valid = True, ip_type = ty, ip_major = 0, ip_minor = 0,
     ip_nlink = 1, ip_size = 0, ip_addrs = replicate 13 0\<rparr>"

definition ex_fs :: "u16 \<Rightarrow> fs" where
  "ex_fs ty = \<lparr>fs_log = \<lparr>lg_disk = ex_fs_disk ty, lg_cache = (\<lambda>_. None), lg_writes = [], lg_start = 100, lg_size = 31,
     lg_outstanding = 1, lg_committing = False, lg_lh = []\<rparr>, fs_sb = ex_sb, fs_icache = [ex_inode ty]\<rparr>"

lemma dinode_of_zero: "dinode_of (replicate 64 0) = \<lparr>di_type = 0, di_major = 0, di_minor = 0, di_nlink = 0,
    di_size = 0, di_addrs = replicate 13 0\<rparr>"
proof -
  have z: "slice p 4 (replicate 64 0) = replicate 4 (0::u8)" if "p \<le> 60" for p using that by (simp add: slice_def)
  have "map (\<lambda>i. u32_of_bytes (slice (12 + 4 * i) 4 (replicate 64 0))) [0..<NDIRECT + 1] = replicate 13 0"
    by (rule nth_equalityI) (auto simp: NDIRECT_def z u32_of_bytes_def nth_replicate nth_append)
  moreover have "slice p 2 (replicate 64 0) = replicate 2 (0::u8)" if "p \<le> 62" for p using that by (simp add: slice_def)
  ultimately show ?thesis
    by (simp add: dinode_of_def z u32_of_bytes_def u16_of_bytes_def nth_replicate)
qed

lemma ex_dinode_len: "length (dinode_bytes (ex_dinode ty)) = 64"
  by (rule length_dinode_bytes) (simp add: ex_dinode_def NDIRECT_def)

lemma ex_fs_sel [simp]:
  "fs_sb (ex_fs ty) = ex_sb" "fs_icache (ex_fs ty) = [ex_inode ty]" "blocks (ex_fs ty) = ex_fs_disk ty"
  by (simp_all add: ex_fs_def bread_def fun_eq_iff)

lemma ex_read: "read_dinode n (ex_fs ty) = (if n = 1 then ex_dinode ty else
    \<lparr>di_type = 0, di_major = 0, di_minor = 0, di_nlink = 0, di_size = 0, di_addrs = replicate 13 0\<rparr>)" if "n < 2"
proof -
  have b: "blocks (ex_fs ty) (IBLOCK n ex_sb) = blit 64 (dinode_bytes (ex_dinode ty)) (replicate BSIZE 0)"
    using that by (simp add: IBLOCK_def IPB_val ex_sb_def ex_fs_disk_def)
  show ?thesis
  proof (cases "n = 1")
    case True
    have "slice 64 64 (blit 64 (dinode_bytes (ex_dinode ty)) (replicate BSIZE 0)) = dinode_bytes (ex_dinode ty)"
      by (rule slice_blit_same) (simp_all add: ex_dinode_len BSIZE_def)
    then show ?thesis using True b
      by (simp add: read_dinode_def IPB_val) (rule dinode_of_bytes, simp add: ex_dinode_def NDIRECT_def)
  next
    case False
    have "slice 0 64 (blit 64 (dinode_bytes (ex_dinode ty)) (replicate BSIZE 0)) = slice 0 64 (replicate BSIZE 0)"
      by (rule slice_blit_disjoint) (simp_all add: ex_dinode_len BSIZE_def)
    also have "\<dots> = replicate 64 0" by (simp add: slice_def BSIZE_def)
    finally have "slice 0 64 (blit 64 (dinode_bytes (ex_dinode ty)) (replicate BSIZE 0)) = replicate 64 0" .
    moreover have "n = 0" using False that by simp
    ultimately show ?thesis using b by (simp add: read_dinode_def IPB_val dinode_of_zero)
  qed
qed

lemma ex_addrs: "n < 2 \<Longrightarrow> di_addrs (read_dinode n (ex_fs ty)) = replicate (NDIRECT + 1) 0"
  by (simp only: ex_read) (simp add: ex_dinode_def NDIRECT_def)

lemma ex_slots: "n < 2 \<Longrightarrow> disk_slots (ex_fs ty) n p = 0"
  by (simp only: slots_of_def ex_addrs slot_no_addrs)

lemma ex_blocks_ok: "blocks_ok ex_sb (ex_fs_disk ty)"
proof -
  have "bit_of ex_sb (ex_fs_disk ty) b" if "b < 4" for b
  proof -
    have "b = 0 \<or> b = 1 \<or> b = 2 \<or> b = 3" using that by auto
    moreover have "BBLOCK b ex_sb = 3" "b mod BPB = b" using that by (auto simp: BBLOCK_def BPB_def BSIZE_def ex_sb_def)
    ultimately show ?thesis by (auto simp: bit_of_def bit_set_def ex_fs_disk_def)
  qed
  moreover have "length (ex_fs_disk ty b) = BSIZE" for b
    by (auto simp: ex_fs_disk_def BSIZE_def ex_dinode_len)
  ultimately show ?thesis
    by (simp add: blocks_ok_def geometry_def ex_sb_def IPB_val data_start_def BPB_def BSIZE_def)
qed

lemma ex_fs_ok: "fs_ok (ex_fs ty)"
proof -
  have s: "slots_ok ex_sb (ex_fs_disk ty) (disk_slots (ex_fs ty))"
    using ex_slots by (auto simp: slots_ok_def ex_sb_def simp del: ex_fs_sel)
  then have "data_ok (on_disk (ex_fs ty)) (ex_fs ty)"
    using ex_blocks_ok ex_addrs by (auto simp: data_ok_def ex_sb_def)
  moreover have "icache_ok (ex_fs ty)"
    using ex_read [of 1 ty]
    by (auto simp: icache_ok_def ex_inode_def ex_sb_def dinode_of_inode_def ex_dinode_def ROOTDEV_def)
  moreover have "no_holes (disk_slots (ex_fs ty)) n (unat (di_size (read_dinode n (ex_fs ty))))" if "n < 2" for n
    using ex_read [OF that, of ty] by (auto simp: no_holes_def ex_dinode_def)
  ultimately show ?thesis by (simp add: fs_ok_def ex_sb_def)
qed

lemma ex_loaded: "loaded 0 (ex_fs ty)"
  by (simp add: loaded_def ex_inode_def)

lemma ex_bytes: "n < 2 \<Longrightarrow> file_bytes (ex_fs ty) n = []"
  using ex_read [of n ty] by (simp add: file_bytes_def ex_dinode_def)

section \<open>Reading and writing\<close>

lemma sint_small: "unat x < 2147483648 \<Longrightarrow> sint (x :: u32) = int (unat x)"
proof -
  assume a: "unat x < 2147483648"
  have u: "uint x = int (unat x)" by simp
  have "- 2147483648 \<le> uint x" "uint x < 2147483648" unfolding u using a by linarith+
  from sint_word_of_int_fits [OF this] show ?thesis unfolding u [symmetric] by (simp only: word_of_int_uint)
qed



text \<open>C24: \<open>readi\<close> returns the bytes of the file from the offset on, as many as are asked for and
  there, with their number, and changes nothing; an offset past the end, or one whose end wraps
  around, gives -1.\<close>

theorem readi_reads_file:
  assumes ok: "fs_ok st" and l: "loaded i st" and ty: "ip_type (inode_at i st) \<noteq> T_DEV"
  shows "readi dv i off n st =
    (if off > ip_size (inode_at i st) \<or> off + n < off then Inr (-1, [], st)
     else let bs = slice (unat off) (unat n) (file_bytes st (inum_of i st)) in Inr (int (length bs), bs, st))"
proof (cases "off > ip_size (inode_at i st) \<or> off + n < off")
  case True
  then show ?thesis using ty by (auto simp: readi_def Let_def)
next
  case False
  note LV = loaded_view [OF ok l]
  let ?sz = "ip_size (inode_at i st)"
  have off: "off \<le> ?sz" and w: "\<not> off + n < off" using False by auto
  have h: "no_holes (slots_in i st) (inum_of i st) (own_size i st)" using LV(5) by (simp add: LV(1))
  have d: "unat (?sz - off) = own_size i st - unat off" by (rule unat_sub [OF off])
  have "own_size i st \<le> 71680" using LV(5) by (simp add: no_holes_def max_file_size)
  then have "unat (min n (?sz - off)) = min (unat n) (own_size i st - unat off)" "unat (min n (?sz - off)) < 2147483648"
    using d by (auto simp: min_def word_le_nat_alt)
  then have "sint (min n (?sz - off)) = int (min (unat n) (own_size i st - unat off))"
    by (simp add: sint_small)
  then show ?thesis
    using readi_file [OF LV(2) h ty off w, of dv] False by (auto simp: contents_file_bytes [OF ok l] Let_def LV(4))
qed

theorem readi_reads_file_witness:
  "readi \<lparr>dev_read = (\<lambda>_. None), dev_write = (\<lambda>_. None)\<rparr> 0 0 5 (ex_fs T_FILE) = Inr (0, [], ex_fs T_FILE)"
proof -
  have "ip_type (inode_at 0 (ex_fs T_FILE)) \<noteq> T_DEV" by (simp add: ex_inode_def T_FILE_def T_DEV_def)
  from readi_reads_file [OF ex_fs_ok ex_loaded this, where off = 0 and n = 5] show ?thesis
    by (simp add: ex_inode_def ex_bytes slice_def)
qed

section \<open>References and blocks\<close>



section \<open>Runs\<close>

text \<open>
  The steps of the code that uses this layer, inside transactions: it gets, duplicates, locks and
  puts references it holds, reads and writes loaded inodes, allocates inodes of a type, and
  changes the device numbers and the link count of a loaded inode and writes it back.
\<close>

inductive fs_step :: "devsw \<Rightarrow> fs \<Rightarrow> fs \<Rightarrow> bool" for dv :: devsw where
  step_get: "n < sb_ninodes (fs_sb st) \<Longrightarrow> iget ROOTDEV n st = Inr (i, st') \<Longrightarrow> fs_step dv st st'"
| step_dup: "i < length (fs_icache st) \<Longrightarrow> ip_ref (inode_at i st) > 0 \<Longrightarrow> fs_step dv st (snd (idup i st))"
| step_lock: "i < length (fs_icache st) \<Longrightarrow> ip_ref (inode_at i st) > 0 \<Longrightarrow> ilock i st = Inr st' \<Longrightarrow> fs_step dv st st'"
| step_put: "i < length (fs_icache st) \<Longrightarrow> ip_ref (inode_at i st) > 0 \<Longrightarrow> iput i st = Inr st' \<Longrightarrow> fs_step dv st st'"
| step_read: "loaded i st \<Longrightarrow> readi dv i off n st = Inr (r, bs, st') \<Longrightarrow> fs_step dv st st'"
| step_write: "loaded i st \<Longrightarrow> unat off + length src < 4294967296 \<Longrightarrow> writei dv i src off st = Inr (r, st') \<Longrightarrow> fs_step dv st st'"
| step_alloc: "ty \<noteq> 0 \<Longrightarrow> ialloc ROOTDEV ty st = Inr (i, st') \<Longrightarrow> fs_step dv st st'"
| step_meta: "loaded i st \<Longrightarrow> iupdate i (upd_inode i (\<lambda>ip. ip\<lparr>ip_major := a, ip_minor := b, ip_nlink := c\<rparr>) st) = Inr st'
    \<Longrightarrow> fs_step dv st st'"
| step_begin: "begin_op (fs_log st) = Some l \<Longrightarrow> fs_step dv st (st\<lparr>fs_log := l\<rparr>)"

lemma typedD: "typed st \<Longrightarrow> loaded i st \<Longrightarrow> ip_type (inode_at i st) \<noteq> 0"
  by (simp add: typed_def)

lemma typed_entry:
  assumes "typed st" and "length (fs_icache st') = length (fs_icache st)"
    and "\<And>j. j \<noteq> i \<Longrightarrow> inode_at j st' = inode_at j st"
    and "loaded i st' \<Longrightarrow> ip_type (inode_at i st') \<noteq> 0"
  shows "typed st'"
  unfolding typed_def
proof (intro allI impI)
  fix j assume l: "loaded j st'"
  show "ip_type (inode_at j st') \<noteq> 0"
    using assms l typedD [OF assms(1), of j] by (cases "j = i") (auto simp: loaded_def)
qed

lemma iget_typed: "typed st \<Longrightarrow> iget dev n st = Inr (i, st') \<Longrightarrow> typed st'"
proof -
  assume t: "typed st" and g: "iget dev n st = Inr (i, st')"
  obtain b r where s: "iget_scan dev n (fs_icache st) 0 None = (b, r)" by fastforce
  show "typed st'"
  proof (cases b)
    case True
    then obtain k where k: "k < length (fs_icache st)" "r = Some k" "ip_ref (inode_at k st) > 0"
      using iget_scan_True [of dev n "fs_icache st" 0 None r] s by auto
    then have st': "st' = upd_inode i (\<lambda>ip. ip\<lparr>ip_ref := ip_ref ip + 1\<rparr>) st" "i = k"
      using g True by (auto simp: iget_def s)
    show ?thesis
      by (rule typed_entry [OF t, where i = i])
        (use typedD [OF t, of i] k st' in \<open>auto simp: inode_at_upd loaded_def\<close>)
  next
    case False
    have st': "st' = upd_inode i (\<lambda>ip. ip\<lparr>ip_dev := dev, ip_inum := n, ip_ref := 1, ip_valid := False\<rparr>) st"
      using g False by (cases r) (auto simp: iget_def s)
    show ?thesis
      by (rule typed_entry [OF t, where i = i]) (auto simp: st' upd_inode_def loaded_def)
  qed
qed

lemma ilock_typed: "typed st \<Longrightarrow> i < length (fs_icache st) \<Longrightarrow> ilock i st = Inr st' \<Longrightarrow> typed st'"
proof -
  assume t: "typed st" and i: "i < length (fs_icache st)" and g: "ilock i st = Inr st'"
  show "typed st'"
  proof (cases "ip_valid (inode_at i st)")
    case True
    then show ?thesis using t g by (simp add: ilock_def split: if_splits)
  next
    case False
    then obtain f where st': "st' = upd_inode i f st" and ty: "ip_type (inode_at i (upd_inode i f st)) \<noteq> 0"
      using g by (auto simp: ilock_def Let_def split: if_splits)
    show ?thesis
      by (rule typed_entry [OF t, where i = i]) (use ty i in \<open>auto simp: st' upd_inode_def\<close>)
  qed
qed

lemma iput_typed:
  assumes ok: "fs_ok st" and ty: "typed st" and i: "i < length (fs_icache st)" "ip_ref (inode_at i st) > 0"
    and p: "iput i st = Inr st'"
  shows "typed st'"
proof (rule typed_entry [OF ty iput_ok(3) [OF ok i p]])
  show "inode_at j st' = inode_at j st" if "j \<noteq> i" for j by (rule iput_ok(5) [OF ok i p that])
  assume l: "loaded i st'"
  then have "ip_ref (inode_at i st) > 1" using iput_ok(4) [OF ok i p] by (simp add: loaded_def)
  then have "st' = upd_inode i (\<lambda>ip. ip\<lparr>ip_ref := ip_ref ip - 1\<rparr>) st"
    using p by (simp add: iput_eq last_ref_def)
  then show "ip_type (inode_at i st') \<noteq> 0"
    using l i typedD [OF ty, of i] by (auto simp: loaded_def inode_at_upd)
qed

lemma readi_keeps:
  assumes ok: "fs_ok st" and l: "loaded i st" and r: "readi dv i off n st = Inr (r, bs, st')"
  shows "st' = st"
proof (cases "ip_type (inode_at i st) = T_DEV")
  case True
  then show ?thesis using r by (auto simp: readi_def Let_def split: option.splits prod.splits)
next
  case False
  have h: "no_holes (slots_in i st) (inum_of i st) (own_size i st)"
    using loaded_view(5) [OF ok l] by (simp add: loaded_view(1) [OF ok l])
  show ?thesis
  proof (cases "off > ip_size (inode_at i st) \<or> off + n < off")
    case True
    then show ?thesis using r False by (auto simp: readi_def Let_def)
  next
    case in_range: False
    then show ?thesis
      using r readi_file [OF loaded_view(2) [OF ok l] h False, of off n dv] by auto
  qed
qed

lemma writei_keeps:
  assumes ok: "fs_ok st" and ty: "typed st" and l: "loaded i st" and fits: "unat off + length src < 4294967296"
    and w: "writei dv i src off st = Inr (r, st')"
  shows "fs_ok st' \<and> typed st'"
proof (cases "ip_type (inode_at i st) = T_DEV")
  case True
  then have "st' = st" using w by (auto simp: writei_def Let_def split: option.splits)
  then show ?thesis using ok ty by simp
next
  case False
  show ?thesis
  proof (cases "off \<le> ip_size (inode_at i st) \<and> unat off + length src \<le> MAXFILE * BSIZE")
    case True
    note W = writei_ok [OF ok l False True [THEN conjunct1] True [THEN conjunct2] w]
    have "typed st'"
    proof (rule typed_entry [OF ty W(10)])
      show "inode_at j st' = inode_at j st" if "j \<noteq> i" for j by (rule W(8) [OF that])
    qed (use W(9) typedD [OF ty l] in simp)
    then show ?thesis using W(2) by simp
  next
    case refused: False
    then have "st' = st" using writei_refused [OF False fits refused, of dv] w by simp
    then show ?thesis using ok ty by simp
  qed
qed

lemma ialloc_typed:
  assumes ok: "fs_ok st" and ty: "typed st" and a: "ialloc ROOTDEV t st = Inr (i, st')"
  shows "typed st'"
proof -
  obtain n where b: "bindR (write_dinode n (fresh_dinode t) st) (\<lambda>st. iget ROOTDEV n st) = Inr (i, st')"
    using ialloc_from_cases [OF a [unfolded ialloc_def]] by (elim disjE conjE exE) simp_all
  obtain st1 where w: "write_dinode n (fresh_dinode t) st = Inr st1" and g: "iget ROOTDEV n st1 = Inr (i, st')"
    by (rule bindR_InrE [OF b])
  have "fs_icache st1 = fs_icache st" using log_blockD [OF w [unfolded write_dinode_def Let_def]] by simp
  then have "typed st1" using ty by (simp add: typed_def loaded_def)
  then show ?thesis using g by (rule iget_typed)
qed

text \<open>The invariant depends on the blocks, not on how the log keeps them.\<close>

lemma fs_ok_view:
  assumes ok: "fs_ok st" and eq: "fs_sb st' = fs_sb st" "fs_icache st' = fs_icache st" "blocks st' = blocks st"
  shows "fs_ok st'"
proof -
  have "read_dinode m st' = read_dinode m st" for m by (simp add: read_dinode_def eq)
  then show ?thesis using ok by (simp add: fs_ok_def data_ok_def icache_ok_def eq)
qed


lemma ex_typed: "typed (ex_fs T_FILE)"
  by (auto simp: typed_def loaded_def ex_inode_def T_FILE_def)


section \<open>Directories\<close>

lemma entry_index_upd:
  "j < length des \<Longrightarrow> P (des ! j) = P x \<Longrightarrow> entry_index P k (des[j := x]) = entry_index P k des"
proof (induction des arbitrary: j k)
  case (Cons de des)
  then show ?case by (cases j) auto
qed simp

lemma entry_index_new:
  "\<forall>de \<in> set des. \<not> P de \<Longrightarrow> P x \<Longrightarrow> j < length des \<Longrightarrow> entry_index P k (des[j := x]) = Some (k + j)"
proof (induction des arbitrary: j k)
  case (Cons de des)
  then show ?case by (cases j) auto
qed simp

lemma entry_index_snoc:
  "entry_index P k (des @ [x]) =
     (case entry_index P k des of Some i \<Rightarrow> Some i | None \<Rightarrow> if P x then Some (k + length des) else None)"
  by (induction des arbitrary: k) (auto split: option.split)

lemma unused_entry:
  assumes "unused_index dp st < length (dir_entries dp st)" and "directory dp st"
  shows "de_inum (dir_entries dp st ! unused_index dp st) = 0"
proof -
  have "length (dir_entries dp st) = own_size dp st div 16"
    using length_dir_bytes [OF assms(2)] by (simp only: length_entries)
  then obtain j where "entry_index (\<lambda>de. de_inum de = 0) 0 (dir_entries dp st) = Some j" "unused_index dp st = j"
    using assms(1) by (auto simp: unused_index_def simp del: length_entries split: option.splits)
  then show ?thesis using entry_index_Some [of "\<lambda>de. de_inum de = 0" 0 "dir_entries dp st" j] by auto
qed

lemma unused_index_entries: "directory dp st \<Longrightarrow> unused_index dp st \<le> length (dir_entries dp st)"
  using unused_index_le [of dp st] length_dir_bytes [of dp st] by (simp only: length_entries)

lemma dirlink_error:
  assumes d: "directory dp st" and nm: "name_ok name" and new: "\<forall>de \<in> set (dir_entries dp st). \<not> named name de"
    and room: "own_size dp st < MAXFILE * BSIZE" and l: "dirlink dv dp name inum st = Inl e"
  shows "alloc_panic e"
proof -
  let ?j = "unused_index dp st" and ?de = "dirent_bytes inum name"
  have ok: "fs_ok st" and ld: "loaded dp st" and ty: "ip_type (inode_at dp st) \<noteq> T_DEV" and m16: "own_size dp st mod 16 = 0"
    using d by (auto simp: directory_def T_DIR_def T_DEV_def)
  have j: "?j \<le> own_size dp st div 16" by (rule unused_index_le [OF d])
  have le: "16 * ?j + 16 \<le> MAXFILE * BSIZE"
    by (rule mod_16_step) (use j room in \<open>auto simp: max_file_size\<close>)
  have uj: "unat (of_nat (16 * ?j) :: u32) = 16 * ?j"
    using le by (intro unat_of_nat_u32) (simp add: max_file_size)
  have off: "(of_nat (16 * ?j) :: u32) \<le> ip_size (inode_at dp st)"
    using j m16 uj unfolding word_le_nat_alt by auto
  have fits: "unat (of_nat (16 * ?j) :: u32) + length ?de \<le> MAXFILE * BSIZE" using le by (simp only: uj length_dirent_bytes)
  have "r = 16" if "writei dv dp ?de (of_nat (16 * ?j)) st = Inr (r, st')" for r st'
    using writei_ok(1) [OF ok ld ty off fits that] by simp
  then show ?thesis
    using l new dirlookup_ok [OF d nm, of dv] empty_dirent_ok [OF d, of dv] writei_error [OF _ fits, of dv dp st e]
    by (auto simp: dirlink_def res_simps entry_index_None [THEN iffD2] split: if_splits)
qed

text \<open>C23: A name that \<open>dirlink\<close> has entered is found: in a locked directory that does not hold the
  name and is not as large as a file can be, linking it to an inode makes \<open>dirlookup\<close> of the same
  name (up to 14 bytes) get this inode, at the place of the first unused entry; what any other
  name finds and the bytes of all other files stay as they were.\<close>

theorem dirlink_then_dirlookup:
  assumes d: "directory dp st" and nm: "name_ok name" and new: "\<forall>de \<in> set (dir_entries dp st). \<not> named name de"
    and room: "own_size dp st < MAXFILE * BSIZE" and inum: "0 < inum" "inum < 65536"
  shows "case dirlink dv dp name inum st of
      Inl e \<Rightarrow> alloc_panic e
    | Inr (r, st') \<Rightarrow> r = 0 \<and> directory dp st'
        \<and> (\<forall>nm'. name_ok nm' \<and> name_in nm' = name_in name \<longrightarrow> dirlookup dv dp nm' st' =
             bindR (iget (ip_dev (inode_at dp st')) inum st') (\<lambda>(ip, s). Inr (Some (ip, 16 * unused_index dp st), s)))
        \<and> (\<forall>nm'. name_in nm' \<noteq> name_in name \<longrightarrow>
             entry_index (named nm') 0 (dir_entries dp st') = entry_index (named nm') 0 (dir_entries dp st))
        \<and> (\<forall>m < sb_ninodes (fs_sb st). m \<noteq> inum_of dp st \<longrightarrow> file_bytes st' m = file_bytes st m)"
proof (cases "dirlink dv dp name inum st")
  case (Inl e)
  then show ?thesis using dirlink_error [OF d nm new room Inl] by simp
next
  case (Inr x)
  obtain r st' where x: "x = (r, st')" by (cases x)
  note D = dirlink_ok [OF d nm new room Inr [unfolded x]]
  let ?j = "unused_index dp st" and ?de = "dirent_bytes inum name"
  have nd: "named nm' ?de \<longleftrightarrow> name_in nm' = name_in name" for nm'
    using inum by (auto simp: named_def de_inum_dirent de_name_dirent)
  have new': "\<forall>de \<in> set (dir_entries dp st). \<not> named nm' de" if "name_in nm' = name_in name" for nm'
    using new that by (simp add: named_def)
  have found: "entry_index (named nm') 0 (dir_entries dp st') = Some ?j \<and> dir_entries dp st' ! ?j = ?de"
    if "name_in nm' = name_in name" for nm'
  proof (cases "?j < length (dir_entries dp st)")
    case True
    then show ?thesis using entry_index_new [OF new' [OF that], of ?de ?j 0] nd that by (simp add: D(5) Let_def)
  next
    case False
    then have "?j = length (dir_entries dp st)" using unused_index_entries [OF d] by simp
    then show ?thesis using new' [OF that] nd that False
      by (simp add: D(5) Let_def entry_index_snoc entry_index_None [THEN iffD2] nth_append del: length_entries)
  qed
  have other: "entry_index (named nm') 0 (dir_entries dp st') = entry_index (named nm') 0 (dir_entries dp st)"
    if "name_in nm' \<noteq> name_in name" for nm'
  proof (cases "?j < length (dir_entries dp st)")
    case True
    have "\<not> named nm' (dir_entries dp st ! ?j)" using unused_entry [OF True d] by (simp add: named_def)
    then show ?thesis using entry_index_upd [OF True, of "named nm'" ?de 0] nd that True by (simp add: D(5) Let_def)
  next
    case False
    then show ?thesis using nd that by (simp add: D(5) Let_def entry_index_snoc split: option.split)
  qed
  have "dirlookup dv dp nm' st' =
      bindR (iget (ip_dev (inode_at dp st')) inum st') (\<lambda>(ip, s). Inr (Some (ip, 16 * ?j), s))"
    if "name_ok nm'" "name_in nm' = name_in name" for nm'
    using dirlookup_ok [OF D(2) that(1), of dv] found [OF that(2)] inum by (simp add: de_inum_dirent)
  then show ?thesis using D(1,2,6) other by (simp add: Inr x)
qed

lemma ex_directory: "directory 0 (ex_fs T_DIR)"
  using ex_fs_ok ex_loaded by (simp add: directory_def ex_inode_def)

theorem dirlink_then_dirlookup_witness:
  "case dirlink \<lparr>dev_read = (\<lambda>_. None), dev_write = (\<lambda>_. None)\<rparr> 0 [97, 0] 1 (ex_fs T_DIR) of
      Inl e \<Rightarrow> alloc_panic e
    | Inr (r, st') \<Rightarrow> r = 0 \<and> directory 0 st'"
proof -
  have "name_ok [97, 0]" "\<forall>de \<in> set (dir_entries 0 (ex_fs T_DIR)). \<not> named [97, 0] de"
    "own_size 0 (ex_fs T_DIR) < MAXFILE * BSIZE"
    by (simp_all add: name_ok_def ex_inode_def ex_bytes entries_def max_file_size)
  from dirlink_then_dirlookup [OF ex_directory this, where inum = 1
      and dv = "\<lparr>dev_read = (\<lambda>_. None), dev_write = (\<lambda>_. None)\<rparr>"]
  show ?thesis by (auto split: sum.splits)
qed

section \<open>Crashes\<close>

text \<open>The bytes of files depend only on the blocks from the first inode block on.\<close>

lemma file_bytes_above:
  assumes ok: "fs_ok st" and n: "n < sb_ninodes (fs_sb st)" and sb: "fs_sb st' = fs_sb st"
    and eq: "\<And>b. sb_inodestart (fs_sb st) \<le> b \<Longrightarrow> blocks st' b = blocks st b"
  shows "file_bytes st' n = file_bytes st n"
proof -
  let ?sb = "fs_sb st"
  note dk = data_okD [OF fs_okD(1) [OF ok]]
  have ge: "sb_inodestart ?sb \<le> b" if "data_start ?sb \<le> b" for b
    using that blocks_okD(1) [OF dk(1)] by (simp add: geometry_def data_start_def)
  have rd: "read_dinode n st' = read_dinode n st"
    by (rule read_dinode_cong [OF sb eq]) (simp add: IBLOCK_def)
  have data: "blocks st' (disk_slots st n p) = blocks st (disk_slots st n p)"
    if "p < NSLOT" "disk_slots st n p \<noteq> 0" for p
    by (rule eq [OF ge [OF slots_okD(1) [OF dk(2) n that]]])
  have slots: "disk_slots st' n p = disk_slots st n p" for p
    unfolding slots_of_def rd
    by (rule slot_cong) (use data [OF NDIRECT_less] in \<open>auto simp: slots_of_def slot_indirect unat_eq_0\<close>)
  have "unat (di_size (read_dinode n st)) \<le> MAXFILE * BSIZE"
    using fs_okD(3) [OF ok n] by (simp add: no_holes_def)
  then have "slot_no (x div BSIZE) < NSLOT" if "x < unat (di_size (read_dinode n st))" for x
    using that by (intro slot_no_less) (simp add: less_mult_imp_div_less)
  then show ?thesis
    unfolding file_bytes_def rd by (intro map_cong refl) (simp add: file_byte_def slots data Let_def)
qed

text \<open>C2: A transaction on files is atomic across a crash.  Let \<open>st0\<close> be the file system as it is on
  the disk before a transaction and \<open>st\<close> as the operations of the transaction left it, both with
  the invariant.  If the machine stops after any number \<open>k\<close> of the disk writes of the commit, the
  file system that the recovery of the next boot gives has, for all files at once, either the bytes
  from before the transaction or those from after it.\<close>

theorem files_crash_atomic:
  assumes old: "fs_ok st0" and new: "fs_ok st" and sb: "fs_sb st0 = fs_sb st"
    and log: "log_ok (fs_log st)" and area: "lg_start (fs_log st) + lg_size (fs_log st) \<le> sb_inodestart (fs_sb st)"
    and disk: "\<forall>b. sb_inodestart (fs_sb st) \<le> b \<longrightarrow> blocks st0 b = lg_disk (fs_log st) b"
    and ws: "lg_writes (commit (fs_log st)) = lg_writes (fs_log st) @ ws" and k: "k \<le> length ws"
  shows "\<exists>l. initlog (lg_start (fs_log st)) (lg_size (fs_log st))
        (apply_writes (take k ws) (lg_disk (fs_log st))) = Inr l
    \<and> (\<forall>n < sb_ninodes (fs_sb st). file_bytes (st\<lparr>fs_log := l\<rparr>) n =
         file_bytes (if k \<le> length (lg_lh (fs_log st)) then st0 else st) n)"
proof -
  let ?L = "fs_log st" and ?old = "k \<le> length (lg_lh (fs_log st))"
  have w: "ws = commit_writes ?L" using commit_writes_eq [OF log] ws by simp
  obtain l where l: "initlog (lg_start ?L) (lg_size ?L) (apply_writes (take k ws) (lg_disk ?L)) = Inr l"
    and h: "\<forall>b. home (lg_start ?L) (lg_size ?L) b \<longrightarrow> lg_disk l b = (if ?old then lg_disk ?L b else bread ?L b)"
    using crash_in_commit [OF log k [unfolded w]] unfolding w by blast
  have b: "bread l b = (if ?old then blocks st0 b else blocks st b)" if "sb_inodestart (fs_sb st) \<le> b" for b
  proof -
    have "home (lg_start ?L) (lg_size ?L) b" using that area by (simp add: home_def)
    then show ?thesis using h disk that initlog_cache [OF l] by (simp add: bread_def)
  qed
  have "file_bytes (st\<lparr>fs_log := l\<rparr>) n = file_bytes (if ?old then st0 else st) n" if n: "n < sb_ninodes (fs_sb st)" for n
  proof (cases ?old)
    case True
    have "file_bytes (st\<lparr>fs_log := l\<rparr>) n = file_bytes st0 n"
      by (rule file_bytes_above [OF old]) (use n b True in \<open>simp_all add: sb\<close>)
    then show ?thesis using True by simp
  next
    case False
    have "file_bytes (st\<lparr>fs_log := l\<rparr>) n = file_bytes st n"
      by (rule file_bytes_above [OF new n]) (use b False in simp_all)
    then show ?thesis using False by simp
  qed
  then show ?thesis using l by blast
qed

text \<open>The example with its log in blocks 0 and 1 and a transaction on block 5.\<close>

definition ex_tx :: fs where
  "ex_tx = (ex_fs T_FILE)\<lparr>fs_log := (fs_log (ex_fs T_FILE))\<lparr>lg_start := 0, lg_size := 2, lg_lh := [5],
     lg_cache := [5 \<mapsto> replicate BSIZE 0]\<rparr>\<rparr>"

lemma ex_tx_log:
  "fs_log ex_tx = \<lparr>lg_disk = ex_fs_disk T_FILE, lg_cache = [5 \<mapsto> replicate BSIZE 0], lg_writes = [], lg_start = 0,
     lg_size = 2, lg_outstanding = 1, lg_committing = False, lg_lh = [5]\<rparr>"
  by (simp add: ex_tx_def ex_fs_def)

lemma ex_tx_blocks: "blocks ex_tx = blocks (ex_fs T_FILE)"
  by (auto simp: bread_def ex_tx_log ex_fs_disk_def fun_eq_iff ex_fs_def split: option.split)

theorem files_crash_atomic_witness:
  "\<exists>l. initlog 0 2 (apply_writes (take 3 (lg_writes (commit (fs_log ex_tx)))) (ex_fs_disk T_FILE)) = Inr l
    \<and> file_bytes (ex_tx\<lparr>fs_log := l\<rparr>) 1 = file_bytes ex_tx 1"
proof -
  have 1: "fs_ok ex_tx"
    by (rule fs_ok_view [OF ex_fs_ok [of T_FILE]]) (simp_all add: ex_tx_blocks, simp_all add: ex_tx_def)
  have sb: "fs_sb ex_tx = ex_sb" by (simp add: ex_tx_def)
  have 2: "log_ok (fs_log ex_tx)"
    using parse_header_zero
    by (auto simp: log_ok_def ex_tx_log ex_fs_disk_def area_ok_def lh_ok_def home_def LOGSIZE_def)
  have 3: "lg_start (fs_log ex_tx) + lg_size (fs_log ex_tx) \<le> sb_inodestart (fs_sb ex_tx)"
    by (simp add: ex_tx_log sb ex_sb_def)
  have 4: "\<forall>b. sb_inodestart (fs_sb ex_tx) \<le> b \<longrightarrow> blocks (ex_fs T_FILE) b = lg_disk (fs_log ex_tx) b"
    by (simp add: ex_tx_log)
  have 5: "3 \<le> length (commit_writes (fs_log ex_tx))" by (simp add: commit_writes_def ex_tx_log Let_def)
  note w = commit_writes_eq [OF 2]
  moreover have "lg_writes (fs_log ex_tx) = []" by (simp add: ex_tx_log)
  ultimately show ?thesis using files_crash_atomic [OF ex_fs_ok 1 _ 2 3 4 w 5]
    by (auto simp: sb ex_tx_log ex_sb_def)
qed

end
