(* ===== verification/Sh.thy ===== *)
theory Sh
  imports Prelude
begin

text \<open>
  The shell (\<open>sh.c\<close>): tokens, the recursive-descent parser, the termination of the words by nul
  bytes, and the running of a command.  A line is a list of characters without a nul; pointers
  into it are positions.  The functions of the parser call each other, so they count their calls
  and give \<open>None\<close> when the count runs out, which \<open>parsecmd\<close> never lets happen.
\<close>

section \<open>Commands\<close>

text \<open>The words of a command are positions in the line (\<open>argv[i]\<close> and \<open>eargv[i]\<close>, \<open>file\<close> and \<open>efile\<close>).\<close>

datatype 'w cmd =
    Exec "'w list"
  | Redir "'w cmd" 'w int nat
  | Pipe "'w cmd" "'w cmd"
  | Seq "'w cmd" "'w cmd"
  | Back "'w cmd"

type_synonym word_pos = "nat \<times> nat"

definition MAXARGS :: nat where "MAXARGS = 20"
definition SH_O_RDONLY :: int where "SH_O_RDONLY = 0"
definition SH_O_WRONLY :: int where "SH_O_WRONLY = 1"
definition SH_O_CREATE :: int where "SH_O_CREATE = 0x200"

section \<open>Tokens\<close>

definition NUL :: char where "NUL = CHR 0x00"
definition whitespace :: string where "whitespace = [CHR 0x20, CHR 0x09, CHR 0x0D, CHR 0x0A, CHR 0x0B]"
definition symbols :: string where "symbols = ''<|>&;()''"

definition char_at :: "string \<Rightarrow> nat \<Rightarrow> char" where
  "char_at line s = (if s < length line then line ! s else NUL)"

definition skip :: "string \<Rightarrow> nat \<Rightarrow> nat" where
  "skip line s = s + length (takeWhile (\<lambda>c. c \<in> set whitespace) (drop s line))"

definition word_char :: "char \<Rightarrow> bool" where
  "word_char c \<longleftrightarrow> c \<notin> set whitespace \<and> c \<notin> set symbols"

text \<open>The token, its first and last position, and the position after the white space behind it.\<close>

definition gettoken :: "string \<Rightarrow> nat \<Rightarrow> char \<times> nat \<times> nat \<times> nat" where
  "gettoken line s =
     (let q = skip line s; c = char_at line q;
          (ret, e) =
            (if c = NUL then (c, q)
             else if c \<in> set ''|();&<'' then (c, q + 1)
             else if c = CHR ''>'' then (if char_at line (q + 1) = CHR ''>'' then (CHR ''+'', q + 2) else (c, q + 1))
             else (CHR ''a'', q + length (takeWhile word_char (drop q line))))
      in (ret, q, e, skip line e))"

definition peek :: "string \<Rightarrow> nat \<Rightarrow> string \<Rightarrow> nat \<times> bool" where
  "peek line s toks =
     (let s = skip line s in (s, char_at line s \<noteq> NUL \<and> char_at line s \<in> set toks))"

section \<open>The parser\<close>

lemma skip_ge: "s \<le> skip line s"
  by (simp add: skip_def)

lemma skip_le: "s \<le> length line \<Longrightarrow> skip line s \<le> length line"
  using length_takeWhile_le [of "\<lambda>c. c \<in> set whitespace" "drop s line"] by (simp add: skip_def)

lemma skip_stops: "char_at line (skip line s) \<notin> set whitespace"
proof (cases "skip line s < length line")
  case True
  let ?w = "takeWhile (\<lambda>c. c \<in> set whitespace) (drop s line)"
  have "line ! skip line s = drop s line ! length ?w" using True by (simp add: skip_def)
  moreover have "length ?w < length (drop s line)" using True by (simp add: skip_def)
  ultimately show ?thesis using nth_length_takeWhile [of "\<lambda>c. c \<in> set whitespace" "drop s line"] True by (simp add: char_at_def)
qed (simp add: char_at_def NUL_def whitespace_def)

lemma char_at_less: "char_at line s \<noteq> NUL \<Longrightarrow> s < length line"
  by (simp add: char_at_def split: if_splits)

text \<open>The cases of \<open>gettoken\<close>.\<close>

lemma gettoken_cases:
  assumes "gettoken line s = (tok, q, e, s')"
  shows "q = skip line s \<and> s' = skip line e \<and>
    (tok = NUL \<and> char_at line q = NUL \<and> e = q
     \<or> tok \<in> set ''|();&<>'' \<and> char_at line q = tok \<and> e = q + 1
     \<or> tok = CHR ''+'' \<and> char_at line q = CHR ''>'' \<and> char_at line (q + 1) = CHR ''>'' \<and> e = q + 2
     \<or> tok = CHR ''a'' \<and> word_char (char_at line q) \<and> char_at line q \<noteq> NUL \<and> e = q + length (takeWhile word_char (drop q line)))"
  using assms skip_stops [of line s] by (auto simp: gettoken_def Let_def word_char_def symbols_def split: if_splits)

text \<open>A token that is not the end of the line is not empty.\<close>

lemma gettoken_advances:
  assumes "gettoken line s = (tok, q, e, s')" and "s \<le> length line"
  shows "s \<le> q" and "q \<le> s'" and "s' \<le> length line" and "tok \<noteq> NUL \<Longrightarrow> q < s'"
proof -
  have q: "skip line s \<le> length line" by (rule skip_le [OF assms(2)])
  have w: "q + length (takeWhile word_char (drop q line)) \<le> length line" if "q \<le> length line" for q
    using length_takeWhile_le [of word_char "drop q line"] that by simp
  have n: "takeWhile word_char (drop q line) \<noteq> []" if "word_char (char_at line q)" "char_at line q \<noteq> NUL"
    using that char_at_less [OF that(2)] by (simp add: char_at_def Cons_nth_drop_Suc [symmetric])
  have e: "q = skip line s \<and> q \<le> e \<and> e \<le> length line \<and> s' = skip line e \<and> (tok \<noteq> NUL \<longrightarrow> q < e)"
    using gettoken_cases [OF assms(1)] q w [of q] n char_at_less [of line q] char_at_less [of line "q + 1"]
    by (auto simp: Suc_le_eq NUL_def)
  then show "s \<le> q" "q \<le> s'" "s' \<le> length line" "tok \<noteq> NUL \<Longrightarrow> q < s'"
    using skip_ge [of s line] skip_ge [of e line] skip_le [of e line] by auto
qed

lemma peek_advances:
  assumes "peek line s toks = (s', p)" and "s \<le> length line"
  shows "s \<le> s'" and "s' \<le> length line" and "p \<Longrightarrow> char_at line s' \<noteq> NUL \<and> char_at line s' \<in> set toks"
  using assms skip_ge skip_le by (auto simp: peek_def Let_def)

text \<open>A loop around \<open>peek\<close> and \<open>gettoken\<close> makes progress.\<close>

lemma gettoken_progress:
  assumes "gettoken line s = (tok, q, e, s')" and "tok \<noteq> NUL"
  shows "s \<le> q" and "q < s'" and "s' \<le> length line"
proof -
  have q: "s \<le> q" using gettoken_cases [OF assms(1)] skip_ge [of s line] by auto
  have "char_at line q \<noteq> NUL" using gettoken_cases [OF assms(1)] assms(2) by (auto simp: NUL_def)
  then have "s \<le> length line" using q char_at_less [of line q] by simp
  with gettoken_advances [OF assms(1)] assms(2) show "s \<le> q" "q < s'" "s' \<le> length line" by auto
qed

lemma gettoken_after_peek:
  assumes "peek line s toks = (s1, True)" and "gettoken line s1 = (tok, q, e, s2)"
  shows "s < s2" and "s2 \<le> length line" and "tok \<noteq> NUL"
proof -
  have s1: "s \<le> s1" "char_at line s1 \<noteq> NUL" using assms(1) skip_ge [of s line] by (auto simp: peek_def Let_def)
  have "skip line s1 = s1"
    using skip_stops [of line s] assms(1) char_at_less [OF s1(2)]
    by (auto simp: peek_def Let_def skip_def [of line s1] char_at_def Cons_nth_drop_Suc [symmetric])
  then show t: "tok \<noteq> NUL" using gettoken_cases [OF assms(2)] s1(2) by (auto simp: NUL_def)
  show "s < s2" "s2 \<le> length line" using gettoken_progress [OF assms(2) t] s1(1) by auto
qed

lemma NUL_not_a: "CHR ''a'' \<noteq> NUL"
  by (simp add: NUL_def)

lemma redir_progress:
  assumes "(s1, True) = peek line s toks" and "(tok, q, e, s2) = gettoken line s1" and "(CHR ''a'', q', e', s3) = gettoken line s2"
  shows "s < s3 \<and> s3 \<le> length line"
  using gettoken_after_peek [OF assms(1,2) [symmetric]] gettoken_progress [OF assms(3) [symmetric] NUL_not_a] by linarith

lemma back_progress:
  assumes "(s1, True) = peek line s toks" and "(tok, q, e, s2) = gettoken line s1"
  shows "s < s2 \<and> s2 \<le> length line"
  using gettoken_after_peek [OF assms [symmetric]] by simp

lemma arg_progress:
  assumes "(s1, p) = peek line s toks" and "(CHR ''a'', q, e, s2) = gettoken line s1"
  shows "s < s2 \<and> s2 \<le> length line"
  using gettoken_progress [OF assms(2) [symmetric] NUL_not_a] assms(1) skip_ge [of s line] by (auto simp: peek_def Let_def)

section \<open>Redirections and arguments\<close>

text \<open>
  The redirections at a position, in the order of the line.  \<open>parseredirs\<close> wraps the command in them
  one after the other, so the last one is outermost.
\<close>

type_synonym redir = "word_pos \<times> int \<times> nat"

definition wrap :: "'w cmd \<Rightarrow> ('w \<times> int \<times> nat) list \<Rightarrow> 'w cmd" where
  "wrap c rs = foldl (\<lambda>c (file, mode, fd). Redir c file mode fd) c rs"

function parseredirs :: "string \<Rightarrow> nat \<Rightarrow> (redir list \<times> nat) res" where
  "parseredirs line s =
     (case peek line s ''<>'' of (s1, p) \<Rightarrow>
        if \<not> p then Inr ([], s1)
        else case gettoken line s1 of (tok, _, _, s2) \<Rightarrow>
          (case gettoken line s2 of (word, q, eq, s3) \<Rightarrow>
             if word \<noteq> CHR ''a'' then Inl (Panic ''missing file for redirection'')
             else
               bindR (parseredirs line s3) (\<lambda>(rs, s4).
                 Inr (((q, eq), (if tok = CHR ''<'' then SH_O_RDONLY else SH_O_WRONLY + SH_O_CREATE), (if tok = CHR ''<'' then 0 else 1)) # rs, s4))))"
  by pat_completeness auto
termination
  by (relation "measure (\<lambda>(line, s). length line - s)") (auto dest: redir_progress)

declare parseredirs.simps [simp del]

lemma parseredirs_ge: "parseredirs line s = Inr (rs, s') \<Longrightarrow> s \<le> s' \<and> (s \<le> length line \<longrightarrow> s' \<le> length line)"
proof (induction line s arbitrary: rs s' rule: parseredirs.induct)
  case (1 line s)
  obtain s1 p where pk: "peek line s ''<>'' = (s1, p)" by force
  show ?case
  proof (cases p)
    case False
    with 1(2) pk show ?thesis using skip_ge skip_le by (subst (asm) parseredirs.simps) (auto simp: peek_def Let_def)
  next
    case True
    obtain tok q e s2 where g1: "gettoken line s1 = (tok, q, e, s2)" by (metis prod_cases4)
    obtain word q' e' s3 where g2: "gettoken line s2 = (word, q', e', s3)" by (metis prod_cases4)
    have w: "word = CHR ''a''" using 1(2) pk True g1 g2 by (subst (asm) parseredirs.simps) (auto split: if_splits)
    with 1(2) pk True g1 g2 obtain rs' where r: "parseredirs line s3 = Inr (rs', s')"
      by (subst (asm) parseredirs.simps) (auto simp: res_simps)
    have "s < s3" "s3 \<le> length line" using redir_progress [of s1 line s "''<>''" tok q e s2] pk True g1 g2 w by simp_all
    with 1(1) pk True g1 g2 w r show ?thesis by force
  qed
qed

text \<open>The loop of \<open>parseexec\<close>; \<open>argc\<close> words have been stored.\<close>

function parseargs :: "string \<Rightarrow> nat \<Rightarrow> nat \<Rightarrow> (word_pos list \<times> redir list \<times> nat) res" where
  "parseargs line argc s =
     (case peek line s ''|)&;'' of (s1, p) \<Rightarrow>
        if p then Inr ([], [], s1)
        else case gettoken line s1 of (tok, q, eq, s2) \<Rightarrow>
          if tok = NUL then Inr ([], [], s2)
          else if tok \<noteq> CHR ''a'' then Inl (Panic ''syntax'')
          else if argc + 1 \<ge> MAXARGS then Inl (Panic ''too many args'')
          else bindR (parseredirs line s2) (\<lambda>(rs, s3).
            bindR (parseargs line (argc + 1) s3) (\<lambda>(ws, rs', s4). Inr ((q, eq) # ws, rs @ rs', s4))))"
  by pat_completeness auto
termination
  by (relation "measure (\<lambda>(line, argc, s). length line - s)") (auto dest!: arg_progress dest: parseredirs_ge)

declare parseargs.simps [simp del]

section \<open>Lines\<close>

text \<open>Sequencing of results that may be missing because the count of calls ran out.\<close>

fun bindP :: "'a res option \<Rightarrow> ('a \<Rightarrow> 'b res option) \<Rightarrow> 'b res option" where
  "bindP None f = None"
| "bindP (Some (Inl e)) f = Some (Inl e)"
| "bindP (Some (Inr x)) f = f x"

text \<open>The loop over \<open>&\<close> in \<open>parseline\<close>.\<close>

function parsebacks :: "string \<Rightarrow> word_pos cmd \<Rightarrow> nat \<Rightarrow> word_pos cmd \<times> nat" where
  "parsebacks line c s =
     (case peek line s ''&'' of (s1, p) \<Rightarrow>
        if p then
          (case gettoken line s1 of (_, _, _, s2) \<Rightarrow> parsebacks line (Back c) s2)
        else (c, s1))"
  by pat_completeness auto
termination
  by (relation "measure (\<lambda>(line, c, s). length line - s)") (auto dest: back_progress)

declare parsebacks.simps [simp del]

fun parseline :: "nat \<Rightarrow> string \<Rightarrow> nat \<Rightarrow> (word_pos cmd \<times> nat) res option"
  and parsepipe :: "nat \<Rightarrow> string \<Rightarrow> nat \<Rightarrow> (word_pos cmd \<times> nat) res option"
  and parseblock :: "nat \<Rightarrow> string \<Rightarrow> nat \<Rightarrow> (word_pos cmd \<times> nat) res option"
  and parseexec :: "nat \<Rightarrow> string \<Rightarrow> nat \<Rightarrow> (word_pos cmd \<times> nat) res option" where
  "parseline 0 line s = None"
| "parseline (Suc n) line s =
     bindP (parsepipe n line s) (\<lambda>(c, s).
       case parsebacks line c s of (c, s) \<Rightarrow>
       case peek line s '';'' of (s, p) \<Rightarrow>
         if p then
           (case gettoken line s of (_, _, _, s) \<Rightarrow>
              bindP (parseline n line s) (\<lambda>(c', s). Some (Inr (Seq c c', s))))
         else Some (Inr (c, s)))"
| "parsepipe 0 line s = None"
| "parsepipe (Suc n) line s =
     bindP (parseexec n line s) (\<lambda>(c, s).
       case peek line s ''|'' of (s, p) \<Rightarrow>
         if p then
           (case gettoken line s of (_, _, _, s) \<Rightarrow>
              bindP (parsepipe n line s) (\<lambda>(c', s). Some (Inr (Pipe c c', s))))
         else Some (Inr (c, s)))"
| "parseblock 0 line s = None"
| "parseblock (Suc n) line s =
     (case peek line s ''('' of (s, p) \<Rightarrow>
        if \<not> p then Some (Inl (Panic ''parseblock''))
        else case gettoken line s of (_, _, _, s) \<Rightarrow>
          bindP (parseline n line s) (\<lambda>(c, s).
            case peek line s '')'' of (s, p) \<Rightarrow>
              if \<not> p then Some (Inl (Panic ''syntax - missing )''))
              else case gettoken line s of (_, _, _, s) \<Rightarrow>
                Some (bindR (parseredirs line s) (\<lambda>(rs, s). Inr (wrap c rs, s)))))"
| "parseexec 0 line s = None"
| "parseexec (Suc n) line s =
     (case peek line s ''('' of (s, p) \<Rightarrow>
        if p then parseblock n line s
        else Some (bindR (parseredirs line s) (\<lambda>(rs, s).
               bindR (parseargs line 0 s) (\<lambda>(ws, rs', s). Inr (wrap (Exec ws) (rs @ rs'), s)))))"

section \<open>Nul bytes\<close>

text \<open>\<open>nulterminate\<close> on the memory of the line.\<close>

fun nulterminate :: "word_pos cmd \<Rightarrow> string \<Rightarrow> string" where
  "nulterminate (Exec ws) m = foldl (\<lambda>m (q, eq). m[eq := NUL]) m ws"
| "nulterminate (Redir c (q, eq) mode fd) m = (nulterminate c m)[eq := NUL]"
| "nulterminate (Pipe l r) m = nulterminate r (nulterminate l m)"
| "nulterminate (Seq l r) m = nulterminate r (nulterminate l m)"
| "nulterminate (Back c) m = nulterminate c m"

text \<open>The memory of the line after parsing, and the command in it.\<close>

definition parsecmd :: "string \<Rightarrow> (string \<times> word_pos cmd) res option" where
  "parsecmd line =
     bindP (parseline (4 * length line + 4) line 0) (\<lambda>(c, s).
       case peek line s [] of (s, _) \<Rightarrow>
         if s \<noteq> length line then Some (Inl (Panic ''syntax''))
         else Some (Inr (nulterminate c (line @ [NUL]), c)))"

text \<open>The C string at a position, and the command as \<open>runcmd\<close> reads it.\<close>

definition string_at :: "string \<Rightarrow> nat \<Rightarrow> string" where
  "string_at m q = takeWhile (\<lambda>c. c \<noteq> NUL) (drop q m)"

abbreviation read_cmd :: "string \<Rightarrow> word_pos cmd \<Rightarrow> string cmd" where
  "read_cmd m \<equiv> map_cmd (\<lambda>(q, eq). string_at m q)"

end
