(* ===== verification/Sh_Props.thy ===== *)
theory Sh_Props
  imports Sh
begin

text \<open>
  What the parser of the shell guarantees: it always returns, the words it finds are whole words of
  the line and are read back from the memory it leaves, and it inverts the printing of commands.
\<close>

section \<open>Words\<close>

text \<open>The parts of the line a command names.\<close>

definition whole_word :: "string \<Rightarrow> word_pos \<Rightarrow> bool" where
  "whole_word line w \<longleftrightarrow> fst w < snd w \<and> snd w \<le> length line \<and> (\<forall>i. fst w \<le> i \<and> i < snd w \<longrightarrow> word_char (line ! i))
     \<and> (snd w < length line \<longrightarrow> \<not> word_char (line ! snd w))"

lemma gettoken_word:
  assumes "gettoken line s = (CHR ''a'', q, eq, s')"
  shows "whole_word line (q, eq)"
proof -
  let ?w = "takeWhile word_char (drop q line)"
  have c: "word_char (char_at line q)" "char_at line q \<noteq> NUL" and eq: "eq = q + length ?w"
    using gettoken_cases [OF assms] by (auto simp: NUL_def)
  have q: "q < length line" by (rule char_at_less [OF c(2)])
  have "?w \<noteq> []" using c q by (simp add: char_at_def Cons_nth_drop_Suc [symmetric])
  moreover have "length ?w \<le> length line - q" using length_takeWhile_le [of word_char "drop q line"] by simp
  moreover have "word_char (line ! i)" if "q \<le> i" "i < eq" for i
  proof -
    have "line ! i = ?w ! (i - q)" using that q by (simp add: eq takeWhile_nth)
    moreover have "?w ! (i - q) \<in> set ?w" using that by (simp add: eq)
    ultimately show ?thesis by (metis set_takeWhileD)
  qed
  moreover have "\<not> word_char (line ! eq)" if "eq < length line"
    using nth_length_takeWhile [of word_char "drop q line"] that by (simp add: eq)
  ultimately show ?thesis using q by (simp add: whole_word_def eq)
qed

lemma gettoken_ge: "gettoken line s = (tok, q, e, s') \<Longrightarrow> s \<le> s'"
  using gettoken_cases [of line s tok q e s'] skip_ge [of s line] skip_ge [of e line] by auto

lemma parseredirs_words:
  assumes "parseredirs line s = Inr (rs, s')"
  shows "\<forall>r \<in> set rs. whole_word line (fst r)"
  using assms
proof (induction line s arbitrary: rs s' rule: parseredirs.induct)
  case (1 line s)
  obtain s1 p where pk: "peek line s ''<>'' = (s1, p)" by force
  obtain tok q e s2 where g1: "gettoken line s1 = (tok, q, e, s2)" by (metis prod_cases4)
  obtain word q' e' s3 where g2: "gettoken line s2 = (word, q', e', s3)" by (metis prod_cases4)
  show ?case
  proof (cases p)
    case False
    with 1(2) pk show ?thesis by (subst (asm) parseredirs.simps) auto
  next
    case True
    have w: "word = CHR ''a''" using 1(2) pk True g1 g2 by (subst (asm) parseredirs.simps) (auto split: if_splits)
    with 1(2) pk True g1 g2 obtain rs' mode fd where r: "parseredirs line s3 = Inr (rs', s')" "rs = ((q', e'), mode, fd) # rs'"
      by (subst (asm) parseredirs.simps) (auto simp: res_simps)
    have "\<forall>r \<in> set rs'. whole_word line (fst r)" using 1(1) pk True g1 g2 w r(1) by force
    with r(2) gettoken_word [OF g2 [unfolded w]] show ?thesis by simp
  qed
qed

lemma parseargs_words:
  assumes "parseargs line argc s = Inr (ws, rs, s')" and "argc < MAXARGS"
  shows "(\<forall>w \<in> set ws. whole_word line w) \<and> (\<forall>r \<in> set rs. whole_word line (fst r)) \<and> argc + length ws < MAXARGS
    \<and> s \<le> s' \<and> (s \<le> length line \<longrightarrow> s' \<le> length line)"
  using assms
proof (induction line argc s arbitrary: ws rs s' rule: parseargs.induct)
  case (1 line argc s)
  obtain s1 p where pk: "peek line s ''|)&;'' = (s1, p)" by force
  obtain tok q e s2 where g: "gettoken line s1 = (tok, q, e, s2)" by (metis prod_cases4)
  have s1: "s \<le> s1" "s \<le> length line \<longrightarrow> s1 \<le> length line" using pk skip_ge skip_le by (auto simp: peek_def Let_def)
  consider (stop) p | (eol) "\<not> p" "tok = NUL" | (more) "\<not> p" "tok = CHR ''a''" "argc + 1 < MAXARGS"
    using 1(2) pk g by (subst (asm) parseargs.simps) (auto split: if_splits)
  then show ?case
  proof cases
    case stop
    with 1(2,3) pk s1 show ?thesis by (subst (asm) parseargs.simps) auto
  next
    case eol
    with 1(2,3) pk g s1 gettoken_ge [OF g] gettoken_advances(3) [OF g] show ?thesis by (subst (asm) parseargs.simps) auto
  next
    case more
    with 1(2) pk g obtain rs1 s3 ws' rs' where r: "parseredirs line s2 = Inr (rs1, s3)" "parseargs line (argc + 1) s3 = Inr (ws', rs', s')"
        "ws = (q, e) # ws'" "rs = rs1 @ rs'"
      by (subst (asm) parseargs.simps) (auto simp: res_simps NUL_not_a not_le)
    have "(\<forall>w \<in> set ws'. whole_word line w) \<and> (\<forall>r \<in> set rs'. whole_word line (fst r)) \<and> argc + 1 + length ws' < MAXARGS
        \<and> s3 \<le> s' \<and> (s3 \<le> length line \<longrightarrow> s' \<le> length line)"
      using 1(1) pk g more r NUL_not_a by force
    moreover have "whole_word line (q, e)" using gettoken_word g more(2) by simp
    moreover have "s < s2" "s2 \<le> length line" using arg_progress [of s1 p line s "''|)&;''" q e s2] pk g more(2) by simp_all
    ultimately show ?thesis using parseredirs_words [OF r(1)] parseredirs_ge [OF r(1)] r(3,4) by auto
  qed
qed

section \<open>The parser makes progress and returns\<close>

lemma set_wrap: "set_cmd (wrap c rs) = set_cmd c \<union> fst ` set rs"
  unfolding wrap_def by (induction rs arbitrary: c) (auto simp: case_prod_unfold)

lemma bindP_eq_Some: "bindP m f = Some y \<longleftrightarrow> (\<exists>e. m = Some (Inl e) \<and> y = Inl e) \<or> (\<exists>x. m = Some (Inr x) \<and> f x = Some y)"
  by (cases "(m, f)" rule: bindP.cases) auto

lemma bindP_eq_None: "bindP m f = None \<longleftrightarrow> m = None \<or> (\<exists>x. m = Some (Inr x) \<and> f x = None)"
  by (cases "(m, f)" rule: bindP.cases) auto

text \<open>A parse from \<open>s\<close> to \<open>s'\<close> with whole words.\<close>

definition parsed :: "string \<Rightarrow> nat \<Rightarrow> word_pos cmd \<Rightarrow> nat \<Rightarrow> bool" where
  "parsed line s c s' \<longleftrightarrow> (\<forall>w \<in> set_cmd c. whole_word line w) \<and> s \<le> s' \<and> s' \<le> length line"

lemma parsebacks_parsed:
  assumes "parsebacks line c s = (c', s')" and "parsed line s0 c s"
  shows "parsed line s0 c' s'"
  using assms
proof (induction line c s rule: parsebacks.induct)
  case (1 line c s)
  obtain s1 p where pk: "peek line s ''&'' = (s1, p)" by force
  obtain tok q e s2 where g: "gettoken line s1 = (tok, q, e, s2)" by (metis prod_cases4)
  have s1: "s \<le> s1" "s1 \<le> length line" using pk 1(3) peek_advances [OF pk] by (auto simp: parsed_def)
  show ?case
  proof (cases p)
    case True
    then have "parsebacks line (Back c) s2 = (c', s')" using 1(2) pk g by (subst (asm) parsebacks.simps) simp
    moreover have "s < s2" "s2 \<le> length line" using gettoken_after_peek [OF _ g] pk True by auto
    ultimately show ?thesis using 1(1) [OF pk [symmetric] True g [symmetric] refl refl] 1(3) s1(1) by (auto simp: parsed_def)
  next
    case False
    then show ?thesis using 1(2,3) pk s1 by (subst (asm) parsebacks.simps) (auto simp: parsed_def)
  qed
qed

text \<open>A line, pipe, block or simple command parsed with count \<open>n\<close>, as relations between positions.\<close>

lemma parseline_SucE:
  assumes "parseline (Suc n) line s = Some (Inr (c, s'))"
  obtains c1 s1 c2 s2 s3 p where "parsepipe n line s = Some (Inr (c1, s1))" "parsebacks line c1 s1 = (c2, s2)" "peek line s2 '';'' = (s3, p)"
    "\<not> p \<Longrightarrow> c = c2 \<and> s' = s3"
    "p \<Longrightarrow> \<exists>tok q e s4 c3. gettoken line s3 = (tok, q, e, s4) \<and> parseline n line s4 = Some (Inr (c3, s')) \<and> c = Seq c2 c3"
proof -
  obtain c1 s1 where p: "parsepipe n line s = Some (Inr (c1, s1))" using assms by (auto simp: bindP_eq_Some)
  obtain c2 s2 where b: "parsebacks line c1 s1 = (c2, s2)" by force
  obtain s3 p where pk: "peek line s2 '';'' = (s3, p)" by force
  obtain tok q e s4 where g: "gettoken line s3 = (tok, q, e, s4)" by (metis prod_cases4)
  show thesis by (rule that [OF p b pk]) (use assms p b pk g in \<open>auto simp: bindP_eq_Some\<close>)
qed

lemma parsepipe_SucE:
  assumes "parsepipe (Suc n) line s = Some (Inr (c, s'))"
  obtains c1 s1 s2 p where "parseexec n line s = Some (Inr (c1, s1))" "peek line s1 ''|'' = (s2, p)"
    "\<not> p \<Longrightarrow> c = c1 \<and> s' = s2"
    "p \<Longrightarrow> \<exists>tok q e s3 c2. gettoken line s2 = (tok, q, e, s3) \<and> parsepipe n line s3 = Some (Inr (c2, s')) \<and> c = Pipe c1 c2"
proof -
  obtain c1 s1 where p: "parseexec n line s = Some (Inr (c1, s1))" using assms by (auto simp: bindP_eq_Some)
  obtain s2 p where pk: "peek line s1 ''|'' = (s2, p)" by force
  obtain tok q e s3 where g: "gettoken line s2 = (tok, q, e, s3)" by (metis prod_cases4)
  show thesis by (rule that [OF p pk]) (use assms p pk g in \<open>auto simp: bindP_eq_Some\<close>)
qed

lemma parseblock_SucE:
  assumes "parseblock (Suc n) line s = Some (Inr (c, s'))"
  obtains s1 tok q e s2 c1 s3 s4 tok' q' e' s5 rs where "peek line s ''('' = (s1, True)" "gettoken line s1 = (tok, q, e, s2)"
    "parseline n line s2 = Some (Inr (c1, s3))" "peek line s3 '')'' = (s4, True)" "gettoken line s4 = (tok', q', e', s5)"
    "parseredirs line s5 = Inr (rs, s')" "c = wrap c1 rs"
proof -
  obtain s1 p where pk: "peek line s ''('' = (s1, p)" by force
  obtain tok q e s2 where g: "gettoken line s1 = (tok, q, e, s2)" by (metis prod_cases4)
  have p: "p" using assms pk by (auto split: if_splits)
  obtain c1 s3 where l: "parseline n line s2 = Some (Inr (c1, s3))" using assms pk p g by (auto simp: bindP_eq_Some)
  obtain s4 p' where pk': "peek line s3 '')'' = (s4, p')" by force
  obtain tok' q' e' s5 where g': "gettoken line s4 = (tok', q', e', s5)" by (metis prod_cases4)
  have p': "p'" using assms pk p g l pk' by (auto split: if_splits)
  obtain rs where "parseredirs line s5 = Inr (rs, s')" "c = wrap c1 rs" using assms pk p g l pk' p' g' by (auto simp: res_simps)
  with that pk p g l pk' p' g' show thesis by auto
qed

lemma parseexec_SucE:
  assumes "parseexec (Suc n) line s = Some (Inr (c, s'))"
  obtains s1 where "peek line s ''('' = (s1, True)" "parseblock n line s1 = Some (Inr (c, s'))"
    | s1 rs s2 ws rs' where "peek line s ''('' = (s1, False)" "parseredirs line s1 = Inr (rs, s2)" "parseargs line 0 s2 = Inr (ws, rs', s')"
      "c = wrap (Exec ws) (rs @ rs')"
proof -
  obtain s1 p where pk: "peek line s ''('' = (s1, p)" by force
  show thesis
  proof (cases p)
    case True
    with assms pk that(1) show thesis by auto
  next
    case False
    with assms pk that(2) show thesis by (auto simp: res_simps)
  qed
qed

lemma parse_ok:
  assumes "s \<le> length line"
  shows "(parseline n line s = Some (Inr (c, s')) \<longrightarrow> parsed line s c s')
    \<and> (parsepipe n line s = Some (Inr (c, s')) \<longrightarrow> parsed line s c s')
    \<and> (parseblock n line s = Some (Inr (c, s')) \<longrightarrow> parsed line s c s')
    \<and> (parseexec n line s = Some (Inr (c, s')) \<longrightarrow> parsed line s c s')"
  using assms
proof (induction n arbitrary: s c s')
  case (Suc n)
  note IH = Suc.IH [THEN conjunct1, THEN mp] Suc.IH [THEN conjunct2, THEN conjunct1, THEN mp]
    Suc.IH [THEN conjunct2, THEN conjunct2, THEN conjunct1, THEN mp] Suc.IH [THEN conjunct2, THEN conjunct2, THEN conjunct2, THEN mp]
  have "parsed line s c s'" if "parseline (Suc n) line s = Some (Inr (c, s'))"
    using that
  proof (cases rule: parseline_SucE)
    case (1 c1 s1 c2 s2 s3 p)
    have p2: "parsed line s c2 s2" by (rule parsebacks_parsed [OF 1(2) IH(2) [OF Suc.prems 1(1)]])
    then have s3: "s2 \<le> s3" "s3 \<le> length line" using peek_advances [OF 1(3)] by (auto simp: parsed_def)
    show ?thesis
    proof (cases p)
      case True
      with 1(5) obtain tok q e s4 c3 where l: "gettoken line s3 = (tok, q, e, s4)" "parseline n line s4 = Some (Inr (c3, s'))" "c = Seq c2 c3"
        by blast
      have "s2 < s4" "s4 \<le> length line" using gettoken_after_peek [OF _ l(1)] 1(3) True by auto
      with IH(1) [OF _ l(2)] p2 l(3) show ?thesis by (auto simp: parsed_def)
    qed (use 1(4) p2 s3 in \<open>auto simp: parsed_def\<close>)
  qed
  moreover have "parsed line s c s'" if "parsepipe (Suc n) line s = Some (Inr (c, s'))"
    using that
  proof (cases rule: parsepipe_SucE)
    case (1 c1 s1 s2 p)
    have p1: "parsed line s c1 s1" by (rule IH(4) [OF Suc.prems 1(1)])
    then have s2: "s1 \<le> s2" "s2 \<le> length line" using peek_advances [OF 1(2)] by (auto simp: parsed_def)
    show ?thesis
    proof (cases p)
      case True
      with 1(4) obtain tok q e s3 c2 where l: "gettoken line s2 = (tok, q, e, s3)" "parsepipe n line s3 = Some (Inr (c2, s'))" "c = Pipe c1 c2"
        by blast
      have "s1 < s3" "s3 \<le> length line" using gettoken_after_peek [OF _ l(1)] 1(2) True by auto
      with IH(2) [OF _ l(2)] p1 l(3) show ?thesis by (auto simp: parsed_def)
    qed (use 1(3) p1 s2 in \<open>auto simp: parsed_def\<close>)
  qed
  moreover have "parsed line s c s'" if "parseblock (Suc n) line s = Some (Inr (c, s'))"
    using that
  proof (cases rule: parseblock_SucE)
    case (1 s1 tok q e s2 c1 s3 s4 tok' q' e' s5 rs)
    have "s < s2" "s2 \<le> length line" using gettoken_after_peek [OF 1(1,2)] by auto
    with IH(1) [OF _ 1(3)] have c1: "parsed line s2 c1 s3" by simp
    have "s3 < s5" "s5 \<le> length line" using gettoken_after_peek [OF 1(4,5)] by auto
    with c1 \<open>s < s2\<close> parseredirs_words [OF 1(6)] parseredirs_ge [OF 1(6)] show ?thesis by (auto simp: parsed_def 1(7) set_wrap)
  qed
  moreover have "parsed line s c s'" if "parseexec (Suc n) line s = Some (Inr (c, s'))"
    using that
  proof (cases rule: parseexec_SucE)
    case (1 s1)
    have "s \<le> s1" "s1 \<le> length line" using peek_advances [OF 1(1) Suc.prems] by auto
    with IH(3) [OF _ 1(2)] show ?thesis by (auto simp: parsed_def)
  next
    case (2 s1 rs s2 ws rs')
    have "s \<le> s1" "s1 \<le> length line" using peek_advances [OF 2(1) Suc.prems] by auto
    with parseredirs_words [OF 2(2)] parseredirs_ge [OF 2(2)] parseargs_words [OF 2(3)] show ?thesis
      by (auto simp: parsed_def 2(4) set_wrap MAXARGS_def)
  qed
  ultimately show ?case by blast
qed simp

lemma parse_returns:
  assumes "s \<le> length line"
  shows "(4 * (length line - s) + 4 \<le> n \<longrightarrow> parseline n line s \<noteq> None)
    \<and> (4 * (length line - s) + 3 \<le> n \<longrightarrow> parsepipe n line s \<noteq> None)
    \<and> (4 * (length line - s) + 1 \<le> n \<longrightarrow> parseblock n line s \<noteq> None)
    \<and> (4 * (length line - s) + 2 \<le> n \<longrightarrow> parseexec n line s \<noteq> None)"
  using assms
proof (induction n arbitrary: s)
  case (Suc n)
  note IH = Suc.IH [THEN conjunct1, THEN mp] Suc.IH [THEN conjunct2, THEN conjunct1, THEN mp]
    Suc.IH [THEN conjunct2, THEN conjunct2, THEN conjunct1, THEN mp] Suc.IH [THEN conjunct2, THEN conjunct2, THEN conjunct2, THEN mp]
  have "parseline (Suc n) line s \<noteq> None" if n: "4 * (length line - s) + 4 \<le> Suc n"
  proof
    assume "parseline (Suc n) line s = None"
    then obtain c1 s1 where p: "parsepipe n line s = Some (Inr (c1, s1))" and rest: "(case parsebacks line c1 s1 of (c, s) \<Rightarrow>
         case peek line s '';'' of (s, p) \<Rightarrow> if p then (case gettoken line s of (_, _, _, s) \<Rightarrow>
           bindP (parseline n line s) (\<lambda>(c', s). Some (Inr (Seq c c', s)))) else Some (Inr (c, s))) = None"
      using IH(2) [OF Suc.prems] n by (auto simp: bindP_eq_None)
    obtain c2 s2 where b: "parsebacks line c1 s1 = (c2, s2)" by force
    have p2: "s \<le> s2" "s2 \<le> length line"
      using parsebacks_parsed [OF b parse_ok [OF Suc.prems, THEN conjunct2, THEN conjunct1, THEN mp, OF p]] by (auto simp: parsed_def)
    obtain s3 pp where pk: "peek line s2 '';'' = (s3, pp)" by force
    obtain tok q e s4 where g: "gettoken line s3 = (tok, q, e, s4)" by (metis prod_cases4)
    have pp and none: "parseline n line s4 = None" using rest b pk g by (auto simp: bindP_eq_None split: if_splits)
    then have "s2 < s4" "s4 \<le> length line" using gettoken_after_peek [OF _ g] pk by auto
    with IH(1) [of s4] none n p2 show False by linarith
  qed
  moreover have "parsepipe (Suc n) line s \<noteq> None" if n: "4 * (length line - s) + 3 \<le> Suc n"
  proof
    assume "parsepipe (Suc n) line s = None"
    then obtain c1 s1 where p: "parseexec n line s = Some (Inr (c1, s1))" and rest: "(case peek line s1 ''|'' of (s, p) \<Rightarrow>
         if p then (case gettoken line s of (_, _, _, s) \<Rightarrow> bindP (parsepipe n line s) (\<lambda>(c', s). Some (Inr (Pipe c1 c', s))))
         else Some (Inr (c1, s))) = None"
      using IH(4) [OF Suc.prems] n by (auto simp: bindP_eq_None)
    have s1: "s \<le> s1" "s1 \<le> length line"
      using parse_ok [OF Suc.prems, THEN conjunct2, THEN conjunct2, THEN conjunct2, THEN mp, OF p] by (auto simp: parsed_def)
    obtain s2 pp where pk: "peek line s1 ''|'' = (s2, pp)" by force
    obtain tok q e s3 where g: "gettoken line s2 = (tok, q, e, s3)" by (metis prod_cases4)
    have pp and none: "parsepipe n line s3 = None" using rest pk g by (auto simp: bindP_eq_None split: if_splits)
    then have "s1 < s3" "s3 \<le> length line" using gettoken_after_peek [OF _ g] pk by auto
    with IH(2) [of s3] none n s1 show False by linarith
  qed
  moreover have "parseblock (Suc n) line s \<noteq> None" if n: "4 * (length line - s) + 1 \<le> Suc n"
  proof
    assume a: "parseblock (Suc n) line s = None"
    obtain s1 p where pk: "peek line s ''('' = (s1, p)" by force
    obtain tok q e s2 where g: "gettoken line s1 = (tok, q, e, s2)" by (metis prod_cases4)
    have p and none: "parseline n line s2 = None" using a pk g by (auto simp: bindP_eq_None case_prod_unfold split: if_splits)
    then have "s < s2" "s2 \<le> length line" using gettoken_after_peek [OF _ g] pk by auto
    with IH(1) [of s2] none n show False by linarith
  qed
  moreover have "parseexec (Suc n) line s \<noteq> None" if n: "4 * (length line - s) + 2 \<le> Suc n"
  proof
    assume a: "parseexec (Suc n) line s = None"
    obtain s1 p where pk: "peek line s ''('' = (s1, p)" by force
    have "s \<le> s1" "s1 \<le> length line" using peek_advances [OF pk Suc.prems] by auto
    moreover have "parseblock n line s1 = None" using a pk by (auto split: if_splits)
    ultimately show False using IH(3) [of s1] n by linarith
  qed
  ultimately show ?case by blast
qed simp

text \<open>The errors are messages.\<close>

lemma parseredirs_error: "parseredirs line s = Inl e \<Longrightarrow> \<exists>msg. e = Panic msg"
proof (induction line s rule: parseredirs.induct)
  case (1 line s)
  obtain s1 p where pk: "peek line s ''<>'' = (s1, p)" by force
  obtain tok q e1 s2 where g1: "gettoken line s1 = (tok, q, e1, s2)" by (metis prod_cases4)
  obtain word q' e' s3 where g2: "gettoken line s2 = (word, q', e', s3)" by (metis prod_cases4)
  show ?case
  proof (cases "p \<and> word = CHR ''a''")
    case True
    then have "parseredirs line s3 = Inl e" using 1(2) pk g1 g2 by (subst (asm) parseredirs.simps) (auto simp: res_simps)
    then show ?thesis using 1(1) [OF pk [symmetric] _ g1 [symmetric] refl refl g2 [symmetric] refl refl] True by simp
  next
    case False
    then show ?thesis using 1(2) pk g1 g2 by (subst (asm) parseredirs.simps) (auto split: if_splits)
  qed
qed

lemma parseargs_error: "parseargs line argc s = Inl e \<Longrightarrow> \<exists>msg. e = Panic msg"
proof (induction line argc s rule: parseargs.induct)
  case (1 line argc s)
  obtain s1 p where pk: "peek line s ''|)&;'' = (s1, p)" by force
  obtain tok q eq s2 where g: "gettoken line s1 = (tok, q, eq, s2)" by (metis prod_cases4)
  show ?case
  proof (cases "\<not> p \<and> tok = CHR ''a'' \<and> argc + 1 < MAXARGS")
    case True
    show ?thesis
    proof (cases "parseredirs line s2")
      case (Inl e')
      with 1(2) pk g True parseredirs_error [OF Inl] show ?thesis by (subst (asm) parseargs.simps) (auto simp: NUL_not_a)
    next
      case (Inr r)
      obtain rs s3 where r: "r = (rs, s3)" by force
      then have "parseargs line (argc + 1) s3 = Inl e" using 1(2) pk g True Inr
        by (subst (asm) parseargs.simps) (auto simp: NUL_not_a res_simps)
      then show ?thesis using 1(1) [OF pk [symmetric] _ g [symmetric] refl refl _ _ _ Inr r [symmetric]] True by (simp add: NUL_not_a)
    qed
  next
    case False
    then show ?thesis using 1(2) pk g by (subst (asm) parseargs.simps) (auto split: if_splits)
  qed
qed

lemma parse_error:
  "(parseline n line s = Some (Inl e) \<longrightarrow> (\<exists>msg. e = Panic msg)) \<and> (parsepipe n line s = Some (Inl e) \<longrightarrow> (\<exists>msg. e = Panic msg))
    \<and> (parseblock n line s = Some (Inl e) \<longrightarrow> (\<exists>msg. e = Panic msg)) \<and> (parseexec n line s = Some (Inl e) \<longrightarrow> (\<exists>msg. e = Panic msg))"
proof (induction n arbitrary: s)
  case (Suc n)
  have l: "parseline n line s = Some (Inl e) \<Longrightarrow> \<exists>msg. e = Panic msg" "parsepipe n line s = Some (Inl e) \<Longrightarrow> \<exists>msg. e = Panic msg"
    "parseblock n line s = Some (Inl e) \<Longrightarrow> \<exists>msg. e = Panic msg" "parseexec n line s = Some (Inl e) \<Longrightarrow> \<exists>msg. e = Panic msg" for s
    using Suc.IH by blast+
  have r: "bindR (parseredirs line s) f = Inl e \<Longrightarrow> (\<And>x. f x = Inl e \<Longrightarrow> \<exists>msg. e = Panic msg) \<Longrightarrow> \<exists>msg. e = Panic msg" for s f
    using parseredirs_error [of line s e] by (auto simp: res_simps)
  show ?case
  proof (intro conjI impI)
    assume "parseline (Suc n) line s = Some (Inl e)"
    then show "\<exists>msg. e = Panic msg" using l(1,2) by (auto simp: bindP_eq_Some case_prod_unfold Let_def split: if_splits)
  next
    assume "parsepipe (Suc n) line s = Some (Inl e)"
    then show "\<exists>msg. e = Panic msg" using l(2,4) by (auto simp: bindP_eq_Some case_prod_unfold split: if_splits)
  next
    assume "parseblock (Suc n) line s = Some (Inl e)"
    then show "\<exists>msg. e = Panic msg" using l(1) parseredirs_error
      by (auto simp: bindP_eq_Some case_prod_unfold res_simps split: if_splits)
  next
    assume "parseexec (Suc n) line s = Some (Inl e)"
    then show "\<exists>msg. e = Panic msg" using l(3) parseredirs_error parseargs_error
      by (auto simp: case_prod_unfold res_simps split: if_splits)
  qed
qed simp

section \<open>Words in memory\<close>

text \<open>The words of a command from left to right.\<close>

fun words :: "'w cmd \<Rightarrow> 'w list" where
  "words (Exec ws) = ws"
| "words (Redir c w mode fd) = words c @ [w]"
| "words (Pipe l r) = words l @ words r"
| "words (Seq l r) = words l @ words r"
| "words (Back c) = words c"

lemma set_words: "set (words c) = set_cmd c"
  by (induction c) auto

lemma nulterminate_words: "nulterminate c m = foldl (\<lambda>m (q, eq). m[eq := NUL]) m (words c)"
  by (induction c m rule: nulterminate.induct) simp_all

lemma foldl_nuls:
  "length (foldl (\<lambda>m (q, eq). m[eq := NUL]) m ws) = length m"
  "i < length m \<Longrightarrow> foldl (\<lambda>m (q, eq). m[eq := NUL]) m ws ! i = (if i \<in> snd ` set ws then NUL else m ! i)"
  by (induction ws arbitrary: m) (auto simp: nth_list_update split: prod.splits)

lemma string_at_word:
  assumes "whole_word line (q, eq)" and "NUL \<notin> set line" and "\<And>w. w \<in> set ws \<Longrightarrow> whole_word line w" and "(q, eq) \<in> set ws"
  shows "string_at (foldl (\<lambda>m (q, eq). m[eq := NUL]) (line @ [NUL]) ws) q = take (eq - q) (drop q line)"
proof -
  let ?m = "foldl (\<lambda>m (q, eq). m[eq := NUL]) (line @ [NUL]) ws"
  note w = assms(1) [unfolded whole_word_def fst_conv snd_conv]
  have in_word: "?m ! i = line ! i" if "q \<le> i" "i < eq" for i
  proof -
    have "i \<notin> snd ` set ws"
    proof
      assume "i \<in> snd ` set ws"
      then obtain w' where "w' \<in> set ws" "i = snd w'" by blast
      with assms(3) [of w'] w that show False by (auto simp: whole_word_def)
    qed
    then show ?thesis using foldl_nuls(2) [of i "line @ [NUL]" ws] w that by (simp add: nth_append)
  qed
  have nul: "?m ! eq = NUL" using foldl_nuls(2) [of eq "line @ [NUL]" ws] w assms(4) by force
  have "takeWhile (\<lambda>c. c \<noteq> NUL) (drop q ?m) = take (eq - q) (drop q ?m)"
  proof (rule takeWhile_eq_take_P_nth)
    fix i assume "i < eq - q" "i < length (drop q ?m)"
    then show "drop q ?m ! i \<noteq> NUL" using in_word [of "q + i"] w assms(2) foldl_nuls(1) [of "line @ [NUL]" ws]
      by (auto simp: in_set_conv_nth)
  next
    assume "eq - q < length (drop q ?m)"
    then show "\<not> drop q ?m ! (eq - q) \<noteq> NUL" using nul w by simp
  qed
  also have "\<dots> = take (eq - q) (drop q line)"
    by (rule nth_equalityI) (use in_word w foldl_nuls(1) [of "line @ [NUL]" ws] in auto)
  finally show ?thesis by (simp add: string_at_def)
qed

lemma parsecmd_ok:
  assumes "parsecmd line = Some (Inr (m, c))"
  shows "m = foldl (\<lambda>m (q, eq). m[eq := NUL]) (line @ [NUL]) (words c)" and "\<And>w. w \<in> set (words c) \<Longrightarrow> whole_word line w"
proof -
  obtain s where p: "parseline (4 * length line + 4) line 0 = Some (Inr (c, s))" and m: "m = nulterminate c (line @ [NUL])"
    using assms by (auto simp: parsecmd_def bindP_eq_Some case_prod_unfold split: if_splits)
  show "m = foldl (\<lambda>m (q, eq). m[eq := NUL]) (line @ [NUL]) (words c)" using m by (simp add: nulterminate_words)
  show "whole_word line w" if "w \<in> set (words c)" for w
    using parse_ok [of 0 line, THEN conjunct1, THEN mp, OF _ p] that by (auto simp: parsed_def set_words)
qed

text \<open>C39: For every line the parser of the shell returns, with a command or with one of its messages.  Each
  word of the command is a whole word of the line, from its first character to the delimiter behind
  it; the nul bytes are written on those delimiters only, so the program reads every word from memory
  exactly as it stands in the line.\<close>

theorem sh_parser_words:
  assumes "NUL \<notin> set line"
  shows "\<exists>r. parsecmd line = Some r \<and> (case r of
      Inl e \<Rightarrow> (\<exists>msg. e = Panic msg)
    | Inr (m, c) \<Rightarrow> length m = length line + 1
        \<and> (\<forall>(q, eq) \<in> set (words c). whole_word line (q, eq) \<and> string_at m q = take (eq - q) (drop q line))
        \<and> (\<forall>i \<le> length line. i \<notin> snd ` set (words c) \<longrightarrow> m ! i = (line @ [NUL]) ! i))"
proof -
  have "parseline (4 * length line + 4) line 0 \<noteq> None" using parse_returns [of 0 line "4 * length line + 4"] by simp
  then obtain r where r: "parsecmd line = Some r" by (cases "parsecmd line") (auto simp: parsecmd_def bindP_eq_None case_prod_unfold split: if_splits)
  show ?thesis
  proof (cases r)
    case (Inl e)
    then have "\<exists>msg. e = Panic msg" using r parse_error [of "4 * length line + 4" line 0 e]
      by (auto simp: parsecmd_def bindP_eq_Some case_prod_unfold split: if_splits)
    with r Inl show ?thesis by simp
  next
    case (Inr mc)
    obtain m c where mc: "mc = (m, c)" by force
    note ok = parsecmd_ok [OF r [unfolded Inr mc]]
    have "whole_word line w \<and> string_at m (fst w) = take (snd w - fst w) (drop (fst w) line)" if "w \<in> set (words c)" for w
      using string_at_word [of line "fst w" "snd w" "words c"] assms ok that by simp
    moreover have "m ! i = (line @ [NUL]) ! i" if "i \<le> length line" "i \<notin> snd ` set (words c)" for i
      using foldl_nuls(2) [of i "line @ [NUL]" "words c"] that by (simp add: ok(1))
    moreover have "length m = length line + 1" by (simp add: ok(1) foldl_nuls(1))
    ultimately show ?thesis using r Inr mc by (intro exI [of _ r]) (auto simp: case_prod_unfold)
  qed
qed

section \<open>Printing and parsing\<close>

fun show_cmd :: "string cmd \<Rightarrow> string" where
  "show_cmd (Exec ws) = concat (map (\<lambda>w. w @ '' '') ws)"
| "show_cmd (Redir c file mode fd) = ''('' @ show_cmd c @ '')'' @ (if fd = 0 then ''<'' else ''>'') @ file @ '' ''"
| "show_cmd (Pipe l r) = ''('' @ show_cmd l @ '')|('' @ show_cmd r @ '')''"
| "show_cmd (Seq l r) = ''('' @ show_cmd l @ '');('' @ show_cmd r @ '')''"
| "show_cmd (Back c) = ''('' @ show_cmd c @ '')&''"

definition is_word :: "string \<Rightarrow> bool" where
  "is_word w \<longleftrightarrow> w \<noteq> [] \<and> NUL \<notin> set w \<and> (\<forall>c \<in> set w. word_char c)"

fun cmd_ok :: "string cmd \<Rightarrow> bool" where
  "cmd_ok (Exec ws) \<longleftrightarrow> length ws < MAXARGS \<and> (\<forall>w \<in> set ws. is_word w)"
| "cmd_ok (Redir c file mode fd) \<longleftrightarrow>
     cmd_ok c \<and> is_word file \<and> (mode = SH_O_RDONLY \<and> fd = 0 \<or> mode = SH_O_WRONLY + SH_O_CREATE \<and> fd = 1)"
| "cmd_ok (Pipe l r) \<longleftrightarrow> cmd_ok l \<and> cmd_ok r"
| "cmd_ok (Seq l r) \<longleftrightarrow> cmd_ok l \<and> cmd_ok r"
| "cmd_ok (Back c) \<longleftrightarrow> cmd_ok c"

abbreviation text_cmd :: "string \<Rightarrow> word_pos cmd \<Rightarrow> string cmd" where
  "text_cmd line \<equiv> map_cmd (\<lambda>(q, eq). take (eq - q) (drop q line))"

text \<open>Text that does not begin with white space, and text behind a command: the end or a parenthesis.\<close>

definition starts :: "string \<Rightarrow> bool" where "starts t \<longleftrightarrow> t = [] \<or> hd t \<notin> set whitespace"
definition follow :: "string \<Rightarrow> bool" where "follow t \<longleftrightarrow> t = [] \<or> hd t = CHR '')''"

lemma follow_starts: "follow t \<Longrightarrow> starts t"
  by (auto simp: follow_def starts_def whitespace_def)

lemma drop_more: "drop s line = t @ r \<Longrightarrow> drop (s + length t) line = r"
  by (metis append_eq_conv_conj drop_drop add.commute)

lemma drop_Cons: "drop s line = c # r \<Longrightarrow> drop (s + 1) line = r \<and> s < length line \<and> char_at line s = c"
proof -
  assume a: "drop s line = c # r"
  then have "s < length line" by (metis drop_all list.distinct(1) not_le)
  with a show ?thesis by (auto simp: char_at_def Cons_nth_drop_Suc [symmetric])
qed

lemma skip_starts: "drop s line = t \<Longrightarrow> starts t \<Longrightarrow> skip line s = s"
  by (cases t) (auto simp: skip_def starts_def)

lemma peek_text:
  assumes "drop s line = t" and "starts t"
  shows "peek line s toks = (s, t \<noteq> [] \<and> hd t \<noteq> NUL \<and> hd t \<in> set toks)"
proof (cases t)
  case Nil
  then show ?thesis using assms skip_starts [OF assms] by (simp add: peek_def char_at_def)
next
  case (Cons c r)
  then show ?thesis using drop_Cons [of s line c r] assms skip_starts [OF assms] by (simp add: peek_def)
qed

lemma gettoken_symbol:
  assumes "drop s line = c # r" and "c \<in> set ''|();&<''" and "starts r"
  shows "gettoken line s = (c, s, s + 1, s + 1)"
proof -
  have "starts (c # r)" using assms(2) by (auto simp: starts_def whitespace_def)
  then have "skip line s = s" by (rule skip_starts [OF assms(1)])
  moreover have "skip line (s + 1) = s + 1" using drop_Cons [OF assms(1)] assms(3) by (intro skip_starts) auto
  ultimately show ?thesis using drop_Cons [OF assms(1)] assms(2) by (auto simp: gettoken_def NUL_def Let_def)
qed

lemma gettoken_gt:
  assumes "drop s line = CHR ''>'' # c # r" and "word_char c"
  shows "gettoken line s = (CHR ''>'', s, s + 1, s + 1)"
proof -
  have "starts (CHR ''>'' # c # r)" "starts (c # r)" using assms(2) by (auto simp: starts_def whitespace_def word_char_def)
  then have "skip line s = s" "skip line (s + 1) = s + 1" using skip_starts [OF assms(1)] skip_starts [of "s + 1" line] drop_Cons [OF assms(1)] by auto
  moreover have "char_at line (s + 1) \<noteq> CHR ''>''"
    using drop_Cons [of "s + 1" line c r] drop_Cons [OF assms(1)] assms(2) by (auto simp: word_char_def symbols_def)
  ultimately show ?thesis using drop_Cons [OF assms(1)] by (simp add: gettoken_def NUL_def)
qed

lemma gettoken_word_text:
  assumes "drop s line = w @ CHR '' '' # r" and "is_word w" and "starts r"
  shows "gettoken line s = (CHR ''a'', s, s + length w, s + length w + 1)" and "take (length w) (drop s line) = w"
proof -
  obtain c w' where w: "w = c # w'" using assms(2) by (cases w) (auto simp: is_word_def)
  have c: "word_char c" "c \<noteq> NUL" using assms(2) w by (auto simp: is_word_def)
  then have "starts (w @ CHR '' '' # r)" by (auto simp: starts_def w word_char_def)
  then have s: "skip line s = s" by (rule skip_starts [OF assms(1)])
  have d: "drop (s + length w) line = CHR '' '' # r" "drop (s + length w + 1) line = r"
    using drop_more [OF assms(1)] drop_Cons by blast+
  have "skip line (s + length w) = s + length w + 1"
    using assms(3) d by (cases r) (auto simp: skip_def whitespace_def starts_def)
  moreover have "takeWhile word_char (drop s line) = w"
    unfolding assms(1) using assms(2) by (subst takeWhile_append2) (auto simp: is_word_def word_char_def whitespace_def)
  moreover have "char_at line s = c" using drop_Cons [of s line c] assms(1) by (simp add: w)
  moreover have "c \<notin> set ''|();&<''" "c \<noteq> CHR ''>''" using c by (auto simp: word_char_def symbols_def)
  ultimately show "gettoken line s = (CHR ''a'', s, s + length w, s + length w + 1)"
    using s c by (simp add: gettoken_def)
  show "take (length w) (drop s line) = w" by (simp add: assms(1))
qed

lemma parseredirs_none:
  assumes "drop s line = t" and "starts t" and "t = [] \<or> hd t \<notin> {CHR ''<'', CHR ''>''}"
  shows "parseredirs line s = Inr ([], s)"
  using peek_text [OF assms(1,2)] assms(3) by (subst parseredirs.simps) auto

lemma parseredirs_one:
  assumes "drop s line = (if fd = 0 then CHR ''<'' else CHR ''>'') # fname @ CHR '' '' # rest" and "is_word fname" and "follow rest"
    and "fd = (0 :: nat) \<or> fd = 1"
  shows "\<exists>w. parseredirs line s = Inr ([(w, if fd = 0 then SH_O_RDONLY else SH_O_WRONLY + SH_O_CREATE, fd)], s + length fname + 2)
    \<and> take (snd w - fst w) (drop (fst w) line) = fname"
proof -
  let ?c = "if fd = 0 then CHR ''<'' else CHR ''>''"
  obtain c f' where f: "fname = c # f'" using assms(2) by (cases fname) (auto simp: is_word_def)
  then have c: "word_char c" using assms(2) by (simp add: is_word_def)
  have d: "drop (s + 1) line = fname @ CHR '' '' # rest" using drop_Cons [OF assms(1)] by simp
  have "starts (?c # fname @ CHR '' '' # rest)" by (simp add: starts_def whitespace_def)
  then have pk: "peek line s ''<>'' = (s, True)" using peek_text [OF assms(1)] by (simp add: NUL_def)
  have "starts (fname @ CHR '' '' # rest)" using c by (simp add: f starts_def word_char_def)
  then have g1: "gettoken line s = (?c, s, s + 1, s + 1)"
    using gettoken_symbol [OF assms(1)] gettoken_gt [of s line c "f' @ CHR '' '' # rest"] assms(1) c f by (cases "fd = 0") simp_all
  note g2 = gettoken_word_text [OF d assms(2) follow_starts [OF assms(3)]]
  have e: "drop (s + 1 + length fname + 1) line = rest" using drop_more [of "s + 1" line "fname @ '' ''" rest] d by simp
  have "parseredirs line (s + 1 + length fname + 1) = Inr ([], s + 1 + length fname + 1)"
    by (rule parseredirs_none [OF e follow_starts [OF assms(3)]]) (use assms(3) in \<open>auto simp: follow_def\<close>)
  then have "parseredirs line s = Inr ([((s + 1, s + 1 + length fname), if fd = 0 then SH_O_RDONLY else SH_O_WRONLY + SH_O_CREATE, fd)], s + length fname + 2)"
    using pk g1 g2(1) assms(4) by (subst parseredirs.simps) auto
  with g2(2) show ?thesis by (intro exI [of _ "(s + 1, s + 1 + length fname)"]) simp
qed

lemma parseargs_text:
  assumes "drop s line = concat (map (\<lambda>w. w @ '' '') ws) @ rest" and "\<forall>w \<in> set ws. is_word w" and "follow rest" and "argc + length ws < MAXARGS"
  shows "\<exists>ps. parseargs line argc s = Inr (ps, [], s + length (concat (map (\<lambda>w. w @ '' '') ws)))
    \<and> map (\<lambda>(q, eq). take (eq - q) (drop q line)) ps = ws"
  using assms
proof (induction ws arbitrary: s argc)
  case Nil
  then have d: "drop s line = rest" by simp
  note pk = peek_text [OF d follow_starts [OF assms(3)], of "''|)&;''"]
  show ?case
  proof (cases rest)
    case Nil
    have "skip line s = s" by (rule skip_starts [OF d follow_starts [OF assms(3)]])
    moreover have "char_at line s = NUL" using d Nil by (simp add: char_at_def)
    ultimately have "gettoken line s = (NUL, s, s, s)" by (simp add: gettoken_def)
    with pk Nil show ?thesis by (subst parseargs.simps) simp
  next
    case (Cons c r)
    with pk assms(3) show ?thesis by (subst parseargs.simps) (simp add: follow_def NUL_def)
  qed
next
  case (Cons w ws)
  let ?t = "concat (map (\<lambda>w. w @ '' '') ws) @ rest"
  have d: "drop s line = w @ CHR '' '' # ?t" using Cons.prems(1) by simp
  have w: "is_word w" using Cons.prems(2) by simp
  obtain c w' where cw: "w = c # w'" using w by (cases w) (auto simp: is_word_def)
  have c: "word_char c" using w cw by (simp add: is_word_def)
  have t: "starts ?t \<and> (?t = [] \<or> hd ?t \<notin> {CHR ''<'', CHR ''>''})"
  proof (cases ws)
    case Nil
    then show ?thesis using assms(3) follow_starts by (auto simp: follow_def)
  next
    case (Cons v vs)
    then have v: "is_word v" using Cons.prems(2) by simp
    then obtain b v' where "v = b # v'" by (cases v) (auto simp: is_word_def)
    with v Cons show ?thesis
      by (auto simp: is_word_def starts_def word_char_def symbols_def)
  qed
  have "starts (w @ CHR '' '' # ?t)" using c by (simp add: cw starts_def word_char_def)
  then have pk: "peek line s ''|)&;'' = (s, False)" using peek_text [OF d] c by (auto simp: cw word_char_def symbols_def)
  note g = gettoken_word_text [OF d w t [THEN conjunct1]]
  have e: "drop (s + length w + 1) line = ?t" using drop_more [of s line "w @ '' ''" ?t] d by simp
  note r = parseredirs_none [OF e t [THEN conjunct1] t [THEN conjunct2]]
  have "argc + 1 + length ws < MAXARGS" using Cons.prems(4) by simp
  then obtain ps where ps: "parseargs line (argc + 1) (s + length w + 1)
      = Inr (ps, [], s + length w + 1 + length (concat (map (\<lambda>w. w @ '' '') ws)))"
      "map (\<lambda>(q, eq). take (eq - q) (drop q line)) ps = ws"
    using Cons.IH [OF e _ assms(3), of "argc + 1"] Cons.prems(2) by auto
  have "parseargs line argc s = Inr ((s, s + length w) # ps, [], s + length (concat (map (\<lambda>w. w @ '' '') (w # ws))))"
    using pk g(1) r ps(1) Cons.prems(4) by (subst parseargs.simps) (simp add: NUL_not_a)
  with ps(2) g(2) show ?case by (intro exI [of _ "(s, s + length w) # ps"]) simp
qed

text \<open>A line whose first part is parsed by \<open>parseexec\<close> and that ends there.\<close>

lemma parse_end:
  assumes "parseexec n line s = Some (Inr (c, s'))" and "drop s' line = rest" and "follow rest"
  shows "parsepipe (Suc n) line s = Some (Inr (c, s'))" and "parseline (Suc (Suc n)) line s = Some (Inr (c, s'))"
proof -
  have pk: "peek line s' ''|'' = (s', False)" "peek line s' ''&'' = (s', False)" "peek line s' '';'' = (s', False)"
    using peek_text [OF assms(2) follow_starts [OF assms(3)]] assms(3) by (auto simp: follow_def)
  then show pp: "parsepipe (Suc n) line s = Some (Inr (c, s'))" using assms(1) by simp
  have "parsebacks line c s' = (c, s')" using pk(2) by (subst parsebacks.simps) simp
  with pp pk(3) show "parseline (Suc (Suc n)) line s = Some (Inr (c, s'))" by simp
qed

text \<open>What is to be shown of the text of a command.\<close>

definition reads_back :: "string cmd \<Rightarrow> bool" where
  "reads_back c \<longleftrightarrow> (\<forall>n line s rest. drop s line = show_cmd c @ rest \<longrightarrow> follow rest \<longrightarrow> s \<le> length line \<longrightarrow> 4 * (length line - s) + 4 \<le> n \<longrightarrow>
     (\<exists>c'. parseline n line s = Some (Inr (c', s + length (show_cmd c))) \<and> text_cmd line c' = c))"

lemma reads_backD:
  assumes "reads_back c" and "drop s line = show_cmd c @ rest" and "follow rest" and "s \<le> length line" and "4 * (length line - s) + 4 \<le> n"
  obtains c' where "parseline n line s = Some (Inr (c', s + length (show_cmd c)))" "text_cmd line c' = c"
  using assms unfolding reads_back_def by blast

lemma show_starts:
  assumes "cmd_ok c" and "follow rest"
  shows "starts (show_cmd c @ rest)"
proof (cases c)
  case (Exec ws)
  then show ?thesis using assms follow_starts by (cases ws) (auto simp: is_word_def starts_def word_char_def neq_Nil_conv)
qed (auto simp: starts_def whitespace_def)

lemma parse_block_text:
  assumes c: "reads_back c" and ok: "cmd_ok c" and d: "drop s line = ''('' @ show_cmd c @ '')'' @ rest" and r: "starts rest" and s: "s \<le> length line"
    and n: "4 * (length line - s) + 2 \<le> n" and rs: "parseredirs line (s + length (show_cmd c) + 2) = Inr (rs, s')"
  obtains c' where "parseexec n line s = Some (Inr (wrap c' rs, s'))" "text_cmd line c' = c"
proof -
  let ?k = "length (show_cmd c)"
  define m where "m = n - 2"
  have m: "n = Suc (Suc m)" using n by (simp add: m_def)
  have f: "follow (CHR '')'' # rest)" by (simp add: follow_def)
  have dC: "drop s line = CHR ''('' # show_cmd c @ CHR '')'' # rest" using d by simp
  have d1: "drop (s + 1) line = show_cmd c @ CHR '')'' # rest" "s < length line" using drop_Cons [OF dC] by auto
  have d2: "drop (s + 1 + ?k) line = CHR '')'' # rest" by (rule drop_more [OF d1(1)])
  have n4: "4 * (length line - (s + 1)) + 4 \<le> m" "s + 1 \<le> length line" using n m d1(2) by linarith+
  obtain c' where c': "parseline m line (s + 1) = Some (Inr (c', s + 1 + ?k))" "text_cmd line c' = c"
    by (rule reads_backD [OF c d1(1) f n4(2,1)])
  have pk: "peek line s ''('' = (s, True)" using peek_text [OF dC] by (simp add: starts_def whitespace_def NUL_def)
  have g: "gettoken line s = (CHR ''('', s, s + 1, s + 1)" by (rule gettoken_symbol [OF dC _ show_starts [OF ok f]]) simp
  have pk2: "peek line (s + 1 + ?k) '')'' = (s + 1 + ?k, True)" using peek_text [OF d2] by (simp add: starts_def whitespace_def NUL_def)
  have g2: "gettoken line (s + 1 + ?k) = (CHR '')'', s + 1 + ?k, s + 1 + ?k + 1, s + 1 + ?k + 1)" by (rule gettoken_symbol [OF d2 _ r]) simp
  have "parseblock (Suc m) line s = Some (Inr (wrap c' rs, s'))" using pk g c'(1) pk2 g2 rs by simp
  then have "parseexec n line s = Some (Inr (wrap c' rs, s'))" using pk by (simp add: m)
  with that c'(2) show thesis by blast
qed

text \<open>Two blocks with a symbol between them.\<close>

lemma second_block:
  assumes "drop s line = ''('' @ show_cmd l @ '')'' @ sy # ''('' @ show_cmd r @ '')'' @ rest" and "sy \<in> {CHR ''|'', CHR '';''}" and "follow rest"
  shows "parseredirs line (s + length (show_cmd l) + 2) = Inr ([], s + length (show_cmd l) + 2)"
    and "peek line (s + length (show_cmd l) + 2) [sy] = (s + length (show_cmd l) + 2, True)"
    and "\<And>t. t \<noteq> sy \<Longrightarrow> peek line (s + length (show_cmd l) + 2) [t] = (s + length (show_cmd l) + 2, False)"
    and "gettoken line (s + length (show_cmd l) + 2) = (sy, s + length (show_cmd l) + 2, s + length (show_cmd l) + 3, s + length (show_cmd l) + 3)"
    and "drop (s + length (show_cmd l) + 3) line = ''('' @ show_cmd r @ '')'' @ rest" and "s + length (show_cmd l) + 3 \<le> length line"
    and "parseredirs line (s + length (show_cmd l) + 3 + length (show_cmd r) + 2) = Inr ([], s + length (show_cmd l) + 3 + length (show_cmd r) + 2)"
    and "drop (s + length (show_cmd l) + 3 + length (show_cmd r) + 2) line = rest"
proof -
  have d: "drop (s + length (show_cmd l) + 2) line = sy # ''('' @ show_cmd r @ '')'' @ rest"
    using drop_more [of s line "''('' @ show_cmd l @ '')''"] assms(1) by simp
  have st: "starts (sy # ''('' @ show_cmd r @ '')'' @ rest)" using assms(2) by (auto simp: starts_def whitespace_def)
  show "parseredirs line (s + length (show_cmd l) + 2) = Inr ([], s + length (show_cmd l) + 2)"
    by (rule parseredirs_none [OF d st]) (use assms(2) in auto)
  show "peek line (s + length (show_cmd l) + 2) [sy] = (s + length (show_cmd l) + 2, True)"
    "\<And>t. t \<noteq> sy \<Longrightarrow> peek line (s + length (show_cmd l) + 2) [t] = (s + length (show_cmd l) + 2, False)"
    using peek_text [OF d st] assms(2) by (auto simp: NUL_def)
  show "gettoken line (s + length (show_cmd l) + 2) = (sy, s + length (show_cmd l) + 2, s + length (show_cmd l) + 3, s + length (show_cmd l) + 3)"
    using gettoken_symbol [OF d] assms(2) by (auto simp: starts_def whitespace_def numeral_3_eq_3)
  show d3: "drop (s + length (show_cmd l) + 3) line = ''('' @ show_cmd r @ '')'' @ rest" and "s + length (show_cmd l) + 3 \<le> length line"
    using drop_Cons [OF d] by (simp_all add: numeral_3_eq_3)
  show d5: "drop (s + length (show_cmd l) + 3 + length (show_cmd r) + 2) line = rest"
    using drop_more [of "s + length (show_cmd l) + 3" line "''('' @ show_cmd r @ '')''" rest] d3 by simp
  show "parseredirs line (s + length (show_cmd l) + 3 + length (show_cmd r) + 2) = Inr ([], s + length (show_cmd l) + 3 + length (show_cmd r) + 2)"
    by (rule parseredirs_none [OF d5 follow_starts [OF assms(3)]]) (use assms(3) in \<open>auto simp: follow_def\<close>)
qed

lemma map_wrap: "map_cmd f (wrap c rs) = wrap (map_cmd f c) (map (\<lambda>(w, mode, fd). (f w, mode, fd)) rs)"
  unfolding wrap_def by (induction rs arbitrary: c) (auto simp: case_prod_unfold)

lemma show_reads_back: "cmd_ok c \<Longrightarrow> reads_back c"
proof (induction c)
  case (Exec ws)
  show ?case
    unfolding reads_back_def
  proof (intro allI impI)
    fix n :: nat and line s rest
    assume d: "drop s line = show_cmd (Exec ws) @ rest" and f: "follow rest" and s: "s \<le> length line" and n: "4 * (length line - s) + 4 \<le> n"
    define m where "m = n - 3"
    have m: "n = Suc (Suc (Suc m))" using n by (simp add: m_def)
    have st: "starts (show_cmd (Exec ws) @ rest)" by (rule show_starts [OF Exec f])
    have hd: "show_cmd (Exec ws) @ rest = [] \<or> hd (show_cmd (Exec ws) @ rest) \<notin> {CHR ''('', CHR ''<'', CHR ''>''}"
    proof (cases ws)
      case (Cons w vs)
      then have "is_word w" using Exec by simp
      then show ?thesis using Cons by (cases w) (auto simp: is_word_def word_char_def symbols_def)
    qed (use f in \<open>auto simp: follow_def\<close>)
    have pk: "peek line s ''('' = (s, False)" using peek_text [OF d st] hd by auto
    have r: "parseredirs line s = Inr ([], s)" by (rule parseredirs_none [OF d st]) (use hd in auto)
    obtain ps where ps: "parseargs line 0 s = Inr (ps, [], s + length (show_cmd (Exec ws)))" "map (\<lambda>(q, eq). take (eq - q) (drop q line)) ps = ws"
      using parseargs_text [of s line ws rest 0] d f Exec by auto
    have e: "parseexec (Suc m) line s = Some (Inr (Exec ps, s + length (show_cmd (Exec ws))))"
      using pk r ps(1) by (simp add: wrap_def)
    show "\<exists>c'. parseline n line s = Some (Inr (c', s + length (show_cmd (Exec ws)))) \<and> text_cmd line c' = Exec ws"
      using parse_end(2) [OF e drop_more [OF d] f] ps(2) unfolding m by auto
  qed
next
  case (Redir c fname mode fd)
  then have c: "reads_back c" "cmd_ok c" "is_word fname" and md: "fd = 0 \<and> mode = SH_O_RDONLY \<or> fd = 1 \<and> mode = SH_O_WRONLY + SH_O_CREATE" by auto
  show ?case
    unfolding reads_back_def
  proof (intro allI impI)
    fix n :: nat and line s rest
    assume d: "drop s line = show_cmd (Redir c fname mode fd) @ rest" and f: "follow rest" and s: "s \<le> length line"
      and n: "4 * (length line - s) + 4 \<le> n"
    define m where "m = n - 2"
    have m: "n = Suc (Suc m)" "4 * (length line - s) + 2 \<le> m" using n by (simp_all add: m_def)
    let ?r = "(if fd = 0 then CHR ''<'' else CHR ''>'') # fname @ CHR '' '' # rest"
    have d': "drop s line = ''('' @ show_cmd c @ '')'' @ ?r" using d by simp
    have d2: "drop (s + length (show_cmd c) + 2) line = ?r" using drop_more [of s line "''('' @ show_cmd c @ '')''" ?r] d' by simp
    obtain w where w: "parseredirs line (s + length (show_cmd c) + 2)
        = Inr ([(w, if fd = 0 then SH_O_RDONLY else SH_O_WRONLY + SH_O_CREATE, fd)], s + length (show_cmd c) + 2 + length fname + 2)"
        "take (snd w - fst w) (drop (fst w) line) = fname"
      using parseredirs_one [OF d2 c(3) f] md by blast
    have "starts ?r" by (simp add: starts_def whitespace_def)
    then obtain c' where c': "parseexec m line s = Some (Inr (wrap c' [(w, if fd = 0 then SH_O_RDONLY else SH_O_WRONLY + SH_O_CREATE, fd)],
        s + length (show_cmd c) + 2 + length fname + 2))" "text_cmd line c' = c"
      by (rule parse_block_text [OF c(1,2) d' _ s m(2) w(1)])
    have l: "s + length (show_cmd c) + 2 + length fname + 2 = s + length (show_cmd (Redir c fname mode fd))" by simp
    have "text_cmd line (wrap c' [(w, if fd = 0 then SH_O_RDONLY else SH_O_WRONLY + SH_O_CREATE, fd)]) = Redir c fname mode fd"
      using c'(2) w(2) md by (auto simp: wrap_def case_prod_unfold)
    then show "\<exists>c'. parseline n line s = Some (Inr (c', s + length (show_cmd (Redir c fname mode fd)))) \<and> text_cmd line c' = Redir c fname mode fd"
      using parse_end(2) [OF c'(1) [unfolded l] drop_more [OF d] f] unfolding m(1) by blast
  qed
next
  case (Pipe l r)
  then have c: "reads_back l" "cmd_ok l" "reads_back r" "cmd_ok r" by auto
  show ?case
    unfolding reads_back_def
  proof (intro allI impI)
    fix n :: nat and line s rest
    assume d: "drop s line = show_cmd (Pipe l r) @ rest" and f: "follow rest" and s: "s \<le> length line" and n: "4 * (length line - s) + 4 \<le> n"
    define m where "m = n - 3"
    have m: "n = Suc (Suc (Suc m))" "4 * (length line - s) + 2 \<le> Suc m" using n by (simp_all add: m_def)
    have d': "drop s line = ''('' @ show_cmd l @ '')'' @ CHR ''|'' # ''('' @ show_cmd r @ '')'' @ rest" using d by simp
    have sy: "CHR ''|'' \<in> {CHR ''|'', CHR '';''}" by simp
    note b = second_block [OF d' sy f]
    have st: "starts (CHR ''|'' # ''('' @ show_cmd r @ '')'' @ rest)" by (simp add: starts_def whitespace_def)
    obtain l' where l': "parseexec (Suc m) line s = Some (Inr (wrap l' [], s + length (show_cmd l) + 2))" "text_cmd line l' = l"
      by (rule parse_block_text [OF c(1,2) d' st s m(2) b(1)])
    have m2: "4 * (length line - (s + length (show_cmd l) + 3)) + 2 \<le> m" using n b(6) unfolding m_def by linarith
    obtain r' where r': "parseexec m line (s + length (show_cmd l) + 3) = Some (Inr (wrap r' [], s + length (show_cmd l) + 3 + length (show_cmd r) + 2))"
        "text_cmd line r' = r"
      by (rule parse_block_text [OF c(3,4) b(5) follow_starts [OF f] b(6) m2 b(7)])
    have len: "s + length (show_cmd l) + 3 + length (show_cmd r) + 2 = s + length (show_cmd (Pipe l r))" by simp
    note p2 = parse_end(1) [OF r'(1) b(8) f]
    have pk: "peek line (s + length (show_cmd l) + 2) ''|'' = (s + length (show_cmd l) + 2, True)" using b(2) by simp
    have "parsepipe (Suc (Suc m)) line s = Some (Inr (Pipe l' r', s + length (show_cmd (Pipe l r))))"
      unfolding parsepipe.simps(2) [of "Suc m"] l'(1) using pk b(4) p2 len by (simp add: wrap_def)
    moreover have "peek line (s + length (show_cmd (Pipe l r))) ''&'' = (s + length (show_cmd (Pipe l r)), False)"
        "peek line (s + length (show_cmd (Pipe l r))) '';'' = (s + length (show_cmd (Pipe l r)), False)"
      using peek_text [OF drop_more [OF d] follow_starts [OF f]] f by (auto simp: follow_def)
    moreover from this(1) have "parsebacks line (Pipe l' r') (s + length (show_cmd (Pipe l r))) = (Pipe l' r', s + length (show_cmd (Pipe l r)))"
      by (subst parsebacks.simps) simp
    ultimately show "\<exists>c'. parseline n line s = Some (Inr (c', s + length (show_cmd (Pipe l r)))) \<and> text_cmd line c' = Pipe l r"
      unfolding m(1) parseline.simps(2) using l'(2) r'(2) by simp
  qed
next
  case (Seq l r)
  then have c: "reads_back l" "cmd_ok l" "reads_back r" "cmd_ok r" by auto
  show ?case
    unfolding reads_back_def
  proof (intro allI impI)
    fix n :: nat and line s rest
    assume d: "drop s line = show_cmd (Seq l r) @ rest" and f: "follow rest" and s: "s \<le> length line" and n: "4 * (length line - s) + 4 \<le> n"
    define m where "m = n - 3"
    have m: "n = Suc (Suc (Suc m))" "4 * (length line - s) + 2 \<le> Suc m" using n by (simp_all add: m_def)
    have d': "drop s line = ''('' @ show_cmd l @ '')'' @ CHR '';'' # ''('' @ show_cmd r @ '')'' @ rest" using d by simp
    have sy: "CHR '';'' \<in> {CHR ''|'', CHR '';''}" by simp
    note b = second_block [OF d' sy f]
    have st: "starts (CHR '';'' # ''('' @ show_cmd r @ '')'' @ rest)" by (simp add: starts_def whitespace_def)
    obtain l' where l': "parseexec (Suc m) line s = Some (Inr (wrap l' [], s + length (show_cmd l) + 2))" "text_cmd line l' = l"
      by (rule parse_block_text [OF c(1,2) d' st s m(2) b(1)])
    have m2: "4 * (length line - (s + length (show_cmd l) + 3)) + 2 \<le> m" using n b(6) unfolding m_def by linarith
    obtain r' where r': "parseexec m line (s + length (show_cmd l) + 3) = Some (Inr (wrap r' [], s + length (show_cmd l) + 3 + length (show_cmd r) + 2))"
        "text_cmd line r' = r"
      by (rule parse_block_text [OF c(3,4) b(5) follow_starts [OF f] b(6) m2 b(7)])
    have len: "s + length (show_cmd l) + 3 + length (show_cmd r) + 2 = s + length (show_cmd (Seq l r))" by simp
    note p2 = parse_end(2) [OF r'(1) b(8) f]
    have pk: "peek line (s + length (show_cmd l) + 2) '';'' = (s + length (show_cmd l) + 2, True)"
        "peek line (s + length (show_cmd l) + 2) ''|'' = (s + length (show_cmd l) + 2, False)"
        "peek line (s + length (show_cmd l) + 2) ''&'' = (s + length (show_cmd l) + 2, False)" using b(2,3) by simp_all
    have "parsepipe (Suc (Suc m)) line s = Some (Inr (l', s + length (show_cmd l) + 2))"
      unfolding parsepipe.simps(2) [of "Suc m"] l'(1) using pk(2) by (simp add: wrap_def)
    moreover have "parsebacks line l' (s + length (show_cmd l) + 2) = (l', s + length (show_cmd l) + 2)"
      using pk(3) by (subst parsebacks.simps) simp
    moreover have "parseline (Suc (Suc m)) line (s + length (show_cmd l) + 3) = Some (Inr (r', s + length (show_cmd (Seq l r))))"
      using p2 len by (simp add: wrap_def del: parseline.simps)
    ultimately show "\<exists>c'. parseline n line s = Some (Inr (c', s + length (show_cmd (Seq l r)))) \<and> text_cmd line c' = Seq l r"
      unfolding m(1) parseline.simps(2) [of "Suc (Suc m)"] using pk(1) b(4) l'(2) r'(2)
      by (simp add: wrap_def del: parseline.simps parsepipe.simps)
  qed
next
  case (Back c)
  then have c: "reads_back c" "cmd_ok c" by auto
  show ?case
    unfolding reads_back_def
  proof (intro allI impI)
    fix n :: nat and line s rest
    assume d: "drop s line = show_cmd (Back c) @ rest" and f: "follow rest" and s: "s \<le> length line" and n: "4 * (length line - s) + 4 \<le> n"
    define m where "m = n - 3"
    have m: "n = Suc (Suc (Suc m))" "4 * (length line - s) + 2 \<le> Suc m" using n by (simp_all add: m_def)
    let ?k = "s + length (show_cmd c) + 2"
    have d': "drop s line = ''('' @ show_cmd c @ '')'' @ CHR ''&'' # rest" using d by simp
    have d2: "drop ?k line = CHR ''&'' # rest" using drop_more [of s line "''('' @ show_cmd c @ '')''" "CHR ''&'' # rest"] d' by simp
    have st: "starts (CHR ''&'' # rest)" by (simp add: starts_def whitespace_def)
    have b: "parseredirs line ?k = Inr ([], ?k)" by (rule parseredirs_none [OF d2 st]) simp
    obtain c' where c': "parseexec (Suc m) line s = Some (Inr (wrap c' [], ?k))" "text_cmd line c' = c"
      by (rule parse_block_text [OF c d' st s m(2) b])
    have pk: "peek line ?k ''|'' = (?k, False)" "peek line ?k ''&'' = (?k, True)" using peek_text [OF d2 st] by (simp_all add: NUL_def)
    have g: "gettoken line ?k = (CHR ''&'', ?k, ?k + 1, ?k + 1)" by (rule gettoken_symbol [OF d2 _ follow_starts [OF f]]) simp
    have d3: "drop (?k + 1) line = rest" using drop_Cons [OF d2] by simp
    have pk3: "peek line (?k + 1) ''&'' = (?k + 1, False)" "peek line (?k + 1) '';'' = (?k + 1, False)"
      using peek_text [OF d3 follow_starts [OF f]] f by (auto simp: follow_def)
    have "parsepipe (Suc (Suc m)) line s = Some (Inr (c', ?k))"
      unfolding parsepipe.simps(2) [of "Suc m"] c'(1) using pk(1) by (simp add: wrap_def)
    moreover have "parsebacks line c' ?k = (Back c', ?k + 1)"
    proof -
      have "parsebacks line (Back c') (?k + 1) = (Back c', ?k + 1)" using pk3(1) by (subst parsebacks.simps) simp
      then show ?thesis using pk(2) g by (subst parsebacks.simps) simp
    qed
    ultimately show "\<exists>c'. parseline n line s = Some (Inr (c', s + length (show_cmd (Back c)))) \<and> text_cmd line c' = Back c"
      unfolding m(1) parseline.simps(2) [of "Suc (Suc m)"] using pk3(2) c'(2) by simp
  qed
qed

text \<open>C38: The parser of the shell inverts printing: for every command built from words without delimiters,
  with fewer than \<open>MAXARGS\<close> words for each program, the text of the command is parsed, and the command
  the shell then reads from memory, with its words ended by nul bytes, is the printed one.\<close>

theorem sh_print_parse:
  assumes "cmd_ok c"
  shows "\<exists>m c'. parsecmd (show_cmd c) = Some (Inr (m, c')) \<and> read_cmd m c' = c"
proof -
  let ?l = "show_cmd c"
  have d: "drop 0 ?l = show_cmd c @ []" and f: "follow []" and n: "4 * (length ?l - 0) + 4 \<le> 4 * length ?l + 4"
    by (simp_all add: follow_def)
  obtain c' where c': "parseline (4 * length ?l + 4) ?l 0 = Some (Inr (c', 0 + length ?l))" "text_cmd ?l c' = c"
    by (rule reads_backD [OF show_reads_back [OF assms] d f _ n]) simp_all
  have "skip ?l (length ?l) = length ?l" by (simp add: skip_def)
  then have run: "parsecmd ?l = Some (Inr (nulterminate c' (?l @ [NUL]), c'))" using c'(1) by (simp add: parsecmd_def peek_def)
  have "NUL \<notin> set ?l" using assms by (induction c) (auto simp: NUL_def is_word_def)
  then have "string_at (nulterminate c' (?l @ [NUL])) q = take (eq - q) (drop q ?l)" if "(q, eq) \<in> set_cmd c'" for q eq
    using string_at_word [of ?l q eq "words c'"] parsecmd_ok [OF run] that by (simp add: set_words)
  then have "read_cmd (nulterminate c' (?l @ [NUL])) c' = text_cmd ?l c'" by (intro cmd.map_cong0) auto
  with run c'(2) show ?thesis by auto
qed

theorem sh_parser_words_witness:
  "NUL \<notin> set ''echo hi > a'' \<and> (\<exists>r. parsecmd ''echo hi > a'' = Some r)"
proof -
  have "NUL \<notin> set ''echo hi > a''" by (simp add: NUL_def)
  with sh_parser_words [OF this] show ?thesis by blast
qed

theorem sh_print_parse_witness:
  "\<exists>m c'. parsecmd (show_cmd (Pipe (Exec [''ls'']) (Redir (Exec [''wc'', ''-l'']) ''out'' (SH_O_WRONLY + SH_O_CREATE) 1))) = Some (Inr (m, c'))
     \<and> read_cmd m c' = Pipe (Exec [''ls'']) (Redir (Exec [''wc'', ''-l'']) ''out'' (SH_O_WRONLY + SH_O_CREATE) 1)"
  by (rule sh_print_parse) (simp add: is_word_def word_char_def whitespace_def symbols_def NUL_def MAXARGS_def)

end
