(* ===== verification/Sh_Run.thy ===== *)
theory Sh_Run
  imports Sh
begin

text \<open>
  The running of commands (\<open>runcmd\<close>, \<open>main\<close> of \<open>sh.c\<close>): which programs are started, with which
  descriptors.  A process is its table of descriptors; \<open>open\<close>, \<open>dup\<close> and \<open>pipe\<close> give the lowest free
  ones, as the kernel's \<open>fdalloc\<close> does.  The outcomes of the system calls are a parameter.
\<close>

section \<open>Processes\<close>

datatype desc = Terminal | Open_file string int | Pipe_read nat | Pipe_write nat

type_synonym fdtab = "nat \<Rightarrow> desc option"

text \<open>Does the call succeed?  \<open>fork\<close> and \<open>pipe\<close> are asked by the number of the call.\<close>

record os =
  os_exec :: "string \<Rightarrow> bool"
  os_open :: "string \<Rightarrow> int \<Rightarrow> bool"
  os_fork :: "nat \<Rightarrow> bool"
  os_pipe :: "nat \<Rightarrow> bool"

text \<open>The programs started so far with their descriptors, the messages, the calls of \<open>fork\<close> and \<open>pipe\<close>.\<close>

record shell =
  sh_started :: "(string list \<times> fdtab) list"
  sh_messages :: "string list"
  sh_forks :: nat
  sh_pipes :: nat

definition message :: "string \<Rightarrow> shell \<Rightarrow> shell" where
  "message m st = st\<lparr>sh_messages := sh_messages st @ [m]\<rparr>"

text \<open>\<open>fork1\<close>: the child runs, then the parent goes on; a failure ends the process with a message.\<close>

definition fork1 :: "os \<Rightarrow> (shell \<Rightarrow> shell) \<Rightarrow> (shell \<Rightarrow> shell) \<Rightarrow> shell \<Rightarrow> shell" where
  "fork1 os child parent st =
     (let ok = os_fork os (sh_forks st); st = st\<lparr>sh_forks := sh_forks st + 1\<rparr> in
      if ok then parent (child st) else message ''fork'' st)"

definition lowest_free :: "fdtab \<Rightarrow> nat option" where
  "lowest_free t = find (\<lambda>d. t d = None) [0..<16]"

definition fd_dup :: "nat \<Rightarrow> fdtab \<Rightarrow> fdtab" where
  "fd_dup d t = (case lowest_free t of Some d' \<Rightarrow> t(d' := t d) | None \<Rightarrow> t)"

text \<open>Descriptors for both ends of pipe \<open>n\<close>, the one to read from first.\<close>

definition fd_pipe :: "nat \<Rightarrow> fdtab \<Rightarrow> (nat \<times> nat \<times> fdtab) option" where
  "fd_pipe n t =
     (case lowest_free t of
        None \<Rightarrow> None
      | Some p0 \<Rightarrow>
          (let t = t(p0 \<mapsto> Pipe_read n) in
           case lowest_free t of None \<Rightarrow> None | Some p1 \<Rightarrow> Some (p0, p1, t(p1 \<mapsto> Pipe_write n))))"

section \<open>runcmd\<close>

fun runcmd :: "os \<Rightarrow> string cmd \<Rightarrow> fdtab \<Rightarrow> shell \<Rightarrow> shell" where
  "runcmd os (Exec []) t st = st"
| "runcmd os (Exec (arg # args)) t st =
     (if os_exec os arg then st\<lparr>sh_started := sh_started st @ [(arg # args, t)]\<rparr>
      else message (''exec '' @ arg @ '' failed'') st)"
| "runcmd os (Redir c fname mode fd) t st =
     (let t = t(fd := None) in
      case lowest_free t of
        Some d \<Rightarrow> if os_open os fname mode then runcmd os c (t(d \<mapsto> Open_file fname mode)) st
                  else message (''open '' @ fname @ '' failed'') st
      | None \<Rightarrow> message (''open '' @ fname @ '' failed'') st)"
| "runcmd os (Seq l r) t st = fork1 os (runcmd os l t) (runcmd os r t) st"
| "runcmd os (Pipe l r) t st =
     (let ok = os_pipe os (sh_pipes st); n = sh_pipes st; st = st\<lparr>sh_pipes := sh_pipes st + 1\<rparr> in
      case (if ok then fd_pipe n t else None) of
        None \<Rightarrow> message ''pipe'' st
      | Some (p0, p1, t) \<Rightarrow>
          fork1 os
            (runcmd os l ((fd_dup p1 (t(1 := None)))(p0 := None, p1 := None)))
            (fork1 os (runcmd os r ((fd_dup p0 (t(0 := None)))(p0 := None, p1 := None))) (\<lambda>st. st)) st)"
| "runcmd os (Back c) t st = fork1 os (runcmd os c t) (\<lambda>st. st) st"

section \<open>main\<close>

text \<open>\<open>gets\<close> with room for \<open>n\<close> characters: the line and the rest of the input.\<close>

fun gets_line :: "nat \<Rightarrow> string \<Rightarrow> string \<times> string" where
  "gets_line 0 input = ([], input)"
| "gets_line (Suc n) [] = ([], [])"
| "gets_line (Suc n) (c # input) =
     (if c = CHR 0x0A \<or> c = CHR 0x0D then ([c], input)
      else case gets_line n input of (line, input) \<Rightarrow> (c # line, input))"

definition getcmd :: "string \<Rightarrow> string \<times> string" where
  "getcmd input = (case gets_line 199 input of (buf, input) \<Rightarrow> (takeWhile (\<lambda>c. c \<noteq> NUL) buf, input))"

datatype action = Chdir string | Command string

lemma gets_line_length: "gets_line n input = (line, rest) \<Longrightarrow> length input = length line + length rest"
  by (induction n input arbitrary: line rest rule: gets_line.induct) (auto split: if_splits prod.splits)

lemma getcmd_length: "getcmd input = (buf, rest) \<Longrightarrow> buf \<noteq> [] \<Longrightarrow> length rest < length input"
  using gets_line_length [of 199 input] length_takeWhile_le [of "\<lambda>c. c \<noteq> NUL"]
  by (auto simp: getcmd_def split: prod.splits)

function sh_main :: "string \<Rightarrow> action list" where
  "sh_main input =
     (case getcmd input of (buf, input) \<Rightarrow>
        if buf = [] then []
        else (if take 3 buf = ''cd '' then Chdir (drop 3 (butlast buf)) else Command buf) # sh_main input)"
  by pat_completeness auto
termination
  by (relation "measure length") (auto dest: getcmd_length [OF sym])

declare sh_main.simps [simp del]

text \<open>The child that runs a command of the user.\<close>

definition run_line :: "os \<Rightarrow> string \<Rightarrow> fdtab \<Rightarrow> shell \<Rightarrow> shell option" where
  "run_line os line t st =
     map_option (\<lambda>r. case r of
         Inr (m, c) \<Rightarrow> runcmd os (read_cmd m c) t st
       | Inl (Panic msg) \<Rightarrow> message msg st
       | Inl _ \<Rightarrow> st) (parsecmd line)"

section \<open>What the command says\<close>

text \<open>The programs of a command with their input and output; pipes are numbered from \<open>n\<close> on.\<close>

fun wiring :: "string cmd \<Rightarrow> desc \<Rightarrow> desc \<Rightarrow> nat \<Rightarrow> (string list \<times> desc \<times> desc) list \<times> nat" where
  "wiring (Exec ws) i out n = ((if ws = [] then [] else [(ws, i, out)]), n)"
| "wiring (Redir c fname mode fd) i out n =
     (if fd = 0 then wiring c (Open_file fname mode) out n else wiring c i (Open_file fname mode) n)"
| "wiring (Seq l r) i out n =
     (case wiring l i out n of (xs, n) \<Rightarrow> case wiring r i out n of (ys, n) \<Rightarrow> (xs @ ys, n))"
| "wiring (Pipe l r) i out n =
     (case wiring l i (Pipe_write n) (n + 1) of (xs, m) \<Rightarrow> case wiring r (Pipe_read n) out m of (ys, k) \<Rightarrow> (xs @ ys, k))"
| "wiring (Back c) i out n = wiring c i out n"

definition std_fds :: "desc \<Rightarrow> desc \<Rightarrow> desc \<Rightarrow> fdtab" where
  "std_fds i out err = [0 \<mapsto> i, 1 \<mapsto> out, 2 \<mapsto> err]"

fun redirs_ok :: "string cmd \<Rightarrow> bool" where
  "redirs_ok (Exec ws) \<longleftrightarrow> True"
| "redirs_ok (Redir c fname mode fd) \<longleftrightarrow> (fd = 0 \<or> fd = 1) \<and> redirs_ok c"
| "redirs_ok (Pipe l r) \<longleftrightarrow> redirs_ok l \<and> redirs_ok r"
| "redirs_ok (Seq l r) \<longleftrightarrow> redirs_ok l \<and> redirs_ok r"
| "redirs_ok (Back c) \<longleftrightarrow> redirs_ok c"

lemma upt16: "[0..<16] = [0, 1, 2, 3, 4] @ [5..<16 :: nat]"
  by (simp add: upt_rec)

lemma std_cases: "std_fds i out err d = (if d = 0 then Some i else if d = 1 then Some out else if d = 2 then Some err else None)"
  by (simp add: std_fds_def)

lemma lowest_std:
  "lowest_free ((std_fds i out err)(0 := None)) = Some 0" "lowest_free ((std_fds i out err)(1 := None)) = Some 1"
  "lowest_free (std_fds i out err) = Some 3" "lowest_free ((std_fds i out err)(3 \<mapsto> x)) = Some 4"
  "lowest_free ((std_fds i out err)(3 \<mapsto> x, 4 \<mapsto> y, 0 := None)) = Some 0" "lowest_free ((std_fds i out err)(3 \<mapsto> x, 4 \<mapsto> y, 1 := None)) = Some 1"
  unfolding lowest_free_def upt16 by (simp_all add: std_fds_def)

lemma upd_std:
  "(std_fds i out err)(0 \<mapsto> x) = std_fds x out err" "(std_fds i out err)(1 \<mapsto> x) = std_fds i x err"
  by (auto simp: std_cases fun_eq_iff)

lemmas std_simps = lowest_std lowest_std [simplified] upd_std upd_std [simplified]

text \<open>All calls succeed.\<close>

definition willing :: "os \<Rightarrow> bool" where
  "willing os \<longleftrightarrow> (\<forall>a. os_exec os a) \<and> (\<forall>f m. os_open os f m) \<and> (\<forall>n. os_fork os n) \<and> (\<forall>n. os_pipe os n)"

lemma runcmd_wiring:
  assumes "willing os" and "redirs_ok c"
  shows "\<exists>forks. runcmd os c (std_fds i out err) st =
    (case wiring c i out (sh_pipes st) of (xs, n) \<Rightarrow>
       st\<lparr>sh_started := sh_started st @ map (\<lambda>(ws, i, out). (ws, std_fds i out err)) xs, sh_pipes := n, sh_forks := forks\<rparr>)"
  using assms(2)
proof (induction c arbitrary: i out st)
  case (Exec ws)
  show ?case using assms(1) by (cases ws) (auto simp: willing_def intro: exI [of _ "sh_forks st"])
next
  case (Redir c fname mode fd)
  then have fd: "fd = 0 \<or> fd = 1" and ok: "redirs_ok c" by auto
  from fd show ?case
  proof
    assume "fd = 0"
    then show ?thesis using Redir.IH [OF ok, of "Open_file fname mode" out st] assms(1)
      by (simp add: std_simps willing_def Let_def)
  next
    assume "fd = 1"
    then show ?thesis using Redir.IH [OF ok, of i "Open_file fname mode" st] assms(1)
      by (simp add: std_simps willing_def Let_def)
  qed
next
  case (Seq l r)
  let ?s = "st\<lparr>sh_forks := sh_forks st + 1\<rparr>"
  obtain xs n where l: "wiring l i out (sh_pipes st) = (xs, n)" by force
  obtain f where f: "runcmd os l (std_fds i out err) ?s =
      ?s\<lparr>sh_started := sh_started st @ map (\<lambda>(ws, i, out). (ws, std_fds i out err)) xs, sh_pipes := n, sh_forks := f\<rparr>"
    using Seq.IH(1) [of i out ?s] Seq.prems l by auto
  let ?s2 = "?s\<lparr>sh_started := sh_started st @ map (\<lambda>(ws, i, out). (ws, std_fds i out err)) xs, sh_pipes := n, sh_forks := f\<rparr>"
  obtain ys k where r: "wiring r i out n = (ys, k)" by force
  obtain g where "runcmd os r (std_fds i out err) ?s2 =
      ?s2\<lparr>sh_started := sh_started ?s2 @ map (\<lambda>(ws, i, out). (ws, std_fds i out err)) ys, sh_pipes := k, sh_forks := g\<rparr>"
    using Seq.IH(2) [of i out ?s2] Seq.prems r by auto
  then show ?case using f l r assms(1) by (auto simp: fork1_def willing_def Let_def)
next
  case (Pipe l r)
  let ?n = "sh_pipes st"
  let ?s = "st\<lparr>sh_pipes := ?n + 1, sh_forks := sh_forks st + 1\<rparr>"
  obtain xs m where l: "wiring l i (Pipe_write ?n) (?n + 1) = (xs, m)" by force
  obtain f where f: "runcmd os l (std_fds i (Pipe_write ?n) err) ?s =
      ?s\<lparr>sh_started := sh_started st @ map (\<lambda>(ws, i, out). (ws, std_fds i out err)) xs, sh_pipes := m, sh_forks := f\<rparr>"
    using Pipe.IH(1) [of i "Pipe_write ?n" ?s] Pipe.prems l by auto
  let ?s2 = "?s\<lparr>sh_started := sh_started st @ map (\<lambda>(ws, i, out). (ws, std_fds i out err)) xs, sh_pipes := m, sh_forks := f + 1\<rparr>"
  obtain ys k where r: "wiring r (Pipe_read ?n) out m = (ys, k)" by force
  obtain g where g: "runcmd os r (std_fds (Pipe_read ?n) out err) ?s2 =
      ?s2\<lparr>sh_started := sh_started ?s2 @ map (\<lambda>(ws, i, out). (ws, std_fds i out err)) ys, sh_pipes := k, sh_forks := g\<rparr>"
    using Pipe.IH(2) [of "Pipe_read ?n" out ?s2] Pipe.prems r by auto
  let ?t = "(std_fds i out err)(3 \<mapsto> Pipe_read ?n, 4 \<mapsto> Pipe_write ?n)"
  have p: "fd_pipe ?n (std_fds i out err) = Some (3, 4, ?t)" by (simp add: fd_pipe_def lowest_std)
  have d: "(fd_dup 4 (?t(1 := None)))(3 := None, 4 := None) = std_fds i (Pipe_write ?n) err"
    "(fd_dup 3 (?t(0 := None)))(3 := None, 4 := None) = std_fds (Pipe_read ?n) out err"
    unfolding fd_dup_def lowest_std by (auto simp: std_cases fun_eq_iff)
  have ok: "os_pipe os k" "os_fork os k" for k using assms(1) by (simp_all add: willing_def)
  have "runcmd os (Pipe l r) (std_fds i out err) st =
      fork1 os (runcmd os l (std_fds i (Pipe_write ?n) err)) (fork1 os (runcmd os r (std_fds (Pipe_read ?n) out err)) (\<lambda>st. st)) (st\<lparr>sh_pipes := ?n + 1\<rparr>)"
    using p d ok by (simp add: Let_def)
  also have "\<dots> = st\<lparr>sh_started := sh_started st @ map (\<lambda>(ws, i, out). (ws, std_fds i out err)) (xs @ ys), sh_pipes := k, sh_forks := g\<rparr>"
    using f g ok by (simp add: fork1_def Let_def)
  finally show ?case using l r by auto
next
  case (Back c)
  let ?s = "st\<lparr>sh_forks := sh_forks st + 1\<rparr>"
  show ?case using Back.IH [of i out ?s] Back.prems assms(1) by (auto simp: fork1_def willing_def Let_def split: prod.splits)
qed

text \<open>C40: When the calls of the kernel succeed, the shell starts exactly the programs of the command, each with
  the input and output the command says: the ends of its pipes and its redirections, of which the one
  nearest to the program counts.  Every program has these three descriptors only, so no end of a pipe
  stays open in a program that does not use it.\<close>

theorem sh_wires_commands:
  assumes "willing os" and "redirs_ok c"
  shows "sh_started (runcmd os c (std_fds i out err) st) =
      sh_started st @ map (\<lambda>(ws, i, out). (ws, std_fds i out err)) (fst (wiring c i out (sh_pipes st)))
    \<and> sh_messages (runcmd os c (std_fds i out err) st) = sh_messages st"
  using runcmd_wiring [OF assms, of i out err st] by (auto simp: case_prod_unfold)

theorem sh_wires_commands_witness:
  "sh_started (runcmd \<lparr>os_exec = \<lambda>_. True, os_open = \<lambda>_ _. True, os_fork = \<lambda>_. True, os_pipe = \<lambda>_. True\<rparr>
      (Pipe (Exec [''ls'']) (Redir (Exec [''wc'']) ''out'' 513 1)) (std_fds Terminal Terminal Terminal)
      \<lparr>sh_started = [], sh_messages = [], sh_forks = 0, sh_pipes = 0\<rparr>) =
    [([''ls''], std_fds Terminal (Pipe_write 0) Terminal), ([''wc''], std_fds (Pipe_read 0) (Open_file ''out'' 513) Terminal)]"
  using sh_wires_commands [of "\<lparr>os_exec = \<lambda>_. True, os_open = \<lambda>_ _. True, os_fork = \<lambda>_. True, os_pipe = \<lambda>_. True\<rparr>"
      "Pipe (Exec [''ls'']) (Redir (Exec [''wc'']) ''out'' 513 1)" Terminal Terminal Terminal
      "\<lparr>sh_started = [], sh_messages = [], sh_forks = 0, sh_pipes = 0\<rparr>"]
  by (simp add: willing_def)

end
