(* ===== verification/Mkfs.thy ===== *)
theory Mkfs
  imports Fs_Trunc
begin

text \<open>
  \<open>mkfs.c\<close>: the program that builds the initial file system image.  The image file is the list of
  its sectors; the host's \<open>open\<close>, \<open>lseek\<close>, \<open>read\<close> and \<open>write\<close> on it succeed, except that a read
  past the end is short.  A failed \<open>assert\<close> is a \<open>Panic\<close>.  An input file is the list of the chunks
  that \<open>read\<close> delivers (none is empty), or \<open>None\<close> when it cannot be opened.  Messages are not modelled.
\<close>

section \<open>Layout\<close>

definition NINODES :: nat where "NINODES = 200"

definition nbitmap :: nat where "nbitmap = FSSIZE div (BSIZE * 8) + 1"
definition ninodeblocks :: nat where "ninodeblocks = NINODES div IPB + 1"
definition nlog :: nat where "nlog = LOGSIZE"
definition nmeta :: nat where "nmeta = 2 + nlog + ninodeblocks + nbitmap"
definition nblocks :: nat where "nblocks = FSSIZE - nmeta"

text \<open>\<open>xshort\<close> and \<open>xint\<close> lay the bytes of a number out from the lowest on, as the image stores them.\<close>

definition xshort :: "u16 \<Rightarrow> u16" where "xshort x = u16_of_bytes (bytes_of_u16 x)"
definition xint :: "u32 \<Rightarrow> u32" where "xint x = u32_of_bytes (bytes_of_u32 x)"

definition mk_sb :: superblock where
  "mk_sb = \<lparr>sb_size = FSSIZE, sb_nblocks = nblocks, sb_ninodes = NINODES, sb_nlog = nlog, sb_logstart = 2,
     sb_inodestart = 2 + nlog, sb_bmapstart = 2 + nlog + ninodeblocks\<rparr>"

definition zeroes :: block where "zeroes = replicate BSIZE 0"

record mkfs =
  mk_img :: "block list"
  mk_freeinode :: nat
  mk_freeblock :: nat

section \<open>Sectors and inodes\<close>

definition wsect :: "nat \<Rightarrow> block \<Rightarrow> mkfs \<Rightarrow> mkfs res" where
  "wsect sec buf m =
     (if sec > FSSIZE then Inl (Exit 1)
      else let img = mk_img m in
        Inr (m\<lparr>mk_img := (if sec < length img then img[sec := buf]
          else img @ replicate (sec - length img) zeroes @ [buf])\<rparr>))"

definition rsect :: "nat \<Rightarrow> mkfs \<Rightarrow> block res" where
  "rsect sec m =
     (if sec > FSSIZE then Inl (Exit 1)
      else if sec < length (mk_img m) then Inr (mk_img m ! sec) else Inl (Exit 1))"

definition winode :: "nat \<Rightarrow> dinode \<Rightarrow> mkfs \<Rightarrow> mkfs res" where
  "winode inum di m =
     (let bn = IBLOCK inum mk_sb in
      bindR (rsect bn m) (\<lambda>buf. wsect bn (blit (64 * (inum mod IPB)) (dinode_bytes di) buf) m))"

definition rinode :: "nat \<Rightarrow> mkfs \<Rightarrow> dinode res" where
  "rinode inum m =
     bindR (rsect (IBLOCK inum mk_sb) m) (\<lambda>buf. Inr (dinode_of (slice (64 * (inum mod IPB)) 64 buf)))"

definition new_dinode :: "u16 \<Rightarrow> dinode" where
  "new_dinode ty = \<lparr>di_type = xshort ty, di_major = 0, di_minor = 0, di_nlink = xshort 1, di_size = xint 0,
     di_addrs = replicate (NDIRECT + 1) 0\<rparr>"

definition mk_ialloc :: "u16 \<Rightarrow> mkfs \<Rightarrow> (nat \<times> mkfs) res" where
  "mk_ialloc ty m =
     (let inum = mk_freeinode m in
      bindR (winode inum (new_dinode ty) (m\<lparr>mk_freeinode := inum + 1\<rparr>)) (\<lambda>m. Inr (inum, m)))"

definition bitmap_of :: "nat \<Rightarrow> block" where
  "bitmap_of used = fold set_bit_at [0..<used] zeroes"

definition mk_balloc :: "nat \<Rightarrow> mkfs \<Rightarrow> mkfs res" where
  "mk_balloc used m =
     (if used < BSIZE * 8 then wsect (sb_bmapstart mk_sb) (bitmap_of used) m else Inl (Panic ''assert''))"

section \<open>Appending to a file\<close>

text \<open>An address of the inode, taken from the free blocks when it is missing.\<close>

definition mk_slot :: "nat \<Rightarrow> dinode \<Rightarrow> mkfs \<Rightarrow> dinode \<times> mkfs" where
  "mk_slot k din m =
     (if xint (di_addrs din ! k) = 0
      then (din\<lparr>di_addrs := (di_addrs din)[k := xint (of_nat (mk_freeblock m))]\<rparr>, m\<lparr>mk_freeblock := mk_freeblock m + 1\<rparr>)
      else (din, m))"

text \<open>The block for the contents at \<open>fbn\<close>.\<close>

definition mk_bmap :: "nat \<Rightarrow> dinode \<Rightarrow> mkfs \<Rightarrow> (nat \<times> dinode \<times> mkfs) res" where
  "mk_bmap fbn din m =
     (if fbn < NDIRECT then
        (case mk_slot fbn din m of (din, m) \<Rightarrow> Inr (unat (xint (di_addrs din ! fbn)), din, m))
      else (case mk_slot NDIRECT din m of (din, m) \<Rightarrow>
        let ib = unat (xint (di_addrs din ! NDIRECT)); j = fbn - NDIRECT in
        bindR (rsect ib m) (\<lambda>ind.
          if word_in ind j = 0 then
            let b = mk_freeblock m; ind = set_word j (xint (of_nat b)) ind in
            bindR (wsect ib ind (m\<lparr>mk_freeblock := b + 1\<rparr>)) (\<lambda>m. Inr (unat (xint (word_in ind j)), din, m))
          else Inr (unat (xint (word_in ind j)), din, m))))"

function iappend_loop :: "nat \<Rightarrow> u8 list \<Rightarrow> dinode \<Rightarrow> mkfs \<Rightarrow> (nat \<times> dinode \<times> mkfs) res" where
  "iappend_loop off p din m =
     (if p \<noteq> [] then
        let fbn = off div BSIZE in
        if fbn < MAXFILE then
          bindR (mk_bmap fbn din m) (\<lambda>(x, din, m).
            let n1 = min (length p) ((fbn + 1) * BSIZE - off) in
            bindR (rsect x m) (\<lambda>buf.
            bindR (wsect x (blit (off - fbn * BSIZE) (take n1 p) buf) m) (\<lambda>m.
              iappend_loop (off + n1) (drop n1 p) din m)))
        else Inl (Panic ''assert'')
      else Inr (off, din, m))"
  by pat_completeness auto
termination
proof (relation "measure (\<lambda>(off, p, din, m). length p)", goal_cases)
  case (2 off p din m fbn x x' y x'' y' n1 buf m')
  have "off < (off div BSIZE + 1) * BSIZE"
    using dividend_less_div_times [of BSIZE off] by (simp add: BSIZE_def add.commute)
  with 2 show ?case by (simp add: min_def)
qed simp

declare iappend_loop.simps [simp del]

definition iappend :: "nat \<Rightarrow> u8 list \<Rightarrow> mkfs \<Rightarrow> mkfs res" where
  "iappend inum p m =
     bindR (rinode inum m) (\<lambda>din.
     bindR (iappend_loop (unat (xint (di_size din))) p din m) (\<lambda>(off, din, m).
       winode inum (din\<lparr>di_size := xint (of_nat off)\<rparr>) m))"

section \<open>The program\<close>

fun repeat_append :: "nat \<Rightarrow> u8 list list \<Rightarrow> mkfs \<Rightarrow> mkfs res" where
  "repeat_append inum [] m = Inr m"
| "repeat_append inum (c # cs) m = bindR (iappend inum c m) (repeat_append inum cs)"

definition SLASH_CHAR :: u8 where "SLASH_CHAR = 47"
definition UNDERSCORE :: u8 where "UNDERSCORE = 95"

definition strip :: "u8 list \<Rightarrow> u8 list" where
  "strip name = (if name \<noteq> [] \<and> hd name = UNDERSCORE then tl name else name)"

definition mk_dirent :: "nat \<Rightarrow> u8 list \<Rightarrow> u8 list" where
  "mk_dirent inum name = bytes_of_u16 (xshort (of_nat inum)) @ name_buf (takeWhile (\<lambda>c. c \<noteq> 0) name)"

definition add_file :: "nat \<Rightarrow> u8 list \<times> u8 list list option \<Rightarrow> mkfs \<Rightarrow> mkfs res" where
  "add_file root f m = (case f of (name, data) \<Rightarrow>
     if SLASH_CHAR \<in> set name then Inl (Panic ''assert'')
     else case data of None \<Rightarrow> Inl (Exit 1)
     | Some chunks \<Rightarrow>
         bindR (mk_ialloc T_FILE m) (\<lambda>(inum, m).
         bindR (iappend root (mk_dirent inum (strip name)) m) (repeat_append inum chunks)))"

fun add_files :: "nat \<Rightarrow> (u8 list \<times> u8 list list option) list \<Rightarrow> mkfs \<Rightarrow> mkfs res" where
  "add_files root [] m = Inr m"
| "add_files root (f # fs) m = bindR (add_file root f m) (add_files root fs)"

fun wsects :: "nat list \<Rightarrow> mkfs \<Rightarrow> mkfs res" where
  "wsects [] m = Inr m"
| "wsects (i # is) m = bindR (wsect i zeroes m) (wsects is)"

definition sb_block :: block where
  "sb_block = blit 0 (concat (map (\<lambda>x. bytes_of_u32 (xint (of_nat x)))
     [sb_size mk_sb, sb_nblocks mk_sb, sb_ninodes mk_sb, sb_nlog mk_sb, sb_logstart mk_sb, sb_inodestart mk_sb, sb_bmapstart mk_sb])) zeroes"

definition fix_root :: "nat \<Rightarrow> mkfs \<Rightarrow> mkfs res" where
  "fix_root root m =
     bindR (rinode root m) (\<lambda>din.
       let off = unat (xint (di_size din)); off = (off div BSIZE + 1) * BSIZE in
       winode root (din\<lparr>di_size := xint (of_nat off)\<rparr>) m)"

definition mkfs_main :: "(u8 list \<times> u8 list list option) list \<Rightarrow> mkfs res" where
  "mkfs_main files =
     bindR (wsects [0..<FSSIZE] \<lparr>mk_img = [], mk_freeinode = 1, mk_freeblock = nmeta\<rparr>) (\<lambda>m.
     bindR (wsect 1 sb_block m) (\<lambda>m.
     bindR (mk_ialloc T_DIR m) (\<lambda>(root, m).
     if root \<noteq> ROOTINO then Inl (Panic ''assert'')
     else
       bindR (iappend root (mk_dirent root [46]) m) (\<lambda>m.
       bindR (iappend root (mk_dirent root [46, 46]) m) (\<lambda>m.
       bindR (add_files root files m) (\<lambda>m.
       bindR (fix_root root m) (\<lambda>m.
         mk_balloc (mk_freeblock m) m)))))))"

section \<open>Booting from the image (forkret in proc.c)\<close>

definition disk_of :: "mkfs \<Rightarrow> disk" where
  "disk_of m = (\<lambda>b. if b < length (mk_img m) then mk_img m ! b else zeroes)"

definition empty_inode :: inode where
  "empty_inode = \<lparr>ip_dev = 0, ip_inum = 0, ip_ref = 0, ip_valid = False, ip_type = 0, ip_major = 0, ip_minor = 0,
     ip_nlink = 0, ip_size = 0, ip_addrs = replicate (NDIRECT + 1) 0\<rparr>"

text \<open>The superblock is read (\<open>iinit\<close>), then the log is recovered; the inode cache is empty.\<close>

definition mount :: "disk \<Rightarrow> fs res" where
  "mount d =
     (let l = \<lparr>lg_disk = d, lg_cache = (\<lambda>_. None), lg_writes = [], lg_start = 0, lg_size = 0, lg_outstanding = 0,
            lg_committing = False, lg_lh = []\<rparr>;
          st = iinit \<lparr>fs_log = l, fs_sb = \<lparr>sb_size = 0, sb_nblocks = 0, sb_ninodes = 0, sb_nlog = 0, sb_logstart = 0,
            sb_inodestart = 0, sb_bmapstart = 0\<rparr>, fs_icache = replicate NINODE empty_inode\<rparr> in
      bindR (initlog (sb_logstart (fs_sb st)) (sb_nlog (fs_sb st)) d) (\<lambda>l. Inr (st\<lparr>fs_log := l\<rparr>)))"

end
