(* ===== verification/Mkfs_Props.thy ===== *)
theory Mkfs_Props
  imports Mkfs Fs_Dirs
begin

text \<open>
  The image that \<open>mkfs\<close> builds satisfies the invariant of the file system and holds the files it
  was given.  While it is built, the image is read as a file system whose bitmap marks the blocks
  below \<open>freeblock\<close>, which is what \<open>mkfs\<close> writes at the end; appending then is a write as \<open>writei\<close>
  does it, with the block taken at \<open>freeblock\<close>.
\<close>

lemma xint_id [simp]: "xint x = x" by (simp add: xint_def)
lemma xshort_id [simp]: "xshort x = x" by (simp add: xshort_def)

lemma mk_sb_sel [simp]:
  "sb_size mk_sb = 2000" "sb_ninodes mk_sb = 200" "sb_inodestart mk_sb = 32" "sb_bmapstart mk_sb = 58"
  "sb_nlog mk_sb = 30" "sb_logstart mk_sb = 2" "sb_nblocks mk_sb = 1941"
  by (simp_all add: mk_sb_def FSSIZE_def NINODES_def nlog_def LOGSIZE_def ninodeblocks_def IPB_val nblocks_def nmeta_def nbitmap_def BSIZE_def)

lemma mk_sb_vals: "mk_sb = \<lparr>sb_size = 2000, sb_nblocks = 1941, sb_ninodes = 200, sb_nlog = 30, sb_logstart = 2,
    sb_inodestart = 32, sb_bmapstart = 58\<rparr>"
  using mk_sb_sel by (cases mk_sb) simp

lemma nmeta_val: "nmeta = 59"
  by (simp add: nmeta_def nlog_def LOGSIZE_def ninodeblocks_def NINODES_def IPB_val nbitmap_def FSSIZE_def BSIZE_def)

lemma data_start_mk: "data_start mk_sb = 59"
  by (simp add: data_start_def BPB_def BSIZE_def)

lemma geometry_mk: "geometry mk_sb"
  by (simp add: geometry_def IPB_val)

lemma length_zeroes [simp]: "length zeroes = BSIZE" by (simp add: zeroes_def)

section \<open>The bitmap\<close>

lemma length_bitmap_of [simp]: "length (bitmap_of u) = BSIZE"
proof -
  have "length (fold set_bit_at ks d) = length d" for ks d by (induction ks arbitrary: d) auto
  then show ?thesis by (simp add: bitmap_of_def)
qed

lemma bit_set_bitmap: "u \<le> BPB \<Longrightarrow> bit_set (bitmap_of u) j \<longleftrightarrow> j < u" if "j < BPB" for j
proof (induction u)
  case 0
  have "j div 8 < BSIZE" using that by (simp add: BPB_def less_mult_imp_div_less mult.commute)
  then show ?case by (simp add: bitmap_of_def bit_set_iff zeroes_def)
next
  case (Suc u)
  have "bitmap_of (Suc u) = set_bit_at u (bitmap_of u)" by (simp add: bitmap_of_def)
  moreover have "u < 8 * length (bitmap_of u)" using Suc.prems by (simp add: BPB_def BSIZE_def)
  ultimately show ?case using Suc by (auto simp: bit_set_set)
qed

section \<open>The image as a file system\<close>

definition mk_blocks :: "mkfs \<Rightarrow> nat \<Rightarrow> block" where
  "mk_blocks m b = (if b = 58 then bitmap_of (mk_freeblock m)
     else if b < length (mk_img m) then mk_img m ! b else zeroes)"

definition fs_on :: "(nat \<Rightarrow> block) \<Rightarrow> inode list \<Rightarrow> fs" where
  "fs_on d c = \<lparr>fs_log = \<lparr>lg_disk = d, lg_cache = (\<lambda>_. None), lg_writes = [], lg_start = 2, lg_size = 30,
     lg_outstanding = 0, lg_committing = False, lg_lh = []\<rparr>, fs_sb = mk_sb, fs_icache = c\<rparr>"

lemma fs_on_sel [simp]: "blocks (fs_on d c) = d" "fs_sb (fs_on d c) = mk_sb" "fs_icache (fs_on d c) = c"
  by (simp_all add: fs_on_def bread_def fun_eq_iff)

abbreviation mk_fs :: "inode list \<Rightarrow> mkfs \<Rightarrow> fs" where
  "mk_fs c m \<equiv> fs_on (mk_blocks m) c"

text \<open>The inode that an append works on, as a cache entry.\<close>

definition the_entry :: "nat \<Rightarrow> dinode \<Rightarrow> inode" where
  "the_entry n d = \<lparr>ip_dev = ROOTDEV, ip_inum = n, ip_ref = 1, ip_valid = True, ip_type = di_type d, ip_major = di_major d,
     ip_minor = di_minor d, ip_nlink = di_nlink d, ip_size = di_size d, ip_addrs = di_addrs d\<rparr>"

abbreviation mk_with :: "nat \<Rightarrow> dinode \<Rightarrow> mkfs \<Rightarrow> fs" where
  "mk_with n d m \<equiv> mk_fs [the_entry n d] m"

lemma the_entry_dinode [simp]: "dinode_of_inode (the_entry n d) = d"
  by (cases d) (simp add: the_entry_def dinode_of_inode_def)

lemma the_entry_sel [simp]:
  "ip_inum (the_entry n d) = n" "ip_addrs (the_entry n d) = di_addrs d" "ip_ref (the_entry n d) = 1"
  "ip_valid (the_entry n d)" "ip_dev (the_entry n d) = ROOTDEV" "ip_size (the_entry n d) = di_size d"
  by (simp_all add: the_entry_def)

lemma the_entry_upd:
  "the_entry n d\<lparr>ip_addrs := as\<rparr> = the_entry n (d\<lparr>di_addrs := as\<rparr>)"
  "the_entry n d\<lparr>ip_size := sz\<rparr> = the_entry n (d\<lparr>di_size := sz\<rparr>)"
  by (simp_all add: the_entry_def)

text \<open>The blocks from \<open>freeblock\<close> on are unused.\<close>

definition img_ok :: "mkfs \<Rightarrow> bool" where
  "img_ok m \<longleftrightarrow> length (mk_img m) = 2000 \<and> (\<forall>b < 2000. length (mk_img m ! b) = BSIZE)
     \<and> 59 \<le> mk_freeblock m \<and> mk_freeblock m \<le> 2000
     \<and> (\<forall>b < 2000. mk_freeblock m \<le> b \<longrightarrow> mk_img m ! b = zeroes)"

lemma img_okD:
  assumes "img_ok m"
  shows "length (mk_img m) = 2000" and "b < 2000 \<Longrightarrow> length (mk_img m ! b) = BSIZE"
    and "59 \<le> mk_freeblock m" and "mk_freeblock m \<le> 2000"
    and "b < 2000 \<Longrightarrow> mk_freeblock m \<le> b \<Longrightarrow> mk_img m ! b = zeroes"
  using assms by (auto simp: img_ok_def)

lemma bit_of_mk: "mk_freeblock m \<le> 2000 \<Longrightarrow> x < 2000 \<Longrightarrow> bit_of mk_sb (mk_blocks m) x \<longleftrightarrow> x < mk_freeblock m"
proof -
  assume m: "mk_freeblock m \<le> 2000" and x: "x < 2000"
  have "BBLOCK x mk_sb = 58" "x mod BPB = x" using x by (simp_all add: BBLOCK_def BPB_def BSIZE_def)
  moreover have "x < BPB" "mk_freeblock m \<le> BPB" using m x by (simp_all add: BPB_def BSIZE_def)
  ultimately show ?thesis by (simp add: bit_of_def mk_blocks_def bit_set_bitmap)
qed

lemma BBLOCK_mk: "x < 2000 \<Longrightarrow> BBLOCK x mk_sb = 58"
  by (simp add: BBLOCK_def BPB_def BSIZE_def)

lemma blocks_ok_mk:
  assumes "img_ok m"
  shows "blocks_ok mk_sb (mk_blocks m)"
proof -
  have "bit_of mk_sb (mk_blocks m) b" if "b < 59" for b
    using bit_of_mk [OF img_okD(4) [OF assms], of b] img_okD(3) [OF assms] that by simp
  then show ?thesis
    using img_okD(1,2) [OF assms] geometry_mk by (simp add: blocks_ok_def data_start_mk mk_blocks_def)
qed

text \<open>Taking the next free block.\<close>

definition took :: "mkfs \<Rightarrow> mkfs" where
  "took m = m\<lparr>mk_freeblock := mk_freeblock m + 1\<rparr>"

lemma img_ok_took: "img_ok m \<Longrightarrow> mk_freeblock m < 2000 \<Longrightarrow> img_ok (took m)"
  by (auto simp: img_ok_def took_def)

lemma mk_blocks_took: "x \<noteq> 58 \<Longrightarrow> mk_blocks (took m) x = mk_blocks m x"
  by (simp add: mk_blocks_def took_def)

lemma takes_next:
  assumes ok: "img_ok m" and fb: "mk_freeblock m < 2000" and S: "slots_ok mk_sb (mk_blocks m) S"
  shows "takes (mk_freeblock m) S (mk_fs c m) (mk_fs c' (took m))"
proof -
  let ?b = "mk_freeblock m"
  have b: "59 \<le> ?b" using ok by (simp add: img_ok_def)
  have bit: "bit_of mk_sb (mk_blocks (took m)) x \<longleftrightarrow> x \<le> ?b" if "x < 2000" for x
    using bit_of_mk [of "took m" x] fb that by (auto simp: took_def)
  have old: "bit_of mk_sb (mk_blocks m) x \<longleftrightarrow> x < ?b" if "x < 2000" for x
    using bit_of_mk [of m x] fb that by simp
  have "unowned mk_sb S ?b"
    unfolding unowned_def
  proof (intro allI impI notI)
    fix n p assume "n < sb_ninodes mk_sb" "p < NSLOT" "S n p = ?b"
    then show False using slots_okD(2,3) [OF S, of n p] old [of ?b] b by auto
  qed
  moreover have "slots_ok mk_sb (mk_blocks (took m)) S"
    by (rule slots_ok_bits [OF S]) (use slots_okD(2) [OF S] bit old in auto)
  moreover have "mk_blocks (took m) ?b = zeroes"
    using img_okD [OF ok] fb b by (auto simp: mk_blocks_def took_def)
  ultimately show ?thesis
    using b fb bit blocks_ok_mk [OF img_ok_took [OF ok fb]] mk_blocks_took
    by (simp add: takes_def data_start_mk BBLOCK_mk zeroes_def)
qed

text \<open>Reading a sector, and writing one other than the bitmap.\<close>

lemma rsectD:
  assumes "rsect sec m = Inr buf" and "img_ok m"
  shows "sec < 2000" and "sec \<noteq> 58 \<Longrightarrow> buf = mk_blocks m sec"
  using assms by (auto simp: rsect_def mk_blocks_def img_ok_def split: if_splits)

lemma wsectD:
  assumes w: "wsect sec buf m = Inr m'" and ok: "img_ok m"
    and sec: "sec < mk_freeblock m" "sec \<noteq> 58" "length buf = BSIZE"
  shows "mk_freeblock m' = mk_freeblock m" and "mk_freeinode m' = mk_freeinode m"
    and "mk_blocks m' = (mk_blocks m)(sec := buf)" and "img_ok m'"
proof -
  have s: "sec < 2000" using img_okD(4) [OF ok] sec(1) by simp
  have m': "m' = m\<lparr>mk_img := (mk_img m)[sec := buf]\<rparr>"
    using w s img_okD(1) [OF ok] by (auto simp: wsect_def Let_def FSSIZE_def)
  show "mk_freeblock m' = mk_freeblock m" "mk_freeinode m' = mk_freeinode m" by (simp_all add: m')
  show "mk_blocks m' = (mk_blocks m)(sec := buf)"
    using s sec(2) img_okD(1) [OF ok] by (auto simp: m' mk_blocks_def fun_eq_iff)
  have "(mk_img m)[sec := buf] ! b = (if b = sec then buf else mk_img m ! b)" for b
    using s img_okD(1) [OF ok] by (simp add: nth_list_update)
  then show "img_ok m'" using ok sec by (auto simp: m' img_ok_def)
qed

section \<open>Appending\<close>

lemma slot_range:
  assumes "file_ok i (mk_fs c m)" and "img_ok m" and "n < 200" and "p < NSLOT"
    and "a = slots_in i (mk_fs c m) n p" "a \<noteq> 0"
  shows "59 \<le> a" and "a < mk_freeblock m"
proof -
  note S = slots_okD [OF data_okD(2) [OF file_okD(3) [OF assms(1)]], of n p]
  show "59 \<le> a" using S(1) assms(3-6) by (simp add: data_start_mk)
  show "a < mk_freeblock m"
    using S(2,3) assms(3-6) bit_of_mk [OF img_okD(4) [OF assms(2)], of a] by simp
qed

lemma mk_slot_ok:
  assumes ok: "file_ok 0 (mk_with n din m)" and img: "img_ok m" and k: "k \<le> NDIRECT"
    and s: "mk_slot k din m = (din', m')" and b: "unat (di_addrs din' ! k) < 2000"
  shows "extends 0 (mk_with n din m) (mk_with n din' m')" and "img_ok m'" and "mk_freeinode m' = mk_freeinode m"
    and "unat (di_addrs din' ! k) = slots_in 0 (mk_with n din' m') n k" and "unat (di_addrs din' ! k) \<noteq> 0"
    and "slots_in 0 (mk_with n din m) n k \<noteq> 0 \<Longrightarrow> din' = din"
proof -
  let ?st = "mk_with n din m" and ?b = "mk_freeblock m"
  note own = slots_in_own [of 0 "mk_with n d m" for d m, simplified]
  have S: "slots_in 0 (mk_with n d m) n k = unat (di_addrs d ! k)" for d m
    using k by (simp add: own slot_def)
  have len: "length (di_addrs din) = NDIRECT + 1" using length_ip_addrs [OF ok] by simp
  have "extends 0 ?st (mk_with n din' m') \<and> img_ok m' \<and> mk_freeinode m' = mk_freeinode m
      \<and> unat (di_addrs din' ! k) \<noteq> 0 \<and> (unat (di_addrs din ! k) \<noteq> 0 \<longrightarrow> din' = din)"
  proof (cases "di_addrs din ! k = 0")
    case True
    then have e: "din' = din\<lparr>di_addrs := (di_addrs din)[k := of_nat ?b]\<rparr>" "m' = took m"
      using s by (auto simp: mk_slot_def took_def)
    have fb: "?b < 2000" using b k len img_okD(4) [OF img] by (simp add: e unat_of_nat_u32)
    have t: "takes ?b (slots_in 0 ?st) ?st (mk_with n din' (took m))"
      by (rule takes_next [OF img fb]) (use data_okD(2) [OF file_okD(3) [OF ok]] in simp)
    have "extends 0 ?st (mk_with n din' m')"
      by (rule extends_direct(1) [OF ok k _ t]) (simp_all add: True e the_entry_upd)
    then show ?thesis
      using img_ok_took [OF img fb] True img_okD(3) [OF img] fb k len by (simp add: e took_def unat_of_nat_u32)
  next
    case False
    then have "din' = din" "m' = m" using s by (auto simp: mk_slot_def)
    then show ?thesis using extends_refl [OF ok] img False by (simp add: unat_eq_0)
  qed
  then show "extends 0 ?st (mk_with n din' m')" "img_ok m'" "mk_freeinode m' = mk_freeinode m"
    "unat (di_addrs din' ! k) = slots_in 0 (mk_with n din' m') n k" "unat (di_addrs din' ! k) \<noteq> 0"
    "slots_in 0 (mk_with n din m) n k \<noteq> 0 \<Longrightarrow> din' = din" by (simp_all add: S [simplified])
qed

lemma mk_bmap_ok:
  assumes ok: "file_ok 0 (mk_with n din m)" and img: "img_ok m" and bn: "bn < MAXFILE"
    and s: "mk_bmap bn din m = Inr (b, din', m')" and b: "b < 2000"
  shows "extends 0 (mk_with n din m) (mk_with n din' m')" and "img_ok m'" and "mk_freeinode m' = mk_freeinode m"
    and "b = slots_in 0 (mk_with n din' m') n (slot_no bn)" and "b \<noteq> 0"
    and "slots_in 0 (mk_with n din m) n (slot_no bn) \<noteq> 0 \<Longrightarrow> din' = din"
proof -
  let ?st = "mk_with n din m" and ?j = "bn - NDIRECT"
  have n: "n < 200" using file_okD(2) [OF ok] by simp
  have "extends 0 ?st (mk_with n din' m') \<and> img_ok m' \<and> mk_freeinode m' = mk_freeinode m
      \<and> b = slots_in 0 (mk_with n din' m') n (slot_no bn) \<and> b \<noteq> 0
      \<and> (slots_in 0 ?st n (slot_no bn) \<noteq> 0 \<longrightarrow> din' = din)"
  proof (cases "bn < NDIRECT")
    case True
    obtain d1 m1 where "mk_slot bn din m = (d1, m1)" by fastforce
    moreover from this have "d1 = din'" "m1 = m'" "b = unat (di_addrs din' ! bn)"
      using True s by (auto simp: mk_bmap_def)
    ultimately show ?thesis using True b mk_slot_ok [OF ok img, of bn din' m'] by (simp add: slot_no_def)
  next
    case False
    then have j: "?j < NINDIRECT" and p: "slot_no bn = NDIRECT + 1 + ?j"
      using bn by (auto simp: MAXFILE_def slot_no_def)
    obtain d1 m1 where s1: "mk_slot NDIRECT din m = (d1, m1)" by fastforce
    let ?ib = "unat (di_addrs d1 ! NDIRECT)" and ?st1 = "mk_with n d1 m1"
    obtain ind where ind: "rsect ?ib m1 = Inr ind" and
      s2: "(if word_in ind ?j = 0 then
              bindR (wsect ?ib (set_word ?j (of_nat (mk_freeblock m1)) ind) (took m1))
                (\<lambda>m. Inr (unat (word_in (set_word ?j (of_nat (mk_freeblock m1)) ind) ?j), d1, m))
            else Inr (unat (word_in ind ?j), d1, m1)) = Inr (b, din', m')"
      using s False s1 by (auto simp: mk_bmap_def Let_def took_def res_simps cong: if_cong)
    have "mk_img m1 = mk_img m" using s1 by (auto simp: mk_slot_def split: if_splits)
    then have ib2: "?ib < 2000" using ind img_okD(1) [OF img] by (auto simp: rsect_def split: if_splits)
    note E = mk_slot_ok [OF ok img le_refl s1 ib2]
    note ok1 = extendsD(2) [OF E(1)]
    have ib: "?ib = slots_in 0 ?st1 n NDIRECT" by (rule E(4))
    have r: "59 \<le> ?ib" "?ib < mk_freeblock m1"
      using slot_range [OF ok1 E(2) n NDIRECT_less ib E(5)] by simp_all
    have ind: "ind = mk_blocks m1 ?ib" using rsectD(2) [OF ind E(2)] r by simp
    have S1: "slots_in 0 ?st1 n (slot_no bn) = unat (word_in ind ?j)"
      using indirect_slot [of 0 ?st1 ?j] E(5) ib by (simp add: p ind)
    show ?thesis
    proof (cases "word_in ind ?j = 0")
      case False
      then have e: "b = unat (word_in ind ?j)" "din' = d1" "m' = m1" using s2 by auto
      have "slots_in 0 ?st n NDIRECT \<noteq> 0" if "slots_in 0 ?st n (slot_no bn) \<noteq> 0"
        using that slots_in_own [of 0 ?st] by (auto simp: p slot_def unat_gt_0 split: if_splits)
      then show ?thesis using E(1-3,6) False S1 by (auto simp: e unat_eq_0)
    next
      case True
      let ?b = "mk_freeblock m1" and ?ind = "set_word ?j (of_nat (mk_freeblock m1)) ind"
      have len: "length ind = BSIZE" using blocks_okD(2) [OF blocks_ok_mk [OF E(2)]] by (simp add: ind)
      have w: "word_in ?ind ?j = of_nat ?b" by (rule word_in_set_word [OF len j j, simplified])
      have bb: "b = ?b" "din' = d1" and ws: "wsect ?ib ?ind (took m1) = Inr m'"
        using s2 True w img_okD(4) [OF E(2)] by (auto simp: res_simps unat_of_nat_u32)
      have fb: "?b < 2000" using b bb by simp
      have t: "takes ?b (slots_in 0 ?st1) ?st1 (mk_with n d1 (took m1))"
        by (rule takes_next [OF E(2) fb]) (use data_okD(2) [OF file_okD(3) [OF ok1]] in simp)
      have W: "mk_freeinode m' = mk_freeinode m1" "mk_blocks m' = (mk_blocks (took m1))(?ib := ?ind)" "img_ok m'"
        using wsectD [OF ws img_ok_took [OF E(2) fb]] r len j by (simp_all add: took_def)
      have "extends 0 ?st1 (mk_with n d1 m') \<and> slots_in 0 (mk_with n d1 m') n (NDIRECT + 1 + ?j) = ?b"
        using extends_indirect [OF ok1 j _ E(5) _ t, of "mk_with n d1 m'"] ib True by (simp add: W ind)
      moreover have "?b \<noteq> 0" using img_okD(3) [OF E(2)] by simp
      moreover have "slots_in 0 ?st n (slot_no bn) = 0"
      proof (rule ccontr)
        assume "slots_in 0 ?st n (slot_no bn) \<noteq> 0"
        then have "slots_in 0 ?st1 n (slot_no bn) \<noteq> 0" using extendsD(4) [OF E(1), of n "slot_no bn"] n bn by simp
        then show False using S1 True by simp
      qed
      ultimately show ?thesis using extends_trans [OF E(1)] W E(3) by (simp add: bb p)
    qed
  qed
  then show "extends 0 ?st (mk_with n din' m')" "img_ok m'" "mk_freeinode m' = mk_freeinode m"
    "b = slots_in 0 (mk_with n din' m') n (slot_no bn)" "b \<noteq> 0"
    "slots_in 0 ?st n (slot_no bn) \<noteq> 0 \<Longrightarrow> din' = din" by blast+
qed

lemma mk_bmap_length: "mk_bmap bn din m = Inr (b, din', m') \<Longrightarrow> length (mk_img m') = length (mk_img m)"
  by (auto simp: mk_bmap_def mk_slot_def Let_def rsect_def wsect_def res_simps split: if_splits)

lemma iappend_loop_bound:
  assumes "iappend_loop off p din m = Inr (off', din', m')" and "off \<le> MAXFILE * BSIZE"
  shows "off' = off + length p" and "off' \<le> MAXFILE * BSIZE"
proof -
  have "off' = off + length p \<and> off' \<le> MAXFILE * BSIZE"
    using assms
  proof (induction off p din m rule: iappend_loop.induct)
    case (1 off p din m)
    show ?case
    proof (cases "p = []")
      case True
      then show ?thesis using "1.prems" by (simp add: iappend_loop.simps)
    next
      case False
      let ?bn = "off div BSIZE" and ?n = "min (length p) ((off div BSIZE + 1) * BSIZE - off)"
      have bn: "?bn < MAXFILE" using "1.prems"(1) False by (subst (asm) iappend_loop.simps) (simp add: Let_def split: if_splits)
      then obtain x d1 m1 buf m2 where s: "mk_bmap ?bn din m = Inr (x, d1, m1)" "rsect x m1 = Inr buf"
        "wsect x (blit (off - ?bn * BSIZE) (take ?n p) buf) m1 = Inr m2"
        and l: "iappend_loop (off + ?n) (drop ?n p) d1 m2 = Inr (off', din', m')"
        using "1.prems"(1) False by (subst (asm) iappend_loop.simps) (auto simp: Let_def res_simps)
      have "(?bn + 1) * BSIZE \<le> MAXFILE * BSIZE" using bn by (intro mult_le_mono1) simp
      moreover have "off < (?bn + 1) * BSIZE"
        using dividend_less_div_times [of BSIZE off] by (simp add: BSIZE_def add.commute)
      ultimately have "off + ?n \<le> MAXFILE * BSIZE" by linarith
      from "1.IH" [OF False refl bn s(1) refl refl refl s(2,3) l this] show ?thesis by simp
    qed
  qed
  then show "off' = off + length p" "off' \<le> MAXFILE * BSIZE" by auto
qed

lemma iappend_step:
  assumes ok: "file_ok 0 (mk_with n din m)" and img: "img_ok m" and bn: "off div BSIZE < MAXFILE" and p: "p \<noteq> []"
    and k: "k = min (length p) ((off div BSIZE + 1) * BSIZE - off)"
    and s: "mk_bmap (off div BSIZE) din m = Inr (x, d1, m1)" "rsect x m1 = Inr buf"
      "wsect x (blit (off - off div BSIZE * BSIZE) (take k p) buf) m1 = Inr m2"
  shows "wrote 0 off (take k p) (mk_with n din m) (mk_with n d1 m2)" and "img_ok m2"
    and "mk_freeinode m2 = mk_freeinode m" and "mk_freeblock m2 = mk_freeblock m1" and "0 < k" and "k \<le> length p"
proof -
  let ?bn = "off div BSIZE"
  have x: "x < 2000" using mk_bmap_length [OF s(1)] s(2) img_okD(1) [OF img] by (auto simp: rsect_def split: if_splits)
  note E = mk_bmap_ok [OF ok img bn s(1) x]
  have n: "n < 200" using file_okD(2) [OF ok] by simp
  have r: "59 \<le> x" "x < mk_freeblock m1"
    using slot_range [OF extendsD(2) [OF E(1)] E(2) n slot_no_less [OF bn] E(4,5)] by simp_all
  have buf: "buf = mk_blocks m1 x" using rsectD(2) [OF s(2) E(2)] r by simp
  have mod: "off - ?bn * BSIZE = off mod BSIZE" by (simp add: minus_div_mult_eq_mod)
  have a: "off = ?bn * BSIZE + off mod BSIZE" "off mod BSIZE < BSIZE" "(?bn + 1) * BSIZE = ?bn * BSIZE + BSIZE" by simp_all
  have "k \<le> (?bn + 1) * BSIZE - off" by (simp add: k)
  then have k': "off mod BSIZE + k \<le> BSIZE" using a by linarith
  have "0 < (?bn + 1) * BSIZE - off" using a by linarith
  then show k0: "0 < k" using p by (simp add: k)
  show "k \<le> length p" by (simp add: k)
  have t: "take k p \<noteq> []" "off mod BSIZE + length (take k p) \<le> BSIZE" using k' k0 p by auto
  have len: "length (blit (off mod BSIZE) (take k p) (mk_blocks m1 x)) = BSIZE"
    using blocks_okD(2) [OF blocks_ok_mk [OF E(2)], of x] t(2) by (subst length_blit) auto
  note W = wsectD [OF s(3)[unfolded mod buf] E(2) r(2) _ len]
  show "wrote 0 off (take k p) (mk_with n din m) (mk_with n d1 m2)"
    by (rule wrote_block [OF ok bn E(1) _ E(5) _ t]) (use E(4,6) W r in auto)
  show "img_ok m2" "mk_freeinode m2 = mk_freeinode m" "mk_freeblock m2 = mk_freeblock m1" using W r E(3) by auto
qed

lemma iappend_loop_ok:
  assumes "iappend_loop off p din m = Inr (off', din', m')" and "file_ok 0 (mk_with n din m)" and "img_ok m"
    and "off + length p \<le> MAXFILE * BSIZE"
  shows "wrote 0 off p (mk_with n din m) (mk_with n din' m')" and "img_ok m'" and "mk_freeinode m' = mk_freeinode m"
proof -
  have "wrote 0 off p (mk_with n din m) (mk_with n din' m') \<and> img_ok m' \<and> mk_freeinode m' = mk_freeinode m"
    using assms
  proof (induction off p din m rule: iappend_loop.induct)
    case (1 off p din m)
    show ?case
    proof (cases "p = []")
      case True
      then show ?thesis using "1.prems" wrote_refl by (simp add: iappend_loop.simps)
    next
      case False
      let ?bn = "off div BSIZE" and ?k = "min (length p) ((off div BSIZE + 1) * BSIZE - off)"
      have bn: "?bn < MAXFILE" using "1.prems"(4) False
        by (intro less_mult_imp_div_less) (auto simp: neq_Nil_conv)
      then obtain x d1 m1 buf m2 where s: "mk_bmap ?bn din m = Inr (x, d1, m1)" "rsect x m1 = Inr buf"
        "wsect x (blit (off - ?bn * BSIZE) (take ?k p) buf) m1 = Inr m2"
        and l: "iappend_loop (off + ?k) (drop ?k p) d1 m2 = Inr (off', din', m')"
        using "1.prems"(1) False by (subst (asm) iappend_loop.simps) (auto simp: Let_def res_simps)
      note S = iappend_step [OF "1.prems"(2,3) bn False refl s]
      have "wrote 0 (off + ?k) (drop ?k p) (mk_with n d1 m2) (mk_with n din' m') \<and> img_ok m' \<and> mk_freeinode m' = mk_freeinode m2"
        by (rule "1.IH" [OF False refl bn s(1) refl refl refl s(2,3) l wroteD(2) [OF S(1)] S(2)])
          (use S(6) "1.prems"(4) in simp)
      then show ?thesis
        using wrote_trans [OF "1.prems"(2) S(1), of "drop ?k p" "mk_with n din' m'"] "1.prems"(4) S(3,6) by simp
    qed
  qed
  then show "wrote 0 off p (mk_with n din m) (mk_with n din' m')" "img_ok m'" "mk_freeinode m' = mk_freeinode m"
    by blast+
qed

text \<open>With two free blocks for each byte left, the loop succeeds.\<close>

lemma mk_bmap_total:
  assumes ok: "file_ok 0 (mk_with n din m)" and img: "img_ok m" and bn: "bn < MAXFILE" and fb: "mk_freeblock m + 2 \<le> 2000"
  shows "\<exists>b d' m'. mk_bmap bn din m = Inr (b, d', m') \<and> b < 2000 \<and> mk_freeblock m' \<le> mk_freeblock m + 2"
proof -
  have n: "n < 200" using file_okD(2) [OF ok] by simp
  have len: "length (di_addrs din) = NDIRECT + 1" using length_ip_addrs [OF ok] by simp
  have slot: "\<exists>d' m'. mk_slot k din m = (d', m') \<and> unat (di_addrs d' ! k) < 2000 \<and> mk_freeblock m' \<le> mk_freeblock m + 1
      \<and> mk_img m' = mk_img m" if k: "k \<le> NDIRECT" for k
  proof (cases "di_addrs din ! k = 0")
    case True
    then show ?thesis using k len fb by (simp add: mk_slot_def unat_of_nat_u32)
  next
    case False
    have a: "slots_in 0 (mk_with n din m) n k = unat (di_addrs din ! k)"
      using slots_in_own [of 0 "mk_with n din m" k] k by (simp add: slot_def)
    have "k < NSLOT" using k by (simp add: NSLOT_def)
    from slot_range(2) [OF ok img n this refl] have "unat (di_addrs din ! k) < 2000"
      unfolding a using False img_okD(4) [OF img] by (simp add: unat_eq_0)
    then show ?thesis using False by (simp add: mk_slot_def)
  qed
  show ?thesis
  proof (cases "bn < NDIRECT")
    case True
    then obtain d' m' where "mk_slot bn din m = (d', m')" "unat (di_addrs d' ! bn) < 2000" "mk_freeblock m' \<le> mk_freeblock m + 1"
      using slot [of bn] by auto
    then show ?thesis using True by (simp add: mk_bmap_def)
  next
    case False
    then have j: "bn - NDIRECT < NINDIRECT" using bn by (simp add: MAXFILE_def)
    obtain d1 m1 where s1: "mk_slot NDIRECT din m = (d1, m1)" "unat (di_addrs d1 ! NDIRECT) < 2000"
      "mk_freeblock m1 \<le> mk_freeblock m + 1" "mk_img m1 = mk_img m"
      using slot [of NDIRECT] by auto
    note E = mk_slot_ok [OF ok img le_refl s1(1,2)]
    let ?ib = "unat (di_addrs d1 ! NDIRECT)"
    define ind where "ind = mk_img m1 ! ?ib"
    have r: "rsect ?ib m1 = Inr ind" using s1 img_okD(1) [OF img] by (simp add: rsect_def FSSIZE_def ind_def)
    note ok1 = extendsD(2) [OF E(1)]
    have ib: "59 \<le> ?ib" using slot_range(1) [OF ok1 E(2) n NDIRECT_less E(4,5)] .
    have ind: "ind = mk_blocks m1 ?ib" using rsectD(2) [OF r E(2)] ib by simp
    show ?thesis
    proof (cases "word_in ind (bn - NDIRECT) = 0")
      case True
      have w: "word_in (set_word (bn - NDIRECT) (of_nat (mk_freeblock m1)) ind) (bn - NDIRECT) = of_nat (mk_freeblock m1)"
        using word_in_set_word [of ind "bn - NDIRECT" "bn - NDIRECT"] j blocks_okD(2) [OF blocks_ok_mk [OF E(2)]] ind by simp
      have "unat (of_nat (mk_freeblock m1) :: u32) = mk_freeblock m1" using s1(3) fb by (intro unat_of_nat_u32) simp
      then show ?thesis using False s1 r True fb w by (simp add: mk_bmap_def Let_def wsect_def FSSIZE_def)
    next
      case t: False
      have p: "slot_no bn = NDIRECT + 1 + (bn - NDIRECT)" using False by (simp add: slot_no_def)
      have "unat (word_in ind (bn - NDIRECT)) = slots_in 0 (mk_with n d1 m1) n (slot_no bn)"
        using indirect_slot [of 0 "mk_with n d1 m1" "bn - NDIRECT"] E(4,5) by (simp add: p ind)
      from slot_range(2) [OF ok1 E(2) n slot_no_less [OF bn] this]
      have "unat (word_in ind (bn - NDIRECT)) < 2000" using t img_okD(4) [OF E(2)] by (simp add: unat_eq_0)
      then show ?thesis using False s1 r t by (simp add: mk_bmap_def Let_def)
    qed
  qed
qed

lemma iappend_loop_total:
  assumes "file_ok 0 (mk_with n din m)" and "img_ok m" and "off + length p \<le> MAXFILE * BSIZE"
    and "mk_freeblock m + 2 * length p \<le> 2000"
  shows "\<exists>r. iappend_loop off p din m = Inr r \<and> mk_freeblock (snd (snd r)) \<le> mk_freeblock m + 2 * length p"
  using assms
proof (induction off p din m rule: iappend_loop.induct)
  case (1 off p din m)
  show ?case
  proof (cases "p = []")
    case True
    then show ?thesis by (simp add: iappend_loop.simps)
  next
    case False
    let ?bn = "off div BSIZE" and ?k = "min (length p) ((off div BSIZE + 1) * BSIZE - off)"
    have bn: "?bn < MAXFILE" using "1.prems"(3) False
      by (intro less_mult_imp_div_less) (auto simp: neq_Nil_conv)
    have "length p \<ge> 1" using False by (cases p) auto
    then have "mk_freeblock m + 2 \<le> 2000" using "1.prems"(4) by linarith
    from mk_bmap_total [OF "1.prems"(1,2) bn this] obtain x d1 m1 where
      s1: "mk_bmap ?bn din m = Inr (x, d1, m1)" "x < 2000" "mk_freeblock m1 \<le> mk_freeblock m + 2" by blast
    have s2: "rsect x m1 = Inr (mk_img m1 ! x)"
      using s1(2) mk_bmap_length [OF s1(1)] img_okD(1) [OF "1.prems"(2)] by (simp add: rsect_def FSSIZE_def)
    obtain m2 where s3: "wsect x (blit (off - ?bn * BSIZE) (take ?k p) (mk_img m1 ! x)) m1 = Inr m2"
      using s1(2) by (simp add: wsect_def FSSIZE_def Let_def)
    note S = iappend_step [OF "1.prems"(1,2) bn False refl s1(1) s2 s3]
    have fb: "mk_freeblock m2 + 2 * length (drop ?k p) \<le> mk_freeblock m + 2 * length p"
      using S(4-6) s1(3) unfolding length_drop by linarith
    have "\<exists>r. iappend_loop (off + ?k) (drop ?k p) d1 m2 = Inr r \<and> mk_freeblock (snd (snd r)) \<le> mk_freeblock m2 + 2 * length (drop ?k p)"
      by (rule "1.IH" [OF False refl bn s1(1) refl refl refl s2 s3 wroteD(2) [OF S(1)] S(2)])
        (use S(6) fb "1.prems"(3,4) in auto)
    moreover have "iappend_loop off p din m = iappend_loop (off + ?k) (drop ?k p) d1 m2"
      by (subst iappend_loop.simps) (simp only: False bn s1(1) s2 s3 Let_def bindR.simps prod.case if_True not_False_eq_True)
    ultimately show ?thesis using order_trans [OF _ fb] by (simp only:) blast
  qed
qed

section \<open>Inodes of the image\<close>

lemma read_dinode_on: "NO_MATCH [] c \<Longrightarrow> read_dinode n (fs_on d c) = read_dinode n (fs_on d [])"
  by (simp add: read_dinode_def)

lemma file_bytes_on: "file_bytes (fs_on d c) n = file_bytes (fs_on d []) n"
  by (simp add: file_bytes_def read_dinode_def)

lemma IBLOCK_mk: "n < 200 \<Longrightarrow> 32 \<le> IBLOCK n mk_sb \<and> IBLOCK n mk_sb < 58"
  by (simp add: IBLOCK_def IPB_val)

lemma rinodeD: "rinode n m = Inr d \<Longrightarrow> img_ok m \<Longrightarrow> n < 200 \<Longrightarrow> d = read_dinode n (mk_fs [] m)"
  using IBLOCK_mk [of n] by (auto simp: rinode_def res_simps read_dinode_def dest!: rsectD(2))

lemma winodeD:
  assumes w: "winode n d m = Inr m'" and ok: "img_ok m" and n: "n < 200" and d: "length (di_addrs d) = NDIRECT + 1"
  shows "stores_dinode n d (mk_fs c m) (mk_fs c m')" and "img_ok m'" and "mk_freeinode m' = mk_freeinode m"
    and "x < 32 \<Longrightarrow> mk_blocks m' x = mk_blocks m x"
proof -
  let ?b = "IBLOCK n mk_sb" and ?buf = "blit (64 * (n mod IPB)) (dinode_bytes d) (mk_blocks m (IBLOCK n mk_sb))"
  note b = IBLOCK_mk [OF n]
  obtain buf where r: "rsect ?b m = Inr buf" and w': "wsect ?b (blit (64 * (n mod IPB)) (dinode_bytes d) buf) m = Inr m'"
    using w by (auto simp: winode_def Let_def res_simps)
  have buf: "buf = mk_blocks m ?b" using rsectD(2) [OF r ok] b by simp
  have "length ?buf = BSIZE"
    using blocks_okD(2) [OF blocks_ok_mk [OF ok]] mod_less_divisor [of IPB n] d
    by (subst length_blit) (auto simp: IPB_val BSIZE_def)
  note W = wsectD [OF w' [unfolded buf] ok _ _ this]
  show "stores_dinode n d (mk_fs c m) (mk_fs c m')" using W b img_okD(3) [OF ok] by (simp add: stores_dinode_def)
  show "img_ok m'" "mk_freeinode m' = mk_freeinode m" using W b img_okD(3) [OF ok] by auto
  show "x < 32 \<Longrightarrow> mk_blocks m' x = mk_blocks m x" using W b img_okD(3) [OF ok] by auto
qed

text \<open>Bytes of a file beyond its size are zero.\<close>

definition tail_zero :: "fs \<Rightarrow> bool" where
  "tail_zero st \<longleftrightarrow> (\<forall>n < sb_ninodes (fs_sb st). \<forall>x < MAXFILE * BSIZE. unat (di_size (read_dinode n st)) \<le> x \<longrightarrow>
     file_byte (disk_slots st) (blocks st) n x = 0)"

lemma mk_ok_entry:
  assumes "fs_ok (mk_fs [] m)" and "n < 200"
  shows "fs_ok (mk_with n (read_dinode n (mk_fs [] m)) m)" and "loaded 0 (mk_with n (read_dinode n (mk_fs [] m)) m)"
proof -
  show "loaded 0 (mk_with n (read_dinode n (mk_fs [] m)) m)" by (simp add: loaded_def)
  have "data_ok (on_disk (mk_fs c m)) (mk_fs c m) \<longleftrightarrow> data_ok (on_disk (mk_fs [] m)) (mk_fs [] m)" for c
    by (simp add: data_ok_def read_dinode_def)
  then show "fs_ok (mk_with n (read_dinode n (mk_fs [] m)) m)"
    using assms by (simp add: fs_ok_def icache_ok_def read_dinode_on)
qed

lemma fs_ok_forget: "fs_ok (fs_on d c) \<Longrightarrow> fs_ok (fs_on d [])"
  by (simp add: fs_ok_def icache_ok_def data_ok_def read_dinode_def)

lemma view_mk: "view 0 (mk_with n d m) = (on_disk (mk_fs [] m))(n := d)"
  by (simp add: view_def read_dinode_on)

lemma size_irrelevant:
  "slots_in 0 (mk_with n (d\<lparr>di_size := s\<rparr>) m) = slots_in 0 (mk_with n d m)"
  "file_ok 0 (mk_with n (d\<lparr>di_size := s\<rparr>) m) \<longleftrightarrow> file_ok 0 (mk_with n d m)"
proof -
  have a: "di_addrs (view 0 (mk_with n (d\<lparr>di_size := s\<rparr>) m) j) = di_addrs (view 0 (mk_with n d m) j)" for j
    by (simp add: view_mk)
  show sl: "slots_in 0 (mk_with n (d\<lparr>di_size := s\<rparr>) m) = slots_in 0 (mk_with n d m)"
    unfolding slots_of_def a by simp
  show "file_ok 0 (mk_with n (d\<lparr>di_size := s\<rparr>) m) \<longleftrightarrow> file_ok 0 (mk_with n d m)"
    unfolding file_ok_def data_ok_def a using sl by simp
qed

text \<open>Bytes are appended and the inode is written.\<close>

lemma grown:
  assumes fs: "fs_ok (mk_fs [] m)" "tail_zero (mk_fs [] m)" and n: "n < 200"
    and din: "din = read_dinode n (mk_fs [] m)" and sz: "unat (di_size din) = k"
    and w: "wrote 0 k src (mk_with n din m) (mk_with n din' m1)" and img: "img_ok m1"
    and le: "k + length src \<le> MAXFILE * BSIZE"
    and wi: "winode n (din'\<lparr>di_size := of_nat (k + length src)\<rparr>) m1 = Inr m'"
  shows "img_ok m'" and "fs_ok (mk_fs [] m')" and "tail_zero (mk_fs [] m')" and "mk_freeinode m' = mk_freeinode m1"
    and "file_bytes (mk_fs [] m') n = file_bytes (mk_fs [] m) n @ src"
    and "j < 200 \<Longrightarrow> j \<noteq> n \<Longrightarrow> file_bytes (mk_fs [] m') j = file_bytes (mk_fs [] m) j"
    and "j < 200 \<Longrightarrow> j \<noteq> n \<Longrightarrow> read_dinode j (mk_fs [] m') = read_dinode j (mk_fs [] m)"
    and "x < 32 \<Longrightarrow> mk_blocks m' x = mk_blocks m x"
proof -
  let ?sz = "of_nat (k + length src) :: u32" and ?st = "mk_with n din m" and ?st1 = "mk_with n din' m1"
  let ?din = "din'\<lparr>di_size := ?sz\<rparr>"
  note E = mk_ok_entry [OF fs(1) n, folded din]
  note W = wroteD [OF w]
  have "length (di_addrs ?din) = NDIRECT + 1" using length_ip_addrs [OF W(2)] by simp
  note WI = winodeD [OF wi img n this]
  have usz: "unat ?sz = max (unat (ip_size (inode_at 0 ?st))) (k + length src)"
    using le sz by (subst unat_of_nat_u32) (auto simp: max_file_size)
  have up: "upd_inode 0 (\<lambda>ip. ip\<lparr>ip_size := ?sz\<rparr>) ?st1 = mk_with n ?din m1"
    by (simp add: upd_inode_def fs_on_def the_entry_upd)
  have st: "stored 0 (upd_inode 0 (\<lambda>ip. ip\<lparr>ip_size := ?sz\<rparr>) ?st1) (mk_with n ?din m')"
    unfolding up stored_def using WI(1) [of "[the_entry n ?din]"] by simp
  note G = wrote_grown [OF E w _ le usz st]
  show "img_ok m'" "mk_freeinode m' = mk_freeinode m1" by (fact WI)+
  show "fs_ok (mk_fs [] m')" by (rule fs_ok_forget [OF G(1)]) (simp add: sz)
  show "file_bytes (mk_fs [] m') n = file_bytes (mk_fs [] m) n @ src"
    using G(5) sz by (simp add: file_bytes_on [of _ "[_]"] blit_def din)
  show "j < 200 \<Longrightarrow> j \<noteq> n \<Longrightarrow> file_bytes (mk_fs [] m') j = file_bytes (mk_fs [] m) j"
    using G(6) sz by (simp add: file_bytes_on [of _ "[_]"])
  show rd: "read_dinode j (mk_fs [] m') = read_dinode j (mk_fs [] m)" if "j < 200" "j \<noteq> n" for j
    using G(9) sz that by (simp add: read_dinode_on)
  show "x < 32 \<Longrightarrow> mk_blocks m' x = mk_blocks m x" using WI(4) W(3) by simp
  have ok2: "file_ok 0 (mk_with n ?din m1)" using W(2) by (simp add: size_irrelevant)
  have byte: "file_byte (disk_slots (mk_fs [] m')) (mk_blocks m') j x =
      (if j = n \<and> k \<le> x \<and> x < k + length src then src ! (x - k)
       else file_byte (disk_slots (mk_fs [] m)) (mk_blocks m) j x)" if "j < 200" "x < MAXFILE * BSIZE" for j x
  proof -
    have "file_byte (disk_slots (mk_fs [] m')) (mk_blocks m') j x = byte_in 0 (mk_with n ?din m1) j x"
      using iupdate_ok(6) [OF ok2 st [unfolded up], of j x] that by (simp add: read_dinode_on)
    also have "\<dots> = byte_in 0 ?st1 j x" by (subst size_irrelevant) simp
    finally show ?thesis using W(5) [of j x] that loaded_view(1) [OF E] by (simp add: read_dinode_on)
  qed
  have rdn: "di_size (read_dinode n (mk_fs [] m')) = ?sz"
    using iupdate_ok(4) [OF ok2 st [unfolded up], of n] by (simp add: read_dinode_on view_mk)
  show "tail_zero (mk_fs [] m')"
    unfolding tail_zero_def
  proof (intro allI impI)
    fix j x assume j: "j < sb_ninodes (fs_sb (mk_fs [] m'))" "x < MAXFILE * BSIZE" "unat (di_size (read_dinode j (mk_fs [] m'))) \<le> x"
    have "file_byte (disk_slots (mk_fs [] m)) (mk_blocks m) j x = 0"
      using fs(2) j rd [of j] sz usz by (cases "j = n") (auto simp: tail_zero_def rdn din)
    moreover have "\<not> (j = n \<and> k \<le> x \<and> x < k + length src)" using j(3) usz by (auto simp: rdn)
    ultimately show "file_byte (disk_slots (mk_fs [] m')) (blocks (mk_fs [] m')) j x = 0"
      using byte [of j x] j(1,2) by auto
  qed
qed

text \<open>The state of the program between its calls.\<close>

definition mk_inv :: "mkfs \<Rightarrow> bool" where
  "mk_inv m \<longleftrightarrow> img_ok m \<and> fs_ok (mk_fs [] m) \<and> tail_zero (mk_fs [] m)
     \<and> mk_blocks m 1 = sb_block \<and> mk_blocks m 2 = zeroes
     \<and> (\<forall>n < 200. mk_freeinode m \<le> n \<longrightarrow> di_type (read_dinode n (mk_fs [] m)) = 0)"

lemma mk_invD:
  assumes "mk_inv m"
  shows "img_ok m" and "fs_ok (mk_fs [] m)" and "tail_zero (mk_fs [] m)"
    and "mk_blocks m 1 = sb_block" and "mk_blocks m 2 = zeroes"
    and "n < 200 \<Longrightarrow> mk_freeinode m \<le> n \<Longrightarrow> di_type (read_dinode n (mk_fs [] m)) = 0"
  using assms by (auto simp: mk_inv_def)

text \<open>The bytes of the files of the image under construction.\<close>

abbreviation bytes_at :: "mkfs \<Rightarrow> nat \<Rightarrow> u8 list" where
  "bytes_at m \<equiv> file_bytes (mk_fs [] m)"

definition appended :: "nat \<Rightarrow> u8 list \<Rightarrow> mkfs \<Rightarrow> mkfs \<Rightarrow> bool" where
  "appended n p m m' \<longleftrightarrow> mk_inv m' \<and> mk_freeinode m' = mk_freeinode m \<and> bytes_at m' n = bytes_at m n @ p
     \<and> (\<forall>j < 200. j \<noteq> n \<longrightarrow> bytes_at m' j = bytes_at m j)"

lemma appendedD:
  assumes "appended n p m m'"
  shows "mk_inv m'" and "mk_freeinode m' = mk_freeinode m" and "bytes_at m' n = bytes_at m n @ p"
    and "j < 200 \<Longrightarrow> j \<noteq> n \<Longrightarrow> bytes_at m' j = bytes_at m j"
  using assms by (auto simp: appended_def)

lemma appended_trans: "appended n p m m1 \<Longrightarrow> appended n q m1 m2 \<Longrightarrow> appended n (p @ q) m m2"
  by (auto simp: appended_def)

lemma appended_refl: "mk_inv m \<Longrightarrow> appended n [] m m"
  by (simp add: appended_def)

lemma grown_appended:
  assumes inv: "mk_inv m" and n: "n < mk_freeinode m" "n < 200"
    and din: "din = read_dinode n (mk_fs [] m)" and sz: "unat (di_size din) = k"
    and w: "wrote 0 k src (mk_with n din m) (mk_with n din' m1)" and img: "img_ok m1" "mk_freeinode m1 = mk_freeinode m"
    and le: "k + length src \<le> MAXFILE * BSIZE"
    and wi: "winode n (din'\<lparr>di_size := of_nat (k + length src)\<rparr>) m1 = Inr m'"
  shows "appended n src m m'"
proof -
  note I = mk_invD [OF inv]
  note G = grown [OF I(2,3) n(2) din sz w img(1) le wi]
  have "di_type (read_dinode j (mk_fs [] m')) = 0" if "j < 200" "mk_freeinode m' \<le> j" for j
    using I(6) [of j] G(7) [of j] that n img G(4) by simp
  then show ?thesis using G I img(2) by (simp add: appended_def mk_inv_def)
qed

lemma iappend_ok:
  assumes ia: "iappend n p m = Inr m'" and inv: "mk_inv m" and n: "n < mk_freeinode m" "n < 200"
  shows "appended n p m m'"
proof -
  note I = mk_invD [OF inv]
  obtain din off din' m1 where r: "rinode n m = Inr din"
    and l: "iappend_loop (unat (di_size din)) p din m = Inr (off, din', m1)"
    and wi: "winode n (din'\<lparr>di_size := of_nat off\<rparr>) m1 = Inr m'"
    using ia by (auto simp: iappend_def res_simps)
  have din: "din = read_dinode n (mk_fs [] m)" by (rule rinodeD [OF r I(1) n(2)])
  have "unat (di_size din) \<le> MAXFILE * BSIZE" using fs_okD(3) [OF I(2), of n] n din by (simp add: no_holes_def)
  note B = iappend_loop_bound [OF l this]
  note ok = loaded_view(2) [OF mk_ok_entry [OF I(2) n(2)], folded din]
  note L = iappend_loop_ok [OF l ok I(1) B(2) [unfolded B(1)]]
  show ?thesis by (rule grown_appended [OF inv n din refl L B(2) [unfolded B(1)] wi [unfolded B(1)]])
qed

lemma repeat_append_ok:
  "repeat_append n cs m = Inr m' \<Longrightarrow> mk_inv m \<Longrightarrow> n < mk_freeinode m \<Longrightarrow> n < 200 \<Longrightarrow> appended n (concat cs) m m'"
proof (induction cs arbitrary: m)
  case Nil
  then show ?case using appended_refl by simp
next
  case (Cons c cs)
  then obtain m1 where s: "iappend n c m = Inr m1" "repeat_append n cs m1 = Inr m'" by (auto simp: res_simps)
  note A = iappend_ok [OF s(1) Cons.prems(2-4)]
  from Cons.IH [OF s(2) appendedD(1) [OF A]] Cons.prems(3,4) appendedD(2) [OF A]
  have "appended n (concat cs) m1 m'" by simp
  then show ?case using appended_trans [OF A] by simp
qed

lemma new_dinode_sel [simp]: "di_addrs (new_dinode ty) = replicate (NDIRECT + 1) 0" "di_size (new_dinode ty) = 0"
  by (simp_all add: new_dinode_def)

text \<open>A new inode has no blocks.\<close>

lemma tail_zero_new:
  assumes ok: "fs_ok st" "tail_zero st" and n: "n < sb_ninodes (fs_sb st)" and w: "stores_dinode n (new_dinode ty) st st'"
  shows "tail_zero st'"
proof -
  let ?d = "new_dinode ty" and ?V = "(on_disk st)(n := new_dinode ty)"
  have len: "length (di_addrs ?d) = NDIRECT + 1" by simp
  note W = write_dinode_ok [OF w len blocks_okD(2) [OF data_okD(1) [OF fs_okD(1) [OF ok(1)]]]]
  have "data_ok ?V st" by (rule data_ok_clear [OF fs_okD(1) [OF ok(1)]]) simp
  note D = write_dinode_data [OF w len this n refl]
  have V: "on_disk st' = ?V" using W(3) by auto
  have "slots_of ?V R n p = 0" for R p
    by (simp only: slots_of_def fun_upd_same new_dinode_sel slot_no_addrs)
  then have zero: "file_byte (slots_of ?V R) R n x = 0" if "x < MAXFILE * BSIZE" for R x
    using that by (simp add: file_byte_def less_mult_imp_div_less)
  have other: "slots_of ?V R j = slots_of (on_disk st) R j" if "j \<noteq> n" for R j
    using that by (simp add: slots_of_def fun_eq_iff)
  show ?thesis
    unfolding tail_zero_def V
  proof (intro allI impI)
    fix j x assume j: "j < sb_ninodes (fs_sb st')" "x < MAXFILE * BSIZE" "unat (di_size (read_dinode j st')) \<le> x"
    have "file_byte (slots_of ?V (blocks st')) (blocks st') j x = file_byte (slots_of ?V (blocks st)) (blocks st) j x"
      using D(3) [of j x] j(1,2) by (simp add: W(1) fun_upd_def)
    also have "\<dots> = 0"
    proof (cases "j = n")
      case False
      then show ?thesis using ok(2) j W(3) [of j] unfolding file_byte_def other [OF False] tail_zero_def by (simp add: W(1) file_byte_def)
    qed (simp add: zero j(2))
    finally show "file_byte (slots_of ?V (blocks st')) (blocks st') j x = 0" .
  qed
qed

lemma mk_ialloc_ok:
  assumes ia: "mk_ialloc ty m = Inr (n, m')" and inv: "mk_inv m" and n: "mk_freeinode m < 200"
  shows "n = mk_freeinode m" and "mk_inv m'" and "mk_freeinode m' = n + 1" and "bytes_at m' n = []"
    and "j < 200 \<Longrightarrow> j \<noteq> n \<Longrightarrow> bytes_at m' j = bytes_at m j"
proof -
  let ?m = "m\<lparr>mk_freeinode := n + 1\<rparr>"
  note I = mk_invD [OF inv]
  show nn: "n = mk_freeinode m" using ia by (auto simp: mk_ialloc_def Let_def res_simps)
  then have w: "winode n (new_dinode ty) ?m = Inr m'" using ia by (auto simp: mk_ialloc_def Let_def res_simps)
  have b: "mk_blocks ?m = mk_blocks m" by (simp add: mk_blocks_def fun_eq_iff)
  have "img_ok ?m" using I(1) by (simp add: img_ok_def)
  note W = winodeD [OF w this, unfolded b]
  have n2: "n < 200" using n nn by simp
  have st: "stores_dinode n (new_dinode ty) (mk_fs [] m) (mk_fs [] m')" using W(1) n2 by simp
  have "typed (mk_fs [] m)" by (simp add: typed_def loaded_def)
  then have t: "n < sb_ninodes (fs_sb (mk_fs [] m))" "di_type (read_dinode n (mk_fs [] m)) = 0" "typed (mk_fs [] m)"
    using n2 I(6) nn by simp_all
  note F = write_fresh [OF I(2) t(3,1,2) st new_dinode_sel]
  show fi: "mk_freeinode m' = n + 1" using W(3) n2 by simp
  show "bytes_at m' n = []" "j < 200 \<Longrightarrow> j \<noteq> n \<Longrightarrow> bytes_at m' j = bytes_at m j" using F nn by simp_all
  have "tail_zero (mk_fs [] m')" by (rule tail_zero_new [OF I(2,3) _ st]) (simp add: n2)
  moreover have "di_type (read_dinode j (mk_fs [] m')) = 0" if "j < 200" "mk_freeinode m' \<le> j" for j
    using that F nn fi I(6) [of j] by simp
  ultimately show "mk_inv m'" using F nn W n2 I(4,5) by (simp add: mk_inv_def)
qed

section \<open>The files\<close>

definition dirents :: "nat \<Rightarrow> (u8 list \<times> 'a) list \<Rightarrow> u8 list" where
  "dirents k fs = concat (map (\<lambda>i. mk_dirent (k + i) (strip (fst (fs ! i)))) [0..<length fs])"

lemma dirents_Cons: "dirents k (f # fs) = mk_dirent k (strip (fst f)) @ dirents (Suc k) fs"
proof -
  have "[0..<length (f # fs)] = 0 # map Suc [0..<length fs]" by (simp add: map_Suc_upt upt_conv_Cons del: upt_Suc)
  then show ?thesis by (simp add: dirents_def comp_def del: upt_Suc)
qed

text \<open>Inode \<open>k + i\<close> has the bytes of the \<open>i\<close>-th file; the root has the old bytes and one entry for each.\<close>

definition holds_files :: "nat \<Rightarrow> (u8 list \<times> u8 list list option) list \<Rightarrow> (nat \<Rightarrow> u8 list) \<Rightarrow> (nat \<Rightarrow> u8 list) \<Rightarrow> bool" where
  "holds_files k fs B B' \<longleftrightarrow> B' 1 = B 1 @ dirents k fs
     \<and> (\<forall>i < length fs. \<exists>cs. snd (fs ! i) = Some cs \<and> B' (k + i) = concat cs)
     \<and> (\<forall>j < k. j \<noteq> 1 \<longrightarrow> B' j = B j)"

lemma add_file_ok:
  assumes a: "add_file 1 (name, data) m = Inr m'" and inv: "mk_inv m" and k: "1 < mk_freeinode m" "mk_freeinode m < 200"
  shows "mk_inv m'" and "mk_freeinode m' = mk_freeinode m + 1"
    and "\<exists>cs. data = Some cs \<and> bytes_at m' (mk_freeinode m) = concat cs"
    and "bytes_at m' 1 = bytes_at m 1 @ mk_dirent (mk_freeinode m) (strip name)"
    and "j < mk_freeinode m \<Longrightarrow> j \<noteq> 1 \<Longrightarrow> bytes_at m' j = bytes_at m j"
proof -
  obtain cs n m1 m2 where d: "data = Some cs" and s1: "mk_ialloc T_FILE m = Inr (n, m1)"
    and s2: "iappend 1 (mk_dirent n (strip name)) m1 = Inr m2" and s3: "repeat_append n cs m2 = Inr m'"
    using a by (auto simp: add_file_def res_simps split: if_splits option.splits)
  note A = mk_ialloc_ok [OF s1 inv k(2)]
  note B = appendedD [OF iappend_ok [OF s2 A(2)]]
  have one: "1 < mk_freeinode m1" "(1::nat) < 200" using A(1,3) k by auto
  note C = appendedD [OF repeat_append_ok [OF s3 B(1) [OF one]]]
  have n: "n < mk_freeinode m2" "n < 200" using B(2) [OF one] A(1,3) k by auto
  show "mk_inv m'" by (rule C(1) [OF n])
  show "mk_freeinode m' = mk_freeinode m + 1" using C(2) [OF n] B(2) [OF one] A(1,3) by simp
  show "\<exists>cs. data = Some cs \<and> bytes_at m' (mk_freeinode m) = concat cs"
    using d C(3) [OF n] B(4) [OF one, of n] A(1,4) k by simp
  show "bytes_at m' 1 = bytes_at m 1 @ mk_dirent (mk_freeinode m) (strip name)"
    using C(4) [OF n, of 1] B(3) [OF one] A(1) A(5) [of 1] k by simp
  show "j < mk_freeinode m \<Longrightarrow> j \<noteq> 1 \<Longrightarrow> bytes_at m' j = bytes_at m j"
    using C(4) [OF n, of j] B(4) [OF one, of j] A(1) A(5) [of j] k by simp
qed

lemma add_files_ok:
  "add_files 1 fs m = Inr m' \<Longrightarrow> mk_inv m \<Longrightarrow> 1 < mk_freeinode m \<Longrightarrow> mk_freeinode m + length fs \<le> 200 \<Longrightarrow>
   mk_inv m' \<and> mk_freeinode m' = mk_freeinode m + length fs \<and> holds_files (mk_freeinode m) fs (bytes_at m) (bytes_at m')"
proof (induction fs arbitrary: m)
  case Nil
  then show ?case by (simp add: holds_files_def dirents_def)
next
  case (Cons f fs)
  obtain name data where f: "f = (name, data)" by (cases f)
  obtain m1 where s: "add_file 1 (name, data) m = Inr m1" "add_files 1 fs m1 = Inr m'"
    using Cons.prems(1) f by (auto simp: res_simps)
  have k: "mk_freeinode m < 200" using Cons.prems(4) by simp
  note A = add_file_ok [OF s(1) Cons.prems(2,3) k]
  have IH: "mk_inv m'" "mk_freeinode m' = mk_freeinode m1 + length fs" "holds_files (mk_freeinode m1) fs (bytes_at m1) (bytes_at m')"
    using Cons.IH [OF s(2) A(1)] Cons.prems(3,4) A(2) by auto
  have "\<exists>cs. snd ((f # fs) ! i) = Some cs \<and> bytes_at m' (mk_freeinode m + i) = concat cs" if "i < length (f # fs)" for i
  proof (cases i)
    case 0
    then show ?thesis using A(2,3) IH(3) Cons.prems(3) f by (auto simp: holds_files_def)
  next
    case (Suc j)
    then show ?thesis using IH(3) that A(2) by (simp add: holds_files_def)
  qed
  moreover have "bytes_at m' 1 = bytes_at m 1 @ dirents (mk_freeinode m) (f # fs)"
    using IH(3) A(2,4) f by (simp add: holds_files_def dirents_Cons)
  ultimately show ?case using IH A(2,5) by (simp add: holds_files_def)
qed

section \<open>The empty image\<close>

lemma wsects_ok:
  "length (mk_img m) = k \<Longrightarrow> k + n \<le> FSSIZE \<Longrightarrow> wsects [k..<k + n] m = Inr (m\<lparr>mk_img := mk_img m @ replicate n zeroes\<rparr>)"
proof (induction n arbitrary: k m)
  case 0
  then show ?case by simp
next
  case (Suc n)
  have "[k..<k + Suc n] = k # [Suc k..<Suc k + n]" by (simp add: upt_conv_Cons del: upt_Suc)
  moreover have "wsect k zeroes m = Inr (m\<lparr>mk_img := mk_img m @ [zeroes]\<rparr>)"
    using Suc.prems by (simp add: wsect_def)
  ultimately show ?case
    using Suc.IH [of "m\<lparr>mk_img := mk_img m @ [zeroes]\<rparr>" "Suc k"] Suc.prems by (simp del: upt_Suc)
qed

definition mk_start :: mkfs where
  "mk_start = \<lparr>mk_img = (replicate FSSIZE zeroes)[1 := sb_block], mk_freeinode = 1, mk_freeblock = nmeta\<rparr>"

lemma mkfs_main_eq:
  "mkfs_main files =
     bindR (mk_ialloc T_DIR mk_start) (\<lambda>(root, m).
     if root \<noteq> ROOTINO then Inl (Panic ''assert'')
     else
       bindR (iappend root (mk_dirent root [46]) m) (\<lambda>m.
       bindR (iappend root (mk_dirent root [46, 46]) m) (\<lambda>m.
       bindR (add_files root files m) (\<lambda>m.
       bindR (fix_root root m) (\<lambda>m.
         mk_balloc (mk_freeblock m) m)))))"
proof -
  have "wsects [0..<FSSIZE] \<lparr>mk_img = [], mk_freeinode = 1, mk_freeblock = nmeta\<rparr>
      = Inr \<lparr>mk_img = replicate FSSIZE zeroes, mk_freeinode = 1, mk_freeblock = nmeta\<rparr>"
    using wsects_ok [of "\<lparr>mk_img = [], mk_freeinode = 1, mk_freeblock = nmeta\<rparr>" 0 FSSIZE] by simp
  moreover have "wsect 1 sb_block \<lparr>mk_img = replicate FSSIZE zeroes, mk_freeinode = 1, mk_freeblock = nmeta\<rparr> = Inr mk_start"
    by (simp add: wsect_def Let_def FSSIZE_def mk_start_def)
  ultimately show ?thesis by (simp add: mkfs_main_def)
qed

lemma length_sb_block [simp]: "length sb_block = BSIZE"
proof -
  have "length (concat (map (\<lambda>x. bytes_of_u32 (xint (of_nat x))) xs)) = 4 * length xs" for xs :: "nat list"
    by (induction xs) auto
  then show ?thesis unfolding sb_block_def by (subst length_blit) (simp_all add: BSIZE_def)
qed

lemma zero_dinode: "dinode_of (replicate 64 0) = new_dinode 0\<lparr>di_nlink := 0\<rparr>"
proof -
  have "u32_of_bytes (slice k 4 (replicate 64 0)) = 0" if "k + 4 \<le> 64" for k
    using that by (simp add: slice_def u32_of_bytes_def nth_replicate)
  moreover have "u16_of_bytes (slice k 2 (replicate 64 0)) = 0" if "k + 2 \<le> 64" for k
    using that by (simp add: slice_def u16_of_bytes_def nth_replicate)
  moreover from calculation(1) have "map (\<lambda>i. u32_of_bytes (slice (12 + 4 * i) 4 (replicate 64 0))) [0..<NDIRECT + 1] = replicate (NDIRECT + 1) 0"
    by (intro nth_equalityI) (simp_all add: NDIRECT_def del: upt_Suc replicate_Suc)
  ultimately show ?thesis by (simp add: dinode_of_def new_dinode_def)
qed

lemma mk_blocks_start: "mk_blocks mk_start b = (if b = 58 then bitmap_of 59 else if b = 1 then sb_block else zeroes)"
  by (simp add: mk_blocks_def mk_start_def nmeta_val FSSIZE_def nth_list_update)

lemma read_dinode_start: "n < 200 \<Longrightarrow> read_dinode n (mk_fs [] mk_start) = new_dinode 0\<lparr>di_nlink := 0\<rparr>"
proof -
  assume n: "n < 200"
  have "64 * (n mod IPB) + 64 \<le> BSIZE" by (simp add: IPB_val BSIZE_def)
  then have "slice (64 * (n mod IPB)) 64 zeroes = replicate 64 0" by (simp add: slice_def zeroes_def)
  then show ?thesis using IBLOCK_mk [OF n] by (simp add: read_dinode_def mk_blocks_start zero_dinode)
qed

lemma mk_inv_start: "mk_inv mk_start"
proof -
  have img: "img_ok mk_start"
    by (simp add: img_ok_def mk_start_def nmeta_val FSSIZE_def nth_list_update)
  have slots: "disk_slots (mk_fs [] mk_start) n p = 0" if "n < 200" for n p
  proof -
    have "di_addrs (read_dinode n (mk_fs [] mk_start)) = replicate (NDIRECT + 1) 0" by (simp add: read_dinode_start [OF that])
    then show ?thesis by (simp only: slots_of_def slot_no_addrs)
  qed
  have "data_ok (on_disk (mk_fs [] mk_start)) (mk_fs [] mk_start)"
    using blocks_ok_mk [OF img] slots by (simp add: data_ok_def slots_ok_def read_dinode_start)
  then have "fs_ok (mk_fs [] mk_start)"
    by (simp add: fs_ok_def icache_ok_def read_dinode_start no_holes_def)
  then show ?thesis
    using img slots by (simp add: mk_inv_def tail_zero_def file_byte_def mk_blocks_start read_dinode_start new_dinode_def)
qed

lemma bytes_start: "n < 200 \<Longrightarrow> bytes_at mk_start n = []"
  by (simp add: file_bytes_def read_dinode_start)

section \<open>The size of the root\<close>

lemma fix_root_ok:
  assumes f: "fix_root 1 m = Inr m'" and inv: "mk_inv m" and n: "1 < mk_freeinode m"
    and s: "length (bytes_at m 1) mod BSIZE \<noteq> 0"
  shows "appended 1 (replicate (BSIZE - length (bytes_at m 1) mod BSIZE) 0) m m'"
proof -
  define k where "k = length (bytes_at m 1)"
  have s: "k mod BSIZE \<noteq> 0" using s unfolding k_def .
  let ?c = "BSIZE - k mod BSIZE"
  note I = mk_invD [OF inv]
  define din where "din = read_dinode 1 (mk_fs [] m)"
  have k: "unat (di_size din) = k" by (simp add: din_def k_def)
  have sum: "(k div BSIZE + 1) * BSIZE = k + ?c"
    using div_mult_mod_eq [of k BSIZE] mod_less_divisor [OF BSIZE_pos, of k] unfolding add_mult_distrib by linarith
  obtain d where r: "rinode 1 m = Inr d"
    and wi: "winode 1 (d\<lparr>di_size := of_nat ((unat (di_size d) div BSIZE + 1) * BSIZE)\<rparr>) m = Inr m'"
    using f by (auto simp: fix_root_def Let_def res_simps)
  have d: "d = din" using rinodeD [OF r I(1)] by (simp add: din_def)
  have h: "no_holes (disk_slots (mk_fs [] m)) 1 k" using fs_okD(3) [OF I(2), of 1] k by (simp add: din_def)
  have "k \<le> MAXFILE * BSIZE" using h unfolding no_holes_def by blast
  moreover have "k \<noteq> MAXFILE * BSIZE" using s by (metis mod_mult_self2_is_0)
  ultimately have "k < MAXFILE * BSIZE" by linarith
  then have bn: "k div BSIZE < MAXFILE" by (simp add: less_mult_imp_div_less)
  then have le: "k + ?c \<le> MAXFILE * BSIZE" unfolding sum [symmetric] by (intro mult_le_mono1) simp
  have "k div BSIZE * BSIZE < k"
    using div_mult_mod_eq [of k BSIZE] s by linarith
  then have sl: "disk_slots (mk_fs [] m) 1 (slot_no (k div BSIZE)) \<noteq> 0" using h unfolding no_holes_def by blast
  have one: "(1::nat) < 200" by simp
  note E = mk_ok_entry [OF I(2) one, folded din_def]
  note v = loaded_view(1) [OF E]
  have same: "o' div BSIZE = k div BSIZE" if "k \<le> o'" "o' < k + ?c" for o'
    using that sum by (intro div_nat_eqI) (auto simp: algebra_simps intro: order_trans [OF div_times_less_eq_dividend])
  have zero: "file_byte (disk_slots (mk_fs [] m)) (mk_blocks m) 1 o' = 0" if "k \<le> o'" "o' < MAXFILE * BSIZE" for o'
    using I(3) that k by (simp add: tail_zero_def din_def)
  have ds: "slots_in 0 (mk_with 1 din m) = disk_slots (mk_fs [] m)"
    unfolding v by (simp add: read_dinode_on)
  have "wrote 0 k (replicate ?c 0) (mk_with 1 din m) (mk_with 1 din m)"
    unfolding wrote_def ds length_replicate
  proof (intro conjI allI impI exI)
    show "fs_icache (mk_with 1 din m) = (fs_icache (mk_with 1 din m))[0 := inode_at 0 (mk_with 1 din m)\<lparr>ip_addrs := di_addrs din\<rparr>]"
      by (simp add: the_entry_upd)
    fix o' assume o': "k \<le> o' \<and> o' < k + ?c"
    show "disk_slots (mk_fs [] m) (inum_of 0 (mk_with 1 din m)) (slot_no (o' div BSIZE)) \<noteq> 0"
      using sl same [of o'] o' by simp
  next
    fix j o' assume j: "j < sb_ninodes (fs_sb (mk_with 1 din m))" and o': "o' < MAXFILE * BSIZE"
    show "file_byte (disk_slots (mk_fs [] m)) (blocks (mk_with 1 din m)) j o' =
        (if j = inum_of 0 (mk_with 1 din m) \<and> k \<le> o' \<and> o' < k + ?c then replicate ?c 0 ! (o' - k)
         else file_byte (disk_slots (mk_fs [] m)) (blocks (mk_with 1 din m)) j o')"
      using zero [of o'] o' by (auto simp: nth_replicate)
  qed (use loaded_view(2) [OF E] in simp_all)
  from grown_appended [OF inv n one din_def k this I(1) refl] le wi [unfolded d k sum]
  show ?thesis by (simp add: k_def)
qed

section \<open>The finished image\<close>

lemma mk_dirent_eq: "mk_dirent = dirent_bytes"
  by (simp add: mk_dirent_def dirent_bytes_def fun_eq_iff)

lemma length_mk_dirent [simp]: "length (mk_dirent k name) = 16"
  by (simp add: mk_dirent_def name_buf_def DIRSIZ_def)

lemma length_dirents [simp]: "length (dirents k fs) = 16 * length fs"
  by (induction fs arbitrary: k) (simp_all add: dirents_Cons, simp add: dirents_def)

lemma mkfs_main_steps:
  assumes mk: "mkfs_main files = Inr m" and n: "length files \<le> 198" "length files mod 32 \<noteq> 30"
  obtains m0 where "mk_inv m0" "mk_balloc (mk_freeblock m0) m0 = Inr m"
    "bytes_at m0 1 = mk_dirent 1 [46] @ mk_dirent 1 [46, 46] @ dirents 2 files
      @ replicate (BSIZE - (32 + 16 * length files) mod BSIZE) 0"
    "\<forall>i < length files. \<exists>cs. snd (files ! i) = Some cs \<and> bytes_at m0 (2 + i) = concat cs"
proof -
  obtain m1 m2 m3 m4 m5 where s1: "mk_ialloc T_DIR mk_start = Inr (1, m1)"
    and s2: "iappend 1 (mk_dirent 1 [46]) m1 = Inr m2" and s3: "iappend 1 (mk_dirent 1 [46, 46]) m2 = Inr m3"
    and s4: "add_files 1 files m3 = Inr m4" and s5: "fix_root 1 m4 = Inr m5" and s6: "mk_balloc (mk_freeblock m5) m5 = Inr m"
    using mk unfolding mkfs_main_eq by (auto simp: res_simps ROOTINO_def split: if_splits)
  have f0: "mk_freeinode mk_start < 200" by (simp add: mk_start_def)
  note A = mk_ialloc_ok [OF s1 mk_inv_start f0]
  have one: "(1::nat) < 200" "1 < mk_freeinode m1" using A(3) by auto
  note B = appendedD [OF iappend_ok [OF s2 A(2) one(2,1)]]
  note C = appendedD [OF iappend_ok [OF s3 B(1) _ one(1)]]
  have two: "mk_freeinode m3 = 2" "mk_inv m3" "bytes_at m3 1 = mk_dirent 1 [46] @ mk_dirent 1 [46, 46]"
    using A(3,4) B(2,3) C by simp_all
  have D: "mk_inv m4" "mk_freeinode m4 = 2 + length files" "holds_files 2 files (bytes_at m3) (bytes_at m4)"
    using add_files_ok [OF s4 two(2)] two(1) n by auto
  have r: "bytes_at m4 1 = mk_dirent 1 [46] @ mk_dirent 1 [46, 46] @ dirents 2 files"
    using D(3) two(3) by (simp add: holds_files_def)
  have len: "length (bytes_at m4 1) = 32 + 16 * length files" unfolding r by simp
  have "length (bytes_at m4 1) mod BSIZE \<noteq> 0" unfolding len BSIZE_def using n by presburger
  note F = appendedD [OF fix_root_ok [OF s5 D(1) _ this]]
  show thesis
  proof (rule that [OF _ s6])
    show "mk_inv m5" using F(1) D(2) by simp
    show "bytes_at m5 1 = mk_dirent 1 [46] @ mk_dirent 1 [46, 46] @ dirents 2 files
      @ replicate (BSIZE - (32 + 16 * length files) mod BSIZE) 0"
      using F(3) D(2) unfolding len r by simp
    show "\<forall>i < length files. \<exists>cs. snd (files ! i) = Some cs \<and> bytes_at m5 (2 + i) = concat cs"
      using F(4) D(2,3) n by (simp add: holds_files_def)
  qed
qed

lemma entries_concat: "(\<And>d. d \<in> set ds \<Longrightarrow> length d = 16) \<Longrightarrow> entries (concat ds) = ds"
proof (induction ds)
  case (Cons d ds)
  have len: "length (concat ds) = 16 * length ds" if "\<forall>d \<in> set ds. length d = 16" for ds :: "u8 list list"
    using that by (induction ds) auto
  have "[0..<Suc (length ds)] = 0 # map Suc [0..<length ds]" by (simp add: map_Suc_upt upt_conv_Cons del: upt_Suc)
  then have "entries (concat (d # ds)) = slice 0 16 (d @ concat ds) # map (\<lambda>k. slice (16 * Suc k) 16 (d @ concat ds)) [0..<length ds]"
    using Cons.prems len [of ds] by (simp add: entries_def comp_def del: upt_Suc)
  also have "\<dots> = d # entries (concat ds)"
    using Cons.prems len [of ds] by (simp add: entries_def slice_append_right) (simp add: slice_def)
  finally show ?case using Cons by simp
qed (simp add: entries_def)

definition root_entries :: "(u8 list \<times> 'a) list \<Rightarrow> u8 list list" where
  "root_entries files = [dirent_bytes 1 [46], dirent_bytes 1 [46, 46]]
     @ map (\<lambda>i. dirent_bytes (2 + i) (strip (fst (files ! i)))) [0..<length files]
     @ replicate (32 - (2 + length files) mod 32) (replicate 16 0)"

lemma entries_root:
  "entries (mk_dirent 1 [46] @ mk_dirent 1 [46, 46] @ dirents 2 files
     @ replicate (BSIZE - (32 + 16 * length files) mod BSIZE) 0) = root_entries files"
proof -
  have "(32 + 16 * length files) mod BSIZE = 16 * ((2 + length files) mod 32)"
    using mult_mod_right [of 16 "2 + length files" 32] by (simp add: BSIZE_def)
  then have "BSIZE - (32 + 16 * length files) mod BSIZE = (32 - (2 + length files) mod 32) * 16"
    by (simp add: BSIZE_def diff_mult_distrib)
  moreover have "replicate (k * 16) (0::u8) = concat (replicate k (replicate 16 0))" for k
    by (induction k) (simp_all add: replicate_add)
  ultimately have "mk_dirent 1 [46] @ mk_dirent 1 [46, 46] @ dirents 2 files
     @ replicate (BSIZE - (32 + 16 * length files) mod BSIZE) 0 = concat (root_entries files)"
    by (simp add: root_entries_def dirents_def mk_dirent_eq)
  then show ?thesis
    by (simp only:, intro entries_concat)
      (auto simp: root_entries_def simp flip: mk_dirent_eq)
qed

lemma readsb_mk: "blocks st 1 = sb_block \<Longrightarrow> readsb st = mk_sb"
proof -
  assume b: "blocks st 1 = sb_block"
  let ?xs = "[2000, 1941, 200, 30, 2, 32, 58] :: nat list"
  have e: "sb_block = concat (map bytes_of_u32 (map of_nat ?xs)) @ drop (length (concat (map bytes_of_u32 (map of_nat ?xs)))) zeroes"
    unfolding sb_block_def mk_sb_sel by (simp add: blit_def)
  have "u32_of_bytes (slice (4 * i) 4 sb_block) = of_nat (?xs ! i)" if "i < 7" for i
  proof -
    have "4 * i + 4 \<le> length (concat (map bytes_of_u32 (map of_nat ?xs)))" using that by simp
    then have "slice (4 * i) 4 sb_block = bytes_of_u32 (map of_nat ?xs ! i)"
      unfolding e using that by (simp only: slice_append_left) (rule slice_concat_u32, simp)
    also have "map of_nat ?xs ! i = (of_nat (?xs ! i) :: u32)" using that by (intro nth_map) simp
    finally show ?thesis by simp
  qed
  from this [of 0] this [of 1] this [of 2] this [of 3] this [of 4] this [of 5] this [of 6]
  show ?thesis using b by (simp add: readsb_def Let_def mk_sb_vals)
qed

lemma log_area_empty: "committed 2 30 [] f d \<longleftrightarrow> length (d 2) = BSIZE \<and> parse_header (d 2) = Inr []"
  by (simp add: committed_def area_ok_def lh_ok_def)

lemma zero_header: "parse_header zeroes = Inr []" "header_block [] zeroes = zeroes"
proof -
  have z: "slice 0 4 zeroes = replicate 4 0" by (simp add: slice_def zeroes_def BSIZE_def)
  have "word_at 0 zeroes = 0" unfolding word_at_def by (simp add: z u32_of_bytes_def nth_replicate)
  then show "parse_header zeroes = Inr []" by (simp add: parse_header_def Let_def LOGSIZE_def)
  have "bytes_of_u32 0 = replicate 4 0" by (simp add: bytes_of_u32_def numeral_eq_Suc)
  then have "header_block [] zeroes = replicate 4 0 @ drop 4 zeroes" by (simp add: header_block_def blit_def)
  also have "\<dots> = zeroes" by (simp add: zeroes_def BSIZE_def flip: replicate_add)
  finally show "header_block [] zeroes = zeroes" .
qed

lemma mount_ok:
  assumes inv: "mk_inv m0" and b: "mk_balloc (mk_freeblock m0) m0 = Inr m"
  shows "\<exists>st. mount (disk_of m) = Inr st \<and> blocks st = mk_blocks m0 \<and> fs_sb st = mk_sb
    \<and> fs_icache st = replicate NINODE empty_inode"
proof -
  note I = mk_invD [OF inv]
  have "m = m0\<lparr>mk_img := (mk_img m0)[58 := bitmap_of (mk_freeblock m0)]\<rparr>"
    using b img_okD(1) [OF I(1)] by (auto simp: mk_balloc_def wsect_def Let_def split: if_splits)
  then have d: "disk_of m = mk_blocks m0"
    using img_okD(1) [OF I(1)] by (auto simp: disk_of_def mk_blocks_def fun_eq_iff)
  have "committed 2 30 [] (\<lambda>_. []) (mk_blocks m0)"
    using I(5) by (simp add: log_area_empty zero_header)
  from recover_eq [OF this] obtain l where l: "initlog 2 30 (mk_blocks m0) = Inr l"
    "lg_disk l = (mk_blocks m0)(2 := header_block [] (mk_blocks m0 2))" "lg_cache l = (\<lambda>_. None)"
    by (auto simp: apply_writes_def)
  have "bread l = mk_blocks m0" using l(2,3) I(5) by (auto simp: bread_def zero_header fun_eq_iff)
  moreover define st where "st = iinit \<lparr>fs_log = \<lparr>lg_disk = mk_blocks m0, lg_cache = (\<lambda>_. None), lg_writes = [], lg_start = 0,
      lg_size = 0, lg_outstanding = 0, lg_committing = False, lg_lh = []\<rparr>, fs_sb = \<lparr>sb_size = 0, sb_nblocks = 0, sb_ninodes = 0,
      sb_nlog = 0, sb_logstart = 0, sb_inodestart = 0, sb_bmapstart = 0\<rparr>, fs_icache = replicate NINODE empty_inode\<rparr>"
  moreover have "fs_sb st = mk_sb"
    using I(4) by (simp add: st_def iinit_def readsb_mk bread_def)
  moreover have "fs_icache st = replicate NINODE empty_inode" by (simp add: st_def iinit_def)
  moreover have "mount (disk_of m) = bindR (initlog (sb_logstart (fs_sb st)) (sb_nlog (fs_sb st)) (mk_blocks m0)) (\<lambda>l. Inr (st\<lparr>fs_log := l\<rparr>))"
    by (simp add: mount_def st_def d Let_def)
  ultimately show ?thesis using l(1) by simp
qed

lemma fs_ok_mounted:
  assumes ok: "fs_ok (fs_on R [])" and st: "blocks st = R" "fs_sb st = mk_sb" "fs_icache st = replicate NINODE empty_inode"
  shows "fs_ok st" and "file_bytes st n = file_bytes (fs_on R []) n"
proof -
  have rd: "read_dinode n st = read_dinode n (fs_on R [])" for n by (simp add: read_dinode_def st)
  show "file_bytes st n = file_bytes (fs_on R []) n" by (simp add: file_bytes_def rd st)
  have "icache_ok st" by (simp add: icache_ok_def st empty_inode_def)
  then show "fs_ok st" using ok by (simp add: fs_ok_def data_ok_def rd st)
qed


text \<open>The run without input files.\<close>

lemma winode_total: "img_ok m \<Longrightarrow> n < 200 \<Longrightarrow> \<exists>m'. winode n d m = Inr m' \<and> mk_freeblock m' = mk_freeblock m"
  using IBLOCK_mk [of n] img_okD(1) [of m] by (auto simp: winode_def Let_def rsect_def wsect_def FSSIZE_def)

lemma rinode_total: "img_ok m \<Longrightarrow> n < 200 \<Longrightarrow> \<exists>d. rinode n m = Inr d"
  using IBLOCK_mk [of n] img_okD(1) [of m] by (auto simp: rinode_def rsect_def FSSIZE_def)

lemma iappend_total:
  assumes inv: "mk_inv m" and n: "n < 200" and le: "length (bytes_at m n) + length p \<le> MAXFILE * BSIZE"
    and fb: "mk_freeblock m + 2 * length p \<le> 2000"
  shows "\<exists>m'. iappend n p m = Inr m' \<and> mk_freeblock m' \<le> mk_freeblock m + 2 * length p"
proof -
  note I = mk_invD [OF inv]
  obtain din where r: "rinode n m = Inr din" using rinode_total [OF I(1) n] by blast
  have din: "din = read_dinode n (mk_fs [] m)" by (rule rinodeD [OF r I(1) n])
  note ok = loaded_view(2) [OF mk_ok_entry [OF I(2) n], folded din]
  have "unat (di_size din) + length p \<le> MAXFILE * BSIZE" using le by (simp add: din)
  from iappend_loop_total [OF ok I(1) this fb] obtain off d' m1
    where l: "iappend_loop (unat (di_size din)) p din m = Inr (off, d', m1)" "mk_freeblock m1 \<le> mk_freeblock m + 2 * length p" by auto
  from iappend_loop_ok(2) [OF l(1) ok I(1) \<open>unat (di_size din) + length p \<le> MAXFILE * BSIZE\<close>]
  obtain m' where "winode n (d'\<lparr>di_size := of_nat off\<rparr>) m1 = Inr m'" "mk_freeblock m' = mk_freeblock m1"
    using winode_total [of m1 n] n by blast
  then show ?thesis using r l by (auto simp: iappend_def)
qed

lemma mkfs_main_Nil: "\<exists>m. mkfs_main [] = Inr m"
proof -
  note S = mk_invD(1) [OF mk_inv_start]
  have f0: "mk_freeinode mk_start = 1" "mk_freeblock mk_start = 59" by (simp_all add: mk_start_def nmeta_val)
  have "img_ok (mk_start\<lparr>mk_freeinode := Suc (Suc 0)\<rparr>)" using S by (simp add: img_ok_def)
  then obtain m1 where s1: "mk_ialloc T_DIR mk_start = Inr (1, m1)" "mk_freeblock m1 = 59"
    using winode_total [of "mk_start\<lparr>mk_freeinode := Suc (Suc 0)\<rparr>" 1 "new_dinode T_DIR"] f0 by (auto simp: mk_ialloc_def Let_def)
  have one: "(1::nat) < 200" by simp
  note A = mk_ialloc_ok [OF s1(1) mk_inv_start, unfolded f0, OF one]
  obtain m2 where s2: "iappend 1 (mk_dirent 1 [46]) m1 = Inr m2" "mk_freeblock m2 \<le> 59 + 32"
    using iappend_total [OF A(2) one, of "mk_dirent 1 [46]", unfolded A(4)] s1(2) by (auto simp: max_file_size)
  have f1: "1 < mk_freeinode m1" using A(3) by simp
  note B = appendedD [OF iappend_ok [OF s2(1) A(2) f1 one]]
  obtain m3 where s3: "iappend 1 (mk_dirent 1 [46, 46]) m2 = Inr m3"
    using iappend_total [OF B(1) one, of "mk_dirent 1 [46, 46]", unfolded B(3) A(4)] s2(2) by (auto simp: max_file_size)
  have f2: "1 < mk_freeinode m2" using B(2) f1 by simp
  note C = appendedD [OF iappend_ok [OF s3 B(1) f2 one]]
  note I3 = mk_invD(1) [OF C(1)]
  obtain d where d: "rinode 1 m3 = Inr d" using rinode_total [OF I3 one] by blast
  obtain m5 where s5: "fix_root 1 m3 = Inr m5" "mk_freeblock m5 = mk_freeblock m3"
    using winode_total [OF I3 one] d by (auto simp: fix_root_def Let_def)
  have "\<exists>m. mk_balloc (mk_freeblock m5) m5 = Inr m"
    using s5(2) img_okD(4) [OF I3] by (simp add: mk_balloc_def BSIZE_def wsect_def FSSIZE_def Let_def)
  then show ?thesis using s1 s2 s3 s5 by (auto simp: mkfs_main_eq ROOTINO_def)
qed


end
