(* ===== verification/Umalloc.thy ===== *)
theory Umalloc
  imports Kalloc
begin

text \<open>
  The allocator of user programs (\<open>umalloc.c\<close>, after Kernighan and Ritchie).  A heap gives the
  header at each address; \<open>freep\<close> is 0 before the first call.  A header has 8 bytes and sizes
  count in headers.  The bytes the program keeps in its blocks are not part of the state.  What
  \<open>sbrk\<close> grants is a parameter \<open>os\<close> of the size of the process and the increment; \<open>base\<close> is the address of
  the static header.
\<close>

section \<open>The allocator\<close>

record mheader =
  h_ptr :: nat
  h_size :: u32

record heap =
  hp_mem :: "nat \<Rightarrow> mheader"
  hp_freep :: nat
  hp_brk :: nat

definition HSIZE :: nat where "HSIZE = 8"

definition ptr_at :: "heap \<Rightarrow> nat \<Rightarrow> nat" where "ptr_at h a = h_ptr (hp_mem h a)"
definition size_at :: "heap \<Rightarrow> nat \<Rightarrow> u32" where "size_at h a = h_size (hp_mem h a)"
definition set_ptr :: "nat \<Rightarrow> nat \<Rightarrow> heap \<Rightarrow> heap" where
  "set_ptr a p h = h\<lparr>hp_mem := (hp_mem h)(a := (hp_mem h a)\<lparr>h_ptr := p\<rparr>)\<rparr>"
definition set_size :: "nat \<Rightarrow> u32 \<Rightarrow> heap \<Rightarrow> heap" where
  "set_size a n h = h\<lparr>hp_mem := (hp_mem h)(a := (hp_mem h a)\<lparr>h_size := n\<rparr>)\<rparr>"

text \<open>The address behind the block at \<open>a\<close>: \<open>a + a->s.size\<close> in the pointer arithmetic of C.\<close>

definition end_at :: "heap \<Rightarrow> nat \<Rightarrow> nat" where
  "end_at h a = a + HSIZE * unat (size_at h a)"

partial_function (option) free_scan :: "heap \<Rightarrow> nat \<Rightarrow> nat \<Rightarrow> nat option" where
  "free_scan h bp p =
     (if bp > p \<and> bp < ptr_at h p then Some p
      else if p \<ge> ptr_at h p \<and> (bp > p \<or> bp < ptr_at h p) then Some p
      else free_scan h bp (ptr_at h p))"

definition join_next :: "nat \<Rightarrow> nat \<Rightarrow> heap \<Rightarrow> heap" where
  "join_next p bp h =
     (if end_at h bp = ptr_at h p
      then set_ptr bp (ptr_at h (ptr_at h p)) (set_size bp (size_at h bp + size_at h (ptr_at h p)) h)
      else set_ptr bp (ptr_at h p) h)"

definition join_prev :: "nat \<Rightarrow> nat \<Rightarrow> heap \<Rightarrow> heap" where
  "join_prev p bp h =
     (if end_at h p = bp then set_ptr p (ptr_at h bp) (set_size p (size_at h p + size_at h bp) h)
      else set_ptr p bp h)"

definition free :: "nat \<Rightarrow> heap \<Rightarrow> heap option" where
  "free ap h =
     (let bp = ap - HSIZE in
      case free_scan h bp (hp_freep h) of
        None \<Rightarrow> None
      | Some p \<Rightarrow> Some ((join_prev p bp (join_next p bp h))\<lparr>hp_freep := p\<rparr>))"

text \<open>\<open>sbrk\<close> takes an \<open>int\<close>; the product wraps around.\<close>

definition sbrk :: "(nat \<Rightarrow> int \<Rightarrow> bool) \<Rightarrow> u32 \<Rightarrow> heap \<Rightarrow> (nat \<times> heap) option" where
  "sbrk os n h =
     (if os (hp_brk h) (sint n) then Some (hp_brk h, h\<lparr>hp_brk := nat (int (hp_brk h) + sint n)\<rparr>) else None)"

definition morecore :: "(nat \<Rightarrow> int \<Rightarrow> bool) \<Rightarrow> u32 \<Rightarrow> heap \<Rightarrow> (nat \<times> heap) option" where
  "morecore os nu h =
     (let nu = (if nu < 4096 then 4096 else nu) in
      case sbrk os (nu * of_nat HSIZE) h of
        None \<Rightarrow> Some (0, h)
      | Some (p, h) \<Rightarrow>
          (case free (p + HSIZE) (set_size p nu h) of None \<Rightarrow> None | Some h \<Rightarrow> Some (hp_freep h, h)))"

definition carve :: "u32 \<Rightarrow> nat \<Rightarrow> nat \<Rightarrow> heap \<Rightarrow> nat \<times> heap" where
  "carve nunits prevp p h =
     (if size_at h p = nunits then (p + HSIZE, (set_ptr prevp (ptr_at h p) h)\<lparr>hp_freep := prevp\<rparr>)
      else
        let h = set_size p (size_at h p - nunits) h; p = end_at h p in
        (p + HSIZE, (set_size p nunits h)\<lparr>hp_freep := prevp\<rparr>))"

partial_function (option) malloc_loop ::
    "(nat \<Rightarrow> int \<Rightarrow> bool) \<Rightarrow> u32 \<Rightarrow> nat \<Rightarrow> nat \<Rightarrow> heap \<Rightarrow> (nat \<times> heap) option" where
  "malloc_loop os nunits prevp p h =
     (if size_at h p \<ge> nunits then Some (carve nunits prevp p h)
      else if p = hp_freep h then
        (case morecore os nunits h of
           None \<Rightarrow> None
         | Some (p, h) \<Rightarrow> if p = 0 then Some (0, h) else malloc_loop os nunits p (ptr_at h p) h)
      else malloc_loop os nunits p (ptr_at h p) h)"

definition units_for :: "u32 \<Rightarrow> u32" where
  "units_for nbytes = (nbytes + of_nat HSIZE - 1) div of_nat HSIZE + 1"

definition malloc :: "(nat \<Rightarrow> int \<Rightarrow> bool) \<Rightarrow> nat \<Rightarrow> u32 \<Rightarrow> heap \<Rightarrow> (nat \<times> heap) option" where
  "malloc os base nbytes h =
     (let h = (if hp_freep h = 0 then (set_size base 0 (set_ptr base base h))\<lparr>hp_freep := base\<rparr> else h) in
      malloc_loop os (units_for nbytes) (hp_freep h) (ptr_at h (hp_freep h)) h)"

section \<open>The free list\<close>

lemma set_sel [simp]:
  "ptr_at (set_ptr a p h) b = (if b = a then p else ptr_at h b)" "size_at (set_ptr a p h) b = size_at h b"
  "ptr_at (set_size a n h) b = ptr_at h b" "size_at (set_size a n h) b = (if b = a then n else size_at h b)"
  "hp_freep (set_ptr a p h) = hp_freep h" "hp_freep (set_size a n h) = hp_freep h"
  "hp_brk (set_ptr a p h) = hp_brk h" "hp_brk (set_size a n h) = hp_brk h"
  by (simp_all add: ptr_at_def size_at_def set_ptr_def set_size_def)

lemma header_upd_sel [simp]:
  "ptr_at (h\<lparr>hp_freep := p\<rparr>) b = ptr_at h b" "size_at (h\<lparr>hp_freep := p\<rparr>) b = size_at h b"
  "ptr_at (h\<lparr>hp_brk := k\<rparr>) b = ptr_at h b" "size_at (h\<lparr>hp_brk := k\<rparr>) b = size_at h b"
  by (simp_all add: ptr_at_def size_at_def)

text \<open>Following the pointers from \<open>a\<close> one passes \<open>bs\<close> and arrives at \<open>z\<close>.\<close>

fun linked :: "heap \<Rightarrow> nat \<Rightarrow> nat list \<Rightarrow> nat \<Rightarrow> bool" where
  "linked h a [] z \<longleftrightarrow> ptr_at h a = z"
| "linked h a (b # bs) z \<longleftrightarrow> ptr_at h a = b \<and> linked h b bs z"

lemma chain_append: "linked h a (bs @ c # cs) z \<longleftrightarrow> linked h a bs c \<and> linked h c cs z"
  by (induction bs arbitrary: a) auto

lemma linked_cong: "(\<And>b. b \<in> set (a # bs) \<Longrightarrow> ptr_at h' b = ptr_at h b) \<Longrightarrow> linked h' a bs z \<longleftrightarrow> linked h a bs z"
  by (induction bs arbitrary: a) auto

lemma linked_last: "linked h a bs z \<Longrightarrow> ptr_at h (last (a # bs)) = z"
  by (induction bs arbitrary: a) auto

text \<open>The bytes of a block, and of a list of blocks.\<close>

definition blk :: "heap \<Rightarrow> nat \<Rightarrow> nat set" where "blk h a = {a..<end_at h a}"
definition cover :: "heap \<Rightarrow> nat list \<Rightarrow> nat set" where "cover h as = (\<Union>a\<in>set as. blk h a)"

text \<open>The free blocks in ascending order, linked in a circle through the static header.\<close>

definition flist :: "nat \<Rightarrow> heap \<Rightarrow> nat list \<Rightarrow> bool" where
  "flist base h as \<longleftrightarrow> linked h base as base \<and> size_at h base = 0 \<and> sorted_wrt (\<lambda>a b. end_at h a \<le> b) as
     \<and> (\<forall>a \<in> set as. base + HSIZE \<le> a \<and> size_at h a \<noteq> 0 \<and> end_at h a \<le> hp_brk h)"

text \<open>No two free blocks touch.\<close>

fun gaps :: "heap \<Rightarrow> nat list \<Rightarrow> bool" where
  "gaps h (a # b # bs) \<longleftrightarrow> end_at h a \<noteq> b \<and> gaps h (b # bs)"
| "gaps h bs \<longleftrightarrow> True"

text \<open>The blocks \<open>U\<close> of the program are disjoint from each other and from the free bytes \<open>F\<close>.\<close>

definition used_ok :: "nat \<Rightarrow> nat set \<Rightarrow> nat set \<Rightarrow> heap \<Rightarrow> bool" where
  "used_ok base U F h \<longleftrightarrow>
     (\<forall>u \<in> U. base + HSIZE \<le> u \<and> size_at h u \<noteq> 0 \<and> end_at h u \<le> hp_brk h \<and> blk h u \<inter> F = {})
     \<and> (\<forall>u \<in> U. \<forall>v \<in> U. u \<noteq> v \<longrightarrow> blk h u \<inter> blk h v = {})"

definition heap_inv :: "nat \<Rightarrow> nat set \<Rightarrow> nat list \<Rightarrow> heap \<Rightarrow> bool" where
  "heap_inv base U as h \<longleftrightarrow> 0 < base \<and> base + HSIZE \<le> hp_brk h \<and> hp_brk h \<le> KERNBASE \<and> hp_freep h \<in> set (base # as)
     \<and> flist base h as \<and> gaps h as \<and> used_ok base U (cover h as) h"

lemma end_sel [simp]:
  "end_at (set_ptr a p h) b = end_at h b" "end_at (h\<lparr>hp_freep := p\<rparr>) b = end_at h b" "end_at (h\<lparr>hp_brk := k\<rparr>) b = end_at h b"
  by (simp_all add: end_at_def)

lemma linked_freep [simp]: "linked (h\<lparr>hp_freep := p\<rparr>) a bs z \<longleftrightarrow> linked h a bs z"
  by (rule linked_cong) simp

lemma freep_irrelevant [simp]:
  "flist base (h\<lparr>hp_freep := p\<rparr>) as \<longleftrightarrow> flist base h as" "gaps (h\<lparr>hp_freep := p\<rparr>) as \<longleftrightarrow> gaps h as"
  "cover (h\<lparr>hp_freep := p\<rparr>) as = cover h as"
proof -
  show "gaps (h\<lparr>hp_freep := p\<rparr>) as \<longleftrightarrow> gaps h as" by (induction as rule: gaps.induct) auto
qed (simp_all add: flist_def cover_def blk_def)

lemma end_at_less: "size_at h a \<noteq> 0 \<Longrightarrow> a < end_at h a"
  by (simp add: end_at_def HSIZE_def unat_gt_0)

lemma flistD:
  assumes "flist base h as"
  shows "linked h base as base" and "size_at h base = 0" and "end_at h base = base"
    and "sorted_wrt (\<lambda>a b. end_at h a \<le> b) as"
    and "a \<in> set as \<Longrightarrow> base + HSIZE \<le> a" and "a \<in> set as \<Longrightarrow> size_at h a \<noteq> 0" and "a \<in> set as \<Longrightarrow> end_at h a \<le> hp_brk h"
    and "a \<in> set as \<Longrightarrow> base < a" and "a \<in> set as \<Longrightarrow> a < end_at h a"
  using assms end_at_less by (auto simp: flist_def HSIZE_def end_at_def)

lemma flist_ascending: "flist base h as \<Longrightarrow> sorted_wrt (<) as"
proof -
  assume f: "flist base h as"
  show ?thesis
    by (rule sorted_wrt_mono_rel [OF _ flistD(4) [OF f]]) (use flistD(9) [OF f] in fastforce)
qed

lemma flist_distinct: "flist base h as \<Longrightarrow> distinct (base # as)"
  using strict_sorted_iff flist_ascending flistD(8) by fastforce

text \<open>A block that is disjoint from the free ones lies between two of them.\<close>

lemma disjoint_blocks:
  assumes "blk h a \<inter> blk h b = {}" and "size_at h a \<noteq> 0" and "size_at h b \<noteq> 0"
  shows "a < b \<longleftrightarrow> end_at h a \<le> b" and "a \<noteq> b"
proof -
  have l: "a < end_at h a" "b < end_at h b" using assms(2,3) by (auto intro: end_at_less)
  have n: "\<not> (x \<in> blk h a \<and> x \<in> blk h b)" for x using assms(1) by auto
  show "a < b \<longleftrightarrow> end_at h a \<le> b" using n [of b] l by (auto simp: blk_def)
  show "a \<noteq> b" using n [of a] l by (auto simp: blk_def)
qed

lemma flist_split:
  assumes f: "flist base h as" and d: "blk h bp \<inter> cover h as = {}" and s: "size_at h bp \<noteq> 0"
  obtains xs ys where "as = xs @ ys" and "\<forall>x \<in> set xs. end_at h x \<le> bp" and "\<forall>y \<in> set ys. end_at h bp \<le> y"
proof -
  have dj: "blk h a \<inter> blk h bp = {}" "blk h bp \<inter> blk h a = {}" if "a \<in> set as" for a
    using d that by (auto simp: cover_def)
  let ?xs = "takeWhile (\<lambda>a. a < bp) as" and ?ys = "dropWhile (\<lambda>a. a < bp) as"
  show thesis
  proof (rule that [of ?xs ?ys])
    show "as = ?xs @ ?ys" by simp
    show "\<forall>x \<in> set ?xs. end_at h x \<le> bp"
      using disjoint_blocks(1) [OF dj(1) flistD(6) [OF f] s] by (auto dest: set_takeWhileD)
    show "\<forall>y \<in> set ?ys. end_at h bp \<le> y"
    proof
    fix y assume y: "y \<in> set ?ys"
    then have as: "y \<in> set as" by (rule set_dropWhileD)
    have "sorted_wrt (<) (?xs @ ?ys)" using flist_ascending [OF f] by simp
    then have "sorted_wrt (<) ?ys" unfolding sorted_wrt_append by blast
    moreover have "\<not> hd ?ys < bp" by (rule hd_dropWhile) (use y in \<open>metis empty_iff empty_set\<close>)
    ultimately have "\<not> y < bp" using y by (cases ?ys) auto
    then show "end_at h bp \<le> y"
      using disjoint_blocks [OF dj(2) [OF as] s flistD(6) [OF f as]] by simp
    qed
  qed
qed

section \<open>free\<close>

text \<open>The scan walks round the circle to the place of the block.\<close>

lemma free_scan_below:
  "linked h q ws z \<Longrightarrow> sorted_wrt (<) (q # ws) \<Longrightarrow> \<forall>w \<in> set (q # ws). w < bp \<Longrightarrow> free_scan h bp q = free_scan h bp (last (q # ws))"
proof (induction ws arbitrary: q)
  case (Cons w ws)
  then have "free_scan h bp q = free_scan h bp w" by (subst free_scan.simps) simp
  also have "\<dots> = free_scan h bp (last (w # ws))" using Cons.IH [of w] Cons.prems by simp
  finally show ?case by simp
qed simp

lemma free_scan_above:
  "linked h q ws base \<Longrightarrow> sorted_wrt (<) (q # ws) \<Longrightarrow> \<forall>w \<in> set (q # ws). bp < w \<Longrightarrow> base < bp \<Longrightarrow>
   free_scan h bp q = free_scan h bp base"
proof (induction ws arbitrary: q)
  case Nil
  then show ?case by (subst free_scan.simps) simp
next
  case (Cons w ws)
  then have "free_scan h bp q = free_scan h bp w" by (subst free_scan.simps) simp
  then show ?case using Cons.IH [of w] Cons.prems by simp
qed

lemma free_scan_ok:
  assumes f: "flist base h (xs @ ys)" and bp: "base < bp" "\<And>x. x \<in> set xs \<Longrightarrow> x < bp" "\<And>y. y \<in> set ys \<Longrightarrow> bp < y"
    and q: "q \<in> set (base # xs @ ys)"
  shows "free_scan h bp q = Some (last (base # xs))"
proof -
  let ?p = "last (base # xs)"
  note L = flistD(1) [OF f] and asc = flist_ascending [OF f] and lo = flistD(8) [OF f]
  have nxt: "ptr_at h ?p = hd (ys @ [base])"
    using L by (cases ys) (auto simp: chain_append dest: linked_last)
  have p: "?p < bp" using bp by auto
  have "base \<le> ?p" using lo by (cases xs rule: rev_cases) (auto simp: less_imp_le)
  then have stop: "free_scan h bp ?p = Some ?p"
    using p nxt bp(1,3) lo by (subst free_scan.simps) (cases ys, auto)
  have below: "free_scan h bp w = Some ?p" if w: "base # xs = us @ w # vs" for us w vs
  proof -
    have "linked h w (vs @ ys) base"
      using L w by (cases us) (auto simp: chain_append)
    then have "linked h w vs (hd (ys @ [base]))" by (cases ys) (auto simp: chain_append)
    moreover have "sorted_wrt (<) (base # xs)" using asc lo by (simp add: sorted_wrt_append)
    then have "sorted_wrt (<) (w # vs)" unfolding w by (simp add: sorted_wrt_append)
    moreover have "\<forall>v \<in> set (w # vs). v < bp" using w bp by (metis UnCI set_ConsD set_append)
    ultimately have "free_scan h bp w = free_scan h bp (last (w # vs))" by (rule free_scan_below)
    moreover have "last (w # vs) = ?p" unfolding w by simp
    ultimately show ?thesis using stop by simp
  qed
  consider "q \<in> set (base # xs)" | "q \<in> set ys" using q by auto
  then show ?thesis
  proof cases
    case 1
    then obtain us vs where "base # xs = us @ q # vs" by (meson split_list)
    then show ?thesis by (rule below)
  next
    case 2
    then obtain us vs where ys: "ys = us @ q # vs" by (meson split_list)
    have "linked h q vs base" using L by (simp add: ys chain_append flip: append_assoc) 
    moreover have "sorted_wrt (<) (q # vs)" using asc by (simp add: ys sorted_wrt_append)
    ultimately have "free_scan h bp q = free_scan h bp base"
      using bp by (intro free_scan_above) (auto simp: ys)
    then show ?thesis using below [of "[]" base xs] by simp
  qed
qed

text \<open>Joining a block with the next one where they touch.\<close>

definition merge :: "nat \<Rightarrow> heap \<Rightarrow> heap" where
  "merge a h =
     (if end_at h a = ptr_at h a
      then set_ptr a (ptr_at h (ptr_at h a)) (set_size a (size_at h a + size_at h (ptr_at h a)) h) else h)"

lemma end_set_size: "end_at (set_size a n h) b = (if b = a then a + HSIZE * unat n else end_at h b)"
  by (simp add: end_at_def)

lemma gaps_append: "gaps h (xs @ a # ys) \<longleftrightarrow> gaps h (xs @ [a]) \<and> gaps h (a # ys)"
proof (induction xs)
  case (Cons x xs)
  then show ?case by (cases xs) auto
qed simp

lemma gaps_cong: "(\<And>a. a \<in> set xs \<Longrightarrow> end_at h' a = end_at h a) \<Longrightarrow> gaps h' xs \<longleftrightarrow> gaps h xs"
  by (induction xs rule: gaps.induct) auto

lemma gaps_last: "(\<And>a. a \<in> set xs \<Longrightarrow> end_at h' a = end_at h a) \<Longrightarrow> gaps h' (xs @ [a]) \<longleftrightarrow> gaps h (xs @ [a])"
proof (induction xs)
  case (Cons x xs)
  then show ?case by (cases xs) auto
qed simp

lemma gaps_tl: "gaps h (a # as) \<Longrightarrow> gaps h as"
  by (cases as) auto

lemma gaps_suffix: "gaps h (xs @ ys) \<Longrightarrow> gaps h ys"
  by (induction xs) (auto dest: gaps_tl)

lemma ends_cong: "(\<And>a. a \<in> set xs \<Longrightarrow> end_at h' a = end_at h a) \<Longrightarrow>
    sorted_wrt (\<lambda>x y. end_at h' x \<le> y) xs \<longleftrightarrow> sorted_wrt (\<lambda>x y. end_at h x \<le> y) xs"
  by (induction xs) auto

lemma sum_size:
  assumes "end_at h a = b" and "end_at h b \<le> hp_brk h" and "hp_brk h \<le> KERNBASE"
  shows "a + HSIZE * unat (size_at h a + size_at h b) = end_at h b"
proof -
  have "unat (size_at h a) + unat (size_at h b) < 2 ^ 32"
    using assms by (simp add: end_at_def HSIZE_def KERNBASE_def)
  then have "unat (size_at h a + size_at h b) = unat (size_at h a) + unat (size_at h b)"
    by (simp add: unat_word_ariths)
  then show ?thesis using assms(1) by (simp add: end_at_def algebra_simps)
qed

lemma blk_join: "end_at h a = b \<Longrightarrow> a \<le> b \<Longrightarrow> b \<le> end_at h b \<Longrightarrow> blk h a \<union> blk h b = {a..<end_at h b}"
  by (auto simp: blk_def)

text \<open>Every block of one list is part of a block of the other.\<close>

definition within :: "heap \<Rightarrow> nat list \<Rightarrow> heap \<Rightarrow> nat list \<Rightarrow> bool" where
  "within h as h' as' \<longleftrightarrow> (\<forall>b \<in> set as. \<exists>c \<in> set as'. c \<le> b \<and> end_at h b \<le> end_at h' c)"

lemma within_trans: "within h as h1 bs \<Longrightarrow> within h1 bs h2 cs \<Longrightarrow> within h as h2 cs"
  unfolding within_def by (meson order_trans)

lemma within_freep [simp]: "within h as (h'\<lparr>hp_freep := p\<rparr>) bs \<longleftrightarrow> within h as h' bs"
  by (simp add: within_def)

lemma merge_ok:
  assumes f: "flist base h (xs @ a # ys)" and k: "hp_brk h \<le> KERNBASE" and g: "gaps h ys"
  shows "\<exists>ys'. flist base (merge a h) (xs @ a # ys') \<and> gaps (merge a h) (a # ys')
    \<and> cover (merge a h) (xs @ a # ys') = cover h (xs @ a # ys) \<and> set ys' \<subseteq> set ys
    \<and> (\<forall>u. u \<noteq> a \<longrightarrow> size_at (merge a h) u = size_at h u) \<and> hp_brk (merge a h) = hp_brk h
    \<and> within h (xs @ a # ys) (merge a h) (xs @ a # ys')"
proof (cases "ys \<noteq> [] \<and> end_at h a = hd ys")
  case False
  have "ptr_at h a = hd (ys @ [base])" using flistD(1) [OF f] by (cases ys) (auto simp: chain_append)
  moreover have "end_at h a \<noteq> base" using flistD(8,9) [OF f, of a] by auto
  ultimately have "merge a h = h" using False by (cases ys) (auto simp: merge_def)
  moreover have "within h as h as" for as by (auto simp: within_def)
  moreover have "gaps h (a # ys)" using g False by (cases ys) auto
  ultimately show ?thesis using f by (intro exI [of _ ys]) simp
next
  case True
  then obtain b zs where ys: "ys = b # zs" and b: "end_at h a = b" by (cases ys) auto
  note F = flistD [OF f, unfolded ys]
  let ?h = "merge a h"
  have "ptr_at h a = b" using F(1) by (simp add: chain_append)
  then have h': "?h = set_ptr a (ptr_at h b) (set_size a (size_at h a + size_at h b) h)" using b by (simp add: merge_def)
  have d: "distinct (base # xs @ a # b # zs)" using flist_distinct [OF f] by (simp only: ys)
  have ea: "end_at ?h a = end_at h b"
    using sum_size [OF b F(7) k] by (simp add: h' end_set_size)
  have e: "end_at ?h u = end_at h u" if "u \<noteq> a" for u using that by (simp add: h' end_set_size)
  have ex: "end_at ?h x = end_at h x" if "x \<in> set xs \<or> x \<in> set zs" for x
  proof (rule e)
    show "x \<noteq> a" using d that by auto
  qed
  have s: "size_at ?h u = size_at h u" if "u \<noteq> a" for u using that by (simp add: h')
  have lt: "a < b" "b < end_at h b" using F(9) [of a] F(9) [of b] b by auto
  then have sa: "size_at ?h a \<noteq> 0" using ea by (auto simp: end_at_def)
  have "linked ?h base (xs @ a # zs) base"
  proof -
    have p: "ptr_at ?h u = ptr_at h u" if "u \<noteq> a" for u using that by (simp add: h')
    have "linked ?h base xs a"
      using F(1) d linked_cong [of base xs ?h h] p by (simp add: chain_append) metis
    moreover have "linked ?h b zs base"
      using F(1) d linked_cong [of b zs ?h h] p by (simp add: chain_append) metis
    then have "linked ?h a zs base" using d by (cases zs) (auto simp: h')
    ultimately show ?thesis by (simp add: chain_append)
  qed
  moreover have "sorted_wrt (\<lambda>x y. end_at ?h x \<le> y) (xs @ a # zs)"
  proof -
    have "sorted_wrt (\<lambda>x y. end_at ?h x \<le> y) xs \<longleftrightarrow> sorted_wrt (\<lambda>x y. end_at h x \<le> y) xs"
      "sorted_wrt (\<lambda>x y. end_at ?h x \<le> y) zs \<longleftrightarrow> sorted_wrt (\<lambda>x y. end_at h x \<le> y) zs"
      using ex by (auto intro!: ends_cong)
    then show ?thesis using F(4) ex ea by (auto simp: sorted_wrt_append)
  qed
  moreover have "\<forall>u \<in> set (xs @ a # zs). base + HSIZE \<le> u \<and> size_at ?h u \<noteq> 0 \<and> end_at ?h u \<le> hp_brk ?h"
    using F(5-7) s sa e ea by (auto simp: h')
  moreover have "size_at ?h base = 0" using F(2) d by (simp add: h')
  ultimately have "flist base ?h (xs @ a # zs)" by (simp add: flist_def)
  moreover have "gaps ?h (a # zs)"
    using g d ea gaps_cong [of zs ?h h, OF ex] by (cases zs) (auto simp: ys)
  moreover have "cover ?h (xs @ a # zs) = cover h (xs @ a # ys)"
  proof -
    have "cover ?h xs = cover h xs" "cover ?h zs = cover h zs" using ex by (auto simp: cover_def blk_def)
    moreover have "blk ?h a = blk h a \<union> blk h b" using blk_join [OF b] lt ea by (simp add: blk_def)
    ultimately show ?thesis by (auto simp: cover_def ys)
  qed
  moreover have "within h (xs @ a # ys) ?h (xs @ a # zs)"
    using e ea lt b d by (fastforce simp: within_def ys)
  ultimately show ?thesis using s by (intro exI [of _ zs]) (auto simp: h' ys)
qed

text \<open>Linking the block in, then joining it with its neighbours, is what \<open>free\<close> does.\<close>

definition link_in :: "nat \<Rightarrow> nat \<Rightarrow> heap \<Rightarrow> heap" where
  "link_in p bp h = set_ptr p bp (set_ptr bp (ptr_at h p) h)"

lemma join_eq:
  assumes "p < bp" and "end_at h bp = ptr_at h p \<Longrightarrow> ptr_at h p \<noteq> p \<and> ptr_at h p \<noteq> bp"
  shows "join_prev p bp (join_next p bp h) = merge p (merge bp (link_in p bp h))"
proof -
  have l: "ptr_at (link_in p bp h) p = bp" "ptr_at (link_in p bp h) bp = ptr_at h p" "end_at (link_in p bp h) a = end_at h a" for a
    using assms(1) by (simp_all add: link_in_def)
  let ?q = "ptr_at h p"
  have "merge bp (link_in p bp h) = set_ptr p bp (join_next p bp h)"
    using assms by (simp add: merge_def join_next_def l) (simp add: link_in_def set_ptr_def set_size_def size_at_def ptr_at_def fun_eq_iff)
  moreover have "end_at (join_next p bp h) p = end_at h p" using assms(1) by (simp add: join_next_def end_set_size)
  ultimately show ?thesis
    using assms(1) by (simp add: merge_def join_prev_def) (simp add: set_ptr_def set_size_def size_at_def ptr_at_def fun_eq_iff)
qed

lemma link_in_ok:
  assumes f: "flist base h (xs @ ys)" and p: "p = last (base # xs)"
    and bp: "base + HSIZE \<le> bp" "size_at h bp \<noteq> 0" "end_at h bp \<le> hp_brk h"
    and x: "\<forall>x \<in> set xs. end_at h x \<le> bp" and y: "\<forall>y \<in> set ys. end_at h bp \<le> y"
  shows "flist base (link_in p bp h) (xs @ bp # ys)" and "ptr_at h p = hd (ys @ [base])" and "p < bp"
proof -
  let ?h = "link_in p bp h"
  note F = flistD [OF f]
  have lt: "bp < end_at h bp" by (rule end_at_less [OF bp(2)])
  have n: "base < bp" "bp \<notin> set xs" "bp \<notin> set ys" "base \<notin> set (xs @ ys)"
    using bp(1) x y lt F(8,9) by (fastforce simp: HSIZE_def)+
  show nxt: "ptr_at h p = hd (ys @ [base])"
    using F(1) p by (cases ys) (auto simp: chain_append dest: linked_last)
  show pb: "p < bp" using p n(1) x F(9) by (cases xs rule: rev_cases) fastforce+
  have d: "distinct (base # xs @ ys)" by (rule flist_distinct [OF f])
  have tail: "linked ?h bp ys base"
  proof (cases ys)
    case (Cons b zs)
    have "linked h b zs base" using F(1) by (simp add: Cons chain_append)
    moreover have "p \<notin> set (b # zs)" using d p by (cases xs rule: rev_cases) (auto simp: Cons)
    then have "linked ?h b zs base \<longleftrightarrow> linked h b zs base"
      using n(3) by (intro linked_cong) (auto simp: link_in_def Cons)
    ultimately show ?thesis using nxt pb by (simp add: Cons link_in_def)
  qed (use nxt pb in \<open>simp add: link_in_def\<close>)
  have "linked ?h base xs bp"
  proof (cases xs rule: rev_cases)
    case (snoc us w)
    have "linked h base us w" using F(1) by (simp add: snoc chain_append)
    moreover have "w \<notin> set (base # us)" "bp \<notin> set (base # us)" using d n by (auto simp: snoc)
    then have "linked ?h base us w \<longleftrightarrow> linked h base us w"
      using p by (intro linked_cong) (auto simp: link_in_def snoc)
    ultimately show ?thesis using p by (simp add: snoc chain_append link_in_def)
  qed (use p in \<open>simp add: link_in_def\<close>)
  then show "flist base ?h (xs @ bp # ys)"
    using tail F(2,4-7) bp x y unfolding flist_def
    by (auto simp: chain_append sorted_wrt_append link_in_def intro: order_trans less_imp_le [OF lt])
qed

lemma free_links:
  assumes f: "flist base h as" and g: "gaps h as" and k: "hp_brk h \<le> KERNBASE" and q: "hp_freep h \<in> set (base # as)"
    and bp: "base + HSIZE \<le> bp" "size_at h bp \<noteq> 0" "end_at h bp \<le> hp_brk h" "blk h bp \<inter> cover h as = {}"
  shows "\<exists>h' as'. free (bp + HSIZE) h = Some h' \<and> flist base h' as' \<and> gaps h' as' \<and> hp_freep h' \<in> set (base # as')
    \<and> hp_brk h' = hp_brk h \<and> cover h' as' = cover h as \<union> blk h bp
    \<and> (\<forall>u. u \<noteq> bp \<and> u \<notin> set as \<longrightarrow> size_at h' u = size_at h u)
    \<and> within h (bp # as) h' as'"
proof -
  obtain xs ys where as: "as = xs @ ys" and x: "\<forall>x \<in> set xs. end_at h x \<le> bp"
    and y: "\<forall>y \<in> set ys. end_at h bp \<le> y" by (rule flist_split [OF f bp(4,2)])
  define p where "p = last (base # xs)"
  note F = flistD [OF f [unfolded as]]
  note K = link_in_ok [OF f [unfolded as] p_def bp(1-3) x y]
  let ?h1 = "link_in p bp h"
  have lt: "bp < end_at h bp" by (rule end_at_less [OF bp(2)])
  have s1: "size_at ?h1 u = size_at h u" "end_at ?h1 u = end_at h u" "hp_brk ?h1 = hp_brk h" for u
    by (simp_all add: link_in_def)
  have "gaps h ys" using g gaps_suffix by (simp add: as)
  then have gy: "gaps ?h1 ys" using gaps_cong [of ys ?h1 h] s1(2) by blast
  from merge_ok [OF K(1) _ gy] k s1(3) obtain zs where
    M: "flist base (merge bp ?h1) (xs @ bp # zs)" "gaps (merge bp ?h1) (bp # zs)"
      "cover (merge bp ?h1) (xs @ bp # zs) = cover ?h1 (xs @ bp # ys)"
      "\<forall>u. u \<noteq> bp \<longrightarrow> size_at (merge bp ?h1) u = size_at ?h1 u" "hp_brk (merge bp ?h1) = hp_brk ?h1"
      "within ?h1 (xs @ bp # ys) (merge bp ?h1) (xs @ bp # zs)" "set zs \<subseteq> set ys" by auto
  let ?h2 = "merge bp ?h1" and ?h3 = "merge p (merge bp (link_in p bp h))"
  have scan: "free_scan h bp (hp_freep h) = Some p"
    unfolding p_def
    by (rule free_scan_ok [OF f [unfolded as]]) (use q bp(1) x y lt F(9) in \<open>fastforce simp: as HSIZE_def\<close>)+
  have free: "free (bp + HSIZE) h = Some (?h3\<lparr>hp_freep := p\<rparr>)"
  proof -
    have "ptr_at h p \<noteq> p \<and> ptr_at h p \<noteq> bp" if "end_at h bp = ptr_at h p" using that lt K(3) by auto
    then show ?thesis using scan join_eq [OF K(3)] by (simp add: free_def)
  qed
  have c: "cover ?h1 (xs @ bp # ys) = cover h as \<union> blk h bp" by (auto simp: cover_def blk_def s1 as)
  show ?thesis
  proof (cases "xs = []")
    case True
    then have "p = base" by (simp add: p_def)
    moreover have "end_at ?h2 base = base" "ptr_at ?h2 base \<noteq> base"
      using flistD(3) [OF M(1)] flistD(1,8) [OF M(1)] True by auto
    ultimately have "?h3 = ?h2" by (simp add: merge_def)
    moreover have "within h (bp # as) ?h2 (xs @ bp # zs)" using M(6) s1 by (auto simp: within_def as)
    ultimately show ?thesis
      using M s1 c free True \<open>p = base\<close> by (intro exI [of _ "?h3\<lparr>hp_freep := p\<rparr>"] exI [of _ "bp # zs"]) simp
  next
    case False
    then obtain us where xs: "xs = us @ [p]" by (simp add: p_def) (metis append_butlast_last_id)
    have d: "distinct (base # us @ p # bp # zs)" using flist_distinct [OF M(1)] by (simp add: xs)
    have "flist base ?h2 (us @ p # bp # zs)" using M(1) by (simp add: xs)
    from merge_ok [OF this _ M(2)] M(5) s1(3) k obtain vs where
      N: "flist base ?h3 (us @ p # vs)" "gaps ?h3 (p # vs)" "cover ?h3 (us @ p # vs) = cover ?h2 (us @ p # bp # zs)"
        "\<forall>u. u \<noteq> p \<longrightarrow> size_at ?h3 u = size_at ?h2 u" "hp_brk ?h3 = hp_brk ?h2"
        "within ?h2 (us @ p # bp # zs) ?h3 (us @ p # vs)" by auto
    have "end_at ?h3 u = end_at h u" if "u \<in> set us" for u
    proof -
      have "u \<noteq> p" "u \<noteq> bp" using d that by auto
      then show ?thesis using N(4) M(4) s1(1) by (simp add: end_at_def)
    qed
    then have "gaps ?h3 (us @ [p]) \<longleftrightarrow> gaps h (us @ [p])" by (rule gaps_last)
    moreover have "gaps h (us @ [p])" using g gaps_append [of h us p ys] by (simp add: as xs)
    ultimately have "gaps ?h3 (us @ p # vs)" using N(2) gaps_append by blast
    moreover have "within ?h1 (xs @ bp # ys) ?h3 (us @ p # vs)"
      using within_trans [OF M(6)] N(6) by (simp add: xs)
    then have "within h (bp # as) ?h3 (us @ p # vs)" using s1 by (auto simp: within_def as)
    moreover have "size_at ?h3 u = size_at h u" if "u \<noteq> bp" "u \<notin> set as" for u
      using N(4) M(4) that s1(1) by (auto simp: as xs)
    ultimately show ?thesis
      using N M(3,5) s1 c free by (intro exI [of _ "?h3\<lparr>hp_freep := p\<rparr>"] exI [of _ "us @ p # vs"]) (simp add: xs)
  qed
qed

lemma heap_invD:
  assumes "heap_inv base U as h"
  shows "0 < base" and "base + HSIZE \<le> hp_brk h" and "hp_brk h \<le> KERNBASE" and "hp_freep h \<in> set (base # as)"
    and "flist base h as" and "gaps h as" and "used_ok base U (cover h as) h"
    and "u \<in> U \<Longrightarrow> base + HSIZE \<le> u" and "u \<in> U \<Longrightarrow> size_at h u \<noteq> 0" and "u \<in> U \<Longrightarrow> end_at h u \<le> hp_brk h"
    and "u \<in> U \<Longrightarrow> blk h u \<inter> cover h as = {}" and "u \<in> U \<Longrightarrow> v \<in> U \<Longrightarrow> u \<noteq> v \<Longrightarrow> blk h u \<inter> blk h v = {}"
    and "u \<in> U \<Longrightarrow> u \<notin> set as"
proof -
  show "u \<notin> set as" if "u \<in> U"
  proof
    assume "u \<in> set as"
    moreover have "u \<in> blk h u" using assms that by (auto simp: heap_inv_def used_ok_def blk_def intro: end_at_less)
    ultimately show False using assms that by (auto simp: heap_inv_def used_ok_def cover_def)
  qed
qed (use assms in \<open>auto simp: heap_inv_def used_ok_def\<close>)

lemma blk_cong: "size_at h' u = size_at h u \<Longrightarrow> blk h' u = blk h u \<and> end_at h' u = end_at h u"
  by (simp add: blk_def end_at_def)

text \<open>The blocks of the program after a step that changed neither their sizes nor, more than \<open>F\<close>, the free bytes.\<close>

lemma used_ok_step:
  assumes "used_ok base U F h" and "V \<subseteq> U" and "\<And>u. u \<in> V \<Longrightarrow> size_at h' u = size_at h u" and "hp_brk h \<le> hp_brk h'"
    and "\<And>u. u \<in> V \<Longrightarrow> blk h u \<inter> F' = {}"
  shows "used_ok base V F' h'"
proof -
  have c: "blk h' u = blk h u" "end_at h' u = end_at h u" if "u \<in> V" for u using blk_cong [OF assms(3)] that by auto
  have "blk h u \<inter> blk h v = {}" if "u \<in> V" "v \<in> V" "u \<noteq> v" for u v
    using assms(1,2) that unfolding used_ok_def by (meson subsetD)
  moreover have "base + HSIZE \<le> u \<and> size_at h u \<noteq> 0 \<and> end_at h u \<le> hp_brk h'" if "u \<in> V" for u
    using assms(1,2,4) that unfolding used_ok_def by (meson order_trans subsetD)
  ultimately show ?thesis using assms(3,5) c by (simp add: used_ok_def)
qed

lemma used_ok_insert:
  assumes U: "used_ok base U F h" and same: "\<And>v. v \<in> U \<Longrightarrow> size_at h' v = size_at h v" and "hp_brk h \<le> hp_brk h'" and F': "F' \<subseteq> F"
    and u: "base + HSIZE \<le> u" "size_at h' u \<noteq> 0" "end_at h' u \<le> hp_brk h'" "blk h' u \<inter> F' = {}"
      "\<And>v. v \<in> U \<Longrightarrow> blk h' u \<inter> blk h v = {}"
  shows "used_ok base (insert u U) F' h'"
proof -
  have "used_ok base U F' h'"
    by (rule used_ok_step [OF U subset_refl same assms(3)]) (use U F' in \<open>auto simp: used_ok_def\<close>)
  moreover have "blk h' u \<inter> blk h' v = {}" if "v \<in> U" for v using u(5) [OF that] blk_cong [OF same [OF that]] by simp
  ultimately show ?thesis using u(1-4) unfolding used_ok_def by (simp add: Int_commute)
qed

lemma free_inv:
  assumes inv: "heap_inv base U as h" and bp: "bp \<in> U"
  shows "\<exists>h' as'. free (bp + HSIZE) h = Some h' \<and> heap_inv base (U - {bp}) as' h' \<and> hp_brk h' = hp_brk h
    \<and> (\<forall>u \<in> U - {bp}. size_at h' u = size_at h u) \<and> within h (bp # as) h' as'"
proof -
  note I = heap_invD [OF inv]
  from free_links [OF I(5,6,3,4) I(8-11) [OF bp]] obtain h' as' where
    f: "free (bp + HSIZE) h = Some h'" "flist base h' as'" "gaps h' as'" "hp_freep h' \<in> set (base # as')"
      "hp_brk h' = hp_brk h" "cover h' as' = cover h as \<union> blk h bp"
      "\<forall>u. u \<noteq> bp \<and> u \<notin> set as \<longrightarrow> size_at h' u = size_at h u" "within h (bp # as) h' as'" by blast
  have s: "size_at h' u = size_at h u" if "u \<in> U - {bp}" for u using f(7) I(13) that by auto
  have "used_ok base (U - {bp}) (cover h' as') h'"
  proof (rule used_ok_step [OF I(7) _ s])
    show "blk h u \<inter> cover h' as' = {}" if "u \<in> U - {bp}" for u
      using I(11,12) [of u] bp that unfolding f(6) by (auto simp: Int_Un_distrib)
  qed (use f(5) in auto)
  then show ?thesis using f s I(1-3) by (auto simp: heap_inv_def)
qed

section \<open>malloc\<close>

text \<open>A block new from \<open>sbrk\<close>, as a block of the program.\<close>

lemma grown_inv:
  assumes inv: "heap_inv base U as h" and n: "n \<noteq> 0" "hp_brk h + HSIZE * unat n \<le> KERNBASE"
    and h': "h' = set_size (hp_brk h) n (h\<lparr>hp_brk := hp_brk h + HSIZE * unat n\<rparr>)"
  shows "heap_inv base (insert (hp_brk h) U) as h'" and "hp_brk h \<notin> U" and "end_at h' (hp_brk h) = hp_brk h + HSIZE * unat n"
    and "u \<in> U \<Longrightarrow> size_at h' u = size_at h u" and "within h as h' as" and "size_at h' (hp_brk h) = n"
proof -
  let ?k = "hp_brk h"
  note I = heap_invD [OF inv] and F = flistD [OF heap_invD(5) [OF inv]]
  have sel: "ptr_at h' a = ptr_at h a" "size_at h' a = (if a = ?k then n else size_at h a)" "hp_freep h' = hp_freep h" for a
    by (simp_all add: h')
  have k: "hp_brk h' = ?k + HSIZE * unat n" by (simp add: h')
  show e: "end_at h' ?k = ?k + HSIZE * unat n" by (simp add: end_at_def sel)
  have as: "a \<noteq> ?k" if "a \<in> set (base # as)" for a
    using that F(7,9) [of a] I(2) by (auto simp: HSIZE_def)
  have U: "u \<noteq> ?k" if "u \<in> U" for u using I(9,10) [OF that] end_at_less [of h u] by auto
  then show "?k \<notin> U" by auto
  have ends: "end_at h' a = end_at h a" "size_at h' a = size_at h a" "blk h' a = blk h a" if "a \<in> set (base # as) \<union> U" for a
    using as [of a] U [of a] that blk_cong [of h' a h] sel(2) [of a] by auto
  have "linked h' base as base" using F(1) linked_cong [of base as h' h] sel(1) by simp
  moreover have "sorted_wrt (\<lambda>x y. end_at h' x \<le> y) as" using F(4) ends_cong [of as h' h] ends(1) by simp
  ultimately have fl: "flist base h' as"
    using F(2,5,6,7) ends k by (auto simp: flist_def intro: trans_le_add1)
  moreover have "gaps h' as" using I(6) gaps_cong [of as h' h] ends(1) by simp
  moreover have c: "cover h' as = cover h as" using ends(3) by (simp add: cover_def)
  moreover have "used_ok base (insert ?k U) (cover h as) h'"
  proof -
    have "blk h' ?k \<inter> cover h as = {}" using F(7) by (fastforce simp: blk_def cover_def)
    moreover have "blk h' ?k \<inter> blk h' u = {}" if "u \<in> U" for u using I(10) [OF that] ends(3) [of u] that by (auto simp: blk_def)
    ultimately show ?thesis
      using I(2,8-12) ends n(1) k sel(2) e unfolding used_ok_def by (auto simp: Int_commute intro: trans_le_add1)
  qed
  ultimately show "heap_inv base (insert ?k U) as h'" using I(1-4) k n by (simp add: heap_inv_def sel)
  show "u \<in> U \<Longrightarrow> size_at h' u = size_at h u" using ends(2) by simp
  show "within h as h' as" using ends(1) by (auto simp: within_def)
  show "size_at h' ?k = n" by (simp add: sel)
qed

text \<open>What \<open>sbrk\<close> grants stays below the kernel, as \<open>growproc\<close> sees to.\<close>

definition grants_below :: "(nat \<Rightarrow> int \<Rightarrow> bool) \<Rightarrow> bool" where
  "grants_below os \<longleftrightarrow> (\<forall>k n. os k n \<longrightarrow> 0 \<le> n \<longrightarrow> int k + n \<le> int KERNBASE)"

definition units_asked :: "u32 \<Rightarrow> u32" where
  "units_asked n = (if n < 4096 then 4096 else n)"

lemma morecore_inv:
  assumes inv: "heap_inv base U as h" and os: "grants_below os" and n: "unat n < 268435456"
  shows "morecore os n h = Some (0, h) \<and> \<not> os (hp_brk h) (8 * uint (units_asked n)) \<or>
    (\<exists>h' as'. morecore os n h = Some (hp_freep h', h') \<and> heap_inv base U as' h' \<and> (\<forall>u \<in> U. size_at h' u = size_at h u)
      \<and> (\<exists>a \<in> set as'. n \<le> size_at h' a))"
proof -
  let ?nu = "units_asked n"
  have nu: "n \<le> ?nu" "?nu \<noteq> 0" "unat ?nu < 268435456"
    using n by (auto simp: units_asked_def word_less_nat_alt word_le_nat_alt unat_eq_0 not_less)
  have u: "uint ?nu < 268435456" "0 \<le> uint ?nu" using nu(3) unfolding uint_nat by linarith+
  have e: "?nu * of_nat HSIZE = word_of_int (8 * uint ?nu)" by (simp add: HSIZE_def mult.commute)
  have s: "sint (?nu * of_nat HSIZE) = 8 * uint ?nu"
    unfolding e by (rule sint_word_of_int_fits) (use u in linarith)+
  show ?thesis
  proof (cases "os (hp_brk h) (8 * uint ?nu)")
    case False
    then show ?thesis by (simp add: morecore_def sbrk_def s flip: units_asked_def)
  next
    case True
    let ?k = "hp_brk h" and ?h1 = "set_size (hp_brk h) ?nu (h\<lparr>hp_brk := hp_brk h + HSIZE * unat ?nu\<rparr>)"
    have "nat (int ?k + 8 * uint ?nu) = ?k + HSIZE * unat ?nu" by (simp add: HSIZE_def nat_add_distrib nat_mult_distrib)
    moreover have "int ?k + 8 * uint ?nu \<le> int KERNBASE"
      using os True u(2) unfolding grants_below_def by simp
    then have "int (?k + HSIZE * unat ?nu) \<le> int KERNBASE" by (simp add: HSIZE_def)
    then have "?k + HSIZE * unat ?nu \<le> KERNBASE" by (simp only: of_nat_le_iff)
    note G = grown_inv [OF inv nu(2) this refl]
    from free_inv [OF G(1), of ?k] obtain h' as' where f: "free (?k + HSIZE) ?h1 = Some h'" "heap_inv base (insert ?k U - {?k}) as' h'"
      "\<forall>u \<in> insert ?k U - {?k}. size_at h' u = size_at ?h1 u" "within ?h1 (?k # as) h' as'" by blast
    have U: "insert ?k U - {?k} = U" using G(2) by auto
    obtain a where a: "a \<in> set as'" "a \<le> ?k" "?k + HSIZE * unat ?nu \<le> end_at h' a"
      using f(4) G(3) by (auto simp: within_def)
    then have "unat ?nu \<le> unat (size_at h' a)" by (simp add: end_at_def HSIZE_def)
    then have "n \<le> size_at h' a" using nu(1) by (simp add: word_le_nat_alt)
    moreover have "morecore os n h = Some (hp_freep h', h')"
      using True f(1) calculation by (simp add: morecore_def sbrk_def s flip: units_asked_def)
    moreover have "size_at h' u = size_at h u" if "u \<in> U" for u
      using f(3) [unfolded U] G(4) that by (metis (no_types))
    ultimately show ?thesis using f(2) [unfolded U] a(1) by (intro disjI2) blast
  qed
qed

text \<open>Cutting the block off.\<close>

lemma linked_pred:
  assumes "linked h base as base" and "distinct (base # as)" and "prevp \<in> set (base # as)" and "ptr_at h prevp = p" and "p \<in> set as"
  obtains xs ys where "as = xs @ p # ys" and "prevp = last (base # xs)"
proof -
  obtain us vs where s: "base # as = us @ prevp # vs" using assms(3) by (meson split_list)
  have l: "linked h prevp vs base" using assms(1) s by (cases us) (auto simp: chain_append)
  have "p \<noteq> base" using assms(2,5) by auto
  then obtain ys where vs: "vs = p # ys" using l assms(4) by (cases vs) auto
  show thesis
  proof (cases us)
    case Nil
    then show ?thesis using s vs that [of "[]" ys] by simp
  next
    case (Cons u ws)
    then have "as = (ws @ [prevp]) @ p # ys" using s vs by simp
    then show ?thesis using that [of "ws @ [prevp]" ys] by simp
  qed
qed

lemma linked_skip:
  "linked h a (xs @ p # ys) z \<Longrightarrow> distinct (a # xs @ p # ys) \<Longrightarrow> linked (set_ptr (last (a # xs)) (ptr_at h p) h) a (xs @ ys) z"
proof (induction xs arbitrary: a)
  case Nil
  show ?case
  proof (cases ys)
    case (Cons b bs)
    have "linked (set_ptr a b h) b bs z \<longleftrightarrow> linked h b bs z"
      by (rule linked_cong) (use Nil.prems(2) Cons in auto)
    then show ?thesis using Nil.prems Cons by simp
  qed (use Nil.prems in simp)
next
  case (Cons x xs)
  have "last (x # xs) \<in> set (x # xs)" by (rule last_in_set) simp
  then have "last (x # xs) \<noteq> a" using Cons.prems(2) by auto
  then show ?case using Cons.IH [of x] Cons.prems by simp
qed

lemma gaps_remove:
  "gaps h (xs @ p # ys) \<Longrightarrow> sorted_wrt (\<lambda>a b. end_at h a \<le> b) (xs @ p # ys) \<Longrightarrow> p < end_at h p \<Longrightarrow> gaps h (xs @ ys)"
proof (induction xs)
  case Nil
  then show ?case by (auto dest: gaps_tl)
next
  case (Cons x xs)
  then show ?case by (cases xs; cases ys) auto
qed

lemma gaps_shrink:
  "gaps h as \<Longrightarrow> sorted_wrt (\<lambda>a b. end_at h a \<le> b) as \<Longrightarrow> (\<And>a. a \<in> set as \<Longrightarrow> end_at h' a = end_at h a \<or> end_at h' a < end_at h a) \<Longrightarrow>
   gaps h' as"
  by (induction as rule: gaps.induct) fastforce+

lemma cover_apart:
  assumes "flist base h (xs @ p # ys)"
  shows "blk h p \<inter> cover h (xs @ ys) = {}"
  using flistD(4,9) [OF assms] by (fastforce simp: blk_def cover_def sorted_wrt_append)

lemma unlink_inv:
  assumes inv: "heap_inv base U as h" and as: "as = xs @ p # ys"
    and prevp: "prevp = last (base # xs)" and h': "h' = (set_ptr prevp (ptr_at h p) h)\<lparr>hp_freep := prevp\<rparr>"
  shows "heap_inv base (insert p U) (xs @ ys) h'"
proof -
  note I = heap_invD [OF inv] and F = flistD [OF heap_invD(5) [OF inv]]
  have d: "distinct (base # as)" by (rule flist_distinct [OF I(5)])
  have p: "p \<in> set as" by (simp add: as)
  then have pb: "blk h p \<subseteq> cover h as" by (auto simp: cover_def)
  have sel: "size_at h' v = size_at h v" "end_at h' v = end_at h v" "hp_brk h' = hp_brk h" "hp_freep h' = prevp" for v
    by (simp_all add: h')
  have "linked h' base (xs @ ys) base"
    using linked_skip [OF F(1) [unfolded as] d [unfolded as]] by (simp add: h' prevp)
  then have "flist base h' (xs @ ys)" using F(2,4-7) by (simp add: flist_def as sorted_wrt_append sel)
  moreover have "gaps h' (xs @ ys)"
    using gaps_remove [OF I(6) [unfolded as] F(4) [unfolded as] F(9) [OF p]] gaps_cong [of "xs @ ys" h' h] by (simp add: sel)
  moreover have "used_ok base (insert p U) (cover h' (xs @ ys)) h'"
  proof -
    have c: "cover h' (xs @ ys) = cover h (xs @ ys)" "blk h' v = blk h v" for v by (simp_all add: cover_def blk_def sel)
    have "cover h (xs @ ys) \<subseteq> cover h as" by (auto simp: cover_def as)
    moreover have "blk h p \<inter> blk h v = {}" if "v \<in> U" for v using I(11) [OF that] pb by auto
    ultimately show ?thesis
      using F(5-7) [OF p] cover_apart [OF I(5) [unfolded as]] by (intro used_ok_insert [OF I(7)]) (simp_all add: c sel)
  qed
  moreover have "prevp \<in> set (base # xs @ ys)" unfolding prevp by (cases xs rule: rev_cases) auto
  ultimately show ?thesis using I(1-3) by (simp add: heap_inv_def sel)
qed

lemma split_inv:
  assumes inv: "heap_inv base U as h" and p: "p \<in> set as" and prevp: "prevp \<in> set (base # as)"
    and n: "n \<noteq> 0" "n < size_at h p" and u: "u = p + HSIZE * unat (size_at h p - n)"
    and h': "h' = (set_size u n (set_size p (size_at h p - n) h))\<lparr>hp_freep := prevp\<rparr>"
  shows "heap_inv base (insert u U) as h'" and "u \<notin> U" and "\<forall>v \<in> U. size_at h' v = size_at h v" and "size_at h' u = n"
proof -
  note I = heap_invD [OF inv] and F = flistD [OF heap_invD(5) [OF inv]]
  obtain xs ys where as: "as = xs @ p # ys" using p by (meson split_list)
  have pb: "blk h p \<subseteq> cover h as" using p by (auto simp: cover_def)
  let ?m = "size_at h p - n" and ?h = "(set_size u n (set_size p (size_at h p - n) h))\<lparr>hp_freep := prevp\<rparr>"
  have m: "unat ?m = unat (size_at h p) - unat n" "unat n < unat (size_at h p)"
    using n(2) by (simp_all add: unat_sub word_less_nat_alt order_less_imp_le)
  have n0: "0 < unat n" using n(1) by (simp add: unat_gt_0)
  have up: "p < u" "u < end_at h p" "end_at h p = u + HSIZE * unat n"
    using m n0 by (auto simp: u end_at_def HSIZE_def diff_mult_distrib2)
  have uas: "u \<notin> set (base # as)"
  proof
    assume "u \<in> set (base # as)"
    then have "u \<in> set xs \<or> u \<in> set ys" using up(1) F(8) [OF p] by (auto simp: as)
    then show False using F(4) F(9) [of u] up by (auto simp: as sorted_wrt_append)
  qed
  have sz: "size_at ?h v = (if v = u then n else if v = p then ?m else size_at h v)" for v by simp
  have ep: "end_at ?h p = u" "end_at ?h u = end_at h p" using up by (simp_all add: end_at_def u)
  have other: "end_at ?h v = end_at h v" "blk ?h v = blk h v" if "v \<noteq> u" "v \<noteq> p" for v
    using that by (simp_all add: end_at_def blk_def)
  have uU: "v \<noteq> u \<and> v \<noteq> p" if "v \<in> U" for v
  proof -
    have "v \<in> blk h v" using end_at_less [OF I(9) [OF that]] by (simp add: blk_def)
    moreover have "u \<in> blk h p" using up by (simp add: blk_def)
    ultimately show ?thesis using I(11,13) [OF that] pb p by auto
  qed
  have bu: "blk ?h u \<subseteq> blk h p" "blk ?h p \<subseteq> blk h p" "blk ?h u \<inter> blk ?h p = {}" using up ep by (auto simp: blk_def)
  have "heap_inv base (insert u U) as ?h"
  proof -
    have "linked ?h base as base \<longleftrightarrow> linked h base as base" by (rule linked_cong) simp
    moreover have ea: "end_at ?h a = end_at h a \<or> end_at ?h a < end_at h a" if "a \<in> set as" for a
      using other(1) [of a] ep(1) up that uas by (cases "a = p") auto
    then have le: "end_at ?h a \<le> end_at h a" if "a \<in> set as" for a using that by fastforce
    have le_brk: "end_at ?h a \<le> hp_brk h" if "a \<in> set as" for a using le [OF that] F(7) [OF that] by simp
    have "sorted_wrt (\<lambda>x y. end_at ?h x \<le> y) as"
      using le F(4) by (induction as) (auto intro: order_trans)
    moreover have "?m \<noteq> 0" using m by (auto simp: unat_gt_0 simp flip: unat_eq_0)
    ultimately have fl: "flist base ?h as"
      using F(1,2,5,6) le_brk uas F(8) [OF p] unfolding flist_def sz by auto
    moreover have "gaps ?h as" by (rule gaps_shrink [OF I(6) F(4) ea])
    moreover have "used_ok base (insert u U) (cover ?h as) ?h"
    proof -
      have b: "blk ?h a \<subseteq> blk h a \<and> blk ?h a \<inter> blk ?h u = {}" if "a \<in> set as" for a
      proof (cases "a = p")
        case False
        then have "blk h a \<subseteq> cover h (xs @ ys)" using that by (auto simp: as cover_def)
        then have "blk h a \<inter> blk h p = {}" using cover_apart [OF I(5) [unfolded as]] by auto
        then show ?thesis using other(2) [of a] False that uas bu(1) by auto
      qed (use bu in auto)
      then have c: "cover ?h as \<subseteq> cover h as" "blk ?h u \<inter> cover ?h as = {}" by (auto simp: cover_def)
      have "blk ?h u \<inter> blk h v = {}" if "v \<in> U" for v using I(11) [OF that] pb bu(1) by auto
      moreover have "base + HSIZE \<le> u" "end_at ?h u \<le> hp_brk h" using F(5,7) [OF p] up ep by auto
      ultimately show ?thesis using c n(1) uU by (intro used_ok_insert [OF I(7)]) auto
    qed
    ultimately show ?thesis using I(1-3) prevp by (simp add: heap_inv_def)
  qed
  then show "heap_inv base (insert u U) as h'" by (simp add: h')
  show "u \<notin> U" "\<forall>v \<in> U. size_at h' v = size_at h v" "size_at h' u = n" using uU by (auto simp: h')
qed

lemma carve_inv:
  assumes inv: "heap_inv base U as h" and p: "p \<in> set as" and prevp: "prevp \<in> set (base # as)" "ptr_at h prevp = p"
    and n: "n \<noteq> 0" "n \<le> size_at h p"
  shows "\<exists>u h' as'. carve n prevp p h = (u + HSIZE, h') \<and> heap_inv base (insert u U) as' h' \<and> u \<notin> U \<and> size_at h' u = n
    \<and> (\<forall>v \<in> U. size_at h' v = size_at h v)"
proof (cases "size_at h p = n")
  case True
  note F = flistD [OF heap_invD(5) [OF inv]]
  from linked_pred [OF F(1) flist_distinct [OF heap_invD(5) [OF inv]] prevp p] obtain xs ys
    where as: "as = xs @ p # ys" and pl: "prevp = last (base # xs)" .
  have "carve n prevp p h = (p + HSIZE, (set_ptr prevp (ptr_at h p) h)\<lparr>hp_freep := prevp\<rparr>)"
    using True by (simp add: carve_def)
  then show ?thesis using True unlink_inv [OF inv as pl refl] heap_invD(13) [OF inv] p by fastforce
next
  case False
  let ?u = "p + HSIZE * unat (size_at h p - n)"
  have "n < size_at h p" using n(2) False by simp
  note S = split_inv [OF inv p prevp(1) n(1) this refl refl]
  have "carve n prevp p h = (?u + HSIZE, (set_size ?u n (set_size p (size_at h p - n) h))\<lparr>hp_freep := prevp\<rparr>)"
    using False by (simp add: carve_def Let_def end_set_size)
  then show ?thesis using S by blast
qed

text \<open>The search along the circle, from behind \<open>prev\<close> to \<open>freep\<close>.\<close>

lemma malloc_loop_finds:
  assumes "linked h prev vs f" and "f = hp_freep h" and "f \<notin> set vs" and "w \<in> set (vs @ [f])" and "n \<le> size_at h w"
  shows "\<exists>p q. malloc_loop os n prev (hd (vs @ [f])) h = Some (carve n p q h) \<and> n \<le> size_at h q \<and> ptr_at h p = q
    \<and> p \<in> set (prev # vs) \<and> q \<in> set (vs @ [f])"
  using assms
proof (induction vs arbitrary: prev)
  case Nil
  then show ?case by (subst malloc_loop.simps) auto
next
  case (Cons v vs)
  show ?case
  proof (cases "n \<le> size_at h v")
    case True
    then show ?thesis using Cons.prems by (subst malloc_loop.simps) auto
  next
    case False
    have "ptr_at h v = hd (vs @ [f])" using Cons.prems(1) by (cases vs) auto
    then have "malloc_loop os n prev (hd ((v # vs) @ [f])) h = malloc_loop os n v (hd (vs @ [f])) h"
      using False Cons.prems(2,3) by (subst malloc_loop.simps) auto
    moreover have "w \<in> set (vs @ [f])" using Cons.prems(4,5) False by auto
    ultimately show ?thesis using Cons.IH [of v] Cons.prems by auto
  qed
qed

lemma malloc_loop_misses:
  assumes "linked h prev vs f" and "f = hp_freep h" and "f \<notin> set vs" and "\<forall>w \<in> set (vs @ [f]). \<not> n \<le> size_at h w"
  shows "malloc_loop os n prev (hd (vs @ [f])) h =
    (case morecore os n h of None \<Rightarrow> None
     | Some (p, h) \<Rightarrow> if p = 0 then Some (0, h) else malloc_loop os n p (ptr_at h p) h)"
  using assms
proof (induction vs arbitrary: prev)
  case Nil
  then show ?case by (subst malloc_loop.simps) (auto split: option.splits)
next
  case (Cons v vs)
  have "ptr_at h v = hd (vs @ [f])" using Cons.prems(1) by (cases vs) auto
  then have "malloc_loop os n prev (hd ((v # vs) @ [f])) h = malloc_loop os n v (hd (vs @ [f])) h"
    using Cons.prems by (subst malloc_loop.simps) auto
  then show ?case using Cons.IH [of v] Cons.prems by auto
qed

text \<open>The circle seen from \<open>freep\<close>.\<close>

lemma rotation:
  assumes "linked h base as base" and "distinct (base # as)" and "f \<in> set (base # as)"
  obtains vs where "linked h f vs f" and "f \<notin> set vs" and "set (f # vs) = set (base # as)"
proof (cases "f = base")
  case True
  then show ?thesis using that assms by auto
next
  case False
  then obtain xs ys where as: "as = xs @ f # ys" using assms(3) by (metis set_ConsD split_list)
  show ?thesis
  proof (rule that [of "ys @ base # xs"])
    show "linked h f (ys @ base # xs) f" using assms(1) by (simp add: as chain_append)
  qed (use assms(2) in \<open>auto simp: as\<close>)
qed

lemma malloc_finds:
  assumes inv: "heap_inv base U as h" and n: "n \<noteq> 0" and a: "a \<in> set as" "n \<le> size_at h a"
  shows "\<exists>u h' as'. malloc_loop os n (hp_freep h) (ptr_at h (hp_freep h)) h = Some (u + HSIZE, h')
    \<and> heap_inv base (insert u U) as' h' \<and> u \<notin> U \<and> size_at h' u = n \<and> (\<forall>v \<in> U. size_at h' v = size_at h v)"
proof -
  note I = heap_invD [OF inv] and F = flistD [OF heap_invD(5) [OF inv]]
  obtain vs where v: "linked h (hp_freep h) vs (hp_freep h)" "hp_freep h \<notin> set vs" "set (hp_freep h # vs) = set (base # as)"
    by (rule rotation [OF F(1) flist_distinct [OF I(5)] I(4)])
  have s: "set (vs @ [hp_freep h]) = set (base # as)" using v(3) by auto
  have p0: "ptr_at h (hp_freep h) = hd (vs @ [hp_freep h])" using v(1) by (cases vs) auto
  have "a \<in> set (vs @ [hp_freep h])" unfolding s using a(1) by simp
  from malloc_loop_finds [OF v(1) refl v(2) this a(2), of os] obtain p q where
    m: "malloc_loop os n (hp_freep h) (hd (vs @ [hp_freep h])) h = Some (carve n p q h)" "n \<le> size_at h q"
      "ptr_at h p = q" "p \<in> set (hp_freep h # vs)" "q \<in> set (vs @ [hp_freep h])" by blast
  have "q \<in> set as" using m(2,5) n F(2) unfolding s by auto
  from carve_inv [OF inv this m(4) [unfolded v(3)] m(3) n m(2)] show ?thesis using m(1) unfolding p0 by metis
qed

lemma malloc_inv:
  assumes inv: "heap_inv base U as h" and os: "grants_below os" and n: "n \<noteq> 0" "unat n < 268435456"
  shows "malloc_loop os n (hp_freep h) (ptr_at h (hp_freep h)) h = Some (0, h) \<and> \<not> os (hp_brk h) (8 * uint (units_asked n)) \<or>
    (\<exists>u h' as'. malloc_loop os n (hp_freep h) (ptr_at h (hp_freep h)) h = Some (u + HSIZE, h')
      \<and> heap_inv base (insert u U) as' h' \<and> u \<notin> U \<and> size_at h' u = n \<and> (\<forall>v \<in> U. size_at h' v = size_at h v))"
proof (cases "\<exists>a \<in> set as. n \<le> size_at h a")
  case True
  then show ?thesis using malloc_finds [OF inv n(1)] by blast
next
  case False
  note I = heap_invD [OF inv] and F = flistD [OF heap_invD(5) [OF inv]]
  obtain vs where v: "linked h (hp_freep h) vs (hp_freep h)" "hp_freep h \<notin> set vs" "set (hp_freep h # vs) = set (base # as)"
    by (rule rotation [OF F(1) flist_distinct [OF I(5)] I(4)])
  have s: "set (vs @ [hp_freep h]) = set (base # as)" using v(3) by auto
  have p0: "ptr_at h (hp_freep h) = hd (vs @ [hp_freep h])" using v(1) by (cases vs) auto
  have "\<forall>w \<in> set (vs @ [hp_freep h]). \<not> n \<le> size_at h w" unfolding s using False n(1) F(2) by auto
  note M = malloc_loop_misses [OF v(1) refl v(2) this, of os, folded p0]
  from morecore_inv [OF inv os n(2)] show ?thesis
  proof (elim disjE conjE exE bexE)
    fix h' as' a
    assume m: "morecore os n h = Some (hp_freep h', h')" and i: "heap_inv base U as' h'"
      and z: "\<forall>u \<in> U. size_at h' u = size_at h u" and a: "a \<in> set as'" "n \<le> size_at h' a"
    have "hp_freep h' \<noteq> 0" using heap_invD(1,4,8) [OF i] flistD(8) [OF heap_invD(5) [OF i]] by fastforce
    then have "malloc_loop os n (hp_freep h) (ptr_at h (hp_freep h)) h = malloc_loop os n (hp_freep h') (ptr_at h' (hp_freep h')) h'"
      using M m by simp
    then show ?thesis using malloc_finds [OF i n(1) a, of os] z by auto
  qed (use M in simp)
qed

section \<open>The contract\<close>

text \<open>The heap of a program whose blocks have their headers at \<open>U\<close>.\<close>

definition heap_ok :: "nat \<Rightarrow> nat set \<Rightarrow> heap \<Rightarrow> bool" where
  "heap_ok base U h \<longleftrightarrow>
     (if hp_freep h = 0 then U = {} \<and> 0 < base \<and> base + HSIZE \<le> hp_brk h \<and> hp_brk h \<le> KERNBASE
      else \<exists>as. heap_inv base U as h)"

lemma heap_inv_ok: "heap_inv base U as h \<Longrightarrow> heap_ok base U h"
  using heap_invD(1,4) [of base U as h] flistD(8) [OF heap_invD(5), of base U as h] by (fastforce simp: heap_ok_def)

lemma heap_inv_first:
  assumes "0 < base" and "base + HSIZE \<le> hp_brk h" and "hp_brk h \<le> KERNBASE"
  shows "heap_inv base {} [] ((set_size base 0 (set_ptr base base h))\<lparr>hp_freep := base\<rparr>)"
  using assms by (simp add: heap_inv_def flist_def used_ok_def)

lemma units_for_ok:
  assumes "unat nbytes < 2147483632"
  shows "units_for nbytes \<noteq> 0" and "unat (units_for nbytes) < 268435456"
    and "unat nbytes \<le> 8 * (unat (units_for nbytes) - 1)"
proof -
  have a: "unat (nbytes + 7) = unat nbytes + 7" using assms by (simp add: unat_add_lem [THEN iffD1])
  have b: "unat ((nbytes + 7) div 8) = (unat nbytes + 7) div 8" by (simp add: unat_div a)
  have e: "units_for nbytes = (nbytes + 7) div 8 + 1" by (simp add: units_for_def HSIZE_def add.commute)
  have "unat ((nbytes + 7) div 8) + unat (1 :: u32) < 2 ^ LENGTH(32)" unfolding b using assms by simp
  then have "unat ((nbytes + 7) div 8 + 1) = unat ((nbytes + 7) div 8) + unat (1 :: u32)" by (rule unat_add_lem [THEN iffD1])
  then have c: "unat (units_for nbytes) = (unat nbytes + 7) div 8 + 1" unfolding e b by simp
  show "units_for nbytes \<noteq> 0" using c by (metis Suc_eq_plus1 Zero_not_Suc unat_0)
  show "unat (units_for nbytes) < 268435456" "unat nbytes \<le> 8 * (unat (units_for nbytes) - 1)"
    using assms unfolding c by linarith+
qed

lemma malloc_ok:
  assumes ok: "heap_ok base U h" and os: "grants_below os" and n: "unat nbytes < 2147483632"
  shows "\<exists>r h'. malloc os base nbytes h = Some (r, h') \<and> (\<forall>v \<in> U. size_at h' v = size_at h v) \<and>
    (if r = 0 then heap_ok base U h' \<and> \<not> os (hp_brk h) (8 * uint (units_asked (units_for nbytes)))
     else heap_ok base (insert (r - HSIZE) U) h' \<and> r - HSIZE \<notin> U \<and> r + unat nbytes \<le> end_at h' (r - HSIZE))"
proof -
  note N = units_for_ok [OF n]
  define h0 where "h0 = (if hp_freep h = 0 then (set_size base 0 (set_ptr base base h))\<lparr>hp_freep := base\<rparr> else h)"
  have "\<exists>as. heap_inv base U as h0"
    using ok heap_inv_first [of base h] by (auto simp: heap_ok_def h0_def split: if_splits)
  then obtain as where inv: "heap_inv base U as h0" ..
  have same: "size_at h0 v = size_at h v" if "v \<in> U" for v
    using ok that by (auto simp: heap_ok_def h0_def split: if_splits)
  have brk: "hp_brk h0 = hp_brk h" by (simp add: h0_def)
  have m: "malloc os base nbytes h = malloc_loop os (units_for nbytes) (hp_freep h0) (ptr_at h0 (hp_freep h0)) h0"
    unfolding malloc_def Let_def h0_def ..
  from malloc_inv [OF inv os N(1,2)] show ?thesis
  proof (elim disjE conjE exE)
    fix u h' as'
    assume s: "malloc_loop os (units_for nbytes) (hp_freep h0) (ptr_at h0 (hp_freep h0)) h0 = Some (u + HSIZE, h')"
      and i: "heap_inv base (insert u U) as' h'" "u \<notin> U" "size_at h' u = units_for nbytes"
      and z: "\<forall>v \<in> U. size_at h' v = size_at h0 v"
    have "0 < unat (units_for nbytes)" using N(1) by (simp add: unat_gt_0)
    then have "u + HSIZE + unat nbytes \<le> end_at h' u" using N(3) unfolding end_at_def HSIZE_def i(3) by linarith
    then show ?thesis using s z heap_inv_ok [OF i(1)] i(2) same unfolding m by (intro exI [of _ "u + HSIZE"] exI [of _ h']) (simp add: HSIZE_def)
  next
    assume "malloc_loop os (units_for nbytes) (hp_freep h0) (ptr_at h0 (hp_freep h0)) h0 = Some (0, h0)"
      and "\<not> os (hp_brk h0) (8 * uint (units_asked (units_for nbytes)))"
    then show ?thesis using heap_inv_ok [OF inv] same brk unfolding m by (intro exI [of _ 0] exI [of _ h0]) simp
  qed
qed

lemma free_ok:
  assumes ok: "heap_ok base U h" and bp: "bp \<in> U"
  shows "\<exists>h'. free (bp + HSIZE) h = Some h' \<and> heap_ok base (U - {bp}) h' \<and> (\<forall>v \<in> U - {bp}. size_at h' v = size_at h v)
    \<and> (\<forall>os nbytes. unat nbytes < 2147483632 \<longrightarrow> units_for nbytes \<le> size_at h bp \<longrightarrow>
         (\<exists>r h''. malloc os base nbytes h' = Some (r, h'') \<and> r \<noteq> 0))"
proof -
  have "hp_freep h \<noteq> 0" using ok bp by (auto simp: heap_ok_def split: if_splits)
  then obtain as where inv: "heap_inv base U as h" using ok by (auto simp: heap_ok_def)
  from free_inv [OF inv bp] obtain h' as' where f: "free (bp + HSIZE) h = Some h'" "heap_inv base (U - {bp}) as' h'"
    "\<forall>u \<in> U - {bp}. size_at h' u = size_at h u" "within h (bp # as) h' as'" by blast
  obtain a where a: "a \<in> set as'" "a \<le> bp" "end_at h bp \<le> end_at h' a" using f(4) by (auto simp: within_def)
  then have "size_at h bp \<le> size_at h' a" by (simp add: end_at_def HSIZE_def word_le_nat_alt)
  moreover have "hp_freep h' \<noteq> 0" using heap_inv_ok [OF f(2)] heap_invD(1,4) [OF f(2)] flistD(8) [OF heap_invD(5) [OF f(2)]] by fastforce
  then have "malloc os base nbytes h' = malloc_loop os (units_for nbytes) (hp_freep h') (ptr_at h' (hp_freep h')) h'" for os nbytes
    by (simp add: malloc_def)
  ultimately have "\<exists>r h''. malloc os base nbytes h' = Some (r, h'') \<and> r \<noteq> 0"
    if "unat nbytes < 2147483632" "units_for nbytes \<le> size_at h bp" for os nbytes
    using malloc_finds [OF f(2) units_for_ok(1) [OF that(1)] a(1), of os] that(2) by (fastforce simp: HSIZE_def)
  then show ?thesis using f heap_inv_ok by blast
qed


definition ex_heap :: heap where
  "ex_heap = \<lparr>hp_mem = (\<lambda>_. \<lparr>h_ptr = 0, h_size = 0\<rparr>), hp_freep = 0, hp_brk = 4096\<rparr>"

definition ex_os :: "nat \<Rightarrow> int \<Rightarrow> bool" where
  "ex_os k n \<longleftrightarrow> 0 \<le> int k + n \<and> int k + n \<le> int KERNBASE"

lemma ex_ok: "heap_ok 64 {} ex_heap" "grants_below ex_os"
  by (auto simp: heap_ok_def ex_heap_def KERNBASE_def HSIZE_def grants_below_def ex_os_def)

lemma ex_grants: "ex_os (hp_brk ex_heap) (8 * uint (units_asked (units_for 100)))"
  by (simp add: ex_os_def ex_heap_def units_asked_def units_for_def HSIZE_def KERNBASE_def)


text \<open>C13: \<open>free\<close> always returns.  The block goes back to the free list, joined with the free blocks it
  touches: every later \<open>malloc\<close> that fits the block succeeds without \<open>sbrk\<close>, and the other blocks
  of the program keep their places and sizes.\<close>

theorem free_gives_back:
  assumes "heap_ok base U h" and "bp \<in> U"
  shows "\<exists>h'. free (bp + HSIZE) h = Some h' \<and> heap_ok base (U - {bp}) h' \<and> (\<forall>v \<in> U - {bp}. size_at h' v = size_at h v)
    \<and> (\<forall>os nbytes. unat nbytes < 2147483632 \<longrightarrow> units_for nbytes \<le> size_at h bp \<longrightarrow>
         (\<exists>r h''. malloc os base nbytes h' = Some (r, h'') \<and> r \<noteq> 0))"
  by (rule free_ok [OF assms])

theorem free_gives_back_witness:
  "\<exists>r h h'. malloc ex_os 64 100 ex_heap = Some (r, h) \<and> free r h = Some h' \<and> heap_ok 64 {} h'"
proof -
  obtain r h where m: "malloc ex_os 64 100 ex_heap = Some (r, h)" "r \<noteq> 0" "heap_ok 64 {r - HSIZE} h" "r + 100 \<le> end_at h (r - HSIZE)"
    using malloc_ok [OF ex_ok, of 100] ex_grants by (auto split: if_splits)
  obtain as where "heap_inv 64 {r - HSIZE} as h" using m(3) by (auto simp: heap_ok_def split: if_splits)
  from heap_invD(8) [OF this, of "r - HSIZE"] have "r - HSIZE + HSIZE = r" by (simp add: HSIZE_def)
  then show ?thesis using free_gives_back [OF m(3), of "r - HSIZE"] m(1) by auto
qed

text \<open>For the largest requests the rounding wraps around: the block has one unit, its header.\<close>

lemma units_for_wraps: "units_for 0xFFFFFFFF = 1"
  by (simp add: units_for_def HSIZE_def)

end
