(* ===== verification/Life.thy ===== *)
theory Life
  imports Prelude
begin

text \<open>
  The Game of Life of \<open>life/\<close>: the board (\<open>life.h\<close>), the serial simulation (\<open>life-serial.cc\<close>) and
  the parallel one (\<open>life-parallel.cc\<close>), whose threads share two boards and meet at one barrier
  in each generation.  One step of the machine is one turn of a thread at one of its loops; the
  accesses of a turn are listed (\<open>cell_reads\<close>, \<open>cell_writes\<close>), and no two threads ever stand
  before conflicting turns, so that the turns may be taken as atomic.  The barrier is the one of
  POSIX: it counts the arrivals, and the last arrival begins a new cycle and frees the others.
\<close>

section \<open>Boards\<close>

record life_board =
  bd_width :: int
  bd_height :: int
  bd_cells :: "u8 list"

definition new_board :: "int \<Rightarrow> int \<Rightarrow> life_board" where
  "new_board w h = \<lparr>bd_width = w, bd_height = h, bd_cells = replicate (nat (w * h)) 0\<rparr>"

definition bd_index :: "life_board \<Rightarrow> int \<Rightarrow> int \<Rightarrow> nat" where
  "bd_index b x y = nat (y * bd_width b + x)"

definition at_cell :: "life_board \<Rightarrow> int \<Rightarrow> int \<Rightarrow> u8" where
  "at_cell b x y = bd_cells b ! bd_index b x y"

definition set_at :: "int \<Rightarrow> int \<Rightarrow> u8 \<Rightarrow> life_board \<Rightarrow> life_board" where
  "set_at x y v b = b\<lparr>bd_cells := (bd_cells b)[bd_index b x y := v]\<rparr>"

definition live_in_window :: "life_board \<Rightarrow> int \<Rightarrow> int \<Rightarrow> int" where
  "live_in_window b x y =
     (\<Sum>y_offset \<leftarrow> [-1..1]. \<Sum>x_offset \<leftarrow> [-1..1]. if at_cell b (x + x_offset) (y + y_offset) \<noteq> 0 then 1 else 0)"

definition next_cell :: "life_board \<Rightarrow> int \<Rightarrow> int \<Rightarrow> u8" where
  "next_cell b x y =
     (if live_in_window b x y = 3 \<or> live_in_window b x y = 4 \<and> at_cell b x y \<noteq> 0 then 1 else 0)"

section \<open>The serial simulation\<close>

definition serial_row :: "life_board \<Rightarrow> int \<Rightarrow> life_board \<Rightarrow> life_board" where
  "serial_row state y next_state =
     fold (\<lambda>x. set_at x y (next_cell state x y)) [1..bd_width state - 2] next_state"

definition serial_step :: "life_board \<Rightarrow> life_board \<Rightarrow> life_board" where
  "serial_step state next_state = fold (serial_row state) [1..bd_height state - 2] next_state"

fun serial_loop :: "nat \<Rightarrow> life_board \<Rightarrow> life_board \<Rightarrow> life_board" where
  "serial_loop 0 state next_state = state"
| "serial_loop (Suc n) state next_state = serial_loop n (serial_step state next_state) state"

definition simulate_life_serial :: "life_board \<Rightarrow> int \<Rightarrow> life_board" where
  "simulate_life_serial state steps =
     serial_loop (nat steps) state (new_board (bd_width state) (bd_height state))"

section \<open>The parallel simulation\<close>

datatype board_ref = State_board | Next_board

datatype life_pc = Step_loop | Cell_loop | At_barrier nat | Returned

record life_thread =
  lt_steps :: int
  lt_start :: int
  lt_end :: int
  lt_state :: board_ref
  lt_next :: board_ref
  lt_i :: int
  lt_cell :: int
  lt_pc :: life_pc

record life =
  lf_boards :: "board_ref \<Rightarrow> life_board"
  lf_threads :: "life_thread list"
  lf_arrived :: nat
  lf_cycle :: nat

abbreviation thread_at :: "nat \<Rightarrow> life \<Rightarrow> life_thread" where
  "thread_at t s \<equiv> lf_threads s ! t"

definition set_thread :: "nat \<Rightarrow> life_thread \<Rightarrow> life \<Rightarrow> life" where
  "set_thread t th s = s\<lparr>lf_threads := (lf_threads s)[t := th]\<rparr>"

text \<open>One turn of the loop over the cells.\<close>

definition inner_cell :: "life_board \<Rightarrow> int \<Rightarrow> int \<Rightarrow> bool" where
  "inner_cell b x y \<longleftrightarrow> x \<noteq> 0 \<and> y \<noteq> 0 \<and> x \<noteq> bd_width b - 1 \<and> y \<noteq> bd_height b - 1"

definition process_cell :: "life_board \<Rightarrow> int \<Rightarrow> life_board \<Rightarrow> life_board" where
  "process_cell state ith_cell next_state =
     (let x = ith_cell mod bd_width state; y = ith_cell div bd_width state in
      if inner_cell state x y then set_at x y (next_cell state x y) next_state else next_state)"

text \<open>\<open>pthread_barrier_wait\<close> by a thread that arrives.\<close>

definition barrier_arrive :: "life \<Rightarrow> life" where
  "barrier_arrive s =
     (if lf_arrived s + 1 = length (lf_threads s)
      then s\<lparr>lf_arrived := 0, lf_cycle := lf_cycle s + 1\<rparr>
      else s\<lparr>lf_arrived := lf_arrived s + 1\<rparr>)"

definition thread_simulate_life :: "nat \<Rightarrow> life \<Rightarrow> life option" where
  "thread_simulate_life t s =
     (let th = thread_at t s in
      case lt_pc th of
        Step_loop \<Rightarrow>
          if lt_i th < lt_steps th then Some (set_thread t (th\<lparr>lt_pc := Cell_loop, lt_cell := lt_start th\<rparr>) s)
          else Some (set_thread t (th\<lparr>lt_pc := Returned\<rparr>) s)
      | Cell_loop \<Rightarrow>
          if lt_cell th \<le> lt_end th then
            Some (set_thread t (th\<lparr>lt_cell := lt_cell th + 1\<rparr>)
              (s\<lparr>lf_boards := (lf_boards s)(lt_next th :=
                 process_cell (lf_boards s (lt_state th)) (lt_cell th) (lf_boards s (lt_next th)))\<rparr>))
          else Some (barrier_arrive (set_thread t (th\<lparr>lt_pc := At_barrier (lf_cycle s)\<rparr>) s))
      | At_barrier g \<Rightarrow>
          if lf_cycle s = g then None
          else Some (set_thread t (th\<lparr>lt_state := lt_next th, lt_next := lt_state th,
                                       lt_i := lt_i th + 1, lt_pc := Step_loop\<rparr>) s)
      | Returned \<Rightarrow> None)"

definition start_cell :: "int \<Rightarrow> int \<Rightarrow> nat \<Rightarrow> int" where
  "start_cell cells threads i =
     (let num_cells_per_thread = cells div threads; extra_cells = cells mod threads in
      if int i < extra_cells then int i * (num_cells_per_thread + 1)
      else int i * num_cells_per_thread + extra_cells)"

definition end_cell :: "int \<Rightarrow> int \<Rightarrow> nat \<Rightarrow> int" where
  "end_cell cells threads i =
     (let num_cells_per_thread = cells div threads; extra_cells = cells mod threads in
      if int i < extra_cells then start_cell cells threads i + num_cells_per_thread
      else start_cell cells threads i + num_cells_per_thread - 1)"

definition thread_data :: "life_board \<Rightarrow> int \<Rightarrow> int \<Rightarrow> nat \<Rightarrow> life_thread" where
  "thread_data state threads steps i =
     (let cells = bd_width state * bd_height state in
      \<lparr>lt_steps = steps, lt_start = start_cell cells threads i, lt_end = end_cell cells threads i,
       lt_state = State_board, lt_next = Next_board, lt_i = 0, lt_cell = 0, lt_pc = Step_loop\<rparr>)"

definition create_threads :: "int \<Rightarrow> life_board \<Rightarrow> int \<Rightarrow> life" where
  "create_threads threads state steps =
     \<lparr>lf_boards = (\<lambda>_. state), lf_threads = map (thread_data state threads steps) [0..<nat threads],
      lf_arrived = 0, lf_cycle = 0\<rparr>"

text \<open>A schedule names the thread that runs next; a thread that cannot run is passed over.\<close>

fun run_threads :: "nat list \<Rightarrow> life \<Rightarrow> life" where
  "run_threads [] s = s"
| "run_threads (t # ts) s =
     run_threads ts (if t < length (lf_threads s)
                     then (case thread_simulate_life t s of None \<Rightarrow> s | Some s' \<Rightarrow> s') else s)"

definition all_returned :: "life \<Rightarrow> bool" where
  "all_returned s \<longleftrightarrow> (\<forall>th \<in> set (lf_threads s). lt_pc th = Returned)"

text \<open>\<open>None\<close>: \<open>pthread_join\<close> still waits at the end of the schedule.\<close>

definition simulate_life_parallel :: "int \<Rightarrow> life_board \<Rightarrow> int \<Rightarrow> nat list \<Rightarrow> life_board option" where
  "simulate_life_parallel threads state steps sched =
     (let s = run_threads sched (create_threads threads state steps) in
      if all_returned s
      then Some (if c_mod steps 2 = 1 then lf_boards s Next_board else lf_boards s State_board)
      else None)"

section \<open>The accesses of a turn\<close>

definition in_body :: "life_thread \<Rightarrow> bool" where
  "in_body th \<longleftrightarrow> lt_pc th = Cell_loop \<and> lt_cell th \<le> lt_end th"

definition cell_reads :: "life \<Rightarrow> nat \<Rightarrow> (board_ref \<times> nat) set" where
  "cell_reads s t =
     (let th = thread_at t s; b = lf_boards s (lt_state th);
          x = lt_cell th mod bd_width b; y = lt_cell th div bd_width b in
      if in_body th \<and> inner_cell b x y
      then {(lt_state th, bd_index b (x + dx) (y + dy)) | dx dy. dx \<in> {-1..1} \<and> dy \<in> {-1..1}} else {})"

definition cell_writes :: "life \<Rightarrow> nat \<Rightarrow> (board_ref \<times> nat) set" where
  "cell_writes s t =
     (let th = thread_at t s; b = lf_boards s (lt_state th);
          x = lt_cell th mod bd_width b; y = lt_cell th div bd_width b in
      if in_body th \<and> inner_cell b x y then {(lt_next th, bd_index (lf_boards s (lt_next th)) x y)} else {})"

definition race_free :: "life \<Rightarrow> bool" where
  "race_free s \<longleftrightarrow>
     (\<forall>t < length (lf_threads s). \<forall>u < length (lf_threads s). t \<noteq> u \<longrightarrow>
        cell_writes s t \<inter> (cell_reads s u \<union> cell_writes s u) = {})"

definition in_bounds :: "life \<Rightarrow> bool" where
  "in_bounds s \<longleftrightarrow>
     (\<forall>t < length (lf_threads s). \<forall>(r, j) \<in> cell_reads s t \<union> cell_writes s t.
        j < length (bd_cells (lf_boards s r)))"

section \<open>One generation\<close>

definition board_ok :: "life_board \<Rightarrow> bool" where
  "board_ok b \<longleftrightarrow> 0 < bd_width b \<and> 0 < bd_height b \<and> length (bd_cells b) = nat (bd_width b * bd_height b)"

definition same_dims :: "life_board \<Rightarrow> life_board \<Rightarrow> bool" where
  "same_dims a b \<longleftrightarrow> bd_width a = bd_width b \<and> bd_height a = bd_height b \<and> length (bd_cells a) = length (bd_cells b)"

definition inner_index :: "life_board \<Rightarrow> nat \<Rightarrow> bool" where
  "inner_index b j \<longleftrightarrow> inner_cell b (int j mod bd_width b) (int j div bd_width b)"

definition dead_edge :: "life_board \<Rightarrow> bool" where
  "dead_edge b \<longleftrightarrow> (\<forall>j < length (bd_cells b). \<not> inner_index b j \<longrightarrow> bd_cells b ! j = 0)"

definition next_value :: "life_board \<Rightarrow> nat \<Rightarrow> u8" where
  "next_value b j =
     (if inner_index b j then next_cell b (int j mod bd_width b) (int j div bd_width b) else 0)"

definition life_next :: "life_board \<Rightarrow> life_board" where
  "life_next b = b\<lparr>bd_cells := map (next_value b) [0..<length (bd_cells b)]\<rparr>"

definition life_gen :: "life_board \<Rightarrow> nat \<Rightarrow> life_board" where
  "life_gen b k = (life_next ^^ k) b"

lemma life_gen_0 [simp]: "life_gen b 0 = b"
  by (simp add: life_gen_def)

lemma life_gen_Suc: "life_gen b (Suc k) = life_next (life_gen b k)"
  by (simp add: life_gen_def)

lemma same_dims_refl [simp]: "same_dims b b"
  by (simp add: same_dims_def)

lemma same_dims_sym: "same_dims a b \<Longrightarrow> same_dims b a"
  by (simp add: same_dims_def)

lemma same_dims_trans: "same_dims a b \<Longrightarrow> same_dims b c \<Longrightarrow> same_dims a c"
  by (simp add: same_dims_def)

lemma same_dims_set_at [simp]: "same_dims (set_at x y v b) c = same_dims b c"
  by (simp add: same_dims_def set_at_def)

lemma same_dims_life_next [simp]: "same_dims (life_next b) c = same_dims b c"
  by (simp add: same_dims_def life_next_def)

lemma same_dims_life_gen [simp]: "same_dims (life_gen b k) c = same_dims b c"
  by (induction k) (simp_all add: life_gen_Suc)

lemma dims_life_gen [simp]:
  "bd_width (life_next b) = bd_width b" "bd_height (life_next b) = bd_height b"
  "bd_width (life_gen b k) = bd_width b" "bd_height (life_gen b k) = bd_height b"
  using same_dims_life_next [of b b] same_dims_life_gen [of b k b] by (auto simp: same_dims_def)

lemma board_ok_dims: "same_dims a b \<Longrightarrow> board_ok a = board_ok b"
  by (simp add: same_dims_def board_ok_def)

lemma inner_index_dims: "same_dims a b \<Longrightarrow> inner_index a j = inner_index b j"
  by (simp add: same_dims_def inner_index_def inner_cell_def)

lemma inner_index_simps [simp]: "inner_index (life_next b) = inner_index b" "inner_index (set_at x y v b) = inner_index b"
  by (simp_all add: fun_eq_iff inner_index_def inner_cell_def life_next_def set_at_def)

lemma board_eqI:
  assumes "same_dims a b" "\<And>j. j < length (bd_cells b) \<Longrightarrow> bd_cells a ! j = bd_cells b ! j"
  shows "a = (b :: life_board)"
  using assms by (cases a; cases b) (auto simp: same_dims_def intro: nth_equalityI)

lemma life_next_nth:
  "j < length (bd_cells b) \<Longrightarrow> bd_cells (life_next b) ! j = next_value b j"
  by (simp add: life_next_def)

lemma length_life_next [simp]: "length (bd_cells (life_next b)) = length (bd_cells b)"
  by (simp add: life_next_def)

lemma dead_edge_next [simp]: "dead_edge (life_next b)"
  unfolding dead_edge_def by (auto simp: life_next_nth next_value_def)

lemma dead_edge_gen: "dead_edge b \<Longrightarrow> dead_edge (life_gen b k)"
  by (cases k) (simp_all add: life_gen_Suc)

lemma length_life_gen [simp]: "length (bd_cells (life_gen b k)) = length (bd_cells b)"
  using same_dims_life_gen [of b k b] by (simp add: same_dims_def)

text \<open>The position of a cell and its coordinates.\<close>

lemma bd_index_iff:
  assumes "0 \<le> x" "x < bd_width b" "0 \<le> y"
  shows "bd_index b x y = j \<longleftrightarrow> int j div bd_width b = y \<and> int j mod bd_width b = x"
proof
  assume "bd_index b x y = j"
  then have "int j = x + y * bd_width b" using assms by (auto simp: bd_index_def)
  then show "int j div bd_width b = y \<and> int j mod bd_width b = x" using assms by simp
next
  assume "int j div bd_width b = y \<and> int j mod bd_width b = x"
  then have "int j = y * bd_width b + x" by (metis div_mult_mod_eq)
  then show "bd_index b x y = j" unfolding bd_index_def by (metis nat_int)
qed

lemma bd_index_less:
  assumes "board_ok b" "0 \<le> x" "x < bd_width b" "0 \<le> y" "y < bd_height b"
  shows "bd_index b x y < length (bd_cells b)"
proof -
  have "y * bd_width b + x < (y + 1) * bd_width b" using assms by (simp add: algebra_simps)
  also have "\<dots> \<le> bd_height b * bd_width b"
    using assms by (intro mult_right_mono) (auto simp: board_ok_def)
  finally have "y * bd_width b + x < bd_width b * bd_height b" by (simp add: mult.commute)
  moreover have "0 \<le> y * bd_width b + x" using assms by (simp add: board_ok_def)
  ultimately show ?thesis using assms by (auto simp: bd_index_def board_ok_def)
qed

lemma index_coords:
  assumes "board_ok b" "j < length (bd_cells b)"
  shows "0 \<le> int j mod bd_width b" "int j mod bd_width b < bd_width b"
    "0 \<le> int j div bd_width b" "int j div bd_width b < bd_height b"
proof -
  have l: "int j < bd_height b * bd_width b" and p: "0 < bd_width b"
    using assms by (auto simp: board_ok_def mult.commute)
  show "int j div bd_width b < bd_height b"
  proof (rule ccontr)
    assume "\<not> int j div bd_width b < bd_height b"
    then have "bd_height b * bd_width b \<le> int j div bd_width b * bd_width b" using p by (intro mult_right_mono) auto
    also have "\<dots> \<le> int j" using div_mult_mod_eq [of "int j" "bd_width b"] pos_mod_sign [OF p, of "int j"] by linarith
    finally show False using l by simp
  qed
qed (use assms in \<open>auto simp: board_ok_def pos_imp_zdiv_nonneg_iff\<close>)

section \<open>The serial simulation computes the generations\<close>

lemma fold_row:
  assumes "board_ok b" "set xs \<subseteq> {0..<bd_width b}" "0 \<le> y"
  shows "same_dims (fold (\<lambda>x. set_at x y (f x)) xs b) b \<and>
    (\<forall>j < length (bd_cells b). bd_cells (fold (\<lambda>x. set_at x y (f x)) xs b) ! j =
       (if int j div bd_width b = y \<and> int j mod bd_width b \<in> set xs then f (int j mod bd_width b)
        else bd_cells b ! j))"
  using assms
proof (induction xs arbitrary: b)
  case (Cons x xs)
  let ?b = "set_at x y (f x) b"
  have d: "same_dims ?b b" by simp
  then have dd: "bd_width ?b = bd_width b" "length (bd_cells ?b) = length (bd_cells b)" by (simp_all add: same_dims_def)
  have "board_ok ?b" using Cons.prems(1) board_ok_dims [OF d] by simp
  note IH = Cons.IH [OF this] 
  have n: "bd_cells ?b ! j = (if int j div bd_width b = y \<and> int j mod bd_width b = x then f x else bd_cells b ! j)"
    if "j < length (bd_cells b)" for j
    using bd_index_iff [of x b y j] Cons.prems that by (auto simp: set_at_def nth_list_update)
  show ?case using IH Cons.prems d dd by (auto simp: n intro: same_dims_trans)
qed simp

lemma inner_range [simp]: "{1..n - 2} \<subseteq> {0..<n :: int}"
  by auto

lemma fold_rows:
  assumes "board_ok b" "same_dims st b" "set ys \<subseteq> {0..<bd_height b}"
  shows "same_dims (fold (serial_row st) ys b) b \<and>
    (\<forall>j < length (bd_cells b). bd_cells (fold (serial_row st) ys b) ! j =
       (if int j div bd_width b \<in> set ys \<and> int j mod bd_width b \<in> {1..bd_width b - 2}
        then next_cell st (int j mod bd_width b) (int j div bd_width b) else bd_cells b ! j))"
  using assms
proof (induction ys arbitrary: b)
  case (Cons y ys)
  let ?b = "serial_row st y b"
  have w: "bd_width st = bd_width b" using Cons.prems(2) by (simp add: same_dims_def)
  have R: "same_dims ?b b" "\<And>j. j < length (bd_cells b) \<Longrightarrow> bd_cells ?b ! j =
       (if int j div bd_width b = y \<and> int j mod bd_width b \<in> {1..bd_width b - 2}
        then next_cell st (int j mod bd_width b) y else bd_cells b ! j)"
    using fold_row [of b "[1..bd_width b - 2]" y "\<lambda>x. next_cell st x y"] Cons.prems
    by (auto simp: serial_row_def w)
  then have dd: "bd_width ?b = bd_width b" "bd_height ?b = bd_height b" "length (bd_cells ?b) = length (bd_cells b)"
    by (simp_all add: same_dims_def)
  have "board_ok ?b" using Cons.prems(1) board_ok_dims [OF R(1)] by simp
  moreover have "same_dims st ?b" using Cons.prems(2) R(1) same_dims_sym same_dims_trans by blast
  ultimately have IH: "same_dims (fold (serial_row st) ys ?b) ?b"
    "\<And>j. j < length (bd_cells b) \<Longrightarrow> bd_cells (fold (serial_row st) ys ?b) ! j =
       (if int j div bd_width b \<in> set ys \<and> int j mod bd_width b \<in> {1..bd_width b - 2}
        then next_cell st (int j mod bd_width b) (int j div bd_width b) else bd_cells ?b ! j)"
    using Cons.IH [of ?b] Cons.prems(3) by (auto simp: dd)
  show ?case using same_dims_trans [OF IH(1) R(1)] by (auto simp: IH(2) R(2))
qed simp

lemma serial_step_is_next:
  assumes "board_ok st" "same_dims nx st" "dead_edge nx"
  shows "serial_step st nx = life_next st"
proof (rule board_eqI)
  have d: "bd_width nx = bd_width st" "bd_height nx = bd_height st" "length (bd_cells nx) = length (bd_cells st)"
    using assms(2) by (simp_all add: same_dims_def)
  have ok: "board_ok nx" using assms(1,2) board_ok_dims by blast
  note F = fold_rows [OF ok same_dims_sym [OF assms(2)], of "[1..bd_height st - 2]", folded serial_step_def]
  show "same_dims (serial_step st nx) (life_next st)"
    using F by (auto simp: d same_dims_def life_next_def)
  fix j assume "j < length (bd_cells (life_next st))"
  then have j: "j < length (bd_cells st)" by simp
  have "inner_index st j \<longleftrightarrow> int j div bd_width st \<in> {1..bd_height st - 2} \<and> int j mod bd_width st \<in> {1..bd_width st - 2}"
    using index_coords [OF assms(1) j] by (auto simp: inner_index_def inner_cell_def)
  moreover have "\<not> inner_index st j \<Longrightarrow> bd_cells nx ! j = 0"
    using assms(3) j inner_index_dims [OF assms(2)] by (auto simp: dead_edge_def d)
  ultimately show "bd_cells (serial_step st nx) ! j = bd_cells (life_next st) ! j"
    using F j by (auto simp: life_next_nth next_value_def d)
qed

lemma serial_loop_gen:
  assumes "board_ok st" "same_dims nx st" "dead_edge nx" "dead_edge st"
  shows "serial_loop n st nx = life_gen st n"
  using assms
proof (induction n arbitrary: st nx)
  case (Suc n)
  have "serial_loop n (life_next st) st = life_gen (life_next st) n"
    using Suc.prems by (intro Suc.IH) (auto simp: board_ok_dims [of "life_next st" st] intro: same_dims_sym)
  then show ?case using serial_step_is_next [OF Suc.prems(1-3)] by (simp add: life_gen_def funpow_swap1)
qed simp

lemma simulate_life_serial_gen:
  assumes "board_ok b" "dead_edge b"
  shows "simulate_life_serial b steps = life_gen b (nat steps)"
  unfolding simulate_life_serial_def using assms
  by (intro serial_loop_gen) (auto simp: same_dims_def board_ok_def new_board_def dead_edge_def)

section \<open>The ranges of the threads\<close>

lemma start_cell_eq: "start_cell N n t = int t * (N div n) + min (int t) (N mod n)"
  by (simp add: start_cell_def Let_def algebra_simps)

lemma end_cell_eq: "end_cell N n t = start_cell N n (Suc t) - 1"
  by (auto simp: end_cell_def start_cell_def Let_def algebra_simps)

lemma start_cell_0 [simp]: "0 < n \<Longrightarrow> start_cell N n 0 = 0"
  by (simp add: start_cell_eq)

lemma start_cell_last: "0 < n \<Longrightarrow> start_cell N (int n) n = N"
  using pos_mod_bound [of "int n" N] mult_div_mod_eq [of "int n" N] by (simp add: start_cell_eq min_absorb2)

lemma start_cell_mono:
  assumes "0 \<le> N" "0 < n" "t \<le> u" shows "start_cell N n t \<le> start_cell N n u"
  using assms mult_right_mono [of "int t" "int u" "N div n"]
  by (auto simp: start_cell_eq pos_imp_zdiv_nonneg_iff min_def)

lemma interval_cover:
  "f 0 \<le> (c :: int) \<Longrightarrow> c < f n \<Longrightarrow> \<exists>t < n. f t \<le> c \<and> c < f (Suc t)"
proof (induction n)
  case (Suc n)
  then show ?case by (cases "c < f n") (auto simp: less_Suc_eq)
qed simp

lemma range_cover:
  assumes "0 < n" "0 \<le> c" "c < N"
  shows "\<exists>t < n. start_cell N (int n) t \<le> c \<and> c \<le> end_cell N (int n) t"
  using interval_cover [of "start_cell N (int n)" c n] assms by (auto simp: start_cell_last end_cell_eq)

lemma range_disjoint:
  assumes "0 \<le> N" "0 < n" "t \<noteq> u" "start_cell N n t \<le> c" "c \<le> end_cell N n t"
    "start_cell N n u \<le> c" "c \<le> end_cell N n u"
  shows False
  using assms start_cell_mono [of N n "Suc t" u] start_cell_mono [of N n "Suc u" t]
  by (cases t u rule: linorder_cases) (auto simp: end_cell_eq)

lemma range_bounds:
  assumes "0 \<le> N" "0 < n" "t < n"
  shows "0 \<le> start_cell N (int n) t" "end_cell N (int n) t < N" "start_cell N (int n) t \<le> end_cell N (int n) t + 1"
  using start_cell_mono [of N "int n" 0 t] start_cell_mono [of N "int n" "Suc t" n] start_cell_mono [of N "int n" t "Suc t"] assms
  by (auto simp: end_cell_eq start_cell_last)

section \<open>The invariant of the threads\<close>

definition cur_ref :: "nat \<Rightarrow> board_ref" where
  "cur_ref k = (if even k then State_board else Next_board)"

definition thread_ok :: "life_board \<Rightarrow> nat \<Rightarrow> int \<Rightarrow> nat \<Rightarrow> nat \<Rightarrow> life_thread \<Rightarrow> bool" where
  "thread_ok b n steps G t th \<longleftrightarrow>
     lt_steps th = steps \<and>
     lt_start th = start_cell (bd_width b * bd_height b) (int n) t \<and>
     lt_end th = end_cell (bd_width b * bd_height b) (int n) t \<and>
     (case lt_pc th of
        Step_loop \<Rightarrow> lt_i th = int G \<and> lt_state th = cur_ref G \<and> lt_next th = cur_ref (Suc G)
      | Cell_loop \<Rightarrow> lt_i th = int G \<and> lt_state th = cur_ref G \<and> lt_next th = cur_ref (Suc G) \<and>
          int G < steps \<and> lt_start th \<le> lt_cell th \<and> lt_cell th \<le> lt_end th + 1
      | At_barrier g \<Rightarrow> (g = G \<or> Suc g = G) \<and> int g < steps \<and>
          lt_i th = int g \<and> lt_state th = cur_ref g \<and> lt_next th = cur_ref (Suc g)
      | Returned \<Rightarrow> steps \<le> int G)"

text \<open>The cells of the next board that a thread has computed in this generation.\<close>

definition cell_done :: "nat \<Rightarrow> life_thread \<Rightarrow> nat \<Rightarrow> bool" where
  "cell_done G th j \<longleftrightarrow> lt_start th \<le> int j \<and>
     (lt_pc th = Cell_loop \<and> int j < lt_cell th \<or> lt_pc th = At_barrier G \<and> int j \<le> lt_end th)"

definition boards_ok :: "life_board \<Rightarrow> nat \<Rightarrow> life_thread list \<Rightarrow> (board_ref \<Rightarrow> life_board) \<Rightarrow> bool" where
  "boards_ok b G ths bs \<longleftrightarrow>
     bs (cur_ref G) = life_gen b G \<and> same_dims (bs (cur_ref (Suc G))) b \<and>
     (\<forall>j < length (bd_cells b). \<not> inner_index b j \<or> (\<exists>th \<in> set ths. cell_done G th j) \<longrightarrow>
        bd_cells (bs (cur_ref (Suc G))) ! j = next_value (life_gen b G) j)"

definition waiting :: "nat \<Rightarrow> life_thread list \<Rightarrow> nat set" where
  "waiting G ths = {t. t < length ths \<and> lt_pc (ths ! t) = At_barrier G}"

definition life_inv :: "life_board \<Rightarrow> nat \<Rightarrow> int \<Rightarrow> life \<Rightarrow> bool" where
  "life_inv b n steps s \<longleftrightarrow>
     length (lf_threads s) = n \<and> lf_cycle s \<le> nat steps \<and>
     (\<forall>t < n. thread_ok b n steps (lf_cycle s) t (thread_at t s)) \<and>
     boards_ok b (lf_cycle s) (lf_threads s) (lf_boards s) \<and>
     lf_arrived s = card (waiting (lf_cycle s) (lf_threads s)) \<and> lf_arrived s < n"

lemma cur_ref_neq [simp]: "cur_ref (Suc G) \<noteq> cur_ref G" "cur_ref G \<noteq> cur_ref (Suc G)" "cur_ref (Suc (Suc G)) = cur_ref G"
  by (simp_all add: cur_ref_def)

lemma finite_waiting [simp]: "finite (waiting G ths)"
  by (simp add: waiting_def)

lemma waiting_update:
  "t < length ths \<Longrightarrow>
    waiting G (ths[t := th]) = (if lt_pc th = At_barrier G then insert t (waiting G ths) else waiting G ths - {t})"
  by (auto simp: waiting_def nth_list_update split: if_splits)

lemma life_inv_create:
  assumes "board_ok b" "dead_edge b" "0 < n"
  shows "life_inv b n steps (create_threads (int n) b steps)"
  using assms
  by (auto simp: life_inv_def create_threads_def thread_data_def thread_ok_def boards_ok_def waiting_def
      cell_done_def cur_ref_def dead_edge_def next_value_def Let_def)

text \<open>A thread moves and computes no cell.\<close>

lemma boards_ok_update:
  assumes "boards_ok b G ths bs" "t < length ths" "\<And>j. cell_done G th j \<Longrightarrow> cell_done G (ths ! t) j"
  shows "boards_ok b G (ths[t := th]) bs"
proof -
  have "\<exists>x \<in> set ths. cell_done G x j" if x: "\<exists>x \<in> set (ths[t := th]). cell_done G x j" for j
  proof -
    obtain x where x: "x = th \<or> x \<in> set ths" "cell_done G x j"
      using x set_update_subset_insert [of ths t th] by blast
    then show ?thesis using assms(2) assms(3) [of j] nth_mem [OF assms(2)] by blast
  qed
  then show ?thesis using assms(1) unfolding boards_ok_def by blast
qed

lemma thread_ok_update:
  "\<forall>u < n. thread_ok b n steps G u (ths ! u) \<Longrightarrow> thread_ok b n steps G t th \<Longrightarrow> length ths = n \<Longrightarrow>
    \<forall>u < n. thread_ok b n steps G u (ths[t := th] ! u)"
  by (metis nth_list_update nth_list_update_neq)

lemma inv_set_thread:
  assumes "life_inv b n steps s" "t < n" "thread_ok b n steps (lf_cycle s) t th"
    "\<And>j. cell_done (lf_cycle s) th j \<Longrightarrow> cell_done (lf_cycle s) (thread_at t s) j"
    "lt_pc th \<noteq> At_barrier (lf_cycle s)" "lt_pc (thread_at t s) \<noteq> At_barrier (lf_cycle s)"
  shows "life_inv b n steps (set_thread t th s)"
proof -
  have "waiting (lf_cycle s) (lf_threads s) - {t} = waiting (lf_cycle s) (lf_threads s)"
    using assms(6) by (auto simp: waiting_def)
  then show ?thesis
    using assms boards_ok_update thread_ok_update
    by (simp add: life_inv_def set_thread_def waiting_update)
qed

text \<open>A thread computes one cell.\<close>

lemma process_cell_nth:
  assumes "board_ok st" "same_dims nx st" "0 \<le> c" "c < bd_width st * bd_height st"
  shows "same_dims (process_cell st c nx) st \<and>
    (\<forall>j < length (bd_cells st). bd_cells (process_cell st c nx) ! j =
       (if j = nat c \<and> inner_index st j then next_value st j else bd_cells nx ! j))"
proof -
  have d: "bd_width nx = bd_width st" "length (bd_cells nx) = length (bd_cells st)"
    using assms(2) by (simp_all add: same_dims_def)
  have w: "0 < bd_width st" using assms(1) by (simp add: board_ok_def)
  have "bd_index nx (c mod bd_width st) (c div bd_width st) = nat c"
    by (simp add: bd_index_def d)
  then show ?thesis using assms(2,3)
    by (auto simp: process_cell_def Let_def set_at_def next_value_def inner_index_def nth_list_update d same_dims_def)
qed

lemma inv_cell:
  fixes s t
  defines "th \<equiv> thread_at t s"
  assumes inv: "life_inv b n steps s" and b: "board_ok b" and t: "t < n"
    and pc: "lt_pc th = Cell_loop" "lt_cell th \<le> lt_end th"
  shows "life_inv b n steps (set_thread t (th\<lparr>lt_cell := lt_cell th + 1\<rparr>)
    (s\<lparr>lf_boards := (lf_boards s)(lt_next th :=
       process_cell (lf_boards s (lt_state th)) (lt_cell th) (lf_boards s (lt_next th)))\<rparr>))"
proof -
  let ?G = "lf_cycle s" and ?c = "lt_cell th" and ?N = "bd_width b * bd_height b" and ?ths = "lf_threads s"
  let ?th = "th\<lparr>lt_cell := lt_cell th + 1\<rparr>" and ?nx = "lf_boards s (cur_ref (Suc ?G))"
  have T: "thread_ok b n steps ?G t th" and B: "boards_ok b ?G ?ths (lf_boards s)" and l: "length ?ths = n"
    using inv t by (auto simp: life_inv_def th_def)
  have r: "lt_state th = cur_ref ?G" "lt_next th = cur_ref (Suc ?G)" and s: "lf_boards s (cur_ref ?G) = life_gen b ?G"
    using T B pc by (simp_all add: thread_ok_def boards_ok_def)
  have N: "0 \<le> ?N" using b by (simp add: board_ok_def)
  have c: "0 \<le> ?c" "?c < ?N" "lt_start th \<le> ?c"
    using T pc t range_bounds [OF N, of n t] by (auto simp: thread_ok_def)
  note P = process_cell_nth [of "life_gen b ?G" ?nx ?c]
  have d: "same_dims ?nx (life_gen b ?G)" "board_ok (life_gen b ?G)" "inner_index (life_gen b ?G) = inner_index b"
    "bd_width (life_gen b ?G) = bd_width b" "bd_height (life_gen b ?G) = bd_height b"
    using B b same_dims_life_gen [of b ?G b] board_ok_dims [of "life_gen b ?G" b] inner_index_dims [of "life_gen b ?G" b]
    by (auto simp: boards_ok_def same_dims_def)
  have "boards_ok b ?G (?ths[t := ?th]) ((lf_boards s)(cur_ref (Suc ?G) := process_cell (life_gen b ?G) ?c ?nx))"
    unfolding boards_ok_def
  proof (intro conjI allI impI)
    fix j assume j: "j < length (bd_cells b)" and D: "\<not> inner_index b j \<or> (\<exists>x \<in> set (?ths[t := ?th]). cell_done ?G x j)"
    have "j = nat ?c \<or> (\<exists>x \<in> set ?ths. cell_done ?G x j)" if "x \<in> set (?ths[t := ?th])" "cell_done ?G x j" for x
    proof (cases "x = ?th")
      case True
      then have "j = nat ?c \<or> cell_done ?G th j" using that(2) pc c(1) by (auto simp: cell_done_def)
      then show ?thesis using t l by (auto simp: th_def)
    qed (use that set_update_subset_insert [of ?ths t ?th] in blast)
    then show "bd_cells (((lf_boards s)(cur_ref (Suc ?G) := process_cell (life_gen b ?G) ?c ?nx)) (cur_ref (Suc ?G))) ! j
        = next_value (life_gen b ?G) j"
      using D P d c j B by (auto simp: boards_ok_def)
  qed (use P d c B in \<open>auto simp: boards_ok_def same_dims_def\<close>)
  moreover have "thread_ok b n steps ?G t ?th" using T pc by (auto simp: thread_ok_def)
  moreover have "waiting ?G ?ths - {t} = waiting ?G ?ths" using pc by (auto simp: waiting_def th_def)
  ultimately show ?thesis
    using inv t l thread_ok_update pc by (simp add: life_inv_def set_thread_def waiting_update r s)
qed

text \<open>A thread arrives at the barrier; the last arrival starts the next generation.\<close>

lemma inv_arrive:
  fixes s t
  defines "th \<equiv> thread_at t s"
  assumes inv: "life_inv b n steps s" and b: "board_ok b" "dead_edge b" and t: "t < n"
    and pc: "lt_pc th = Cell_loop" "\<not> lt_cell th \<le> lt_end th"
  shows "life_inv b n steps (barrier_arrive (set_thread t (th\<lparr>lt_pc := At_barrier (lf_cycle s)\<rparr>) s))"
proof -
  let ?G = "lf_cycle s" and ?N = "bd_width b * bd_height b"
  let ?ths = "(lf_threads s)[t := th\<lparr>lt_pc := At_barrier (lf_cycle s)\<rparr>]"
  have T: "thread_ok b n steps ?G t th" and B: "boards_ok b ?G (lf_threads s) (lf_boards s)" and l: "length ?ths = n"
    using inv t by (auto simp: life_inv_def th_def)
  have Ts: "\<forall>u < n. thread_ok b n steps ?G u (?ths ! u)"
    using thread_ok_update [of n b steps ?G "lf_threads s" t] inv T pc l by (auto simp: life_inv_def thread_ok_def)
  have Bs: "boards_ok b ?G ?ths (lf_boards s)"
  proof (rule boards_ok_update [OF B])
    show "t < length (lf_threads s)" using t l by simp
    show "cell_done ?G (th\<lparr>lt_pc := At_barrier ?G\<rparr>) j \<Longrightarrow> cell_done ?G (lf_threads s ! t) j" for j
      using T pc unfolding th_def [symmetric] by (auto simp: cell_done_def thread_ok_def)
  qed
  have "t \<notin> waiting ?G (lf_threads s)" using pc by (simp add: waiting_def th_def)
  then have W: "card (waiting ?G ?ths) = lf_arrived s + 1" using inv t l by (simp add: waiting_update life_inv_def)
  have G: "?G < nat steps" using T pc by (auto simp: thread_ok_def)
  show ?thesis
  proof (cases "lf_arrived s + 1 = n")
    case False
    then show ?thesis using inv Ts Bs W l by (auto simp: barrier_arrive_def set_thread_def life_inv_def)
  next
    case True
    have "waiting ?G ?ths \<subseteq> {..<n}" using l by (auto simp: waiting_def)
    then have "waiting ?G ?ths = {..<n}" using W True by (intro card_subset_eq) auto
    then have A: "lt_pc (?ths ! u) = At_barrier ?G" if "u < n" for u using that by (auto simp: waiting_def)
    have Ts': "\<forall>u < n. thread_ok b n steps (Suc ?G) u (?ths ! u)"
      using Ts A by (auto simp: thread_ok_def)
    have no: "\<not> cell_done (Suc ?G) x j" if "x \<in> set ?ths" for x j
      using A that l by (auto simp: cell_done_def in_set_conv_nth)
    have full: "\<exists>x \<in> set ?ths. cell_done ?G x j" if "j < length (bd_cells b)" for j
    proof -
      have J: "int j < ?N" using that b(1) by (simp add: board_ok_def)
      obtain u where u: "u < n" "start_cell ?N (int n) u \<le> int j" "int j \<le> end_cell ?N (int n) u"
        using range_cover [of n "int j" ?N] J t by auto
      then have "cell_done ?G (?ths ! u) j" using Ts A [OF u(1)] by (auto simp: cell_done_def thread_ok_def)
      then show ?thesis using u(1) l by (metis nth_mem)
    qed
    have "lf_boards s (cur_ref (Suc ?G)) = life_gen b (Suc ?G)"
      using Bs full by (intro board_eqI) (auto simp: boards_ok_def life_gen_Suc life_next_nth same_dims_def)
    moreover have "inner_index (life_gen b ?G) = inner_index b" for G
      using inner_index_dims [of "life_gen b ?G" b] by auto
    ultimately have "boards_ok b (Suc ?G) ?ths (lf_boards s)"
      using Bs no dead_edge_gen [OF b(2), of ?G] by (auto simp: boards_ok_def dead_edge_def next_value_def life_gen_Suc)
    moreover have "waiting (Suc ?G) ?ths = {}" using A l by (auto simp: waiting_def)
    ultimately show ?thesis
      using True Ts' l G t by (auto simp: barrier_arrive_def set_thread_def life_inv_def)
  qed
qed

lemma life_inv_step:
  assumes "life_inv b n steps s" "board_ok b" "dead_edge b" "t < n" "thread_simulate_life t s = Some s'"
  shows "life_inv b n steps s'"
proof -
  let ?th = "thread_at t s"
  have T: "thread_ok b n steps (lf_cycle s) t ?th" and g: "lf_cycle s \<le> nat steps"
    using assms(1,4) by (auto simp: life_inv_def)
  show ?thesis
  proof (cases "lt_pc ?th")
    case Step_loop
    let ?C = "?th\<lparr>lt_pc := Cell_loop, lt_cell := lt_start ?th\<rparr>" and ?R = "?th\<lparr>lt_pc := Returned\<rparr>"
    have "0 \<le> bd_width b * bd_height b" using assms(2) by (simp add: board_ok_def)
    then have C: "lt_i ?th < lt_steps ?th \<Longrightarrow> thread_ok b n steps (lf_cycle s) t ?C"
      using T Step_loop assms(4) range_bounds [of "bd_width b * bd_height b" n t] by (auto simp: thread_ok_def)
    have R: "\<not> lt_i ?th < lt_steps ?th \<Longrightarrow> thread_ok b n steps (lf_cycle s) t ?R"
      using T Step_loop by (auto simp: thread_ok_def)
    have "s' = set_thread t (if lt_i ?th < lt_steps ?th then ?C else ?R) s"
      using assms(5) Step_loop by (auto simp: thread_simulate_life_def Let_def split: if_splits)
    then show ?thesis
      using C R Step_loop by (auto simp: cell_done_def intro!: inv_set_thread [OF assms(1,4)])
  next
    case Cell_loop
    then show ?thesis
      using assms(5) inv_cell [OF assms(1,2,4)] inv_arrive [OF assms(1-4)]
      by (auto simp: thread_simulate_life_def Let_def split: if_splits)
  next
    case (At_barrier g)
    let ?S = "?th\<lparr>lt_state := lt_next ?th, lt_next := lt_state ?th, lt_i := lt_i ?th + 1, lt_pc := Step_loop\<rparr>"
    have ne: "lf_cycle s \<noteq> g" and s': "s' = set_thread t ?S s"
      using assms(5) At_barrier by (auto simp: thread_simulate_life_def Let_def split: if_splits)
    moreover have "lf_cycle s = Suc g" using T At_barrier ne by (auto simp: thread_ok_def)
    ultimately have "thread_ok b n steps (lf_cycle s) t ?S"
      using T At_barrier by (auto simp: thread_ok_def)
    then show ?thesis
      using ne At_barrier unfolding s' by (intro inv_set_thread [OF assms(1,4)]) (auto simp: cell_done_def)
  qed (use assms(5) in \<open>simp add: thread_simulate_life_def\<close>)
qed

lemma length_barrier_arrive [simp]: "lf_threads (barrier_arrive s) = lf_threads s"
  by (simp add: barrier_arrive_def)

lemma life_inv_run:
  assumes "life_inv b n steps s" "board_ok b" "dead_edge b"
  shows "life_inv b n steps (run_threads ts s)"
  using assms(1)
proof (induction ts arbitrary: s)
  case (Cons t ts)
  show ?case
  proof (cases "t < length (lf_threads s)")
    case True
    then have "t < n" using Cons.prems by (simp add: life_inv_def)
    then have "life_inv b n steps s'" if "thread_simulate_life t s = Some s'" for s'
      using life_inv_step [OF Cons.prems assms(2,3)] that by blast
    then show ?thesis using True Cons.IH Cons.prems by (cases "thread_simulate_life t s") simp_all
  qed (simp add: Cons.IH Cons.prems)
qed simp

lemma run_threads_append: "run_threads (ts @ us) s = run_threads us (run_threads ts s)"
  by (induction ts arbitrary: s) auto

section \<open>Accesses\<close>

lemma in_body_facts:
  assumes "life_inv b n steps s" "board_ok b" "t < n" "in_body (thread_at t s)"
  shows "lt_state (thread_at t s) = cur_ref (lf_cycle s)" "lt_next (thread_at t s) = cur_ref (Suc (lf_cycle s))"
    "same_dims (lf_boards s (cur_ref (lf_cycle s))) b" "same_dims (lf_boards s (cur_ref (Suc (lf_cycle s)))) b"
    "0 \<le> lt_cell (thread_at t s)" "lt_cell (thread_at t s) < bd_width b * bd_height b"
    "start_cell (bd_width b * bd_height b) (int n) t \<le> lt_cell (thread_at t s)"
    "lt_cell (thread_at t s) \<le> end_cell (bd_width b * bd_height b) (int n) t"
proof -
  have "0 \<le> bd_width b * bd_height b" using assms(2) by (simp add: board_ok_def)
  then show "lt_state (thread_at t s) = cur_ref (lf_cycle s)" "lt_next (thread_at t s) = cur_ref (Suc (lf_cycle s))"
    "same_dims (lf_boards s (cur_ref (lf_cycle s))) b" "same_dims (lf_boards s (cur_ref (Suc (lf_cycle s)))) b"
    "0 \<le> lt_cell (thread_at t s)" "lt_cell (thread_at t s) < bd_width b * bd_height b"
    "start_cell (bd_width b * bd_height b) (int n) t \<le> lt_cell (thread_at t s)"
    "lt_cell (thread_at t s) \<le> end_cell (bd_width b * bd_height b) (int n) t"
    using assms range_bounds [of "bd_width b * bd_height b" n t]
    by (auto simp: life_inv_def boards_ok_def in_body_def thread_ok_def)
qed

lemma bd_index_dims: "same_dims a b \<Longrightarrow> bd_index a = bd_index b"
  by (simp add: fun_eq_iff bd_index_def same_dims_def)

lemma race_free_inv:
  assumes inv: "life_inv b n steps s" and b: "board_ok b"
  shows "race_free s"
  unfolding race_free_def
proof (intro allI impI)
  fix t u assume tu: "t < length (lf_threads s)" "u < length (lf_threads s)" "t \<noteq> u"
  have l: "length (lf_threads s) = n" using inv by (simp add: life_inv_def)
  let ?N = "bd_width b * bd_height b"
  show "cell_writes s t \<inter> (cell_reads s u \<union> cell_writes s u) = {}"
  proof (cases "in_body (thread_at t s) \<and> in_body (thread_at u s)")
    case True
    note T = in_body_facts [OF inv b] 
    have d: "bd_width (lf_boards s (cur_ref (lf_cycle s))) = bd_width b"
      "bd_index (lf_boards s (cur_ref (Suc (lf_cycle s)))) = bd_index b"
      using T(3) [of t] bd_index_dims [OF T(4) [of t]] True tu l by (simp_all add: same_dims_def)
    have i: "bd_index b (c mod bd_width b) (c div bd_width b) = nat c" for c by (simp add: bd_index_def)
    have "0 \<le> ?N" using b by (simp add: board_ok_def)
    then have "lt_cell (thread_at t s) \<noteq> lt_cell (thread_at u s)"
      using range_disjoint [of ?N "int n" t u "lt_cell (thread_at t s)"] T(7,8) [of t] T(7,8) [of u] True tu l by auto
    then have "nat (lt_cell (thread_at t s)) \<noteq> nat (lt_cell (thread_at u s))"
      using T(5) [of t] T(5) [of u] True tu l by auto
    then show ?thesis
      using T(1,2) [of t] T(1,2) [of u] True tu l
      by (auto simp: cell_writes_def cell_reads_def Let_def d i split: if_splits)
  qed (auto simp: cell_writes_def cell_reads_def Let_def)
qed

lemma in_bounds_inv:
  assumes inv: "life_inv b n steps s" and b: "board_ok b"
  shows "in_bounds s"
  unfolding in_bounds_def
proof (intro allI impI ballI, clarify)
  fix t r j assume t: "t < length (lf_threads s)" and m: "(r, j) \<in> cell_reads s t \<union> cell_writes s t"
  let ?c = "lt_cell (thread_at t s)"
  let ?x = "?c mod bd_width b" and ?y = "?c div bd_width b"
  have B: "in_body (thread_at t s)" using m by (auto simp: cell_reads_def cell_writes_def Let_def split: if_splits)
  have "t < n" using t inv by (simp add: life_inv_def)
  note T = in_body_facts [OF inv b this B]
  let ?s = "lf_boards s (cur_ref (lf_cycle s))" and ?n = "lf_boards s (cur_ref (Suc (lf_cycle s)))"
  have d: "bd_width ?s = bd_width b" "bd_height ?s = bd_height b" "length (bd_cells ?s) = length (bd_cells b)"
    "length (bd_cells ?n) = length (bd_cells b)" "bd_index ?s = bd_index b" "bd_index ?n = bd_index b"
    using T(3,4) bd_index_dims [OF T(3)] bd_index_dims [OF T(4)] by (simp_all add: same_dims_def)
  have c: "?c = int (nat ?c)" "nat ?c < length (bd_cells b)" using T(5,6) b by (auto simp: board_ok_def)
  have xy: "0 \<le> ?x" "?x < bd_width b" "0 \<le> ?y" "?y < bd_height b"
    using index_coords [OF b c(2)] c(1) by auto
  have "inner_cell b ?x ?y" using m B by (auto simp: cell_reads_def cell_writes_def Let_def T d inner_cell_def split: if_splits)
  then have "bd_index b (?x + dx) (?y + dy) < length (bd_cells b)" if "dx \<in> {-1..1}" "dy \<in> {-1..1}" for dx dy
    using xy that by (intro bd_index_less [OF b]) (auto simp: inner_cell_def)
  moreover have "bd_index b ?x ?y < length (bd_cells b)" using xy by (intro bd_index_less [OF b]) auto
  ultimately show "j < length (bd_cells (lf_boards s r))"
    using m by (auto simp: cell_reads_def cell_writes_def Let_def T(1,2) d split: if_splits)
qed

section \<open>Progress and termination\<close>

lemma some_thread_moves:
  assumes inv: "life_inv b n steps s" and "\<not> all_returned s"
  shows "\<exists>t < n. thread_simulate_life t s \<noteq> None"
proof (rule ccontr)
  assume C: "\<not> (\<exists>t < n. thread_simulate_life t s \<noteq> None)"
  have stuck: "lt_pc (thread_at t s) = At_barrier (lf_cycle s) \<or> lt_pc (thread_at t s) = Returned" if "t < n" for t
    using C that by (cases "lt_pc (thread_at t s)") (auto simp: thread_simulate_life_def Let_def split: if_splits)
  have ok: "thread_ok b n steps (lf_cycle s) t (thread_at t s)" if "t < n" for t
    using inv that by (simp add: life_inv_def)
  have l: "length (lf_threads s) = n" using inv by (simp add: life_inv_def)
  have "waiting (lf_cycle s) (lf_threads s) \<noteq> {..<n}" using inv by (auto simp: life_inv_def)
  then obtain t where t: "t < n" "lt_pc (thread_at t s) \<noteq> At_barrier (lf_cycle s)" by (auto simp: waiting_def l)
  then have "steps \<le> int (lf_cycle s)" using stuck [OF t(1)] ok [OF t(1)] by (auto simp: thread_ok_def)
  then have "lt_pc (thread_at u s) = Returned" if "u < n" for u
    using stuck [OF that] ok [OF that] by (auto simp: thread_ok_def)
  then show False using assms(2) l by (auto simp: all_returned_def in_set_conv_nth)
qed

text \<open>The turns a thread has left, for a board of \<open>N\<close> cells.\<close>

definition turns_left :: "nat \<Rightarrow> life_thread \<Rightarrow> nat" where
  "turns_left N th =
     (let rounds = nat (lt_steps th - lt_i th); k = N + 5 in
      case lt_pc th of
        Step_loop \<Rightarrow> rounds * k + 1
      | Cell_loop \<Rightarrow> rounds * k - nat (lt_cell th - lt_start th)
      | At_barrier g \<Rightarrow> (rounds - 1) * k + 2
      | Returned \<Rightarrow> 0)"

definition life_left :: "nat \<Rightarrow> life \<Rightarrow> nat" where
  "life_left N s = sum_list (map (turns_left N) (lf_threads s))"

lemma sum_list_update_less:
  "t < length xs \<Longrightarrow> f y < f (xs ! t) \<Longrightarrow> sum_list (map f (xs[t := y])) < (sum_list (map f xs) :: nat)"
proof (induction xs arbitrary: t)
  case (Cons a xs)
  then show ?case by (cases t) (auto simp: less_Suc_eq)
qed simp

lemma turns_cell:
  fixes r N d :: nat
  assumes "0 < r" "d \<le> N"
  shows "(r - 1) * (N + 5) + 2 < r * (N + 5) - d" "r * (N + 5) - Suc d < r * (N + 5) - d"
  using assms by (cases r; auto)+

lemma thread_turn:
  assumes "thread_simulate_life t s = Some s'"
  obtains th where "lf_threads s' = (lf_threads s)[t := th]"
    "lt_steps th = lt_steps (thread_at t s)" "lt_start th = lt_start (thread_at t s)"
    "case lt_pc (thread_at t s) of
       Step_loop \<Rightarrow> lt_i th = lt_i (thread_at t s) \<and>
         (lt_i th < lt_steps th \<and> lt_pc th = Cell_loop \<and> lt_cell th = lt_start th \<or> lt_pc th = Returned)
     | Cell_loop \<Rightarrow> lt_i th = lt_i (thread_at t s) \<and>
         (lt_pc th = Cell_loop \<and> lt_cell (thread_at t s) \<le> lt_end (thread_at t s) \<and> lt_cell th = lt_cell (thread_at t s) + 1
          \<or> (\<exists>g. lt_pc th = At_barrier g))
     | At_barrier g \<Rightarrow> lt_i th = lt_i (thread_at t s) + 1 \<and> lt_pc th = Step_loop
     | Returned \<Rightarrow> False"
proof -
  have *: "lf_threads (set_thread t th s) = (lf_threads s)[t := th]" for th s by (simp add: set_thread_def)
  show thesis
    using assms that
    by (cases "lt_pc (thread_at t s)") (auto simp: thread_simulate_life_def Let_def * split: if_splits)
qed

lemma life_left_step:
  assumes inv: "life_inv b n steps s" and b: "board_ok b" and t: "t < n" and st: "thread_simulate_life t s = Some s'"
  shows "life_left (length (bd_cells b)) s' < life_left (length (bd_cells b)) s"
proof -
  let ?N = "length (bd_cells b)" and ?th = "thread_at t s"
  obtain th where th: "lf_threads s' = (lf_threads s)[t := th]" "lt_steps th = lt_steps ?th" "lt_start th = lt_start ?th"
    and C: "case lt_pc ?th of
       Step_loop \<Rightarrow> lt_i th = lt_i ?th \<and>
         (lt_i th < lt_steps th \<and> lt_pc th = Cell_loop \<and> lt_cell th = lt_start th \<or> lt_pc th = Returned)
     | Cell_loop \<Rightarrow> lt_i th = lt_i ?th \<and>
         (lt_pc th = Cell_loop \<and> lt_cell ?th \<le> lt_end ?th \<and> lt_cell th = lt_cell ?th + 1 \<or> (\<exists>g. lt_pc th = At_barrier g))
     | At_barrier g \<Rightarrow> lt_i th = lt_i ?th + 1 \<and> lt_pc th = Step_loop
     | Returned \<Rightarrow> False"
    using thread_turn [OF st] by metis
  have T: "thread_ok b n steps (lf_cycle s) t ?th" and l: "length (lf_threads s) = n"
    using inv t by (auto simp: life_inv_def)
  have N: "0 \<le> bd_width b * bd_height b" "int ?N = bd_width b * bd_height b" using b by (auto simp: board_ok_def)
  note R = range_bounds [OF N(1), of n t]
  have "turns_left ?N th < turns_left ?N ?th"
  proof (cases "lt_pc ?th")
    case Cell_loop
    let ?r = "nat (lt_steps ?th - lt_i ?th)" and ?d = "nat (lt_cell ?th - lt_start ?th)"
    have p: "0 < ?r" "?d \<le> ?N" "lt_start ?th \<le> lt_cell ?th" using T Cell_loop R t N(2) by (auto simp: thread_ok_def)
    then have "nat (lt_cell ?th + 1 - lt_start ?th) = Suc ?d" by linarith
    then show ?thesis using C Cell_loop th turns_cell [OF p(1,2)] by (auto simp: turns_left_def Let_def)
  next
    case (At_barrier g)
    then have "nat (lt_steps ?th - (lt_i ?th + 1)) = nat (lt_steps ?th - lt_i ?th) - 1" by linarith
    then show ?thesis using C At_barrier th by (auto simp: turns_left_def Let_def)
  qed (use C th in \<open>auto simp: turns_left_def Let_def\<close>)
  then show ?thesis using sum_list_update_less [of t "lf_threads s" "turns_left ?N" th] t l by (simp add: life_left_def th(1))
qed

lemma can_finish:
  assumes "life_inv b n steps s" "board_ok b" "dead_edge b"
  shows "\<exists>ts. all_returned (run_threads ts s)"
  using assms(1)
proof (induction "life_left (length (bd_cells b)) s" arbitrary: s rule: less_induct)
  case less
  show ?case
  proof (cases "all_returned s")
    case True
    then show ?thesis by (intro exI [of _ "[]"]) simp
  next
    case False
    then obtain t s' where t: "t < n" "thread_simulate_life t s = Some s'"
      using some_thread_moves [OF less.prems] by blast
    obtain ts where "all_returned (run_threads ts s')"
      using less.hyps [OF life_left_step [OF less.prems assms(2) t] life_inv_step [OF less.prems assms(2,3) t]] ..
    moreover have "t < length (lf_threads s)" using t less.prems by (simp add: life_inv_def)
    ultimately show ?thesis using t by (intro exI [of _ "t # ts"]) simp
  qed
qed

lemma returned_result:
  assumes inv: "life_inv b n steps s" and "0 < n" "all_returned s"
  shows "(if c_mod steps 2 = 1 then lf_boards s Next_board else lf_boards s State_board) = life_gen b (nat steps)"
proof -
  have "thread_ok b n steps (lf_cycle s) 0 (thread_at 0 s)" "lt_pc (thread_at 0 s) = Returned"
    using assms by (auto simp: life_inv_def all_returned_def)
  then have G: "lf_cycle s = nat steps" using inv by (auto simp: thread_ok_def life_inv_def)
  have "c_mod steps 2 = 1 \<longleftrightarrow> odd (nat steps)"
    by (cases "0 \<le> steps") (auto simp: c_mod_def even_nat_iff odd_iff_mod_2_eq_one)
  then have "(if c_mod steps 2 = 1 then Next_board else State_board) = cur_ref (nat steps)"
    by (simp add: cur_ref_def)
  moreover have "lf_boards s (cur_ref (nat steps)) = life_gen b (nat steps)"
    using inv by (simp add: life_inv_def boards_ok_def G)
  ultimately show ?thesis by (metis (full_types))
qed

text \<open>C17: The parallel simulation computes the board of the serial one, for every number of threads and
  every schedule: no two threads ever stand before conflicting accesses, no access is out of range, the
  threads never block each other for good, and when all have returned the result is the serial one.
  The border of the board is dead, as both versions mean it to be.\<close>

theorem parallel_life_is_serial:
  assumes "board_ok b" "dead_edge b" "0 < n"
  shows "race_free (run_threads sched (create_threads (int n) b steps)) \<and>
    in_bounds (run_threads sched (create_threads (int n) b steps)) \<and>
    simulate_life_parallel (int n) b steps sched \<in> {None, Some (simulate_life_serial b steps)} \<and>
    (\<exists>more. simulate_life_parallel (int n) b steps (sched @ more) = Some (simulate_life_serial b steps))"
proof -
  have inv: "life_inv b n steps (run_threads ts (create_threads (int n) b steps))" for ts
    using life_inv_run [OF life_inv_create [OF assms] assms(1,2)] .
  have res: "simulate_life_parallel (int n) b steps ts =
      (if all_returned (run_threads ts (create_threads (int n) b steps)) then Some (simulate_life_serial b steps) else None)" for ts
    using returned_result [OF inv [of ts] assms(3)] simulate_life_serial_gen [OF assms(1,2)]
    by (auto simp: simulate_life_parallel_def Let_def)
  obtain more where "all_returned (run_threads more (run_threads sched (create_threads (int n) b steps)))"
    using can_finish [OF inv [of sched] assms(1,2)] ..
  then have "simulate_life_parallel (int n) b steps (sched @ more) = Some (simulate_life_serial b steps)"
    by (simp add: res run_threads_append)
  then show ?thesis
    using race_free_inv [OF inv assms(1)] in_bounds_inv [OF inv assms(1)] res [of sched] by auto
qed

definition blinker :: life_board where
  "blinker = \<lparr>bd_width = 5, bd_height = 5, bd_cells = (replicate 25 0)[11 := 1, 12 := 1, 13 := 1]\<rparr>"

lemma blinker_turns: "bd_cells (simulate_life_serial blinker 1) = (replicate 25 0)[7 := 1, 12 := 1, 17 := 1]"
  by code_simp

lemma parallel_life_is_serial_witness:
  "\<exists>more b. simulate_life_parallel 3 blinker 1 ([0, 2, 1, 1] @ more) = Some b \<and>
     bd_cells b = (replicate 25 0)[7 := 1, 12 := 1, 17 := 1]"
proof -
  have "board_ok blinker" by (simp add: board_ok_def blinker_def)
  moreover have "dead_edge blinker" by code_simp
  ultimately show ?thesis
    using parallel_life_is_serial [of blinker 3 "[0, 2, 1, 1]" 1] blinker_turns by auto
qed

end
