(* ===== verification/Ide.thy ===== *)
theory Ide
  imports Bio
begin

text \<open>
  The driver of the IDE disk (\<open>ide.c\<close>).  Requests wait in a queue that is linked through the
  buffers; the process that made a request sleeps until the interrupt handler has served it.  All of
  this runs under \<open>idelock\<close>, which a sleeping process does not hold, so the steps are: \<open>iderw\<close> up to
  its first sleep, one turn of its loop after a wakeup, and \<open>ideintr\<close>.  The device is outside of the
  program: the model records what the driver writes to the ports, and the bytes that it reads from
  them (the status and the data) are inputs.
\<close>

section \<open>State\<close>

definition SECTOR_SIZE :: nat where "SECTOR_SIZE = 512"
definition IDE_BSY :: u8 where "IDE_BSY = 0x80"
definition IDE_DRDY :: u8 where "IDE_DRDY = 0x40"
definition IDE_DF :: u8 where "IDE_DF = 0x20"
definition IDE_ERR :: u8 where "IDE_ERR = 0x01"
definition IDE_CMD_READ :: u8 where "IDE_CMD_READ = 0x20"
definition IDE_CMD_WRITE :: u8 where "IDE_CMD_WRITE = 0x30"
definition IDE_CMD_RDMUL :: u8 where "IDE_CMD_RDMUL = 0xc4"
definition IDE_CMD_WRMUL :: u8 where "IDE_CMD_WRMUL = 0xc5"

record ide_buf = buf +
  b_qnext :: "nat option"

datatype port_out = Outb u16 u8 | Outsl u16 block

text \<open>Where a process is: not in \<open>iderw\<close>, asleep in it, or woken up and not yet running.\<close>

datatype ide_pc = Elsewhere | Asleep nat | Awake nat

record ide =
  id_bufs :: "ide_buf list"
  id_queue :: "nat option"
  id_havedisk1 :: bool
  id_out :: "port_out list"
  id_procs :: "ide_pc list"

abbreviation ibuf :: "nat \<Rightarrow> ide \<Rightarrow> ide_buf" where "ibuf b s \<equiv> id_bufs s ! b"

definition upd_ibuf :: "nat \<Rightarrow> (ide_buf \<Rightarrow> ide_buf) \<Rightarrow> ide \<Rightarrow> ide" where
  "upd_ibuf b f s = s\<lparr>id_bufs := (id_bufs s)[b := f (id_bufs s ! b)]\<rparr>"

section \<open>Commands\<close>

text \<open>\<open>idewait\<close> on the bytes it reads from the status port; \<open>None\<close>: it still spins.\<close>

fun idewait :: "bool \<Rightarrow> u8 list \<Rightarrow> int option" where
  "idewait checkerr [] = None"
| "idewait checkerr (r # rs) =
     (if r AND (IDE_BSY OR IDE_DRDY) \<noteq> IDE_DRDY then idewait checkerr rs
      else if checkerr \<and> r AND (IDE_DF OR IDE_ERR) \<noteq> 0 then Some (- 1)
      else Some 0)"

text \<open>\<open>ideinit\<close>: the probe reads the status port at most a thousand times.\<close>

definition ideinit :: "u8 list \<Rightarrow> u8 list \<Rightarrow> ide \<Rightarrow> ide res" where
  "ideinit status probes s =
     (case idewait False status of
        None \<Rightarrow> Inl Blocked
      | Some _ \<Rightarrow>
          Inr (s\<lparr>id_out := id_out s @ [Outb 0x1f6 (0xe0 OR push_bit 4 1), Outb 0x1f6 (0xe0 OR push_bit 4 0)],
                 id_havedisk1 := id_havedisk1 s \<or> (\<exists>r \<in> set (take 1000 probes). r \<noteq> 0)\<rparr>))"

definition ide_command :: "ide_buf \<Rightarrow> port_out list" where
  "ide_command x =
     (let sector_per_block = BSIZE div SECTOR_SIZE;
          sector = (of_nat (b_blockno x * sector_per_block) :: u32);
          read_cmd = (if sector_per_block = 1 then IDE_CMD_READ else IDE_CMD_RDMUL);
          write_cmd = (if sector_per_block = 1 then IDE_CMD_WRITE else IDE_CMD_WRMUL) in
      [Outb 0x3f6 0,
       Outb 0x1f2 (of_nat sector_per_block),
       Outb 0x1f3 (ucast (sector AND 0xff)),
       Outb 0x1f4 (ucast (drop_bit 8 sector AND 0xff)),
       Outb 0x1f5 (ucast (drop_bit 16 sector AND 0xff)),
       Outb 0x1f6 (0xe0 OR push_bit 4 (of_nat (b_dev x) AND 1) OR ucast (drop_bit 24 sector AND 0x0f))] @
      (if b_flags x AND B_DIRTY \<noteq> 0 then [Outb 0x1f7 write_cmd, Outsl 0x1f0 (b_data x)]
       else [Outb 0x1f7 read_cmd]))"

definition idestart :: "u8 list \<Rightarrow> nat option \<Rightarrow> ide \<Rightarrow> ide res" where
  "idestart status b s =
     (case b of
        None \<Rightarrow> Inl (Panic ''idestart'')
      | Some b \<Rightarrow>
          if b_blockno (ibuf b s) \<ge> FSSIZE then Inl (Panic ''incorrect blockno'')
          else if BSIZE div SECTOR_SIZE > 7 then Inl (Panic ''idestart'')
          else case idewait False status of
                 None \<Rightarrow> Inl Blocked
               | Some _ \<Rightarrow> Inr (s\<lparr>id_out := id_out s @ ide_command (ibuf b s)\<rparr>))"

section \<open>The interrupt handler\<close>

definition ide_wakeup :: "nat \<Rightarrow> ide \<Rightarrow> ide" where
  "ide_wakeup b s = s\<lparr>id_procs := map (\<lambda>pc. if pc = Asleep b then Awake b else pc) (id_procs s)\<rparr>"

definition ideintr :: "u8 list \<Rightarrow> block \<Rightarrow> u8 list \<Rightarrow> ide \<Rightarrow> ide res" where
  "ideintr status data status' s =
     (case id_queue s of
        None \<Rightarrow> Inr s
      | Some b \<Rightarrow>
          let s = s\<lparr>id_queue := b_qnext (ibuf b s)\<rparr> in
          bindR (if b_flags (ibuf b s) AND B_DIRTY = 0 then
                   case idewait True status of
                     None \<Rightarrow> Inl Blocked
                   | Some r \<Rightarrow> Inr (if r \<ge> 0 then upd_ibuf b (\<lambda>x. x\<lparr>b_data := data\<rparr>) s else s)
                 else Inr s)
            (\<lambda>s. let s = upd_ibuf b (\<lambda>x. x\<lparr>b_flags := b_flags x OR B_VALID\<rparr>) s;
                     s = upd_ibuf b (\<lambda>x. x\<lparr>b_flags := b_flags x AND NOT B_DIRTY\<rparr>) s;
                     s = ide_wakeup b s in
                 if id_queue s \<noteq> None then idestart status' (id_queue s) s else Inr s))"

section \<open>Requests\<close>

text \<open>The pointers the loop of \<open>iderw\<close> walks along: \<open>None\<close> is \<open>&idequeue\<close>, \<open>Some c\<close> is \<open>&c->qnext\<close>.\<close>

definition qlink :: "ide \<Rightarrow> nat option \<Rightarrow> nat option" where
  "qlink s pp = (case pp of None \<Rightarrow> id_queue s | Some c \<Rightarrow> b_qnext (ibuf c s))"

definition set_qlink :: "nat option \<Rightarrow> nat option \<Rightarrow> ide \<Rightarrow> ide" where
  "set_qlink pp v s =
     (case pp of None \<Rightarrow> s\<lparr>id_queue := v\<rparr> | Some c \<Rightarrow> upd_ibuf c (\<lambda>x. x\<lparr>b_qnext := v\<rparr>) s)"

partial_function (option) queue_end :: "ide \<Rightarrow> nat option \<Rightarrow> nat option option" where
  "queue_end s pp = (case qlink s pp of None \<Rightarrow> Some pp | Some c \<Rightarrow> queue_end s (Some c))"

definition set_pc :: "nat \<Rightarrow> ide_pc \<Rightarrow> ide \<Rightarrow> ide" where
  "set_pc p pc s = s\<lparr>id_procs := (id_procs s)[p := pc]\<rparr>"

text \<open>The test of the loop that waits: sleep or return.\<close>

definition iderw_wait :: "nat \<Rightarrow> nat \<Rightarrow> ide \<Rightarrow> ide" where
  "iderw_wait p b s =
     (if b_flags (ibuf b s) AND (B_VALID OR B_DIRTY) \<noteq> B_VALID then set_pc p (Asleep b) s
      else set_pc p Elsewhere s)"

text \<open>\<open>iderw\<close> up to there.  \<open>None\<close>: the walk to the end of the queue does not end.\<close>

definition iderw_call :: "u8 list \<Rightarrow> nat \<Rightarrow> nat \<Rightarrow> ide \<Rightarrow> ide res option" where
  "iderw_call status p b s =
     (let x = ibuf b s in
      if \<not> holdingsleep (int p) (b_lock x) then Some (Inl (Panic ''iderw: buf not locked''))
      else if b_flags x AND (B_VALID OR B_DIRTY) = B_VALID then Some (Inl (Panic ''iderw: nothing to do''))
      else if b_dev x \<noteq> 0 \<and> \<not> id_havedisk1 s then Some (Inl (Panic ''iderw: ide disk 1 not present''))
      else
        let s = upd_ibuf b (\<lambda>x. x\<lparr>b_qnext := None\<rparr>) s in
        case queue_end s None of
          None \<Rightarrow> None
        | Some pp \<Rightarrow>
            let s = set_qlink pp (Some b) s in
            Some (bindR (if id_queue s = Some b then idestart status (Some b) s else Inr s)
              (\<lambda>s. Inr (iderw_wait p b s))))"

section \<open>All processes and the device together\<close>

text \<open>
  The processes that are not in \<open>iderw\<close> with a buffer may change it in any way, except for its link in
  the queue; the sleep lock of a buffer belongs to the process that is in \<open>iderw\<close> with it.  The
  interrupts of this relation come without a disk error (see \<open>read_error_leaves_old_data\<close> for those).
\<close>

datatype ide_label = IdeTau | IdeCall nat nat | IdeServed nat ide_buf ide_buf | IdeReturn nat nat ide_buf

definition in_iderw :: "nat \<Rightarrow> ide \<Rightarrow> bool" where
  "in_iderw b s \<longleftrightarrow> (\<exists>pc \<in> set (id_procs s). pc = Asleep b \<or> pc = Awake b)"

inductive ide_step :: "(port_out list \<Rightarrow> block) \<Rightarrow> ide \<Rightarrow> ide_label \<Rightarrow> ide \<Rightarrow> bool" for answer where
  call: "p < length (id_procs s) \<Longrightarrow> id_procs s ! p = Elsewhere \<Longrightarrow> b < length (id_bufs s) \<Longrightarrow>
    iderw_call status p b s = Some (Inr s') \<Longrightarrow> ide_step answer s (IdeCall p b) s'"
| intr: "id_queue s = Some b \<Longrightarrow> idewait True status \<noteq> Some (- 1) \<Longrightarrow>
    ideintr status (answer (id_out s)) status' s = Inr s' \<Longrightarrow> ide_step answer s (IdeServed b (ibuf b s) (ibuf b s')) s'"
| spurious: "id_queue s = None \<Longrightarrow> ideintr status data status' s = Inr s' \<Longrightarrow> ide_step answer s IdeTau s'"
| resume: "p < length (id_procs s) \<Longrightarrow> id_procs s ! p = Awake b \<Longrightarrow>
    ide_step answer s
      (if b_flags (ibuf b s) AND (B_VALID OR B_DIRTY) = B_VALID then IdeReturn p b (ibuf b s) else IdeTau) (iderw_wait p b s)"
| other: "b < length (id_bufs s) \<Longrightarrow> \<not> in_iderw b s \<Longrightarrow> b_qnext x = b_qnext (ibuf b s) \<Longrightarrow>
    ide_step answer s IdeTau (upd_ibuf b (\<lambda>_. x) s)"

inductive ide_run :: "(port_out list \<Rightarrow> block) \<Rightarrow> ide \<Rightarrow> ide_label list \<Rightarrow> ide \<Rightarrow> bool" for answer s where
  ide_run_nil: "ide_run answer s [] s"
| ide_run_snoc: "ide_run answer s ls s' \<Longrightarrow> ide_step answer s' l s'' \<Longrightarrow> ide_run answer s (ls @ [l]) s''"

definition ide_start :: "ide \<Rightarrow> bool" where
  "ide_start s \<longleftrightarrow> id_queue s = None \<and> (\<forall>pc \<in> set (id_procs s). pc = Elsewhere)"

text \<open>
  What the driver relies on of the device: the ports \<open>0x1f3\<close> to \<open>0x1f6\<close> select the sector and the
  disk of the next command; the data after a write command goes to the selected sector; after a read
  command the data port delivers the selected sector.
\<close>

record ata =
  ata_regs :: "u16 \<Rightarrow> u8"
  ata_disk :: "nat \<times> nat \<Rightarrow> block"
  ata_cmd :: "(u8 \<times> nat \<times> nat) option"

definition ata_select :: "(u16 \<Rightarrow> u8) \<Rightarrow> nat \<times> nat" where
  "ata_select r = (unat (drop_bit 4 (r 0x1f6) AND 1),
     unat (r 0x1f3) + 256 * unat (r 0x1f4) + 65536 * unat (r 0x1f5) + 16777216 * unat (r 0x1f6 AND 0x0f))"

fun ata_step :: "port_out \<Rightarrow> ata \<Rightarrow> ata" where
  "ata_step (Outb p v) a =
     (if p = 0x1f7 then a\<lparr>ata_cmd := Some (v, ata_select (ata_regs a))\<rparr> else a\<lparr>ata_regs := (ata_regs a)(p := v)\<rparr>)"
| "ata_step (Outsl p data) a =
     (case ata_cmd a of
        Some (v, k) \<Rightarrow> if p = 0x1f0 \<and> v = IDE_CMD_WRITE then a\<lparr>ata_disk := (ata_disk a)(k := data)\<rparr> else a
      | None \<Rightarrow> a)"

definition ata_after :: "port_out list \<Rightarrow> (nat \<times> nat \<Rightarrow> block) \<Rightarrow> ata" where
  "ata_after outs d = fold ata_step outs \<lparr>ata_regs = (\<lambda>_. 0), ata_disk = d, ata_cmd = None\<rparr>"

definition device_ok :: "(port_out list \<Rightarrow> block) \<Rightarrow> (nat \<times> nat \<Rightarrow> block) \<Rightarrow> bool" where
  "device_ok answer d \<longleftrightarrow>
     (\<forall>outs k. ata_cmd (ata_after outs d) = Some (IDE_CMD_READ, k) \<longrightarrow> answer outs = ata_disk (ata_after outs d) k)"

section \<open>A memory disk that serves requests in order\<close>

definition ide_key :: "ide_buf \<Rightarrow> nat \<times> nat" where
  "ide_key x = (b_dev x mod 2, b_blockno x)"

definition sync_disk :: "ide_buf \<Rightarrow> (nat \<times> nat \<Rightarrow> block) \<Rightarrow> (nat \<times> nat \<Rightarrow> block)" where
  "sync_disk x d = (if b_flags x AND B_DIRTY \<noteq> 0 then d(ide_key x := b_data x) else d)"

definition sync_buf :: "ide_buf \<Rightarrow> (nat \<times> nat \<Rightarrow> block) \<Rightarrow> ide_buf" where
  "sync_buf x d =
     x\<lparr>b_data := (if b_flags x AND B_DIRTY \<noteq> 0 then b_data x else d (ide_key x)),
       b_flags := (b_flags x OR B_VALID) AND NOT B_DIRTY\<rparr>"

type_synonym mem_state = "(nat \<times> nat \<Rightarrow> block) \<times> (nat \<times> nat) list \<times> (nat \<times> nat \<times> ide_buf) list"

fun mem_do :: "ide_label \<Rightarrow> mem_state \<Rightarrow> mem_state option" where
  "mem_do IdeTau m = Some m"
| "mem_do (IdeCall p b) (d, q, r) = Some (d, q @ [(p, b)], r)"
| "mem_do (IdeServed b x y) (d, q, r) =
     (case q of
        [] \<Rightarrow> None
      | (p, c) # q' \<Rightarrow> if c = b \<and> y = sync_buf x d then Some (sync_disk x d, q', (p, b, y) # r) else None)"
| "mem_do (IdeReturn p b y) (d, q, r) =
     (if (p, b, y) \<in> set r then Some (d, q, removeAll (p, b, y) r) else None)"

fun mem_run :: "ide_label list \<Rightarrow> mem_state \<Rightarrow> mem_state option" where
  "mem_run [] m = Some m"
| "mem_run (l # ls) m = Option.bind (mem_do l m) (mem_run ls)"

lemma mem_run_snoc: "mem_run (ls @ [l]) m = Option.bind (mem_run ls m) (mem_do l)"
proof (induction ls arbitrary: m)
  case Nil
  show ?case by (cases "mem_do l m") simp_all
next
  case (Cons a ls)
  then show ?case by (cases "mem_do a m") simp_all
qed

text \<open>The service of a request is what \<open>iderw\<close> of the memory disk does to the buffer and the disk.\<close>

lemma bit_B_VALID: "bit B_VALID n \<longleftrightarrow> n = 1"
  using bit_exp_iff [where 'a = u32, of 1 n] by (auto simp: B_VALID_def)

lemma bit_B_DIRTY: "bit B_DIRTY n \<longleftrightarrow> n = 2"
  using bit_exp_iff [where 'a = u32, of 2 n] by (auto simp: B_DIRTY_def)

lemmas flag_bits = bit_and_iff bit_or_iff bit_not_iff bit_B_VALID bit_B_DIRTY

lemma b_data_flags: "(f OR B_VALID) AND NOT B_DIRTY = f AND NOT B_DIRTY OR B_VALID"
  by (rule bit_word_eqI) (auto simp: flag_bits)

lemma clean_flags: "f AND B_DIRTY = 0 \<Longrightarrow> f AND NOT B_DIRTY = f"
  by (rule bit_word_eqI) (metis bit_0_eq bot_apply bot_bool_def bit_and_iff bit_not_iff possible_bit_word)

lemma flags_done [simp]: "((f OR B_VALID) AND NOT B_DIRTY) AND (B_VALID OR B_DIRTY) = B_VALID"
  by (rule bit_word_eqI) (auto simp: flag_bits)

lemma memide_syncs:
  assumes "iderw pid b s = Inr s'" "b < length (bc_bufs s)" "buf_at b s = buf.truncate x"
    "\<And>n. d (1, n) = bc_memdisk s n"
  shows "buf_at b s' = buf.truncate (sync_buf x d)" "bc_memdisk s' n = sync_disk x d (1, n)"
  using assms
  by (auto simp: iderw_def Let_def upd_buf_def buf.truncate_def sync_buf_def sync_disk_def ide_key_def b_data_flags clean_flags
      split: if_splits)

section \<open>The words the driver writes\<close>

lemma unat_low_byte: "unat (ucast (w AND 0xff :: u32) :: u8) = unat w mod 256"
proof -
  have "(w AND 0xff) = take_bit 8 w" using take_bit_eq_mask [of 8 w] by (simp add: mask_eq_exp_minus_1)
  then have "ucast (w AND 0xff) = (ucast w :: u8)" by (intro bit_word_eqI) (auto simp: bit_unsigned_iff bit_take_bit_iff)
  then show ?thesis by (simp add: unsigned_ucast_eq take_bit_eq_mod)
qed

lemma unat_drop_bit_u32: "unat (drop_bit n w :: u32) = unat w div 2 ^ n"
proof -
  have "take_bit 32 (unat w) = unat w" using unsigned_less [of w] by (intro take_bit_nat_eq_self) simp
  then have "unat (drop_bit n w) = drop_bit n (unat w)" by (simp add: unsigned_drop_bit_eq)
  then show ?thesis by (simp add: drop_bit_eq_div)
qed

lemma bit_15_u32: "bit (15 :: u32) n \<longleftrightarrow> n < 4"
  using bit_mask_iff [where 'a = u32, of 4 n] by (auto simp: mask_eq_exp_minus_1)

lemma bit_15_u8: "bit (15 :: u8) n \<longleftrightarrow> n < 4"
  using bit_mask_iff [where 'a = u8, of 4 n] by (auto simp: mask_eq_exp_minus_1)

lemma bit_e0_u8: "bit (0xe0 :: u8) n \<Longrightarrow> 4 < n"
  using bit_push_bit_iff [where 'a = u8, of 5 7 n] by auto

lemmas port_bits = bit_and_iff bit_or_iff bit_drop_bit_eq bit_push_bit_iff bit_1_iff bit_unsigned_iff bit_15_u32 bit_15_u8

lemma drive_bit: "unat (drop_bit 4 (0xe0 OR push_bit 4 (of_nat dev AND 1) OR ucast (v AND 0x0f :: u32) :: u8) AND 1) = dev mod 2"
proof -
  have "drop_bit 4 (0xe0 OR push_bit 4 (of_nat dev AND 1) OR ucast (v AND 0x0f :: u32) :: u8) AND 1 = (of_nat dev :: u8) AND 1"
    by (rule bit_word_eqI) (auto simp: port_bits simp del: bit_numeral_word_iff dest: bit_e0_u8)
  also have "unat \<dots> = dev mod 2"
    by (simp add: and_one_eq unat_mod unsigned_of_nat take_bit_eq_mod mod_mod_cancel)
  finally show ?thesis .
qed

lemma high_nibble: "unat ((0xe0 OR push_bit 4 (w AND 1) OR ucast (v AND 0x0f :: u32) :: u8) AND 0x0f) = unat v mod 16"
proof -
  have "((0xe0 OR push_bit 4 (w AND 1) OR ucast (v AND 0x0f :: u32) :: u8) AND 0x0f) = ucast (take_bit 4 v)"
    by (rule bit_word_eqI) (auto simp: port_bits bit_take_bit_iff simp del: bit_numeral_word_iff dest: bit_e0_u8)
  then have "unat ((0xe0 OR push_bit 4 (w AND 1) OR ucast (v AND 0x0f :: u32) :: u8) AND 0x0f) = take_bit 4 (unat v)"
    by (simp add: unsigned_ucast_eq unsigned_take_bit_eq)
  then show ?thesis by (simp add: take_bit_eq_mod)
qed

lemma ata_after_command:
  assumes "b_blockno x < FSSIZE"
  shows "ata_disk (ata_after (outs @ ide_command x) d) = sync_disk x (ata_disk (ata_after outs d))"
    "b_flags x AND B_DIRTY = 0 \<Longrightarrow> ata_cmd (ata_after (outs @ ide_command x) d) = Some (IDE_CMD_READ, ide_key x)"
proof -
  let ?n = "b_blockno x" and ?w = "of_nat (b_blockno x) :: u32"
  have n: "?n < 2000" using assms by (simp add: FSSIZE_def)
  have w: "unat ?w = ?n" using n by (simp add: unsigned_of_nat take_bit_nat_eq_self)
  have "?n div 65536 = 0" "?n div 16777216 = 0" "?n div 256 mod 256 = ?n div 256" using n by auto
  then have "?n = ?n mod 256 + 256 * (?n div 256 mod 256) + 65536 * (?n div 65536 mod 256) + 16777216 * (?n div 16777216 mod 16)"
    by simp
  note sel = this [symmetric]
  define R where "R = (0xe0 OR push_bit 4 (of_nat (b_dev x) AND 1) OR ucast (drop_bit 24 ?w AND 0x0f) :: u8)"
  define B where "B k = (ucast (drop_bit k ?w AND 0xff) :: u8)" for k
  have R: "unat (drop_bit 4 R AND 1) = b_dev x mod 2" "unat (R AND 0x0f) = ?n div 16777216 mod 16"
    unfolding R_def drive_bit high_nibble unat_drop_bit_u32 w by simp_all
  have B: "unat (B k) = ?n div 2 ^ k mod 256" for k
    unfolding B_def unat_low_byte unat_drop_bit_u32 w ..
  have c: "ide_command x = [Outb 0x3f6 0, Outb 0x1f2 1, Outb 0x1f3 (B 0), Outb 0x1f4 (B 8), Outb 0x1f5 (B 16), Outb 0x1f6 R] @
      (if b_flags x AND B_DIRTY \<noteq> 0 then [Outb 0x1f7 IDE_CMD_WRITE, Outsl 0x1f0 (b_data x)] else [Outb 0x1f7 IDE_CMD_READ])"
    unfolding ide_command_def Let_def BSIZE_def SECTOR_SIZE_def B_def R_def by simp
  show "ata_disk (ata_after (outs @ ide_command x) d) = sync_disk x (ata_disk (ata_after outs d))"
    "b_flags x AND B_DIRTY = 0 \<Longrightarrow> ata_cmd (ata_after (outs @ ide_command x) d) = Some (IDE_CMD_READ, ide_key x)"
    unfolding c by (simp_all add: ata_after_def sync_disk_def ide_key_def ata_select_def R B sel)
qed

section \<open>The queue\<close>

fun queued :: "ide_buf list \<Rightarrow> nat option \<Rightarrow> nat list \<Rightarrow> bool" where
  "queued bufs h [] \<longleftrightarrow> h = None"
| "queued bufs h (b # bs) \<longleftrightarrow> h = Some b \<and> b < length bufs \<and> queued bufs (b_qnext (bufs ! b)) bs"

lemma queued_cong:
  assumes "queued bufs h bs" "length bufs' = length bufs" "\<And>b. b \<in> set bs \<Longrightarrow> b_qnext (bufs' ! b) = b_qnext (bufs ! b)"
  shows "queued bufs' h bs"
  using assms(1,3) by (induction bs arbitrary: h) (auto simp: assms(2))

lemma queue_end_queued:
  "queued (id_bufs s) (qlink s pp) bs \<Longrightarrow> queue_end s pp = Some (if bs = [] then pp else Some (last bs))"
proof (induction bs arbitrary: pp)
  case Nil
  then show ?case by (subst queue_end.simps) simp
next
  case (Cons b bs)
  then have "queued (id_bufs s) (qlink s (Some b)) bs" and q: "qlink s pp = Some b" by (auto simp: qlink_def)
  then have "queue_end s (Some b) = Some (if bs = [] then Some b else Some (last bs))" by (rule_tac Cons.IH)
  then show ?case by (subst queue_end.simps) (simp add: q)
qed

lemma queued_snoc:
  assumes "queued bufs h (bs @ [c])" "b < length bufs" "b \<notin> set (bs @ [c])" "distinct (bs @ [c])"
    "b_qnext (bufs ! b) = None"
  shows "queued (bufs[c := (bufs ! c)\<lparr>b_qnext := Some b\<rparr>]) h (bs @ [c, b])"
  using assms
proof (induction bs arbitrary: h)
  case (Cons a bs)
  then show ?case by (auto simp: nth_list_update)
qed (auto simp: nth_list_update)

text \<open>The append of \<open>iderw\<close>: a buffer that is not queued goes to the end.\<close>

definition enqueue :: "nat \<Rightarrow> ide \<Rightarrow> ide option" where
  "enqueue b s =
     (let s = upd_ibuf b (\<lambda>x. x\<lparr>b_qnext := None\<rparr>) s in
      map_option (\<lambda>pp. set_qlink pp (Some b) s) (queue_end s None))"

lemma iderw_call_eq:
  "iderw_call status p b s =
     (let x = ibuf b s in
      if \<not> holdingsleep (int p) (b_lock x) then Some (Inl (Panic ''iderw: buf not locked''))
      else if b_flags x AND (B_VALID OR B_DIRTY) = B_VALID then Some (Inl (Panic ''iderw: nothing to do''))
      else if b_dev x \<noteq> 0 \<and> \<not> id_havedisk1 s then Some (Inl (Panic ''iderw: ide disk 1 not present''))
      else map_option (\<lambda>s. bindR (if id_queue s = Some b then idestart status (Some b) s else Inr s)
              (\<lambda>s. Inr (iderw_wait p b s))) (enqueue b s))"
  by (cases "queue_end (upd_ibuf b (\<lambda>x. x\<lparr>b_qnext := None\<rparr>) s) None")
    (simp_all add: iderw_call_def enqueue_def Let_def)

lemma enqueue_queued:
  assumes "queued (id_bufs s) (id_queue s) bs" "distinct bs" "b \<notin> set bs" "b < length (id_bufs s)"
  obtains s' where "enqueue b s = Some s'" "queued (id_bufs s') (id_queue s') (bs @ [b])"
    "id_procs s' = id_procs s" "id_out s' = id_out s" "length (id_bufs s') = length (id_bufs s)"
    "id_queue s' = (if bs = [] then Some b else id_queue s)"
    "\<And>c. c < length (id_bufs s) \<Longrightarrow> \<exists>v. ibuf c s' = (ibuf c s)\<lparr>b_qnext := v\<rparr>"
    "\<And>c. c \<notin> set (b # bs) \<Longrightarrow> ibuf c s' = ibuf c s"
proof -
  let ?s = "upd_ibuf b (\<lambda>x. x\<lparr>b_qnext := None\<rparr>) s"
  have q: "queued (id_bufs ?s) (id_queue s) bs"
  proof (rule queued_cong [OF assms(1)])
    show "b_qnext (ibuf c ?s) = b_qnext (ibuf c s)" if "c \<in> set bs" for c
      using that assms(3) by (cases "c = b") (auto simp: upd_ibuf_def)
  qed (simp add: upd_ibuf_def)
  then have e: "queue_end ?s None = Some (if bs = [] then None else Some (last bs))"
    by (intro queue_end_queued) (simp add: qlink_def upd_ibuf_def)
  have same: "\<exists>v. x = x\<lparr>b_qnext := v\<rparr>" for x :: ide_buf by (rule exI [of _ "b_qnext x"]) simp
  show thesis
  proof (cases bs rule: rev_cases)
    case Nil
    show thesis
      by (rule that [of "set_qlink None (Some b) ?s"])
        (use e Nil assms(4) same in \<open>auto simp: enqueue_def set_qlink_def upd_ibuf_def nth_list_update\<close>)
  next
    case (snoc cs c)
    have c: "c < length (id_bufs s)" "c \<noteq> b" "id_queue s \<noteq> None"
    proof -
      have "queued B h (cs @ [c]) \<Longrightarrow> c < length B \<and> h \<noteq> None" for B h
        by (induction cs arbitrary: h) auto
      then show "c < length (id_bufs s)" "id_queue s \<noteq> None" using assms(1) snoc by auto
    qed (use assms(3) snoc in auto)
    have "queued ((id_bufs ?s)[c := (id_bufs ?s ! c)\<lparr>b_qnext := Some b\<rparr>]) (id_queue s) (cs @ [c, b])"
      using q assms snoc by (intro queued_snoc) (auto simp: upd_ibuf_def)
    then show thesis
      by (intro that [of "set_qlink (Some c) (Some b) ?s"])
        (use e snoc assms(4) same c in \<open>auto simp: enqueue_def set_qlink_def upd_ibuf_def nth_list_update\<close>)
  qed
qed

section \<open>The simulation\<close>

definition uses :: "ide \<Rightarrow> nat \<Rightarrow> nat \<Rightarrow> bool" where
  "uses s p b \<longleftrightarrow> p < length (id_procs s) \<and> (id_procs s ! p = Asleep b \<or> id_procs s ! p = Awake b)"

definition waits :: "ide_buf \<Rightarrow> bool" where
  "waits x \<longleftrightarrow> b_flags x AND (B_VALID OR B_DIRTY) \<noteq> B_VALID"

definition owners_ok :: "ide \<Rightarrow> bool" where
  "owners_ok s \<longleftrightarrow> (\<forall>p b. uses s p b \<longrightarrow>
     b < length (id_bufs s) \<and> sl_locked (b_lock (ibuf b s)) \<and> sl_pid (b_lock (ibuf b s)) = int p)"

definition queue_ok :: "ide \<Rightarrow> (nat \<times> nat) list \<Rightarrow> bool" where
  "queue_ok s q \<longleftrightarrow> queued (id_bufs s) (id_queue s) (map snd q) \<and> distinct (map snd q) \<and>
     (\<forall>(p, b) \<in> set q. p < length (id_procs s) \<and> id_procs s ! p = Asleep b \<and> waits (ibuf b s)) \<and>
     (\<forall>p < length (id_procs s). \<forall>b. id_procs s ! p = Asleep b \<longrightarrow> (p, b) \<in> set q)"

definition served_ok :: "ide \<Rightarrow> (nat \<times> nat \<times> ide_buf) list \<Rightarrow> bool" where
  "served_ok s r \<longleftrightarrow> (\<forall>p < length (id_procs s). \<forall>b. id_procs s ! p = Awake b \<longrightarrow>
     (p, b, ibuf b s) \<in> set r \<and> \<not> waits (ibuf b s))"

definition device_at :: "(nat \<times> nat \<Rightarrow> block) \<Rightarrow> ide \<Rightarrow> (nat \<times> nat \<Rightarrow> block) \<Rightarrow> (nat \<times> nat) list \<Rightarrow> bool" where
  "device_at d0 s d q \<longleftrightarrow>
     (case q of
        [] \<Rightarrow> ata_disk (ata_after (id_out s) d0) = d
      | (p, b) # _ \<Rightarrow> ata_disk (ata_after (id_out s) d0) = sync_disk (ibuf b s) d \<and>
          (b_flags (ibuf b s) AND B_DIRTY = 0 \<longrightarrow>
             ata_cmd (ata_after (id_out s) d0) = Some (IDE_CMD_READ, ide_key (ibuf b s))))"

fun ide_sim :: "(nat \<times> nat \<Rightarrow> block) \<Rightarrow> ide \<Rightarrow> mem_state \<Rightarrow> bool" where
  "ide_sim d0 s (d, q, r) \<longleftrightarrow> owners_ok s \<and> queue_ok s q \<and> served_ok s r \<and> device_at d0 s d q"

lemma owner_unique: "owners_ok s \<Longrightarrow> uses s p b \<Longrightarrow> uses s p' b \<Longrightarrow> p = p'"
  unfolding owners_ok_def by (metis of_nat_eq_iff)

lemma queued_uses: "queue_ok s q \<Longrightarrow> (p, b) \<in> set q \<Longrightarrow> uses s p b"
  by (auto simp: queue_ok_def uses_def)

lemma qnext_irrelevant [simp]:
  "sync_disk (x\<lparr>b_qnext := v\<rparr>) = sync_disk x" "ide_key (x\<lparr>b_qnext := v\<rparr>) = ide_key x"
  "waits (x\<lparr>b_qnext := v\<rparr>) = waits x"
  by (simp_all add: fun_eq_iff sync_disk_def ide_key_def waits_def)

lemma start_command:
  assumes "idestart status (Some b) s = Inr s'"
  shows "s' = s\<lparr>id_out := id_out s @ ide_command (ibuf b s)\<rparr>"
    "ata_disk (ata_after (id_out s') d0) = sync_disk (ibuf b s') (ata_disk (ata_after (id_out s) d0))"
    "b_flags (ibuf b s') AND B_DIRTY = 0 \<Longrightarrow>
       ata_cmd (ata_after (id_out s') d0) = Some (IDE_CMD_READ, ide_key (ibuf b s'))"
  using assms ata_after_command [of "ibuf b s"] by (auto simp: idestart_def split: if_splits option.splits)

lemma sim_call:
  assumes sim: "ide_sim d0 s (d, q, r)" and p: "p < length (id_procs s)" "id_procs s ! p = Elsewhere"
    and b: "b < length (id_bufs s)" and call: "iderw_call status p b s = Some (Inr s')"
  shows "ide_sim d0 s' (d, q @ [(p, b)], r)"
proof -
  have S: "owners_ok s" "queue_ok s q" "served_ok s r" "device_at d0 s d q" using sim by auto
  have hold: "holdingsleep (int p) (b_lock (ibuf b s))" and w: "waits (ibuf b s)"
    using call by (auto simp: iderw_call_eq Let_def waits_def split: if_splits)
  have free: "\<not> uses s p' b" for p'
  proof
    assume "uses s p' b"
    moreover from this have "p' = p" using S(1) hold unfolding owners_ok_def holdingsleep_def by (metis of_nat_eq_iff)
    ultimately show False using p by (simp add: uses_def)
  qed
  have nq: "b \<notin> set (map snd q)"
  proof
    assume "b \<in> set (map snd q)"
    then obtain p' where "(p', b) \<in> set q" by auto
    then show False using queued_uses [OF S(2)] free by blast
  qed
  obtain s1 where s1: "enqueue b s = Some s1" "queued (id_bufs s1) (id_queue s1) (map snd q @ [b])"
    "id_procs s1 = id_procs s" "id_out s1 = id_out s" "length (id_bufs s1) = length (id_bufs s)"
    "id_queue s1 = (if map snd q = [] then Some b else id_queue s)"
    "\<And>c. c < length (id_bufs s) \<Longrightarrow> \<exists>v. ibuf c s1 = (ibuf c s)\<lparr>b_qnext := v\<rparr>"
    "\<And>c. c \<notin> set (b # map snd q) \<Longrightarrow> ibuf c s1 = ibuf c s"
    using enqueue_queued [of s "map snd q" b] S(2) nq b by (auto simp: queue_ok_def)
  obtain s2 where s2: "(if id_queue s1 = Some b then idestart status (Some b) s1 else Inr s1) = Inr s2"
    and s': "s' = iderw_wait p b s2"
    using call hold w by (auto simp: iderw_call_eq Let_def waits_def s1(1) bindR_eq_Inr split: if_splits)
  have e2: "id_bufs s2 = id_bufs s1" "id_queue s2 = id_queue s1" "id_procs s2 = id_procs s"
    using s2 start_command(1) [of status b s1] s1(3) by (auto split: if_splits)
  have same: "b_lock (ibuf c s1) = b_lock (ibuf c s)" "waits (ibuf c s1) = waits (ibuf c s)"
    "sync_disk (ibuf c s1) = sync_disk (ibuf c s)" "ide_key (ibuf c s1) = ide_key (ibuf c s)"
    "b_flags (ibuf c s1) = b_flags (ibuf c s)" if "c < length (id_bufs s)" for c
    using s1(7) [OF that] by (auto simp del: qnext_irrelevant simp: qnext_irrelevant)
  have e: "id_bufs s' = id_bufs s1" "id_queue s' = id_queue s1" "id_procs s' = (id_procs s)[p := Asleep b]"
    "id_out s' = id_out s2"
    using s' e2 same(2) [OF b] w by (auto simp: iderw_wait_def set_pc_def waits_def)
  have u: "uses s' p' c \<longleftrightarrow> (if p' = p then c = b else uses s p' c)" for p' c
    using p by (auto simp: uses_def e nth_list_update)
  have ql: "c < length (id_bufs s)" if "(p', c) \<in> set q" for p' c
    using queued_uses [OF S(2) that] S(1) by (auto simp: owners_ok_def)
  have "owners_ok s'"
    using S(1) hold b same(1) unfolding owners_ok_def u by (auto simp: e s1(5) holdingsleep_def)
  moreover have "queue_ok s' (q @ [(p, b)])"
    unfolding queue_ok_def
  proof (intro conjI ballI allI impI)
    show "queued (id_bufs s') (id_queue s') (map snd (q @ [(p, b)]))" using s1(2) by (simp add: e)
    show "distinct (map snd (q @ [(p, b)]))" using S(2) nq by (auto simp: queue_ok_def)
    fix pc assume m: "pc \<in> set (q @ [(p, b)])"
    obtain p' c where pc: "pc = (p', c)" by (cases pc)
    have "p' < length (id_procs s) \<and> id_procs s' ! p' = Asleep c \<and> waits (ibuf c s)" 
    proof (cases "(p', c) \<in> set q")
      case True
      then have "p' < length (id_procs s)" "id_procs s ! p' = Asleep c" "waits (ibuf c s)" using S(2) by (auto simp: queue_ok_def)
      then show ?thesis using p by (auto simp: e nth_list_update)
    qed (use m pc p w in \<open>auto simp: e\<close>)
    moreover have "c < length (id_bufs s)" using m pc ql b by auto
    ultimately show "case pc of (p, b) \<Rightarrow> p < length (id_procs s') \<and> id_procs s' ! p = Asleep b \<and> waits (ibuf b s')"
      using same(2) [of c] by (simp add: pc e)
  next
    fix p' c assume a: "p' < length (id_procs s')" "id_procs s' ! p' = Asleep c"
    then show "(p', c) \<in> set (q @ [(p, b)])"
      using S(2) by (cases "p' = p") (auto simp: e queue_ok_def)
  qed
  moreover have "served_ok s' r"
  proof -
    have "ibuf c s1 = ibuf c s" if "p' < length (id_procs s)" "id_procs s ! p' = Awake c" for p' c
    proof (rule s1(8))
      have "uses s p' c" using that by (simp add: uses_def)
      then have "c \<noteq> b" using free by auto
      moreover have "(p'', c) \<notin> set q" for p''
        using queued_uses [OF S(2)] owner_unique [OF S(1) \<open>uses s p' c\<close>] S(2) that by (fastforce simp: queue_ok_def)
      ultimately show "c \<notin> set (b # map snd q)" by auto
    qed
    then show ?thesis using S(3) p by (auto simp: served_ok_def e nth_list_update)
  qed
  moreover have "device_at d0 s' d (q @ [(p, b)])"
  proof (cases q)
    case Nil
    then have "idestart status (Some b) s1 = Inr s2" using s2 s1(6) by simp
    then show ?thesis
      using start_command(2,3) [of status b s1 s2 d0] S(4) Nil by (simp add: device_at_def e e2 s1(4))
  next
    case (Cons a q')
    then have "id_queue s1 \<noteq> Some b" using s1(6) S(2) nq by (auto simp: queue_ok_def)
    then have "s2 = s1" using s2 by simp
    then show ?thesis
      using S(4) Cons same(3-5) ql [of "fst a" "snd a"] by (auto simp: device_at_def e s1(4) split: prod.splits)
  qed
  ultimately show ?thesis by simp
qed

lemma intr_effect:
  assumes "id_queue s = Some b" "b < length (id_bufs s)" "idewait True status \<noteq> Some (- 1)"
    "ideintr status data status' s = Inr s'" and data: "b_flags (ibuf b s) AND B_DIRTY = 0 \<Longrightarrow> data = d (ide_key (ibuf b s))"
  obtains s1 where "id_bufs s1 = (id_bufs s)[b := sync_buf (ibuf b s) d]" "id_queue s1 = b_qnext (ibuf b s)"
    "id_procs s1 = map (\<lambda>pc. if pc = Asleep b then Awake b else pc) (id_procs s)" "id_out s1 = id_out s"
    "(if id_queue s1 = None then s' = s1 else idestart status' (id_queue s1) s1 = Inr s')"
proof -
  have r: "idewait True status = Some r \<Longrightarrow> r = 0" for r
    using assms(3) by (induction "True" status rule: idewait.induct) (auto split: if_splits)
  let ?s1 = "ide_wakeup b (upd_ibuf b (\<lambda>_. sync_buf (ibuf b s) d) (s\<lparr>id_queue := b_qnext (ibuf b s)\<rparr>))"
  have "(if id_queue ?s1 \<noteq> None then idestart status' (id_queue ?s1) ?s1 else Inr ?s1) = Inr s'"
    using assms(1,2,4) data r
    by (cases "b_flags (ibuf b s) AND B_DIRTY = 0"; cases "idewait True status")
      (auto simp: ideintr_def Let_def upd_ibuf_def sync_buf_def ide_wakeup_def bindR_eq_Inr)
  then show thesis
    by (intro that [of ?s1]) (auto simp: ide_wakeup_def upd_ibuf_def split: if_splits)
qed

lemma qnext_sync_buf [simp]: "b_qnext (sync_buf x d) = b_qnext x" "b_lock (sync_buf x d) = b_lock x" "\<not> waits (sync_buf x d)"
  by (simp_all add: sync_buf_def waits_def)

lemma sim_intr:
  assumes sim: "ide_sim d0 s (d, q, r)" and dev: "device_ok answer d0" and qb: "id_queue s = Some b"
    and st: "idewait True status \<noteq> Some (- 1)" and intr: "ideintr status (answer (id_out s)) status' s = Inr s'"
  shows "\<exists>m'. mem_do (IdeServed b (ibuf b s) (ibuf b s')) (d, q, r) = Some m' \<and> ide_sim d0 s' m'"
proof -
  have S: "owners_ok s" "queue_ok s q" "served_ok s r" "device_at d0 s d q" using sim by auto
  obtain p q' where q: "q = (p, b) # q'" using S(2) qb by (cases q) (auto simp: queue_ok_def)
  let ?x = "ibuf b s" and ?A = "ata_after (id_out s) d0"
  have disk: "ata_disk ?A = sync_disk ?x d" using S(4) by (simp add: q device_at_def)
  have b: "b < length (id_bufs s)" and p: "p < length (id_procs s)" "id_procs s ! p = Asleep b"
    using S(2) by (auto simp: queue_ok_def q)
  have data: "answer (id_out s) = d (ide_key ?x)" if "b_flags ?x AND B_DIRTY = 0"
  proof -
    have "ata_cmd ?A = Some (IDE_CMD_READ, ide_key ?x)" using S(4) that by (simp add: q device_at_def)
    then have "answer (id_out s) = ata_disk ?A (ide_key ?x)" using dev unfolding device_ok_def by blast
    then show ?thesis using that disk by (simp add: sync_disk_def)
  qed
  obtain s1 where s1: "id_bufs s1 = (id_bufs s)[b := sync_buf ?x d]" "id_queue s1 = b_qnext ?x"
    "id_procs s1 = map (\<lambda>pc. if pc = Asleep b then Awake b else pc) (id_procs s)" "id_out s1 = id_out s"
    "(if id_queue s1 = None then s' = s1 else idestart status' (id_queue s1) s1 = Inr s')"
    using intr_effect [OF qb b st intr, of d] data by blast
  have e: "id_bufs s' = id_bufs s1" "id_queue s' = id_queue s1" "id_procs s' = id_procs s1"
  proof -
    have "\<exists>out. s' = s1\<lparr>id_out := out\<rparr>"
    proof (cases "id_queue s1")
      case None
      then show ?thesis using s1(5) by (intro exI [of _ "id_out s1"]) simp
    next
      case (Some c)
      then show ?thesis using s1(5) start_command(1) [of status' c s1 s'] by (intro exI) simp
    qed
    then show "id_bufs s' = id_bufs s1" "id_queue s' = id_queue s1" "id_procs s' = id_procs s1" by auto
  qed
  have y: "ibuf b s' = sync_buf ?x d" using b by (simp add: e s1(1))
  have others: "ibuf c s' = ibuf c s" if "c \<noteq> b" for c using that by (simp add: e s1(1))
  have u: "uses s' p' c = uses s p' c" for p' c by (auto simp: uses_def e s1(3) split: if_splits)
  have only: "p' = p" if "p' < length (id_procs s)" "id_procs s ! p' = Asleep b" for p'
    using that p owner_unique [OF S(1), of p' b p] by (auto simp: uses_def)
  have nq: "b \<notin> set (map snd q')" using S(2) by (auto simp: queue_ok_def q)
  have Q: "queued (id_bufs s) (b_qnext ?x) (map snd q')" using S(2) by (auto simp: queue_ok_def q)
  have O: "owners_ok s'"
    unfolding owners_ok_def u
  proof (intro allI impI)
    fix p' c assume "uses s p' c"
    then have "c < length (id_bufs s) \<and> sl_locked (b_lock (ibuf c s)) \<and> sl_pid (b_lock (ibuf c s)) = int p'"
      using S(1) by (simp add: owners_ok_def)
    then show "c < length (id_bufs s') \<and> sl_locked (b_lock (ibuf c s')) \<and> sl_pid (b_lock (ibuf c s')) = int p'"
      using others y by (cases "c = b") (auto simp: e s1(1))
  qed
  have K: "queue_ok s' q'"
    unfolding queue_ok_def
  proof (intro conjI ballI allI impI)
    show "queued (id_bufs s') (id_queue s') (map snd q')"
      unfolding e s1(2) by (rule queued_cong [OF Q]) (use s1(1) b in \<open>auto simp: nth_list_update\<close>)
    show "distinct (map snd q')" using S(2) by (auto simp: queue_ok_def q)
    fix pc assume m: "pc \<in> set q'"
    then have "snd pc \<noteq> b" using nq by auto
    then show "case pc of (p, b) \<Rightarrow> p < length (id_procs s') \<and> id_procs s' ! p = Asleep b \<and> waits (ibuf b s')"
      using m S(2) others by (auto simp: queue_ok_def q e s1(3))
  next
    fix p' c assume a: "p' < length (id_procs s')" "id_procs s' ! p' = Asleep c"
    then have "c \<noteq> b" "id_procs s ! p' = Asleep c" "p' < length (id_procs s)" by (auto simp: e s1(3) split: if_splits)
    then show "(p', c) \<in> set q'" using S(2) by (auto simp: queue_ok_def q)
  qed
  have R: "served_ok s' ((p, b, ibuf b s') # r)"
    unfolding served_ok_def
  proof (intro allI impI)
    fix p' c assume a: "p' < length (id_procs s')" "id_procs s' ! p' = Awake c"
    show "(p', c, ibuf c s') \<in> set ((p, b, ibuf b s') # r) \<and> \<not> waits (ibuf c s')"
    proof (cases "c = b")
      case True
      then have "uses s p' b" using a by (auto simp: uses_def e s1(3) split: if_splits)
      then have "p' = p" using owner_unique [OF S(1), of p' b p] p by (simp add: uses_def)
      then show ?thesis using True y by simp
    next
      case False
      then have "id_procs s ! p' = Awake c" "p' < length (id_procs s)" using a by (auto simp: e s1(3) split: if_splits)
      then show ?thesis using S(3) others [OF False] by (auto simp: served_ok_def)
    qed
  qed
  have "device_at d0 s' (sync_disk ?x d) q'"
  proof (cases q')
    case Nil
    then have "s' = s1" using Q s1(2,5) by simp
    then show ?thesis using disk Nil by (simp add: device_at_def s1(4))
  next
    case (Cons a q'')
    then have "idestart status' (Some (snd a)) s1 = Inr s'" using Q s1(2,5) by simp
    then show ?thesis
      using start_command(2,3) [of status' "snd a" s1 s' d0] disk Cons by (auto simp: device_at_def s1(4) split: prod.splits)
  qed
  then show ?thesis using O K R y by (simp add: q)
qed

lemma sim_resume:
  assumes sim: "ide_sim d0 s (d, q, r)" and p: "p < length (id_procs s)" "id_procs s ! p = Awake b"
  shows "\<exists>m'. mem_do (if b_flags (ibuf b s) AND (B_VALID OR B_DIRTY) = B_VALID then IdeReturn p b (ibuf b s) else IdeTau) (d, q, r)
      = Some m' \<and> ide_sim d0 (iderw_wait p b s) m'"
proof -
  have S: "owners_ok s" "queue_ok s q" "served_ok s r" "device_at d0 s d q" using sim by auto
  have a: "(p, b, ibuf b s) \<in> set r" "\<not> waits (ibuf b s)" using S(3) p by (auto simp: served_ok_def)
  then have s': "iderw_wait p b s = set_pc p Elsewhere s" by (simp add: iderw_wait_def waits_def)
  have u: "uses (set_pc p Elsewhere s) p' c \<Longrightarrow> uses s p' c" for p' c
    by (cases "p' = p") (auto simp: uses_def set_pc_def)
  have "owners_ok (set_pc p Elsewhere s)"
    using S(1) u unfolding owners_ok_def by (auto simp: set_pc_def)
  moreover have "queue_ok (set_pc p Elsewhere s) q"
    using S(2) p by (fastforce simp: queue_ok_def set_pc_def nth_list_update)
  moreover have "served_ok (set_pc p Elsewhere s) (removeAll (p, b, ibuf b s) r)"
    using S(3) p by (auto simp: served_ok_def set_pc_def nth_list_update)
  moreover have "device_at d0 (set_pc p Elsewhere s) d q"
    using S(4) by (cases q) (auto simp: device_at_def set_pc_def)
  ultimately show ?thesis using a by (simp add: s' waits_def)
qed

lemma sim_other:
  assumes sim: "ide_sim d0 s (d, q, r)" and b: "\<not> in_iderw b s" "b_qnext x = b_qnext (ibuf b s)"
  shows "ide_sim d0 (upd_ibuf b (\<lambda>_. x) s) (d, q, r)"
proof -
  have S: "owners_ok s" "queue_ok s q" "served_ok s r" "device_at d0 s d q" using sim by auto
  let ?s = "upd_ibuf b (\<lambda>_. x) s"
  have nu: "\<not> uses s p b" for p using b(1) by (auto simp: uses_def in_iderw_def)
  have e: "id_procs ?s = id_procs s" "id_queue ?s = id_queue s" "id_out ?s = id_out s" "length (id_bufs ?s) = length (id_bufs s)"
    by (simp_all add: upd_ibuf_def)
  have u: "uses ?s = uses s" by (simp add: fun_eq_iff uses_def e)
  have o: "ibuf c ?s = ibuf c s" if "c \<noteq> b" for c using that by (simp add: upd_ibuf_def)
  have ne: "uses s p c \<Longrightarrow> c \<noteq> b" for p c using nu by auto
  have nq: "snd pc \<noteq> b" if "pc \<in> set q" for pc using that nu queued_uses [OF S(2), of "fst pc" "snd pc"] by auto
  have qn: "b_qnext (ibuf c ?s) = b_qnext (ibuf c s)" for c
    using b(2) o by (cases "c = b"; cases "b < length (id_bufs s)") (auto simp: upd_ibuf_def list_update_beyond)
  have "owners_ok ?s" using S(1) unfolding owners_ok_def u e by (auto simp: o [OF ne])
  moreover have "queue_ok ?s q"
    unfolding queue_ok_def e
  proof (intro conjI)
    show "queued (id_bufs ?s) (id_queue s) (map snd q)"
      by (rule queued_cong) (use S(2) qn e in \<open>auto simp: queue_ok_def\<close>)
    show "\<forall>(p, c) \<in> set q. p < length (id_procs s) \<and> id_procs s ! p = Asleep c \<and> waits (ibuf c ?s)"
      using S(2) o nq by (fastforce simp: queue_ok_def)
  qed (use S(2) in \<open>auto simp: queue_ok_def\<close>)
  moreover have "served_ok ?s r"
    unfolding served_ok_def e
  proof (intro allI impI)
    fix p c assume a: "p < length (id_procs s)" "id_procs s ! p = Awake c"
    then have "c \<noteq> b" using ne [of p c] by (simp add: uses_def)
    then show "(p, c, ibuf c ?s) \<in> set r \<and> \<not> waits (ibuf c ?s)" using S(3) a o by (simp add: served_ok_def)
  qed
  moreover have "device_at d0 ?s d q"
  proof (cases q)
    case (Cons a q')
    then have "ibuf (snd a) ?s = ibuf (snd a) s" using nq [of a] o [of "snd a"] by simp
    then show ?thesis using S(4) Cons by (cases a) (simp add: device_at_def e)
  qed (use S(4) in \<open>simp add: device_at_def e\<close>)
  ultimately show ?thesis by simp
qed

lemma sim_step:
  assumes "ide_step answer s l s'" "device_ok answer d0" "ide_sim d0 s m"
  shows "\<exists>m'. mem_do l m = Some m' \<and> ide_sim d0 s' m'"
proof -
  obtain d q r where m: "m = (d, q, r)" by (cases m)
  show ?thesis
    using assms(1)
  proof cases
    case (call p b status)
    then show ?thesis using sim_call [of d0 s d q r p b status s'] assms(3) by (simp add: m)
  next
    case (intr b status status')
    then show ?thesis using sim_intr [of d0 s d q r answer b status status' s'] assms(2,3) by (simp add: m)
  next
    case (spurious status data status')
    then show ?thesis using assms(3) by (simp add: ideintr_def)
  next
    case (resume p b)
    then show ?thesis using sim_resume [of d0 s d q r p b] assms(3) by (simp add: m)
  next
    case (other b x)
    then show ?thesis using sim_other [of d0 s d q r b x] assms(3) by (simp add: m)
  qed
qed

text \<open>A disk error on a read: the buffer is marked valid all the same, with the data it had before.\<close>

lemma read_error_leaves_old_data:
  assumes "id_queue s = Some b" "b < length (id_bufs s)" "b_flags (ibuf b s) AND B_DIRTY = 0" "b_qnext (ibuf b s) = None"
    "idewait True status = Some (- 1)"
  shows "\<exists>s'. ideintr status data status' s = Inr s' \<and> b_data (ibuf b s') = b_data (ibuf b s) \<and> \<not> waits (ibuf b s')"
  using assms by (auto simp: ideintr_def Let_def upd_ibuf_def ide_wakeup_def waits_def)

lemma sim_start:
  assumes "ide_start s"
  shows "ide_sim d0 s (ata_disk (ata_after (id_out s) d0), [], [])"
proof -
  have E: "id_procs s ! p = Elsewhere" if "p < length (id_procs s)" for p
    using assms that by (simp add: ide_start_def)
  show ?thesis
    using assms by (auto simp: E ide_start_def owners_ok_def uses_def queue_ok_def served_ok_def device_at_def)
qed

lemma sim_run:
  assumes "ide_run answer s ls s'" "device_ok answer d0" "ide_start s"
  shows "\<exists>m. mem_run ls (ata_disk (ata_after (id_out s) d0), [], []) = Some m \<and> ide_sim d0 s' m"
  using assms(1)
proof induction
  case ide_run_nil
  show ?case using sim_start [OF assms(3)] by simp
next
  case (ide_run_snoc ls s' l s'')
  then obtain m where m: "mem_run ls (ata_disk (ata_after (id_out s) d0), [], []) = Some m" "ide_sim d0 s' m" by blast
  then show ?case using sim_step [OF ide_run_snoc.hyps(2) assms(2) m(2)] by (auto simp: mem_run_snoc)
qed


definition sample_device :: "(nat \<times> nat \<Rightarrow> block) \<Rightarrow> port_out list \<Rightarrow> block" where
  "sample_device d outs =
     (case ata_cmd (ata_after outs d) of Some (v, k) \<Rightarrow> ata_disk (ata_after outs d) k | None \<Rightarrow> [])"

definition sample_buf :: ide_buf where
  "sample_buf = \<lparr>b_flags = 0, b_dev = 1, b_blockno = 3, b_lock = \<lparr>sl_locked = True, sl_pid = 0\<rparr>, b_refcnt = 1,
     b_prev = 0, b_next = 0, b_data = [], b_qnext = None\<rparr>"

definition sample_ide :: ide where
  "sample_ide = \<lparr>id_bufs = [sample_buf], id_queue = None, id_havedisk1 = True, id_out = [], id_procs = [Elsewhere]\<rparr>"

lemma sample_call:
  "iderw_call [0x40] 0 0 sample_ide =
     Some (Inr (sample_ide\<lparr>id_queue := Some 0, id_out := ide_command sample_buf, id_procs := [Asleep 0]\<rparr>))"
proof -
  have "queue_end sample_ide None = Some None" by (subst queue_end.simps) (simp add: qlink_def sample_ide_def)
  moreover have "upd_ibuf 0 (\<lambda>x. x\<lparr>b_qnext := None\<rparr>) sample_ide = sample_ide"
    by (simp add: upd_ibuf_def sample_ide_def sample_buf_def)
  ultimately show ?thesis
    by (simp add: iderw_call_def Let_def set_qlink_def idestart_def iderw_wait_def set_pc_def)
      (simp add: sample_ide_def sample_buf_def holdingsleep_def FSSIZE_def BSIZE_def SECTOR_SIZE_def B_VALID_def B_DIRTY_def
        IDE_BSY_def IDE_DRDY_def)
qed


end
