(* ===== verification/Kbd.thy ===== *)
theory Kbd
  imports Console
begin

text \<open>
  The keyboard (\<open>kbd.c\<close>, \<open>kbd.h\<close>) and the receiving side of the serial port (\<open>uart.c\<close>): scan codes
  become key values, which the interrupt handlers feed to the line discipline of \<open>Console\<close>.  The scan
  codes waiting in the controller, and the bytes waiting in the serial port, are lists.
\<close>

section \<open>Tables\<close>

definition SHIFT :: u32 where "SHIFT = 1"
definition CTL :: u32 where "CTL = 2"
definition ALT :: u32 where "ALT = 4"
definition CAPSLOCK :: u32 where "CAPSLOCK = 8"
definition NUMLOCK :: u32 where "NUMLOCK = 16"
definition SCROLLLOCK :: u32 where "SCROLLLOCK = 32"
definition E0ESC :: u32 where "E0ESC = 64"

text \<open>
  An array of 256 entries: the first ones in a row, then those with a designator, and zeros.  All
  indices are bytes.
\<close>

definition key_table :: "'a :: zero list \<Rightarrow> (nat \<times> 'a) list \<Rightarrow> u8 \<Rightarrow> 'a" where
  "key_table base entries d =
     (case map_of entries (unat d) of
        Some v \<Rightarrow> v
      | None \<Rightarrow> if unat d < length base then base ! unat d else 0)"

definition shiftcode :: "u8 \<Rightarrow> u32" where
  "shiftcode = key_table [] [(0x1D, CTL), (0x2A, SHIFT), (0x36, SHIFT), (0x38, ALT), (0x9D, CTL), (0xB8, ALT)]"

definition togglecode :: "u8 \<Rightarrow> u32" where
  "togglecode = key_table [] [(0x3A, CAPSLOCK), (0x45, NUMLOCK), (0x46, SCROLLLOCK)]"

definition special_keys :: "(nat \<times> u8) list" where
  "special_keys =
     [(156, 10), (181, 47), (200, 226), (208, 227), (201, 230), (209, 231),
      (203, 228), (205, 229), (151, 224), (207, 225), (210, 232), (211, 233)]"

definition normal_row :: "u8 list" where
  "normal_row =
     [0, 27, 49, 50, 51, 52, 53, 54, 55, 56, 57, 48, 45, 61, 8, 9,
      113, 119, 101, 114, 116, 121, 117, 105, 111, 112, 91, 93, 10, 0, 97, 115,
      100, 102, 103, 104, 106, 107, 108, 59, 39, 96, 0, 92, 122, 120, 99, 118,
      98, 110, 109, 44, 46, 47, 0, 42, 0, 32, 0, 0, 0, 0, 0, 0,
      0, 0, 0, 0, 0, 0, 0, 55, 56, 57, 45, 52, 53, 54, 43, 49,
      50, 51, 48, 46, 0, 0, 0, 0]"

definition normalmap :: "u8 \<Rightarrow> u8" where
  "normalmap = key_table normal_row special_keys"

definition shift_row :: "u8 list" where
  "shift_row =
     [0, 27, 33, 64, 35, 36, 37, 94, 38, 42, 40, 41, 95, 43, 8, 9,
      81, 87, 69, 82, 84, 89, 85, 73, 79, 80, 123, 125, 10, 0, 65, 83,
      68, 70, 71, 72, 74, 75, 76, 58, 34, 126, 0, 124, 90, 88, 67, 86,
      66, 78, 77, 60, 62, 63, 0, 42, 0, 32, 0, 0, 0, 0, 0, 0,
      0, 0, 0, 0, 0, 0, 0, 55, 56, 57, 45, 52, 53, 54, 43, 49,
      50, 51, 48, 46, 0, 0, 0, 0]"

definition shiftmap :: "u8 \<Rightarrow> u8" where
  "shiftmap = key_table shift_row special_keys"

definition ctlmap :: "u8 \<Rightarrow> u8" where
  "ctlmap = key_table
     [0, 0, 0, 0, 0, 0, 0, 0, 0, 0, 0, 0, 0, 0, 0, 0,
      17, 23, 5, 18, 20, 25, 21, 9, 15, 16, 0, 0, 13, 0, 1, 19,
      4, 6, 7, 8, 10, 11, 12, 0, 0, 0, 0, 28, 26, 24, 3, 22,
      2, 14, 13, 0, 0, 239, 0, 0]
     [(156, 13), (181, 239), (200, 226), (208, 227), (201, 230), (209, 231), (203, 228), (205, 229), (151, 224), (207, 225), (210, 232), (211, 233)]"

definition charcode :: "(u8 \<Rightarrow> u8) list" where
  "charcode = [normalmap, shiftmap, ctlmap, ctlmap]"

section \<open>Scan codes\<close>

text \<open>What \<open>kbdgetc\<close> does with the byte it read: the value it returns and the new state of \<open>shift\<close>.\<close>

definition kbd_code :: "u8 \<Rightarrow> u32 \<Rightarrow> int \<times> u32" where
  "kbd_code data shift =
     (if data = 0xE0 then (0, shift OR E0ESC)
      else if data AND 0x80 \<noteq> 0 then
        let data = (if shift AND E0ESC \<noteq> 0 then data else data AND 0x7F) in
        (0, shift AND NOT (shiftcode data OR E0ESC))
      else
        let (data, shift) = (if shift AND E0ESC \<noteq> 0 then (data OR 0x80, shift AND NOT E0ESC) else (data, shift));
            shift = shift OR shiftcode data;
            shift = xor shift (togglecode data);
            c = uint ((charcode ! unat (shift AND (CTL OR SHIFT))) data);
            c = (if shift AND CAPSLOCK \<noteq> 0 then
                   if 97 \<le> c \<and> c \<le> 122 then c + (65 - 97)
                   else if 65 \<le> c \<and> c \<le> 90 then c + (97 - 65) else c
                 else c) in
        (c, shift))"

text \<open>\<open>kbdgetc\<close> returns \<open>-1\<close> when the controller has no data.\<close>

fun kbdgetc :: "u8 list \<Rightarrow> u32 \<Rightarrow> int \<times> u8 list \<times> u32" where
  "kbdgetc [] shift = (- 1, [], shift)"
| "kbdgetc (d # ds) shift = (case kbd_code d shift of (c, shift) \<Rightarrow> (c, ds, shift))"

text \<open>The values \<open>consoleintr\<close> gets out of \<open>kbdgetc\<close>, up to the negative one.\<close>

fun kbd_keys :: "u8 list \<Rightarrow> u32 \<Rightarrow> int list \<times> u32" where
  "kbd_keys [] shift = ([fst (kbdgetc [] shift)], shift)"
| "kbd_keys (d # ds) shift =
     (case kbdgetc (d # ds) shift of (c, _, shift) \<Rightarrow> case kbd_keys ds shift of (cs, shift) \<Rightarrow> (c # cs, shift))"

definition kbdintr :: "u8 list \<Rightarrow> u32 \<Rightarrow> input \<Rightarrow> u32 \<times> input \<times> int list \<times> bool \<times> bool" where
  "kbdintr ds shift s = (case kbd_keys ds shift of (cs, shift) \<Rightarrow> (shift, consoleintr cs s))"

section \<open>The serial port\<close>

text \<open>\<open>uartputc\<close> on the status bytes it polls (at most 128): it writes the byte in any case.\<close>

definition uartputc :: "bool \<Rightarrow> u8 list \<Rightarrow> int \<Rightarrow> u8 list \<times> u8 list" where
  "uartputc uart status c =
     (if \<not> uart then ([], status)
      else ([word_of_int c], drop (min 128 (length (takeWhile (\<lambda>r. r AND 0x20 = 0) status))) status))"

fun uartgetc :: "bool \<Rightarrow> u8 list \<Rightarrow> int \<times> u8 list" where
  "uartgetc uart [] = (- 1, [])"
| "uartgetc uart (b # bs) = (if uart then (uint b, bs) else (- 1, b # bs))"

definition uartintr :: "bool \<Rightarrow> u8 list \<Rightarrow> input \<Rightarrow> input \<times> int list \<times> bool \<times> bool" where
  "uartintr uart bs s = consoleintr (if uart then map uint bs @ [- 1] else [- 1]) s"

section \<open>Typing\<close>

text \<open>How to type a character: its key alone, or with the left shift key held down; then Enter.\<close>

definition key_of :: "(u8 \<Rightarrow> u8) \<Rightarrow> u8 \<Rightarrow> u8 option" where
  "key_of t c = find (\<lambda>d. t d = c) (map of_nat [0..<0x58])"

definition type_char :: "u8 \<Rightarrow> u8 list" where
  "type_char c =
     (case key_of normalmap c of
        Some d \<Rightarrow> [d, d OR 0x80]
      | None \<Rightarrow> case key_of shiftmap c of Some d \<Rightarrow> [0x2A, d, d OR 0x80, 0xAA] | None \<Rightarrow> [])"

definition type_line :: "u8 list \<Rightarrow> u8 list" where
  "type_line cs = concat (map type_char cs) @ [0x1C, 0x9C]"

definition printable :: "u8 \<Rightarrow> bool" where
  "printable c \<longleftrightarrow> 32 \<le> c \<and> c \<le> 126"

fun kbd_codes :: "u8 list \<Rightarrow> u32 \<Rightarrow> int list \<times> u32" where
  "kbd_codes [] shift = ([], shift)"
| "kbd_codes (d # ds) shift =
     (case kbd_code d shift of (c, shift) \<Rightarrow> case kbd_codes ds shift of (cs, shift) \<Rightarrow> (c # cs, shift))"

lemma kbd_keys_codes: "kbd_keys ds shift = (fst (kbd_codes ds shift) @ [- 1], snd (kbd_codes ds shift))"
  by (induction ds arbitrary: shift) (simp_all split: prod.splits)

lemma kbd_codes_append:
  "kbd_codes (ds @ es) shift =
     (fst (kbd_codes ds shift) @ fst (kbd_codes es (snd (kbd_codes ds shift))), snd (kbd_codes es (snd (kbd_codes ds shift))))"
  by (induction ds arbitrary: shift) (simp_all split: prod.splits)

lemma key_table_row:
  assumes "unat d < length base" "\<forall>(i, v) \<in> set entries. length base \<le> i"
  shows "key_table base entries d = base ! unat d"
proof -
  have "map_of entries (unat d) = None" using assms by (force simp: map_of_eq_None_iff)
  then show ?thesis using assms(1) by (simp add: key_table_def)
qed

lemma row_lengths [simp]: "length normal_row = 88" "length shift_row = 88"
  by (simp_all add: normal_row_def shift_row_def)

lemma map_row:
  "unat d < 88 \<Longrightarrow> normalmap d = normal_row ! unat d" "unat d < 88 \<Longrightarrow> shiftmap d = shift_row ! unat d"
  by (simp_all add: normalmap_def shiftmap_def key_table_row special_keys_def)

lemma unat_key: "i < 88 \<Longrightarrow> unat (of_nat i :: u8) = i"
  by (simp add: unsigned_of_nat take_bit_nat_eq_self)

lemma key_of_Some:
  assumes "key_of t c = Some d" shows "t d = c" "unat d < 88"
  using assms by (auto simp: key_of_def find_Some_iff unat_key)

lemma key_of_None:
  assumes "key_of t c = None" "i < 88" shows "t (of_nat i) \<noteq> c"
  using assms by (auto simp: key_of_def find_None_iff)

lemma printable_rows: "set [32..<127] \<subseteq> set (map unat normal_row) \<union> set (map unat shift_row)"
  unfolding normal_row_def shift_row_def by (simp add: upt_rec_numeral)

lemma printable_has_key:
  assumes "printable c"
  shows "key_of normalmap c \<noteq> None \<or> key_of shiftmap c \<noteq> None"
proof -
  have "32 \<le> unat c" "unat c < 127" using assms by (simp_all add: printable_def word_le_nat_alt)
  then have "unat c \<in> set [32..<127]" by (simp only: set_upt atLeastLessThan_iff)
  then have "unat c \<in> set (map unat normal_row) \<union> set (map unat shift_row)" using printable_rows by (rule rev_subsetD)
  then have "unat c \<in> unat ` (set normal_row \<union> set shift_row)" by (simp only: set_map image_Un)
  then have "c \<in> set normal_row \<union> set shift_row" by (metis imageE word_unat_eq_iff)
  then obtain i where "i < 88" "normal_row ! i = c \<or> shift_row ! i = c" by (auto simp: in_set_conv_nth)
  then show ?thesis using key_of_None [of normalmap c i] key_of_None [of shiftmap c i] by (auto simp: map_row unat_key)
qed

text \<open>A key with a character on it is no modifier.\<close>

lemma character_key:
  assumes "unat d < 88" "normalmap d \<noteq> 0 \<or> shiftmap d \<noteq> 0"
  shows "shiftcode d = 0" "togglecode d = 0"
proof -
  have "unat d \<notin> {0x1D, 0x2A, 0x36, 0x38, 0x3A, 0x45, 0x46}"
    using assms by (auto simp: map_row normal_row_def shift_row_def)
  then show "shiftcode d = 0" "togglecode d = 0" using assms(1) by (simp_all add: shiftcode_def togglecode_def key_table_def)
qed

lemma bit_0x80: "bit (0x80 :: u8) n \<longleftrightarrow> n = 7"
  using bit_exp_iff [where 'a = u8, of 7 n] by auto

lemma bit_0x7f: "bit (0x7f :: u8) n \<longleftrightarrow> n < 7"
  using bit_mask_iff [where 'a = u8, of 7 n] by (auto simp: mask_eq_exp_minus_1)

lemma low_key: "unat (d :: u8) < 128 \<Longrightarrow> bit d n \<Longrightarrow> n < 7"
proof (rule ccontr)
  assume "unat d < 128" "bit d n" "\<not> n < 7"
  then have "n = 7" using bit_imp_le_length [of d n] by simp
  then have "bit (unat d) 7" using \<open>bit d n\<close> by (simp add: bit_unsigned_iff)
  then have "odd (unat d div 128)" by (simp add: bit_iff_odd)
  then show False using \<open>unat d < 128\<close> by simp
qed

lemma press_release_bytes:
  assumes "unat (d :: u8) < 88"
  shows "d \<noteq> 0xE0" "d AND 0x80 = 0" "(d OR 0x80) AND 0x80 \<noteq> 0" "(d OR 0x80) AND 0x7F = d" "d OR 0x80 \<noteq> 0xE0"
proof -
  have b: "bit d n \<Longrightarrow> n < 7" for n using low_key [of d n] assms by simp
  show "d \<noteq> 0xE0" using assms by auto
  show "d AND 0x80 = 0" by (rule bit_word_eqI) (auto simp: bit_and_iff bit_0x80 simp del: bit_numeral_word_iff dest: b)
  have "bit ((d OR 0x80) AND 0x80) 7" by (simp add: bit_and_iff bit_or_iff bit_0x80 del: bit_numeral_word_iff)
  then show "(d OR 0x80) AND 0x80 \<noteq> 0" by auto
  show e: "(d OR 0x80) AND 0x7F = d"
    by (rule bit_word_eqI) (auto simp: bit_and_iff bit_or_iff bit_0x80 bit_0x7f simp del: bit_numeral_word_iff dest: b)
  show "d OR 0x80 \<noteq> 0xE0"
  proof
    assume "d OR 0x80 = 0xE0"
    then have "d = 0xE0 AND 0x7F" using e by simp
    then show False using assms by simp
  qed
qed

lemma press_key:
  assumes "unat d < 88" "normalmap d \<noteq> 0 \<or> shiftmap d \<noteq> 0"
  shows "kbd_code d 0 = (uint (normalmap d), 0)" "kbd_code d SHIFT = (uint (shiftmap d), SHIFT)"
  using press_release_bytes [OF assms(1)] character_key [OF assms]
  by (simp_all add: kbd_code_def charcode_def SHIFT_def CTL_def E0ESC_def CAPSLOCK_def)

lemma release_key:
  assumes "unat d < 88" "normalmap d \<noteq> 0 \<or> shiftmap d \<noteq> 0"
  shows "kbd_code (d OR 0x80) 0 = (0, 0)" "kbd_code (d OR 0x80) SHIFT = (0, SHIFT)"
  using press_release_bytes [OF assms(1)] character_key [OF assms]
  by (simp_all add: kbd_code_def SHIFT_def E0ESC_def)

lemma shift_key: "kbd_code 0x2A 0 = (0, SHIFT)" "kbd_code 0xAA SHIFT = (0, 0)"
  by (simp_all add: kbd_code_def charcode_def shiftcode_def togglecode_def shiftmap_def key_table_def shift_row_def special_keys_def SHIFT_def CTL_def E0ESC_def
      CAPSLOCK_def)

lemma type_char_ok:
  assumes "printable c"
  shows "snd (kbd_codes (type_char c) 0) = 0" "filter (\<lambda>c. c \<noteq> 0) (fst (kbd_codes (type_char c) 0)) = [uint c]"
proof -
  have c: "c \<noteq> 0" "uint c \<noteq> 0" using assms by (auto simp: printable_def word_le_def)
  have "snd (kbd_codes (type_char c) 0) = 0 \<and> filter (\<lambda>c. c \<noteq> 0) (fst (kbd_codes (type_char c) 0)) = [uint c]"
  proof (cases "key_of normalmap c")
    case (Some d)
    then show ?thesis using key_of_Some [OF Some] press_key(1) [of d] release_key(1) [of d] c by (simp add: type_char_def)
  next
    case None
    then obtain d where d: "key_of shiftmap c = Some d" using printable_has_key [OF assms] by auto
    then show ?thesis
      using None key_of_Some [OF d] press_key(2) [of d] release_key(2) [of d] c by (simp add: type_char_def shift_key)
  qed
  then show "snd (kbd_codes (type_char c) 0) = 0" "filter (\<lambda>c. c \<noteq> 0) (fst (kbd_codes (type_char c) 0)) = [uint c]"
    by auto
qed

lemma enter_keys: "kbd_codes [0x1C, 0x9C] 0 = ([10, 0], 0)"
proof -
  have n: "normalmap 0x1C = 10" by (simp add: map_row normal_row_def)
  have "(0x9C :: u8) = 0x1C OR 0x80" by simp
  then show ?thesis using press_key(1) [of "0x1C"] release_key(1) [of "0x1C"] n by simp
qed

lemma type_line_keys:
  assumes "\<forall>c \<in> set cs. printable c"
  shows "snd (kbd_keys (type_line cs) 0) = 0"
    "filter (\<lambda>c. c \<noteq> 0) (fst (kbd_keys (type_line cs) 0)) = map uint cs @ [10, - 1]"
proof -
  have "snd (kbd_codes (concat (map type_char cs)) 0) = 0 \<and>
      filter (\<lambda>c. c \<noteq> 0) (fst (kbd_codes (concat (map type_char cs)) 0)) = map uint cs"
    using assms by (induction cs) (simp_all add: kbd_codes_append type_char_ok)
  then show "snd (kbd_keys (type_line cs) 0) = 0"
    "filter (\<lambda>c. c \<noteq> 0) (fst (kbd_keys (type_line cs) 0)) = map uint cs @ [10, - 1]"
    by (simp_all add: kbd_keys_codes type_line_def kbd_codes_append enter_keys del: kbd_codes.simps)
qed

text \<open>The line discipline skips zeros.\<close>

lemma console_key_0 [simp]: "console_key 0 s = (s, [], False)"
  by (simp add: console_key_def)

lemma consoleintr_skips: "fst (consoleintr cs s) = fst (consoleintr (filter (\<lambda>c. c \<noteq> 0) cs) s)"
  by (induction cs arbitrary: s) (simp_all split: prod.splits, metis fst_conv)

lemma consoleintr_line:
  assumes "input_inv s" "lines_of s = []" "\<forall>c \<in> set cs. printable c" "length (edit_line s) + length cs < 128"
  shows "input_inv (fst (consoleintr (map uint cs @ [10, - 1]) s)) \<and>
    lines_of (fst (consoleintr (map uint cs @ [10, - 1]) s)) = edit_line s @ cs @ [10]"
  using assms
proof (induction cs arbitrary: s)
  case Nil
  obtain s' out w where k: "console_key 10 s = (s', out, w)" by (cases "console_key 10 s")
  have "input_inv s' \<and> (lines_of s', edit_line s') = spec_key 10 (lines_of s, edit_line s)"
    using console_key_refines [OF Nil.prems(1) _ _ k] by simp
  then show ?case using Nil.prems by (simp add: k spec_key_def INPUT_BUF_def Let_def)
next
  case (Cons c cs)
  obtain s' out w where k: "console_key (uint c) s = (s', out, w)" by (cases "console_key (uint c) s")
  have c: "32 \<le> uint c" "uint c \<le> 126" using Cons.prems(3) by (simp_all add: printable_def word_le_def)
  then have "input_inv s' \<and> (lines_of s', edit_line s') = spec_key (uint c) (lines_of s, edit_line s)"
    by (intro console_key_refines [OF Cons.prems(1) _ _ k]) auto
  then have s': "input_inv s'" "lines_of s' = []" "edit_line s' = edit_line s @ [c]"
    using Cons.prems(2,4) c by (simp_all add: spec_key_def INPUT_BUF_def Let_def)
  then show ?case using Cons.IH [of s'] Cons.prems(3,4) c(1) by (simp add: k case_prod_beta)
qed

lemma consoleread_line:
  assumes "input_inv s" "lines_of s = cs @ 10 # rest" "4 \<notin> set cs" "10 \<notin> set cs" "length cs < n"
  shows "\<exists>s'. consoleread False target n s = (Got (cs @ [10]), s') \<and> lines_of s' = rest"
  using assms
proof (induction cs arbitrary: s n)
  case Nil
  then have ne: "in_r s \<noteq> in_w s" by (auto simp: lines_of_def committed_len_def)
  obtain m where "n = Suc m" using Nil.prems(5) by (cases n) auto
  then show ?case using pending_get [OF Nil.prems(1) ne] Nil.prems(2) ne by (simp add: Let_def)
next
  case (Cons c cs)
  then have ne: "in_r s \<noteq> in_w s" by (auto simp: lines_of_def committed_len_def)
  obtain m where n: "n = Suc m" using Cons.prems(5) by (cases n) auto
  note g = pending_get [OF Cons.prems(1) ne]
  obtain s' where "consoleread False target m (s\<lparr>in_r := in_r s + 1\<rparr>) = (Got (cs @ [10]), s')" "lines_of s' = rest"
    using Cons.IH [OF g(3), of m] Cons.prems g(1) n by auto
  then show ?case using Cons.prems g(1) ne n by (simp add: Let_def)
qed

text \<open>C32: Typing reaches the reader: for every line of printable characters (at most 127 of them), the scan codes
  of its keys, with the shift key held down where need be, and of Enter go through \<open>kbdgetc\<close> and the
  interrupt handler into the line discipline, and a reader that asks for enough bytes gets exactly
  that line and its newline; no modifier stays set.\<close>

theorem typed_line_is_read:
  assumes "input_inv s" "lines_of s = []" "edit_line s = []"
    and "\<forall>c \<in> set cs. printable c" "length cs < 128" "length cs < n"
  shows "\<exists>s' s'' echo. kbdintr (type_line cs) 0 s = (0, s', echo) \<and>
    consoleread False n n s' = (Got (cs @ [10]), s'') \<and> lines_of s'' = []"
proof -
  let ?s = "fst (consoleintr (fst (kbd_keys (type_line cs) 0)) s)"
  have "?s = fst (consoleintr (map uint cs @ [10, - 1]) s)"
    using consoleintr_skips [of "fst (kbd_keys (type_line cs) 0)" s] type_line_keys(2) [OF assms(4)] by simp
  then have "input_inv ?s" "lines_of ?s = cs @ [10]"
    using consoleintr_line [of s cs] assms by simp_all
  moreover have "4 \<notin> set cs" "10 \<notin> set cs" using assms(4) by (auto simp: printable_def)
  ultimately obtain s'' where "consoleread False n n ?s = (Got (cs @ [10]), s'')" "lines_of s'' = []"
    using consoleread_line [of ?s cs "[]" n n] assms(6) by auto
  moreover have "kbdintr (type_line cs) 0 s = (0, ?s, snd (consoleintr (fst (kbd_keys (type_line cs) 0)) s))"
    using type_line_keys(1) [OF assms(4)] by (simp add: kbdintr_def case_prod_beta)
  ultimately show ?thesis by blast
qed

theorem typed_line_is_read_witness:
  "\<exists>s' s'' echo. kbdintr (type_line [76, 115]) 0 ex_input = (0, s', echo) \<and>
     consoleread False 10 10 s' = (Got [76, 115, 10], s'')"
proof -
  have "input_inv ex_input" using console_run_inv [OF ex_input_run] by simp
  moreover have "lines_of ex_input = []" "edit_line ex_input = []"
    by (simp_all add: lines_of_def edit_line_def pending_def committed_len_def ring_contents_def ex_input_def)
  moreover have "\<forall>c \<in> set [76, 115]. printable c" by (simp add: printable_def)
  ultimately show ?thesis using typed_line_is_read [of ex_input "[76, 115]" 10] by auto
qed

end
