(* ===== verification/Spec2Isabelle.thy ===== *)
theory Spec2Isabelle
  imports Disk_Main Disk_Props Lottery Strings Grep Pipe Print Console Log Kalloc File_Refs Syscall_Props Locks Bio Fs_Props Sh_Props Sh_Run Mkfs_Props Umalloc Life Ide Kbd
begin

text \<open>
  This development models and verifies the programs of the repository: the xv6 kernel with the
  changes made to it (\<open>src/xv6_work\<close>: system calls that count writes, a lottery scheduler, a
  shut-down call; \<open>src/xv6_new_7\<close>: page table queries and memory allocated on demand), user
  programs of xv6 (shell, \<open>grep\<close>, the libraries), the disk image tool of \<open>src/inodes\<close>, and the
  threaded Game of Life of \<open>src/life\<close>.
  The two kernel trees share most of their files; the models follow \<open>xv6_work\<close>, and
  \<open>xv6_new_7\<close> where its code differs and is the point (memory, page faults, page tables).

  \<^bold>\<open>How the code is modelled.\<close>  A structure is a record, an array a list, a pointer into a table
  the index in it, a machine integer a word of its width; where C reads a number the models read
  it with \<open>unat\<close> or \<open>sint\<close>.  A function of the code is a function of the state it touches, named as
  in the code where HOL leaves the name free.  Its result is of type \<open>'a res\<close> (\<open>Prelude\<close>):
  \<open>Inr\<close> a value, or \<open>Inl\<close> an error: \<open>Panic\<close> with the message of the kernel, \<open>Exit\<close> with the
  status of a program that ends, \<open>Blocked\<close> where the code sleeps in a way the operation does not
  itself resume from, and \<open>Fault\<close> for an access outside an object, which C leaves undefined and
  some theorems exclude.  Loops are structural recursion, recursion with a measure,
  \<open>partial_function (option)\<close> where the loop runs along pointers and its end is a theorem (the
  buffer cache), or fuel where functions call each other (the shell's parser, given \<open>4 * n + 4\<close>
  for a line of \<open>n\<close> characters; \<open>sh_parser_words\<close> proves that this is always enough).
  What programs run concurrently is an inductive step relation whose steps are the pieces the
  code runs without interruption; invariants hold in all states reachable by its steps.

  \<^bold>\<open>Parts\<close>, each with its theories in the order of import.

  \<^item> \<open>Prelude\<close>: results, slices and updates of byte lists, little-endian numbers, C strings.
    \<open>Ring\<close>: the locale of ring buffers, interpreted on pipes and the console.

  \<^item> Memory.  \<open>Kalloc\<close>: \<open>kalloc.c\<close> over a byte memory with the free list in the free pages;
    the locale \<open>page_allocator\<close> is what the page tables rely on.  \<open>Vm\<close>, \<open>Vm_Tables\<close>, \<open>Vm_Props\<close>:
    \<open>vm.c\<close> and the page fault branch of \<open>trap.c\<close>; a two-level table is read out of memory as the
    hardware does, and the lemmas describe mapping as an update of that reading.

  \<^item> Storage.  \<open>Bio\<close>: the buffer cache of \<open>bio.c\<close> as an array of linked buffers over
    \<open>memide.c\<close>; its property justifies that \<open>Log\<close> sees only blocks.  \<open>Log\<close>: \<open>log.c\<close>
    with the list of disk writes, so that a crash is a prefix of it.  \<open>Ide\<close>: the driver \<open>ide.c\<close>
    with its queue, sleeping processes and interrupts; what it writes to the ports is recorded, and
    with a device that keeps its contract it refines the memory disk below the buffer cache.  \<open>Fs\<close>: all of \<open>fs.c\<close> over
    the log.  \<open>Fs_Blocks\<close> (bitmap and slots), \<open>Fs_Files\<close> (growing and writing a file),
    \<open>Fs_Inodes\<close> (inodes on disk and in the cache, \<open>writei\<close>), \<open>Fs_Trunc\<close> (freeing, the inode cache,
    \<open>ialloc\<close>), \<open>Fs_Dirs\<close> (directories) and \<open>Fs_Props\<close> prove the invariant \<open>fs_ok\<close>: blocks of
    inodes are data blocks, marked in the bitmap, each in one slot; files have no holes; the cache
    agrees with the disk.  A file is abstracted to its list of bytes, \<open>file_bytes\<close>.
    \<open>Mkfs\<close>, \<open>Mkfs_Props\<close>: \<open>mkfs.c\<close>, which builds the initial image; the image under construction
    is read as a file system in which the blocks below \<open>freeblock\<close> are marked, so the lemmas of
    \<open>Fs_Files\<close> and \<open>Fs_Inodes\<close> serve for it too, and the result boots with \<open>fs_ok\<close>.

  \<^item> Processes.  \<open>Lottery\<close>: random numbers and the draw of the scheduler.  \<open>Pipe\<close>: \<open>pipe.c\<close>.
    \<open>File\<close>: \<open>file.c\<close>.  \<open>Proc\<close>: \<open>proc.c\<close> on the kernel state, that is the process table with
    the file table, the file system and the memory of the parts above; \<open>Proc_Table\<close>,
    \<open>Proc_Steps\<close>, \<open>Proc_Props\<close>: its invariant over a step relation of all operations.
    \<open>Syscall\<close>, \<open>Sysfile\<close>, \<open>Exec\<close>: \<open>syscall.c\<close>, \<open>sysproc.c\<close>, \<open>sysfile.c\<close>, \<open>exec.c\<close> and the
    dispatch in \<open>trap.c\<close>; \<open>Syscall_Props\<close>: what pointers from user programs are checked for;
    \<open>File_Refs\<close>: reference counts of open files over every system call.
    \<open>Locks\<close>: \<open>spinlock.c\<close> and \<open>sleeplock.c\<close> with several processors.

  \<^item> Devices and text.  \<open>Console\<close>: \<open>console.c\<close> with the screen and the line discipline;
    \<open>Kbd\<close>: the scan code tables and \<open>kbdgetc\<close> (\<open>kbd.c\<close>, \<open>kbd.h\<close>), the input half of \<open>uart.c\<close>, and
    how they feed the console;
    \<open>Print\<close>: \<open>printint\<close>, \<open>cprintf\<close> and \<open>printf\<close>; \<open>Strings\<close>: \<open>string.c\<close> and the routines of \<open>ulib.c\<close>.

  \<^item> Programs.  \<open>Umalloc\<close>: \<open>umalloc.c\<close>, the free list as a circle of headers in ascending
    order.  \<open>Grep\<close>: \<open>grep.c\<close>, the matcher related to a language semantics.  \<open>Sh\<close>,
    \<open>Sh_Props\<close>, \<open>Sh_Run\<close>: \<open>sh.c\<close>, the parser related to a printer, and the running of commands with
    the outcomes of system calls as a parameter.

  \<^item> The disk image tool, \<open>inodes/disk_image.c\<close>.  \<open>Disk_Image\<close> and \<open>Disk_Main\<close> are the tool;
    \<open>Disk_Blocks\<close>, \<open>Disk_Place\<close>, \<open>Disk_File\<close> the placing of a file through three
    levels of pointer blocks (the locale \<open>entry_placer\<close>, interpreted once per level);
    \<open>Disk_Extract\<close>, \<open>Disk_Insert\<close>, \<open>Disk_Props\<close> the round trip and what the commands keep.

  \<^item> The Game of Life, \<open>life\<close>.  \<open>Life\<close>: both simulations; the threads of the parallel one take
    turns in an arbitrary order, and the accesses of their turns are part of the statement.

  \<^bold>\<open>How the parts interact.\<close>  The kernel state of \<open>Proc\<close> contains the states of \<open>File\<close>,
  \<open>Fs\<close>, \<open>Log\<close>, \<open>Kalloc\<close> and \<open>Vm\<close>; a system call runs the operations of these on it, in
  the order of the code, transactions included.  There is one processor, so an operation runs to
  its end or to \<open>sched\<close> and the locks it takes are not part of that state; \<open>Locks\<close> shows on its
  own, with several processors, that a lock gives exclusion.  Three wake-ups (in \<open>pipeclose\<close>,
  \<open>end_op\<close> and \<open>releasesleep\<close>) are steps \<open>ks_wakeup\<close> of their own, which may happen at any time.
  Writes that sleep return the bytes still to be written, reads that sleep return so;
  a transaction that must wait for the log is \<open>Blocked\<close>.  Messages printed on the console are
  not part of the state.

  \<^bold>\<open>Parameters.\<close>  What is not in the sources, or is decided by the machine: the end of the
  kernel's image and its mapping (\<open>env\<close>: \<open>kend\<close>, \<open>kdata\<close>, and the addresses of \<open>trapret\<close>,
  \<open>forkret\<close> and \<open>initcode\<close>), the device routines behind \<open>devsw\<close> (\<open>dv\<close>), the results of
  system calls in the shell and of \<open>sbrk\<close> in \<open>malloc\<close>, the disk behind the ports of
  \<open>ide.c\<close> (its contract is the hypothesis \<open>device_ok\<close>), and for the disk image tool the names that can be opened,
  fresh memory and \<open>random()\<close>.

  \<^bold>\<open>Not modelled.\<close>  Code that only talks to hardware registers (\<open>lapic.c\<close>, \<open>ioapic.c\<close>,
  \<open>picirq.c\<close>, \<open>mp.c\<close>, \<open>uartinit\<close>, the loading of segment and page table registers in
  \<open>vm.c\<close>) or starts the machine (\<open>bootmain.c\<close>, \<open>main.c\<close>, assembly); test programs
  (\<open>usertests.c\<close>, \<open>lotterytest.c\<close>, \<open>pagingtestlib.h\<close>, \<open>pp_suite.c\<close>, \<open>stressfs.c\<close>, \<open>forktest.c\<close>)
  and user programs that only print or make one system call; the files of \<open>xv6_new_7\<close> that are
  the same as those of \<open>xv6_work\<close>; the other exercises (\<open>pool\<close>, \<open>shell\<close>, \<open>C_Tutorial_#1\<close>).  The
  sleep locks of inodes are held by their callers in \<open>Fs\<close>: the interleaving of operations on one
  inode is not modelled.
\<close>

end
